(* ===== verification/Prelude.thy ===== *)
theory Prelude
  imports Complex_Main "HOL-Library.Word"
begin

text \<open>
  What every component of the development shares.

  A C or C++ function that can stop abnormally (a failed \<open>assert\<close>, \<open>abort\<close> or \<open>exit\<close>, an access
  outside an allocated array, a mutex taken twice by the same thread, a builtin called where it is
  undefined, a loop that never ends) returns a value of \<open>fault + 'a\<close>; \<open>sbind\<close> sequences such computations. Arrays of the program are lists indexed by
  \<open>int\<close> (so that the loop variables that end at \<open>-1\<close> need no special case): \<open>rd\<close> and \<open>wr\<close> are the
  checked accesses, \<open>cell\<close> is the content the lemmas talk about.
\<close>

section \<open>Faults and sequencing\<close>

datatype fault = OutOfBounds | AssertFailed | ProcessExit | Deadlock | Undefined | Diverged

type_synonym 'a res = "fault + 'a"

definition sbind :: "'e + 'a \<Rightarrow> ('a \<Rightarrow> 'e + 'b) \<Rightarrow> 'e + 'b" where
  "sbind m f = (case m of Inl e \<Rightarrow> Inl e | Inr x \<Rightarrow> f x)"

named_theorems res_simps \<open>evaluation of fault-returning computations\<close>
named_theorems frame_simps \<open>what a state update leaves alone\<close>

lemma sbind_simps [simp, res_simps]:
  "sbind (Inl e) f = Inl e"
  "sbind (Inr x) f = f x"
  by (simp_all add: sbind_def)

lemma sbind_Inr_iff: "sbind m f = Inr y \<longleftrightarrow> (\<exists>x. m = Inr x \<and> f x = Inr y)"
  by (cases m) simp_all

lemma sbind_InrE [elim]:
  assumes "sbind m f = Inr y"
  obtains x where "m = Inr x" and "f x = Inr y"
  using assms by (auto simp: sbind_Inr_iff)

lemma sbind_assoc: "sbind (sbind m f) g = sbind m (\<lambda>x. sbind (f x) g)"
  by (cases m) simp_all

lemma sbind_cong [fundef_cong]:
  "m = m' \<Longrightarrow> (\<And>x. m' = Inr x \<Longrightarrow> f x = f' x) \<Longrightarrow> sbind m f = sbind m' f'"
  by (cases m') simp_all

definition check :: "bool \<Rightarrow> unit res" where
  "check b = (if b then Inr () else Inl AssertFailed)"

lemma check_simps [simp, res_simps]:
  "b \<Longrightarrow> check b = Inr ()"
  "\<not> b \<Longrightarrow> check b = Inl AssertFailed"
  by (simp_all add: check_def)

lemma check_Inr_iff [simp]: "check b = Inr u \<longleftrightarrow> b"
  by (simp add: check_def)

section \<open>Arrays\<close>

definition rd :: "'a list \<Rightarrow> int \<Rightarrow> 'a res" where
  "rd xs i = (if 0 \<le> i \<and> i < int (length xs) then Inr (xs ! nat i) else Inl OutOfBounds)"

definition wr :: "'a list \<Rightarrow> int \<Rightarrow> 'a \<Rightarrow> 'a list res" where
  "wr xs i x =
     (if 0 \<le> i \<and> i < int (length xs) then Inr (xs[nat i := x]) else Inl OutOfBounds)"

definition cell :: "'a list \<Rightarrow> int \<Rightarrow> 'a" where
  "cell xs i = xs ! nat i"

definition upd :: "'a list \<Rightarrow> int \<Rightarrow> 'a \<Rightarrow> 'a list" where
  "upd xs i x = xs[nat i := x]"

definition len :: "'a list \<Rightarrow> int" where
  "len xs = int (length xs)"

lemma rd_cell [simp, res_simps]: "0 \<le> i \<Longrightarrow> i < len xs \<Longrightarrow> rd xs i = Inr (cell xs i)"
  by (simp add: rd_def cell_def len_def)

lemma rd_out: "\<not> (0 \<le> i \<and> i < len xs) \<Longrightarrow> rd xs i = Inl OutOfBounds"
  by (auto simp: rd_def len_def)

lemma rd_Inr_iff: "rd xs i = Inr y \<longleftrightarrow> 0 \<le> i \<and> i < len xs \<and> y = cell xs i"
  by (auto simp: rd_def cell_def len_def)

lemma wr_upd [simp, res_simps]: "0 \<le> i \<Longrightarrow> i < len xs \<Longrightarrow> wr xs i x = Inr (upd xs i x)"
  by (simp add: wr_def upd_def len_def)

lemma wr_out: "\<not> (0 \<le> i \<and> i < len xs) \<Longrightarrow> wr xs i x = Inl OutOfBounds"
  by (auto simp: wr_def len_def)

lemma wr_Inr_iff: "wr xs i x = Inr ys \<longleftrightarrow> 0 \<le> i \<and> i < len xs \<and> ys = upd xs i x"
  by (auto simp: wr_def upd_def len_def)

lemma len_upd [simp]: "len (upd xs i x) = len xs"
  by (simp add: len_def upd_def)

lemma len_nonneg [simp]: "0 \<le> len xs"
  by (simp add: len_def)

lemma len_replicate [simp]: "len (replicate n x) = int n"
  by (simp add: len_def)

lemma cell_upd_same [simp]: "0 \<le> i \<Longrightarrow> i < len xs \<Longrightarrow> cell (upd xs i x) i = x"
  by (simp add: cell_def upd_def len_def nat_less_iff)

lemma cell_upd_other [simp]: "0 \<le> i \<Longrightarrow> 0 \<le> j \<Longrightarrow> i \<noteq> j \<Longrightarrow> cell (upd xs i x) j = cell xs j"
  by (simp add: cell_def upd_def)

lemma cell_upd: "0 \<le> i \<Longrightarrow> i < len xs \<Longrightarrow> 0 \<le> j \<Longrightarrow>
    cell (upd xs i x) j = (if i = j then x else cell xs j)"
  by simp

lemma upd_upd [simp]: "upd (upd xs i x) i y = upd xs i y"
  by (simp add: upd_def)

lemma list_eq_cellI:
  assumes "len xs = len ys" and "\<And>i. 0 \<le> i \<Longrightarrow> i < len xs \<Longrightarrow> cell xs i = cell ys i"
  shows "xs = ys"
proof (rule nth_equalityI)
  show "length xs = length ys" using assms(1) by (simp add: len_def)
next
  fix n assume "n < length xs"
  with assms(2) [of "int n"] show "xs ! n = ys ! n" by (simp add: cell_def len_def)
qed

lemma cell_replicate [simp]: "0 \<le> i \<Longrightarrow> i < int n \<Longrightarrow> cell (replicate n x) i = x"
  by (simp add: cell_def nat_less_iff)

text \<open>\<open>cells xs a n\<close> is the content of the \<open>n\<close> cells from \<open>a\<close> on.\<close>

definition cells :: "'a list \<Rightarrow> int \<Rightarrow> int \<Rightarrow> 'a list" where
  "cells xs a n = map (\<lambda>k. cell xs (a + int k)) [0..<nat n]"

lemma length_cells [simp]: "length (cells xs a n) = nat n"
  by (simp add: cells_def)

lemma nth_cells [simp]: "k < nat n \<Longrightarrow> cells xs a n ! k = cell xs (a + int k)"
  by (simp add: cells_def)

lemma cells_empty [simp]: "n \<le> 0 \<Longrightarrow> cells xs a n = []"
  by (simp add: cells_def)

lemma cells_cong:
  "(\<And>k. 0 \<le> k \<Longrightarrow> k < n \<Longrightarrow> cell xs (a + k) = cell ys (b + k)) \<Longrightarrow> cells xs a n = cells ys b n"
  by (auto simp: cells_def)

lemma cells_snoc: "0 \<le> n \<Longrightarrow> cells xs a (n + 1) = cells xs a n @ [cell xs (a + n)]"
  by (simp add: cells_def nat_add_distrib)

lemma cells_Cons: "0 < n \<Longrightarrow> cells xs a n = cell xs a # cells xs (a + 1) (n - 1)"
  by (rule nth_equalityI) (auto simp: nth_Cons algebra_simps split: nat.splits)

lemma cells_append:
  "0 \<le> m \<Longrightarrow> 0 \<le> n \<Longrightarrow> cells xs a (m + n) = cells xs a m @ cells xs (a + m) n"
  by (rule nth_equalityI) (auto simp: nth_append nat_add_distrib add.assoc)

section \<open>C integers\<close>

text \<open>C division truncates towards zero.\<close>

definition cdiv :: "int \<Rightarrow> int \<Rightarrow> int" where
  "cdiv a b = sgn a * sgn b * (\<bar>a\<bar> div \<bar>b\<bar>)"

lemma cdiv_nonneg [simp]: "0 \<le> a \<Longrightarrow> 0 < b \<Longrightarrow> cdiv a b = a div b"
  by (cases "a = 0") (simp_all add: cdiv_def)

end
