(* ===== verification/PmdkUtil.thy ===== *)
theory PmdkUtil
  imports Prelude
begin

text \<open>
  Helpers of \<^verbatim>\<open>pmdk/src/core/util.c\<close> and the byte representation of integers: little-endian encoding
  (the library stores every integer that way; hosts are little-endian x86-64, where the conversions
  \<^verbatim>\<open>le32toh\<close> and their kin do nothing), \<^verbatim>\<open>util_is_zeroed\<close> and the Fletcher64-like checksums.
\<close>

unbundle bit_operations_syntax

type_synonym byte = "8 word"

section \<open>Little-endian bytes\<close>

definition to_le :: "nat \<Rightarrow> 'a::len word \<Rightarrow> byte list" where
  "to_le n w = map (\<lambda>i. ucast (drop_bit (8 * i) w)) [0..<n]"

fun of_le :: "byte list \<Rightarrow> 'a::len word" where
  "of_le [] = 0"
| "of_le (b # bs) = ucast b OR push_bit 8 (of_le bs)"

lemma length_to_le [simp]: "length (to_le n w) = n"
  by (simp add: to_le_def)

lemma bit_of_le:
  "bit (of_le bs :: 'a::len word) k \<longleftrightarrow> k < LENGTH('a) \<and> k < 8 * length bs \<and> bit (bs ! (k div 8)) (k mod 8)"
proof (induction bs arbitrary: k)
  case (Cons b bs)
  show ?case
  proof (cases "k < 8")
    case True
    then show ?thesis by (auto simp: bit_or_iff bit_push_bit_iff bit_ucast_iff dest: bit_imp_le_length)
  next
    case False
    have "\<not> bit b k" using False by (auto dest!: bit_imp_le_length)
    moreover have "k div 8 = Suc ((k - 8) div 8)" "k mod 8 = (k - 8) mod 8"
      using False by (simp_all add: le_div_geq le_mod_geq)
    moreover have "k < 8 * Suc (length bs) \<longleftrightarrow> k - 8 < 8 * length bs" using False by auto
    ultimately show ?thesis using False Cons.IH [of "k - 8"]
      by (auto simp: bit_or_iff bit_push_bit_iff bit_ucast_iff)
  qed
qed simp

lemma of_le_to_le:
  assumes "LENGTH('a::len) \<le> 8 * n"
  shows "of_le (to_le n (w :: 'a word)) = w"
proof (rule bit_word_eqI)
  fix k assume k: "k < LENGTH('a)"
  then have "k div 8 < n" using assms by (simp add: less_mult_imp_div_less mult.commute)
  then show "bit (of_le (to_le n w) :: 'a word) k \<longleftrightarrow> bit w k"
    using k assms by (simp add: bit_of_le to_le_def bit_ucast_iff bit_drop_bit_eq)
qed

lemma to_le_of_le:
  assumes "length bs = n" "8 * n \<le> LENGTH('a::len)"
  shows "to_le n (of_le bs :: 'a word) = bs"
proof (rule nth_equalityI)
  show "length (to_le n (of_le bs :: 'a word)) = length bs" using assms by simp
  fix i assume i: "i < length (to_le n (of_le bs :: 'a word))"
  show "to_le n (of_le bs :: 'a word) ! i = bs ! i"
  proof (rule bit_word_eqI)
    fix k assume k: "k < LENGTH(8)"
    have "(8 * i + k) div 8 = i" "(8 * i + k) mod 8 = k" "8 * i + k < 8 * length bs" using k i assms(1) by auto
    then show "bit (to_le n (of_le bs :: 'a word) ! i) k \<longleftrightarrow> bit (bs ! i) k"
      using k i assms by (simp add: to_le_def bit_ucast_iff bit_drop_bit_eq bit_of_le)
  qed
qed

lemma to_le_append: "to_le (m + n) w = to_le m w @ to_le n (drop_bit (8 * m) w)"
  by (rule nth_equalityI) (auto simp: to_le_def nth_append drop_bit_drop_bit algebra_simps)

text \<open>The conversions of the C library on a little-endian host.\<close>

definition le16toh :: "16 word \<Rightarrow> 16 word" where "le16toh x = x"
definition le32toh :: "32 word \<Rightarrow> 32 word" where "le32toh x = x"
definition le64toh :: "64 word \<Rightarrow> 64 word" where "le64toh x = x"
definition htole32 :: "32 word \<Rightarrow> 32 word" where "htole32 x = x"
definition htole64 :: "64 word \<Rightarrow> 64 word" where "htole64 x = x"

lemmas le_host [simp] = le16toh_def le32toh_def le64toh_def htole32_def htole64_def

section \<open>Zero test\<close>

text \<open>\<^verbatim>\<open>memcmp(a, a + 1, len - 1)\<close> compares the range with itself shifted by one.\<close>

definition util_is_zeroed :: "byte list \<Rightarrow> bool" where
  "util_is_zeroed a =
     (if a = [] then True
      else a ! 0 = 0 \<and> take (length a - 1) a = drop 1 a)"

lemma util_is_zeroed_iff: "util_is_zeroed a \<longleftrightarrow> (\<forall>b \<in> set a. b = 0)"
proof (cases a)
  case (Cons x xs)
  show ?thesis
  proof
    assume z: "util_is_zeroed a"
    have ne: "a \<noteq> []" using Cons by simp
    have eq: "take (length a - 1) a = drop 1 a" and a0: "a ! 0 = 0" using z ne by (simp_all add: util_is_zeroed_def)
    have step: "a ! Suc i = a ! i" if "Suc i < length a" for i
    proof -
      have "drop 1 a ! i = a ! Suc i" using that by (subst nth_drop) simp_all
      moreover have "take (length a - 1) a ! i = a ! i" using that by (subst nth_take) simp_all
      ultimately show ?thesis by (simp only: eq)
    qed
    have "a ! i = 0" if "i < length a" for i
      using that by (induction i) (simp_all add: a0 step)
    then show "\<forall>b \<in> set a. b = 0" by (auto simp: in_set_conv_nth)
  next
    assume z: "\<forall>b \<in> set a. b = 0"
    then have "a = replicate (length a) 0" by (simp add: replicate_length_same)
    then obtain n where a: "a = replicate n 0" "0 < n" using Cons by (metis length_greater_0_conv list.discI)
    moreover have "take m (0 # replicate m 0) = replicate m (0 :: byte)" for m
      using take_replicate [of m "Suc m" "0 :: byte"] by simp
    ultimately show "util_is_zeroed a" by (cases n) (simp_all add: util_is_zeroed_def)
  qed
qed (simp add: util_is_zeroed_def)

section \<open>Checksums\<close>

text \<open>
  The 32-bit words of a range, and the loop of \<^verbatim>\<open>util_checksum_compute\<close>: \<open>i\<close> is the index of \<^verbatim>\<open>p32\<close>,
  \<open>c\<close> the one of \<^verbatim>\<open>csump\<close> if it lies in the range, \<open>skip\<close> the one where the rest counts as zero. The
  checksum is at a multiple of four bytes from the start of the range wherever the library calls it.
\<close>

fun words32 :: "byte list \<Rightarrow> 32 word list" where
  "words32 (a # b # c # d # bs) = of_le [a, b, c, d] # words32 bs"
| "words32 bs = []"

function checksum_loop :: "32 word list \<Rightarrow> nat \<Rightarrow> nat option \<Rightarrow> nat \<Rightarrow> 32 word \<Rightarrow> 32 word \<Rightarrow> 32 word \<times> 32 word" where
  "checksum_loop ws i c skip lo32 hi32 =
     (if i < length ws then
        (if c = Some i \<or> i \<ge> skip
         then checksum_loop ws (i + 2) c skip lo32 (hi32 + lo32 + lo32)
         else let lo32 = lo32 + le32toh (ws ! i) in checksum_loop ws (i + 1) c skip lo32 (hi32 + lo32))
      else (lo32, hi32))"
  by pat_completeness auto
termination
  by (relation "measure (\<lambda>(ws, i, _). length ws - i)") auto

declare checksum_loop.simps [simp del]

definition pack64 :: "32 word \<times> 32 word \<Rightarrow> 64 word" where
  "pack64 p = push_bit 32 (ucast (snd p)) OR ucast (fst p)"

definition util_checksum_compute :: "byte list \<Rightarrow> nat option \<Rightarrow> nat \<Rightarrow> 64 word res" where
  "util_checksum_compute addr csum_off skip_off =
     (if length addr mod 4 \<noteq> 0 then Inl ProcessExit
      else let skip = (if skip_off \<noteq> 0 then skip_off else length addr) in
           Inr (pack64 (checksum_loop (words32 addr) 0 (map_option (\<lambda>o'. o' div 4) csum_off) (skip div 4) 0 0)))"

definition put_bytes :: "nat \<Rightarrow> byte list \<Rightarrow> byte list \<Rightarrow> byte list" where
  "put_bytes off new bs = take off bs @ new @ drop (off + length new) bs"

definition get_bytes :: "nat \<Rightarrow> nat \<Rightarrow> byte list \<Rightarrow> byte list" where
  "get_bytes off n bs = take n (drop off bs)"

definition util_checksum_insert :: "byte list \<Rightarrow> nat \<Rightarrow> nat \<Rightarrow> byte list res" where
  "util_checksum_insert addr csum_off skip_off =
     sbind (util_checksum_compute addr (Some csum_off) skip_off) (\<lambda>csum.
     Inr (put_bytes csum_off (to_le 8 (htole64 csum)) addr))"

definition util_checksum_check :: "byte list \<Rightarrow> nat \<Rightarrow> nat \<Rightarrow> bool res" where
  "util_checksum_check addr csum_off skip_off =
     sbind (util_checksum_compute addr (Some csum_off) skip_off) (\<lambda>csum.
     Inr (of_le (get_bytes csum_off 8 addr) = htole64 csum))"

fun checksum_seq_loop :: "32 word list \<Rightarrow> 32 word \<Rightarrow> 32 word \<Rightarrow> 32 word \<times> 32 word" where
  "checksum_seq_loop [] lo32 hi32 = (lo32, hi32)"
| "checksum_seq_loop (w # ws) lo32 hi32 =
     (let lo32 = lo32 + le32toh w in checksum_seq_loop ws lo32 (hi32 + lo32))"

definition util_checksum_seq :: "byte list \<Rightarrow> 64 word \<Rightarrow> 64 word res" where
  "util_checksum_seq addr csum =
     (if length addr mod 4 \<noteq> 0 then Inl ProcessExit
      else Inr (pack64 (checksum_seq_loop (words32 addr) (ucast csum) (ucast (drop_bit 32 csum)))))"

section \<open>What the checksums guarantee\<close>

lemma length_words32: "length (words32 bs) = length bs div 4"
  by (induction bs rule: words32.induct) auto

lemma words32_nth:
  "i < length bs div 4 \<Longrightarrow> words32 bs ! i = of_le (get_bytes (4 * i) 4 bs)"
proof (induction bs arbitrary: i rule: words32.induct)
  case (1 a b c d bs)
  have "drop (4 * Suc n) (a # b # c # d # bs) = drop (4 * n) bs" for n by (simp add: numeral_eq_Suc)
  then show ?case using 1 by (cases i) (simp_all add: get_bytes_def del: mult_Suc_right)
qed simp_all

lemma words32_append: "length xs mod 4 = 0 \<Longrightarrow> words32 (xs @ ys) = words32 xs @ words32 ys"
  by (induction xs rule: words32.induct) auto

text \<open>The loop only looks at the words outside the checksum field and below \<open>skip\<close>.\<close>

lemma checksum_loop_cong:
  assumes "length ws = length ws'"
    and "\<And>k. k < length ws \<Longrightarrow> k < skip \<Longrightarrow> c \<noteq> Some k \<Longrightarrow> (\<forall>m. c = Some m \<longrightarrow> k \<noteq> m + 1) \<Longrightarrow> ws ! k = ws' ! k"
    and "\<forall>m. c = Some m \<longrightarrow> i \<noteq> m + 1"
  shows "checksum_loop ws i c skip lo hi = checksum_loop ws' i c skip lo hi"
  using assms(3)
proof (induction "length ws - i" arbitrary: i lo hi rule: less_induct)
  case less
  show ?case
  proof (cases "i < length ws")
    case False
    then show ?thesis using assms(1) by (simp add: checksum_loop.simps [of _ i])
  next
    case True
    show ?thesis
    proof (cases "c = Some i \<or> i \<ge> skip")
      case jump: True
      have same: "checksum_loop ws (i + 2) c skip lo (hi + lo + lo) = checksum_loop ws' (i + 2) c skip lo (hi + lo + lo)"
        if "\<forall>m. c = Some m \<longrightarrow> i + 2 \<noteq> m + 1"
        using True that by (intro less.hyps) auto
      show ?thesis
      proof (cases "i \<ge> skip")
        case ge: True
        have tail: "checksum_loop ws j c skip lo hi = checksum_loop ws' j c skip lo hi" if "skip \<le> j" for j lo hi
          using that
        proof (induction "length ws - j" arbitrary: j lo hi rule: less_induct)
          case less
          then show ?case using assms(1)
            by (cases "j < length ws") (simp_all add: checksum_loop.simps [of _ j])
        qed
        show ?thesis by (rule tail [OF ge])
      next
        case False
        then have "c = Some i" using jump by simp
        then show ?thesis using True assms(1) same by (simp add: checksum_loop.simps [of _ i])
      qed
    next
      case False
      then have eq: "ws ! i = ws' ! i" using less.prems True by (intro assms(2)) auto
      have "\<forall>m. c = Some m \<longrightarrow> i + 1 \<noteq> m + 1" using False by auto
      then have "checksum_loop ws (i + 1) c skip lo' hi' = checksum_loop ws' (i + 1) c skip lo' hi'" for lo' hi'
        using True by (intro less.hyps) auto
      then show ?thesis using False True eq assms(1)
        by (simp add: checksum_loop.simps [of _ i] Let_def)
    qed
  qed
qed

lemma length_put_bytes: "off + length new \<le> length bs \<Longrightarrow> length (put_bytes off new bs) = length bs"
  by (simp add: put_bytes_def)

lemma nth_put_bytes:
  "off + length new \<le> length bs \<Longrightarrow> i < length bs \<Longrightarrow>
   put_bytes off new bs ! i = (if off \<le> i \<and> i < off + length new then new ! (i - off) else bs ! i)"
  by (auto simp: put_bytes_def nth_append min_def)

lemma get_put_bytes: "off + length new \<le> length bs \<Longrightarrow> n = length new \<Longrightarrow> get_bytes off n (put_bytes off new bs) = new"
  by (simp add: get_bytes_def put_bytes_def)

lemma get_bytes_put_other:
  assumes "off + length new \<le> length bs" "a + n \<le> off \<or> off + length new \<le> a" "a + n \<le> length bs"
  shows "get_bytes a n (put_bytes off new bs) = get_bytes a n bs"
  using assms by (intro nth_equalityI) (auto simp: get_bytes_def length_put_bytes nth_put_bytes)

text \<open>A range whose checksum has just been inserted checks.\<close>

lemma checksum_insert_check:
  assumes "length addr mod 4 = 0" "off mod 4 = 0" "off + 8 \<le> length addr"
    and "skip_off = 0 \<or> off + 8 \<le> skip_off"
  obtains addr' where "util_checksum_insert addr off skip_off = Inr addr'"
    and "length addr' = length addr" and "util_checksum_check addr' off skip_off = Inr True"
proof -
  define csum where "csum = pack64 (checksum_loop (words32 addr) 0 (Some (off div 4))
     ((if skip_off \<noteq> 0 then skip_off else length addr) div 4) 0 0)"
  define addr' where "addr' = put_bytes off (to_le 8 csum) addr"
  have len: "length addr' = length addr" using assms by (simp add: addr'_def length_put_bytes)
  have ins: "util_checksum_insert addr off skip_off = Inr addr'"
    using assms by (simp add: util_checksum_insert_def util_checksum_compute_def addr'_def csum_def Let_def)
  have "checksum_loop (words32 addr') 0 (Some (off div 4)) sk 0 0 = checksum_loop (words32 addr) 0 (Some (off div 4)) sk 0 0" for sk
  proof (rule checksum_loop_cong)
    show l: "length (words32 addr') = length (words32 addr)" by (simp add: length_words32 len)
    fix k assume k: "k < length (words32 addr')" and ne: "Some (off div 4) \<noteq> Some k"
      and ne': "\<forall>m. Some (off div 4) = Some m \<longrightarrow> k \<noteq> m + 1"
    have k4: "4 * k + 4 \<le> length addr" using k assms(1) by (simp add: length_words32 len)
    have "4 * k + 4 \<le> off \<or> off + 8 \<le> 4 * k" using ne ne' assms(2) by auto
    then have "get_bytes (4 * k) 4 addr' = get_bytes (4 * k) 4 addr"
      using assms(3) k4 by (simp add: addr'_def get_bytes_put_other)
    then show "words32 addr' ! k = words32 addr ! k" using k by (simp add: words32_nth length_words32 len)
  qed simp
  moreover have "(of_le (get_bytes off 8 addr') :: 64 word) = csum"
    using assms(3) by (simp add: addr'_def get_put_bytes of_le_to_le)
  ultimately have "util_checksum_check addr' off skip_off = Inr True"
    using assms(1) by (simp add: util_checksum_check_def util_checksum_compute_def len csum_def Let_def)
  then show thesis using that ins len by blast
qed

text \<open>The sequential checksum of a concatenation continues from the one of its first part.\<close>

lemma checksum_seq_loop_append:
  "checksum_seq_loop (xs @ ys) lo hi = (case checksum_seq_loop xs lo hi of (l, h) \<Rightarrow> checksum_seq_loop ys l h)"
  by (induction xs arbitrary: lo hi) (auto simp: Let_def)

lemma unpack64: "ucast (pack64 (l, h)) = l" "ucast (drop_bit 32 (pack64 (l, h))) = h"
  by (rule bit_word_eqI; auto simp: pack64_def bit_ucast_iff bit_or_iff bit_push_bit_iff bit_drop_bit_eq
      dest: bit_imp_le_length)+

lemma checksum_seq_append:
  assumes "length xs mod 4 = 0" "length ys mod 4 = 0"
  shows "util_checksum_seq (xs @ ys) c = sbind (util_checksum_seq xs c) (util_checksum_seq ys)"
proof -
  obtain l h where "checksum_seq_loop (words32 xs) (ucast c) (ucast (drop_bit 32 c)) = (l, h)" by fastforce
  then show ?thesis using assms
    by (simp add: util_checksum_seq_def words32_append checksum_seq_loop_append unpack64 mod_add_eq [symmetric])
qed

end
