(* ===== verification/PmdkMonad.thy ===== *)
theory PmdkMonad
  imports PmdkUtil
begin

text \<open>
  The common shape of the library's operations: a function that updates its state and returns a value, sets
  \<^verbatim>\<open>errno\<close> and fails, or stops with a fault (a failed assertion, a mutex taken twice, a loop that waits for
  ever). An operation is \<open>('s, 'a) act\<close>: it maps a state to the outcome and the state it leaves, the state
  after a failure included, because what a failing function has already written stays written. Machine
  integers other than bit fields are naturals with the wrap-around written out (\<open>u32\<close>, \<open>u64\<close>).
\<close>

section \<open>Outcomes\<close>

datatype errno = EINVAL | EIO | EROFS | ENOMEM | ENOENT | EEXIST | ENOSPC | ERANGE | EFBIG | ENOTSUP

datatype failure = Errno errno | Fault fault

type_synonym ('s, 'a) act = "'s \<Rightarrow> (failure + 'a) \<times> 's"

definition aret :: "'a \<Rightarrow> ('s, 'a) act" where "aret x s = (Inr x, s)"

definition afail :: "failure \<Rightarrow> ('s, 'a) act" where "afail e s = (Inl e, s)"

definition abind :: "('s, 'a) act \<Rightarrow> ('a \<Rightarrow> ('s, 'b) act) \<Rightarrow> ('s, 'b) act" where
  "abind m f s = (case m s of (Inl e, t) \<Rightarrow> (Inl e, t) | (Inr x, t) \<Rightarrow> f x t)"

definition aget :: "('s \<Rightarrow> 'a) \<Rightarrow> ('s, 'a) act" where "aget g s = (Inr (g s), s)"

definition amod :: "('s \<Rightarrow> 's) \<Rightarrow> ('s, unit) act" where "amod g s = (Inr (), g s)"

definition aerr :: "errno \<Rightarrow> ('s, 'a) act" where "aerr e = afail (Errno e)"

definition aassert :: "bool \<Rightarrow> ('s, unit) act" where
  "aassert b = (if b then aret () else afail (Fault AssertFailed))"

definition alift :: "'a res \<Rightarrow> ('s, 'a) act" where
  "alift r = (case r of Inl f \<Rightarrow> afail (Fault f) | Inr x \<Rightarrow> aret x)"

text \<open>\<open>acatch m h\<close> is \<open>m\<close>, with \<open>h\<close> run when \<open>m\<close> fails with an \<^verbatim>\<open>errno\<close>; a fault stops the program.\<close>

definition acatch :: "('s, 'a) act \<Rightarrow> (errno \<Rightarrow> ('s, 'a) act) \<Rightarrow> ('s, 'a) act" where
  "acatch m h s = (case m s of (Inl (Errno e), t) \<Rightarrow> h e t | r \<Rightarrow> r)"

lemmas act_defs = abind_def aret_def afail_def aerr_def aget_def amod_def alift_def acatch_def

named_theorems act_simps \<open>evaluation of operations\<close>

lemma act_eval [simp, act_simps]:
  "abind (aret x) f = f x"
  "abind (afail e) f = afail e"
  "abind (aerr c) f = aerr c"
  "abind (aassert True) k = k ()"
  by (rule ext; simp add: abind_def aret_def afail_def aerr_def aassert_def)+

lemma act_run [act_simps]:
  "aret x s = (Inr x, s)"
  "afail e s = (Inl e, s)"
  "aerr c s = (Inl (Errno c), s)"
  "aget g s = (Inr (g s), s)"
  "amod h s = (Inr (), h s)"
  "abind (aget g) f s = f (g s) s"
  "abind (amod h) k s = k () (h s)"
  by (simp_all add: aret_def afail_def aerr_def aget_def amod_def abind_def)

lemma aassert_simps [simp, act_simps]:
  "b \<Longrightarrow> aassert b = aret ()"
  "\<not> b \<Longrightarrow> aassert b = afail (Fault AssertFailed)"
  by (simp_all add: aassert_def)

lemma alift_simps [simp, act_simps]:
  "alift (Inr x) = aret x"
  "alift (Inl f) = afail (Fault f)"
  by (simp_all add: alift_def)

lemma abind_ok: "m s = (Inr x, t) \<Longrightarrow> abind m f s = f x t"
  by (simp add: abind_def)

lemma abind_fail: "m s = (Inl e, t) \<Longrightarrow> abind m f s = (Inl e, t)"
  by (simp add: abind_def)

lemma abind_assoc [act_simps]: "abind (abind m f) g = abind m (\<lambda>x. abind (f x) g)"
  by (rule ext) (simp add: abind_def split: prod.splits sum.splits)

lemma acatch_ok: "m s = (Inr x, t) \<Longrightarrow> acatch m h s = (Inr x, t)"
  by (simp add: acatch_def)

lemma acatch_errno: "m s = (Inl (Errno e), t) \<Longrightarrow> acatch m h s = h e t"
  by (simp add: acatch_def)

lemma acatch_fault: "m s = (Inl (Fault e), t) \<Longrightarrow> acatch m h s = (Inl (Fault e), t)"
  by (simp add: acatch_def)

section \<open>Unsigned arithmetic\<close>

definition u32 :: "nat \<Rightarrow> nat" where "u32 x = x mod 2 ^ 32"
definition u64 :: "nat \<Rightarrow> nat" where "u64 x = x mod 2 ^ 64"
definition sub32 :: "nat \<Rightarrow> nat \<Rightarrow> nat" where "sub32 x y = (x + (2 ^ 32 - y mod 2 ^ 32)) mod 2 ^ 32"
definition sub64 :: "nat \<Rightarrow> nat \<Rightarrow> nat" where "sub64 x y = (x + (2 ^ 64 - y mod 2 ^ 64)) mod 2 ^ 64"

lemma u32_id [simp]: "x < 2 ^ 32 \<Longrightarrow> u32 x = x" by (simp add: u32_def)
lemma u64_id [simp]: "x < 2 ^ 64 \<Longrightarrow> u64 x = x" by (simp add: u64_def)

lemma u32_less [simp]: "u32 x < 4294967296" by (simp add: u32_def)
lemma u64_less [simp]: "u64 x < 18446744073709551616" by (simp add: u64_def)

lemma sub32_id:
  assumes "y \<le> x" "x < 2 ^ 32" shows "sub32 x y = x - y"
proof -
  have "x + (2 ^ 32 - y mod 2 ^ 32) = (x - y) + 2 ^ 32" using assms by simp
  then show ?thesis using assms unfolding sub32_def by (metis less_imp_diff_less mod_add_self2 mod_less)
qed

lemma sub64_id:
  assumes "y \<le> x" "x < 2 ^ 64" shows "sub64 x y = x - y"
proof -
  have "x + (2 ^ 64 - y mod 2 ^ 64) = (x - y) + 2 ^ 64" using assms by simp
  then show ?thesis using assms unfolding sub64_def by (metis less_imp_diff_less mod_add_self2 mod_less)
qed

text \<open>The \<^verbatim>\<open>roundup\<close> and \<^verbatim>\<open>howmany\<close> macros of \<^verbatim>\<open>sys/param.h\<close>, at the two widths the library uses.\<close>

definition roundup32 :: "nat \<Rightarrow> nat \<Rightarrow> nat" where "roundup32 x y = u32 (x + (y - 1)) div y * y"
definition roundup64 :: "nat \<Rightarrow> nat \<Rightarrow> nat" where "roundup64 x y = u64 (x + (y - 1)) div y * y"
definition howmany32 :: "nat \<Rightarrow> nat \<Rightarrow> nat" where "howmany32 x y = u32 (x + (y - 1)) div y"

lemma roundup64_bounds:
  assumes "0 < y" "x + y \<le> 2 ^ 64"
  shows "x \<le> roundup64 x y" "roundup64 x y < x + y" "y dvd roundup64 x y"
proof -
  have r: "roundup64 x y = (x + (y - 1)) div y * y" using assms by (simp add: roundup64_def)
  have "(x + (y - 1)) mod y < y" using assms by simp
  moreover have "(x + (y - 1)) div y * y + (x + (y - 1)) mod y = x + (y - 1)" by simp
  ultimately show "x \<le> roundup64 x y" "roundup64 x y < x + y" using assms(1) unfolding r by linarith+
  show "y dvd roundup64 x y" unfolding r by simp
qed

text \<open>Answers of the allocator: \<open>Malloc\<close> fails when the head of the list says so, and never once it is used up.\<close>

fun alloc_next :: "bool list \<Rightarrow> bool \<times> bool list" where
  "alloc_next [] = (True, [])"
| "alloc_next (a # as) = (a, as)"

end
