(* ===== verification/BttLayout.thy ===== *)
theory BttLayout
  imports PmdkMonad
begin

text \<open>
  The on-media layout of a block translation table (\<^verbatim>\<open>pmdk/src/libpmemblk/btt_layout.h\<close> and the layout part of
  \<^verbatim>\<open>btt.c\<close>): the constants, the info block and the flog entry with their bytes, and the computation of the
  offsets of an arena. Offsets and sizes are naturals with the C wrap-around written out; the lemmas at the
  end show that no wrap-around happens for an arena of a legal size, and that the areas do not overlap.
\<close>

section \<open>Constants and records\<close>

definition BTT_ALIGNMENT :: nat where "BTT_ALIGNMENT = 4096"
definition BTTINFO_SIG_LEN :: nat where "BTTINFO_SIG_LEN = 16"
definition BTTINFO_UUID_LEN :: nat where "BTTINFO_UUID_LEN = 16"
definition BTTINFO_UNUSED_LEN :: nat where "BTTINFO_UNUSED_LEN = 3968"
definition BTTINFO_FLAG_ERROR :: "32 word" where "BTTINFO_FLAG_ERROR = 1"
definition BTTINFO_FLAG_ERROR_MASK :: "32 word" where "BTTINFO_FLAG_ERROR_MASK = 1"
definition BTTINFO_MAJOR_VERSION :: nat where "BTTINFO_MAJOR_VERSION = 1"
definition BTTINFO_MINOR_VERSION :: nat where "BTTINFO_MINOR_VERSION = 1"
definition BTT_FLOG_PAIR_ALIGN :: nat where "BTT_FLOG_PAIR_ALIGN = 64"
definition BTT_MAP_ENTRY_SIZE :: nat where "BTT_MAP_ENTRY_SIZE = 4"
definition BTT_MAP_ENTRY_ERROR :: "32 word" where "BTT_MAP_ENTRY_ERROR = 0x40000000"
definition BTT_MAP_ENTRY_ZERO :: "32 word" where "BTT_MAP_ENTRY_ZERO = 0x80000000"
definition BTT_MAP_ENTRY_NORMAL :: "32 word" where "BTT_MAP_ENTRY_NORMAL = 0xC0000000"
definition BTT_MAP_ENTRY_LBA_MASK :: "32 word" where "BTT_MAP_ENTRY_LBA_MASK = 0x3fffffff"
definition BTT_MAP_LOCK_ALIGN :: nat where "BTT_MAP_LOCK_ALIGN = 64"
definition BTT_MIN_SIZE :: nat where "BTT_MIN_SIZE = 16777216"
definition BTT_MAX_ARENA :: nat where "BTT_MAX_ARENA = 549755813888"
definition BTT_MIN_LBA_SIZE :: nat where "BTT_MIN_LBA_SIZE = 512"
definition BTT_INTERNAL_LBA_ALIGNMENT :: nat where "BTT_INTERNAL_LBA_ALIGNMENT = 256"
definition BTT_DEFAULT_NFREE :: nat where "BTT_DEFAULT_NFREE = 256"
definition SIZEOF_BTT_INFO :: nat where "SIZEOF_BTT_INFO = 4096"
definition SIZEOF_BTT_FLOG :: nat where "SIZEOF_BTT_FLOG = 16"

lemmas btt_sizes =
  BTT_ALIGNMENT_def BTTINFO_SIG_LEN_def BTTINFO_UUID_LEN_def BTTINFO_UNUSED_LEN_def BTT_FLOG_PAIR_ALIGN_def
  BTT_MAP_ENTRY_SIZE_def BTT_MAP_LOCK_ALIGN_def BTT_MIN_SIZE_def BTT_MAX_ARENA_def BTT_MIN_LBA_SIZE_def
  BTT_INTERNAL_LBA_ALIGNMENT_def BTT_DEFAULT_NFREE_def SIZEOF_BTT_INFO_def SIZEOF_BTT_FLOG_def

lemmas btt_flags =
  BTTINFO_FLAG_ERROR_def BTTINFO_FLAG_ERROR_MASK_def BTT_MAP_ENTRY_ERROR_def BTT_MAP_ENTRY_ZERO_def
  BTT_MAP_ENTRY_NORMAL_def BTT_MAP_ENTRY_LBA_MASK_def

record btt_info =
  i_sig :: "byte list"
  i_uuid :: "byte list"
  i_parent_uuid :: "byte list"
  i_flags :: "32 word"
  i_major :: nat
  i_minor :: nat
  i_external_lbasize :: nat
  i_external_nlba :: nat
  i_internal_lbasize :: nat
  i_internal_nlba :: nat
  i_nfree :: nat
  i_infosize :: nat
  i_nextoff :: nat
  i_dataoff :: nat
  i_mapoff :: nat
  i_flogoff :: nat
  i_infooff :: nat
  i_unused :: "byte list"
  i_checksum :: "64 word"

text \<open>The signature \<^verbatim>\<open>BTT_ARENA_INFO\<close> with its two zero bytes.\<close>

definition BTTINFO_SIG :: "byte list" where
  "BTTINFO_SIG = [66, 84, 84, 95, 65, 82, 69, 78, 65, 95, 73, 78, 70, 79, 0, 0]"

record btt_flog =
  f_lba :: "32 word"
  f_old_map :: "32 word"
  f_new_map :: "32 word"
  f_seq :: "32 word"

section \<open>Bytes\<close>

definition enc16 :: "nat \<Rightarrow> byte list" where "enc16 x = to_le 2 (of_nat x :: 16 word)"
definition enc32 :: "nat \<Rightarrow> byte list" where "enc32 x = to_le 4 (of_nat x :: 32 word)"
definition enc64 :: "nat \<Rightarrow> byte list" where "enc64 x = to_le 8 (of_nat x :: 64 word)"
definition dec16 :: "byte list \<Rightarrow> nat" where "dec16 bs = unat (of_le bs :: 16 word)"
definition dec32 :: "byte list \<Rightarrow> nat" where "dec32 bs = unat (of_le bs :: 32 word)"
definition dec64 :: "byte list \<Rightarrow> nat" where "dec64 bs = unat (of_le bs :: 64 word)"

lemma length_enc [simp]: "length (enc16 x) = 2" "length (enc32 x) = 4" "length (enc64 x) = 8"
  by (simp_all add: enc16_def enc32_def enc64_def)

lemma dec_enc [simp]:
  "x < 2 ^ 16 \<Longrightarrow> dec16 (enc16 x) = x"
  "x < 2 ^ 32 \<Longrightarrow> dec32 (enc32 x) = x"
  "x < 2 ^ 64 \<Longrightarrow> dec64 (enc64 x) = x"
  by (simp_all add: enc16_def enc32_def enc64_def dec16_def dec32_def dec64_def of_le_to_le unat_of_nat)

definition info_to_bytes :: "btt_info \<Rightarrow> byte list" where
  "info_to_bytes i = i_sig i @ i_uuid i @ i_parent_uuid i @ to_le 4 (i_flags i) @ enc16 (i_major i) @ enc16 (i_minor i)
     @ enc32 (i_external_lbasize i) @ enc32 (i_external_nlba i) @ enc32 (i_internal_lbasize i)
     @ enc32 (i_internal_nlba i) @ enc32 (i_nfree i) @ enc32 (i_infosize i)
     @ enc64 (i_nextoff i) @ enc64 (i_dataoff i) @ enc64 (i_mapoff i) @ enc64 (i_flogoff i) @ enc64 (i_infooff i)
     @ i_unused i @ to_le 8 (i_checksum i)"

definition info_of_bytes :: "byte list \<Rightarrow> btt_info" where
  "info_of_bytes b = \<lparr> i_sig = get_bytes 0 16 b, i_uuid = get_bytes 16 16 b, i_parent_uuid = get_bytes 32 16 b,
     i_flags = of_le (get_bytes 48 4 b), i_major = dec16 (get_bytes 52 2 b), i_minor = dec16 (get_bytes 54 2 b),
     i_external_lbasize = dec32 (get_bytes 56 4 b), i_external_nlba = dec32 (get_bytes 60 4 b),
     i_internal_lbasize = dec32 (get_bytes 64 4 b), i_internal_nlba = dec32 (get_bytes 68 4 b),
     i_nfree = dec32 (get_bytes 72 4 b), i_infosize = dec32 (get_bytes 76 4 b),
     i_nextoff = dec64 (get_bytes 80 8 b), i_dataoff = dec64 (get_bytes 88 8 b), i_mapoff = dec64 (get_bytes 96 8 b),
     i_flogoff = dec64 (get_bytes 104 8 b), i_infooff = dec64 (get_bytes 112 8 b),
     i_unused = get_bytes 120 3968 b, i_checksum = of_le (get_bytes 4088 8 b) \<rparr>"

definition INFO_CHECKSUM_OFF :: nat where "INFO_CHECKSUM_OFF = 4088"

definition flog_to_bytes :: "btt_flog \<Rightarrow> byte list" where
  "flog_to_bytes f = to_le 4 (f_lba f) @ to_le 4 (f_old_map f) @ to_le 4 (f_new_map f) @ to_le 4 (f_seq f)"

definition flog_of_bytes :: "byte list \<Rightarrow> btt_flog" where
  "flog_of_bytes b = \<lparr> f_lba = of_le (get_bytes 0 4 b), f_old_map = of_le (get_bytes 4 4 b),
     f_new_map = of_le (get_bytes 8 4 b), f_seq = of_le (get_bytes 12 4 b) \<rparr>"

text \<open>Conversions between host and media order; the host is little-endian.\<close>

definition le16n :: "nat \<Rightarrow> nat" where "le16n x = unat (le16toh (of_nat x))"
definition le32n :: "nat \<Rightarrow> nat" where "le32n x = unat (le32toh (of_nat x))"
definition le64n :: "nat \<Rightarrow> nat" where "le64n x = unat (le64toh (of_nat x))"

lemma le_n: "x < 2 ^ 16 \<Longrightarrow> le16n x = x" "x < 2 ^ 32 \<Longrightarrow> le32n x = x" "x < 2 ^ 64 \<Longrightarrow> le64n x = x"
  by (simp_all add: le16n_def le32n_def le64n_def unat_of_nat)

definition btt_info_convert2h :: "btt_info \<Rightarrow> btt_info" where
  "btt_info_convert2h i = i \<lparr> i_flags := le32toh (i_flags i), i_major := le16n (i_major i), i_minor := le16n (i_minor i),
     i_external_lbasize := le32n (i_external_lbasize i), i_external_nlba := le32n (i_external_nlba i),
     i_internal_lbasize := le32n (i_internal_lbasize i), i_internal_nlba := le32n (i_internal_nlba i),
     i_nfree := le32n (i_nfree i), i_infosize := le32n (i_infosize i), i_nextoff := le64n (i_nextoff i),
     i_dataoff := le64n (i_dataoff i), i_mapoff := le64n (i_mapoff i), i_flogoff := le64n (i_flogoff i),
     i_infooff := le64n (i_infooff i) \<rparr>"

definition btt_info_convert2le :: "btt_info \<Rightarrow> btt_info" where
  "btt_info_convert2le i = i \<lparr> i_flags := le32toh (i_flags i), i_major := le16n (i_major i), i_minor := le16n (i_minor i),
     i_external_lbasize := le32n (i_external_lbasize i), i_external_nlba := le32n (i_external_nlba i),
     i_internal_lbasize := le32n (i_internal_lbasize i), i_internal_nlba := le32n (i_internal_nlba i),
     i_nfree := le32n (i_nfree i), i_infosize := le32n (i_infosize i), i_nextoff := le64n (i_nextoff i),
     i_dataoff := le64n (i_dataoff i), i_mapoff := le64n (i_mapoff i), i_flogoff := le64n (i_flogoff i),
     i_infooff := le64n (i_infooff i) \<rparr>"

definition btt_flog_convert2h :: "btt_flog \<Rightarrow> btt_flog" where
  "btt_flog_convert2h f = \<lparr> f_lba = le32toh (f_lba f), f_old_map = le32toh (f_old_map f),
     f_new_map = le32toh (f_new_map f), f_seq = le32toh (f_seq f) \<rparr>"

definition btt_flog_convert2le :: "btt_flog \<Rightarrow> btt_flog" where
  "btt_flog_convert2le f = \<lparr> f_lba = htole32 (f_lba f), f_old_map = htole32 (f_old_map f),
     f_new_map = htole32 (f_new_map f), f_seq = htole32 (f_seq f) \<rparr>"

section \<open>Sizes and offsets of an arena\<close>

definition fail_with :: "errno \<Rightarrow> failure + 'a" where "fail_with e = Inl (Errno e)"

definition massert :: "bool \<Rightarrow> failure + unit" where
  "massert b = (if b then Inr () else Inl (Fault AssertFailed))"

lemma massert_simps [simp]: "b \<Longrightarrow> massert b = Inr ()" "\<not> b \<Longrightarrow> massert b = Inl (Fault AssertFailed)"
  by (simp_all add: massert_def)

text \<open>\<^verbatim>\<open>internal_lbasize\<close> returns \<open>0\<close> for a size that wraps around when it is aligned.\<close>

definition calc_internal_lbasize :: "nat \<Rightarrow> nat" where
  "calc_internal_lbasize external_lbasize =
     (let internal_lbasize = (if external_lbasize < BTT_MIN_LBA_SIZE then BTT_MIN_LBA_SIZE else external_lbasize);
          internal_lbasize = roundup32 internal_lbasize BTT_INTERNAL_LBA_ALIGNMENT
      in if internal_lbasize < BTT_INTERNAL_LBA_ALIGNMENT then 0 else internal_lbasize)"

definition btt_flog_size :: "nat \<Rightarrow> nat" where
  "btt_flog_size nfree =
     (let flog_size = u64 (nfree * roundup64 (2 * SIZEOF_BTT_FLOG) BTT_FLOG_PAIR_ALIGN)
      in roundup64 flog_size BTT_ALIGNMENT)"

definition btt_map_size :: "nat \<Rightarrow> nat" where
  "btt_map_size external_nlba = roundup64 (u32 (external_nlba * BTT_MAP_ENTRY_SIZE)) BTT_ALIGNMENT"

definition btt_arena_datasize :: "nat \<Rightarrow> nat \<Rightarrow> nat" where
  "btt_arena_datasize arena_size nfree = sub64 (sub64 arena_size (2 * SIZEOF_BTT_INFO)) (btt_flog_size nfree)"

definition btt_info_set_params :: "btt_info \<Rightarrow> nat \<Rightarrow> nat \<Rightarrow> nat \<Rightarrow> nat \<Rightarrow> failure + btt_info" where
  "btt_info_set_params info external_lbasize internal_lbasize nfree arena_size =
     (let info = info \<lparr> i_external_lbasize := external_lbasize, i_internal_lbasize := internal_lbasize,
                        i_nfree := nfree, i_infosize := SIZEOF_BTT_INFO \<rparr>;
          arena_data_size = btt_arena_datasize arena_size nfree;
          internal_nlba = sub64 arena_data_size BTT_ALIGNMENT
            div u32 (i_internal_lbasize info + BTT_MAP_ENTRY_SIZE)
      in if internal_nlba < u32 (2 * nfree) then fail_with EINVAL
         else sbind (massert (internal_nlba < 2 ^ 32)) (\<lambda>_.
           let internal_nlba_u32 = u32 internal_nlba;
               info = info \<lparr> i_internal_nlba := internal_nlba_u32,
                             i_external_nlba := sub32 internal_nlba_u32 (i_nfree info) \<rparr>
           in sbind (massert (sub64 arena_data_size (btt_map_size (i_external_nlba info)) div internal_lbasize
                                \<ge> internal_nlba)) (\<lambda>_. Inr info)))"

definition btt_info_set_offs :: "btt_info \<Rightarrow> nat \<Rightarrow> nat \<Rightarrow> failure + btt_info" where
  "btt_info_set_offs info arena_size space_left =
     (let info = info \<lparr> i_dataoff := i_infosize info \<rparr>;
          info = info \<lparr> i_nextoff := (if space_left \<ge> BTT_MIN_SIZE then arena_size else 0) \<rparr>;
          info = info \<lparr> i_infooff := sub64 arena_size SIZEOF_BTT_INFO \<rparr>;
          info = info \<lparr> i_flogoff := sub64 (i_infooff info) (btt_flog_size (i_nfree info)) \<rparr>;
          info = info \<lparr> i_mapoff := sub64 (i_flogoff info) (btt_map_size (i_external_nlba info)) \<rparr>
      in sbind (massert (sub64 (btt_arena_datasize arena_size (i_nfree info)) (btt_map_size (i_external_nlba info))
                           = sub64 (i_mapoff info) (i_dataoff info))) (\<lambda>_. Inr info))"

definition btt_info_set :: "btt_info \<Rightarrow> nat \<Rightarrow> nat \<Rightarrow> nat \<Rightarrow> nat \<Rightarrow> failure + btt_info" where
  "btt_info_set info external_lbasize nfree arena_size space_left =
     (let internal_lba_size = calc_internal_lbasize external_lbasize
      in if internal_lba_size = 0 then fail_with EINVAL
         else sbind (btt_info_set_params info external_lbasize internal_lba_size nfree arena_size) (\<lambda>info.
              btt_info_set_offs info arena_size space_left))"

section \<open>No wrap-around, no overlap\<close>

lemma internal_lbasize_bounds:
  assumes "calc_internal_lbasize e = L" "L \<noteq> 0" "e < 2 ^ 32"
  shows "e \<le> L" "512 \<le> L" "L < 2 ^ 32 - 255" "256 dvd L"
proof -
  define x where "x = (if e < 512 then 512 else e)"
  have x: "512 \<le> x" "e \<le> x" "x < 2 ^ 32" using assms(3) by (auto simp: x_def)
  have L: "L = (if roundup32 x 256 < 256 then 0 else roundup32 x 256)"
    using assms(1) by (auto simp: calc_internal_lbasize_def btt_sizes x_def Let_def)
  have r: "roundup32 x 256 = (x + 255) mod 2 ^ 32 div 256 * 256" by (simp add: roundup32_def u32_def)
  have small: "x + 255 < 2 ^ 32"
  proof (rule ccontr)
    assume "\<not> x + 255 < 2 ^ 32"
    then have "(x + 255) mod 2 ^ 32 = x + 255 - 2 ^ 32" using x(3) by (simp add: mod_if)
    then have "(x + 255) mod 2 ^ 32 < 255" using x(3) by linarith
    then show False using L assms(2) r by simp
  qed
  then have Lx: "L = (x + 255) div 256 * 256" using L r assms(2) by (simp split: if_splits)
  show "e \<le> L" "512 \<le> L" using x Lx by linarith+
  show "256 dvd L" unfolding Lx by simp
  have "(x + 255) div 256 \<le> 16777215" using small by (simp add: div_le_mono [of _ "2 ^ 32 - 1" 256, simplified])
  then show "L < 2 ^ 32 - 255" unfolding Lx by simp
qed

lemma btt_flog_size_eq: "nfree < 2 ^ 32 \<Longrightarrow> btt_flog_size nfree = (nfree * 64 + 4095) div 4096 * 4096"
  by (simp add: btt_flog_size_def btt_sizes roundup64_def Let_def)

lemma btt_flog_size_bounds:
  assumes "nfree < 2 ^ 32"
  shows "nfree * 64 \<le> btt_flog_size nfree" "btt_flog_size nfree < nfree * 64 + 4096" "4096 dvd btt_flog_size nfree"
proof -
  have e: "btt_flog_size nfree = roundup64 (nfree * 64) 4096"
    using assms by (simp add: btt_flog_size_def btt_sizes Let_def roundup64_def)
  show "nfree * 64 \<le> btt_flog_size nfree" "btt_flog_size nfree < nfree * 64 + 4096" "4096 dvd btt_flog_size nfree"
    unfolding e using assms by (intro roundup64_bounds; simp)+
qed

lemma btt_map_size_bounds:
  assumes "n < 2 ^ 30"
  shows "n * 4 \<le> btt_map_size n" "btt_map_size n < n * 4 + 4096" "4096 dvd btt_map_size n"
proof -
  have e: "btt_map_size n = roundup64 (n * 4) 4096"
    using assms by (simp add: btt_map_size_def btt_sizes)
  show "n * 4 \<le> btt_map_size n" "btt_map_size n < n * 4 + 4096" "4096 dvd btt_map_size n"
    unfolding e using assms by (intro roundup64_bounds; simp)+
qed

text \<open>What a laid out arena looks like: five areas one after the other, the first and the last an info block.\<close>

definition layout_ok :: "btt_info \<Rightarrow> nat \<Rightarrow> bool" where
  "layout_ok i arena_size \<longleftrightarrow>
     i_external_lbasize i \<le> i_internal_lbasize i \<and> 512 \<le> i_internal_lbasize i \<and> 256 dvd i_internal_lbasize i
     \<and> i_internal_nlba i < 2 ^ 30 \<and> 2 * i_nfree i \<le> i_internal_nlba i \<and> i_external_nlba i + i_nfree i = i_internal_nlba i
     \<and> i_dataoff i = SIZEOF_BTT_INFO
     \<and> i_dataoff i + i_internal_nlba i * i_internal_lbasize i \<le> i_mapoff i
     \<and> i_mapoff i + i_external_nlba i * BTT_MAP_ENTRY_SIZE \<le> i_flogoff i
     \<and> i_flogoff i + i_nfree i * BTT_FLOG_PAIR_ALIGN \<le> i_infooff i
     \<and> i_infooff i + SIZEOF_BTT_INFO = arena_size
     \<and> BTT_ALIGNMENT dvd i_infooff i - i_flogoff i \<and> BTT_ALIGNMENT dvd i_infooff i - i_mapoff i"

lemma params_ok:
  assumes L: "512 \<le> L" "L < 2 ^ 32 - 255" and n: "nfree \<le> 65536"
    and size: "BTT_MIN_SIZE \<le> arena_size" "arena_size \<le> BTT_MAX_ARENA"
  defines "D \<equiv> arena_size - 8192 - btt_flog_size nfree"
  defines "k \<equiv> (D - 4096) div (L + 4)"
  shows "btt_arena_datasize arena_size nfree = D" "4096 + btt_flog_size nfree + 8192 \<le> arena_size" "k < 2 ^ 30"
    and "nfree \<le> k \<Longrightarrow> k * L + btt_map_size (k - nfree) \<le> D"
    and "sub64 D BTT_ALIGNMENT div u32 (L + BTT_MAP_ENTRY_SIZE) = k"
proof -
  have f: "btt_flog_size nfree < nfree * 64 + 4096" using n by (intro btt_flog_size_bounds) simp
  show a: "4096 + btt_flog_size nfree + 8192 \<le> arena_size" using f n size(1) by (simp add: btt_sizes)
  have "sub64 arena_size 8192 = arena_size - 8192" using size by (intro sub64_id) (simp_all add: btt_sizes)
  moreover have "sub64 (arena_size - 8192) (btt_flog_size nfree) = D"
    unfolding D_def using a size by (intro sub64_id) (simp_all add: btt_sizes)
  ultimately show D: "btt_arena_datasize arena_size nfree = D" by (simp add: btt_arena_datasize_def btt_sizes)
  have D64: "D < 2 ^ 64" "4096 \<le> D" using a size by (simp_all add: D_def btt_sizes)
  then show "sub64 D BTT_ALIGNMENT div u32 (L + BTT_MAP_ENTRY_SIZE) = k"
    using L by (simp add: btt_sizes k_def sub64_id)
  have "k \<le> (D - 4096) div 516" unfolding k_def using L by (intro div_le_mono2) auto
  also have "\<dots> < 2 ^ 30" using size(2) by (simp add: D_def btt_sizes)
  finally show k: "k < 2 ^ 30" .
  assume "nfree \<le> k"
  have "btt_map_size (k - nfree) < (k - nfree) * 4 + 4096" using k by (intro btt_map_size_bounds) simp
  moreover have "k * (L + 4) \<le> D - 4096" unfolding k_def by simp
  ultimately show "k * L + btt_map_size (k - nfree) \<le> D" using D64(2) by (simp add: algebra_simps)
qed

lemma btt_info_set_ok:
  assumes "external_lbasize < 2 ^ 32" "nfree \<le> 65536" "BTT_MIN_SIZE \<le> arena_size" "arena_size \<le> BTT_MAX_ARENA"
  shows "(\<exists>i'. btt_info_set i external_lbasize nfree arena_size space_left = Inr i'
            \<and> layout_ok i' arena_size \<and> i_nfree i' = nfree \<and> i_external_lbasize i' = external_lbasize
            \<and> i_internal_lbasize i' = calc_internal_lbasize external_lbasize
            \<and> i_nextoff i' = (if space_left \<ge> BTT_MIN_SIZE then arena_size else 0))
         \<or> btt_info_set i external_lbasize nfree arena_size space_left = Inl (Errno EINVAL)"
proof -
  define L where "L = calc_internal_lbasize external_lbasize"
  define D where "D = arena_size - 8192 - btt_flog_size nfree"
  define k where "k = (D - 4096) div (L + 4)"
  show ?thesis
  proof (cases "L = 0 \<or> k < 2 * nfree")
    case True
    then show ?thesis
    proof
      assume "L = 0" then show ?thesis by (simp add: btt_info_set_def L_def fail_with_def)
    next
      assume k2: "k < 2 * nfree"
      show ?thesis
      proof (cases "L = 0")
        case True then show ?thesis by (simp add: btt_info_set_def L_def fail_with_def)
      next
        case False
        note lb = internal_lbasize_bounds [OF L_def [symmetric] False assms(1)]
        note p = params_ok [OF lb(2,3) assms(2-4), folded D_def, folded k_def]
        have "u32 (2 * nfree) = 2 * nfree" using assms(2) by simp
        then show ?thesis using False k2
          by (simp add: btt_info_set_def btt_info_set_params_def Let_def L_def [symmetric] p fail_with_def)
      qed
    qed
  next
    case False
    note lb = internal_lbasize_bounds [OF L_def [symmetric] _ assms(1)]
    have L: "512 \<le> L" "L < 2 ^ 32 - 255" "external_lbasize \<le> L" "256 dvd L" using False lb by auto
    note p = params_ok [OF L(1,2) assms(2-4), folded D_def, folded k_def]
    have n2: "u32 (2 * nfree) = 2 * nfree" using assms(2) by simp
    define M where "M = btt_map_size (k - nfree)"
    have kM: "k * L + M \<le> D" using p(4) False by (simp add: M_def)
    have fs: "nfree * 64 \<le> btt_flog_size nfree" "4096 dvd btt_flog_size nfree"
      using assms(2) by (intro btt_flog_size_bounds; simp)+
    have ms: "(k - nfree) * 4 \<le> M" "4096 dvd M" unfolding M_def using p(3) by (intro btt_map_size_bounds; simp)+
    have ext: "sub32 k nfree = k - nfree" using False p(3) by (intro sub32_id) simp_all
    have D64: "D < 2 ^ 64" using assms(4) by (simp add: D_def btt_sizes)
    have "sub64 D M = D - M" using kM D64 by (intro sub64_id) simp_all
    moreover have "k \<le> (D - M) div L"
    proof -
      have "k * L div L \<le> (D - M) div L" using kM by (intro div_le_mono) simp
      then show ?thesis using L(1) by simp
    qed
    ultimately have fit: "k \<le> sub64 D M div L" by simp
    define i1 where "i1 = i \<lparr> i_external_lbasize := external_lbasize, i_internal_lbasize := L,
                        i_nfree := nfree, i_infosize := SIZEOF_BTT_INFO, i_internal_nlba := k, i_external_nlba := k - nfree \<rparr>"
    have set1: "btt_info_set_params i external_lbasize L nfree arena_size = Inr i1"
      using False p(3) fit unfolding btt_info_set_params_def Let_def
      by (simp add: p(1) n2 p(5) ext i1_def) (simp add: M_def)
    have io: "sub64 arena_size SIZEOF_BTT_INFO = arena_size - 4096"
      using assms(3,4) by (subst sub64_id) (simp_all add: btt_sizes)
    have fo: "sub64 (arena_size - 4096) (btt_flog_size nfree) = arena_size - 4096 - btt_flog_size nfree"
      using assms(4) p(2) by (intro sub64_id) (simp_all add: btt_sizes)
    have mo: "sub64 (arena_size - 4096 - btt_flog_size nfree) M = arena_size - 4096 - btt_flog_size nfree - M"
      using assms(4) p(2) kM by (intro sub64_id) (simp_all add: btt_sizes D_def)
    have dm: "sub64 (arena_size - 4096 - btt_flog_size nfree - M) SIZEOF_BTT_INFO = D - M"
      using assms(4) p(2) kM by (subst sub64_id) (simp_all add: btt_sizes D_def)
    define i2 where "i2 = i1 \<lparr> i_dataoff := SIZEOF_BTT_INFO, i_nextoff := (if space_left \<ge> BTT_MIN_SIZE then arena_size else 0),
      i_infooff := arena_size - 4096, i_flogoff := arena_size - 4096 - btt_flog_size nfree,
      i_mapoff := arena_size - 4096 - btt_flog_size nfree - M \<rparr>"
    have set2: "btt_info_set_offs i1 arena_size space_left = Inr i2"
      unfolding btt_info_set_offs_def Let_def
      by (simp add: i1_def i2_def io fo M_def [symmetric] mo p(1) dm \<open>sub64 D M = D - M\<close> del: diff_diff_left)
    have as: "arena_size = D + 8192 + btt_flog_size nfree" using p(2) by (simp add: D_def)
    have "layout_ok i2 arena_size"
      unfolding layout_ok_def using L p(2,3) kM fs ms False assms(3) as
      apply (simp add: i2_def i1_def btt_sizes)
      apply (intro conjI; linarith)
      done
    then show ?thesis using False set1 set2
      by (simp add: btt_info_set_def L_def [symmetric] i2_def i1_def)
  qed
qed

end
