(* ===== verification/Btt.thy ===== *)
theory Btt
  imports BttLayout
begin

text \<open>
  The block translation table of \<^verbatim>\<open>pmdk/src/libpmemblk/btt.c\<close>: the run-time state of a namespace and of
  its arenas, and the operations the block pool calls. The namespace itself is of any type \<open>'n\<close>; all I/O goes
  through the callbacks stored in the state, as in the code. A pointer to an arena is its index. One thread
  runs an operation from its start to its end; a mutex it would take twice is a deadlock, a wait for another
  thread's read a divergence. The allocator's answers and the generated UUID are parts of the state
  (\<open>b_allocs\<close>, \<open>b_uuid_gen\<close>).
\<close>

section \<open>State\<close>

text \<open>Lane, then count or bytes, then offset. \<^verbatim>\<open>nsmap\<close> returns the bytes it maps; \<^verbatim>\<open>nssync\<close> is never called here.\<close>

record 'n ns_callback =
  nsread :: "'n \<Rightarrow> nat \<Rightarrow> nat \<Rightarrow> nat \<Rightarrow> failure + byte list"
  nswrite :: "'n \<Rightarrow> nat \<Rightarrow> byte list \<Rightarrow> nat \<Rightarrow> (failure + unit) \<times> 'n"
  nszero :: "'n \<Rightarrow> nat \<Rightarrow> nat \<Rightarrow> nat \<Rightarrow> (failure + unit) \<times> 'n"
  nsmap :: "'n \<Rightarrow> nat \<Rightarrow> nat \<Rightarrow> nat \<Rightarrow> failure + byte list"
  ns_is_zeroed :: bool

record flog_runtime =
  r_flog :: btt_flog
  r_entries :: "nat list"
  r_next :: nat

record arena =
  a_flags :: "32 word"
  a_external_nlba :: nat
  a_internal_lbasize :: nat
  a_internal_nlba :: nat
  a_startoff :: nat
  a_dataoff :: nat
  a_mapoff :: nat
  a_flogoff :: nat
  a_nextoff :: nat
  a_flogs :: "flog_runtime list"
  a_rtt :: "32 word list"
  a_map_locks :: "bool list"
  a_info_lock :: bool

record 'n btt =
  b_nlane :: nat
  b_layout_write_mutex :: bool
  b_laidout :: bool
  b_uuid :: "byte list"
  b_parent_uuid :: "byte list"
  b_rawsize :: nat
  b_lbasize :: nat
  b_nfree :: nat
  b_nlba :: nat
  b_narena :: nat
  b_arenas :: "arena list"
  b_ns :: 'n
  b_ns_cbp :: "'n ns_callback"
  b_allocs :: "bool list"
  b_uuid_gen :: "failure + byte list"

definition Zflog :: btt_flog where
  "Zflog = \<lparr> f_lba = 0, f_old_map = 0, f_new_map = 0, f_seq = 0 \<rparr>"

definition zero_flog_runtime :: flog_runtime where
  "zero_flog_runtime = \<lparr> r_flog = Zflog, r_entries = [0, 0], r_next = 0 \<rparr>"

definition zero_arena :: arena where
  "zero_arena = \<lparr> a_flags = 0, a_external_nlba = 0, a_internal_lbasize = 0, a_internal_nlba = 0, a_startoff = 0,
     a_dataoff = 0, a_mapoff = 0, a_flogoff = 0, a_nextoff = 0, a_flogs = [], a_rtt = [], a_map_locks = [],
     a_info_lock = False \<rparr>"

section \<open>Access to the state\<close>

definition nrd :: "'a list \<Rightarrow> nat \<Rightarrow> 'a res" where
  "nrd xs i = (if i < length xs then Inr (xs ! i) else Inl OutOfBounds)"

lemma nrd_simps [simp, act_simps]: "i < length xs \<Longrightarrow> nrd xs i = Inr (xs ! i)"
  by (simp add: nrd_def)

definition get_arena :: "nat \<Rightarrow> ('n btt, arena) act" where
  "get_arena a s = alift (nrd (b_arenas s) a) s"

definition upd_arena :: "nat \<Rightarrow> (arena \<Rightarrow> arena) \<Rightarrow> 'n btt \<Rightarrow> 'n btt" where
  "upd_arena a f s = s \<lparr> b_arenas := (b_arenas s)[a := f (b_arenas s ! a)] \<rparr>"

definition upd_flog :: "nat \<Rightarrow> nat \<Rightarrow> (flog_runtime \<Rightarrow> flog_runtime) \<Rightarrow> 'n btt \<Rightarrow> 'n btt" where
  "upd_flog a i f = upd_arena a (\<lambda>ar. ar \<lparr> a_flogs := (a_flogs ar)[i := f (a_flogs ar ! i)] \<rparr>)"

definition ns_read :: "nat \<Rightarrow> nat \<Rightarrow> nat \<Rightarrow> ('n btt, byte list) act" where
  "ns_read lane count off s = (nsread (b_ns_cbp s) (b_ns s) lane count off, s)"

definition ns_write :: "nat \<Rightarrow> byte list \<Rightarrow> nat \<Rightarrow> ('n btt, unit) act" where
  "ns_write lane buf off s =
     (case nswrite (b_ns_cbp s) (b_ns s) lane buf off of (r, n) \<Rightarrow> (r, s \<lparr> b_ns := n \<rparr>))"

definition ns_zero :: "nat \<Rightarrow> nat \<Rightarrow> nat \<Rightarrow> ('n btt, unit) act" where
  "ns_zero lane count off s =
     (case nszero (b_ns_cbp s) (b_ns s) lane count off of (r, n) \<Rightarrow> (r, s \<lparr> b_ns := n \<rparr>))"

text \<open>\<^verbatim>\<open>Malloc\<close> and \<^verbatim>\<open>Zalloc\<close>: the call fails with \<^verbatim>\<open>ENOMEM\<close> or goes on.\<close>

definition alloc :: "('n btt, unit) act" where
  "alloc s = (case alloc_next (b_allocs s) of (ok, as) \<Rightarrow>
     (if ok then Inr () else Inl (Errno ENOMEM), s \<lparr> b_allocs := as \<rparr>))"

definition lock_map :: "nat \<Rightarrow> nat \<Rightarrow> ('n btt, unit) act" where
  "lock_map a n = abind (get_arena a) (\<lambda>ar. abind (alift (nrd (a_map_locks ar) n)) (\<lambda>taken.
     if taken then afail (Fault Deadlock)
     else amod (upd_arena a (\<lambda>ar. ar \<lparr> a_map_locks := (a_map_locks ar)[n := True] \<rparr>))))"

definition unlock_map :: "nat \<Rightarrow> nat \<Rightarrow> ('n btt, unit) act" where
  "unlock_map a n = amod (upd_arena a (\<lambda>ar. ar \<lparr> a_map_locks := (a_map_locks ar)[n := False] \<rparr>))"

definition lock_info :: "nat \<Rightarrow> ('n btt, unit) act" where
  "lock_info a = abind (get_arena a) (\<lambda>ar. if a_info_lock ar then afail (Fault Deadlock)
     else amod (upd_arena a (\<lambda>ar. ar \<lparr> a_info_lock := True \<rparr>)))"

definition unlock_info :: "nat \<Rightarrow> ('n btt, unit) act" where
  "unlock_info a = amod (upd_arena a (\<lambda>ar. ar \<lparr> a_info_lock := False \<rparr>))"

definition lock_layout :: "('n btt, unit) act" where
  "lock_layout = abind (aget b_layout_write_mutex) (\<lambda>taken. if taken then afail (Fault Deadlock)
     else amod (\<lambda>s. s \<lparr> b_layout_write_mutex := True \<rparr>))"

definition unlock_layout :: "('n btt, unit) act" where
  "unlock_layout = amod (\<lambda>s. s \<lparr> b_layout_write_mutex := False \<rparr>)"

section \<open>Sequence numbers, locks, map entries\<close>

definition Nseq :: "32 word list" where "Nseq = [0, 2, 3, 1]"

definition NSEQ :: "32 word \<Rightarrow> 32 word" where "NSEQ s = Nseq ! unat (s AND 3)"

definition get_map_lock_num :: "nat \<Rightarrow> nat \<Rightarrow> nat" where
  "get_map_lock_num premap_lba nfree = u32 (u32 (premap_lba * BTT_MAP_ENTRY_SIZE) div BTT_MAP_LOCK_ALIGN) mod nfree"

definition invalid_lba :: "'n btt \<Rightarrow> nat \<Rightarrow> bool" where
  "invalid_lba s lba \<longleftrightarrow> lba \<ge> b_nlba s"

definition map_entry_is_zero :: "32 word \<Rightarrow> bool" where
  "map_entry_is_zero map_entry \<longleftrightarrow> map_entry AND NOT BTT_MAP_ENTRY_LBA_MASK = BTT_MAP_ENTRY_ZERO"

definition map_entry_is_error :: "32 word \<Rightarrow> bool" where
  "map_entry_is_error map_entry \<longleftrightarrow> map_entry AND NOT BTT_MAP_ENTRY_LBA_MASK = BTT_MAP_ENTRY_ERROR"

definition map_entry_is_initial :: "32 word \<Rightarrow> bool" where
  "map_entry_is_initial map_entry \<longleftrightarrow> map_entry AND NOT BTT_MAP_ENTRY_LBA_MASK = 0"

definition map_entry_is_zero_or_initial :: "32 word \<Rightarrow> bool" where
  "map_entry_is_zero_or_initial map_entry \<longleftrightarrow>
     (let entry_flags = map_entry AND NOT BTT_MAP_ENTRY_LBA_MASK
      in entry_flags = 0 \<or> entry_flags = BTT_MAP_ENTRY_ZERO)"

text \<open>\<^verbatim>\<open>read_info\<close>: the info block when it is valid.\<close>

definition read_info :: "'n btt \<Rightarrow> byte list \<Rightarrow> btt_info option res" where
  "read_info s b =
     (let info = info_of_bytes b
      in if i_sig info \<noteq> BTTINFO_SIG then Inr None
         else if i_parent_uuid info \<noteq> b_parent_uuid s then Inr None
         else sbind (util_checksum_check b INFO_CHECKSUM_OFF 0) (\<lambda>ok.
           if \<not> ok then Inr None
           else let info = info \<lparr> i_major := le16n (i_major info) \<rparr>
                in if i_major info = 0 then Inr None
                   else Inr (Some (info \<lparr> i_flags := le32toh (i_flags info), i_minor := le16n (i_minor info),
                     i_external_lbasize := le32n (i_external_lbasize info),
                     i_external_nlba := le32n (i_external_nlba info),
                     i_internal_lbasize := le32n (i_internal_lbasize info),
                     i_internal_nlba := le32n (i_internal_nlba info), i_nfree := le32n (i_nfree info),
                     i_infosize := le32n (i_infosize info), i_nextoff := le64n (i_nextoff info),
                     i_dataoff := le64n (i_dataoff info), i_mapoff := le64n (i_mapoff info),
                     i_flogoff := le64n (i_flogoff info), i_infooff := le64n (i_infooff info) \<rparr>))))"

section \<open>The flog\<close>

text \<open>The entry that is current and the index of the next one to write.\<close>

definition btt_flog_get_valid :: "btt_flog \<Rightarrow> btt_flog \<Rightarrow> (btt_flog \<times> nat) option" where
  "btt_flog_get_valid f0 f1 =
     (if f_seq f0 = f_seq f1 then None
      else if f_seq f0 = 0 then Some (f1, 0)
      else if f_seq f1 = 0 then Some (f0, 1)
      else if NSEQ (f_seq f0) = f_seq f1 then Some (f1, 0)
      else Some (f0, 1))"

definition map_off :: "arena \<Rightarrow> nat \<Rightarrow> nat" where
  "map_off ar premap_lba = u64 (a_mapoff ar + u32 (BTT_MAP_ENTRY_SIZE * premap_lba))"

text \<open>The end of \<^verbatim>\<open>read_flog_pair\<close>: finish the map update of an operation that did not complete.\<close>

definition recover_map :: "nat \<Rightarrow> nat \<Rightarrow> btt_flog \<Rightarrow> ('n btt, unit) act" where
  "recover_map lane a cur =
     abind (get_arena a) (\<lambda>ar. let map_entry_off = map_off ar (unat (f_lba cur)) in
     abind (ns_read lane 4 map_entry_off) (\<lambda>bytes. let entry = le32toh (of_le bytes);
       entry = (if map_entry_is_initial entry then f_lba cur OR BTT_MAP_ENTRY_NORMAL else entry) in
     if f_new_map cur \<noteq> entry \<and> f_old_map cur = entry
     then ns_write lane (to_le 4 (htole32 (f_new_map cur))) map_entry_off
     else aret ()))"

definition read_flog_pair :: "nat \<Rightarrow> nat \<Rightarrow> nat \<Rightarrow> nat \<Rightarrow> ('n btt, unit) act" where
  "read_flog_pair lane a flog_off i =
     abind (amod (upd_flog a i (\<lambda>r. r \<lparr> r_entries := [flog_off, u64 (flog_off + SIZEOF_BTT_FLOG)] \<rparr>))) (\<lambda>_.
     abind (aget (\<lambda>s. s)) (\<lambda>s.
     if lane \<ge> b_nfree s then aerr EINVAL
     else if flog_off = 0 then aerr EINVAL
     else abind (ns_read lane (2 * SIZEOF_BTT_FLOG) flog_off) (\<lambda>bytes.
       let f0 = btt_flog_convert2h (flog_of_bytes (get_bytes 0 16 bytes)) in
       if invalid_lba s (unat (f_lba f0)) then aerr EINVAL
       else let f1 = btt_flog_convert2h (flog_of_bytes (get_bytes 16 16 bytes)) in
       if invalid_lba s (unat (f_lba f1)) then aerr EINVAL
       else case btt_flog_get_valid f0 f1 of
         None \<Rightarrow> amod (upd_arena a (\<lambda>ar. ar \<lparr> a_flags := a_flags ar OR BTTINFO_FLAG_ERROR \<rparr>))
       | Some (cur, next) \<Rightarrow>
           abind (amod (upd_flog a i (\<lambda>r. r \<lparr> r_next := next, r_flog := cur \<rparr>))) (\<lambda>_.
           if f_old_map cur = f_new_map cur then aret ()
           else recover_map lane a cur))))"

definition flog_update :: "nat \<Rightarrow> nat \<Rightarrow> nat \<Rightarrow> 32 word \<Rightarrow> 32 word \<Rightarrow> ('n btt, unit) act" where
  "flog_update lane a lba old_map new_map =
     abind (get_arena a) (\<lambda>ar. abind (alift (nrd (a_flogs ar) lane)) (\<lambda>r.
     let new_flog = btt_flog_convert2le \<lparr> f_lba = of_nat lba, f_old_map = old_map, f_new_map = new_map,
                                         f_seq = NSEQ (f_seq (r_flog r)) \<rparr> in
     abind (alift (nrd (r_entries r) (r_next r))) (\<lambda>new_flog_off.
     abind (ns_write lane (to_le 4 (f_lba new_flog) @ to_le 4 (f_old_map new_flog)) new_flog_off) (\<lambda>_.
     let new_flog_off = u64 (new_flog_off + 8) in
     abind (ns_write lane (to_le 4 (f_new_map new_flog) @ to_le 4 (f_seq new_flog)) new_flog_off) (\<lambda>_.
     amod (upd_flog a lane (\<lambda>r. r \<lparr> r_next := 1 - r_next r,
        r_flog := \<lparr> f_lba = of_nat lba, f_old_map = old_map, f_new_map = new_map, f_seq = NSEQ (f_seq (r_flog r)) \<rparr> \<rparr>)))))))"

section \<open>Arena flags\<close>

definition arena_setf :: "nat \<Rightarrow> nat \<Rightarrow> 32 word \<Rightarrow> ('n btt, unit) act" where
  "arena_setf a lane setf =
     abind (amod (upd_arena a (\<lambda>ar. ar \<lparr> a_flags := a_flags ar OR setf \<rparr>))) (\<lambda>_.
     abind (aget b_laidout) (\<lambda>laidout.
     if \<not> laidout then aret ()
     else abind (get_arena a) (\<lambda>ar. let arena_off = a_startoff ar in
     abind (lock_info a) (\<lambda>_.
     abind (acatch
       (abind (ns_read lane SIZEOF_BTT_INFO arena_off) (\<lambda>bytes.
        let info = info_of_bytes bytes;
            infooff = le64n (i_infooff info);
            info = info \<lparr> i_flags := i_flags info OR htole32 setf \<rparr> in
        abind (alift (util_checksum_insert (info_to_bytes info) INFO_CHECKSUM_OFF 0)) (\<lambda>bytes.
        abind (ns_write lane bytes arena_off) (\<lambda>_.
        ns_write lane bytes (u64 (arena_off + infooff))))))
       (\<lambda>e. abind (unlock_info a) (\<lambda>_. aerr e))) (\<lambda>_.
     unlock_info a)))))"

definition set_arena_error :: "nat \<Rightarrow> nat \<Rightarrow> ('n btt, unit) act" where
  "set_arena_error a lane = arena_setf a lane BTTINFO_FLAG_ERROR"

end
