(* ===== verification/BttLoad.thy ===== *)
theory BttLoad
  imports Btt
begin

text \<open>
  Loading and writing the layout of a namespace (\<^verbatim>\<open>read_flogs\<close> \<dots> \<^verbatim>\<open>btt_init\<close> of \<^verbatim>\<open>btt.c\<close>).
  The loops over the arenas recurse on the space that is left.
\<close>

section \<open>Run-time state of an arena\<close>

fun read_flogs_loop :: "nat \<Rightarrow> nat \<Rightarrow> nat \<Rightarrow> nat list \<Rightarrow> ('n btt, unit) act" where
  "read_flogs_loop lane a flog_off [] = aret ()"
| "read_flogs_loop lane a flog_off (i # is') =
     abind (acatch (read_flog_pair lane a flog_off i) (\<lambda>e. abind (set_arena_error a lane) (\<lambda>_. aerr e))) (\<lambda>_.
     read_flogs_loop lane a (u64 (flog_off + roundup64 (2 * SIZEOF_BTT_FLOG) BTT_FLOG_PAIR_ALIGN)) is')"

definition read_flogs :: "nat \<Rightarrow> nat \<Rightarrow> ('n btt, unit) act" where
  "read_flogs lane a =
     abind alloc (\<lambda>_.
     abind (aget b_nfree) (\<lambda>nfree.
     abind (amod (upd_arena a (\<lambda>ar. ar \<lparr> a_flogs := replicate nfree zero_flog_runtime \<rparr>))) (\<lambda>_.
     abind (get_arena a) (\<lambda>ar.
     read_flogs_loop lane a (a_flogoff ar) [0..<nfree]))))"

definition build_rtt :: "nat \<Rightarrow> ('n btt, unit) act" where
  "build_rtt a =
     abind alloc (\<lambda>_. abind (aget b_nfree) (\<lambda>nfree.
     amod (upd_arena a (\<lambda>ar. ar \<lparr> a_rtt := replicate nfree BTT_MAP_ENTRY_ERROR \<rparr>))))"

definition build_map_locks :: "nat \<Rightarrow> ('n btt, unit) act" where
  "build_map_locks a =
     abind alloc (\<lambda>_. abind (aget b_nfree) (\<lambda>nfree.
     amod (upd_arena a (\<lambda>ar. ar \<lparr> a_map_locks := replicate nfree False \<rparr>))))"

definition read_arena :: "nat \<Rightarrow> nat \<Rightarrow> nat \<Rightarrow> ('n btt, unit) act" where
  "read_arena lane arena_off a =
     abind (ns_read lane SIZEOF_BTT_INFO arena_off) (\<lambda>bytes. let info = info_of_bytes bytes in
     abind (amod (upd_arena a (\<lambda>ar. ar \<lparr> a_flags := le32toh (i_flags info),
       a_external_nlba := le32n (i_external_nlba info),
       a_internal_lbasize := le32n (i_internal_lbasize info),
       a_internal_nlba := le32n (i_internal_nlba info),
       a_startoff := arena_off,
       a_dataoff := u64 (arena_off + le64n (i_dataoff info)),
       a_mapoff := u64 (arena_off + le64n (i_mapoff info)),
       a_flogoff := u64 (arena_off + le64n (i_flogoff info)),
       a_nextoff := u64 (arena_off + le64n (i_nextoff info)) \<rparr>))) (\<lambda>_.
     abind (read_flogs lane a) (\<lambda>_.
     abind (build_rtt a) (\<lambda>_.
     abind (build_map_locks a) (\<lambda>_.
     amod (upd_arena a (\<lambda>ar. ar \<lparr> a_info_lock := False \<rparr>)))))))"

fun read_arenas_loop :: "nat \<Rightarrow> nat \<Rightarrow> nat list \<Rightarrow> ('n btt, unit) act" where
  "read_arenas_loop lane arena_off [] = aret ()"
| "read_arenas_loop lane arena_off (i # is') =
     abind (read_arena lane arena_off i) (\<lambda>_. abind (get_arena i) (\<lambda>ar.
     read_arenas_loop lane (a_nextoff ar) is'))"

definition read_arenas :: "nat \<Rightarrow> nat \<Rightarrow> ('n btt, unit) act" where
  "read_arenas lane narena =
     acatch
       (abind alloc (\<lambda>_.
        abind (amod (\<lambda>s. s \<lparr> b_arenas := replicate narena zero_arena \<rparr>)) (\<lambda>_.
        abind (read_arenas_loop lane 0 [0..<narena]) (\<lambda>_.
        amod (\<lambda>s. s \<lparr> b_laidout := True \<rparr>)))))
       (\<lambda>e. abind (amod (\<lambda>s. s \<lparr> b_arenas := [] \<rparr>)) (\<lambda>_. aerr e))"

section \<open>Writing the layout\<close>

definition zero_info :: btt_info where
  "zero_info = info_of_bytes (replicate 4096 0)"

fun write_flogs :: "nat \<Rightarrow> nat \<Rightarrow> nat \<Rightarrow> nat list \<Rightarrow> ('n btt, unit) act" where
  "write_flogs lane flog_entry_off next_free_lba [] = aret ()"
| "write_flogs lane flog_entry_off next_free_lba (i # is') =
     (let map' = htole32 (of_nat next_free_lba OR BTT_MAP_ENTRY_ZERO);
          flog = \<lparr> f_lba = htole32 (of_nat i), f_old_map = map', f_new_map = map', f_seq = htole32 1 \<rparr>
      in abind (ns_write lane (flog_to_bytes flog) flog_entry_off) (\<lambda>_.
         let flog_entry_off = u64 (flog_entry_off + SIZEOF_BTT_FLOG)
         in abind (ns_write lane (flog_to_bytes Zflog) flog_entry_off) (\<lambda>_.
            let flog_entry_off = u64 (flog_entry_off + SIZEOF_BTT_FLOG);
                flog_entry_off = roundup64 flog_entry_off BTT_FLOG_PAIR_ALIGN
            in write_flogs lane flog_entry_off (u32 (next_free_lba + 1)) is')))"

text \<open>The metadata of one arena: map, flog and the two info blocks; the offset of the next arena.\<close>

definition write_arena :: "nat \<Rightarrow> nat \<Rightarrow> btt_info \<Rightarrow> nat \<Rightarrow> nat \<Rightarrow> ('n btt, nat) act" where
  "write_arena lane arena_off info arena_rawsize rawsize =
     (case btt_info_set_offs info arena_rawsize rawsize of Inl e \<Rightarrow> afail e | Inr info \<Rightarrow>
     abind (aget (\<lambda>s. s)) (\<lambda>s.
     abind (if ns_is_zeroed (b_ns_cbp s) then aret ()
            else ns_zero lane (btt_map_size (i_external_nlba info)) (i_mapoff info)) (\<lambda>_.
     abind (write_flogs lane (u64 (arena_off + i_flogoff info)) (i_external_nlba info) [0..<b_nfree s]) (\<lambda>_.
     let info = info \<lparr> i_sig := BTTINFO_SIG, i_uuid := b_uuid s, i_parent_uuid := b_parent_uuid s,
                       i_major := BTTINFO_MAJOR_VERSION, i_minor := BTTINFO_MINOR_VERSION \<rparr>;
         info = btt_info_convert2le info in
     abind (alift (util_checksum_insert (info_to_bytes info) INFO_CHECKSUM_OFF 0)) (\<lambda>bytes.
     abind (ns_write lane bytes arena_off) (\<lambda>_.
     abind (ns_write lane bytes (u64 (arena_off + i_infooff info))) (\<lambda>_.
     aret (u64 (arena_off + i_nextoff info)))))))))"

text \<open>The loop over the arenas: the number of arenas and of external blocks. It decreases \<open>rawsize\<close>.\<close>

function write_arenas :: "nat \<Rightarrow> nat \<Rightarrow> bool \<Rightarrow> nat \<Rightarrow> nat \<Rightarrow> nat \<Rightarrow> nat \<Rightarrow> ('n btt, nat \<times> nat) act" where
  "write_arenas lane internal_lba_size write rawsize arena_off arena_num total_nlba =
     (if rawsize < BTT_MIN_SIZE then aret (arena_num, total_nlba)
      else let arena_rawsize = (if rawsize > BTT_MAX_ARENA then BTT_MAX_ARENA else rawsize);
               rawsize' = rawsize - arena_rawsize;
               arena_num = arena_num + 1
           in abind (aget (\<lambda>s. s)) (\<lambda>s.
              case btt_info_set_params zero_info (b_lbasize s) internal_lba_size (b_nfree s) arena_rawsize of
                Inl e \<Rightarrow> afail e
              | Inr info \<Rightarrow>
                  (let total_nlba = u64 (total_nlba + i_external_nlba info)
                   in if \<not> write then write_arenas lane internal_lba_size write rawsize' arena_off arena_num total_nlba
                      else abind (write_arena lane arena_off info arena_rawsize rawsize') (\<lambda>arena_off.
                           write_arenas lane internal_lba_size write rawsize' arena_off arena_num total_nlba))))"
  by pat_completeness auto
termination
  by (relation "measure (\<lambda>(_, _, _, rawsize, _). rawsize)") (auto simp: btt_sizes split: if_splits)

declare write_arenas.simps [simp del]

definition write_layout :: "nat \<Rightarrow> bool \<Rightarrow> ('n btt, unit) act" where
  "write_layout lane write =
     abind (aget (\<lambda>s. s)) (\<lambda>s.
     abind (aassert (b_rawsize s \<ge> BTT_MIN_SIZE)) (\<lambda>_.
     abind (aassert (b_nfree s \<noteq> 0)) (\<lambda>_.
     abind (if write then (case b_uuid_gen s of Inl e \<Rightarrow> afail e
                           | Inr u \<Rightarrow> amod (\<lambda>s. s \<lparr> b_uuid := u \<rparr>)) else aret ()) (\<lambda>_.
     let narena = b_rawsize s div BTT_MAX_ARENA;
         narena = u32 (if b_rawsize s mod BTT_MAX_ARENA \<ge> BTT_MIN_SIZE then narena + 1 else narena) in
     abind (amod (\<lambda>s. s \<lparr> b_narena := narena \<rparr>)) (\<lambda>_.
     let internal_lba_size = calc_internal_lbasize (b_lbasize s) in
     if internal_lba_size = 0 then aerr EINVAL
     else abind (write_arenas lane internal_lba_size write (b_rawsize s) 0 0 0) (\<lambda>(arena_num, total_nlba).
     abind (aassert (narena = arena_num)) (\<lambda>_.
     abind (amod (\<lambda>s. s \<lparr> b_nlba := total_nlba \<rparr>)) (\<lambda>_.
     if write then read_arenas lane narena else aret ()))))))))"

section \<open>Reading the layout\<close>

text \<open>
  The loop of \<^verbatim>\<open>read_layout\<close> over the info blocks: \<open>None\<close> when one of them is not valid, else the number of
  arenas, the smallest \<^verbatim>\<open>nfree\<close> and the number of external blocks.
\<close>

function read_infos :: "nat \<Rightarrow> nat \<Rightarrow> nat \<Rightarrow> nat \<Rightarrow> nat \<Rightarrow> nat \<Rightarrow> ('n btt, (nat \<times> nat \<times> nat) option) act" where
  "read_infos lane rawsize arena_off narena smallest_nfree total_nlba =
     (if rawsize < BTT_MIN_SIZE then aret (Some (narena, smallest_nfree, total_nlba))
      else let narena = narena + 1 in
        abind (aget (\<lambda>s. s)) (\<lambda>s.
        abind (ns_read lane SIZEOF_BTT_INFO arena_off) (\<lambda>bytes.
        abind (alift (read_info s bytes)) (\<lambda>r. case r of
          None \<Rightarrow> aret None
        | Some info \<Rightarrow>
            if i_external_lbasize info \<noteq> b_lbasize s then aerr EINVAL
            else if i_nfree info = 0 then aerr EINVAL
            else if i_external_nlba info = 0 then aerr EINVAL
            else if i_nextoff info \<noteq> 0 \<and> i_nextoff info \<noteq> BTT_MAX_ARENA then aerr EINVAL
            else let smallest_nfree = (if i_nfree info < smallest_nfree then i_nfree info else smallest_nfree);
                     total_nlba = u64 (total_nlba + i_external_nlba info);
                     arena_off = u64 (arena_off + i_nextoff info)
                 in if i_nextoff info = 0 then aret (Some (narena, smallest_nfree, total_nlba))
                    else if i_nextoff info > rawsize then aerr EINVAL
                    else read_infos lane (rawsize - i_nextoff info) arena_off narena smallest_nfree total_nlba))))"
  by pat_completeness auto
termination
  by (relation "measure (\<lambda>(_, rawsize, _). rawsize)") (auto simp: btt_sizes)

declare read_infos.simps [simp del]

definition read_layout :: "nat \<Rightarrow> ('n btt, unit) act" where
  "read_layout lane =
     abind (aget (\<lambda>s. s)) (\<lambda>s.
     abind (aassert (b_rawsize s \<ge> BTT_MIN_SIZE)) (\<lambda>_.
     abind (amod (\<lambda>s. s \<lparr> b_nfree := BTT_DEFAULT_NFREE \<rparr>)) (\<lambda>_.
     abind (read_infos lane (b_rawsize s) 0 0 (2 ^ 32 - 1) 0) (\<lambda>r. case r of
       None \<Rightarrow> write_layout lane False
     | Some (narena, smallest_nfree, total_nlba) \<Rightarrow>
         abind (aassert (narena \<noteq> 0)) (\<lambda>_.
         abind (amod (\<lambda>s. s \<lparr> b_narena := narena, b_nlba := total_nlba \<rparr>)) (\<lambda>_.
         abind (amod (\<lambda>s. if smallest_nfree < b_nfree s then s \<lparr> b_nfree := smallest_nfree \<rparr> else s)) (\<lambda>_.
         read_arenas lane narena)))))))"

text \<open>
  \<^verbatim>\<open>btt_init\<close>: the handle, or the failure and the namespace as it was left. The allocator's answers and
  the UUID the system would generate are arguments.
\<close>

definition btt_zalloc :: "'n \<Rightarrow> 'n ns_callback \<Rightarrow> bool list \<Rightarrow> failure + byte list \<Rightarrow> 'n btt" where
  "btt_zalloc ns ns_cbp allocs uuid_gen =
     \<lparr> b_nlane = 0, b_layout_write_mutex = False, b_laidout = False, b_uuid = replicate 16 0,
       b_parent_uuid = replicate 16 0, b_rawsize = 0, b_lbasize = 0, b_nfree = 0, b_nlba = 0, b_narena = 0,
       b_arenas = [], b_ns = ns, b_ns_cbp = ns_cbp, b_allocs = allocs, b_uuid_gen = uuid_gen \<rparr>"

definition btt_init_body :: "nat \<Rightarrow> nat \<Rightarrow> byte list \<Rightarrow> nat \<Rightarrow> ('n btt, unit) act" where
  "btt_init_body rawsize lbasize parent_uuid maxlane =
     abind (amod (\<lambda>s. s \<lparr> b_parent_uuid := parent_uuid, b_rawsize := rawsize, b_lbasize := lbasize \<rparr>)) (\<lambda>_.
     abind (read_layout 0) (\<lambda>_.
     amod (\<lambda>s. s \<lparr> b_nlane := (if maxlane \<noteq> 0 \<and> b_nfree s > maxlane then maxlane else b_nfree s) \<rparr>)))"

definition btt_init :: "nat \<Rightarrow> nat \<Rightarrow> byte list \<Rightarrow> nat \<Rightarrow> 'n \<Rightarrow> 'n ns_callback \<Rightarrow> bool list \<Rightarrow> failure + byte list
    \<Rightarrow> (failure + 'n btt) \<times> 'n" where
  "btt_init rawsize lbasize parent_uuid maxlane ns ns_cbp allocs uuid_gen =
     (if rawsize < BTT_MIN_SIZE then (Inl (Errno EINVAL), ns)
      else case alloc_next allocs of (ok, allocs) \<Rightarrow>
        if \<not> ok then (Inl (Errno ENOMEM), ns)
        else case btt_init_body rawsize lbasize parent_uuid maxlane (btt_zalloc ns ns_cbp allocs uuid_gen) of
          (Inl e, s) \<Rightarrow> (Inl e, b_ns s)
        | (Inr _, s) \<Rightarrow> (Inr s, b_ns s))"

definition btt_nlane :: "'n btt \<Rightarrow> nat" where "btt_nlane s = b_nlane s"

definition btt_nlba :: "'n btt \<Rightarrow> nat" where "btt_nlba s = b_nlba s"

end
