(* ===== verification/BttOps.thy ===== *)
theory BttOps
  imports BttLoad
begin

text \<open>
  Reading and writing blocks, setting the flags of a block and checking a namespace (\<^verbatim>\<open>btt_read\<close> \<dots>
  \<^verbatim>\<open>btt_fini\<close> of \<^verbatim>\<open>btt.c\<close>).
\<close>

definition zero_block :: "('n btt, byte list) act" where
  "zero_block = abind (aget b_lbasize) (\<lambda>lbasize. aret (replicate lbasize 0))"

text \<open>The arena of a block and its pre-map block number in it.\<close>

fun find_arena :: "nat \<Rightarrow> arena list \<Rightarrow> nat \<Rightarrow> nat \<times> nat" where
  "find_arena i [] lba = (i, lba)"
| "find_arena i (ar # ars) lba =
     (if lba < a_external_nlba ar then (i, lba) else find_arena (i + 1) ars (lba - a_external_nlba ar))"

definition lba_to_arena_lba :: "nat \<Rightarrow> ('n btt, nat \<times> nat) act" where
  "lba_to_arena_lba lba =
     abind (aget (\<lambda>s. s)) (\<lambda>s.
     abind (aassert (b_laidout s)) (\<lambda>_.
     case find_arena 0 (take (b_narena s) (b_arenas s)) lba of (arena, lba) \<Rightarrow>
     abind (aassert (arena < b_narena s)) (\<lambda>_.
     abind (aassert (lba < 2 ^ 32)) (\<lambda>_.
     aret (arena, u32 lba)))))"

section \<open>Reading\<close>

definition set_rtt :: "nat \<Rightarrow> nat \<Rightarrow> 32 word \<Rightarrow> ('n btt, unit) act" where
  "set_rtt a lane e =
     abind (get_arena a) (\<lambda>ar. abind (alift (nrd (a_rtt ar) lane)) (\<lambda>_.
     amod (upd_arena a (\<lambda>ar. ar \<lparr> a_rtt := (a_rtt ar)[lane := e] \<rparr>))))"

text \<open>
  The retry loop: \<open>None\<close> when the block reads as zeros, else the entry that is in the read tracking
  table. With no other thread the map stays the same and one round is enough; \<open>fuel\<close> bounds the rounds.
\<close>

fun read_retry :: "nat \<Rightarrow> nat \<Rightarrow> nat \<Rightarrow> nat \<Rightarrow> 32 word \<Rightarrow> ('n btt, 32 word option) act" where
  "read_retry 0 lane a map_entry_off entry = afail (Fault Diverged)"
| "read_retry (Suc fuel) lane a map_entry_off entry =
     (if map_entry_is_error entry then aerr EIO
      else if map_entry_is_zero_or_initial entry then aret None
      else abind (set_rtt a lane entry) (\<lambda>_.
        abind (acatch (ns_read lane 4 map_entry_off)
                 (\<lambda>e. abind (set_rtt a lane BTT_MAP_ENTRY_ERROR) (\<lambda>_. aerr e))) (\<lambda>bytes.
        let latest_entry = le32toh (of_le bytes) in
        if entry = latest_entry then aret (Some entry)
        else read_retry fuel lane a map_entry_off latest_entry)))"

definition data_off :: "arena \<Rightarrow> 32 word \<Rightarrow> nat" where
  "data_off ar entry = u64 (a_dataoff ar + u64 (unat (entry AND BTT_MAP_ENTRY_LBA_MASK) * a_internal_lbasize ar))"

definition btt_read :: "nat \<Rightarrow> nat \<Rightarrow> ('n btt, byte list) act" where
  "btt_read lane lba =
     abind (aget (\<lambda>s. s)) (\<lambda>s.
     if invalid_lba s lba then aerr EINVAL
     else if \<not> b_laidout s then zero_block
     else abind (lba_to_arena_lba lba) (\<lambda>(a, premap_lba).
       abind (get_arena a) (\<lambda>ar. let map_entry_off = map_off ar premap_lba in
       abind (ns_read lane 4 map_entry_off) (\<lambda>bytes.
       abind (read_retry 2 lane a map_entry_off (le32toh (of_le bytes))) (\<lambda>r. case r of
         None \<Rightarrow> zero_block
       | Some entry \<Rightarrow>
           abind (acatch (ns_read lane (b_lbasize s) (data_off ar entry))
                    (\<lambda>e. abind (set_rtt a lane BTT_MAP_ENTRY_ERROR) (\<lambda>_. aerr e))) (\<lambda>buf.
           abind (set_rtt a lane BTT_MAP_ENTRY_ERROR) (\<lambda>_.
           aret buf)))))))"

section \<open>Writing\<close>

text \<open>\<^verbatim>\<open>map_lock\<close> returns the entry in media order.\<close>

definition map_lock :: "nat \<Rightarrow> nat \<Rightarrow> nat \<Rightarrow> ('n btt, 32 word) act" where
  "map_lock lane a premap_lba =
     abind (get_arena a) (\<lambda>ar. abind (aget b_nfree) (\<lambda>nfree.
     let map_entry_off = map_off ar premap_lba; map_lock_num = get_map_lock_num premap_lba nfree in
     abind (lock_map a map_lock_num) (\<lambda>_.
     abind (acatch (ns_read lane 4 map_entry_off) (\<lambda>e. abind (unlock_map a map_lock_num) (\<lambda>_. aerr e))) (\<lambda>bytes.
     let entry = of_le bytes in
     aret (if map_entry_is_initial entry then htole32 (of_nat premap_lba OR BTT_MAP_ENTRY_NORMAL) else entry)))))"

definition map_abort :: "nat \<Rightarrow> nat \<Rightarrow> nat \<Rightarrow> ('n btt, unit) act" where
  "map_abort lane a premap_lba =
     abind (aget b_nfree) (\<lambda>nfree. unlock_map a (get_map_lock_num premap_lba nfree))"

definition map_unlock :: "nat \<Rightarrow> nat \<Rightarrow> 32 word \<Rightarrow> nat \<Rightarrow> ('n btt, unit) act" where
  "map_unlock lane a entry premap_lba =
     abind (get_arena a) (\<lambda>ar. abind (aget b_nfree) (\<lambda>nfree.
     let map_lock_num = get_map_lock_num premap_lba nfree in
     abind (acatch (ns_write lane (to_le 4 entry) (map_off ar premap_lba))
              (\<lambda>e. abind (unlock_map a map_lock_num) (\<lambda>_. aerr e))) (\<lambda>_.
     unlock_map a map_lock_num)))"

text \<open>The first write lays the namespace out.\<close>

definition ensure_layout :: "nat \<Rightarrow> ('n btt, unit) act" where
  "ensure_layout lane =
     abind (aget b_laidout) (\<lambda>laidout. if laidout then aret ()
     else abind lock_layout (\<lambda>_.
       abind (acatch (write_layout lane True) (\<lambda>e. abind unlock_layout (\<lambda>_. aerr e))) (\<lambda>_.
       unlock_layout)))"

text \<open>The wait for readers of the free block: no other thread will ever clear the entry.\<close>

definition wait_readers :: "nat \<Rightarrow> 32 word \<Rightarrow> ('n btt, unit) act" where
  "wait_readers a free_entry =
     abind (get_arena a) (\<lambda>ar. abind (aget b_nlane) (\<lambda>nlane.
     if nlane > length (a_rtt ar) then afail (Fault OutOfBounds)
     else if free_entry \<in> set (take nlane (a_rtt ar)) then afail (Fault Diverged) else aret ()))"

definition btt_write :: "nat \<Rightarrow> nat \<Rightarrow> byte list \<Rightarrow> ('n btt, unit) act" where
  "btt_write lane lba buf =
     abind (aget (\<lambda>s. s)) (\<lambda>s.
     if invalid_lba s lba then aerr EINVAL
     else abind (ensure_layout lane) (\<lambda>_.
     abind (lba_to_arena_lba lba) (\<lambda>(a, premap_lba).
     abind (get_arena a) (\<lambda>ar.
     if a_flags ar AND BTTINFO_FLAG_ERROR_MASK \<noteq> 0 then aerr EIO
     else abind (alift (nrd (a_flogs ar) lane)) (\<lambda>r.
     let free_entry = (f_old_map (r_flog r) AND BTT_MAP_ENTRY_LBA_MASK) OR BTT_MAP_ENTRY_NORMAL in
     abind (wait_readers a free_entry) (\<lambda>_.
     abind (ns_write lane (take (b_lbasize s) buf) (data_off ar free_entry)) (\<lambda>_.
     abind (map_lock lane a premap_lba) (\<lambda>old_entry.
     let old_entry = le32toh old_entry in
     abind (acatch (flog_update lane a premap_lba old_entry free_entry)
              (\<lambda>e. abind (map_abort lane a premap_lba) (\<lambda>_. aerr e))) (\<lambda>_.
     acatch (map_unlock lane a (htole32 free_entry) premap_lba)
       (\<lambda>_. abind (acatch (set_arena_error a lane) (\<lambda>_. aret ())) (\<lambda>_. aerr EIO)))))))))))"

section \<open>Flags of a block\<close>

definition map_entry_setf :: "nat \<Rightarrow> nat \<Rightarrow> 32 word \<Rightarrow> ('n btt, unit) act" where
  "map_entry_setf lane lba setf =
     abind (aget (\<lambda>s. s)) (\<lambda>s.
     if invalid_lba s lba then aerr EINVAL
     else if \<not> b_laidout s \<and> setf = BTT_MAP_ENTRY_ZERO then aret ()
     else abind (ensure_layout lane) (\<lambda>_.
     abind (lba_to_arena_lba lba) (\<lambda>(a, premap_lba).
     abind (get_arena a) (\<lambda>ar.
     if a_flags ar AND BTTINFO_FLAG_ERROR_MASK \<noteq> 0 then aerr EIO
     else abind (map_lock lane a premap_lba) (\<lambda>old_entry.
     let old_entry = le32toh old_entry in
     if setf = BTT_MAP_ENTRY_ZERO \<and> map_entry_is_zero_or_initial old_entry
     then map_abort lane a premap_lba
     else let new_entry = (old_entry AND BTT_MAP_ENTRY_LBA_MASK) OR setf in
       map_unlock lane a (htole32 new_entry) premap_lba)))))"

definition btt_set_zero :: "nat \<Rightarrow> nat \<Rightarrow> ('n btt, unit) act" where
  "btt_set_zero lane lba = map_entry_setf lane lba BTT_MAP_ENTRY_ZERO"

definition btt_set_error :: "nat \<Rightarrow> nat \<Rightarrow> ('n btt, unit) act" where
  "btt_set_error lane lba = map_entry_setf lane lba BTT_MAP_ENTRY_ERROR"

section \<open>Consistency check\<close>

text \<open>Setting a bit of the bitmap; \<open>False\<close> when it was already set. An access past its end is a fault.\<close>

definition mark :: "bool list \<Rightarrow> nat \<Rightarrow> (bool \<times> bool list) res" where
  "mark bitmap entry = sbind (nrd bitmap entry) (\<lambda>seen. Inr (if seen then (False, bitmap) else (True, bitmap[entry := True])))"

text \<open>The loop over the map: \<open>mapp\<close> is the mapped part, \<open>next_index\<close> and \<open>remaining\<close> as in the code.\<close>

fun check_map :: "nat \<Rightarrow> nat list \<Rightarrow> byte list \<Rightarrow> nat \<Rightarrow> nat \<Rightarrow> nat \<Rightarrow> bool list \<Rightarrow> bool
    \<Rightarrow> ('n btt, bool list \<times> bool) act" where
  "check_map a [] mapp next_index remaining map_entry_off bitmap consistent = aret (bitmap, consistent)"
| "check_map a (i # is') mapp next_index remaining map_entry_off bitmap consistent =
     abind (get_arena a) (\<lambda>ar. abind (aget (\<lambda>s. s)) (\<lambda>s.
     abind (if remaining = 0
            then (case nsmap (b_ns_cbp s) (b_ns s) 0 ((a_external_nlba ar - i) * 4) map_entry_off of
                    Inl e \<Rightarrow> afail e | Inr m \<Rightarrow> aret (m, 0, length m))
            else aret (mapp, next_index, remaining)) (\<lambda>(mapp, next_index, remaining).
     if length mapp < 4 * next_index + 4 then afail (Fault OutOfBounds)
     else let entry = le32toh (of_le (get_bytes (4 * next_index) 4 mapp));
              entry = (if map_entry_is_initial entry then i else unat (entry AND BTT_MAP_ENTRY_LBA_MASK)) in
       if entry \<ge> a_internal_nlba ar then aerr EINVAL
       else abind (alift (mark bitmap entry)) (\<lambda>(fresh, bitmap).
         abind (aassert (remaining \<ge> 4)) (\<lambda>_.
         check_map a is' mapp (next_index + 1) (remaining - 4) (u64 (map_entry_off + 4)) bitmap
           (consistent \<and> fresh))))))"

fun check_free :: "flog_runtime list \<Rightarrow> bool list \<Rightarrow> bool \<Rightarrow> (bool list \<times> bool) res" where
  "check_free [] bitmap consistent = Inr (bitmap, consistent)"
| "check_free (r # rs) bitmap consistent =
     sbind (mark bitmap (unat (f_old_map (r_flog r) AND BTT_MAP_ENTRY_LBA_MASK))) (\<lambda>(fresh, bitmap).
     check_free rs bitmap (consistent \<and> fresh))"

definition check_arena :: "nat \<Rightarrow> ('n btt, bool) act" where
  "check_arena a =
     abind (get_arena a) (\<lambda>ar. abind (aget b_nfree) (\<lambda>nfree.
     abind alloc (\<lambda>_.
     let bitmap = replicate (8 * howmany32 (a_internal_nlba ar) 8) False in
     abind (check_map a [0..<a_external_nlba ar] [] 0 0 (a_mapoff ar) bitmap True) (\<lambda>(bitmap, consistent).
     abind (alift (check_free (take nfree (a_flogs ar)) bitmap consistent)) (\<lambda>(bitmap, consistent).
     aret (consistent \<and> (\<forall>b \<in> set (take (a_internal_nlba ar) bitmap). b)))))))"

fun check_arenas :: "nat list \<Rightarrow> bool \<Rightarrow> ('n btt, bool) act" where
  "check_arenas [] consistent = aret consistent"
| "check_arenas (i # is') consistent =
     abind (check_arena i) (\<lambda>ok. check_arenas is' (consistent \<and> ok))"

definition btt_check :: "('n btt, bool) act" where
  "btt_check = abind (aget (\<lambda>s. s)) (\<lambda>s.
     if \<not> b_laidout s then aret True else check_arenas [0..<b_narena s] True)"

text \<open>\<^verbatim>\<open>btt_fini\<close> gives the run-time state back; the namespace stays.\<close>

definition btt_fini :: "'n btt \<Rightarrow> 'n" where "btt_fini s = b_ns s"

end
