(* ===== verification/BttInv.thy ===== *)
theory BttInv
  imports BttOps
begin

text \<open>
  The interface of a namespace as a locale, the geometry and the media invariant of an arena, and the
  abstract content of its blocks. The media is a function from offsets to bytes.
\<close>

section \<open>Media\<close>

definition put_at :: "nat \<Rightarrow> byte list \<Rightarrow> (nat \<Rightarrow> byte) \<Rightarrow> nat \<Rightarrow> byte" where
  "put_at off bs m = (\<lambda>a. if off \<le> a \<and> a < off + length bs then bs ! (a - off) else m a)"

definition get_at :: "(nat \<Rightarrow> byte) \<Rightarrow> nat \<Rightarrow> nat \<Rightarrow> byte list" where
  "get_at m off n = map m [off..<off + n]"

definition word_at :: "(nat \<Rightarrow> byte) \<Rightarrow> nat \<Rightarrow> 32 word" where
  "word_at m off = of_le (get_at m off 4)"

lemma length_get_at [simp]: "length (get_at m off n) = n"
  by (simp add: get_at_def)

lemma get_put_same [simp]: "n = length bs \<Longrightarrow> get_at (put_at off bs m) off n = bs"
  by (rule nth_equalityI) (simp_all add: get_at_def put_at_def)

lemma get_put_other [simp]:
  "off + length bs \<le> a \<or> a + n \<le> off \<Longrightarrow> get_at (put_at off bs m) a n = get_at m a n"
  by (auto simp: get_at_def put_at_def)

lemma word_put_same [simp]: "length bs = 4 \<Longrightarrow> word_at (put_at off bs m) off = of_le bs"
  by (simp add: word_at_def)

lemma word_put_other [simp]:
  "off + length bs \<le> a \<or> a + 4 \<le> off \<Longrightarrow> word_at (put_at off bs m) a = word_at m a"
  by (simp add: word_at_def)

lemma get_at_split: "get_at m off (j + k) = get_at m off j @ get_at m (off + j) k"
  by (rule nth_equalityI) (auto simp: get_at_def nth_append)

lemma get_bytes_get_at: "i + k \<le> n \<Longrightarrow> get_bytes i k (get_at m off n) = get_at m (off + i) k"
  by (rule nth_equalityI) (simp_all add: get_bytes_def get_at_def add.assoc)

lemma put_at_append: "put_at off (xs @ ys) m = put_at (off + length xs) ys (put_at off xs m)"
  by (rule ext) (auto simp: put_at_def nth_append)

section \<open>The namespace interface\<close>

text \<open>
  What the table relies on: a read returns what the media holds, a write puts its bytes there and nothing
  else, as long as the range lies in the namespace. \<open>cb\<close> is the record of callbacks, \<open>content\<close> and \<open>nssize\<close>
  read the namespace, \<open>ready\<close> is the provider's own condition.
\<close>

locale namespace =
  fixes cb :: "'n ns_callback"
    and content :: "'n \<Rightarrow> nat \<Rightarrow> byte"
    and nssize :: "'n \<Rightarrow> nat"
    and ready :: "'n \<Rightarrow> bool"
  assumes read_law: "ready n \<Longrightarrow> off + count \<le> nssize n \<Longrightarrow>
      nsread cb n lane count off = Inr (get_at (content n) off count)"
    and write_law: "ready n \<Longrightarrow> off + length buf \<le> nssize n \<Longrightarrow>
      \<exists>n'. nswrite cb n lane buf off = (Inr (), n') \<and> content n' = put_at off buf (content n)
        \<and> nssize n' = nssize n \<and> ready n'"
    and zero_law: "ready n \<Longrightarrow> off + count \<le> nssize n \<Longrightarrow>
      \<exists>n'. nszero cb n lane count off = (Inr (), n') \<and> content n' = put_at off (replicate count 0) (content n)
        \<and> nssize n' = nssize n \<and> ready n'"
    and map_law: "ready n \<Longrightarrow> off + count < nssize n \<Longrightarrow>
      nsmap cb n lane count off = Inr (get_at (content n) off count)"
    and size_law: "ready n \<Longrightarrow> nssize n < 2 ^ 63"

definition written :: "'n ns_callback \<Rightarrow> nat \<Rightarrow> byte list \<Rightarrow> nat \<Rightarrow> 'n \<Rightarrow> 'n" where
  "written cb lane buf off n = snd (nswrite cb n lane buf off)"

context namespace
begin

lemma written_laws:
  assumes "ready n" "off + length buf \<le> nssize n"
  shows "nswrite cb n lane buf off = (Inr (), written cb lane buf off n)"
    and "content (written cb lane buf off n) = put_at off buf (content n)"
    and "nssize (written cb lane buf off n) = nssize n"
    and "ready (written cb lane buf off n)"
  using write_law [OF assms, of lane] by (auto simp: written_def)

lemma ns_read_ok:
  assumes "b_ns_cbp s = cb" "ready (b_ns s)" "off + count \<le> nssize (b_ns s)"
  shows "ns_read lane count off s = (Inr (get_at (content (b_ns s)) off count), s)"
  using assms by (simp add: ns_read_def read_law)

lemma ns_write_ok:
  assumes "b_ns_cbp s = cb" "ready (b_ns s)" "off + length buf \<le> nssize (b_ns s)"
  shows "ns_write lane buf off s = (Inr (), s \<lparr> b_ns := written cb lane buf off (b_ns s) \<rparr>)"
  using assms by (simp add: ns_write_def written_laws)

end

section \<open>Geometry\<close>

definition MAXB :: nat where "MAXB = 2 ^ 30"

definition extent :: "arena \<Rightarrow> nat \<Rightarrow> nat" where
  "extent ar nf = a_flogoff ar + 64 * nf"

definition geom_ok :: "arena \<Rightarrow> nat \<Rightarrow> nat \<Rightarrow> nat \<Rightarrow> bool" where
  "geom_ok ar nf lbasize sz \<longleftrightarrow>
     0 < nf \<and> a_external_nlba ar + nf \<le> a_internal_nlba ar \<and> a_internal_nlba ar \<le> MAXB
     \<and> lbasize \<le> a_internal_lbasize ar
     \<and> a_startoff ar + SIZEOF_BTT_INFO \<le> a_dataoff ar
     \<and> a_dataoff ar + a_internal_nlba ar * a_internal_lbasize ar \<le> a_mapoff ar
     \<and> a_mapoff ar + 4 * a_external_nlba ar \<le> a_flogoff ar
     \<and> 4 dvd a_mapoff ar \<and> 8 dvd a_flogoff ar
     \<and> extent ar nf \<le> sz \<and> sz < 2 ^ 63"

definition apart :: "arena \<Rightarrow> arena \<Rightarrow> nat \<Rightarrow> bool" where
  "apart ar br nf \<longleftrightarrow> extent ar nf \<le> a_startoff br \<or> extent br nf \<le> a_startoff ar"

definition off_map :: "arena \<Rightarrow> nat \<Rightarrow> nat" where "off_map ar p = a_mapoff ar + 4 * p"
definition off_flog :: "arena \<Rightarrow> nat \<Rightarrow> nat" where "off_flog ar i = a_flogoff ar + 64 * i"
definition off_data :: "arena \<Rightarrow> nat \<Rightarrow> nat" where "off_data ar b = a_dataoff ar + b * a_internal_lbasize ar"

lemma block_end:
  assumes "geom_ok ar nf lbasize sz" "b < a_internal_nlba ar"
  shows "a_startoff ar + 4096 \<le> off_data ar b" "off_data ar b + lbasize \<le> a_mapoff ar"
proof -
  have "(b + 1) * a_internal_lbasize ar \<le> a_internal_nlba ar * a_internal_lbasize ar"
    using assms(2) by (intro mult_le_mono1) simp
  then show "off_data ar b + lbasize \<le> a_mapoff ar" "a_startoff ar + 4096 \<le> off_data ar b"
    using assms(1) by (simp_all add: geom_ok_def off_data_def btt_sizes)
qed

lemma block_disjoint:
  assumes "b \<noteq> c" "lbasize \<le> a_internal_lbasize ar"
  shows "off_data ar b + lbasize \<le> off_data ar c \<or> off_data ar c + lbasize \<le> off_data ar b"
proof -
  have *: "x * L + lbasize \<le> y * L" if "x < y" "lbasize \<le> L" for x y L :: nat
  proof -
    have "(x + 1) * L \<le> y * L" using that(1) by (intro mult_le_mono1) simp
    then show ?thesis using that(2) by simp
  qed
  show ?thesis using assms * [of b c] * [of c b] by (auto simp: off_data_def nat_neq_iff)
qed

section \<open>Map entries and flog entries on the media\<close>

definition entry_at :: "(nat \<Rightarrow> byte) \<Rightarrow> arena \<Rightarrow> nat \<Rightarrow> 32 word" where
  "entry_at m ar p = word_at m (off_map ar p)"

definition lbaof :: "32 word \<Rightarrow> nat" where "lbaof e = unat (e AND BTT_MAP_ENTRY_LBA_MASK)"

text \<open>An entry that was never written stands for the block of the same number.\<close>

definition norm_entry :: "nat \<Rightarrow> 32 word \<Rightarrow> 32 word" where
  "norm_entry p e = (if map_entry_is_initial e then of_nat p OR BTT_MAP_ENTRY_NORMAL else e)"

definition post :: "(nat \<Rightarrow> byte) \<Rightarrow> arena \<Rightarrow> nat \<Rightarrow> nat" where
  "post m ar p = lbaof (norm_entry p (entry_at m ar p))"

definition flog_at :: "(nat \<Rightarrow> byte) \<Rightarrow> nat \<Rightarrow> btt_flog" where
  "flog_at m off = \<lparr> f_lba = word_at m off, f_old_map = word_at m (off + 4),
     f_new_map = word_at m (off + 8), f_seq = word_at m (off + 12) \<rparr>"

definition free_of :: "flog_runtime \<Rightarrow> nat" where "free_of r = lbaof (f_old_map (r_flog r))"

text \<open>The two entries of a lane on the media agree with its run-time state.\<close>

definition flog_ok :: "(nat \<Rightarrow> byte) \<Rightarrow> arena \<Rightarrow> nat \<Rightarrow> bool" where
  "flog_ok m ar i \<longleftrightarrow>
     (let r = a_flogs ar ! i; f0 = flog_at m (off_flog ar i); f1 = flog_at m (off_flog ar i + 16)
      in r_entries r = [off_flog ar i, off_flog ar i + 16]
         \<and> btt_flog_get_valid f0 f1 = Some (r_flog r, r_next r)
         \<and> unat (f_lba f0) < a_external_nlba ar \<and> unat (f_lba f1) < a_external_nlba ar
         \<and> f_seq f0 < 4 \<and> f_seq f1 < 4)"

definition blocks :: "(nat \<Rightarrow> byte) \<Rightarrow> arena \<Rightarrow> nat list" where
  "blocks m ar = map (post m ar) [0..<a_external_nlba ar] @ map free_of (a_flogs ar)"

definition media_ok :: "(nat \<Rightarrow> byte) \<Rightarrow> arena \<Rightarrow> nat \<Rightarrow> bool" where
  "media_ok m ar nf \<longleftrightarrow>
     length (a_flogs ar) = nf \<and> (\<forall>i < nf. flog_ok m ar i)
     \<and> distinct (blocks m ar) \<and> set (blocks m ar) \<subseteq> {..<a_internal_nlba ar}"

definition idle :: "arena \<Rightarrow> nat \<Rightarrow> bool" where
  "idle ar nf \<longleftrightarrow> a_rtt ar = replicate nf BTT_MAP_ENTRY_ERROR \<and> a_map_locks ar = replicate nf False
     \<and> \<not> a_info_lock ar"

text \<open>Bits of a map entry.\<close>

lemma mask_eq: "BTT_MAP_ENTRY_LBA_MASK = mask 30"
  by (simp add: btt_flags mask_eq_exp_minus_1)

lemma normal_eq: "BTT_MAP_ENTRY_NORMAL = push_bit 30 (mask 2)"
  by (simp add: btt_flags mask_eq_exp_minus_1 push_bit_eq_mult)

lemma mask_bits: "bit BTT_MAP_ENTRY_LBA_MASK k \<longleftrightarrow> k < 30"
  unfolding mask_eq by (auto simp: bit_simps)

lemma normal_bits: "bit BTT_MAP_ENTRY_NORMAL k \<longleftrightarrow> k = 30 \<or> k = 31"
  unfolding normal_eq by (auto simp: bit_simps)

lemma normal_parts:
  "(x OR BTT_MAP_ENTRY_NORMAL) AND NOT BTT_MAP_ENTRY_LBA_MASK = BTT_MAP_ENTRY_NORMAL OR (x AND NOT BTT_MAP_ENTRY_LBA_MASK)"
  "(x OR BTT_MAP_ENTRY_NORMAL) AND BTT_MAP_ENTRY_LBA_MASK = x AND BTT_MAP_ENTRY_LBA_MASK"
  by (rule bit_word_eqI; auto simp: bit_simps mask_bits normal_bits)+

lemma lbaof_normal [simp]: "lbaof ((x AND BTT_MAP_ENTRY_LBA_MASK) OR BTT_MAP_ENTRY_NORMAL) = lbaof x"
  by (simp add: lbaof_def normal_parts and.assoc)

lemma lbaof_mask [simp]: "lbaof (x AND BTT_MAP_ENTRY_LBA_MASK) = lbaof x"
  by (simp add: lbaof_def and.assoc)

lemma lbaof_flags [simp]: "lbaof (x OR BTT_MAP_ENTRY_NORMAL) = lbaof x"
  by (simp add: lbaof_def normal_parts)

lemma normal_entry:
  assumes "e = (x AND BTT_MAP_ENTRY_LBA_MASK) OR BTT_MAP_ENTRY_NORMAL"
  shows "\<not> map_entry_is_error e" "\<not> map_entry_is_zero_or_initial e" "\<not> map_entry_is_initial e" "\<not> map_entry_is_zero e"
proof -
  have "e AND NOT BTT_MAP_ENTRY_LBA_MASK = BTT_MAP_ENTRY_NORMAL"
    unfolding assms by (rule bit_word_eqI) (auto simp: bit_simps mask_bits normal_bits)
  then show "\<not> map_entry_is_error e" "\<not> map_entry_is_zero_or_initial e" "\<not> map_entry_is_initial e" "\<not> map_entry_is_zero e"
    by (simp_all add: map_entry_is_error_def map_entry_is_zero_or_initial_def map_entry_is_initial_def
        map_entry_is_zero_def btt_flags)
qed

lemma lbaof_mod: "lbaof e = unat e mod 2 ^ 30"
proof -
  have "lbaof e = take_bit 30 (unat e)"
    by (simp add: lbaof_def mask_eq unsigned_take_bit_eq flip: take_bit_eq_mask)
  then show ?thesis by (simp add: take_bit_eq_mod)
qed

lemma lbaof_small: "p < 2 ^ 30 \<Longrightarrow> lbaof (of_nat p) = p"
  by (simp add: lbaof_mod unat_of_nat)

text \<open>The content of a block: its bytes, or \<open>None\<close> for a block in the error state.\<close>

definition block_at :: "(nat \<Rightarrow> byte) \<Rightarrow> arena \<Rightarrow> nat \<Rightarrow> nat \<Rightarrow> byte list option" where
  "block_at m ar lbasize p =
     (let e = entry_at m ar p
      in if map_entry_is_error e then None
         else if map_entry_is_zero_or_initial e then Some (replicate lbasize 0)
         else Some (get_at m (off_data ar (lbaof e)) lbasize))"

end
