(* ===== verification/BttStep.thy ===== *)
theory BttStep
  imports BttInv
begin

text \<open>
  What each step of an operation does on a table that satisfies the invariant, in terms of the writes to
  the namespace it issues: the sequence of the writes is what the crash analysis looks at.
\<close>

section \<open>Updates of the state\<close>

lemma upd_arena_sel [simp, frame_simps]:
  "b_nlane (upd_arena a f s) = b_nlane s" "b_layout_write_mutex (upd_arena a f s) = b_layout_write_mutex s"
  "b_laidout (upd_arena a f s) = b_laidout s" "b_parent_uuid (upd_arena a f s) = b_parent_uuid s"
  "b_rawsize (upd_arena a f s) = b_rawsize s" "b_lbasize (upd_arena a f s) = b_lbasize s"
  "b_nfree (upd_arena a f s) = b_nfree s" "b_nlba (upd_arena a f s) = b_nlba s"
  "b_narena (upd_arena a f s) = b_narena s" "b_ns (upd_arena a f s) = b_ns s"
  "b_ns_cbp (upd_arena a f s) = b_ns_cbp s" "b_allocs (upd_arena a f s) = b_allocs s"
  "b_uuid_gen (upd_arena a f s) = b_uuid_gen s"
  "length (b_arenas (upd_arena a f s)) = length (b_arenas s)"
  by (simp_all add: upd_arena_def)

lemma arenas_upd [simp]:
  "a < length (b_arenas s) \<Longrightarrow> b_arenas (upd_arena a f s) ! a = f (b_arenas s ! a)"
  "a \<noteq> b \<Longrightarrow> b_arenas (upd_arena a f s) ! b = b_arenas s ! b"
  by (simp_all add: upd_arena_def)

lemma upd_arena_comp: "a < length (b_arenas s) \<Longrightarrow> upd_arena a f (upd_arena a g s) = upd_arena a (f \<circ> g) s"
  by (simp add: upd_arena_def)

lemma upd_arena_ns: "upd_arena a f (s \<lparr> b_ns := n \<rparr>) = (upd_arena a f s) \<lparr> b_ns := n \<rparr>"
  by (simp add: upd_arena_def)

lemma upd_arena_id: "f (b_arenas s ! a) = b_arenas s ! a \<Longrightarrow> upd_arena a f s = s"
  by (simp add: upd_arena_def)

lemma get_arena_ok [simp]: "a < length (b_arenas s) \<Longrightarrow> get_arena a s = (Inr (b_arenas s ! a), s)"
  by (simp add: get_arena_def aret_def)

section \<open>Finding the arena\<close>

definition total_nlba :: "arena list \<Rightarrow> nat" where
  "total_nlba ars = sum_list (map a_external_nlba ars)"

lemma find_arena_spec:
  "lba < total_nlba ars \<Longrightarrow> find_arena i ars lba = (j, p) \<Longrightarrow>
   i \<le> j \<and> j - i < length ars \<and> p < a_external_nlba (ars ! (j - i)) \<and> lba = total_nlba (take (j - i) ars) + p"
proof (induction ars arbitrary: i lba)
  case (Cons ar ars)
  show ?case
  proof (cases "lba < a_external_nlba ar")
    case True
    then show ?thesis using Cons.prems by (auto simp: total_nlba_def)
  next
    case False
    have "Suc i \<le> j \<and> j - Suc i < length ars \<and> p < a_external_nlba (ars ! (j - Suc i))
        \<and> lba - a_external_nlba ar = total_nlba (take (j - Suc i) ars) + p"
      using False Cons.prems by (intro Cons.IH) (auto simp: total_nlba_def)
    moreover from this have "j - i = Suc (j - Suc i)" by linarith
    ultimately show ?thesis using False by (auto simp: total_nlba_def)
  qed
qed (simp add: total_nlba_def)

lemma find_arena_inj:
  assumes "find_arena 0 ars x = find_arena 0 ars y" "x < total_nlba ars" "y < total_nlba ars"
  shows "x = y"
proof -
  obtain j p where "find_arena 0 ars x = (j, p)" by fastforce
  then show ?thesis using find_arena_spec [OF assms(2), of 0 j p] find_arena_spec [OF assms(3), of 0 j p] assms(1)
    by simp
qed

text \<open>The search reads the number of blocks only.\<close>

lemma find_arena_cong:
  "map a_external_nlba ars = map a_external_nlba brs \<Longrightarrow> find_arena i ars lba = find_arena i brs lba"
proof (induction ars arbitrary: brs i lba)
  case (Cons ar ars)
  then show ?case by (cases brs) auto
qed simp

section \<open>The invariant of a handle\<close>

definition btt_ok :: "(nat \<Rightarrow> byte) \<Rightarrow> nat \<Rightarrow> 'n btt \<Rightarrow> bool" where
  "btt_ok m sz s \<longleftrightarrow>
     b_laidout s \<and> b_narena s = length (b_arenas s) \<and> b_nlba s = total_nlba (b_arenas s)
     \<and> 0 < b_nlane s \<and> b_nlane s \<le> b_nfree s \<and> b_nfree s < 2 ^ 32 \<and> \<not> b_layout_write_mutex s
     \<and> (\<forall>a < length (b_arenas s). let ar = b_arenas s ! a in
          geom_ok ar (b_nfree s) (b_lbasize s) sz \<and> idle ar (b_nfree s) \<and> media_ok m ar (b_nfree s))
     \<and> (\<forall>a < length (b_arenas s). \<forall>b < length (b_arenas s). a \<noteq> b \<longrightarrow>
          apart (b_arenas s ! a) (b_arenas s ! b) (b_nfree s))"

definition abs_block :: "(nat \<Rightarrow> byte) \<Rightarrow> 'n btt \<Rightarrow> nat \<Rightarrow> byte list option" where
  "abs_block m s lba =
     (case find_arena 0 (b_arenas s) lba of (a, p) \<Rightarrow> block_at m (b_arenas s ! a) (b_lbasize s) p)"

lemma btt_okD:
  assumes "btt_ok m sz s"
  shows "b_laidout s" "b_narena s = length (b_arenas s)" "b_nlba s = total_nlba (b_arenas s)"
    "0 < b_nlane s" "b_nlane s \<le> b_nfree s" "\<not> b_layout_write_mutex s"
    and "\<And>a. a < length (b_arenas s) \<Longrightarrow> geom_ok (b_arenas s ! a) (b_nfree s) (b_lbasize s) sz"
    and "\<And>a. a < length (b_arenas s) \<Longrightarrow> idle (b_arenas s ! a) (b_nfree s)"
    and "\<And>a. a < length (b_arenas s) \<Longrightarrow> media_ok m (b_arenas s ! a) (b_nfree s)"
    and "\<And>a b. a < length (b_arenas s) \<Longrightarrow> b < length (b_arenas s) \<Longrightarrow> a \<noteq> b \<Longrightarrow>
          apart (b_arenas s ! a) (b_arenas s ! b) (b_nfree s)"
  using assms by (simp_all add: btt_ok_def Let_def)

lemma locate_ok:
  assumes "btt_ok m sz s" "lba < b_nlba s"
  obtains a p where "find_arena 0 (b_arenas s) lba = (a, p)" "a < length (b_arenas s)"
    and "p < a_external_nlba (b_arenas s ! a)"
    and "lba_to_arena_lba lba s = (Inr (a, p), s)"
proof -
  obtain a p where f: "find_arena 0 (b_arenas s) lba = (a, p)" by fastforce
  then have a: "a < length (b_arenas s)" and p: "p < a_external_nlba (b_arenas s ! a)"
    using find_arena_spec [of lba "b_arenas s" 0 a p] assms btt_okD(3) [OF assms(1)] by auto
  have "p < 2 ^ 32" using p btt_okD(7) [OF assms(1) a] by (simp add: geom_ok_def MAXB_def)
  then have "lba_to_arena_lba lba s = (Inr (a, p), s)"
    using f a btt_okD(1,2) [OF assms(1)] by (simp add: lba_to_arena_lba_def act_defs)
  then show thesis using that f a p by blast
qed

section \<open>Offsets in the code\<close>

lemma code_offsets:
  assumes g: "geom_ok ar nf lbasize sz"
  shows "p < a_external_nlba ar \<Longrightarrow> map_off ar p = off_map ar p"
    and "p < a_external_nlba ar \<Longrightarrow> off_map ar p + 4 \<le> a_flogoff ar"
    and "a_flogoff ar + 64 * nf \<le> sz" "sz < 2 ^ 63"
    and "i < nf \<Longrightarrow> off_flog ar i + 64 \<le> extent ar nf"
    and "lbaof e < a_internal_nlba ar \<Longrightarrow> data_off ar e = off_data ar (lbaof e)"
    and "b < a_internal_nlba ar \<Longrightarrow> off_data ar b + lbasize \<le> sz"
proof -
  note G = g [unfolded geom_ok_def extent_def MAXB_def]
  show sz: "a_flogoff ar + 64 * nf \<le> sz" "sz < 2 ^ 63" using G by auto
  show m: "off_map ar p + 4 \<le> a_flogoff ar" if "p < a_external_nlba ar" using G that by (simp add: off_map_def)
  show "map_off ar p = off_map ar p" if "p < a_external_nlba ar"
    using G that m [OF that] sz by (simp add: map_off_def off_map_def btt_sizes)
  show "off_flog ar i + 64 \<le> extent ar nf" if "i < nf" using that by (simp add: off_flog_def extent_def)
  show d: "off_data ar b + lbasize \<le> sz" if "b < a_internal_nlba ar" for b
    using block_end(2) [OF g that] G by simp
  show "data_off ar e = off_data ar (lbaof e)" if "lbaof e < a_internal_nlba ar"
    using d [OF that] sz by (simp add: data_off_def off_data_def flip: lbaof_def)
qed

lemma map_lock_num: "0 < nf \<Longrightarrow> get_map_lock_num p nf < nf"
  by (simp add: get_map_lock_num_def)

end
