(* ===== verification/BttWrite.thy ===== *)
theory BttWrite
  imports BttStep
begin

text \<open>
  A write to a block: the four writes to the namespace it issues and the state it leaves. Then the effect
  of these writes on the media: the invariant holds again, the block has its new content and every other
  block keeps the one it had.
\<close>

section \<open>The steps\<close>

definition lock_upd :: "nat \<Rightarrow> bool \<Rightarrow> arena \<Rightarrow> arena" where
  "lock_upd k b ar = ar \<lparr> a_map_locks := (a_map_locks ar)[k := b] \<rparr>"

definition flog_upd :: "nat \<Rightarrow> btt_flog \<Rightarrow> arena \<Rightarrow> arena" where
  "flog_upd i f ar = ar \<lparr> a_flogs := (a_flogs ar)[i := (a_flogs ar ! i) \<lparr> r_next := 1 - r_next (a_flogs ar ! i), r_flog := f \<rparr>] \<rparr>"

lemma lock_upd_sel [simp]:
  "a_flags (lock_upd k b ar) = a_flags ar" "a_external_nlba (lock_upd k b ar) = a_external_nlba ar"
  "a_internal_lbasize (lock_upd k b ar) = a_internal_lbasize ar" "a_internal_nlba (lock_upd k b ar) = a_internal_nlba ar"
  "a_startoff (lock_upd k b ar) = a_startoff ar" "a_dataoff (lock_upd k b ar) = a_dataoff ar"
  "a_mapoff (lock_upd k b ar) = a_mapoff ar" "a_flogoff (lock_upd k b ar) = a_flogoff ar"
  "a_flogs (lock_upd k b ar) = a_flogs ar" "a_rtt (lock_upd k b ar) = a_rtt ar"
  "a_map_locks (lock_upd k b ar) = (a_map_locks ar)[k := b]"
  by (simp_all add: lock_upd_def)

lemma flog_upd_sel [simp]:
  "a_flags (flog_upd k b ar) = a_flags ar" "a_external_nlba (flog_upd k b ar) = a_external_nlba ar"
  "a_internal_lbasize (flog_upd k b ar) = a_internal_lbasize ar" "a_internal_nlba (flog_upd k b ar) = a_internal_nlba ar"
  "a_startoff (flog_upd k b ar) = a_startoff ar" "a_dataoff (flog_upd k b ar) = a_dataoff ar"
  "a_mapoff (flog_upd k b ar) = a_mapoff ar" "a_flogoff (flog_upd k b ar) = a_flogoff ar"
  "a_map_locks (flog_upd k b ar) = a_map_locks ar" "a_rtt (flog_upd k b ar) = a_rtt ar"
  "a_info_lock (flog_upd k b ar) = a_info_lock ar"
  by (simp_all add: flog_upd_def)

lemma update_False: "\<not> xs ! k \<Longrightarrow> xs[k := False] = xs"
  using list_update_id [of xs k] by simp

lemma lock_upd_undo: "\<not> a_map_locks ar ! k \<Longrightarrow> lock_upd k False (flog_upd i f (lock_upd k True ar)) = flog_upd i f ar"
  by (simp add: lock_upd_def flog_upd_def update_False)

lemma lock_upd_undo': "\<not> a_map_locks ar ! k \<Longrightarrow> lock_upd k False (lock_upd k True ar) = ar"
  by (simp add: lock_upd_def update_False)

definition head_bytes :: "nat \<Rightarrow> 32 word \<Rightarrow> byte list" where
  "head_bytes p old = to_le 4 (of_nat p :: 32 word) @ to_le 4 old"

definition tail_bytes :: "32 word \<Rightarrow> 32 word \<Rightarrow> byte list" where
  "tail_bytes new sq = to_le 4 new @ to_le 4 sq"

lemma length_head_tail [simp]: "length (head_bytes p old) = 8" "length (tail_bytes new sq) = 8"
  by (simp_all add: head_bytes_def tail_bytes_def)

definition new_flog_of :: "arena \<Rightarrow> nat \<Rightarrow> nat \<Rightarrow> 32 word \<Rightarrow> 32 word \<Rightarrow> btt_flog" where
  "new_flog_of ar lane p old new =
     \<lparr> f_lba = of_nat p, f_old_map = old, f_new_map = new, f_seq = NSEQ (f_seq (r_flog (a_flogs ar ! lane))) \<rparr>"

definition next_off :: "arena \<Rightarrow> nat \<Rightarrow> nat" where
  "next_off ar lane = r_entries (a_flogs ar ! lane) ! r_next (a_flogs ar ! lane)"

context namespace
begin

lemma map_lock_ok:
  assumes cb: "b_ns_cbp s = cb" "ready (b_ns s)" and a: "a < length (b_arenas s)"
    and g: "geom_ok (b_arenas s ! a) (b_nfree s) (b_lbasize s) (nssize (b_ns s))"
    and l: "a_map_locks (b_arenas s ! a) = replicate (b_nfree s) False" and p: "p < a_external_nlba (b_arenas s ! a)"
  shows "map_lock lane a p s = (Inr (norm_entry p (entry_at (content (b_ns s)) (b_arenas s ! a) p)),
    upd_arena a (lock_upd (get_map_lock_num p (b_nfree s)) True) s)"
proof -
  let ?k = "get_map_lock_num p (b_nfree s)"
  have nf: "0 < b_nfree s" using g by (simp add: geom_ok_def)
  have k: "?k < b_nfree s" by (rule map_lock_num [OF nf])
  have fit: "off_map (b_arenas s ! a) p + 4 \<le> nssize (b_ns s)" using code_offsets(2,3) [OF g] p by fastforce
  have lk: "lock_map a ?k s = (Inr (), upd_arena a (lock_upd ?k True) s)"
    using a l k by (simp add: lock_map_def act_defs lock_upd_def [abs_def])
  have rd: "ns_read lane 4 (off_map (b_arenas s ! a) p) (upd_arena a (lock_upd ?k True) s)
      = (Inr (get_at (content (b_ns s)) (off_map (b_arenas s ! a) p) 4), upd_arena a (lock_upd ?k True) s)"
    using cb fit by (subst ns_read_ok) simp_all
  show ?thesis using a lk rd code_offsets(1) [OF g p]
    by (simp add: map_lock_def act_defs Let_def norm_entry_def entry_at_def word_at_def)
qed

lemma map_unlock_ok:
  assumes cb: "b_ns_cbp s = cb" "ready (b_ns s)" and a: "a < length (b_arenas s)"
    and g: "geom_ok (b_arenas s ! a) (b_nfree s) (b_lbasize s) (nssize (b_ns s))"
    and p: "p < a_external_nlba (b_arenas s ! a)"
  shows "map_unlock lane a e p s = (Inr (),
    upd_arena a (lock_upd (get_map_lock_num p (b_nfree s)) False)
      (s \<lparr> b_ns := written cb lane (to_le 4 e) (off_map (b_arenas s ! a) p) (b_ns s) \<rparr>))"
proof -
  have fit: "off_map (b_arenas s ! a) p + 4 \<le> nssize (b_ns s)" using code_offsets(2,3) [OF g] p by fastforce
  have "ns_write lane (to_le 4 e) (off_map (b_arenas s ! a) p) s
      = (Inr (), s \<lparr> b_ns := written cb lane (to_le 4 e) (off_map (b_arenas s ! a) p) (b_ns s) \<rparr>)"
    using cb fit by (subst ns_write_ok) simp_all
  then show ?thesis using a code_offsets(1) [OF g p]
    by (simp add: map_unlock_def unlock_map_def act_defs Let_def lock_upd_def [abs_def])
qed

lemma flog_update_ok:
  assumes cb: "b_ns_cbp s = cb" "ready (b_ns s)" and a: "a < length (b_arenas s)"
    and i: "lane < length (a_flogs (b_arenas s ! a))" and r: "r_next (a_flogs (b_arenas s ! a) ! lane) < 2"
    "length (r_entries (a_flogs (b_arenas s ! a) ! lane)) = 2"
    and fit: "next_off (b_arenas s ! a) lane + 16 \<le> nssize (b_ns s)" and ar: "ar = b_arenas s ! a"
  shows "flog_update lane a p old new s = (Inr (), upd_arena a (flog_upd lane (new_flog_of ar lane p old new))
    (s \<lparr> b_ns := written cb lane (tail_bytes new (NSEQ (f_seq (r_flog (a_flogs ar ! lane))))) (next_off ar lane + 8)
          (written cb lane (head_bytes p old) (next_off ar lane) (b_ns s)) \<rparr>))"
proof -
  let ?o = "next_off ar lane"
  have o64: "u64 (?o + 8) = ?o + 8" using fit ar size_law [OF cb(2)] by (intro u64_id) simp
  have w1: "ns_write lane (head_bytes p old) ?o s = (Inr (), s \<lparr> b_ns := written cb lane (head_bytes p old) ?o (b_ns s) \<rparr>)"
    using cb fit ar by (subst ns_write_ok) simp_all
  let ?n = "written cb lane (head_bytes p old) ?o (b_ns s)"
  have n: "nssize ?n = nssize (b_ns s)" "ready ?n" using cb fit ar by (simp_all add: written_laws)
  have w2: "ns_write lane (tail_bytes new q) (?o + 8) (s \<lparr> b_ns := ?n \<rparr>)
      = (Inr (), s \<lparr> b_ns := written cb lane (tail_bytes new q) (?o + 8) ?n \<rparr>)" for q
    using cb fit ar n by (subst ns_write_ok) simp_all
  show ?thesis using a i r w1 w2 o64 unfolding ar
    by (simp add: flog_update_def btt_flog_convert2le_def act_defs Let_def next_off_def head_bytes_def tail_bytes_def
        upd_flog_def flog_upd_def new_flog_of_def upd_arena_def)
qed

end

section \<open>The writes of an operation\<close>

definition free_entry :: "arena \<Rightarrow> nat \<Rightarrow> 32 word" where
  "free_entry ar lane = (f_old_map (r_flog (a_flogs ar ! lane)) AND BTT_MAP_ENTRY_LBA_MASK) OR BTT_MAP_ENTRY_NORMAL"

text \<open>Data, head of the flog entry, tail of the flog entry, map entry: the namespace after each of them.\<close>

definition ns_data :: "'n ns_callback \<Rightarrow> nat \<Rightarrow> arena \<Rightarrow> byte list \<Rightarrow> 'n \<Rightarrow> 'n" where
  "ns_data cb lane ar buf n = written cb lane buf (off_data ar (lbaof (free_entry ar lane))) n"

definition ns_head :: "'n ns_callback \<Rightarrow> nat \<Rightarrow> arena \<Rightarrow> nat \<Rightarrow> 32 word \<Rightarrow> byte list \<Rightarrow> 'n \<Rightarrow> 'n" where
  "ns_head cb lane ar p old buf n = written cb lane (head_bytes p old) (next_off ar lane) (ns_data cb lane ar buf n)"

definition ns_tail :: "'n ns_callback \<Rightarrow> nat \<Rightarrow> arena \<Rightarrow> nat \<Rightarrow> 32 word \<Rightarrow> byte list \<Rightarrow> 'n \<Rightarrow> 'n" where
  "ns_tail cb lane ar p old buf n =
     written cb lane (tail_bytes (free_entry ar lane) (NSEQ (f_seq (r_flog (a_flogs ar ! lane)))))
       (next_off ar lane + 8) (ns_head cb lane ar p old buf n)"

definition ns_map :: "'n ns_callback \<Rightarrow> nat \<Rightarrow> arena \<Rightarrow> nat \<Rightarrow> 32 word \<Rightarrow> byte list \<Rightarrow> 'n \<Rightarrow> 'n" where
  "ns_map cb lane ar p old buf n =
     written cb lane (to_le 4 (free_entry ar lane)) (off_map ar p) (ns_tail cb lane ar p old buf n)"

lemmas ns_writes = ns_data_def ns_head_def ns_tail_def ns_map_def

lemma flog_okD:
  assumes "flog_ok m ar i"
  shows "r_entries (a_flogs ar ! i) = [off_flog ar i, off_flog ar i + 16]" "r_next (a_flogs ar ! i) < 2"
    and "next_off ar i = off_flog ar i + 16 * r_next (a_flogs ar ! i)"
proof -
  show e: "r_entries (a_flogs ar ! i) = [off_flog ar i, off_flog ar i + 16]"
    using assms by (simp add: flog_ok_def Let_def)
  show n: "r_next (a_flogs ar ! i) < 2"
    using assms by (auto simp: flog_ok_def Let_def btt_flog_get_valid_def split: if_splits)
  show "next_off ar i = off_flog ar i + 16 * r_next (a_flogs ar ! i)"
    using e n by (auto simp: next_off_def less_2_cases_iff)
qed

lemma media_okD:
  assumes "media_ok m ar nf" "i < nf"
  shows "flog_ok m ar i" "length (a_flogs ar) = nf" "free_of (a_flogs ar ! i) < a_internal_nlba ar"
    and "lbaof (free_entry ar i) = free_of (a_flogs ar ! i)"
proof -
  show l: "flog_ok m ar i" "length (a_flogs ar) = nf" using assms by (simp_all add: media_ok_def)
  have "free_of (a_flogs ar ! i) \<in> set (blocks m ar)" using assms l(2) by (auto simp: blocks_def)
  then show "free_of (a_flogs ar ! i) < a_internal_nlba ar" using assms by (auto simp: media_ok_def)
  show "lbaof (free_entry ar i) = free_of (a_flogs ar ! i)" by (simp add: free_entry_def free_of_def)
qed

context namespace
begin

lemma wait_readers_ok:
  assumes "a < length (b_arenas s)" "idle (b_arenas s ! a) (b_nfree s)" "b_nlane s \<le> b_nfree s"
    and "\<not> map_entry_is_error e"
  shows "wait_readers a e s = (Inr (), s)"
proof -
  have "map_entry_is_error BTT_MAP_ENTRY_ERROR" by (simp add: map_entry_is_error_def btt_flags)
  then have "e \<noteq> BTT_MAP_ENTRY_ERROR" using assms(4) by metis
  then show ?thesis using assms(1-3) by (auto simp: wait_readers_def act_defs idle_def)
qed

lemma btt_write_trace:
  assumes cb: "b_ns_cbp s = cb" "ready (b_ns s)" and ok: "btt_ok (content (b_ns s)) (nssize (b_ns s)) s"
    and lane: "lane < b_nlane s" and lba: "lba < b_nlba s" and buf: "length buf = b_lbasize s"
    and loc: "find_arena 0 (b_arenas s) lba = (a, p)" and ar: "ar = b_arenas s ! a"
    and err: "a_flags ar AND BTTINFO_FLAG_ERROR_MASK = 0"
  defines "old \<equiv> norm_entry p (entry_at (content (b_ns s)) ar p)"
  shows "btt_write lane lba buf s = (Inr (), (upd_arena a (flog_upd lane (new_flog_of ar lane p old (free_entry ar lane))) s)
    \<lparr> b_ns := ns_map cb lane ar p old buf (b_ns s) \<rparr>)"
proof -
  note D = btt_okD [OF ok]
  obtain a': "a < length (b_arenas s)" and p: "p < a_external_nlba ar" and l: "lba_to_arena_lba lba s = (Inr (a, p), s)"
    using locate_ok [OF ok lba] loc ar by auto
  note a = a'
  have g: "geom_ok ar (b_nfree s) (b_lbasize s) (nssize (b_ns s))" and id: "idle ar (b_nfree s)"
    and md: "media_ok (content (b_ns s)) ar (b_nfree s)" using D(7-9) [OF a] ar by simp_all
  have lf: "lane < b_nfree s" using lane D(5) by simp
  note M = media_okD [OF md lf] and F = flog_okD [OF media_okD(1) [OF md lf]]
  note off = code_offsets [OF g]
  let ?f = "free_entry ar lane" and ?k = "get_map_lock_num p (b_nfree s)"
  let ?n1 = "ns_data cb lane ar buf (b_ns s)"
  have fl: "lbaof ?f < a_internal_nlba ar" using M by simp
  have fit1: "off_data ar (lbaof ?f) + length buf \<le> nssize (b_ns s)" using off(7) [OF fl] buf by simp
  note W1 = written_laws [OF cb(2) fit1, where lane = lane, folded ns_data_def]
  let ?s1 = "s \<lparr> b_ns := ?n1 \<rparr>"
  have w1: "ns_write lane (take (b_lbasize s) buf) (data_off ar ?f) s = (Inr (), ?s1)"
    using cb fit1 buf off(6) [OF fl] by (simp add: ns_write_ok ns_data_def)
  have wait: "wait_readers a ?f s = (Inr (), s)"
    using a id D(5) ar normal_entry(1) [OF free_entry_def] by (intro wait_readers_ok) auto
  have mapbytes: "entry_at (content ?n1) ar p = entry_at (content (b_ns s)) ar p"
    using block_end(2) [OF g fl] W1(2) buf by (simp add: entry_at_def off_map_def)
  let ?s2 = "upd_arena a (lock_upd ?k True) ?s1"
  have lk: "map_lock lane a p ?s1 = (Inr old, ?s2)"
    using cb a g id p W1 mapbytes ar by (subst map_lock_ok) (auto simp: idle_def old_def)
  let ?s3 = "upd_arena a (flog_upd lane (new_flog_of ar lane p old ?f)) (?s2 \<lparr> b_ns := ns_tail cb lane ar p old buf (b_ns s) \<rparr>)"
  have fit2: "next_off ar lane + 16 \<le> nssize (b_ns s)"
    using F(2,3) off(3) off(5) [OF lf] by (simp add: extent_def)
  have fu: "flog_update lane a p old ?f ?s2 = (Inr (), ?s3)"
  proof -
    have "flog_update lane a p old ?f ?s2 = (Inr (), upd_arena a (flog_upd lane (new_flog_of (lock_upd ?k True ar) lane p old ?f))
      (?s2 \<lparr> b_ns := ns_tail cb lane ar p old buf (b_ns s) \<rparr>))"
      using cb a lf M(2) F fit2 W1 ar
      by (subst flog_update_ok [where ar = "lock_upd ?k True ar"]) (simp_all add: next_off_def ns_tail_def ns_head_def)
    then show ?thesis by (simp add: new_flog_of_def)
  qed
  have rd2: "ready (ns_tail cb lane ar p old buf (b_ns s))" "nssize (ns_tail cb lane ar p old buf (b_ns s)) = nssize (b_ns s)"
    using W1 fit2 by (simp_all add: ns_tail_def ns_head_def written_laws)
  let ?s4 = "upd_arena a (lock_upd ?k False) (?s3 \<lparr> b_ns := ns_map cb lane ar p old buf (b_ns s) \<rparr>)"
  have un: "map_unlock lane a ?f p ?s3 = (Inr (), ?s4)"
    using cb a g p rd2 ar by (subst map_unlock_ok) (auto simp: geom_ok_def extent_def off_map_def ns_map_def)
  have k: "?k < b_nfree s" using lf by (intro map_lock_num) simp
  have "?s4 = (upd_arena a (flog_upd lane (new_flog_of ar lane p old ?f)) s) \<lparr> b_ns := ns_map cb lane ar p old buf (b_ns s) \<rparr>"
    using a id k ar lock_upd_undo [of ar ?k lane "new_flog_of ar lane p old ?f"]
    by (simp add: upd_arena_def idle_def)
  moreover have "btt_write lane lba buf s = (Inr (), ?s4)"
    using lba D(1) l a lf M(2) err wait w1 lk fu un ar
    by (simp add: btt_write_def ensure_layout_def act_defs invalid_lba_def Let_def flip: free_entry_def)
  ultimately show ?thesis by simp
qed

end

end
