(* ===== verification/BttMedia.thy ===== *)
theory BttMedia
  imports BttWrite "HOL-Library.Multiset"
begin

text \<open>
  The media before, between and after the four writes of an operation: map entries, flog entries and data
  blocks, the invariant of the arena, and the content of its blocks.
\<close>

section \<open>Locality\<close>

definition agree :: "(nat \<Rightarrow> byte) \<Rightarrow> (nat \<Rightarrow> byte) \<Rightarrow> nat \<Rightarrow> nat \<Rightarrow> bool" where
  "agree m m' lo hi \<longleftrightarrow> (\<forall>x. lo \<le> x \<and> x < hi \<longrightarrow> m x = m' x)"

lemma agree_get: "agree m m' lo hi \<Longrightarrow> lo \<le> off \<Longrightarrow> off + n \<le> hi \<Longrightarrow> get_at m off n = get_at m' off n"
  by (simp add: agree_def get_at_def)

lemma agree_word: "agree m m' lo hi \<Longrightarrow> lo \<le> off \<Longrightarrow> off + 4 \<le> hi \<Longrightarrow> word_at m off = word_at m' off"
  by (simp add: word_at_def agree_get)

lemma agree_put: "off + length bs \<le> lo \<or> hi \<le> off \<Longrightarrow> agree m (put_at off bs m) lo hi"
  by (auto simp: agree_def put_at_def)

lemma agree_trans: "agree m m' lo hi \<Longrightarrow> agree m' m'' lo hi \<Longrightarrow> agree m m'' lo hi"
  by (simp add: agree_def)

lemma agree_mono: "agree m m' lo hi \<Longrightarrow> lo \<le> lo' \<Longrightarrow> hi' \<le> hi \<Longrightarrow> agree m m' lo' hi'"
  by (simp add: agree_def)

lemma entry_agree:
  assumes "agree m m' (a_mapoff ar) (a_flogoff ar)" "geom_ok ar nf lbasize sz" "p < a_external_nlba ar"
  shows "entry_at m ar p = entry_at m' ar p"
  unfolding entry_at_def using assms by (intro agree_word) (auto simp: off_map_def geom_ok_def)

lemma flog_at_agree: "agree m m' lo hi \<Longrightarrow> lo \<le> off \<Longrightarrow> off + 16 \<le> hi \<Longrightarrow> flog_at m off = flog_at m' off"
  by (simp add: flog_at_def agree_word)

lemma flog_ok_agree:
  assumes "agree m m' (off_flog ar i) (off_flog ar i + 32)"
  shows "flog_ok m ar i \<longleftrightarrow> flog_ok m' ar i"
  using flog_at_agree [OF assms, of "off_flog ar i"] flog_at_agree [OF assms, of "off_flog ar i + 16"]
  by (simp add: flog_ok_def)

lemma post_bound:
  assumes "media_ok m ar nf" "p < a_external_nlba ar"
  shows "post m ar p < a_internal_nlba ar"
proof -
  have "post m ar p \<in> set (blocks m ar)" using assms(2) by (simp add: blocks_def)
  then show ?thesis using assms(1) unfolding media_ok_def by blast
qed

lemma post_lbaof:
  "\<not> map_entry_is_initial (entry_at m ar p) \<Longrightarrow> post m ar p = lbaof (entry_at m ar p)"
  by (simp add: post_def norm_entry_def)

text \<open>The invariant and the content of the blocks depend on the bytes of the arena only.\<close>

lemma arena_agree:
  assumes ag: "agree m m' (a_startoff ar) (extent ar nf)" and g: "geom_ok ar nf lbasize sz"
  shows "media_ok m ar nf \<longleftrightarrow> media_ok m' ar nf"
    and "media_ok m ar nf \<Longrightarrow> p < a_external_nlba ar \<Longrightarrow> block_at m ar lbasize p = block_at m' ar lbasize p"
proof -
  note G = g [unfolded geom_ok_def extent_def btt_sizes]
  have maps: "agree m m' (a_mapoff ar) (a_flogoff ar)" using G by (intro agree_mono [OF ag]) (auto simp: extent_def)
  have e: "entry_at m ar q = entry_at m' ar q" if "q < a_external_nlba ar" for q
    by (rule entry_agree [OF maps g that])
  have "blocks m ar = blocks m' ar" by (simp add: blocks_def post_def e)
  moreover have "flog_ok m ar i \<longleftrightarrow> flog_ok m' ar i" if "i < nf" for i
    using that G by (intro flog_ok_agree agree_mono [OF ag]) (auto simp: off_flog_def extent_def)
  ultimately show "media_ok m ar nf \<longleftrightarrow> media_ok m' ar nf" by (auto simp: media_ok_def)
  assume m: "media_ok m ar nf" and p: "p < a_external_nlba ar"
  show "block_at m ar lbasize p = block_at m' ar lbasize p"
  proof (cases "map_entry_is_zero_or_initial (entry_at m ar p)")
    case True
    then show ?thesis using e [OF p] by (simp add: block_at_def Let_def)
  next
    case False
    then have "\<not> map_entry_is_initial (entry_at m ar p)"
      by (simp add: map_entry_is_zero_or_initial_def map_entry_is_initial_def Let_def)
    then have "lbaof (entry_at m ar p) < a_internal_nlba ar" using post_bound [OF m p] by (simp add: post_lbaof)
    from block_end [OF g this] have "get_at m (off_data ar (lbaof (entry_at m ar p))) lbasize
        = get_at m' (off_data ar (lbaof (entry_at m ar p))) lbasize"
      using G by (intro agree_get [OF ag]) (auto simp: extent_def)
    then show ?thesis using e [OF p] by (simp add: block_at_def Let_def)
  qed
qed

section \<open>Whole flog entries\<close>

lemma length_flog_to_bytes [simp]: "length (flog_to_bytes f) = 16"
  by (simp add: flog_to_bytes_def)

lemma get_put_inside: "i + n \<le> length bs \<Longrightarrow> get_at (put_at off bs m) (off + i) n = take n (drop i bs)"
  by (rule nth_equalityI) (auto simp: get_at_def put_at_def)

lemma flog_at_put [simp]: "flog_at (put_at off (flog_to_bytes f) m) off = f"
proof -
  have w: "word_at (put_at off (flog_to_bytes f) m) (off + i) = of_le (take 4 (drop i (flog_to_bytes f)))" if "i \<le> 12" for i
    using that by (simp add: word_at_def get_put_inside)
  show ?thesis using w [of 0] w [of 4] w [of 8] w [of 12]
    by (simp add: flog_at_def flog_to_bytes_def of_le_to_le)
qed

lemma word_at_zero [simp]: "word_at (\<lambda>_. 0) off = 0"
proof -
  have "get_at (\<lambda>_. 0) off 4 = replicate 4 0" by (rule nth_equalityI) (simp_all add: get_at_def)
  then show ?thesis by (simp add: word_at_def numeral_eq_Suc)
qed

section \<open>Sequence numbers\<close>

lemma nseq_cases:
  assumes "s < 4" "s \<noteq> 0"
  shows "(s :: 32 word) = 1 \<and> NSEQ s = 2 \<or> s = 2 \<and> NSEQ s = 3 \<or> s = 3 \<and> NSEQ s = 1"
proof -
  have "unat s < 4" "unat s \<noteq> 0" using assms by (simp_all add: word_less_nat_alt unat_eq_zero)
  then have "unat s = 1 \<or> unat s = 2 \<or> unat s = 3" by linarith
  then have "s = 1 \<or> s = 2 \<or> s = 3" by (simp add: word_unat_eq_iff)
  then show ?thesis by (auto simp: NSEQ_def Nseq_def)
qed

text \<open>Writing the next sequence number into the entry that is not current makes it the current one.\<close>

lemma get_valid_next:
  assumes v: "btt_flog_get_valid f0 f1 = Some (cur, n)" and s: "f_seq f0 < 4" "f_seq f1 < 4"
    and new: "f_seq f = NSEQ (f_seq cur)"
  shows "btt_flog_get_valid (if n = 0 then f else f0) (if n = 0 then f1 else f) = Some (f, 1 - n)"
    and "f_seq f < 4" "f_seq cur \<noteq> 0"
proof -
  have c: "n = 0 \<and> cur = f1 \<or> n = 1 \<and> cur = f0" and nz: "f_seq cur \<noteq> 0"
    using v by (auto simp: btt_flog_get_valid_def split: if_splits)
  show "f_seq cur \<noteq> 0" by (rule nz)
  have "f_seq cur < 4" using c s by auto
  note N = nseq_cases [OF this nz]
  then show "f_seq f < 4" using new by auto
  show "btt_flog_get_valid (if n = 0 then f else f0) (if n = 0 then f1 else f) = Some (f, 1 - n)"
    using c
  proof
    assume n: "n = 0 \<and> cur = f1"
    have "NSEQ (f_seq f) \<noteq> f_seq cur" "f_seq f \<noteq> f_seq cur" "f_seq f \<noteq> 0"
      using N new by (auto simp: NSEQ_def Nseq_def)
    then show ?thesis using n nz by (auto simp: btt_flog_get_valid_def)
  next
    assume n: "n = 1 \<and> cur = f0"
    have "f_seq f \<noteq> f_seq cur" "f_seq f \<noteq> 0" using N new by auto
    then show ?thesis using n nz new by (auto simp: btt_flog_get_valid_def)
  qed
qed

text \<open>Only the sequence numbers decide which entry is current.\<close>

lemma get_valid_other:
  assumes "btt_flog_get_valid f0 f1 = Some (cur, n)" "f_seq f = f_seq (if n = 0 then f0 else f1)"
  shows "btt_flog_get_valid (if n = 0 then f else f0) (if n = 0 then f1 else f) = Some (cur, n)"
  using assms by (auto simp: btt_flog_get_valid_def split: if_splits)

end
