(* ===== verification/BttEffect.thy ===== *)
theory BttEffect
  imports BttMedia
begin

text \<open>
  The media after each of the writes of an operation: before the sequence number is written nothing has
  changed for a reader; with the sequence number the new flog entry is current while the map still has the
  old entry; with the map entry the block has its new content.
\<close>

section \<open>The stages\<close>

definition same_outside :: "(nat \<Rightarrow> byte) \<Rightarrow> (nat \<Rightarrow> byte) \<Rightarrow> nat \<Rightarrow> nat \<Rightarrow> bool" where
  "same_outside m m' off n \<longleftrightarrow> (\<forall>x. x < off \<or> off + n \<le> x \<longrightarrow> m x = m' x)"

lemma outside_put: "n = length bs \<Longrightarrow> same_outside m (put_at off bs m) off n"
  by (auto simp: same_outside_def put_at_def)

lemma outside_agree: "same_outside m m' off n \<Longrightarrow> hi \<le> off \<or> off + n \<le> lo \<Longrightarrow> agree m m' lo hi"
  by (auto simp: same_outside_def agree_def)

lemma outside_refl [simp]: "same_outside m m off n"
  by (simp add: same_outside_def)

lemma outside_sym: "same_outside m m' off n \<Longrightarrow> same_outside m' m off n"
  by (simp add: same_outside_def)

definition data_of :: "arena \<Rightarrow> nat \<Rightarrow> nat" where
  "data_of ar lane = off_data ar (free_of (a_flogs ar ! lane))"

definition new_seq :: "arena \<Rightarrow> nat \<Rightarrow> 32 word" where
  "new_seq ar lane = NSEQ (f_seq (r_flog (a_flogs ar ! lane)))"

definition md_head :: "arena \<Rightarrow> nat \<Rightarrow> nat \<Rightarrow> 32 word \<Rightarrow> (nat \<Rightarrow> byte) \<Rightarrow> nat \<Rightarrow> byte" where
  "md_head ar lane p old m = put_at (next_off ar lane) (head_bytes p old) m"

definition md_tail :: "arena \<Rightarrow> nat \<Rightarrow> (nat \<Rightarrow> byte) \<Rightarrow> nat \<Rightarrow> byte" where
  "md_tail ar lane m = put_at (next_off ar lane + 8) (tail_bytes (free_entry ar lane) (new_seq ar lane)) m"

definition md_map :: "arena \<Rightarrow> nat \<Rightarrow> nat \<Rightarrow> (nat \<Rightarrow> byte) \<Rightarrow> nat \<Rightarrow> byte" where
  "md_map ar lane p m = put_at (off_map ar p) (to_le 4 (free_entry ar lane)) m"

section \<open>Distinct blocks\<close>

lemma blocks_distinct:
  assumes "media_ok m ar nf" "p < a_external_nlba ar" "i < nf"
  shows "post m ar p \<noteq> free_of (a_flogs ar ! i)"
    and "q < a_external_nlba ar \<Longrightarrow> q \<noteq> p \<Longrightarrow> post m ar p \<noteq> post m ar q"
    and "j < nf \<Longrightarrow> j \<noteq> i \<Longrightarrow> free_of (a_flogs ar ! i) \<noteq> free_of (a_flogs ar ! j)"
proof -
  have d: "distinct (blocks m ar)" and l: "length (a_flogs ar) = nf" using assms by (simp_all add: media_ok_def)
  have nth: "blocks m ar ! q = post m ar q" if "q < a_external_nlba ar" for q using that by (simp add: blocks_def nth_append)
  have nth': "blocks m ar ! (a_external_nlba ar + i) = free_of (a_flogs ar ! i)" if "i < nf" for i
    using that l by (simp add: blocks_def nth_append)
  have len: "length (blocks m ar) = a_external_nlba ar + nf" using l by (simp add: blocks_def)
  have ne: "blocks m ar ! x \<noteq> blocks m ar ! y" if "x \<noteq> y" "x < a_external_nlba ar + nf" "y < a_external_nlba ar + nf" for x y
    using that d len by (simp add: nth_eq_iff_index_eq)
  show "post m ar p \<noteq> free_of (a_flogs ar ! i)"
    using ne [of p "a_external_nlba ar + i"] nth nth' assms by simp
  show "post m ar p \<noteq> post m ar q" if "q < a_external_nlba ar" "q \<noteq> p"
    using ne [of p q] nth that assms by simp
  show "free_of (a_flogs ar ! i) \<noteq> free_of (a_flogs ar ! j)" if "j < nf" "j \<noteq> i"
    using ne [of "a_external_nlba ar + i" "a_external_nlba ar + j"] nth' that assms by simp
qed

lemma not_initial: "\<not> map_entry_is_zero_or_initial e \<Longrightarrow> \<not> map_entry_is_initial e"
  by (simp add: map_entry_is_zero_or_initial_def map_entry_is_initial_def Let_def)

lemma block_at_cong:
  assumes "entry_at m' ar q = entry_at m ar q"
    and "get_at m' (off_data ar (post m ar q)) lbasize = get_at m (off_data ar (post m ar q)) lbasize"
  shows "block_at m' ar lbasize q = block_at m ar lbasize q"
  using assms not_initial post_lbaof [of m ar q] by (auto simp: block_at_def Let_def)

text \<open>A free block can be overwritten, torn or not, without anybody noticing.\<close>

lemma data_stage:
  assumes g: "geom_ok ar nf lbasize sz" and ok: "media_ok m ar nf" and i: "lane < nf"
    and out: "same_outside m m1 (data_of ar lane) lbasize"
  shows "media_ok m1 ar nf" "q < a_external_nlba ar \<Longrightarrow> block_at m1 ar lbasize q = block_at m ar lbasize q"
    and "q < a_external_nlba ar \<Longrightarrow> entry_at m1 ar q = entry_at m ar q"
proof -
  note fb = media_okD(3) [OF ok i] and be = block_end [OF g media_okD(3) [OF ok i]]
  have maps: "agree m1 m (a_mapoff ar) (a_flogoff ar)" and
    flogs: "agree m1 m (a_flogoff ar) (extent ar nf)"
    using be g by (auto intro!: outside_agree [OF outside_sym [OF out]] simp: data_of_def geom_ok_def)
  show e: "entry_at m1 ar q = entry_at m ar q" if "q < a_external_nlba ar" for q by (rule entry_agree [OF maps g that])
  have "blocks m1 ar = blocks m ar" by (simp add: blocks_def post_def e)
  moreover have "flog_ok m1 ar i \<longleftrightarrow> flog_ok m ar i" if "i < nf" for i
    using that by (intro flog_ok_agree agree_mono [OF flogs]) (auto simp: off_flog_def extent_def)
  ultimately show "media_ok m1 ar nf" using ok by (auto simp: media_ok_def)
  assume q: "q < a_external_nlba ar"
  have "off_data ar (post m ar q) + lbasize \<le> data_of ar lane \<or> data_of ar lane + lbasize \<le> off_data ar (post m ar q)"
    unfolding data_of_def using blocks_distinct(1) [OF ok q i] g by (intro block_disjoint) (auto simp: geom_ok_def)
  then have "get_at m1 (off_data ar (post m ar q)) lbasize = get_at m (off_data ar (post m ar q)) lbasize"
    by (intro agree_get [OF outside_agree [OF outside_sym [OF out]]]) auto
  then show "block_at m1 ar lbasize q = block_at m ar lbasize q" by (intro block_at_cong e [OF q])
qed

section \<open>The flog entries\<close>

lemma next_off_bounds:
  assumes "media_ok m ar nf" "lane < nf"
  shows "off_flog ar lane \<le> next_off ar lane" "next_off ar lane + 16 \<le> off_flog ar lane + 32"
    and "a_flogoff ar \<le> next_off ar lane" "next_off ar lane + 16 \<le> extent ar nf"
proof -
  note F = flog_okD [OF media_okD(1) [OF assms]]
  show "off_flog ar lane \<le> next_off ar lane" "next_off ar lane + 16 \<le> off_flog ar lane + 32"
    "a_flogoff ar \<le> next_off ar lane" "next_off ar lane + 16 \<le> extent ar nf"
    using F(2,3) assms(2) by (auto simp: off_flog_def extent_def)
qed

lemma flog_at_split:
  assumes "length h = 8"
  shows "flog_at (put_at off h m) off = \<lparr> f_lba = of_le (take 4 h), f_old_map = of_le (drop 4 h),
      f_new_map = f_new_map (flog_at m off), f_seq = f_seq (flog_at m off) \<rparr>"
    and "flog_at (put_at (off + 8) h m) off = \<lparr> f_lba = f_lba (flog_at m off), f_old_map = f_old_map (flog_at m off),
      f_new_map = of_le (take 4 h), f_seq = of_le (drop 4 h) \<rparr>"
proof -
  have h: "put_at o' h m = put_at (o' + 4) (drop 4 h) (put_at o' (take 4 h) m)" for o'
    using put_at_append [of o' "take 4 h" "drop 4 h" m] assms by simp
  show "flog_at (put_at off h m) off = \<lparr> f_lba = of_le (take 4 h), f_old_map = of_le (drop 4 h),
      f_new_map = f_new_map (flog_at m off), f_seq = f_seq (flog_at m off) \<rparr>"
    using assms by (simp add: flog_at_def h [of off])
  show "flog_at (put_at (off + 8) h m) off = \<lparr> f_lba = f_lba (flog_at m off), f_old_map = f_old_map (flog_at m off),
      f_new_map = of_le (take 4 h), f_seq = of_le (drop 4 h) \<rparr>"
    using assms by (simp add: flog_at_def h [of "off + 8"] add.assoc)
qed

lemma flog_ok_slots:
  assumes "flog_ok m ar i"
  shows "r_next (a_flogs ar ! i) = 0 \<and> next_off ar i = off_flog ar i
    \<or> r_next (a_flogs ar ! i) = 1 \<and> next_off ar i = off_flog ar i + 16"
  using flog_okD(2,3) [OF assms] by (auto simp: less_2_cases_iff)

text \<open>Writing the first half of an entry that is not current, with a legal block number.\<close>

lemma head_flog_ok:
  assumes ok: "flog_ok m ar lane" and p: "p < a_external_nlba ar" "p < 2 ^ 32"
  shows "flog_ok (md_head ar lane p old m) ar lane"
proof -
  let ?m = "md_head ar lane p old m" and ?o = "off_flog ar lane" and ?r = "a_flogs ar ! lane"
  define f where "f = flog_at ?m (next_off ar lane)"
  have f: "f_seq f = f_seq (flog_at m (next_off ar lane))" "unat (f_lba f) = p"
    using p by (simp_all add: f_def md_head_def flog_at_split(1) head_bytes_def of_le_to_le unat_of_nat)
  note O = ok [unfolded flog_ok_def Let_def]
  from flog_ok_slots [OF ok] show ?thesis
  proof
    assume n: "r_next ?r = 0 \<and> next_off ar lane = ?o"
    then have f1: "flog_at ?m (?o + 16) = flog_at m (?o + 16)" by (simp add: md_head_def flog_at_def)
    have "btt_flog_get_valid f (flog_at m (?o + 16)) = Some (r_flog ?r, 0)"
      using get_valid_other [of "flog_at m ?o" "flog_at m (?o + 16)" "r_flog ?r" 0 f] O n f by simp
    then show ?thesis using O n f p f1 by (simp add: flog_ok_def f_def)
  next
    assume n: "r_next ?r = 1 \<and> next_off ar lane = ?o + 16"
    then have f1: "flog_at ?m ?o = flog_at m ?o" by (simp add: md_head_def flog_at_def)
    have "btt_flog_get_valid (flog_at m ?o) f = Some (r_flog ?r, 1)"
      using get_valid_other [of "flog_at m ?o" "flog_at m (?o + 16)" "r_flog ?r" 1 f] O n f by simp
    then show ?thesis using O n f p f1 by (simp add: flog_ok_def f_def)
  qed
qed

text \<open>Writing both halves makes the entry current.\<close>

lemma tail_flog_ok:
  assumes ok: "flog_ok m ar lane" and lane: "lane < length (a_flogs ar)"
    and p: "p < a_external_nlba ar" "p < 2 ^ 32"
  shows "flog_ok (md_tail ar lane (md_head ar lane p old m)) (flog_upd lane (new_flog_of ar lane p old (free_entry ar lane)) ar) lane"
proof -
  let ?m = "md_tail ar lane (md_head ar lane p old m)" and ?o = "off_flog ar lane" and ?r = "a_flogs ar ! lane"
  define f where "f = new_flog_of ar lane p old (free_entry ar lane)"
  let ?ar = "flog_upd lane f ar"
  have r': "a_flogs ?ar ! lane = ?r \<lparr> r_next := 1 - r_next ?r, r_flog := f \<rparr>" using lane by (simp add: flog_upd_def)
  have off: "off_flog ?ar lane = ?o" by (simp add: off_flog_def)
  have fm: "flog_at ?m (next_off ar lane) = f"
    by (simp add: f_def md_tail_def md_head_def flog_at_split head_bytes_def tail_bytes_def of_le_to_le new_flog_of_def new_seq_def)
  have f: "f_seq f = NSEQ (f_seq (r_flog ?r))" "unat (f_lba f) = p" using p by (simp_all add: f_def new_flog_of_def unat_of_nat)
  note O = ok [unfolded flog_ok_def Let_def]
  from flog_ok_slots [OF ok] have "flog_ok ?m ?ar lane"
  proof
    assume n: "r_next ?r = 0 \<and> next_off ar lane = ?o"
    then have f1: "flog_at ?m (?o + 16) = flog_at m (?o + 16)" by (simp add: md_tail_def md_head_def flog_at_def)
    note V = get_valid_next [of "flog_at m ?o" "flog_at m (?o + 16)" "r_flog ?r" "r_next ?r" f]
    show ?thesis using O n f p f1 V fm by (simp add: flog_ok_def off r')
  next
    assume n: "r_next ?r = 1 \<and> next_off ar lane = ?o + 16"
    then have f1: "flog_at ?m ?o = flog_at m ?o" by (simp add: md_tail_def md_head_def flog_at_def)
    note V = get_valid_next [of "flog_at m ?o" "flog_at m (?o + 16)" "r_flog ?r" "r_next ?r" f]
    show ?thesis using O n f p f1 V fm by (simp add: flog_ok_def off r')
  qed
  then show ?thesis by (simp add: f_def)
qed

section \<open>The stages keep the invariant\<close>

lemma flog_stage:
  assumes g: "geom_ok ar nf lbasize sz" and ok: "media_ok m ar nf" and i: "lane < nf"
    and out: "same_outside m m2 (next_off ar lane) 16" and q: "q < a_external_nlba ar"
  shows "entry_at m2 ar q = entry_at m ar q" "block_at m2 ar lbasize q = block_at m ar lbasize q"
    and "j < nf \<Longrightarrow> j \<noteq> lane \<Longrightarrow> flog_ok m2 ar j \<longleftrightarrow> flog_ok m ar j"
proof -
  note b = next_off_bounds [OF ok i]
  have low: "agree m2 m 0 (a_flogoff ar)" using b(3) by (intro outside_agree [OF outside_sym [OF out]]) simp
  have maps: "agree m2 m (a_mapoff ar) (a_flogoff ar)" by (intro agree_mono [OF low]) auto
  show e: "entry_at m2 ar q = entry_at m ar q" by (rule entry_agree [OF maps g q])
  have "get_at m2 (off_data ar (post m ar q)) lbasize = get_at m (off_data ar (post m ar q)) lbasize"
    using block_end(2) [OF g post_bound [OF ok q]] g by (intro agree_get [OF low]) (auto simp: geom_ok_def)
  then show "block_at m2 ar lbasize q = block_at m ar lbasize q" by (intro block_at_cong e)
  assume j: "j < nf" "j \<noteq> lane"
  have "off_flog ar j + 32 \<le> next_off ar lane \<or> next_off ar lane + 16 \<le> off_flog ar j"
    using b(1,2) j(2) by (auto simp: off_flog_def nat_neq_iff)
  then show "flog_ok m2 ar j \<longleftrightarrow> flog_ok m ar j"
    by (intro flog_ok_agree outside_agree [OF outside_sym [OF out]]) auto
qed

lemma outside_head: "same_outside m (md_head ar lane p old m) (next_off ar lane) 16"
  by (auto simp: md_head_def same_outside_def put_at_def)

lemma outside_tail: "same_outside m (md_tail ar lane (md_head ar lane p old m)) (next_off ar lane) 16"
  by (auto simp: md_head_def md_tail_def same_outside_def put_at_def)

lemma blocks_cong:
  assumes "\<And>q. q < a_external_nlba ar \<Longrightarrow> entry_at m2 ar q = entry_at m ar q"
  shows "blocks m2 ar = blocks m ar"
  using assms by (simp add: blocks_def post_def)

lemma head_stage:
  assumes g: "geom_ok ar nf lbasize sz" and ok: "media_ok m ar nf" and i: "lane < nf" and p: "p < a_external_nlba ar"
  shows "media_ok (md_head ar lane p old m) ar nf"
proof -
  have "p < 2 ^ 32" using p g by (simp add: geom_ok_def MAXB_def)
  then have l: "flog_ok (md_head ar lane p old m) ar lane" using media_okD(1) [OF ok i] p by (intro head_flog_ok)
  note S = flog_stage [OF g ok i outside_head]
  have "flog_ok (md_head ar lane p old m) ar j" if "j < nf" for j
    using l S(3) [OF p, of j] media_okD(1) [OF ok] that by (cases "j = lane") auto
  then show ?thesis using ok blocks_cong [OF S(1)] by (simp add: media_ok_def)
qed

lemma flog_upd_geom:
  "geom_ok (flog_upd i f ar) nf lbasize sz \<longleftrightarrow> geom_ok ar nf lbasize sz"
  "extent (flog_upd i f ar) nf = extent ar nf" "entry_at m (flog_upd i f ar) p = entry_at m ar p"
  "post m (flog_upd i f ar) = post m ar" "off_flog (flog_upd i f ar) j = off_flog ar j"
  "block_at m (flog_upd i f ar) lbasize p = block_at m ar lbasize p"
  "a_flogs (flog_upd i f ar) = (a_flogs ar)[i := (a_flogs ar ! i) \<lparr> r_next := 1 - r_next (a_flogs ar ! i), r_flog := f \<rparr>]"
  by (simp_all add: geom_ok_def extent_def entry_at_def off_map_def post_def [abs_def] off_flog_def block_at_def
      off_data_def Let_def) (simp add: flog_upd_def)

lemma flog_upd_other:
  assumes "j \<noteq> i"
  shows "flog_ok m (flog_upd i f ar) j \<longleftrightarrow> flog_ok m ar j"
  using assms by (simp add: flog_ok_def flog_upd_geom)

lemma tail_stage:
  fixes old
  assumes g: "geom_ok ar nf lbasize sz" and ok: "media_ok m ar nf" and i: "lane < nf" and p: "p < a_external_nlba ar"
  defines "ar' \<equiv> flog_upd lane (new_flog_of ar lane p old (free_entry ar lane)) ar"
    and "m3 \<equiv> md_tail ar lane (md_head ar lane p old m)"
  shows "j < nf \<Longrightarrow> flog_ok m3 ar' j"
    and "q < a_external_nlba ar \<Longrightarrow> entry_at m3 ar q = entry_at m ar q"
    and "q < a_external_nlba ar \<Longrightarrow> block_at m3 ar lbasize q = block_at m ar lbasize q"
proof -
  have "p < 2 ^ 32" using p g by (simp add: geom_ok_def MAXB_def)
  then have l: "flog_ok m3 ar' lane" unfolding ar'_def m3_def
    using media_okD(1,2) [OF ok i] p i by (intro tail_flog_ok) auto
  note S = flog_stage [OF g ok i outside_tail [of m ar lane p old], folded m3_def]
  show "flog_ok m3 ar' j" if "j < nf"
    using l S(3) [OF p, of j] media_okD(1) [OF ok] that flog_upd_other by (cases "j = lane") (auto simp: ar'_def)
  show "entry_at m3 ar q = entry_at m ar q" "block_at m3 ar lbasize q = block_at m ar lbasize q"
    if "q < a_external_nlba ar" using S(1,2) that by auto
qed

text \<open>The whole sequence: the new free block is the one the entry pointed to before.\<close>

lemma new_blocks:
  assumes ok: "media_ok m ar nf" and i: "lane < nf" and p: "p < a_external_nlba ar"
    and old: "lbaof old = post m ar p"
    and e: "\<And>q. q < a_external_nlba ar \<Longrightarrow> entry_at m4 ar q = (if q = p then free_entry ar lane else entry_at m ar q)"
  shows "mset (blocks m4 (flog_upd lane (new_flog_of ar lane p old (free_entry ar lane)) ar)) = mset (blocks m ar)"
proof -
  let ?f = "new_flog_of ar lane p old (free_entry ar lane)" and ?E = "a_external_nlba ar"
  have l: "length (a_flogs ar) = nf" using ok by (simp add: media_ok_def)
  have post4: "post m4 ar q = (if q = p then free_of (a_flogs ar ! lane) else post m ar q)" if "q < ?E" for q
    using e [OF that] normal_entry(3) [OF free_entry_def, of ar lane] media_okD(4) [OF ok i]
    by (simp add: post_def norm_entry_def)
  have "blocks m4 (flog_upd lane ?f ar) = (blocks m ar)[?E + lane := blocks m ar ! p, p := blocks m ar ! (?E + lane)]"
  proof (rule nth_equalityI)
    fix k assume "k < length (blocks m4 (flog_upd lane ?f ar))"
    then have k: "k < ?E + nf" by (simp add: blocks_def l flog_upd_geom)
    show "blocks m4 (flog_upd lane ?f ar) ! k = (blocks m ar)[?E + lane := blocks m ar ! p, p := blocks m ar ! (?E + lane)] ! k"
      using k l i p post4 old
      by (auto simp: blocks_def nth_append nth_list_update flog_upd_geom free_of_def new_flog_of_def)
  qed (simp add: blocks_def l flog_upd_geom)
  also have "mset \<dots> = mset (blocks m ar)" using l i p by (intro mset_swap) (simp_all add: blocks_def)
  finally show ?thesis .
qed

section \<open>The map entry\<close>

lemma map_stage:
  fixes m e
  assumes g: "geom_ok ar nf lbasize sz" and p: "p < a_external_nlba ar"
  defines "m' \<equiv> put_at (off_map ar p) (to_le 4 e) m"
  shows "q < a_external_nlba ar \<Longrightarrow> entry_at m' ar q = (if q = p then e else entry_at m ar q)"
    and "i < nf \<Longrightarrow> flog_ok m' ar i \<longleftrightarrow> flog_ok m ar i"
    and "b < a_internal_nlba ar \<Longrightarrow> get_at m' (off_data ar b) lbasize = get_at m (off_data ar b) lbasize"
proof -
  have off: "off_map ar p + 4 \<le> a_flogoff ar" using code_offsets(2) [OF g p] .
  have "q \<noteq> p \<Longrightarrow> off_map ar p + 4 \<le> off_map ar q \<or> off_map ar q + 4 \<le> off_map ar p"
    by (auto simp: off_map_def)
  then show "entry_at m' ar q = (if q = p then e else entry_at m ar q)"
    by (simp add: entry_at_def m'_def of_le_to_le)
  show "flog_ok m' ar i \<longleftrightarrow> flog_ok m ar i" if "i < nf" unfolding m'_def
    using off by (intro flog_ok_agree outside_agree [OF outside_sym [OF outside_put]]) (auto simp: off_flog_def)
  show "get_at m' (off_data ar b) lbasize = get_at m (off_data ar b) lbasize" if "b < a_internal_nlba ar"
    using block_end(2) [OF g that] by (simp add: m'_def off_map_def)
qed

lemma norm_lbaof: "p < 2 ^ 30 \<Longrightarrow> lbaof (norm_entry p e) = (if map_entry_is_initial e then p else lbaof e)"
  by (simp add: norm_entry_def lbaof_small)

lemma same_set: "mset xs = mset ys \<Longrightarrow> distinct xs = distinct ys \<and> set xs = set ys"
  using mset_eq_setD mset_eq_imp_distinct_iff by metis

section \<open>The effect of a write\<close>

definition md_write :: "arena \<Rightarrow> nat \<Rightarrow> nat \<Rightarrow> 32 word \<Rightarrow> byte list \<Rightarrow> (nat \<Rightarrow> byte) \<Rightarrow> nat \<Rightarrow> byte" where
  "md_write ar lane p old buf m =
     md_map ar lane p (md_tail ar lane (md_head ar lane p old (put_at (data_of ar lane) buf m)))"

definition after_write :: "arena \<Rightarrow> nat \<Rightarrow> nat \<Rightarrow> 32 word \<Rightarrow> arena" where
  "after_write ar lane p old = flog_upd lane (new_flog_of ar lane p old (free_entry ar lane)) ar"

text \<open>From the media with the new flog entry current, however it came about, to the finished operation.\<close>

lemma finish_stage:
  assumes g: "geom_ok ar nf lbasize sz" and ok: "media_ok m ar nf" and i: "lane < nf" and p: "p < a_external_nlba ar"
    and old: "old = norm_entry p (entry_at m ar p)"
    and fl: "\<And>j. j < nf \<Longrightarrow> flog_ok m3 (after_write ar lane p old) j"
    and e3: "\<And>q. q < a_external_nlba ar \<Longrightarrow> entry_at m3 ar q = entry_at m ar q"
    and d3: "\<And>q. q < a_external_nlba ar \<Longrightarrow> block_at m3 ar lbasize q = block_at m ar lbasize q"
    and buf: "get_at m3 (data_of ar lane) lbasize = buf"
  shows "media_ok (md_map ar lane p m3) (after_write ar lane p old) nf"
    and "q < a_external_nlba ar \<Longrightarrow> block_at (md_map ar lane p m3) (after_write ar lane p old) lbasize q
           = (if q = p then Some buf else block_at m ar lbasize q)"
proof -
  let ?m4 = "md_map ar lane p m3" and ?ar = "after_write ar lane p old"
  note S = map_stage [OF g p, of _ "free_entry ar lane" m3, folded md_map_def]
  have e4: "entry_at ?m4 ar q = (if q = p then free_entry ar lane else entry_at m ar q)" if "q < a_external_nlba ar" for q
    using S(1) e3 that by simp
  have fb: "free_of (a_flogs ar ! lane) < a_internal_nlba ar" by (rule media_okD(3) [OF ok i])
  have "p < 2 ^ 30" using p i g by (simp add: geom_ok_def MAXB_def)
  then have "lbaof old = post m ar p" by (simp add: old post_def)
  then have ms: "mset (blocks ?m4 ?ar) = mset (blocks m ar)"
    unfolding after_write_def by (intro new_blocks [OF ok i p] e4)
  moreover have "flog_ok ?m4 ?ar j" if "j < nf" for j
  proof -
    have "geom_ok ?ar nf lbasize sz" "p < a_external_nlba ?ar" using g p by (simp_all add: after_write_def flog_upd_geom)
    from map_stage(2) [OF this that, of "free_entry ar lane" m3] fl [OF that]
    show ?thesis by (simp add: md_map_def after_write_def off_map_def)
  qed
  moreover have "length (a_flogs ?ar) = nf" using ok by (simp add: after_write_def flog_upd_geom media_ok_def)
  ultimately show "media_ok ?m4 ?ar nf" using ok same_set [OF ms]
    by (simp add: media_ok_def) (simp add: after_write_def)
  assume q: "q < a_external_nlba ar"
  have bl: "block_at ?m4 ?ar lbasize q = block_at ?m4 ar lbasize q" by (simp add: after_write_def flog_upd_geom)
  show "block_at ?m4 ?ar lbasize q = (if q = p then Some buf else block_at m ar lbasize q)"
  proof (cases "q = p")
    case True
    have "lbaof (free_entry ar lane) = free_of (a_flogs ar ! lane)" by (rule media_okD(4) [OF ok i])
    then show ?thesis unfolding bl using True e4 [OF q] normal_entry [OF free_entry_def, of ar lane] S(3) [OF fb] buf
      by (simp add: block_at_def data_of_def Let_def)
  next
    case False
    have "post m3 ar q = post m ar q" using e3 [OF q] by (simp add: post_def)
    then have "post m3 ar q < a_internal_nlba ar" using post_bound [OF ok q] by simp
    then have "block_at ?m4 ar lbasize q = block_at m3 ar lbasize q"
      using e4 [OF q] e3 [OF q] False S(3) by (intro block_at_cong) auto
    then show ?thesis unfolding bl using False d3 [OF q] by simp
  qed
qed

lemma outside_trans: "same_outside m m' off n \<Longrightarrow> same_outside m' m'' off n \<Longrightarrow> same_outside m m'' off n"
  by (simp add: same_outside_def)

lemma outside_mono: "same_outside m m' off n \<Longrightarrow> lo \<le> off \<Longrightarrow> off + n \<le> lo + k \<Longrightarrow> same_outside m m' lo k"
  by (simp add: same_outside_def)

lemma write_effect:
  assumes g: "geom_ok ar nf lbasize sz" and ok: "media_ok m ar nf" and i: "lane < nf" and p: "p < a_external_nlba ar"
    and old: "old = norm_entry p (entry_at m ar p)" and buf: "length buf = lbasize"
  shows "media_ok (md_write ar lane p old buf m) (after_write ar lane p old) nf"
    and "q < a_external_nlba ar \<Longrightarrow> block_at (md_write ar lane p old buf m) (after_write ar lane p old) lbasize q
           = (if q = p then Some buf else block_at m ar lbasize q)"
proof -
  let ?m1 = "put_at (data_of ar lane) buf m"
  note D = data_stage [OF g ok i outside_put [OF buf [symmetric]]]
  have old1: "old = norm_entry p (entry_at ?m1 ar p)" using old D(3) [OF p] by simp
  note T = tail_stage [OF g D(1) i p, of _ old, folded after_write_def]
  have "get_at (md_tail ar lane (md_head ar lane p old ?m1)) (data_of ar lane) lbasize = get_at ?m1 (data_of ar lane) lbasize"
    using block_end(2) [OF g media_okD(3) [OF ok i]] next_off_bounds(3) [OF ok i] g
    by (intro agree_get [OF outside_agree [OF outside_sym [OF outside_tail], where lo = 0 and hi = "a_flogoff ar"]])
       (auto simp: data_of_def geom_ok_def)
  then have b: "get_at (md_tail ar lane (md_head ar lane p old ?m1)) (data_of ar lane) lbasize = buf" using buf by simp
  note F = finish_stage [OF g D(1) i p old1 _ _ _ b]
  show "media_ok (md_write ar lane p old buf m) (after_write ar lane p old) nf"
    unfolding md_write_def by (intro F(1) T)
  show "block_at (md_write ar lane p old buf m) (after_write ar lane p old) lbasize q
      = (if q = p then Some buf else block_at m ar lbasize q)" if "q < a_external_nlba ar"
    unfolding md_write_def D(2) [OF that, symmetric] by (intro F(2) T that)
qed

end
