(* ===== verification/BttOk.thy ===== *)
theory BttOk
  imports BttEffect
begin

text \<open>
  The operations of a handle against the abstract content of its blocks: reading returns the content of the
  block, writing replaces it, the two flag operations clear it or put the block into the error state. All of
  them keep the invariant and the content of every other block.
\<close>

section \<open>Changing one arena\<close>

definition same_geom :: "arena \<Rightarrow> arena \<Rightarrow> bool" where
  "same_geom ar br \<longleftrightarrow> a_external_nlba ar = a_external_nlba br \<and> a_internal_lbasize ar = a_internal_lbasize br
     \<and> a_internal_nlba ar = a_internal_nlba br \<and> a_startoff ar = a_startoff br \<and> a_dataoff ar = a_dataoff br
     \<and> a_mapoff ar = a_mapoff br \<and> a_flogoff ar = a_flogoff br"

lemma same_geomD:
  assumes "same_geom ar br"
  shows "geom_ok ar nf lbasize sz = geom_ok br nf lbasize sz" "apart ar cr nf = apart br cr nf"
    "apart cr ar nf = apart cr br nf"
  using assms by (simp_all add: same_geom_def geom_ok_def apart_def extent_def)

lemma same_geom_upd [simp]: "same_geom (flog_upd i f ar) ar" "same_geom ar ar" "same_geom (lock_upd k b ar) ar"
  by (simp_all add: same_geom_def)

lemma btt_ok_upd:
  assumes ok: "btt_ok m sz s" and a: "a < length (b_arenas s)"
    and f: "same_geom (f (b_arenas s ! a)) (b_arenas s ! a)"
    and md: "media_ok m' (f (b_arenas s ! a)) (b_nfree s)" and id: "idle (f (b_arenas s ! a)) (b_nfree s)"
    and out: "same_outside m m' (a_startoff (b_arenas s ! a)) (extent (b_arenas s ! a) (b_nfree s) - a_startoff (b_arenas s ! a))"
  shows "btt_ok m' sz ((upd_arena a f s) \<lparr> b_ns := n \<rparr>)"
    and "find_arena 0 (b_arenas s) x = (c, q) \<Longrightarrow> x < b_nlba s \<Longrightarrow>
      abs_block m' ((upd_arena a f s) \<lparr> b_ns := n \<rparr>) x
        = (if c = a then block_at m' (f (b_arenas s ! a)) (b_lbasize s) q else abs_block m s x)"
proof -
  note D = btt_okD [OF ok]
  let ?s = "(upd_arena a f s) \<lparr> b_ns := n \<rparr>"
  have ext: "a_startoff (b_arenas s ! a) + (extent (b_arenas s ! a) (b_nfree s) - a_startoff (b_arenas s ! a))
      = extent (b_arenas s ! a) (b_nfree s)"
    using D(7) [OF a] by (simp add: geom_ok_def extent_def)
  have ag: "agree m m' (a_startoff (b_arenas s ! b)) (extent (b_arenas s ! b) (b_nfree s))"
    if "b < length (b_arenas s)" "b \<noteq> a" for b
    using D(10) [OF that(1) a that(2)] ext by (intro outside_agree [OF out]) (auto simp: apart_def)
  have other: "b_arenas ?s ! b = b_arenas s ! b" if "b \<noteq> a" for b using that by simp
  have same: "b_arenas ?s ! a = f (b_arenas s ! a)" using a by simp
  have maps: "map a_external_nlba (b_arenas ?s) = map a_external_nlba (b_arenas s)"
    using a f by (intro nth_equalityI) (auto simp: upd_arena_def nth_list_update same_geom_def)
  then have tot: "total_nlba (b_arenas ?s) = total_nlba (b_arenas s)" by (simp add: total_nlba_def)
  have one: "geom_ok (b_arenas ?s ! b) (b_nfree s) (b_lbasize s) sz \<and> idle (b_arenas ?s ! b) (b_nfree s)
      \<and> media_ok m' (b_arenas ?s ! b) (b_nfree s)" if b: "b < length (b_arenas s)" for b
  proof (cases "b = a")
    case True
    then show ?thesis using same md id D(7) [OF a] same_geomD(1) [OF f] by simp
  next
    case False
    then show ?thesis using other [OF False] D(7-9) [OF b] arena_agree(1) [OF ag [OF b False] D(7) [OF b]] by simp
  qed
  have ap: "apart (b_arenas ?s ! b) (b_arenas ?s ! c) (b_nfree s)"
    if "b < length (b_arenas s)" "c < length (b_arenas s)" "b \<noteq> c" for b c
    using D(10) [OF that] same_geomD(2,3) [OF f] same other that by (cases "b = a"; cases "c = a") auto
  show "btt_ok m' sz ?s"
    using ok one ap tot by (simp add: btt_ok_def Let_def)
  assume loc: "find_arena 0 (b_arenas s) x = (c, q)" and x: "x < b_nlba s"
  have c: "c < length (b_arenas s)" "q < a_external_nlba (b_arenas s ! c)"
    using find_arena_spec [of x "b_arenas s" 0 c q] loc x D(3) by auto
  have "find_arena 0 (b_arenas ?s) x = (c, q)" using find_arena_cong [OF maps] loc by metis
  then show "abs_block m' ?s x = (if c = a then block_at m' (f (b_arenas s ! a)) (b_lbasize s) q else abs_block m s x)"
    using loc same other arena_agree(2) [OF ag [OF c(1)] D(7) [OF c(1)] D(9) [OF c(1)] c(2)]
    by (auto simp: abs_block_def)
qed

section \<open>Reading\<close>

lemma rtt_undo:
  assumes "idle ar nf" "lane < nf"
  shows "(ar \<lparr> a_rtt := (a_rtt ar)[lane := e, lane := BTT_MAP_ENTRY_ERROR] \<rparr>) = ar"
proof -
  have "(replicate nf BTT_MAP_ENTRY_ERROR)[lane := BTT_MAP_ENTRY_ERROR] = replicate nf BTT_MAP_ENTRY_ERROR"
    using assms(2) list_update_id [of "replicate nf BTT_MAP_ENTRY_ERROR" lane] by simp
  then show ?thesis using assms(1) by (simp add: idle_def)
qed

context namespace
begin

lemma btt_read_ok:
  assumes cb: "b_ns_cbp s = cb" "ready (b_ns s)" and ok: "btt_ok (content (b_ns s)) (nssize (b_ns s)) s"
    and lane: "lane < b_nlane s" and lba: "lba < b_nlba s"
  shows "btt_read lane lba s = (case abs_block (content (b_ns s)) s lba of
           Some bs \<Rightarrow> (Inr bs, s) | None \<Rightarrow> (Inl (Errno EIO), s))"
proof -
  note D = btt_okD [OF ok]
  let ?m = "content (b_ns s)"
  obtain a p where loc: "find_arena 0 (b_arenas s) lba = (a, p)" and a: "a < length (b_arenas s)"
    and p: "p < a_external_nlba (b_arenas s ! a)" and l: "lba_to_arena_lba lba s = (Inr (a, p), s)"
    using locate_ok [OF ok lba] by metis
  define ar where "ar = b_arenas s ! a"
  have g: "geom_ok ar (b_nfree s) (b_lbasize s) (nssize (b_ns s))" and id: "idle ar (b_nfree s)"
    and md: "media_ok ?m ar (b_nfree s)" using D(7-9) [OF a] by (simp_all add: ar_def)
  have p': "p < a_external_nlba ar" using p by (simp add: ar_def)
  note off = code_offsets [OF g]
  let ?e = "entry_at ?m ar p"
  have rd: "ns_read lane 4 (off_map ar p) t = (Inr (get_at ?m (off_map ar p) 4), t)"
    if "b_ns_cbp t = cb" "b_ns t = b_ns s" for t
    using that cb off(2) [OF p'] off(3) by (subst ns_read_ok) auto
  have e: "of_le (get_at ?m (off_map ar p) 4) = ?e" by (simp add: entry_at_def word_at_def)
  have lf: "lane < b_nfree s" using lane D(5) by simp
  have rl: "lane < length (a_rtt ar)" using id lf by (simp add: idle_def)
  have pre: "btt_read lane lba s = abind (read_retry 2 lane a (off_map ar p) ?e) (\<lambda>r. case r of
         None \<Rightarrow> zero_block
       | Some entry \<Rightarrow>
           abind (acatch (ns_read lane (b_lbasize s) (data_off ar entry))
                    (\<lambda>e. abind (set_rtt a lane BTT_MAP_ENTRY_ERROR) (\<lambda>_. aerr e))) (\<lambda>buf.
           abind (set_rtt a lane BTT_MAP_ENTRY_ERROR) (\<lambda>_. aret buf))) s"
    using lba D(1) l a rd [OF cb(1) refl] off(1) [OF p'] e
    by (simp add: btt_read_def abind_def aget_def invalid_lba_def Let_def flip: ar_def)
  have abs: "abs_block ?m s lba = block_at ?m ar (b_lbasize s) p" using loc by (simp add: abs_block_def ar_def)
  show ?thesis
  proof (cases "map_entry_is_error ?e \<or> map_entry_is_zero_or_initial ?e")
    case True
    then show ?thesis unfolding pre abs
      by (auto simp: numeral_2_eq_2 act_defs block_at_def zero_block_def Let_def)
  next
    case False
    let ?s1 = "upd_arena a (\<lambda>ar. ar \<lparr> a_rtt := (a_rtt ar)[lane := ?e] \<rparr>) s"
    have set1: "set_rtt a lane ?e s = (Inr (), ?s1)" using a rl by (simp add: set_rtt_def act_defs flip: ar_def)
    have "upd_arena a (\<lambda>ar. ar \<lparr> a_rtt := (a_rtt ar)[lane := BTT_MAP_ENTRY_ERROR] \<rparr>) ?s1 = s"
      using a rtt_undo [OF id lf] by (simp add: upd_arena_def ar_def)
    then have set2: "set_rtt a lane BTT_MAP_ENTRY_ERROR ?s1 = (Inr (), s)"
      using a rl by (simp add: set_rtt_def act_defs flip: ar_def)
    have lb: "lbaof ?e < a_internal_nlba ar"
      using post_bound [OF md p'] post_lbaof not_initial False by metis
    have rdd: "ns_read lane (b_lbasize s) (data_off ar ?e) ?s1 = (Inr (get_at ?m (off_data ar (lbaof ?e)) (b_lbasize s)), ?s1)"
      using cb off(6) [OF lb] off(7) [OF lb] by (subst ns_read_ok) auto
    show ?thesis unfolding pre abs using False set1 set2 rdd rd [of ?s1] cb e
      by (simp add: numeral_2_eq_2 act_defs block_at_def Let_def)
  qed
qed

section \<open>Writing\<close>

lemma content_ns_map:
  assumes rd: "ready n" and g: "geom_ok ar nf lbasize (nssize n)" and ok: "media_ok (content n) ar nf" and i: "lane < nf"
    and p: "p < a_external_nlba ar" and buf: "length buf = lbasize"
  shows "content (ns_map cb lane ar p old buf n) = md_write ar lane p old buf (content n)"
    and "ready (ns_map cb lane ar p old buf n)" "nssize (ns_map cb lane ar p old buf n) = nssize n"
proof -
  note M = media_okD [OF ok i] and off = code_offsets [OF g]
  have f1: "off_data ar (lbaof (free_entry ar lane)) + length buf \<le> nssize n" using off(7) M(3,4) buf by simp
  have f2: "next_off ar lane + 16 \<le> nssize n" using next_off_bounds(4) [OF ok i] off(3) by (simp add: extent_def)
  have f3: "off_map ar p + 4 \<le> nssize n" using off(2) [OF p] off(3) by simp
  note W1 = written_laws [OF rd f1, where lane = lane]
  show "content (ns_map cb lane ar p old buf n) = md_write ar lane p old buf (content n)"
    "ready (ns_map cb lane ar p old buf n)" "nssize (ns_map cb lane ar p old buf n) = nssize n"
    using W1 f2 f3 M(4)
    by (simp_all add: ns_writes written_laws md_write_def md_map_def md_tail_def md_head_def data_of_def new_seq_def)
qed

end

lemma md_write_outside:
  assumes g: "geom_ok ar nf lbasize sz" and ok: "media_ok m ar nf" and i: "lane < nf" and p: "p < a_external_nlba ar"
    and buf: "length buf = lbasize"
  shows "same_outside m (md_write ar lane p old buf m) (a_startoff ar) (extent ar nf - a_startoff ar)"
proof -
  note G = g [unfolded geom_ok_def btt_sizes extent_def]
  note B = block_end [OF g media_okD(3) [OF ok i]] and O = next_off_bounds(3,4) [OF ok i]
  let ?m1 = "put_at (data_of ar lane) buf m" and ?n = "extent ar nf - a_startoff ar"
  let ?m3 = "md_tail ar lane (md_head ar lane p old ?m1)"
  have 1: "same_outside m ?m1 (a_startoff ar) ?n"
    using B G buf by (intro outside_mono [OF outside_put]) (auto simp: data_of_def extent_def)
  have 2: "same_outside ?m1 ?m3 (a_startoff ar) ?n"
    using O G by (intro outside_mono [OF outside_tail]) (auto simp: extent_def)
  have 3: "same_outside ?m3 (md_write ar lane p old buf m) (a_startoff ar) ?n"
    unfolding md_write_def md_map_def
    using G p by (intro outside_mono [OF outside_put]) (auto simp: extent_def off_map_def)
  show ?thesis by (rule outside_trans [OF 1 outside_trans [OF 2 3]])
qed

definition writable :: "'n btt \<Rightarrow> nat \<Rightarrow> bool" where
  "writable s lba \<longleftrightarrow>
     (case find_arena 0 (b_arenas s) lba of (a, p) \<Rightarrow> a_flags (b_arenas s ! a) AND BTTINFO_FLAG_ERROR_MASK = 0)"

text \<open>What every operation on a block leaves alone.\<close>

definition same_handle :: "'n btt \<Rightarrow> 'n btt \<Rightarrow> bool" where
  "same_handle s t \<longleftrightarrow> b_ns_cbp t = b_ns_cbp s \<and> b_nlba t = b_nlba s \<and> b_nlane t = b_nlane s
     \<and> b_lbasize t = b_lbasize s \<and> b_nfree t = b_nfree s \<and> (\<forall>x < b_nlba s. writable t x = writable s x)"

lemma same_handle_upd:
  assumes a: "a < length (b_arenas s)" and f: "same_geom (f (b_arenas s ! a)) (b_arenas s ! a)"
    "a_flags (f (b_arenas s ! a)) = a_flags (b_arenas s ! a)" and ok: "b_nlba s = total_nlba (b_arenas s)"
  shows "same_handle s ((upd_arena a f s) \<lparr> b_ns := n \<rparr>)"
proof -
  have maps: "map a_external_nlba (b_arenas (upd_arena a f s)) = map a_external_nlba (b_arenas s)"
    using a f by (intro nth_equalityI) (auto simp: upd_arena_def nth_list_update same_geom_def)
  have "writable ((upd_arena a f s) \<lparr> b_ns := n \<rparr>) x = writable s x" for x
    using find_arena_cong [OF maps, of 0 x] a f by (auto simp: writable_def upd_arena_def nth_list_update split: prod.splits)
  then show ?thesis by (simp add: same_handle_def)
qed

text \<open>The handle after a write, on the media the write leaves.\<close>

lemma written_handle:
  fixes n
  assumes ok: "btt_ok m sz s" and lane: "lane < b_nfree s" and lba: "lba < b_nlba s" and buf: "length buf = b_lbasize s"
    and loc: "find_arena 0 (b_arenas s) lba = (a, p)"
  defines "ar \<equiv> b_arenas s ! a"
  defines "old \<equiv> norm_entry p (entry_at m ar p)"
  defines "m' \<equiv> md_write ar lane p old buf m"
  defines "s' \<equiv> (upd_arena a (\<lambda>ar. after_write ar lane p old) s) \<lparr> b_ns := n \<rparr>"
  shows "btt_ok m' sz s'" "same_handle s s'"
    and "x < b_nlba s \<Longrightarrow> abs_block m' s' x = (if x = lba then Some buf else abs_block m s x)"
proof -
  note D = btt_okD [OF ok]
  have a: "a < length (b_arenas s)" and p: "p < a_external_nlba ar"
    using find_arena_spec [of lba "b_arenas s" 0 a p] loc lba D(3) by (auto simp: ar_def)
  have g: "geom_ok ar (b_nfree s) (b_lbasize s) sz" and id: "idle ar (b_nfree s)"
    and md: "media_ok m ar (b_nfree s)" using D(7-9) [OF a] by (simp_all add: ar_def)
  have old: "old = norm_entry p (entry_at m ar p)" by (simp add: old_def)
  note E = write_effect [OF g md lane p old buf]
  have id': "idle (after_write ar lane p old) (b_nfree s)" using id by (simp add: idle_def after_write_def)
  note U = btt_ok_upd [OF ok a, where f = "\<lambda>ar. after_write ar lane p old" and m' = m' and n = n, folded ar_def s'_def]
  have sg: "same_geom (after_write ar lane p old) ar" by (simp add: after_write_def)
  note U = U [OF sg E(1) [folded m'_def] id' md_write_outside [OF g md lane p buf, of old, folded m'_def]]
  show "btt_ok m' sz s'" by (rule U(1))
  show "same_handle s s'" unfolding s'_def
    using a sg D(3) by (intro same_handle_upd) (simp_all add: after_write_def ar_def)
  assume x: "x < b_nlba s"
  obtain c q where lx: "find_arena 0 (b_arenas s) x = (c, q)" by fastforce
  then have cq: "c < length (b_arenas s)" "q < a_external_nlba (b_arenas s ! c)"
    using find_arena_spec [of x "b_arenas s" 0 c q] x D(3) by auto
  have "x = lba \<longleftrightarrow> c = a \<and> q = p" using find_arena_inj [of "b_arenas s" x lba] loc lx x lba D(3) by auto
  then show "abs_block m' s' x = (if x = lba then Some buf else abs_block m s x)"
    using U(2) [OF lx x] E(2) [of q, folded m'_def] cq lx by (auto simp: abs_block_def ar_def)
qed

context namespace
begin

lemma btt_write_ok:
  assumes cb: "b_ns_cbp s = cb" "ready (b_ns s)" and ok: "btt_ok (content (b_ns s)) (nssize (b_ns s)) s"
    and lane: "lane < b_nlane s" and lba: "lba < b_nlba s" and buf: "length buf = b_lbasize s" and wr: "writable s lba"
  obtains s' where "btt_write lane lba buf s = (Inr (), s')" "same_handle s s'" "ready (b_ns s')"
    and "nssize (b_ns s') = nssize (b_ns s)" "btt_ok (content (b_ns s')) (nssize (b_ns s')) s'"
    and "\<And>x. x < b_nlba s \<Longrightarrow> abs_block (content (b_ns s')) s' x
          = (if x = lba then Some buf else abs_block (content (b_ns s)) s x)"
proof -
  note D = btt_okD [OF ok]
  let ?m = "content (b_ns s)"
  obtain a p where loc: "find_arena 0 (b_arenas s) lba = (a, p)" and a: "a < length (b_arenas s)"
    and p: "p < a_external_nlba (b_arenas s ! a)"
    using locate_ok [OF ok lba] by metis
  define ar where "ar = b_arenas s ! a"
  have g: "geom_ok ar (b_nfree s) (b_lbasize s) (nssize (b_ns s))" and md: "media_ok ?m ar (b_nfree s)"
    and p': "p < a_external_nlba ar" using D(7-9) [OF a] p by (simp_all add: ar_def)
  have lf: "lane < b_nfree s" using lane D(5) by simp
  define old where "old = norm_entry p (entry_at ?m ar p)"
  define n' where "n' = ns_map cb lane ar p old buf (b_ns s)"
  define s' where "s' = (upd_arena a (\<lambda>ar. after_write ar lane p old) s) \<lparr> b_ns := n' \<rparr>"
  have err: "a_flags ar AND BTTINFO_FLAG_ERROR_MASK = 0" using wr loc by (simp add: writable_def ar_def)
  have run: "btt_write lane lba buf s = (Inr (), s')"
    unfolding s'_def n'_def btt_write_trace [OF cb ok lane lba buf loc ar_def err] old_def [symmetric]
    by (simp add: upd_arena_def after_write_def ar_def)
  note C = content_ns_map [OF cb(2) g md lf p' buf, of old, folded n'_def]
  have ns: "b_ns s' = n'" by (simp add: s'_def)
  note H = written_handle [OF ok lf lba buf loc, folded ar_def, folded old_def, where n = n', folded s'_def]
  show thesis
    by (rule that [OF run H(2)]) (use C H(1,3) in \<open>simp_all add: ns\<close>)
qed

end

end
