(* ===== verification/BttFlags.thy ===== *)
theory BttFlags
  imports BttOk
begin

text \<open>
  The flag operations: \<^verbatim>\<open>btt_set_zero\<close> and \<^verbatim>\<open>btt_set_error\<close> rewrite the map entry of one block and leave
  the block it points to, and every other block, alone.
\<close>

section \<open>Entries with a flag\<close>

lemma zero_eq: "BTT_MAP_ENTRY_ZERO = push_bit 31 1"
  by (simp add: btt_flags push_bit_eq_mult)

lemma error_eq: "BTT_MAP_ENTRY_ERROR = push_bit 30 1"
  by (simp add: btt_flags push_bit_eq_mult)

lemma zero_bits: "bit BTT_MAP_ENTRY_ZERO k \<longleftrightarrow> k = 31"
  unfolding zero_eq bit_push_bit_iff bit_1_iff by auto

lemma error_bits: "bit BTT_MAP_ENTRY_ERROR k \<longleftrightarrow> k = 30"
  unfolding error_eq bit_push_bit_iff bit_1_iff by auto

lemma setf_entry:
  assumes "f = BTT_MAP_ENTRY_ZERO \<or> f = BTT_MAP_ENTRY_ERROR"
  shows "((x AND BTT_MAP_ENTRY_LBA_MASK) OR f) AND NOT BTT_MAP_ENTRY_LBA_MASK = f"
    and "lbaof ((x AND BTT_MAP_ENTRY_LBA_MASK) OR f) = lbaof x"
proof -
  show "((x AND BTT_MAP_ENTRY_LBA_MASK) OR f) AND NOT BTT_MAP_ENTRY_LBA_MASK = f"
    using assms by (intro bit_word_eqI) (auto simp: bit_simps mask_bits zero_bits error_bits)
  have "((x AND BTT_MAP_ENTRY_LBA_MASK) OR f) AND BTT_MAP_ENTRY_LBA_MASK = x AND BTT_MAP_ENTRY_LBA_MASK"
    using assms by (intro bit_word_eqI) (auto simp: bit_simps mask_bits zero_bits error_bits)
  then show "lbaof ((x AND BTT_MAP_ENTRY_LBA_MASK) OR f) = lbaof x" by (simp add: lbaof_def)
qed

lemma or_normal:
  "\<not> map_entry_is_initial (x OR BTT_MAP_ENTRY_NORMAL)" "\<not> map_entry_is_zero_or_initial (x OR BTT_MAP_ENTRY_NORMAL)"
proof -
  have "k = 30 \<or> k = 31" if "\<not> k < 30" "k < 32" for k :: nat using that by auto
  then have "(x OR BTT_MAP_ENTRY_NORMAL) AND NOT BTT_MAP_ENTRY_LBA_MASK = BTT_MAP_ENTRY_NORMAL"
    by (intro bit_word_eqI) (auto simp: bit_simps mask_bits normal_bits)
  then show "\<not> map_entry_is_initial (x OR BTT_MAP_ENTRY_NORMAL)" "\<not> map_entry_is_zero_or_initial (x OR BTT_MAP_ENTRY_NORMAL)"
    by (simp_all add: map_entry_is_initial_def map_entry_is_zero_or_initial_def btt_flags Let_def)
qed

lemma norm_not_initial: "\<not> map_entry_is_initial (norm_entry p e)"
  by (simp add: norm_entry_def or_normal)

section \<open>The effect on the media\<close>

lemma setf_effect:
  assumes g: "geom_ok ar nf lbasize sz" and ok: "media_ok m ar nf" and p: "p < a_external_nlba ar"
    and f: "f = BTT_MAP_ENTRY_ZERO \<or> f = BTT_MAP_ENTRY_ERROR"
    and old: "old = norm_entry p (entry_at m ar p)"
  defines "m' \<equiv> put_at (off_map ar p) (to_le 4 ((old AND BTT_MAP_ENTRY_LBA_MASK) OR f)) m"
  shows "media_ok m' ar nf" "same_outside m m' (a_startoff ar) (extent ar nf - a_startoff ar)"
    and "q < a_external_nlba ar \<Longrightarrow> block_at m' ar lbasize q =
      (if q = p then if f = BTT_MAP_ENTRY_ZERO then Some (replicate lbasize 0) else None else block_at m ar lbasize q)"
proof -
  let ?e = "(old AND BTT_MAP_ENTRY_LBA_MASK) OR f"
  note S = map_stage [OF g p, of _ ?e m, folded m'_def]
  have fl: "\<not> map_entry_is_initial ?e" "map_entry_is_error ?e \<longleftrightarrow> f = BTT_MAP_ENTRY_ERROR"
    "map_entry_is_zero_or_initial ?e \<longleftrightarrow> f = BTT_MAP_ENTRY_ZERO"
    using f setf_entry(1) [OF f, of old]
    by (auto simp: map_entry_is_initial_def map_entry_is_error_def map_entry_is_zero_or_initial_def btt_flags Let_def)
  have po: "post m' ar q = post m ar q" if "q < a_external_nlba ar" for q
  proof (cases "q = p")
    case True
    then have "post m' ar q = lbaof ?e" using S(1) [OF that] fl(1) by (simp add: post_def norm_entry_def)
    then show ?thesis using True setf_entry(2) [OF f, of old] by (simp add: post_def old)
  next
    case False
    then show ?thesis using S(1) [OF that] by (simp add: post_def)
  qed
  then have "blocks m' ar = blocks m ar" by (simp add: blocks_def)
  then show "media_ok m' ar nf" using ok S(2) by (simp add: media_ok_def)
  show "same_outside m m' (a_startoff ar) (extent ar nf - a_startoff ar)" unfolding m'_def
    using g p by (intro outside_mono [OF outside_put]) (auto simp: geom_ok_def extent_def off_map_def btt_sizes)
  assume q: "q < a_external_nlba ar"
  show "block_at m' ar lbasize q =
      (if q = p then if f = BTT_MAP_ENTRY_ZERO then Some (replicate lbasize 0) else None else block_at m ar lbasize q)"
  proof (cases "q = p")
    case True
    have ne: "BTT_MAP_ENTRY_ZERO \<noteq> BTT_MAP_ENTRY_ERROR" by (simp add: btt_flags)
    have en: "entry_at m' ar p = ?e" using S(1) [OF p] by simp
    show ?thesis unfolding True block_at_def en Let_def fl by (rule disjE [OF f]) (simp_all add: ne ne [symmetric])
  next
    case False
    then have "block_at m' ar lbasize q = block_at m ar lbasize q"
      using S(1) [OF q] S(3) [OF post_bound [OF ok q]] by (intro block_at_cong) simp_all
    then show ?thesis using False by simp
  qed
qed

section \<open>The operations\<close>

context namespace
begin

lemma map_entry_setf_ok:
  assumes cb: "b_ns_cbp s = cb" "ready (b_ns s)" and ok: "btt_ok (content (b_ns s)) (nssize (b_ns s)) s"
    and lane: "lane < b_nlane s" and lba: "lba < b_nlba s" and wr: "writable s lba"
    and f: "f = BTT_MAP_ENTRY_ZERO \<or> f = BTT_MAP_ENTRY_ERROR"
  obtains s' where "map_entry_setf lane lba f s = (Inr (), s')" "same_handle s s'" "ready (b_ns s')"
    and "nssize (b_ns s') = nssize (b_ns s)" "btt_ok (content (b_ns s')) (nssize (b_ns s')) s'"
    and "\<And>x. x < b_nlba s \<Longrightarrow> abs_block (content (b_ns s')) s' x
          = (if x = lba then if f = BTT_MAP_ENTRY_ZERO then Some (replicate (b_lbasize s) 0) else None
             else abs_block (content (b_ns s)) s x)"
proof -
  note D = btt_okD [OF ok]
  let ?m = "content (b_ns s)"
  obtain a p where loc: "find_arena 0 (b_arenas s) lba = (a, p)" and a: "a < length (b_arenas s)"
    and p: "p < a_external_nlba (b_arenas s ! a)" and l: "lba_to_arena_lba lba s = (Inr (a, p), s)"
    using locate_ok [OF ok lba] by metis
  define ar where "ar = b_arenas s ! a"
  have g: "geom_ok ar (b_nfree s) (b_lbasize s) (nssize (b_ns s))" and id: "idle ar (b_nfree s)"
    and md: "media_ok ?m ar (b_nfree s)" and p': "p < a_external_nlba ar" using D(7-9) [OF a] p by (simp_all add: ar_def)
  define old where "old = norm_entry p (entry_at ?m ar p)"
  have err: "a_flags ar AND BTTINFO_FLAG_ERROR_MASK = 0" using wr loc by (simp add: writable_def ar_def)
  let ?k = "get_map_lock_num p (b_nfree s)"
  have k: "?k < b_nfree s" using g by (intro map_lock_num) (simp add: geom_ok_def)
  let ?s2 = "upd_arena a (lock_upd ?k True) s"
  have lk: "map_lock lane a p s = (Inr old, ?s2)"
    using cb a g id p' by (subst map_lock_ok) (auto simp: idle_def old_def ar_def)
  have undo: "upd_arena a (lock_upd ?k False) (?s2 \<lparr> b_ns := n \<rparr>) = s \<lparr> b_ns := n \<rparr>" for n
    using a id k lock_upd_undo' [of ar ?k] by (simp add: upd_arena_def idle_def ar_def)
  have undo0: "upd_arena a (lock_upd ?k False) ?s2 = s"
    using a id k lock_upd_undo' [of ar ?k] by (simp add: upd_arena_def idle_def ar_def)
  show thesis
  proof (cases "f = BTT_MAP_ENTRY_ZERO \<and> map_entry_is_zero_or_initial old")
    case True
    have "map_abort lane a p ?s2 = (Inr (), s)"
      using undo0 by (simp add: map_abort_def unlock_map_def act_defs lock_upd_def [abs_def])
    then have run: "map_entry_setf lane lba f s = (Inr (), s)"
      using lba D(1) l a err lk True
      by (simp add: map_entry_setf_def ensure_layout_def act_defs invalid_lba_def Let_def flip: ar_def)
    have "entry_at ?m ar p = old"
      using True or_normal(2) [of "of_nat p"] by (auto simp: old_def norm_entry_def)
    then have "abs_block ?m s lba = Some (replicate (b_lbasize s) 0)" using True loc
      by (auto simp: abs_block_def block_at_def ar_def Let_def map_entry_is_error_def map_entry_is_zero_or_initial_def btt_flags)
    then show ?thesis using that [OF run] ok cb True by (auto simp: same_handle_def)
  next
    case False
    let ?e = "(old AND BTT_MAP_ENTRY_LBA_MASK) OR f"
    define s' where "s' = s \<lparr> b_ns := written cb lane (to_le 4 ?e) (off_map ar p) (b_ns s) \<rparr>"
    have "map_unlock lane a ?e p ?s2 = (Inr (), s')"
      using cb a g p' undo by (subst map_unlock_ok) (auto simp: geom_ok_def extent_def off_map_def ar_def s'_def)
    then have run: "map_entry_setf lane lba f s = (Inr (), s')"
      using lba D(1) l a err lk False
      by (auto simp: map_entry_setf_def ensure_layout_def act_defs invalid_lba_def Let_def simp flip: ar_def)
    have fit: "off_map ar p + 4 \<le> nssize (b_ns s)" using code_offsets(2,3) [OF g] p' by fastforce
    note W = written_laws [OF cb(2), of "off_map ar p" "to_le 4 ?e" lane]
    note E = setf_effect [OF g md p' f old_def]
    have s': "s' = upd_arena a id s \<lparr> b_ns := b_ns s' \<rparr>" by (simp add: s'_def upd_arena_def)
    note U = btt_ok_upd [OF ok a, where f = id and n = "b_ns s'", folded s' ar_def, simplified, OF E(1) id E(2), folded s']
    have abs: "abs_block (content (b_ns s')) s' x
          = (if x = lba then if f = BTT_MAP_ENTRY_ZERO then Some (replicate (b_lbasize s) 0) else None
             else abs_block ?m s x)" if x: "x < b_nlba s" for x
    proof -
      obtain c q where lx: "find_arena 0 (b_arenas s) x = (c, q)" by fastforce
      then have cq: "c < length (b_arenas s)" "q < a_external_nlba (b_arenas s ! c)"
        using find_arena_spec [of x "b_arenas s" 0 c q] x D(3) by auto
      have "x = lba \<longleftrightarrow> c = a \<and> q = p" using find_arena_inj [of "b_arenas s" x lba] loc lx x lba D(3) by auto
      then show ?thesis using U(2) [OF lx x] E(3) [of q] cq lx W fit by (auto simp: abs_block_def ar_def s'_def)
    qed
    have sh: "same_handle s s'" by (simp add: same_handle_def s'_def writable_def)
    show ?thesis using that [OF run sh _ _ _ abs] U(1) W fit by (simp add: s'_def)
  qed
qed

end

end
