(* ===== verification/Blk.thy ===== *)
theory Blk
  imports BttFlags
begin

text \<open>
  The block pool of \<^verbatim>\<open>pmdk/src/libpmemblk/blk.c\<close>: the callbacks it gives to the block translation table,
  the lanes, and the operations of the library's interface on an open pool. The pool's data area is a
  function from offsets to bytes with its size; flushing and the page protection of the debug build have no
  effect on the bytes. Creating, opening and closing the pool files is not modelled.
\<close>

section \<open>The namespace callbacks\<close>

record blk_ns =
  n_data :: "nat \<Rightarrow> byte"
  n_datasize :: nat

definition blk_nsread :: "blk_ns \<Rightarrow> nat \<Rightarrow> nat \<Rightarrow> nat \<Rightarrow> failure + byte list" where
  "blk_nsread pbp lane cnt off =
     (if u64 (off + cnt) > n_datasize pbp then fail_with EINVAL else Inr (get_at (n_data pbp) off cnt))"

definition blk_nswrite :: "blk_ns \<Rightarrow> nat \<Rightarrow> byte list \<Rightarrow> nat \<Rightarrow> (failure + unit) \<times> blk_ns" where
  "blk_nswrite pbp lane buf off =
     (if u64 (off + length buf) > n_datasize pbp then (fail_with EINVAL, pbp)
      else (Inr (), pbp \<lparr> n_data := put_at off buf (n_data pbp) \<rparr>))"

definition blk_nsmap :: "blk_ns \<Rightarrow> nat \<Rightarrow> nat \<Rightarrow> nat \<Rightarrow> failure + byte list" where
  "blk_nsmap pbp lane mlen off =
     sbind (massert (mlen < 2 ^ 63)) (\<lambda>_.
     if u64 (off + mlen) \<ge> n_datasize pbp then fail_with EINVAL else Inr (get_at (n_data pbp) off mlen))"

definition blk_nszero :: "blk_ns \<Rightarrow> nat \<Rightarrow> nat \<Rightarrow> nat \<Rightarrow> (failure + unit) \<times> blk_ns" where
  "blk_nszero pbp lane cnt off =
     (if u64 (off + cnt) > n_datasize pbp then (fail_with EINVAL, pbp)
      else (Inr (), pbp \<lparr> n_data := put_at off (replicate cnt 0) (n_data pbp) \<rparr>))"

definition ns_cb :: "bool \<Rightarrow> blk_ns ns_callback" where
  "ns_cb zeroed = \<lparr> nsread = blk_nsread, nswrite = blk_nswrite, nszero = blk_nszero, nsmap = blk_nsmap,
                    ns_is_zeroed = zeroed \<rparr>"

text \<open>The callbacks provide what the table expects of its namespace.\<close>

interpretation blk: namespace "ns_cb zeroed" n_data n_datasize "\<lambda>n. n_datasize n < 2 ^ 63" for zeroed
  by unfold_locales
    (auto simp: ns_cb_def blk_nsread_def blk_nswrite_def blk_nszero_def blk_nsmap_def fail_with_def)

section \<open>The pool\<close>

definition PMEM_PAGESIZE :: nat where "PMEM_PAGESIZE = 4096"
definition BLK_FORMAT_DATA_ALIGN :: nat where "BLK_FORMAT_DATA_ALIGN = PMEM_PAGESIZE"
definition SIZEOF_PMEMBLK :: nat where "SIZEOF_PMEMBLK = 4200"

text \<open>\<open>p_media\<close> is the mapped region from \<^verbatim>\<open>addr\<close> on; the header fields the model needs are fields of their own.\<close>

record pmemblk =
  p_poolset_uuid :: "byte list"
  p_bsize :: nat
  p_is_zeroed :: bool
  p_media :: "nat \<Rightarrow> byte"
  p_size :: nat
  p_rdonly :: bool
  p_datasize :: nat
  p_bttp :: "blk_ns btt"
  p_nlane :: nat
  p_next_lane :: nat
  p_locks :: "bool list"

definition lane_enter :: "(pmemblk, nat) act" where
  "lane_enter = abind (aget (\<lambda>p. p)) (\<lambda>p.
     if p_nlane p = 0 then afail (Fault Undefined)
     else let mylane = p_next_lane p mod p_nlane p in
       abind (amod (\<lambda>p. p \<lparr> p_next_lane := u32 (p_next_lane p + 1) \<rparr>)) (\<lambda>_.
       abind (alift (nrd (p_locks p) mylane)) (\<lambda>taken.
       if taken then afail (Fault Deadlock)
       else abind (amod (\<lambda>p. p \<lparr> p_locks := (p_locks p)[mylane := True] \<rparr>)) (\<lambda>_. aret mylane))))"

definition lane_exit :: "nat \<Rightarrow> (pmemblk, unit) act" where
  "lane_exit mylane = amod (\<lambda>p. p \<lparr> p_locks := (p_locks p)[mylane := False] \<rparr>)"

definition blk_descr_create :: "nat \<Rightarrow> bool \<Rightarrow> (pmemblk, unit) act" where
  "blk_descr_create bsize zeroed =
     abind (amod (\<lambda>p. p \<lparr> p_bsize := le32n bsize \<rparr>)) (\<lambda>_. amod (\<lambda>p. p \<lparr> p_is_zeroed := zeroed \<rparr>))"

definition blk_descr_check :: "nat \<Rightarrow> (pmemblk, nat) act" where
  "blk_descr_check bsize = abind (aget (\<lambda>p. p)) (\<lambda>p.
     let hdr_bsize = le32n (p_bsize p) in
     if bsize \<noteq> 0 \<and> bsize \<noteq> hdr_bsize then aerr EINVAL else aret hdr_bsize)"

text \<open>
  \<^verbatim>\<open>blk_runtime_init\<close>: the number of processors, the allocator's answers and the generated UUID are
  arguments (the answers for \<^verbatim>\<open>btt_init\<close>, then the one for the lane locks).
\<close>

definition blk_runtime_init :: "nat \<Rightarrow> bool \<Rightarrow> int \<Rightarrow> bool list \<Rightarrow> bool \<Rightarrow> failure + byte list \<Rightarrow> (pmemblk, unit) act" where
  "blk_runtime_init bsize rdonly sysconf_ncpus allocs locks_ok uuid_gen =
     abind (amod (\<lambda>p. p \<lparr> p_rdonly := rdonly \<rparr>)) (\<lambda>_. abind (aget (\<lambda>p. p)) (\<lambda>p.
     let data = roundup64 SIZEOF_PMEMBLK BLK_FORMAT_DATA_ALIGN in
     abind (aassert (p_size p \<ge> data)) (\<lambda>_.
     let datasize = p_size p - data;
         ncpus = (if sysconf_ncpus < 1 then 1 else nat sysconf_ncpus);
         ns = \<lparr> n_data = (\<lambda>off. p_media p (data + off)), n_datasize = datasize \<rparr> in
     abind (amod (\<lambda>p. p \<lparr> p_datasize := datasize \<rparr>)) (\<lambda>_.
     case btt_init datasize (u32 bsize) (p_poolset_uuid p) (u32 (u32 ncpus * 2)) ns (ns_cb (p_is_zeroed p)) allocs uuid_gen of
       (Inl e, n) \<Rightarrow> afail e
     | (Inr bttp, n) \<Rightarrow>
         abind (amod (\<lambda>p. p \<lparr> p_bttp := bttp \<rparr>)) (\<lambda>_.
         abind (amod (\<lambda>p. p \<lparr> p_nlane := btt_nlane bttp, p_next_lane := 0 \<rparr>)) (\<lambda>_.
         if \<not> locks_ok then aerr ENOMEM
         else amod (\<lambda>p. p \<lparr> p_locks := replicate (btt_nlane bttp) False \<rparr>)))))))"

section \<open>The interface\<close>

definition pmemblk_bsize :: "pmemblk \<Rightarrow> nat" where "pmemblk_bsize p = le32n (p_bsize p)"

definition pmemblk_nblock :: "pmemblk \<Rightarrow> nat" where "pmemblk_nblock p = btt_nlba (p_bttp p)"

definition on_btt :: "(blk_ns btt, 'a) act \<Rightarrow> (pmemblk, 'a) act" where
  "on_btt f p = (case f (p_bttp p) of (r, s) \<Rightarrow> (r, p \<lparr> p_bttp := s \<rparr>))"

text \<open>One call of the table on a lane of its own; the lane is given back whether it fails or not.\<close>

definition in_lane :: "(nat \<Rightarrow> (blk_ns btt, 'a) act) \<Rightarrow> (pmemblk, 'a) act" where
  "in_lane f = abind lane_enter (\<lambda>lane.
     abind (acatch (on_btt (f lane)) (\<lambda>e. abind (lane_exit lane) (\<lambda>_. aerr e))) (\<lambda>r.
     abind (lane_exit lane) (\<lambda>_. aret r)))"

definition pmemblk_read :: "int \<Rightarrow> (pmemblk, byte list) act" where
  "pmemblk_read blockno =
     (if blockno < 0 then aerr EINVAL else in_lane (\<lambda>lane. btt_read lane (nat blockno)))"

definition pmemblk_write :: "byte list \<Rightarrow> int \<Rightarrow> (pmemblk, unit) act" where
  "pmemblk_write buf blockno = abind (aget p_rdonly) (\<lambda>rdonly.
     if rdonly then aerr EROFS
     else if blockno < 0 then aerr EINVAL
     else in_lane (\<lambda>lane. btt_write lane (nat blockno) buf))"

definition pmemblk_set_zero :: "int \<Rightarrow> (pmemblk, unit) act" where
  "pmemblk_set_zero blockno = abind (aget p_rdonly) (\<lambda>rdonly.
     if rdonly then aerr EROFS
     else if blockno < 0 then aerr EINVAL
     else in_lane (\<lambda>lane. btt_set_zero lane (nat blockno)))"

definition pmemblk_set_error :: "int \<Rightarrow> (pmemblk, unit) act" where
  "pmemblk_set_error blockno = abind (aget p_rdonly) (\<lambda>rdonly.
     if rdonly then aerr EROFS
     else if blockno < 0 then aerr EINVAL
     else in_lane (\<lambda>lane. btt_set_error lane (nat blockno)))"

section \<open>The operations against the content of the blocks\<close>

definition media :: "pmemblk \<Rightarrow> nat \<Rightarrow> byte" where "media p = n_data (b_ns (p_bttp p))"

definition pool_ok :: "pmemblk \<Rightarrow> bool" where
  "pool_ok p \<longleftrightarrow> (\<exists>z. b_ns_cbp (p_bttp p) = ns_cb z) \<and> n_datasize (b_ns (p_bttp p)) < 2 ^ 63
     \<and> btt_ok (media p) (n_datasize (b_ns (p_bttp p))) (p_bttp p)
     \<and> p_nlane p = b_nlane (p_bttp p) \<and> p_locks p = replicate (p_nlane p) False"

text \<open>The content of a block of the pool: \<open>None\<close> for a block in the error state.\<close>

definition pool_block :: "pmemblk \<Rightarrow> nat \<Rightarrow> byte list option" where
  "pool_block p i = abs_block (media p) (p_bttp p) i"

lemma replicate_False: "(replicate n False)[i := False] = replicate n False"
  by (cases "i < n") (use update_False [of "replicate n False" i] in \<open>simp_all add: list_update_beyond\<close>)

lemma in_lane_ok:
  assumes ok: "pool_ok p" and r: "\<And>lane. lane < b_nlane (p_bttp p) \<Longrightarrow> f lane (p_bttp p) = (Inr x, s lane)"
    and s: "\<And>lane. lane < b_nlane (p_bttp p) \<Longrightarrow> b_nlane (s lane) = b_nlane (p_bttp p)"
  obtains lane where "lane < b_nlane (p_bttp p)"
    and "in_lane f p = (Inr x, p \<lparr> p_next_lane := u32 (p_next_lane p + 1), p_bttp := s lane \<rparr>)"
proof -
  let ?l = "p_next_lane p mod p_nlane p"
  have n: "0 < p_nlane p" "p_nlane p = b_nlane (p_bttp p)" and lk: "p_locks p = replicate (p_nlane p) False"
    using ok btt_okD(4) by (auto simp: pool_ok_def)
  have l: "?l < b_nlane (p_bttp p)" using n by simp
  have "in_lane f p = (Inr x, p \<lparr> p_next_lane := u32 (p_next_lane p + 1), p_bttp := s ?l \<rparr>)"
    using n lk l r [OF l] replicate_False by (simp add: in_lane_def lane_enter_def lane_exit_def on_btt_def act_defs Let_def)
  then show thesis using that l by blast
qed

lemma in_lane_fail:
  assumes ok: "pool_ok p" and r: "\<And>lane. lane < b_nlane (p_bttp p) \<Longrightarrow> f lane (p_bttp p) = (Inl (Errno e), p_bttp p)"
  shows "in_lane f p = (Inl (Errno e), p \<lparr> p_next_lane := u32 (p_next_lane p + 1) \<rparr>)"
proof -
  let ?l = "p_next_lane p mod p_nlane p"
  have n: "0 < p_nlane p" "p_nlane p = b_nlane (p_bttp p)" and lk: "p_locks p = replicate (p_nlane p) False"
    using ok btt_okD(4) by (auto simp: pool_ok_def)
  have l: "?l < b_nlane (p_bttp p)" using n by simp
  show ?thesis
    using n lk l r [OF l] replicate_False by (simp add: in_lane_def lane_enter_def lane_exit_def on_btt_def act_defs Let_def)
qed

lemma pool_okD:
  assumes "pool_ok p"
  obtains z where "b_ns_cbp (p_bttp p) = ns_cb z" "n_datasize (b_ns (p_bttp p)) < 2 ^ 63"
    and "btt_ok (n_data (b_ns (p_bttp p))) (n_datasize (b_ns (p_bttp p))) (p_bttp p)"
    and "p_nlane p = b_nlane (p_bttp p)" "p_locks p = replicate (p_nlane p) False"
  using assms by (auto simp: pool_ok_def media_def)

lemma pool_ok_step:
  assumes ok: "pool_ok p" and h: "same_handle (p_bttp p) s'"
    and s': "btt_ok (n_data (b_ns s')) (n_datasize (b_ns s')) s'" "n_datasize (b_ns s') = n_datasize (b_ns (p_bttp p))"
  shows "pool_ok (p \<lparr> p_next_lane := n, p_bttp := s' \<rparr>)"
  using assms by (auto simp: pool_ok_def same_handle_def media_def)

definition usable :: "pmemblk \<Rightarrow> nat \<Rightarrow> bool" where
  "usable p i \<longleftrightarrow> \<not> p_rdonly p \<and> i < pmemblk_nblock p \<and> writable (p_bttp p) i"

lemma pool_read_ok:
  assumes ok: "pool_ok p" and i: "i < pmemblk_nblock p"
  defines "p' \<equiv> p \<lparr> p_next_lane := u32 (p_next_lane p + 1) \<rparr>"
  shows "pmemblk_read (int i) p =
    (case pool_block p i of Some bs \<Rightarrow> (Inr bs, p') | None \<Rightarrow> (Inl (Errno EIO), p'))"
proof -
  obtain z where cb: "b_ns_cbp (p_bttp p) = ns_cb z" and sz: "n_datasize (b_ns (p_bttp p)) < 2 ^ 63"
    and b: "btt_ok (n_data (b_ns (p_bttp p))) (n_datasize (b_ns (p_bttp p))) (p_bttp p)"
    by (rule pool_okD [OF ok])
  have i': "i < b_nlba (p_bttp p)" using i by (simp add: pmemblk_nblock_def btt_nlba_def)
  note R = blk.btt_read_ok [OF cb sz b _ i', folded media_def, folded pool_block_def]
  show ?thesis
  proof (cases "pool_block p i")
    case None
    then show ?thesis using R in_lane_fail [OF ok, of "\<lambda>lane. btt_read lane i" EIO]
      by (simp add: pmemblk_read_def p'_def)
  next
    case (Some bs)
    then have "btt_read lane i (p_bttp p) = (Inr bs, p_bttp p)" if "lane < b_nlane (p_bttp p)" for lane
      using R [OF that] by simp
    then obtain lane where "in_lane (\<lambda>lane. btt_read lane i) p
        = (Inr bs, p \<lparr> p_next_lane := u32 (p_next_lane p + 1), p_bttp := p_bttp p \<rparr>)"
      using in_lane_ok [OF ok, of "\<lambda>lane. btt_read lane i" bs "\<lambda>_. p_bttp p"] by auto
    then show ?thesis using Some by (simp add: pmemblk_read_def p'_def)
  qed
qed

text \<open>An operation of the table that changes one block, run on a lane.\<close>

lemma in_lane_change:
  assumes ok: "pool_ok p"
    and run: "\<And>lane. lane < b_nlane (p_bttp p) \<Longrightarrow> \<exists>s'. f lane (p_bttp p) = (Inr (), s') \<and> same_handle (p_bttp p) s'
      \<and> n_datasize (b_ns s') = n_datasize (b_ns (p_bttp p)) \<and> btt_ok (n_data (b_ns s')) (n_datasize (b_ns s')) s'
      \<and> (\<forall>x < b_nlba (p_bttp p). abs_block (n_data (b_ns s')) s' x = (if x = i then v else pool_block p x))"
  obtains p' where "in_lane f p = (Inr (), p')" "pool_ok p'" "p_rdonly p' = p_rdonly p"
    and "pmemblk_nblock p' = pmemblk_nblock p" "b_lbasize (p_bttp p') = b_lbasize (p_bttp p)"
    and "\<And>x. x < pmemblk_nblock p \<Longrightarrow> pool_block p' x = (if x = i then v else pool_block p x)"
    and "\<And>x. usable p' x = usable p x"
proof -
  define s where "s lane = (SOME s'. f lane (p_bttp p) = (Inr (), s') \<and> same_handle (p_bttp p) s'
      \<and> n_datasize (b_ns s') = n_datasize (b_ns (p_bttp p)) \<and> btt_ok (n_data (b_ns s')) (n_datasize (b_ns s')) s'
      \<and> (\<forall>x < b_nlba (p_bttp p). abs_block (n_data (b_ns s')) s' x = (if x = i then v else pool_block p x)))" for lane
  have S: "f lane (p_bttp p) = (Inr (), s lane) \<and> same_handle (p_bttp p) (s lane)
      \<and> n_datasize (b_ns (s lane)) = n_datasize (b_ns (p_bttp p))
      \<and> btt_ok (n_data (b_ns (s lane))) (n_datasize (b_ns (s lane))) (s lane)
      \<and> (\<forall>x < b_nlba (p_bttp p). abs_block (n_data (b_ns (s lane))) (s lane) x = (if x = i then v else pool_block p x))"
    if "lane < b_nlane (p_bttp p)" for lane
    unfolding s_def by (rule someI_ex) (rule run [OF that])
  obtain lane where l: "lane < b_nlane (p_bttp p)"
    and r: "in_lane f p = (Inr (), p \<lparr> p_next_lane := u32 (p_next_lane p + 1), p_bttp := s lane \<rparr>)"
    by (rule in_lane_ok [OF ok, of f "()" s]) (use S in \<open>auto simp: same_handle_def\<close>)
  define p' where "p' = p \<lparr> p_next_lane := u32 (p_next_lane p + 1), p_bttp := s lane \<rparr>"
  have ok': "pool_ok p'" unfolding p'_def using S [OF l] by (intro pool_ok_step [OF ok]) auto
  have u: "usable p' x = usable p x" for x
    using S [OF l] by (auto simp: usable_def pmemblk_nblock_def btt_nlba_def same_handle_def p'_def)
  show thesis
    using that [OF r [folded p'_def] ok' _ _ _ _ u] S [OF l]
    by (simp add: p'_def pmemblk_nblock_def btt_nlba_def same_handle_def pool_block_def media_def)
qed

lemma pool_write_ok:
  assumes ok: "pool_ok p" and i: "usable p i" and buf: "length buf = b_lbasize (p_bttp p)"
  obtains p' where "pmemblk_write buf (int i) p = (Inr (), p')" "pool_ok p'"
    and "pmemblk_nblock p' = pmemblk_nblock p" "b_lbasize (p_bttp p') = b_lbasize (p_bttp p)"
    and "\<And>x. x < pmemblk_nblock p \<Longrightarrow> pool_block p' x = (if x = i then Some buf else pool_block p x)"
    and "\<And>x. usable p' x = usable p x"
proof -
  obtain z where cb: "b_ns_cbp (p_bttp p) = ns_cb z" and sz: "n_datasize (b_ns (p_bttp p)) < 2 ^ 63"
    and b: "btt_ok (n_data (b_ns (p_bttp p))) (n_datasize (b_ns (p_bttp p))) (p_bttp p)"
    by (rule pool_okD [OF ok])
  have i': "i < b_nlba (p_bttp p)" "writable (p_bttp p) i" "\<not> p_rdonly p"
    using i by (simp_all add: usable_def pmemblk_nblock_def btt_nlba_def)
  show thesis
  proof (rule in_lane_change [OF ok, of "\<lambda>lane. btt_write lane i buf" i "Some buf"])
    fix lane assume "lane < b_nlane (p_bttp p)"
    from blk.btt_write_ok [OF cb sz b this i'(1) buf i'(2)]
    show "\<exists>s'. btt_write lane i buf (p_bttp p) = (Inr (), s') \<and> same_handle (p_bttp p) s'
      \<and> n_datasize (b_ns s') = n_datasize (b_ns (p_bttp p)) \<and> btt_ok (n_data (b_ns s')) (n_datasize (b_ns s')) s'
      \<and> (\<forall>x < b_nlba (p_bttp p). abs_block (n_data (b_ns s')) s' x = (if x = i then Some buf else pool_block p x))"
      unfolding pool_block_def media_def by metis
  qed (use that i'(3) in \<open>auto simp: pmemblk_write_def act_defs\<close>)
qed

lemma pool_setf_ok:
  assumes ok: "pool_ok p" and i: "usable p i" and f: "f = BTT_MAP_ENTRY_ZERO \<or> f = BTT_MAP_ENTRY_ERROR"
  obtains p' where "in_lane (\<lambda>lane. map_entry_setf lane i f) p = (Inr (), p')" "pool_ok p'"
    and "pmemblk_nblock p' = pmemblk_nblock p" "b_lbasize (p_bttp p') = b_lbasize (p_bttp p)"
    and "\<And>x. x < pmemblk_nblock p \<Longrightarrow> pool_block p' x =
      (if x = i then if f = BTT_MAP_ENTRY_ZERO then Some (replicate (b_lbasize (p_bttp p)) 0) else None else pool_block p x)"
    and "\<And>x. usable p' x = usable p x"
proof -
  obtain z where cb: "b_ns_cbp (p_bttp p) = ns_cb z" and sz: "n_datasize (b_ns (p_bttp p)) < 2 ^ 63"
    and b: "btt_ok (n_data (b_ns (p_bttp p))) (n_datasize (b_ns (p_bttp p))) (p_bttp p)"
    by (rule pool_okD [OF ok])
  let ?v = "if f = BTT_MAP_ENTRY_ZERO then Some (replicate (b_lbasize (p_bttp p)) 0) else None"
  have i': "i < b_nlba (p_bttp p)" "writable (p_bttp p) i" "\<not> p_rdonly p"
    using i by (simp_all add: usable_def pmemblk_nblock_def btt_nlba_def)
  show thesis
  proof (rule in_lane_change [OF ok, of "\<lambda>lane. map_entry_setf lane i f" i ?v])
    fix lane assume "lane < b_nlane (p_bttp p)"
    from blk.map_entry_setf_ok [OF cb sz b this i'(1,2) f]
    show "\<exists>s'. map_entry_setf lane i f (p_bttp p) = (Inr (), s') \<and> same_handle (p_bttp p) s'
      \<and> n_datasize (b_ns s') = n_datasize (b_ns (p_bttp p)) \<and> btt_ok (n_data (b_ns s')) (n_datasize (b_ns s')) s'
      \<and> (\<forall>x < b_nlba (p_bttp p). abs_block (n_data (b_ns s')) s' x = (if x = i then ?v else pool_block p x))"
      unfolding pool_block_def media_def by metis
  qed (use that in auto)
qed

text \<open>Block numbers out of range are refused and change nothing but the lane counter.\<close>

lemma pool_out_of_range:
  assumes ok: "pool_ok p" and i: "pmemblk_nblock p \<le> i"
  defines "p' \<equiv> p \<lparr> p_next_lane := u32 (p_next_lane p + 1) \<rparr>"
  shows "pmemblk_read (int i) p = (Inl (Errno EINVAL), p')"
    and "pmemblk_write buf (int i) p = (Inl (Errno (if p_rdonly p then EROFS else EINVAL)), if p_rdonly p then p else p')"
proof -
  have b: "invalid_lba (p_bttp p) i" using i by (simp add: invalid_lba_def pmemblk_nblock_def btt_nlba_def)
  then have "btt_read lane i (p_bttp p) = (Inl (Errno EINVAL), p_bttp p)"
    "btt_write lane i buf (p_bttp p) = (Inl (Errno EINVAL), p_bttp p)" for lane
    by (simp_all add: btt_read_def btt_write_def act_defs)
  then show "pmemblk_read (int i) p = (Inl (Errno EINVAL), p')"
    "pmemblk_write buf (int i) p = (Inl (Errno (if p_rdonly p then EROFS else EINVAL)), if p_rdonly p then p else p')"
    using in_lane_fail [OF ok, of "\<lambda>lane. btt_read lane i"] in_lane_fail [OF ok, of "\<lambda>lane. btt_write lane i buf"]
    by (simp_all add: pmemblk_read_def pmemblk_write_def act_defs p'_def)
qed

end
