(* ===== verification/BlkExample.thy ===== *)
theory BlkExample
  imports Blk
begin

text \<open>
  A pool with one arena of two blocks of four bytes, as small as the invariant allows: it shows that
  the hypotheses of the properties hold of real states, and the witnesses run the operations on it.
\<close>

definition tiny_media :: "nat \<Rightarrow> byte" where
  "tiny_media = put_at 4120 (flog_to_bytes \<lparr> f_lba = 0, f_old_map = 0x80000002, f_new_map = 0x80000002, f_seq = 1 \<rparr>) (\<lambda>_. 0)"

definition tiny_arena :: arena where
  "tiny_arena = \<lparr> a_flags = 0, a_external_nlba = 2, a_internal_lbasize = 4, a_internal_nlba = 3, a_startoff = 0,
     a_dataoff = 4096, a_mapoff = 4108, a_flogoff = 4120, a_nextoff = 0,
     a_flogs = [\<lparr> r_flog = \<lparr> f_lba = 0, f_old_map = 0x80000002, f_new_map = 0x80000002, f_seq = 1 \<rparr>,
                  r_entries = [4120, 4136], r_next = 1 \<rparr>],
     a_rtt = [BTT_MAP_ENTRY_ERROR], a_map_locks = [False], a_info_lock = False \<rparr>"

definition tiny_btt :: "blk_ns btt" where
  "tiny_btt = \<lparr> b_nlane = 1, b_layout_write_mutex = False, b_laidout = True, b_uuid = replicate 16 0,
     b_parent_uuid = replicate 16 0, b_rawsize = 8192, b_lbasize = 4, b_nfree = 1, b_nlba = 2, b_narena = 1,
     b_arenas = [tiny_arena], b_ns = \<lparr> n_data = tiny_media, n_datasize = 8192 \<rparr>, b_ns_cbp = ns_cb True,
     b_allocs = [], b_uuid_gen = Inr (replicate 16 0) \<rparr>"

definition tiny_pool :: pmemblk where
  "tiny_pool = \<lparr> p_poolset_uuid = replicate 16 0, p_bsize = 4, p_is_zeroed = True, p_media = (\<lambda>_. 0), p_size = 16384,
     p_rdonly = False, p_datasize = 8192, p_bttp = tiny_btt, p_nlane = 1, p_next_lane = 0, p_locks = [False] \<rparr>"

lemma tiny_media_ok: "media_ok tiny_media tiny_arena 1"
proof -
  have e: "entry_at tiny_media tiny_arena q = 0" if "q < 2" for q
    using that by (simp add: entry_at_def tiny_media_def off_map_def tiny_arena_def)
  have "flog_at tiny_media 4120 = \<lparr> f_lba = 0, f_old_map = 0x80000002, f_new_map = 0x80000002, f_seq = 1 \<rparr>"
    by (simp add: tiny_media_def)
  moreover have "flog_at tiny_media 4136 = \<lparr> f_lba = 0, f_old_map = 0, f_new_map = 0, f_seq = 0 \<rparr>"
    by (simp add: tiny_media_def flog_at_def)
  ultimately have fl: "flog_ok tiny_media tiny_arena 0"
    by (simp add: flog_ok_def off_flog_def tiny_arena_def btt_flog_get_valid_def Let_def)
  have "post tiny_media tiny_arena q = q" if "q < 2" for q
    using e [OF that] that by (simp add: post_def norm_entry_def map_entry_is_initial_def lbaof_small)
  moreover have "free_of (a_flogs tiny_arena ! 0) = 2" by (simp add: free_of_def tiny_arena_def lbaof_mod)
  ultimately have "blocks tiny_media tiny_arena = [0, 1, 2]"
    by (simp add: blocks_def tiny_arena_def upt_conv_Cons)
  then show ?thesis using fl by (simp add: media_ok_def tiny_arena_def)
qed

lemma tiny_btt_ok: "btt_ok tiny_media 8192 tiny_btt"
  using tiny_media_ok
  by (simp add: btt_ok_def tiny_btt_def total_nlba_def geom_ok_def tiny_arena_def MAXB_def extent_def idle_def btt_sizes)

lemma tiny_pool_ok: "pool_ok tiny_pool"
  using tiny_btt_ok by (auto simp: pool_ok_def tiny_pool_def media_def tiny_btt_def)

lemma tiny_usable: "i < 2 \<Longrightarrow> usable tiny_pool i"
  by (auto simp: usable_def tiny_pool_def pmemblk_nblock_def btt_nlba_def tiny_btt_def writable_def less_2_cases_iff
      tiny_arena_def)

end
