(* ===== verification/BlkClaims.thy ===== *)
theory BlkClaims
  imports BlkExample
begin

text \<open>
  The properties of an open block pool. Its abstract state is the list of the contents of its blocks, \<open>None\<close>
  for a block marked as bad; sequences of updates refine updates of that list.
\<close>

section \<open>The abstract pool\<close>

definition pool_blocks :: "pmemblk \<Rightarrow> byte list option list" where
  "pool_blocks p = map (pool_block p) [0..<pmemblk_nblock p]"

datatype blk_op = Op_write nat "byte list" | Op_zero nat | Op_error nat

primrec op_block :: "blk_op \<Rightarrow> nat" where
  "op_block (Op_write i bs) = i" | "op_block (Op_zero i) = i" | "op_block (Op_error i) = i"

primrec run_op :: "blk_op \<Rightarrow> (pmemblk, unit) act" where
  "run_op (Op_write i bs) = pmemblk_write bs (int i)"
| "run_op (Op_zero i) = pmemblk_set_zero (int i)"
| "run_op (Op_error i) = pmemblk_set_error (int i)"

primrec spec_op :: "nat \<Rightarrow> blk_op \<Rightarrow> byte list option list \<Rightarrow> byte list option list" where
  "spec_op b (Op_write i bs) v = v[i := Some bs]"
| "spec_op b (Op_zero i) v = v[i := Some (replicate b 0)]"
| "spec_op b (Op_error i) v = v[i := None]"

primrec run_ops :: "blk_op list \<Rightarrow> (pmemblk, unit) act" where
  "run_ops [] = aret ()"
| "run_ops (x # xs) = abind (run_op x) (\<lambda>_. run_ops xs)"

definition legal_op :: "pmemblk \<Rightarrow> blk_op \<Rightarrow> bool" where
  "legal_op p x \<longleftrightarrow> usable p (op_block x) \<and> (\<forall>i bs. x = Op_write i bs \<longrightarrow> length bs = b_lbasize (p_bttp p))"

lemma pool_blocks_upd:
  assumes "pmemblk_nblock p' = pmemblk_nblock p"
    and "\<And>x. x < pmemblk_nblock p \<Longrightarrow> pool_block p' x = (if x = i then v else pool_block p x)"
  shows "pool_blocks p' = (pool_blocks p)[i := v]"
  using assms by (intro nth_equalityI) (auto simp: pool_blocks_def nth_list_update)

lemma run_op_ok:
  assumes ok: "pool_ok p" and leg: "legal_op p x"
  obtains p' where "run_op x p = (Inr (), p')" "pool_ok p'" "pool_blocks p' = spec_op (b_lbasize (p_bttp p)) x (pool_blocks p)"
    and "b_lbasize (p_bttp p') = b_lbasize (p_bttp p)" "\<And>y. usable p' y = usable p y"
proof (cases x)
  case (Op_write i bs)
  then have u: "usable p i" "length bs = b_lbasize (p_bttp p)" using leg by (auto simp: legal_op_def)
  obtain p' where "pmemblk_write bs (int i) p = (Inr (), p')" "pool_ok p'" "pmemblk_nblock p' = pmemblk_nblock p"
    "b_lbasize (p_bttp p') = b_lbasize (p_bttp p)"
    "\<And>y. y < pmemblk_nblock p \<Longrightarrow> pool_block p' y = (if y = i then Some bs else pool_block p y)"
    "\<And>y. usable p' y = usable p y"
    using pool_write_ok [OF ok u] by metis
  then show thesis using that [of p'] pool_blocks_upd [of p' p i "Some bs"] Op_write by simp
next
  case (Op_zero i)
  then have u: "usable p i" using leg by (simp add: legal_op_def)
  then have ro: "\<not> p_rdonly p" by (simp add: usable_def)
  obtain p' where "in_lane (\<lambda>lane. map_entry_setf lane i BTT_MAP_ENTRY_ZERO) p = (Inr (), p')" "pool_ok p'"
    "pmemblk_nblock p' = pmemblk_nblock p" "b_lbasize (p_bttp p') = b_lbasize (p_bttp p)"
    "\<And>y. y < pmemblk_nblock p \<Longrightarrow> pool_block p' y = (if y = i then Some (replicate (b_lbasize (p_bttp p)) 0) else pool_block p y)"
    "\<And>y. usable p' y = usable p y"
    by (rule pool_setf_ok [OF ok u, of BTT_MAP_ENTRY_ZERO]) simp_all
  then show thesis using that [of p'] pool_blocks_upd [of p' p i "Some (replicate (b_lbasize (p_bttp p)) 0)"] Op_zero ro
    by (simp add: pmemblk_set_zero_def act_defs btt_set_zero_def)
next
  case (Op_error i)
  then have u: "usable p i" using leg by (simp add: legal_op_def)
  then have ro: "\<not> p_rdonly p" by (simp add: usable_def)
  have ne: "BTT_MAP_ENTRY_ERROR \<noteq> BTT_MAP_ENTRY_ZERO" by (simp add: btt_flags)
  obtain p' where "in_lane (\<lambda>lane. map_entry_setf lane i BTT_MAP_ENTRY_ERROR) p = (Inr (), p')" "pool_ok p'"
    "pmemblk_nblock p' = pmemblk_nblock p" "b_lbasize (p_bttp p') = b_lbasize (p_bttp p)"
    "\<And>y. y < pmemblk_nblock p \<Longrightarrow> pool_block p' y = (if y = i then None else pool_block p y)"
    "\<And>y. usable p' y = usable p y"
    by (rule pool_setf_ok [OF ok u, of BTT_MAP_ENTRY_ERROR]) (simp_all add: ne)
  then show thesis using that [of p'] pool_blocks_upd [of p' p i None] Op_error ro
    by (simp add: pmemblk_set_error_def act_defs btt_set_error_def)
qed

section \<open>Updates and reads\<close>

text \<open>C22: Any sequence of writes, set-zero and set-error calls on blocks of a usable pool succeeds, keeps the
  invariant, and changes the contents of the blocks exactly as the same updates of a list; afterwards every block reads
  as the list says, and as an I/O error when it is marked bad.\<close>

theorem pool_refines_list:
  assumes "pool_ok p" "\<forall>x \<in> set xs. legal_op p x"
  shows "\<exists>p'. run_ops xs p = (Inr (), p') \<and> pool_ok p' \<and> pmemblk_nblock p' = pmemblk_nblock p
    \<and> pool_blocks p' = fold (spec_op (b_lbasize (p_bttp p))) xs (pool_blocks p)
    \<and> (\<forall>i < pmemblk_nblock p. fst (pmemblk_read (int i) p') =
         (case fold (spec_op (b_lbasize (p_bttp p))) xs (pool_blocks p) ! i of Some bs \<Rightarrow> Inr bs | None \<Rightarrow> Inl (Errno EIO)))"
  using assms
proof (induction xs arbitrary: p)
  case Nil
  have "fst (pmemblk_read (int i) p) = (case pool_blocks p ! i of Some bs \<Rightarrow> Inr bs | None \<Rightarrow> Inl (Errno EIO))"
    if "i < pmemblk_nblock p" for i
    using pool_read_ok [OF Nil(1) that] that by (simp add: pool_blocks_def split: option.splits)
  then show ?case using Nil by (simp add: aret_def)
next
  case (Cons x xs)
  obtain q where q: "run_op x p = (Inr (), q)" "pool_ok q" "pool_blocks q = spec_op (b_lbasize (p_bttp p)) x (pool_blocks p)"
    "b_lbasize (p_bttp q) = b_lbasize (p_bttp p)" "\<And>y. usable q y = usable p y"
    using run_op_ok [OF Cons.prems(1), of x] Cons.prems(2) by auto
  have n: "pmemblk_nblock q = pmemblk_nblock p"
    using arg_cong [OF q(3), of length] by (cases x) (simp_all add: pool_blocks_def)
  have "\<forall>y \<in> set xs. legal_op q y" using Cons.prems(2) q(4,5) by (simp add: legal_op_def)
  from Cons.IH [OF q(2) this] show ?case using q n by (simp add: abind_ok)
qed

theorem pool_refines_list_witness:
  "\<exists>p'. run_ops [Op_write 1 [1, 2, 3, 4], Op_error 0, Op_zero 1, Op_write 1 [5, 6, 7, 8]] tiny_pool = (Inr (), p')
    \<and> fst (pmemblk_read (int 1) p') = Inr [5, 6, 7, 8] \<and> fst (pmemblk_read (int 0) p') = Inl (Errno EIO)"
proof -
  let ?xs = "[Op_write 1 [1, 2, 3, 4], Op_error 0, Op_zero 1, Op_write 1 [5, 6, 7, 8]]"
  have T: "pmemblk_nblock tiny_pool = 2" "b_lbasize (p_bttp tiny_pool) = 4"
    by (simp_all add: tiny_pool_def pmemblk_nblock_def btt_nlba_def tiny_btt_def)
  then have "\<forall>x \<in> set ?xs. legal_op tiny_pool x" using tiny_usable by (auto simp: legal_op_def)
  from pool_refines_list [OF tiny_pool_ok this] show ?thesis
    using T by (auto simp: less_2_cases_iff pool_blocks_def upt_conv_Cons)
qed

section \<open>Errors\<close>

lemma lane_counter_only:
  assumes "pool_ok p"
  shows "pool_ok (p \<lparr> p_next_lane := n \<rparr>)" "pool_blocks (p \<lparr> p_next_lane := n \<rparr>) = pool_blocks p"
  using assms by (auto simp: pool_ok_def media_def pool_blocks_def pool_block_def pmemblk_nblock_def)

definition pool_calls :: "byte list \<Rightarrow> int \<Rightarrow> pmemblk \<Rightarrow> ((failure + unit) \<times> pmemblk) list" where
  "pool_calls buf blockno p = [pmemblk_write buf blockno p, pmemblk_set_zero blockno p, pmemblk_set_error blockno p]"

text \<open>A block number below zero or not below the number of blocks is refused with EINVAL by a read and by every
  update, an update of a read-only pool with EROFS whatever the number; the contents of the blocks stay as they were, the
  invariant holds and every lane is free again.\<close>

theorem pool_rejects:
  assumes ok: "pool_ok p" and bad: "blockno < 0 \<or> int (pmemblk_nblock p) \<le> blockno"
  shows "fst (pmemblk_read blockno p) = Inl (Errno EINVAL)
    \<and> pool_ok (snd (pmemblk_read blockno p)) \<and> pool_blocks (snd (pmemblk_read blockno p)) = pool_blocks p
    \<and> list_all (\<lambda>r. fst r = Inl (Errno (if p_rdonly p then EROFS else EINVAL))
        \<and> pool_ok (snd r) \<and> pool_blocks (snd r) = pool_blocks p) (pool_calls buf blockno p)"
proof (cases "blockno < 0")
  case True
  then show ?thesis using ok
    by (simp add: pool_calls_def pmemblk_read_def pmemblk_write_def pmemblk_set_zero_def pmemblk_set_error_def act_defs)
next
  case False
  define i where "i = nat blockno"
  have b: "blockno = int i" using False by (simp add: i_def)
  have inv: "invalid_lba (p_bttp p) i" using bad b by (simp add: invalid_lba_def pmemblk_nblock_def btt_nlba_def)
  let ?q = "p \<lparr> p_next_lane := u32 (p_next_lane p + 1) \<rparr>"
  have "in_lane (\<lambda>lane. btt_read lane i) p = (Inl (Errno EINVAL), ?q)" "in_lane (\<lambda>lane. btt_write lane i buf) p = (Inl (Errno EINVAL), ?q)"
    "in_lane (\<lambda>lane. btt_set_zero lane i) p = (Inl (Errno EINVAL), ?q)" "in_lane (\<lambda>lane. btt_set_error lane i) p = (Inl (Errno EINVAL), ?q)"
    using inv by (intro in_lane_fail [OF ok]; simp add: btt_read_def btt_write_def btt_set_zero_def btt_set_error_def
      map_entry_setf_def act_defs)+
  then show ?thesis using b ok lane_counter_only [OF ok]
    by (simp add: pool_calls_def pmemblk_read_def pmemblk_write_def pmemblk_set_zero_def pmemblk_set_error_def act_defs)
qed

theorem pool_rejects_witness:
  "fst (pmemblk_read 2 tiny_pool) = Inl (Errno EINVAL) \<and> fst (pmemblk_write [] 2 tiny_pool) = Inl (Errno EINVAL)"
  using pool_rejects [OF tiny_pool_ok, of 2 "[]"]
  by (simp add: pool_calls_def tiny_pool_def pmemblk_nblock_def btt_nlba_def tiny_btt_def)

end
