(* ===== verification/BttReopen.thy ===== *)
theory BttReopen
  imports BttFlags
begin

text \<open>
  Opening a namespace that has a layout: reading the flog of an arena finishes the operation that was
  interrupted, if there is one, and leaves the run-time state the invariant asks for.
\<close>

section \<open>Reading one lane of the flog\<close>

definition set_flog :: "nat \<Rightarrow> flog_runtime \<Rightarrow> arena \<Rightarrow> arena" where
  "set_flog i r x = x \<lparr> a_flogs := (a_flogs x)[i := r] \<rparr>"

text \<open>The lane has nothing to recover: the last operation changed nothing or reached the map.\<close>

definition settled_lane :: "(nat \<Rightarrow> byte) \<Rightarrow> arena \<Rightarrow> btt_flog \<Rightarrow> bool" where
  "settled_lane m ar cur \<longleftrightarrow> f_old_map cur = f_new_map cur
     \<or> f_new_map cur = norm_entry (unat (f_lba cur)) (entry_at m ar (unat (f_lba cur)))
     \<or> f_old_map cur \<noteq> norm_entry (unat (f_lba cur)) (entry_at m ar (unat (f_lba cur)))"

lemma flog_of_get_at: "flog_of_bytes (get_at m off 16) = flog_at m off"
  by (simp add: flog_of_bytes_def flog_at_def word_at_def get_bytes_get_at)

lemma flog_pair_bytes:
  "flog_of_bytes (get_bytes 0 16 (get_at m off 32)) = flog_at m off"
  "flog_of_bytes (get_bytes 16 16 (get_at m off 32)) = flog_at m (off + 16)"
  by (simp_all add: get_bytes_get_at flog_of_get_at)

lemma runtime_eq: "r \<lparr> r_entries := e, r_next := n, r_flog := c \<rparr> = \<lparr> r_flog = c, r_entries = e, r_next = n \<rparr>"
  by simp

lemma convert2h_id [simp]: "btt_flog_convert2h f = f" "btt_flog_convert2le f = f"
  by (simp_all add: btt_flog_convert2h_def btt_flog_convert2le_def)

context namespace
begin

lemma recover_map_ok:
  assumes cb: "b_ns_cbp s = cb" "ready (b_ns s)" and a: "a < length (b_arenas s)"
    and g: "geom_ok ar nf lbasize (nssize (b_ns s))" and sg: "same_geom (b_arenas s ! a) ar"
    and l: "unat (f_lba cur) < a_external_nlba ar" and ne: "f_old_map cur \<noteq> f_new_map cur"
  shows "recover_map lane a cur s =
    (Inr (), if settled_lane (content (b_ns s)) ar cur then s
     else s \<lparr> b_ns := written cb lane (to_le 4 (f_new_map cur)) (off_map ar (unat (f_lba cur))) (b_ns s) \<rparr>)"
proof -
  let ?p = "unat (f_lba cur)"
  have off: "map_off (b_arenas s ! a) ?p = off_map ar ?p"
    using code_offsets(1) [OF g l] sg by (simp add: map_off_def same_geom_def)
  have fit: "off_map ar ?p + 4 \<le> nssize (b_ns s)" using code_offsets(2,3) [OF g] l by fastforce
  have rd: "ns_read lane 4 (off_map ar ?p) s = (Inr (get_at (content (b_ns s)) (off_map ar ?p) 4), s)"
    using cb fit by (subst ns_read_ok) simp_all
  have wr: "ns_write lane (to_le 4 e) (off_map ar ?p) s = (Inr (), s \<lparr> b_ns := written cb lane (to_le 4 e) (off_map ar ?p) (b_ns s) \<rparr>)"
    for e :: "32 word" using cb fit by (subst ns_write_ok) simp_all
  have e: "(of_le (get_at (content (b_ns s)) (off_map ar ?p) 4) :: 32 word) = entry_at (content (b_ns s)) ar ?p"
    by (simp add: entry_at_def word_at_def)
  show ?thesis using a rd wr off ne
    by (auto simp: recover_map_def act_defs Let_def e norm_entry_def settled_lane_def)
qed

lemma read_flog_pair_ok:
  assumes cb: "b_ns_cbp s = cb" "ready (b_ns s)" and a: "a < length (b_arenas s)" and lane: "lane < b_nfree s"
    and g: "geom_ok ar nf lbasize (nssize (b_ns s))" and sg: "same_geom (b_arenas s ! a) ar"
    and i: "i < nf" "length (a_flogs (b_arenas s ! a)) = nf" and nlba: "a_external_nlba ar \<le> b_nlba s"
    and fl: "flog_ok (content (b_ns s)) ar i"
  defines "t \<equiv> upd_arena a (set_flog i (a_flogs ar ! i)) s" and "cur \<equiv> r_flog (a_flogs ar ! i)"
  shows "read_flog_pair lane a (off_flog ar i) i s =
    (Inr (), if settled_lane (content (b_ns s)) ar cur then t
     else t \<lparr> b_ns := written cb lane (to_le 4 (f_new_map cur)) (off_map ar (unat (f_lba cur))) (b_ns s) \<rparr>)"
proof -
  let ?m = "content (b_ns s)" and ?o = "off_flog ar i"
  note F = fl [unfolded flog_ok_def Let_def, folded cur_def]
  have o: "?o + 64 \<le> extent ar nf" "extent ar nf \<le> nssize (b_ns s)" "nssize (b_ns s) < 2 ^ 63" "?o \<noteq> 0"
    using code_offsets(3-5) [OF g] i g by (auto simp: extent_def geom_ok_def off_flog_def btt_sizes)
  then have o': "u64 (?o + 16) = ?o + 16" by (intro u64_id) simp
  let ?s1 = "upd_flog a i (\<lambda>r. r \<lparr> r_entries := [?o, ?o + 16] \<rparr>) s"
  have cbs: "b_ns_cbp ?s1 = cb" "b_ns ?s1 = b_ns s" "b_nfree ?s1 = b_nfree s" "b_nlba ?s1 = b_nlba s"
    using cb by (simp_all add: upd_flog_def)
  have rd: "ns_read lane 32 ?o ?s1 = (Inr (get_at ?m ?o 32), ?s1)"
    using cb cbs o by (subst ns_read_ok) simp_all
  have v: "\<not> invalid_lba ?s1 (unat (f_lba (flog_at ?m ?o)))" "\<not> invalid_lba ?s1 (unat (f_lba (flog_at ?m (?o + 16))))"
    using F nlba cbs by (auto simp: invalid_lba_def)
  have cl: "unat (f_lba cur) < a_external_nlba ar"
    using F by (auto simp: btt_flog_get_valid_def split: if_splits)
  have whole: "\<lparr> r_flog = cur, r_entries = [?o, ?o + 16], r_next = r_next (a_flogs ar ! i) \<rparr> = a_flogs ar ! i"
    using F by (simp add: cur_def)
  have st: "upd_flog a i (\<lambda>r. r \<lparr> r_next := r_next (a_flogs ar ! i), r_flog := cur \<rparr>) ?s1 = t"
    using a i by (simp add: upd_flog_def upd_arena_def set_flog_def t_def runtime_eq whole)
  have at: "a < length (b_arenas t)" "same_geom (b_arenas t ! a) ar" "b_ns_cbp t = cb" "b_ns t = b_ns s"
    using a sg cb by (simp_all add: t_def set_flog_def same_geom_def)
  have run: "read_flog_pair lane a ?o i s =
      (if f_old_map cur = f_new_map cur then (Inr (), t) else recover_map lane a cur t)"
    using lane o(4) o' cbs rd v F st
    by (simp add: read_flog_pair_def btt_sizes act_defs Let_def flog_pair_bytes)
  show ?thesis
  proof (cases "f_old_map cur = f_new_map cur")
    case True
    then show ?thesis using run by (simp add: settled_lane_def)
  next
    case False
    then show ?thesis using run recover_map_ok [OF at(3) _ at(1) _ at(2) cl False, of nf lbasize lane] cb g at(4)
      by simp
  qed
qed

end

section \<open>Reading the flog of an arena\<close>

definition recover_lane :: "'n ns_callback \<Rightarrow> ('n \<Rightarrow> nat \<Rightarrow> byte) \<Rightarrow> nat \<Rightarrow> arena \<Rightarrow> nat \<Rightarrow> 'n \<Rightarrow> 'n" where
  "recover_lane cb content lane ar i n =
     (let cur = r_flog (a_flogs ar ! i)
      in if settled_lane (content n) ar cur then n
         else written cb lane (to_le 4 (f_new_map cur)) (off_map ar (unat (f_lba cur))) n)"

definition load_flogs :: "nat \<Rightarrow> arena \<Rightarrow> arena \<Rightarrow> arena" where
  "load_flogs k ar x = x \<lparr> a_flogs := take k (a_flogs x) @ drop k (a_flogs ar) \<rparr>"

lemma load_flogs_step:
  assumes "k < length (a_flogs ar)" "length (a_flogs x) = length (a_flogs ar)"
  shows "load_flogs (Suc k) ar (set_flog k (a_flogs ar ! k) x) = load_flogs k ar x"
proof -
  have "drop k (a_flogs ar) = a_flogs ar ! k # drop (Suc k) (a_flogs ar)" using assms(1) by (simp add: Cons_nth_drop_Suc)
  then show ?thesis using assms by (simp add: load_flogs_def set_flog_def take_Suc_conv_app_nth)
qed

context namespace
begin

lemma recover_lane_ok:
  assumes rd: "ready n" and g: "geom_ok ar nf lbasize (nssize n)" and i: "i < nf" and fl: "\<And>j. j < nf \<Longrightarrow> flog_ok (content n) ar j"
  shows "ready (recover_lane cb content lane ar i n)" "nssize (recover_lane cb content lane ar i n) = nssize n"
    and "j < nf \<Longrightarrow> flog_ok (content (recover_lane cb content lane ar i n)) ar j"
proof -
  let ?cur = "r_flog (a_flogs ar ! i)"
  have l: "unat (f_lba ?cur) < a_external_nlba ar"
    using fl [OF i] by (auto simp: flog_ok_def btt_flog_get_valid_def Let_def split: if_splits)
  have "off_map ar (unat (f_lba ?cur)) + 4 \<le> nssize n" using code_offsets(2,3) [OF g] l by fastforce
  note W = written_laws [OF rd, of "off_map ar (unat (f_lba ?cur))" "to_le 4 (f_new_map ?cur)" lane, simplified, OF this]
  show "ready (recover_lane cb content lane ar i n)" "nssize (recover_lane cb content lane ar i n) = nssize n"
    using W rd by (simp_all add: recover_lane_def Let_def)
  show "flog_ok (content (recover_lane cb content lane ar i n)) ar j" if "j < nf"
    using W map_stage(2) [OF g l that] fl [OF that] by (simp add: recover_lane_def Let_def)
qed

lemma read_flogs_loop_ok:
  assumes "b_ns_cbp s = cb" "ready (b_ns s)" "a < length (b_arenas s)" "lane < b_nfree s"
    and "geom_ok ar nf lbasize (nssize (b_ns s))" "same_geom (b_arenas s ! a) ar"
    and "length (a_flogs ar) = nf" "length (a_flogs (b_arenas s ! a)) = nf" "a_external_nlba ar \<le> b_nlba s"
    and "\<And>j. j < nf \<Longrightarrow> flog_ok (content (b_ns s)) ar j" and "k \<le> nf"
  shows "read_flogs_loop lane a (off_flog ar k) [k..<nf] s =
    (Inr (), (upd_arena a (load_flogs k ar) s) \<lparr> b_ns := fold (recover_lane cb content lane ar) [k..<nf] (b_ns s) \<rparr>)"
  using assms
proof (induction "nf - k" arbitrary: k s)
  case 0
  then show ?case by (simp add: act_defs upd_arena_def load_flogs_def)
next
  case (Suc d)
  have k: "k < nf" using Suc.hyps(2) by simp
  let ?t = "(upd_arena a (set_flog k (a_flogs ar ! k)) s) \<lparr> b_ns := recover_lane cb content lane ar k (b_ns s) \<rparr>"
  note P = Suc.prems
  note R = recover_lane_ok [OF P(2) P(5) k P(10), where lane = lane]
  have pair: "read_flog_pair lane a (off_flog ar k) k s = (Inr (), ?t)"
    using read_flog_pair_ok [OF P(1-6) k P(8,9) P(10) [OF k]] by (simp add: recover_lane_def Let_def upd_arena_def)
  have step: "u64 (off_flog ar k + roundup64 (2 * SIZEOF_BTT_FLOG) BTT_FLOG_PAIR_ALIGN) = off_flog ar (Suc k)"
  proof -
    have "off_flog ar k + 64 \<le> nssize (b_ns s)" "nssize (b_ns s) < 2 ^ 63"
      using code_offsets(3-5) [OF P(5)] k by (auto simp: extent_def off_flog_def)
    then show ?thesis by (simp add: roundup64_def btt_sizes off_flog_def)
  qed
  have rest: "read_flogs_loop lane a (off_flog ar (Suc k)) [Suc k..<nf] ?t =
    (Inr (), (upd_arena a (load_flogs (Suc k) ar) ?t) \<lparr> b_ns := fold (recover_lane cb content lane ar) [Suc k..<nf] (b_ns ?t) \<rparr>)"
    using Suc.hyps(2) P k R by (intro Suc.hyps(1)) (auto simp: set_flog_def same_geom_def)
  have "upd_arena a (load_flogs (Suc k) ar) ?t = (upd_arena a (load_flogs k ar) s) \<lparr> b_ns := b_ns ?t \<rparr>"
    using P(3,7,8) load_flogs_step [of k ar "b_arenas s ! a"] k by (simp add: upd_arena_def)
  then show ?case using pair rest step k
    by (simp add: upt_conv_Cons act_defs)
qed

end

section \<open>Nothing to recover\<close>

lemma settled_all:
  assumes g: "geom_ok ar nf lbasize sz" and ok: "media_ok m ar nf" and i: "i < nf"
  shows "settled_lane m ar (r_flog (a_flogs ar ! i))"
proof -
  let ?cur = "r_flog (a_flogs ar ! i)" and ?p = "unat (f_lba (r_flog (a_flogs ar ! i)))"
  have l: "?p < a_external_nlba ar"
    using media_okD(1) [OF ok i] by (auto simp: flog_ok_def btt_flog_get_valid_def Let_def split: if_splits)
  have "post m ar ?p \<noteq> free_of (a_flogs ar ! i)" by (rule blocks_distinct(1) [OF ok l i])
  then have "f_old_map ?cur \<noteq> norm_entry ?p (entry_at m ar ?p)" by (auto simp: post_def free_of_def)
  then show ?thesis by (simp add: settled_lane_def)
qed

lemma fold_id: "(\<And>x. x \<in> set xs \<Longrightarrow> f x n = n) \<Longrightarrow> fold f xs n = n"
  by (induction xs) auto

lemma recover_none:
  assumes "geom_ok ar nf lbasize sz" "media_ok (content n) ar nf"
  shows "fold (recover_lane cb content lane ar) [k..<nf] n = n"
  using settled_all [OF assms] by (intro fold_id) (simp add: recover_lane_def)

section \<open>An interrupted write\<close>

text \<open>
  The new flog entry is on the media and the map entry is not: reading the flog writes the map entry, which
  is the write the operation itself would have done next.
\<close>

lemma pending_unsettled:
  assumes g: "geom_ok ar nf lbasize sz" and ok: "media_ok m ar nf" and i: "lane < nf" and p: "p < a_external_nlba ar"
    and old: "old = norm_entry p (entry_at m ar p)" and e3: "entry_at m3 ar p = entry_at m ar p"
  shows "\<not> settled_lane m3 (after_write ar lane p old) (new_flog_of ar lane p old (free_entry ar lane))"
proof -
  have "p < 2 ^ 32" using p g by (simp add: geom_ok_def MAXB_def)
  then have up: "unat (of_nat p :: 32 word) = p" by (simp add: unat_of_nat)
  have "post m ar p \<noteq> free_of (a_flogs ar ! lane)" by (rule blocks_distinct(1) [OF ok p i])
  then have "lbaof old \<noteq> lbaof (free_entry ar lane)" by (simp add: post_def old media_okD(4) [OF ok i])
  then have "old \<noteq> free_entry ar lane" by auto
  then show ?thesis using e3 up
    by (simp add: settled_lane_def new_flog_of_def after_write_def flog_upd_geom old)
qed

lemma pending_others:
  assumes g: "geom_ok ar nf lbasize sz" and ok: "media_ok m ar nf" and j: "j < nf" "j \<noteq> lane"
    and e3: "\<And>q. q < a_external_nlba ar \<Longrightarrow> entry_at m3 ar q = entry_at m ar q"
  shows "settled_lane m3 (after_write ar lane p old) (r_flog (a_flogs (after_write ar lane p old) ! j))"
proof -
  have same: "r_flog (a_flogs (after_write ar lane p old) ! j) = r_flog (a_flogs ar ! j)"
    using j(2) by (simp add: after_write_def flog_upd_geom)
  have l: "unat (f_lba (r_flog (a_flogs ar ! j))) < a_external_nlba ar"
    using media_okD(1) [OF ok j(1)] by (auto simp: flog_ok_def btt_flog_get_valid_def Let_def split: if_splits)
  show ?thesis using settled_all [OF g ok j(1)] e3 [OF l]
    unfolding settled_lane_def same by (simp add: after_write_def flog_upd_geom)
qed

lemma fold_upt_split: "i < n \<Longrightarrow> fold f [0..<n] x = fold f [Suc i..<n] (f i (fold f [0..<i] x))"
proof -
  assume "i < n"
  then have "[0..<n] = [0..<i] @ i # [Suc i..<n]" by (metis le_add_diff_inverse less_imp_le upt_add_eq_append upt_conv_Cons zero_le)
  then show ?thesis by simp
qed

context namespace
begin

lemma recover_pending:
  assumes rd: "ready n3" and g: "geom_ok ar nf lbasize (nssize n3)" and ok: "media_ok m ar nf" and i: "lane < nf"
    and p: "p < a_external_nlba ar" and old: "old = norm_entry p (entry_at m ar p)"
    and fl: "\<And>j. j < nf \<Longrightarrow> flog_ok (content n3) (after_write ar lane p old) j"
    and e3: "\<And>q. q < a_external_nlba ar \<Longrightarrow> entry_at (content n3) ar q = entry_at m ar q"
    and d3: "\<And>q. q < a_external_nlba ar \<Longrightarrow> block_at (content n3) ar lbasize q = block_at m ar lbasize q"
    and buf: "get_at (content n3) (data_of ar lane) lbasize = buf"
  shows "fold (recover_lane cb content l (after_write ar lane p old)) [0..<nf] n3
    = written cb l (to_le 4 (free_entry ar lane)) (off_map ar p) n3"
proof -
  let ?ar = "after_write ar lane p old" and ?R = "recover_lane cb content l (after_write ar lane p old)"
  have before: "fold ?R [0..<lane] n3 = n3"
    using i pending_others [OF g ok _ _ e3] by (intro fold_id) (simp add: recover_lane_def)
  have "p < 2 ^ 32" using p g by (simp add: geom_ok_def MAXB_def)
  then have up: "unat (of_nat p :: 32 word) = p" by (simp add: unat_of_nat)
  have cur: "r_flog (a_flogs ?ar ! lane) = new_flog_of ar lane p old (free_entry ar lane)"
    using i media_okD(2) [OF ok i] by (simp add: after_write_def flog_upd_geom)
  have at: "?R lane n3 = written cb l (to_le 4 (free_entry ar lane)) (off_map ar p) n3"
    using pending_unsettled [OF g ok i p old e3 [OF p]] up
    by (simp add: recover_lane_def cur Let_def) (simp add: new_flog_of_def after_write_def off_map_def)
  have fit: "off_map ar p + 4 \<le> nssize n3" using code_offsets(2,3) [OF g] p by fastforce
  have c4: "content (?R lane n3) = md_map ar lane p (content n3)"
    using written_laws(2) [OF rd, of "off_map ar p" "to_le 4 (free_entry ar lane)" l] fit by (simp add: at md_map_def)
  have "media_ok (content (?R lane n3)) ?ar nf"
    unfolding c4 by (rule finish_stage(1) [OF g ok i p old fl e3 d3 buf])
  then have "fold ?R [Suc lane..<nf] (?R lane n3) = ?R lane n3"
    using g by (intro recover_none [where lbasize = lbasize and sz = "nssize n3"]) (simp_all add: after_write_def flog_upd_geom)
  then show ?thesis using fold_upt_split [OF i, of ?R n3] before at by simp
qed

end

section \<open>Reading an arena\<close>

lemma dec_bounds [simp]: "le16n (dec16 b) = dec16 b" "le32n (dec32 b) = dec32 b" "le64n (dec64 b) = dec64 b"
proof -
  have "dec16 b < 2 ^ 16" "dec32 b < 2 ^ 32" "dec64 b < 2 ^ 64"
    unfolding dec16_def dec32_def dec64_def
    using unsigned_less [of "of_le b :: 16 word", where 'a = nat] unsigned_less [of "of_le b :: 32 word", where 'a = nat]
      unsigned_less [of "of_le b :: 64 word", where 'a = nat] by simp_all
  then show "le16n (dec16 b) = dec16 b" "le32n (dec32 b) = dec32 b" "le64n (dec64 b) = dec64 b" by (simp_all add: le_n)
qed

text \<open>The info block at \<open>off\<close> describes the arena.\<close>

definition info_matches :: "(nat \<Rightarrow> byte) \<Rightarrow> nat \<Rightarrow> arena \<Rightarrow> bool" where
  "info_matches m off ar \<longleftrightarrow> (let i = info_of_bytes (get_at m off SIZEOF_BTT_INFO) in
     a_flags ar = i_flags i \<and> a_external_nlba ar = i_external_nlba i \<and> a_internal_lbasize ar = i_internal_lbasize i
     \<and> a_internal_nlba ar = i_internal_nlba i \<and> a_startoff ar = off \<and> a_dataoff ar = u64 (off + i_dataoff i)
     \<and> a_mapoff ar = u64 (off + i_mapoff i) \<and> a_flogoff ar = u64 (off + i_flogoff i)
     \<and> a_nextoff ar = u64 (off + i_nextoff i))"

lemma info_of_bytes_le [simp]:
  "le32n (i_external_nlba (info_of_bytes b)) = i_external_nlba (info_of_bytes b)"
  "le32n (i_internal_lbasize (info_of_bytes b)) = i_internal_lbasize (info_of_bytes b)"
  "le32n (i_internal_nlba (info_of_bytes b)) = i_internal_nlba (info_of_bytes b)"
  "le32n (i_external_lbasize (info_of_bytes b)) = i_external_lbasize (info_of_bytes b)"
  "le32n (i_nfree (info_of_bytes b)) = i_nfree (info_of_bytes b)"
  "le32n (i_infosize (info_of_bytes b)) = i_infosize (info_of_bytes b)"
  "le16n (i_major (info_of_bytes b)) = i_major (info_of_bytes b)"
  "le16n (i_minor (info_of_bytes b)) = i_minor (info_of_bytes b)"
  "le64n (i_dataoff (info_of_bytes b)) = i_dataoff (info_of_bytes b)"
  "le64n (i_mapoff (info_of_bytes b)) = i_mapoff (info_of_bytes b)"
  "le64n (i_flogoff (info_of_bytes b)) = i_flogoff (info_of_bytes b)"
  "le64n (i_nextoff (info_of_bytes b)) = i_nextoff (info_of_bytes b)"
  "le64n (i_infooff (info_of_bytes b)) = i_infooff (info_of_bytes b)"
  by (simp_all add: info_of_bytes_def)

lemma arena_whole:
  assumes "idle ar nf"
  shows "\<lparr> a_flags = a_flags ar, a_external_nlba = a_external_nlba ar, a_internal_lbasize = a_internal_lbasize ar,
     a_internal_nlba = a_internal_nlba ar, a_startoff = a_startoff ar, a_dataoff = a_dataoff ar, a_mapoff = a_mapoff ar,
     a_flogoff = a_flogoff ar, a_nextoff = a_nextoff ar, a_flogs = a_flogs ar,
     a_rtt = replicate nf BTT_MAP_ENTRY_ERROR, a_map_locks = replicate nf False, a_info_lock = False \<rparr> = ar"
  using assms by (simp add: idle_def)

lemma arena_fields:
  "x \<lparr> a_flags := f1, a_external_nlba := f2, a_internal_lbasize := f3, a_internal_nlba := f4, a_startoff := f5,
     a_dataoff := f6, a_mapoff := f7, a_flogoff := f8, a_nextoff := f9, a_flogs := g1, a_rtt := g2, a_map_locks := g3,
     a_info_lock := g4 \<rparr> = \<lparr> a_flags = f1, a_external_nlba = f2, a_internal_lbasize = f3, a_internal_nlba = f4, a_startoff = f5,
     a_dataoff = f6, a_mapoff = f7, a_flogoff = f8, a_nextoff = f9, a_flogs = g1, a_rtt = g2, a_map_locks = g3,
     a_info_lock = g4 \<rparr>"
  by simp

context namespace
begin

lemma read_arena_ok:
  assumes cb: "b_ns_cbp s = cb" "ready (b_ns s)" and a: "a < length (b_arenas s)" and lane: "lane < b_nfree s"
    and g: "geom_ok ar (b_nfree s) lbasize (nssize (b_ns s))" and off: "off + 4096 \<le> nssize (b_ns s)"
    and im: "info_matches (content (b_ns s)) off ar" and id: "idle ar (b_nfree s)"
    and fl: "length (a_flogs ar) = b_nfree s" "\<And>j. j < b_nfree s \<Longrightarrow> flog_ok (content (b_ns s)) ar j"
    and nlba: "a_external_nlba ar \<le> b_nlba s" and mem: "b_allocs s = []"
  shows "read_arena lane off a s = (Inr (), s \<lparr> b_arenas := (b_arenas s)[a := ar],
    b_ns := fold (recover_lane cb content lane ar) [0..<b_nfree s] (b_ns s) \<rparr>)"
proof -
  let ?nf = "b_nfree s"
  define bytes where "bytes = get_at (content (b_ns s)) off SIZEOF_BTT_INFO"
  define I where "I = info_of_bytes bytes"
  have rd: "ns_read lane SIZEOF_BTT_INFO off s = (Inr bytes, s)"
    using cb off unfolding bytes_def by (subst ns_read_ok) (simp_all add: btt_sizes)
  have im': "i_flags I = a_flags ar" "i_external_nlba I = a_external_nlba ar" "i_internal_lbasize I = a_internal_lbasize ar"
    "i_internal_nlba I = a_internal_nlba ar" "u64 (off + i_dataoff I) = a_dataoff ar" "u64 (off + i_mapoff I) = a_mapoff ar"
    "u64 (off + i_flogoff I) = a_flogoff ar" "u64 (off + i_nextoff I) = a_nextoff ar" and so: "a_startoff ar = off"
    using im by (simp_all add: info_matches_def I_def bytes_def Let_def)
  have le: "le32n (i_external_nlba I) = i_external_nlba I" "le32n (i_internal_lbasize I) = i_internal_lbasize I"
    "le32n (i_internal_nlba I) = i_internal_nlba I" "le64n (i_dataoff I) = i_dataoff I" "le64n (i_mapoff I) = i_mapoff I"
    "le64n (i_flogoff I) = i_flogoff I" "le64n (i_nextoff I) = i_nextoff I"
    by (simp_all add: I_def)
  note whole = arena_whole [OF id, unfolded so]
  define x where "x = (b_arenas s ! a) \<lparr> a_flags := a_flags ar, a_external_nlba := a_external_nlba ar,
     a_internal_lbasize := a_internal_lbasize ar, a_internal_nlba := a_internal_nlba ar, a_startoff := a_startoff ar,
     a_dataoff := a_dataoff ar, a_mapoff := a_mapoff ar, a_flogoff := a_flogoff ar, a_nextoff := a_nextoff ar \<rparr>"
  have al: "alloc t = (Inr (), t)" if "b_allocs t = []" for t :: "'n btt"
    using that by (simp add: alloc_def)
  let ?s2 = "s \<lparr> b_arenas := (b_arenas s)[a := x \<lparr> a_flogs := replicate ?nf zero_flog_runtime \<rparr>] \<rparr>"
  have loop: "read_flogs_loop lane a (off_flog ar 0) [0..<?nf] ?s2 =
    (Inr (), (upd_arena a (load_flogs 0 ar) ?s2) \<lparr> b_ns := fold (recover_lane cb content lane ar) [0..<?nf] (b_ns ?s2) \<rparr>)"
    using cb a lane g fl nlba by (intro read_flogs_loop_ok) (auto simp: same_geom_def x_def)
  have o0: "off_flog ar 0 = a_flogoff ar" by (simp add: off_flog_def)
  show ?thesis
    using a rd loop mem al unfolding o0
    by (simp add: read_arena_def read_flogs_def build_rtt_def build_map_locks_def act_defs Let_def upd_arena_def
        load_flogs_def x_def arena_fields so whole le im' flip: I_def)
qed

end

end
