(* ===== verification/BttOpen.thy ===== *)
theory BttOpen
  imports BttReopen
begin

text \<open>
  Opening a namespace that has a layout (\<^verbatim>\<open>read_layout\<close>, \<^verbatim>\<open>btt_init\<close>): the info blocks are found valid, the
  arenas are loaded, interrupted operations are finished, and the handle satisfies the invariant.
\<close>

section \<open>The arenas\<close>

lemma info_matches_startoff: "info_matches m off ar \<Longrightarrow> a_startoff ar = off"
  by (simp add: info_matches_def Let_def)

context namespace
begin

text \<open>\<open>N k\<close> is the namespace before arena \<open>k\<close> is loaded.\<close>

lemma read_arenas_loop_ok:
  assumes "b_ns_cbp s = cb" "b_allocs s = []" "lane < b_nfree s" "nf = b_nfree s" "b_ns s = N k" "length (b_arenas s) = length ars"
    and N: "\<And>j. j < length ars \<Longrightarrow> ready (N j) \<and> nssize (N j) = sz
        \<and> fold (recover_lane cb content lane (ars ! j)) [0..<nf] (N j) = N (Suc j)
        \<and> info_matches (content (N j)) (a_startoff (ars ! j)) (ars ! j) \<and> (\<forall>i < nf. flog_ok (content (N j)) (ars ! j) i)"
    and ars: "\<And>j. j < length ars \<Longrightarrow> geom_ok (ars ! j) nf lbasize sz \<and> idle (ars ! j) nf \<and> length (a_flogs (ars ! j)) = nf
        \<and> a_external_nlba (ars ! j) \<le> b_nlba s \<and> (Suc j < length ars \<longrightarrow> a_nextoff (ars ! j) = a_startoff (ars ! Suc j))"
    and "k \<le> length ars" "k < length ars \<Longrightarrow> off = a_startoff (ars ! k)"
  shows "read_arenas_loop lane off [k..<length ars] s =
    (Inr (), s \<lparr> b_arenas := take k (b_arenas s) @ drop k ars, b_ns := N (length ars) \<rparr>)"
  using assms
proof (induction "length ars - k" arbitrary: k s off)
  case 0
  then show ?case by (simp add: act_defs)
next
  case (Suc d)
  have k: "k < length ars" using Suc.hyps(2) by simp
  note P = Suc.prems
  let ?ar = "ars ! k"
  note Nk = P(7) [OF k] and Ak = P(8) [OF k]
  have off: "a_startoff ?ar + 4096 \<le> sz"
    using Ak by (auto simp: geom_ok_def btt_sizes extent_def)
  let ?s1 = "s \<lparr> b_arenas := (b_arenas s)[k := ?ar], b_ns := N (Suc k) \<rparr>"
  have one: "read_arena lane off k s = (Inr (), ?s1)"
    using read_arena_ok [of s k lane ?ar lbasize off] P(1-6) P(10) k Nk Ak off by simp
  have len: "k < length (b_arenas s)" using P(6) k by simp
  have rest: "read_arenas_loop lane (a_nextoff ?ar) [Suc k..<length ars] ?s1 =
    (Inr (), ?s1 \<lparr> b_arenas := take (Suc k) (b_arenas ?s1) @ drop (Suc k) ars, b_ns := N (length ars) \<rparr>)"
    using Suc.hyps(2) P k Ak by (intro Suc.hyps(1)) auto
  have d: "drop k ars = ?ar # drop (Suc k) ars" using k by (simp add: Cons_nth_drop_Suc)
  show ?case using one rest k len d
    by (simp add: upt_conv_Cons act_defs take_Suc_conv_app_nth)
qed

lemma read_arenas_ok:
  assumes "b_ns_cbp s = cb" "b_allocs s = []" "lane < b_nfree s" "nf = b_nfree s" "b_ns s = N 0" "ars \<noteq> []"
    and N: "\<And>j. j < length ars \<Longrightarrow> ready (N j) \<and> nssize (N j) = sz
        \<and> fold (recover_lane cb content lane (ars ! j)) [0..<nf] (N j) = N (Suc j)
        \<and> info_matches (content (N j)) (a_startoff (ars ! j)) (ars ! j) \<and> (\<forall>i < nf. flog_ok (content (N j)) (ars ! j) i)"
    and ars: "\<And>j. j < length ars \<Longrightarrow> geom_ok (ars ! j) nf lbasize sz \<and> idle (ars ! j) nf \<and> length (a_flogs (ars ! j)) = nf
        \<and> a_external_nlba (ars ! j) \<le> b_nlba s \<and> (Suc j < length ars \<longrightarrow> a_nextoff (ars ! j) = a_startoff (ars ! Suc j))"
    and "a_startoff (ars ! 0) = 0"
  shows "read_arenas lane (length ars) s =
    (Inr (), s \<lparr> b_arenas := ars, b_laidout := True, b_ns := N (length ars) \<rparr>)"
proof -
  let ?s0 = "s \<lparr> b_arenas := replicate (length ars) zero_arena \<rparr>"
  have "read_arenas_loop lane 0 [0..<length ars] ?s0 =
    (Inr (), ?s0 \<lparr> b_arenas := take 0 (b_arenas ?s0) @ drop 0 ars, b_ns := N (length ars) \<rparr>)"
    using assms by (intro read_arenas_loop_ok [where nf = nf and sz = sz and lbasize = lbasize]) auto
  moreover have "alloc s = (Inr (), s)" using assms(2) by (simp add: alloc_def)
  ultimately show ?thesis by (simp add: read_arenas_def act_defs)
qed

end

section \<open>The info blocks\<close>

definition info_at :: "(nat \<Rightarrow> byte) \<Rightarrow> nat \<Rightarrow> btt_info" where
  "info_at m off = info_of_bytes (get_at m off SIZEOF_BTT_INFO)"

definition info_valid :: "(nat \<Rightarrow> byte) \<Rightarrow> byte list \<Rightarrow> nat \<Rightarrow> nat \<Rightarrow> bool" where
  "info_valid m parent lbasize off \<longleftrightarrow> (let b = get_at m off SIZEOF_BTT_INFO; i = info_of_bytes b in
     i_sig i = BTTINFO_SIG \<and> i_parent_uuid i = parent \<and> util_checksum_check b INFO_CHECKSUM_OFF 0 = Inr True
     \<and> i_major i \<noteq> 0 \<and> i_external_lbasize i = lbasize \<and> i_nfree i \<noteq> 0 \<and> i_external_nlba i \<noteq> 0)"

lemma read_info_valid:
  "info_valid m (b_parent_uuid s) lbasize off \<Longrightarrow>
   read_info s (get_at m off SIZEOF_BTT_INFO) = Inr (Some (info_at m off))"
  by (simp add: info_valid_def read_info_def Let_def info_at_def) (auto simp: info_of_bytes_def)

text \<open>A chain of valid info blocks from \<open>off\<close> on, one for each arena, in the \<open>raw\<close> bytes that are left.\<close>

fun infos_from :: "(nat \<Rightarrow> byte) \<Rightarrow> byte list \<Rightarrow> nat \<Rightarrow> nat \<Rightarrow> nat \<Rightarrow> arena list \<Rightarrow> bool" where
  "infos_from m parent lbasize off raw [] \<longleftrightarrow> False"
| "infos_from m parent lbasize off raw (ar # ars) \<longleftrightarrow>
     BTT_MIN_SIZE \<le> raw \<and> info_valid m parent lbasize off \<and> info_matches m off ar
     \<and> (if ars = [] then i_nextoff (info_at m off) = 0
        else i_nextoff (info_at m off) = BTT_MAX_ARENA \<and> BTT_MAX_ARENA \<le> raw \<and> off + BTT_MAX_ARENA < 2 ^ 64
          \<and> infos_from m parent lbasize (off + BTT_MAX_ARENA) (raw - BTT_MAX_ARENA) ars)"

definition nfree_min :: "(nat \<Rightarrow> byte) \<Rightarrow> arena list \<Rightarrow> nat \<Rightarrow> nat" where
  "nfree_min m ars n = fold (\<lambda>ar n. min (i_nfree (info_at m (a_startoff ar))) n) ars n"

lemma infos_from_nth:
  assumes "infos_from m parent lbasize off raw ars" "j < length ars"
  shows "info_matches m (a_startoff (ars ! j)) (ars ! j) \<and> info_valid m parent lbasize (a_startoff (ars ! j))
    \<and> (Suc j < length ars \<longrightarrow> a_nextoff (ars ! j) = a_startoff (ars ! Suc j)) \<and> a_startoff (ars ! 0) = off"
  using assms
proof (induction ars arbitrary: off raw j)
  case (Cons ar ars)
  note I = Cons.prems(1)
  have st: "a_startoff ar = off" using I info_matches_startoff by auto
  show ?case
  proof (cases j)
    case 0
    have "a_nextoff ar = a_startoff (ars ! 0)" if "ars \<noteq> []"
    proof -
      have "a_startoff (ars ! 0) = off + BTT_MAX_ARENA" using that I Cons.IH [of "off + BTT_MAX_ARENA" "raw - BTT_MAX_ARENA" 0] by simp
      then show ?thesis using that I by (simp add: info_matches_def info_at_def Let_def)
    qed
    then show ?thesis using 0 I st by auto
  next
    case (Suc i)
    then show ?thesis using I Cons.prems(2) st Cons.IH [of "off + BTT_MAX_ARENA" "raw - BTT_MAX_ARENA" i]
      by (cases "ars = []") auto
  qed
qed simp

context namespace
begin

lemma read_infos_ok:
  assumes "b_ns_cbp s = cb" "ready (b_ns s)"
    and "infos_from (content (b_ns s)) (b_parent_uuid s) (b_lbasize s) off raw ars"
    and "\<And>j. j < length ars \<Longrightarrow> a_startoff (ars ! j) + SIZEOF_BTT_INFO \<le> nssize (b_ns s)"
    and "t + total_nlba ars < 2 ^ 64" "\<And>ar. ar \<in> set ars \<Longrightarrow> a_external_nlba ar = i_external_nlba (info_at (content (b_ns s)) (a_startoff ar))"
  shows "read_infos lane raw off n small t s =
    (Inr (Some (n + length ars, nfree_min (content (b_ns s)) ars small, t + total_nlba ars)), s)"
  using assms
proof (induction ars arbitrary: off raw n small t)
  case (Cons ar ars)
  note P = Cons.prems
  let ?m = "content (b_ns s)" and ?I = "info_at (content (b_ns s)) off"
  have st: "a_startoff ar = off" using P(3) info_matches_startoff by auto
  have v: "info_valid ?m (b_parent_uuid s) (b_lbasize s) off" using P(3) by simp
  have rd: "ns_read lane SIZEOF_BTT_INFO off s = (Inr (get_at ?m off SIZEOF_BTT_INFO), s)"
    using P(1,2) P(4) [of 0] st by (subst ns_read_ok) simp_all
  have I: "i_external_lbasize ?I = b_lbasize s" "i_nfree ?I \<noteq> 0" "i_external_nlba ?I \<noteq> 0"
    using v by (simp_all add: info_valid_def info_at_def Let_def)
  have ext: "a_external_nlba ar = i_external_nlba ?I" using P(6) [of ar] st by simp
  have t: "u64 (t + i_external_nlba ?I) = t + a_external_nlba ar" using P(5) ext by (simp add: total_nlba_def)
  have big: "\<not> raw < BTT_MIN_SIZE" using P(3) by simp
  have mn: "(if i_nfree ?I < small then i_nfree ?I else small) = min (i_nfree ?I) small" by auto
  have run: "read_infos lane raw off n small t s =
     (if i_nextoff ?I = 0 then (Inr (Some (n + 1, min (i_nfree ?I) small, t + a_external_nlba ar)), s)
      else if i_nextoff ?I \<noteq> BTT_MAX_ARENA then (Inl (Errno EINVAL), s)
      else if i_nextoff ?I > raw then (Inl (Errno EINVAL), s)
      else read_infos lane (raw - i_nextoff ?I) (u64 (off + i_nextoff ?I)) (n + 1) (min (i_nfree ?I) small)
             (t + a_external_nlba ar) s)"
    using big rd read_info_valid [OF v] I t
    by (subst read_infos.simps) (simp add: act_defs Let_def mn)
  show ?case
  proof (cases "ars = []")
    case True
    then show ?thesis using run P(3) st by (simp add: nfree_min_def total_nlba_def)
  next
    case False
    have rest: "read_infos lane (raw - BTT_MAX_ARENA) (off + BTT_MAX_ARENA) (n + 1) (min (i_nfree ?I) small) (t + a_external_nlba ar) s
      = (Inr (Some (n + 1 + length ars, nfree_min ?m ars (min (i_nfree ?I) small), t + a_external_nlba ar + total_nlba ars)), s)"
      using P False P(4) [of "Suc _"] by (intro Cons.IH) (auto simp: total_nlba_def)
    have "u64 (off + BTT_MAX_ARENA) = off + BTT_MAX_ARENA" using P(3) False by simp
    then show ?thesis using run P(3) False rest st by (simp add: nfree_min_def total_nlba_def btt_sizes)
  qed
qed simp

end

section \<open>Opening\<close>

definition nfree_of :: "(nat \<Rightarrow> byte) \<Rightarrow> arena list \<Rightarrow> nat" where
  "nfree_of m ars = min (nfree_min m ars (2 ^ 32 - 1)) BTT_DEFAULT_NFREE"

definition nlane_of :: "nat \<Rightarrow> nat \<Rightarrow> nat" where
  "nlane_of nf maxlane = (if maxlane \<noteq> 0 \<and> nf > maxlane then maxlane else nf)"

definition opened :: "nat \<Rightarrow> nat \<Rightarrow> byte list \<Rightarrow> nat \<Rightarrow> 'n \<Rightarrow> 'n ns_callback \<Rightarrow> failure + byte list \<Rightarrow> nat \<Rightarrow> arena list \<Rightarrow> 'n btt" where
  "opened rawsize lbasize parent maxlane n cb gen nf ars =
     \<lparr> b_nlane = nlane_of nf maxlane, b_layout_write_mutex = False, b_laidout = True, b_uuid = replicate 16 0,
       b_parent_uuid = parent, b_rawsize = rawsize, b_lbasize = lbasize, b_nfree = nf, b_nlba = total_nlba ars,
       b_narena = length ars, b_arenas = ars, b_ns = n, b_ns_cbp = cb, b_allocs = [], b_uuid_gen = gen \<rparr>"

lemma infos_from_first: "infos_from m parent lbasize off raw ars \<Longrightarrow> ars \<noteq> [] \<and> BTT_MIN_SIZE \<le> raw"
  by (cases ars) auto

context namespace
begin

lemma btt_init_ok:
  fixes N :: "nat \<Rightarrow> 'n"
  assumes inf: "infos_from (content (N 0)) parent lbasize 0 rawsize ars" and tot: "total_nlba ars < 2 ^ 64"
    and nf: "nf = nfree_of (content (N 0)) ars" "0 < nf"
    and N: "\<And>j. j < length ars \<Longrightarrow> ready (N j) \<and> nssize (N j) = sz
        \<and> fold (recover_lane cb content 0 (ars ! j)) [0..<nf] (N j) = N (Suc j)
        \<and> info_matches (content (N j)) (a_startoff (ars ! j)) (ars ! j) \<and> (\<forall>i < nf. flog_ok (content (N j)) (ars ! j) i)"
    and ars: "\<And>j. j < length ars \<Longrightarrow> geom_ok (ars ! j) nf lbasize sz \<and> idle (ars ! j) nf \<and> length (a_flogs (ars ! j)) = nf"
  shows "btt_init rawsize lbasize parent maxlane (N 0) cb [] gen
    = (Inr (opened rawsize lbasize parent maxlane (N (length ars)) cb gen nf ars), N (length ars))"
proof -
  note I = infos_from_nth [OF inf] and first = infos_from_first [OF inf]
  have ne: "0 < length ars" using first by simp
  have N0: "ready (N 0)" "nssize (N 0) = sz" using N [OF ne] by simp_all
  define s1 where "s1 = (btt_zalloc (N 0) cb [] gen) \<lparr> b_parent_uuid := parent, b_rawsize := rawsize, b_lbasize := lbasize,
      b_nfree := BTT_DEFAULT_NFREE \<rparr>"
  have fit: "a_startoff (ars ! j) + SIZEOF_BTT_INFO \<le> sz" if "j < length ars" for j
    using ars [OF that] by (auto simp: geom_ok_def btt_sizes extent_def)
  have ri: "read_infos 0 rawsize 0 0 (2 ^ 32 - 1) 0 s1
      = (Inr (Some (0 + length ars, nfree_min (content (N 0)) ars (2 ^ 32 - 1), 0 + total_nlba ars)), s1)"
  proof -
    have "a_external_nlba ar = i_external_nlba (info_at (content (N 0)) (a_startoff ar))" if "ar \<in> set ars" for ar
      using I that by (auto simp: in_set_conv_nth info_matches_def info_at_def Let_def)
    then show ?thesis
      using read_infos_ok [of s1 0 rawsize ars 0 0 0 "2 ^ 32 - 1"] N0 inf tot fit by (simp add: s1_def btt_zalloc_def)
  qed
  let ?k = "nfree_min (content (N 0)) ars (2 ^ 32 - 1)"
  define s2 where "s2 = s1 \<lparr> b_narena := length ars, b_nlba := total_nlba ars, b_nfree := nf \<rparr>"
  have nfk: "(if ?k < BTT_DEFAULT_NFREE then ?k else BTT_DEFAULT_NFREE) = nf" by (simp add: nf(1) nfree_of_def min_def)
  have ra: "read_arenas 0 (length ars) s2 = (Inr (), s2 \<lparr> b_arenas := ars, b_laidout := True, b_ns := N (length ars) \<rparr>)"
  proof (rule read_arenas_ok [where nf = nf and sz = sz and lbasize = lbasize])
    fix j assume j: "j < length ars"
    have "a_external_nlba (ars ! j) \<le> total_nlba ars"
      using j unfolding total_nlba_def by (intro member_le_sum_list) auto
    then show "geom_ok (ars ! j) nf lbasize sz \<and> idle (ars ! j) nf \<and> length (a_flogs (ars ! j)) = nf
        \<and> a_external_nlba (ars ! j) \<le> b_nlba s2 \<and> (Suc j < length ars \<longrightarrow> a_nextoff (ars ! j) = a_startoff (ars ! Suc j))"
      using ars [OF j] I [OF j] by (simp add: s2_def)
  qed (use N nf first I [OF ne] in \<open>auto simp: s2_def s1_def btt_zalloc_def\<close>)
  have s2': "(if ?k < BTT_DEFAULT_NFREE then s1 \<lparr> b_narena := length ars, b_nlba := total_nlba ars, b_nfree := ?k \<rparr>
      else s1 \<lparr> b_narena := length ars, b_nlba := total_nlba ars \<rparr>) = s2"
    using nfk by (auto simp: s2_def s1_def split: if_splits)
  have rl: "read_layout 0 ((btt_zalloc (N 0) cb [] gen) \<lparr> b_parent_uuid := parent, b_rawsize := rawsize, b_lbasize := lbasize \<rparr>)
      = (Inr (), s2 \<lparr> b_arenas := ars, b_laidout := True, b_ns := N (length ars) \<rparr>)"
  proof (cases "?k < BTT_DEFAULT_NFREE")
    case True
    then have "s1 \<lparr> b_narena := length ars, b_nlba := total_nlba ars, b_nfree := ?k \<rparr> = s2" using s2' by simp
    then show ?thesis using True ri first ra by (simp add: read_layout_def act_defs s1_def)
  next
    case False
    then have "s1 \<lparr> b_narena := length ars, b_nlba := total_nlba ars \<rparr> = s2" using s2' by simp
    then show ?thesis using False ri first ra by (simp add: read_layout_def act_defs s1_def)
  qed
  show ?thesis using first rl
    by (simp add: btt_init_def btt_init_body_def act_defs opened_def s2_def s1_def btt_zalloc_def nlane_of_def)
qed

end

end
