(* ===== verification/BttCrash.thy ===== *)
theory BttCrash
  imports BttOpen Blk
begin

text \<open>
  Power failure during a write. The media only promises that aligned groups of eight bytes are written as
  a whole: when the power fails during a write to the namespace, any of its groups may have reached the
  media, and nothing that follows has. Whatever the moment, opening the namespace again gives a handle that
  satisfies the invariant and shows the block with its old or its new content, and all others unchanged.
\<close>

section \<open>Info blocks and the rest of the arena\<close>

definition stored :: "(nat \<Rightarrow> byte) \<Rightarrow> 'n btt \<Rightarrow> bool" where
  "stored m s \<longleftrightarrow> infos_from m (b_parent_uuid s) (b_lbasize s) 0 (b_rawsize s) (b_arenas s)
     \<and> b_nfree s = nfree_of m (b_arenas s) \<and> b_nlba s < 2 ^ 64"

lemma infos_from_cong:
  assumes "infos_from m parent lbasize off raw ars"
    and "\<And>j. j < length ars \<Longrightarrow> get_at m' (a_startoff (ars ! j)) SIZEOF_BTT_INFO = get_at m (a_startoff (ars ! j)) SIZEOF_BTT_INFO"
  shows "infos_from m' parent lbasize off raw ars"
  using assms
proof (induction ars arbitrary: off raw)
  case (Cons ar ars)
  have "a_startoff ar = off" using Cons.prems(1) info_matches_startoff by auto
  then have g: "get_at m' off SIZEOF_BTT_INFO = get_at m off SIZEOF_BTT_INFO" using Cons.prems(2) [of 0] by simp
  have rest: "infos_from m' parent lbasize (off + BTT_MAX_ARENA) (raw - BTT_MAX_ARENA) ars" if "ars \<noteq> []"
    using that Cons.prems(1) Cons.prems(2) [of "Suc _"] by (intro Cons.IH) auto
  have "info_valid m' parent lbasize off = info_valid m parent lbasize off" "info_matches m' off ar = info_matches m off ar"
    "info_at m' off = info_at m off" by (simp_all add: info_valid_def info_matches_def info_at_def g)
  then show ?case using Cons.prems(1) rest by auto
qed simp

lemma nfree_min_map: "nfree_min m ars k = fold (\<lambda>off n. min (i_nfree (info_at m off)) n) (map a_startoff ars) k"
  by (simp add: nfree_min_def fold_map comp_def)

lemma nfree_min_cong:
  assumes "\<And>j. j < length ars \<Longrightarrow> get_at m' (a_startoff (ars ! j)) SIZEOF_BTT_INFO = get_at m (a_startoff (ars ! j)) SIZEOF_BTT_INFO"
  shows "nfree_min m' ars k = nfree_min m ars k"
  unfolding nfree_min_def using assms by (intro fold_cong) (auto simp: info_at_def in_set_conv_nth)

definition same_info :: "arena \<Rightarrow> arena \<Rightarrow> bool" where
  "same_info ar br \<longleftrightarrow> same_geom ar br \<and> a_flags ar = a_flags br \<and> a_nextoff ar = a_nextoff br"

lemma infos_from_upd:
  "infos_from m parent lbasize off raw ars \<Longrightarrow> same_info br (ars ! a) \<Longrightarrow> a < length ars \<Longrightarrow>
   infos_from m parent lbasize off raw (ars[a := br])"
proof (induction ars arbitrary: a off raw)
  case (Cons ar ars)
  show ?case
  proof (cases a)
    case 0
    then show ?thesis using Cons.prems by (auto simp: same_info_def same_geom_def info_matches_def Let_def)
  next
    case (Suc i)
    then show ?thesis using Cons.prems Cons.IH [of "off + BTT_MAX_ARENA" "raw - BTT_MAX_ARENA" i] by (auto split: if_splits)
  qed
qed simp

lemma same_info_after [simp]: "same_info (after_write ar lane p old) ar"
  by (simp add: same_info_def after_write_def) (simp add: flog_upd_def)

text \<open>A change behind the info block of one arena leaves every info block alone.\<close>

lemma infos_outside:
  assumes ok: "btt_ok m sz s" and a: "a < length (b_arenas s)" and j: "j < length (b_arenas s)"
    and out: "same_outside m m' (a_dataoff (b_arenas s ! a)) (extent (b_arenas s ! a) (b_nfree s) - a_dataoff (b_arenas s ! a))"
  shows "get_at m' (a_startoff (b_arenas s ! j)) SIZEOF_BTT_INFO = get_at m (a_startoff (b_arenas s ! j)) SIZEOF_BTT_INFO"
proof -
  note G = btt_okD(7) [OF ok a, unfolded geom_ok_def extent_def btt_sizes]
    and J = btt_okD(7) [OF ok j, unfolded geom_ok_def extent_def btt_sizes]
  have "a_startoff (b_arenas s ! j) + 4096 \<le> a_dataoff (b_arenas s ! a) \<or> extent (b_arenas s ! a) (b_nfree s) \<le> a_startoff (b_arenas s ! j)"
  proof (cases "j = a")
    case True
    then show ?thesis using G by simp
  next
    case False
    then show ?thesis using btt_okD(10) [OF ok j a False] G J by (auto simp: apart_def extent_def)
  qed
  then show ?thesis
    using G by (intro agree_get [OF outside_agree [OF outside_sym [OF out], where lo = "a_startoff (b_arenas s ! j)"
        and hi = "a_startoff (b_arenas s ! j) + SIZEOF_BTT_INFO"]]) (auto simp: btt_sizes extent_def)
qed

lemma stored_outside:
  assumes ok: "btt_ok m sz s" and a: "a < length (b_arenas s)" and st: "stored m s"
    and out: "same_outside m m' (a_dataoff (b_arenas s ! a)) (extent (b_arenas s ! a) (b_nfree s) - a_dataoff (b_arenas s ! a))"
  shows "stored m' s"
proof -
  note G = infos_outside [OF ok a _ out]
  show ?thesis using st infos_from_cong [OF _ G] nfree_min_cong [OF G] by (auto simp: stored_def nfree_of_def)
qed

lemma stored_after:
  assumes st: "stored d s" and a: "a < length (b_arenas s)"
  shows "stored d ((upd_arena a (\<lambda>ar. after_write ar lane p old) s) \<lparr> b_ns := n \<rparr>)"
proof -
  let ?ars = "(b_arenas s)[a := after_write (b_arenas s ! a) lane p old]"
  have "map a_startoff ?ars = map a_startoff (b_arenas s)"
    using a by (auto simp: after_write_def nth_list_update intro!: nth_equalityI)
  then have "nfree_min d ?ars k = nfree_min d (b_arenas s) k" for k by (simp add: nfree_min_map)
  moreover have "infos_from d (b_parent_uuid s) (b_lbasize s) 0 (b_rawsize s) ?ars"
    using st a by (intro infos_from_upd) (simp_all add: stored_def)
  ultimately show ?thesis using st by (simp add: stored_def upd_arena_def nfree_of_def)
qed

section \<open>Opening what was stored\<close>

context namespace
begin

lemma reopen_ok:
  fixes gen maxlane
  assumes rd: "ready n" and ok: "btt_ok (content n) (nssize n) s" and st: "stored (content n) s"
  defines "t \<equiv> opened (b_rawsize s) (b_lbasize s) (b_parent_uuid s) maxlane n cb gen (b_nfree s) (b_arenas s)"
  shows "btt_init (b_rawsize s) (b_lbasize s) (b_parent_uuid s) maxlane n cb [] gen = (Inr t, n)"
    and "btt_ok (content n) (nssize n) t" "b_nlba t = b_nlba s" "abs_block (content n) t x = abs_block (content n) s x"
proof -
  note D = btt_okD [OF ok]
  have nf: "0 < b_nfree s" using D(4,5) by simp
  have S: "infos_from (content n) (b_parent_uuid s) (b_lbasize s) 0 (b_rawsize s) (b_arenas s)"
    "b_nfree s = nfree_of (content n) (b_arenas s)" "total_nlba (b_arenas s) < 2 ^ 64"
    using st D(3) by (simp_all add: stored_def)
  note I = infos_from_nth [OF S(1)]
  show "btt_init (b_rawsize s) (b_lbasize s) (b_parent_uuid s) maxlane n cb [] gen = (Inr t, n)"
    unfolding t_def
  proof (rule btt_init_ok [where N = "\<lambda>_. n" and sz = "nssize n"])
    fix j assume j: "j < length (b_arenas s)"
    show "ready n \<and> nssize n = nssize n
        \<and> fold (recover_lane cb content 0 (b_arenas s ! j)) [0..<b_nfree s] n = n
        \<and> info_matches (content n) (a_startoff (b_arenas s ! j)) (b_arenas s ! j)
        \<and> (\<forall>i < b_nfree s. flog_ok (content n) (b_arenas s ! j) i)"
      using rd I [OF j] recover_none [where content = content and n = n, OF D(7,9) [OF j]] media_okD(1) [OF D(9) [OF j]]
      by auto
    show "geom_ok (b_arenas s ! j) (b_nfree s) (b_lbasize s) (nssize n) \<and> idle (b_arenas s ! j) (b_nfree s)
        \<and> length (a_flogs (b_arenas s ! j)) = b_nfree s"
      using D(7-9) [OF j] by (simp add: media_ok_def)
  qed (use S nf in auto)
  have nl: "0 < nlane_of (b_nfree s) maxlane" "nlane_of (b_nfree s) maxlane \<le> b_nfree s" using nf by (auto simp: nlane_of_def)
  show "btt_ok (content n) (nssize n) t" using ok nl by (simp add: btt_ok_def t_def opened_def)
  show "b_nlba t = b_nlba s" using D(3) by (simp add: t_def opened_def)
  show "abs_block (content n) t x = abs_block (content n) s x" by (simp add: abs_block_def t_def opened_def)
qed

text \<open>
  The flog entry of an unfinished write is current: opening finishes the write. \<open>m\<close> is the media the
  operation started from, with the data written; \<open>n3\<close> the namespace with the flog entry.
\<close>

lemma reopen_pending:
  fixes gen maxlane
  assumes rd: "ready n3" and ok: "btt_ok m (nssize n3) s" and st: "stored m s"
    and a: "a < length (b_arenas s)" and ar: "ar = b_arenas s ! a" and i: "lane < b_nfree s" and p: "p < a_external_nlba ar"
    and old: "old = norm_entry p (entry_at m ar p)"
    and m3: "content n3 = md_tail ar lane (md_head ar lane p old m)"
  defines "n4 \<equiv> written cb 0 (to_le 4 (free_entry ar lane)) (off_map ar p) n3"
    and "ars \<equiv> (b_arenas s)[a := after_write ar lane p old]"
  shows "btt_init (b_rawsize s) (b_lbasize s) (b_parent_uuid s) maxlane n3 cb [] gen
    = (Inr (opened (b_rawsize s) (b_lbasize s) (b_parent_uuid s) maxlane n4 cb gen (b_nfree s) ars), n4)"
    and "content n4 = md_map ar lane p (content n3)" "ready n4" "nssize n4 = nssize n3"
proof -
  note D = btt_okD [OF ok]
  have g: "geom_ok ar (b_nfree s) (b_lbasize s) (nssize n3)" and md: "media_ok m ar (b_nfree s)" and id: "idle ar (b_nfree s)"
    using D(7-9) [OF a] ar by simp_all
  note G = g [unfolded geom_ok_def extent_def btt_sizes]
  have nf: "0 < b_nfree s" using i by simp
  have fit: "off_map ar p + 4 \<le> nssize n3" using code_offsets(2,3) [OF g] p by fastforce
  note W = written_laws [OF rd, of "off_map ar p" "to_le 4 (free_entry ar lane)" 0, simplified, OF fit, folded n4_def]
  show c4: "content n4 = md_map ar lane p (content n3)" using W by (simp add: md_map_def)
  show r4: "ready n4" "nssize n4 = nssize n3" using W by simp_all
  have out3: "same_outside m (content n3) (a_dataoff ar) (extent ar (b_nfree s) - a_dataoff ar)"
    unfolding m3 using next_off_bounds(3,4) [OF md i] G by (intro outside_mono [OF outside_tail]) (auto simp: extent_def)
  have "same_outside (content n3) (content n4) (a_dataoff ar) (extent ar (b_nfree s) - a_dataoff ar)"
    unfolding c4 md_map_def using G p by (intro outside_mono [OF outside_put]) (auto simp: extent_def off_map_def)
  then have out4: "same_outside m (content n4) (a_dataoff ar) (extent ar (b_nfree s) - a_dataoff ar)"
    by (rule outside_trans [OF out3])
  have st3: "stored (content n3) s" and st4: "stored (content n4) s"
    using stored_outside [OF ok a st] out3 out4 ar by auto
  have len: "length ars = length (b_arenas s)" by (simp add: ars_def)
  have other: "ars ! j = b_arenas s ! j" if "j \<noteq> a" for j using that by (simp add: ars_def)
  have at: "ars ! a = after_write ar lane p old" using a by (simp add: ars_def)
  have inf: "infos_from c (b_parent_uuid s) (b_lbasize s) 0 (b_rawsize s) ars" if "stored c s" for c
    unfolding ars_def using that a ar by (intro infos_from_upd) (auto simp: stored_def)
  have maps: "map a_startoff ars = map a_startoff (b_arenas s)" "map a_external_nlba ars = map a_external_nlba (b_arenas s)"
    using a by (auto simp: ars_def after_write_def nth_list_update ar intro!: nth_equalityI)
  have tot: "total_nlba ars = total_nlba (b_arenas s)" by (simp add: total_nlba_def maps)
  have T: "flog_ok (content n3) (after_write ar lane p old) j" if "j < b_nfree s" for j
    unfolding m3 after_write_def by (rule tail_stage(1) [OF g md i p that])
  have e3: "entry_at (content n3) ar q = entry_at m ar q" if "q < a_external_nlba ar" for q
    unfolding m3 by (rule tail_stage(2) [OF g md i p that])
  have d3: "block_at (content n3) ar (b_lbasize s) q = block_at m ar (b_lbasize s) q" if "q < a_external_nlba ar" for q
    unfolding m3 by (rule tail_stage(3) [OF g md i p that])
  have rec: "fold (recover_lane cb content 0 (ars ! a)) [0..<b_nfree s] n3 = n4"
    unfolding at n4_def by (rule recover_pending [OF rd g md i p old T e3 d3 refl])
  have outj: "media_ok (content c) (b_arenas s ! j) (b_nfree s)"
    if "j < length (b_arenas s)" "j \<noteq> a" "same_outside m (content c) (a_dataoff ar) (extent ar (b_nfree s) - a_dataoff ar)" for c j
  proof -
    have "agree m (content c) (a_startoff (b_arenas s ! j)) (extent (b_arenas s ! j) (b_nfree s))"
      using D(10) [OF that(1) a that(2)] G ar by (intro outside_agree [OF that(3)]) (auto simp: apart_def extent_def)
    from arena_agree(1) [OF this D(7) [OF that(1)]] D(9) [OF that(1)] show ?thesis by simp
  qed
  let ?N = "\<lambda>k. if k \<le> a then n3 else n4"
  have seq: "ready (?N j) \<and> nssize (?N j) = nssize n3
      \<and> fold (recover_lane cb content 0 (ars ! j)) [0..<b_nfree s] (?N j) = ?N (Suc j)
      \<and> info_matches (content (?N j)) (a_startoff (ars ! j)) (ars ! j)
      \<and> (\<forall>i < b_nfree s. flog_ok (content (?N j)) (ars ! j) i)" if j: "j < length ars" for j
  proof -
    have im: "info_matches (content (?N j)) (a_startoff (ars ! j)) (ars ! j)"
      using infos_from_nth [OF inf j] st3 st4 by (cases "j \<le> a") auto
    show ?thesis
    proof (cases "j = a")
      case True
      then show ?thesis using rd rec T im at by simp
    next
      case False
      have md': "media_ok (content (?N j)) (b_arenas s ! j) (b_nfree s)"
        using j len outj [of j n3] outj [of j n4] out3 out4 False by (cases "j \<le> a") auto
      have "fold (recover_lane cb content 0 (b_arenas s ! j)) [0..<b_nfree s] (?N j) = ?N j"
        using j len by (intro recover_none [where content = content, OF D(7) md']) simp
      moreover have "?N j = ?N (Suc j)" using False by auto
      ultimately show ?thesis using rd r4 im other [OF False] media_okD(1) [OF md'] by auto
    qed
  qed
  have geo: "geom_ok (ars ! j) (b_nfree s) (b_lbasize s) (nssize n3) \<and> idle (ars ! j) (b_nfree s)
      \<and> length (a_flogs (ars ! j)) = b_nfree s" if j: "j < length ars" for j
  proof (cases "j = a")
    case True
    then show ?thesis using at g id md
      by (simp add: after_write_def flog_upd_geom idle_def media_ok_def)
  next
    case False
    then show ?thesis using D(7-9) [of j] j len other [OF False] by (simp add: media_ok_def)
  qed
  have nfo: "b_nfree s = nfree_of (content (?N 0)) ars"
    using st3 by (simp add: stored_def nfree_of_def nfree_min_map maps)
  have tot4: "total_nlba ars < 2 ^ 64" using st D(3) by (simp add: stored_def tot)
  from btt_init_ok [of ?N, OF _ tot4 nfo nf seq geo] inf [OF st3] a len
  show "btt_init (b_rawsize s) (b_lbasize s) (b_parent_uuid s) maxlane n3 cb [] gen
    = (Inr (opened (b_rawsize s) (b_lbasize s) (b_parent_uuid s) maxlane n4 cb gen (b_nfree s) ars), n4)"
    by simp
qed

end

section \<open>A namespace that loses its power\<close>

text \<open>
  \<open>c_live\<close> is what the running program sees, \<open>c_durable\<close> what survives. The first \<open>c_budget - 1\<close> writes
  reach the media, the next one only in the groups of eight bytes in \<open>c_keep\<close>, the others not at all.
\<close>

record crash_ns =
  c_live :: blk_ns
  c_durable :: "nat \<Rightarrow> byte"
  c_budget :: nat
  c_keep :: "nat \<Rightarrow> bool"

definition torn :: "(nat \<Rightarrow> bool) \<Rightarrow> nat \<Rightarrow> byte list \<Rightarrow> (nat \<Rightarrow> byte) \<Rightarrow> nat \<Rightarrow> byte" where
  "torn keep off bs m = (\<lambda>x. if keep (x div 8) then put_at off bs m x else m x)"

definition survive :: "crash_ns \<Rightarrow> nat \<Rightarrow> byte list \<Rightarrow> nat \<Rightarrow> byte" where
  "survive c off bs = (if c_budget c = 0 then c_durable c
     else if c_budget c = 1 then torn (c_keep c) off bs (c_durable c) else put_at off bs (c_durable c))"

lemma survive_simps:
  "c_budget c = 0 \<Longrightarrow> survive c off bs = c_durable c"
  "c_budget c = 1 \<Longrightarrow> survive c off bs = torn (c_keep c) off bs (c_durable c)"
  "1 < c_budget c \<Longrightarrow> survive c off bs = put_at off bs (c_durable c)"
  by (simp_all add: survive_def)

definition crash_write :: "crash_ns \<Rightarrow> (failure + unit) \<times> blk_ns \<Rightarrow> nat \<Rightarrow> byte list \<Rightarrow> (failure + unit) \<times> crash_ns" where
  "crash_write c r off bs = (case r of (Inl e, l) \<Rightarrow> (Inl e, c)
     | (Inr u, l) \<Rightarrow> (Inr u, c \<lparr> c_live := l, c_durable := survive c off bs, c_budget := c_budget c - 1 \<rparr>))"

definition crash_cb :: "bool \<Rightarrow> crash_ns ns_callback" where
  "crash_cb zeroed = \<lparr> nsread = (\<lambda>c. blk_nsread (c_live c)),
     nswrite = (\<lambda>c lane buf off. crash_write c (blk_nswrite (c_live c) lane buf off) off buf),
     nszero = (\<lambda>c lane n off. crash_write c (blk_nszero (c_live c) lane n off) off (replicate n 0)),
     nsmap = (\<lambda>c. blk_nsmap (c_live c)), ns_is_zeroed = zeroed \<rparr>"

interpretation crash: namespace "crash_cb zeroed" "\<lambda>c. n_data (c_live c)" "\<lambda>c. n_datasize (c_live c)"
    "\<lambda>c. n_datasize (c_live c) < 2 ^ 63" for zeroed
  by unfold_locales
    (auto simp: crash_cb_def crash_write_def blk_nsread_def blk_nswrite_def blk_nszero_def blk_nsmap_def fail_with_def)

lemma crash_written:
  assumes "n_datasize (c_live c) < 2 ^ 63" "off + length buf \<le> n_datasize (c_live c)"
  shows "c_durable (written (crash_cb z) lane buf off c) = survive c off buf"
    and "c_budget (written (crash_cb z) lane buf off c) = c_budget c - 1"
    and "c_keep (written (crash_cb z) lane buf off c) = c_keep c"
  using assms by (simp_all add: written_def crash_cb_def crash_write_def blk_nswrite_def)

text \<open>A write inside one group of eight bytes is never torn.\<close>

lemma torn_atomic:
  assumes "off mod 8 + length bs \<le> 8"
  shows "torn keep off bs m = m \<or> torn keep off bs m = put_at off bs m"
proof -
  have "x div 8 = off div 8" if "off \<le> x" "x < off + length bs" for x
  proof -
    have "off div 8 * 8 + off mod 8 = off" by simp
    then have "off div 8 * 8 \<le> x" "x < off div 8 * 8 + 8" using assms that by linarith+
    then show ?thesis by (intro div_nat_eqI) simp_all
  qed
  then have "torn keep off bs m = (if keep (off div 8) then put_at off bs m else m)"
    by (auto simp: torn_def put_at_def fun_eq_iff)
  then show ?thesis by simp
qed

lemma torn_outside: "n = length bs \<Longrightarrow> same_outside m (torn keep off bs m) off n"
  by (auto simp: same_outside_def torn_def put_at_def)

text \<open>
  What survives of the four writes of an operation: the old media with at most the free block changed, that
  with the head of the flog entry, that with the whole flog entry, or everything.
\<close>

lemma durable_cases:
  fixes old and z
  assumes g: "geom_ok ar nf lbasize (n_datasize (c_live c))" and ok: "media_ok m ar nf" and i: "lane < nf"
    and p: "p < a_external_nlba ar" and buf: "length buf = lbasize" and sz: "n_datasize (c_live c) < 2 ^ 63"
    and m: "c_durable c = m"
  defines "d \<equiv> c_durable (ns_map (crash_cb z) lane ar p old buf c)" and "m1 \<equiv> put_at (data_of ar lane) buf m"
  shows "same_outside m d (data_of ar lane) lbasize \<or> d = md_head ar lane p old m1
    \<or> d = md_tail ar lane (md_head ar lane p old m1) \<or> d = md_write ar lane p old buf m"
proof -
  note off = code_offsets [OF g] and F = media_okD(3,4) [OF ok i] and N = next_off_bounds [OF ok i]
  let ?w = "written (crash_cb z) lane"
  have f1: "data_of ar lane + length buf \<le> n_datasize (c_live c)" using off(7) [OF F(1)] buf by (simp add: data_of_def)
  have f2: "next_off ar lane + 16 \<le> n_datasize (c_live c)" using N(4) off(3) by (simp add: extent_def)
  have f3: "off_map ar p + 4 \<le> n_datasize (c_live c)" using off(2) [OF p] off(3) by simp
  have a2: "next_off ar lane mod 8 = 0"
    using flog_ok_slots [OF media_okD(1) [OF ok i]] g by (auto simp: geom_ok_def off_flog_def mod_add_eq [symmetric])
  have a3: "off_map ar p mod 8 + 4 \<le> 8"
  proof -
    have "4 dvd off_map ar p" using g by (simp add: geom_ok_def off_map_def)
    then show ?thesis by presburger
  qed
  define c1 where "c1 = ?w buf (data_of ar lane) c"
  define c2 where "c2 = ?w (head_bytes p old) (next_off ar lane) c1"
  define c3 where "c3 = ?w (tail_bytes (free_entry ar lane) (new_seq ar lane)) (next_off ar lane + 8) c2"
  define c4 where "c4 = ?w (to_le 4 (free_entry ar lane)) (off_map ar p) c3"
  have d: "d = c_durable c4"
    by (simp add: d_def ns_writes c4_def c3_def c2_def c1_def data_of_def F(2) new_seq_def)
  note L1 = crash.written_laws [where zeroed = z, OF sz f1, where lane = lane, folded c1_def]
  have s1: "n_datasize (c_live c1) < 2 ^ 63" "n_datasize (c_live c1) = n_datasize (c_live c)" using L1 by auto
  have s2: "n_datasize (c_live c2) < 2 ^ 63" "n_datasize (c_live c2) = n_datasize (c_live c)"
    using crash.written_laws(3,4) [where zeroed = z, OF s1(1), of "next_off ar lane" "head_bytes p old" lane] f2 s1
    by (simp_all add: c2_def)
  have s3: "n_datasize (c_live c3) < 2 ^ 63" "n_datasize (c_live c3) = n_datasize (c_live c)"
    using crash.written_laws(3,4) [where zeroed = z, OF s2(1), of "next_off ar lane + 8"
      "tail_bytes (free_entry ar lane) (new_seq ar lane)" lane] f2 s2 by (simp_all add: c3_def)
  note W1 = crash_written [OF sz f1, of z lane, folded c1_def]
  have W2: "c_durable c2 = survive c1 (next_off ar lane) (head_bytes p old)" "c_budget c2 = c_budget c1 - 1"
    unfolding c2_def using f2 s1 by (subst crash_written; simp)+
  have W3: "c_durable c3 = survive c2 (next_off ar lane + 8) (tail_bytes (free_entry ar lane) (new_seq ar lane))"
    "c_budget c3 = c_budget c2 - 1" unfolding c3_def using f2 s2 by (subst crash_written; simp)+
  have W4: "c_durable c4 = survive c3 (off_map ar p) (to_le 4 (free_entry ar lane))"
    unfolding c4_def using f3 s3 by (subst crash_written; simp)+
  have T2: "torn k (next_off ar lane) (head_bytes p old) x \<in> {x, md_head ar lane p old x}" for k x
    using torn_atomic [of "next_off ar lane" "head_bytes p old" k x] a2 by (auto simp: md_head_def)
  have T3: "torn k (next_off ar lane + 8) (tail_bytes (free_entry ar lane) (new_seq ar lane)) x \<in> {x, md_tail ar lane x}" for k x
    using torn_atomic [of "next_off ar lane + 8" "tail_bytes (free_entry ar lane) (new_seq ar lane)" k x] a2
    by (auto simp: md_tail_def)
  have T4: "torn k (off_map ar p) (to_le 4 (free_entry ar lane)) x \<in> {x, md_map ar lane p x}" for k x
    using torn_atomic [of "off_map ar p" "to_le 4 (free_entry ar lane)" k x] a3 by (auto simp: md_map_def)
  have out1: "same_outside m m1 (data_of ar lane) lbasize" unfolding m1_def using buf by (intro outside_put) simp
  have B: "c_budget c1 = c_budget c - 1" "c_budget c2 = c_budget c - 2" "c_budget c3 = c_budget c - 3"
    using W1(2) W2(2) W3(2) by simp_all
  have W: "c_durable c1 = survive c (data_of ar lane) buf" using W1(1) .
  note W = W W2(1) W3(1) W4 B m survive_simps
  consider "c_budget c \<le> 1" | "c_budget c = 2" | "c_budget c = 3" | "c_budget c = 4" | "5 \<le> c_budget c"
    by linarith
  then show ?thesis
  proof cases
    case 1
    then have "d = c_durable c1" by (simp add: d W)
    then show ?thesis using 1 buf torn_outside [of lbasize buf m] by (cases "c_budget c = 0") (simp_all add: W)
  next
    case 2
    then have "d \<in> {m1, md_head ar lane p old m1}" using T2 by (simp add: d W m1_def)
    then show ?thesis using out1 by auto
  next
    case 3
    then have "d \<in> {md_head ar lane p old m1, md_tail ar lane (md_head ar lane p old m1)}"
      using T3 by (simp add: d W m1_def md_head_def)
    then show ?thesis by auto
  next
    case 4
    then have "d \<in> {md_tail ar lane (md_head ar lane p old m1), md_write ar lane p old buf m}"
      using T4 by (simp add: d W m1_def md_head_def md_tail_def md_write_def)
    then show ?thesis by auto
  next
    case 5
    then have "1 < c_budget c" "1 < c_budget c1" "1 < c_budget c2" "1 < c_budget c3" using B by linarith+
    then have "d = md_write ar lane p old buf m"
      by (simp add: d W1(1) W2(1) W3(1) W4 m survive_simps md_head_def md_tail_def md_map_def md_write_def)
    then show ?thesis by simp
  qed
qed

section \<open>Any moment of a write\<close>

text \<open>Changes the operation makes before its flog entry is current are invisible.\<close>

lemma invisible_change:
  assumes ok: "btt_ok m sz s" and a: "a < length (b_arenas s)" and ar: "ar = b_arenas s ! a" and st: "stored m s"
    and md: "media_ok d ar (b_nfree s)"
    and bl: "\<And>q. q < a_external_nlba ar \<Longrightarrow> block_at d ar (b_lbasize s) q = block_at m ar (b_lbasize s) q"
    and out: "same_outside m d (a_dataoff ar) (extent ar (b_nfree s) - a_dataoff ar)"
  shows "btt_ok d sz s" "stored d s" "x < b_nlba s \<Longrightarrow> abs_block d s x = abs_block m s x"
proof -
  note D = btt_okD [OF ok]
  have "same_outside m d (a_startoff ar) (extent ar (b_nfree s) - a_startoff ar)"
    using D(7) [OF a] ar by (intro outside_mono [OF out]) (auto simp: geom_ok_def extent_def)
  note U = btt_ok_upd [OF ok a, where f = id and m' = d and n = "b_ns s", folded ar, simplified, OF md D(8) [OF a, folded ar] this]
  have idu: "upd_arena a id s = s" by (simp add: upd_arena_def)
  show "btt_ok d sz s" using U(1) idu by simp
  show "stored d s" using stored_outside [OF ok a st] out ar by simp
  assume x: "x < b_nlba s"
  obtain c q where lx: "find_arena 0 (b_arenas s) x = (c, q)" by fastforce
  then have "q < a_external_nlba (b_arenas s ! c)"
    using find_arena_spec [of x "b_arenas s" 0 c q] x D(3) by auto
  then show "abs_block d s x = abs_block m s x"
    using U(2) [OF lx x] idu bl [of q] lx ar by (auto simp: abs_block_def)
qed

lemma btt_ok_opened:
  assumes "btt_ok m sz s" "0 < b_nfree s"
  shows "btt_ok m sz (opened raw (b_lbasize s) parent maxlane n cb gen (b_nfree s) (b_arenas s))"
    and "abs_block m (opened raw (b_lbasize s) parent maxlane n cb gen (b_nfree s) (b_arenas s)) x = abs_block m s x"
    and "b_nlba (opened raw (b_lbasize s) parent maxlane n cb gen (b_nfree s) (b_arenas s)) = b_nlba s"
proof -
  have "0 < nlane_of (b_nfree s) maxlane" "nlane_of (b_nfree s) maxlane \<le> b_nfree s" using assms(2) by (auto simp: nlane_of_def)
  then show "btt_ok m sz (opened raw (b_lbasize s) parent maxlane n cb gen (b_nfree s) (b_arenas s))"
    "abs_block m (opened raw (b_lbasize s) parent maxlane n cb gen (b_nfree s) (b_arenas s)) x = abs_block m s x"
    "b_nlba (opened raw (b_lbasize s) parent maxlane n cb gen (b_nfree s) (b_arenas s)) = b_nlba s"
    using assms(1) by (simp_all add: btt_ok_def opened_def abs_block_def)
qed

text \<open>The handle opened on the media \<open>d\<close> shows the blocks \<open>v\<close>.\<close>

definition reopens :: "(nat \<Rightarrow> byte) \<Rightarrow> nat \<Rightarrow> 'n btt \<Rightarrow> (nat \<Rightarrow> byte list option) \<Rightarrow> bool" where
  "reopens d sz s v \<longleftrightarrow> (\<forall>maxlane z gen. \<exists>t.
     btt_init (b_rawsize s) (b_lbasize s) (b_parent_uuid s) maxlane \<lparr> n_data = d, n_datasize = sz \<rparr> (ns_cb z) [] gen
       = (Inr t, b_ns t)
     \<and> n_datasize (b_ns t) = sz \<and> btt_ok (n_data (b_ns t)) sz t \<and> b_nlba t = b_nlba s
     \<and> (\<forall>x < b_nlba s. abs_block (n_data (b_ns t)) t x = v x))"

lemma reopensI:
  assumes init: "\<And>maxlane z gen. btt_init (b_rawsize s) (b_lbasize s) (b_parent_uuid s) maxlane
        \<lparr> n_data = d, n_datasize = sz \<rparr> (ns_cb z) [] gen
      = (Inr (opened (b_rawsize s) (b_lbasize s) (b_parent_uuid s) maxlane (N z) (ns_cb z) gen (b_nfree s) (b_arenas s')), N z)"
    and N: "\<And>z. n_data (N z) = d'" "\<And>z. n_datasize (N z) = sz"
    and ok: "btt_ok d' sz s'" and s': "b_nfree s' = b_nfree s" "b_lbasize s' = b_lbasize s" "b_nlba s' = b_nlba s"
    and v: "\<And>x. x < b_nlba s \<Longrightarrow> abs_block d' s' x = v x"
  shows "reopens d sz s v"
  unfolding reopens_def
proof (intro allI)
  fix maxlane z gen
  let ?t = "opened (b_rawsize s) (b_lbasize s) (b_parent_uuid s) maxlane (N z) (ns_cb z) gen (b_nfree s) (b_arenas s')"
  have nf: "0 < b_nfree s'" using btt_okD(4,5) [OF ok] by simp
  have ns: "b_ns ?t = N z" by (simp add: opened_def)
  note O = btt_ok_opened [OF ok nf, unfolded s', of "b_rawsize s" "b_parent_uuid s" maxlane "N z" "ns_cb z" gen]
  show "\<exists>t. btt_init (b_rawsize s) (b_lbasize s) (b_parent_uuid s) maxlane \<lparr> n_data = d, n_datasize = sz \<rparr> (ns_cb z) [] gen
       = (Inr t, b_ns t)
     \<and> n_datasize (b_ns t) = sz \<and> btt_ok (n_data (b_ns t)) sz t \<and> b_nlba t = b_nlba s
     \<and> (\<forall>x < b_nlba s. abs_block (n_data (b_ns t)) t x = v x)"
    using init [of maxlane z gen] N O v by (intro exI [of _ ?t]) (simp add: ns)
qed

lemma reopens_settled:
  assumes "btt_ok d sz s'" "stored d s'" "sz < 2 ^ 63" "\<And>x. x < b_nlba s \<Longrightarrow> abs_block d s' x = v x"
    and "b_nfree s' = b_nfree s" "b_lbasize s' = b_lbasize s" "b_nlba s' = b_nlba s" "b_rawsize s' = b_rawsize s"
      "b_parent_uuid s' = b_parent_uuid s"
  shows "reopens d sz s v"
proof (rule reopensI [where N = "\<lambda>_. \<lparr> n_data = d, n_datasize = sz \<rparr>" and s' = s'])
  show "btt_init (b_rawsize s) (b_lbasize s) (b_parent_uuid s) maxlane \<lparr> n_data = d, n_datasize = sz \<rparr> (ns_cb z) [] gen
      = (Inr (opened (b_rawsize s) (b_lbasize s) (b_parent_uuid s) maxlane \<lparr> n_data = d, n_datasize = sz \<rparr> (ns_cb z) gen
          (b_nfree s) (b_arenas s')), \<lparr> n_data = d, n_datasize = sz \<rparr>)" for maxlane z gen
    using blk.reopen_ok(1) [where zeroed = z and n = "\<lparr> n_data = d, n_datasize = sz \<rparr>" and s = s'] assms by simp
qed (use assms in simp_all)

text \<open>The media at any moment of a write, once the power is gone.\<close>

lemma write_crash:
  assumes ok: "btt_ok m sz s" and st: "stored m s" and sz: "sz < 2 ^ 63"
    and lane: "lane < b_nfree s" and lba: "lba < b_nlba s" and buf: "length buf = b_lbasize s"
    and loc: "find_arena 0 (b_arenas s) lba = (a, p)" and ar: "ar = b_arenas s ! a"
    and old: "old = norm_entry p (entry_at m ar p)" and m1: "m1 = put_at (data_of ar lane) buf m"
    and d: "same_outside m d (data_of ar lane) (b_lbasize s) \<or> d = md_head ar lane p old m1
      \<or> d = md_tail ar lane (md_head ar lane p old m1) \<or> d = md_write ar lane p old buf m"
  shows "reopens d sz s (abs_block m s) \<or> reopens d sz s (\<lambda>x. if x = lba then Some buf else abs_block m s x)"
proof -
  note D = btt_okD [OF ok]
  have a: "a < length (b_arenas s)" and p: "p < a_external_nlba ar"
    using find_arena_spec [of lba "b_arenas s" 0 a p] loc lba D(3) by (auto simp: ar)
  have g: "geom_ok ar (b_nfree s) (b_lbasize s) sz" and md: "media_ok m ar (b_nfree s)" using D(7,9) [OF a] by (simp_all add: ar)
  note G = g [unfolded geom_ok_def extent_def btt_sizes] and N = next_off_bounds(3,4) [OF md lane]
  have data_ok: "btt_ok c sz s \<and> stored c s \<and> (\<forall>x < b_nlba s. abs_block c s x = abs_block m s x)
      \<and> media_ok c ar (b_nfree s) \<and> entry_at c ar p = entry_at m ar p"
    if o: "same_outside m c (data_of ar lane) (b_lbasize s)" for c
  proof -
    note S = data_stage [OF g md lane o]
    have "same_outside m c (a_dataoff ar) (extent ar (b_nfree s) - a_dataoff ar)"
      using block_end [OF g media_okD(3) [OF md lane]] G
      by (intro outside_mono [OF o]) (auto simp: data_of_def extent_def off_data_def)
    from invisible_change [OF ok a ar st S(1,2) this] S(1,3) p show ?thesis by simp
  qed
  have b1: "same_outside m m1 (data_of ar lane) (b_lbasize s)" unfolding m1 using buf by (intro outside_put) simp
  note d1 = data_ok [OF b1]
  have old1: "old = norm_entry p (entry_at m1 ar p)" using d1 old by simp
  have out: "same_outside m1 c (a_dataoff ar) (extent ar (b_nfree s) - a_dataoff ar)"
    if "same_outside m1 c (next_off ar lane) 16" for c using N G by (intro outside_mono [OF that]) (auto simp: extent_def)
  define s' where "s' = (upd_arena a (\<lambda>ar. after_write ar lane p old) s) \<lparr> b_ns := b_ns s \<rparr>"
  note W = written_handle [OF ok lane lba buf loc, where n = "b_ns s", folded ar, folded old, folded s'_def]
  have full: "md_write ar lane p old buf m = md_map ar lane p (md_tail ar lane (md_head ar lane p old m1))"
    by (simp add: md_write_def m1)
  from d consider (data) "same_outside m d (data_of ar lane) (b_lbasize s)" | (head) "d = md_head ar lane p old m1"
    | (tail) "d = md_tail ar lane (md_head ar lane p old m1)" | (all) "d = md_write ar lane p old buf m"
    by blast
  then show ?thesis
  proof cases
    case data
    then have "reopens d sz s (abs_block m s)" using data_ok [of d] sz by (intro reopens_settled [where s' = s]) auto
    then show ?thesis ..
  next
    case head
    have o: "same_outside m1 d (next_off ar lane) 16" unfolding head by (rule outside_head)
    have "media_ok d ar (b_nfree s)" unfolding head using g d1 lane p by (intro head_stage) auto
    from invisible_change [OF _ a ar _ this _ out [OF o], of sz] flog_stage(2) [OF g _ lane o] d1
    have "btt_ok d sz s" "stored d s" "\<forall>x < b_nlba s. abs_block d s x = abs_block m s x" by simp_all
    then have "reopens d sz s (abs_block m s)" using sz by (intro reopens_settled [where s' = s]) auto
    then show ?thesis ..
  next
    case tail
    let ?n3 = "\<lparr> n_data = d, n_datasize = sz \<rparr>"
    define N where "N z = written (ns_cb z) 0 (to_le 4 (free_entry ar lane)) (off_map ar p) ?n3" for z
    have R: "btt_init (b_rawsize s) (b_lbasize s) (b_parent_uuid s) maxlane ?n3 (ns_cb z) [] gen
        = (Inr (opened (b_rawsize s) (b_lbasize s) (b_parent_uuid s) maxlane (N z) (ns_cb z) gen (b_nfree s) (b_arenas s')), N z)"
      "n_data (N z) = md_write ar lane p old buf m" "n_datasize (N z) = sz" for maxlane z gen
      using blk.reopen_pending [where zeroed = z and ?n3.0 = ?n3 and m = m1 and s = s and a = a and ar = ar and lane = lane
          and p = p and old = old, folded N_def] sz d1 a ar lane p old1 tail full
      by (simp_all add: s'_def upd_arena_def)
    have "reopens d sz s (\<lambda>x. if x = lba then Some buf else abs_block m s x)"
      by (rule reopensI [where s' = s', OF R]) (use W in \<open>simp_all add: same_handle_def s'_def\<close>)
    then show ?thesis ..
  next
    case all
    have "same_outside m1 d (a_dataoff ar) (extent ar (b_nfree s) - a_dataoff ar)"
    proof -
      let ?m3 = "md_tail ar lane (md_head ar lane p old m1)"
      have "same_outside ?m3 d (a_dataoff ar) (extent ar (b_nfree s) - a_dataoff ar)" unfolding all full md_map_def
        using G p by (intro outside_mono [OF outside_put]) (auto simp: extent_def off_map_def)
      then show ?thesis by (rule outside_trans [OF out [OF outside_tail]])
    qed
    then have "stored d s" using stored_outside [OF _ a] d1 ar by blast
    then have "stored d s'" unfolding s'_def by (rule stored_after [OF _ a])
    then have "reopens d sz s (\<lambda>x. if x = lba then Some buf else abs_block m s x)"
      using W sz all by (intro reopens_settled [where s' = s']) (auto simp: same_handle_def s'_def)
    then show ?thesis ..
  qed
qed

end
