(* ===== verification/BttFormat.thy ===== *)
theory BttFormat
  imports BttCrash
begin

text \<open>
  Writing the layout of a namespace of one arena (\<^verbatim>\<open>write_layout\<close>): the metadata it leaves on the media is
  what opening the namespace expects, the invariant holds, and every block reads as zeros.
\<close>

section \<open>The bytes of the info block\<close>

definition info_fits :: "btt_info \<Rightarrow> bool" where
  "info_fits i \<longleftrightarrow> length (i_sig i) = 16 \<and> length (i_uuid i) = 16 \<and> length (i_parent_uuid i) = 16
     \<and> length (i_unused i) = 3968 \<and> i_major i < 2 ^ 16 \<and> i_minor i < 2 ^ 16 \<and> i_external_lbasize i < 2 ^ 32
     \<and> i_external_nlba i < 2 ^ 32 \<and> i_internal_lbasize i < 2 ^ 32 \<and> i_internal_nlba i < 2 ^ 32 \<and> i_nfree i < 2 ^ 32
     \<and> i_infosize i < 2 ^ 32 \<and> i_nextoff i < 2 ^ 64 \<and> i_dataoff i < 2 ^ 64 \<and> i_mapoff i < 2 ^ 64
     \<and> i_flogoff i < 2 ^ 64 \<and> i_infooff i < 2 ^ 64"

lemma length_info_to_bytes: "info_fits i \<Longrightarrow> length (info_to_bytes i) = 4096"
  by (simp add: info_fits_def info_to_bytes_def)

lemma get_bytes_skip: "length xs \<le> off \<Longrightarrow> get_bytes off n (xs @ ys) = get_bytes (off - length xs) n ys"
  by (simp add: get_bytes_def)

lemma get_bytes_head: "length xs = n \<Longrightarrow> get_bytes 0 n (xs @ ys) = xs"
  by (simp add: get_bytes_def)

lemma get_bytes_all: "length xs = n \<Longrightarrow> get_bytes 0 n xs = xs"
  by (simp add: get_bytes_def)

lemma info_roundtrip:
  assumes "info_fits i"
  shows "info_of_bytes (info_to_bytes i) = i"
  using assms
  by (simp add: info_fits_def info_of_bytes_def info_to_bytes_def get_bytes_skip get_bytes_head get_bytes_all of_le_to_le)

lemma le_n_fits:
  assumes "info_fits i"
  shows "btt_info_convert2le i = i" "btt_info_convert2h i = i"
  using assms by (simp_all add: info_fits_def btt_info_convert2le_def btt_info_convert2h_def le_n)

text \<open>Inserting the checksum changes the last eight bytes only, and makes it valid.\<close>

lemma info_checksum:
  assumes "info_fits i"
  obtains b where "util_checksum_insert (info_to_bytes i) INFO_CHECKSUM_OFF 0 = Inr b" "length b = 4096"
    and "util_checksum_check b INFO_CHECKSUM_OFF 0 = Inr True"
    and "info_of_bytes b = i \<lparr> i_checksum := i_checksum (info_of_bytes b) \<rparr>"
proof -
  note l = length_info_to_bytes [OF assms]
  obtain b where b: "util_checksum_insert (info_to_bytes i) INFO_CHECKSUM_OFF 0 = Inr b" "length b = length (info_to_bytes i)"
    "util_checksum_check b INFO_CHECKSUM_OFF 0 = Inr True"
    using checksum_insert_check [of "info_to_bytes i" INFO_CHECKSUM_OFF 0] l by (auto simp: INFO_CHECKSUM_OFF_def)
  then obtain c :: "64 word" where "b = put_bytes 4088 (to_le 8 c) (info_to_bytes i)"
    by (auto simp: util_checksum_insert_def INFO_CHECKSUM_OFF_def)
  then have same: "get_bytes off n b = get_bytes off n (info_to_bytes i)" if "off + n \<le> 4088" for off n
    using that l by (simp add: get_bytes_put_other)
  have "info_of_bytes b = (info_of_bytes (info_to_bytes i)) \<lparr> i_checksum := i_checksum (info_of_bytes b) \<rparr>"
    by (simp add: info_of_bytes_def same)
  then show thesis using that [OF b(1)] b(2,3) l info_roundtrip [OF assms] by simp
qed

section \<open>The initial flog\<close>

definition init_entry :: "nat \<Rightarrow> 32 word" where "init_entry b = of_nat b OR BTT_MAP_ENTRY_ZERO"

definition init_flog :: "nat \<Rightarrow> nat \<Rightarrow> btt_flog" where
  "init_flog ext i = \<lparr> f_lba = of_nat i, f_old_map = init_entry (ext + i), f_new_map = init_entry (ext + i), f_seq = 1 \<rparr>"

lemma flog_to_bytes_put: "n = 16 \<Longrightarrow> get_at (put_at off (flog_to_bytes f) m) off n = flog_to_bytes f"
  by simp

context namespace
begin

lemma write_flogs_ok:
  assumes "b_ns_cbp s = cb" "ready (b_ns s)" "64 dvd F" "F + 64 * nf \<le> nssize (b_ns s)" "ext + nf < 2 ^ 32" "k \<le> nf"
  shows "\<exists>n'. write_flogs lane (F + 64 * k) (ext + k) [k..<nf] s = (Inr (), s \<lparr> b_ns := n' \<rparr>)
    \<and> ready n' \<and> nssize n' = nssize (b_ns s)
    \<and> same_outside (content (b_ns s)) (content n') (F + 64 * k) (64 * (nf - k))
    \<and> (\<forall>i. k \<le> i \<and> i < nf \<longrightarrow> flog_at (content n') (F + 64 * i) = init_flog ext i
          \<and> flog_at (content n') (F + 64 * i + 16) = Zflog)"
  using assms
proof (induction "nf - k" arbitrary: k s)
  case 0
  then have "nf = k" by simp
  then show ?case using 0 by (intro exI [of _ "b_ns s"]) (auto simp: act_defs)
next
  case (Suc d)
  note P = Suc.prems
  have k: "k < nf" using Suc.hyps(2) by simp
  have small: "nssize (b_ns s) < 2 ^ 63" by (rule size_law [OF P(2)])
  let ?o = "F + 64 * k" and ?f = "init_flog ext k"
  have fit: "?o + 64 \<le> nssize (b_ns s)" using P(4) k by simp
  define n1 where "n1 = written cb lane (flog_to_bytes ?f) ?o (b_ns s)"
  define n2 where "n2 = written cb lane (flog_to_bytes Zflog) (?o + 16) n1"
  note W1 = written_laws [OF P(2), of ?o "flog_to_bytes ?f" lane, folded n1_def]
  have W1: "nswrite cb (b_ns s) lane (flog_to_bytes ?f) ?o = (Inr (), n1)"
    "content n1 = put_at ?o (flog_to_bytes ?f) (content (b_ns s))" "nssize n1 = nssize (b_ns s)" "ready n1"
    using W1 fit by simp_all
  have W2: "nswrite cb n1 lane (flog_to_bytes Zflog) (?o + 16) = (Inr (), n2)"
    "content n2 = put_at (?o + 16) (flog_to_bytes Zflog) (content n1)" "nssize n2 = nssize (b_ns s)" "ready n2"
    using written_laws [OF W1(4), of "?o + 16" "flog_to_bytes Zflog" lane, folded n2_def] fit W1(3) by simp_all
  have c64: "u64 (?o + 16) = ?o + 16" "u64 (?o + 32) = ?o + 32" "roundup64 (?o + 32) 64 = F + 64 * Suc k"
  proof -
    show "u64 (?o + 16) = ?o + 16" "u64 (?o + 32) = ?o + 32" using fit small by (intro u64_id; simp)+
    obtain j where "F = 64 * j" using P(3) by blast
    then have "u64 (?o + 32 + 63) = 64 * (j + k + 1) + 31" using fit small by (subst u64_id) (simp_all add: algebra_simps)
    then have "roundup64 (?o + 32) 64 = (64 * (j + k + 1) + 31) div 64 * 64" by (simp add: roundup64_def)
    also have "\<dots> = 64 * (j + k + 1)" by (simp only: div_mult_self4 div_mult_self1) simp
    finally show "roundup64 (?o + 32) 64 = F + 64 * Suc k" by (simp add: \<open>F = 64 * j\<close>)
  qed
  have u: "u32 (ext + k + 1) = ext + Suc k" using P(5) k by (subst u32_id) simp_all
  have head: "write_flogs lane ?o (ext + k) [k..<nf] s = write_flogs lane (F + 64 * Suc k) (ext + Suc k) [Suc k..<nf] (s \<lparr> b_ns := n2 \<rparr>)"
    using k W1(1) W2(1) P(1) c64 c64(2,3) [unfolded add.commute [of ?o]] u
    by (simp add: upt_conv_Cons ns_write_def act_defs Let_def btt_sizes init_flog_def init_entry_def)
  obtain n' where n': "write_flogs lane (F + 64 * Suc k) (ext + Suc k) [Suc k..<nf] (s \<lparr> b_ns := n2 \<rparr>) = (Inr (), s \<lparr> b_ns := n' \<rparr>)"
    "ready n'" "nssize n' = nssize (b_ns s)" "same_outside (content n2) (content n') (F + 64 * Suc k) (64 * (nf - Suc k))"
    "\<And>i. Suc k \<le> i \<Longrightarrow> i < nf \<Longrightarrow> flog_at (content n') (F + 64 * i) = init_flog ext i
          \<and> flog_at (content n') (F + 64 * i + 16) = Zflog"
  proof -
    have d: "d = nf - Suc k" using Suc.hyps(2) by simp
    show thesis using Suc.hyps(1) [of "Suc k" "s \<lparr> b_ns := n2 \<rparr>", OF d] P k W2 that by auto
  qed
  have out: "same_outside (content (b_ns s)) (content n') ?o (64 * (nf - k))"
  proof -
    have "same_outside (content (b_ns s)) (content n1) ?o (64 * (nf - k))" "same_outside (content n1) (content n2) ?o (64 * (nf - k))"
      "same_outside (content n2) (content n') ?o (64 * (nf - k))"
      using k unfolding W1(2) W2(2)
      by (auto intro!: outside_mono [OF outside_put] outside_mono [OF n'(4) [unfolded W2(2) W1(2)]])
    then show ?thesis by (meson outside_trans)
  qed
  have here: "flog_at (content n') ?o = ?f" "flog_at (content n') (?o + 16) = Zflog"
  proof -
    have ag: "agree (content n') (content n2) ?o (?o + 64)"
      using k by (intro outside_agree [OF outside_sym [OF n'(4)]]) simp
    have "flog_at (content n') ?o = flog_at (content n2) ?o" by (rule flog_at_agree [OF ag]) simp_all
    also have "\<dots> = flog_at (content n1) ?o" unfolding W2(2) by (simp add: flog_at_def)
    finally show "flog_at (content n') ?o = ?f" by (simp add: W1(2))
    have "flog_at (content n') (?o + 16) = flog_at (content n2) (?o + 16)" by (rule flog_at_agree [OF ag]) simp_all
    then show "flog_at (content n') (?o + 16) = Zflog" by (simp add: W2(2))
  qed
  have all: "flog_at (content n') (F + 64 * i) = init_flog ext i \<and> flog_at (content n') (F + 64 * i + 16) = Zflog"
    if "k \<le> i" "i < nf" for i
    using n'(5) [of i] here that by (cases "i = k") auto
  show ?case using head n'(1-3) out all by (intro exI [of _ n']) auto
qed

end

section \<open>A fresh arena\<close>

definition fresh_arena :: "btt_info \<Rightarrow> nat \<Rightarrow> arena" where
  "fresh_arena i nf = \<lparr> a_flags = i_flags i, a_external_nlba = i_external_nlba i, a_internal_lbasize = i_internal_lbasize i,
     a_internal_nlba = i_internal_nlba i, a_startoff = 0, a_dataoff = i_dataoff i, a_mapoff = i_mapoff i,
     a_flogoff = i_flogoff i, a_nextoff = i_nextoff i,
     a_flogs = map (\<lambda>k. \<lparr> r_flog = init_flog (i_external_nlba i) k,
       r_entries = [i_flogoff i + 64 * k, i_flogoff i + 64 * k + 16], r_next = 1 \<rparr>) [0..<nf],
     a_rtt = replicate nf BTT_MAP_ENTRY_ERROR, a_map_locks = replicate nf False, a_info_lock = False \<rparr>"

lemma lbaof_init: "b < 2 ^ 30 \<Longrightarrow> lbaof (init_entry b) = b"
proof -
  assume b: "b < 2 ^ 30"
  have z: "BTT_MAP_ENTRY_ZERO AND BTT_MAP_ENTRY_LBA_MASK = 0" by (simp add: btt_flags)
  have "(x OR BTT_MAP_ENTRY_ZERO) AND BTT_MAP_ENTRY_LBA_MASK = x AND BTT_MAP_ENTRY_LBA_MASK" for x
    unfolding bit.conj_disj_distrib2 z by simp
  then have "lbaof (init_entry b) = lbaof (of_nat b)" by (simp add: lbaof_def init_entry_def)
  then show ?thesis using b by (simp add: lbaof_small)
qed

definition fresh_media :: "(nat \<Rightarrow> byte) \<Rightarrow> btt_info \<Rightarrow> nat \<Rightarrow> bool" where
  "fresh_media m i nf \<longleftrightarrow> agree m (\<lambda>_. 0) (i_mapoff i) (i_mapoff i + 4 * i_external_nlba i)
     \<and> (\<forall>k < nf. flog_at m (i_flogoff i + 64 * k) = init_flog (i_external_nlba i) k
              \<and> flog_at m (i_flogoff i + 64 * k + 16) = Zflog)"

lemma fresh_geom:
  assumes lay: "layout_ok i R" "i_nfree i = nf" "0 < nf" "R \<le> sz" "sz < 2 ^ 63" "8 dvd R" "i_external_lbasize i = lbasize"
  shows "geom_ok (fresh_arena i nf) nf lbasize sz"
proof -
  note L = lay(1) [unfolded layout_ok_def btt_sizes]
  have d8: "8 dvd x" if "4096 dvd i_infooff i - x" "x \<le> i_infooff i" for x
  proof -
    have "8 dvd i_infooff i + 4096" using lay(6) L by simp
    then have "8 dvd (4096::nat)" "8 dvd i_infooff i" by (simp_all add: dvd_add_left_iff)
    then have "8 dvd i_infooff i - x" using that(1) dvd_trans by blast
    then show ?thesis using \<open>8 dvd i_infooff i\<close> that(2) by (metis dvd_diffD1)
  qed
  have "8 dvd i_flogoff i" "8 dvd i_mapoff i" using L by (auto intro!: d8)
  then have "8 dvd i_flogoff i" "4 dvd i_mapoff i" using dvd_trans [of 4 8 "i_mapoff i"] by simp_all
  moreover have "i_flogoff i + 64 * nf \<le> sz" "i_mapoff i + 4 * i_external_nlba i \<le> i_flogoff i"
    "i_internal_nlba i \<le> 2 ^ 30" "i_external_nlba i + nf \<le> i_internal_nlba i" using lay(2,4) L by linarith+
  ultimately show ?thesis using lay(3,5,7) L
    by (simp add: geom_ok_def fresh_arena_def MAXB_def extent_def btt_sizes)
qed

lemma fresh_entry:
  assumes "fresh_media m i nf" "p < i_external_nlba i"
  shows "entry_at m (fresh_arena i nf) p = 0"
proof -
  have "entry_at m (fresh_arena i nf) p = word_at (\<lambda>_. 0) (off_map (fresh_arena i nf) p)"
    unfolding entry_at_def using assms
    by (intro agree_word [where lo = "i_mapoff i" and hi = "i_mapoff i + 4 * i_external_nlba i"])
      (auto simp: fresh_media_def off_map_def fresh_arena_def)
  then show ?thesis by simp
qed

lemma fresh_media_ok:
  assumes lay: "layout_ok i R" "i_nfree i = nf" and m: "fresh_media m i nf"
  shows "media_ok m (fresh_arena i nf) nf" "idle (fresh_arena i nf) nf"
    and "p < i_external_nlba i \<Longrightarrow> block_at m (fresh_arena i nf) lbasize p = Some (replicate lbasize 0)"
proof -
  let ?ar = "fresh_arena i nf" and ?e = "i_external_nlba i"
  note L = lay(1) [unfolded layout_ok_def btt_sizes]
  have b: "?e + nf = i_internal_nlba i" "i_internal_nlba i < 2 ^ 30" "nf \<le> ?e" using L lay(2) by simp_all
  have fl: "flog_ok m ?ar k" if k: "k < nf" for k
    using m k b by (simp add: flog_ok_def fresh_media_def fresh_arena_def off_flog_def btt_flog_get_valid_def Let_def
        init_flog_def Zflog_def unat_of_nat)
  have "post m ?ar q = q" if "q < ?e" for q
    using fresh_entry [OF m that] that b by (simp add: post_def norm_entry_def map_entry_is_initial_def lbaof_small)
  moreover have "map free_of (a_flogs ?ar) = map (\<lambda>k. k + ?e) [0..<nf]"
    using b by (simp add: fresh_arena_def free_of_def init_flog_def lbaof_init)
  moreover from calculation have "map (post m ?ar) [0..<?e] = [0..<?e]" by (intro map_idI) simp
  moreover have "a_external_nlba ?ar = ?e" by (simp add: fresh_arena_def)
  ultimately have "blocks m ?ar = [0..<?e] @ [?e..<?e + nf]"
    by (simp only: blocks_def map_add_upt) (simp add: add.commute)
  also have "\<dots> = [0..<i_internal_nlba i]" using upt_add_eq_append [of 0 ?e nf] b by simp
  finally have "blocks m ?ar = [0..<i_internal_nlba i]" .
  then show "media_ok m ?ar nf" using fl by (auto simp: media_ok_def fresh_arena_def)
  show "idle ?ar nf" by (simp add: idle_def fresh_arena_def)
  assume "p < ?e"
  then show "block_at m ?ar lbasize p = Some (replicate lbasize 0)"
    using fresh_entry [OF m] by (simp add: block_at_def map_entry_is_error_def map_entry_is_zero_or_initial_def btt_flags Let_def)
qed

section \<open>Writing one arena\<close>

lemma sub64_le:
  assumes "sub64 x y \<le> x" "x < 2 ^ 64" "y < 2 ^ 64"
  shows "sub64 x y + y = x"
proof -
  have "y \<le> x"
  proof (rule ccontr)
    assume "\<not> y \<le> x"
    then have "sub64 x y = x + (2 ^ 64 - y)" using assms(2,3) by (simp add: sub64_def)
    then show False using assms(1,3) by simp
  qed
  then show ?thesis using assms(2) by (simp add: sub64_id)
qed

lemma set_offs_map:
  assumes "btt_info_set_offs p R sp = Inr i" "layout_ok i R" "R \<le> BTT_MAX_ARENA"
  shows "i_mapoff i + btt_map_size (i_external_nlba i) = i_flogoff i" "4 * i_external_nlba i \<le> btt_map_size (i_external_nlba i)"
proof -
  note L = assms(2) [unfolded layout_ok_def btt_sizes]
  have "i_external_nlba i < 2 ^ 30" using L by simp
  note B = btt_map_size_bounds [OF this]
  show "4 * i_external_nlba i \<le> btt_map_size (i_external_nlba i)" using B by simp
  have "i_mapoff i = sub64 (i_flogoff i) (btt_map_size (i_external_nlba i))"
    using assms(1) by (auto simp: btt_info_set_offs_def Let_def sbind_def split: sum.splits)
  moreover have "i_flogoff i < 2 ^ 64" using L assms(3) by (simp add: btt_sizes)
  ultimately show "i_mapoff i + btt_map_size (i_external_nlba i) = i_flogoff i"
    using sub64_le [of "i_flogoff i" "btt_map_size (i_external_nlba i)"] B L by simp
qed

definition named_info :: "byte list \<Rightarrow> byte list \<Rightarrow> btt_info \<Rightarrow> btt_info" where
  "named_info u parent i = i \<lparr> i_sig := BTTINFO_SIG, i_uuid := u, i_parent_uuid := parent,
     i_major := BTTINFO_MAJOR_VERSION, i_minor := BTTINFO_MINOR_VERSION \<rparr>"

lemma info_set_parts:
  assumes set: "btt_info_set i0 e nf R sp = Inr i" and e: "e < 2 ^ 32" and nf: "nf \<le> 65536"
    and R: "BTT_MIN_SIZE \<le> R" "R \<le> BTT_MAX_ARENA"
  obtains p where "calc_internal_lbasize e \<noteq> 0" "btt_info_set_params i0 e (calc_internal_lbasize e) nf R = Inr p"
    "btt_info_set_offs p R sp = Inr i" "i_external_nlba p = i_external_nlba i" "layout_ok i R" "i_nfree i = nf"
    "i_external_lbasize i = e" "i_nextoff i = (if sp \<ge> BTT_MIN_SIZE then R else 0)" "i_internal_lbasize i < 2 ^ 32"
    "i_infosize i = SIZEOF_BTT_INFO" "i_unused i = i_unused i0" "i_flags i = i_flags i0" "i_checksum i = i_checksum i0"
proof -
  obtain p where p: "calc_internal_lbasize e \<noteq> 0" "btt_info_set_params i0 e (calc_internal_lbasize e) nf R = Inr p"
    "btt_info_set_offs p R sp = Inr i"
    using set by (auto simp: btt_info_set_def Let_def fail_with_def sbind_def split: if_splits sum.splits)
  have P: "i_infosize p = SIZEOF_BTT_INFO" "i_unused p = i_unused i0" "i_flags p = i_flags i0" "i_checksum p = i_checksum i0"
    using p(2) by (auto simp: btt_info_set_params_def Let_def fail_with_def sbind_def split: if_splits sum.splits)
  have I: "i_infosize i = i_infosize p" "i_unused i = i_unused p" "i_flags i = i_flags p" "i_checksum i = i_checksum p"
    "i_external_nlba i = i_external_nlba p"
    using p(3) by (auto simp: btt_info_set_offs_def Let_def sbind_def split: sum.splits)
  have S: "layout_ok i R" "i_nfree i = nf" "i_external_lbasize i = e" "i_internal_lbasize i = calc_internal_lbasize e"
    "i_nextoff i = (if sp \<ge> BTT_MIN_SIZE then R else 0)"
    using btt_info_set_ok [OF e nf R, of i0 sp] set by auto
  have "i_internal_lbasize i < 2 ^ 32" using internal_lbasize_bounds(3) [OF refl p(1) e] S by simp
  then show thesis using that [of p] p P I S by auto
qed

lemma named_fits:
  assumes lay: "layout_ok i R" "R \<le> BTT_MAX_ARENA" and "i_nfree i \<le> 65536" "i_external_lbasize i < 2 ^ 32"
    "i_internal_lbasize i < 2 ^ 32" "i_infosize i = SIZEOF_BTT_INFO" "length (i_unused i) = 3968" "i_nextoff i \<le> R"
    and u: "length u = 16" "length parent = 16"
  shows "info_fits (named_info u parent i)"
  using assms
  by (simp add: info_fits_def named_info_def layout_ok_def BTTINFO_SIG_def BTTINFO_MAJOR_VERSION_def
      BTTINFO_MINOR_VERSION_def btt_sizes)

context namespace
begin


text \<open>The map of a fresh arena reads as zeros, by the namespace's promise or by the call that zeroes it.\<close>

lemma zero_map_ok:
  assumes cb: "b_ns_cbp s = cb" "ready (b_ns s)" and fit: "off + n \<le> nssize (b_ns s)"
    and z: "ns_is_zeroed cb \<Longrightarrow> agree (content (b_ns s)) (\<lambda>_. 0) off (off + n)"
  obtains n1 where "(if ns_is_zeroed (b_ns_cbp s) then aret () else ns_zero lane n off) s = (Inr (), s \<lparr> b_ns := n1 \<rparr>)"
    "ready n1" "nssize n1 = nssize (b_ns s)" "agree (content n1) (\<lambda>_. 0) off (off + n)"
proof (cases "ns_is_zeroed cb")
  case True
  then show ?thesis using that [of "b_ns s"] cb z by (simp add: aret_def)
next
  case False
  obtain n1 where n1: "nszero cb (b_ns s) lane n off = (Inr (), n1)" "content n1 = put_at off (replicate n 0) (content (b_ns s))"
    "nssize n1 = nssize (b_ns s)" "ready n1"
    using zero_law [OF cb(2) fit, of lane] by blast
  have "agree (content n1) (\<lambda>_. 0) off (off + n)" unfolding n1(2) by (auto simp: agree_def put_at_def)
  then show ?thesis using that [of n1] n1 cb False by (simp add: ns_zero_def)
qed

lemma write_arena_ok:
  assumes cb: "b_ns_cbp s = cb" "ready (b_ns s)" and nf: "nf = b_nfree s" "nf \<le> 65536" "0 < nf"
    and R: "BTT_MIN_SIZE \<le> R" "R \<le> BTT_MAX_ARENA" "64 dvd R" "R \<le> nssize (b_ns s)"
    and offs: "btt_info_set_offs p R sp = Inr i" and lay: "layout_ok i R" "i_nfree i = nf"
    and fits: "info_fits (named_info (b_uuid s) (b_parent_uuid s) i)" and nx: "i_nextoff i = 0"
    and z: "ns_is_zeroed cb \<Longrightarrow> agree (content (b_ns s)) (\<lambda>_. 0) (i_mapoff i) (i_flogoff i)"
  obtains n' b where "write_arena lane 0 p R sp s = (Inr 0, s \<lparr> b_ns := n' \<rparr>)" "ready n'" "nssize n' = nssize (b_ns s)"
    "fresh_media (content n') i nf" "get_at (content n') 0 4096 = b" "util_checksum_check b INFO_CHECKSUM_OFF 0 = Inr True"
    "info_of_bytes b = (named_info (b_uuid s) (b_parent_uuid s) i) \<lparr> i_checksum := i_checksum (info_of_bytes b) \<rparr>"
proof -
  let ?e = "i_external_nlba i" and ?F = "i_flogoff i" and ?I = "named_info (b_uuid s) (b_parent_uuid s) i"
  note L = lay(1) [unfolded layout_ok_def btt_sizes] and M = set_offs_map [OF offs lay(1) R(2)]
  have small: "R < 2 ^ 63" using R(2) by (simp add: btt_sizes)
  define Z where "Z = btt_map_size ?e"
  have Z: "i_mapoff i + Z = ?F" "4 * ?e \<le> Z" "?F + 64 * nf \<le> i_infooff i" "i_infooff i + 4096 = R"
    using M L lay(2) by (simp_all add: Z_def)
  obtain n1 where n1: "(if ns_is_zeroed (b_ns_cbp s) then aret () else ns_zero lane Z (i_mapoff i)) s = (Inr (), s \<lparr> b_ns := n1 \<rparr>)"
    "ready n1" "nssize n1 = nssize (b_ns s)" "agree (content n1) (\<lambda>_. 0) (i_mapoff i) ?F"
    using zero_map_ok [of s "i_mapoff i" Z lane] cb z Z R(4) by auto
  have F64: "64 dvd ?F"
  proof -
    have "4096 dvd i_infooff i - ?F" "?F \<le> i_infooff i" using L by auto
    then obtain c where "i_infooff i = ?F + 4096 * c" by (metis dvdE le_add_diff_inverse)
    then have "R = ?F + 64 * (64 * c + 64)" using Z(4) by simp
    then show ?thesis using R(3) by (metis dvd_add_left_iff dvd_triv_left)
  qed
  obtain n2 where n2: "write_flogs lane ?F ?e [0..<nf] (s \<lparr> b_ns := n1 \<rparr>) = (Inr (), s \<lparr> b_ns := n2 \<rparr>)" "ready n2"
    "nssize n2 = nssize (b_ns s)" "same_outside (content n1) (content n2) ?F (64 * nf)"
    "\<And>k. k < nf \<Longrightarrow> flog_at (content n2) (?F + 64 * k) = init_flog ?e k \<and> flog_at (content n2) (?F + 64 * k + 16) = Zflog"
    using write_flogs_ok [of "s \<lparr> b_ns := n1 \<rparr>" ?F nf ?e 0 lane] cb n1 F64 Z R(4) L lay(2) by auto
  obtain b where b: "util_checksum_insert (info_to_bytes ?I) INFO_CHECKSUM_OFF 0 = Inr b" "length b = 4096"
    "util_checksum_check b INFO_CHECKSUM_OFF 0 = Inr True" "info_of_bytes b = ?I \<lparr> i_checksum := i_checksum (info_of_bytes b) \<rparr>"
    using info_checksum [OF fits] by blast
  define n3 where "n3 = written cb lane b 0 n2"
  define n4 where "n4 = written cb lane b (i_infooff i) n3"
  have W3: "nswrite cb n2 lane b 0 = (Inr (), n3)" "content n3 = put_at 0 b (content n2)" "nssize n3 = nssize (b_ns s)" "ready n3"
    using written_laws [OF n2(2), of 0 b lane, folded n3_def] n2(3) b(2) Z R(4) by simp_all
  have W4: "nswrite cb n3 lane b (i_infooff i) = (Inr (), n4)" "content n4 = put_at (i_infooff i) b (content n3)"
    "nssize n4 = nssize (b_ns s)" "ready n4"
    using written_laws [OF W3(4), of "i_infooff i" b lane, folded n4_def] W3(3) b(2) Z R(4) by simp_all
  have io: "i_dataoff i = 4096" "4096 \<le> i_mapoff i" using L by simp_all
  have mid: "agree (content n4) (content n2) 4096 (i_infooff i)"
    unfolding W4(2) W3(2) using b(2) Z by (auto simp: agree_def put_at_def)
  have run: "write_arena lane 0 p R sp s = (Inr 0, s \<lparr> b_ns := n4 \<rparr>)"
  proof -
    have "u64 ?F = ?F" "u64 (i_infooff i) = i_infooff i" using Z small by simp_all
    then have "write_arena lane 0 p R sp s =
      abind (if ns_is_zeroed (b_ns_cbp s) then aret () else ns_zero lane Z (i_mapoff i)) (\<lambda>_.
      abind (write_flogs lane ?F ?e [0..<nf]) (\<lambda>_. abind (ns_write lane b 0) (\<lambda>_. abind (ns_write lane b (i_infooff i)) (\<lambda>_. aret 0)))) s"
      using b(1) nf(1) nx
      by (simp add: write_arena_def act_run offs Let_def Z_def flip: named_info_def) (simp add: le_n_fits [OF fits], simp add: named_info_def act_eval)
    also have "\<dots> = (Inr 0, s \<lparr> b_ns := n4 \<rparr>)"
      by (rule trans [OF abind_ok], rule n1(1)) (use n2(1) W3(1) W4(1) cb in \<open>simp add: act_defs ns_write_def\<close>)
    finally show ?thesis .
  qed
  have "fresh_media (content n4) i nf"
  proof -
    have "agree (content n4) (\<lambda>_. 0) (i_mapoff i) (i_mapoff i + 4 * ?e)"
    proof -
      have "agree (content n4) (content n2) (i_mapoff i) ?F" using io Z by (intro agree_mono [OF mid]) auto
      moreover have "agree (content n2) (content n1) (i_mapoff i) ?F" by (intro outside_agree [OF outside_sym [OF n2(4)]]) simp
      ultimately have "agree (content n4) (\<lambda>_. 0) (i_mapoff i) ?F" using n1(4) by (auto simp: agree_def)
      then show ?thesis using Z by (elim agree_mono) auto
    qed
    moreover have "flog_at (content n4) o' = flog_at (content n2) o'" if "?F \<le> o'" "o' + 16 \<le> ?F + 64 * nf" for o'
      using that io Z by (intro flog_at_agree [OF mid]) auto
    ultimately show ?thesis using n2(5) by (auto simp: fresh_media_def)
  qed
  moreover have "get_at (content n4) 0 4096 = b" unfolding W4(2) W3(2) using b(2) io Z by simp
  ultimately show ?thesis using that [OF run W4(4,3)] b(3,4) by blast
qed

end

section \<open>Writing the layout\<close>

text \<open>A handle that has not laid out its namespace yet, over a single arena that a table fits in.\<close>

definition blank :: "'n btt \<Rightarrow> btt_info \<Rightarrow> bool" where
  "blank s i \<longleftrightarrow> 0 < b_nfree s \<and> b_nfree s \<le> BTT_DEFAULT_NFREE \<and> 0 < b_nlane s \<and> b_nlane s \<le> b_nfree s
     \<and> b_lbasize s < 2 ^ 32 \<and> length (b_parent_uuid s) = 16
     \<and> BTT_MIN_SIZE \<le> b_rawsize s \<and> b_rawsize s \<le> BTT_MAX_ARENA \<and> 64 dvd b_rawsize s
     \<and> btt_info_set zero_info (b_lbasize s) (b_nfree s) (b_rawsize s) 0 = Inr i"

lemma of_le_zeros: "of_le (replicate 4 0) = (0 :: 32 word)"
  by (simp add: numeral_eq_Suc)

lemma zero_info_fields: "i_unused zero_info = replicate 3968 0" "i_flags zero_info = 0"
  by (simp_all add: zero_info_def info_of_bytes_def get_bytes_def of_le_zeros)

definition formatted :: "'n btt \<Rightarrow> btt_info \<Rightarrow> byte list \<Rightarrow> 'n \<Rightarrow> 'n btt" where
  "formatted s i u n = s \<lparr> b_uuid := u, b_narena := 1, b_nlba := i_external_nlba i, b_arenas := [fresh_arena i (b_nfree s)],
     b_laidout := True, b_ns := n \<rparr>"

context namespace
begin

lemma write_layout_ok:
  assumes cb: "b_ns_cbp s = cb" "ready (b_ns s)" and mem: "b_allocs s = []" and gen: "b_uuid_gen s = Inr u" "length u = 16"
    and lane: "lane < b_nfree s" and bl: "blank s i" and fit: "b_rawsize s \<le> nssize (b_ns s)"
    and z: "ns_is_zeroed cb \<Longrightarrow> agree (content (b_ns s)) (\<lambda>_. 0) (i_mapoff i) (i_flogoff i)"
  obtains n' where "write_layout lane True s = (Inr (), formatted s i u n')" "ready n'" "nssize n' = nssize (b_ns s)"
    "btt_ok (content n') (nssize n') ((formatted s i u n') \<lparr> b_layout_write_mutex := False \<rparr>)" "stored (content n') (formatted s i u n')"
    "\<And>x. x < i_external_nlba i \<Longrightarrow> abs_block (content n') (formatted s i u n') x = Some (replicate (b_lbasize s) 0)"
proof -
  note B = bl [unfolded blank_def]
  let ?nf = "b_nfree s" and ?R = "b_rawsize s" and ?e = "b_lbasize s"
  have nf: "?nf \<le> 65536" using B by (simp add: btt_sizes)
  obtain p where p: "calc_internal_lbasize ?e \<noteq> 0" "btt_info_set_params zero_info ?e (calc_internal_lbasize ?e) ?nf ?R = Inr p"
    "btt_info_set_offs p ?R 0 = Inr i" "i_external_nlba p = i_external_nlba i" and lay: "layout_ok i ?R" "i_nfree i = ?nf"
    and F: "i_external_lbasize i = ?e" "i_nextoff i = 0" "i_internal_lbasize i < 2 ^ 32" "i_infosize i = SIZEOF_BTT_INFO"
    "i_unused i = i_unused zero_info"
    using info_set_parts [of zero_info ?e ?nf ?R 0 i] B nf by (auto simp: btt_sizes)
  note L = lay(1) [unfolded layout_ok_def btt_sizes]
  define s1 where "s1 = s \<lparr> b_uuid := u, b_narena := 1 \<rparr>"
  have fits: "info_fits (named_info (b_uuid s1) (b_parent_uuid s1) i)"
    using named_fits [OF lay(1), of u "b_parent_uuid s"] B F nf lay(2) gen(2)
    by (simp add: s1_def zero_info_fields)
  obtain n' b where w: "write_arena lane 0 p ?R 0 s1 = (Inr 0, s1 \<lparr> b_ns := n' \<rparr>)" "ready n'" "nssize n' = nssize (b_ns s)"
    and fm: "fresh_media (content n') i ?nf" and b: "get_at (content n') 0 4096 = b" "util_checksum_check b INFO_CHECKSUM_OFF 0 = Inr True"
    "info_of_bytes b = (named_info u (b_parent_uuid s) i) \<lparr> i_checksum := i_checksum (info_of_bytes b) \<rparr>"
    using write_arena_ok [of s1 ?nf ?R p 0 i lane, OF _ _ _ nf] cb B fit p(3) lay fits F(2) z by (auto simp: s1_def)
  let ?ar = "fresh_arena i ?nf" and ?m = "content n'" and ?ext = "i_external_nlba i"
  have sz: "nssize n' < 2 ^ 63" by (rule size_law [OF w(2)])
  have R64: "?R < 2 ^ 63" using B by (simp add: btt_sizes)
  have "8 dvd ?R" using B dvd_trans [of 8 64 ?R] by simp
  then have g: "geom_ok ?ar ?nf ?e (nssize n')"
    using fresh_geom [OF lay(1), of ?nf "nssize n'" ?e] lay(2) F(1) B fit w(3) sz by simp
  note M = fresh_media_ok [OF lay fm]
  have small: "u64 (i_mapoff i) = i_mapoff i" "u64 (i_flogoff i) = i_flogoff i" "u64 (i_dataoff i) = i_dataoff i"
    using L R64 by simp_all
  have bf: "i_sig (info_of_bytes b) = BTTINFO_SIG" "i_parent_uuid (info_of_bytes b) = b_parent_uuid s"
    "i_major (info_of_bytes b) = 1" "i_flags (info_of_bytes b) = i_flags i" "i_nfree (info_of_bytes b) = i_nfree i"
    "i_external_lbasize (info_of_bytes b) = i_external_lbasize i" "i_external_nlba (info_of_bytes b) = ?ext"
    "i_internal_lbasize (info_of_bytes b) = i_internal_lbasize i" "i_internal_nlba (info_of_bytes b) = i_internal_nlba i"
    "i_nextoff (info_of_bytes b) = i_nextoff i" "i_dataoff (info_of_bytes b) = i_dataoff i"
    "i_mapoff (info_of_bytes b) = i_mapoff i" "i_flogoff (info_of_bytes b) = i_flogoff i"
    by (subst b(3), simp add: named_info_def BTTINFO_MAJOR_VERSION_def)+
  have matches: "info_matches ?m 0 ?ar"
    using b(1) bf small F(2) by (simp add: info_matches_def Let_def fresh_arena_def btt_sizes)
  have valid: "info_valid ?m (b_parent_uuid s) ?e 0"
    using b(1,2) bf F(1) lay(2) L B by (simp add: info_valid_def Let_def btt_sizes)
  have at0: "i_nextoff (info_at ?m 0) = 0" "i_nfree (info_at ?m 0) = ?nf"
    using b(1) bf F(2) lay(2) by (simp_all add: info_at_def btt_sizes)
  have sel: "a_startoff ?ar = 0" "a_external_nlba ?ar = ?ext" "length (a_flogs ?ar) = ?nf" by (simp_all add: fresh_arena_def)
  define s2 where "s2 = s1 \<lparr> b_ns := n', b_nlba := ?ext \<rparr>"
  have ra: "read_arenas lane (length [?ar]) s2 = (Inr (), s2 \<lparr> b_arenas := [?ar], b_laidout := True, b_ns := n' \<rparr>)"
  proof (rule read_arenas_ok [where N = "\<lambda>_. n'" and nf = ?nf and sz = "nssize n'" and lbasize = ?e])
    fix j assume j: "j < length [?ar]"
    show "ready n' \<and> nssize n' = nssize n' \<and> fold (recover_lane cb content lane ([?ar] ! j)) [0..<?nf] n' = n'
        \<and> info_matches ?m (a_startoff ([?ar] ! j)) ([?ar] ! j) \<and> (\<forall>i' < ?nf. flog_ok ?m ([?ar] ! j) i')"
      using j w(2) recover_none [where content = content and n = n', OF g M(1)] matches media_okD(1) [OF M(1)] sel by simp
  qed (use cb mem lane g M(2) sel in \<open>simp_all add: s2_def s1_def\<close>)
  have wa: "write_arenas lane (calc_internal_lbasize ?e) True ?R 0 0 0 s1 = (Inr (1, ?ext), s1 \<lparr> b_ns := n' \<rparr>)"
  proof -
    have "?ext < 2 ^ 64" "0 < BTT_MIN_SIZE" using L by (simp_all add: btt_sizes)
    moreover have "b_lbasize s1 = ?e" "b_nfree s1 = ?nf" by (simp_all add: s1_def)
    moreover have "abind (write_arena lane 0 p ?R 0) f s1 = f 0 (s1 \<lparr> b_ns := n' \<rparr>)" for f :: "nat \<Rightarrow> ('n btt, nat \<times> nat) act"
      by (rule abind_ok, rule w(1))
    ultimately show ?thesis using B w(1) p(2,4)
      by (subst write_arenas.simps) (simp add: Let_def act_run write_arenas.simps [of _ _ _ 0])
  qed
  have na: "u32 (if ?R mod BTT_MAX_ARENA \<ge> BTT_MIN_SIZE then ?R div BTT_MAX_ARENA + 1 else ?R div BTT_MAX_ARENA) = 1"
    using B by (cases "?R = BTT_MAX_ARENA") (simp_all add: btt_sizes)
  have aw: "abind (write_arenas lane (calc_internal_lbasize ?e) True ?R 0 0 0) f s1 = f (1, ?ext) (s1 \<lparr> b_ns := n' \<rparr>)"
    for f :: "nat \<times> nat \<Rightarrow> ('n btt, unit) act" by (rule abind_ok, rule wa)
  have run: "write_layout lane True s = (Inr (), formatted s i u n')"
    using B p(1) gen na aw [unfolded s1_def] ra [unfolded s2_def s1_def]
    by (simp add: write_layout_def act_run Let_def formatted_def)
  have tot: "total_nlba [?ar] = ?ext" by (simp add: total_nlba_def sel)
  have ok: "btt_ok ?m (nssize n') ((formatted s i u n') \<lparr> b_layout_write_mutex := False \<rparr>)"
    using B g M(1,2) tot by (simp add: btt_ok_def formatted_def btt_sizes)
  have st: "stored ?m (formatted s i u n')"
    using B valid matches at0 sel L by (simp add: stored_def formatted_def nfree_of_def nfree_min_def btt_sizes)
  have "abs_block ?m (formatted s i u n') x = Some (replicate ?e 0)" if "x < ?ext" for x
    using that M(3) sel by (simp add: abs_block_def formatted_def)
  then show thesis using that run w(2,3) ok st by blast
qed

end

end
