(* ===== verification/BttLife.thy ===== *)
theory BttLife
  imports BttFormat
begin

text \<open>
  The life of a namespace: opening one that has no layout, the first write to it, which writes the layout,
  and opening it again with everything that was written.
\<close>

section \<open>Writes keep the info blocks\<close>

lemma write_outside_info:
  assumes g: "geom_ok ar nf lbasize sz" and ok: "media_ok m ar nf" and i: "lane < nf" and p: "p < a_external_nlba ar"
    and buf: "length buf = lbasize"
  shows "same_outside m (md_write ar lane p old buf m) (a_dataoff ar) (extent ar nf - a_dataoff ar)"
proof -
  note G = g [unfolded geom_ok_def btt_sizes extent_def]
  note B = block_end [OF g media_okD(3) [OF ok i]] and O = next_off_bounds(3,4) [OF ok i]
  let ?m1 = "put_at (data_of ar lane) buf m" and ?n = "extent ar nf - a_dataoff ar"
  let ?m3 = "md_tail ar lane (md_head ar lane p old ?m1)"
  have 1: "same_outside m ?m1 (a_dataoff ar) ?n"
    using B G buf by (intro outside_mono [OF outside_put]) (auto simp: data_of_def extent_def off_data_def)
  have 2: "same_outside ?m1 ?m3 (a_dataoff ar) ?n"
    using O G by (intro outside_mono [OF outside_tail]) (auto simp: extent_def)
  have 3: "same_outside ?m3 (md_write ar lane p old buf m) (a_dataoff ar) ?n"
    unfolding md_write_def md_map_def
    using G p by (intro outside_mono [OF outside_put]) (auto simp: extent_def off_map_def)
  show ?thesis by (rule outside_trans [OF 1 outside_trans [OF 2 3]])
qed

context namespace
begin

lemma btt_write_stored:
  assumes cb: "b_ns_cbp s = cb" "ready (b_ns s)" and ok: "btt_ok (content (b_ns s)) (nssize (b_ns s)) s"
    and lane: "lane < b_nlane s" and lba: "lba < b_nlba s" and buf: "length buf = b_lbasize s" and wr: "writable s lba"
    and st: "stored (content (b_ns s)) s" and run: "btt_write lane lba buf s = (Inr (), s')"
  shows "stored (content (b_ns s')) s'" "b_rawsize s' = b_rawsize s" "b_parent_uuid s' = b_parent_uuid s"
proof -
  note D = btt_okD [OF ok]
  let ?m = "content (b_ns s)"
  obtain a p where loc: "find_arena 0 (b_arenas s) lba = (a, p)" and a: "a < length (b_arenas s)"
    and p: "p < a_external_nlba (b_arenas s ! a)" using locate_ok [OF ok lba] by metis
  define ar where "ar = b_arenas s ! a"
  have g: "geom_ok ar (b_nfree s) (b_lbasize s) (nssize (b_ns s))" and md: "media_ok ?m ar (b_nfree s)"
    and p': "p < a_external_nlba ar" using D(7-9) [OF a] p by (simp_all add: ar_def)
  have lf: "lane < b_nfree s" using lane D(5) by simp
  define old where "old = norm_entry p (entry_at ?m ar p)"
  define n' where "n' = ns_map cb lane ar p old buf (b_ns s)"
  have err: "a_flags ar AND BTTINFO_FLAG_ERROR_MASK = 0" using wr loc by (simp add: writable_def ar_def)
  have s': "s' = (upd_arena a (\<lambda>ar. after_write ar lane p old) s) \<lparr> b_ns := n' \<rparr>"
    using run unfolding n'_def btt_write_trace [OF cb ok lane lba buf loc ar_def err] old_def [symmetric]
    by (auto simp: upd_arena_def after_write_def ar_def)
  have "content n' = md_write ar lane p old buf ?m"
    unfolding n'_def by (rule content_ns_map [OF cb(2) g md lf p' buf])
  then have "stored (content n') s"
    using stored_outside [OF ok a st] write_outside_info [OF g md lf p' buf, of old] by (simp add: ar_def)
  then show "stored (content (b_ns s')) s'" unfolding s' using stored_after [OF _ a] by simp
  show "b_rawsize s' = b_rawsize s" "b_parent_uuid s' = b_parent_uuid s" by (simp_all add: s')
qed

section \<open>The first write\<close>

lemma first_write:
  assumes cb: "b_ns_cbp s = cb" "ready (b_ns s)" and mem: "b_allocs s = []" and gen: "b_uuid_gen s = Inr u" "length u = 16"
    and bl: "blank s i" "\<not> b_laidout s" "\<not> b_layout_write_mutex s" "b_nlba s = i_external_nlba i"
    and fit: "b_rawsize s \<le> nssize (b_ns s)"
    and z: "ns_is_zeroed cb \<Longrightarrow> agree (content (b_ns s)) (\<lambda>_. 0) (i_mapoff i) (i_flogoff i)"
    and lane: "lane < b_nlane s" and lba: "lba < b_nlba s" and buf: "length buf = b_lbasize s"
  obtains s' where "btt_write lane lba buf s = (Inr (), s')" "b_ns_cbp s' = cb" "ready (b_ns s')"
    "nssize (b_ns s') = nssize (b_ns s)" "btt_ok (content (b_ns s')) (nssize (b_ns s')) s'" "stored (content (b_ns s')) s'"
    "b_nlba s' = b_nlba s" "b_lbasize s' = b_lbasize s" "b_rawsize s' = b_rawsize s" "b_parent_uuid s' = b_parent_uuid s"
    "b_nfree s' = b_nfree s" "\<And>x. x < b_nlba s \<Longrightarrow> writable s' x"
    "\<And>x. x < b_nlba s \<Longrightarrow> abs_block (content (b_ns s')) s' x = Some (if x = lba then buf else replicate (b_lbasize s) 0)"
proof -
  let ?s1 = "s \<lparr> b_layout_write_mutex := True \<rparr>"
  note B = bl(1) [unfolded blank_def]
  have lf: "lane < b_nfree s" using lane B by simp
  have bl1: "blank ?s1 i" using bl(1) by (simp add: blank_def)
  obtain n' where w: "write_layout lane True ?s1 = (Inr (), formatted ?s1 i u n')" "ready n'" "nssize n' = nssize (b_ns s)"
    and ok: "btt_ok (content n') (nssize n') ((formatted ?s1 i u n') \<lparr> b_layout_write_mutex := False \<rparr>)"
    and st: "stored (content n') (formatted ?s1 i u n')"
    and zz: "\<And>x. x < i_external_nlba i \<Longrightarrow> abs_block (content n') (formatted ?s1 i u n') x = Some (replicate (b_lbasize s) 0)"
    using write_layout_ok [of ?s1 u lane i] cb mem gen lf bl1 fit z by auto
  define t where "t = (formatted ?s1 i u n') \<lparr> b_layout_write_mutex := False \<rparr>"
  have T: "b_nfree t = b_nfree s" "b_ns t = n'" "b_ns_cbp t = cb" "b_nlane t = b_nlane s" "b_nlba t = b_nlba s" "b_lbasize t = b_lbasize s"
    "b_rawsize t = b_rawsize s" "b_parent_uuid t = b_parent_uuid s" "b_laidout t"
    using cb bl(4) by (simp_all add: t_def formatted_def)
  have lay: "ensure_layout lane s = (Inr (), t)"
    using bl(2,3) w(1) by (simp add: ensure_layout_def lock_layout_def unlock_layout_def act_defs t_def)
  have same: "btt_write lane lba buf s = btt_write lane lba buf t"
  proof -
    have "ensure_layout lane t = (Inr (), t)" using T(9) by (simp add: ensure_layout_def act_defs)
    then have e: "abind (ensure_layout lane) f s = abind (ensure_layout lane) f t" for f :: "unit \<Rightarrow> ('n btt, unit) act"
      using lay by (simp add: abind_def)
    show ?thesis unfolding btt_write_def act_run invalid_lba_def T(5,6) using bl(4) lba
      by (cases "b_nlba s \<le> lba") (simp_all only: act_run if_True if_False e)
  qed
  have nf: "b_nfree s \<le> 65536" using B by (simp add: btt_sizes)
  have "i_flags i = 0"
    using info_set_parts [of zero_info "b_lbasize s" "b_nfree s" "b_rawsize s" 0 i] B nf by (metis zero_info_fields(2))
  moreover have "find_arena 0 [fresh_arena i (b_nfree s)] x = (0, x)" if "x < b_nlba s" for x
    using that bl(4) by (simp add: fresh_arena_def)
  ultimately have wr: "writable t x" if "x < b_nlba s" for x
    using that by (simp add: writable_def t_def formatted_def) (simp add: fresh_arena_def)
  have okt: "btt_ok (content n') (nssize n') t" using ok by (simp add: t_def)
  have stt: "stored (content n') t" using st by (simp add: t_def stored_def)
  obtain s' where r: "btt_write lane lba buf t = (Inr (), s')" "same_handle t s'" "ready (b_ns s')"
      "nssize (b_ns s') = nssize (b_ns t)" "btt_ok (content (b_ns s')) (nssize (b_ns s')) s'"
    and v: "\<And>x. x < b_nlba t \<Longrightarrow> abs_block (content (b_ns s')) s' x
          = (if x = lba then Some buf else abs_block (content (b_ns t)) t x)"
    using btt_write_ok [of t lane lba buf] T w(2) okt lane lba buf wr by auto
  have S: "stored (content (b_ns s')) s'" "b_rawsize s' = b_rawsize t" "b_parent_uuid s' = b_parent_uuid t"
    using btt_write_stored [of t lane lba buf s'] T w(2) okt lane lba buf wr stt r(1) by simp_all
  have zt: "abs_block (content n') t x = Some (replicate (b_lbasize s) 0)" if "x < i_external_nlba i" for x
    using zz [OF that] by (simp add: t_def abs_block_def formatted_def)
  show thesis
    using that [of s'] r v S T w(3) same zt bl(4) wr by (simp add: same_handle_def)
qed

end

section \<open>Opening a namespace without a layout\<close>

definition unformatted :: "nat \<Rightarrow> nat \<Rightarrow> byte list \<Rightarrow> nat \<Rightarrow> 'n \<Rightarrow> 'n ns_callback \<Rightarrow> failure + byte list \<Rightarrow> nat \<Rightarrow> 'n btt" where
  "unformatted rawsize lbasize parent maxlane n cb gen nlba =
     \<lparr> b_nlane = nlane_of BTT_DEFAULT_NFREE maxlane, b_layout_write_mutex = False, b_laidout = False, b_uuid = replicate 16 0,
       b_parent_uuid = parent, b_rawsize = rawsize, b_lbasize = lbasize, b_nfree = BTT_DEFAULT_NFREE, b_nlba = nlba,
       b_narena = 1, b_arenas = [], b_ns = n, b_ns_cbp = cb, b_allocs = [], b_uuid_gen = gen \<rparr>"

lemma unformatted_blank:
  assumes "BTT_MIN_SIZE \<le> R" "R \<le> BTT_MAX_ARENA" "64 dvd R" "lbasize < 2 ^ 32" "length parent = 16"
    and "btt_info_set zero_info lbasize BTT_DEFAULT_NFREE R 0 = Inr i"
  shows "blank (unformatted R lbasize parent maxlane n cb gen nlba) i"
  using assms by (simp add: blank_def unformatted_def nlane_of_def btt_sizes)

lemma blank_read: "\<not> b_laidout s \<Longrightarrow> lba < b_nlba s \<Longrightarrow> btt_read lane lba s = (Inr (replicate (b_lbasize s) 0), s)"
  by (simp add: btt_read_def act_defs invalid_lba_def zero_block_def)

context namespace
begin

lemma unformatted_init:
  assumes rd: "ready n" and R: "BTT_MIN_SIZE \<le> R" "R \<le> BTT_MAX_ARENA" "R \<le> nssize n" and e: "lbasize < 2 ^ 32"
    and set: "btt_info_set zero_info lbasize BTT_DEFAULT_NFREE R 0 = Inr i"
    and sig: "i_sig (info_at (content n) 0) \<noteq> BTTINFO_SIG"
  shows "btt_init R lbasize parent maxlane n cb [] gen
    = (Inr (unformatted R lbasize parent maxlane n cb gen (i_external_nlba i)), n)"
proof -
  let ?nf = BTT_DEFAULT_NFREE
  define s1 where "s1 = (btt_zalloc n cb [] gen) \<lparr> b_parent_uuid := parent, b_rawsize := R, b_lbasize := lbasize, b_nfree := ?nf \<rparr>"
  obtain p where p: "calc_internal_lbasize lbasize \<noteq> 0"
    "btt_info_set_params zero_info lbasize (calc_internal_lbasize lbasize) ?nf R = Inr p"
    "i_external_nlba p = i_external_nlba i" and lay: "layout_ok i R"
    using info_set_parts [OF set e _ R(1,2)] by (auto simp: btt_sizes)
  have rd0: "ns_read 0 SIZEOF_BTT_INFO 0 s1 = (Inr (get_at (content n) 0 SIZEOF_BTT_INFO), s1)"
    using rd R by (subst ns_read_ok) (simp_all add: s1_def btt_zalloc_def btt_sizes)
  have ri: "read_infos 0 R 0 0 (2 ^ 32 - 1) 0 s1 = (Inr None, s1)"
    using R(1) sig rd0 by (subst read_infos.simps) (simp add: act_defs read_info_def info_at_def Let_def)
  define s2 where "s2 = s1 \<lparr> b_narena := 1 \<rparr>"
  have wa: "write_arenas 0 (calc_internal_lbasize lbasize) False R 0 0 0 s2 = (Inr (1, i_external_nlba i), s2)"
  proof -
    have "i_external_nlba i < 2 ^ 64" "0 < BTT_MIN_SIZE" using lay by (simp_all add: layout_ok_def btt_sizes)
    moreover have "b_lbasize s2 = lbasize" "b_nfree s2 = ?nf" by (simp_all add: s2_def s1_def)
    ultimately show ?thesis using R(1,2) p(2,3)
      by (subst write_arenas.simps) (simp add: Let_def act_run write_arenas.simps [of _ _ _ 0])
  qed
  have na: "u32 (if R mod BTT_MAX_ARENA \<ge> BTT_MIN_SIZE then R div BTT_MAX_ARENA + 1 else R div BTT_MAX_ARENA) = 1"
    using R by (cases "R = BTT_MAX_ARENA") (simp_all add: btt_sizes)
  have aw: "abind (write_arenas 0 (calc_internal_lbasize lbasize) False R 0 0 0) f s2 = f (1, i_external_nlba i) s2"
    for f :: "nat \<times> nat \<Rightarrow> ('n btt, unit) act" by (rule abind_ok, rule wa)
  have sel: "b_rawsize s1 = R" "b_nfree s1 = ?nf" "b_lbasize s1 = lbasize" by (simp_all add: s1_def)
  have wl: "write_layout 0 False s1 = (Inr (), s2 \<lparr> b_nlba := i_external_nlba i \<rparr>)"
    using R(1) p(1) na aw [unfolded s2_def] sel by (cases "BTT_MIN_SIZE \<le> R mod BTT_MAX_ARENA") (simp_all add: write_layout_def act_run Let_def BTT_DEFAULT_NFREE_def s2_def)
  have "read_layout 0 ((btt_zalloc n cb [] gen) \<lparr> b_parent_uuid := parent, b_rawsize := R, b_lbasize := lbasize \<rparr>)
      = (Inr (), s2 \<lparr> b_nlba := i_external_nlba i \<rparr>)"
    using ri R(1) wl by (simp add: read_layout_def act_defs s1_def)
  then show ?thesis using R(1)
    by (simp add: btt_init_def btt_init_body_def act_defs unformatted_def s2_def s1_def btt_zalloc_def nlane_of_def)
qed

end

end
