(* ===== verification/BttCheck.thy ===== *)
theory BttCheck
  imports BttReopen Blk
begin

text \<open>
  The consistency check of an arena (\<^verbatim>\<open>check_arena\<close>) decides what it is meant to decide: every block of the
  arena is either in the map or free, and none is used twice.
\<close>

section \<open>The bitmap as a set\<close>

definition bits :: "nat \<Rightarrow> nat set \<Rightarrow> bool list" where
  "bits L B = map (\<lambda>b. b \<in> B) [0..<L]"

lemma bits_nth [simp]: "b < L \<Longrightarrow> bits L B ! b \<longleftrightarrow> b \<in> B" "length (bits L B) = L"
  by (simp_all add: bits_def)

lemma bits_empty: "replicate L False = bits L {}"
  by (rule nth_equalityI) simp_all

lemma bits_insert: "(bits L B)[e := True] = bits L (insert e B)"
proof (rule nth_equalityI)
  fix i assume "i < length ((bits L B)[e := True])"
  then show "(bits L B)[e := True] ! i = bits L (insert e B) ! i" by (cases "i = e") simp_all
qed simp

lemma mark_bits: "e < L \<Longrightarrow> mark (bits L B) e = Inr (e \<notin> B, bits L (insert e B))"
  by (auto simp: mark_def sbind_def nrd_def bits_insert insert_absorb)

lemma mark_fault: "L \<le> e \<Longrightarrow> mark (bits L B) e = Inl OutOfBounds"
  by (simp add: mark_def sbind_def nrd_def)

section \<open>The free blocks\<close>

lemma check_free_ok:
  assumes "\<And>r. r \<in> set rs \<Longrightarrow> free_of r < L"
  shows "check_free rs (bits L B) c =
    Inr (bits L (B \<union> set (map free_of rs)), c \<and> distinct (map free_of rs) \<and> B \<inter> set (map free_of rs) = {})"
  using assms
proof (induction rs arbitrary: B c)
  case (Cons r rs)
  have m: "mark (bits L B) (unat (f_old_map (r_flog r) AND BTT_MAP_ENTRY_LBA_MASK)) = Inr (free_of r \<notin> B, bits L (insert (free_of r) B))"
    using mark_bits [of "free_of r" L B] Cons.prems by (simp add: free_of_def lbaof_def)
  have "check_free (r # rs) (bits L B) c = check_free rs (bits L (insert (free_of r) B)) (c \<and> free_of r \<notin> B)"
    by (simp add: m sbind_def)
  also have "\<dots> = Inr (bits L (insert (free_of r) B \<union> set (map free_of rs)), (c \<and> free_of r \<notin> B) \<and> distinct (map free_of rs)
      \<and> insert (free_of r) B \<inter> set (map free_of rs) = {})"
    using Cons.prems by (intro Cons.IH) simp
  finally show ?case by (auto simp: insert_commute)
qed simp

lemma check_free_fault:
  assumes "r \<in> set rs" "L \<le> free_of r"
  shows "\<exists>e. check_free rs (bits L B) c = Inl OutOfBounds"
  using assms
proof (induction rs arbitrary: B c)
  case (Cons q rs)
  let ?e = "free_of q"
  show ?case
  proof (cases "L \<le> ?e")
    case True
    then show ?thesis using mark_fault [of L ?e B] by (simp add: free_of_def lbaof_def sbind_def)
  next
    case False
    then have "r \<in> set rs" using Cons.prems by auto
    then show ?thesis using False mark_bits [of ?e L B] Cons.IH [OF _ Cons.prems(2)]
      by (simp add: free_of_def lbaof_def sbind_def)
  qed
qed simp

section \<open>The map\<close>

lemma abind_eq: "m s = (Inr x, t) \<Longrightarrow> abind m f s = f x t"
  by (simp add: abind_def)

lemma get_arena_bind: "a < length (b_arenas s) \<Longrightarrow> abind (get_arena a) f s = f (b_arenas s ! a) s"
  by (simp add: abind_def)

lemma post_code:
  assumes "p < 2 ^ 30"
  shows "(if map_entry_is_initial (entry_at m ar p) then p else unat (entry_at m ar p AND BTT_MAP_ENTRY_LBA_MASK)) = post m ar p"
  using assms by (simp add: post_def norm_entry_def lbaof_small) (simp add: lbaof_def)

context namespace
begin

lemma check_map_ok:
  assumes a: "a < length (b_arenas s)" and ar: "ar = b_arenas s ! a" and ext: "a_external_nlba ar \<le> 2 ^ 30"
    and posts: "\<And>p. k \<le> p \<Longrightarrow> p < a_external_nlba ar \<Longrightarrow> post (content n) ar p < a_internal_nlba ar" and L: "a_internal_nlba ar \<le> L"
    and k: "k \<le> a_external_nlba ar"
  shows "check_map a [k..<a_external_nlba ar] (get_at (content n) (a_mapoff ar) (4 * a_external_nlba ar)) k
      (4 * (a_external_nlba ar - k)) off (bits L B) c s =
    (Inr (bits L (B \<union> set (map (post (content n) ar) [k..<a_external_nlba ar])),
      c \<and> distinct (map (post (content n) ar) [k..<a_external_nlba ar]) \<and> B \<inter> set (map (post (content n) ar) [k..<a_external_nlba ar]) = {}), s)"
  using posts k
proof (induction "a_external_nlba ar - k" arbitrary: k off B c)
  case 0
  then show ?case by (simp add: aret_def)
next
  case (Suc d)
  let ?ext = "a_external_nlba ar" and ?P = "post (content n) ar"
  have k: "k < ?ext" using Suc.hyps(2) by simp
  let ?ps = "map ?P [Suc k..<?ext]"
  have e: "(of_le (get_bytes (4 * k) 4 (get_at (content n) (a_mapoff ar) (4 * ?ext))) :: 32 word) = entry_at (content n) ar k"
    using k by (simp add: get_bytes_get_at entry_at_def word_at_def off_map_def)
  have post: "(if map_entry_is_initial (entry_at (content n) ar k) then k
      else unat (entry_at (content n) ar k AND BTT_MAP_ENTRY_LBA_MASK)) = ?P k"
    using k ext by (intro post_code) simp
  have b: "?P k < a_internal_nlba ar" "?P k < L" using Suc.prems(1) [of k] k L by simp_all
  have rem: "4 * (?ext - k) - 4 = 4 * (?ext - Suc k)" "4 * (?ext - k) \<noteq> 0" "4 \<le> 4 * (?ext - k)" using k by simp_all
  have d: "d = ?ext - Suc k" using Suc.hyps(2) by simp
  have IH: "check_map a [Suc k..<?ext] (get_at (content n) (a_mapoff ar) (4 * ?ext)) (Suc k) (4 * (?ext - Suc k)) off' (bits L B') c' s
      = (Inr (bits L (B' \<union> set ?ps), c' \<and> distinct ?ps \<and> B' \<inter> set ?ps = {}), s)" for off' B' c'
    using Suc.hyps(1) [OF d] Suc.prems k by simp
  have step: "check_map a [k..<?ext] (get_at (content n) (a_mapoff ar) (4 * ?ext)) k (4 * (?ext - k)) off (bits L B) c s
      = check_map a [Suc k..<?ext] (get_at (content n) (a_mapoff ar) (4 * ?ext)) (Suc k) (4 * (?ext - Suc k)) (u64 (off + 4))
          (bits L (insert (?P k) B)) (c \<and> ?P k \<notin> B) s"
    using k a rem b by (simp add: upt_conv_Cons act_run get_arena_bind e post mark_bits Let_def flip: ar split del: if_split)
  show ?case unfolding step IH using k by (auto simp: upt_conv_Cons)
qed

text \<open>The check of an arena whose geometry is legal and whose map holds block numbers of the arena.\<close>

lemma howmany_bits: "n \<le> 2 ^ 30 \<Longrightarrow> n \<le> 8 * howmany32 n 8"
  by (simp add: howmany32_def)

lemma check_arena_start:
  assumes cb: "b_ns_cbp s = cb" "ready (b_ns s)" and a: "a < length (b_arenas s)" and ar: "ar = b_arenas s ! a"
    and g: "geom_ok ar nf lbasize (nssize (b_ns s))" and mem: "b_allocs s = []" and nf: "nf = b_nfree s" "length (a_flogs ar) = nf"
    and posts: "\<And>p. p < a_external_nlba ar \<Longrightarrow> post (content (b_ns s)) ar p < a_internal_nlba ar"
  defines "ps \<equiv> map (post (content (b_ns s)) ar) [0..<a_external_nlba ar]" and "L \<equiv> 8 * howmany32 (a_internal_nlba ar) 8"
  shows "check_arena a s = abind (alift (check_free (a_flogs ar) (bits L (set ps)) (distinct ps))) (\<lambda>(bitmap, consistent).
     aret (consistent \<and> (\<forall>b \<in> set (take (a_internal_nlba ar) bitmap). b))) s"
proof -
  note G = g [unfolded geom_ok_def MAXB_def extent_def]
  let ?ext = "a_external_nlba ar" and ?m = "content (b_ns s)"
  have L: "a_internal_nlba ar \<le> L" unfolding L_def using G by (intro howmany_bits) simp
  have map1: "check_map a [0..<?ext] [] 0 0 (a_mapoff ar) (bits L {}) True s = (Inr (bits L (set ps), distinct ps), s)"
  proof (cases "?ext = 0")
    case True
    then show ?thesis by (simp add: ps_def aret_def)
  next
    case False
    have run: "nsmap cb (b_ns s) 0 (?ext * 4) (a_mapoff ar) = Inr (get_at ?m (a_mapoff ar) (?ext * 4))"
      using map_law [OF cb(2), of "a_mapoff ar" "?ext * 4" 0] G by simp
    have "check_map a [0..<?ext] [] 0 0 (a_mapoff ar) (bits L {}) True s
        = check_map a [0..<?ext] (get_at ?m (a_mapoff ar) (4 * ?ext)) 0 (4 * (?ext - 0)) (a_mapoff ar) (bits L {}) True s"
      using False run cb(1) a
      by (simp add: upt_conv_Cons act_run get_arena_bind mult.commute flip: ar)
    also have "\<dots> = (Inr (bits L (set ps), distinct ps), s)"
      using check_map_ok [of a s ar 0 "b_ns s" L "a_mapoff ar" "{}" True] a ar G posts L by (simp add: ps_def)
    finally show ?thesis .
  qed
  have al: "alloc s = (Inr (), s)" using mem by (simp add: alloc_def)
  show ?thesis
    using a nf
    by (simp add: check_arena_def get_arena_bind act_run abind_eq [where m = alloc, OF al] bits_empty
        abind_eq [where m = "check_map a [0..<?ext] [] 0 0 (a_mapoff ar) (bits L {}) True", OF map1]
        flip: ar L_def)
qed

lemma check_arena_equiv:
  assumes cb: "b_ns_cbp s = cb" "ready (b_ns s)" and a: "a < length (b_arenas s)" and ar: "ar = b_arenas s ! a"
    and g: "geom_ok ar nf lbasize (nssize (b_ns s))" and mem: "b_allocs s = []" and nf: "nf = b_nfree s" "length (a_flogs ar) = nf"
    and bl: "set (blocks (content (b_ns s)) ar) \<subseteq> {..<a_internal_nlba ar}"
  shows "check_arena a s = (Inr (distinct (blocks (content (b_ns s)) ar)
      \<and> set (blocks (content (b_ns s)) ar) = {..<a_internal_nlba ar}), s)"
proof -
  let ?ps = "map (post (content (b_ns s)) ar) [0..<a_external_nlba ar]" and ?fs = "map free_of (a_flogs ar)"
  define L where "L = 8 * howmany32 (a_internal_nlba ar) 8"
  have L: "a_internal_nlba ar \<le> L" unfolding L_def using g by (intro howmany_bits) (simp add: geom_ok_def MAXB_def)
  have posts: "post (content (b_ns s)) ar p < a_internal_nlba ar" if "p < a_external_nlba ar" for p
    using bl that by (auto simp: blocks_def subset_iff)
  have free: "free_of r < L" if "r \<in> set (a_flogs ar)" for r using bl that L by (force simp: blocks_def)
  have all: "(\<forall>b \<in> set (take (a_internal_nlba ar) (bits L B)). b) \<longleftrightarrow> {..<a_internal_nlba ar} \<subseteq> B" for B
    using L by (auto simp: bits_def take_map)
  have "check_arena a s = (Inr ((distinct ?ps \<and> distinct ?fs \<and> set ?ps \<inter> set ?fs = {})
      \<and> {..<a_internal_nlba ar} \<subseteq> set ?ps \<union> set ?fs), s)"
    using check_arena_start [OF cb a ar g mem nf posts] check_free_ok [of "a_flogs ar" L "set ?ps" "distinct ?ps", OF free]
    by (simp add: L_def [symmetric] all aret_def)
  then show ?thesis using bl by (auto simp: blocks_def)
qed

text \<open>A free block number past the bitmap is used as an index all the same.\<close>

lemma check_arena_fault:
  assumes cb: "b_ns_cbp s = cb" "ready (b_ns s)" and a: "a < length (b_arenas s)" and ar: "ar = b_arenas s ! a"
    and g: "geom_ok ar nf lbasize (nssize (b_ns s))" and mem: "b_allocs s = []" and nf: "nf = b_nfree s" "length (a_flogs ar) = nf"
    and posts: "\<And>p. p < a_external_nlba ar \<Longrightarrow> post (content (b_ns s)) ar p < a_internal_nlba ar"
    and i: "i < nf" "8 * howmany32 (a_internal_nlba ar) 8 \<le> free_of (a_flogs ar ! i)"
  shows "check_arena a s = (Inl (Fault OutOfBounds), s)"
  using check_arena_start [OF cb a ar g mem nf posts] check_free_fault [of "a_flogs ar ! i" "a_flogs ar"] i nf(2)
  by (simp add: afail_def)

lemma btt_check_ok:
  assumes cb: "b_ns_cbp s = cb" "ready (b_ns s)" and ok: "btt_ok (content (b_ns s)) (nssize (b_ns s)) s" and mem: "b_allocs s = []"
  shows "btt_check s = (Inr (\<forall>ar \<in> set (b_arenas s). a_external_nlba ar + b_nfree s = a_internal_nlba ar), s)"
proof -
  note D = btt_okD [OF ok]
  let ?full = "\<lambda>ar. a_external_nlba ar + b_nfree s = a_internal_nlba ar"
  have one: "check_arena a s = (Inr (?full (b_arenas s ! a)), s)" if a: "a < length (b_arenas s)" for a
  proof -
    note M = D(9) [OF a, unfolded media_ok_def]
    let ?B = "blocks (content (b_ns s)) (b_arenas s ! a)"
    have "set ?B = {..<a_internal_nlba (b_arenas s ! a)} \<longleftrightarrow> length ?B = a_internal_nlba (b_arenas s ! a)"
      using M by (metis card_lessThan card_subset_eq distinct_card finite_lessThan)
    moreover have "length ?B = a_external_nlba (b_arenas s ! a) + b_nfree s" using M by (simp add: blocks_def)
    ultimately show ?thesis using check_arena_equiv [OF cb a refl D(7) [OF a] mem refl] M by simp
  qed
  have loop: "check_arenas is' c s = (Inr (c \<and> (\<forall>i \<in> set is'. ?full (b_arenas s ! i))), s)"
    if "\<And>i. i \<in> set is' \<Longrightarrow> i < length (b_arenas s)" for is' c
    using that
  proof (induction is' arbitrary: c)
    case (Cons i is')
    then show ?case using one [of i] by (simp add: act_defs)
  qed (simp add: aret_def)
  have "(\<forall>i \<in> {0..<length (b_arenas s)}. ?full (b_arenas s ! i)) = (\<forall>ar \<in> set (b_arenas s). ?full ar)"
    by (metis atLeastLessThan_iff in_set_conv_nth le0)
  then show ?thesis using D(1,2) loop [of "[0..<length (b_arenas s)]" True]
    by (simp add: btt_check_def act_run)
qed

end

end
