(* ===== verification/PmdkChecksum.thy ===== *)
theory PmdkChecksum
  imports PmdkUtil
begin

text \<open>
  What the check sum of \<^verbatim>\<open>util_checksum\<close> detects: its low half is the sum of the words that count, so a change
  of a single word is always found.
\<close>

definition counted :: "nat \<Rightarrow> nat \<Rightarrow> nat option \<Rightarrow> nat \<Rightarrow> nat set" where
  "counted n i c skip = {k. i \<le> k \<and> k < n \<and> k < skip \<and> c \<noteq> Some k \<and> (\<forall>m. c = Some m \<longrightarrow> k \<noteq> m + 1)}"

lemma finite_counted: "finite (counted n i c skip)"
  by (rule finite_subset [of _ "{..<n}"]) (auto simp: counted_def)

lemma checksum_low:
  assumes "\<forall>m. c = Some m \<longrightarrow> i \<noteq> m + 1"
  shows "fst (checksum_loop ws i c skip lo hi) = lo + (\<Sum>k \<in> counted (length ws) i c skip. ws ! k)"
  using assms
proof (induction "length ws - i" arbitrary: i lo hi rule: less_induct)
  case less
  let ?n = "length ws"
  show ?case
  proof (cases "i < ?n")
    case False
    then have "counted ?n i c skip = {}" by (auto simp: counted_def)
    then show ?thesis using False by (simp add: checksum_loop.simps [of _ i])
  next
    case True
    consider (csum) "c = Some i" | (skip) "c \<noteq> Some i" "skip \<le> i" | (word) "c \<noteq> Some i" "i < skip" by linarith
    then show ?thesis
    proof cases
      case csum
      then have "counted ?n i c skip = counted ?n (i + 2) c skip" by (force simp: counted_def)
      moreover have "fst (checksum_loop ws (i + 2) c skip lo hi') = lo + (\<Sum>k \<in> counted ?n (i + 2) c skip. ws ! k)" for hi'
        using True csum by (intro less.hyps) auto
      ultimately show ?thesis using True csum by (simp add: checksum_loop.simps [of _ i])
    next
      case skip
      have tail: "fst (checksum_loop ws j c skip lo hi) = lo" if "skip \<le> j" for j hi
        using that
      proof (induction "?n - j" arbitrary: j hi rule: less_induct)
        case less
        then show ?case by (cases "j < ?n") (simp_all add: checksum_loop.simps [of _ j])
      qed
      have "counted ?n i c skip = {}" using skip by (auto simp: counted_def)
      then show ?thesis using tail [OF skip(2)] by simp
    next
      case word
      have "counted ?n i c skip = insert i (counted ?n (i + 1) c skip)"
        using True word less.prems by (auto simp: counted_def)
      moreover have "i \<notin> counted ?n (i + 1) c skip" by (simp add: counted_def)
      moreover have "fst (checksum_loop ws (i + 1) c skip lo' hi') = lo' + (\<Sum>k \<in> counted ?n (i + 1) c skip. ws ! k)" for lo' hi'
        using True word by (intro less.hyps) auto
      ultimately show ?thesis using True word finite_counted
        by (simp add: checksum_loop.simps [of _ i] Let_def add.assoc)
    qed
  qed
qed

lemma checksum_low_diff:
  assumes "length ws = length ws'" "w \<in> counted (length ws) 0 c skip" "ws ! w \<noteq> ws' ! w"
    and "\<And>k. k < length ws \<Longrightarrow> k \<noteq> w \<Longrightarrow> ws ! k = ws' ! k"
  shows "checksum_loop ws 0 c skip lo hi \<noteq> checksum_loop ws' 0 c skip lo hi'"
proof
  let ?C = "counted (length ws) 0 c skip"
  assume "checksum_loop ws 0 c skip lo hi = checksum_loop ws' 0 c skip lo hi'"
  then have "(\<Sum>k \<in> ?C. ws ! k) = (\<Sum>k \<in> ?C. ws' ! k)"
    using checksum_low [of c 0 ws skip lo hi] checksum_low [of c 0 ws' skip lo hi'] assms(1) by simp
  moreover have "(\<Sum>k \<in> ?C - {w}. ws ! k) = (\<Sum>k \<in> ?C - {w}. ws' ! k)"
    using assms(4) by (intro sum.cong) (auto simp: counted_def)
  ultimately show False using assms(2,3) finite_counted by (simp add: sum.remove [of _ w])
qed

lemma pack64_eq: "pack64 p = pack64 q \<longleftrightarrow> p = q"
  using unpack64 by (metis prod.exhaust)

text \<open>The bytes of one aligned word replaced.\<close>

lemma checksum_detects_word:
  assumes ok: "util_checksum_check addr off skip_off = Inr True"
    and len: "off mod 4 = 0" "off + 8 \<le> length addr" "length addr mod 4 = 0" "length new = 4"
    and w: "4 * w + 4 \<le> length addr" "skip_off = 0 \<or> 4 * w + 4 \<le> skip_off" "4 * w + 4 \<le> off \<or> off + 8 \<le> 4 * w"
    and ch: "new \<noteq> get_bytes (4 * w) 4 addr"
  shows "util_checksum_check (put_bytes (4 * w) new addr) off skip_off = Inr False"
proof -
  let ?a = "put_bytes (4 * w) new addr" and ?c = "Some (off div 4)"
  let ?skip = "(if skip_off \<noteq> 0 then skip_off else length addr) div 4"
  have la: "length ?a = length addr" using w(1) len(4) by (simp add: length_put_bytes)
  have ww: "w < length (words32 addr)" using w(1) by (simp add: length_words32)
  have "w \<in> counted (length (words32 addr)) 0 ?c ?skip"
    using w len ww by (auto simp: counted_def)
  moreover have "words32 addr ! w \<noteq> words32 ?a ! w"
  proof -
    have "get_bytes (4 * w) 4 ?a = new" using w(1) len(4) by (intro get_put_bytes) simp_all
    then have "words32 ?a ! w = of_le new" "words32 addr ! w = of_le (get_bytes (4 * w) 4 addr)"
      using ww by (simp_all add: words32_nth length_words32 la)
    moreover have "length (get_bytes (4 * w) 4 addr) = 4" using w(1) by (simp add: get_bytes_def)
    moreover have "to_le 4 (of_le bs :: 32 word) = bs" if "length bs = 4" for bs using that by (simp add: to_le_of_le)
    ultimately show ?thesis using ch len(4) by metis
  qed
  moreover have "words32 addr ! k = words32 ?a ! k" if "k < length (words32 addr)" "k \<noteq> w" for k
  proof -
    have "4 * k + 4 \<le> 4 * w \<or> 4 * w + 4 \<le> 4 * k" using that(2) by linarith
    then have "get_bytes (4 * k) 4 ?a = get_bytes (4 * k) 4 addr"
      using that(1) w(1) len(4) by (intro get_bytes_put_other) (auto simp: length_words32)
    then show ?thesis using that by (simp add: words32_nth length_words32 la)
  qed
  ultimately have "checksum_loop (words32 addr) 0 ?c ?skip 0 0 \<noteq> checksum_loop (words32 ?a) 0 ?c ?skip 0 0"
    by (intro checksum_low_diff) (simp_all add: length_words32 la)
  moreover have "get_bytes off 8 ?a = get_bytes off 8 addr"
    using w len by (intro get_bytes_put_other) auto
  ultimately show ?thesis using ok len(3)
    by (auto simp: util_checksum_check_def util_checksum_compute_def la Let_def sbind_def pack64_eq)
qed

end
