(* ===== verification/BttClaims.thy ===== *)
theory BttClaims
  imports BttLife BttCheck BlkExample PmdkChecksum
begin

text \<open>
  The properties of the block translation table: power failure, persistence, the consistency check, the layout
  of an arena and the check sums. The witnesses run on a namespace of 16 MB of zeros, and on the small table
  of \<^verbatim>\<open>BlkExample\<close>.
\<close>

section \<open>A namespace to format\<close>

definition zero_ns :: blk_ns where "zero_ns = \<lparr> n_data = (\<lambda>_. 0), n_datasize = 16777216 \<rparr>"

definition zero_layout :: btt_info where
  "zero_layout = zero_info \<lparr> i_external_lbasize := 512, i_internal_lbasize := 512, i_nfree := 256, i_infosize := 4096,
     i_internal_nlba := 32458, i_external_nlba := 32202, i_dataoff := 4096, i_nextoff := 0, i_infooff := 16773120,
     i_flogoff := 16756736, i_mapoff := 16625664 \<rparr>"

lemma zero_sizes:
  "calc_internal_lbasize 512 = 512" "btt_flog_size 256 = 16384" "btt_map_size 32202 = 131072"
  "btt_arena_datasize 16777216 256 = 16752640"
  by (simp_all add: calc_internal_lbasize_def btt_flog_size_def btt_map_size_def btt_arena_datasize_def
      roundup32_def roundup64_def u32_def u64_def sub64_def btt_sizes Let_def)

lemma zero_layout: "btt_info_set zero_info 512 BTT_DEFAULT_NFREE 16777216 0 = Inr zero_layout"
proof -
  let ?p = "zero_info \<lparr> i_external_lbasize := 512, i_internal_lbasize := 512, i_nfree := 256, i_infosize := 4096,
     i_internal_nlba := 32458, i_external_nlba := 32202 \<rparr>"
  have a: "sub64 16752640 4096 div 516 = 32458" "sub32 32458 256 = 32202" "sub64 16752640 131072 div 512 = 32464"
    by (simp_all add: sub64_def sub32_def u32_def)
  have "btt_info_set_params zero_info 512 512 256 16777216 = Inr ?p"
    unfolding btt_info_set_params_def Let_def
    by (simp add: zero_sizes btt_sizes a)
  moreover have "btt_info_set_offs ?p 16777216 0 = Inr zero_layout"
    unfolding btt_info_set_offs_def Let_def
    by (simp add: zero_sizes btt_sizes zero_layout_def sub64_def)
  ultimately show ?thesis by (simp add: btt_info_set_def zero_sizes BTT_DEFAULT_NFREE_def)
qed

text \<open>The same fields over another namespace.\<close>

definition rehost :: "'m \<Rightarrow> 'm ns_callback \<Rightarrow> 'n btt \<Rightarrow> 'm btt" where
  "rehost n cb s = \<lparr> b_nlane = b_nlane s, b_layout_write_mutex = b_layout_write_mutex s, b_laidout = b_laidout s,
     b_uuid = b_uuid s, b_parent_uuid = b_parent_uuid s, b_rawsize = b_rawsize s, b_lbasize = b_lbasize s,
     b_nfree = b_nfree s, b_nlba = b_nlba s, b_narena = b_narena s, b_arenas = b_arenas s, b_ns = n, b_ns_cbp = cb,
     b_allocs = b_allocs s, b_uuid_gen = b_uuid_gen s \<rparr>"

lemma rehost_simps [simp]:
  "b_ns (rehost n cb s) = n" "b_ns_cbp (rehost n cb s) = cb" "b_nlane (rehost n cb s) = b_nlane s"
  "b_lbasize (rehost n cb s) = b_lbasize s" "b_nlba (rehost n cb s) = b_nlba s"
  "btt_ok m sz (rehost n cb s) = btt_ok m sz s" "stored m (rehost n cb s) = stored m s"
  "writable (rehost n cb s) x = writable s x" "abs_block m (rehost n cb s) x = abs_block m s x"
  by (simp_all add: rehost_def btt_ok_def stored_def writable_def abs_block_def)

lemma zero_sig: "i_sig (info_at (n_data zero_ns) 0) \<noteq> BTTINFO_SIG"
proof -
  have "get_at (\<lambda>_. 0) 0 16 = replicate 16 (0 :: byte)" by (rule nth_equalityI) (simp_all add: get_at_def)
  then have "i_sig (info_at (n_data zero_ns) 0) ! 0 = 0"
    by (simp add: info_at_def info_of_bytes_def get_bytes_get_at btt_sizes zero_ns_def)
  then show ?thesis by (auto simp: BTTINFO_SIG_def)
qed

lemma zero_blank: "blank (unformatted 16777216 512 (replicate 16 0) 1 zero_ns (ns_cb True) (Inr (replicate 16 0)) 32202) zero_layout"
  by (rule unformatted_blank) (simp_all add: btt_sizes zero_layout [unfolded btt_sizes])

text \<open>A stored layout to open: the namespace of zeros after its first write.\<close>

lemma zero_stored:
  obtains s :: "blk_ns btt" where "btt_ok (n_data (b_ns s)) (n_datasize (b_ns s)) s" "stored (n_data (b_ns s)) s"
    "n_datasize (b_ns s) < 2 ^ 63" "b_nlba s = 32202" "b_lbasize s = 512" "b_rawsize s = 16777216"
    "b_parent_uuid s = replicate 16 0" "\<And>x. x < 32202 \<Longrightarrow> writable s x"
    "\<And>x. x < 32202 \<Longrightarrow> abs_block (n_data (b_ns s)) s x = Some (replicate 512 0)"
proof -
  define u where "u = unformatted 16777216 512 (replicate 16 0) 1 zero_ns (ns_cb True) (Inr (replicate 16 0)) 32202"
  have z: "agree (n_data (b_ns u)) (\<lambda>_. 0) (i_mapoff zero_layout) (i_flogoff zero_layout)"
    by (simp add: u_def unformatted_def zero_ns_def agree_def)
  have U: "n_datasize (b_ns u) < 2 ^ 63" "b_allocs u = []" "b_uuid_gen u = Inr (replicate 16 0)" "\<not> b_laidout u"
    "\<not> b_layout_write_mutex u" "b_nlba u = i_external_nlba zero_layout" "b_rawsize u \<le> n_datasize (b_ns u)"
    "0 < b_nlane u" "0 < b_nlba u" "b_lbasize u = 512" "b_ns_cbp u = ns_cb True" "b_nlba u = 32202" "b_rawsize u = 16777216"
    "b_parent_uuid u = replicate 16 0"
    by (simp_all add: u_def unformatted_def zero_layout_def zero_ns_def nlane_of_def btt_sizes)
  note F = blk.first_write [where zeroed = True and buf = "replicate 512 0", OF U(11) U(1-3) _ zero_blank [folded u_def]
        U(4-7) z U(8-9), unfolded U(12,10,13,14), simplified]
  show thesis by (rule F, rule that) simp_all
qed

section \<open>Persistence\<close>

text \<open>C23: A namespace of one arena (a raw size of at most \<open>BTT_MAX_ARENA\<close> that is a multiple of 64) without a layout is
  opened with the number of blocks its size gives; the first write to a block lays it out; closing and opening it
  again finds the layout, and then that block reads as what was written and every other block as zeros. The area of
  the map holds zeros before when the callbacks claim a zeroed namespace. (With several arenas the maps of the later
  ones are not zeroed by \<^verbatim>\<open>write_layout\<close>, so the statement is about one.)\<close>

theorem write_persists:
  assumes R: "BTT_MIN_SIZE \<le> R" "R \<le> BTT_MAX_ARENA" "64 dvd R" "R \<le> n_datasize n" "n_datasize n < 2 ^ 63"
    and e: "lbasize < 2 ^ 32" and pu: "length parent = 16" and u: "length u = 16"
    and set: "btt_info_set zero_info lbasize BTT_DEFAULT_NFREE R 0 = Inr i"
    and sig: "i_sig (info_at (n_data n) 0) \<noteq> BTTINFO_SIG"
    and zero: "zeroed \<Longrightarrow> \<forall>x. i_mapoff i \<le> x \<and> x < i_flogoff i \<longrightarrow> n_data n x = 0"
    and lane: "lane < nlane_of BTT_DEFAULT_NFREE maxlane" and lba: "lba < i_external_nlba i" and buf: "length buf = lbasize"
    and lane2: "lane2 < nlane_of BTT_DEFAULT_NFREE maxlane2"
  shows "\<exists>s s' t. btt_init R lbasize parent maxlane n (ns_cb zeroed) [] (Inr u) = (Inr s, n)
    \<and> btt_nlba s = i_external_nlba i \<and> btt_write lane lba buf s = (Inr (), s')
    \<and> btt_init R lbasize parent maxlane2 (btt_fini s') (ns_cb z2) [] gen2 = (Inr t, btt_fini s')
    \<and> btt_nlba t = i_external_nlba i
    \<and> (\<forall>x < i_external_nlba i. btt_read lane2 x t = (Inr (if x = lba then buf else replicate lbasize 0), t))"
proof -
  define s where "s = unformatted R lbasize parent maxlane n (ns_cb zeroed) (Inr u) (i_external_nlba i)"
  have opn: "btt_init R lbasize parent maxlane n (ns_cb zeroed) [] (Inr u) = (Inr s, n)"
    unfolding s_def by (rule blk.unformatted_init [where zeroed = zeroed, OF R(5,1,2,4) e set sig])
  have bl: "blank s i" unfolding s_def by (rule unformatted_blank [OF R(1-3) e pu set])
  have S: "b_ns s = n" "b_ns_cbp s = ns_cb zeroed" "b_allocs s = []" "b_uuid_gen s = Inr u" "\<not> b_laidout s"
    "\<not> b_layout_write_mutex s" "b_nlba s = i_external_nlba i" "b_rawsize s = R" "b_lbasize s = lbasize"
    "b_parent_uuid s = parent" "b_nlane s = nlane_of BTT_DEFAULT_NFREE maxlane"
    "b_nfree s = BTT_DEFAULT_NFREE" by (simp_all add: s_def unformatted_def)
  have z: "agree (n_data (b_ns s)) (\<lambda>_. 0) (i_mapoff i) (i_flogoff i)" if "ns_is_zeroed (ns_cb zeroed)"
    using that zero unfolding S by (simp add: ns_cb_def agree_def)
  have fits: "n_datasize (b_ns s) < 2 ^ 63" "b_rawsize s \<le> n_datasize (b_ns s)" "lane < b_nlane s" "lba < b_nlba s"
    "length buf = b_lbasize s" using R lane lba buf by (simp_all add: S)
  obtain s' where w: "btt_write lane lba buf s = (Inr (), s')" "n_datasize (b_ns s') < 2 ^ 63"
    and ok: "btt_ok (n_data (b_ns s')) (n_datasize (b_ns s')) s'" "stored (n_data (b_ns s')) s'"
    and T: "b_nlba s' = i_external_nlba i" "b_lbasize s' = lbasize" "b_rawsize s' = R" "b_parent_uuid s' = parent"
      "b_nfree s' = BTT_DEFAULT_NFREE"
    and v: "\<And>x. x < i_external_nlba i \<Longrightarrow> abs_block (n_data (b_ns s')) s' x = Some (if x = lba then buf else replicate lbasize 0)"
    by (rule blk.first_write [where zeroed = zeroed, OF S(2) fits(1) S(3,4) u bl S(5-7) fits(2) z fits(3-5)])
      (simp_all add: S)
  define t where "t = opened R lbasize parent maxlane2 (b_ns s') (ns_cb z2) gen2 BTT_DEFAULT_NFREE (b_arenas s')"
  note O = blk.reopen_ok [where zeroed = z2 and n = "b_ns s'" and s = s' and maxlane = maxlane2 and gen = gen2, OF w(2) ok,
      unfolded T, folded t_def]
  have tns: "b_ns t = b_ns s'" "b_ns_cbp t = ns_cb z2" by (simp_all add: t_def opened_def)
  have "lane2 < b_nlane t" using lane2 T(5) by (simp add: t_def opened_def)
  note R = blk.btt_read_ok [where zeroed = z2, OF tns(2) _ _ this, unfolded tns, OF w(2) O(2), unfolded O]
  have "btt_read lane2 x t = (Inr (if x = lba then buf else replicate lbasize 0), t)" if "x < i_external_nlba i" for x
    using R [of x] that v [OF that] by simp
  then show ?thesis using opn w(1) O T S by (intro exI [of _ s] exI [of _ s'] exI [of _ t]) (simp add: btt_fini_def btt_nlba_def)
qed

theorem write_persists_witness:
  "\<exists>s s' t. btt_init 16777216 512 (replicate 16 0) 1 zero_ns (ns_cb True) [] (Inr (replicate 16 0)) = (Inr s, zero_ns)
    \<and> btt_nlba s = 32202 \<and> btt_write 0 7 (replicate 512 1) s = (Inr (), s')
    \<and> btt_init 16777216 512 (replicate 16 0) 1 (btt_fini s') (ns_cb True) [] (Inr []) = (Inr t, btt_fini s')
    \<and> btt_nlba t = 32202
    \<and> (\<forall>x < 32202. btt_read 0 x t = (Inr (if x = 7 then replicate 512 1 else replicate 512 0), t))"
  using write_persists [of 16777216 zero_ns 512 "replicate 16 0" "replicate 16 0" zero_layout True 0 1 7 "replicate 512 1" 0 1 True "Inr []"]
    zero_layout zero_sig
  by (simp add: btt_sizes zero_ns_def nlane_of_def zero_layout_def)

section \<open>Power failure\<close>

text \<open>C21: Whatever moment the power fails at during a write, and whichever of the eight-byte groups of the write in
  flight reach the media, opening the namespace again succeeds and shows every block as before the write, or the
  written block with its new content and all others as before.\<close>

theorem write_crash_safe:
  fixes s :: "crash_ns btt"
  assumes cb: "b_ns_cbp s = crash_cb z"
    and ns: "b_ns s = \<lparr> c_live = l, c_durable = n_data l, c_budget = k, c_keep = keep \<rparr>" and sz: "n_datasize l < 2 ^ 63"
    and ok: "btt_ok (n_data l) (n_datasize l) s" and st: "stored (n_data l) s"
    and lane: "lane < b_nlane s" and lba: "lba < b_nlba s" and buf: "length buf = b_lbasize s" and wr: "writable s lba"
  shows "\<exists>s'. btt_write lane lba buf s = (Inr (), s')
    \<and> (reopens (c_durable (b_ns s')) (n_datasize l) s (abs_block (n_data l) s)
      \<or> reopens (c_durable (b_ns s')) (n_datasize l) s (\<lambda>x. if x = lba then Some buf else abs_block (n_data l) s x))"
proof -
  note D = btt_okD [OF ok]
  obtain a p where loc: "find_arena 0 (b_arenas s) lba = (a, p)" and a: "a < length (b_arenas s)"
    and p: "p < a_external_nlba (b_arenas s ! a)" using locate_ok [OF ok lba] by metis
  define ar where "ar = b_arenas s ! a"
  have g: "geom_ok ar (b_nfree s) (b_lbasize s) (n_datasize l)" and md: "media_ok (n_data l) ar (b_nfree s)"
    and p': "p < a_external_nlba ar" using D(7,9) [OF a] p by (simp_all add: ar_def)
  have lf: "lane < b_nfree s" using lane D(5) by simp
  define old where "old = norm_entry p (entry_at (n_data l) ar p)"
  have L: "c_live (b_ns s) = l" "c_durable (b_ns s) = n_data l" by (simp_all add: ns)
  have err: "a_flags ar AND BTTINFO_FLAG_ERROR_MASK = 0" using wr loc by (simp add: writable_def ar_def)
  define s' where "s' = (upd_arena a (flog_upd lane (new_flog_of ar lane p old (free_entry ar lane))) s)
    \<lparr> b_ns := ns_map (crash_cb z) lane ar p old buf (b_ns s) \<rparr>"
  have run: "btt_write lane lba buf s = (Inr (), s')"
    using crash.btt_write_trace [where zeroed = z, OF cb _ _ lane lba buf loc ar_def err] ok sz
    by (simp add: L s'_def old_def)
  have d: "c_durable (b_ns s') = c_durable (ns_map (crash_cb z) lane ar p old buf (b_ns s))" by (simp add: s'_def)
  note cases = durable_cases [where c = "b_ns s" and m = "n_data l" and old = old and z = z, unfolded L, OF g md lf p' buf sz refl]
  from write_crash [OF ok st sz lf lba buf loc ar_def old_def refl cases]
  show ?thesis using run d by auto
qed

theorem write_crash_safe_witness:
  "\<exists>(s :: crash_ns btt) l. b_ns s = \<lparr> c_live = l, c_durable = n_data l, c_budget = 3, c_keep = (\<lambda>x. even x) \<rparr>
    \<and> b_nlba s = 32202 \<and> (\<exists>s'. btt_write 0 7 (replicate 512 1) s = (Inr (), s')
    \<and> (reopens (c_durable (b_ns s')) (n_datasize l) s (abs_block (n_data l) s)
      \<or> reopens (c_durable (b_ns s')) (n_datasize l) s (\<lambda>x. if x = 7 then Some (replicate 512 1) else abs_block (n_data l) s x)))"
proof -
  obtain s' :: "blk_ns btt" where s': "btt_ok (n_data (b_ns s')) (n_datasize (b_ns s')) s'" "stored (n_data (b_ns s')) s'"
    "n_datasize (b_ns s') < 2 ^ 63" "b_nlba s' = 32202" "b_lbasize s' = 512" "\<And>x. x < 32202 \<Longrightarrow> writable s' x"
    using zero_stored by metis
  let ?l = "b_ns s'"
  let ?s = "rehost \<lparr> c_live = ?l, c_durable = n_data ?l, c_budget = 3, c_keep = (\<lambda>x. even x) \<rparr> (crash_cb True) s'"
  show ?thesis
    by (rule exI [of _ ?s], rule exI [of _ ?l])
      (use write_crash_safe [of ?s True ?l 3 "\<lambda>x. even x" 0 7 "replicate 512 1"] s' btt_okD(4) [OF s'(1)] in simp)
qed

section \<open>Opening what was stored\<close>

text \<open>C24: Opening a namespace whose layout is stored and where no operation is pending changes nothing on the media, and
  every block reads as through the handle it was stored with.\<close>

theorem reopen_same_blocks:
  assumes n: "n_datasize n < 2 ^ 63" and ok: "btt_ok (n_data n) (n_datasize n) s" and st: "stored (n_data n) s"
  shows "\<exists>t. btt_init (b_rawsize s) (b_lbasize s) (b_parent_uuid s) maxlane n (ns_cb z) [] gen = (Inr t, n)
    \<and> btt_ok (n_data n) (n_datasize n) t \<and> btt_nlba t = btt_nlba s
    \<and> (\<forall>x < btt_nlba s. \<forall>lane < btt_nlane t. btt_read lane x t =
        (case abs_block (n_data n) s x of Some bs \<Rightarrow> (Inr bs, t) | None \<Rightarrow> (Inl (Errno EIO), t)))"
proof -
  define t where "t = opened (b_rawsize s) (b_lbasize s) (b_parent_uuid s) maxlane n (ns_cb z) gen (b_nfree s) (b_arenas s)"
  note O = blk.reopen_ok [where zeroed = z and s = s and maxlane = maxlane and gen = gen, OF n ok st, folded t_def]
  have "b_ns t = n" "b_ns_cbp t = ns_cb z" by (simp_all add: t_def opened_def)
  then have "btt_read lane x t = (case abs_block (n_data n) s x of Some bs \<Rightarrow> (Inr bs, t) | None \<Rightarrow> (Inl (Errno EIO), t))"
    if "x < b_nlba s" "lane < b_nlane t" for x lane
    using blk.btt_read_ok [where zeroed = z and s = t and lane = lane and lba = x] O n that by simp
  then show ?thesis using O by (intro exI [of _ t]) (simp add: btt_nlba_def btt_nlane_def)
qed

theorem reopen_same_blocks_witness:
  "\<exists>(s :: blk_ns btt) t. btt_init 16777216 512 (replicate 16 0) 1 (b_ns s) (ns_cb False) [] (Inr []) = (Inr t, b_ns s)
    \<and> btt_nlba t = 32202 \<and> (\<forall>x < 32202. \<forall>lane < btt_nlane t. btt_read lane x t = (Inr (replicate 512 0), t))"
proof -
  obtain s :: "blk_ns btt" where s: "btt_ok (n_data (b_ns s)) (n_datasize (b_ns s)) s" "stored (n_data (b_ns s)) s"
    "n_datasize (b_ns s) < 2 ^ 63" "b_nlba s = 32202" "b_lbasize s = 512" "b_rawsize s = 16777216"
    "b_parent_uuid s = replicate 16 0" "\<And>x. x < 32202 \<Longrightarrow> abs_block (n_data (b_ns s)) s x = Some (replicate 512 0)"
    using zero_stored by metis
  obtain t where t: "btt_init 16777216 512 (replicate 16 0) 1 (b_ns s) (ns_cb False) [] (Inr []) = (Inr t, b_ns s)"
    "btt_nlba t = 32202" "\<forall>x < 32202. \<forall>lane < btt_nlane t. btt_read lane x t =
        (case abs_block (n_data (b_ns s)) s x of Some bs \<Rightarrow> (Inr bs, t) | None \<Rightarrow> (Inl (Errno EIO), t))"
    using reopen_same_blocks [OF s(3,1,2), of 1 False "Inr []", unfolded btt_nlba_def s(4-7)]
    by (elim exE conjE) (rule that; simp only: btt_nlba_def)
  have "btt_read lane x t = (Inr (replicate 512 0), t)" if "x < 32202" "lane < btt_nlane t" for x lane
    using t(3) s(8) [OF that(1)] that by simp
  then show ?thesis using t(1,2) by blast
qed

section \<open>The consistency check\<close>

text \<open>C25: On an arena whose map and flog only name blocks of the arena, the check reports consistency exactly when
  every block is in the map or free, and none is so twice.\<close>

theorem check_arena_decides:
  assumes cb: "b_ns_cbp s = ns_cb z" "n_datasize (b_ns s) < 2 ^ 63" and a: "a < length (b_arenas s)"
    and g: "geom_ok (b_arenas s ! a) (b_nfree s) lbasize (n_datasize (b_ns s))" and mem: "b_allocs s = []"
    and nf: "length (a_flogs (b_arenas s ! a)) = b_nfree s"
    and bl: "\<forall>b \<in> set (blocks (n_data (b_ns s)) (b_arenas s ! a)). b < a_internal_nlba (b_arenas s ! a)"
  shows "check_arena a s = (Inr (mset (blocks (n_data (b_ns s)) (b_arenas s ! a)) = mset [0..<a_internal_nlba (b_arenas s ! a)]), s)"
proof -
  let ?B = "blocks (n_data (b_ns s)) (b_arenas s ! a)" and ?n = "a_internal_nlba (b_arenas s ! a)"
  have "mset ?B = mset [0..<?n] \<longleftrightarrow> distinct ?B \<and> set ?B = {..<?n}"
  proof
    assume m: "mset ?B = mset [0..<?n]"
    have "set ?B = set [0..<?n]" "distinct ?B" using mset_eq_setD [OF m] mset_eq_imp_distinct_iff [OF m] distinct_upt by blast+
    then show "distinct ?B \<and> set ?B = {..<?n}" by (simp add: atLeast0LessThan)
  next
    assume "distinct ?B \<and> set ?B = {..<?n}"
    then have "distinct ?B" "set ?B = set [0..<?n]" by (simp_all add: atLeast0LessThan)
    then show "mset ?B = mset [0..<?n]" using set_eq_iff_mset_eq_distinct [OF _ distinct_upt] by blast
  qed
  then show ?thesis using blk.check_arena_equiv [where zeroed = z, OF cb a refl g mem refl nf] bl by (auto simp: subset_iff)
qed

theorem check_arena_decides_witness: "check_arena 0 tiny_btt = (Inr True, tiny_btt)"
proof -
  have M: "media_ok tiny_media tiny_arena 1" by (rule tiny_media_ok)
  have T: "b_arenas tiny_btt ! 0 = tiny_arena" "n_data (b_ns tiny_btt) = tiny_media" "b_nfree tiny_btt = 1" "a_internal_nlba tiny_arena = 3"
    by (simp_all add: tiny_btt_def tiny_arena_def)
  have l: "length (blocks tiny_media tiny_arena) = 3" by (simp add: blocks_def tiny_arena_def)
  have d: "distinct (blocks tiny_media tiny_arena)" "set (blocks tiny_media tiny_arena) \<subseteq> {..<3}"
    using M T by (simp_all add: media_ok_def)
  then have "set (blocks tiny_media tiny_arena) = set [0..<3]"
    using l by (metis atLeast_upt card_lessThan card_subset_eq distinct_card finite_lessThan)
  then have "mset (blocks tiny_media tiny_arena) = mset [0..<3]"
    using d by (intro set_eq_iff_mset_eq_distinct [THEN iffD1]) auto
  moreover have "geom_ok tiny_arena 1 4 8192" using btt_okD(7) [OF tiny_btt_ok, of 0] T by (simp add: tiny_btt_def)
  ultimately show ?thesis
    using check_arena_decides [of tiny_btt True 0 4] d T by (auto simp: tiny_btt_def tiny_arena_def)
qed

text \<open>C26: The check does not test the free block numbers of the flog against the size of the arena: one that is past the
  bitmap is used as an index into it, and the check faults where it should report an inconsistency.\<close>

theorem check_arena_overrun:
  assumes cb: "b_ns_cbp s = ns_cb z" "n_datasize (b_ns s) < 2 ^ 63" and a: "a < length (b_arenas s)"
    and g: "geom_ok (b_arenas s ! a) (b_nfree s) lbasize (n_datasize (b_ns s))" and mem: "b_allocs s = []"
    and nf: "length (a_flogs (b_arenas s ! a)) = b_nfree s"
    and posts: "\<forall>p < a_external_nlba (b_arenas s ! a). post (n_data (b_ns s)) (b_arenas s ! a) p < a_internal_nlba (b_arenas s ! a)"
    and i: "i < b_nfree s" "8 * howmany32 (a_internal_nlba (b_arenas s ! a)) 8 \<le> free_of (a_flogs (b_arenas s ! a) ! i)"
  shows "check_arena a s = (Inl (Fault OutOfBounds), s)"
  using blk.check_arena_fault [where zeroed = z, OF cb a refl g mem refl nf _ i] posts by blast

text \<open>The flog of the small table names block 8 as free, its bitmap has eight bits.\<close>

definition broken_btt :: "blk_ns btt" where
  "broken_btt = tiny_btt \<lparr> b_arenas := [tiny_arena \<lparr> a_flogs := [(a_flogs tiny_arena ! 0) \<lparr> r_flog :=
     \<lparr> f_lba = 0, f_old_map = 0x80000008, f_new_map = 0x80000008, f_seq = 1 \<rparr> \<rparr>] \<rparr>] \<rparr>"

theorem check_arena_overrun_witness: "check_arena 0 broken_btt = (Inl (Fault OutOfBounds), broken_btt)"
proof -
  let ?ar = "b_arenas broken_btt ! 0"
  have "post tiny_media ?ar p < 3" if "p < 2" for p
  proof -
    have "entry_at tiny_media ?ar p = 0"
      using that by (simp add: entry_at_def tiny_media_def off_map_def tiny_arena_def broken_btt_def)
    then show ?thesis using that by (simp add: post_def norm_entry_def map_entry_is_initial_def lbaof_small)
  qed
  moreover have "geom_ok ?ar 1 4 8192"
    using btt_okD(7) [OF tiny_btt_ok, of 0] by (simp add: tiny_btt_def broken_btt_def geom_ok_def extent_def tiny_arena_def)
  moreover have "free_of (a_flogs ?ar ! 0) = 8" by (simp add: broken_btt_def tiny_arena_def free_of_def lbaof_mod)
  ultimately show ?thesis
    using check_arena_overrun [of broken_btt True 0 4 0]
    by (simp add: broken_btt_def tiny_btt_def tiny_arena_def howmany32_def)
qed

section \<open>Layout and check sums\<close>

text \<open>C27: For every block size below \<open>2\<^sup>3\<^sup>2\<close>, every legal arena size and up to 65536 free blocks (\<open>nfree\<close>, the bound on the
  number of lanes; \<^verbatim>\<open>BTT_DEFAULT_NFREE\<close> is 256), the layout of an arena is either refused with EINVAL or consists of
  five areas that do not overlap and fill the arena; no intermediate value wraps around and no assertion fails.\<close>

theorem layout_bounds:
  assumes "external_lbasize < 2 ^ 32" "nfree \<le> 65536" "BTT_MIN_SIZE \<le> arena_size" "arena_size \<le> BTT_MAX_ARENA"
  shows "case btt_info_set i external_lbasize nfree arena_size space_left of
      Inl e \<Rightarrow> e = Errno EINVAL
    | Inr i' \<Rightarrow> layout_ok i' arena_size \<and> i_nfree i' = nfree \<and> i_external_lbasize i' = external_lbasize
        \<and> i_internal_lbasize i' = calc_internal_lbasize external_lbasize
        \<and> i_nextoff i' = (if space_left \<ge> BTT_MIN_SIZE then arena_size else 0)"
  using btt_info_set_ok [OF assms, of i space_left] by auto

theorem layout_bounds_witness:
  "case btt_info_set zero_info 512 256 16777216 0 of Inl e \<Rightarrow> e = Errno EINVAL
    | Inr i' \<Rightarrow> layout_ok i' 16777216 \<and> i_nfree i' = 256 \<and> i_external_lbasize i' = 512
        \<and> i_internal_lbasize i' = calc_internal_lbasize 512 \<and> i_nextoff i' = (if 0 \<ge> BTT_MIN_SIZE then 16777216 else 0)"
  by (rule layout_bounds) (simp_all add: btt_sizes)

text \<open>C28: A range whose check sum is valid stops being valid when any one of its aligned 32-bit words outside the check
  sum changes, whatever the change.\<close>

theorem checksum_detects_change:
  assumes "util_checksum_check addr off skip_off = Inr True"
    and "off mod 4 = 0" "off + 8 \<le> length addr" "length addr mod 4 = 0" "length new = 4"
    and "4 * w + 4 \<le> length addr" "skip_off = 0 \<or> 4 * w + 4 \<le> skip_off" "4 * w + 4 \<le> off \<or> off + 8 \<le> 4 * w"
    and "new \<noteq> get_bytes (4 * w) 4 addr"
  shows "util_checksum_check (put_bytes (4 * w) new addr) off skip_off = Inr False"
  by (rule checksum_detects_word [OF assms])

theorem checksum_detects_change_witness:
  "util_checksum_check (put_bytes (4 * 1) [1, 0, 0, 0] (replicate 16 0)) 8 0 = Inr False"
proof (rule checksum_detects_change)
  show "util_checksum_check (replicate 16 0) 8 0 = Inr True"
    by code_simp
  show "[1, 0, 0, 0] \<noteq> get_bytes (4 * 1) 4 (replicate 16 (0 :: byte))" by code_simp
qed simp_all

text \<open>C29: Inserting the check sum into any block of whole words succeeds, leaves the bytes outside the field alone and
  makes the block valid.\<close>

theorem checksum_insert_valid:
  assumes "length addr mod 4 = 0" "off mod 4 = 0" "off + 8 \<le> length addr" "skip_off = 0 \<or> off + 8 \<le> skip_off"
  shows "\<exists>addr'. util_checksum_insert addr off skip_off = Inr addr' \<and> length addr' = length addr
    \<and> util_checksum_check addr' off skip_off = Inr True
    \<and> (\<forall>i < length addr. i < off \<or> off + 8 \<le> i \<longrightarrow> addr' ! i = addr ! i)"
proof -
  obtain addr' where a: "util_checksum_insert addr off skip_off = Inr addr'" "length addr' = length addr"
    "util_checksum_check addr' off skip_off = Inr True" using checksum_insert_check [OF assms] by blast
  from a(1) obtain c :: "64 word" where "addr' = put_bytes off (to_le 8 c) addr"
    by (auto simp: util_checksum_insert_def sbind_def split: sum.splits)
  then show ?thesis using a assms(3) by (auto simp: nth_put_bytes)
qed

theorem checksum_insert_valid_witness:
  "\<exists>addr'. util_checksum_insert (replicate 16 7) 8 0 = Inr addr' \<and> length addr' = 16
    \<and> util_checksum_check addr' 8 0 = Inr True \<and> (\<forall>i < 16. i < 8 \<or> 8 + 8 \<le> i \<longrightarrow> addr' ! i = replicate 16 7 ! i)"
  using checksum_insert_valid [of "replicate 16 7" 8 0] by simp

end
