(* ===== verification/DgapFp.thy ===== *)
theory DgapFp
  imports Prelude "HOL-Library.Log_Nat"
begin

text \<open>
  The \<^verbatim>\<open>double\<close> arithmetic of \<^verbatim>\<open>dgap/src/graph.h\<close>: IEEE 754 binary64, round to nearest, ties to
  even. A finite double is the rational it denotes (the sign of a zero is not kept: no computation
  of the program divides by a zero it computed or looks at the sign bit of one). \<open>fl\<close> rounds a
  rational to 53 significant bits, with the fixed exponent of the subnormals below, \<open>mk_f64\<close> makes
  an infinity of what is too large.
\<close>

section \<open>Rounding\<close>

definition ilog2 :: "rat \<Rightarrow> int" where
  "ilog2 x = (case quotient_of \<bar>x\<bar> of (p, q) \<Rightarrow>
     (let e = bitlen p - bitlen q
      in if 2 powi e \<le> \<bar>x\<bar> then e else e - 1))"

definition rnd_even :: "rat \<Rightarrow> int" where
  "rnd_even x = (let f = \<lfloor>x\<rfloor>; d = x - of_int f in
     if d < 1 / 2 then f else if 1 / 2 < d then f + 1 else if even f then f else f + 1)"

definition f64_exp :: "rat \<Rightarrow> int" where
  "f64_exp x = max (ilog2 x - 52) (- 1074)"

definition fl :: "rat \<Rightarrow> rat" where
  "fl x = (if x = 0 then 0
           else of_int (rnd_even (x * 2 powi (- f64_exp x))) * 2 powi (f64_exp x))"

section \<open>Doubles and their operations\<close>

datatype f64 = Fin rat | PInf | MInf | NaN

definition f64_overflow :: rat where
  "f64_overflow = 2 ^ 1024"

definition mk_f64 :: "rat \<Rightarrow> f64" where
  "mk_f64 x = (let r = fl x in
     if f64_overflow \<le> r then PInf else if r \<le> - f64_overflow then MInf else Fin r)"

definition f64_of_int :: "int \<Rightarrow> f64" where
  "f64_of_int n = mk_f64 (of_int n)"

fun f64_neg :: "f64 \<Rightarrow> f64" where
  "f64_neg (Fin x) = Fin (- x)"
| "f64_neg PInf = MInf"
| "f64_neg MInf = PInf"
| "f64_neg NaN = NaN"

fun f64_add :: "f64 \<Rightarrow> f64 \<Rightarrow> f64" where
  "f64_add (Fin x) (Fin y) = mk_f64 (x + y)"
| "f64_add NaN _ = NaN"
| "f64_add _ NaN = NaN"
| "f64_add PInf MInf = NaN"
| "f64_add MInf PInf = NaN"
| "f64_add PInf _ = PInf"
| "f64_add _ PInf = PInf"
| "f64_add MInf _ = MInf"
| "f64_add _ MInf = MInf"

definition f64_sub :: "f64 \<Rightarrow> f64 \<Rightarrow> f64" where
  "f64_sub x y = f64_add x (f64_neg y)"

definition f64_sgn_inf :: "rat \<Rightarrow> f64 \<Rightarrow> f64" where
  "f64_sgn_inf x i = (if x = 0 then NaN else if 0 < x then i else f64_neg i)"

fun f64_mul :: "f64 \<Rightarrow> f64 \<Rightarrow> f64" where
  "f64_mul (Fin x) (Fin y) = mk_f64 (x * y)"
| "f64_mul NaN _ = NaN"
| "f64_mul _ NaN = NaN"
| "f64_mul (Fin x) i = f64_sgn_inf x i"
| "f64_mul i (Fin x) = f64_sgn_inf x i"
| "f64_mul PInf i = i"
| "f64_mul MInf i = f64_neg i"

text \<open>The divisor zero is taken as \<open>+0\<close>: the zeros the program divides by are converted integers.\<close>

fun f64_div :: "f64 \<Rightarrow> f64 \<Rightarrow> f64" where
  "f64_div (Fin x) (Fin y) =
     (if y = 0 then (if x = 0 then NaN else if 0 < x then PInf else MInf) else mk_f64 (x / y))"
| "f64_div NaN _ = NaN"
| "f64_div _ NaN = NaN"
| "f64_div (Fin x) _ = Fin 0"
| "f64_div i (Fin y) = (if y < 0 then f64_neg i else i)"
| "f64_div _ _ = NaN"

fun f64_less :: "f64 \<Rightarrow> f64 \<Rightarrow> bool" where
  "f64_less (Fin x) (Fin y) = (x < y)"
| "f64_less NaN _ = False"
| "f64_less _ NaN = False"
| "f64_less MInf y = (y \<noteq> MInf)"
| "f64_less x PInf = (x \<noteq> PInf)"
| "f64_less _ _ = False"

definition f64_ge :: "f64 \<Rightarrow> f64 \<Rightarrow> bool" where
  "f64_ge x y = (x \<noteq> NaN \<and> y \<noteq> NaN \<and> \<not> f64_less x y)"

text \<open>
  The conversion \<^verbatim>\<open>(int64_t) d\<close> truncates. Out of the range of \<^verbatim>\<open>int64_t\<close> (an infinity or a NaN
  included) it is undefined in C; x86-64 returns the least \<^verbatim>\<open>int64_t\<close>, and so does the model.
\<close>

definition trunc_rat :: "rat \<Rightarrow> int" where
  "trunc_rat x = (if 0 \<le> x then \<lfloor>x\<rfloor> else \<lceil>x\<rceil>)"

fun f64_to_int64 :: "f64 \<Rightarrow> int" where
  "f64_to_int64 (Fin x) =
     (let n = trunc_rat x in if - (2 ^ 63) \<le> n \<and> n < 2 ^ 63 then n else - (2 ^ 63))"
| "f64_to_int64 _ = - (2 ^ 63)"

section \<open>What rounding guarantees\<close>

lemma bitlen_ge_1: "0 < n \<Longrightarrow> 1 \<le> bitlen n"
  by (simp add: bitlen_def floorlog_def)

lemma bitlen_powi_bounds:
  assumes "0 < (n::int)"
  shows "2 powi (bitlen n - 1) \<le> (of_int n :: rat)" "(of_int n :: rat) < 2 powi (bitlen n)"
proof -
  have b: "1 \<le> bitlen n" using assms by (rule bitlen_ge_1)
  have bb: "2 ^ nat (bitlen n - 1) \<le> n" "n < 2 ^ nat (bitlen n)"
    using bitlen_bounds [OF assms] by auto
  have cast: "of_int (2 ^ nat k) = (2 powi k :: rat)" if "0 \<le> k" for k :: int
    using that by (simp add: power_int_def)
  show "2 powi (bitlen n - 1) \<le> (of_int n :: rat)"
    using cast [of "bitlen n - 1"] bb(1) b by (metis of_int_le_iff diff_ge_0_iff_ge)
  have "0 \<le> bitlen n" using b by simp
  then show "(of_int n :: rat) < 2 powi (bitlen n)"
    using cast [of "bitlen n"] bb(2) by (metis of_int_less_iff)
qed

lemma ilog2_bounds:
  assumes "x \<noteq> 0"
  shows "2 powi (ilog2 x) \<le> \<bar>x\<bar>" and "\<bar>x\<bar> < 2 powi (ilog2 x + 1)"
proof -
  obtain p q where pq: "quotient_of \<bar>x\<bar> = (p, q)" by (cases "quotient_of \<bar>x\<bar>")
  have q: "0 < q" using pq by (rule quotient_of_denom_pos)
  have x: "\<bar>x\<bar> = of_int p / of_int q" using pq by (rule quotient_of_div)
  have p: "0 < p"
  proof -
    have "0 < \<bar>x\<bar>" using assms by simp
    then have "0 < of_int p / (of_int q :: rat)" by (simp only: x)
    with q show ?thesis by (simp add: zero_less_divide_iff)
  qed
  define e where "e = bitlen p - bitlen q"
  note P = bitlen_powi_bounds [OF p] and Q = bitlen_powi_bounds [OF q]
  have Qpos: "0 < (of_int q :: rat)" using q by simp
  have up: "\<bar>x\<bar> < 2 powi (e + 1)"
  proof -
    have "(of_int p :: rat) < 2 powi (e + 1) * 2 powi (bitlen q - 1)"
      using P(2) by (simp add: e_def flip: power_int_add)
    also have "\<dots> \<le> 2 powi (e + 1) * of_int q" using Q(1) by (intro mult_left_mono) auto
    finally show ?thesis using Qpos by (simp add: x pos_divide_less_eq)
  qed
  have lo: "2 powi (e - 1) \<le> \<bar>x\<bar>"
  proof -
    have "2 powi (e - 1) * of_int q \<le> 2 powi (e - 1) * (2 powi (bitlen q) :: rat)"
      using Q(2) by (intro mult_left_mono) auto
    also have "\<dots> = 2 powi (bitlen p - 1)" by (simp add: e_def flip: power_int_add)
    also have "\<dots> \<le> of_int p" by (rule P(1))
    finally show ?thesis using Qpos by (simp add: x pos_le_divide_eq)
  qed
  have il: "ilog2 x = (if 2 powi e \<le> \<bar>x\<bar> then e else e - 1)"
    by (simp add: ilog2_def pq e_def Let_def)
  show "2 powi (ilog2 x) \<le> \<bar>x\<bar>" using lo by (simp add: il)
  show "\<bar>x\<bar> < 2 powi (ilog2 x + 1)" using up by (simp add: il)
qed

lemma rnd_even_near: "\<bar>of_int (rnd_even x) - x\<bar> \<le> 1 / 2"
proof -
  have "of_int \<lfloor>x\<rfloor> \<le> x" "x < of_int \<lfloor>x\<rfloor> + 1" by linarith+
  then show ?thesis by (auto simp: rnd_even_def Let_def abs_le_iff)
qed

lemma rnd_even_of_int [simp]: "rnd_even (of_int n) = n"
  by (simp add: rnd_even_def Let_def)

lemma rnd_even_ge: "of_int n \<le> x \<Longrightarrow> n \<le> rnd_even x"
proof -
  assume "of_int n \<le> x"
  then have "n \<le> \<lfloor>x\<rfloor>" by (simp add: le_floor_iff)
  then show ?thesis by (auto simp: rnd_even_def Let_def)
qed

lemma rnd_even_le: "x \<le> of_int n \<Longrightarrow> rnd_even x \<le> n"
proof -
  assume x: "x \<le> of_int n"
  show ?thesis
  proof (cases "x = of_int n")
    case False
    with x have "\<lfloor>x\<rfloor> < n" by (simp add: floor_less_iff)
    then show ?thesis by (auto simp: rnd_even_def Let_def)
  qed simp
qed

lemma two_powi_not_le_0 [simp]: "\<not> (2::rat) powi k \<le> 0"
  by (simp add: not_le)

lemma ilog2_lessI: "x \<noteq> 0 \<Longrightarrow> \<bar>x\<bar> < 2 powi k \<Longrightarrow> ilog2 x < k"
proof (rule ccontr)
  assume x: "x \<noteq> 0" "\<bar>x\<bar> < 2 powi k" and "\<not> ilog2 x < k"
  then have "(2 :: rat) powi k \<le> 2 powi (ilog2 x)" by (intro power_int_increasing) auto
  with ilog2_bounds(1) [OF x(1)] x(2) show False by linarith
qed

lemma ilog2_geI: "2 powi k \<le> \<bar>x\<bar> \<Longrightarrow> k \<le> ilog2 x"
proof (rule ccontr)
  assume x: "2 powi k \<le> \<bar>x\<bar>" and "\<not> k \<le> ilog2 x"
  then have "(2 :: rat) powi (ilog2 x + 1) \<le> 2 powi k" by (intro power_int_increasing) auto
  moreover have "x \<noteq> 0" using x by auto
  ultimately show False using ilog2_bounds(2) [of x] x by linarith
qed

text \<open>The relative error of a normal result is at most \<open>2\<^sup>-\<^sup>5\<^sup>3\<close>.\<close>

lemma fl_error:
  assumes "2 powi k \<le> \<bar>x\<bar>" and "- 1022 \<le> k"
  shows "\<bar>fl x - x\<bar> \<le> \<bar>x\<bar> / 2 ^ 53"
proof -
  have x0: "x \<noteq> 0" using assms(1) by auto
  define e where "e = f64_exp x"
  have e: "e = ilog2 x - 52" using ilog2_geI [OF assms(1)] assms(2) unfolding e_def f64_exp_def by (intro max_absorb1) linarith
  define y where "y = x * 2 powi (- e)"
  have xy: "x = y * 2 powi e" by (simp add: y_def power_int_minus)
  have "fl x - x = (of_int (rnd_even y) - y) * 2 powi e"
    using x0 by (subst (2) xy) (simp add: fl_def y_def e_def left_diff_distrib)
  then have "\<bar>fl x - x\<bar> = \<bar>of_int (rnd_even y) - y\<bar> * 2 powi e" by (simp add: abs_mult)
  also have "\<dots> \<le> 1 / 2 * 2 powi e" by (intro mult_right_mono rnd_even_near) auto
  also have "\<dots> = 2 powi (ilog2 x) / 2 ^ 53"
    by (simp add: e power_int_diff)
  also have "\<dots> \<le> \<bar>x\<bar> / 2 ^ 53"
    using ilog2_bounds(1) [OF x0] by (intro divide_right_mono) auto
  finally show ?thesis .
qed

text \<open>Numbers of at most 53 significant bits are not changed.\<close>

lemma fl_exact:
  assumes "\<bar>m\<bar> < 2 ^ 53" and "- 1074 \<le> k" and "x = of_int m * 2 powi k"
  shows "fl x = x"
proof (cases "x = 0")
  case True
  then show ?thesis by (simp add: fl_def)
next
  case False
  have "\<bar>x\<bar> < 2 powi (53 + k)"
  proof -
    have "\<bar>of_int m :: rat\<bar> < of_int (2 ^ 53)" using assms(1) by (simp only: of_int_abs [symmetric] of_int_less_iff)
    then have "\<bar>of_int m :: rat\<bar> * 2 powi k < 2 powi 53 * 2 powi k" by simp
    then show ?thesis by (simp add: assms(3) abs_mult power_int_add)
  qed
  then have "ilog2 x < 53 + k" by (rule ilog2_lessI [OF False])
  then have e: "f64_exp x \<le> k" using assms(2) by (simp add: f64_exp_def)
  define e where "e = f64_exp x"
  have "x * 2 powi (- e) = of_int m * (2 powi k * 2 powi (- e))" by (simp add: assms(3))
  also have "\<dots> = of_int m * 2 powi (k - e)" by (simp add: power_int_diff power_int_minus divide_inverse)
  also have "\<dots> = of_int (m * 2 ^ nat (k - e))" using e by (simp add: e_def power_int_def)
  finally have "rnd_even (x * 2 powi (- e)) = m * 2 ^ nat (k - e)" by (metis rnd_even_of_int)
  then have "fl x = of_int (m * 2 ^ nat (k - e)) * 2 powi e" using False by (simp add: fl_def e_def)
  also have "\<dots> = of_int m * (2 powi (k - e) * 2 powi e)" using e by (simp add: e_def power_int_def)
  also have "\<dots> = x" by (simp add: assms(3) flip: power_int_add)
  finally show ?thesis .
qed

lemma fl_of_int: "\<bar>n\<bar> < 2 ^ 53 \<Longrightarrow> fl (of_int n) = of_int n"
  by (rule fl_exact [where m = n and k = 0]) auto

lemma fl_0 [simp]: "fl 0 = 0" by (simp add: fl_def)

lemma fl_nonneg: "0 \<le> x \<Longrightarrow> 0 \<le> fl x"
  using rnd_even_ge [of 0 "x * 2 powi (- f64_exp x)"] by (simp add: fl_def)

text \<open>Rounding does not cross a power of two.\<close>

lemma fl_ge_pow2:
  assumes "2 powi k \<le> x" and "- 1074 \<le> k"
  shows "2 powi k \<le> fl x"
proof -
  have pk: "(0::rat) < 2 powi k" by simp
  then have x: "0 < x" using assms(1) by linarith
  define e where "e = f64_exp x"
  show ?thesis
  proof (cases "e \<le> k")
    case True
    have c: "(2::rat) powi (k - e) = of_int (2 ^ nat (k - e))" using True by (simp add: power_int_def)
    have "(2::rat) powi (k - e) = 2 powi k * 2 powi (- e)"
      by (simp add: power_int_diff power_int_minus divide_inverse)
    also have "\<dots> \<le> x * 2 powi (- e)" using assms(1) by (intro mult_right_mono) auto
    finally have "2 ^ nat (k - e) \<le> rnd_even (x * 2 powi (- e))"
      unfolding c by (rule rnd_even_ge)
    then have r: "(of_int (2 ^ nat (k - e)) :: rat) \<le> of_int (rnd_even (x * 2 powi (- e)))"
      by (simp only: of_int_le_iff)
    have "(2::rat) powi k = of_int (2 ^ nat (k - e)) * 2 powi e"
      unfolding c [symmetric] by (simp flip: power_int_add)
    also have "\<dots> \<le> of_int (rnd_even (x * 2 powi (- e))) * 2 powi e"
      by (rule mult_right_mono [OF r]) simp
    finally show ?thesis using x by (simp add: fl_def e_def)
  next
    case False
    then have e: "e = ilog2 x - 52" using assms(2) by (simp add: e_def f64_exp_def)
    have "(2::rat) powi 52 = 2 powi (ilog2 x) * 2 powi (- e)" by (simp add: e flip: power_int_add)
    also have "\<dots> \<le> x * 2 powi (- e)"
      using ilog2_bounds(1) [of x] x by (intro mult_right_mono) auto
    finally have "of_int (2 ^ 52) \<le> x * 2 powi (- e)" by simp
    then have "2 ^ 52 \<le> rnd_even (x * 2 powi (- e))" by (rule rnd_even_ge)
    then have "1 \<le> rnd_even (x * 2 powi (- e))" by (rule order_trans [rotated]) simp
    then have r: "(1 :: rat) \<le> of_int (rnd_even (x * 2 powi (- e)))" by simp
    have "(2::rat) powi k \<le> 2 powi e" using False by (intro power_int_increasing) auto
    then have "(2::rat) powi k \<le> 1 * 2 powi e" by simp
    also have "\<dots> \<le> of_int (rnd_even (x * 2 powi (- e))) * 2 powi e"
      by (rule mult_right_mono [OF r]) simp
    finally show ?thesis using x by (simp add: fl_def e_def)
  qed
qed

lemma fl_le_pow2:
  assumes "x \<le> 2 powi k" and "0 \<le> x" and "- 1074 \<le> k"
  shows "fl x \<le> 2 powi k"
proof (cases "x = 0")
  case True
  then show ?thesis by simp
next
  case False
  define e where "e = f64_exp x"
  have "ilog2 x \<le> k"
  proof (rule ccontr)
    assume "\<not> ilog2 x \<le> k"
    then have "(2::rat) powi (k + 1) \<le> 2 powi (ilog2 x)" by (intro power_int_increasing) auto
    also have "\<dots> \<le> x" using ilog2_bounds(1) [OF False] assms(2) by simp
    also have "\<dots> \<le> 2 powi k" by (rule assms(1))
    finally show False by (simp add: power_int_add)
  qed
  then have e: "e \<le> k" using assms(3) by (simp add: e_def f64_exp_def)
  have c: "(2::rat) powi (k - e) = of_int (2 ^ nat (k - e))" using e by (simp add: power_int_def)
  have "x * 2 powi (- e) \<le> 2 powi k * 2 powi (- e)" using assms(1) by (intro mult_right_mono) auto
  also have "\<dots> = 2 powi (k - e)" by (simp add: power_int_diff power_int_minus divide_inverse)
  finally have "rnd_even (x * 2 powi (- e)) \<le> 2 ^ nat (k - e)" unfolding c by (rule rnd_even_le)
  then have r: "of_int (rnd_even (x * 2 powi (- e))) \<le> (of_int (2 ^ nat (k - e)) :: rat)"
    by (simp only: of_int_le_iff)
  have "of_int (rnd_even (x * 2 powi (- e))) * 2 powi e \<le> (of_int (2 ^ nat (k - e)) :: rat) * 2 powi e"
    by (rule mult_right_mono [OF r]) simp
  also have "\<dots> = 2 powi k" unfolding c [symmetric] by (simp flip: power_int_add)
  finally show ?thesis using False by (simp add: fl_def e_def)
qed

end
