(* ===== verification/DgapUtil.thy ===== *)
theory DgapUtil
  imports DgapFp
begin

text \<open>
  The numeric helpers of \<^verbatim>\<open>dgap/src/util.h\<close> and the narrowing conversions \<^verbatim>\<open>graph.h\<close> relies on.
  The helpers take and return \<^verbatim>\<open>uint64_t\<close>, here \<open>64 word\<close>. \<^verbatim>\<open>__builtin_clzll(0)\<close> is undefined, so
  \<open>last_bit_set\<close> faults there, and with it \<open>floor_log2 0\<close>, \<open>ceil_log2 1\<close> and \<open>hyperceil 1\<close>.
\<close>

unbundle bit_operations_syntax

section \<open>Bit positions and powers of two\<close>

definition clzll :: "64 word \<Rightarrow> 64 word res" where
  "clzll x = (if x = 0 then Inl Undefined else Inr (word_of_int (64 - bitlen (uint x))))"

definition last_bit_set :: "64 word \<Rightarrow> 64 word res" where
  "last_bit_set x = sbind (clzll x) (\<lambda>c. Inr (64 - c))"

definition floor_log2 :: "64 word \<Rightarrow> 64 word res" where
  "floor_log2 x = sbind (last_bit_set x) (\<lambda>b. Inr (b - 1))"

definition ceil_log2 :: "64 word \<Rightarrow> 64 word res" where
  "ceil_log2 x = sbind (check (x > 0)) (\<lambda>_. last_bit_set (x - 1))"

definition floor_div :: "64 word \<Rightarrow> 64 word \<Rightarrow> 64 word" where
  "floor_div x y = x div y"

definition ceil_div :: "64 word \<Rightarrow> 64 word \<Rightarrow> 64 word" where
  "ceil_div x y = (if x = 0 then 0 else 1 + (x - 1) div y)"

definition hyperfloor :: "64 word \<Rightarrow> 64 word res" where
  "hyperfloor x = sbind (floor_log2 x) (\<lambda>k. Inr (push_bit (unat k) 1))"

definition hyperceil :: "64 word \<Rightarrow> 64 word res" where
  "hyperceil x = sbind (ceil_log2 x) (\<lambda>k. Inr (push_bit (unat k) 1))"

text \<open>
  \<^verbatim>\<open>flush_clwb_nolog\<close>: the addresses of the cache lines written back for \<open>n\<close> bytes at \<open>addr\<close>.
  Addresses are natural numbers: no object of a process ends within a cache line of \<open>2\<^sup>6\<^sup>4\<close>, so the
  address arithmetic does not wrap. \<^verbatim>\<open>addr & ~(FLUSH_ALIGN - 1)\<close> clears the low six bits.
\<close>

definition FLUSH_ALIGN :: nat where
  "FLUSH_ALIGN = 64"

function flush_lines :: "nat \<Rightarrow> nat \<Rightarrow> nat list" where
  "flush_lines uptr endp =
     (if uptr < endp then uptr # flush_lines (uptr + FLUSH_ALIGN) endp else [])"
  by pat_completeness auto
termination
  by (relation "measure (\<lambda>(u, e). e - u)") (auto simp: FLUSH_ALIGN_def)

declare flush_lines.simps [simp del]

definition flush_clwb_nolog :: "nat \<Rightarrow> nat \<Rightarrow> nat list" where
  "flush_clwb_nolog addr n = flush_lines (addr - addr mod FLUSH_ALIGN) (addr + n)"

lemma flush_lines_covers:
  assumes "u \<le> b" and "b < e"
  shows "\<exists>l \<in> set (flush_lines u e). l \<le> b \<and> b < l + FLUSH_ALIGN"
  using assms
proof (induction u e rule: flush_lines.induct)
  case (1 u e)
  show ?case
  proof (cases "b < u + FLUSH_ALIGN")
    case True
    with "1.prems" show ?thesis by (subst flush_lines.simps) auto
  next
    case False
    with "1.IH" "1.prems" have "\<exists>l \<in> set (flush_lines (u + FLUSH_ALIGN) e). l \<le> b \<and> b < l + FLUSH_ALIGN"
      by simp
    with "1.prems" show ?thesis by (subst flush_lines.simps) auto
  qed
qed

lemma flush_lines_aligned:
  "u mod FLUSH_ALIGN = 0 \<Longrightarrow> l \<in> set (flush_lines u e) \<Longrightarrow> l mod FLUSH_ALIGN = 0"
proof (induction u e rule: flush_lines.induct)
  case (1 u e)
  then show ?case by (subst (asm) flush_lines.simps) (auto split: if_splits)
qed

section \<open>Narrowing conversions\<close>

definition to_i32 :: "int \<Rightarrow> int" where
  "to_i32 n = signed_take_bit 31 n"

definition to_i64 :: "int \<Rightarrow> int" where
  "to_i64 n = signed_take_bit 63 n"

definition to_u64 :: "int \<Rightarrow> 64 word" where
  "to_u64 n = word_of_int n"

lemma to_i32_id [simp]: "- (2 ^ 31) \<le> n \<Longrightarrow> n < 2 ^ 31 \<Longrightarrow> to_i32 n = n"
  by (simp add: to_i32_def signed_take_bit_int_eq_self)

lemma to_i64_id [simp]: "- (2 ^ 63) \<le> n \<Longrightarrow> n < 2 ^ 63 \<Longrightarrow> to_i64 n = n"
  by (simp add: to_i64_def signed_take_bit_int_eq_self)

section \<open>What the helpers compute\<close>

lemma bitlen_uint64: "0 \<le> bitlen (uint (x :: 64 word))" "bitlen (uint (x :: 64 word)) \<le> 64"
proof -
  show "0 \<le> bitlen (uint x)" by (simp add: bitlen_def)
  have "uint x < 2 ^ 64" using uint_bounded [of x] by simp
  then show "bitlen (uint x) \<le> 64" using bitlen_le_iff_power [of "uint x" 64] by simp
qed

lemma last_bit_set_eq: "x \<noteq> 0 \<Longrightarrow> last_bit_set x = Inr (word_of_int (bitlen (uint x)))"
  by (simp add: last_bit_set_def clzll_def)

lemma last_bit_set_0: "last_bit_set 0 = Inl Undefined"
  by (simp add: last_bit_set_def clzll_def)

lemma uint_word_of_int_small: "0 \<le> k \<Longrightarrow> k < 2 ^ 64 \<Longrightarrow> uint (word_of_int k :: 64 word) = k"
  by (simp add: uint_word_of_int_eq take_bit_int_eq_self)

lemma last_bit_set_uint:
  "x \<noteq> 0 \<Longrightarrow> \<exists>b. last_bit_set x = Inr b \<and> uint b = bitlen (uint x)"
  using bitlen_uint64 [of x] by (auto simp: last_bit_set_eq uint_word_of_int_small)

lemma floor_log2_spec:
  assumes "x \<noteq> 0"
  shows "\<exists>k. floor_log2 x = Inr k \<and> 2 ^ unat k \<le> uint x \<and> uint x < 2 ^ (unat k + 1)"
proof -
  have pos: "0 < uint x" using assms by (metis uint_0_iff uint_ge_0 order_le_less)
  define b where "b = bitlen (uint x)"
  define n where "n = nat (b - 1)"
  have b: "1 \<le> b" "b \<le> 64" using bitlen_ge_1 [OF pos] bitlen_uint64(2) [of x] by (auto simp: b_def)
  define k where "k = (word_of_int (b - 1) :: 64 word)"
  have "floor_log2 x = Inr (word_of_int b - 1)"
    using assms by (simp add: floor_log2_def last_bit_set_eq b_def)
  moreover have "(word_of_int b - 1 :: 64 word) = k" by (simp add: k_def wi_hom_sub [symmetric])
  ultimately have f: "floor_log2 x = Inr k" by simp
  have "uint k = b - 1" using b uint_word_of_int_small [of "b - 1"] by (simp add: k_def)
  then have u: "unat k = n" by (simp add: n_def unat_eq_nat_uint)
  have n1: "nat b = n + 1" using b(1) by (simp add: n_def)
  have "2 ^ n \<le> uint x" "uint x < 2 ^ (n + 1)"
    using bitlen_bounds [OF pos] unfolding b_def [symmetric] n_def [symmetric] n1 by auto
  with f u show ?thesis by auto
qed

lemma floor_log2_less64:
  assumes "floor_log2 x = Inr k" shows "unat k < 64"
proof -
  have "x \<noteq> 0" using assms by (auto simp: floor_log2_def last_bit_set_0)
  then obtain k' where k': "floor_log2 x = Inr k'" "2 ^ unat k' \<le> uint x" using floor_log2_spec by blast
  have "uint x < 2 ^ 64" using uint_bounded [of x] by simp
  with k'(2) have "(2::int) ^ unat k' < 2 ^ 64" by linarith
  then have "unat k' < 64" by (rule power_less_imp_less_exp [rotated]) simp
  then show ?thesis using assms k' by simp
qed

end
