(* ===== verification/DgapGraph.thy ===== *)
theory DgapGraph
  imports DgapUtil
begin

text \<open>
  The graph of \<^verbatim>\<open>dgap/src/graph.h\<close>: its structs, the state of a \<^verbatim>\<open>CSRGraph\<close>, the accessors, the
  per-segment edge logs and the segment counters of the packed memory array.

  Integers of the C++ code (\<^verbatim>\<open>int32_t\<close> ids, \<^verbatim>\<open>int64_t\<close> indices) are \<open>int\<close>; signed overflow is
  undefined in C++ and does not occur for arrays below \<open>2\<^sup>3\<^sup>1\<close> cells. A pointer into an array is its
  index. Persistent and volatile arrays are lists; \<open>flushes\<close> records, newest first, the calls of
  \<^verbatim>\<open>flush_clwb_nolog\<close> with the object each one writes back.
\<close>

definition MAX_LOG_ENTRIES :: int where
  "MAX_LOG_ENTRIES = 170"

definition MAX_ULOG_ENTRIES :: int where
  "MAX_ULOG_ENTRIES = 512"

section \<open>Data\<close>

record LogEntry =
  le_u :: int
  le_v :: int
  le_prev :: int

text \<open>The two value constructors and the comparison operators of \<^verbatim>\<open>LogEntry\<close>.\<close>

definition LogEntry2 :: "int \<Rightarrow> int \<Rightarrow> LogEntry" where
  "LogEntry2 u v = \<lparr>le_u = u, le_v = v, le_prev = -1\<rparr>"

definition LogEntry3 :: "int \<Rightarrow> int \<Rightarrow> int \<Rightarrow> LogEntry" where
  "LogEntry3 u v p = \<lparr>le_u = u, le_v = v, le_prev = p\<rparr>"

definition LogEntry_less :: "LogEntry \<Rightarrow> LogEntry \<Rightarrow> bool" where
  "LogEntry_less a b = (le_u a < le_u b)"

definition LogEntry_eq :: "LogEntry \<Rightarrow> LogEntry \<Rightarrow> bool" where
  "LogEntry_eq a b = (le_u a = le_u b \<and> le_v a = le_v b)"

record PMALeafSegment =
  lf_locked :: bool
  on_rebalance :: int

definition new_leaf :: PMALeafSegment where
  "new_leaf = \<lparr>lf_locked = False, on_rebalance = 0\<rparr>"

record vertex_element =
  v_index :: int
  v_degree :: int
  v_offset :: int

datatype flush_ev =
    FlEdges int int     \<comment> \<open>cells of the edge array: first cell, count\<close>
  | FlLogEntry int int  \<comment> \<open>an entry of a segment's log: segment, entry\<close>
  | FlLogPtrVar int int \<comment> \<open>the DRAM variable \<^verbatim>\<open>log_ptr_[seg]\<close>: segment, entries\<close>
  | FlUlogPtrVar int    \<comment> \<open>the DRAM variable \<^verbatim>\<open>ulog_ptr_[tid]\<close>\<close>
  | FlOplog int         \<comment> \<open>\<^verbatim>\<open>oplog_ptr_[tid]\<close>\<close>
  | FlEdgesOid | FlCapacity

record dgraph =
  num_vertices :: int
  num_edges :: int
  avg_degree :: int
  elem_capacity :: int
  segment_size :: int
  segment_count :: int
  tree_height :: int
  delta_up :: f64
  directed :: bool
  edges :: "int list"
  vertices :: "vertex_element list"
  log_ptr :: "LogEntry list list"
  log_segment_idx :: "int list"
  segment_edges_actual :: "int list"
  segment_edges_total :: "int list"
  leaf_segments :: "PMALeafSegment list"
  ulog_ptr :: "int list list"
  oplog_ptr :: "int list"
  flushes :: "flush_ev list"

section \<open>Accessors\<close>

definition get_segment_id :: "dgraph \<Rightarrow> int \<Rightarrow> int" where
  "get_segment_id g v = cdiv v (segment_size g) + segment_count g"

definition num_edges_directed :: "dgraph \<Rightarrow> int" where
  "num_edges_directed g = (if directed g then num_edges g else 2 * num_edges g)"

definition out_degree :: "dgraph \<Rightarrow> int \<Rightarrow> int res" where
  "out_degree g v = sbind (rd (vertices g) v) (\<lambda>x. Inr (v_degree x - 1))"

definition in_degree :: "dgraph \<Rightarrow> int \<Rightarrow> int res" where
  "in_degree g v = sbind (rd (vertices g) v) (\<lambda>x. Inr (v_degree x - 1))"

definition flush :: "flush_ev \<Rightarrow> dgraph \<Rightarrow> dgraph" where
  "flush e g = g\<lparr>flushes := e # flushes g\<rparr>"

definition set_edge :: "dgraph \<Rightarrow> int \<Rightarrow> int \<Rightarrow> dgraph res" where
  "set_edge g i x = sbind (wr (edges g) i x) (\<lambda>es. Inr (g\<lparr>edges := es\<rparr>))"

definition set_vertex :: "dgraph \<Rightarrow> int \<Rightarrow> vertex_element \<Rightarrow> dgraph res" where
  "set_vertex g i x = sbind (wr (vertices g) i x) (\<lambda>vs. Inr (g\<lparr>vertices := vs\<rparr>))"

text \<open>\<^verbatim>\<open>segment_edges_actual[i] += d\<close>\<close>

definition add_actual :: "dgraph \<Rightarrow> int \<Rightarrow> int \<Rightarrow> dgraph res" where
  "add_actual g i d = sbind (rd (segment_edges_actual g) i) (\<lambda>x.
     sbind (wr (segment_edges_actual g) i (x + d)) (\<lambda>xs. Inr (g\<lparr>segment_edges_actual := xs\<rparr>)))"

definition have_space_onseg :: "dgraph \<Rightarrow> int \<Rightarrow> int \<Rightarrow> bool res" where
  "have_space_onseg g src loc =
     (if src = num_vertices g - 1 \<and> elem_capacity g > loc then Inr True
      else if src < num_vertices g - 1
           then sbind (rd (vertices g) (src + 1)) (\<lambda>x. Inr (v_index x > loc))
           else Inr False)"

section \<open>Per-segment edge logs\<close>

definition insert_into_log :: "dgraph \<Rightarrow> int \<Rightarrow> int \<Rightarrow> int \<Rightarrow> dgraph res" where
  "insert_into_log g seg src dst =
     sbind (rd (log_segment_idx g) seg) (\<lambda>idx.
     sbind (check (idx < MAX_LOG_ENTRIES)) (\<lambda>_.
     sbind (rd (vertices g) src) (\<lambda>x.
     sbind (check (v_offset x < MAX_LOG_ENTRIES)) (\<lambda>_.
     sbind (check (src \<ge> seg * segment_size g \<and> src < seg * segment_size g + segment_size g)) (\<lambda>_.
     sbind (rd (log_ptr g) seg) (\<lambda>row.
     sbind (wr row idx \<lparr>le_u = src, le_v = dst, le_prev = v_offset x\<rparr>) (\<lambda>row'.
     sbind (wr (log_ptr g) seg row') (\<lambda>lp.
     sbind (set_vertex (flush (FlLogEntry seg idx) (g\<lparr>log_ptr := lp\<rparr>)) src (x\<lparr>v_offset := idx\<rparr>)) (\<lambda>g.
     sbind (wr (log_segment_idx g) seg (idx + 1)) (\<lambda>li.
     Inr (g\<lparr>log_segment_idx := li\<rparr>)))))))))))"

definition zero_entry :: LogEntry where
  "zero_entry = \<lparr>le_u = 0, le_v = 0, le_prev = 0\<rparr>"

text \<open>\<^verbatim>\<open>memset\<close> of the first \<open>n\<close> entries of a log to zero.\<close>

definition zero_prefix :: "LogEntry list \<Rightarrow> int \<Rightarrow> LogEntry list res" where
  "zero_prefix row n =
     (if 0 \<le> n \<and> n \<le> len row then Inr (replicate (nat n) zero_entry @ drop (nat n) row)
      else Inl OutOfBounds)"

definition release_log :: "dgraph \<Rightarrow> int \<Rightarrow> dgraph res" where
  "release_log g seg =
     sbind (rd (log_segment_idx g) seg) (\<lambda>idx.
     if idx = 0 then Inr g else
     sbind (rd (log_ptr g) seg) (\<lambda>row.
     sbind (zero_prefix row idx) (\<lambda>row'.
     sbind (wr (log_ptr g) seg row') (\<lambda>lp.
     sbind (wr (log_segment_idx g) seg 0) (\<lambda>li.
     Inr (flush (FlLogPtrVar seg idx) (g\<lparr>log_ptr := lp, log_segment_idx := li\<rparr>)))))))"

function release_logs :: "dgraph \<Rightarrow> int \<Rightarrow> int \<Rightarrow> dgraph res" where
  "release_logs g i nd_seg =
     (if i < nd_seg
      then sbind (release_log g (i - segment_count g)) (\<lambda>g'. release_logs g' (i + 1) nd_seg)
      else Inr g)"
  by pat_completeness auto
termination
  by (relation "measure (\<lambda>(g, i, n). nat (n - i))") auto

declare release_logs.simps [simp del]

section \<open>Segment counters\<close>

text \<open>\<^verbatim>\<open>recount_segment_actual\<close>: the inner and the outer loop.\<close>

function recount_actual_seg :: "dgraph \<Rightarrow> int \<Rightarrow> int \<Rightarrow> int \<Rightarrow> int \<Rightarrow> (int \<times> int) res" where
  "recount_actual_seg g vid end_vertex p ne =
     (if vid < end_vertex
      then sbind (rd (vertices g) vid) (\<lambda>x.
           recount_actual_seg g (vid + 1) end_vertex (p + v_degree x) (ne + v_degree x))
      else Inr (p, ne))"
  by pat_completeness auto
termination
  by (relation "measure (\<lambda>(g, i, n, _, _). nat (n - i))") auto

function recount_actual_from :: "dgraph \<Rightarrow> int \<Rightarrow> dgraph res" where
  "recount_actual_from g seg_id =
     (if seg_id < segment_count g
      then sbind (recount_actual_seg g (seg_id * segment_size g)
                    (min ((seg_id + 1) * segment_size g) (num_vertices g)) 0 (num_edges g)) (\<lambda>(p, ne).
           sbind (wr (segment_edges_actual g) (seg_id + segment_count g) p) (\<lambda>xs.
           recount_actual_from (g\<lparr>segment_edges_actual := xs, num_edges := ne\<rparr>) (seg_id + 1)))
      else Inr g)"
  by pat_completeness auto
termination
  by (relation "measure (\<lambda>(g, i). nat (segment_count g - i))") auto

definition recount_segment_actual :: "dgraph \<Rightarrow> dgraph res" where
  "recount_segment_actual g =
     recount_actual_from (g\<lparr>num_edges := 0,
       segment_edges_actual := replicate (nat (segment_count g * 2)) 0\<rparr>) 0"

text \<open>The loop the two \<^verbatim>\<open>recount_segment_total\<close> functions share.\<close>

definition segment_total_of :: "dgraph \<Rightarrow> int \<Rightarrow> int res" where
  "segment_total_of g i =
     sbind (if i = segment_count g - 1 then Inr (elem_capacity g)
            else sbind (rd (vertices g) ((i + 1) * segment_size g)) (\<lambda>x. Inr (v_index x))) (\<lambda>next_starter.
     sbind (rd (vertices g) (i * segment_size g)) (\<lambda>x. Inr (next_starter - v_index x)))"

function recount_total_range :: "dgraph \<Rightarrow> int \<Rightarrow> int \<Rightarrow> dgraph res" where
  "recount_total_range g i end_seg =
     (if i < end_seg
      then sbind (segment_total_of g i) (\<lambda>p.
           sbind (wr (segment_edges_total g) (i + segment_count g) p) (\<lambda>xs.
           recount_total_range (g\<lparr>segment_edges_total := xs\<rparr>) (i + 1) end_seg))
      else Inr g)"
  by pat_completeness auto
termination
  by (relation "measure (\<lambda>(g, i, n). nat (n - i))") auto

declare recount_actual_seg.simps [simp del] recount_actual_from.simps [simp del]
  recount_total_range.simps [simp del]

definition recount_segment_total :: "dgraph \<Rightarrow> dgraph res" where
  "recount_segment_total g =
     recount_total_range (g\<lparr>segment_edges_total := replicate (nat (segment_count g * 2)) 0\<rparr>)
       0 (segment_count g)"

definition recount_segment_total_range :: "dgraph \<Rightarrow> int \<Rightarrow> int \<Rightarrow> dgraph res" where
  "recount_segment_total_range g start_vertex end_vertex =
     recount_total_range g (get_segment_id g start_vertex - segment_count g)
       (get_segment_id g end_vertex - segment_count g)"

definition reconstruct_pma_tree :: "dgraph \<Rightarrow> dgraph res" where
  "reconstruct_pma_tree g = sbind (recount_segment_actual g) recount_segment_total"

end
