(* ===== verification/DgapPositions.thy ===== *)
theory DgapPositions
  imports DgapGraph
begin

text \<open>
  \<^verbatim>\<open>calculate_positions\<close> of \<^verbatim>\<open>graph.h\<close>: where each vertex of a window starts after the free cells of
  the window have been spread in proportion to the degrees. The code computes in doubles and asserts
  twice; the lemmas here show that for windows that end below cell \<open>2\<^sup>2\<^sup>4\<close> neither assertion can fail,
  whatever the rounding does, and that the positions leave room for every vertex.
\<close>

section \<open>The function\<close>

definition precision_pos :: f64 where
  "precision_pos = Fin 100000000"

text \<open>The per-edge step, cut to eight decimal digits.\<close>

definition position_step :: "int \<Rightarrow> int \<Rightarrow> f64 res" where
  "position_step gaps total_degree =
     (let step = f64_div (f64_of_int gaps) (f64_of_int total_degree);
          k = f64_to_int64 (f64_mul step precision_pos)
      in sbind (check (k > 0)) (\<lambda>_. Inr (f64_div (f64_of_int k) precision_pos)))"

definition next_position :: "f64 \<Rightarrow> int \<Rightarrow> int \<Rightarrow> f64" where
  "next_position step ni degree =
     f64_add (f64_of_int ni)
       (f64_add (f64_of_int degree) (f64_mul step (f64_of_int (degree + 1))))"

function positions_loop :: "dgraph \<Rightarrow> f64 \<Rightarrow> int \<Rightarrow> int \<Rightarrow> int \<Rightarrow> f64 \<Rightarrow> int list res" where
  "positions_loop g step boundary i end_vertex index_d =
     (if i < end_vertex
      then (let ni = f64_to_int64 index_d in
            sbind (rd (vertices g) i) (\<lambda>x.
            sbind (check (ni + v_degree x \<le> boundary)) (\<lambda>_.
            sbind (positions_loop g step boundary (i + 1) end_vertex
                     (next_position step ni (v_degree x))) (\<lambda>rest.
            Inr (ni # rest)))))
      else Inr [])"
  by pat_completeness auto
termination
  by (relation "measure (\<lambda>(g, s, b, i, e, d). nat (e - i))") auto

declare positions_loop.simps [simp del]

definition index_boundary :: "dgraph \<Rightarrow> int \<Rightarrow> int res" where
  "index_boundary g end_vertex =
     (if end_vertex \<ge> num_vertices g then Inr (elem_capacity g)
      else sbind (rd (vertices g) end_vertex) (\<lambda>x. Inr (v_index x)))"

definition calculate_positions :: "dgraph \<Rightarrow> int \<Rightarrow> int \<Rightarrow> int \<Rightarrow> int \<Rightarrow> int list res" where
  "calculate_positions g start_vertex end_vertex gaps total_degree =
     (let size = end_vertex - start_vertex; total_degree = total_degree + size in
      sbind (index_boundary g end_vertex) (\<lambda>boundary.
      sbind (rd (vertices g) start_vertex) (\<lambda>x.
      sbind (position_step gaps total_degree) (\<lambda>step.
      positions_loop g step boundary start_vertex end_vertex (f64_of_int (v_index x))))))"

section \<open>Rounding of the values that occur\<close>

lemma fl_upper: "2 powi k \<le> x \<Longrightarrow> - 1022 \<le> k \<Longrightarrow> fl x \<le> x * (1 + 1 / 2 ^ 53)"
proof -
  assume k: "2 powi k \<le> x" "- 1022 \<le> k"
  have "(0::rat) < 2 powi k" by simp
  then have x: "0 < x" using k(1) by linarith
  with fl_error [of k x] k have "\<bar>fl x - x\<bar> \<le> x / 2 ^ 53" by simp
  then have "fl x - x \<le> x / 2 ^ 53" by linarith
  then show ?thesis by (simp only: distrib_left) simp
qed

lemma fl_ge_int:
  assumes "of_int n \<le> x" and "0 \<le> n" and "n < 2 ^ 53"
  shows "of_int n \<le> fl x"
proof (cases "f64_exp x \<le> 0")
  case True
  show ?thesis
  proof (cases "x = 0")
    case True
    then show ?thesis using assms by simp
  next
    case False
    have c: "(2::rat) powi (- f64_exp x) = of_int (2 ^ nat (- f64_exp x))"
      using True by (simp add: power_int_def)
    have "of_int (n * 2 ^ nat (- f64_exp x)) \<le> x * 2 powi (- f64_exp x)"
      unfolding of_int_mult c [symmetric] using assms(1) by (intro mult_right_mono) auto
    then have "n * 2 ^ nat (- f64_exp x) \<le> rnd_even (x * 2 powi (- f64_exp x))" by (rule rnd_even_ge)
    then have r: "of_int (n * 2 ^ nat (- f64_exp x)) \<le> (of_int (rnd_even (x * 2 powi (- f64_exp x))) :: rat)"
      by (simp only: of_int_le_iff)
    have "(of_int n :: rat) = of_int n * (2 powi (- f64_exp x) * 2 powi f64_exp x)"
      by (simp flip: power_int_add)
    also have "\<dots> = of_int (n * 2 ^ nat (- f64_exp x)) * 2 powi f64_exp x" by (simp add: c)
    also have "\<dots> \<le> of_int (rnd_even (x * 2 powi (- f64_exp x))) * 2 powi f64_exp x"
      by (rule mult_right_mono [OF r]) simp
    finally show ?thesis using False by (simp add: fl_def)
  qed
next
  case False
  then have "53 \<le> ilog2 x" by (simp add: f64_exp_def)
  have x: "0 < x"
  proof -
    have "(0::rat) \<le> of_int n" using assms(2) by simp
    then have "0 \<le> x" using assms(1) by linarith
    moreover have "x \<noteq> 0" using False by (auto simp: f64_exp_def ilog2_def bitlen_def floorlog_def)
    ultimately show ?thesis by simp
  qed
  have "(2::rat) powi 53 \<le> 2 powi (ilog2 x)" using \<open>53 \<le> ilog2 x\<close> by (intro power_int_increasing) auto
  also have "\<dots> \<le> x" using ilog2_bounds(1) [of x] x by simp
  finally have "2 powi 53 \<le> fl x" by (intro fl_ge_pow2) auto
  moreover have "(of_int n :: rat) < of_int (2 ^ 53)" using assms(3) by (simp only: of_int_less_iff)
  ultimately show ?thesis by simp
qed

lemma mk_f64_small:
  assumes "0 \<le> x" and "x \<le> 2 powi 62"
  shows "mk_f64 x = Fin (fl x)"
proof -
  have "fl x \<le> 2 powi 62" using assms by (intro fl_le_pow2) auto
  moreover have "(2::rat) powi 62 < f64_overflow"
    unfolding power_int_numeral f64_overflow_def by (rule power_strict_increasing) simp_all
  moreover have "0 \<le> fl x" using assms(1) by (rule fl_nonneg)
  moreover have "0 \<le> f64_overflow" by (simp only: f64_overflow_def zero_le_power zero_le_numeral)
  ultimately have "fl x < f64_overflow" "- f64_overflow < fl x \<or> fl x = - f64_overflow \<and> f64_overflow = 0"
    by linarith+
  moreover have "f64_overflow \<noteq> 0" by (simp only: f64_overflow_def power_not_zero zero_neq_numeral [symmetric] not_False_eq_True)
  ultimately show ?thesis by (simp add: mk_f64_def Let_def not_le)
qed

lemma f64_of_int_small: "0 \<le> n \<Longrightarrow> n < 2 ^ 53 \<Longrightarrow> f64_of_int n = Fin (of_int n)"
proof -
  assume n: "0 \<le> n" "n < 2 ^ 53"
  have "(of_int n :: rat) \<le> of_int (2 ^ 53)" using n(2) by (simp only: of_int_le_iff)
  then have "(of_int n :: rat) \<le> 2 powi 62" by simp
  with n show ?thesis by (simp add: f64_of_int_def mk_f64_small fl_of_int)
qed

lemma f64_to_int64_floor:
  assumes "0 \<le> x" and "x < 2 ^ 62"
  shows "f64_to_int64 (Fin x) = \<lfloor>x\<rfloor>"
proof -
  have "0 \<le> \<lfloor>x\<rfloor>" using assms(1) by simp
  moreover have "\<lfloor>x\<rfloor> < 2 ^ 62" using assms(2) by (simp add: floor_less_iff)
  ultimately show ?thesis using assms(1) by (simp add: trunc_rat_def Let_def)
qed

declare f64_to_int64.simps [simp del]

section \<open>The step\<close>

text \<open>
  \<open>f64_ulp_rel\<close> is the relative error of one operation. The factor \<open>k\<close> the code cuts the step to
  never exceeds the exact quotient: the two roundings before the cut shift it by less than one part
  in \<open>gaps * 10\<^sup>8\<close>.
\<close>

abbreviation eps53 :: rat where
  "eps53 \<equiv> 1 / 2 ^ 53"

lemma position_step_ok:
  assumes g: "0 < gaps" "gaps \<le> 2 ^ 24" and t: "0 < tot" "tot \<le> 2 ^ 25"
  obtains k where "position_step gaps tot = Inr (f64_div (f64_of_int k) precision_pos)"
    and "0 < k" and "k * tot \<le> gaps * 10 ^ 8" and "k \<le> 2 ^ 52" and "tot \<le> gaps \<Longrightarrow> 10 ^ 8 \<le> k"
proof -
  define q :: rat where "q = of_int gaps / of_int tot"
  have tr: "(0::rat) < of_int tot" "(of_int tot :: rat) \<le> 2 ^ 25"
    using t by (simp, metis of_int_le_iff of_int_numeral of_int_power)
  have gr: "(1::rat) \<le> of_int gaps" "(of_int gaps :: rat) \<le> 2 ^ 24"
    using g by (simp, metis of_int_le_iff of_int_numeral of_int_power)
  have q_lo: "1 / 2 ^ 25 \<le> q"
    unfolding q_def by (rule frac_le) (use gr tr in auto)
  have t1: "(1::rat) \<le> of_int tot" using t by simp
  have q_hi: "q \<le> 2 ^ 24"
  proof -
    have "q \<le> of_int gaps / 1" unfolding q_def by (rule frac_le) (use gr t1 in auto)
    then show ?thesis using gr(2) by linarith
  qed
  have q0: "0 \<le> q" using q_lo by (rule order_trans [rotated]) simp
  have q_lo': "2 powi (- 25) \<le> q" using q_lo by (simp add: power_int_minus inverse_eq_divide)
  define s where "s = fl q"
  have s_lo: "2 powi (- 25) \<le> s" unfolding s_def using q_lo' by (rule fl_ge_pow2) simp
  have s_hi: "s \<le> q * (1 + eps53)" unfolding s_def using q_lo' by (rule fl_upper) simp
  have s_hi': "s \<le> 2 powi 24" unfolding s_def using q_hi q0 by (intro fl_le_pow2) auto
  have s0: "0 \<le> s" using s_lo by (rule order_trans [rotated]) simp
  have div: "f64_div (f64_of_int gaps) (f64_of_int tot) = Fin s"
    using g t tr q_hi q0 by (simp add: f64_of_int_small s_def mk_f64_small flip: q_def)
  define y where "y = fl (s * 100000000)"
  have m_lo: "2 powi 1 \<le> s * 100000000"
    using mult_right_mono [OF s_lo, of 100000000] by (simp add: power_int_minus)
  have y_lo: "2 powi 1 \<le> y" unfolding y_def using m_lo by (rule fl_ge_pow2) simp
  have y_hi: "y \<le> s * 100000000 * (1 + eps53)" unfolding y_def using m_lo by (rule fl_upper) simp
  have m_hi: "s * 100000000 \<le> 2 powi 51" using mult_right_mono [OF s_hi', of 100000000] by simp
  have y_hi': "y \<le> 2 powi 51" unfolding y_def using m_hi s0 by (intro fl_le_pow2) auto
  have mul: "f64_mul (Fin s) precision_pos = Fin y"
    using m_hi s0 by (simp add: precision_pos_def y_def mk_f64_small)
  define k where "k = \<lfloor>y\<rfloor>"
  have y0: "0 \<le> y" using y_lo by simp
  have toint: "f64_to_int64 (Fin y) = k"
    unfolding k_def using y0 y_hi' by (intro f64_to_int64_floor) simp_all
  have k0: "0 < k" unfolding k_def using y_lo by simp
  have k_le: "of_int k \<le> y" unfolding k_def by simp
  have "of_int (k * tot) \<le> y * of_int tot" using k_le tr(1) by (simp add: mult_right_mono)
  also have "\<dots> \<le> (q * (1 + eps53) * 100000000 * (1 + eps53)) * of_int tot"
  proof (rule mult_right_mono)
    have "y \<le> s * 100000000 * (1 + eps53)" by (rule y_hi)
    also have "\<dots> \<le> q * (1 + eps53) * 100000000 * (1 + eps53)"
      using s_hi by (intro mult_right_mono) auto
    finally show "y \<le> q * (1 + eps53) * 100000000 * (1 + eps53)" .
  qed (use tr in simp)
  also have "\<dots> = of_int gaps * (100000000 * ((1 + eps53) * (1 + eps53)))"
    using tr(1) by (simp add: q_def)
  also have "\<dots> = of_int gaps * 100000000 + of_int gaps * (100000000 * ((1 + eps53) * (1 + eps53) - 1))"
    by (simp only: distrib_left [symmetric]) simp
  also have "\<dots> < of_int gaps * 100000000 + 1"
  proof -
    have "of_int gaps * (100000000 * ((1 + eps53) * (1 + eps53) - 1)) \<le> 2 ^ 24 * (100000000 * ((1 + eps53) * (1 + eps53) - 1))"
      using gr(2) by (intro mult_right_mono) auto
    also have "\<dots> < 1" by simp
    finally show ?thesis by simp
  qed
  finally have "(of_int (k * tot) :: rat) < of_int (gaps * 10 ^ 8 + 1)" by simp
  then have "k * tot < gaps * 10 ^ 8 + 1" by (simp only: of_int_less_iff)
  then have kt: "k * tot \<le> gaps * 10 ^ 8" by linarith
  have "(of_int k :: rat) \<le> of_int (2 ^ 52)" using k_le y_hi' by simp
  then have k_hi: "k \<le> 2 ^ 52" by (simp only: of_int_le_iff)
  have "position_step gaps tot = Inr (f64_div (f64_of_int k) precision_pos)"
    using div mul toint k0 by (simp add: position_step_def Let_def)
  moreover have "10 ^ 8 \<le> k" if le: "tot \<le> gaps"
  proof -
    have "(of_int tot :: rat) \<le> of_int gaps" using le by (simp only: of_int_le_iff)
    then have "2 powi 0 \<le> q" using tr(1) by (simp add: q_def)
    then have "2 powi 0 \<le> s" unfolding s_def by (rule fl_ge_pow2) simp
    then have "of_int (10 ^ 8) \<le> s * 100000000" by simp
    then have "of_int (10 ^ 8) \<le> y" unfolding y_def by (rule fl_ge_int) simp_all
    then show ?thesis unfolding k_def by (simp only: le_floor_iff)
  qed
  ultimately show thesis using k0 kt k_hi that by blast
qed

section \<open>One position from the one before\<close>

lemma rounding_chain:
  fixes a D d n c :: rat
  assumes s: "s \<le> a * c" and p: "p \<le> s * D * c" and q: "q \<le> (d + p) * c" and r: "r \<le> (n + q) * c"
    and c: "1 \<le> c" and nn: "0 \<le> a" "0 \<le> D" "0 \<le> d" "0 \<le> n"
  shows "r \<le> (n + (d + a * D)) * (c * c * c * c)"
proof -
  have c0: "0 \<le> c" using c by simp
  have cc: "1 \<le> c * c" using mult_mono [OF c c] c0 by simp
  have ccc: "1 \<le> c * c * c" using mult_mono [OF cc c] c0 by simp
  have aD: "0 \<le> a * D" using nn by simp
  have "p \<le> a * c * D * c"
    using p mult_right_mono [OF mult_right_mono [OF s nn(2)] c0] by (rule order_trans)
  then have p': "p \<le> a * D * (c * c)" by (simp add: mult_ac)
  have "d + p \<le> d * (c * c) + a * D * (c * c)"
    using p' mult_left_mono [OF cc nn(3)] by simp
  then have "q \<le> (d * (c * c) + a * D * (c * c)) * c"
    using q mult_right_mono [of _ _ c] c0 by (meson order_trans)
  then have q': "q \<le> (d + a * D) * (c * c * c)" by (simp add: algebra_simps)
  have "n + q \<le> n * (c * c * c) + (d + a * D) * (c * c * c)"
    using q' mult_left_mono [OF ccc nn(4)] by simp
  then have "r \<le> (n * (c * c * c) + (d + a * D) * (c * c * c)) * c"
    using r mult_right_mono [of _ _ c] c0 by (meson order_trans)
  then show ?thesis by (simp add: algebra_simps)
qed

lemma next_position_ok:
  assumes n: "0 \<le> ni" and d: "0 \<le> d" and k: "0 < k" "k \<le> 2 ^ 52"
    and room: "(ni + d) * 10 ^ 8 + k * (d + 1) \<le> 2 ^ 24 * 10 ^ 8"
  obtains r N where "next_position (f64_div (f64_of_int k) precision_pos) ni d = Fin r"
    and "f64_to_int64 (Fin r) = N" and "ni + d \<le> N"
    and "N * 10 ^ 8 \<le> (ni + d) * 10 ^ 8 + k * (d + 1)" and "10 ^ 8 \<le> k \<Longrightarrow> ni + d < N"
proof -
  define a :: rat where "a = of_int k / 100000000"
  define D :: rat where "D = of_int (d + 1)"
  define c :: rat where "c = 1 + eps53"
  define x :: rat where "x = of_int ni + (of_int d + a * D)"
  have kr: "(1::rat) \<le> of_int k" using k by simp
  have dr: "(0::rat) \<le> of_int d" "1 \<le> D" using d by (simp_all add: D_def)
  have nr: "(0::rat) \<le> of_int ni" using n by simp
  have c: "1 \<le> c" "c \<le> 2" by (simp_all add: c_def)
  have xA: "x * 100000000 = of_int ((ni + d) * 10 ^ 8 + k * (d + 1))"
    by (simp add: x_def a_def D_def algebra_simps)
  have "(of_int ((ni + d) * 10 ^ 8 + k * (d + 1)) :: rat) \<le> of_int (2 ^ 24 * 10 ^ 8)"
    using room by (simp only: of_int_le_iff)
  then have x_hi: "x \<le> 2 ^ 24" using xA by simp
  have a_lo: "2 powi (- 27) \<le> a" using kr by (simp add: a_def power_int_minus)
  have pos: "(0::rat) < 2 powi (- 27)" by simp
  have a0: "0 \<le> a" using a_lo pos by linarith
  have aD: "a \<le> a * D" using mult_left_mono [OF dr(2) a0] by simp
  have parts: "a * D \<le> 2 ^ 24" "of_int d \<le> (2::rat) ^ 24" "of_int ni \<le> (2::rat) ^ 24" "a \<le> 2 ^ 24"
    using x_hi dr nr a0 aD unfolding x_def by linarith+
  define s where "s = fl a"
  have s_lo: "2 powi (- 27) \<le> s" unfolding s_def using a_lo by (rule fl_ge_pow2) simp
  have s_hi: "s \<le> a * c" unfolding s_def c_def using a_lo by (rule fl_upper) simp
  have s0: "0 \<le> s" using s_lo pos by linarith
  have "s * 1 \<le> s * D" by (rule mult_left_mono [OF dr(2) s0])
  then have sD_lo: "2 powi (- 27) \<le> s * D" using s_lo by linarith
  define p where "p = fl (s * D)"
  have p_lo: "2 powi (- 27) \<le> p" unfolding p_def using sD_lo by (rule fl_ge_pow2) simp
  have p_hi: "p \<le> s * D * c" unfolding p_def c_def using sD_lo by (rule fl_upper) simp
  define q where "q = fl (of_int d + p)"
  have dp_lo: "2 powi (- 27) \<le> of_int d + p" using p_lo dr(1) by linarith
  have q_lo: "2 powi (- 27) \<le> q" unfolding q_def using dp_lo by (rule fl_ge_pow2) simp
  have q_hi: "q \<le> (of_int d + p) * c" unfolding q_def c_def using dp_lo by (rule fl_upper) simp
  define r where "r = fl (of_int ni + q)"
  have nq_lo: "2 powi (- 27) \<le> of_int ni + q" using q_lo nr by linarith
  have "r \<le> (of_int ni + q) * c" unfolding r_def c_def using nq_lo by (rule fl_upper) simp
  then have "r \<le> x * (c * c * c * c)"
    unfolding x_def using s_hi p_hi q_hi c(1) a0 dr nr by (intro rounding_chain) auto
  also have "\<dots> = x + x * (c * c * c * c - 1)" by (simp add: algebra_simps)
  also have "\<dots> \<le> x + 2 ^ 24 * (c * c * c * c - 1)"
    by (intro add_left_mono mult_right_mono x_hi) (simp add: c_def)
  also have "\<dots> < x + 1 / 100000000" by (simp add: c_def)
  finally have r_hi: "r < x + 1 / 100000000" .
  have "0 \<le> k * (d + 1)" using k d by simp
  then have "(ni + d) * 10 ^ 8 \<le> 2 ^ 24 * 10 ^ 8" using room by linarith
  then have "ni + d \<le> 2 ^ 24" by simp
  then have small: "d < 2 ^ 53" "ni + d < 2 ^ 53" "ni < 2 ^ 53" "d + 1 < 2 ^ 53" using n d by simp_all
  have r_lo: "of_int (ni + d) \<le> r"
  proof -
    have "of_int d \<le> q" unfolding q_def using p_lo pos d small by (intro fl_ge_int) linarith+
    then show ?thesis unfolding r_def using n d small by (intro fl_ge_int) simp_all
  qed
  have s_up: "s \<le> 2 powi 24" unfolding s_def using parts a0 by (intro fl_le_pow2) simp_all
  have "s * D \<le> a * c * D" using s_hi dr by (intro mult_right_mono) auto
  also have "\<dots> = (a * D) * c" by (simp add: mult_ac)
  also have "\<dots> \<le> 2 ^ 24 * 2" using parts c a0 dr by (intro mult_mono) auto
  finally have sD_up: "s * D \<le> 2 powi 25" by simp
  have p_up: "p \<le> 2 powi 25" unfolding p_def using sD_up sD_lo pos by (intro fl_le_pow2) linarith+
  have dp_up: "of_int d + p \<le> 2 powi 26" using p_up parts by simp
  have q_up: "q \<le> 2 powi 26" unfolding q_def using dp_up dp_lo pos by (intro fl_le_pow2) linarith+
  have nq_up: "of_int ni + q \<le> 2 powi 27" using q_up parts by simp
  have up62: "(2::rat) powi 24 \<le> 2 powi 62" "(2::rat) powi 25 \<le> 2 powi 62" "(2::rat) powi 26 \<le> 2 powi 62"
    "(2::rat) powi 27 \<le> 2 powi 62" by simp_all
  have "f64_div (f64_of_int k) precision_pos = Fin s"
    using k parts a0 by (simp add: f64_of_int_small precision_pos_def s_def a_def mk_f64_small)
  moreover have "f64_mul (Fin s) (f64_of_int (d + 1)) = Fin p"
    using d small sD_up sD_lo pos up62 unfolding p_def D_def
    by (simp only: f64_of_int_small f64_mul.simps) (intro mk_f64_small; linarith)
  moreover have "f64_add (f64_of_int d) (Fin p) = Fin q"
    using d small dp_up dp_lo pos up62 unfolding q_def
    by (simp only: f64_of_int_small f64_add.simps) (intro mk_f64_small; linarith)
  moreover have "f64_add (f64_of_int ni) (Fin q) = Fin r"
    using n small nq_up nq_lo pos up62 unfolding r_def
    by (simp only: f64_of_int_small f64_add.simps) (intro mk_f64_small; linarith)
  ultimately have np: "next_position (f64_div (f64_of_int k) precision_pos) ni d = Fin r"
    by (simp add: next_position_def)
  have r0: "0 \<le> r" using r_lo n d by (metis add_nonneg_nonneg of_int_0_le_iff order_trans)
  have "r < 2 ^ 62" using r_hi x_hi by simp
  with r0 have toint: "f64_to_int64 (Fin r) = \<lfloor>r\<rfloor>" by (rule f64_to_int64_floor)
  have lo: "ni + d \<le> \<lfloor>r\<rfloor>" using r_lo by (simp only: le_floor_iff)
  have "(of_int \<lfloor>r\<rfloor> :: rat) < x + 1 / 100000000" using r_hi of_int_floor_le [of r] by linarith
  then have "(of_int (\<lfloor>r\<rfloor> * 10 ^ 8) :: rat) < x * 100000000 + 1" by simp
  also have "\<dots> = of_int ((ni + d) * 10 ^ 8 + k * (d + 1) + 1)" by (simp only: xA of_int_add of_int_1)
  finally have "\<lfloor>r\<rfloor> * 10 ^ 8 < (ni + d) * 10 ^ 8 + k * (d + 1) + 1" by (simp only: of_int_less_iff)
  then have up: "\<lfloor>r\<rfloor> * 10 ^ 8 \<le> (ni + d) * 10 ^ 8 + k * (d + 1)" by linarith
  have "ni + d < \<lfloor>r\<rfloor>" if le: "10 ^ 8 \<le> k"
  proof -
    have "(of_int (10 ^ 8) :: rat) \<le> of_int k" using le by (simp only: of_int_le_iff)
    then have "2 powi 0 \<le> a" by (simp add: a_def)
    then have "2 powi 0 \<le> s" unfolding s_def by (rule fl_ge_pow2) simp
    moreover have "s * 1 \<le> s * D" by (rule mult_left_mono [OF dr(2) s0])
    ultimately have "2 powi 0 \<le> s * D" by linarith
    then have "2 powi 0 \<le> p" unfolding p_def by (rule fl_ge_pow2) simp
    then have "of_int (d + 1) \<le> q" unfolding q_def using d small by (intro fl_ge_int) simp_all
    then have "of_int (ni + d + 1) \<le> r" unfolding r_def using n d small \<open>ni + d \<le> 2 ^ 24\<close> by (intro fl_ge_int) simp_all
    then show ?thesis by linarith
  qed
  then show thesis using that [OF np toint lo up] by blast
qed

section \<open>All positions of a window\<close>

definition deg :: "dgraph \<Rightarrow> int \<Rightarrow> int" where
  "deg g v = v_degree (cell (vertices g) v)"

definition idx :: "dgraph \<Rightarrow> int \<Rightarrow> int" where
  "idx g v = v_index (cell (vertices g) v)"

definition off :: "dgraph \<Rightarrow> int \<Rightarrow> int" where
  "off g v = v_offset (cell (vertices g) v)"

text \<open>
  Positions are usable when every vertex of the window keeps room for its degree before the next
  position, and the last one before the end of the window.
\<close>

definition positions_fit :: "dgraph \<Rightarrow> int \<Rightarrow> int \<Rightarrow> int \<Rightarrow> int list \<Rightarrow> bool" where
  "positions_fit g s e b ns \<longleftrightarrow> len ns = e - s \<and>
     (\<forall>v. s \<le> v \<and> v < e \<longrightarrow>
        cell ns (v - s) + deg g v \<le> (if v + 1 < e then cell ns (v + 1 - s) else b))"

lemma sum_int_Suc: "(s::int) < e \<Longrightarrow> sum f {s..<e} = f s + sum f {s + 1..<e}"
proof -
  assume "s < e"
  then have "{s..<e} = insert s {s + 1..<e}" by auto
  then show ?thesis by simp
qed

lemma cell_Cons_0 [simp]: "cell (x # xs) 0 = x"
  by (simp add: cell_def)

lemma cell_Cons_pos: "0 < i \<Longrightarrow> cell (x # xs) i = cell xs (i - 1)"
  by (simp add: cell_def nth_Cons' nat_diff_distrib')

lemma len_Cons [simp]: "len (x # xs) = len xs + 1"
  by (simp add: len_def)

lemma len_Nil [simp]: "len [] = 0"
  by (simp add: len_def)

lemma positions_loop_ok:
  assumes "s < e" and "0 \<le> s" and "e \<le> len (vertices g)"
    and "\<And>v. s \<le> v \<Longrightarrow> v < e \<Longrightarrow> 0 \<le> deg g v"
    and k: "0 < k" "k \<le> 2 ^ 52" and b: "b \<le> 2 ^ 24"
    and "0 \<le> ni" and "f64_to_int64 d0 = ni"
    and "ni * 10 ^ 8 + (\<Sum>v\<in>{s..<e}. deg g v * 10 ^ 8 + k * (deg g v + 1)) \<le> b * 10 ^ 8"
  shows "\<exists>ns. positions_loop g (f64_div (f64_of_int k) precision_pos) b s e d0 = Inr ns
           \<and> positions_fit g s e b ns \<and> cell ns 0 = ni \<and> (10 ^ 8 \<le> k \<and> s + 1 < e \<longrightarrow> ni + deg g s < cell ns 1)"
  using assms(1-4,8-10)
proof (induction "nat (e - s)" arbitrary: s ni d0)
  case 0
  then show ?case by simp
next
  case (Suc m)
  let ?step = "f64_div (f64_of_int k) precision_pos"
  define rest where "rest = (\<Sum>v\<in>{s + 1..<e}. deg g v * 10 ^ 8 + k * (deg g v + 1))"
  have rest0: "0 \<le> rest" unfolding rest_def using Suc.prems(4) k by (intro sum_nonneg) auto
  have d0: "0 \<le> deg g s" using Suc.prems(1,4) by simp
  have room: "ni * 10 ^ 8 + (deg g s * 10 ^ 8 + k * (deg g s + 1)) + rest \<le> b * 10 ^ 8"
    using Suc.prems(1,7) by (simp add: sum_int_Suc rest_def)
  then have "(ni + deg g s) * 10 ^ 8 + k * (deg g s + 1) \<le> 2 ^ 24 * 10 ^ 8" using rest0 b by simp
  with Suc.prems(5) d0 k obtain r N where np: "next_position ?step ni (deg g s) = Fin r"
    "f64_to_int64 (Fin r) = N" "ni + deg g s \<le> N"
    "N * 10 ^ 8 \<le> (ni + deg g s) * 10 ^ 8 + k * (deg g s + 1)" "10 ^ 8 \<le> k \<Longrightarrow> ni + deg g s < N"
    by (rule next_position_ok) blast
  have rd: "rd (vertices g) s = Inr (cell (vertices g) s)" using Suc.prems(1-3) by simp
  have kd: "0 \<le> k * (deg g s + 1)" using k d0 by simp
  have chk: "ni + v_degree (cell (vertices g) s) \<le> b" using room rest0 kd by (simp add: deg_def)
  show ?case
  proof (cases "s + 1 < e")
    case True
    have "\<exists>ns. positions_loop g ?step b (s + 1) e (Fin r) = Inr ns
           \<and> positions_fit g (s + 1) e b ns \<and> cell ns 0 = N \<and> (10 ^ 8 \<le> k \<and> s + 1 + 1 < e \<longrightarrow> N + deg g (s + 1) < cell ns 1)"
    proof (rule Suc.hyps(1))
      show "m = nat (e - (s + 1))" using Suc.hyps(2) by simp
      show "N * 10 ^ 8 + (\<Sum>v\<in>{s + 1..<e}. deg g v * 10 ^ 8 + k * (deg g v + 1)) \<le> b * 10 ^ 8"
        unfolding rest_def [symmetric] using np(4) room by simp
      show "0 \<le> N" using np(3) Suc.prems(5) d0 by linarith
    qed (use True Suc.prems np(2) in auto)
    then obtain ns where ns: "positions_loop g ?step b (s + 1) e (Fin r) = Inr ns"
      "positions_fit g (s + 1) e b ns" "cell ns 0 = N" by blast
    have "positions_loop g ?step b s e d0 = Inr (ni # ns)"
      using Suc.prems(1,6) rd chk np(1) ns(1)
      by (subst positions_loop.simps) (simp add: deg_def Let_def)
    moreover have "positions_fit g s e b (ni # ns)"
    proof -
      have l: "len ns = e - (s + 1)" using ns(2) by (simp add: positions_fit_def)
      have "cell (ni # ns) (v - s) + deg g v \<le> (if v + 1 < e then cell (ni # ns) (v + 1 - s) else b)"
        if v: "s \<le> v" "v < e" for v
      proof (cases "v = s")
        case True
        then show ?thesis using \<open>s + 1 < e\<close> np(3) ns(3) by (simp add: cell_Cons_pos)
      next
        case False
        with v have "cell ns (v - (s + 1)) + deg g v \<le> (if v + 1 < e then cell ns (v + 1 - (s + 1)) else b)"
          using ns(2) by (simp add: positions_fit_def)
        moreover have "cell (ni # ns) (v - s) = cell ns (v - (s + 1))"
          using v False by (subst cell_Cons_pos) (simp_all add: diff_diff_eq)
        moreover have "cell (ni # ns) (v + 1 - s) = cell ns (v + 1 - (s + 1))"
          using v by (subst cell_Cons_pos) (simp_all add: diff_diff_eq)
        ultimately show ?thesis by (simp only:)
      qed
      with l show ?thesis by (simp add: positions_fit_def)
    qed
    moreover have "10 ^ 8 \<le> k \<longrightarrow> ni + deg g s < cell (ni # ns) 1" using np(5) ns(3) by (simp add: cell_Cons_pos)
    ultimately show ?thesis by auto
  next
    case False
    then have e: "e = s + 1" using Suc.prems(1) by simp
    have "positions_loop g ?step b s e d0 = Inr [ni]"
      using Suc.prems(1,6) rd chk e
      by (subst positions_loop.simps) (simp add: Let_def positions_loop.simps)
    moreover have "positions_fit g s e b [ni]"
      using e chk by (auto simp: positions_fit_def deg_def)
    ultimately show ?thesis using e by auto
  qed
qed

text \<open>The sum of the degrees of a window, and the theorem about the whole function.\<close>

definition degsum :: "dgraph \<Rightarrow> int \<Rightarrow> int \<Rightarrow> int" where
  "degsum g s e = (\<Sum>v\<in>{s..<e}. deg g v)"

text \<open>At most half full, the second vertex of the window starts behind a free cell.\<close>

lemma calculate_positions_gap:
  assumes s: "0 \<le> s" "s < e" and e: "e \<le> num_vertices g" and nv: "len (vertices g) = num_vertices g"
    and deg: "\<And>v. s \<le> v \<Longrightarrow> v < e \<Longrightarrow> 1 \<le> deg g v"
    and b: "index_boundary g e = Inr b" "b \<le> 2 ^ 24"
    and x0: "0 \<le> idx g s" and gaps: "0 < gaps" and used: "idx g s + degsum g s e + gaps \<le> b"
  shows "\<exists>ns. calculate_positions g s e gaps (degsum g s e) = Inr ns
           \<and> positions_fit g s e b ns \<and> cell ns 0 = idx g s
           \<and> (degsum g s e + (e - s) \<le> gaps \<and> s + 1 < e \<longrightarrow> idx g s + deg g s < cell ns 1)"
proof -
  let ?t = "degsum g s e + (e - s)"
  have card: "e - s \<le> degsum g s e"
  proof -
    have "(\<Sum>v\<in>{s..<e}. 1) \<le> degsum g s e" unfolding degsum_def using deg by (intro sum_mono) auto
    then show ?thesis using s by simp
  qed
  have t: "0 < ?t" "?t \<le> 2 ^ 25" using s card used gaps b(2) x0 by simp_all
  have g24: "gaps \<le> 2 ^ 24" using used x0 card s b(2) by simp
  obtain k where k: "position_step gaps ?t = Inr (f64_div (f64_of_int k) precision_pos)"
    "0 < k" "k * ?t \<le> gaps * 10 ^ 8" "k \<le> 2 ^ 52" "?t \<le> gaps \<Longrightarrow> 10 ^ 8 \<le> k"
    using position_step_ok [OF gaps g24 t] by blast
  have "(\<Sum>v\<in>{s..<e}. deg g v * 10 ^ 8 + k * (deg g v + 1)) = degsum g s e * 10 ^ 8 + k * ?t"
  proof -
    have "(\<Sum>v\<in>{s..<e}. deg g v + 1) = ?t" using s by (simp add: sum.distrib degsum_def)
    then show ?thesis by (simp add: sum.distrib degsum_def sum_distrib_right flip: sum_distrib_left)
  qed
  then have room: "idx g s * 10 ^ 8 + (\<Sum>v\<in>{s..<e}. deg g v * 10 ^ 8 + k * (deg g v + 1)) \<le> b * 10 ^ 8"
    using used k(3) by simp
  have i53: "idx g s < 2 ^ 53" using used card s b(2) gaps by simp
  have start: "f64_to_int64 (f64_of_int (v_index (cell (vertices g) s))) = idx g s"
  proof -
    have "idx g s < 2 ^ 62" by (rule less_le_trans [OF i53]) simp
    then have "(of_int (idx g s) :: rat) < of_int (2 ^ 62)" by (simp only: of_int_less_iff)
    then show ?thesis using x0 i53
      by (simp add: f64_of_int_small f64_to_int64_floor flip: idx_def)
  qed
  obtain ns where ns: "positions_loop g (f64_div (f64_of_int k) precision_pos) b s e
      (f64_of_int (v_index (cell (vertices g) s))) = Inr ns" "positions_fit g s e b ns" "cell ns 0 = idx g s"
      "10 ^ 8 \<le> k \<and> s + 1 < e \<longrightarrow> idx g s + deg g s < cell ns 1"
    using positions_loop_ok [OF s(2) s(1) _ _ k(2,4) b(2) x0 start room] e nv deg by fastforce
  have "calculate_positions g s e gaps (degsum g s e) = Inr ns"
    using b(1) k(1) ns(1) s e nv by (simp add: calculate_positions_def Let_def)
  with ns k(5) show ?thesis by blast
qed

lemma calculate_positions_ok:
  assumes "0 \<le> s" "s < e" and "e \<le> num_vertices g" and "len (vertices g) = num_vertices g"
    and "\<And>v. s \<le> v \<Longrightarrow> v < e \<Longrightarrow> 1 \<le> deg g v"
    and "index_boundary g e = Inr b" "b \<le> 2 ^ 24"
    and "0 \<le> idx g s" and "0 < gaps" and "idx g s + degsum g s e + gaps \<le> b"
  shows "\<exists>ns. calculate_positions g s e gaps (degsum g s e) = Inr ns
           \<and> positions_fit g s e b ns \<and> cell ns 0 = idx g s"
  using calculate_positions_gap [OF assms] by blast

end
