(* ===== verification/DgapRebalance.thy ===== *)
theory DgapRebalance
  imports DgapPositions
begin

text \<open>
  \<^verbatim>\<open>load_into_ulog\<close>, \<^verbatim>\<open>rebalance_data_V1\<close> and \<^verbatim>\<open>rebalance_weighted\<close> of \<^verbatim>\<open>graph.h\<close>: moving the
  edges of a window of vertices to new positions inside the one edge array, merging the logged
  edges on the way.

  Two reads of the code leave their array. \<^verbatim>\<open>rebalance_data_V1\<close> reads \<^verbatim>\<open>vertices_[end_vertex].index\<close>
  also when \<open>end_vertex\<close> is the number of vertices, and \<^verbatim>\<open>load_into_ulog\<close> is asked to copy the
  512 cells below \<^verbatim>\<open>write_index\<close> also when there are fewer. What such a read returns is a parameter:
  \<open>vn\<close> for the vertex past the end, \<open>em\<close> for the cells around the edge array. All other accesses are
  checked.
\<close>

section \<open>The undo log\<close>

definition peek :: "(int \<Rightarrow> 'a) \<Rightarrow> 'a list \<Rightarrow> int \<Rightarrow> 'a" where
  "peek em xs i = (if 0 \<le> i \<and> i < len xs then cell xs i else em i)"

definition load_into_ulog ::
  "(int \<Rightarrow> int) \<Rightarrow> int \<Rightarrow> int \<Rightarrow> int \<Rightarrow> int \<Rightarrow> int \<Rightarrow> dgraph \<Rightarrow> dgraph res" where
  "load_into_ulog em tid load_idx_st load_sz flush_idx_st flush_idx_nd g =
     (let g = (if flush_idx_st \<noteq> flush_idx_nd
               then flush (FlEdges flush_idx_st (flush_idx_nd - flush_idx_st + 1)) g else g) in
      sbind (rd (ulog_ptr g) tid) (\<lambda>row.
      if \<not> (0 \<le> load_sz \<and> load_sz \<le> len row) then Inl OutOfBounds else
      sbind (wr (ulog_ptr g) tid
               (map (\<lambda>k. peek em (edges g) (load_idx_st + int k)) [0..<nat load_sz]
                @ drop (nat load_sz) row)) (\<lambda>ul.
      sbind (wr (oplog_ptr g) tid load_idx_st) (\<lambda>ol.
      Inr (flush (FlOplog tid) (flush (FlUlogPtrVar tid) g\<lparr>ulog_ptr := ul\<rparr>)\<lparr>oplog_ptr := ol\<rparr>)))))"

text \<open>
  The graph with the locals \<^verbatim>\<open>ulog_st\<close> and \<^verbatim>\<open>ulog_nd\<close> of \<^verbatim>\<open>rebalance_data_V1\<close>: the interval of the edge
  array the undo log covers. \<open>ulog_fwd\<close> is the block in front of a write of the left shift, \<open>ulog_bwd\<close>
  the one of the right shift and of the log merge.
\<close>

type_synonym rbs = "dgraph \<times> int \<times> int"

definition ulog_fwd :: "(int \<Rightarrow> int) \<Rightarrow> int \<Rightarrow> int \<Rightarrow> rbs \<Rightarrow> rbs res" where
  "ulog_fwd em tid wi = (\<lambda>(g, st, nd).
     if wi < st \<or> wi \<ge> nd then
       (let load_sz = (if wi + MAX_ULOG_ENTRIES \<le> elem_capacity g then MAX_ULOG_ENTRIES
                       else elem_capacity g - wi) in
        sbind (load_into_ulog em tid wi load_sz st nd g) (\<lambda>g'.
        Inr (g', wi, if wi + MAX_ULOG_ENTRIES \<le> elem_capacity g then wi + MAX_ULOG_ENTRIES
                     else elem_capacity g)))
     else Inr (g, st, nd))"

definition ulog_bwd :: "(int \<Rightarrow> int) \<Rightarrow> int \<Rightarrow> int \<Rightarrow> rbs \<Rightarrow> rbs res" where
  "ulog_bwd em tid wi = (\<lambda>(g, st, nd).
     if wi < st \<or> wi \<ge> nd then
       (let load_sz = (if wi - MAX_ULOG_ENTRIES \<ge> 0 then MAX_ULOG_ENTRIES else wi) in
        sbind (load_into_ulog em tid (wi - MAX_ULOG_ENTRIES) load_sz st nd g) (\<lambda>g'.
        Inr (g', if wi - MAX_ULOG_ENTRIES \<ge> 0 then wi - MAX_ULOG_ENTRIES else 0, wi)))
     else Inr (g, st, nd))"

section \<open>Moving one vertex\<close>

definition write_edge :: "int \<Rightarrow> int \<Rightarrow> rbs \<Rightarrow> rbs res" where
  "write_edge wi x = (\<lambda>(g, st, nd). sbind (set_edge g wi x) (\<lambda>g'. Inr (g', st, nd)))"

function shift_left :: "(int \<Rightarrow> int) \<Rightarrow> int \<Rightarrow> int \<Rightarrow> int \<Rightarrow> int \<Rightarrow> rbs \<Rightarrow> rbs res" where
  "shift_left em tid read_index last_read_index write_index s =
     (if read_index < last_read_index
      then sbind (ulog_fwd em tid write_index s) (\<lambda>s.
           sbind (rd (edges (fst s)) read_index) (\<lambda>x.
           sbind (write_edge write_index x s) (\<lambda>s.
           shift_left em tid (read_index + 1) last_read_index (write_index + 1) s)))
      else Inr s)"
  by pat_completeness auto
termination
  by (relation "measure (\<lambda>(em, tid, r, l, w, s). nat (l - r))") auto

function shift_right :: "(int \<Rightarrow> int) \<Rightarrow> int \<Rightarrow> int \<Rightarrow> int \<Rightarrow> int \<Rightarrow> rbs \<Rightarrow> rbs res" where
  "shift_right em tid read_index last_read_index write_index s =
     (if read_index \<ge> last_read_index
      then sbind (ulog_bwd em tid write_index s) (\<lambda>s.
           sbind (rd (edges (fst s)) read_index) (\<lambda>x.
           sbind (write_edge write_index x s) (\<lambda>s.
           shift_right em tid (read_index - 1) last_read_index (write_index - 1) s)))
      else Inr s)"
  by pat_completeness auto
termination
  by (relation "measure (\<lambda>(em, tid, r, l, w, s). nat (r + 1 - l))") auto

declare shift_left.simps [simp del] shift_right.simps [simp del]

text \<open>
  The log of a segment holds at most \<open>MAX_LOG_ENTRIES\<close> entries and is not written during the walk, so
  a walk that has not ended after as many steps has met an entry twice and never ends.
\<close>

fun move_log :: "(int \<Rightarrow> int) \<Rightarrow> int \<Rightarrow> LogEntry list \<Rightarrow> nat \<Rightarrow> int \<Rightarrow> int \<Rightarrow> rbs \<Rightarrow> rbs res" where
  "move_log em tid row 0 curr_off write_index s = (if curr_off = -1 then Inr s else Inl Diverged)"
| "move_log em tid row (Suc n) curr_off write_index s =
     (if curr_off = -1 then Inr s else
      sbind (ulog_bwd em tid write_index s) (\<lambda>s.
      sbind (rd row curr_off) (\<lambda>e.
      sbind (write_edge write_index (le_v e) s) (\<lambda>s.
      move_log em tid row n (le_prev e) (write_index - 1) s))))"

definition log_fuel :: nat where
  "log_fuel = nat MAX_LOG_ENTRIES"

text \<open>One round of the inner loop, with \<open>nvb\<close> for \<^verbatim>\<open>next_vertex_boundary\<close>.\<close>

definition rebalance_vertex ::
  "(int \<Rightarrow> int) \<Rightarrow> int \<Rightarrow> int \<Rightarrow> int list \<Rightarrow> int \<Rightarrow> int \<Rightarrow> rbs \<Rightarrow> (int \<times> rbs) res" where
  "rebalance_vertex em tid start_vertex new_index jj nvb s =
     sbind (rd (vertices (fst s)) jj) (\<lambda>x.
     sbind (rd new_index (jj - start_vertex)) (\<lambda>ni.
     let onseg_num_edges = nvb - v_index x + 1;
         n = (if v_offset x \<noteq> -1 then onseg_num_edges else v_degree x) in
     sbind (if ni < v_index x then shift_left em tid (v_index x) (v_index x + n) ni s
            else if ni > v_index x
                 then shift_right em tid (v_index x + n - 1) (v_index x) (ni + n - 1) s
                 else Inr s) (\<lambda>s.
     sbind (if v_offset x \<noteq> -1
            then sbind (rd (log_ptr (fst s)) (get_segment_id (fst s) jj - segment_count (fst s))) (\<lambda>row.
                 move_log em tid row log_fuel (v_offset x) (ni + v_degree x - 1) s)
            else Inr s) (\<lambda>s.
     sbind (set_vertex (fst s) jj (x\<lparr>v_index := ni, v_offset := -1\<rparr>)) (\<lambda>g.
     Inr (v_index x - 1, g, snd s))))))"

function rebalance_group ::
  "(int \<Rightarrow> int) \<Rightarrow> int \<Rightarrow> int \<Rightarrow> int list \<Rightarrow> int \<Rightarrow> int \<Rightarrow> int \<Rightarrow> rbs \<Rightarrow> rbs res" where
  "rebalance_group em tid start_vertex new_index curr_vertex jj nvb s =
     (if jj \<ge> curr_vertex
      then sbind (rebalance_vertex em tid start_vertex new_index jj nvb s) (\<lambda>(nvb', s').
           rebalance_group em tid start_vertex new_index curr_vertex (jj - 1) nvb' s')
      else Inr s)"
  by pat_completeness auto
termination
  by (relation "measure (\<lambda>(em, tid, sv, ni, c, j, b, s). nat (j + 1 - c))") auto

declare rebalance_group.simps [simp del]

section \<open>The loop over the window\<close>

definition vertex_index :: "int \<Rightarrow> dgraph \<Rightarrow> int \<Rightarrow> int res" where
  "vertex_index vn g v =
     (if v = len (vertices g) then Inr vn else sbind (rd (vertices g) v) (\<lambda>x. Inr (v_index x)))"

text \<open>The first vertex from \<open>ii\<close> on that fits before the present start of the next one.\<close>

function find_space :: "int \<Rightarrow> dgraph \<Rightarrow> int \<Rightarrow> int list \<Rightarrow> int \<Rightarrow> int \<Rightarrow> int res" where
  "find_space vn g start_vertex new_index end_vertex ii =
     (if ii < end_vertex
      then sbind (rd new_index (ii - start_vertex)) (\<lambda>ni.
           sbind (rd (vertices g) ii) (\<lambda>x.
           sbind (vertex_index vn g (ii + 1)) (\<lambda>nxt.
           if ni + v_degree x \<le> nxt then Inr ii
           else find_space vn g start_vertex new_index end_vertex (ii + 1))))
      else Inr ii)"
  by pat_completeness auto
termination
  by (relation "measure (\<lambda>(vn, g, sv, ni, e, i). nat (e - i))") auto

declare find_space.simps [simp del]

lemma find_space_ge: "find_space vn g sv ni e i = Inr j \<Longrightarrow> i \<le> j"
proof (induction vn g sv ni e i rule: find_space.induct)
  case (1 vn g sv ni e i)
  show ?case
  proof (cases "i < e")
    case True
    with "1.prems" obtain n x nxt where
      r: "rd ni (i - sv) = Inr n" "rd (vertices g) i = Inr x" "vertex_index vn g (i + 1) = Inr nxt"
      and s: "(if n + v_degree x \<le> nxt then Inr i else find_space vn g sv ni e (i + 1)) = Inr j"
      by (subst (asm) find_space.simps) (auto elim!: sbind_InrE)
    show ?thesis
    proof (cases "n + v_degree x \<le> nxt")
      case False
      with "1.IH" [OF True r] s show ?thesis by simp
    qed (use s in simp)
  next
    case False
    with "1.prems" show ?thesis by (subst (asm) find_space.simps) simp
  qed
qed

function rebalance_loop ::
  "int \<Rightarrow> (int \<Rightarrow> int) \<Rightarrow> int \<Rightarrow> int \<Rightarrow> int \<Rightarrow> int list \<Rightarrow> int \<Rightarrow> rbs \<Rightarrow> rbs res" where
  "rebalance_loop vn em tid start_vertex end_vertex new_index curr_vertex s =
     (if curr_vertex < end_vertex
      then sbind (find_space vn (fst s) start_vertex new_index end_vertex curr_vertex) (\<lambda>ii.
           let ii = (if ii = end_vertex then ii - 1 else ii) in
           sbind (if ii \<ge> num_vertices (fst s) - 1 then Inr (elem_capacity (fst s) - 1)
                  else sbind (rd (vertices (fst s)) (ii + 1)) (\<lambda>x. Inr (v_index x - 1))) (\<lambda>nvb.
           sbind (rebalance_group em tid start_vertex new_index curr_vertex ii nvb s) (\<lambda>s.
           rebalance_loop vn em tid start_vertex end_vertex new_index (ii + 1) s)))
      else Inr s)"
  by pat_completeness auto
termination
  by (relation "measure (\<lambda>(vn, em, tid, sv, e, ni, c, s). nat (e - c))")
     (auto dest: find_space_ge split: if_splits)

declare rebalance_loop.simps [simp del]

definition rebalance_data_V1 ::
  "int \<Rightarrow> (int \<Rightarrow> int) \<Rightarrow> int \<Rightarrow> int \<Rightarrow> int \<Rightarrow> int list \<Rightarrow> dgraph \<Rightarrow> dgraph res" where
  "rebalance_data_V1 vn em tid start_vertex end_vertex new_index g =
     sbind (vertex_index vn g end_vertex) (\<lambda>ulog0.
     sbind (rebalance_loop vn em tid start_vertex end_vertex new_index start_vertex (g, ulog0, ulog0)) (\<lambda>s.
     let g = fst s in
     release_logs g (get_segment_id g start_vertex) (get_segment_id g end_vertex)))"

definition rebalance_weighted ::
  "int \<Rightarrow> (int \<Rightarrow> int) \<Rightarrow> int \<Rightarrow> int \<Rightarrow> int \<Rightarrow> int \<Rightarrow> int \<Rightarrow> dgraph \<Rightarrow> dgraph res" where
  "rebalance_weighted vn em tid start_vertex end_vertex used_space total_space g =
     sbind (rd (vertices g) start_vertex) (\<lambda>x.
     sbind (index_boundary g end_vertex) (\<lambda>to.
     let from = v_index x; capacity = to - from in
     sbind (check (to > from)) (\<lambda>_.
     sbind (check (total_space = capacity)) (\<lambda>_.
     let gaps = total_space - used_space; size = end_vertex - start_vertex in
     sbind (calculate_positions g start_vertex end_vertex gaps used_space) (\<lambda>new_index.
     sbind (rd new_index (size - 1)) (\<lambda>last_index.
     sbind (rd (vertices g) (end_vertex - 1)) (\<lambda>last_vertex.
     sbind (check (last_index + v_degree last_vertex \<le> to)) (\<lambda>_.
     sbind (rebalance_data_V1 vn em tid start_vertex end_vertex new_index g) (\<lambda>g.
     recount_segment_total_range g start_vertex end_vertex)))))))))"

end
