(* ===== verification/DgapInsert.thy ===== *)
theory DgapInsert
  imports DgapRebalance
begin

text \<open>
  Dynamic insertion of \<^verbatim>\<open>dgap/src/graph.h\<close>: the locks of a window, \<^verbatim>\<open>do_insertion\<close>, \<^verbatim>\<open>resize_V1\<close>,
  \<^verbatim>\<open>insert(src, dst)\<close> and \<^verbatim>\<open>rebalance_all\<close>, as one thread runs them. A thread that would wait for a
  mutex or a condition that nobody else can release gets the fault \<open>Deadlock\<close>; a mutex released by a
  thread that does not hold it is \<open>Undefined\<close>.
\<close>

section \<open>Locks of leaf segments\<close>

definition set_leaf :: "dgraph \<Rightarrow> int \<Rightarrow> PMALeafSegment \<Rightarrow> dgraph res" where
  "set_leaf g i x = sbind (wr (leaf_segments g) i x) (\<lambda>ls. Inr (g\<lparr>leaf_segments := ls\<rparr>))"

definition mutex_lock :: "dgraph \<Rightarrow> int \<Rightarrow> dgraph res" where
  "mutex_lock g i = sbind (rd (leaf_segments g) i) (\<lambda>x.
     if lf_locked x then Inl Deadlock else set_leaf g i (x\<lparr>lf_locked := True\<rparr>))"

definition mutex_unlock :: "dgraph \<Rightarrow> int \<Rightarrow> dgraph res" where
  "mutex_unlock g i = sbind (rd (leaf_segments g) i) (\<lambda>x.
     if lf_locked x then set_leaf g i (x\<lparr>lf_locked := False\<rparr>) else Inl Undefined)"

definition add_on_rebalance :: "dgraph \<Rightarrow> int \<Rightarrow> int \<Rightarrow> dgraph res" where
  "add_on_rebalance g i d = sbind (rd (leaf_segments g) i) (\<lambda>x.
     set_leaf g i (x\<lparr>on_rebalance := on_rebalance x + d\<rparr>))"

definition wait_for_rebalance :: "dgraph \<Rightarrow> int \<Rightarrow> unit res" where
  "wait_for_rebalance g i = sbind (rd (leaf_segments g) i) (\<lambda>x.
     if on_rebalance x = 0 then Inr () else Inl Deadlock)"

function lock_in_batch :: "int \<Rightarrow> int \<Rightarrow> int \<Rightarrow> dgraph \<times> int \<times> int \<Rightarrow> (dgraph \<times> int \<times> int) res" where
  "lock_in_batch seg_id right_segment src_segment s =
     (if seg_id < right_segment
      then sbind (if seg_id \<noteq> src_segment then add_on_rebalance (fst s) seg_id 1 else Inr (fst s)) (\<lambda>g.
           sbind (mutex_lock g seg_id) (\<lambda>g.
           sbind (rd (segment_edges_actual g) (seg_id + segment_count g)) (\<lambda>a.
           sbind (rd (segment_edges_total g) (seg_id + segment_count g)) (\<lambda>t.
           lock_in_batch (seg_id + 1) right_segment src_segment
             (g, fst (snd s) + a, snd (snd s) + t)))))
      else Inr s)"
  by pat_completeness auto
termination
  by (relation "measure (\<lambda>(i, r, _, _). nat (r - i))") auto

text \<open>\<^verbatim>\<open>unlock_in_batch\<close>, from the last segment down; \<open>src_segment\<close> is \<open>None\<close> in the two-argument version.\<close>

function unlock_in_batch :: "int \<Rightarrow> int \<Rightarrow> int option \<Rightarrow> dgraph \<Rightarrow> dgraph res" where
  "unlock_in_batch left_segment seg_id src_segment g =
     (if seg_id \<ge> left_segment
      then sbind (if Some seg_id \<noteq> src_segment then add_on_rebalance g seg_id (-1) else Inr g) (\<lambda>g.
           sbind (mutex_unlock g seg_id) (\<lambda>g.
           unlock_in_batch left_segment (seg_id - 1) src_segment g))
      else Inr g)"
  by pat_completeness auto
termination
  by (relation "measure (\<lambda>(l, i, _, _). nat (i + 1 - l))") auto

declare lock_in_batch.simps [simp del] unlock_in_batch.simps [simp del]

section \<open>Insertion of one edge\<close>

text \<open>An edge goes to its place in the array, or to the log of the segment.\<close>

definition put_edge :: "int \<Rightarrow> int \<Rightarrow> int \<Rightarrow> dgraph \<Rightarrow> dgraph res" where
  "put_edge loc dst k g = sbind (set_edge g loc dst) (\<lambda>g. Inr (flush (FlEdges loc k) g))"

text \<open>The second half of \<^verbatim>\<open>do_insertion\<close>'s \<^verbatim>\<open>else\<close> branch, and its last lines.\<close>

definition place_edge :: "int \<Rightarrow> int \<Rightarrow> int \<Rightarrow> dgraph \<Rightarrow> dgraph res" where
  "place_edge src dst src_segment g =
     sbind (rd (vertices g) src) (\<lambda>x.
     let loc = v_index x + v_degree x in
     sbind (have_space_onseg g src loc) (\<lambda>space.
     if space then put_edge loc dst 1 g
     else insert_into_log g (src_segment - segment_count g) src dst))"

definition update_metadata :: "int \<Rightarrow> int \<Rightarrow> dgraph \<Rightarrow> dgraph res" where
  "update_metadata src src_segment g =
     sbind (rd (vertices g) src) (\<lambda>x.
     sbind (set_vertex g src (x\<lparr>v_degree := v_degree x + 1\<rparr>)) (\<lambda>g.
     sbind (add_actual g src_segment 1) (\<lambda>g.
     Inr (g\<lparr>num_edges := num_edges g + 1\<rparr>))))"

definition do_insertion :: "int \<Rightarrow> (int \<Rightarrow> int) \<Rightarrow> int \<Rightarrow> int \<Rightarrow> int \<Rightarrow> int \<Rightarrow> dgraph \<Rightarrow> dgraph res" where
  "do_insertion vn em tid src dst src_segment g =
     sbind (rd (vertices g) src) (\<lambda>x.
     let loc = v_index x + v_degree x in
     sbind (have_space_onseg g src loc) (\<lambda>space.
     sbind (if space then put_edge loc dst 1 g
            else sbind (rd (log_segment_idx g) (src_segment - segment_count g)) (\<lambda>li.
                 sbind (if li \<ge> MAX_LOG_ENTRIES
                        then let left_index = cdiv src (segment_size g) * segment_size g;
                                 right_index = min (left_index + segment_size g) (num_vertices g) in
                             sbind (rd (segment_edges_actual g) src_segment) (\<lambda>used.
                             sbind (rd (segment_edges_total g) src_segment) (\<lambda>tot.
                             rebalance_weighted vn em tid left_index right_index used tot g))
                        else Inr g) (\<lambda>g. place_edge src dst src_segment g)))
       (\<lambda>g. update_metadata src src_segment g)))"

section \<open>Resizing\<close>

text \<open>\<^verbatim>\<open>memcpy\<close> of \<open>n\<close> cells from \<open>a\<close> in one array to \<open>b\<close> in another.\<close>

definition copy_cells :: "'a list \<Rightarrow> int \<Rightarrow> 'a list \<Rightarrow> int \<Rightarrow> int \<Rightarrow> 'a list res" where
  "copy_cells src a dst b n =
     (if 0 \<le> n \<and> 0 \<le> a \<and> a + n \<le> len src \<and> 0 \<le> b \<and> b + n \<le> len dst
      then Inr (take (nat b) dst @ cells src a n @ drop (nat (b + n)) dst)
      else Inl OutOfBounds)"

fun resize_log :: "LogEntry list \<Rightarrow> nat \<Rightarrow> int \<Rightarrow> int \<Rightarrow> int list \<Rightarrow> int list res" where
  "resize_log row 0 curr_off write_index new_edges =
     (if curr_off = -1 then Inr new_edges else Inl Diverged)"
| "resize_log row (Suc n) curr_off write_index new_edges =
     (if curr_off = -1 then Inr new_edges else
      sbind (rd row curr_off) (\<lambda>e.
      sbind (wr new_edges write_index (le_v e)) (\<lambda>new_edges.
      resize_log row n (le_prev e) (write_index - 1) new_edges)))"

definition resize_vertex :: "int list \<Rightarrow> int \<Rightarrow> dgraph \<Rightarrow> int list \<Rightarrow> (dgraph \<times> int list) res" where
  "resize_vertex new_indices vi g new_edges =
     sbind (rd (vertices g) vi) (\<lambda>x.
     sbind (if vi = num_vertices g - 1 then Inr (elem_capacity g - 1)
            else sbind (rd (vertices g) (vi + 1)) (\<lambda>y. Inr (v_index y - 1))) (\<lambda>nvb.
     let onseg_num_edges = (if v_offset x \<noteq> -1 then nvb - v_index x + 1 else v_degree x) in
     sbind (rd new_indices vi) (\<lambda>ni.
     sbind (copy_cells (edges g) (v_index x) new_edges ni onseg_num_edges) (\<lambda>new_edges.
     sbind (if v_offset x \<noteq> -1
            then sbind (rd (log_ptr g) (get_segment_id g vi - segment_count g)) (\<lambda>row.
                 resize_log row log_fuel (v_offset x) (ni + v_degree x - 1) new_edges)
            else Inr new_edges) (\<lambda>new_edges.
     sbind (set_vertex g vi (x\<lparr>v_index := ni, v_offset := -1\<rparr>)) (\<lambda>g.
     Inr (g, new_edges)))))))"

function resize_loop :: "int list \<Rightarrow> int \<Rightarrow> dgraph \<times> int list \<Rightarrow> int \<Rightarrow> (dgraph \<times> int list) res" where
  "resize_loop new_indices nv s vi =
     (if vi < nv
      then sbind (resize_vertex new_indices vi (fst s) (snd s)) (\<lambda>s. resize_loop new_indices nv s (vi + 1))
      else Inr s)"
  by pat_completeness auto
termination
  by (relation "measure (\<lambda>(_, nv, _, vi). nat (nv - vi))") auto

declare resize_loop.simps [simp del]

definition resize_V1 :: "dgraph \<Rightarrow> dgraph res" where
  "resize_V1 g =
     (let g = g\<lparr>elem_capacity := elem_capacity g * 2\<rparr>;
          gaps = elem_capacity g - num_edges g in
      sbind (calculate_positions g 0 (num_vertices g) gaps (num_edges g)) (\<lambda>new_indices.
      sbind (resize_loop new_indices (num_vertices g) (g, replicate (nat (elem_capacity g)) 0) 0) (\<lambda>(g, new_edges).
      let g = flush (FlEdges 0 (elem_capacity g)) g;
          g = flush FlEdgesOid (g\<lparr>edges := new_edges\<rparr>) in
      sbind (recount_segment_total g) (\<lambda>g.
      let g = flush FlCapacity g in
      release_logs g (segment_count g) (2 * segment_count g)))))"

section \<open>Insertion with rebalancing\<close>

definition up_h :: f64 where
  "up_h = Fin (3 / 4)"

definition up_0 :: f64 where
  "up_0 = Fin 1"

definition density_of :: "int \<Rightarrow> int \<Rightarrow> f64" where
  "density_of used tot = f64_div (f64_of_int used) (f64_of_int tot)"

definition segment_density :: "dgraph \<Rightarrow> int \<Rightarrow> f64 res" where
  "segment_density g seg =
     sbind (rd (segment_edges_actual g) seg) (\<lambda>a.
     sbind (rd (segment_edges_total g) seg) (\<lambda>t. Inr (density_of a t)))"

definition up_height :: "dgraph \<Rightarrow> int \<Rightarrow> f64" where
  "up_height g height = f64_sub up_0 (f64_mul (f64_of_int height) (delta_up g))"

definition window_left :: "dgraph \<Rightarrow> int \<Rightarrow> int \<Rightarrow> int" where
  "window_left g height src =
     (let window_size = segment_size g * 2 ^ nat height in cdiv src window_size * window_size)"

definition window_right :: "dgraph \<Rightarrow> int \<Rightarrow> int \<Rightarrow> int" where
  "window_right g height src =
     min (window_left g height src + segment_size g * 2 ^ nat height) (num_vertices g)"

record window_result =
  wr_window :: int
  wr_height :: int
  wr_used :: int
  wr_total :: int

text \<open>The loop that climbs the conceptual tree: it stops with the locks of a sparse enough window taken.\<close>

function find_window :: "int \<Rightarrow> int \<Rightarrow> dgraph \<Rightarrow> window_result \<Rightarrow> (dgraph \<times> window_result) res" where
  "find_window src current_segment g w =
     (if wr_window w > 0
      then let window = wr_window w div 2; height = wr_height w + 1;
               left_segment = get_segment_id g (window_left g height src) - segment_count g;
               right_segment = get_segment_id g (window_right g height src) - segment_count g;
               cur = current_segment - segment_count g in
           sbind (lock_in_batch left_segment right_segment cur (g, 0, 0)) (\<lambda>(g, used, tot).
           let w = \<lparr>wr_window = window, wr_height = height, wr_used = used, wr_total = tot\<rparr> in
           if f64_less (density_of used tot) (up_height g height) then Inr (g, w)
           else sbind (unlock_in_batch left_segment (right_segment - 1) (Some cur) g) (\<lambda>g.
                find_window src current_segment g w))
      else Inr (g, w))"
  by pat_completeness auto
termination
  by (relation "measure (\<lambda>(_, _, _, w). nat (wr_window w))") auto

declare find_window.simps [simp del]

text \<open>The part of \<^verbatim>\<open>insert\<close> after the climb.\<close>

definition finish_window :: "int \<Rightarrow> (int \<Rightarrow> int) \<Rightarrow> int \<Rightarrow> int \<Rightarrow> int \<Rightarrow> dgraph \<Rightarrow> window_result \<Rightarrow> dgraph res" where
  "finish_window vn em tid src current_segment g w =
     (if wr_height w = 0 then Inl ProcessExit
      else if wr_window w \<noteq> 0
      then let left_index = window_left g (wr_height w) src;
               right_index = window_right g (wr_height w) src;
               left_segment = get_segment_id g left_index - segment_count g;
               right_segment = get_segment_id g right_index - segment_count g in
           sbind (segment_density g current_segment) (\<lambda>density.
           sbind (if f64_ge density up_0
                  then rebalance_weighted vn em tid left_index right_index (wr_used w) (wr_total w) g
                  else Inr g) (\<lambda>g.
           unlock_in_batch left_segment (right_segment - 1) None g))
      else sbind (segment_density g current_segment) (\<lambda>density.
           if f64_less density up_0 then Inr g
           else sbind (lock_in_batch 0 (segment_count g) (current_segment - segment_count g) (g, 0, 0)) (\<lambda>(g, _, _).
                sbind (resize_V1 g) (\<lambda>g.
                unlock_in_batch 0 (segment_count g - 1) None g))))"

definition insert_edge :: "int \<Rightarrow> (int \<Rightarrow> int) \<Rightarrow> int \<Rightarrow> int \<Rightarrow> int \<Rightarrow> dgraph \<Rightarrow> dgraph res" where
  "insert_edge vn em tid src dst g =
     (let current_segment = get_segment_id g src; cur = current_segment - segment_count g in
      sbind (mutex_lock g cur) (\<lambda>g.
      sbind (wait_for_rebalance g cur) (\<lambda>_.
      sbind (do_insertion vn em tid src dst current_segment g) (\<lambda>g.
      sbind (segment_density g current_segment) (\<lambda>density.
      if f64_ge density up_0
      then sbind (add_on_rebalance g cur 1) (\<lambda>g.
           sbind (mutex_unlock g cur) (\<lambda>g.
           sbind (find_window src current_segment g
                    \<lparr>wr_window = current_segment, wr_height = 0, wr_used = 0, wr_total = 0\<rparr>) (\<lambda>(g, w).
           finish_window vn em tid src current_segment g w)))
      else mutex_unlock g cur)))))"

definition rebalance_all :: "int \<Rightarrow> (int \<Rightarrow> int) \<Rightarrow> int \<Rightarrow> dgraph \<Rightarrow> dgraph res" where
  "rebalance_all vn em tid g =
     (let left_segment = get_segment_id g 0 - segment_count g;
          right_segment = get_segment_id g (num_vertices g) - segment_count g in
      sbind (lock_in_batch left_segment right_segment (-1) (g, 0, 0)) (\<lambda>(g, used, tot).
      sbind (rebalance_weighted vn em tid 0 (num_vertices g) used tot g) (\<lambda>g.
      unlock_in_batch left_segment (right_segment - 1) None g)))"

end
