(* ===== verification/DgapRebalanceOk.thy ===== *)
theory DgapRebalanceOk
  imports DgapRebalance
begin

text \<open>
  What moving the edges of a window achieves: no access leaves its array, every vertex keeps its
  edges in insertion order with the logged ones merged in, and no other vertex changes.
\<close>

section \<open>Frames\<close>

text \<open>
  The moving loops change the edge array, the undo log with its op-log word, and the record of
  flushes; \<open>rebalance_vertex\<close> changes the vertex array too.
\<close>

definition data_frame :: "dgraph \<Rightarrow> dgraph \<Rightarrow> bool" where
  "data_frame g g' \<longleftrightarrow>
     num_vertices g' = num_vertices g \<and> num_edges g' = num_edges g \<and>
     elem_capacity g' = elem_capacity g \<and> segment_size g' = segment_size g \<and>
     segment_count g' = segment_count g \<and> tree_height g' = tree_height g \<and>
     log_ptr g' = log_ptr g \<and> log_segment_idx g' = log_segment_idx g \<and>
     segment_edges_actual g' = segment_edges_actual g \<and>
     segment_edges_total g' = segment_edges_total g \<and> leaf_segments g' = leaf_segments g \<and>
     delta_up g' = delta_up g \<and> directed g' = directed g \<and> avg_degree g' = avg_degree g \<and>
     len (edges g') = len (edges g) \<and> len (vertices g') = len (vertices g)"

lemma data_frame_refl [simp]: "data_frame g g"
  by (simp add: data_frame_def)

lemma data_frame_trans: "data_frame g g' \<Longrightarrow> data_frame g' g'' \<Longrightarrow> data_frame g g''"
  by (simp add: data_frame_def)

lemma data_frame_selectors [frame_simps]:
  assumes "data_frame g g'"
  shows "num_vertices g' = num_vertices g" "num_edges g' = num_edges g"
    "elem_capacity g' = elem_capacity g" "segment_size g' = segment_size g"
    "segment_count g' = segment_count g" "tree_height g' = tree_height g"
    "log_ptr g' = log_ptr g" "log_segment_idx g' = log_segment_idx g"
    "segment_edges_actual g' = segment_edges_actual g"
    "segment_edges_total g' = segment_edges_total g" "leaf_segments g' = leaf_segments g"
    "delta_up g' = delta_up g" "directed g' = directed g" "avg_degree g' = avg_degree g"
    "len (edges g') = len (edges g)" "len (vertices g') = len (vertices g)"
  using assms by (simp_all add: data_frame_def)

lemma data_frame_updates:
  "len es = len (edges g) \<Longrightarrow> data_frame g (g\<lparr>edges := es\<rparr>)"
  "len vs = len (vertices g) \<Longrightarrow> data_frame g (g\<lparr>vertices := vs\<rparr>)"
  "data_frame g (g\<lparr>ulog_ptr := ul\<rparr>)"
  "data_frame g (g\<lparr>oplog_ptr := ol\<rparr>)"
  "data_frame g (flush e g)"
  by (simp_all add: data_frame_def flush_def)

text \<open>The undo log of the thread: present, with \<open>MAX_ULOG_ENTRIES\<close> cells.\<close>

definition ulog_ready :: "int \<Rightarrow> dgraph \<Rightarrow> bool" where
  "ulog_ready tid g \<longleftrightarrow> 0 \<le> tid \<and> tid < len (ulog_ptr g) \<and> tid < len (oplog_ptr g) \<and>
     len (cell (ulog_ptr g) tid) = MAX_ULOG_ENTRIES"

lemma flush_simps [simp]:
  "edges (flush e g) = edges g" "vertices (flush e g) = vertices g"
  "ulog_ptr (flush e g) = ulog_ptr g" "oplog_ptr (flush e g) = oplog_ptr g"
  "elem_capacity (flush e g) = elem_capacity g" "segment_count (flush e g) = segment_count g"
  "segment_size (flush e g) = segment_size g" "num_vertices (flush e g) = num_vertices g"
  "log_ptr (flush e g) = log_ptr g" "log_segment_idx (flush e g) = log_segment_idx g"
  "num_edges (flush e g) = num_edges g" "leaf_segments (flush e g) = leaf_segments g"
  "segment_edges_actual (flush e g) = segment_edges_actual g"
  "segment_edges_total (flush e g) = segment_edges_total g"
  "delta_up (flush e g) = delta_up g" "directed (flush e g) = directed g"
  "tree_height (flush e g) = tree_height g" "avg_degree (flush e g) = avg_degree g"
  by (simp_all add: flush_def)

lemma len_append [simp]: "len (xs @ ys) = len xs + len ys"
  by (simp add: len_def)

lemma len_map [simp]: "len (map f xs) = len xs"
  by (simp add: len_def)

lemma len_drop [simp]: "0 \<le> n \<Longrightarrow> n \<le> len xs \<Longrightarrow> len (drop (nat n) xs) = len xs - n"
  by (simp add: len_def)

lemma len_upt [simp]: "len [0..<n] = int n"
  by (simp add: len_def)

lemma load_into_ulog_ok:
  assumes "ulog_ready tid g" and "0 \<le> sz" "sz \<le> MAX_ULOG_ENTRIES"
  shows "\<exists>g'. load_into_ulog em tid a sz f1 f2 g = Inr g' \<and> data_frame g g' \<and>
           edges g' = edges g \<and> vertices g' = vertices g \<and> ulog_ready tid g'"
proof -
  define h where "h = (if f1 \<noteq> f2 then flush (FlEdges f1 (f2 - f1 + 1)) g else g)"
  have h: "edges h = edges g" "vertices h = vertices g" "ulog_ptr h = ulog_ptr g" "oplog_ptr h = oplog_ptr g"
    and fr: "data_frame g h"
    by (simp_all add: h_def data_frame_updates)
  have t: "0 \<le> tid" "tid < len (ulog_ptr g)" "tid < len (oplog_ptr g)"
    "len (cell (ulog_ptr g) tid) = MAX_ULOG_ENTRIES"
    using assms(1) by (auto simp: ulog_ready_def)
  define row where "row = map (\<lambda>k. peek em (edges g) (a + int k)) [0..<nat sz]
                @ drop (nat sz) (cell (ulog_ptr g) tid)"
  have lrow: "len row = MAX_ULOG_ENTRIES" using assms(2,3) t(4) by (simp add: row_def)
  define g' where "g' = flush (FlOplog tid) (flush (FlUlogPtrVar tid)
     h\<lparr>ulog_ptr := upd (ulog_ptr g) tid row\<rparr>\<lparr>oplog_ptr := upd (oplog_ptr g) tid a\<rparr>)"
  have "load_into_ulog em tid a sz f1 f2 g = Inr g'"
    using t assms(2,3)
    unfolding load_into_ulog_def Let_def h_def [symmetric] g'_def
    by (simp add: h row_def flush_def)
  moreover have "data_frame h g'" by (simp add: g'_def data_frame_def flush_def)
  then have "data_frame g g'" by (rule data_frame_trans [OF fr])
  moreover have "edges g' = edges g" "vertices g' = vertices g" by (simp_all add: g'_def h flush_def)
  moreover have "ulog_ready tid g'" using t lrow by (simp add: ulog_ready_def g'_def flush_def)
  ultimately show ?thesis by blast
qed

section \<open>Shifts\<close>

text \<open>What the moving loops keep, and their content afterwards.\<close>

definition moved :: "int \<Rightarrow> dgraph \<Rightarrow> dgraph \<Rightarrow> bool" where
  "moved tid g g' \<longleftrightarrow> data_frame g g' \<and> vertices g' = vertices g \<and> ulog_ready tid g'"

lemma moved_trans: "moved tid g g' \<Longrightarrow> moved tid g' g'' \<Longrightarrow> moved tid g g''"
  by (auto simp: moved_def intro: data_frame_trans)

lemma moved_frame: "moved tid g g' \<Longrightarrow> data_frame g g'"
  by (simp add: moved_def)

lemma ulog_fwd_ok:
  assumes "ulog_ready tid g" and "wi \<le> elem_capacity g"
  obtains g' st' nd' where "ulog_fwd em tid wi (g, st, nd) = Inr (g', st', nd')"
    and "moved tid g g'" and "edges g' = edges g"
proof (cases "wi < st \<or> wi \<ge> nd")
  case True
  let ?sz = "if wi + MAX_ULOG_ENTRIES \<le> elem_capacity g then MAX_ULOG_ENTRIES
                       else elem_capacity g - wi"
  obtain sz where sz: "sz = ?sz" by blast
  have "0 \<le> sz" "sz \<le> MAX_ULOG_ENTRIES" using assms(2) by (auto simp: sz MAX_ULOG_ENTRIES_def)
  with load_into_ulog_ok [OF assms(1)] obtain g' where g': "load_into_ulog em tid wi sz st nd g = Inr g'"
    "data_frame g g'" "edges g' = edges g" "vertices g' = vertices g" "ulog_ready tid g'" by blast
  show thesis
    by (rule that [of g' "wi" "if wi + MAX_ULOG_ENTRIES \<le> elem_capacity g then wi + MAX_ULOG_ENTRIES
       else elem_capacity g"])
      (use True g' in \<open>simp_all add: ulog_fwd_def Let_def sz moved_def\<close>)
next
  case False
  then show thesis using that [of g st nd] assms(1) by (simp add: ulog_fwd_def moved_def)
qed

lemma ulog_bwd_ok:
  assumes "ulog_ready tid g" and "0 \<le> wi"
  obtains g' st' nd' where "ulog_bwd em tid wi (g, st, nd) = Inr (g', st', nd')"
    and "moved tid g g'" and "edges g' = edges g"
proof (cases "wi < st \<or> wi \<ge> nd")
  case True
  let ?sz = "if wi - MAX_ULOG_ENTRIES \<ge> 0 then MAX_ULOG_ENTRIES else wi"
  obtain sz where sz: "sz = ?sz" by blast
  have "0 \<le> sz" "sz \<le> MAX_ULOG_ENTRIES" using assms(2) by (auto simp: sz MAX_ULOG_ENTRIES_def)
  with load_into_ulog_ok [OF assms(1)] obtain g' where
    g': "load_into_ulog em tid (wi - MAX_ULOG_ENTRIES) sz st nd g = Inr g'"
    "data_frame g g'" "edges g' = edges g" "vertices g' = vertices g" "ulog_ready tid g'" by blast
  show thesis
    by (rule that [of g' "if wi - MAX_ULOG_ENTRIES \<ge> 0 then wi - MAX_ULOG_ENTRIES else 0" "wi"])
      (use True g' in \<open>simp_all add: ulog_bwd_def Let_def sz moved_def\<close>)
next
  case False
  then show thesis using that [of g st nd] assms(1) by (simp add: ulog_bwd_def moved_def)
qed

lemma write_edge_ok:
  assumes "0 \<le> wi" "wi < len (edges g)"
  shows "write_edge wi x (g, st, nd) = Inr (g\<lparr>edges := upd (edges g) wi x\<rparr>, st, nd)"
  using assms by (simp add: write_edge_def set_edge_def)

lemma moved_write:
  "ulog_ready tid g \<Longrightarrow> moved tid g (g\<lparr>edges := upd (edges g) wi x\<rparr>)"
  by (simp add: moved_def data_frame_updates ulog_ready_def)

lemma moved_refl: "ulog_ready tid g \<Longrightarrow> moved tid g g"
  by (simp add: moved_def)

lemma moved_ready: "moved tid g g' \<Longrightarrow> ulog_ready tid g'"
  by (simp add: moved_def)

text \<open>One step shared by the loops: the undo log is served, then one cell is written.\<close>

lemma shift_left_ok:
  assumes "ulog_ready tid g" and "len (edges g) = elem_capacity g"
    and "0 \<le> w" "w < r" "l \<le> len (edges g)"
  shows "\<exists>g' st' nd'. shift_left em tid r l w (g, st, nd) = Inr (g', st', nd') \<and> moved tid g g' \<and>
    (\<forall>i. 0 \<le> i \<longrightarrow> cell (edges g') i =
       (if w \<le> i \<and> i < w + (l - r) then cell (edges g) (i - w + r) else cell (edges g) i))"
  using assms
proof (induction "nat (l - r)" arbitrary: g st nd r w)
  case 0
  then have "\<not> r < l" by simp
  then show ?case using "0.prems" by (subst shift_left.simps) (auto intro!: moved_refl)
next
  case (Suc n)
  then have rl: "r < l" by simp
  obtain g1 st1 nd1 where u: "ulog_fwd em tid w (g, st, nd) = Inr (g1, st1, nd1)"
    "moved tid g g1" "edges g1 = edges g"
    using Suc.prems rl by - (rule ulog_fwd_ok [OF Suc.prems(1), of w em st nd], auto)
  define x where "x = cell (edges g) r"
  define g2 where "g2 = g1\<lparr>edges := upd (edges g) w x\<rparr>"
  have m2: "moved tid g g2"
    using u moved_write [OF moved_ready [OF u(2)], of w x] by (auto simp: g2_def intro: moved_trans)
  have e2: "edges g2 = upd (edges g) w x" by (simp add: g2_def)
  have "\<exists>g' st' nd'. shift_left em tid (r + 1) l (w + 1) (g2, st1, nd1) = Inr (g', st', nd') \<and> moved tid g2 g' \<and>
    (\<forall>i. 0 \<le> i \<longrightarrow> cell (edges g') i =
       (if w + 1 \<le> i \<and> i < w + 1 + (l - (r + 1)) then cell (edges g2) (i - (w + 1) + (r + 1)) else cell (edges g2) i))"
  proof (rule Suc.hyps(1))
    show "len (edges g2) = elem_capacity g2"
      using Suc.prems(2) data_frame_selectors [OF moved_frame [OF m2]] by simp
    show "l \<le> len (edges g2)" using Suc.prems(5) by (simp add: e2)
  qed (use Suc.hyps(2) Suc.prems moved_ready [OF m2] in auto)
  then obtain g' st' nd' where g': "shift_left em tid (r + 1) l (w + 1) (g2, st1, nd1) = Inr (g', st', nd')"
    "moved tid g2 g'" and c: "\<And>i. 0 \<le> i \<Longrightarrow> cell (edges g') i =
       (if w + 1 \<le> i \<and> i < w + 1 + (l - (r + 1)) then cell (edges g2) (i - (w + 1) + (r + 1)) else cell (edges g2) i)"
    by blast
  have "shift_left em tid r l w (g, st, nd) = Inr (g', st', nd')"
    using rl u g'(1) Suc.prems
    by (subst shift_left.simps) (simp add: write_edge_ok x_def [symmetric] g2_def)
  moreover have "moved tid g g'" using m2 g'(2) by (rule moved_trans)
  moreover have "cell (edges g') i = (if w \<le> i \<and> i < w + (l - r) then cell (edges g) (i - w + r) else cell (edges g) i)"
    if i: "0 \<le> i" for i
    using c [OF i] Suc.prems rl i by (auto simp: e2 x_def cell_upd algebra_simps)
  ultimately show ?case by blast
qed

lemma shift_right_ok:
  assumes "ulog_ready tid g" and "0 \<le> l" "r < w" "w < len (edges g)"
  shows "\<exists>g' st' nd'. shift_right em tid r l w (g, st, nd) = Inr (g', st', nd') \<and> moved tid g g' \<and>
    (\<forall>i. 0 \<le> i \<longrightarrow> cell (edges g') i =
       (if w - (r - l) \<le> i \<and> i \<le> w then cell (edges g) (i - w + r) else cell (edges g) i))"
  using assms
proof (induction "nat (r + 1 - l)" arbitrary: g st nd r w)
  case 0
  then have "\<not> r \<ge> l" by simp
  then show ?case using "0.prems" by (subst shift_right.simps) (auto intro!: moved_refl)
next
  case (Suc n)
  then have rl: "l \<le> r" by simp
  obtain g1 st1 nd1 where u: "ulog_bwd em tid w (g, st, nd) = Inr (g1, st1, nd1)"
    "moved tid g g1" "edges g1 = edges g"
    using Suc.prems rl by - (rule ulog_bwd_ok [OF Suc.prems(1), of w em st nd], auto)
  define x where "x = cell (edges g) r"
  define g2 where "g2 = g1\<lparr>edges := upd (edges g) w x\<rparr>"
  have m2: "moved tid g g2"
    using u moved_write [OF moved_ready [OF u(2)], of w x] by (auto simp: g2_def intro: moved_trans)
  have e2: "edges g2 = upd (edges g) w x" by (simp add: g2_def)
  have "\<exists>g' st' nd'. shift_right em tid (r - 1) l (w - 1) (g2, st1, nd1) = Inr (g', st', nd') \<and> moved tid g2 g' \<and>
    (\<forall>i. 0 \<le> i \<longrightarrow> cell (edges g') i =
       (if w - 1 - (r - 1 - l) \<le> i \<and> i \<le> w - 1 then cell (edges g2) (i - (w - 1) + (r - 1)) else cell (edges g2) i))"
  proof (rule Suc.hyps(1))
    show "w - 1 < len (edges g2)" using Suc.prems by (simp add: e2)
  qed (use Suc.hyps(2) Suc.prems moved_ready [OF m2] in auto)
  then obtain g' st' nd' where g': "shift_right em tid (r - 1) l (w - 1) (g2, st1, nd1) = Inr (g', st', nd')"
    "moved tid g2 g'" and c: "\<And>i. 0 \<le> i \<Longrightarrow> cell (edges g') i =
       (if w - 1 - (r - 1 - l) \<le> i \<and> i \<le> w - 1 then cell (edges g2) (i - (w - 1) + (r - 1)) else cell (edges g2) i)"
    by blast
  have "shift_right em tid r l w (g, st, nd) = Inr (g', st', nd')"
    using rl u g'(1) Suc.prems
    by (subst shift_right.simps) (simp add: write_edge_ok x_def [symmetric] g2_def)
  moreover have "moved tid g g'" using m2 g'(2) by (rule moved_trans)
  moreover have "cell (edges g') i = (if w - (r - l) \<le> i \<and> i \<le> w then cell (edges g) (i - w + r) else cell (edges g) i)"
    if i: "0 \<le> i" for i
    using c [OF i] Suc.prems rl i by (auto simp: e2 x_def cell_upd algebra_simps)
  ultimately show ?case by blast
qed

section \<open>Log chains\<close>

text \<open>
  The logged edges of a vertex \<open>v\<close> hang on a chain of \<open>k\<close> entries of its segment's log, newest
  first, each at a smaller offset than the one before.
\<close>

fun chain_ok :: "LogEntry list \<Rightarrow> int \<Rightarrow> nat \<Rightarrow> int \<Rightarrow> bool" where
  "chain_ok row v 0 o' \<longleftrightarrow> o' = -1"
| "chain_ok row v (Suc k) o' \<longleftrightarrow> 0 \<le> o' \<and> o' < len row \<and> le_u (cell row o') = v \<and>
     le_prev (cell row o') < o' \<and> chain_ok row v k (le_prev (cell row o'))"

fun chain_vals :: "LogEntry list \<Rightarrow> nat \<Rightarrow> int \<Rightarrow> int list" where
  "chain_vals row 0 o' = []"
| "chain_vals row (Suc k) o' = le_v (cell row o') # chain_vals row k (le_prev (cell row o'))"

lemma length_chain_vals [simp]: "length (chain_vals row k o') = k"
  by (induction k arbitrary: o') auto

lemma chain_ok_bound: "chain_ok row v k o' \<Longrightarrow> int k \<le> o' + 1 \<and> -1 \<le> o'"
  by (induction k arbitrary: o') fastforce+

lemma chain_ok_len: "chain_ok row v k o' \<Longrightarrow> int k \<le> len row"
  using chain_ok_bound [of row v k o'] by (cases k) auto

lemma chain_ok_nil_iff: "chain_ok row v k o' \<Longrightarrow> o' = -1 \<longleftrightarrow> k = 0"
  by (cases k) auto

lemma move_log_nil [simp]: "move_log em tid row n (-1) w s = Inr s"
  by (cases n) auto

lemma move_log_ok:
  assumes "ulog_ready tid g" and "chain_ok row v k o'" and "k \<le> n"
    and "0 \<le> w - int k + 1" "w < len (edges g)"
  shows "\<exists>g' st' nd'. move_log em tid row n o' w (g, st, nd) = Inr (g', st', nd') \<and> moved tid g g' \<and>
    (\<forall>i. 0 \<le> i \<longrightarrow> cell (edges g') i =
       (if w - int k < i \<and> i \<le> w then chain_vals row k o' ! nat (w - i) else cell (edges g) i))"
  using assms
proof (induction k arbitrary: g st nd o' w n)
  case 0
  then have "move_log em tid row n o' w (g, st, nd) = Inr (g, st, nd)" by (cases n) auto
  then show ?case using "0.prems" by (auto intro!: moved_refl)
next
  case (Suc k)
  then obtain m where n: "n = Suc m" by (cases n) auto
  have o': "0 \<le> o'" "o' < len row" "chain_ok row v k (le_prev (cell row o'))" using Suc.prems(2) by auto
  obtain g1 st1 nd1 where u: "ulog_bwd em tid w (g, st, nd) = Inr (g1, st1, nd1)"
    "moved tid g g1" "edges g1 = edges g"
    using Suc.prems by - (rule ulog_bwd_ok [OF Suc.prems(1), of w em st nd], auto)
  define x where "x = le_v (cell row o')"
  define g2 where "g2 = g1\<lparr>edges := upd (edges g) w x\<rparr>"
  have m2: "moved tid g g2"
    using u moved_write [OF moved_ready [OF u(2)], of w x] by (auto simp: g2_def intro: moved_trans)
  have e2: "edges g2 = upd (edges g) w x" by (simp add: g2_def)
  have w2: "0 \<le> w - 1 - int k + 1" "w - 1 < len (edges g2)" "k \<le> m" "0 \<le> w" "w < len (edges g)"
    using Suc.prems n by (auto simp: e2)
  obtain g' st' nd' where g': "move_log em tid row m (le_prev (cell row o')) (w - 1) (g2, st1, nd1) = Inr (g', st', nd')"
    "moved tid g2 g'" and c: "\<And>i. 0 \<le> i \<Longrightarrow> cell (edges g') i =
       (if w - 1 - int k < i \<and> i \<le> w - 1 then chain_vals row k (le_prev (cell row o')) ! nat (w - 1 - i) else cell (edges g2) i)"
    using Suc.IH [OF moved_ready [OF m2] o'(3) w2(3,1,2)] by blast
  have "move_log em tid row n o' w (g, st, nd) = Inr (g', st', nd')"
    using n o' u g'(1) w2(4,5) by (auto simp: write_edge_ok x_def [symmetric] g2_def)
  moreover have "moved tid g g'" using m2 g'(2) by (rule moved_trans)
  moreover have "cell (edges g') i = (if w - int (Suc k) < i \<and> i \<le> w then chain_vals row (Suc k) o' ! nat (w - i) else cell (edges g) i)"
    if i: "0 \<le> i" for i
  proof (cases "i = w")
    case True
    then show ?thesis using c [OF i] w2(4,5) by (simp add: e2 x_def)
  next
    case False
    then have "nat (w - i) = Suc (nat (w - 1 - i))" if "i \<le> w" using that by simp
    then show ?thesis using c [OF i] False i w2(4,5) by (auto simp: e2 cell_upd)
  qed
  ultimately show ?case by blast
qed

text \<open>Both shifts, and no shift at all, copy \<open>n\<close> cells from \<open>a\<close> to \<open>b\<close>.\<close>

lemma shift_ok:
  assumes "ulog_ready tid g" and "len (edges g) = elem_capacity g"
    and "0 \<le> a" "0 \<le> b" "0 \<le> n" "a + n \<le> len (edges g)" "b + n \<le> len (edges g)"
  shows "\<exists>g' st' nd'. (if b < a then shift_left em tid a (a + n) b (g, st, nd)
            else if b > a then shift_right em tid (a + n - 1) a (b + n - 1) (g, st, nd)
            else Inr (g, st, nd)) = Inr (g', st', nd') \<and> moved tid g g' \<and>
    (\<forall>i. 0 \<le> i \<longrightarrow> cell (edges g') i =
       (if b \<le> i \<and> i < b + n then cell (edges g) (i - b + a) else cell (edges g) i))"
proof -
  consider "b < a" | "b > a" | "b = a" by linarith
  then show ?thesis
  proof cases
    case 1
    then show ?thesis using shift_left_ok [OF assms(1,2), of b a "a + n" em st nd] assms by simp
  next
    case 2
    then obtain g' st' nd' where g': "shift_right em tid (a + n - 1) a (b + n - 1) (g, st, nd) = Inr (g', st', nd')"
      "moved tid g g'" and c: "\<And>i. 0 \<le> i \<Longrightarrow> cell (edges g') i =
       (if b + n - 1 - (a + n - 1 - a) \<le> i \<and> i \<le> b + n - 1 then cell (edges g) (i - (b + n - 1) + (a + n - 1))
        else cell (edges g) i)"
      using shift_right_ok [OF assms(1,3), of "a + n - 1" "b + n - 1" em st nd] assms by auto
    have "cell (edges g') i = (if b \<le> i \<and> i < b + n then cell (edges g) (i - b + a) else cell (edges g) i)"
      if "0 \<le> i" for i
    proof -
      have "i - (b + n - 1) + (a + n - 1) = i - b + a" by simp
      then show ?thesis using c [OF that] by (auto simp: algebra_simps)
    qed
    then show ?thesis using 2 g' by auto
  next
    case 3
    then show ?thesis using assms(1) by (auto intro!: moved_refl)
  qed
qed

lemma rebalance_vertex_ok:
  assumes rdy: "ulog_ready tid g" and cap: "len (edges g) = elem_capacity g"
    and jj: "0 \<le> jj" "jj < len (vertices g)" "x = cell (vertices g) jj"
    and ni: "0 \<le> jj - s" "jj - s < len ns" "ni = cell ns (jj - s)"
    and n: "n = (if v_offset x \<noteq> -1 then nvb - v_index x + 1 else v_degree x)"
      "0 \<le> n" "n \<le> v_degree x"
    and rng: "0 \<le> v_index x" "v_index x + n \<le> len (edges g)" "0 \<le> ni" "ni + v_degree x \<le> len (edges g)"
    and sg: "0 \<le> get_segment_id g jj - segment_count g" "get_segment_id g jj - segment_count g < len (log_ptr g)"
      "row = cell (log_ptr g) (get_segment_id g jj - segment_count g)" "len row = MAX_LOG_ENTRIES"
    and ch: "chain_ok row jj (nat (v_degree x - n)) (v_offset x)"
  shows "\<exists>g' st' nd'. rebalance_vertex em tid s ns jj nvb (g, st, nd) = Inr (v_index x - 1, g', st', nd') \<and>
     data_frame g g' \<and> ulog_ready tid g' \<and>
     vertices g' = upd (vertices g) jj (x\<lparr>v_index := ni, v_offset := -1\<rparr>) \<and>
     (\<forall>i. 0 \<le> i \<longrightarrow> cell (edges g') i =
        (if ni \<le> i \<and> i < ni + v_degree x
         then (cells (edges g) (v_index x) n @ rev (chain_vals row (nat (v_degree x - n)) (v_offset x))) ! nat (i - ni)
         else cell (edges g) i))"
proof -
  define k where "k = nat (v_degree x - n)"
  have k: "int k = v_degree x - n" using n by (simp add: k_def)
  have "ni + n \<le> len (edges g)" using rng(4) n(3) by simp
  then obtain g1 st1 nd1 where sh: "(if ni < v_index x then shift_left em tid (v_index x) (v_index x + n) ni (g, st, nd)
            else if ni > v_index x then shift_right em tid (v_index x + n - 1) (v_index x) (ni + n - 1) (g, st, nd)
            else Inr (g, st, nd)) = Inr (g1, st1, nd1)" and m1: "moved tid g g1"
    and c1: "\<And>i. 0 \<le> i \<Longrightarrow> cell (edges g1) i =
       (if ni \<le> i \<and> i < ni + n then cell (edges g) (i - ni + v_index x) else cell (edges g) i)"
    using shift_ok [OF rdy cap rng(1,3) n(2) rng(2), of em st nd] by blast
  note f1 = data_frame_selectors [OF moved_frame [OF m1]]
  have v1: "vertices g1 = vertices g" and r1: "ulog_ready tid g1" using m1 by (simp_all add: moved_def)
  have sid: "get_segment_id g1 jj = get_segment_id g jj" by (simp add: get_segment_id_def f1)
  have "k \<le> log_fuel" using chain_ok_len [OF ch] sg(4) unfolding log_fuel_def k_def MAX_LOG_ENTRIES_def by linarith
  moreover have ch': "chain_ok row jj k (v_offset x)" using ch by (simp add: k_def)
  moreover have "0 \<le> ni + v_degree x - 1 - int k + 1" using k rng(3) n(2) by simp
  moreover have "ni + v_degree x - 1 < len (edges g1)" using rng(4) f1 by simp
  ultimately obtain g2 st2 nd2 where ml: "move_log em tid row log_fuel (v_offset x) (ni + v_degree x - 1) (g1, st1, nd1) = Inr (g2, st2, nd2)"
    and m2: "moved tid g1 g2" and c2: "\<And>i. 0 \<le> i \<Longrightarrow> cell (edges g2) i =
       (if ni + v_degree x - 1 - int k < i \<and> i \<le> ni + v_degree x - 1
        then chain_vals row k (v_offset x) ! nat (ni + v_degree x - 1 - i) else cell (edges g1) i)"
    using move_log_ok [OF r1] by meson
  note f2 = data_frame_selectors [OF moved_frame [OF m2]]
  have v2: "vertices g2 = vertices g" using m2 v1 by (simp add: moved_def)
  have ml': "(if v_offset x \<noteq> -1
            then sbind (rd (log_ptr g1) (get_segment_id g1 jj - segment_count g1)) (\<lambda>row.
                 move_log em tid row log_fuel (v_offset x) (ni + v_degree x - 1) (g1, st1, nd1))
            else Inr (g1, st1, nd1)) = Inr (g2, st2, nd2)"
  proof (cases "v_offset x = -1")
    case True
    then show ?thesis using ml by simp
  next
    case False
    then show ?thesis using ml sg by (simp add: f1 sid)
  qed
  define g' where "g' = g2\<lparr>vertices := upd (vertices g) jj (x\<lparr>v_index := ni, v_offset := -1\<rparr>)\<rparr>"
  have "rebalance_vertex em tid s ns jj nvb (g, st, nd) = Inr (v_index x - 1, g', st2, nd2)"
  proof -
    have rd1: "rd (vertices g) jj = Inr x" "rd ns (jj - s) = Inr ni" using jj ni by simp_all
    have sv: "set_vertex g2 jj (x\<lparr>v_index := ni, v_offset := -1\<rparr>) = Inr g'"
      using jj by (simp add: set_vertex_def v2 g'_def)
    show ?thesis
      unfolding rebalance_vertex_def Let_def fst_conv rd1 sbind_simps n(1) [symmetric] sh ml' sv snd_conv
      by (rule refl)
  qed
  moreover have "data_frame g g'"
    using data_frame_trans [OF moved_frame [OF m1] moved_frame [OF m2]] v2
    by (simp add: g'_def data_frame_def)
  moreover have "ulog_ready tid g'" using m2 by (simp add: moved_def g'_def ulog_ready_def)
  moreover have "vertices g' = upd (vertices g) jj (x\<lparr>v_index := ni, v_offset := -1\<rparr>)" by (simp add: g'_def)
  moreover have "cell (edges g') i =
        (if ni \<le> i \<and> i < ni + v_degree x
         then (cells (edges g) (v_index x) n @ rev (chain_vals row (nat (v_degree x - n)) (v_offset x))) ! nat (i - ni)
         else cell (edges g) i)" if i: "0 \<le> i" for i
  proof -
    have e: "cell (edges g') i = cell (edges g2) i" by (simp add: g'_def)
    consider "i < ni" | "ni \<le> i" "i < ni + n" | "ni + n \<le> i" "i < ni + v_degree x" | "ni + v_degree x \<le> i"
      by linarith
    then show ?thesis
    proof cases
      case 2
      then have "nat (i - ni) < nat n" by simp
      then show ?thesis using 2 c1 [OF i] c2 [OF i] n k by (simp add: e nth_append algebra_simps)
    next
      case 3
      then have "k - Suc (nat (i - ni) - nat n) = nat (ni + v_degree x - 1 - i)"
        and "nat (i - ni) - nat n < k" "\<not> nat (i - ni) < nat n"
        using k n(2) by linarith+
      note ix = this
      have "(cells (edges g) (v_index x) n @ rev (chain_vals row k (v_offset x))) ! nat (i - ni)
        = rev (chain_vals row k (v_offset x)) ! (nat (i - ni) - nat n)"
        using ix(3) by (simp only: nth_append length_cells if_False)
      also have "\<dots> = chain_vals row k (v_offset x) ! (k - Suc (nat (i - ni) - nat n))"
        using ix(2) by (simp only: rev_nth length_chain_vals)
      finally show ?thesis using 3 c2 [OF i] k n(2) ix(1) by (simp add: e flip: k_def)
    qed (use c1 [OF i] c2 [OF i] n k in \<open>simp_all add: e\<close>)
  qed
  ultimately show ?thesis by blast
qed

end
