(* ===== verification/DgapWindowOk.thy ===== *)
theory DgapWindowOk
  imports DgapRebalanceOk
begin

text \<open>
  The shape and the layout invariant of the graph, the edges a vertex holds (\<open>vlist\<close>), and the
  theorem about the loop of \<^verbatim>\<open>rebalance_data_V1\<close>: it ends without an out-of-bounds access, every
  vertex of the window holds the same edges in one piece at its new position, no other changes.
\<close>

section \<open>Shape and layout\<close>

definition wf_shape :: "dgraph \<Rightarrow> bool" where
  "wf_shape g \<longleftrightarrow> 0 < segment_size g \<and> 0 < segment_count g \<and>
     num_vertices g = segment_count g * segment_size g \<and>
     len (vertices g) = num_vertices g \<and> len (edges g) = elem_capacity g \<and>
     len (log_ptr g) = segment_count g \<and> len (log_segment_idx g) = segment_count g \<and>
     len (segment_edges_actual g) = 2 * segment_count g \<and>
     len (segment_edges_total g) = 2 * segment_count g \<and>
     len (leaf_segments g) = segment_count g \<and>
     (\<forall>sg. 0 \<le> sg \<and> sg < segment_count g \<longrightarrow> len (cell (log_ptr g) sg) = MAX_LOG_ENTRIES \<and>
        0 \<le> cell (log_segment_idx g) sg \<and> cell (log_segment_idx g) sg \<le> MAX_LOG_ENTRIES)"

lemma wf_shapeD:
  assumes "wf_shape g"
  shows "0 < segment_size g" "0 < segment_count g" "num_vertices g = segment_count g * segment_size g"
    "len (vertices g) = num_vertices g" "len (edges g) = elem_capacity g"
    "len (log_ptr g) = segment_count g" "len (log_segment_idx g) = segment_count g"
    "len (segment_edges_actual g) = 2 * segment_count g"
    "len (segment_edges_total g) = 2 * segment_count g" "len (leaf_segments g) = segment_count g"
  using assms by (simp_all add: wf_shape_def)

lemma wf_shape_rows:
  assumes "wf_shape g" "0 \<le> sg" "sg < segment_count g"
  shows "len (cell (log_ptr g) sg) = MAX_LOG_ENTRIES"
    "0 \<le> cell (log_segment_idx g) sg" "cell (log_segment_idx g) sg \<le> MAX_LOG_ENTRIES"
  using assms by (auto simp: wf_shape_def)

definition seg_of :: "dgraph \<Rightarrow> int \<Rightarrow> int" where
  "seg_of g v = v div segment_size g"

lemma get_segment_id_seg_of:
  "wf_shape g \<Longrightarrow> 0 \<le> v \<Longrightarrow> get_segment_id g v = seg_of g v + segment_count g"
  by (simp add: get_segment_id_def seg_of_def wf_shapeD)

lemma div_less_of_mult: "(v::int) < c * z \<Longrightarrow> 0 < z \<Longrightarrow> v div z < c"
proof (rule ccontr)
  assume a: "v < c * z" "0 < z" "\<not> v div z < c"
  then have "c * z \<le> v div z * z" by (intro mult_right_mono) auto
  also have "\<dots> \<le> v" using a(2) by (simp add: minus_mod_eq_div_mult [symmetric])
  finally show False using a(1) by simp
qed

lemma seg_of_range:
  assumes "wf_shape g" "0 \<le> v" "v < num_vertices g"
  shows "0 \<le> seg_of g v" "seg_of g v < segment_count g"
proof -
  have "v < segment_count g * segment_size g" using assms wf_shapeD [OF assms(1)] by simp
  then show "seg_of g v < segment_count g"
    unfolding seg_of_def using wf_shapeD(1) [OF assms(1)] by (rule div_less_of_mult)
  show "0 \<le> seg_of g v" using assms wf_shapeD(1) [OF assms(1)] by (simp add: seg_of_def pos_imp_zdiv_nonneg_iff)
qed

text \<open>Where the region of vertex \<open>v\<close> starts; \<open>start g (v + 1)\<close> is where it ends.\<close>

definition start :: "dgraph \<Rightarrow> int \<Rightarrow> int" where
  "start g v = (if v \<ge> num_vertices g then elem_capacity g else idx g v)"

definition onseg :: "dgraph \<Rightarrow> int \<Rightarrow> int" where
  "onseg g v = (if off g v = -1 then deg g v else start g (v + 1) - idx g v)"

definition log_row :: "dgraph \<Rightarrow> int \<Rightarrow> LogEntry list" where
  "log_row g v = cell (log_ptr g) (seg_of g v)"

text \<open>The cells of a vertex: its pivot, its edges in insertion order, logged ones last.\<close>

definition vlist :: "dgraph \<Rightarrow> int \<Rightarrow> int list" where
  "vlist g v = cells (edges g) (idx g v) (onseg g v)
     @ rev (chain_vals (log_row g v) (nat (deg g v - onseg g v)) (off g v))"

definition vertex_ok :: "dgraph \<Rightarrow> int \<Rightarrow> bool" where
  "vertex_ok g v \<longleftrightarrow> 0 \<le> idx g v \<and> 1 \<le> onseg g v \<and> onseg g v \<le> deg g v \<and>
     idx g v + onseg g v \<le> start g (v + 1) \<and>
     chain_ok (log_row g v) v (nat (deg g v - onseg g v)) (off g v)"

definition wf_layout :: "dgraph \<Rightarrow> bool" where
  "wf_layout g \<longleftrightarrow> wf_shape g \<and> (\<forall>v. 0 \<le> v \<and> v < num_vertices g \<longrightarrow> vertex_ok g v)"

lemma wf_layoutD:
  "wf_layout g \<Longrightarrow> wf_shape g"
  "wf_layout g \<Longrightarrow> 0 \<le> v \<Longrightarrow> v < num_vertices g \<Longrightarrow> vertex_ok g v"
  by (simp_all add: wf_layout_def)

lemma vertex_okD:
  assumes "vertex_ok g v"
  shows "0 \<le> idx g v" "1 \<le> onseg g v" "onseg g v \<le> deg g v" "1 \<le> deg g v"
    "idx g v + onseg g v \<le> start g (v + 1)"
    "chain_ok (log_row g v) v (nat (deg g v - onseg g v)) (off g v)"
  using assms by (auto simp: vertex_ok_def)

lemma length_vlist: "vertex_ok g v \<Longrightarrow> length (vlist g v) = nat (deg g v)"
  using vertex_okD [of g v] by (simp add: vlist_def nat_diff_distrib)

lemma start_idx: "v < num_vertices g \<Longrightarrow> start g v = idx g v"
  by (simp add: start_def)

lemma start_mono:
  assumes "wf_layout g" "0 \<le> u" "u \<le> v" "v \<le> num_vertices g"
  shows "start g u \<le> start g v"
  using assms(3,4)
proof (induction "nat (v - u)" arbitrary: v)
  case (Suc n)
  have "vertex_ok g (v - 1)" using assms(1,2) Suc by (intro wf_layoutD) auto
  from vertex_okD(2,5) [OF this] have "start g (v - 1) \<le> start g v"
    using Suc by (simp add: start_idx [of "v - 1"])
  moreover have "start g u \<le> start g (v - 1)" using Suc by (intro Suc.hyps(1)) auto
  ultimately show ?case by simp
qed simp

lemma start_le_cap:
  "wf_layout g \<Longrightarrow> 0 \<le> v \<Longrightarrow> v \<le> num_vertices g \<Longrightarrow> start g v \<le> elem_capacity g"
  using start_mono [of g v "num_vertices g"] by (simp add: start_def)

lemma positions_mono:
  assumes fit: "positions_fit g s e b ns" and ok: "wf_layout g" "0 \<le> s" "e \<le> num_vertices g"
    and "s \<le> v" "v < w" "w < e"
  shows "cell ns (v - s) + deg g v \<le> cell ns (w - s)"
  using assms(6,7)
proof (induction "nat (w - v)" arbitrary: w)
  case (Suc n)
  have one: "cell ns (w - 1 - s) + deg g (w - 1) \<le> cell ns (w - s)"
    using fit [unfolded positions_fit_def] Suc.prems assms(5) by (auto dest!: spec [of _ "w - 1"] split: if_splits)
  show ?case
  proof (cases "v = w - 1")
    case False
    then have "cell ns (v - s) + deg g v \<le> cell ns (w - 1 - s)" using Suc by (intro Suc.hyps(1)) auto
    moreover have "vertex_ok g (w - 1)" using ok Suc.prems assms(5) by (intro wf_layoutD) auto
    ultimately show ?thesis using one vertex_okD(4) [of g "w - 1"] by simp
  qed (use one in simp)
qed simp

lemma positions_end:
  assumes fit: "positions_fit g s e b ns" and ok: "wf_layout g" "0 \<le> s" "e \<le> num_vertices g"
    and "s \<le> v" "v < e"
  shows "cell ns (v - s) + deg g v \<le> b"
proof (cases "v = e - 1")
  case True
  then show ?thesis using fit [unfolded positions_fit_def] assms(5,6) by (auto dest!: spec [of _ v])
next
  case False
  have "cell ns (v - s) + deg g v \<le> cell ns (e - 1 - s)"
    using positions_mono [OF fit ok, of v "e - 1"] assms(5,6) False by simp
  moreover have "cell ns (e - 1 - s) + deg g (e - 1) \<le> b"
    using fit [unfolded positions_fit_def] assms(5,6) by (auto dest!: spec [of _ "e - 1"])
  moreover have "vertex_ok g (e - 1)" using ok assms(5,6) by (intro wf_layoutD) auto
  ultimately show ?thesis using vertex_okD(4) [of g "e - 1"] by simp
qed

section \<open>The window loop\<close>

definition window_ok :: "dgraph \<Rightarrow> int \<Rightarrow> int \<Rightarrow> int list \<Rightarrow> bool" where
  "window_ok g s e ns \<longleftrightarrow> wf_layout g \<and> 0 \<le> s \<and> s < e \<and> e \<le> num_vertices g \<and>
     positions_fit g s e (start g e) ns \<and> cell ns 0 = idx g s"

abbreviation npos :: "int list \<Rightarrow> int \<Rightarrow> int \<Rightarrow> int" where
  "npos ns s v \<equiv> cell ns (v - s)"

lemma window_okD:
  assumes "window_ok g s e ns"
  shows "wf_layout g" "wf_shape g" "0 \<le> s" "s < e" "e \<le> num_vertices g"
    "positions_fit g s e (start g e) ns" "npos ns s s = idx g s" "len ns = e - s"
  using assms by (auto simp: window_ok_def wf_layout_def positions_fit_def)

lemma window_vertex: "window_ok g s e ns \<Longrightarrow> s \<le> v \<Longrightarrow> v < e \<Longrightarrow> vertex_ok g v"
  by (auto simp: window_ok_def intro: wf_layoutD)

lemma npos_mono:
  assumes "window_ok g s e ns" "s \<le> v" "v < w" "w < e"
  shows "npos ns s v + deg g v \<le> npos ns s w"
  using assms window_okD [OF assms(1)] by (intro positions_mono)

lemma npos_ge_start:
  assumes "window_ok g s e ns" "s \<le> v" "v < e"
  shows "idx g s \<le> npos ns s v"
  using npos_mono [of g s e ns s v] window_vertex [of g s e ns s] vertex_okD(4) [of g s]
    window_okD(7) [OF assms(1)] assms by (cases "v = s") auto

text \<open>Vertex \<open>v\<close> has been moved; the vertices in \<open>[s, c)\<close> and \<open>[u, k)\<close> have been.\<close>

definition placed :: "dgraph \<Rightarrow> int \<Rightarrow> int list \<Rightarrow> dgraph \<Rightarrow> int \<Rightarrow> bool" where
  "placed g s ns g' v \<longleftrightarrow>
     cell (vertices g') v = (cell (vertices g) v)\<lparr>v_index := npos ns s v, v_offset := -1\<rparr> \<and>
     cells (edges g') (npos ns s v) (deg g v) = vlist g v"

definition winv :: "int \<Rightarrow> dgraph \<Rightarrow> int \<Rightarrow> int list \<Rightarrow> int \<Rightarrow> int \<Rightarrow> int \<Rightarrow> dgraph \<Rightarrow> bool" where
  "winv tid g s ns c u k g' \<longleftrightarrow> data_frame g g' \<and> ulog_ready tid g' \<and>
     (\<forall>v. s \<le> v \<and> v < c \<or> u \<le> v \<and> v < k \<longrightarrow> placed g s ns g' v) \<and>
     (\<forall>v. 0 \<le> v \<and> v < num_vertices g \<and> \<not> (s \<le> v \<and> v < c \<or> u \<le> v \<and> v < k) \<longrightarrow>
        cell (vertices g') v = cell (vertices g) v) \<and>
     (\<forall>i. 0 \<le> i \<and> (i < idx g s \<or> start g c \<le> i \<and> i < start g u \<or> start g k \<le> i) \<longrightarrow>
        cell (edges g') i = cell (edges g) i)"

lemma winvD:
  assumes "winv tid g s ns c u k g'"
  shows "data_frame g g'" "ulog_ready tid g'"
    "s \<le> v \<and> v < c \<or> u \<le> v \<and> v < k \<Longrightarrow> placed g s ns g' v"
    "0 \<le> v \<Longrightarrow> v < num_vertices g \<Longrightarrow> \<not> (s \<le> v \<and> v < c \<or> u \<le> v \<and> v < k) \<Longrightarrow>
       cell (vertices g') v = cell (vertices g) v"
    "0 \<le> i \<Longrightarrow> i < idx g s \<or> start g c \<le> i \<and> i < start g u \<or> start g k \<le> i \<Longrightarrow>
        cell (edges g') i = cell (edges g) i"
  using assms unfolding winv_def by blast+

lemma cells_append_nth_eq:
  assumes "length xs = nat n" "\<And>i. a \<le> i \<Longrightarrow> i < a + n \<Longrightarrow> cell ys i = xs ! nat (i - a)"
  shows "cells ys a n = xs"
  using assms by (intro nth_equalityI) auto

lemma winv_step:
  assumes W: "window_ok g s e ns" and I: "winv tid g s ns c (jj + 1) k g'"
    and j: "s \<le> c" "c \<le> jj" "jj < k" "k \<le> e"
    and last: "npos ns s (k - 1) + deg g (k - 1) \<le> start g k"
    and right: "c < jj \<Longrightarrow> idx g jj \<le> npos ns s jj"
  shows "\<exists>g'' st' nd'. rebalance_vertex em tid s ns jj (start g (jj + 1) - 1) (g', st, nd)
       = Inr (idx g jj - 1, g'', st', nd') \<and> winv tid g s ns c jj k g''"
proof -
  note w = window_okD [OF W]
  note v = vertex_okD [OF window_vertex [OF W, of jj]]
  note fr = data_frame_selectors [OF winvD(1) [OF I]]
  note sh = wf_shapeD [OF w(2)]
  have jr: "0 \<le> jj" "jj < num_vertices g" "s \<le> jj" "jj < e" using w j by auto
  note sg = seg_of_range [OF w(2) jr(1,2)]
  have x: "cell (vertices g') jj = cell (vertices g) jj" by (rule winvD(4) [OF I]) (use jr j in auto)
  have gid: "get_segment_id g' jj - segment_count g' = seg_of g jj"
    using get_segment_id_seg_of [OF w(2) jr(1)] by (simp add: get_segment_id_def fr)
  have row: "cell (log_ptr g') (seg_of g jj) = log_row g jj" by (simp add: log_row_def fr)
  have on: "onseg g jj = (if v_offset (cell (vertices g) jj) \<noteq> -1
      then start g (jj + 1) - 1 - v_index (cell (vertices g) jj) + 1 else v_degree (cell (vertices g) jj))"
    by (simp add: onseg_def off_def idx_def deg_def)
  have cap: "start g (jj + 1) \<le> elem_capacity g" using start_le_cap [OF w(1), of "jj + 1"] jr by simp
  have lo: "idx g s \<le> npos ns s jj" using npos_ge_start [OF W] jr by simp
  have up: "npos ns s jj + deg g jj \<le> start g k"
    using npos_mono [OF W, of jj "k - 1"] last j vertex_okD(4) [OF window_vertex [OF W, of "k - 1"]]
    by (cases "jj = k - 1") auto
  have kc: "start g k \<le> elem_capacity g" using start_le_cap [OF w(1), of k] j w by simp
  have s0: "0 \<le> idx g s" using vertex_okD(1) [OF window_vertex [OF W, of s]] w by simp
  have "\<exists>g'' st' nd'. rebalance_vertex em tid s ns jj (start g (jj + 1) - 1) (g', st, nd)
       = Inr (v_index (cell (vertices g) jj) - 1, g'', st', nd') \<and> data_frame g' g'' \<and> ulog_ready tid g'' \<and>
     vertices g'' = upd (vertices g') jj ((cell (vertices g) jj)\<lparr>v_index := npos ns s jj, v_offset := -1\<rparr>) \<and>
     (\<forall>i. 0 \<le> i \<longrightarrow> cell (edges g'') i =
        (if npos ns s jj \<le> i \<and> i < npos ns s jj + v_degree (cell (vertices g) jj)
         then (cells (edges g') (v_index (cell (vertices g) jj)) (onseg g jj)
           @ rev (chain_vals (log_row g jj) (nat (v_degree (cell (vertices g) jj) - onseg g jj)) (v_offset (cell (vertices g) jj)))) ! nat (i - npos ns s jj)
         else cell (edges g') i))"
    by (rule rebalance_vertex_ok)
      (use winvD(2) [OF I] x on v jr j sg gid row lo up kc s0 cap sh w wf_shape_rows(1) [OF w(2) sg]
       in \<open>auto simp: fr log_row_def deg_def idx_def off_def\<close>)
  then obtain g'' st' nd' where R: "rebalance_vertex em tid s ns jj (start g (jj + 1) - 1) (g', st, nd)
       = Inr (idx g jj - 1, g'', st', nd')" "data_frame g' g''" "ulog_ready tid g''"
     "vertices g'' = upd (vertices g') jj ((cell (vertices g) jj)\<lparr>v_index := npos ns s jj, v_offset := -1\<rparr>)"
     and E: "\<And>i. 0 \<le> i \<Longrightarrow> cell (edges g'') i =
        (if npos ns s jj \<le> i \<and> i < npos ns s jj + deg g jj
         then (cells (edges g') (idx g jj) (onseg g jj)
           @ rev (chain_vals (log_row g jj) (nat (deg g jj - onseg g jj)) (off g jj))) ! nat (i - npos ns s jj)
         else cell (edges g') i)"
    unfolding idx_def deg_def off_def by blast
  have cs: "start g c \<le> idx g jj" using start_mono [OF w(1), of c jj] start_idx [of jj g] jr j w by auto
  have src: "cells (edges g') (idx g jj) (onseg g jj) = cells (edges g) (idx g jj) (onseg g jj)"
    using v jr cs by (intro cells_cong winvD(5) [OF I]) auto
  have outside: "cell (edges g'') i = cell (edges g') i"
    if "0 \<le> i" "i < npos ns s jj \<or> npos ns s jj + deg g jj \<le> i" for i using E [OF that(1)] that by auto
  have new: "placed g s ns g'' jj"
  proof -
    have "cells (edges g'') (npos ns s jj) (deg g jj) = vlist g jj"
      by (rule cells_append_nth_eq) (use E lo s0 src length_vlist window_vertex [OF W] jr in \<open>auto simp: vlist_def\<close>)
    then show ?thesis using R(4) jr sh by (simp add: placed_def fr)
  qed
  have old: "placed g s ns g'' v" if "s \<le> v \<and> v < c \<or> jj + 1 \<le> v \<and> v < k" for v
  proof -
    have p: "placed g s ns g' v" using winvD(3) [OF I] that by blast
    have ne: "v \<noteq> jj" "0 \<le> v" "s \<le> v" "v < e" using that j w by auto
    have "cell (edges g'') (npos ns s v + i) = cell (edges g') (npos ns s v + i)" if "0 \<le> i" "i < deg g v" for i
      using npos_mono [OF W, of v jj] npos_mono [OF W, of jj v] npos_ge_start [OF W ne(3,4)] ne jr s0 that
      by (intro outside) (cases "v < jj"; auto)+
    then have "cells (edges g'') (npos ns s v) (deg g v) = cells (edges g') (npos ns s v) (deg g v)"
      by (intro cells_cong) auto
    then show ?thesis using p R(4) ne jr by (simp add: placed_def)
  qed
  have "winv tid g s ns c jj k g''"
    unfolding winv_def
  proof (intro conjI allI impI)
    show "data_frame g g''" by (rule data_frame_trans [OF winvD(1) [OF I] R(2)])
    show "ulog_ready tid g''" by (rule R(3))
  next
    fix v assume "s \<le> v \<and> v < c \<or> jj \<le> v \<and> v < k"
    then show "placed g s ns g'' v" using new old [of v] by (cases "v = jj") auto
  next
    fix v assume a: "0 \<le> v \<and> v < num_vertices g \<and> \<not> (s \<le> v \<and> v < c \<or> jj \<le> v \<and> v < k)"
    then have "v \<noteq> jj" using j by auto
    with a show "cell (vertices g'') v = cell (vertices g) v"
      using winvD(4) [OF I, of v] R(4) jr by auto
  next
    fix i assume i: "0 \<le> i \<and> (i < idx g s \<or> start g c \<le> i \<and> i < start g jj \<or> start g k \<le> i)"
    have sj: "start g jj = idx g jj" "start g jj \<le> start g (jj + 1)"
      using start_idx [of jj g] start_mono [OF w(1), of jj "jj + 1"] jr by auto
    have "i < npos ns s jj \<or> npos ns s jj + deg g jj \<le> i"
      using i lo up right sj j(2) by (cases "c = jj") auto
    then have "cell (edges g'') i = cell (edges g') i" using outside i by blast
    also have "\<dots> = cell (edges g) i" by (rule winvD(5) [OF I]) (use i sj in auto)
    finally show "cell (edges g'') i = cell (edges g) i" .
  qed
  then show ?thesis using R(1) by blast
qed

lemma winv_group:
  assumes W: "window_ok g s e ns" and I: "winv tid g s ns c (jj + 1) k g'"
    and j: "s \<le> c" "c \<le> jj + 1" "jj < k" "k \<le> e"
    and last: "npos ns s (k - 1) + deg g (k - 1) \<le> start g k"
    and right: "\<And>v. c < v \<Longrightarrow> v \<le> jj \<Longrightarrow> idx g v \<le> npos ns s v"
  shows "\<exists>g'' st' nd'. rebalance_group em tid s ns c jj (start g (jj + 1) - 1) (g', st, nd)
       = Inr (g'', st', nd') \<and> winv tid g s ns c c k g''"
  using I j(2,3) right
proof (induction "nat (jj + 1 - c)" arbitrary: jj g' st nd)
  case 0
  then have "jj + 1 = c" by simp
  with 0 show ?case by (subst rebalance_group.simps) auto
next
  case (Suc n)
  then have cj: "c \<le> jj" by simp
  have "c < jj \<Longrightarrow> idx g jj \<le> npos ns s jj" using Suc.prems(4) by simp
  from winv_step [OF W Suc.prems(1) j(1) cj Suc.prems(3) j(4) last this, of em st nd] obtain g1 st1 nd1
    where r: "rebalance_vertex em tid s ns jj (start g (jj + 1) - 1) (g', st, nd) = Inr (idx g jj - 1, g1, st1, nd1)"
      and I1: "winv tid g s ns c jj k g1" by blast
  have "start g jj = idx g jj" using window_okD(5) [OF W] Suc.prems(3) j(4) by (intro start_idx) simp
  moreover have "\<exists>g'' st' nd'. rebalance_group em tid s ns c (jj - 1) (start g (jj - 1 + 1) - 1) (g1, st1, nd1)
       = Inr (g'', st', nd') \<and> winv tid g s ns c c k g''"
    using Suc cj I1 by (intro Suc.hyps(1)) auto
  ultimately show ?case using r cj by (subst rebalance_group.simps) simp
qed

text \<open>The vertices passed over by \<open>find_space\<close> end, at their new place, beyond the next vertex.\<close>

lemma find_space_ok:
  assumes W: "window_ok g s e ns" and I: "winv tid g s ns c c c g'" and i: "s \<le> c" "c \<le> i" "i \<le> e"
    and pre: "\<And>v. c \<le> v \<Longrightarrow> v < i \<Longrightarrow> v + 1 < e \<Longrightarrow> idx g (v + 1) < npos ns s v + deg g v"
  shows "\<exists>ii. find_space vn g' s ns e i = Inr ii \<and> i \<le> ii \<and> ii \<le> e \<and>
     (\<forall>v. c \<le> v \<and> v < ii \<and> v + 1 < e \<longrightarrow> idx g (v + 1) < npos ns s v + deg g v) \<and>
     (ii + 1 < num_vertices g \<and> ii < e \<longrightarrow> npos ns s ii + deg g ii \<le> idx g (ii + 1))"
  using i(2,3) pre
proof (induction "nat (e - i)" arbitrary: i)
  case 0
  then show ?case by (subst find_space.simps) (auto intro!: exI [of _ i])
next
  case (Suc n)
  note w = window_okD [OF W]
  note fr = data_frame_selectors [OF winvD(1) [OF I]]
  have ie: "i < e" using Suc.hyps(2) by simp
  have same: "cell (vertices g') v = cell (vertices g) v" if "c \<le> v" "v < num_vertices g" for v
    by (rule winvD(4) [OF I]) (use that i w in auto)
  have lv: "len (vertices g') = num_vertices g" using fr wf_shapeD(4) [OF w(2)] by simp
  have r: "rd ns (i - s) = Inr (npos ns s i)" "rd (vertices g') i = Inr (cell (vertices g) i)"
    using same [of i] Suc.prems i ie w lv by auto
  obtain nxt where nxt: "vertex_index vn g' (i + 1) = Inr nxt" "i + 1 < num_vertices g \<longrightarrow> nxt = idx g (i + 1)"
    using same [of "i + 1"] Suc.prems i ie w lv
    by (cases "i + 1 = num_vertices g") (auto simp: vertex_index_def idx_def)
  show ?case
  proof (cases "npos ns s i + deg g i \<le> nxt")
    case True
    then have "find_space vn g' s ns e i = Inr i"
      using r nxt(1) ie by (subst find_space.simps) (simp add: deg_def)
    then show ?thesis using True nxt(2) Suc.prems ie by (auto intro!: exI [of _ i])
  next
    case False
    then have "find_space vn g' s ns e i = find_space vn g' s ns e (i + 1)"
      using r nxt(1) ie by (subst find_space.simps) (simp add: deg_def)
    moreover have "idx g (v + 1) < npos ns s v + deg g v" if "c \<le> v" "v < i + 1" "v + 1 < e" for v
      using that False nxt(2) Suc.prems(3) [of v] w(5) by (cases "v = i") auto
    then have "\<exists>ii. find_space vn g' s ns e (i + 1) = Inr ii \<and> i + 1 \<le> ii \<and> ii \<le> e \<and>
     (\<forall>v. c \<le> v \<and> v < ii \<and> v + 1 < e \<longrightarrow> idx g (v + 1) < npos ns s v + deg g v) \<and>
     (ii + 1 < num_vertices g \<and> ii < e \<longrightarrow> npos ns s ii + deg g ii \<le> idx g (ii + 1))"
      using Suc.hyps(2) Suc.prems ie by (intro Suc.hyps(1)) auto
    ultimately show ?thesis by auto
  qed
qed

lemma rebalance_loop_round:
  assumes "c < e" "find_space vn g s ns e c = Inr ii" "j = (if ii = e then ii - 1 else ii)"
    and "(if j \<ge> num_vertices g - 1 then Inr (elem_capacity g - 1)
          else sbind (rd (vertices g) (j + 1)) (\<lambda>x. Inr (v_index x - 1))) = Inr nvb"
    and "rebalance_group em tid s ns c j nvb (g, st, nd) = Inr s'"
  shows "rebalance_loop vn em tid s e ns c (g, st, nd) = rebalance_loop vn em tid s e ns (j + 1) s'"
  unfolding rebalance_loop.simps [of vn em tid s e ns c] fst_conv assms(2) sbind_simps Let_def
    assms(3) [symmetric] assms(4,5)
  using assms(1) by simp

lemma rebalance_loop_ok:
  assumes W: "window_ok g s e ns" and I: "winv tid g s ns c c c g'" and c: "s \<le> c" "c \<le> e"
  shows "\<exists>g'' st' nd'. rebalance_loop vn em tid s e ns c (g', st, nd) = Inr (g'', st', nd') \<and>
     winv tid g s ns e e e g''"
  using I c
proof (induction "nat (e - c)" arbitrary: c g' st nd rule: less_induct)
  case less
  note w = window_okD [OF W]
  note fr = data_frame_selectors [OF winvD(1) [OF less.prems(1)]]
  show ?case
  proof (cases "c < e")
    case False
    with less.prems show ?thesis by (subst rebalance_loop.simps) auto
  next
    case True
    have "\<exists>ii. find_space vn g' s ns e c = Inr ii \<and> c \<le> ii \<and> ii \<le> e \<and>
     (\<forall>v. c \<le> v \<and> v < ii \<and> v + 1 < e \<longrightarrow> idx g (v + 1) < npos ns s v + deg g v) \<and>
     (ii + 1 < num_vertices g \<and> ii < e \<longrightarrow> npos ns s ii + deg g ii \<le> idx g (ii + 1))"
      by (rule find_space_ok [OF W less.prems(1)]) (use less.prems in auto)
    then obtain ii where f: "find_space vn g' s ns e c = Inr ii" "c \<le> ii" "ii \<le> e"
      and sk: "\<And>v. c \<le> v \<Longrightarrow> v < ii \<Longrightarrow> v + 1 < e \<Longrightarrow> idx g (v + 1) < npos ns s v + deg g v"
      and fit: "ii + 1 < num_vertices g \<Longrightarrow> ii < e \<Longrightarrow> npos ns s ii + deg g ii \<le> idx g (ii + 1)" by blast
    define j where "j = (if ii = e then ii - 1 else ii)"
    have j: "c \<le> j" "j < e" using True f by (auto simp: j_def)
    have last: "npos ns s (j + 1 - 1) + deg g (j + 1 - 1) \<le> start g (j + 1)"
    proof (cases "ii < e \<and> ii + 1 < num_vertices g")
      case True
      then show ?thesis using fit start_idx [of "ii + 1" g] by (simp add: j_def)
    next
      case False
      then have "j = e - 1" using f w by (auto simp: j_def)
      then show ?thesis using positions_end [OF w(6,1,3,5), of j] j less.prems by simp
    qed
    have right: "idx g v \<le> npos ns s v" if "c < v" "v \<le> j" for v
      using sk [of "v - 1"] npos_mono [OF W, of "v - 1" v] that j less.prems
      by (auto simp: j_def split: if_splits)
    have nvb: "(if j \<ge> num_vertices g' - 1 then Inr (elem_capacity g' - 1)
                  else sbind (rd (vertices g') (j + 1)) (\<lambda>x. Inr (v_index x - 1))) = Inr (start g (j + 1) - 1)"
    proof (cases "j \<ge> num_vertices g - 1")
      case True
      then show ?thesis by (simp add: fr start_def)
    next
      case False
      have "cell (vertices g') (j + 1) = cell (vertices g) (j + 1)"
        by (rule winvD(4) [OF less.prems(1)]) (use False j w less.prems in auto)
      then show ?thesis using False j w less.prems wf_shapeD(4) [OF w(2)] by (simp add: fr start_def idx_def)
    qed
    have I0: "winv tid g s ns c (j + 1) (j + 1) g'"
      using less.prems(1) start_mono [OF w(1), of c "j + 1"] j w less.prems unfolding winv_def by auto
    obtain g1 st1 nd1 where gr: "rebalance_group em tid s ns c j (start g (j + 1) - 1) (g', st, nd) = Inr (g1, st1, nd1)"
      and I1: "winv tid g s ns c c (j + 1) g1"
      using winv_group [OF W I0 less.prems(2) _ _ _ last right, of em st nd] j by auto
    have I2: "winv tid g s ns (j + 1) (j + 1) (j + 1) g1"
      unfolding winv_def
    proof (intro conjI allI impI)
      show "data_frame g g1" "ulog_ready tid g1" by (rule winvD [OF I1])+
    next
      fix v assume "s \<le> v \<and> v < j + 1 \<or> j + 1 \<le> v \<and> v < j + 1"
      then show "placed g s ns g1 v" by (intro winvD(3) [OF I1]) linarith
    next
      fix v assume "0 \<le> v \<and> v < num_vertices g \<and> \<not> (s \<le> v \<and> v < j + 1 \<or> j + 1 \<le> v \<and> v < j + 1)"
      then show "cell (vertices g1) v = cell (vertices g) v"
        using j less.prems(2) by (intro winvD(4) [OF I1]) linarith+
    next
      fix i assume "0 \<le> i \<and> (i < idx g s \<or> start g (j + 1) \<le> i \<and> i < start g (j + 1) \<or> start g (j + 1) \<le> i)"
      then show "cell (edges g1) i = cell (edges g) i" by (intro winvD(5) [OF I1]) linarith+
    qed
    have "\<exists>g'' st' nd'. rebalance_loop vn em tid s e ns (j + 1) (g1, st1, nd1) = Inr (g'', st', nd') \<and>
     winv tid g s ns e e e g''"
      using less.prems j True by (intro less.hyps I2) auto
    then show ?thesis
      unfolding rebalance_loop_round [OF True f(1) j_def nvb gr] .
  qed
qed

end
