(* ===== verification/DgapWeightedOk.thy ===== *)
theory DgapWeightedOk
  imports DgapWindowOk
begin

text \<open>
  The invariant of the whole graph and the theorem about \<^verbatim>\<open>rebalance_weighted\<close> on a window of whole
  segments: none of its assertions fails, the invariant holds afterwards, no vertex loses or gains
  an edge, and the logs of the window are empty.
\<close>

section \<open>The invariant\<close>

definition log_ok :: "dgraph \<Rightarrow> bool" where
  "log_ok g \<longleftrightarrow> (\<forall>v. 0 \<le> v \<and> v < num_vertices g \<longrightarrow>
     off g v < cell (log_segment_idx g) (seg_of g v))"

definition counts_ok :: "dgraph \<Rightarrow> bool" where
  "counts_ok g \<longleftrightarrow> num_edges g = degsum g 0 (num_vertices g) \<and> idx g 0 = 0 \<and>
     (\<forall>i. 0 \<le> i \<and> i < segment_count g \<longrightarrow>
        cell (segment_edges_actual g) (i + segment_count g)
          = degsum g (i * segment_size g) ((i + 1) * segment_size g) \<and>
        cell (segment_edges_total g) (i + segment_count g)
          = start g ((i + 1) * segment_size g) - start g (i * segment_size g))"

definition wf :: "dgraph \<Rightarrow> bool" where
  "wf g \<longleftrightarrow> wf_layout g \<and> log_ok g \<and> counts_ok g"

lemma wfD:
  assumes "wf g"
  shows "wf_layout g" "wf_shape g" "log_ok g" "counts_ok g"
  using assms by (auto simp: wf_def wf_layout_def)

section \<open>Releasing logs and recounting\<close>

lemma len_zero_prefix:
  "0 \<le> n \<Longrightarrow> n \<le> len row \<Longrightarrow> \<exists>row'. zero_prefix row n = Inr row' \<and> len row' = len row"
  by (simp add: zero_prefix_def)

text \<open>What \<open>release_log\<close> changes: two arrays, at one segment.\<close>

definition logs_frame :: "dgraph \<Rightarrow> dgraph \<Rightarrow> bool" where
  "logs_frame g g' \<longleftrightarrow> (\<exists>lp li fl. g' = g\<lparr>log_ptr := lp, log_segment_idx := li, flushes := fl\<rparr> \<and>
     len lp = len (log_ptr g) \<and> len li = len (log_segment_idx g))"

lemma logs_frameD:
  assumes "logs_frame g g'"
  shows "edges g' = edges g" "vertices g' = vertices g" "num_vertices g' = num_vertices g"
    "num_edges g' = num_edges g" "elem_capacity g' = elem_capacity g" "segment_size g' = segment_size g"
    "segment_count g' = segment_count g" "segment_edges_actual g' = segment_edges_actual g"
    "segment_edges_total g' = segment_edges_total g" "leaf_segments g' = leaf_segments g"
    "len (log_ptr g') = len (log_ptr g)" "len (log_segment_idx g') = len (log_segment_idx g)"
    "ulog_ptr g' = ulog_ptr g" "oplog_ptr g' = oplog_ptr g" "tree_height g' = tree_height g"
    "delta_up g' = delta_up g"
  using assms by (auto simp: logs_frame_def)

lemma logs_frameI:
  "len lp = len (log_ptr g) \<Longrightarrow> len li = len (log_segment_idx g) \<Longrightarrow>
   logs_frame g (g\<lparr>log_ptr := lp, log_segment_idx := li, flushes := fs\<rparr>)"
  unfolding logs_frame_def by blast

lemma logs_frame_refl [simp]: "logs_frame g g"
  unfolding logs_frame_def by (rule exI [of _ "log_ptr g"], rule exI [of _ "log_segment_idx g"], rule exI [of _ "flushes g"]) simp

lemma logs_frame_trans: "logs_frame g g' \<Longrightarrow> logs_frame g' g'' \<Longrightarrow> logs_frame g g''"
  by (unfold logs_frame_def, clarsimp) (blast intro: exI)

lemma release_log_ok:
  assumes "0 \<le> sg" "sg < len (log_ptr g)" "sg < len (log_segment_idx g)"
    and "0 \<le> cell (log_segment_idx g) sg" "cell (log_segment_idx g) sg \<le> len (cell (log_ptr g) sg)"
  shows "\<exists>g'. release_log g sg = Inr g' \<and> logs_frame g g' \<and> cell (log_segment_idx g') sg = 0 \<and>
     len (cell (log_ptr g') sg) = len (cell (log_ptr g) sg) \<and>
     (\<forall>i. 0 \<le> i \<and> i \<noteq> sg \<longrightarrow> cell (log_ptr g') i = cell (log_ptr g) i \<and>
        cell (log_segment_idx g') i = cell (log_segment_idx g) i)"
proof (cases "cell (log_segment_idx g) sg = 0")
  case True
  then show ?thesis using assms by (simp add: release_log_def)
next
  case False
  obtain row' where r: "zero_prefix (cell (log_ptr g) sg) (cell (log_segment_idx g) sg) = Inr row'"
    "len row' = len (cell (log_ptr g) sg)" using len_zero_prefix assms(4,5) by blast
  then show ?thesis using assms False
    by (auto simp: release_log_def flush_def intro!: logs_frameI)
qed

lemma release_logs_ok:
  assumes "0 \<le> a" "a \<le> b" "b \<le> segment_count g" and ps: "len (log_ptr g) = segment_count g" "len (log_segment_idx g) = segment_count g"
    and "\<And>i. a \<le> i \<Longrightarrow> i < b \<Longrightarrow> 0 \<le> cell (log_segment_idx g) i \<and> cell (log_segment_idx g) i \<le> len (cell (log_ptr g) i)"
  shows "\<exists>g'. release_logs g (a + segment_count g) (b + segment_count g) = Inr g' \<and> logs_frame g g' \<and>
     (\<forall>i. 0 \<le> i \<longrightarrow> len (cell (log_ptr g') i) = len (cell (log_ptr g) i)) \<and>
     (\<forall>i. a \<le> i \<and> i < b \<longrightarrow> cell (log_segment_idx g') i = 0) \<and>
     (\<forall>i. 0 \<le> i \<and> \<not> (a \<le> i \<and> i < b) \<longrightarrow> cell (log_ptr g') i = cell (log_ptr g) i \<and>
        cell (log_segment_idx g') i = cell (log_segment_idx g) i)"
  using assms
proof (induction "nat (b - a)" arbitrary: a g)
  case 0
  then show ?case by (subst release_logs.simps) auto
next
  case (Suc n)
  then have ab: "a < b" by simp
  obtain g1 where r: "release_log g a = Inr g1" and f: "logs_frame g g1" and z: "cell (log_segment_idx g1) a = 0"
    and l: "len (cell (log_ptr g1) a) = len (cell (log_ptr g) a)"
    and o: "\<And>i. 0 \<le> i \<Longrightarrow> i \<noteq> a \<Longrightarrow> cell (log_ptr g1) i = cell (log_ptr g) i \<and>
        cell (log_segment_idx g1) i = cell (log_segment_idx g) i"
    using release_log_ok [of a g] Suc.prems ab by fastforce
  note fr = logs_frameD [OF f]
  have "\<exists>g'. release_logs g1 (a + 1 + segment_count g1) (b + segment_count g1) = Inr g' \<and> logs_frame g1 g' \<and>
     (\<forall>i. 0 \<le> i \<longrightarrow> len (cell (log_ptr g') i) = len (cell (log_ptr g1) i)) \<and>
     (\<forall>i. a + 1 \<le> i \<and> i < b \<longrightarrow> cell (log_segment_idx g') i = 0) \<and>
     (\<forall>i. 0 \<le> i \<and> \<not> (a + 1 \<le> i \<and> i < b) \<longrightarrow> cell (log_ptr g') i = cell (log_ptr g1) i \<and>
        cell (log_segment_idx g') i = cell (log_segment_idx g1) i)"
    by (rule Suc.hyps(1)) (use Suc.hyps(2) Suc.prems ab fr o in auto)
  then obtain g' where r': "release_logs g1 (a + 1 + segment_count g) (b + segment_count g) = Inr g'"
    and f': "logs_frame g1 g'" and l': "\<And>i. 0 \<le> i \<Longrightarrow> len (cell (log_ptr g') i) = len (cell (log_ptr g1) i)"
    and z': "\<And>i. a + 1 \<le> i \<Longrightarrow> i < b \<Longrightarrow> cell (log_segment_idx g') i = 0"
    and o': "\<And>i. 0 \<le> i \<Longrightarrow> \<not> (a + 1 \<le> i \<and> i < b) \<Longrightarrow> cell (log_ptr g') i = cell (log_ptr g1) i \<and>
        cell (log_segment_idx g') i = cell (log_segment_idx g1) i" by (auto simp: fr)
  show ?case
  proof (intro exI conjI allI impI)
    show "release_logs g (a + segment_count g) (b + segment_count g) = Inr g'"
      using ab r r' by (subst release_logs.simps) (simp add: add.commute add.left_commute)
    show "logs_frame g g'" by (rule logs_frame_trans [OF f f'])
    show "len (cell (log_ptr g') i) = len (cell (log_ptr g) i)" if "0 \<le> i" for i
      using l' [OF that] l o [OF that] by (cases "i = a") auto
    show "cell (log_segment_idx g') i = 0" if "a \<le> i \<and> i < b" for i
      using that z z' [of i] o' [of a] Suc.prems(1) by (cases "i = a") auto
    show "cell (log_ptr g') i = cell (log_ptr g) i" "cell (log_segment_idx g') i = cell (log_segment_idx g) i"
      if "0 \<le> i \<and> \<not> (a \<le> i \<and> i < b)" for i
      using that o [of i] o' [of i] ab by auto
  qed
qed

lemma segment_total_of_ok:
  assumes "wf_shape g" "0 \<le> i" "i < segment_count g"
  shows "segment_total_of g i = Inr (start g ((i + 1) * segment_size g) - start g (i * segment_size g))"
proof -
  note w = wf_shapeD [OF assms(1)]
  have lt: "i * segment_size g < num_vertices g" "0 \<le> i * segment_size g"
    using assms w by (simp_all add: mult_strict_right_mono)
  have "0 \<le> (i + 1) * segment_size g" using assms w by simp
  moreover have "(i + 1) * segment_size g < num_vertices g" if "i \<noteq> segment_count g - 1"
  proof -
    have "i + 1 < segment_count g" using that assms by simp
    then show ?thesis using w by (simp add: mult_strict_right_mono)
  qed
  moreover have "(i + 1) * segment_size g = num_vertices g" if "i = segment_count g - 1"
    using that w by simp
  ultimately show ?thesis using lt w
    by (cases "i = segment_count g - 1") (auto simp: segment_total_of_def start_def idx_def)
qed

lemma wf_shape_total [simp]:
  "len xs = len (segment_edges_total g) \<Longrightarrow> wf_shape (g\<lparr>segment_edges_total := xs\<rparr>) = wf_shape g"
  by (simp add: wf_shape_def)

lemma start_cong: "vertices g' = vertices g \<Longrightarrow> num_vertices g' = num_vertices g \<Longrightarrow>
   elem_capacity g' = elem_capacity g \<Longrightarrow> start g' v = start g v"
  by (simp add: start_def idx_def)

lemma recount_total_range_ok:
  assumes "wf_shape g" "0 \<le> a" "a \<le> b" "b \<le> segment_count g"
  shows "\<exists>xs. recount_total_range g a b = Inr (g\<lparr>segment_edges_total := xs\<rparr>) \<and>
     len xs = len (segment_edges_total g) \<and>
     (\<forall>i. 0 \<le> i \<longrightarrow> cell xs (i + segment_count g) =
        (if a \<le> i \<and> i < b then start g ((i + 1) * segment_size g) - start g (i * segment_size g)
         else cell (segment_edges_total g) (i + segment_count g)))"
  using assms
proof (induction "nat (b - a)" arbitrary: a g)
  case 0
  then show ?case by (subst recount_total_range.simps) (auto intro!: exI [of _ "segment_edges_total g"])
next
  case (Suc n)
  define p where "p = start g ((a + 1) * segment_size g) - start g (a * segment_size g)"
  define ys where "ys = upd (segment_edges_total g) (a + segment_count g) p"
  define g1 where "g1 = g\<lparr>segment_edges_total := ys\<rparr>"
  have ab: "a < b" using Suc.hyps(2) by simp
  note w = wf_shapeD [OF Suc.prems(1)]
  have st: "start g1 v = start g v" for v by (rule start_cong) (simp_all add: g1_def)
  have "\<exists>xs. recount_total_range g1 (a + 1) b = Inr (g1\<lparr>segment_edges_total := xs\<rparr>) \<and>
     len xs = len (segment_edges_total g1) \<and>
     (\<forall>i. 0 \<le> i \<longrightarrow> cell xs (i + segment_count g1) =
        (if a + 1 \<le> i \<and> i < b then start g1 ((i + 1) * segment_size g1) - start g1 (i * segment_size g1)
         else cell (segment_edges_total g1) (i + segment_count g1)))"
    by (rule Suc.hyps(1)) (use Suc.hyps(2) Suc.prems ab in \<open>auto simp: g1_def ys_def\<close>)
  then obtain xs where x: "recount_total_range g1 (a + 1) b = Inr (g\<lparr>segment_edges_total := xs\<rparr>)"
    "len xs = len (segment_edges_total g)"
    "\<And>i. 0 \<le> i \<Longrightarrow> cell xs (i + segment_count g) =
        (if a + 1 \<le> i \<and> i < b then start g ((i + 1) * segment_size g) - start g (i * segment_size g)
         else cell ys (i + segment_count g))"
    unfolding st by (auto simp: g1_def ys_def)
  show ?case
  proof (intro exI conjI allI impI)
    show "recount_total_range g a b = Inr (g\<lparr>segment_edges_total := xs\<rparr>)"
      using ab x(1) Suc.prems w segment_total_of_ok [OF Suc.prems(1), of a]
      by (subst recount_total_range.simps) (simp add: p_def ys_def g1_def)
    show "len xs = len (segment_edges_total g)" by (rule x(2))
    show "cell xs (i + segment_count g) =
        (if a \<le> i \<and> i < b then start g ((i + 1) * segment_size g) - start g (i * segment_size g)
         else cell (segment_edges_total g) (i + segment_count g))" if "0 \<le> i" for i
      using x(3) [OF that] ab Suc.prems w that
      by (cases "i = a") (auto simp: ys_def p_def)
  qed
qed

section \<open>The graph after a move\<close>

text \<open>Facts that only depend on the vertex array and the sizes.\<close>

lemma deg_idx_off_cong:
  "cell (vertices g') v = cell (vertices g) v \<Longrightarrow> deg g' v = deg g v \<and> idx g' v = idx g v \<and> off g' v = off g v"
  by (simp add: deg_def idx_def off_def)

lemma placed_fields:
  assumes "placed g s ns g' v"
  shows "deg g' v = deg g v" "idx g' v = npos ns s v" "off g' v = -1"
  using assms by (auto simp: placed_def deg_def idx_def off_def)

lemma moved_deg:
  assumes "winv tid g s ns e e e g'" "0 \<le> v" "v < num_vertices g"
  shows "deg g' v = deg g v"
  using winvD(3) [OF assms(1), of v] winvD(4) [OF assms(1,2,3)] placed_fields(1)
  by (cases "s \<le> v \<and> v < e") (auto simp: deg_def)

lemma moved_start:
  assumes W: "window_ok g s e ns" and I: "winv tid g s ns e e e g'" and "0 \<le> v" "v \<le> s \<or> e \<le> v"
  shows "start g' v = start g v"
proof -
  note fr = data_frame_selectors [OF winvD(1) [OF I]]
  show ?thesis
  proof (cases "v \<ge> num_vertices g")
    case True
    then show ?thesis by (simp add: start_def fr)
  next
    case False
    show ?thesis
    proof (cases "v = s")
      case True
      then have "placed g s ns g' v" using window_okD(4) [OF W] by (intro winvD(3) [OF I]) simp
      then show ?thesis using False True placed_fields(2) window_okD(7) [OF W] by (simp add: start_def fr)
    next
      case ne: False
      then have "cell (vertices g') v = cell (vertices g) v" using False assms(3,4)
        by (intro winvD(4) [OF I]) auto
      then show ?thesis using False by (simp add: start_def fr idx_def)
    qed
  qed
qed

lemma moved_inside:
  assumes W: "window_ok g s e ns" and I: "winv tid g s ns e e e g'" and v: "s \<le> v" "v < e"
  shows "vertex_ok g' v" and "vlist g' v = vlist g v" and "off g' v = -1"
proof -
  have p: "placed g s ns g' v" using v by (intro winvD(3) [OF I]) simp
  note f = placed_fields [OF p] and fr = data_frame_selectors [OF winvD(1) [OF I]]
  note w = window_okD [OF W]
  show off: "off g' v = -1" by (rule f(3))
  have on: "onseg g' v = deg g v" by (simp add: onseg_def f)
  show "vlist g' v = vlist g v" using p on by (simp add: vlist_def f placed_def)
  have nx: "npos ns s v + deg g v \<le> start g' (v + 1)"
  proof (cases "v + 1 < e")
    case True
    have "placed g s ns g' (v + 1)" using v True by (intro winvD(3) [OF I]) simp
    then have "start g' (v + 1) = npos ns s (v + 1)" using True w(5) placed_fields(2) by (simp add: start_def fr)
    then show ?thesis using npos_mono [OF W v(1), of "v + 1"] True by simp
  next
    case False
    then have "v + 1 = e" using v by simp
    then show ?thesis using moved_start [OF W I, of e] w positions_end [OF w(6,1,3,5) v] by simp
  qed
  have "0 \<le> idx g s" using vertex_okD(1) [OF window_vertex [OF W, of s]] w by simp
  then show "vertex_ok g' v" using nx on f npos_ge_start [OF W v] vertex_okD(4) [OF window_vertex [OF W v]]
    by (simp add: vertex_ok_def)
qed

lemma moved_outside:
  assumes W: "window_ok g s e ns" and I: "winv tid g s ns e e e g'"
    and v: "0 \<le> v" "v < num_vertices g" "v < s \<or> e \<le> v"
    and h: "vertices h = vertices g'" "edges h = edges g'" "num_vertices h = num_vertices g"
      "elem_capacity h = elem_capacity g" "log_row h v = log_row g v"
  shows "vertex_ok h v" and "vlist h v = vlist g v" and "off h v = off g v" and "idx h v = idx g v"
proof -
  have c: "cell (vertices h) v = cell (vertices g) v" unfolding h by (rule winvD(4) [OF I]) (use v in auto)
  note f = deg_idx_off_cong [OF c] and w = window_okD [OF W] and fr = data_frame_selectors [OF winvD(1) [OF I]]
  show "off h v = off g v" "idx h v = idx g v" using f by simp_all
  have ok: "vertex_ok g v" using w v by (intro wf_layoutD) auto
  have "start h (v + 1) = start g' (v + 1)" by (rule start_cong) (simp_all add: h fr)
  also have "\<dots> = start g (v + 1)" using v by (intro moved_start [OF W I]) auto
  finally have st: "start h (v + 1) = start g (v + 1)" .
  have on: "onseg h v = onseg g v" using f st by (simp add: onseg_def)
  show "vertex_ok h v" using ok by (simp add: vertex_ok_def on st f h)
  have "cells (edges h) (idx g v) (onseg g v) = cells (edges g) (idx g v) (onseg g v)"
  proof (rule cells_cong)
    fix k assume k: "0 \<le> k" "k < onseg g v"
    have "start g (v + 1) \<le> idx g s" if "v < s"
      using start_mono [OF w(1), of "v + 1" s] start_idx [of s g] that v w by auto
    moreover have "start g e \<le> idx g v" if "e \<le> v"
      using start_mono [OF w(1), of e v] start_idx [of v g] that v w by auto
    ultimately show "cell (edges h) (idx g v + k) = cell (edges g) (idx g v + k)"
      unfolding h using k vertex_okD [OF ok] v by (intro winvD(5) [OF I]) auto
  qed
  then show "vlist h v = vlist g v" by (simp add: vlist_def on f h)
qed

text \<open>What callers learn of a rebalanced graph.\<close>

definition rebalanced :: "int \<Rightarrow> int \<Rightarrow> int \<Rightarrow> dgraph \<Rightarrow> dgraph \<Rightarrow> bool" where
  "rebalanced tid a b g g' \<longleftrightarrow> wf g' \<and> ulog_ready tid g' \<and>
     num_vertices g' = num_vertices g \<and> num_edges g' = num_edges g \<and>
     elem_capacity g' = elem_capacity g \<and> segment_size g' = segment_size g \<and>
     segment_count g' = segment_count g \<and> tree_height g' = tree_height g \<and> delta_up g' = delta_up g \<and>
     leaf_segments g' = leaf_segments g \<and> segment_edges_actual g' = segment_edges_actual g \<and>
     (\<forall>v. 0 \<le> v \<and> v < num_vertices g \<longrightarrow> vlist g' v = vlist g v \<and> deg g' v = deg g v) \<and>
     (\<forall>v. a * segment_size g \<le> v \<and> v < b * segment_size g \<longrightarrow> off g' v = -1) \<and>
     (\<forall>i. a \<le> i \<and> i < b \<longrightarrow> cell (log_segment_idx g') i = 0) \<and>
     (\<forall>i. 0 \<le> i \<and> \<not> (a \<le> i \<and> i < b) \<longrightarrow> cell (log_segment_idx g') i = cell (log_segment_idx g) i) \<and>
     (\<forall>v. 0 \<le> v \<and> v \<le> num_vertices g \<and> (v \<le> a * segment_size g \<or> b * segment_size g \<le> v) \<longrightarrow>
        start g' v = start g v)"

lemma seg_mult_range:
  assumes "wf_shape g" "0 \<le> a" "a < b" "b \<le> segment_count g"
  shows "0 \<le> a * segment_size g" "a * segment_size g < b * segment_size g"
    "b * segment_size g \<le> num_vertices g"
  using assms wf_shapeD [OF assms(1)] by (simp_all add: mult_strict_right_mono mult_right_mono)

lemma seg_of_iff:
  assumes "wf_shape g"
  shows "a \<le> seg_of g v \<longleftrightarrow> a * segment_size g \<le> v" "seg_of g v < b \<longleftrightarrow> v < b * segment_size g"
proof -
  have z: "0 < segment_size g" using wf_shapeD(1) [OF assms] .
  have low: "c \<le> seg_of g v \<longleftrightarrow> c * segment_size g \<le> v" for c
  proof
    assume "c \<le> seg_of g v"
    then have "c * segment_size g \<le> seg_of g v * segment_size g" using z by simp
    also have "\<dots> \<le> v" using z by (simp add: seg_of_def minus_mod_eq_div_mult [symmetric])
    finally show "c * segment_size g \<le> v" .
  next
    assume "c * segment_size g \<le> v"
    then have "c * segment_size g div segment_size g \<le> seg_of g v"
      unfolding seg_of_def using z by (intro zdiv_mono1)
    then show "c \<le> seg_of g v" using z by simp
  qed
  show "a \<le> seg_of g v \<longleftrightarrow> a * segment_size g \<le> v" by (rule low)
  show "seg_of g v < b \<longleftrightarrow> v < b * segment_size g" using low [of b] by linarith
qed

lemma get_segment_id_mult:
  assumes "wf_shape g" "0 \<le> a"
  shows "get_segment_id g (a * segment_size g) = a + segment_count g"
  using wf_shapeD(1) [OF assms(1)] assms by (simp add: get_segment_id_def)

lemma index_boundary_start:
  "wf_shape g \<Longrightarrow> 0 \<le> v \<Longrightarrow> index_boundary g v = Inr (start g v)"
  using wf_shapeD(4) [of g] by (simp add: index_boundary_def start_def idx_def)

lemma degsum_cong:
  "(\<And>v. a \<le> v \<Longrightarrow> v < b \<Longrightarrow> deg g' v = deg g v) \<Longrightarrow> degsum g' a b = degsum g a b"
  unfolding degsum_def by (intro sum.cong) auto

text \<open>
  The graph \<open>g3\<close> that \<^verbatim>\<open>rebalance_weighted\<close> returns, in terms of the graph \<open>g1\<close> its moving loop leaves:
  the logs of the window are released, its totals recounted.
\<close>

definition settled :: "int \<Rightarrow> int \<Rightarrow> int \<Rightarrow> int list \<Rightarrow> dgraph \<Rightarrow> dgraph \<Rightarrow> dgraph \<Rightarrow> bool" where
  "settled tid a b ns g g1 g3 \<longleftrightarrow>
     wf g \<and> 0 \<le> a \<and> a < b \<and> b \<le> segment_count g \<and>
     window_ok g (a * segment_size g) (b * segment_size g) ns \<and>
     winv tid g (a * segment_size g) ns (b * segment_size g) (b * segment_size g) (b * segment_size g) g1 \<and>
     wf_shape g3 \<and> vertices g3 = vertices g1 \<and> edges g3 = edges g1 \<and>
     num_vertices g3 = num_vertices g \<and> elem_capacity g3 = elem_capacity g \<and>
     segment_size g3 = segment_size g \<and> segment_count g3 = segment_count g \<and>
     num_edges g3 = num_edges g \<and> segment_edges_actual g3 = segment_edges_actual g \<and>
     ulog_ptr g3 = ulog_ptr g1 \<and> oplog_ptr g3 = oplog_ptr g1 \<and> leaf_segments g3 = leaf_segments g \<and>
     tree_height g3 = tree_height g \<and> delta_up g3 = delta_up g \<and>
     (\<forall>i. a \<le> i \<and> i < b \<longrightarrow> cell (log_segment_idx g3) i = 0) \<and>
     (\<forall>i. 0 \<le> i \<and> \<not> (a \<le> i \<and> i < b) \<longrightarrow> cell (log_ptr g3) i = cell (log_ptr g) i \<and>
        cell (log_segment_idx g3) i = cell (log_segment_idx g) i) \<and>
     (\<forall>i. 0 \<le> i \<longrightarrow> cell (segment_edges_total g3) (i + segment_count g) =
        (if a \<le> i \<and> i < b then start g3 ((i + 1) * segment_size g) - start g3 (i * segment_size g)
         else cell (segment_edges_total g) (i + segment_count g)))"

lemma settledD:
  assumes "settled tid a b ns g g1 g3"
  shows "wf g" "0 \<le> a" "a < b" "b \<le> segment_count g"
    "window_ok g (a * segment_size g) (b * segment_size g) ns"
    "winv tid g (a * segment_size g) ns (b * segment_size g) (b * segment_size g) (b * segment_size g) g1"
    "wf_shape g3"
    "\<And>i. a \<le> i \<Longrightarrow> i < b \<Longrightarrow> cell (log_segment_idx g3) i = 0"
    "\<And>i. 0 \<le> i \<Longrightarrow> \<not> (a \<le> i \<and> i < b) \<Longrightarrow> cell (log_ptr g3) i = cell (log_ptr g) i \<and>
        cell (log_segment_idx g3) i = cell (log_segment_idx g) i"
    "\<And>i. 0 \<le> i \<Longrightarrow> cell (segment_edges_total g3) (i + segment_count g) =
        (if a \<le> i \<and> i < b then start g3 ((i + 1) * segment_size g) - start g3 (i * segment_size g)
         else cell (segment_edges_total g) (i + segment_count g))"
  using assms unfolding settled_def by blast+

lemma settled_fields:
  assumes "settled tid a b ns g g1 g3"
  shows "vertices g3 = vertices g1" "edges g3 = edges g1"
     "num_vertices g3 = num_vertices g" "elem_capacity g3 = elem_capacity g"
     "segment_size g3 = segment_size g" "segment_count g3 = segment_count g"
     "num_edges g3 = num_edges g" "segment_edges_actual g3 = segment_edges_actual g"
     "ulog_ptr g3 = ulog_ptr g1" "oplog_ptr g3 = oplog_ptr g1" "leaf_segments g3 = leaf_segments g"
     "tree_height g3 = tree_height g" "delta_up g3 = delta_up g"
  using assms unfolding settled_def by blast+

lemma settled_start1:
  assumes S: "settled tid a b ns g g1 g3"
  shows "start g3 v = start g1 v"
  using settled_fields [OF S] data_frame_selectors [OF winvD(1) [OF settledD(6) [OF S]]]
  by (intro start_cong) simp_all

lemma settled_start:
  assumes S: "settled tid a b ns g g1 g3" and "0 \<le> v" "v \<le> a * segment_size g \<or> b * segment_size g \<le> v"
  shows "start g3 v = start g v"
  unfolding settled_start1 [OF S] by (rule moved_start [OF settledD(5,6) [OF S] assms(2,3)])

lemma settled_inner:
  assumes S: "settled tid a b ns g g1 g3" and v: "a * segment_size g \<le> v" "v < b * segment_size g"
  shows "vertex_ok g3 v" "vlist g3 v = vlist g v" "off g3 v = -1"
proof -
  note m = moved_inside [OF settledD(5,6) [OF S] v] and f = settled_fields [OF S]
  have d: "deg g3 v = deg g1 v" "idx g3 v = idx g1 v" "off g3 v = off g1 v" by (simp_all add: deg_def idx_def off_def f)
  have on: "onseg g3 v = deg g1 v" "onseg g1 v = deg g1 v" using m(3) d by (simp_all add: onseg_def)
  show "off g3 v = -1" using m d by simp
  show "vertex_ok g3 v" using m(1,3) by (simp add: vertex_ok_def on d settled_start1 [OF S])
  show "vlist g3 v = vlist g v" using m(2) by (simp add: vlist_def on d f)
qed

lemma settled_outer:
  assumes S: "settled tid a b ns g g1 g3" and v: "0 \<le> v" "v < num_vertices g"
    "v < a * segment_size g \<or> b * segment_size g \<le> v"
  shows "vertex_ok g3 v" "vlist g3 v = vlist g v" "off g3 v = off g v"
proof -
  note f = settled_fields [OF S]
  have shp: "wf_shape g" using settledD(1) [OF S] by (rule wfD)
  have "\<not> (a \<le> seg_of g v \<and> seg_of g v < b)" using v seg_of_iff [OF shp] by auto
  then have "log_row g3 v = log_row g v"
    using settledD(9) [OF S seg_of_range(1) [OF shp v(1,2)]] by (simp add: log_row_def f seg_of_def)
  then show "vertex_ok g3 v" "vlist g3 v = vlist g v" "off g3 v = off g v"
    using moved_outside [OF settledD(5,6) [OF S] v, of g3] by (simp_all add: f)
qed

lemma settled_deg:
  assumes S: "settled tid a b ns g g1 g3" and v: "0 \<le> v" "v < num_vertices g"
  shows "deg g3 v = deg g v"
  using moved_deg [OF settledD(6) [OF S] v] by (simp add: deg_def settled_fields [OF S])

lemma settled_layout: "settled tid a b ns g g1 g3 \<Longrightarrow> wf_layout g3"
  unfolding wf_layout_def
  using settledD(7) settled_inner(1) settled_outer(1) settled_fields(3) by (metis not_less)

lemma settled_log_ok:
  assumes S: "settled tid a b ns g g1 g3"
  shows "log_ok g3"
  unfolding log_ok_def
proof (intro allI impI)
  note f = settled_fields [OF S]
  have shp: "wf_shape g" using settledD(1) [OF S] by (rule wfD)
  fix v assume v: "0 \<le> v \<and> v < num_vertices g3"
  have sg: "seg_of g3 v = seg_of g v" "0 \<le> seg_of g v" using seg_of_range [OF shp, of v] v
    by (auto simp: seg_of_def f)
  show "off g3 v < cell (log_segment_idx g3) (seg_of g3 v)"
  proof (cases "a * segment_size g \<le> v \<and> v < b * segment_size g")
    case True
    then show ?thesis using settled_inner(3) [OF S, of v] settledD(8) [OF S, of "seg_of g v"] seg_of_iff [OF shp]
      by (simp add: sg)
  next
    case False
    then have "\<not> (a \<le> seg_of g v \<and> seg_of g v < b)" using seg_of_iff [OF shp] by auto
    then show ?thesis using False settled_outer(3) [OF S, of v] v settledD(9) [OF S sg(2)] wfD(3) [OF settledD(1) [OF S]]
      unfolding log_ok_def by (auto simp: sg f not_less)
  qed
qed

lemma settled_counts_ok:
  assumes S: "settled tid a b ns g g1 g3"
  shows "counts_ok g3"
  unfolding counts_ok_def
proof (intro conjI allI impI)
  note f = settled_fields [OF S] and W = settledD(1) [OF S]
  note shp = wfD(2) [OF W]
  note w = wf_shapeD [OF shp] and se = seg_mult_range [OF shp settledD(2,3,4) [OF S]]
  have ds: "degsum g3 x y = degsum g x y" if "0 \<le> x" "y \<le> num_vertices g" for x y
    using that by (intro degsum_cong settled_deg [OF S]) auto
  show "num_edges g3 = degsum g3 0 (num_vertices g3)"
    using wfD(4) [OF W] ds by (simp add: counts_ok_def f)
  have "start g3 0 = start g 0" using settled_start [OF S, of 0] se by simp
  then show "idx g3 0 = 0" using wfD(4) [OF W] se start_idx [of 0 g] start_idx [of 0 g3]
    by (simp add: counts_ok_def f)
  fix i assume i: "0 \<le> i \<and> i < segment_count g3"
  have ir: "0 \<le> i * segment_size g" "(i + 1) * segment_size g \<le> num_vertices g"
    using i w seg_mult_range [OF shp, of i "i + 1"] by (auto simp: f)
  have old: "cell (segment_edges_actual g) (i + segment_count g)
        = degsum g (i * segment_size g) ((i + 1) * segment_size g)"
    "cell (segment_edges_total g) (i + segment_count g)
        = start g ((i + 1) * segment_size g) - start g (i * segment_size g)"
    using wfD(4) [OF W] i by (auto simp: counts_ok_def f)
  show "cell (segment_edges_actual g3) (i + segment_count g3)
        = degsum g3 (i * segment_size g3) ((i + 1) * segment_size g3)"
    using old ds [OF ir] by (simp add: f)
  show "cell (segment_edges_total g3) (i + segment_count g3)
        = start g3 ((i + 1) * segment_size g3) - start g3 (i * segment_size g3)"
  proof (cases "a \<le> i \<and> i < b")
    case True
    then show ?thesis using settledD(10) [OF S, of i] i by (simp add: f)
  next
    case False
    have "(i + 1) * segment_size g \<le> a * segment_size g \<or> b * segment_size g \<le> i * segment_size g"
    proof (cases "i < a")
      case True
      then have "(i + 1) * segment_size g \<le> a * segment_size g" using w(1) by (intro mult_right_mono) auto
      then show ?thesis ..
    next
      case nlt: False
      then have "b * segment_size g \<le> i * segment_size g" using w(1) False by (intro mult_right_mono) auto
      then show ?thesis ..
    qed
    moreover have "i * segment_size g \<le> (i + 1) * segment_size g" using w(1) by (intro mult_right_mono) auto
    ultimately have "start g3 ((i + 1) * segment_size g) = start g ((i + 1) * segment_size g)"
      "start g3 (i * segment_size g) = start g (i * segment_size g)"
      using ir(1) by (auto intro: settled_start [OF S])
    then show ?thesis using False settledD(10) [OF S, of i] old(2) i by (simp add: f)
  qed
qed

lemma settled_rebalanced:
  assumes S: "settled tid a b ns g g1 g3"
  shows "rebalanced tid a b g g3"
  unfolding rebalanced_def
proof (intro conjI allI impI)
  show "wf g3" using settled_layout [OF S] settled_log_ok [OF S] settled_counts_ok [OF S] by (simp add: wf_def)
  show "ulog_ready tid g3" using winvD(2) [OF settledD(6) [OF S]] by (simp add: ulog_ready_def settled_fields [OF S])
next
  fix v assume v: "0 \<le> v \<and> v < num_vertices g"
  show "vlist g3 v = vlist g v" using settled_inner(2) [OF S, of v] settled_outer(2) [OF S, of v] v by linarith
  show "deg g3 v = deg g v" using settled_deg [OF S] v by simp
qed (use settledD(8,9) [OF S] settled_inner(3) [OF S] settled_start [OF S] settled_fields [OF S] in simp_all)

text \<open>The positions a window gets.\<close>

lemma window_positions:
  assumes W: "wf g" and ab: "0 \<le> a" "a < b" "b \<le> segment_count g"
    and used: "used = degsum g (a * segment_size g) (b * segment_size g)"
    and tot: "tot = start g (b * segment_size g) - start g (a * segment_size g)"
    and room: "used < tot" and cap: "elem_capacity g \<le> 2 ^ 24"
  obtains ns where "calculate_positions g (a * segment_size g) (b * segment_size g) (tot - used) used = Inr ns"
    and "window_ok g (a * segment_size g) (b * segment_size g) ns"
proof -
  let ?s = "a * segment_size g" and ?e = "b * segment_size g"
  note lay = wfD(1) [OF W] and shp = wfD(2) [OF W]
  note w = wf_shapeD [OF shp] and se = seg_mult_range [OF shp ab]
  have se1: "0 \<le> ?e" "?s < num_vertices g" using se by linarith+
  have vok: "vertex_ok g v" if "0 \<le> v" "v < num_vertices g" for v using that lay by (intro wf_layoutD)
  have ec: "start g ?e \<le> elem_capacity g" using se by (intro start_le_cap [OF lay]) auto
  have ss: "start g ?s = idx g ?s" using se1 by (intro start_idx)
  have "\<exists>ns. calculate_positions g ?s ?e (tot - used) (degsum g ?s ?e) = Inr ns
           \<and> positions_fit g ?s ?e (start g ?e) ns \<and> cell ns 0 = idx g ?s"
  proof (rule calculate_positions_ok)
    show "index_boundary g ?e = Inr (start g ?e)" by (rule index_boundary_start [OF shp se1(1)])
    show "1 \<le> deg g v" if "?s \<le> v" "v < ?e" for v using vertex_okD(4) [OF vok, of v] that se by simp
    show "0 \<le> idx g ?s" using vertex_okD(1) [OF vok, of ?s] se se1 by simp
    show "start g ?e \<le> 2 ^ 24" using ec cap by simp
  qed (use se w room used tot ss in auto)
  then show thesis using that used lay se by (auto simp: window_ok_def)
qed

lemma degsum_nonneg:
  assumes "wf_layout g" "0 \<le> a" "b \<le> num_vertices g"
  shows "0 \<le> degsum g a b"
  unfolding degsum_def
proof (rule sum_nonneg)
  fix v assume "v \<in> {a..<b}"
  then show "0 \<le> deg g v" using vertex_okD(4) [OF wf_layoutD(2) [OF assms(1), of v]] assms by simp
qed

lemma rebalance_data_ok:
  assumes W: "wf g" and rdy: "ulog_ready tid g" and ab: "0 \<le> a" "a < b" "b \<le> segment_count g"
    and win: "window_ok g (a * segment_size g) (b * segment_size g) ns"
  obtains g1 g2 g3 where "rebalance_data_V1 vn em tid (a * segment_size g) (b * segment_size g) ns g = Inr g2"
    and "recount_segment_total_range g2 (a * segment_size g) (b * segment_size g) = Inr g3"
    and "settled tid a b ns g g1 g3"
proof -
  let ?s = "a * segment_size g" and ?e = "b * segment_size g"
  note shp = wfD(2) [OF W]
  note w = wf_shapeD [OF shp] and se = seg_mult_range [OF shp ab]
  have I0: "winv tid g ?s ns ?s ?s ?s g" using rdy by (auto simp: winv_def)
  obtain nxt where nxt: "vertex_index vn g ?e = Inr nxt"
    using se w(4) by (cases "?e = num_vertices g") (auto simp: vertex_index_def rd_cell)
  obtain g1 st nd where loop: "rebalance_loop vn em tid ?s ?e ns ?s (g, nxt, nxt) = Inr (g1, st, nd)"
    and I: "winv tid g ?s ns ?e ?e ?e g1"
    using rebalance_loop_ok [OF win I0, of vn em nxt nxt] se by auto
  note fr = data_frame_selectors [OF winvD(1) [OF I]]
  have rows: "0 \<le> cell (log_segment_idx g) i \<and> cell (log_segment_idx g) i \<le> len (cell (log_ptr g) i)"
    if "a \<le> i" "i < b" for i using wf_shape_rows [OF shp, of i] that ab by simp
  obtain g2 where rel: "release_logs g1 (a + segment_count g) (b + segment_count g) = Inr g2"
    and lf: "logs_frame g1 g2"
    and rl: "\<And>i. 0 \<le> i \<Longrightarrow> len (cell (log_ptr g2) i) = len (cell (log_ptr g) i)"
    and rz: "\<And>i. a \<le> i \<Longrightarrow> i < b \<Longrightarrow> cell (log_segment_idx g2) i = 0"
    and ro: "\<And>i. 0 \<le> i \<Longrightarrow> \<not> (a \<le> i \<and> i < b) \<Longrightarrow> cell (log_ptr g2) i = cell (log_ptr g) i \<and>
        cell (log_segment_idx g2) i = cell (log_segment_idx g) i"
    using release_logs_ok [of a b g1] ab w rows unfolding fr by fastforce
  note f2 = logs_frameD [OF lf]
  have shp2: "wf_shape g2"
    unfolding wf_shape_def
  proof (intro conjI allI impI)
    fix i assume i: "0 \<le> i \<and> i < segment_count g2"
    then show "len (cell (log_ptr g2) i) = MAX_LOG_ENTRIES" "0 \<le> cell (log_segment_idx g2) i"
      "cell (log_segment_idx g2) i \<le> MAX_LOG_ENTRIES"
      using rl [of i] rz [of i] ro [of i] wf_shape_rows [OF shp, of i]
      by (cases "a \<le> i \<and> i < b"; auto simp: f2 fr MAX_LOG_ENTRIES_def)+
  qed (use w in \<open>simp_all add: f2 fr\<close>)
  obtain xs where rec: "recount_total_range g2 a b = Inr (g2\<lparr>segment_edges_total := xs\<rparr>)"
    "len xs = len (segment_edges_total g2)"
    and xs: "\<And>i. 0 \<le> i \<Longrightarrow> cell xs (i + segment_count g) =
        (if a \<le> i \<and> i < b then start g2 ((i + 1) * segment_size g) - start g2 (i * segment_size g)
         else cell (segment_edges_total g) (i + segment_count g))"
    using recount_total_range_ok [OF shp2 ab(1), of b] ab by (auto simp: f2 fr)
  define g3 where "g3 = g2\<lparr>segment_edges_total := xs\<rparr>"
  show thesis
  proof (rule that)
    have "get_segment_id g1 ?s = a + segment_count g" "get_segment_id g1 ?e = b + segment_count g"
      using get_segment_id_mult [OF shp, of a] get_segment_id_mult [OF shp, of b] ab
      by (simp_all add: get_segment_id_def fr)
    then show "rebalance_data_V1 vn em tid ?s ?e ns g = Inr g2"
      using nxt loop rel by (simp add: rebalance_data_V1_def)
    show "recount_segment_total_range g2 ?s ?e = Inr g3"
      using rec get_segment_id_mult [OF shp2, of a] get_segment_id_mult [OF shp2, of b] ab
      by (simp add: recount_segment_total_range_def g3_def f2 fr)
    have "start g3 v = start g2 v" for v by (rule start_cong) (simp_all add: g3_def)
    then show "settled tid a b ns g g1 g3"
      using W ab win I shp2 rec(2) rz ro xs by (simp add: settled_def g3_def f2 fr)
  qed
qed

lemma rebalance_weighted_ok:
  assumes W: "wf g" and rdy: "ulog_ready tid g" and ab: "0 \<le> a" "a < b" "b \<le> segment_count g"
    and used: "used = degsum g (a * segment_size g) (b * segment_size g)"
    and tot: "tot = start g (b * segment_size g) - start g (a * segment_size g)"
    and room: "used < tot" and cap: "elem_capacity g \<le> 2 ^ 24"
  shows "\<exists>g'. rebalance_weighted vn em tid (a * segment_size g) (b * segment_size g) used tot g = Inr g'
     \<and> rebalanced tid a b g g'"
proof -
  let ?s = "a * segment_size g" and ?e = "b * segment_size g"
  note shp = wfD(2) [OF W]
  note w = wf_shapeD [OF shp] and se = seg_mult_range [OF shp ab]
  obtain ns where ns: "calculate_positions g ?s ?e (tot - used) used = Inr ns" and win: "window_ok g ?s ?e ns"
    using window_positions [OF W ab used tot room cap] .
  obtain g1 g2 g3 where d: "rebalance_data_V1 vn em tid ?s ?e ns g = Inr g2"
    and r: "recount_segment_total_range g2 ?s ?e = Inr g3" and S: "settled tid a b ns g g1 g3"
    using rebalance_data_ok [OF W rdy ab win] .
  have fit: "cell ns (?e - ?s - 1) + v_degree (cell (vertices g) (?e - 1)) \<le> start g ?e"
    using positions_end [OF window_okD(6,1,3,5) [OF win], of "?e - 1"] se by (simp add: deg_def algebra_simps)
  have vs: "v_index (cell (vertices g) ?s) = start g ?s" using se start_idx [of ?s g] by (simp add: idx_def)
  have pos: "start g ?s < start g ?e"
    using room tot used degsum_nonneg [OF wfD(1) [OF W] se(1,3)] by simp
  have rds: "rd (vertices g) ?s = Inr (cell (vertices g) ?s)"
    "rd (vertices g) (?e - 1) = Inr (cell (vertices g) (?e - 1))"
    "rd ns (?e - ?s - 1) = Inr (cell ns (?e - ?s - 1))"
    using se w(4) window_okD(8) [OF win] by (auto intro!: rd_cell)
  have ie: "index_boundary g ?e = Inr (start g ?e)" using se by (intro index_boundary_start [OF shp]) simp
  have "rebalance_weighted vn em tid ?s ?e used tot g = Inr g3"
    unfolding rebalance_weighted_def rds sbind_simps ie Let_def vs
      check_simps(1) [OF pos] check_simps(1) [OF tot] ns check_simps(1) [OF fit] d
    by (rule r)
  then show ?thesis using settled_rebalanced [OF S] by blast
qed

end
