(* ===== verification/DgapInsertOk.thy ===== *)
theory DgapInsertOk
  imports DgapInsert DgapWeightedOk
begin

text \<open>
  \<^verbatim>\<open>do_insertion\<close>: an edge is appended to the list of its source, in the array or in the log, and
  no other vertex changes. The log of the segment may be full only if the segment has room, which
  is what \<^verbatim>\<open>insert\<close> maintains.
\<close>

section \<open>Chains and logs that grow\<close>

lemma chain_upd:
  assumes "chain_ok row v k o'" "o' < li" "0 \<le> li"
  shows "chain_ok (upd row li x) v k o'" "chain_vals (upd row li x) k o' = chain_vals row k o'"
  using assms by (induction k arbitrary: o') auto

section \<open>Degrees\<close>

text \<open>\<open>g'\<close> differs from \<open>g\<close> in the degree and the log offset of \<open>src\<close> and in the counters.\<close>

definition bumped :: "int \<Rightarrow> dgraph \<Rightarrow> dgraph \<Rightarrow> bool" where
  "bumped src g g' \<longleftrightarrow>
     (\<exists>o'. vertices g' = upd (vertices g) src ((cell (vertices g) src)\<lparr>v_offset := o', v_degree := deg g src + 1\<rparr>)) \<and>
     num_vertices g' = num_vertices g \<and> elem_capacity g' = elem_capacity g \<and>
     segment_size g' = segment_size g \<and> segment_count g' = segment_count g \<and>
     tree_height g' = tree_height g \<and> delta_up g' = delta_up g \<and> leaf_segments g' = leaf_segments g \<and>
     ulog_ptr g' = ulog_ptr g \<and> oplog_ptr g' = oplog_ptr g \<and>
     segment_edges_total g' = segment_edges_total g \<and>
     segment_edges_actual g' = upd (segment_edges_actual g) (get_segment_id g src)
       (cell (segment_edges_actual g) (get_segment_id g src) + 1) \<and>
     num_edges g' = num_edges g + 1"

lemma bumpedD:
  assumes "bumped src g g'"
  shows "num_vertices g' = num_vertices g" "elem_capacity g' = elem_capacity g"
     "segment_size g' = segment_size g" "segment_count g' = segment_count g"
     "tree_height g' = tree_height g" "delta_up g' = delta_up g" "leaf_segments g' = leaf_segments g"
     "ulog_ptr g' = ulog_ptr g" "oplog_ptr g' = oplog_ptr g"
     "segment_edges_total g' = segment_edges_total g"
     "segment_edges_actual g' = upd (segment_edges_actual g) (get_segment_id g src)
       (cell (segment_edges_actual g) (get_segment_id g src) + 1)"
     "num_edges g' = num_edges g + 1"
  using assms by (simp_all add: bumped_def)

lemma bumped_vertex:
  assumes B: "bumped src g g'" and s: "0 \<le> src" "src < len (vertices g)" and v: "0 \<le> v"
  shows "idx g' v = idx g v" "deg g' v = (if v = src then deg g v + 1 else deg g v)"
    "v \<noteq> src \<Longrightarrow> off g' v = off g v"
  using assms by (auto simp: bumped_def idx_def deg_def off_def cell_upd)

lemma bumped_start:
  assumes "bumped src g g'" "0 \<le> src" "src < len (vertices g)" "0 \<le> v"
  shows "start g' v = start g v"
  using bumped_vertex(1) [OF assms] bumpedD [OF assms(1)] by (simp add: start_def)

lemma bumped_degsum:
  assumes B: "bumped src g g'" and s: "0 \<le> src" "src < len (vertices g)" and a: "0 \<le> a"
  shows "degsum g' a b = degsum g a b + (if a \<le> src \<and> src < b then 1 else 0)"
proof -
  have "degsum g' a b = (\<Sum>v\<in>{a..<b}. deg g v + (if v = src then 1 else 0))"
    unfolding degsum_def using bumped_vertex(2) [OF B s] a by (intro sum.cong) auto
  also have "\<dots> = degsum g a b + (\<Sum>v\<in>{a..<b}. if v = src then 1 else 0)"
    by (simp add: sum.distrib degsum_def)
  also have "(\<Sum>v\<in>{a..<b}. if v = src then 1 else 0) = (if a \<le> src \<and> src < b then 1 else 0::int)"
    by (simp add: sum.delta)
  finally show ?thesis .
qed

lemma bumped_counts_ok:
  assumes B: "bumped src g g'" and W: "wf g" and s: "0 \<le> src" "src < num_vertices g"
  shows "counts_ok g'"
  unfolding counts_ok_def
proof (intro conjI allI impI)
  note shp = wfD(2) [OF W] and f = bumpedD [OF B] and c = wfD(4) [OF W, unfolded counts_ok_def]
  have s': "src < len (vertices g)" using s wf_shapeD(4) [OF shp] by simp
  show "num_edges g' = degsum g' 0 (num_vertices g')"
    using c s by (simp add: f bumped_degsum [OF B s(1) s'])
  show "idx g' 0 = 0" using c bumped_vertex(1) [OF B s(1) s', of 0] by simp
  fix i assume i: "0 \<le> i \<and> i < segment_count g'"
  have iz: "0 \<le> i * segment_size g" "0 \<le> (i + 1) * segment_size g" using i wf_shapeD(1) [OF shp] by simp_all
  show "cell (segment_edges_total g') (i + segment_count g')
      = start g' ((i + 1) * segment_size g') - start g' (i * segment_size g')"
    using c i by (simp add: f bumped_start [OF B s(1) s'] iz)
  have sg: "get_segment_id g src = seg_of g src + segment_count g" by (rule get_segment_id_seg_of [OF shp s(1)])
  note r = seg_of_range [OF shp s]
  have "i = seg_of g src \<longleftrightarrow> i * segment_size g \<le> src \<and> src < (i + 1) * segment_size g"
    using seg_of_iff [OF shp, of i src] seg_of_iff(2) [OF shp, of src "i + 1"] by linarith
  then show "cell (segment_edges_actual g') (i + segment_count g')
      = degsum g' (i * segment_size g') ((i + 1) * segment_size g')"
    using c i r wf_shapeD [OF shp] by (auto simp: f bumped_degsum [OF B s(1) s' iz(1)] sg cell_upd)
qed

lemma bumped_shape:
  assumes "bumped src g g'" "wf_shape g" "len (edges g') = len (edges g)"
    "len (log_ptr g') = len (log_ptr g)" "len (log_segment_idx g') = len (log_segment_idx g)"
    "\<And>sg. 0 \<le> sg \<Longrightarrow> sg < segment_count g \<Longrightarrow> len (cell (log_ptr g') sg) = MAX_LOG_ENTRIES \<and>
        0 \<le> cell (log_segment_idx g') sg \<and> cell (log_segment_idx g') sg \<le> MAX_LOG_ENTRIES"
  shows "wf_shape g'"
  using assms wf_shapeD [OF assms(2)] unfolding wf_shape_def by (auto simp: bumpedD [OF assms(1)] bumped_def)

section \<open>The two places of a new edge\<close>

lemma have_space_onseg_ok:
  assumes "wf_shape g" "0 \<le> src" "src < num_vertices g"
  shows "have_space_onseg g src loc = Inr (loc < start g (src + 1))"
  using assms wf_shapeD(4) [OF assms(1)] by (auto simp: have_space_onseg_def start_def idx_def)

lemma space_no_log:
  assumes "vertex_ok g v" "idx g v + deg g v < start g (v + 1)"
  shows "off g v = -1" "onseg g v = deg g v"
proof -
  show "off g v = -1"
  proof (rule ccontr)
    assume "off g v \<noteq> -1"
    then show False using vertex_okD(3) [OF assms(1)] assms(2) by (simp add: onseg_def)
  qed
  then show "onseg g v = deg g v" by (simp add: onseg_def)
qed

text \<open>What an insertion achieves.\<close>

definition inserted :: "int \<Rightarrow> int \<Rightarrow> dgraph \<Rightarrow> dgraph \<Rightarrow> bool" where
  "inserted src dst g g' \<longleftrightarrow> wf g' \<and> vlist g' src = vlist g src @ [dst] \<and>
     (\<forall>v. 0 \<le> v \<and> v < num_vertices g \<and> v \<noteq> src \<longrightarrow> vlist g' v = vlist g v)"

lemma insert_onseg:
  assumes W: "wf g" and s: "0 \<le> src" "src < num_vertices g"
    and loc: "idx g src + deg g src < start g (src + 1)"
    and B: "bumped src g g'" and e: "edges g' = upd (edges g) (idx g src + deg g src) dst"
    and l: "log_ptr g' = log_ptr g" "log_segment_idx g' = log_segment_idx g" and o': "off g' src = off g src"
  shows "inserted src dst g g'"
proof -
  note lay = wfD(1) [OF W] and shp = wfD(2) [OF W]
  have s': "src < len (vertices g)" using s wf_shapeD(4) [OF shp] by simp
  note f = bumpedD [OF B] and bv = bumped_vertex [OF B s(1) s'] and bs = bumped_start [OF B s(1) s']
  have ok: "vertex_ok g v" if "0 \<le> v" "v < num_vertices g" for v using that lay by (intro wf_layoutD)
  note src_ok = space_no_log [OF ok [OF s] loc]
  have off: "off g' v = off g v" if "0 \<le> v" for v using bv(3) o' that by (cases "v = src") auto
  have row: "log_row g' v = log_row g v" for v by (simp add: log_row_def l f seg_of_def)
  have on: "onseg g' v = (if v = src then onseg g v + 1 else onseg g v)" if "0 \<le> v" for v
    using that bv(1,2) bs off src_ok by (simp add: onseg_def)
  have lb: "0 \<le> idx g src + deg g src" "idx g src + deg g src < len (edges g)"
    using vertex_okD [OF ok [OF s]] loc start_le_cap [OF lay, of "src + 1"] s wf_shapeD(5) [OF shp] by auto
  have src: "vertex_ok g' src" "vlist g' src = vlist g src @ [dst]"
  proof -
    show "vertex_ok g' src" using vertex_okD [OF ok [OF s]] loc src_ok o'
      by (simp add: vertex_ok_def on bv bs s(1))
    have "cells (edges g') (idx g src) (deg g src) = cells (edges g) (idx g src) (deg g src)"
      using vertex_okD [OF ok [OF s]] by (intro cells_cong) (simp add: e)
    then show "vlist g' src = vlist g src @ [dst]"
      using src_ok vertex_okD(4) [OF ok [OF s]] lb o' by (simp add: vlist_def on bv s(1) cells_snoc e)
  qed
  have oth: "vertex_ok g' v" "vlist g' v = vlist g v" if v: "0 \<le> v" "v < num_vertices g" "v \<noteq> src" for v
  proof -
    show "vertex_ok g' v" using ok [OF v(1,2)] v by (simp add: vertex_ok_def on off bv bs row)
    have "cells (edges g') (idx g v) (onseg g v) = cells (edges g) (idx g v) (onseg g v)"
    proof (rule cells_cong)
      fix k assume k: "0 \<le> k" "k < onseg g v"
      have "idx g v + k \<noteq> idx g src + deg g src"
        using start_mono [OF lay, of "v + 1" src] start_mono [OF lay, of "src + 1" v] start_idx [of src g]
          start_idx [of v g] vertex_okD [OF ok [OF v(1,2)]] vertex_okD(4) [OF ok [OF s]] loc k v s
        by (cases "v < src") auto
      then show "cell (edges g') (idx g v + k) = cell (edges g) (idx g v + k)"
        unfolding e using k vertex_okD(1) [OF ok [OF v(1,2)]] lb by (intro cell_upd_other) auto
    qed
    then show "vlist g' v = vlist g v" using v by (simp add: vlist_def on off bv row)
  qed
  have "wf_shape g'" using wf_shape_rows [OF shp] by (intro bumped_shape [OF B shp]) (simp_all add: e l)
  then have "wf_layout g'" using src(1) oth(1) by (auto simp: wf_layout_def f)
  moreover have "log_ok g'" using wfD(3) [OF W] off by (simp add: log_ok_def f l seg_of_def)
  ultimately have "wf g'" using bumped_counts_ok [OF B W s] by (simp add: wf_def)
  then show ?thesis using src(2) oth(2) by (simp add: inserted_def)
qed

lemma insert_inlog:
  assumes W: "wf g" and s: "0 \<le> src" "src < num_vertices g"
    and loc: "start g (src + 1) \<le> idx g src + deg g src"
    and li: "li = cell (log_segment_idx g) (seg_of g src)" "li < MAX_LOG_ENTRIES"
    and B: "bumped src g g'" and e: "edges g' = edges g"
    and l: "log_ptr g' = upd (log_ptr g) (seg_of g src) (upd (log_row g src) li \<lparr>le_u = src, le_v = dst, le_prev = off g src\<rparr>)"
      "log_segment_idx g' = upd (log_segment_idx g) (seg_of g src) (li + 1)" and o': "off g' src = li"
  shows "inserted src dst g g'"
proof -
  note lay = wfD(1) [OF W] and shp = wfD(2) [OF W]
  have s': "src < len (vertices g)" using s wf_shapeD(4) [OF shp] by simp
  note f = bumpedD [OF B] and bv = bumped_vertex [OF B s(1) s'] and bs = bumped_start [OF B s(1) s']
  have ok: "vertex_ok g v" if "0 \<le> v" "v < num_vertices g" for v using that lay by (intro wf_layoutD)
  note sg = seg_of_range [OF shp s] and rows = wf_shape_rows [OF shp]
  have li0: "0 \<le> li" using rows(2) [OF sg] li by simp
  have so: "off g src < li" using wfD(3) [OF W] s li by (simp add: log_ok_def)
  have row: "log_row g' v = (if seg_of g v = seg_of g src
      then upd (log_row g src) li \<lparr>le_u = src, le_v = dst, le_prev = off g src\<rparr> else log_row g v)"
    if "0 \<le> v" "v < num_vertices g" for v
    using seg_of_range [OF shp that] sg wf_shapeD(6) [OF shp] by (simp add: log_row_def l f seg_of_def)
  have rl: "li < len (log_row g src)" using rows(1) [OF sg] li by (simp add: log_row_def)
  have on: "onseg g' v = onseg g v" if "0 \<le> v" for v
    using that bv bs loc o' li0 vertex_okD(5) [OF ok [OF s]] by (cases "v = src") (auto simp: onseg_def)
  note vs = vertex_okD [OF ok [OF s]]
  have k: "nat (deg g src + 1 - onseg g src) = Suc (nat (deg g src - onseg g src))" using vs(3) by simp
  have src: "vertex_ok g' src" "vlist g' src = vlist g src @ [dst]"
    using vs rl li0 so by (simp_all add: vertex_ok_def vlist_def on bv bs row s o' k chain_upd [OF vs(6) so li0] e)
  have oth: "vertex_ok g' v" "vlist g' v = vlist g v" if v: "0 \<le> v" "v < num_vertices g" "v \<noteq> src" for v
  proof -
    note vo = vertex_okD [OF ok [OF v(1,2)]]
    have "chain_ok (log_row g' v) v (nat (deg g v - onseg g v)) (off g v) \<and>
        chain_vals (log_row g' v) (nat (deg g v - onseg g v)) (off g v)
        = chain_vals (log_row g v) (nat (deg g v - onseg g v)) (off g v)"
    proof (cases "seg_of g v = seg_of g src")
      case True
      have "off g v < cell (log_segment_idx g) (seg_of g v)" using wfD(3) [OF W] v by (simp add: log_ok_def)
      then have "off g v < li" using True li by simp
      moreover have "log_row g v = log_row g src" using True by (simp add: log_row_def)
      ultimately show ?thesis using chain_upd [OF vo(6) _ li0] True by (simp add: row v)
    qed (use vo in \<open>simp add: row v\<close>)
    then show "vertex_ok g' v" "vlist g' v = vlist g v"
      using vo v by (simp_all add: vertex_ok_def vlist_def on bv bs e)
  qed
  have "wf_shape g'"
  proof (rule bumped_shape [OF B shp])
    fix j assume j: "0 \<le> j" "j < segment_count g"
    then show "len (cell (log_ptr g') j) = MAX_LOG_ENTRIES \<and>
        0 \<le> cell (log_segment_idx g') j \<and> cell (log_segment_idx g') j \<le> MAX_LOG_ENTRIES"
      using rows [OF j] rows(1) [OF sg] sg li li0 wf_shapeD(6,7) [OF shp]
      by (cases "j = seg_of g src") (simp_all add: l log_row_def)
  qed (simp_all add: e l)
  then have "wf_layout g'" using src(1) oth(1) by (auto simp: wf_layout_def f)
  moreover have "log_ok g'"
    unfolding log_ok_def
  proof (intro allI impI)
    fix v assume v: "0 \<le> v \<and> v < num_vertices g'"
    have sv: "seg_of g' v = seg_of g v" "0 \<le> seg_of g v" "seg_of g v < segment_count g"
      using seg_of_range [OF shp, of v] v by (auto simp: seg_of_def f)
    have "off g v < cell (log_segment_idx g) (seg_of g v)" using wfD(3) [OF W] v by (simp add: log_ok_def f)
    then show "off g' v < cell (log_segment_idx g') (seg_of g' v)"
      using sv sg wf_shapeD(7) [OF shp] bv(3) [of v] v o' li
      by (cases "v = src"; cases "seg_of g v = seg_of g src") (auto simp: l)
  qed
  ultimately have "wf g'" using bumped_counts_ok [OF B W s] by (simp add: wf_def)
  then show ?thesis using src(2) oth(2) by (simp add: inserted_def)
qed

section \<open>The whole of do_insertion\<close>

lemma inserted_trans_rebalanced:
  assumes R: "rebalanced tid a b g g1" and I: "inserted src dst g1 g2" and s: "0 \<le> src" "src < num_vertices g"
  shows "inserted src dst g g2"
  using assms by (auto simp: rebalanced_def inserted_def)

text \<open>\<open>place_edge\<close> and the counters, when the log has room.\<close>

lemma put_edge_ok:
  assumes W: "wf g" and s: "0 \<le> src" "src < num_vertices g"
    and loc: "idx g src + deg g src < start g (src + 1)"
  shows "\<exists>g'. sbind (put_edge (idx g src + deg g src) dst 1 g) (update_metadata src (get_segment_id g src)) = Inr g'
     \<and> inserted src dst g g' \<and> bumped src g g' \<and> log_segment_idx g' = log_segment_idx g"
proof -
  note lay = wfD(1) [OF W] and shp = wfD(2) [OF W]
  note w = wf_shapeD [OF shp] and sg = seg_of_range [OF shp s]
  have gs: "get_segment_id g src = seg_of g src + segment_count g" by (rule get_segment_id_seg_of [OF shp s(1)])
  have lb: "0 \<le> idx g src + deg g src" "idx g src + deg g src < len (edges g)"
    using vertex_okD [OF wf_layoutD(2) [OF lay s]] loc start_le_cap [OF lay, of "src + 1"] s w(5) by auto
  let ?x = "cell (vertices g) src"
  define g' where "g' = g\<lparr>edges := upd (edges g) (idx g src + deg g src) dst,
     flushes := FlEdges (idx g src + deg g src) 1 # flushes g,
     vertices := upd (vertices g) src (?x\<lparr>v_degree := deg g src + 1\<rparr>),
     segment_edges_actual := upd (segment_edges_actual g) (get_segment_id g src)
       (cell (segment_edges_actual g) (get_segment_id g src) + 1), num_edges := num_edges g + 1\<rparr>"
  have run: "sbind (put_edge (idx g src + deg g src) dst 1 g) (update_metadata src (get_segment_id g src)) = Inr g'"
    using s lb sg w(4,8) unfolding gs g'_def
    by (simp add: put_edge_def update_metadata_def set_edge_def set_vertex_def add_actual_def flush_def deg_def)
  have B: "bumped src g g'" by (auto simp: bumped_def g'_def intro!: exI [of _ "v_offset ?x"])
  moreover have "off g' src = off g src" using s w(4) by (simp add: off_def g'_def)
  then have "inserted src dst g g'" by (intro insert_onseg [OF W s loc B]) (simp_all add: g'_def)
  ultimately show ?thesis using run by (auto simp: g'_def)
qed

lemma log_edge_ok:
  assumes W: "wf g" and s: "0 \<le> src" "src < num_vertices g"
    and loc: "start g (src + 1) \<le> idx g src + deg g src"
    and li: "cell (log_segment_idx g) (seg_of g src) < MAX_LOG_ENTRIES"
  shows "\<exists>g'. sbind (insert_into_log g (get_segment_id g src - segment_count g) src dst)
        (update_metadata src (get_segment_id g src)) = Inr g' \<and> inserted src dst g g' \<and> bumped src g g' \<and>
      log_segment_idx g' = upd (log_segment_idx g) (seg_of g src) (cell (log_segment_idx g) (seg_of g src) + 1)"
proof -
  note lay = wfD(1) [OF W] and shp = wfD(2) [OF W]
  note w = wf_shapeD [OF shp] and sg = seg_of_range [OF shp s] and rows = wf_shape_rows [OF shp]
  have gs: "get_segment_id g src = seg_of g src + segment_count g" by (rule get_segment_id_seg_of [OF shp s(1)])
  let ?x = "cell (vertices g) src" and ?sg = "seg_of g src"
  let ?li = "cell (log_segment_idx g) ?sg"
  have in_seg: "?sg * segment_size g \<le> src" "src < ?sg * segment_size g + segment_size g"
    using seg_of_iff(1) [OF shp, of ?sg src] seg_of_iff(2) [OF shp, of src "?sg + 1"] by (simp_all add: distrib_right)
  have so: "v_offset ?x < ?li" using wfD(3) [OF W] s by (simp add: log_ok_def off_def)
  define g' where "g' = g\<lparr>log_ptr := upd (log_ptr g) ?sg (upd (log_row g src) ?li \<lparr>le_u = src, le_v = dst, le_prev = off g src\<rparr>),
     flushes := FlLogEntry ?sg ?li # flushes g,
     vertices := upd (vertices g) src (?x\<lparr>v_offset := ?li, v_degree := deg g src + 1\<rparr>),
     log_segment_idx := upd (log_segment_idx g) ?sg (?li + 1),
     segment_edges_actual := upd (segment_edges_actual g) (get_segment_id g src)
       (cell (segment_edges_actual g) (get_segment_id g src) + 1), num_edges := num_edges g + 1\<rparr>"
  have run: "sbind (insert_into_log g (get_segment_id g src - segment_count g) src dst)
        (update_metadata src (get_segment_id g src)) = Inr g'"
    using s sg w(4,6,7,8) rows [OF sg] li so in_seg unfolding gs g'_def
    by (simp add: insert_into_log_def update_metadata_def set_vertex_def add_actual_def flush_def deg_def
        off_def log_row_def)
  have B: "bumped src g g'" by (auto simp: bumped_def g'_def)
  moreover have "off g' src = ?li" using s w(4) by (simp add: off_def g'_def)
  then have "inserted src dst g g'" by (intro insert_inlog [OF W s loc refl li B]) (simp_all add: g'_def)
  ultimately show ?thesis using run by (auto simp: g'_def)
qed

end
