(* ===== verification/DgapDynamicOk.thy ===== *)
theory DgapDynamicOk
  imports DgapInsertOk
begin

text \<open>
  \<^verbatim>\<open>do_insertion\<close> as a whole, the window search, \<^verbatim>\<open>resize_V1\<close> and \<^verbatim>\<open>insert(src, dst)\<close> run by one
  thread: every call returns, releases its locks, appends the edge and keeps the invariant.
\<close>

section \<open>do_insertion\<close>

text \<open>
  A segment whose log holds entries has fewer edges than cells: the invariant \<^verbatim>\<open>insert\<close> keeps by
  rebalancing whenever a segment has as many edges as cells.
\<close>

definition seg_actual :: "dgraph \<Rightarrow> int \<Rightarrow> int" where
  "seg_actual g i = cell (segment_edges_actual g) (i + segment_count g)"

definition seg_total :: "dgraph \<Rightarrow> int \<Rightarrow> int" where
  "seg_total g i = cell (segment_edges_total g) (i + segment_count g)"

definition room_ok :: "dgraph \<Rightarrow> int \<Rightarrow> bool" where
  "room_ok g i \<longleftrightarrow> (0 < cell (log_segment_idx g) i \<longrightarrow> seg_actual g i < seg_total g i)"

lemma seg_counts:
  assumes "wf g" "0 \<le> i" "i < segment_count g"
  shows "seg_actual g i = degsum g (i * segment_size g) ((i + 1) * segment_size g)"
    "seg_total g i = start g ((i + 1) * segment_size g) - start g (i * segment_size g)"
  using wfD(4) [OF assms(1)] assms(2,3) by (simp_all add: counts_ok_def seg_actual_def seg_total_def)

text \<open>What the callers of \<^verbatim>\<open>do_insertion\<close> learn besides \<open>inserted\<close>.\<close>

definition ins_frame :: "int \<Rightarrow> int \<Rightarrow> dgraph \<Rightarrow> dgraph \<Rightarrow> bool" where
  "ins_frame tid src g g' \<longleftrightarrow> ulog_ready tid g' \<and>
     num_vertices g' = num_vertices g \<and> elem_capacity g' = elem_capacity g \<and>
     segment_size g' = segment_size g \<and> segment_count g' = segment_count g \<and>
     tree_height g' = tree_height g \<and> delta_up g' = delta_up g \<and> leaf_segments g' = leaf_segments g \<and>
     seg_actual g' (seg_of g src) = seg_actual g (seg_of g src) + 1 \<and>
     (\<forall>i. 0 \<le> i \<and> i < segment_count g \<and> i \<noteq> seg_of g src \<longrightarrow> seg_actual g' i = seg_actual g i \<and>
        seg_total g' i = seg_total g i \<and> cell (log_segment_idx g') i = cell (log_segment_idx g) i)"

lemma ins_frame_bumped:
  assumes W: "wf g" and s: "0 \<le> src" "src < num_vertices g" and B: "bumped src g g'"
    and rdy: "ulog_ready tid g"
    and li: "\<And>i. 0 \<le> i \<Longrightarrow> i \<noteq> seg_of g src \<Longrightarrow> cell (log_segment_idx g') i = cell (log_segment_idx g) i"
  shows "ins_frame tid src g g'"
proof -
  note shp = wfD(2) [OF W]
  have gs: "get_segment_id g src = seg_of g src + segment_count g" by (rule get_segment_id_seg_of [OF shp s(1)])
  note sg = seg_of_range [OF shp s] and w = wf_shapeD [OF shp] and f = bumpedD [OF B]
  show ?thesis
    using rdy sg w(2,8) li
    by (auto simp: ins_frame_def f ulog_ready_def seg_actual_def seg_total_def gs cell_upd)
qed

lemma rebalanced_seg:
  assumes R: "rebalanced tid a b g g'" and W: "wf g" and ab: "0 \<le> a" "a \<le> b"
    and i: "0 \<le> i" "i < segment_count g"
  shows "seg_actual g' i = seg_actual g i"
    "\<not> (a \<le> i \<and> i < b) \<Longrightarrow> seg_total g' i = seg_total g i"
proof -
  note shp = wfD(2) [OF W]
  have W': "wf g'" and f: "segment_count g' = segment_count g" "segment_size g' = segment_size g"
    "segment_edges_actual g' = segment_edges_actual g" "num_vertices g' = num_vertices g"
    using R by (auto simp: rebalanced_def)
  show "seg_actual g' i = seg_actual g i" by (simp add: seg_actual_def f)
  assume o: "\<not> (a \<le> i \<and> i < b)"
  note z = wf_shapeD(1) [OF shp]
  have r: "0 \<le> i * segment_size g" "i * segment_size g < (i + 1) * segment_size g"
    "(i + 1) * segment_size g \<le> num_vertices g"
    using seg_mult_range [OF shp, of i "i + 1"] i by auto
  have "(i + 1) * segment_size g \<le> a * segment_size g \<or> b * segment_size g \<le> i * segment_size g"
    using o z by (cases "i < a") (auto intro!: mult_right_mono simp del: mult_le_cancel_right)
  then have "start g' ((i + 1) * segment_size g) = start g ((i + 1) * segment_size g)"
    "start g' (i * segment_size g) = start g (i * segment_size g)"
    using R r by (auto simp: rebalanced_def)
  then show "seg_total g' i = seg_total g i"
    using seg_counts(2) [OF W i] seg_counts(2) [OF W', of i] i by (simp add: f)
qed

lemma place_edge_ok:
  assumes W: "wf g" and s: "0 \<le> src" "src < num_vertices g" and rdy: "ulog_ready tid g"
    and li: "idx g src + deg g src < start g (src + 1) \<or> cell (log_segment_idx g) (seg_of g src) < MAX_LOG_ENTRIES"
  shows "\<exists>g'. sbind (place_edge src dst (get_segment_id g src) g) (update_metadata src (get_segment_id g src)) = Inr g'
     \<and> inserted src dst g g' \<and> ins_frame tid src g g'"
proof -
  note shp = wfD(2) [OF W] and sg = seg_of_range [OF wfD(2) [OF W] s]
  have r: "rd (vertices g) src = Inr (cell (vertices g) src)" using s wf_shapeD(4) [OF shp] by simp
  have p: "place_edge src dst (get_segment_id g src) g =
     (if idx g src + deg g src < start g (src + 1) then put_edge (idx g src + deg g src) dst 1 g
      else insert_into_log g (get_segment_id g src - segment_count g) src dst)"
    using have_space_onseg_ok [OF shp s] by (simp add: place_edge_def r idx_def deg_def)
  show ?thesis
  proof (cases "idx g src + deg g src < start g (src + 1)")
    case True
    from put_edge_ok [OF W s this, of dst] show ?thesis
      using True ins_frame_bumped [OF W s _ rdy] by (auto simp: p)
  next
    case False
    with log_edge_ok [OF W s, of dst] li show ?thesis
      using ins_frame_bumped [OF W s _ rdy] sg wf_shapeD(7) [OF shp] by (fastforce simp: p)
  qed
qed

lemma do_insertion_ok:
  assumes W: "wf g" and s: "0 \<le> src" "src < num_vertices g" and rdy: "ulog_ready tid g"
    and cap: "elem_capacity g \<le> 2 ^ 24" and room: "room_ok g (seg_of g src)"
  shows "\<exists>g'. do_insertion vn em tid src dst (get_segment_id g src) g = Inr g'
     \<and> inserted src dst g g' \<and> ins_frame tid src g g'"
proof -
  note shp = wfD(2) [OF W]
  note sg = seg_of_range [OF shp s] and w = wf_shapeD [OF shp]
  let ?a = "seg_of g src"
  have gs: "get_segment_id g src = ?a + segment_count g" by (rule get_segment_id_seg_of [OF shp s(1)])
  have r: "rd (vertices g) src = Inr (cell (vertices g) src)" using s w(4) by simp
  have hs: "have_space_onseg g src (idx g src + deg g src) = Inr (idx g src + deg g src < start g (src + 1))"
    by (rule have_space_onseg_ok [OF shp s])
  have rl: "rd (log_segment_idx g) ?a = Inr (cell (log_segment_idx g) ?a)" using sg w(7) by simp
  consider "idx g src + deg g src < start g (src + 1)"
    | "\<not> idx g src + deg g src < start g (src + 1)" "cell (log_segment_idx g) ?a < MAX_LOG_ENTRIES"
    | "\<not> idx g src + deg g src < start g (src + 1)" "cell (log_segment_idx g) ?a \<ge> MAX_LOG_ENTRIES" by linarith
  then show ?thesis
  proof cases
    case 1
    then show ?thesis using put_edge_ok [OF W s 1, of dst] ins_frame_bumped [OF W s _ rdy] hs r
      by (auto simp: do_insertion_def idx_def deg_def)
  next
    case 2
    then show ?thesis using place_edge_ok [OF W s rdy, of dst] hs r rl
      by (auto simp: do_insertion_def idx_def deg_def gs)
  next
    case 3
    have a: "seg_actual g ?a < seg_total g ?a"
      using room 3(2) by (simp add: room_ok_def MAX_LOG_ENTRIES_def)
    have "\<exists>g1. rebalance_weighted vn em tid (?a * segment_size g) ((?a + 1) * segment_size g)
        (seg_actual g ?a) (seg_total g ?a) g = Inr g1 \<and> rebalanced tid ?a (?a + 1) g g1"
      by (rule rebalance_weighted_ok [OF W rdy]) (use sg seg_counts [OF W sg] a cap in auto)
    then obtain g1 where g1: "rebalance_weighted vn em tid (?a * segment_size g) ((?a + 1) * segment_size g)
        (seg_actual g ?a) (seg_total g ?a) g = Inr g1" and R: "rebalanced tid ?a (?a + 1) g g1" by blast
    have f: "wf g1" "ulog_ready tid g1" "num_vertices g1 = num_vertices g" "segment_count g1 = segment_count g"
      "segment_size g1 = segment_size g" "elem_capacity g1 = elem_capacity g" "tree_height g1 = tree_height g"
      "delta_up g1 = delta_up g" "leaf_segments g1 = leaf_segments g" "cell (log_segment_idx g1) ?a = 0"
      "\<And>i. 0 \<le> i \<Longrightarrow> i \<noteq> ?a \<Longrightarrow> cell (log_segment_idx g1) i = cell (log_segment_idx g) i"
      using R by (auto simp: rebalanced_def)
    have sg1: "get_segment_id g1 src = get_segment_id g src" "seg_of g1 src = ?a"
      by (simp_all add: get_segment_id_def f seg_of_def)
    obtain g' where g': "sbind (place_edge src dst (get_segment_id g src) g1) (update_metadata src (get_segment_id g src)) = Inr g'"
      "inserted src dst g1 g'" "ins_frame tid src g1 g'"
      using place_edge_ok [OF f(1) s(1) _ f(2), of dst] s f sg1 by (auto simp: MAX_LOG_ENTRIES_def)
    have li: "cdiv src (segment_size g) = ?a"
      using s w(1) by (simp add: seg_of_def)
    have ri: "min (?a * segment_size g + segment_size g) (num_vertices g) = (?a + 1) * segment_size g"
      using seg_mult_range [OF shp, of ?a "?a + 1"] sg by (simp add: distrib_right)
    have ra: "rd (segment_edges_actual g) (?a + segment_count g) = Inr (seg_actual g ?a)"
      "rd (segment_edges_total g) (?a + segment_count g) = Inr (seg_total g ?a)"
      using sg w by (simp_all add: seg_actual_def seg_total_def)
    have "do_insertion vn em tid src dst (get_segment_id g src) g = Inr g'"
      using 3 hs r rl g1 g'(1) ra li ri
      by (simp add: do_insertion_def idx_def deg_def gs Let_def)
    moreover have "inserted src dst g g'" by (rule inserted_trans_rebalanced [OF R g'(2) s])
    moreover have "ins_frame tid src g g'"
      using g'(3) f rebalanced_seg [OF R W] sg by (auto simp: ins_frame_def sg1)
    ultimately show ?thesis by blast
  qed
qed

end
