(* ===== verification/DgapResizeOk.thy ===== *)
theory DgapResizeOk
  imports DgapDynamicOk
begin

text \<open>
  \<^verbatim>\<open>resize_V1\<close>: it keeps the edges of every vertex when the last vertex has no logged edges, and
  leaves its arrays when it has some: the number of edges the last vertex has in the array is taken
  from the capacity that has just been doubled.
\<close>

section \<open>Copying one vertex\<close>

lemma cell_append: "0 \<le> i \<Longrightarrow> cell (xs @ ys) i = (if i < len xs then cell xs i else cell ys (i - len xs))"
  by (auto simp: cell_def len_def nth_append nat_less_iff nat_diff_distrib')

lemma cell_take: "0 \<le> i \<Longrightarrow> i < n \<Longrightarrow> cell (take (nat n) xs) i = cell xs i"
  by (simp add: cell_def)

lemma cell_drop: "0 \<le> i \<Longrightarrow> 0 \<le> n \<Longrightarrow> n \<le> len xs \<Longrightarrow> cell (drop (nat n) xs) i = cell xs (n + i)"
  by (simp add: cell_def len_def nat_add_distrib)

lemma cell_cells: "0 \<le> i \<Longrightarrow> i < n \<Longrightarrow> cell (cells xs a n) i = cell xs (a + i)"
  by (simp add: cell_def [of "cells xs a n"])

lemma len_take [simp]: "0 \<le> n \<Longrightarrow> n \<le> len xs \<Longrightarrow> len (take (nat n) xs) = n"
  by (simp add: len_def)

lemma len_cells [simp]: "0 \<le> n \<Longrightarrow> len (cells xs a n) = n"
  by (simp add: len_def)

lemma copy_cells_ok:
  assumes "0 \<le> n" "0 \<le> a" "a + n \<le> len src" "0 \<le> b" "b + n \<le> len dst"
  shows "\<exists>dst'. copy_cells src a dst b n = Inr dst' \<and> len dst' = len dst \<and>
     (\<forall>i. 0 \<le> i \<longrightarrow> i < len dst \<longrightarrow> cell dst' i = (if b \<le> i \<and> i < b + n then cell src (i - b + a) else cell dst i))"
proof -
  define dst' where "dst' = take (nat b) dst @ cells src a n @ drop (nat (b + n)) dst"
  have "copy_cells src a dst b n = Inr dst'" using assms by (simp add: copy_cells_def dst'_def)
  moreover have "len dst' = len dst" using assms by (simp add: dst'_def)
  moreover have "cell dst' i = (if b \<le> i \<and> i < b + n then cell src (i - b + a) else cell dst i)"
    if "0 \<le> i" "i < len dst" for i
    using assms that by (auto simp: dst'_def cell_append cell_take cell_drop cell_cells algebra_simps)
  ultimately show ?thesis by blast
qed

lemma resize_log_nil [simp]: "resize_log row n (-1) w ne = Inr ne"
  by (cases n) auto

lemma resize_log_ok:
  assumes "chain_ok row v k o'" and "k \<le> n" and "0 \<le> w - int k + 1" "w < len ne"
  shows "\<exists>ne'. resize_log row n o' w ne = Inr ne' \<and> len ne' = len ne \<and>
    (\<forall>i. 0 \<le> i \<longrightarrow> cell ne' i =
       (if w - int k < i \<and> i \<le> w then chain_vals row k o' ! nat (w - i) else cell ne i))"
  using assms
proof (induction k arbitrary: o' w n ne)
  case 0
  then show ?case by auto
next
  case (Suc k)
  then obtain m where n: "n = Suc m" by (cases n) auto
  define x where "x = le_v (cell row o')"
  define ne1 where "ne1 = upd ne w x"
  have o': "0 \<le> o'" "o' < len row" "chain_ok row v k (le_prev (cell row o'))" using Suc.prems(1) by auto
  have w: "0 \<le> w - 1 - int k + 1" "w - 1 < len ne1" "k \<le> m" "0 \<le> w" "w < len ne"
    using Suc.prems n by (auto simp: ne1_def)
  obtain ne' where r: "resize_log row m (le_prev (cell row o')) (w - 1) ne1 = Inr ne'" "len ne' = len ne1"
    and c: "\<And>i. 0 \<le> i \<Longrightarrow> cell ne' i = (if w - 1 - int k < i \<and> i \<le> w - 1
       then chain_vals row k (le_prev (cell row o')) ! nat (w - 1 - i) else cell ne1 i)"
    using Suc.IH [OF o'(3) w(3,1,2)] by blast
  have "resize_log row n o' w ne = Inr ne'" using n o' r(1) w by (simp add: x_def ne1_def)
  moreover have "cell ne' i = (if w - int (Suc k) < i \<and> i \<le> w then chain_vals row (Suc k) o' ! nat (w - i) else cell ne i)"
    if i: "0 \<le> i" for i
  proof (cases "i = w")
    case True
    then show ?thesis using c [OF i] w by (simp add: ne1_def x_def)
  next
    case False
    then have "nat (w - i) = Suc (nat (w - 1 - i))" if "i \<le> w" using that by simp
    then show ?thesis using c [OF i] False i w by (auto simp: ne1_def cell_upd)
  qed
  ultimately show ?case using r(2) by (auto simp: ne1_def)
qed

text \<open>The graph while \<^verbatim>\<open>resize_V1\<close> runs: the first \<open>vi\<close> vertices have their new places.\<close>

definition resizing :: "dgraph \<Rightarrow> int list \<Rightarrow> int \<Rightarrow> dgraph \<Rightarrow> int list \<Rightarrow> bool" where
  "resizing g ns vi g' ne \<longleftrightarrow>
     (\<exists>vs. g' = g\<lparr>elem_capacity := elem_capacity g * 2, vertices := vs\<rparr> \<and> len vs = len (vertices g)) \<and>
     len ne = elem_capacity g * 2 \<and>
     (\<forall>v. 0 \<le> v \<and> v < vi \<longrightarrow>
        cell (vertices g') v = (cell (vertices g) v)\<lparr>v_index := cell ns v, v_offset := -1\<rparr> \<and>
        cells ne (cell ns v) (deg g v) = vlist g v) \<and>
     (\<forall>v. vi \<le> v \<and> v < num_vertices g \<longrightarrow> cell (vertices g') v = cell (vertices g) v)"

lemma resizingD:
  assumes "resizing g ns vi g' ne"
  shows "num_vertices g' = num_vertices g" "elem_capacity g' = elem_capacity g * 2"
    "edges g' = edges g" "log_ptr g' = log_ptr g" "get_segment_id g' = get_segment_id g"
    "segment_count g' = segment_count g" "segment_size g' = segment_size g"
    "len (vertices g') = len (vertices g)" "len ne = elem_capacity g * 2"
    "log_segment_idx g' = log_segment_idx g"
    "vi \<le> v \<Longrightarrow> v < num_vertices g \<Longrightarrow> cell (vertices g') v = cell (vertices g) v"
    "0 \<le> v \<Longrightarrow> v < vi \<Longrightarrow> cell (vertices g') v = (cell (vertices g) v)\<lparr>v_index := cell ns v, v_offset := -1\<rparr>"
    "0 \<le> v \<Longrightarrow> v < vi \<Longrightarrow> cells ne (cell ns v) (deg g v) = vlist g v"
  using assms by (auto simp: resizing_def get_segment_id_def fun_eq_iff)

definition new_places :: "dgraph \<Rightarrow> int list \<Rightarrow> bool" where
  "new_places g ns \<longleftrightarrow> wf_layout g \<and> positions_fit g 0 (num_vertices g) (elem_capacity g * 2) ns \<and> cell ns 0 = 0"

lemma new_places_range:
  assumes N: "new_places g ns" and v: "0 \<le> v" "v < num_vertices g"
  shows "0 \<le> cell ns v" "cell ns v + deg g v \<le> elem_capacity g * 2"
    "v < w \<Longrightarrow> w < num_vertices g \<Longrightarrow> cell ns v + deg g v \<le> cell ns w"
proof -
  have lay: "wf_layout g" and fit: "positions_fit g 0 (num_vertices g) (elem_capacity g * 2) ns" and z: "cell ns 0 = 0"
    using N by (auto simp: new_places_def)
  have m: "cell ns v + deg g v \<le> cell ns w" if "0 \<le> v" "v < w" "w < num_vertices g" for v w
    using positions_mono [OF fit lay, of v w] that by simp
  show "v < w \<Longrightarrow> w < num_vertices g \<Longrightarrow> cell ns v + deg g v \<le> cell ns w" using m v by blast
  show "cell ns v + deg g v \<le> elem_capacity g * 2" using positions_end [OF fit lay, of v] v by simp
  have "1 \<le> deg g 0" using vertex_okD(4) [OF wf_layoutD(2) [OF lay, of 0]] v by simp
  then show "0 \<le> cell ns v" using m [of 0 v] v z by (cases "v = 0") auto
qed

lemma resize_vertex_ok:
  assumes N: "new_places g ns" and I: "resizing g ns vi g' ne" and v: "0 \<le> vi" "vi < num_vertices g"
    and last: "vi = num_vertices g - 1 \<Longrightarrow> off g vi = -1"
  shows "\<exists>g'' ne'. resize_vertex ns vi g' ne = Inr (g'', ne') \<and> resizing g ns (vi + 1) g'' ne'"
proof -
  have lay: "wf_layout g" and ln: "len ns = num_vertices g"
    using N by (auto simp: new_places_def positions_fit_def)
  note shp = wf_layoutD(1) [OF lay] and ok = vertex_okD [OF wf_layoutD(2) [OF lay v]] and f = resizingD [OF I]
  note w = wf_shapeD [OF shp] and r = new_places_range [OF N v] and sg = seg_of_range [OF shp v]
  define x where "x = cell (vertices g) vi"
  define ni where "ni = cell ns vi"
  have xd: "v_index x = idx g vi" "v_degree x = deg g vi" "v_offset x = off g vi"
    by (simp_all add: x_def idx_def deg_def off_def)
  have rx: "rd (vertices g') vi = Inr x" using f(11) [of vi] v w f(8) by (simp add: x_def)
  have rn: "rd ns vi = Inr ni" using v ln by (simp add: ni_def)
  obtain nvb where nvb: "(if vi = num_vertices g' - 1 then Inr (elem_capacity g' - 1)
            else sbind (rd (vertices g') (vi + 1)) (\<lambda>y. Inr (v_index y - 1))) = Inr nvb"
    and on: "(if off g vi \<noteq> -1 then nvb - idx g vi + 1 else deg g vi) = onseg g vi"
    using f(11) [of "vi + 1"] v w f(1,2,8) last
    by (cases "vi = num_vertices g - 1") (auto simp: onseg_def start_def idx_def)
  have ce: "idx g vi + onseg g vi \<le> len (edges g)"
    using ok(5) start_le_cap [OF lay, of "vi + 1"] v w(5) by simp
  obtain ne1 where c: "copy_cells (edges g') (idx g vi) ne ni (onseg g vi) = Inr ne1" "len ne1 = len ne"
    and c1: "\<And>i. 0 \<le> i \<Longrightarrow> i < len ne \<Longrightarrow> cell ne1 i =
       (if ni \<le> i \<and> i < ni + onseg g vi then cell (edges g) (i - ni + idx g vi) else cell ne i)"
    using copy_cells_ok [of "onseg g vi" "idx g vi" "edges g'" ni ne] ok ce r f(3,9) by (auto simp: ni_def)
  define k where "k = nat (deg g vi - onseg g vi)"
  have k: "int k = deg g vi - onseg g vi" using ok(3) by (simp add: k_def)
  have ch: "chain_ok (log_row g vi) vi k (off g vi)" using ok(6) by (simp add: k_def)
  have "len (log_row g vi) = MAX_LOG_ENTRIES" using wf_shape_rows(1) [OF shp sg] by (simp add: log_row_def)
  then have kf: "k \<le> log_fuel" using chain_ok_len [OF ch] by (simp add: log_fuel_def MAX_LOG_ENTRIES_def)
  obtain ne2 where l: "resize_log (log_row g vi) log_fuel (off g vi) (ni + deg g vi - 1) ne1 = Inr ne2" "len ne2 = len ne1"
    and c2: "\<And>i. 0 \<le> i \<Longrightarrow> cell ne2 i = (if ni + deg g vi - 1 - int k < i \<and> i \<le> ni + deg g vi - 1
       then chain_vals (log_row g vi) k (off g vi) ! nat (ni + deg g vi - 1 - i) else cell ne1 i)"
    using resize_log_ok [OF ch kf, of "ni + deg g vi - 1" ne1] k r ok f(9) c(2) by (auto simp: ni_def)
  have lr: "rd (log_ptr g') (get_segment_id g' vi - segment_count g') = Inr (log_row g vi)"
    using get_segment_id_seg_of [OF shp v(1)] sg w by (simp add: f log_row_def)
  define g'' where "g'' = g'\<lparr>vertices := upd (vertices g') vi (x\<lparr>v_index := ni, v_offset := -1\<rparr>)\<rparr>"
  have sv: "set_vertex g' vi (x\<lparr>v_index := ni, v_offset := -1\<rparr>) = Inr g''"
    using v w f(8) by (simp add: set_vertex_def g''_def)
  have l': "(if off g vi \<noteq> -1
            then sbind (rd (log_ptr g') (get_segment_id g' vi - segment_count g')) (\<lambda>row.
                 resize_log row log_fuel (off g vi) (ni + deg g vi - 1) ne1)
            else Inr ne1) = Inr ne2"
    using l(1) by (cases "off g vi = -1") (simp_all add: lr)
  have run: "resize_vertex ns vi g' ne = Inr (g'', ne2)"
    unfolding resize_vertex_def rx sbind_simps nvb Let_def xd on rn c(1) l' sv by (rule refl)
  have inside: "cells ne2 ni (deg g vi) = vlist g vi"
  proof (rule cells_append_nth_eq)
    show "length (vlist g vi) = nat (deg g vi)" by (rule length_vlist [OF wf_layoutD(2) [OF lay v]])
    fix i assume i: "ni \<le> i" "i < ni + deg g vi"
    have i0: "0 \<le> i" "i < len ne" using i r f(9) by (auto simp: ni_def)
    show "cell ne2 i = vlist g vi ! nat (i - ni)"
    proof (cases "i < ni + onseg g vi")
      case True
      then have "nat (i - ni) < nat (onseg g vi)" using i by simp
      then show ?thesis using True i c1 [OF i0] c2 [OF i0(1)] k by (simp add: vlist_def nth_append algebra_simps)
    next
      case False
      then have ix: "k - Suc (nat (i - ni) - nat (onseg g vi)) = nat (ni + deg g vi - 1 - i)"
        "nat (i - ni) - nat (onseg g vi) < k" "\<not> nat (i - ni) < nat (onseg g vi)"
        using k i ok by linarith+
      have "vlist g vi ! nat (i - ni) = rev (chain_vals (log_row g vi) k (off g vi)) ! (nat (i - ni) - nat (onseg g vi))"
        unfolding vlist_def k_def using ix(3) by (simp only: nth_append length_cells if_False)
      also have "\<dots> = chain_vals (log_row g vi) k (off g vi) ! (k - Suc (nat (i - ni) - nat (onseg g vi)))"
        using ix(2) by (simp only: rev_nth length_chain_vals)
      finally show ?thesis using i False c2 [OF i0(1)] k ix(1) by simp
    qed
  qed
  have outside: "cell ne2 i = cell ne i" if "0 \<le> i" "i < ni" for i
    using c1 [of i] c2 [of i] that k ok r f(9) by (simp add: ni_def)
  have "resizing g ns (vi + 1) g'' ne2"
    unfolding resizing_def
  proof (intro conjI allI impI)
    show "\<exists>vs. g'' = g\<lparr>elem_capacity := elem_capacity g * 2, vertices := vs\<rparr> \<and> len vs = len (vertices g)"
      using I by (auto simp: resizing_def g''_def)
    show "len ne2 = elem_capacity g * 2" using l(2) c(2) f(9) by simp
  next
    fix u assume u: "0 \<le> u \<and> u < vi + 1"
    show "cell (vertices g'') u = (cell (vertices g) u)\<lparr>v_index := cell ns u, v_offset := -1\<rparr>"
      using u f(8) f(12) [of u] v w by (cases "u = vi") (auto simp: g''_def x_def ni_def)
    show "cells ne2 (cell ns u) (deg g u) = vlist g u"
    proof (cases "u = vi")
      case True
      then show ?thesis using inside by (simp add: ni_def)
    next
      case False
      then have u': "0 \<le> u" "u < vi" "u < num_vertices g" using u v by auto
      have "cells ne2 (cell ns u) (deg g u) = cells ne (cell ns u) (deg g u)"
        using new_places_range(1) [OF N u'(1,3)] new_places_range(3) [OF N u'(1,3) u'(2) v(2)] u'
        by (intro cells_cong outside) (auto simp: ni_def)
      then show ?thesis using f(13) u' by simp
    qed
  next
    fix u assume "vi + 1 \<le> u \<and> u < num_vertices g"
    then show "cell (vertices g'') u = cell (vertices g) u" using f(11) [of u] v by (simp add: g''_def)
  qed
  with run show ?thesis by blast
qed

lemma resize_loop_ok:
  assumes N: "new_places g ns" and last: "off g (num_vertices g - 1) = -1"
    and I: "resizing g ns vi g' ne" and v: "0 \<le> vi" "vi \<le> num_vertices g"
  shows "\<exists>g'' ne'. resize_loop ns (num_vertices g) (g', ne) vi = Inr (g'', ne') \<and> resizing g ns (num_vertices g) g'' ne'"
  using I v
proof (induction "nat (num_vertices g - vi)" arbitrary: vi g' ne)
  case 0
  then show ?case by (subst resize_loop.simps) auto
next
  case (Suc n)
  then have lt: "vi < num_vertices g" by simp
  obtain g1 ne1 where s: "resize_vertex ns vi g' ne = Inr (g1, ne1)" "resizing g ns (vi + 1) g1 ne1"
    using resize_vertex_ok [OF N Suc.prems(1,2) lt] last by blast
  have "\<exists>g'' ne'. resize_loop ns (num_vertices g) (g1, ne1) (vi + 1) = Inr (g'', ne') \<and> resizing g ns (num_vertices g) g'' ne'"
    using Suc lt s(2) by (intro Suc.hyps(1)) auto
  then show ?case using lt s(1) by (subst resize_loop.simps) simp
qed

text \<open>The last vertex with logged edges: the copy would read up to the end of the doubled array.\<close>

lemma resize_last_fault:
  assumes W: "wf_layout g" and I: "resizing g ns (num_vertices g - 1) g' ne" and ln: "len ns = num_vertices g"
    and last: "off g (num_vertices g - 1) \<noteq> -1"
  shows "resize_vertex ns (num_vertices g - 1) g' ne = Inl OutOfBounds"
proof -
  note shp = wf_layoutD(1) [OF W] and f = resizingD [OF I]
  note w = wf_shapeD [OF shp]
  have v: "0 \<le> num_vertices g - 1" using w by simp
  define x where "x = cell (vertices g) (num_vertices g - 1)"
  have rx: "rd (vertices g') (num_vertices g - 1) = Inr x" using f(11) [of "num_vertices g - 1"] v w(4) f(8) by (simp add: x_def)
  have rn: "rd ns (num_vertices g - 1) = Inr (cell ns (num_vertices g - 1))" using v ln by simp
  have pos: "0 < elem_capacity g"
    using vertex_okD(1,2,5) [OF wf_layoutD(2) [OF W v]] by (simp add: start_def)
  have "copy_cells (edges g') (v_index x) ne ni (elem_capacity g * 2 - 1 - v_index x + 1) = Inl OutOfBounds" for ni
    using pos w(5) by (simp add: copy_cells_def f)
  then show ?thesis
    using last unfolding resize_vertex_def rx sbind_simps
    by (simp add: f rn x_def off_def)
qed

lemma resize_loop_fault:
  assumes N: "new_places g ns" and last: "off g (num_vertices g - 1) \<noteq> -1"
    and I: "resizing g ns vi g' ne" and v: "0 \<le> vi" "vi \<le> num_vertices g - 1"
  shows "resize_loop ns (num_vertices g) (g', ne) vi = Inl OutOfBounds"
  using I v
proof (induction "nat (num_vertices g - vi)" arbitrary: vi g' ne)
  case 0
  then show ?case by simp
next
  case (Suc n)
  show ?case
  proof (cases "vi = num_vertices g - 1")
    case True
    have "resize_vertex ns vi g' ne = Inl OutOfBounds"
      using N Suc.prems(1) last unfolding True
      by (intro resize_last_fault) (auto simp: new_places_def positions_fit_def)
    then show ?thesis using Suc.prems by (subst resize_loop.simps) simp
  next
    case False
    then obtain g1 ne1 where s: "resize_vertex ns vi g' ne = Inr (g1, ne1)" "resizing g ns (vi + 1) g1 ne1"
      using resize_vertex_ok [OF N Suc.prems(1,2)] Suc.prems(3) by fastforce
    have "resize_loop ns (num_vertices g) (g1, ne1) (vi + 1) = Inl OutOfBounds"
      using Suc False s(2) by (intro Suc.hyps(1)) auto
    then show ?thesis using Suc.prems s(1) by (subst resize_loop.simps) simp
  qed
qed

section \<open>The resized graph\<close>

definition resized :: "dgraph \<Rightarrow> dgraph \<Rightarrow> bool" where
  "resized g g' \<longleftrightarrow> wf g' \<and> elem_capacity g' = elem_capacity g * 2 \<and>
     num_vertices g' = num_vertices g \<and> num_edges g' = num_edges g \<and>
     segment_size g' = segment_size g \<and> segment_count g' = segment_count g \<and>
     tree_height g' = tree_height g \<and> delta_up g' = delta_up g \<and> leaf_segments g' = leaf_segments g \<and>
     ulog_ptr g' = ulog_ptr g \<and> oplog_ptr g' = oplog_ptr g \<and>
     (\<forall>v. 0 \<le> v \<and> v < num_vertices g \<longrightarrow> vlist g' v = vlist g v) \<and>
     (\<forall>i. 0 \<le> i \<and> i < segment_count g \<longrightarrow> cell (log_segment_idx g') i = 0)"

text \<open>From the arrays the loop leaves to the invariant.\<close>

lemma resized_intro:
  assumes W: "wf g" and N: "new_places g ns" and I: "resizing g ns (num_vertices g) g1 ne"
    and f: "vertices g3 = vertices g1" "edges g3 = ne" "num_vertices g3 = num_vertices g"
      "elem_capacity g3 = elem_capacity g * 2" "segment_size g3 = segment_size g"
      "segment_count g3 = segment_count g" "num_edges g3 = num_edges g"
      "segment_edges_actual g3 = segment_edges_actual g" "tree_height g3 = tree_height g"
      "delta_up g3 = delta_up g" "leaf_segments g3 = leaf_segments g" "ulog_ptr g3 = ulog_ptr g"
      "oplog_ptr g3 = oplog_ptr g"
    and shp3: "wf_shape g3"
    and z: "\<And>i. 0 \<le> i \<Longrightarrow> i < segment_count g \<Longrightarrow> cell (log_segment_idx g3) i = 0"
    and t: "\<And>i. 0 \<le> i \<Longrightarrow> i < segment_count g \<Longrightarrow> cell (segment_edges_total g3) (i + segment_count g)
       = start g3 ((i + 1) * segment_size g) - start g3 (i * segment_size g)"
  shows "resized g g3"
proof -
  note lay = wfD(1) [OF W] and shp = wfD(2) [OF W] and c = wfD(4) [OF W, unfolded counts_ok_def]
  have nv: "0 < num_vertices g" using wf_shapeD [OF shp] by simp
  have fld: "deg g3 v = deg g v" "idx g3 v = cell ns v" "off g3 v = -1" if "0 \<le> v" "v < num_vertices g" for v
    using resizingD(12) [OF I that] by (simp_all add: deg_def idx_def off_def f)
  have on: "onseg g3 v = deg g v" if "0 \<le> v" "v < num_vertices g" for v
    using fld [OF that] by (simp add: onseg_def)
  have st: "start g3 v = (if v < num_vertices g then cell ns v else elem_capacity g * 2)" if "0 \<le> v" for v
    using fld [of v] that by (simp add: start_def f)
  have vok: "vertex_ok g3 v" if v: "0 \<le> v" "v < num_vertices g" for v
    using new_places_range [OF N v] new_places_range(3) [OF N v, of "v + 1"] v fld [OF v] on [OF v]
      vertex_okD(4) [OF wf_layoutD(2) [OF lay v]] by (simp add: vertex_ok_def st)
  have vl: "vlist g3 v = vlist g v" if v: "0 \<le> v" "v < num_vertices g" for v
    using resizingD(13) [OF I v] fld [OF v] on [OF v] by (simp add: vlist_def f)
  have ds: "degsum g3 x y = degsum g x y" if "0 \<le> x" "y \<le> num_vertices g" for x y
    using that by (intro degsum_cong fld) auto
  have "counts_ok g3"
    unfolding counts_ok_def
  proof (intro conjI allI impI)
    show "num_edges g3 = degsum g3 0 (num_vertices g3)" using c ds by (simp add: f)
    show "idx g3 0 = 0" using fld(2) [of 0] nv N by (simp add: new_places_def)
    fix i assume i: "0 \<le> i \<and> i < segment_count g3"
    then have "0 \<le> i * segment_size g" "(i + 1) * segment_size g \<le> num_vertices g"
      using seg_mult_range [OF shp, of i "i + 1"] by (auto simp: f)
    then show "cell (segment_edges_actual g3) (i + segment_count g3)
          = degsum g3 (i * segment_size g3) ((i + 1) * segment_size g3)"
      using c i ds by (simp add: f)
    show "cell (segment_edges_total g3) (i + segment_count g3)
          = start g3 ((i + 1) * segment_size g3) - start g3 (i * segment_size g3)"
      using t i by (simp add: f)
  qed
  moreover have "wf_layout g3" using shp3 vok by (simp add: wf_layout_def f)
  moreover have "log_ok g3"
    using fld(3) z seg_of_range [OF shp] by (simp add: log_ok_def f seg_of_def)
  ultimately show ?thesis using vl z by (simp add: resized_def wf_def f)
qed

text \<open>The positions the resized graph gets, and the state its loop starts in.\<close>

lemma resize_positions:
  assumes W: "wf g" and cap: "elem_capacity g * 2 \<le> 2 ^ 24" and room: "num_edges g < elem_capacity g * 2"
  defines "gd \<equiv> g\<lparr>elem_capacity := elem_capacity g * 2\<rparr>"
  obtains ns where "calculate_positions gd 0 (num_vertices g) (elem_capacity g * 2 - num_edges g) (num_edges g) = Inr ns"
    and "new_places g ns" and "resizing g ns 0 gd (replicate (nat (elem_capacity g * 2)) 0)"
proof -
  note lay = wfD(1) [OF W] and shp = wfD(2) [OF W] and c = wfD(4) [OF W, unfolded counts_ok_def]
  note w = wf_shapeD [OF shp]
  have nv: "0 < num_vertices g" using w by simp
  have vok: "vertex_ok g v" if "0 \<le> v" "v < num_vertices g" for v using that lay by (intro wf_layoutD)
  have gd: "deg gd = deg g" "idx gd = idx g" "degsum gd = degsum g" "positions_fit gd = positions_fit g"
    "vertices gd = vertices g" "num_vertices gd = num_vertices g"
    by (simp_all add: gd_def deg_def idx_def degsum_def positions_fit_def fun_eq_iff)
  have "\<exists>ns. calculate_positions gd 0 (num_vertices g) (elem_capacity g * 2 - num_edges g) (degsum gd 0 (num_vertices g)) = Inr ns
           \<and> positions_fit gd 0 (num_vertices g) (elem_capacity g * 2) ns \<and> cell ns 0 = idx gd 0"
  proof (rule calculate_positions_ok)
    show "1 \<le> deg gd v" if "0 \<le> v" "v < num_vertices g" for v using vertex_okD(4) [OF vok [OF that]] by (simp add: gd)
    show "index_boundary gd (num_vertices g) = Inr (elem_capacity g * 2)" by (simp add: index_boundary_def gd_def)
  qed (use nv w(4) c cap room in \<open>simp_all add: gd\<close>)
  then obtain ns where ns: "calculate_positions gd 0 (num_vertices g) (elem_capacity g * 2 - num_edges g) (num_edges g) = Inr ns"
    and N: "new_places g ns"
    using c lay by (auto simp: gd new_places_def)
  have capge: "0 \<le> elem_capacity g" using len_nonneg [of "edges g"] w(5) by simp
  have "resizing g ns 0 gd (replicate (nat (elem_capacity g * 2)) 0)"
    using capge by (auto simp: resizing_def gd_def intro!: exI [of _ "vertices g"])
  then show thesis using that ns N by blast
qed

lemma resize_V1_fault:
  assumes W: "wf g" and last: "off g (num_vertices g - 1) \<noteq> -1" and cap: "elem_capacity g * 2 \<le> 2 ^ 24"
    and room: "num_edges g < elem_capacity g * 2"
  shows "resize_V1 g = Inl OutOfBounds"
proof -
  obtain ns where ns: "calculate_positions (g\<lparr>elem_capacity := elem_capacity g * 2\<rparr>) 0 (num_vertices g)
        (elem_capacity g * 2 - num_edges g) (num_edges g) = Inr ns"
    and N: "new_places g ns"
    and I: "resizing g ns 0 (g\<lparr>elem_capacity := elem_capacity g * 2\<rparr>) (replicate (nat (elem_capacity g * 2)) 0)"
    using resize_positions [OF W cap room] .
  have "0 \<le> num_vertices g - 1" using wf_shapeD [OF wfD(2) [OF W]] by simp
  then have "resize_loop ns (num_vertices g) (g\<lparr>elem_capacity := elem_capacity g * 2\<rparr>,
      replicate (nat (elem_capacity g * 2)) 0) 0 = Inl OutOfBounds"
    by (intro resize_loop_fault [OF N last I]) auto
  then show ?thesis using ns by (simp add: resize_V1_def Let_def)
qed

lemma resize_V1_ok:
  assumes W: "wf g" and last: "off g (num_vertices g - 1) = -1" and cap: "elem_capacity g * 2 \<le> 2 ^ 24"
    and room: "num_edges g < elem_capacity g * 2"
  shows "\<exists>g'. resize_V1 g = Inr g' \<and> resized g g'"
proof -
  note shp = wfD(2) [OF W]
  note w = wf_shapeD [OF shp]
  have nv: "0 < num_vertices g" using w by simp
  define gd where "gd = g\<lparr>elem_capacity := elem_capacity g * 2\<rparr>"
  obtain ns where ns: "calculate_positions gd 0 (num_vertices g) (elem_capacity g * 2 - num_edges g) (num_edges g) = Inr ns"
    and N: "new_places g ns" and I0: "resizing g ns 0 gd (replicate (nat (elem_capacity g * 2)) 0)"
    using resize_positions [OF W cap room] unfolding gd_def .
  obtain g1 ne where loop: "resize_loop ns (num_vertices g) (gd, replicate (nat (elem_capacity g * 2)) 0) 0 = Inr (g1, ne)"
    and I: "resizing g ns (num_vertices g) g1 ne"
    using resize_loop_ok [OF N last I0] nv by auto
  obtain vs where g1: "g1 = g\<lparr>elem_capacity := elem_capacity g * 2, vertices := vs\<rparr>" "len vs = len (vertices g)"
    using I by (auto simp: resizing_def)
  define g2 where "g2 = (flush FlEdgesOid ((flush (FlEdges 0 (elem_capacity g1)) g1)\<lparr>edges := ne\<rparr>))
     \<lparr>segment_edges_total := replicate (nat (segment_count g * 2)) 0\<rparr>"
  have shp2: "wf_shape g2"
    using shp g1(2) resizingD(9) [OF I] w(2)
    by (auto simp: wf_shape_def g2_def g1(1) flush_def)
  have sc2: "segment_count g2 = segment_count g" "segment_size g2 = segment_size g" by (simp_all add: g2_def g1)
  obtain xs where rec: "recount_total_range g2 0 (segment_count g) = Inr (g2\<lparr>segment_edges_total := xs\<rparr>)"
      "len xs = len (segment_edges_total g2)"
    and xs: "\<And>i. 0 \<le> i \<Longrightarrow> i < segment_count g \<Longrightarrow> cell xs (i + segment_count g) =
        start g2 ((i + 1) * segment_size g) - start g2 (i * segment_size g)"
    using recount_total_range_ok [OF shp2, of 0 "segment_count g"] w(2) by (auto simp: sc2)
  define gl where "gl = flush FlCapacity (g2\<lparr>segment_edges_total := xs\<rparr>)"
  have glf: "segment_count gl = segment_count g" "log_ptr gl = log_ptr g" "log_segment_idx gl = log_segment_idx g"
    by (simp_all add: gl_def g2_def g1)
  obtain g3 where rel: "release_logs gl (0 + segment_count g) (segment_count g + segment_count g) = Inr g3"
    and lf: "logs_frame gl g3" and z: "\<And>i. 0 \<le> i \<Longrightarrow> i < segment_count g \<Longrightarrow> cell (log_segment_idx g3) i = 0"
    and rl: "\<And>i. 0 \<le> i \<Longrightarrow> len (cell (log_ptr g3) i) = len (cell (log_ptr g) i)"
    using release_logs_ok [of 0 "segment_count g" gl] wf_shape_rows [OF shp] w by (auto simp: glf)
  note lff = logs_frameD [OF lf]
  have tot: "recount_segment_total (flush FlEdgesOid ((flush (FlEdges 0 (elem_capacity g1)) g1)\<lparr>edges := ne\<rparr>))
      = Inr (g2\<lparr>segment_edges_total := xs\<rparr>)"
    using rec(1) by (simp add: recount_segment_total_def g2_def g1)
  have "resize_V1 g = release_logs gl (segment_count gl) (2 * segment_count gl)"
    using ns loop tot unfolding resize_V1_def Let_def gd_def [symmetric]
    by (simp add: gd_def gl_def)
  then have run: "resize_V1 g = Inr g3" using rel by (simp only: glf mult_2 add_0)
  have "resized g g3"
  proof (rule resized_intro [OF W N I])
    show "wf_shape g3"
      using shp2 rec(2) rl z lff wf_shape_rows(1) [OF shp]
      by (simp add: wf_shape_def gl_def sc2) (simp add: g2_def g1 MAX_LOG_ENTRIES_def)
    show "cell (segment_edges_total g3) (i + segment_count g)
       = start g3 ((i + 1) * segment_size g) - start g3 (i * segment_size g)" if "0 \<le> i" "i < segment_count g" for i
    proof -
      have "start g3 v = start g2 v" for v by (rule start_cong) (simp_all add: lff gl_def)
      then show ?thesis using xs [OF that] by (simp add: lff gl_def)
    qed
    show "cell (log_segment_idx g3) i = 0" if "0 \<le> i" "i < segment_count g" for i by (rule z [OF that])
  qed (simp_all add: lff gl_def g2_def g1)
  with run show ?thesis by blast
qed

end
