(* ===== verification/DgapThreshold.thy ===== *)
theory DgapThreshold
  imports DgapInsert
begin

text \<open>
  The density tests of \<^verbatim>\<open>insert\<close> in double arithmetic: rounding is monotone; a segment is at density
  1 exactly when it has as many edges as cells; a window below its threshold has a free cell; the
  thresholds fall with the height, so the same edges and cells that miss the threshold of the root
  miss the one computed above it.
\<close>

section \<open>Rounding is monotone\<close>

lemma rnd_even_mono:
  assumes "x \<le> y"
  shows "rnd_even x \<le> rnd_even y"
proof (cases "\<lfloor>x\<rfloor> = \<lfloor>y\<rfloor>")
  case True
  then show ?thesis using assms by (auto simp: rnd_even_def Let_def)
next
  case False
  then have "\<lfloor>x\<rfloor> + 1 \<le> \<lfloor>y\<rfloor>" using floor_mono [OF assms] by simp
  moreover have "rnd_even x \<le> \<lfloor>x\<rfloor> + 1" by (auto simp: rnd_even_def Let_def)
  moreover have "\<lfloor>y\<rfloor> \<le> rnd_even y" by (auto simp: rnd_even_def Let_def)
  ultimately show ?thesis by simp
qed

lemma ilog2_mono:
  assumes "0 < x" "x \<le> y"
  shows "ilog2 x \<le> ilog2 y"
proof (rule ccontr)
  assume a: "\<not> ilog2 x \<le> ilog2 y"
  have "y < 2 powi (ilog2 y + 1)" using ilog2_bounds(2) [of y] assms by simp
  also have "\<dots> \<le> 2 powi (ilog2 x)" using a by (intro power_int_increasing) auto
  also have "\<dots> \<le> x" using ilog2_bounds(1) [of x] assms by simp
  finally show False using assms by simp
qed

lemma fl_mono:
  assumes x: "0 \<le> x" and xy: "x \<le> y"
  shows "fl x \<le> fl y"
proof (cases "x = 0")
  case True
  then show ?thesis using fl_nonneg [of y] xy by simp
next
  case False
  then have x0: "0 < x" "0 < y" using x xy by auto
  show ?thesis
  proof (cases "f64_exp x = f64_exp y")
    case True
    have "x * 2 powi (- f64_exp x) \<le> y * 2 powi (- f64_exp x)" using xy by (intro mult_right_mono) auto
    from rnd_even_mono [OF this] have "(of_int (rnd_even (x * 2 powi (- f64_exp x))) :: rat)
        \<le> of_int (rnd_even (y * 2 powi (- f64_exp x)))" by simp
    then have "of_int (rnd_even (x * 2 powi (- f64_exp x))) * 2 powi (f64_exp x)
        \<le> (of_int (rnd_even (y * 2 powi (- f64_exp x))) * 2 powi (f64_exp x) :: rat)"
      by (intro mult_right_mono) auto
    then show ?thesis using x0 True by (simp add: fl_def)
  next
    case False
    then have e: "ilog2 x < ilog2 y" "- 1074 \<le> ilog2 y"
      using ilog2_mono [OF x0(1) xy] by (auto simp: f64_exp_def max_def split: if_splits)
    have "x \<le> 2 powi (ilog2 x + 1)" using ilog2_bounds(2) [of x] x0 by simp
    also have "\<dots> \<le> 2 powi (ilog2 y)" using e by (intro power_int_increasing) auto
    finally have "fl x \<le> 2 powi (ilog2 y)" using x e by (intro fl_le_pow2)
    also have "\<dots> \<le> fl y" using ilog2_bounds(1) [of y] x0 e by (intro fl_ge_pow2) auto
    finally show ?thesis .
  qed
qed

section \<open>Densities\<close>

lemma density_of_Fin:
  assumes "0 \<le> used" "used \<le> 2 ^ 30" "0 < tot" "tot \<le> 2 ^ 30"
  shows "density_of used tot = Fin (fl (of_int used / of_int tot))"
proof -
  have "(of_int used / of_int tot :: rat) \<le> of_int used / 1"
    using assms by (intro divide_left_mono) auto
  also have "\<dots> \<le> 2 powi 62" 
  proof -
    have "(of_int used :: rat) \<le> of_int (2 ^ 30)" using assms(2) by (simp only: of_int_le_iff)
    also have "\<dots> \<le> 2 powi 62" by simp
    finally show ?thesis by simp
  qed
  finally show ?thesis
    using assms by (simp add: density_of_def f64_of_int_small mk_f64_small)
qed

text \<open>Below one exactly when a cell is free.\<close>

lemma fl_density_less_1:
  assumes "0 \<le> used" "used < tot" "tot \<le> 2 ^ 30"
  shows "fl (of_int used / of_int tot) < 1"
proof -
  have t: "(0::rat) < of_int tot" using assms by simp
  have "(of_int used :: rat) \<le> of_int tot - 1"
    using assms(2) by (metis (mono_tags) int_le_real_less of_int_1 of_int_diff of_int_le_iff zle_diff1_eq)
  then have "of_int used / of_int tot \<le> (of_int tot - 1) / (of_int tot :: rat)"
    using t by (intro divide_right_mono) auto
  also have "\<dots> = 1 - 1 / of_int tot" using t by (simp add: diff_divide_distrib)
  also have "\<dots> \<le> 1 - 1 / 2 ^ 30"
  proof -
    have "(of_int tot :: rat) \<le> of_int (2 ^ 30)" using assms(3) by (simp only: of_int_le_iff)
    then have "(1 / 2 ^ 30 :: rat) \<le> 1 / of_int tot" using t by (intro divide_left_mono) auto
    then show ?thesis by simp
  qed
  finally have le: "of_int used / of_int tot \<le> (1 - 1 / 2 ^ 30 :: rat)" .
  have "fl (of_int used / of_int tot) \<le> fl (1 - 1 / 2 ^ 30)"
    using assms t by (intro fl_mono le) auto
  also have "\<dots> = 1 - 1 / 2 ^ 30"
    by (rule fl_exact [where m = "2 ^ 30 - 1" and k = "-30"]) (simp_all add: power_int_minus)
  also have "\<dots> < (1::rat)" by simp
  finally show ?thesis .
qed

lemma fl_density_ge_1:
  assumes "0 < tot" "tot \<le> used"
  shows "1 \<le> fl (of_int used / of_int tot)"
proof -
  have "(1::rat) \<le> of_int used / of_int tot" using assms by (simp add: pos_le_divide_eq)
  then show ?thesis using fl_ge_pow2 [of 0 "of_int used / of_int tot"] by simp
qed

lemma density_ge_up_0:
  assumes "0 \<le> used" "used \<le> 2 ^ 30" "0 < tot" "tot \<le> 2 ^ 30"
  shows "f64_ge (density_of used tot) up_0 \<longleftrightarrow> tot \<le> used"
  using fl_density_less_1 [of used tot] fl_density_ge_1 [of tot used] assms
  by (cases "used < tot") (auto simp: density_of_Fin f64_ge_def up_0_def)

lemma density_less_up_0:
  assumes "0 \<le> used" "used \<le> 2 ^ 30" "0 < tot" "tot \<le> 2 ^ 30"
  shows "f64_less (density_of used tot) up_0 \<longleftrightarrow> used < tot"
  using fl_density_less_1 [of used tot] fl_density_ge_1 [of tot used] assms
  by (cases "used < tot") (auto simp: density_of_Fin up_0_def)

section \<open>Thresholds\<close>

definition delta_up_of :: "int \<Rightarrow> f64" where
  "delta_up_of th = f64_div (f64_sub up_0 up_h) (f64_of_int th)"

lemma up_0_minus_up_h: "f64_sub up_0 up_h = Fin (1 / 4)"
proof -
  have "fl (1 / 4) = (1 / 4 :: rat)" by (rule fl_exact [where m = 1 and k = "-2"]) (simp_all add: power_int_minus)
  moreover have "(1 / 4 :: rat) \<le> 2 powi 62" by simp
  ultimately show ?thesis by (simp add: f64_sub_def up_0_def up_h_def mk_f64_small)
qed

lemma delta_up_of_0: "delta_up_of 0 = PInf"
  by (simp add: delta_up_of_def up_0_minus_up_h f64_of_int_small)

lemma delta_up_of_pos:
  assumes "0 < th" "th \<le> 2 ^ 20"
  obtains d where "delta_up_of th = Fin d" "0 \<le> d" "d \<le> 1 / 4" "of_int (th + 1) * d \<le> 1" "of_int th * d \<le> 3 / 8"
proof -
  define q where "q = (1 / 4 :: rat) / of_int th"
  have t: "(1::rat) \<le> of_int th" using assms by simp
  have t20: "(of_int th :: rat) \<le> of_int (2 ^ 20)" using assms(2) by (simp only: of_int_le_iff)
  have q: "0 \<le> q" "q \<le> 1 / 4" using t by (simp_all add: q_def field_simps)
  have "(1 / 4 :: rat) / of_int (2 ^ 20) \<le> q" unfolding q_def using t t20 by (intro divide_left_mono) auto
  moreover have "(2::rat) powi - 26 \<le> 1 / 4 / of_int (2 ^ 20)" by (simp add: power_int_minus)
  ultimately have lo: "(2::rat) powi - 26 \<le> q" by linarith
  have up: "fl q \<le> q * (1 + 1 / 2 ^ 53)"
  proof -
    have "\<bar>fl q - q\<bar> \<le> \<bar>q\<bar> / 2 ^ 53" by (rule fl_error [of "-26"]) (use lo q in auto)
    then have "fl q - q \<le> q / 2 ^ 53" using q(1) by linarith
    then show ?thesis by (simp only: distrib_left) simp
  qed
  have "q \<le> 2 powi 62" using q(2) by (rule order_trans) simp
  then have "mk_f64 q = Fin (fl q)" using q(1) by (intro mk_f64_small)
  then have "delta_up_of th = Fin (fl q)"
    using assms t by (simp add: delta_up_of_def up_0_minus_up_h f64_of_int_small q_def)
  moreover have "0 \<le> fl q" using q by (intro fl_nonneg)
  moreover have "fl q \<le> 1 / 4" using fl_le_pow2 [of q "-2"] q by (simp add: power_int_minus)
  moreover have "of_int (th + 1) * fl q \<le> 1"
  proof -
    have "of_int (th + 1) * fl q \<le> (2 * of_int th) * (q * 2)"
      using up q t fl_nonneg [OF q(1)] by (intro mult_mono) auto
    also have "\<dots> = 1" using t by (simp add: q_def)
    finally show ?thesis .
  qed
  moreover have "of_int th * fl q \<le> 3 / 8"
  proof -
    have "of_int th * fl q \<le> of_int th * (q * (3 / 2))" using up q t by (intro mult_left_mono) auto
    also have "\<dots> = 3 / 8" using t by (simp add: q_def)
    finally show ?thesis .
  qed
  ultimately show thesis using that by blast
qed

lemma up_height_Fin:
  assumes "delta_up g = Fin d" "0 \<le> d" "0 \<le> h" "h \<le> 2 ^ 30" "of_int h * d \<le> 1"
  shows "up_height g h = Fin (fl (1 - fl (of_int h * d)))" "0 \<le> fl (of_int h * d)" "fl (of_int h * d) \<le> 1"
proof -
  have hd: "0 \<le> of_int h * d" using assms by simp
  have one: "(1::rat) \<le> 2 powi 62" by simp
  show f: "0 \<le> fl (of_int h * d)" "fl (of_int h * d) \<le> 1"
    using fl_nonneg [OF hd] fl_le_pow2 [of "of_int h * d" 0] hd assms(5) by auto
  have "f64_mul (f64_of_int h) (Fin d) = Fin (fl (of_int h * d))"
    using assms hd one by (simp add: f64_of_int_small mk_f64_small)
  then show "up_height g h = Fin (fl (1 - fl (of_int h * d)))"
    using f one by (simp add: up_height_def assms(1) up_0_def f64_sub_def mk_f64_small)
qed

text \<open>A window below its threshold has a free cell.\<close>

lemma below_threshold:
  assumes d: "delta_up g = delta_up_of th" and th: "0 \<le> th" "th \<le> 2 ^ 20" and h: "1 \<le> h" "h \<le> th + 1"
    and u: "0 \<le> used" "used \<le> 2 ^ 30" "0 < tot" "tot \<le> 2 ^ 30"
    and less: "f64_less (density_of used tot) (up_height g h)"
  shows "used < tot"
proof (cases "th = 0")
  case True
  then have "up_height g h = MInf"
    using d h by (simp add: up_height_def delta_up_of_0 f64_of_int_small up_0_def f64_sub_def f64_sgn_inf_def)
  then show ?thesis using less density_of_Fin [OF u] by simp
next
  case False
  then obtain d' where d': "delta_up_of th = Fin d'" "0 \<le> d'" "d' \<le> 1 / 4" "of_int (th + 1) * d' \<le> 1"
    using delta_up_of_pos [of th] th by auto
  have "(of_int h :: rat) \<le> of_int (th + 1)" using h(2) by (simp only: of_int_le_iff)
  then have "of_int h * d' \<le> of_int (th + 1) * d'" using d'(2) by (intro mult_right_mono) auto
  then have hd: "of_int h * d' \<le> 1" using d'(4) by linarith
  have up: "up_height g h = Fin (fl (1 - fl (of_int h * d')))" "0 \<le> fl (of_int h * d')" "fl (of_int h * d') \<le> 1"
    by (rule up_height_Fin; use d d' h th hd in simp)+
  have "fl (1 - fl (of_int h * d')) \<le> 1" using fl_le_pow2 [of "1 - fl (of_int h * d')" 0] up by simp
  then have "fl (of_int used / of_int tot) < 1" using less up(1) density_of_Fin [OF u] by simp
  then show ?thesis using fl_density_ge_1 [of tot used] u by (auto simp: not_less [symmetric])
qed

text \<open>An array that is at most half full is below the threshold of the root.\<close>

lemma half_full_below_root:
  assumes d: "delta_up g = delta_up_of th" and th: "1 \<le> th" "th \<le> 2 ^ 20"
    and u: "0 \<le> used" "2 * used \<le> tot" "0 < tot" "tot \<le> 2 ^ 30"
  shows "f64_less (density_of used tot) (up_height g th)"
proof -
  obtain d' where d': "delta_up_of th = Fin d'" "0 \<le> d'" "d' \<le> 1 / 4" "of_int (th + 1) * d' \<le> 1" "of_int th * d' \<le> 3 / 8"
    using delta_up_of_pos [of th] th by auto
  have hd: "0 \<le> of_int th * d'" using d' th by simp
  have "(3 / 8 :: rat) = of_int 3 * 2 powi - 3" "(5 / 8 :: rat) = of_int 5 * 2 powi - 3" by (simp_all add: power_int_minus)
  then have e: "fl (3 / 8) = (3 / 8 :: rat)" "fl (5 / 8) = (5 / 8 :: rat)"
    using fl_exact [of 3 "-3" "3 / 8"] fl_exact [of 5 "-3" "5 / 8"] by simp_all
  have up: "up_height g th = Fin (fl (1 - fl (of_int th * d')))"
    by (rule up_height_Fin) (use d d' th in simp_all)
  have "fl (of_int th * d') \<le> 3 / 8" using fl_mono [OF hd d'(5)] e by simp
  then have "5 / 8 \<le> fl (1 - fl (of_int th * d'))" using fl_mono [of "5 / 8" "1 - fl (of_int th * d')"] e by simp
  moreover have "fl (of_int used / of_int tot) \<le> 1 / 2"
  proof -
    have "(of_int (2 * used) :: rat) \<le> of_int tot" using u(2) by (simp only: of_int_le_iff)
    then have "(of_int used / of_int tot :: rat) \<le> 2 powi - 1" using u(3) by (simp add: power_int_minus field_simps)
    then have "fl (of_int used / of_int tot) \<le> 2 powi - 1" using u by (intro fl_le_pow2) simp_all
    then show ?thesis by (simp add: power_int_minus)
  qed
  moreover have "used \<le> 2 ^ 30" using u by simp
  ultimately show ?thesis using density_of_Fin [of used tot] u by (simp add: up)
qed

text \<open>The threshold computed one step above the root is not above the one of the root.\<close>

lemma threshold_above_root:
  assumes d: "delta_up g = delta_up_of th" and th: "0 \<le> th" "th \<le> 2 ^ 20"
    and u: "0 \<le> used" "used \<le> 2 ^ 30" "0 < tot" "tot \<le> 2 ^ 30"
    and less: "f64_less (density_of used tot) (up_height g (th + 1))"
  shows "0 < th \<and> f64_less (density_of used tot) (up_height g th)"
proof (cases "th = 0")
  case True
  then have "up_height g (th + 1) = MInf"
    using d by (simp add: up_height_def delta_up_of_0 f64_of_int_small up_0_def f64_sub_def f64_sgn_inf_def)
  then show ?thesis using less density_of_Fin [OF u] by simp
next
  case False
  then obtain d' where d': "delta_up_of th = Fin d'" "0 \<le> d'" "d' \<le> 1 / 4" "of_int (th + 1) * d' \<le> 1"
    using delta_up_of_pos [of th] th by auto
  have le: "of_int th * d' \<le> of_int (th + 1) * d'" using d'(2) by (intro mult_right_mono) auto
  have a: "up_height g (th + 1) = Fin (fl (1 - fl (of_int (th + 1) * d')))" "fl (of_int (th + 1) * d') \<le> 1"
    by (rule up_height_Fin; use d d' th in simp)+
  have b: "up_height g th = Fin (fl (1 - fl (of_int th * d')))"
    by (rule up_height_Fin) (use d d' th le in auto)
  have "fl (of_int th * d') \<le> fl (of_int (th + 1) * d')" using d' th le by (intro fl_mono) auto
  then have "fl (1 - fl (of_int (th + 1) * d')) \<le> fl (1 - fl (of_int th * d'))"
    using a(2) by (intro fl_mono) auto
  then show ?thesis using False th less a(1) b density_of_Fin [OF u] by simp
qed

end
