(* ===== verification/DgapLocksOk.thy ===== *)
theory DgapLocksOk
  imports DgapResizeOk DgapThreshold
begin

text \<open>
  The lock discipline of a window: \<^verbatim>\<open>lock_in_batch\<close> takes free locks and sums the counters of the
  window, \<^verbatim>\<open>unlock_in_batch\<close> gives them back, and the climb of \<^verbatim>\<open>insert\<close> ends with the locks of a sparse
  window or with none.
\<close>

section \<open>Changing leaves only\<close>

lemma leaf_upd [simp]:
  "idx (g\<lparr>leaf_segments := ls\<rparr>) = idx g" "deg (g\<lparr>leaf_segments := ls\<rparr>) = deg g"
  "off (g\<lparr>leaf_segments := ls\<rparr>) = off g" "start (g\<lparr>leaf_segments := ls\<rparr>) = start g"
  "onseg (g\<lparr>leaf_segments := ls\<rparr>) = onseg g" "seg_of (g\<lparr>leaf_segments := ls\<rparr>) = seg_of g"
  "log_row (g\<lparr>leaf_segments := ls\<rparr>) = log_row g" "vlist (g\<lparr>leaf_segments := ls\<rparr>) = vlist g"
  "vertex_ok (g\<lparr>leaf_segments := ls\<rparr>) = vertex_ok g" "degsum (g\<lparr>leaf_segments := ls\<rparr>) = degsum g"
  "get_segment_id (g\<lparr>leaf_segments := ls\<rparr>) = get_segment_id g"
  "seg_actual (g\<lparr>leaf_segments := ls\<rparr>) = seg_actual g" "seg_total (g\<lparr>leaf_segments := ls\<rparr>) = seg_total g"
  "room_ok (g\<lparr>leaf_segments := ls\<rparr>) = room_ok g" "ulog_ready tid (g\<lparr>leaf_segments := ls\<rparr>) = ulog_ready tid g"
  "log_ok (g\<lparr>leaf_segments := ls\<rparr>) = log_ok g" "counts_ok (g\<lparr>leaf_segments := ls\<rparr>) = counts_ok g"
  "up_height (g\<lparr>leaf_segments := ls\<rparr>) = up_height g"
  by (auto simp: fun_eq_iff idx_def deg_def off_def start_def onseg_def seg_of_def log_row_def vlist_def
      vertex_ok_def degsum_def get_segment_id_def seg_actual_def seg_total_def room_ok_def ulog_ready_def
      log_ok_def counts_ok_def up_height_def)

lemma leaf_upd_wf [simp]:
  "len ls = len (leaf_segments g) \<Longrightarrow> wf_shape (g\<lparr>leaf_segments := ls\<rparr>) = wf_shape g"
  "len ls = len (leaf_segments g) \<Longrightarrow> wf (g\<lparr>leaf_segments := ls\<rparr>) = wf g"
proof -
  assume l: "len ls = len (leaf_segments g)"
  show a: "wf_shape (g\<lparr>leaf_segments := ls\<rparr>) = wf_shape g" using l by (simp add: wf_shape_def)
  show "wf (g\<lparr>leaf_segments := ls\<rparr>) = wf g" by (simp add: wf_def wf_layout_def a)
qed

section \<open>Locking and unlocking a window\<close>

lemma set_leaf_ok [simp]:
  "0 \<le> i \<Longrightarrow> i < len (leaf_segments g) \<Longrightarrow>
   set_leaf g i x = Inr (g\<lparr>leaf_segments := upd (leaf_segments g) i x\<rparr>)"
  by (simp add: set_leaf_def)

lemma leaf_updates:
  "(x::PMALeafSegment)\<lparr>lf_locked := b\<rparr> = \<lparr>lf_locked = b, on_rebalance = on_rebalance x\<rparr>"
  "(x::PMALeafSegment)\<lparr>on_rebalance := n\<rparr> = \<lparr>lf_locked = lf_locked x, on_rebalance = n\<rparr>"
  by simp_all

text \<open>One round of each loop.\<close>

lemma lock_one:
  assumes "0 \<le> i" "i < len (leaf_segments g)" "\<not> lf_locked (cell (leaf_segments g) i)"
  shows "sbind (if i \<noteq> src then add_on_rebalance g i 1 else Inr g) (\<lambda>g. sbind (mutex_lock g i) f)
    = f (g\<lparr>leaf_segments := upd (leaf_segments g) i \<lparr>lf_locked = True,
         on_rebalance = on_rebalance (cell (leaf_segments g) i) + (if i = src then 0 else 1)\<rparr>\<rparr>)"
  using assms by (cases "i = src") (simp_all add: add_on_rebalance_def mutex_lock_def leaf_updates)

lemma unlock_one:
  assumes "0 \<le> i" "i < len (leaf_segments g)" "lf_locked (cell (leaf_segments g) i)"
  shows "sbind (if Some i \<noteq> src then add_on_rebalance g i (-1) else Inr g) (\<lambda>g. sbind (mutex_unlock g i) f)
    = f (g\<lparr>leaf_segments := upd (leaf_segments g) i \<lparr>lf_locked = False,
         on_rebalance = on_rebalance (cell (leaf_segments g) i) - (if Some i = src then 0 else 1)\<rparr>\<rparr>)"
  using assms by (cases "Some i = src") (simp_all add: add_on_rebalance_def mutex_unlock_def leaf_updates)

lemma lock_in_batch_ok:
  assumes "wf_shape g" "0 \<le> i" "i \<le> r" "r \<le> segment_count g"
    and "\<And>j. i \<le> j \<Longrightarrow> j < r \<Longrightarrow> \<not> lf_locked (cell (leaf_segments g) j)"
  shows "\<exists>ls. lock_in_batch i r src (g, u, t) =
        Inr (g\<lparr>leaf_segments := ls\<rparr>, u + (\<Sum>j\<in>{i..<r}. seg_actual g j), t + (\<Sum>j\<in>{i..<r}. seg_total g j)) \<and>
     len ls = len (leaf_segments g) \<and>
     (\<forall>j. 0 \<le> j \<longrightarrow> cell ls j = (if i \<le> j \<and> j < r
        then \<lparr>lf_locked = True, on_rebalance = on_rebalance (cell (leaf_segments g) j) + (if j = src then 0 else 1)\<rparr>
        else cell (leaf_segments g) j))"
  using assms
proof (induction "nat (r - i)" arbitrary: i g u t)
  case 0
  then have "i = r" by simp
  then show ?case by (subst lock_in_batch.simps) (auto intro!: exI [of _ "leaf_segments g"])
next
  case (Suc n)
  have ir: "i < r" using Suc.hyps(2) by simp
  note w = wf_shapeD [OF Suc.prems(1)]
  have il: "i < len (leaf_segments g)" "i < segment_count g" using ir Suc.prems(4) w by auto
  have i2: "i + segment_count g < len (segment_edges_actual g)" "i + segment_count g < len (segment_edges_total g)"
    "0 \<le> i + segment_count g" using il Suc.prems(2) w by auto
  define x where "x = cell (leaf_segments g) i"
  define y where "y = \<lparr>lf_locked = True, on_rebalance = on_rebalance x + (if i = src then 0 else 1)\<rparr>"
  define g1 where "g1 = g\<lparr>leaf_segments := upd (leaf_segments g) i y\<rparr>"
  have nl: "\<not> lf_locked x" using Suc.prems(5) [of i] ir by (simp add: x_def)
  have step: "lock_in_batch i r src (g, u, t)
      = lock_in_batch (i + 1) r src (g1, u + seg_actual g i, t + seg_total g i)"
    unfolding lock_in_batch.simps [of i r src "(g, u, t)"] fst_conv snd_conv
      lock_one [OF Suc.prems(2) il(1) nl [unfolded x_def]]
    using ir i2 by (simp add: g1_def y_def x_def seg_actual_def seg_total_def)
  have "\<exists>ls. lock_in_batch (i + 1) r src (g1, u + seg_actual g i, t + seg_total g i) =
        Inr (g1\<lparr>leaf_segments := ls\<rparr>, u + seg_actual g i + (\<Sum>j\<in>{i + 1..<r}. seg_actual g1 j),
          t + seg_total g i + (\<Sum>j\<in>{i + 1..<r}. seg_total g1 j)) \<and>
     len ls = len (leaf_segments g1) \<and>
     (\<forall>j. 0 \<le> j \<longrightarrow> cell ls j = (if i + 1 \<le> j \<and> j < r
        then \<lparr>lf_locked = True, on_rebalance = on_rebalance (cell (leaf_segments g1) j) + (if j = src then 0 else 1)\<rparr>
        else cell (leaf_segments g1) j))"
    by (rule Suc.hyps(1)) (use Suc.hyps(2) Suc.prems ir in \<open>auto simp: g1_def\<close>)
  then obtain ls where r: "lock_in_batch (i + 1) r src (g1, u + seg_actual g i, t + seg_total g i) =
        Inr (g\<lparr>leaf_segments := ls\<rparr>, u + seg_actual g i + (\<Sum>j\<in>{i + 1..<r}. seg_actual g j),
          t + seg_total g i + (\<Sum>j\<in>{i + 1..<r}. seg_total g j))"
     and l: "len ls = len (leaf_segments g)"
     and c: "\<And>j. 0 \<le> j \<Longrightarrow> cell ls j = (if i + 1 \<le> j \<and> j < r
        then \<lparr>lf_locked = True, on_rebalance = on_rebalance (cell (leaf_segments g1) j) + (if j = src then 0 else 1)\<rparr>
        else cell (leaf_segments g1) j)"
    by (auto simp: g1_def)
  show ?case
  proof (intro exI conjI allI impI)
    show "lock_in_batch i r src (g, u, t) =
        Inr (g\<lparr>leaf_segments := ls\<rparr>, u + (\<Sum>j\<in>{i..<r}. seg_actual g j), t + (\<Sum>j\<in>{i..<r}. seg_total g j))"
      using step r ir by (simp add: sum_int_Suc [of i r] add.assoc)
    show "len ls = len (leaf_segments g)" by (rule l)
    fix j :: int assume j: "0 \<le> j"
    show "cell ls j = (if i \<le> j \<and> j < r
        then \<lparr>lf_locked = True, on_rebalance = on_rebalance (cell (leaf_segments g) j) + (if j = src then 0 else 1)\<rparr>
        else cell (leaf_segments g) j)"
      using c [OF j] j il ir Suc.prems(2) by (cases "j = i") (auto simp: g1_def y_def x_def)
  qed
qed

lemma unlock_in_batch_ok:
  assumes "0 \<le> l" "l \<le> i + 1" "i < len (leaf_segments g)"
    and "\<And>j. l \<le> j \<Longrightarrow> j \<le> i \<Longrightarrow> lf_locked (cell (leaf_segments g) j)"
  shows "\<exists>ls. unlock_in_batch l i src g = Inr (g\<lparr>leaf_segments := ls\<rparr>) \<and> len ls = len (leaf_segments g) \<and>
     (\<forall>j. 0 \<le> j \<longrightarrow> cell ls j = (if l \<le> j \<and> j \<le> i
        then \<lparr>lf_locked = False, on_rebalance = on_rebalance (cell (leaf_segments g) j) - (if Some j = src then 0 else 1)\<rparr>
        else cell (leaf_segments g) j))"
  using assms
proof (induction "nat (i + 1 - l)" arbitrary: i g)
  case 0
  then have n: "\<not> l \<le> i" by simp
  have "unlock_in_batch l i src g = Inr g" by (subst unlock_in_batch.simps) (simp add: n)
  then show ?case by (intro exI [of _ "leaf_segments g"]) (use n in auto)
next
  case (Suc n)
  have il: "l \<le> i" using Suc.hyps(2) by simp
  define x where "x = cell (leaf_segments g) i"
  define y where "y = \<lparr>lf_locked = False, on_rebalance = on_rebalance x - (if Some i = src then 0 else 1)\<rparr>"
  define g1 where "g1 = g\<lparr>leaf_segments := upd (leaf_segments g) i y\<rparr>"
  have lk: "lf_locked x" using Suc.prems(4) [of i] il by (simp add: x_def)
  have "0 \<le> i" using il Suc.prems(1) by simp
  note one = unlock_one [OF this Suc.prems(3) lk [unfolded x_def]]
  have step: "unlock_in_batch l i src g = unlock_in_batch l (i - 1) src g1"
    unfolding unlock_in_batch.simps [of l i src g] one using il by (simp only: if_True g1_def y_def x_def)
  have "\<exists>ls. unlock_in_batch l (i - 1) src g1 = Inr (g1\<lparr>leaf_segments := ls\<rparr>) \<and> len ls = len (leaf_segments g1) \<and>
     (\<forall>j. 0 \<le> j \<longrightarrow> cell ls j = (if l \<le> j \<and> j \<le> i - 1
        then \<lparr>lf_locked = False, on_rebalance = on_rebalance (cell (leaf_segments g1) j) - (if Some j = src then 0 else 1)\<rparr>
        else cell (leaf_segments g1) j))"
    by (rule Suc.hyps(1)) (use Suc.hyps(2) Suc.prems il in \<open>auto simp: g1_def\<close>)
  then obtain ls where r: "unlock_in_batch l (i - 1) src g1 = Inr (g\<lparr>leaf_segments := ls\<rparr>)"
     and ll: "len ls = len (leaf_segments g)"
     and c: "\<And>j. 0 \<le> j \<Longrightarrow> cell ls j = (if l \<le> j \<and> j \<le> i - 1
        then \<lparr>lf_locked = False, on_rebalance = on_rebalance (cell (leaf_segments g1) j) - (if Some j = src then 0 else 1)\<rparr>
        else cell (leaf_segments g1) j)" by (auto simp: g1_def)
  show ?case
  proof (intro exI conjI allI impI)
    show "unlock_in_batch l i src g = Inr (g\<lparr>leaf_segments := ls\<rparr>)" using step r by simp
    show "len ls = len (leaf_segments g)" by (rule ll)
    fix j :: int assume j: "0 \<le> j"
    show "cell ls j = (if l \<le> j \<and> j \<le> i
        then \<lparr>lf_locked = False, on_rebalance = on_rebalance (cell (leaf_segments g) j) - (if Some j = src then 0 else 1)\<rparr>
        else cell (leaf_segments g) j)"
      using c [OF j] j il Suc.prems by (cases "j = i") (auto simp: g1_def y_def x_def)
  qed
qed

section \<open>Counters of a window\<close>

lemma degsum_split:
  "a \<le> b \<Longrightarrow> b \<le> c \<Longrightarrow> degsum g a c = degsum g a b + degsum g b c"
  unfolding degsum_def by (subst sum.union_disjoint [symmetric]) (auto intro: sum.cong)

lemma seg_sums:
  assumes W: "wf g" and "0 \<le> a" "a \<le> b" "b \<le> segment_count g"
  shows "(\<Sum>j\<in>{a..<b}. seg_actual g j) = degsum g (a * segment_size g) (b * segment_size g)"
    "(\<Sum>j\<in>{a..<b}. seg_total g j) = start g (b * segment_size g) - start g (a * segment_size g)"
  using assms(2-4)
proof (induction "nat (b - a)" arbitrary: a)
  case 0
  { case 1 then show ?case using 0 by (simp add: degsum_def) }
  { case 2 then show ?case using 0 by simp }
next
  case (Suc n)
  have z: "0 < segment_size g" using wf_shapeD(1) [OF wfD(2) [OF W]] .
  have ab: "a < b" using Suc.hyps(3) by simp
  {
    case 1
    have le: "a * segment_size g \<le> (a + 1) * segment_size g" "(a + 1) * segment_size g \<le> b * segment_size g"
      using z ab by (auto intro!: mult_right_mono simp del: mult_le_cancel_right)
    have "(\<Sum>j\<in>{a + 1..<b}. seg_actual g j) = degsum g ((a + 1) * segment_size g) (b * segment_size g)"
      using Suc.hyps(3) 1 ab by (intro Suc.hyps(1)) auto
    then show ?case
      using seg_counts(1) [OF W, of a] 1 ab degsum_split [OF le] by (simp add: sum_int_Suc)
  next
    case 2
    have "(\<Sum>j\<in>{a + 1..<b}. seg_total g j) = start g (b * segment_size g) - start g ((a + 1) * segment_size g)"
      using Suc.hyps(3) 2 ab by (intro Suc.hyps(2)) auto
    then show ?case
      using seg_counts(2) [OF W, of a] 2 ab by (simp add: sum_int_Suc)
  }
qed

end
