(* ===== verification/DgapClimbOk.thy ===== *)
theory DgapClimbOk
  imports DgapLocksOk
begin

text \<open>
  \<^verbatim>\<open>insert(src, dst)\<close> and \<^verbatim>\<open>rebalance_all\<close> as a whole.
\<close>

section \<open>The PMA parameters\<close>

definition pma_ok :: "dgraph \<Rightarrow> bool" where
  "pma_ok g \<longleftrightarrow> 0 \<le> tree_height g \<and> segment_count g = 2 ^ nat (tree_height g) \<and>
     delta_up g = delta_up_of (tree_height g)"

text \<open>The locks between two operations, and during the climb of segment \<open>cur\<close>.\<close>

definition quiet :: "dgraph \<Rightarrow> bool" where
  "quiet g \<longleftrightarrow> (\<forall>j. 0 \<le> j \<and> j < segment_count g \<longrightarrow> cell (leaf_segments g) j = new_leaf)"

definition parked :: "int \<Rightarrow> dgraph \<Rightarrow> bool" where
  "parked cur g \<longleftrightarrow> (\<forall>j. 0 \<le> j \<and> j < segment_count g \<longrightarrow>
     cell (leaf_segments g) j = \<lparr>lf_locked = False, on_rebalance = (if j = cur then 1 else 0)\<rparr>)"

definition holding :: "int \<Rightarrow> int \<Rightarrow> dgraph \<Rightarrow> bool" where
  "holding a b g \<longleftrightarrow> (\<forall>j. 0 \<le> j \<and> j < segment_count g \<longrightarrow>
     cell (leaf_segments g) j = (if a \<le> j \<and> j < b then \<lparr>lf_locked = True, on_rebalance = 1\<rparr> else new_leaf))"

text \<open>What one thread finds and leaves between its operations.\<close>

definition inv :: "dgraph \<Rightarrow> bool" where
  "inv g \<longleftrightarrow> wf g \<and> pma_ok g \<and> quiet g \<and> 2 \<le> elem_capacity g \<and> (\<forall>i. 0 \<le> i \<and> i < segment_count g \<longrightarrow> room_ok g i)"

section \<open>Bounds on the counters\<close>

lemma no_log_degsum:
  assumes "wf_layout g" "0 \<le> a" "a \<le> b" "b \<le> num_vertices g"
    and "\<And>v. a \<le> v \<Longrightarrow> v < b \<Longrightarrow> off g v = -1"
  shows "degsum g a b \<le> start g b - start g a"
  using assms(2,3,5)
proof (induction "nat (b - a)" arbitrary: a)
  case 0
  then show ?case by (simp add: degsum_def)
next
  case (Suc n)
  then have ab: "a < b" by simp
  have ok: "vertex_ok g a" using Suc.prems ab assms(1,4) by (intro wf_layoutD) auto
  have "deg g a \<le> start g (a + 1) - start g a"
    using vertex_okD(5) [OF ok] Suc.prems(3) [of a] ab assms(4) by (simp add: onseg_def start_idx)
  moreover have "degsum g (a + 1) b \<le> start g b - start g (a + 1)"
    using Suc ab by (intro Suc.hyps(1)) auto
  ultimately show ?case using ab by (simp add: degsum_def sum_int_Suc)
qed

lemma seg_le:
  assumes W: "wf g" and i: "0 \<le> i" "i < segment_count g" and room: "room_ok g i"
  shows "seg_actual g i \<le> seg_total g i"
proof (cases "0 < cell (log_segment_idx g) i")
  case True
  then show ?thesis using room by (simp add: room_ok_def)
next
  case False
  note shp = wfD(2) [OF W] and lay = wfD(1) [OF W]
  note r = seg_mult_range [OF shp i(1), of "i + 1"]
  have "degsum g (i * segment_size g) ((i + 1) * segment_size g)
      \<le> start g ((i + 1) * segment_size g) - start g (i * segment_size g)"
  proof (rule no_log_degsum [OF lay])
    fix v assume v: "i * segment_size g \<le> v" "v < (i + 1) * segment_size g"
    then have v': "0 \<le> v" "v < num_vertices g" using r i by auto
    have "seg_of g v = i" using seg_of_iff(1) [OF shp, of i v] seg_of_iff(2) [OF shp, of v "i + 1"] v by simp
    then have "off g v < cell (log_segment_idx g) i" using wfD(3) [OF W] v' by (auto simp: log_ok_def)
    moreover have "-1 \<le> off g v"
      using vertex_okD(6) [OF wf_layoutD(2) [OF lay v']] chain_ok_bound by blast
    ultimately show "off g v = -1" using False by simp
  qed (use r i in auto)
  then show ?thesis using seg_counts [OF W i] by simp
qed

lemma edges_le_cap:
  assumes W: "wf g" and room: "\<And>i. 0 \<le> i \<Longrightarrow> i < segment_count g \<Longrightarrow> room_ok g i"
  shows "num_edges g \<le> elem_capacity g"
proof -
  note shp = wfD(2) [OF W] and c = wfD(4) [OF W, unfolded counts_ok_def]
  note w = wf_shapeD [OF shp]
  have "(\<Sum>j\<in>{0..<segment_count g}. seg_actual g j) \<le> (\<Sum>j\<in>{0..<segment_count g}. seg_total g j)"
    using seg_le [OF W _ _ room] by (intro sum_mono) auto
  moreover have "0 < num_vertices g" using w by simp
  then have "start g 0 = 0" "start g (num_vertices g) = elem_capacity g"
    using c by (auto simp: start_def)
  ultimately show ?thesis using seg_sums [OF W, of 0 "segment_count g"] c w by simp
qed

lemma start_strict:
  assumes "wf_layout g" "0 \<le> a" "a < b" "b \<le> num_vertices g"
  shows "start g a < start g b"
proof -
  have ok: "vertex_ok g a" using assms by (intro wf_layoutD) auto
  have "start g a < start g (a + 1)" using vertex_okD(2,5) [OF ok] assms by (simp add: start_idx)
  also have "\<dots> \<le> start g b" using assms by (intro start_mono) auto
  finally show ?thesis .
qed

lemma degsum_mono:
  assumes "wf_layout g" "0 \<le> a" "a \<le> b" "b \<le> num_vertices g"
  shows "degsum g a b \<le> degsum g 0 (num_vertices g)"
proof -
  have "degsum g 0 (num_vertices g) = degsum g 0 a + degsum g a b + degsum g b (num_vertices g)"
    using degsum_split [of 0 a "num_vertices g" g] degsum_split [of a b "num_vertices g" g] assms by simp
  moreover have "0 \<le> degsum g 0 a" "0 \<le> degsum g b (num_vertices g)"
    using assms by (auto intro!: degsum_nonneg)
  ultimately show ?thesis by simp
qed

text \<open>The numbers a density is computed from stay far below \<open>2\<^sup>3\<^sup>0\<close>.\<close>

lemma window_counts:
  assumes W: "wf g" and ab: "0 \<le> a" "a < b" "b \<le> segment_count g"
    and cap: "elem_capacity g \<le> 2 ^ 24" "num_edges g \<le> 2 ^ 25"
  shows "0 \<le> degsum g (a * segment_size g) (b * segment_size g)"
    "degsum g (a * segment_size g) (b * segment_size g) \<le> 2 ^ 30"
    "0 < start g (b * segment_size g) - start g (a * segment_size g)"
    "start g (b * segment_size g) - start g (a * segment_size g) \<le> 2 ^ 30"
proof -
  note shp = wfD(2) [OF W] and lay = wfD(1) [OF W]
  note r = seg_mult_range [OF shp ab] and c = wfD(4) [OF W, unfolded counts_ok_def]
  have b0: "0 \<le> b * segment_size g" using r by linarith
  show "0 \<le> degsum g (a * segment_size g) (b * segment_size g)" using r by (intro degsum_nonneg [OF lay]) auto
  have "degsum g (a * segment_size g) (b * segment_size g) \<le> num_edges g"
    using degsum_mono [OF lay, of "a * segment_size g" "b * segment_size g"] r c by simp
  then show "degsum g (a * segment_size g) (b * segment_size g) \<le> 2 ^ 30" using cap by simp
  show "0 < start g (b * segment_size g) - start g (a * segment_size g)"
    using start_strict [OF lay, of "a * segment_size g" "b * segment_size g"] r by simp
  have "start g (b * segment_size g) \<le> elem_capacity g" by (rule start_le_cap [OF lay b0 r(3)])
  moreover have "0 \<le> start g (a * segment_size g)"
    using start_mono [OF lay, of 0 "a * segment_size g"] r b0 start_idx [of 0 g] c wf_shapeD [OF shp] by auto
  ultimately show "start g (b * segment_size g) - start g (a * segment_size g) \<le> 2 ^ 30" using cap by simp
qed

section \<open>Windows\<close>

definition seg_lo :: "dgraph \<Rightarrow> int \<Rightarrow> int \<Rightarrow> int" where
  "seg_lo g h src = seg_of g src div 2 ^ nat h * 2 ^ nat h"

definition seg_hi :: "dgraph \<Rightarrow> int \<Rightarrow> int \<Rightarrow> int" where
  "seg_hi g h src = min (seg_lo g h src + 2 ^ nat h) (segment_count g)"

lemma seg_window:
  assumes "wf_shape g" "0 \<le> src" "src < num_vertices g"
  shows "0 \<le> seg_lo g h src" "seg_lo g h src \<le> seg_of g src" "seg_of g src < seg_hi g h src"
    "seg_hi g h src \<le> segment_count g"
    "window_left g h src = seg_lo g h src * segment_size g"
    "window_right g h src = seg_hi g h src * segment_size g"
proof -
  note sg = seg_of_range [OF assms] and w = wf_shapeD [OF assms(1)]
  have p: "(0::int) < 2 ^ nat h" by simp
  show lo: "0 \<le> seg_lo g h src" using sg p by (simp add: seg_lo_def pos_imp_zdiv_nonneg_iff)
  show "seg_lo g h src \<le> seg_of g src" using p by (simp add: seg_lo_def minus_mod_eq_div_mult [symmetric])
  have "seg_of g src < seg_lo g h src + 2 ^ nat h"
    using pos_mod_bound [OF p, of "seg_of g src"] div_mult_mod_eq [of "seg_of g src" "2 ^ nat h"]
    unfolding seg_lo_def by linarith
  then show "seg_of g src < seg_hi g h src" using sg by (simp add: seg_hi_def)
  show "seg_hi g h src \<le> segment_count g" by (simp add: seg_hi_def)
  have "cdiv src (segment_size g * 2 ^ nat h) = seg_of g src div 2 ^ nat h"
    using assms(2) w(1) by (simp add: seg_of_def zdiv_zmult2_eq)
  then show l: "window_left g h src = seg_lo g h src * segment_size g"
    by (simp add: window_left_def seg_lo_def Let_def mult.commute mult.left_commute)
  have "window_right g h src = min ((seg_lo g h src + 2 ^ nat h) * segment_size g) (segment_count g * segment_size g)"
    by (simp add: window_right_def l w(3) algebra_simps)
  also have "\<dots> = seg_hi g h src * segment_size g"
    using w(1) by (simp add: seg_hi_def min_mult_distrib_right)
  finally show "window_right g h src = seg_hi g h src * segment_size g" .
qed

lemma seg_window_root:
  assumes "wf_shape g" "0 \<le> src" "src < num_vertices g" "pma_ok g" "tree_height g \<le> h"
  shows "seg_lo g h src = 0" "seg_hi g h src = segment_count g"
proof -
  have le: "segment_count g \<le> 2 ^ nat h"
    using assms(4,5) by (simp add: pma_ok_def)
  then show "seg_lo g h src = 0" using seg_of_range [OF assms(1-3)] by (simp add: seg_lo_def)
  then show "seg_hi g h src = segment_count g" using le by (simp add: seg_hi_def)
qed

lemma window_ids:
  assumes "wf_shape g" "0 \<le> src" "src < num_vertices g"
  shows "get_segment_id g (window_left g h src) - segment_count g = seg_lo g h src"
    "get_segment_id g (window_right g h src) - segment_count g = seg_hi g h src"
  using seg_window [OF assms, of h] get_segment_id_mult [OF assms(1)] by simp_all

lemma window_fn_leaf [simp]:
  "window_left (g\<lparr>leaf_segments := ls\<rparr>) = window_left g" "window_right (g\<lparr>leaf_segments := ls\<rparr>) = window_right g"
  by (simp_all add: fun_eq_iff window_left_def window_right_def)

section \<open>The climb\<close>

text \<open>The record the climb returns: the sums of a window below its threshold, at its height.\<close>

definition good_window :: "dgraph \<Rightarrow> int \<Rightarrow> window_result \<Rightarrow> bool" where
  "good_window g src w \<longleftrightarrow> 0 < wr_window w \<and> 1 \<le> wr_height w \<and>
     wr_used w = degsum g (seg_lo g (wr_height w) src * segment_size g) (seg_hi g (wr_height w) src * segment_size g) \<and>
     wr_total w = start g (seg_hi g (wr_height w) src * segment_size g) - start g (seg_lo g (wr_height w) src * segment_size g) \<and>
     wr_used w < wr_total w"

lemma lock_window:
  assumes W: "wf g" and s: "0 \<le> src" "src < num_vertices g" and P: "parked (seg_of g src) g"
  shows "\<exists>ls. lock_in_batch (seg_lo g h src) (seg_hi g h src) (seg_of g src) (g, 0, 0) =
      Inr (g\<lparr>leaf_segments := ls\<rparr>, degsum g (seg_lo g h src * segment_size g) (seg_hi g h src * segment_size g),
        start g (seg_hi g h src * segment_size g) - start g (seg_lo g h src * segment_size g)) \<and>
      len ls = len (leaf_segments g) \<and> holding (seg_lo g h src) (seg_hi g h src) (g\<lparr>leaf_segments := ls\<rparr>)"
proof -
  note shp = wfD(2) [OF W] and w = seg_window [OF wfD(2) [OF W] s, of h]
  have lh: "seg_lo g h src \<le> seg_hi g h src" using w by linarith
  have free: "\<not> lf_locked (cell (leaf_segments g) j)" if "seg_lo g h src \<le> j" "j < seg_hi g h src" for j
    using P that w by (simp add: parked_def)
  obtain ls where ls: "lock_in_batch (seg_lo g h src) (seg_hi g h src) (seg_of g src) (g, 0, 0) =
        Inr (g\<lparr>leaf_segments := ls\<rparr>, (\<Sum>j\<in>{seg_lo g h src..<seg_hi g h src}. seg_actual g j),
          (\<Sum>j\<in>{seg_lo g h src..<seg_hi g h src}. seg_total g j))" "len ls = len (leaf_segments g)"
    and c: "\<And>j. 0 \<le> j \<Longrightarrow> cell ls j = (if seg_lo g h src \<le> j \<and> j < seg_hi g h src
        then \<lparr>lf_locked = True, on_rebalance = on_rebalance (cell (leaf_segments g) j) + (if j = seg_of g src then 0 else 1)\<rparr>
        else cell (leaf_segments g) j)"
    using lock_in_batch_ok [OF shp w(1) lh w(4) free, of "seg_of g src" 0 0] by auto
  have "holding (seg_lo g h src) (seg_hi g h src) (g\<lparr>leaf_segments := ls\<rparr>)"
    using c P w(2,3) by (auto simp: holding_def parked_def new_leaf_def)
  then show ?thesis using ls seg_sums [OF W w(1) lh w(4)] by auto
qed

lemma unlock_window:
  assumes H: "holding a b g" and ab: "0 \<le> a" "a \<le> cur" "cur < b" "b \<le> segment_count g"
    and l: "len (leaf_segments g) = segment_count g"
  shows "\<exists>ls. unlock_in_batch a (b - 1) (Some cur) g = Inr (g\<lparr>leaf_segments := ls\<rparr>) \<and>
      len ls = len (leaf_segments g) \<and> parked cur (g\<lparr>leaf_segments := ls\<rparr>)"
    and "\<exists>ls. unlock_in_batch a (b - 1) None g = Inr (g\<lparr>leaf_segments := ls\<rparr>) \<and>
      len ls = len (leaf_segments g) \<and> quiet (g\<lparr>leaf_segments := ls\<rparr>)"
proof -
  have u: "\<exists>ls. unlock_in_batch a (b - 1) src g = Inr (g\<lparr>leaf_segments := ls\<rparr>) \<and> len ls = len (leaf_segments g) \<and>
     (\<forall>j. 0 \<le> j \<longrightarrow> cell ls j = (if a \<le> j \<and> j \<le> b - 1
        then \<lparr>lf_locked = False, on_rebalance = on_rebalance (cell (leaf_segments g) j) - (if Some j = src then 0 else 1)\<rparr>
        else cell (leaf_segments g) j))" for src
    using H ab l by (intro unlock_in_batch_ok) (auto simp: holding_def)
  show "\<exists>ls. unlock_in_batch a (b - 1) (Some cur) g = Inr (g\<lparr>leaf_segments := ls\<rparr>) \<and>
      len ls = len (leaf_segments g) \<and> parked cur (g\<lparr>leaf_segments := ls\<rparr>)"
    using u [of "Some cur"] H ab by (auto simp: parked_def holding_def new_leaf_def)
  show "\<exists>ls. unlock_in_batch a (b - 1) None g = Inr (g\<lparr>leaf_segments := ls\<rparr>) \<and>
      len ls = len (leaf_segments g) \<and> quiet (g\<lparr>leaf_segments := ls\<rparr>)"
    using u [of None] H ab by (auto simp: quiet_def holding_def new_leaf_def)
qed

lemma same_leaves: "g\<lparr>leaf_segments := ls\<rparr>\<lparr>leaf_segments := leaf_segments g\<rparr> = g"
  by simp

lemma parked_unique:
  assumes "parked cur (g\<lparr>leaf_segments := ls\<rparr>)" "parked cur g" "len ls = len (leaf_segments g)"
    and "len (leaf_segments g) = segment_count g"
  shows "ls = leaf_segments g"
proof (rule list_eq_cellI [OF assms(3)])
  fix j :: int assume "0 \<le> j" "j < len ls"
  then show "cell ls j = cell (leaf_segments g) j" using assms by (simp add: parked_def)
qed

lemma find_window_ok:
  assumes W: "wf g" and M: "pma_ok g" and th: "tree_height g \<le> 2 ^ 20" and s: "0 \<le> src" "src < num_vertices g"
    and P: "parked (seg_of g src) g" and cap: "elem_capacity g \<le> 2 ^ 24" "num_edges g \<le> 2 ^ 25"
    and h: "wr_window w = (seg_of g src + segment_count g) div 2 ^ nat (wr_height w)" "0 \<le> wr_height w" "wr_height w \<le> tree_height g + 1"
    and past: "0 < wr_height w \<Longrightarrow> tree_height g \<le> wr_height w \<Longrightarrow>
       \<not> f64_less (density_of (num_edges g) (elem_capacity g)) (up_height g (tree_height g))"
  shows "\<exists>g' w'. find_window src (get_segment_id g src) g w = Inr (g', w') \<and>
     (wr_window w' = 0 \<and> 0 < wr_height w' \<and> g' = g \<and>
       \<not> f64_less (density_of (num_edges g) (elem_capacity g)) (up_height g (tree_height g)) \<or>
      good_window g src w' \<and> (\<exists>ls. g' = g\<lparr>leaf_segments := ls\<rparr> \<and> len ls = len (leaf_segments g) \<and>
        holding (seg_lo g (wr_height w') src) (seg_hi g (wr_height w') src) g'))"
  using h past
proof (induction "nat (tree_height g + 1 - wr_height w)" arbitrary: w)
  case 0
  note shp = wfD(2) [OF W] and sg = seg_of_range [OF wfD(2) [OF W] s]
  have "wr_height w = tree_height g + 1" "0 \<le> tree_height g" using 0 M by (auto simp: pma_ok_def)
  moreover from this have "nat (wr_height w) = Suc (nat (tree_height g))" by simp
  then have "seg_of g src + segment_count g < 2 ^ nat (wr_height w)" using sg M by (simp add: pma_ok_def)
  ultimately have "wr_window w = 0" "0 < wr_height w" "tree_height g \<le> wr_height w" using sg "0.prems"(1) by auto
  then show ?case using "0.prems"(4) by (subst find_window.simps) auto
next
  case (Suc n)
  note shp = wfD(2) [OF W] and sg = seg_of_range [OF wfD(2) [OF W] s]
  note c = wfD(4) [OF W, unfolded counts_ok_def]
  have th0: "0 \<le> tree_height g" and sc: "segment_count g = 2 ^ nat (tree_height g)" and du: "delta_up g = delta_up_of (tree_height g)"
    using M by (auto simp: pma_ok_def)
  define h where "h = wr_height w + 1"
  have hr: "1 \<le> h" "h \<le> tree_height g + 1" using Suc.hyps(2) Suc.prems(2) by (auto simp: h_def)
  have pos: "0 < wr_window w"
  proof -
    have "(2::int) ^ nat (wr_height w) \<le> 2 ^ nat (tree_height g)" using hr by (intro power_increasing) (auto simp: h_def)
    also have "\<dots> \<le> seg_of g src + segment_count g" using sg sc by simp
    finally show ?thesis unfolding Suc.prems(1) by (simp add: pos_imp_zdiv_pos_iff)
  qed
  have half: "wr_window w div 2 = (seg_of g src + segment_count g) div 2 ^ nat h"
    using Suc.prems(1,2) by (simp add: h_def nat_add_distrib mult.commute flip: zdiv_zmult2_eq)
  let ?lo = "seg_lo g h src" and ?hi = "seg_hi g h src"
  let ?used = "degsum g (?lo * segment_size g) (?hi * segment_size g)"
  let ?tot = "start g (?hi * segment_size g) - start g (?lo * segment_size g)"
  define w1 where "w1 = \<lparr>wr_window = wr_window w div 2, wr_height = h, wr_used = ?used, wr_total = ?tot\<rparr>"
  note sw = seg_window [OF shp s, of h]
  have lohi: "?lo < ?hi" using sw(2,3) by linarith
  note cnt = window_counts [OF W sw(1) lohi sw(4) cap]
  obtain ls where L: "lock_in_batch ?lo ?hi (seg_of g src) (g, 0, 0) = Inr (g\<lparr>leaf_segments := ls\<rparr>, ?used, ?tot)"
    "len ls = len (leaf_segments g)" and H: "holding ?lo ?hi (g\<lparr>leaf_segments := ls\<rparr>)"
    using lock_window [OF W s P, of h] by blast
  have cur: "get_segment_id g src - segment_count g = seg_of g src"
    using get_segment_id_seg_of [OF shp s(1)] by simp
  obtain ls' where U: "unlock_in_batch ?lo (?hi - 1) (Some (seg_of g src)) (g\<lparr>leaf_segments := ls\<rparr>)
      = Inr (g\<lparr>leaf_segments := ls'\<rparr>)" and ls': "ls' = leaf_segments g"
  proof -
    have "\<exists>ls'. unlock_in_batch ?lo (?hi - 1) (Some (seg_of g src)) (g\<lparr>leaf_segments := ls\<rparr>)
      = Inr (g\<lparr>leaf_segments := ls'\<rparr>) \<and> len ls' = len (leaf_segments g) \<and> parked (seg_of g src) (g\<lparr>leaf_segments := ls'\<rparr>)"
      using unlock_window(1) [OF H sw(1,2,3)] sw(4) L(2) wf_shapeD(10) [OF shp] by auto
    then show thesis using that parked_unique [OF _ P _ wf_shapeD(10) [OF shp]] by blast
  qed
  have unfold_w: "find_window src (get_segment_id g src) g w =
     (if f64_less (density_of ?used ?tot) (up_height g h) then Inr (g\<lparr>leaf_segments := ls\<rparr>, w1)
      else find_window src (get_segment_id g src) g w1)"
    using pos L(1) U ls' unfolding find_window.simps [of src "get_segment_id g src" g w] Let_def
    by (simp add: h_def [symmetric] window_ids [OF shp s] cur w1_def)
  show ?case
  proof (cases "f64_less (density_of ?used ?tot) (up_height g h)")
    case True
    have less: "?used < ?tot"
      by (rule below_threshold [OF du th0 th hr cnt True])
    have "0 < wr_window w1"
    proof (rule ccontr)
      assume "\<not> 0 < wr_window w1"
      have top: "h = tree_height g + 1"
      proof (rule ccontr)
        assume "h \<noteq> tree_height g + 1"
        then have "(2::int) ^ nat h \<le> 2 ^ nat (tree_height g)" using hr by (intro power_increasing) auto
        also have "\<dots> \<le> seg_of g src + segment_count g" using sg sc by simp
        finally have "0 < (seg_of g src + segment_count g) div 2 ^ nat h" by (simp add: pos_imp_zdiv_pos_iff)
        then show False using \<open>\<not> 0 < wr_window w1\<close> half by (simp add: w1_def)
      qed
      have "0 < num_vertices g" using wf_shapeD [OF shp] by simp
      then have whole: "?used = num_edges g" "?tot = elem_capacity g"
        using seg_window_root [OF shp s M, of h] top c wf_shapeD(3) [OF shp] by (auto simp: start_def)
      have "0 < tree_height g \<and> f64_less (density_of ?used ?tot) (up_height g (tree_height g))"
        by (rule threshold_above_root [OF du th0 th cnt]) (use True top in simp)
      then show False using Suc.prems(4) top whole by (simp add: h_def)
    qed
    then have "good_window g src w1" using less hr by (simp add: good_window_def w1_def)
    then show ?thesis using True unfold_w L(2) H by (auto simp: w1_def)
  next
    case False
    have "\<exists>g' w'. find_window src (get_segment_id g src) g w1 = Inr (g', w') \<and>
     (wr_window w' = 0 \<and> 0 < wr_height w' \<and> g' = g \<and>
       \<not> f64_less (density_of (num_edges g) (elem_capacity g)) (up_height g (tree_height g)) \<or>
      good_window g src w' \<and> (\<exists>ls. g' = g\<lparr>leaf_segments := ls\<rparr> \<and> len ls = len (leaf_segments g) \<and>
        holding (seg_lo g (wr_height w') src) (seg_hi g (wr_height w') src) g'))"
    proof (rule Suc.hyps(1))
      show "n = nat (tree_height g + 1 - wr_height w1)" using Suc.hyps(2) by (simp add: w1_def h_def)
      show "wr_window w1 = (seg_of g src + segment_count g) div 2 ^ nat (wr_height w1)"
        using half by (simp add: w1_def)
      show "0 \<le> wr_height w1" "wr_height w1 \<le> tree_height g + 1" using hr by (auto simp: w1_def)
      assume "tree_height g \<le> wr_height w1"
      show "\<not> f64_less (density_of (num_edges g) (elem_capacity g)) (up_height g (tree_height g))"
      proof (cases "h = tree_height g")
        case True
        have "0 < num_vertices g" using wf_shapeD [OF shp] by simp
        then have whole: "?used = num_edges g" "?tot = elem_capacity g"
          using seg_window_root [OF shp s M, of h] True c wf_shapeD(3) [OF shp] by (auto simp: start_def)
        then show ?thesis using False True by simp
      next
        case ne: False
        then have top: "h = tree_height g + 1" using hr \<open>tree_height g \<le> wr_height w1\<close> by (simp add: w1_def)
        show ?thesis
        proof (cases "0 < wr_height w")
          case True
          then show ?thesis using Suc.prems(4) top by (simp add: h_def)
        next
          case w0: False
          then have t0: "tree_height g = 0" using top th0 Suc.prems(2) by (simp add: h_def)
          then have "up_height g (tree_height g) = up_height g 0" by simp
          then show ?thesis using t0 du
            by (simp add: up_height_def delta_up_of_0 f64_of_int_small f64_sub_def f64_sgn_inf_def up_0_def)
              (cases "density_of (num_edges g) (elem_capacity g)"; simp)
        qed
      qed
    qed
    then show ?thesis using False unfold_w by simp
  qed
qed

end
