(* ===== verification/DgapTopOk.thy ===== *)
theory DgapTopOk
  imports DgapClimbOk
begin

text \<open>
  \<^verbatim>\<open>insert(src, dst)\<close> and \<^verbatim>\<open>rebalance_all\<close>: what a caller sees of them.
\<close>

section \<open>Effect on the adjacency lists\<close>

text \<open>The new edge is the last of its source, everything else is as before.\<close>

definition appended :: "int \<Rightarrow> int \<Rightarrow> dgraph \<Rightarrow> dgraph \<Rightarrow> bool" where
  "appended src dst g g' \<longleftrightarrow> num_vertices g' = num_vertices g \<and> vlist g' src = vlist g src @ [dst] \<and>
     (\<forall>v. 0 \<le> v \<and> v < num_vertices g \<and> v \<noteq> src \<longrightarrow> vlist g' v = vlist g v)"

lemma invD:
  assumes "inv g"
  shows "wf g" "pma_ok g" "quiet g" "2 \<le> elem_capacity g" "0 \<le> i \<Longrightarrow> i < segment_count g \<Longrightarrow> room_ok g i"
  using assms by (auto simp: inv_def)

lemma pma_ok_cong:
  "tree_height g' = tree_height g \<Longrightarrow> segment_count g' = segment_count g \<Longrightarrow> delta_up g' = delta_up g \<Longrightarrow>
   pma_ok g' = pma_ok g"
  by (simp add: pma_ok_def)

lemma quiet_cong:
  "leaf_segments g' = leaf_segments g \<Longrightarrow> segment_count g' = segment_count g \<Longrightarrow> quiet g' = quiet g"
  by (simp add: quiet_def)

section \<open>Where insert doubles the array\<close>

text \<open>
  \<open>resize_point\<close> follows \<open>insert_edge\<close> up to its call of \<open>resize_V1\<close> and returns the graph that call gets, with
  all the locks of \<^verbatim>\<open>insert\<close> taken, or \<open>None\<close> when this insertion does not resize. \<open>resize_overruns\<close> says that
  it resizes and that the last vertex has edges in its log at that point.
\<close>

definition resize_entry :: "int \<Rightarrow> dgraph \<Rightarrow> window_result \<Rightarrow> dgraph option res" where
  "resize_entry current_segment g w =
     (if wr_height w = 0 \<or> wr_window w \<noteq> 0 then Inr None
      else sbind (segment_density g current_segment) (\<lambda>density.
           if f64_less density up_0 then Inr None
           else sbind (lock_in_batch 0 (segment_count g) (current_segment - segment_count g) (g, 0, 0)) (\<lambda>(g, _, _).
                Inr (Some g))))"

definition resize_point :: "int \<Rightarrow> (int \<Rightarrow> int) \<Rightarrow> int \<Rightarrow> int \<Rightarrow> int \<Rightarrow> dgraph \<Rightarrow> dgraph option res" where
  "resize_point vn em tid src dst g =
     (let current_segment = get_segment_id g src; cur = current_segment - segment_count g in
      sbind (mutex_lock g cur) (\<lambda>g.
      sbind (wait_for_rebalance g cur) (\<lambda>_.
      sbind (do_insertion vn em tid src dst current_segment g) (\<lambda>g.
      sbind (segment_density g current_segment) (\<lambda>density.
      if f64_ge density up_0
      then sbind (add_on_rebalance g cur 1) (\<lambda>g.
           sbind (mutex_unlock g cur) (\<lambda>g.
           sbind (find_window src current_segment g
                    \<lparr>wr_window = current_segment, wr_height = 0, wr_used = 0, wr_total = 0\<rparr>) (\<lambda>(g, w).
           resize_entry current_segment g w)))
      else Inr None)))))"

definition resize_overruns :: "int \<Rightarrow> (int \<Rightarrow> int) \<Rightarrow> int \<Rightarrow> int \<Rightarrow> int \<Rightarrow> dgraph \<Rightarrow> bool" where
  "resize_overruns vn em tid src dst g \<longleftrightarrow> (case resize_point vn em tid src dst g of
     Inr (Some h) \<Rightarrow> off h (num_vertices h - 1) \<noteq> -1 | _ \<Rightarrow> False)"

section \<open>The end of insert\<close>

lemma segment_density_ok:
  assumes "wf g" "0 \<le> i" "i < segment_count g"
  shows "segment_density g (i + segment_count g) = Inr (density_of (seg_actual g i) (seg_total g i))"
  using wf_shapeD(2,8,9) [OF wfD(2) [OF assms(1)]] assms(2,3)
  by (simp add: segment_density_def seg_actual_def seg_total_def)

text \<open>The state after \<^verbatim>\<open>do_insertion\<close> when the climb starts: the segment is full, its lock is free.\<close>

definition climbing :: "int \<Rightarrow> dgraph \<Rightarrow> bool" where
  "climbing src g \<longleftrightarrow> wf g \<and> pma_ok g \<and> parked (seg_of g src) g \<and> 0 \<le> src \<and> src < num_vertices g \<and>
     tree_height g \<le> 2 ^ 20 \<and> 2 \<le> elem_capacity g \<and> elem_capacity g * 2 \<le> 2 ^ 24 \<and>
     num_edges g \<le> elem_capacity g + 1 \<and>
     seg_total g (seg_of g src) \<le> seg_actual g (seg_of g src) \<and>
     (\<forall>i. 0 \<le> i \<and> i < segment_count g \<and> i \<noteq> seg_of g src \<longrightarrow> room_ok g i)"

lemma climbingD:
  assumes "climbing src g"
  shows "wf g" "pma_ok g" "parked (seg_of g src) g" "0 \<le> src" "src < num_vertices g" "tree_height g \<le> 2 ^ 20"
    "2 \<le> elem_capacity g" "elem_capacity g * 2 \<le> 2 ^ 24" "num_edges g \<le> elem_capacity g + 1"
    "seg_total g (seg_of g src) \<le> seg_actual g (seg_of g src)"
    "0 \<le> i \<Longrightarrow> i < segment_count g \<Longrightarrow> i \<noteq> seg_of g src \<Longrightarrow> room_ok g i"
  using assms by (auto simp: climbing_def)

lemma full_density:
  assumes C: "climbing src g"
  shows "f64_ge (density_of (seg_actual g (seg_of g src)) (seg_total g (seg_of g src))) up_0"
    "\<not> f64_less (density_of (seg_actual g (seg_of g src)) (seg_total g (seg_of g src))) up_0"
proof -
  note c = climbingD [OF C] and sg = seg_of_range [OF wfD(2) [OF climbingD(1) [OF C]] climbingD(4,5) [OF C]]
  have cap: "elem_capacity g \<le> 2 ^ 24" "num_edges g \<le> 2 ^ 25" using c by simp_all
  have hi: "seg_of g src + 1 \<le> segment_count g" using sg by simp
  have lt: "seg_of g src < seg_of g src + 1" by simp
  note k = window_counts [OF c(1) sg(1) lt hi cap] and n = seg_counts [OF c(1) sg]
  show "f64_ge (density_of (seg_actual g (seg_of g src)) (seg_total g (seg_of g src))) up_0"
    "\<not> f64_less (density_of (seg_actual g (seg_of g src)) (seg_total g (seg_of g src))) up_0"
    using density_ge_up_0 [OF k] density_less_up_0 [OF k] c(10) n by simp_all
qed

text \<open>A sparse window was found and its locks are held.\<close>

lemma finish_rebalance:
  assumes C: "climbing src g" and G: "good_window g src w" and rdy: "ulog_ready tid g"
    and H: "holding (seg_lo g (wr_height w) src) (seg_hi g (wr_height w) src) (g\<lparr>leaf_segments := ls\<rparr>)"
    and l: "len ls = len (leaf_segments g)"
  shows "\<exists>g'. finish_window vn em tid src (get_segment_id g src) (g\<lparr>leaf_segments := ls\<rparr>) w = Inr g' \<and>
     inv g' \<and> ulog_ready tid g' \<and> num_vertices g' = num_vertices g \<and> num_edges g' = num_edges g \<and>
     elem_capacity g' = elem_capacity g \<and> tree_height g' = tree_height g \<and>
     (\<forall>v. 0 \<le> v \<and> v < num_vertices g \<longrightarrow> vlist g' v = vlist g v)"
proof -
  note c = climbingD [OF C]
  note shp = wfD(2) [OF c(1)]
  note sg = seg_of_range [OF shp c(4,5)]
  let ?h = "wr_height w" and ?g = "g\<lparr>leaf_segments := ls\<rparr>"
  let ?lo = "seg_lo g ?h src" and ?hi = "seg_hi g ?h src"
  note sw = seg_window [OF shp c(4,5), of ?h]
  have lohi: "?lo < ?hi" using sw by linarith
  have "\<exists>g1. rebalance_weighted vn em tid (?lo * segment_size ?g) (?hi * segment_size ?g) (wr_used w) (wr_total w) ?g = Inr g1
     \<and> rebalanced tid ?lo ?hi ?g g1"
    by (rule rebalance_weighted_ok) (use c G rdy l sw lohi in \<open>auto simp: good_window_def\<close>)
  then obtain g1 where g1: "rebalance_weighted vn em tid (?lo * segment_size g) (?hi * segment_size g) (wr_used w) (wr_total w) ?g = Inr g1"
    and R: "rebalanced tid ?lo ?hi ?g g1" by auto
  have f: "wf g1" "ulog_ready tid g1" "num_vertices g1 = num_vertices g" "segment_count g1 = segment_count g"
      "segment_size g1 = segment_size g" "tree_height g1 = tree_height g" "delta_up g1 = delta_up g" "leaf_segments g1 = ls"
      "elem_capacity g1 = elem_capacity g" "num_edges g1 = num_edges g"
      "\<And>v. 0 \<le> v \<Longrightarrow> v < num_vertices g \<Longrightarrow> vlist g1 v = vlist g v"
      "\<And>i. ?lo \<le> i \<Longrightarrow> i < ?hi \<Longrightarrow> cell (log_segment_idx g1) i = 0"
      "\<And>i. 0 \<le> i \<Longrightarrow> \<not> (?lo \<le> i \<and> i < ?hi) \<Longrightarrow> cell (log_segment_idx g1) i = cell (log_segment_idx g) i"
    using R by (auto simp: rebalanced_def)
  have H1: "holding ?lo ?hi g1" using H by (simp add: holding_def f)
  have lg: "len (leaf_segments g1) = segment_count g1" using wf_shapeD(10) [OF wfD(2) [OF f(1)]] by simp
  have hi1: "?hi \<le> segment_count g1" using sw(4) f(4) by simp
  obtain ls' where U: "unlock_in_batch ?lo (?hi - 1) None g1 = Inr (g1\<lparr>leaf_segments := ls'\<rparr>)"
    "len ls' = len (leaf_segments g1)" "quiet (g1\<lparr>leaf_segments := ls'\<rparr>)"
    using unlock_window(2) [OF H1 sw(1,2,3) hi1 lg] by blast
  have sd: "segment_density ?g (get_segment_id g src)
      = Inr (density_of (seg_actual g (seg_of g src)) (seg_total g (seg_of g src)))"
    using segment_density_ok [of ?g "seg_of g src"] c(1) l sg get_segment_id_seg_of [OF shp c(4)] by simp
  have room: "room_ok g1 i" if i: "0 \<le> i" "i < segment_count g" for i
  proof (cases "?lo \<le> i \<and> i < ?hi")
    case True
    then show ?thesis using f(12) by (simp add: room_ok_def)
  next
    case False
    then have "i \<noteq> seg_of g src" using sw by auto
    moreover have W1: "wf ?g" using c(1) l by simp
    have "seg_actual g1 i = seg_actual g i" "seg_total g1 i = seg_total g i"
      using rebalanced_seg [OF R W1 sw(1), of i] lohi i False by simp_all
    ultimately show ?thesis using c(11) [OF i] f(13) [OF i(1)] False by (simp add: room_ok_def)
  qed
  have "finish_window vn em tid src (get_segment_id g src) ?g w = Inr (g1\<lparr>leaf_segments := ls'\<rparr>)"
    using G full_density(1) [OF C] g1 U(1) sd sw(5,6) window_ids [OF shp c(4,5), of ?h]
    by (simp add: finish_window_def good_window_def)
  moreover have "inv (g1\<lparr>leaf_segments := ls'\<rparr>)"
    using f c(2,7) U(2,3) room by (auto simp: inv_def pma_ok_def)
  ultimately show ?thesis using f by auto
qed

text \<open>No window was sparse enough: the array is doubled, unless the last vertex has logged edges.\<close>

lemma finish_resize:
  assumes C: "climbing src g" and G: "wr_window w = 0" "0 < wr_height w" and rdy: "ulog_ready tid g"
  shows "\<exists>h. resize_entry (get_segment_id g src) g w = Inr (Some h) \<and>
    (if off h (num_vertices h - 1) \<noteq> -1
     then resize_V1 h = Inl OutOfBounds \<and> finish_window vn em tid src (get_segment_id g src) g w = Inl OutOfBounds
     else \<exists>g'. finish_window vn em tid src (get_segment_id g src) g w = Inr g' \<and>
       inv g' \<and> ulog_ready tid g' \<and> num_vertices g' = num_vertices g \<and>
       (\<forall>v. 0 \<le> v \<and> v < num_vertices g \<longrightarrow> vlist g' v = vlist g v))"
proof -
  note c = climbingD [OF C]
  note shp = wfD(2) [OF c(1)]
  note sg = seg_of_range [OF shp c(4,5)] and ws = wf_shapeD [OF shp]
  have sd: "segment_density g (get_segment_id g src)
      = Inr (density_of (seg_actual g (seg_of g src)) (seg_total g (seg_of g src)))"
    using segment_density_ok [OF c(1) sg] get_segment_id_seg_of [OF shp c(4)] by simp
  have win: "seg_lo g (tree_height g) src = 0" "seg_hi g (tree_height g) src = segment_count g"
    using seg_window_root [OF shp c(4,5,2)] by auto
  obtain ls u t where L: "lock_in_batch 0 (segment_count g) (seg_of g src) (g, 0, 0) = Inr (g\<lparr>leaf_segments := ls\<rparr>, u, t)"
    "len ls = len (leaf_segments g)" and H: "holding 0 (segment_count g) (g\<lparr>leaf_segments := ls\<rparr>)"
    using lock_window [OF c(1,4,5,3), of "tree_height g"] unfolding win by blast
  let ?g = "g\<lparr>leaf_segments := ls\<rparr>"
  have run: "finish_window vn em tid src (get_segment_id g src) g w =
      sbind (resize_V1 ?g) (\<lambda>g. unlock_in_batch 0 (segment_count g - 1) None g)"
    using G full_density(2) [OF C] sd L(1) get_segment_id_seg_of [OF shp c(4)] by (simp add: finish_window_def)
  have entry: "resize_entry (get_segment_id g src) g w = Inr (Some ?g)"
    using G full_density(2) [OF C] sd L(1) get_segment_id_seg_of [OF shp c(4)] by (simp add: resize_entry_def)
  have W: "wf ?g" using c(1) L(2) by simp
  have room: "num_edges ?g < elem_capacity ?g * 2" using c(7,9) by simp
  have cap: "elem_capacity ?g * 2 \<le> 2 ^ 24" using c(8) by simp
  show ?thesis
  proof (cases "off g (num_vertices g - 1) = -1")
    case False
    then have "resize_V1 ?g = Inl OutOfBounds" using cap room by (intro resize_V1_fault [OF W]) auto
    then show ?thesis using False run entry by simp
  next
    case True
    obtain g1 where r: "resize_V1 ?g = Inr g1" and R: "resized ?g g1"
      using resize_V1_ok [OF W _ cap room] True by auto
    have f: "wf g1" "num_vertices g1 = num_vertices g" "segment_count g1 = segment_count g"
      "tree_height g1 = tree_height g" "delta_up g1 = delta_up g" "leaf_segments g1 = ls"
      "ulog_ptr g1 = ulog_ptr g" "oplog_ptr g1 = oplog_ptr g" "elem_capacity g1 = elem_capacity g * 2"
      "\<And>v. 0 \<le> v \<Longrightarrow> v < num_vertices g \<Longrightarrow> vlist g1 v = vlist g v"
      "\<And>i. 0 \<le> i \<Longrightarrow> i < segment_count g \<Longrightarrow> cell (log_segment_idx g1) i = 0"
      using R by (auto simp: resized_def)
    have H1: "holding 0 (segment_count g1) g1" using H by (simp add: holding_def f)
    have lg: "len (leaf_segments g1) = segment_count g1" using wf_shapeD(10) [OF wfD(2) [OF f(1)]] by simp
    have sg1: "seg_of g src < segment_count g1" using sg f(3) by simp
    obtain ls' where U: "unlock_in_batch 0 (segment_count g1 - 1) None g1 = Inr (g1\<lparr>leaf_segments := ls'\<rparr>)"
      "len ls' = len (leaf_segments g1)" "quiet (g1\<lparr>leaf_segments := ls'\<rparr>)"
      using unlock_window(2) [OF H1 order.refl sg(1) sg1 order.refl lg] by blast
    have "inv (g1\<lparr>leaf_segments := ls'\<rparr>)"
      using f c(2,7) U(2,3) by (auto simp: inv_def pma_ok_def room_ok_def)
    then show ?thesis using run r U(1) f rdy entry True by (auto simp: ulog_ready_def)
  qed
qed

section \<open>insert and rebalance_all\<close>

text \<open>The first lines of \<^verbatim>\<open>insert\<close>: the lock is taken, the edge is put in place.\<close>

lemma insert_first:
  assumes I: "inv g" and rdy: "ulog_ready tid g" and s: "0 \<le> src" "src < num_vertices g"
    and cap: "elem_capacity g \<le> 2 ^ 24"
  defines "ls1 \<equiv> upd (leaf_segments g) (seg_of g src) \<lparr>lf_locked = True, on_rebalance = 0\<rparr>"
  shows "mutex_lock g (seg_of g src) = Inr (g\<lparr>leaf_segments := ls1\<rparr>)"
    "wait_for_rebalance (g\<lparr>leaf_segments := ls1\<rparr>) (seg_of g src) = Inr ()"
    "\<exists>g1. do_insertion vn em tid src dst (get_segment_id g src) (g\<lparr>leaf_segments := ls1\<rparr>) = Inr g1 \<and>
       inserted src dst g g1 \<and> ins_frame tid src (g\<lparr>leaf_segments := ls1\<rparr>) g1"
proof -
  note v = invD [OF I]
  note shp = wfD(2) [OF v(1)]
  note sg = seg_of_range [OF shp s] and w = wf_shapeD [OF shp]
  have nl: "cell (leaf_segments g) (seg_of g src) = new_leaf" using v(3) sg by (simp add: quiet_def)
  show "mutex_lock g (seg_of g src) = Inr (g\<lparr>leaf_segments := ls1\<rparr>)"
    using sg w(10) nl by (simp add: mutex_lock_def ls1_def new_leaf_def leaf_updates)
  show "wait_for_rebalance (g\<lparr>leaf_segments := ls1\<rparr>) (seg_of g src) = Inr ()"
    using sg w(10) by (simp add: wait_for_rebalance_def ls1_def)
  have l: "len ls1 = len (leaf_segments g)" by (simp add: ls1_def)
  have "\<exists>g1. do_insertion vn em tid src dst (get_segment_id (g\<lparr>leaf_segments := ls1\<rparr>) src) (g\<lparr>leaf_segments := ls1\<rparr>) = Inr g1 \<and>
       inserted src dst (g\<lparr>leaf_segments := ls1\<rparr>) g1 \<and> ins_frame tid src (g\<lparr>leaf_segments := ls1\<rparr>) g1"
    by (rule do_insertion_ok) (use v(1) l s rdy cap v(5) [OF sg] in simp_all)
  then show "\<exists>g1. do_insertion vn em tid src dst (get_segment_id g src) (g\<lparr>leaf_segments := ls1\<rparr>) = Inr g1 \<and>
       inserted src dst g g1 \<and> ins_frame tid src (g\<lparr>leaf_segments := ls1\<rparr>) g1"
    by (auto simp: inserted_def)
qed

text \<open>Facts about the state in which the density is tested.\<close>

lemma after_insertion:
  assumes I: "inv g" and s: "0 \<le> src" "src < num_vertices g"
    and ins: "inserted src dst g g1"
    and F: "ins_frame tid src (g\<lparr>leaf_segments := upd (leaf_segments g) (seg_of g src) \<lparr>lf_locked = True, on_rebalance = 0\<rparr>\<rparr>) g1"
  shows "wf g1" "pma_ok g1" "ulog_ready tid g1" "num_vertices g1 = num_vertices g"
    "segment_count g1 = segment_count g" "elem_capacity g1 = elem_capacity g" "tree_height g1 = tree_height g"
    "seg_of g1 = seg_of g" "get_segment_id g1 = get_segment_id g"
    "leaf_segments g1 = upd (leaf_segments g) (seg_of g src) \<lparr>lf_locked = True, on_rebalance = 0\<rparr>"
    "num_edges g1 = num_edges g + 1"
    "0 \<le> i \<Longrightarrow> i < segment_count g \<Longrightarrow> i \<noteq> seg_of g src \<Longrightarrow> room_ok g1 i"
proof -
  note v = invD [OF I]
  note shp = wfD(2) [OF v(1)]
  note sg = seg_of_range [OF shp s] and w = wf_shapeD [OF shp]
  show W1: "wf g1" using ins by (simp add: inserted_def)
  show f: "ulog_ready tid g1" "num_vertices g1 = num_vertices g"
    "segment_count g1 = segment_count g" "elem_capacity g1 = elem_capacity g" "tree_height g1 = tree_height g"
    "leaf_segments g1 = upd (leaf_segments g) (seg_of g src) \<lparr>lf_locked = True, on_rebalance = 0\<rparr>"
    using F by (simp_all add: ins_frame_def)
  have z: "segment_size g1 = segment_size g" "delta_up g1 = delta_up g" using F by (simp_all add: ins_frame_def)
  show so: "seg_of g1 = seg_of g" "get_segment_id g1 = get_segment_id g"
    by (auto simp: fun_eq_iff seg_of_def get_segment_id_def z f)
  show "pma_ok g1" using v(2) f z by (simp add: pma_ok_def)
  have fr: "seg_actual g1 (seg_of g src) = seg_actual g (seg_of g src) + 1"
    "\<And>i. 0 \<le> i \<Longrightarrow> i < segment_count g \<Longrightarrow> i \<noteq> seg_of g src \<Longrightarrow> seg_actual g1 i = seg_actual g i \<and>
        seg_total g1 i = seg_total g i \<and> cell (log_segment_idx g1) i = cell (log_segment_idx g) i"
    using F by (simp_all add: ins_frame_def)
  show "0 \<le> i \<Longrightarrow> i < segment_count g \<Longrightarrow> i \<noteq> seg_of g src \<Longrightarrow> room_ok g1 i"
    using fr(2) [of i] v(5) [of i] by (simp add: room_ok_def)
  have tot: "num_edges h = (\<Sum>j\<in>{0..<segment_count h}. seg_actual h j)" if "wf h" for h
    using seg_sums(1) [OF that, of 0 "segment_count h"] wfD(4) [OF that] wf_shapeD(2,3) [OF wfD(2) [OF that]]
    by (simp add: counts_ok_def)
  have "(\<Sum>j\<in>{0..<segment_count g}. seg_actual g1 j)
      = (\<Sum>j\<in>{0..<segment_count g}. seg_actual g j + (if j = seg_of g src then 1 else 0))"
    using fr by (intro sum.cong) auto
  also have "\<dots> = (\<Sum>j\<in>{0..<segment_count g}. seg_actual g j) + 1"
    using sg by (simp add: sum.distrib sum.delta)
  finally show "num_edges g1 = num_edges g + 1" using tot [OF W1] tot [OF v(1)] f by simp
qed

text \<open>The climb from a full segment: it finds a sparse window, or the array is too full and nothing is locked.\<close>

definition climb_start :: "int \<Rightarrow> window_result" where
  "climb_start current_segment = \<lparr>wr_window = current_segment, wr_height = 0, wr_used = 0, wr_total = 0\<rparr>"

lemma climb_window:
  assumes C: "climbing src g"
  obtains (root) w where "find_window src (get_segment_id g src) g (climb_start (get_segment_id g src)) = Inr (g, w)"
      "wr_window w = 0" "0 < wr_height w"
      "\<not> f64_less (density_of (num_edges g) (elem_capacity g)) (up_height g (tree_height g))"
  | (window) w ls where "find_window src (get_segment_id g src) g (climb_start (get_segment_id g src)) = Inr (g\<lparr>leaf_segments := ls\<rparr>, w)"
      "good_window g src w" "len ls = len (leaf_segments g)"
      "holding (seg_lo g (wr_height w) src) (seg_hi g (wr_height w) src) (g\<lparr>leaf_segments := ls\<rparr>)"
proof -
  note c = climbingD [OF C]
  have th0: "0 \<le> tree_height g" using c(2) by (simp add: pma_ok_def)
  have cap: "elem_capacity g \<le> 2 ^ 24" "num_edges g \<le> 2 ^ 25" using c(7,8,9) by auto
  have cs: "get_segment_id g src = seg_of g src + segment_count g" using get_segment_id_seg_of [OF wfD(2) [OF c(1)] c(4)] by simp
  have "\<exists>g' w'. find_window src (get_segment_id g src) g (climb_start (get_segment_id g src)) = Inr (g', w') \<and>
     (wr_window w' = 0 \<and> 0 < wr_height w' \<and> g' = g \<and>
       \<not> f64_less (density_of (num_edges g) (elem_capacity g)) (up_height g (tree_height g)) \<or>
      good_window g src w' \<and> (\<exists>ls. g' = g\<lparr>leaf_segments := ls\<rparr> \<and> len ls = len (leaf_segments g) \<and>
        holding (seg_lo g (wr_height w') src) (seg_hi g (wr_height w') src) g'))"
    by (rule find_window_ok [OF c(1,2,6,4,5,3) cap]) (use th0 cs in \<open>simp_all add: climb_start_def\<close>)
  then show thesis using root window by blast
qed

text \<open>The two ways \<open>insert_edge\<close> can go once the edge is in place.\<close>

lemma insert_cases:
  assumes I: "inv g" and rdy: "ulog_ready tid g" and s: "0 \<le> src" "src < num_vertices g"
    and th: "tree_height g \<le> 2 ^ 20" and cap: "elem_capacity g * 2 \<le> 2 ^ 24"
  obtains (sparse) g' where "insert_edge vn em tid src dst g = Inr g'" "resize_point vn em tid src dst g = Inr None"
      "inv g'" "ulog_ready tid g'" "appended src dst g g'" "num_edges g' = num_edges g + 1" "elem_capacity g' = elem_capacity g"
      "tree_height g' = tree_height g"
  | (full) h where "climbing src h" "ulog_ready tid h" "num_edges h = num_edges g + 1" "elem_capacity h = elem_capacity g"
      "tree_height h = tree_height g" "appended src dst g h"
      "insert_edge vn em tid src dst g = sbind (find_window src (get_segment_id h src) h (climb_start (get_segment_id h src)))
         (\<lambda>(k, w). finish_window vn em tid src (get_segment_id h src) k w)"
      "resize_point vn em tid src dst g = sbind (find_window src (get_segment_id h src) h (climb_start (get_segment_id h src)))
         (\<lambda>(k, w). resize_entry (get_segment_id h src) k w)"
proof -
  note v = invD [OF I]
  note shp = wfD(2) [OF v(1)]
  note sg = seg_of_range [OF shp s] and w = wf_shapeD [OF shp]
  let ?cur = "seg_of g src"
  let ?l1 = "upd (leaf_segments g) ?cur \<lparr>lf_locked = True, on_rebalance = 0\<rparr>"
  have cap1: "elem_capacity g \<le> 2 ^ 24" using cap v(4) by simp
  note first = insert_first [OF I rdy s cap1]
  obtain g1 where D: "do_insertion vn em tid src dst (get_segment_id g src) (g\<lparr>leaf_segments := ?l1\<rparr>) = Inr g1"
    and ins: "inserted src dst g g1" and F: "ins_frame tid src (g\<lparr>leaf_segments := ?l1\<rparr>) g1"
    using first(3) by blast
  note a = after_insertion [OF I s ins F]
  have cur: "get_segment_id g src - segment_count g = ?cur" "get_segment_id g src = ?cur + segment_count g"
    using get_segment_id_seg_of [OF shp s(1)] by simp_all
  have sg1: "0 \<le> ?cur" "?cur < segment_count g1" using sg a(5) by simp_all
  have dens: "segment_density g1 (get_segment_id g src) = Inr (density_of (seg_actual g1 ?cur) (seg_total g1 ?cur))"
    using segment_density_ok [OF a(1) sg1] a(5) cur by simp
  have ne: "num_edges g1 \<le> elem_capacity g1 + 1" using edges_le_cap [OF v(1) v(5)] a by simp
  have cap1': "elem_capacity g1 \<le> 2 ^ 24" "num_edges g1 \<le> 2 ^ 25" using ne cap1 a(6) by auto
  have lt: "?cur < ?cur + 1" "?cur + 1 \<le> segment_count g1" using sg1 by simp_all
  note k = window_counts [OF a(1) sg1(1) lt cap1'] and n = seg_counts [OF a(1) sg1]
  have vl: "vlist g1 src = vlist g src @ [dst]" "\<And>v. 0 \<le> v \<Longrightarrow> v < num_vertices g \<Longrightarrow> v \<noteq> src \<Longrightarrow> vlist g1 v = vlist g v"
    using ins by (auto simp: inserted_def)
  note run = insert_edge_def resize_point_def Let_def cur(1) first(1,2) sbind_simps D dens
  show thesis
  proof (cases "f64_ge (density_of (seg_actual g1 ?cur) (seg_total g1 ?cur)) up_0")
    case False
    then have room: "room_ok g1 ?cur" using density_ge_up_0 [OF k] n by (simp add: room_ok_def)
    define g' where "g' = g1\<lparr>leaf_segments := upd (leaf_segments g) ?cur new_leaf\<rparr>"
    have "mutex_unlock g1 ?cur = Inr g'"
      using sg w(10) by (simp add: mutex_unlock_def a(10) g'_def leaf_updates new_leaf_def)
    then have "insert_edge vn em tid src dst g = Inr g'" "resize_point vn em tid src dst g = Inr None"
      unfolding run using False by simp_all
    moreover have "room_ok g1 i" if "0 \<le> i" "i < segment_count g" for i
      using room a(12) [OF that] by (cases "i = ?cur") auto
    then have "inv g'"
      using a v(3,4) sg w(10) by (auto simp: inv_def g'_def pma_ok_def quiet_def cell_upd)
    moreover have "appended src dst g g'" using vl a(4) by (simp add: appended_def g'_def)
    moreover have "ulog_ready tid g'" using a(3) by (simp add: g'_def)
    moreover have "num_edges g' = num_edges g + 1" "elem_capacity g' = elem_capacity g" "tree_height g' = tree_height g"
      using a by (simp_all add: g'_def)
    ultimately show thesis using sparse by blast
  next
    case True
    define h where "h = g1\<lparr>leaf_segments := upd (leaf_segments g) ?cur \<lparr>lf_locked = False, on_rebalance = 1\<rparr>\<rparr>"
    have m: "sbind (add_on_rebalance g1 ?cur 1) (\<lambda>g. sbind (mutex_unlock g ?cur) f) = f h" for f :: "dgraph \<Rightarrow> 'x res"
      using sg w(10) by (simp add: mutex_unlock_def add_on_rebalance_def a(10) h_def leaf_updates)
    have id: "get_segment_id h = get_segment_id g" "seg_of h = seg_of g" "num_vertices h = num_vertices g" "segment_count h = segment_count g"
      using a by (simp_all add: h_def)
    have "climbing src h"
      unfolding climbing_def
    proof (intro conjI allI impI)
      show "wf h" using a(1,10) by (simp add: h_def)
      show "pma_ok h" using a(2) by (simp add: h_def pma_ok_def)
      show "parked (seg_of h src) h"
        unfolding parked_def id using v(3) sg w(10) by (auto simp: h_def quiet_def new_leaf_def cell_upd)
      show "seg_total h (seg_of h src) \<le> seg_actual h (seg_of h src)"
        using True density_ge_up_0 [OF k] n unfolding id by (simp add: h_def)
      show "room_ok h i" if "0 \<le> i \<and> i < segment_count h \<and> i \<noteq> seg_of h src" for i
        using a(12) [of i] that unfolding id by (simp add: h_def)
    qed (use s th cap v(4) a ne in \<open>simp_all add: h_def\<close>)
    moreover have "appended src dst g h" using vl a(4) by (simp add: appended_def h_def)
    moreover note full
    ultimately show thesis unfolding run m id climb_start_def
      using True a by (simp add: h_def)
  qed
qed

lemma insert_edge_ok:
  assumes I: "inv g" and rdy: "ulog_ready tid g" and s: "0 \<le> src" "src < num_vertices g"
    and th: "tree_height g \<le> 2 ^ 20" and cap: "elem_capacity g * 2 \<le> 2 ^ 24"
  shows "if resize_overruns vn em tid src dst g
    then insert_edge vn em tid src dst g = Inl OutOfBounds \<and>
      (\<exists>h. resize_point vn em tid src dst g = Inr (Some h) \<and> off h (num_vertices h - 1) \<noteq> -1 \<and> resize_V1 h = Inl OutOfBounds)
    else \<exists>g'. insert_edge vn em tid src dst g = Inr g' \<and> inv g' \<and> ulog_ready tid g' \<and> appended src dst g g'"
proof (cases rule: insert_cases [OF I rdy s th cap, of vn em dst, case_names sparse full])
  case (sparse g')
  then show ?thesis by (auto simp: resize_overruns_def)
next
  case (full h)
  have app: "appended src dst g g'" if "num_vertices g' = num_vertices h"
    "\<forall>v. 0 \<le> v \<and> v < num_vertices h \<longrightarrow> vlist g' v = vlist h v" for g'
    using that full(6) s by (simp add: appended_def)
  from full(1) show ?thesis
  proof (cases rule: climb_window)
    case (root w)
    from finish_resize [OF full(1) root(2,3) full(2), of vn em] obtain k where
      k: "resize_entry (get_segment_id h src) h w = Inr (Some k)"
        "if off k (num_vertices k - 1) \<noteq> -1
         then resize_V1 k = Inl OutOfBounds \<and> finish_window vn em tid src (get_segment_id h src) h w = Inl OutOfBounds
         else \<exists>g'. finish_window vn em tid src (get_segment_id h src) h w = Inr g' \<and> inv g' \<and> ulog_ready tid g' \<and>
           num_vertices g' = num_vertices h \<and> (\<forall>v. 0 \<le> v \<and> v < num_vertices h \<longrightarrow> vlist g' v = vlist h v)" by blast
    have "resize_point vn em tid src dst g = Inr (Some k)"
      "insert_edge vn em tid src dst g = finish_window vn em tid src (get_segment_id h src) h w"
      using full(7,8) root(1) k(1) by simp_all
    then show ?thesis using k(2) app by (auto simp: resize_overruns_def split: if_splits)
  next
    case (window w ls)
    have "resize_point vn em tid src dst g = Inr None"
      using full(8) window(1,2) by (simp add: resize_entry_def good_window_def)
    moreover have "insert_edge vn em tid src dst g = finish_window vn em tid src (get_segment_id h src) (h\<lparr>leaf_segments := ls\<rparr>) w"
      using full(7) window(1) by simp
    ultimately show ?thesis using finish_rebalance [OF full(1) window(2) full(2) window(4,3), of vn em] app
      by (auto simp: resize_overruns_def)
  qed
qed

text \<open>An array that stays at most half full is not doubled, so the insertion succeeds.\<close>

lemma insert_half_full:
  assumes "inv g" and "ulog_ready tid g" and "0 \<le> src" "src < num_vertices g"
    and "1 \<le> tree_height g" "tree_height g \<le> 2 ^ 20" and "elem_capacity g * 2 \<le> 2 ^ 24"
    and "2 * (num_edges g + 1) \<le> elem_capacity g"
  shows "\<not> resize_overruns vn em tid src dst g \<and> (\<exists>g'. insert_edge vn em tid src dst g = Inr g' \<and> inv g' \<and> ulog_ready tid g' \<and>
    appended src dst g g' \<and> num_edges g' = num_edges g + 1 \<and> elem_capacity g' = elem_capacity g \<and> tree_height g' = tree_height g)"
proof (cases rule: insert_cases [OF assms(1-4,6,7), of vn em dst, case_names sparse full])
  case (sparse g')
  then show ?thesis by (simp add: resize_overruns_def)
next
  case (full h)
  from full(1) show ?thesis
  proof (cases rule: climb_window)
    case (root w)
    note c = climbingD [OF full(1)]
    have "num_edges h = degsum h 0 (num_vertices h)" using wfD(4) [OF c(1)] by (simp add: counts_ok_def)
    then have "0 \<le> num_edges h" using degsum_nonneg [OF wfD(1) [OF c(1)], of 0 "num_vertices h"] by simp
    then have "f64_less (density_of (num_edges h) (elem_capacity h)) (up_height h (tree_height h))"
      using c(2,7,8) assms(5,6,8) full(3,4,5) by (intro half_full_below_root) (simp_all add: pma_ok_def)
    then show ?thesis using root(4) by simp
  next
    case (window w ls)
    have "resize_point vn em tid src dst g = Inr None"
      using full(8) window(1,2) by (simp add: resize_entry_def good_window_def)
    moreover have "insert_edge vn em tid src dst g = finish_window vn em tid src (get_segment_id h src) (h\<lparr>leaf_segments := ls\<rparr>) w"
      using full(7) window(1) by simp
    ultimately show ?thesis using finish_rebalance [OF full(1) window(2) full(2) window(4,3), of vn em] full(3-6) assms(3,4)
      by (auto simp: resize_overruns_def appended_def)
  qed
qed

section \<open>rebalance_all\<close>

lemma rebalance_all_ok:
  assumes I: "inv g" and rdy: "ulog_ready tid g" and cap: "elem_capacity g \<le> 2 ^ 24"
    and room: "num_edges g < elem_capacity g"
  shows "\<exists>g'. rebalance_all vn em tid g = Inr g' \<and> wf g' \<and> quiet g' \<and>
     (\<forall>v. 0 \<le> v \<and> v < num_vertices g \<longrightarrow> vlist g' v = vlist g v) \<and>
     (\<forall>i. 0 \<le> i \<and> i < segment_count g \<longrightarrow> cell (log_segment_idx g') i = 0)"
proof -
  note v = invD [OF I]
  note shp = wfD(2) [OF v(1)]
  note w = wf_shapeD [OF shp] and c = wfD(4) [OF v(1), unfolded counts_ok_def]
  have nv: "0 < num_vertices g" using w by simp
  have ids: "get_segment_id g 0 - segment_count g = 0"
    "get_segment_id g (num_vertices g) - segment_count g = segment_count g"
    using get_segment_id_mult [OF shp, of 0] get_segment_id_mult [OF shp, of "segment_count g"] w by simp_all
  have free: "\<not> lf_locked (cell (leaf_segments g) j)" if "0 \<le> j" "j < segment_count g" for j
    using v(3) that by (simp add: quiet_def new_leaf_def)
  have sc0: "0 \<le> segment_count g" using w by simp
  obtain ls where L: "lock_in_batch 0 (segment_count g) (-1) (g, 0, 0) =
        Inr (g\<lparr>leaf_segments := ls\<rparr>, (\<Sum>j\<in>{0..<segment_count g}. seg_actual g j),
          (\<Sum>j\<in>{0..<segment_count g}. seg_total g j))" "len ls = len (leaf_segments g)"
    and lc: "\<And>j. 0 \<le> j \<Longrightarrow> cell ls j = (if 0 \<le> j \<and> j < segment_count g
        then \<lparr>lf_locked = True, on_rebalance = on_rebalance (cell (leaf_segments g) j) + (if j = -1 then 0 else 1)\<rparr>
        else cell (leaf_segments g) j)"
    using lock_in_batch_ok [OF shp order.refl sc0 order.refl free, of "-1" 0 0] by auto
  have sums: "(\<Sum>j\<in>{0..<segment_count g}. seg_actual g j) = num_edges g"
    "(\<Sum>j\<in>{0..<segment_count g}. seg_total g j) = elem_capacity g"
    using seg_sums [OF v(1), of 0 "segment_count g"] c w nv by (auto simp: start_def)
  let ?g = "g\<lparr>leaf_segments := ls\<rparr>"
  have "\<exists>g'. rebalance_weighted vn em tid (0 * segment_size ?g) (segment_count g * segment_size ?g)
      (num_edges g) (elem_capacity g) ?g = Inr g' \<and> rebalanced tid 0 (segment_count g) ?g g'"
    by (rule rebalance_weighted_ok) (use v(1) L(2) rdy w(2) c w(3) nv room cap in \<open>auto simp: start_def\<close>)
  then obtain g1 where g1: "rebalance_weighted vn em tid 0 (num_vertices g) (num_edges g) (elem_capacity g) ?g = Inr g1"
    and R: "rebalanced tid 0 (segment_count g) ?g g1" using w(3) by auto
  have f: "wf g1" "leaf_segments g1 = ls" "segment_count g1 = segment_count g"
    "\<And>v. 0 \<le> v \<Longrightarrow> v < num_vertices g \<Longrightarrow> vlist g1 v = vlist g v"
    "\<And>i. 0 \<le> i \<Longrightarrow> i < segment_count g \<Longrightarrow> cell (log_segment_idx g1) i = 0"
    using R by (auto simp: rebalanced_def)
  have H: "holding 0 (segment_count g1) g1"
    using lc v(3) by (simp add: holding_def f quiet_def new_leaf_def)
  have lg: "len (leaf_segments g1) = segment_count g1" using wf_shapeD(10) [OF wfD(2) [OF f(1)]] by simp
  have sc1: "0 < segment_count g1" using w(2) f(3) by simp
  obtain ls' where U: "unlock_in_batch 0 (segment_count g1 - 1) None g1 = Inr (g1\<lparr>leaf_segments := ls'\<rparr>)"
    "len ls' = len (leaf_segments g1)" "quiet (g1\<lparr>leaf_segments := ls'\<rparr>)"
    using unlock_window(2) [OF H order.refl order.refl sc1 order.refl lg] by blast
  have "rebalance_all vn em tid g = Inr (g1\<lparr>leaf_segments := ls'\<rparr>)"
    using L(1) g1 U(1) unfolding rebalance_all_def ids Let_def sums by (simp add: f(3))
  then show ?thesis using f U by auto
qed

end
