(* ===== verification/DgapNeigh.thy ===== *)
theory DgapNeigh
  imports DgapGraph
begin

text \<open>
  Reading a graph: \<^verbatim>\<open>CSRGraph::Neighborhood\<close> and its iterator, \<^verbatim>\<open>out_neigh\<close>, \<^verbatim>\<open>VertexOffsets\<close> and the
  sanity checker of \<^verbatim>\<open>dgap/src/graph.h\<close>.

  The pointer of an iterator is null, points into the edge array, or points to a heap cell that
  holds the value last read from the log. A range-for loop over a neighborhood is \<open>collect\<close>.
\<close>

datatype dest_ptr = NullP | SegP int | HeapP int

record neighborhood =
  nb_src :: vertex_element
  nb_log :: "LogEntry list"
  nb_start_offset :: int
  nb_onseg_edges :: int
  nb_log_index :: int
  nb_begin :: dest_ptr
  nb_onseg :: bool
  nb_onlog :: bool

text \<open>Follow \<^verbatim>\<open>prev_offset\<close> \<open>n\<close> times.\<close>

fun skip_log :: "LogEntry list \<Rightarrow> nat \<Rightarrow> int \<Rightarrow> int res" where
  "skip_log row 0 i = Inr i"
| "skip_log row (Suc n) i = sbind (rd row i) (\<lambda>e. skip_log row n (le_prev e))"

definition Neighborhood :: "vertex_element \<Rightarrow> int \<Rightarrow> LogEntry list \<Rightarrow> int \<Rightarrow> neighborhood res" where
  "Neighborhood src_v start_offset' log_p onseg_edges =
     (let start_offset = min (to_i32 start_offset') (v_degree src_v);
          nb = \<lparr>nb_src = src_v, nb_log = log_p, nb_start_offset = start_offset, nb_onseg_edges = onseg_edges,
                nb_log_index = -1, nb_begin = NullP, nb_onseg = False, nb_onlog = False\<rparr> in
      if v_degree src_v > start_offset then
        (if onseg_edges > start_offset
         then Inr (nb\<lparr>nb_begin := SegP (v_index src_v + start_offset), nb_log_index := v_offset src_v, nb_onseg := True\<rparr>)
         else sbind (skip_log log_p (nat (start_offset - onseg_edges)) (v_offset src_v)) (\<lambda>log_index.
              sbind (rd log_p log_index) (\<lambda>e.
              Inr (nb\<lparr>nb_begin := HeapP (le_v e), nb_log_index := le_prev e, nb_onlog := True\<rparr>))))
      else Inr nb)"

record nb_iterator =
  it_onseg_edges :: int
  it_src :: vertex_element
  it_log :: "LogEntry list"
  it_log_index :: int
  it_index :: int
  it_onseg :: bool
  it_onlog :: bool
  it_ptr :: dest_ptr

definition nb_begin_it :: "neighborhood \<Rightarrow> nb_iterator" where
  "nb_begin_it nb = \<lparr>it_onseg_edges = nb_onseg_edges nb, it_src = nb_src nb, it_log = nb_log nb,
     it_log_index = nb_log_index nb, it_index = nb_start_offset nb + 1, it_onseg = nb_onseg nb,
     it_onlog = nb_onlog nb, it_ptr = nb_begin nb\<rparr>"

definition nb_next :: "nb_iterator \<Rightarrow> nb_iterator res" where
  "nb_next it =
     (let it = it\<lparr>it_index := it_index it + 1\<rparr> in
      if it_onseg it then
        (if it_index it > it_onseg_edges it
         then (if v_degree (it_src it) > it_onseg_edges it
               then sbind (rd (it_log it) (it_log_index it)) (\<lambda>e.
                    Inr (it\<lparr>it_ptr := HeapP (le_v e), it_log_index := le_prev e, it_onseg := False, it_onlog := True\<rparr>))
               else Inr (it\<lparr>it_ptr := NullP\<rparr>))
         else (case it_ptr it of SegP i \<Rightarrow> Inr (it\<lparr>it_ptr := SegP (i + 1)\<rparr>) | _ \<Rightarrow> Inl Undefined))
      else if it_log_index it \<noteq> -1
      then sbind (rd (it_log it) (it_log_index it)) (\<lambda>e.
           Inr (it\<lparr>it_ptr := HeapP (le_v e), it_log_index := le_prev e\<rparr>))
      else Inr (it\<lparr>it_ptr := NullP\<rparr>))"

definition nb_deref :: "int list \<Rightarrow> dest_ptr \<Rightarrow> int res" where
  "nb_deref es p = (case p of NullP \<Rightarrow> Inl Undefined | SegP i \<Rightarrow> rd es i | HeapP x \<Rightarrow> Inr x)"

text \<open>The values a range-for loop visits; \<open>fuel\<close> bounds its rounds.\<close>

fun collect :: "int list \<Rightarrow> nat \<Rightarrow> nb_iterator \<Rightarrow> int list res" where
  "collect es 0 it = (if it_ptr it = NullP then Inr [] else Inl Diverged)"
| "collect es (Suc n) it =
     (if it_ptr it = NullP then Inr []
      else sbind (nb_deref es (it_ptr it)) (\<lambda>x.
           sbind (nb_next it) (\<lambda>it. sbind (collect es n it) (\<lambda>xs. Inr (x # xs)))))"

definition onseg_count :: "dgraph \<Rightarrow> int \<Rightarrow> int res" where
  "onseg_count g n =
     sbind (rd (vertices g) n) (\<lambda>x.
     sbind (if n \<ge> num_vertices g - 1 then Inr (elem_capacity g - 1)
            else sbind (rd (vertices g) (n + 1)) (\<lambda>y. Inr (v_index y - 1))) (\<lambda>next_vertex_boundary.
     Inr (if v_offset x \<noteq> -1 then next_vertex_boundary - v_index x + 1 else v_degree x)))"

definition out_neigh :: "dgraph \<Rightarrow> int \<Rightarrow> int \<Rightarrow> neighborhood res" where
  "out_neigh g n start_offset =
     sbind (onseg_count g n) (\<lambda>onseg_edges.
     sbind (rd (vertices g) n) (\<lambda>x.
     sbind (rd (log_ptr g) (cdiv n (segment_size g))) (\<lambda>row.
     Neighborhood x (start_offset + 1) row onseg_edges)))"

definition in_neigh :: "dgraph \<Rightarrow> int \<Rightarrow> int \<Rightarrow> neighborhood res" where
  "in_neigh g n start_offset =
     sbind (onseg_count g n) (\<lambda>onseg_edges.
     sbind (rd (vertices g) n) (\<lambda>x.
     sbind (rd (log_ptr g) (cdiv n (segment_size g))) (\<lambda>row.
     Neighborhood x (start_offset + 1) row onseg_edges)))"

definition out_neighbors :: "dgraph \<Rightarrow> int \<Rightarrow> int \<Rightarrow> int list res" where
  "out_neighbors g n start_offset =
     sbind (out_neigh g n start_offset) (\<lambda>nb.
     collect (edges g) (nat (v_degree (nb_src nb))) (nb_begin_it nb))"

section \<open>Other readers\<close>

function vertex_offsets_from :: "dgraph \<Rightarrow> int \<Rightarrow> int list res" where
  "vertex_offsets_from g n =
     (if n < num_vertices g + 1
      then sbind (rd (vertices g) n) (\<lambda>x.
           sbind (rd (vertices g) 0) (\<lambda>x0.
           sbind (vertex_offsets_from g (n + 1)) (\<lambda>os. Inr ((v_index x - v_index x0) # os))))
      else Inr [])"
  by pat_completeness auto
termination
  by (relation "measure (\<lambda>(g, n). nat (num_vertices g + 1 - n))") auto

declare vertex_offsets_from.simps [simp del]

definition VertexOffsets :: "dgraph \<Rightarrow> int list res" where
  "VertexOffsets g = vertex_offsets_from g 0"

function sanity_from :: "dgraph \<Rightarrow> int \<Rightarrow> unit res" where
  "sanity_from g curr_vertex =
     (if curr_vertex < num_vertices g
      then sbind (rd (vertices g) (curr_vertex - 1)) (\<lambda>p.
           sbind (rd (vertices g) curr_vertex) (\<lambda>x.
           sbind (check (v_index p + v_degree p \<le> v_index x)) (\<lambda>_.
           sanity_from g (curr_vertex + 1))))
      else Inr ())"
  by pat_completeness auto
termination
  by (relation "measure (\<lambda>(g, n). nat (num_vertices g - n))") auto

declare sanity_from.simps [simp del]

definition edge_list_boundary_sanity_checker :: "dgraph \<Rightarrow> unit res" where
  "edge_list_boundary_sanity_checker g =
     sbind (sanity_from g 1) (\<lambda>_.
     sbind (rd (vertices g) (num_vertices g - 1)) (\<lambda>x.
     check (v_index x + v_degree x \<le> elem_capacity g)))"

end
