(* ===== verification/DgapNeighOk.thy ===== *)
theory DgapNeighOk
  imports DgapNeigh DgapWindowOk "HOL-Library.Multiset"
begin

text \<open>
  What a loop over \<^verbatim>\<open>out_neigh\<close> visits: the edges in the array in insertion order, then the logged
  ones, newest first; so, as a multiset, the adjacency list of the vertex.
\<close>

section \<open>Walking a log\<close>

definition on_log :: "nb_iterator \<Rightarrow> LogEntry list \<Rightarrow> bool" where
  "on_log it row \<longleftrightarrow> \<not> it_onseg it \<and> it_log it = row"

lemma collect_log:
  assumes "chain_ok row v k o'" "\<not> it_onseg it" "it_log it = row" "it_log_index it = o'" "k < n" "it_ptr it = HeapP x"
  shows "collect es n it = Inr (x # chain_vals row k o')"
  using assms
proof (induction k arbitrary: n it o' x)
  case 0
  then show ?case by (cases n) (auto simp: nb_deref_def nb_next_def; case_tac nat; simp)+
next
  case (Suc k)
  then obtain m where n: "n = Suc m" by (cases n) auto
  have o': "0 \<le> o'" "o' < len row" "chain_ok row v k (le_prev (cell row o'))" using Suc.prems(1) by auto
  define it' where "it' = it\<lparr>it_index := it_index it + 1, it_ptr := HeapP (le_v (cell row o')), it_log_index := le_prev (cell row o')\<rparr>"
  have "nb_next it = Inr it'" using Suc.prems o' by (simp add: nb_next_def it'_def)
  moreover have "collect es m it' = Inr (le_v (cell row o') # chain_vals row k (le_prev (cell row o')))"
    using Suc.prems n o' by (intro Suc.IH) (auto simp: it'_def)
  ultimately show ?case using n Suc.prems by (simp add: nb_deref_def)
qed

text \<open>Walking the array from cell \<open>i\<close>, \<open>m\<close> cells of it left, then the log.\<close>

lemma collect_seg:
  assumes "it_onseg it" "it_ptr it = SegP i" "0 \<le> i" "i + m \<le> len es" "1 \<le> m"
    and "it_onseg_edges it = it_index it + m - 1"
    and "chain_ok (it_log it) v k (it_log_index it)" "int k = v_degree (it_src it) - it_onseg_edges it"
    and "nat m + k \<le> n"
  shows "collect es n it = Inr (cells es i m @ chain_vals (it_log it) k (it_log_index it))"
  using assms
proof (induction "nat m" arbitrary: m n it i)
  case 0
  then show ?case by simp
next
  case (Suc j)
  have "n \<noteq> 0" using Suc.prems(5,9) by simp
  then obtain f where n: "n = Suc f" by (cases n) auto
  have x: "nb_deref es (it_ptr it) = Inr (cell es i)" using Suc.prems by (simp add: nb_deref_def)
  have np: "it_ptr it \<noteq> NullP" using Suc.prems by simp
  show ?case
  proof (cases "m = 1")
    case False
    define it' where "it' = it\<lparr>it_index := it_index it + 1, it_ptr := SegP (i + 1)\<rparr>"
    have nx: "nb_next it = Inr it'" using Suc.prems False by (simp add: nb_next_def it'_def)
    have "collect es f it' = Inr (cells es (i + 1) (m - 1) @ chain_vals (it_log it') k (it_log_index it'))"
      by (rule Suc.hyps(1)) (use Suc.hyps(2) Suc.prems False n in \<open>auto simp: it'_def\<close>)
    then show ?thesis using n x nx np Suc.prems(5) by (simp add: it'_def cells_Cons [of m])
  next
    case True
    show ?thesis
    proof (cases k)
      case 0
      define it' where "it' = it\<lparr>it_index := it_index it + 1, it_ptr := NullP\<rparr>"
      have "nb_next it = Inr it'" using Suc.prems True 0 by (simp add: nb_next_def it'_def)
      moreover have "collect es f it' = Inr []" by (cases f) (simp_all add: it'_def)
      ultimately show ?thesis using n x np True 0 by (simp add: cells_Cons [of 1])
    next
      case (Suc k')
      let ?row = "it_log it" and ?o = "it_log_index it"
      have o': "0 \<le> ?o" "?o < len ?row" "chain_ok ?row v k' (le_prev (cell ?row ?o))" using Suc.prems(7) Suc by auto
      define it' where "it' = it\<lparr>it_index := it_index it + 1, it_ptr := HeapP (le_v (cell ?row ?o)),
          it_log_index := le_prev (cell ?row ?o), it_onseg := False, it_onlog := True\<rparr>"
      have nx: "nb_next it = Inr it'" using Suc.prems True Suc o' by (simp add: nb_next_def it'_def)
      have "collect es f it' = Inr (le_v (cell ?row ?o) # chain_vals ?row k' (le_prev (cell ?row ?o)))"
        using o'(3) n Suc.prems(9) True Suc by (intro collect_log) (auto simp: it'_def)
      then show ?thesis using n x np nx True Suc by (simp add: cells_Cons [of 1])
    qed
  qed
qed

lemma skip_log_ok:
  assumes "chain_ok row v k o'" "j \<le> k"
  shows "\<exists>o''. skip_log row j o' = Inr o'' \<and> chain_ok row v (k - j) o'' \<and>
    chain_vals row (k - j) o'' = drop j (chain_vals row k o')"
  using assms
proof (induction j arbitrary: k o')
  case (Suc j)
  then obtain k' where k: "k = Suc k'" by (cases k) auto
  then have o': "0 \<le> o'" "o' < len row" "chain_ok row v k' (le_prev (cell row o'))" "j \<le> k'"
    using Suc.prems by auto
  from Suc.IH [OF o'(3,4)] show ?case using k o' by auto
qed simp

section \<open>Neighborhoods\<close>

text \<open>The order in which a loop visits the edges of \<open>v\<close>, its pivot left out.\<close>

definition visit_order :: "dgraph \<Rightarrow> int \<Rightarrow> int list" where
  "visit_order g v = cells (edges g) (idx g v + 1) (onseg g v - 1)
     @ chain_vals (log_row g v) (nat (deg g v - onseg g v)) (off g v)"

lemma onseg_count_ok:
  assumes "wf_shape g" "0 \<le> v" "v < num_vertices g"
  shows "onseg_count g v = Inr (onseg g v)"
  using assms wf_shapeD(4) [OF assms(1)]
  by (auto simp: onseg_count_def onseg_def start_def idx_def off_def deg_def)

lemma cells_drop:
  assumes "0 \<le> j" "j \<le> m"
  shows "drop (nat j) (cells es a m) = cells es (a + j) (m - j)"
  using assms by (intro nth_equalityI) (auto simp: nat_diff_distrib add.assoc)

lemma out_neighbors_ok:
  assumes W: "wf_layout g" and v: "0 \<le> v" "v < num_vertices g" and k: "0 \<le> k" "k < deg g v" "deg g v < 2 ^ 31"
  shows "out_neighbors g v k = Inr (drop (nat k) (visit_order g v))"
proof -
  note shp = wf_layoutD(1) [OF W] and ok = vertex_okD [OF wf_layoutD(2) [OF W v]]
  note w = wf_shapeD [OF shp] and sg = seg_of_range [OF shp v]
  let ?x = "cell (vertices g) v" and ?row = "log_row g v"
  define c where "c = nat (deg g v - onseg g v)"
  have c: "int c = deg g v - onseg g v" "chain_ok ?row v c (off g v)" using ok by (simp_all add: c_def)
  have rds: "rd (vertices g) v = Inr ?x" "rd (log_ptr g) (cdiv v (segment_size g)) = Inr ?row"
    using v w sg by (simp_all add: log_row_def seg_of_def)
  have x: "v_degree ?x = deg g v" "v_index ?x = idx g v" "v_offset ?x = off g v"
    by (simp_all add: deg_def idx_def off_def)
  have t: "to_i32 (k + 1) = k + 1" using k by (intro to_i32_id) auto
  have bound: "idx g v + onseg g v \<le> len (edges g)"
    using ok(5) start_le_cap [OF W, of "v + 1"] v w(5) by simp
  show ?thesis
  proof (cases "k + 1 < deg g v")
    case False
    then have e: "k + 1 = deg g v" using k by simp
    have "length (visit_order g v) = nat (onseg g v - 1) + c" by (simp add: visit_order_def c_def)
    also have "\<dots> = nat k" using e c(1) ok(2) by linarith
    finally have "drop (nat k) (visit_order g v) = []" by simp
    moreover have "min (k + 1) (deg g v) = deg g v" using e by simp
    ultimately show ?thesis using e t
      by (cases "nat (deg g v)") (simp_all add: out_neighbors_def out_neigh_def onseg_count_ok [OF shp v] rds
          Neighborhood_def Let_def x nb_begin_it_def)
  next
    case True
    then have m: "min (k + 1) (deg g v) = k + 1" by simp
    show ?thesis
    proof (cases "k + 1 < onseg g v")
      case on: True
      define nb where "nb = \<lparr>nb_src = ?x, nb_log = ?row, nb_start_offset = k + 1, nb_onseg_edges = onseg g v,
                nb_log_index = off g v, nb_begin = SegP (idx g v + (k + 1)), nb_onseg = True, nb_onlog = False\<rparr>"
      have "out_neigh g v k = Inr nb"
        using True on by (simp add: out_neigh_def onseg_count_ok [OF shp v] rds Neighborhood_def Let_def x t m nb_def)
      moreover have "collect (edges g) (nat (deg g v)) (nb_begin_it nb)
          = Inr (cells (edges g) (idx g v + (k + 1)) (onseg g v - (k + 1))
              @ chain_vals (it_log (nb_begin_it nb)) c (it_log_index (nb_begin_it nb)))"
        using on ok c k bound
        by (intro collect_seg [of _ _ _ _ v]) (auto simp: nb_begin_it_def nb_def x nat_diff_distrib)
      moreover have "drop (nat k) (visit_order g v) = cells (edges g) (idx g v + (k + 1)) (onseg g v - (k + 1))
              @ chain_vals ?row c (off g v)"
        using on k cells_drop [of k "onseg g v - 1" "edges g" "idx g v + 1"]
        by (simp add: visit_order_def c_def algebra_simps)
      ultimately show ?thesis by (simp add: out_neighbors_def nb_def nb_begin_it_def x)
    next
      case off': False
      define j where "j = nat (k + 1 - onseg g v)"
      have jc: "j < c" using True off' c(1) by (simp add: j_def)
      then obtain o' where s: "skip_log ?row j (off g v) = Inr o'" "chain_ok ?row v (c - j) o'"
        "chain_vals ?row (c - j) o' = drop j (chain_vals ?row c (off g v))"
        using skip_log_ok [OF c(2), of j] by auto
      obtain c' where c': "c - j = Suc c'" using jc by (cases "c - j") auto
      have o': "0 \<le> o'" "o' < len ?row" "chain_ok ?row v c' (le_prev (cell ?row o'))" using s(2) c' by auto
      define nb where "nb = \<lparr>nb_src = ?x, nb_log = ?row, nb_start_offset = k + 1, nb_onseg_edges = onseg g v,
                nb_log_index = le_prev (cell ?row o'), nb_begin = HeapP (le_v (cell ?row o')), nb_onseg = False, nb_onlog = True\<rparr>"
      have "out_neigh g v k = Inr nb"
        using True off' s(1) o'
        by (simp add: out_neigh_def onseg_count_ok [OF shp v] rds Neighborhood_def Let_def x t m nb_def flip: j_def)
      moreover have "collect (edges g) (nat (deg g v)) (nb_begin_it nb)
          = Inr (le_v (cell ?row o') # chain_vals ?row c' (le_prev (cell ?row o')))"
      proof (rule collect_log [OF o'(3)])
        show "c' < nat (deg g v)" using c' jc c(1) ok(2) by linarith
      qed (simp_all add: nb_begin_it_def nb_def)
      moreover have "drop (nat k) (visit_order g v) = chain_vals ?row (c - j) o'"
      proof -
        have "nat k - nat (onseg g v - 1) = j" "nat (onseg g v - 1) \<le> nat k" using off' ok(2) k by (simp_all add: j_def)
        then show ?thesis by (simp add: visit_order_def s(3) flip: c_def)
      qed
      ultimately show ?thesis using c' by (simp add: out_neighbors_def nb_def nb_begin_it_def x)
    qed
  qed
qed

text \<open>As a multiset, what is visited is the adjacency list without the pivot.\<close>

lemma visit_order_mset:
  assumes "vertex_ok g v"
  shows "mset (visit_order g v) = mset (tl (vlist g v))"
proof -
  have "cells (edges g) (idx g v) (onseg g v) = cell (edges g) (idx g v) # cells (edges g) (idx g v + 1) (onseg g v - 1)"
    using vertex_okD(2) [OF assms] by (intro cells_Cons) simp
  then show ?thesis by (simp add: visit_order_def vlist_def)
qed

section \<open>VertexOffsets and the sanity checker\<close>

lemma vertex_offsets_fault:
  assumes "wf_shape g" "0 \<le> n" "n \<le> num_vertices g"
  shows "vertex_offsets_from g n = Inl OutOfBounds"
  using assms(2,3)
proof (induction "nat (num_vertices g - n)" arbitrary: n)
  case 0
  then have "n = num_vertices g" by simp
  then show ?case using wf_shapeD(4) [OF assms(1)] by (subst vertex_offsets_from.simps) (simp add: rd_out)
next
  case (Suc m)
  have "0 < num_vertices g" using wf_shapeD [OF assms(1)] by simp
  then show ?case using Suc wf_shapeD(4) [OF assms(1)] by (subst vertex_offsets_from.simps) simp
qed

lemma sanity_ok:
  assumes W: "wf_layout g" and nolog: "\<And>v. 0 \<le> v \<Longrightarrow> v < num_vertices g \<Longrightarrow> off g v = -1" and "1 \<le> n"
  shows "sanity_from g n = Inr ()"
  using assms(3)
proof (induction "nat (num_vertices g - n)" arbitrary: n)
  case 0
  then show ?case by (subst sanity_from.simps) simp
next
  case (Suc m)
  then have n: "n < num_vertices g" by simp
  have "vertex_ok g (n - 1)" using Suc.prems n by (intro wf_layoutD(2) [OF W]) auto
  from vertex_okD(5) [OF this] have "idx g (n - 1) + deg g (n - 1) \<le> idx g n"
    using nolog [of "n - 1"] Suc.prems n by (simp add: onseg_def start_idx)
  then show ?case using Suc n wf_shapeD(4) [OF wf_layoutD(1) [OF W]]
    by (subst sanity_from.simps) (simp add: idx_def deg_def)
qed

lemma sanity_checker_ok:
  assumes W: "wf_layout g" and nolog: "\<And>v. 0 \<le> v \<Longrightarrow> v < num_vertices g \<Longrightarrow> off g v = -1"
  shows "edge_list_boundary_sanity_checker g = Inr ()"
proof -
  note w = wf_shapeD [OF wf_layoutD(1) [OF W]]
  have l: "0 \<le> num_vertices g - 1" using w by simp
  have "vertex_ok g (num_vertices g - 1)" using l by (intro wf_layoutD(2) [OF W]) auto
  from vertex_okD(5) [OF this] have "idx g (num_vertices g - 1) + deg g (num_vertices g - 1) \<le> elem_capacity g"
    using nolog [of "num_vertices g - 1"] l by (simp add: onseg_def start_def)
  then show ?thesis using l w sanity_ok [OF W nolog, of 1]
    by (simp add: edge_list_boundary_sanity_checker_def idx_def deg_def)
qed

end
