(* ===== verification/DgapExample.thy ===== *)
theory DgapExample
  imports DgapTopOk DgapNeighOk
begin

text \<open>
  Small graphs that satisfy the invariant, for the applications of the theorems: two vertices, two
  segments, with free cells (\<open>demo\<close>), with the last vertex grown into its log (\<open>demo_logged\<close>), and
  packed without gaps (\<open>demo_packed\<close>).
\<close>

definition demo_graph :: "int list \<Rightarrow> int \<Rightarrow> int \<Rightarrow> int \<Rightarrow> int \<Rightarrow> int \<Rightarrow> LogEntry list \<Rightarrow> int \<Rightarrow> dgraph" where
  "demo_graph es d0 i1 d1 o1 ne row1 li1 =
     \<lparr>num_vertices = 2, num_edges = ne, avg_degree = 1, elem_capacity = len es, segment_size = 1,
      segment_count = 2, tree_height = 1, delta_up = delta_up_of 1, directed = True, edges = es,
      vertices = [\<lparr>v_index = 0, v_degree = d0, v_offset = -1\<rparr>, \<lparr>v_index = i1, v_degree = d1, v_offset = o1\<rparr>],
      log_ptr = [replicate 170 zero_entry, row1], log_segment_idx = [0, li1],
      segment_edges_actual = [0, 0, d0, d1], segment_edges_total = [0, 0, i1, len es - i1],
      leaf_segments = [new_leaf, new_leaf], ulog_ptr = [replicate 512 0], oplog_ptr = [0], flushes = []\<rparr>"

definition demo :: dgraph where
  "demo = demo_graph [0, 1, 0, 0, -1, 0, 0, 0] 2 4 1 (-1) 3 (replicate 170 zero_entry) 0"

definition demo_logged :: dgraph where
  "demo_logged = demo_graph [0, 1, -1, 7] 2 2 3 0 5
     (\<lparr>le_u = 1, le_v = 9, le_prev = -1\<rparr> # replicate 169 zero_entry) 1"

definition demo_packed :: dgraph where
  "demo_packed = demo_graph [0, 1, 1, -1, 7, 8] 3 3 3 (-1) 6 (replicate 170 zero_entry) 0"

lemma all_int2: "(\<forall>v::int. 0 \<le> v \<and> v < 2 \<longrightarrow> P v) \<longleftrightarrow> P 0 \<and> P 1"
proof
  assume a: "P 0 \<and> P 1"
  show "\<forall>v::int. 0 \<le> v \<and> v < 2 \<longrightarrow> P v"
  proof (intro allI impI)
    fix v :: int assume "0 \<le> v \<and> v < 2"
    then have "v = 0 \<or> v = 1" by auto
    then show "P v" using a by auto
  qed
qed auto

lemma atLeastLessThan_int_12: "{0..<1::int} = {0}" "{0..<2::int} = {0, 1}" "{1..<2::int} = {1}"
  by auto

lemmas demo_simps = demo_graph_def idx_def deg_def off_def start_def onseg_def log_row_def seg_of_def
  degsum_def all_int2 atLeastLessThan_int_12 cell_Cons_pos MAX_LOG_ENTRIES_def

lemma demo_shape:
  assumes "len row1 = 170" "0 \<le> li1" "li1 \<le> 170"
  shows "wf_shape (demo_graph es d0 i1 d1 o1 ne row1 li1)"
  using assms by (simp add: wf_shape_def demo_simps)

lemma demo_wf:
  assumes "len row1 = 170" "0 \<le> li1" "li1 \<le> 170" "o1 < li1" "-1 \<le> o1" "1 \<le> d0" "d0 \<le> i1" "ne = d0 + d1"
    and "1 \<le> (if o1 = -1 then d1 else len es - i1)" "(if o1 = -1 then d1 else len es - i1) \<le> d1"
    and "i1 + (if o1 = -1 then d1 else len es - i1) \<le> len es"
    and "chain_ok row1 1 (nat (d1 - (if o1 = -1 then d1 else len es - i1))) o1"
  shows "wf (demo_graph es d0 i1 d1 o1 ne row1 li1)"
proof -
  let ?g = "demo_graph es d0 i1 d1 o1 ne row1 li1"
  have n: "num_vertices ?g = 2" "segment_count ?g = 2" by (simp_all add: demo_graph_def)
  have "vertex_ok ?g 0" using assms by (simp add: vertex_ok_def demo_simps)
  moreover have "vertex_ok ?g 1" using assms by (auto simp: vertex_ok_def demo_simps)
  moreover note demo_shape [OF assms(1-3)]
  moreover have "log_ok ?g" using assms by (simp add: log_ok_def demo_simps)
  moreover have "counts_ok ?g" using assms by (simp add: counts_ok_def demo_simps)
  ultimately show ?thesis by (simp add: wf_def wf_layout_def n all_int2)
qed

lemma demo_inv:
  assumes "wf (demo_graph es d0 i1 d1 o1 ne row1 li1)" "2 \<le> len es" "0 < li1 \<longrightarrow> d1 < len es - i1"
  shows "inv (demo_graph es d0 i1 d1 o1 ne row1 li1)"
  using assms
  by (simp add: inv_def pma_ok_def quiet_def room_ok_def seg_actual_def seg_total_def demo_simps)

lemma demo_ulog [simp]: "ulog_ready 0 (demo_graph es d0 i1 d1 o1 ne row1 li1)"
  by (simp add: ulog_ready_def demo_graph_def MAX_ULOG_ENTRIES_def)

lemma demo_inv_demo: "inv demo" "ulog_ready 0 demo"
  unfolding demo_def by (rule demo_inv [OF demo_wf], simp_all)

lemma demo_inv_packed: "inv demo_packed" "ulog_ready 0 demo_packed"
  unfolding demo_packed_def by (rule demo_inv [OF demo_wf], simp_all)

lemma demo_wf_logged: "wf demo_logged"
  unfolding demo_logged_def by (rule demo_wf) (simp_all add: cell_Cons_pos)

lemma demo_fields:
  "num_vertices demo = 2" "elem_capacity demo = 8" "tree_height demo = 1" "num_edges demo = 3"
  "num_vertices demo_packed = 2" "elem_capacity demo_packed = 6" "tree_height demo_packed = 1" "num_edges demo_packed = 6"
  "num_vertices demo_logged = 2" "elem_capacity demo_logged = 4" "num_edges demo_logged = 5" "off demo_logged 1 = 0"
  "segment_count demo = 2" "segment_size demo = 1"
  by (simp_all add: demo_def demo_packed_def demo_logged_def demo_simps)

end
