(* ===== verification/DgapClaims.thy ===== *)
theory DgapClaims
  imports DgapExample
begin

text \<open>
  The properties of the graph of \<^verbatim>\<open>dgap/src/graph.h\<close>, each with an application to a concrete graph.
\<close>

section \<open>Insertion\<close>

text \<open>C1: \<^verbatim>\<open>insert(src, dst)\<close>, run by one thread on a graph that satisfies the invariant. If the insertion gets to its
  call of \<^verbatim>\<open>resize_V1\<close> (\<open>resize_point\<close> is the graph that call gets) and the last vertex has edges in its log there,
  \<^verbatim>\<open>resize_V1\<close> leaves the edge array and the insertion fails with it. In every other case, whichever way it takes
  (in place, in the log, rebalancing a segment because its log is full, rebalancing a window of the tree, doubling
  the array), it returns with every lock released and the invariant restored; the new edge is the last one of
  \<open>src\<close> and no other vertex changes.\<close>

theorem insert_appends:
  assumes "inv g" and "ulog_ready tid g" and "0 \<le> src" "src < num_vertices g"
    and "tree_height g \<le> 2 ^ 20" and "elem_capacity g * 2 \<le> 2 ^ 24"
  shows "if resize_overruns vn em tid src dst g
    then insert_edge vn em tid src dst g = Inl OutOfBounds \<and>
      (\<exists>h. resize_point vn em tid src dst g = Inr (Some h) \<and> off h (num_vertices h - 1) \<noteq> -1 \<and> resize_V1 h = Inl OutOfBounds)
    else \<exists>g'. insert_edge vn em tid src dst g = Inr g' \<and> inv g' \<and> ulog_ready tid g' \<and> appended src dst g g'"
  by (rule insert_edge_ok [OF assms])

theorem insert_appends_witness:
  "\<exists>g'. insert_edge 0 (\<lambda>_. 0) 0 0 5 demo = Inr g' \<and> inv g' \<and> ulog_ready 0 g' \<and> appended 0 5 demo g'"
proof -
  have "if resize_overruns 0 (\<lambda>_. 0) 0 0 5 demo
    then insert_edge 0 (\<lambda>_. 0) 0 0 5 demo = Inl OutOfBounds \<and>
      (\<exists>h. resize_point 0 (\<lambda>_. 0) 0 0 5 demo = Inr (Some h) \<and> off h (num_vertices h - 1) \<noteq> -1 \<and> resize_V1 h = Inl OutOfBounds)
    else \<exists>g'. insert_edge 0 (\<lambda>_. 0) 0 0 5 demo = Inr g' \<and> inv g' \<and> ulog_ready 0 g' \<and> appended 0 5 demo g'"
    by (rule insert_appends) (simp_all add: demo_inv_demo demo_fields)
  moreover have "\<not> resize_overruns 0 (\<lambda>_. 0) 0 0 5 demo"
    using insert_half_full [OF demo_inv_demo, of 0 0 "\<lambda>_. 0" 5] by (simp add: demo_fields)
  ultimately show ?thesis by simp
qed

text \<open>C2: \<^verbatim>\<open>rebalance_weighted\<close> on a window of whole segments with a free cell: no assertion of it or of
  \<^verbatim>\<open>calculate_positions\<close> fails, no access leaves an array whatever the read past the vertex array
  returns, every vertex of the graph keeps its edges in order with the logged ones merged behind,
  the logs of the window are empty and the counters right again.\<close>

theorem rebalance_keeps_edges:
  assumes "wf g" and "ulog_ready tid g" and "0 \<le> a" "a < b" "b \<le> segment_count g"
    and "used = degsum g (a * segment_size g) (b * segment_size g)"
    and "tot = start g (b * segment_size g) - start g (a * segment_size g)"
    and "used < tot" and "elem_capacity g \<le> 2 ^ 24"
  shows "\<exists>g'. rebalance_weighted vn em tid (a * segment_size g) (b * segment_size g) used tot g = Inr g'
     \<and> wf g' \<and> (\<forall>v. 0 \<le> v \<and> v < num_vertices g \<longrightarrow> vlist g' v = vlist g v) \<and>
     (\<forall>v. a * segment_size g \<le> v \<and> v < b * segment_size g \<longrightarrow> off g' v = -1) \<and>
     (\<forall>i. a \<le> i \<and> i < b \<longrightarrow> cell (log_segment_idx g') i = 0)"
  using rebalance_weighted_ok [OF assms, of vn em] by (auto simp: rebalanced_def)

theorem rebalance_keeps_edges_witness:
  "\<exists>g'. rebalance_weighted 0 (\<lambda>_. 0) 0 (0 * segment_size demo) (2 * segment_size demo)
      (degsum demo (0 * segment_size demo) (2 * segment_size demo))
      (start demo (2 * segment_size demo) - start demo (0 * segment_size demo)) demo = Inr g'
     \<and> wf g' \<and> (\<forall>v. 0 \<le> v \<and> v < num_vertices demo \<longrightarrow> vlist g' v = vlist demo v) \<and>
     (\<forall>v. 0 * segment_size demo \<le> v \<and> v < 2 * segment_size demo \<longrightarrow> off g' v = -1) \<and>
     (\<forall>i. 0 \<le> i \<and> i < 2 \<longrightarrow> cell (log_segment_idx g') i = 0)"
  by (rule rebalance_keeps_edges [OF invD(1) [OF demo_inv_demo(1)] demo_inv_demo(2)])
    (simp_all add: demo_fields, simp add: demo_def demo_simps)

text \<open>C3: \<^verbatim>\<open>do_insertion\<close> appends the edge, in the array or in the log; when the log of the segment is
  full it first merges it, which needs a free cell in the segment.\<close>

theorem do_insertion_appends:
  assumes "wf g" and "0 \<le> src" "src < num_vertices g" and "ulog_ready tid g"
    and "elem_capacity g \<le> 2 ^ 24" and "room_ok g (seg_of g src)"
  shows "\<exists>g'. do_insertion vn em tid src dst (get_segment_id g src) g = Inr g'
     \<and> wf g' \<and> vlist g' src = vlist g src @ [dst] \<and>
     (\<forall>v. 0 \<le> v \<and> v < num_vertices g \<and> v \<noteq> src \<longrightarrow> vlist g' v = vlist g v) \<and>
     seg_actual g' (seg_of g src) = seg_actual g (seg_of g src) + 1"
  using do_insertion_ok [OF assms, of vn em dst] by (auto simp: inserted_def ins_frame_def)

theorem do_insertion_appends_witness:
  "\<exists>g'. do_insertion 0 (\<lambda>_. 0) 0 1 6 (get_segment_id demo_packed 1) demo_packed = Inr g'
     \<and> wf g' \<and> vlist g' 1 = vlist demo_packed 1 @ [6] \<and>
     (\<forall>v. 0 \<le> v \<and> v < num_vertices demo_packed \<and> v \<noteq> 1 \<longrightarrow> vlist g' v = vlist demo_packed v) \<and>
     seg_actual g' (seg_of demo_packed 1) = seg_actual demo_packed (seg_of demo_packed 1) + 1"
  by (rule do_insertion_appends [OF invD(1) [OF demo_inv_packed(1)] _ _ demo_inv_packed(2)])
    (simp_all add: demo_fields, simp add: demo_packed_def demo_simps room_ok_def)

section \<open>Positions and resizing\<close>

text \<open>C4: \<^verbatim>\<open>calculate_positions\<close>, computed in doubles: neither of its assertions fails and the new
  indices start at the first vertex's old one, leave every vertex room for its edges and end before
  the boundary, for windows that end below cell \<open>2\<^sup>2\<^sup>4\<close> and have a free cell, as the windows
  of all callers have.\<close>

theorem positions_correct:
  assumes "0 \<le> s" "s < e" and "e \<le> num_vertices g" and "len (vertices g) = num_vertices g"
    and "\<And>v. s \<le> v \<Longrightarrow> v < e \<Longrightarrow> 1 \<le> deg g v"
    and "index_boundary g e = Inr b" "b \<le> 2 ^ 24"
    and "0 \<le> idx g s" and "0 < gaps" and "idx g s + degsum g s e + gaps \<le> b"
  shows "\<exists>ns. calculate_positions g s e gaps (degsum g s e) = Inr ns
           \<and> positions_fit g s e b ns \<and> cell ns 0 = idx g s"
  by (rule calculate_positions_ok [OF assms])

theorem positions_correct_witness:
  "\<exists>ns. calculate_positions demo 0 2 5 (degsum demo 0 2) = Inr ns
           \<and> positions_fit demo 0 2 8 ns \<and> cell ns 0 = idx demo 0"
proof (rule positions_correct)
  fix v :: int assume "0 \<le> v" "v < 2"
  then have "v = 0 \<or> v = 1" by auto
  then show "1 \<le> deg demo v" by (auto simp: demo_def demo_simps)
qed (simp_all add: demo_def demo_simps index_boundary_def)

text \<open>C5: \<^verbatim>\<open>resize_V1\<close> doubles the array and every vertex keeps its edges, all of them in the array
  now, when the last vertex has none in its log.\<close>

theorem resize_keeps_edges:
  assumes "wf g" and "off g (num_vertices g - 1) = -1" and "elem_capacity g * 2 \<le> 2 ^ 24"
    and "num_edges g < elem_capacity g * 2"
  shows "\<exists>g'. resize_V1 g = Inr g' \<and> wf g' \<and> elem_capacity g' = elem_capacity g * 2 \<and>
     (\<forall>v. 0 \<le> v \<and> v < num_vertices g \<longrightarrow> vlist g' v = vlist g v) \<and>
     (\<forall>i. 0 \<le> i \<and> i < segment_count g \<longrightarrow> cell (log_segment_idx g') i = 0)"
  using resize_V1_ok [OF assms] by (auto simp: resized_def)

theorem resize_keeps_edges_witness:
  "\<exists>g'. resize_V1 demo = Inr g' \<and> wf g' \<and> elem_capacity g' = elem_capacity demo * 2 \<and>
     (\<forall>v. 0 \<le> v \<and> v < num_vertices demo \<longrightarrow> vlist g' v = vlist demo v) \<and>
     (\<forall>i. 0 \<le> i \<and> i < segment_count demo \<longrightarrow> cell (log_segment_idx g') i = 0)"
  by (rule resize_keeps_edges [OF invD(1) [OF demo_inv_demo(1)]])
    (simp_all add: demo_fields, simp add: demo_def demo_simps)

text \<open>C6: when the last vertex has edges in its log, \<^verbatim>\<open>resize_V1\<close> copies up to the end of the doubled
  array and leaves the old one.\<close>

theorem resize_last_vertex_overrun:
  assumes "wf g" and "off g (num_vertices g - 1) \<noteq> -1" and "elem_capacity g * 2 \<le> 2 ^ 24"
    and "num_edges g < elem_capacity g * 2"
  shows "resize_V1 g = Inl OutOfBounds"
  by (rule resize_V1_fault [OF assms])

theorem resize_last_vertex_overrun_witness: "resize_V1 demo_logged = Inl OutOfBounds"
  by (rule resize_last_vertex_overrun [OF demo_wf_logged]) (simp_all add: demo_fields)

section \<open>Reading\<close>

text \<open>C7: a loop over \<^verbatim>\<open>out_neigh(v, k)\<close> visits the edges of \<open>v\<close> in the array in insertion order, then
  those in the log, newest first, skipping the first \<open>k\<close>; it never follows a pointer outside the
  array or the log.\<close>

theorem out_neigh_visits:
  assumes "wf_layout g" and "0 \<le> v" "v < num_vertices g" and "0 \<le> k" "k < deg g v" "deg g v < 2 ^ 31"
  shows "out_neighbors g v k = Inr (drop (nat k) (visit_order g v)) \<and> mset (visit_order g v) = mset (tl (vlist g v))"
  using out_neighbors_ok [OF assms] visit_order_mset [OF wf_layoutD(2) [OF assms(1-3)]] by simp

theorem out_neigh_visits_witness:
  "out_neighbors demo_logged 1 0 = Inr (drop (nat 0) (visit_order demo_logged 1)) \<and>
   mset (visit_order demo_logged 1) = mset (tl (vlist demo_logged 1))"
  by (rule out_neigh_visits [OF wfD(1) [OF demo_wf_logged]]) (simp_all add: demo_fields, simp_all add: demo_logged_def demo_simps)

end
