(* ===== verification/KernelCc.thy ===== *)
theory KernelCc
  imports Prelude
begin

text \<open>
  The connected-components kernel \<^verbatim>\<open>cc_sv.cc\<close>, run by one thread, over what it uses of a graph: the number of
  nodes and the loop over \<^verbatim>\<open>out_neigh\<close>. \<^verbatim>\<open>while\<close> loops have fuel and end in \<open>Diverged\<close> when it runs out;
  the lemmas show that it never does.
\<close>

section \<open>Hooking\<close>

text \<open>One edge \<open>(u, v)\<close>; the state is \<^verbatim>\<open>comp\<close> with \<^verbatim>\<open>change\<close>.\<close>

definition cc_hook :: "int \<Rightarrow> int \<Rightarrow> int list \<times> bool \<Rightarrow> (int list \<times> bool) res" where
  "cc_hook u v = (\<lambda>(cmp, change).
     sbind (rd cmp u) (\<lambda>comp_u.
     sbind (rd cmp v) (\<lambda>comp_v.
     if comp_u = comp_v then Inr (cmp, change)
     else let high_comp = (if comp_u > comp_v then comp_u else comp_v);
              low_comp = comp_u + (comp_v - high_comp) in
       sbind (rd cmp high_comp) (\<lambda>h.
       if high_comp = h then sbind (wr cmp high_comp low_comp) (\<lambda>cmp. Inr (cmp, True))
       else Inr (cmp, change)))))"

fun cc_edges :: "int \<Rightarrow> int list \<Rightarrow> int list \<times> bool \<Rightarrow> (int list \<times> bool) res" where
  "cc_edges u [] s = Inr s"
| "cc_edges u (v # vs) s = sbind (cc_hook u v s) (cc_edges u vs)"

function cc_nodes :: "(int \<Rightarrow> int list res) \<Rightarrow> int \<Rightarrow> int \<Rightarrow> int list \<times> bool \<Rightarrow> (int list \<times> bool) res" where
  "cc_nodes out_neigh n u s =
     (if u < n then sbind (out_neigh u) (\<lambda>vs. sbind (cc_edges u vs s) (cc_nodes out_neigh n (u + 1))) else Inr s)"
  by pat_completeness auto
termination
  by (relation "measure (\<lambda>(f, n, u, s). nat (n - u))") auto

declare cc_nodes.simps [simp del]

section \<open>Pointer jumping\<close>

fun cc_jump :: "nat \<Rightarrow> int \<Rightarrow> int list \<Rightarrow> int list res" where
  "cc_jump 0 n cmp = Inl Diverged"
| "cc_jump (Suc k) n cmp =
     sbind (rd cmp n) (\<lambda>c. sbind (rd cmp c) (\<lambda>d.
     if c \<noteq> d then sbind (wr cmp n d) (cc_jump k n) else Inr cmp))"

function cc_jumps :: "nat \<Rightarrow> int \<Rightarrow> int \<Rightarrow> int list \<Rightarrow> int list res" where
  "cc_jumps k num n cmp = (if n < num then sbind (cc_jump k n cmp) (cc_jumps k num (n + 1)) else Inr cmp)"
  by pat_completeness auto
termination
  by (relation "measure (\<lambda>(k, num, n, c). nat (num - n))") auto

declare cc_jumps.simps [simp del]

section \<open>The kernel\<close>

fun cc_rounds :: "nat \<Rightarrow> nat \<Rightarrow> (int \<Rightarrow> int list res) \<Rightarrow> int \<Rightarrow> int list \<Rightarrow> int list res" where
  "cc_rounds 0 k out_neigh n cmp = Inl Diverged"
| "cc_rounds (Suc r) k out_neigh n cmp =
     sbind (cc_nodes out_neigh n 0 (cmp, False)) (\<lambda>(cmp, change).
     sbind (cc_jumps k n 0 cmp) (\<lambda>cmp.
     if change then cc_rounds r k out_neigh n cmp else Inr cmp))"

text \<open>\<open>n + 1\<close> jumps are enough for one node, \<open>n\<^sup>2 + 1\<close> rounds for all.\<close>

definition ShiloachVishkin :: "int \<Rightarrow> (int \<Rightarrow> int list res) \<Rightarrow> int list res" where
  "ShiloachVishkin num_nodes out_neigh =
     cc_rounds (nat (num_nodes * num_nodes) + 1) (nat num_nodes + 1) out_neigh num_nodes [0..num_nodes - 1]"

section \<open>What it computes\<close>

text \<open>A class of graphs whose neighbourhoods can be read: \<open>adj\<close> is what the loop over \<^verbatim>\<open>out_neigh\<close> visits.\<close>

locale readable_graphs =
  fixes ok :: "'g \<Rightarrow> bool"
    and num_nodes :: "'g \<Rightarrow> int"
    and out_neigh :: "'g \<Rightarrow> int \<Rightarrow> int list res"
    and adj :: "'g \<Rightarrow> int \<Rightarrow> int list"
  assumes num_nodes_nonneg: "ok g \<Longrightarrow> 0 \<le> num_nodes g"
    and out_neigh_reads: "ok g \<Longrightarrow> 0 \<le> v \<Longrightarrow> v < num_nodes g \<Longrightarrow> out_neigh g v = Inr (adj g v)"
    and adj_range: "ok g \<Longrightarrow> 0 \<le> v \<Longrightarrow> v < num_nodes g \<Longrightarrow> u \<in> set (adj g v) \<Longrightarrow> 0 \<le> u \<and> u < num_nodes g"

text \<open>The edges, and being connected by edges in either direction.\<close>

definition edge_rel :: "int \<Rightarrow> (int \<Rightarrow> int list) \<Rightarrow> (int \<times> int) set" where
  "edge_rel n nb = {(u, v). 0 \<le> u \<and> u < n \<and> v \<in> set (nb u)}"

definition linked :: "int \<Rightarrow> (int \<Rightarrow> int list) \<Rightarrow> (int \<times> int) set" where
  "linked n nb = (edge_rel n nb \<union> (edge_rel n nb)\<inverse>)\<^sup>*"

lemma linked_sym: "(u, v) \<in> linked n nb \<Longrightarrow> (v, u) \<in> linked n nb"
proof -
  have "sym (linked n nb)" unfolding linked_def by (intro sym_rtrancl) (auto simp: sym_def)
  then show "(u, v) \<in> linked n nb \<Longrightarrow> (v, u) \<in> linked n nb" by (rule symD)
qed

lemma linked_refl [simp]: "(u, u) \<in> linked n nb"
  by (simp add: linked_def)

lemma linked_trans: "(u, v) \<in> linked n nb \<Longrightarrow> (v, w) \<in> linked n nb \<Longrightarrow> (u, w) \<in> linked n nb"
  unfolding linked_def by (rule rtrancl_trans)

lemma linked_edge: "0 \<le> u \<Longrightarrow> u < n \<Longrightarrow> v \<in> set (nb u) \<Longrightarrow> (u, v) \<in> linked n nb"
  unfolding linked_def edge_rel_def by (intro r_into_rtrancl) auto

text \<open>Labels that never exceed their node and stay in its component; all labels roots.\<close>

definition labels :: "int \<Rightarrow> (int \<Rightarrow> int list) \<Rightarrow> int list \<Rightarrow> bool" where
  "labels n nb cmp \<longleftrightarrow> len cmp = n \<and>
     (\<forall>x. 0 \<le> x \<and> x < n \<longrightarrow> 0 \<le> cell cmp x \<and> cell cmp x \<le> x \<and> (x, cell cmp x) \<in> linked n nb)"

definition rooted :: "int \<Rightarrow> int list \<Rightarrow> bool" where
  "rooted n cmp \<longleftrightarrow> (\<forall>x. 0 \<le> x \<and> x < n \<longrightarrow> cell cmp (cell cmp x) = cell cmp x)"

definition weight :: "int \<Rightarrow> int list \<Rightarrow> int" where
  "weight n cmp = (\<Sum>x\<in>{0..<n}. cell cmp x)"

lemma labelsD:
  assumes "labels n nb cmp"
  shows "len cmp = n" "0 \<le> x \<Longrightarrow> x < n \<Longrightarrow> 0 \<le> cell cmp x" "0 \<le> x \<Longrightarrow> x < n \<Longrightarrow> cell cmp x \<le> x"
    "0 \<le> x \<Longrightarrow> x < n \<Longrightarrow> (x, cell cmp x) \<in> linked n nb" "0 \<le> x \<Longrightarrow> x < n \<Longrightarrow> cell cmp x < n"
  using assms by (auto simp: labels_def intro: order_le_less_trans)

lemma labels_upd:
  assumes "labels n nb cmp" "0 \<le> x" "x < n" "0 \<le> y" "y \<le> x" "(x, y) \<in> linked n nb"
  shows "labels n nb (upd cmp x y)"
  using assms by (auto simp: labels_def cell_upd)

lemma weight_upd:
  assumes "len cmp = n" "0 \<le> x" "x < n"
  shows "weight n (upd cmp x y) = weight n cmp - cell cmp x + y"
proof -
  have "{0..<n} = insert x ({0..<n} - {x})" using assms by auto
  then have "weight n c = cell c x + (\<Sum>i\<in>{0..<n} - {x}. cell c i)" for c
    unfolding weight_def by (metis Diff_iff finite_Diff finite_atLeastLessThan_int singletonI sum.insert)
  moreover have "(\<Sum>i\<in>{0..<n} - {x}. cell (upd cmp x y) i) = (\<Sum>i\<in>{0..<n} - {x}. cell cmp i)"
    using assms by (intro sum.cong) auto
  ultimately show ?thesis using assms by simp
qed

lemma weight_nonneg: "labels n nb cmp \<Longrightarrow> 0 \<le> weight n cmp"
  unfolding weight_def by (rule sum_nonneg) (auto dest: labelsD)

lemma weight_bound: "labels n nb cmp \<Longrightarrow> 0 \<le> n \<Longrightarrow> weight n cmp \<le> n * n"
proof -
  assume a: "labels n nb cmp" "0 \<le> n"
  have "weight n cmp \<le> (\<Sum>x\<in>{0..<n}. n)"
    unfolding weight_def by (rule sum_mono) (use labelsD(5) [OF a(1)] in force)
  then show ?thesis using a(2) by simp
qed

section \<open>Hooking keeps the labels\<close>

text \<open>Either nothing happens and the labels of the edge's ends agree, or a label gets smaller.\<close>

definition hooked :: "int \<Rightarrow> (int \<Rightarrow> int list) \<Rightarrow> int list \<times> bool \<Rightarrow> int list \<times> bool \<Rightarrow> bool" where
  "hooked n nb s s' \<longleftrightarrow> labels n nb (fst s') \<and> (s' = s \<or> snd s' \<and> weight n (fst s') < weight n (fst s))"

lemma hooked_trans: "hooked n nb s s1 \<Longrightarrow> hooked n nb s1 s2 \<Longrightarrow> hooked n nb s s2"
  by (auto simp: hooked_def)

lemma cc_hook_ok:
  assumes I: "labels n nb (fst s)" and u: "0 \<le> u" "u < n" and v: "v \<in> set (nb u)" "0 \<le> v" "v < n"
  shows "\<exists>s'. cc_hook u v s = Inr s' \<and> hooked n nb s s' \<and> (s' = s \<longrightarrow> rooted n (fst s) \<longrightarrow> \<not> snd s \<longrightarrow> cell (fst s) u = cell (fst s) v)"
proof -
  obtain cmp change where s: "s = (cmp, change)" by fastforce
  note I = I [unfolded s fst_conv]
  define cu cv where "cu = cell cmp u" and "cv = cell cmp v"
  have r: "rd cmp u = Inr cu" "rd cmp v = Inr cv" using u v labelsD(1) [OF I] by (simp_all add: cu_def cv_def)
  show ?thesis
  proof (cases "cu = cv")
    case True
    then show ?thesis using r I by (auto simp: s cc_hook_def hooked_def cu_def cv_def)
  next
    case False
    define hi lo where "hi = (if cu > cv then cu else cv)" and "lo = cu + (cv - hi)"
    have uv: "(u, cu) \<in> linked n nb" "(v, cv) \<in> linked n nb" "(u, v) \<in> linked n nb"
      using labelsD(4) [OF I] u v linked_edge by (auto simp: cu_def cv_def)
    then have "(cu, cv) \<in> linked n nb" by (meson linked_sym linked_trans)
    then have hl: "0 \<le> lo" "lo < hi" "hi < n" "(hi, lo) \<in> linked n nb"
      using False labelsD(2,5) [OF I u] labelsD(2,5) [OF I v(2,3)] by (auto simp: hi_def lo_def cu_def cv_def intro: linked_sym)
    have rh: "rd cmp hi = Inr (cell cmp hi)" using hl labelsD(1) [OF I] by simp
    show ?thesis
    proof (cases "hi = cell cmp hi")
      case True
      have "labels n nb (upd cmp hi lo)" using hl by (intro labels_upd [OF I]) auto
      moreover have "weight n (upd cmp hi lo) < weight n cmp"
        using weight_upd [OF labelsD(1) [OF I], of hi lo] hl True by simp
      moreover have "cc_hook u v s = Inr (upd cmp hi lo, True)"
        using r rh True False hl labelsD(1) [OF I] by (simp add: s cc_hook_def Let_def flip: hi_def lo_def)
      ultimately show ?thesis by (auto simp: hooked_def s)
    next
      case ne: False
      have "\<not> rooted n cmp" using ne u v by (auto simp: rooted_def hi_def cu_def cv_def split: if_splits)
      moreover have "cc_hook u v s = Inr s"
        using r rh ne False hl labelsD(1) [OF I] by (simp add: s cc_hook_def Let_def flip: hi_def lo_def)
      ultimately show ?thesis using I by (auto simp: hooked_def s)
    qed
  qed
qed

lemma cc_edges_ok:
  assumes "labels n nb (fst s)" and u: "0 \<le> u" "u < n" and v: "\<forall>v \<in> set vs. v \<in> set (nb u) \<and> 0 \<le> v \<and> v < n"
  shows "\<exists>s'. cc_edges u vs s = Inr s' \<and> hooked n nb s s' \<and>
    (s' = s \<longrightarrow> rooted n (fst s) \<longrightarrow> \<not> snd s \<longrightarrow> (\<forall>v \<in> set vs. cell (fst s) u = cell (fst s) v))"
  using assms(1) v
proof (induction vs arbitrary: s)
  case Nil
  then show ?case by (auto simp: hooked_def)
next
  case (Cons v vs)
  obtain s1 where s1: "cc_hook u v s = Inr s1" "hooked n nb s s1"
    "s1 = s \<longrightarrow> rooted n (fst s) \<longrightarrow> \<not> snd s \<longrightarrow> cell (fst s) u = cell (fst s) v"
    using cc_hook_ok [OF Cons.prems(1) u, of v] Cons.prems(2) by auto
  have "labels n nb (fst s1)" using s1(2) by (simp add: hooked_def)
  from Cons.IH [OF this] Cons.prems(2) obtain s2 where s2: "cc_edges u vs s1 = Inr s2" "hooked n nb s1 s2"
    "s2 = s1 \<longrightarrow> rooted n (fst s1) \<longrightarrow> \<not> snd s1 \<longrightarrow> (\<forall>v \<in> set vs. cell (fst s1) u = cell (fst s1) v)" by auto
  have eq: "s1 = s \<and> s2 = s1" if "s2 = s" using that s1(2) s2(2) by (auto simp: hooked_def)
  have "cc_edges u (v # vs) s = Inr s2" using s1(1) s2(1) by simp
  moreover have "\<forall>w \<in> set (v # vs). cell (fst s) u = cell (fst s) w" if "s2 = s" "rooted n (fst s)" "\<not> snd s"
    using eq [OF that(1)] s1(3) s2(3) that(2,3) by (metis set_ConsD)
  ultimately show ?case using hooked_trans [OF s1(2) s2(2)] by blast
qed

lemma cc_nodes_ok:
  assumes "labels n nb (fst s)" and f: "\<And>v. 0 \<le> v \<Longrightarrow> v < n \<Longrightarrow> f v = Inr (nb v)"
    and r: "\<And>u v. 0 \<le> u \<Longrightarrow> u < n \<Longrightarrow> v \<in> set (nb u) \<Longrightarrow> 0 \<le> v \<and> v < n" and u: "0 \<le> u"
  shows "\<exists>s'. cc_nodes f n u s = Inr s' \<and> hooked n nb s s' \<and>
    (s' = s \<longrightarrow> rooted n (fst s) \<longrightarrow> \<not> snd s \<longrightarrow> (\<forall>w v. u \<le> w \<longrightarrow> w < n \<longrightarrow> v \<in> set (nb w) \<longrightarrow> cell (fst s) w = cell (fst s) v))"
  using assms(1) u
proof (induction "nat (n - u)" arbitrary: u s)
  case 0
  then show ?case by (subst cc_nodes.simps) (auto simp: hooked_def)
next
  case (Suc k)
  have u: "0 \<le> u" "u < n" using Suc.hyps(2) Suc.prems by simp_all
  have "\<exists>s'. cc_edges u (nb u) s = Inr s' \<and> hooked n nb s s' \<and>
    (s' = s \<longrightarrow> rooted n (fst s) \<longrightarrow> \<not> snd s \<longrightarrow> (\<forall>v \<in> set (nb u). cell (fst s) u = cell (fst s) v))"
    by (rule cc_edges_ok [OF Suc.prems(1) u]) (use r [OF u] in blast)
  then obtain s1 where s1: "cc_edges u (nb u) s = Inr s1" "hooked n nb s s1"
    "s1 = s \<longrightarrow> rooted n (fst s) \<longrightarrow> \<not> snd s \<longrightarrow> (\<forall>v \<in> set (nb u). cell (fst s) u = cell (fst s) v)" by blast
  have "labels n nb (fst s1)" using s1(2) by (simp add: hooked_def)
  then have "\<exists>s'. cc_nodes f n (u + 1) s1 = Inr s' \<and> hooked n nb s1 s' \<and>
    (s' = s1 \<longrightarrow> rooted n (fst s1) \<longrightarrow> \<not> snd s1 \<longrightarrow> (\<forall>w v. u + 1 \<le> w \<longrightarrow> w < n \<longrightarrow> v \<in> set (nb w) \<longrightarrow> cell (fst s1) w = cell (fst s1) v))"
    by (intro Suc.hyps(1)) (use Suc.hyps(2) u in auto)
  then obtain s2 where s2: "cc_nodes f n (u + 1) s1 = Inr s2" "hooked n nb s1 s2"
    "s2 = s1 \<longrightarrow> rooted n (fst s1) \<longrightarrow> \<not> snd s1 \<longrightarrow> (\<forall>w v. u + 1 \<le> w \<longrightarrow> w < n \<longrightarrow> v \<in> set (nb w) \<longrightarrow> cell (fst s1) w = cell (fst s1) v)"
    by blast
  have run: "cc_nodes f n u s = Inr s2" using u f [OF u] s1(1) s2(1) by (subst cc_nodes.simps) simp
  have "s1 = s \<and> s2 = s1" if "s2 = s" using that s1(2) s2(2) by (auto simp: hooked_def)
  then have "\<forall>w v. u \<le> w \<longrightarrow> w < n \<longrightarrow> v \<in> set (nb w) \<longrightarrow> cell (fst s) w = cell (fst s) v"
    if "s2 = s" "rooted n (fst s)" "\<not> snd s"
    using that s1(3) s2(3) by (metis order_le_less zless_imp_add1_zle)
  then show ?case using run hooked_trans [OF s1(2) s2(2)] by blast
qed

section \<open>Pointer jumping makes roots\<close>

lemma cc_jump_ok:
  assumes "labels n nb cmp" "0 \<le> x" "x < n" "cell cmp x < int k"
  shows "\<exists>cmp'. cc_jump k x cmp = Inr cmp' \<and> labels n nb cmp' \<and> weight n cmp' \<le> weight n cmp \<and>
    (\<forall>y. 0 \<le> y \<and> y \<noteq> x \<longrightarrow> cell cmp' y = cell cmp y) \<and> cell cmp' (cell cmp' x) = cell cmp' x \<and>
    (rooted n cmp \<longrightarrow> cmp' = cmp)"
  using assms
proof (induction k arbitrary: cmp)
  case 0
  then show ?case using labelsD(2) by fastforce
next
  case (Suc k)
  note I = Suc.prems(1) and x = Suc.prems(2,3)
  define c d where "c = cell cmp x" and "d = cell cmp c"
  have c: "0 \<le> c" "c < n" "c \<le> x" using labelsD [OF I] x by (auto simp: c_def)
  have d: "0 \<le> d" "d \<le> c" using labelsD [OF I] c by (auto simp: d_def)
  have r: "rd cmp x = Inr c" "rd cmp c = Inr d" using x c labelsD(1) [OF I] by (simp_all add: c_def d_def)
  show ?case
  proof (cases "c = d")
    case True
    then show ?thesis using r I by (auto simp: c_def d_def)
  next
    case False
    have "(x, d) \<in> linked n nb" using labelsD(4) [OF I] x c linked_trans by (metis c_def d_def)
    then have J: "labels n nb (upd cmp x d)" using d c by (intro labels_upd [OF I x]) auto
    have w: "weight n (upd cmp x d) \<le> weight n cmp" using weight_upd [OF labelsD(1) [OF I] x, of d] d by (simp add: c_def)
    have "cell (upd cmp x d) x < int k" using Suc.prems(4) d False x labelsD(1) [OF I] by (simp flip: c_def)
    from Suc.IH [OF J x this] obtain cmp' where c': "cc_jump k x (upd cmp x d) = Inr cmp'" "labels n nb cmp'"
      "weight n cmp' \<le> weight n (upd cmp x d)" "\<forall>y. 0 \<le> y \<and> y \<noteq> x \<longrightarrow> cell cmp' y = cell (upd cmp x d) y"
      "cell cmp' (cell cmp' x) = cell cmp' x" by blast
    have "\<not> rooted n cmp" using False x by (auto simp: rooted_def c_def d_def)
    moreover have "cc_jump (Suc k) x cmp = Inr cmp'" using r False c'(1) x labelsD(1) [OF I] by simp
    moreover have "\<forall>y. 0 \<le> y \<and> y \<noteq> x \<longrightarrow> cell cmp' y = cell cmp y" using c'(4) x by auto
    ultimately show ?thesis using c' w by auto
  qed
qed

lemma cc_jumps_ok:
  assumes "labels n nb cmp" "0 \<le> x" "n < int k" "\<forall>y. 0 \<le> y \<and> y < x \<longrightarrow> y < n \<longrightarrow> cell cmp (cell cmp y) = cell cmp y"
  shows "\<exists>cmp'. cc_jumps k n x cmp = Inr cmp' \<and> labels n nb cmp' \<and> weight n cmp' \<le> weight n cmp \<and> rooted n cmp' \<and>
    (rooted n cmp \<longrightarrow> cmp' = cmp)"
  using assms
proof (induction "nat (n - x)" arbitrary: x cmp)
  case 0
  then show ?case by (subst cc_jumps.simps) (auto simp: rooted_def)
next
  case (Suc m)
  have x: "0 \<le> x" "x < n" using Suc.hyps(2) Suc.prems by simp_all
  have "cell cmp x < int k" using labelsD(5) [OF Suc.prems(1) x] Suc.prems(3) by simp
  from cc_jump_ok [OF Suc.prems(1) x this] obtain c1 where c1: "cc_jump k x cmp = Inr c1" "labels n nb c1" "weight n c1 \<le> weight n cmp"
    "\<forall>y. 0 \<le> y \<and> y \<noteq> x \<longrightarrow> cell c1 y = cell cmp y" "cell c1 (cell c1 x) = cell c1 x" "rooted n cmp \<longrightarrow> c1 = cmp" by blast
  have "cell c1 (cell c1 y) = cell c1 y" if y: "0 \<le> y" "y < x + 1" "y < n" for y
  proof (cases "y = x")
    case False
    then have "cell c1 y = cell cmp y" "0 \<le> cell cmp y" "cell cmp y \<le> y" using c1(4) y labelsD(2,3) [OF Suc.prems(1)] by auto
    then show ?thesis using c1(4) Suc.prems(4) y False by auto
  qed (simp add: c1(5))
  then have "\<exists>cmp'. cc_jumps k n (x + 1) c1 = Inr cmp' \<and> labels n nb cmp' \<and> weight n cmp' \<le> weight n c1 \<and> rooted n cmp' \<and>
    (rooted n c1 \<longrightarrow> cmp' = c1)" using Suc.hyps(2) Suc.prems x c1(2) by (intro Suc.hyps(1)) auto
  then show ?case using x c1 by (subst cc_jumps.simps) auto
qed

section \<open>The rounds\<close>

text \<open>The result: equal labels for linked nodes, and each label the least node of its component.\<close>

definition components :: "int \<Rightarrow> (int \<Rightarrow> int list) \<Rightarrow> int list \<Rightarrow> bool" where
  "components n nb cmp \<longleftrightarrow> len cmp = n \<and>
     (\<forall>u v. 0 \<le> u \<and> u < n \<and> 0 \<le> v \<and> v < n \<longrightarrow> (cell cmp u = cell cmp v \<longleftrightarrow> (u, v) \<in> linked n nb)) \<and>
     (\<forall>u. 0 \<le> u \<and> u < n \<longrightarrow> 0 \<le> cell cmp u \<and> (u, cell cmp u) \<in> linked n nb \<and>
        (\<forall>v. 0 \<le> v \<and> v < n \<and> (u, v) \<in> linked n nb \<longrightarrow> cell cmp u \<le> v))"

lemma components_final:
  assumes I: "labels n nb cmp" and r: "\<And>u v. 0 \<le> u \<Longrightarrow> u < n \<Longrightarrow> v \<in> set (nb u) \<Longrightarrow> 0 \<le> v \<and> v < n"
    and e: "\<forall>w v. 0 \<le> w \<longrightarrow> w < n \<longrightarrow> v \<in> set (nb w) \<longrightarrow> cell cmp w = cell cmp v"
  shows "components n nb cmp"
proof -
  have same: "cell cmp u = cell cmp v" if "(u, v) \<in> linked n nb" for u v
    using that unfolding linked_def
  proof (induction rule: rtrancl_induct)
    case (step a b)
    then show ?case using e by (auto simp: edge_rel_def)
  qed simp
  have link: "(u, v) \<in> linked n nb" if "0 \<le> u" "u < n" "0 \<le> v" "v < n" "cell cmp u = cell cmp v" for u v
    using labelsD(4) [OF I that(1,2)] labelsD(4) [OF I that(3,4)] that(5) by (metis linked_sym linked_trans)
  have "cell cmp u \<le> v" if "0 \<le> u" "u < n" "0 \<le> v" "v < n" "(u, v) \<in> linked n nb" for u v
    using same [OF that(5)] labelsD(3) [OF I that(3,4)] by simp
  then show ?thesis using labelsD(1,2,4) [OF I] same link unfolding components_def by blast
qed

lemma cc_rounds_ok:
  assumes "labels n nb cmp" "rooted n cmp" "weight n cmp < int r" "n < int k" and f: "\<And>v. 0 \<le> v \<Longrightarrow> v < n \<Longrightarrow> f v = Inr (nb v)"
    and nb: "\<And>u v. 0 \<le> u \<Longrightarrow> u < n \<Longrightarrow> v \<in> set (nb u) \<Longrightarrow> 0 \<le> v \<and> v < n"
  shows "\<exists>cmp'. cc_rounds r k f n cmp = Inr cmp' \<and> components n nb cmp'"
  using assms(1-3)
proof (induction r arbitrary: cmp)
  case 0
  then show ?case using weight_nonneg [OF 0(1)] by simp
next
  case (Suc r)
  let ?s = "(cmp, False)"
  have "\<exists>s'. cc_nodes f n 0 ?s = Inr s' \<and> hooked n nb ?s s' \<and> (s' = ?s \<longrightarrow> rooted n (fst ?s) \<longrightarrow> \<not> snd ?s \<longrightarrow>
    (\<forall>w v. 0 \<le> w \<longrightarrow> w < n \<longrightarrow> v \<in> set (nb w) \<longrightarrow> cell (fst ?s) w = cell (fst ?s) v))"
    by (rule cc_nodes_ok [OF _ f nb]) (simp_all add: Suc.prems(1))
  then obtain s1 where s1: "cc_nodes f n 0 ?s = Inr s1" "hooked n nb ?s s1"
    "s1 = ?s \<longrightarrow> (\<forall>w v. 0 \<le> w \<longrightarrow> w < n \<longrightarrow> v \<in> set (nb w) \<longrightarrow> cell cmp w = cell cmp v)"
    unfolding fst_conv snd_conv using Suc.prems(2) by blast
  obtain c1 change where p: "s1 = (c1, change)" by fastforce
  have l1: "labels n nb c1" using s1(2) by (simp add: hooked_def p)
  obtain c2 where c2: "cc_jumps k n 0 c1 = Inr c2" "labels n nb c2" "weight n c2 \<le> weight n c1" "rooted n c2" "rooted n c1 \<longrightarrow> c2 = c1"
    using cc_jumps_ok [OF l1, of 0 k] assms(4) by auto
  show ?case
  proof (cases change)
    case True
    then have "weight n c1 < weight n cmp" using s1(2) by (auto simp: hooked_def p)
    then have "\<exists>cmp'. cc_rounds r k f n c2 = Inr cmp' \<and> components n nb cmp'"
      using c2 Suc.prems(3) by (intro Suc.IH) auto
    then show ?thesis using s1(1) c2(1) True by (auto simp: p)
  next
    case False
    then have "c1 = cmp" "s1 = (cmp, False)" using s1(2) by (auto simp: hooked_def p)
    moreover from this have "c2 = cmp" using c2(5) Suc.prems(2) by simp
    ultimately show ?thesis using s1 c2(1) False components_final [OF Suc.prems(1) nb] by (auto simp: p)
  qed
qed

lemma identity_labels:
  assumes "0 \<le> n"
  shows "labels n nb [0..n - 1]" "rooted n [0..n - 1]"
proof -
  have "cell [0..n - 1] x = x" if "0 \<le> x" "x < n" for x using that by (simp add: cell_def)
  then show "labels n nb [0..n - 1]" "rooted n [0..n - 1]" using assms by (auto simp: labels_def rooted_def len_def)
qed

context readable_graphs
begin

lemma shiloach_vishkin:
  assumes "ok g"
  shows "\<exists>cmp. ShiloachVishkin (num_nodes g) (out_neigh g) = Inr cmp \<and> components (num_nodes g) (adj g) cmp"
proof -
  note n = num_nodes_nonneg [OF assms]
  note I = identity_labels(1) [OF n, of "adj g"] identity_labels(2) [OF n]
  have "weight (num_nodes g) [0..num_nodes g - 1] < int (nat (num_nodes g * num_nodes g) + 1)"
    using weight_bound [OF I(1) n] n by simp
  then show ?thesis unfolding ShiloachVishkin_def
    by (rule cc_rounds_ok [OF I _ _ out_neigh_reads [OF assms] adj_range [OF assms]]) simp_all
qed

end

end
