(* ===== verification/KernelQueue.thy ===== *)
theory KernelQueue
  imports Prelude
begin

text \<open>
  The containers of the kernels, used by one thread: \<^verbatim>\<open>Bitmap\<close> of \<^verbatim>\<open>bitmap.h\<close> over 64-bit words, which behaves
  as a set of positions, and \<^verbatim>\<open>SlidingQueue\<close> with its \<^verbatim>\<open>QueueBuffer\<close> of \<^verbatim>\<open>sliding_queue.h\<close>, which behave as a list
  with a window.
\<close>

unbundle bit_operations_syntax

section \<open>Bitmap\<close>

definition kBitsPerWord :: int where
  "kBitsPerWord = 64"

type_synonym bitmap = "64 word list"

text \<open>The constructor: uninitialised words.\<close>

definition bm_new :: "(int \<Rightarrow> 64 word) \<Rightarrow> int \<Rightarrow> bitmap" where
  "bm_new mem n = map (mem \<circ> int) [0..<nat ((n + kBitsPerWord - 1) div kBitsPerWord)]"

definition bm_reset :: "bitmap \<Rightarrow> bitmap" where
  "bm_reset b = map (\<lambda>_. 0) b"

definition word_offset :: "int \<Rightarrow> int" where
  "word_offset n = n div kBitsPerWord"

definition bit_offset :: "int \<Rightarrow> int" where
  "bit_offset n = n AND (kBitsPerWord - 1)"

definition set_bit_at :: "bitmap \<Rightarrow> int \<Rightarrow> bitmap res" where
  "set_bit_at b pos = sbind (rd b (word_offset pos)) (\<lambda>w.
     wr b (word_offset pos) (w OR push_bit (nat (bit_offset pos)) 1))"

definition get_bit_at :: "bitmap \<Rightarrow> int \<Rightarrow> bool res" where
  "get_bit_at b pos = sbind (rd b (word_offset pos)) (\<lambda>w.
     Inr (drop_bit (nat (bit_offset pos)) w AND 1 \<noteq> 0))"

text \<open>The set a bitmap stands for.\<close>

definition bits :: "bitmap \<Rightarrow> int set" where
  "bits b = {p. 0 \<le> p \<and> p < 64 * len b \<and> bit (cell b (p div 64)) (nat (p mod 64))}"

lemma offsets:
  assumes "0 \<le> p" "p < 64 * len b"
  shows "word_offset p = p div 64" "bit_offset p = p mod 64" "0 \<le> p div 64" "p div 64 < len b" "nat (p mod 64) < 64"
proof -
  have "p AND 63 = take_bit 6 p" using take_bit_eq_mask [of 6 p] by (simp add: mask_eq_exp_minus_1)
  then show "bit_offset p = p mod 64" by (simp add: bit_offset_def kBitsPerWord_def take_bit_eq_mod)
  show "word_offset p = p div 64" by (simp add: word_offset_def kBitsPerWord_def)
  show "0 \<le> p div 64" using assms(1) by (simp add: pos_imp_zdiv_nonneg_iff)
  show "p div 64 < len b" using assms(2) by (simp add: div_less_iff_less_mult mult.commute)
  show "nat (p mod 64) < 64" by (simp add: nat_less_iff)
qed

lemma get_bit_ok:
  assumes "0 \<le> p" "p < 64 * len b"
  shows "get_bit_at b p = Inr (p \<in> bits b)"
proof -
  have "drop_bit k w AND 1 \<noteq> 0 \<longleftrightarrow> bit w k" for k and w :: "64 word"
    by (simp add: and_one_eq mod_2_eq_odd flip: bit_iff_odd_drop_bit)
  then show ?thesis using offsets [OF assms] assms by (simp add: get_bit_at_def bits_def)
qed

lemma set_bit_ok:
  assumes p: "0 \<le> p" "p < 64 * len b"
  shows "\<exists>b'. set_bit_at b p = Inr b' \<and> len b' = len b \<and> bits b' = insert p (bits b)"
proof -
  note o = offsets [OF p]
  define b' where "b' = upd b (p div 64) (cell b (p div 64) OR push_bit (nat (p mod 64)) 1)"
  have "set_bit_at b p = Inr b'" using o by (simp add: set_bit_at_def b'_def)
  moreover have l: "len b' = len b" by (simp add: b'_def)
  moreover have "q \<in> bits b' \<longleftrightarrow> q = p \<or> q \<in> bits b" for q
  proof (cases "0 \<le> q \<and> q < 64 * len b")
    case True
    note oq = offsets [of q b]
    show ?thesis
    proof (cases "q div 64 = p div 64")
      case d: True
      have "q = p \<longleftrightarrow> q mod 64 = p mod 64" using d by (metis div_mult_mod_eq)
      moreover have "nat (q mod 64) = nat (p mod 64) \<longleftrightarrow> q mod 64 = p mod 64" by (simp add: eq_nat_nat_iff)
      moreover have "bit (push_bit (nat (p mod 64)) (1 :: 64 word)) (nat (q mod 64)) \<longleftrightarrow> nat (q mod 64) = nat (p mod 64)"
        using oq(5) o(5) True by (auto simp: bit_exp_iff)
      ultimately have "bit (cell b' (q div 64)) (nat (q mod 64)) \<longleftrightarrow> q = p \<or> bit (cell b (q div 64)) (nat (q mod 64))"
        using d o(3,4) by (auto simp: b'_def bit_or_iff)
      then show ?thesis using True l by (auto simp: bits_def)
    next
      case False
      then show ?thesis using True o oq l p by (auto simp: bits_def b'_def)
    qed
  next
    case False
    then show ?thesis using l p by (auto simp: bits_def)
  qed
  ultimately show ?thesis by blast
qed

lemma bits_reset [simp]: "bits (bm_reset b) = {}"
proof -
  have "cell (bm_reset b) i = 0" if "0 \<le> i" "i < len b" for i using that by (simp add: bm_reset_def cell_def len_def nat_less_iff)
  then show ?thesis using offsets(3,4) [of _ b] by (force simp: bits_def bm_reset_def len_def)
qed

lemma len_reset [simp]: "len (bm_reset b) = len b"
  by (simp add: bm_reset_def len_def)

lemma len_bm_new: "0 \<le> n \<Longrightarrow> n \<le> 64 * len (bm_new mem n)"
proof -
  assume n: "0 \<le> n"
  have "63 + n = 64 * ((63 + n) div 64) + (63 + n) mod 64" "(63 + n) mod 64 < 64" by simp_all
  moreover have "0 \<le> (63 + n) div 64" using n by (simp add: pos_imp_zdiv_nonneg_iff)
  ultimately show ?thesis by (simp add: bm_new_def kBitsPerWord_def len_def)
qed

section \<open>Sliding queue\<close>

record squeue =
  sq_shared :: "int list"
  shared_in :: int
  shared_out_start :: int
  shared_out_end :: int

definition sq_new :: "(int \<Rightarrow> int) \<Rightarrow> int \<Rightarrow> squeue" where
  "sq_new mem n = \<lparr>sq_shared = map (mem \<circ> int) [0..<nat n], shared_in = 0, shared_out_start = 0, shared_out_end = 0\<rparr>"

definition sq_push :: "int \<Rightarrow> squeue \<Rightarrow> squeue res" where
  "sq_push x q = sbind (wr (sq_shared q) (shared_in q) x) (\<lambda>xs. Inr (q\<lparr>sq_shared := xs, shared_in := shared_in q + 1\<rparr>))"

definition sq_empty :: "squeue \<Rightarrow> bool" where
  "sq_empty q = (shared_out_start q = shared_out_end q)"

definition slide_window :: "squeue \<Rightarrow> squeue" where
  "slide_window q = q\<lparr>shared_out_start := shared_out_end q, shared_out_end := shared_in q\<rparr>"

definition sq_size :: "squeue \<Rightarrow> int" where
  "sq_size q = shared_out_end q - shared_out_start q"

text \<open>A \<^verbatim>\<open>QueueBuffer\<close> with the queue behind it: \<open>local_queue\<close> up to \<open>in\<close>.\<close>

definition local_size :: nat where
  "local_size = 16384"

definition qb_flush :: "int list \<times> squeue \<Rightarrow> (int list \<times> squeue) res" where
  "qb_flush = (\<lambda>(buf, q).
     if 0 \<le> shared_in q \<and> shared_in q + len buf \<le> len (sq_shared q)
     then Inr ([], q\<lparr>sq_shared := take (nat (shared_in q)) (sq_shared q) @ buf @ drop (nat (shared_in q + len buf)) (sq_shared q),
                     shared_in := shared_in q + len buf\<rparr>)
     else Inl OutOfBounds)"

definition qb_push :: "int \<Rightarrow> int list \<times> squeue \<Rightarrow> (int list \<times> squeue) res" where
  "qb_push x s = sbind (if length (fst s) = local_size then qb_flush s else Inr s) (\<lambda>(buf, q). Inr (buf @ [x], q))"

text \<open>What the queue holds, and what it shows.\<close>

definition sq_all :: "squeue \<Rightarrow> int list" where
  "sq_all q = cells (sq_shared q) 0 (shared_in q)"

definition sq_window :: "squeue \<Rightarrow> int list" where
  "sq_window q = cells (sq_shared q) (shared_out_start q) (sq_size q)"

definition sq_ok :: "squeue \<Rightarrow> bool" where
  "sq_ok q \<longleftrightarrow> 0 \<le> shared_out_start q \<and> shared_out_start q \<le> shared_out_end q \<and> shared_out_end q \<le> shared_in q \<and>
     shared_in q \<le> len (sq_shared q)"

text \<open>The parts of the queue the loops over it do not change.\<close>

definition same_window :: "squeue \<Rightarrow> squeue \<Rightarrow> bool" where
  "same_window q q' \<longleftrightarrow> sq_ok q' \<and> shared_out_start q' = shared_out_start q \<and> shared_out_end q' = shared_out_end q \<and>
     len (sq_shared q') = len (sq_shared q) \<and> (\<forall>i. 0 \<le> i \<and> i < shared_out_end q \<longrightarrow> cell (sq_shared q') i = cell (sq_shared q) i)"

lemma same_window_refl: "sq_ok q \<Longrightarrow> same_window q q"
  by (simp add: same_window_def)

lemma same_window_trans: "same_window q q1 \<Longrightarrow> same_window q1 q2 \<Longrightarrow> same_window q q2"
  by (simp add: same_window_def)

lemma cells_prefix: "0 \<le> n \<Longrightarrow> n \<le> len xs \<Longrightarrow> cells xs 0 n = take (nat n) xs"
  by (rule nth_equalityI) (auto simp: len_def cell_def)

lemma sq_all_take: "sq_ok q \<Longrightarrow> sq_all q = take (nat (shared_in q)) (sq_shared q)"
  unfolding sq_all_def by (rule cells_prefix) (auto simp: sq_ok_def)

lemma length_sq_all: "sq_ok q \<Longrightarrow> int (length (sq_all q)) = shared_in q"
  by (auto simp: sq_all_def sq_ok_def)

lemma qb_flush_ok:
  assumes q: "sq_ok q" and room: "shared_in q + len buf \<le> len (sq_shared q)"
  shows "\<exists>q'. qb_flush (buf, q) = Inr ([], q') \<and> same_window q q' \<and> sq_all q' = sq_all q @ buf"
proof -
  define xs where "xs = take (nat (shared_in q)) (sq_shared q) @ buf @ drop (nat (shared_in q + len buf)) (sq_shared q)"
  define q' where "q' = q\<lparr>sq_shared := xs, shared_in := shared_in q + len buf\<rparr>"
  have i: "0 \<le> shared_in q" "nat (shared_in q) \<le> length (sq_shared q)" using q by (auto simp: sq_ok_def len_def)
  have l: "len xs = len (sq_shared q)" using i room by (simp add: xs_def len_def)
  have "qb_flush (buf, q) = Inr ([], q')" using room i by (simp add: qb_flush_def q'_def xs_def)
  moreover have "sq_ok q'" using q room l by (simp add: sq_ok_def q'_def len_def)
  moreover have "cell xs j = cell (sq_shared q) j" if "0 \<le> j" "j < shared_out_end q" for j
  proof -
    have "nat j < nat (shared_in q)" using that q by (auto simp: sq_ok_def)
    then show ?thesis using i by (simp add: cell_def xs_def nth_append)
  qed
  moreover have "sq_all q' = sq_all q @ buf"
  proof -
    have "sq_all q' = take (nat (shared_in q + len buf)) xs" using sq_all_take [OF \<open>sq_ok q'\<close>] by (simp add: q'_def)
    also have "\<dots> = take (nat (shared_in q)) (sq_shared q) @ buf" using i by (simp add: xs_def len_def nat_add_distrib)
    finally show ?thesis using sq_all_take [OF q] by simp
  qed
  ultimately show ?thesis using l by (auto simp: same_window_def q'_def)
qed

text \<open>With the buffer counted as part of the queue, a push is an append.\<close>

definition qb_all :: "int list \<times> squeue \<Rightarrow> int list" where
  "qb_all s = sq_all (snd s) @ fst s"

lemma qb_push_ok:
  assumes q: "sq_ok (snd s)" and room: "int (length (qb_all s)) \<le> len (sq_shared (snd s))"
  shows "\<exists>s'. qb_push x s = Inr s' \<and> same_window (snd s) (snd s') \<and> qb_all s' = qb_all s @ [x]"
proof (cases "length (fst s) = local_size")
  case True
  obtain buf q where s: "s = (buf, q)" by fastforce
  obtain q' where "qb_flush (buf, q) = Inr ([], q')" "same_window q q'" "sq_all q' = sq_all q @ buf"
    using qb_flush_ok [of q buf] assms length_sq_all [of q] by (auto simp: s qb_all_def len_def)
  then show ?thesis using True by (simp add: qb_push_def qb_all_def s)
next
  case False
  then show ?thesis using same_window_refl [OF q] by (auto simp: qb_push_def qb_all_def split: prod.splits)
qed

lemma qb_finish:
  assumes "sq_ok (snd s)" "int (length (qb_all s)) \<le> len (sq_shared (snd s))"
  shows "\<exists>q'. qb_flush s = Inr ([], q') \<and> same_window (snd s) q' \<and> sq_all q' = qb_all s"
  using qb_flush_ok [of "snd s" "fst s"] assms length_sq_all [OF assms(1)] by (simp add: qb_all_def len_def)

lemma window_slide:
  assumes "sq_ok q"
  shows "sq_ok (slide_window q)" "sq_all (slide_window q) = sq_all q"
    "sq_window (slide_window q) = drop (nat (shared_out_end q)) (sq_all q)"
proof -
  show "sq_ok (slide_window q)" "sq_all (slide_window q) = sq_all q" using assms by (simp_all add: sq_ok_def slide_window_def sq_all_def)
  have "sq_window (slide_window q) = cells (sq_shared q) (shared_out_end q) (shared_in q - shared_out_end q)"
    by (simp add: sq_window_def slide_window_def sq_size_def)
  also have "\<dots> = drop (nat (shared_out_end q)) (sq_all q)"
    by (rule nth_equalityI) (use assms in \<open>auto simp: sq_all_def sq_ok_def\<close>)
  finally show "sq_window (slide_window q) = drop (nat (shared_out_end q)) (sq_all q)" .
qed

lemma window_drop:
  assumes "sq_ok q" "shared_out_end q = shared_in q"
  shows "sq_window q = drop (nat (shared_out_start q)) (sq_all q)"
proof -
  have o: "0 \<le> shared_out_start q" "shared_out_start q \<le> shared_in q" "shared_in q \<le> len (sq_shared q)"
    using assms by (auto simp: sq_ok_def)
  show ?thesis unfolding sq_window_def sq_all_def sq_size_def cells_def assms(2)
    using o by (intro nth_equalityI) (auto simp: nat_diff_distrib)
qed

end
