(* ===== verification/KernelBfs.thy ===== *)
theory KernelBfs
  imports KernelQueue
begin

text \<open>
  The breadth-first search kernel \<^verbatim>\<open>bfs.cc\<close>, run by one thread: top-down steps over a queue, bottom-up steps over
  bitmaps, and the switching between them. Uninitialised memory is an argument; loops whose end depends on
  the search have fuel.
\<close>

text \<open>What the kernel uses of a graph.\<close>

record graph_ops =
  g_nodes :: int
  g_out_neigh :: "int \<Rightarrow> int list res"
  g_in_neigh :: "int \<Rightarrow> int list res"
  g_out_degree :: "int \<Rightarrow> int res"
  g_edges_directed :: int

section \<open>Steps\<close>

function init_parent :: "graph_ops \<Rightarrow> int \<Rightarrow> int list \<Rightarrow> int list res" where
  "init_parent g n parent =
     (if n < g_nodes g
      then sbind (g_out_degree g n) (\<lambda>d. sbind (wr parent n (if d \<noteq> 0 then - d else -1)) (init_parent g (n + 1)))
      else Inr parent)"
  by pat_completeness auto
termination
  by (relation "measure (\<lambda>(g, n, p). nat (g_nodes g - n))") auto

declare init_parent.simps [simp del]

definition InitParent :: "graph_ops \<Rightarrow> (int \<Rightarrow> int) \<Rightarrow> int list res" where
  "InitParent g mem = init_parent g 0 (map (mem \<circ> int) [0..<nat (g_nodes g)])"

text \<open>Bottom-up: the first neighbour in the frontier becomes the parent of \<open>u\<close>; state \<open>parent, next, awake_count\<close>.\<close>

fun bu_search :: "bitmap \<Rightarrow> int \<Rightarrow> int list \<Rightarrow> int list \<times> bitmap \<times> int \<Rightarrow> (int list \<times> bitmap \<times> int) res" where
  "bu_search front u [] s = Inr s"
| "bu_search front u (v # vs) s =
     sbind (get_bit_at front v) (\<lambda>b.
     if b then sbind (wr (fst s) u v) (\<lambda>parent. sbind (set_bit_at (fst (snd s)) u) (\<lambda>next'. Inr (parent, next', snd (snd s) + 1)))
     else bu_search front u vs s)"

function bu_nodes :: "graph_ops \<Rightarrow> bitmap \<Rightarrow> int \<Rightarrow> int list \<times> bitmap \<times> int \<Rightarrow> (int list \<times> bitmap \<times> int) res" where
  "bu_nodes g front u s =
     (if u < g_nodes g
      then sbind (rd (fst s) u) (\<lambda>p.
           sbind (if p < 0 then sbind (g_in_neigh g u) (\<lambda>vs. bu_search front u vs s) else Inr s) (bu_nodes g front (u + 1)))
      else Inr s)"
  by pat_completeness auto
termination
  by (relation "measure (\<lambda>(g, f, u, s). nat (g_nodes g - u))") auto

declare bu_nodes.simps [simp del]

definition BUStep :: "graph_ops \<Rightarrow> int list \<Rightarrow> bitmap \<Rightarrow> bitmap \<Rightarrow> (int list \<times> bitmap \<times> int) res" where
  "BUStep g parent front next' = bu_nodes g front 0 (parent, bm_reset next', 0)"

text \<open>Top-down: every unvisited neighbour of \<open>u\<close> gets it as parent; state \<open>parent\<close>, buffer and queue, \<open>scout_count\<close>.\<close>

type_synonym td_state = "int list \<times> (int list \<times> squeue) \<times> int"

definition td_edge :: "int \<Rightarrow> int \<Rightarrow> td_state \<Rightarrow> td_state res" where
  "td_edge u v = (\<lambda>(parent, buf, scout_count).
     sbind (rd parent v) (\<lambda>curr_val.
     if curr_val < 0
     then sbind (wr parent v u) (\<lambda>parent. sbind (qb_push v buf) (\<lambda>buf. Inr (parent, buf, scout_count + - curr_val)))
     else Inr (parent, buf, scout_count)))"

fun td_edges :: "int \<Rightarrow> int list \<Rightarrow> td_state \<Rightarrow> td_state res" where
  "td_edges u [] s = Inr s"
| "td_edges u (v # vs) s = sbind (td_edge u v s) (td_edges u vs)"

function td_nodes :: "graph_ops \<Rightarrow> int \<Rightarrow> int \<Rightarrow> td_state \<Rightarrow> td_state res" where
  "td_nodes g i e s =
     (if i < e
      then sbind (rd (sq_shared (snd (fst (snd s)))) i) (\<lambda>u.
           sbind (g_out_neigh g u) (\<lambda>vs. sbind (td_edges u vs s) (td_nodes g (i + 1) e)))
      else Inr s)"
  by pat_completeness auto
termination
  by (relation "measure (\<lambda>(g, i, e, s). nat (e - i))") auto

declare td_nodes.simps [simp del]

definition TDStep :: "graph_ops \<Rightarrow> int list \<Rightarrow> squeue \<Rightarrow> (int list \<times> squeue \<times> int) res" where
  "TDStep g parent q =
     sbind (td_nodes g (shared_out_start q) (shared_out_end q) (parent, ([], q), 0)) (\<lambda>(parent, buf, scout_count).
     sbind (qb_flush buf) (\<lambda>(_, q). Inr (parent, q, scout_count)))"

section \<open>Changing the representation of the frontier\<close>

function queue_bits :: "squeue \<Rightarrow> int \<Rightarrow> bitmap \<Rightarrow> bitmap res" where
  "queue_bits q i b =
     (if i < shared_out_end q
      then sbind (rd (sq_shared q) i) (\<lambda>u. sbind (set_bit_at b u) (queue_bits q (i + 1)))
      else Inr b)"
  by pat_completeness auto
termination
  by (relation "measure (\<lambda>(q, i, b). nat (shared_out_end q - i))") auto

declare queue_bits.simps [simp del]

definition QueueToBitmap :: "squeue \<Rightarrow> bitmap \<Rightarrow> bitmap res" where
  "QueueToBitmap q b = queue_bits q (shared_out_start q) b"

function bits_queue :: "bitmap \<Rightarrow> int \<Rightarrow> int \<Rightarrow> int list \<times> squeue \<Rightarrow> (int list \<times> squeue) res" where
  "bits_queue b n num s =
     (if n < num
      then sbind (get_bit_at b n) (\<lambda>x. sbind (if x then qb_push n s else Inr s) (bits_queue b (n + 1) num))
      else Inr s)"
  by pat_completeness auto
termination
  by (relation "measure (\<lambda>(b, n, num, s). nat (num - n))") auto

declare bits_queue.simps [simp del]

definition BitmapToQueue :: "graph_ops \<Rightarrow> bitmap \<Rightarrow> squeue \<Rightarrow> squeue res" where
  "BitmapToQueue g b q =
     sbind (bits_queue b 0 (g_nodes g) ([], q)) (\<lambda>s. sbind (qb_flush s) (\<lambda>(_, q). Inr (slide_window q)))"

section \<open>The search\<close>

text \<open>The \<^verbatim>\<open>do\<close> loop of bottom-up steps; \<^verbatim>\<open>front\<close> and \<^verbatim>\<open>curr\<close> change places after each.\<close>

fun bu_loop :: "nat \<Rightarrow> graph_ops \<Rightarrow> int \<Rightarrow> int \<Rightarrow> int list \<times> bitmap \<times> bitmap \<Rightarrow> (int list \<times> bitmap \<times> bitmap) res" where
  "bu_loop 0 g beta awake_count s = Inl Diverged"
| "bu_loop (Suc k) g beta awake_count (parent, front, cur) =
     (let old_awake_count = awake_count in
      sbind (BUStep g parent front cur) (\<lambda>(parent, cur, awake_count).
      let (front, cur) = (cur, front) in
      if awake_count \<ge> old_awake_count \<or> awake_count > cdiv (g_nodes g) beta
      then bu_loop k g beta awake_count (parent, front, cur)
      else Inr (parent, front, cur)))"

record bfs_state =
  b_parent :: "int list"
  b_queue :: squeue
  b_curr :: bitmap
  b_front :: bitmap
  edges_to_check :: int
  scout_count :: int

definition bottom_up :: "nat \<Rightarrow> graph_ops \<Rightarrow> int \<Rightarrow> bfs_state \<Rightarrow> bfs_state res" where
  "bottom_up k g beta s =
     sbind (QueueToBitmap (b_queue s) (b_front s)) (\<lambda>front.
     sbind (bu_loop k g beta (sq_size (b_queue s)) (b_parent s, front, b_curr s)) (\<lambda>(parent, front, cur).
     sbind (BitmapToQueue g front (slide_window (b_queue s))) (\<lambda>q.
     Inr (s\<lparr>b_parent := parent, b_queue := q, b_front := front, b_curr := cur, scout_count := 1\<rparr>))))"

definition top_down :: "graph_ops \<Rightarrow> bfs_state \<Rightarrow> bfs_state res" where
  "top_down g s =
     sbind (TDStep g (b_parent s) (b_queue s)) (\<lambda>(parent, q, scout).
     Inr (s\<lparr>b_parent := parent, b_queue := slide_window q, edges_to_check := edges_to_check s - scout_count s, scout_count := scout\<rparr>))"

fun bfs_loop :: "nat \<Rightarrow> graph_ops \<Rightarrow> int \<Rightarrow> int \<Rightarrow> bfs_state \<Rightarrow> int list res" where
  "bfs_loop 0 g alpha beta s = Inl Diverged"
| "bfs_loop (Suc k) g alpha beta s =
     (if sq_empty (b_queue s) then Inr (b_parent s)
      else sbind (if scout_count s > cdiv (edges_to_check s) alpha then bottom_up (nat (g_nodes g) + 2) g beta s else top_down g s)
             (bfs_loop k g alpha beta))"

text \<open>\<open>mp\<close>, \<open>mq\<close> and \<open>mb\<close> are what the allocations return. Each round reaches a new depth, so that \<open>n + 2\<close> rounds are enough.\<close>

definition DOBFS :: "(int \<Rightarrow> int) \<Rightarrow> (int \<Rightarrow> int) \<Rightarrow> (int \<Rightarrow> 64 word) \<Rightarrow> graph_ops \<Rightarrow> int \<Rightarrow> int \<Rightarrow> int \<Rightarrow> int list res" where
  "DOBFS mp mq mb g source alpha beta =
     sbind (InitParent g mp) (\<lambda>parent.
     sbind (wr parent source source) (\<lambda>parent.
     sbind (sq_push source (sq_new mq (g_nodes g))) (\<lambda>q.
     sbind (g_out_degree g source) (\<lambda>scout.
     sbind (bfs_loop (nat (g_nodes g) + 2) g alpha beta
       \<lparr>b_parent = parent, b_queue = slide_window q, b_curr = bm_reset (bm_new mb (g_nodes g)),
        b_front = bm_reset (bm_new mb (g_nodes g)), edges_to_check = g_edges_directed g, scout_count = scout\<rparr>) (\<lambda>parent.
     Inr (map (\<lambda>p. if p < -1 then -1 else p) parent))))))"

end
