(* ===== verification/KernelBfsOk.thy ===== *)
theory KernelBfsOk
  imports KernelBfs
begin

text \<open>
  The search is correct when \<^verbatim>\<open>in_neigh\<close> gives the predecessors: every vertex that can be reached gets a parent
  one level closer to the source, every other one \<open>-1\<close>, and the loops end.
\<close>

section \<open>Levels\<close>

primrec reached :: "(int \<Rightarrow> int list) \<Rightarrow> int \<Rightarrow> nat \<Rightarrow> int set" where
  "reached nb s 0 = {s}"
| "reached nb s (Suc k) = reached nb s k \<union> {v. \<exists>u \<in> reached nb s k. v \<in> set (nb u)}"

definition level :: "(int \<Rightarrow> int list) \<Rightarrow> int \<Rightarrow> nat \<Rightarrow> int set" where
  "level nb s k = (case k of 0 \<Rightarrow> {s} | Suc j \<Rightarrow> reached nb s (Suc j) - reached nb s j)"

lemma level_simps:
  "level nb s 0 = {s}" "level nb s (Suc k) = reached nb s (Suc k) - reached nb s k"
  by (simp_all add: level_def)

lemma reached_mono: "j \<le> k \<Longrightarrow> reached nb s j \<subseteq> reached nb s k"
proof (induction k)
  case (Suc k)
  then show ?case by (cases "j = Suc k") auto
qed simp

declare reached.simps(2) [simp del]

lemma level_reached: "level nb s k \<subseteq> reached nb s k"
  by (cases k) (auto simp: level_simps)

text \<open>The next level, from the last one only.\<close>

lemma reached_step: "reached nb s (Suc k) = reached nb s k \<union> {v. \<exists>u \<in> level nb s k. v \<in> set (nb u)}"
proof (cases k)
  case (Suc j)
  show ?thesis
  proof (intro equalityI subsetI)
    fix v assume "v \<in> reached nb s (Suc k)"
    then consider "v \<in> reached nb s k" | u where "u \<in> reached nb s k" "v \<in> set (nb u)" by (auto simp: reached.simps(2))
    then show "v \<in> reached nb s k \<union> {v. \<exists>u \<in> level nb s k. v \<in> set (nb u)}"
    proof cases
      case (2 u)
      then show ?thesis using Suc by (cases "u \<in> reached nb s j") (auto simp: level_simps reached.simps(2) [of nb s j])
    qed auto
  next
    fix v assume "v \<in> reached nb s k \<union> {v. \<exists>u \<in> level nb s k. v \<in> set (nb u)}"
    then show "v \<in> reached nb s (Suc k)" using level_reached [of nb s k] by (auto simp: reached.simps(2) [of nb s k])
  qed
qed (simp add: level_simps reached.simps(2))

text \<open>The assumptions on a graph and a source.\<close>

definition searchable :: "int \<Rightarrow> (int \<Rightarrow> int list) \<Rightarrow> int \<Rightarrow> bool" where
  "searchable n nb s \<longleftrightarrow> 0 \<le> s \<and> s < n \<and> (\<forall>u v. 0 \<le> u \<and> u < n \<and> v \<in> set (nb u) \<longrightarrow> 0 \<le> v \<and> v < n)"

lemma searchableD:
  assumes "searchable n nb s"
  shows "0 \<le> s" "s < n" "0 \<le> n" "0 \<le> u \<Longrightarrow> u < n \<Longrightarrow> v \<in> set (nb u) \<Longrightarrow> 0 \<le> v" "0 \<le> u \<Longrightarrow> u < n \<Longrightarrow> v \<in> set (nb u) \<Longrightarrow> v < n"
  using assms unfolding searchable_def by (blast, blast, linarith, blast, blast)

lemma reached_range: "searchable n nb s \<Longrightarrow> reached nb s k \<subseteq> {0..<n}"
proof (induction k)
  case 0
  then show ?case using searchableD(1,2) [OF 0] by auto
next
  case (Suc k)
  then have r: "reached nb s k \<subseteq> {0..<n}" by simp
  have "v \<in> {0..<n}" if "u \<in> reached nb s k" "v \<in> set (nb u)" for u v
  proof -
    have u: "0 \<le> u" "u < n" using r that(1) by auto
    show ?thesis using searchableD(4,5) [OF Suc.prems u that(2)] by simp
  qed
  then show ?case using r by (auto simp: reached.simps(2))
qed

text \<open>A level that is not empty has a number below \<open>n\<close>; behind an empty one nothing is reached.\<close>

lemma reached_card: "searchable n nb s \<Longrightarrow> level nb s k \<noteq> {} \<Longrightarrow> k < card (reached nb s k)"
proof (induction k)
  case (Suc k)
  have fin: "finite (reached nb s j)" for j using reached_range [OF Suc.prems(1)] by (rule finite_subset) simp
  obtain v where v: "v \<in> reached nb s (Suc k)" "v \<notin> reached nb s k" using Suc.prems(2) by (auto simp: level_simps)
  have "level nb s k \<noteq> {}"
  proof
    assume "level nb s k = {}"
    then show False using v reached_step [of nb s k] by auto
  qed
  then have "k < card (reached nb s k)" using Suc by simp
  moreover have "reached nb s k \<subset> reached nb s (Suc k)" using v reached_mono [of k "Suc k"] by auto
  then have "card (reached nb s k) < card (reached nb s (Suc k))" by (rule psubset_card_mono [OF fin])
  ultimately show ?case by simp
qed simp

lemma level_bound:
  assumes "searchable n nb s" "level nb s k \<noteq> {}"
  shows "int k < n"
proof -
  have "card (reached nb s k) \<le> card {0..<n}" using reached_range [OF assms(1)] by (intro card_mono) auto
  then show ?thesis using reached_card [OF assms] searchableD(3) [OF assms(1)] by simp
qed

lemma level_end:
  assumes "level nb s k = {}" "k \<le> j"
  shows "reached nb s j = reached nb s k"
  using assms(2)
proof (induction j)
  case (Suc j)
  show ?case
  proof (cases "k \<le> j")
    case True
    then have j: "reached nb s j = reached nb s k" using Suc by simp
    have "level nb s j = {}"
    proof (cases "k = j")
      case False
      then obtain i where i: "j = Suc i" "k \<le> i" using True by (cases j) auto
      have "reached nb s k \<subseteq> reached nb s i" using i by (intro reached_mono)
      then show ?thesis using i j by (auto simp: level_simps)
    qed (use assms(1) in simp)
    then show ?thesis using reached_step [of nb s j] j by simp
  next
    case False
    then have "k = Suc j" using Suc.prems by simp
    then show ?thesis by simp
  qed
qed simp

section \<open>Parents\<close>

definition parent_ok :: "(int \<Rightarrow> int list) \<Rightarrow> int \<Rightarrow> int \<Rightarrow> int \<Rightarrow> bool" where
  "parent_ok nb s v p \<longleftrightarrow> v = s \<and> p = s \<or> (\<exists>j. v \<in> level nb s (Suc j) \<and> p \<in> level nb s j \<and> v \<in> set (nb p))"

text \<open>The vertices of \<open>V\<close> have their parents, the others a negative mark.\<close>

definition visited :: "int \<Rightarrow> (int \<Rightarrow> int list) \<Rightarrow> int \<Rightarrow> int set \<Rightarrow> int list \<Rightarrow> bool" where
  "visited n nb s V parent \<longleftrightarrow> len parent = n \<and> (\<forall>v. 0 \<le> v \<and> v < n \<longrightarrow>
     (if v \<in> V then 0 \<le> cell parent v \<and> parent_ok nb s v (cell parent v) else cell parent v < 0))"

lemma visited_upd:
  assumes "visited n nb s V parent" "0 \<le> v" "v < n" "v \<in> level nb s (Suc k)" "u \<in> level nb s k" "v \<in> set (nb u)" "0 \<le> u"
  shows "visited n nb s (insert v V) (upd parent v u)"
proof -
  have p: "parent_ok nb s v u" using assms(4-6) by (auto simp: parent_ok_def)
  show ?thesis unfolding visited_def
  proof (intro conjI allI impI)
    show "len (upd parent v u) = n" using assms(1) by (simp add: visited_def)
    fix w assume w: "0 \<le> w \<and> w < n"
    show "if w \<in> insert v V then 0 \<le> cell (upd parent v u) w \<and> parent_ok nb s w (cell (upd parent v u) w) else cell (upd parent v u) w < 0"
      using assms(1-3,7) p w by (cases "w = v") (auto simp: visited_def)
  qed
qed

text \<open>What the search needs from a graph, with \<open>nb\<close> the neighbours and \<open>ib\<close> the predecessors.\<close>

definition graph_reads :: "graph_ops \<Rightarrow> (int \<Rightarrow> int list) \<Rightarrow> (int \<Rightarrow> int list) \<Rightarrow> bool" where
  "graph_reads g nb ib \<longleftrightarrow> (\<forall>v. 0 \<le> v \<and> v < g_nodes g \<longrightarrow>
     g_out_neigh g v = Inr (nb v) \<and> g_in_neigh g v = Inr (ib v) \<and> g_out_degree g v = Inr (int (length (nb v))) \<and>
     (\<forall>u. u \<in> set (ib v) \<longleftrightarrow> 0 \<le> u \<and> u < g_nodes g \<and> v \<in> set (nb u)))"

lemma graph_readsD:
  assumes "graph_reads g nb ib" "0 \<le> v" "v < g_nodes g"
  shows "g_out_neigh g v = Inr (nb v)" "g_in_neigh g v = Inr (ib v)" "g_out_degree g v = Inr (int (length (nb v)))"
    "u \<in> set (ib v) \<longleftrightarrow> 0 \<le> u \<and> u < g_nodes g \<and> v \<in> set (nb u)"
  using assms by (auto simp: graph_reads_def)

section \<open>The queue\<close>

text \<open>Every vertex is pushed at most once, so that the queue never overflows.\<close>

definition queue_at :: "int \<Rightarrow> (int \<Rightarrow> int list) \<Rightarrow> int \<Rightarrow> nat \<Rightarrow> squeue \<Rightarrow> bool" where
  "queue_at n nb s k q \<longleftrightarrow> sq_ok q \<and> len (sq_shared q) = n \<and> distinct (sq_all q) \<and> set (sq_all q) \<subseteq> reached nb s k \<and>
     shared_out_end q = shared_in q \<and> set (sq_window q) = level nb s k"

lemma distinct_room:
  assumes "distinct xs" "set xs \<subseteq> {0..<n}" "0 \<le> n"
  shows "int (length xs) \<le> n"
proof -
  have "card (set xs) \<le> card {0..<n}" using assms(2) by (intro card_mono) auto
  then show ?thesis using distinct_card [OF assms(1)] assms(3) by simp
qed

lemma set_cells: "set (cells xs a (b - a)) = {cell xs j | j. a \<le> j \<and> j < b}"
proof (intro equalityI subsetI)
  fix x assume "x \<in> {cell xs j | j. a \<le> j \<and> j < b}"
  then obtain j where j: "x = cell xs j" "a \<le> j" "j < b" by auto
  have "cell xs (a + int (nat (j - a))) \<in> set (cells xs a (b - a))" unfolding cells_def using j by (intro in_set_conv_nth [THEN iffD2] exI [of _ "nat (j - a)"]) auto
  then show "x \<in> set (cells xs a (b - a))" using j by simp
qed (fastforce simp: cells_def)

section \<open>Top-down\<close>

text \<open>After the neighbours in \<open>N\<close>; \<open>A\<close> is what the queue held before.\<close>

definition td_at :: "int \<Rightarrow> (int \<Rightarrow> int list) \<Rightarrow> int \<Rightarrow> nat \<Rightarrow> squeue \<Rightarrow> int set \<Rightarrow> td_state \<Rightarrow> bool" where
  "td_at n nb s k q0 N st \<longleftrightarrow> visited n nb s (reached nb s k \<union> N) (fst st) \<and>
     (\<exists>new. qb_all (fst (snd st)) = sq_all q0 @ new \<and> distinct new \<and> set new = N - reached nb s k) \<and>
     same_window q0 (snd (fst (snd st))) \<and> N \<subseteq> {v. \<exists>u \<in> level nb s k. v \<in> set (nb u)}"

lemma td_edge_ok:
  assumes S: "searchable n nb s" and Q: "queue_at n nb s k q0" and T: "td_at n nb s k q0 N st" and u: "u \<in> level nb s k" "v \<in> set (nb u)"
  shows "\<exists>st'. td_edge u v st = Inr st' \<and> td_at n nb s k q0 (insert v N) st'"
proof -
  obtain parent buf scout where st: "st = (parent, buf, scout)" by (cases st) auto
  have ur: "0 \<le> u" "u < n" using u(1) level_reached [of nb s k] reached_range [OF S, of k] by auto
  have v: "0 \<le> v" "v < n" using searchableD(4,5) [OF S ur u(2)] by simp_all
  have V: "visited n nb s (reached nb s k \<union> N) parent" and W: "same_window q0 (snd buf)"
    and sub: "N \<subseteq> {v. \<exists>u \<in> level nb s k. v \<in> set (nb u)}" using T by (auto simp: td_at_def st)
  obtain new where new: "qb_all buf = sq_all q0 @ new" "distinct new" "set new = N - reached nb s k" using T by (auto simp: td_at_def st)
  have r: "rd parent v = Inr (cell parent v)" using V v by (simp add: visited_def)
  show ?thesis
  proof (cases "cell parent v < 0")
    case False
    then have "v \<in> reached nb s k \<union> N" using V v by (auto simp: visited_def split: if_splits)
    then have "reached nb s k \<union> insert v N = reached nb s k \<union> N" "insert v N - reached nb s k = N - reached nb s k" by auto
    then have "td_at n nb s k q0 (insert v N) st" using T u by (auto simp: td_at_def)
    then show ?thesis using False r by (auto simp: td_edge_def st)
  next
    case True
    then have nv: "v \<notin> reached nb s k" "v \<notin> N" using V v by (auto simp: visited_def split: if_splits)
    have "v \<in> level nb s (Suc k)" using nv u reached_step [of nb s k] by (auto simp: level_simps)
    then have V': "visited n nb s (reached nb s k \<union> insert v N) (upd parent v u)"
      using visited_upd [OF V v _ u(1,2) ur(1)] by simp
    have all: "set (sq_all q0) \<subseteq> reached nb s k" "distinct (sq_all q0)" "len (sq_shared q0) = n" using Q by (auto simp: queue_at_def)
    have "set new \<subseteq> reached nb s (Suc k)" using sub new(3) reached_step [of nb s k] by auto
    then have "set new \<subseteq> {0..<n}" using reached_range [OF S, of "Suc k"] by auto
    then have "int (length (sq_all q0 @ new)) \<le> n"
      using all new reached_range [OF S, of k] ur by (intro distinct_room) auto
    then obtain buf' where b: "qb_push v buf = Inr buf'" "same_window (snd buf) (snd buf')" "qb_all buf' = qb_all buf @ [v]"
      using qb_push_ok [of buf v] W all(3) by (auto simp: same_window_def new(1))
    have "td_at n nb s k q0 (insert v N) (upd parent v u, buf', scout + - cell parent v)"
      unfolding td_at_def fst_conv snd_conv
    proof (intro conjI exI)
      show "qb_all buf' = sq_all q0 @ new @ [v]" using b(3) new(1) by simp
      show "same_window q0 (snd buf')" by (rule same_window_trans [OF W b(2)])
    qed (use V' new nv sub u in auto)
    then show ?thesis using True r b(1) V v by (auto simp: td_edge_def st visited_def)
  qed
qed

lemma td_edges_ok:
  assumes S: "searchable n nb s" and Q: "queue_at n nb s k q0" and T: "td_at n nb s k q0 N st" and u: "u \<in> level nb s k" "set vs \<subseteq> set (nb u)"
  shows "\<exists>st'. td_edges u vs st = Inr st' \<and> td_at n nb s k q0 (N \<union> set vs) st'"
  using T u(2)
proof (induction vs arbitrary: N st)
  case (Cons v vs)
  then obtain st1 where st1: "td_edge u v st = Inr st1" "td_at n nb s k q0 (insert v N) st1"
    using td_edge_ok [OF S Q Cons.prems(1) u(1), of v] by auto
  from Cons.IH [OF st1(2)] Cons.prems(2) obtain st2 where "td_edges u vs st1 = Inr st2" "td_at n nb s k q0 (insert v N \<union> set vs) st2" by auto
  then show ?case using st1(1) by (auto simp: insert_commute)
qed auto

lemma td_nodes_ok:
  assumes S: "searchable n nb s" and Q: "queue_at n nb s k q0" and G: "graph_reads g nb ib" "g_nodes g = n"
    and T: "td_at n nb s k q0 {v. \<exists>j. shared_out_start q0 \<le> j \<and> j < i \<and> v \<in> set (nb (cell (sq_shared q0) j))} st"
    and i: "shared_out_start q0 \<le> i" "i \<le> shared_out_end q0"
  shows "\<exists>st'. td_nodes g i (shared_out_end q0) st = Inr st' \<and> td_at n nb s k q0 {v. \<exists>u \<in> level nb s k. v \<in> set (nb u)} st'"
  using T i
proof (induction "nat (shared_out_end q0 - i)" arbitrary: i st)
  case 0
  have i: "i = shared_out_end q0" using 0 by simp
  have "level nb s k = set (sq_window q0)" using Q by (simp add: queue_at_def)
  also have "\<dots> = {cell (sq_shared q0) j | j. shared_out_start q0 \<le> j \<and> j < i}"
    unfolding sq_window_def sq_size_def set_cells i ..
  finally have L: "level nb s k = {cell (sq_shared q0) j | j. shared_out_start q0 \<le> j \<and> j < i}" .
  have e: "{v. \<exists>j. shared_out_start q0 \<le> j \<and> j < i \<and> v \<in> set (nb (cell (sq_shared q0) j))} = {v. \<exists>u \<in> level nb s k. v \<in> set (nb u)}"
    unfolding L by auto
  have "td_at n nb s k q0 {v. \<exists>u \<in> level nb s k. v \<in> set (nb u)} st" using "0.prems"(1) unfolding e .
  then show ?case using i by (subst td_nodes.simps) simp
next
  case (Suc m)
  let ?u = "cell (sq_shared q0) i" and ?N = "\<lambda>i. {v. \<exists>j. shared_out_start q0 \<le> j \<and> j < i \<and> v \<in> set (nb (cell (sq_shared q0) j))}"
  have i: "i < shared_out_end q0" using Suc.hyps(2) by simp
  have q: "sq_ok q0" "set (sq_window q0) = level nb s k" using Q by (auto simp: queue_at_def)
  have ul: "?u \<in> level nb s k" unfolding q(2) [symmetric] sq_window_def sq_size_def set_cells using i Suc.prems(2) by auto
  then have ur: "0 \<le> ?u" "?u < n" using level_reached [of nb s k] reached_range [OF S, of k] by auto
  have W: "same_window q0 (snd (fst (snd st)))" using Suc.prems(1) by (simp add: td_at_def)
  then have r: "rd (sq_shared (snd (fst (snd st)))) i = Inr ?u"
    using i Suc.prems(2) q(1) by (auto simp: same_window_def sq_ok_def)
  obtain st1 where st1: "td_edges ?u (nb ?u) st = Inr st1" "td_at n nb s k q0 (?N i \<union> set (nb ?u)) st1"
    using td_edges_ok [OF S Q Suc.prems(1) ul, of "nb ?u"] by auto
  have "?N i \<union> set (nb ?u) = ?N (i + 1)"
  proof -
    have "(j < i + 1) = (j = i \<or> j < i)" for j by linarith
    then show ?thesis using Suc.prems(2) by (simp only:) blast
  qed
  then have "\<exists>st'. td_nodes g (i + 1) (shared_out_end q0) st1 = Inr st' \<and> td_at n nb s k q0 {v. \<exists>u \<in> level nb s k. v \<in> set (nb u)} st'"
    using Suc.hyps(2) Suc.prems st1(2) i by (intro Suc.hyps(1)) auto
  then show ?case using i r graph_readsD(1) [OF G(1), of ?u] ur G(2) st1(1) by (subst td_nodes.simps) auto
qed

lemma TDStep_ok:
  assumes S: "searchable n nb s" and Q: "queue_at n nb s k q" and G: "graph_reads g nb ib" "g_nodes g = n"
    and V: "visited n nb s (reached nb s k) parent"
  shows "\<exists>parent' q' sc. TDStep g parent q = Inr (parent', q', sc) \<and> visited n nb s (reached nb s (Suc k)) parent' \<and>
    queue_at n nb s (Suc k) (slide_window q')"
proof -
  have q: "sq_ok q" "len (sq_shared q) = n" "distinct (sq_all q)" "set (sq_all q) \<subseteq> reached nb s k" "shared_out_end q = shared_in q"
    using Q by (auto simp: queue_at_def)
  have n: "0 \<le> n" by (rule searchableD(3) [OF S])
  have "td_at n nb s k q {v. \<exists>j. shared_out_start q \<le> j \<and> j < shared_out_start q \<and> v \<in> set (nb (cell (sq_shared q) j))} (parent, ([], q), 0)"
  proof -
    have e: "{v. \<exists>j. shared_out_start q \<le> j \<and> j < shared_out_start q \<and> v \<in> set (nb (cell (sq_shared q) j))} = {}" by auto
    show ?thesis unfolding e using V same_window_refl [OF q(1)] by (simp add: td_at_def qb_all_def)
  qed
  from td_nodes_ok [OF S Q G this] q(1) obtain parent' buf sc where st: "td_nodes g (shared_out_start q) (shared_out_end q) (parent, ([], q), 0)
      = Inr (parent', buf, sc)" and T: "td_at n nb s k q {v. \<exists>u \<in> level nb s k. v \<in> set (nb u)} (parent', buf, sc)"
    by (auto simp: sq_ok_def)
  obtain new where new: "qb_all buf = sq_all q @ new" "distinct new" "set new = {v. \<exists>u \<in> level nb s k. v \<in> set (nb u)} - reached nb s k"
    and W: "same_window q (snd buf)" using T by (auto simp: td_at_def)
  have lev: "set new = level nb s (Suc k)" using new(3) reached_step [of nb s k] by (auto simp: level_simps)
  have "distinct (sq_all q @ new)" using q new by auto
  moreover have sub: "set (sq_all q @ new) \<subseteq> reached nb s (Suc k)" using q(4) lev reached_mono [of k "Suc k" nb s] level_reached [of nb s "Suc k"] by auto
  ultimately have "int (length (qb_all buf)) \<le> n"
    unfolding new(1) using n reached_range [OF S, of "Suc k"] by (intro distinct_room) auto
  then obtain q' where q': "qb_flush buf = Inr ([], q')" "same_window (snd buf) q'" "sq_all q' = qb_all buf"
    using qb_finish [of buf] W q(2) by (auto simp: same_window_def)
  have W': "same_window q q'" by (rule same_window_trans [OF W q'(2)])
  then have ok: "sq_ok q'" "shared_out_end q' = shared_in q" "len (sq_shared q') = n" using q by (auto simp: same_window_def)
  have "nat (shared_in q) = length (sq_all q)" using length_sq_all [OF q(1)] by simp
  then have "sq_window (slide_window q') = new" using window_slide(3) [OF ok(1)] ok(2) q'(3) new(1) by simp
  then have "queue_at n nb s (Suc k) (slide_window q')"
    using window_slide(1,2) [OF ok(1)] ok(3) q'(3) new(1) \<open>distinct (sq_all q @ new)\<close> sub lev
    by (simp add: queue_at_def slide_window_def)
  moreover have "visited n nb s (reached nb s (Suc k)) parent'" using T by (simp add: td_at_def reached_step [of nb s k])
  moreover have "TDStep g parent q = Inr (parent', q', sc)" using st q'(1) by (simp add: TDStep_def)
  ultimately show ?thesis by blast
qed

section \<open>Bottom-up\<close>

text \<open>
  The bits of the frontier: the current level, and vertices of earlier ones whose successors are all reached
  (\<open>DOBFS\<close> does not clear the bitmap between two bottom-up phases).
\<close>

definition front_at :: "int \<Rightarrow> (int \<Rightarrow> int list) \<Rightarrow> int \<Rightarrow> nat \<Rightarrow> bitmap \<Rightarrow> bool" where
  "front_at n nb s k b \<longleftrightarrow> n \<le> 64 * len b \<and> bits b \<subseteq> {0..<n} \<and> (\<forall>v \<in> bits b. v \<in> level nb s k \<or> set (nb v) \<subseteq> reached nb s k)"

lemma front_next: "front_at n nb s k b \<Longrightarrow> front_at n nb s (Suc k) b"
proof -
  assume F: "front_at n nb s k b"
  have "set (nb v) \<subseteq> reached nb s (Suc k)" if "v \<in> bits b" for v
  proof (cases "v \<in> level nb s k")
    case True
    show ?thesis unfolding reached_step [of nb s k] using True by blast
  next
    case False
    then have "set (nb v) \<subseteq> reached nb s k" using F that by (auto simp: front_at_def)
    then show ?thesis using reached_mono [of k "Suc k" nb s] by simp
  qed
  then show ?thesis using F by (simp add: front_at_def)
qed

text \<open>After the vertices below \<open>i\<close>.\<close>

definition bu_at :: "int \<Rightarrow> (int \<Rightarrow> int list) \<Rightarrow> int \<Rightarrow> nat \<Rightarrow> int \<Rightarrow> int list \<times> bitmap \<times> int \<Rightarrow> bool" where
  "bu_at n nb s k i st \<longleftrightarrow> visited n nb s (reached nb s k \<union> {v \<in> level nb s (Suc k). v < i}) (fst st) \<and>
     n \<le> 64 * len (fst (snd st)) \<and> bits (fst (snd st)) = {v \<in> level nb s (Suc k). v < i} \<and>
     snd (snd st) = int (card {v \<in> level nb s (Suc k). v < i})"

lemma bu_search_ok:
  assumes b: "n \<le> 64 * len front" "n \<le> 64 * len (fst (snd st))" and u: "0 \<le> u" "u < n" "len (fst st) = n"
    and vs: "\<forall>v \<in> set vs. 0 \<le> v \<and> v < n"
  shows "(set vs \<inter> bits front = {} \<and> bu_search front u vs st = Inr st) \<or>
    (\<exists>v next'. v \<in> set vs \<inter> bits front \<and> bu_search front u vs st = Inr (upd (fst st) u v, next', snd (snd st) + 1) \<and>
       len next' = len (fst (snd st)) \<and> bits next' = insert u (bits (fst (snd st))))"
  using vs
proof (induction vs)
  case (Cons v vs)
  have v: "0 \<le> v" "v < 64 * len front" using Cons.prems b(1) by auto
  show ?case
  proof (cases "v \<in> bits front")
    case True
    obtain next' where n': "set_bit_at (fst (snd st)) u = Inr next'" "len next' = len (fst (snd st))" "bits next' = insert u (bits (fst (snd st)))"
      using set_bit_ok [of u "fst (snd st)"] u b(2) by auto
    have "bu_search front u (v # vs) st = Inr (upd (fst st) u v, next', snd (snd st) + 1)"
      using get_bit_ok [OF v] True n'(1) u by simp
    then show ?thesis using True n' by auto
  next
    case False
    then show ?thesis using get_bit_ok [OF v] Cons by auto
  qed
qed simp

lemma bu_node_ok:
  assumes S: "searchable n nb s" and G: "graph_reads g nb ib" "g_nodes g = n" and F: "front_at n nb s k front" "level nb s k \<subseteq> bits front"
    and I: "bu_at n nb s k u st" and u: "0 \<le> u" "u < n"
  shows "\<exists>p st'. rd (fst st) u = Inr p \<and>
    (if p < 0 then sbind (g_in_neigh g u) (\<lambda>vs. bu_search front u vs st) else Inr st) = Inr st' \<and> bu_at n nb s k (u + 1) st'"
proof -
  let ?L = "level nb s (Suc k)" and ?p = "cell (fst st) u"
  have V: "visited n nb s (reached nb s k \<union> {v \<in> ?L. v < u}) (fst st)" and l: "len (fst st) = n" "n \<le> 64 * len (fst (snd st))"
    and bt: "bits (fst (snd st)) = {v \<in> ?L. v < u}" "snd (snd st) = int (card {v \<in> ?L. v < u})"
    using I by (auto simp: bu_at_def visited_def)
  have r: "rd (fst st) u = Inr ?p" using u l by simp
  have split: "{v \<in> ?L. v < u + 1} = (if u \<in> ?L then insert u {v \<in> ?L. v < u} else {v \<in> ?L. v < u})" by (auto simp: order_le_less)
  show ?thesis
  proof (cases "?p < 0")
    case False
    then have "u \<in> reached nb s k" using V u by (auto simp: visited_def split: if_splits)
    then have "u \<notin> ?L" by (simp add: level_simps)
    then have "bu_at n nb s k (u + 1) st" using I unfolding bu_at_def split by simp
    then show ?thesis using False r by (intro exI [of _ ?p] exI [of _ st]) simp
  next
    case True
    then have nr: "u \<notin> reached nb s k" using V u by (auto simp: visited_def split: if_splits)
    have ib: "g_in_neigh g u = Inr (ib u)" and mem: "\<And>v. v \<in> set (ib u) \<longleftrightarrow> 0 \<le> v \<and> v < n \<and> u \<in> set (nb v)"
      using graph_readsD [OF G(1), of u] u G(2) by auto
    have pred: "v \<in> level nb s k" if "v \<in> set (ib u) \<inter> bits front" for v
      using that mem nr F(1) by (auto simp: front_at_def)
    from bu_search_ok [of n front st u "ib u"] F(1) l u mem
    consider (none) "set (ib u) \<inter> bits front = {}" "bu_search front u (ib u) st = Inr st"
      | (some) v next' where "v \<in> set (ib u) \<inter> bits front" "bu_search front u (ib u) st = Inr (upd (fst st) u v, next', snd (snd st) + 1)"
        "len next' = len (fst (snd st))" "bits next' = insert u (bits (fst (snd st)))"
      by (auto simp: front_at_def)
    then show ?thesis
    proof cases
      case none
      have "u \<notin> ?L"
      proof
        assume "u \<in> ?L"
        then obtain v where v: "v \<in> level nb s k" "u \<in> set (nb v)" using reached_step [of nb s k] by (auto simp: level_simps)
        then have "0 \<le> v" "v < n" using level_reached [of nb s k] reached_range [OF S, of k] by auto
        then show False using none(1) v mem F(2) by auto
      qed
      then have "bu_at n nb s k (u + 1) st" using I unfolding bu_at_def split by simp
      then show ?thesis using True r ib none(2) by (intro exI [of _ ?p] exI [of _ st]) simp
    next
      case (some v next')
      have v: "v \<in> level nb s k" "u \<in> set (nb v)" "0 \<le> v" using pred [OF some(1)] some(1) mem by auto
      have uL: "u \<in> ?L" using v nr reached_step [of nb s k] by (auto simp: level_simps)
      have "visited n nb s (insert u (reached nb s k \<union> {v \<in> ?L. v < u})) (upd (fst st) u v)"
        by (rule visited_upd [OF V u uL v])
      moreover have "finite {v \<in> ?L. v < u}"
        by (rule finite_subset [of _ "{0..<n}"]) (use level_reached [of nb s "Suc k"] reached_range [OF S, of "Suc k"] in auto)
      moreover have "{v \<in> ?L. v < u + 1} = insert u {v \<in> ?L. v < u}" unfolding split using uL by (rule if_P)
      ultimately have "bu_at n nb s k (u + 1) (upd (fst st) u v, next', snd (snd st) + 1)"
        unfolding bu_at_def using some(3,4) l bt by (simp only: fst_conv snd_conv) (simp add: Un_insert_right)
      then show ?thesis using True r ib some(2) by auto
    qed
  qed
qed

lemma bu_nodes_ok:
  assumes S: "searchable n nb s" and G: "graph_reads g nb ib" "g_nodes g = n" and F: "front_at n nb s k front" "level nb s k \<subseteq> bits front"
    and I: "bu_at n nb s k u st" and u: "0 \<le> u" "u \<le> n"
  shows "\<exists>st'. bu_nodes g front u st = Inr st' \<and> bu_at n nb s k n st'"
  using I u
proof (induction "nat (n - u)" arbitrary: u st)
  case 0
  then show ?case using G(2) by (subst bu_nodes.simps) auto
next
  case (Suc m)
  have u: "0 \<le> u" "u < n" using Suc.hyps(2) Suc.prems by simp_all
  obtain p st1 where st1: "rd (fst st) u = Inr p"
    "(if p < 0 then sbind (g_in_neigh g u) (\<lambda>vs. bu_search front u vs st) else Inr st) = Inr st1" "bu_at n nb s k (u + 1) st1"
    using bu_node_ok [OF S G F Suc.prems(1) u] by blast
  have "\<exists>st'. bu_nodes g front (u + 1) st1 = Inr st' \<and> bu_at n nb s k n st'"
    using Suc.hyps(2) u st1(3) by (intro Suc.hyps(1)) auto
  moreover have "bu_nodes g front u st = bu_nodes g front (u + 1) st1"
    using u G(2) st1(1,2) by (subst bu_nodes.simps) simp
  ultimately show ?case by simp
qed

text \<open>One bottom-up step: the next level in the other bitmap, and its size.\<close>

lemma BUStep_ok:
  assumes S: "searchable n nb s" and G: "graph_reads g nb ib" "g_nodes g = n" and F: "front_at n nb s k front" "level nb s k \<subseteq> bits front"
    and V: "visited n nb s (reached nb s k) parent" and b: "n \<le> 64 * len next'"
  shows "\<exists>parent' next''. BUStep g parent front next' = Inr (parent', next'', int (card (level nb s (Suc k)))) \<and>
    visited n nb s (reached nb s (Suc k)) parent' \<and> n \<le> 64 * len next'' \<and> bits next'' = level nb s (Suc k)"
proof -
  have L: "level nb s (Suc k) \<subseteq> {0..<n}" using level_reached [of nb s "Suc k"] reached_range [OF S, of "Suc k"] by auto
  have none: "{v \<in> level nb s (Suc k). v < 0} = {}" "{v \<in> level nb s (Suc k). v < n} = level nb s (Suc k)" using L by auto
  have "bu_at n nb s k 0 (parent, bm_reset next', 0)" using V b by (simp add: bu_at_def none(1))
  from bu_nodes_ok [OF S G F this] searchableD(3) [OF S] obtain st where st: "BUStep g parent front next' = Inr st" "bu_at n nb s k n st"
    by (auto simp: BUStep_def)
  have "reached nb s k \<union> level nb s (Suc k) = reached nb s (Suc k)" using reached_mono [of k "Suc k" nb s] by (auto simp: level_simps)
  then show ?thesis using st unfolding bu_at_def none(2) by (cases st) auto
qed

section \<open>Between queue and bitmap\<close>

lemma queue_bits_ok:
  assumes q: "sq_ok q" and i: "0 \<le> i" "i \<le> shared_out_end q" and w: "\<forall>j. i \<le> j \<and> j < shared_out_end q \<longrightarrow> 0 \<le> cell (sq_shared q) j \<and> cell (sq_shared q) j < n"
    and b: "n \<le> 64 * len b"
  shows "\<exists>b'. queue_bits q i b = Inr b' \<and> len b' = len b \<and> bits b' = bits b \<union> {cell (sq_shared q) j | j. i \<le> j \<and> j < shared_out_end q}"
  using i w b
proof (induction "nat (shared_out_end q - i)" arbitrary: i b)
  case 0
  then have i: "i = shared_out_end q" by simp
  have "{cell (sq_shared q) j | j. i \<le> j \<and> j < shared_out_end q} = {}" using i by auto
  moreover have "queue_bits q i b = Inr b" using i by (subst queue_bits.simps) simp
  ultimately show ?case by (intro exI [of _ b]) (simp only: Un_empty_right simp_thms)
next
  case (Suc m)
  have i: "i < shared_out_end q" using Suc.hyps(2) by simp
  let ?u = "cell (sq_shared q) i"
  have r: "rd (sq_shared q) i = Inr ?u" using i Suc.prems(1) q by (simp add: sq_ok_def)
  have u: "0 \<le> ?u" "?u < 64 * len b" using Suc.prems(3,4) i by force+
  obtain b1 where b1: "set_bit_at b ?u = Inr b1" "len b1 = len b" "bits b1 = insert ?u (bits b)" using set_bit_ok [OF u] by blast
  have "\<exists>b'. queue_bits q (i + 1) b1 = Inr b' \<and> len b' = len b1 \<and> bits b' = bits b1 \<union> {cell (sq_shared q) j | j. i + 1 \<le> j \<and> j < shared_out_end q}"
    by (rule Suc.hyps(1)) (use Suc.hyps(2) Suc.prems i b1(2) in auto)
  then obtain b' where b': "queue_bits q (i + 1) b1 = Inr b'" "len b' = len b1"
    "bits b' = bits b1 \<union> {cell (sq_shared q) j | j. i + 1 \<le> j \<and> j < shared_out_end q}" by blast
  have "{cell (sq_shared q) j | j. i \<le> j \<and> j < shared_out_end q} = insert ?u {cell (sq_shared q) j | j. i + 1 \<le> j \<and> j < shared_out_end q}"
  proof -
    have "(i \<le> j) = (j = i \<or> i + 1 \<le> j)" for j by linarith
    then show ?thesis using i by (simp only:) blast
  qed
  then show ?case using i r b1 b' by (subst queue_bits.simps) auto
qed

lemma QueueToBitmap_ok:
  assumes S: "searchable n nb s" and Q: "queue_at n nb s k q" and F: "front_at n nb s k front"
  shows "\<exists>front'. QueueToBitmap q front = Inr front' \<and> front_at n nb s k front' \<and> level nb s k \<subseteq> bits front' \<and> len front' = len front"
proof -
  have q: "sq_ok q" "set (sq_window q) = level nb s k" using Q by (auto simp: queue_at_def)
  have L: "{cell (sq_shared q) j | j. shared_out_start q \<le> j \<and> j < shared_out_end q} = level nb s k"
    using q(2) unfolding sq_window_def sq_size_def set_cells .
  have lr: "level nb s k \<subseteq> {0..<n}" using level_reached [of nb s k] reached_range [OF S, of k] by auto
  have "\<exists>b'. queue_bits q (shared_out_start q) front = Inr b' \<and> len b' = len front \<and>
      bits b' = bits front \<union> {cell (sq_shared q) j | j. shared_out_start q \<le> j \<and> j < shared_out_end q}"
  proof (rule queue_bits_ok [OF q(1), of _ n])
    show "\<forall>j. shared_out_start q \<le> j \<and> j < shared_out_end q \<longrightarrow> 0 \<le> cell (sq_shared q) j \<and> cell (sq_shared q) j < n"
    proof (intro allI impI)
      fix j assume "shared_out_start q \<le> j \<and> j < shared_out_end q"
      then have "cell (sq_shared q) j \<in> {cell (sq_shared q) j | j. shared_out_start q \<le> j \<and> j < shared_out_end q}" by blast
      then have "cell (sq_shared q) j \<in> level nb s k" unfolding L .
      then show "0 \<le> cell (sq_shared q) j \<and> cell (sq_shared q) j < n" using lr by auto
    qed
  qed (use q(1) F in \<open>auto simp: sq_ok_def front_at_def\<close>)
  then obtain b' where b': "QueueToBitmap q front = Inr b'" "len b' = len front" "bits b' = bits front \<union> level nb s k"
    unfolding L QueueToBitmap_def by blast
  then have "front_at n nb s k b'" using F lr by (auto simp: front_at_def)
  then show ?thesis using b' by blast
qed

lemma bits_queue_ok:
  assumes q: "sq_ok (snd st)" "len (sq_shared (snd st)) = n" "distinct (qb_all st)" "set (qb_all st) \<subseteq> {0..<n}"
    and d: "\<forall>v \<in> set (qb_all st). v \<in> bits b \<longrightarrow> v < i" and i: "0 \<le> i" "i \<le> n" and b: "n \<le> 64 * len b"
  shows "\<exists>st'. bits_queue b i n st = Inr st' \<and> same_window (snd st) (snd st') \<and>
    (\<exists>new. qb_all st' = qb_all st @ new \<and> distinct new \<and> set new = {v \<in> bits b. i \<le> v \<and> v < n})"
  using q d i
proof (induction "nat (n - i)" arbitrary: i st)
  case 0
  then have "{v \<in> bits b. i \<le> v \<and> v < n} = {}" by auto
  then show ?case using 0 same_window_refl [of "snd st"]
    by (subst bits_queue.simps) (intro exI [of _ st] conjI exI [of _ "[]"], auto)
next
  case (Suc m)
  have i: "0 \<le> i" "i < n" "i < 64 * len b" using Suc.hyps(2) Suc.prems b by simp_all
  note g = get_bit_ok [OF i(1,3)]
  define st0 where "st0 = qb_all st"
  have "\<exists>st1. (if i \<in> bits b then qb_push i st else Inr st) = Inr st1 \<and> same_window (snd st) (snd st1) \<and>
      qb_all st1 = qb_all st @ (if i \<in> bits b then [i] else [])"
  proof (cases "i \<in> bits b")
    case True
    have "int (length (qb_all st)) \<le> n" using Suc.prems i by (intro distinct_room) auto
    then show ?thesis using qb_push_ok [of st i] Suc.prems(1,2) True by simp
  next
    case False
    then show ?thesis using same_window_refl [OF Suc.prems(1)] by (intro exI [of _ st]) simp
  qed
  then obtain st1 where st1: "(if i \<in> bits b then qb_push i st else Inr st) = Inr st1" "same_window (snd st) (snd st1)"
    "qb_all st1 = qb_all st @ (if i \<in> bits b then [i] else [])" by blast
  have ni: "i \<in> bits b \<Longrightarrow> i \<notin> set (qb_all st)" using Suc.prems(5) by auto
  have "\<exists>st'. bits_queue b (i + 1) n st1 = Inr st' \<and> same_window (snd st1) (snd st') \<and>
    (\<exists>new. qb_all st' = qb_all st1 @ new \<and> distinct new \<and> set new = {v \<in> bits b. i + 1 \<le> v \<and> v < n})"
  proof (rule Suc.hyps(1))
    show "m = nat (n - (i + 1))" using Suc.hyps(2) by simp
    show "sq_ok (snd st1)" "len (sq_shared (snd st1)) = n" using st1(2) Suc.prems(2) by (auto simp: same_window_def)
    show "distinct (qb_all st1)" "set (qb_all st1) \<subseteq> {0..<n}" using st1(3) Suc.prems(3,4) ni i by auto
    show "\<forall>v \<in> set (qb_all st1). v \<in> bits b \<longrightarrow> v < i + 1" using st1(3) Suc.prems(5) by force
  qed (use i in auto)
  then obtain st' new where st': "bits_queue b (i + 1) n st1 = Inr st'" "same_window (snd st1) (snd st')"
    "qb_all st' = qb_all st1 @ new" "distinct new" "set new = {v \<in> bits b. i + 1 \<le> v \<and> v < n}" by blast
  have run: "bits_queue b i n st = Inr st'" using i(2) g st1(1) st'(1) by (subst bits_queue.simps) simp
  let ?new = "(if i \<in> bits b then [i] else []) @ new"
  have "qb_all st' = qb_all st @ ?new" using st'(3) st1(3) by simp
  moreover have "distinct ?new" using st'(4,5) by auto
  moreover have "set ?new = {v \<in> bits b. i \<le> v \<and> v < n}"
  proof -
    have "(i \<le> v) = (v = i \<or> i + 1 \<le> v)" for v by linarith
    then show ?thesis using st'(5) i(2) by auto
  qed
  ultimately show ?case using run same_window_trans [OF st1(2) st'(2)] by blast
qed

lemma BitmapToQueue_ok:
  assumes S: "searchable n nb s" and g: "g_nodes g = n" and q: "sq_ok q" "len (sq_shared q) = n" "distinct (sq_all q)"
    "set (sq_all q) \<subseteq> reached nb s j" "shared_out_end q = shared_in q" and jk: "j < k"
    and b: "n \<le> 64 * len b" "bits b = level nb s k"
  shows "\<exists>q'. BitmapToQueue g b q = Inr q' \<and> queue_at n nb s k q'"
proof -
  have Lr: "level nb s k \<subseteq> {0..<n}" using level_reached [of nb s k] reached_range [OF S, of k] by auto
  have disj: "level nb s k \<inter> reached nb s j = {}"
  proof -
    obtain i where i: "k = Suc i" "j \<le> i" using jk by (cases k) auto
    then show ?thesis using reached_mono [OF i(2), of nb s] by (auto simp: level_simps)
  qed
  have r: "set (sq_all q) \<subseteq> {0..<n}" using q(4) reached_range [OF S, of j] by auto
  have n: "0 \<le> n" by (rule searchableD(3) [OF S])
  have "\<exists>st'. bits_queue b 0 n ([], q) = Inr st' \<and> same_window (snd ([] :: int list, q)) (snd st') \<and>
    (\<exists>new. qb_all st' = qb_all ([], q) @ new \<and> distinct new \<and> set new = {v \<in> bits b. 0 \<le> v \<and> v < n})"
  proof (rule bits_queue_ok [where st = "([], q)" and b = b and i = 0 and n = n])
    show "\<forall>v \<in> set (qb_all ([], q)). v \<in> bits b \<longrightarrow> v < 0" using q(4) b(2) disj by (auto simp: qb_all_def)
  qed (use q r b n in \<open>simp_all add: qb_all_def\<close>)
  then obtain st' new where st': "bits_queue b 0 n ([], q) = Inr st'" "same_window q (snd st')" "qb_all st' = sq_all q @ new"
    "distinct new" "set new = {v \<in> bits b. 0 \<le> v \<and> v < n}" unfolding qb_all_def [of "([], q)"] by auto
  have "{v \<in> bits b. 0 \<le> v \<and> v < n} = level nb s k" using b(2) Lr by auto
  note st' = st'(1-4) st'(5) [unfolded this]
  have d: "distinct (sq_all q @ new)" "set (sq_all q @ new) \<subseteq> reached nb s k"
    using q(3,4) st'(4,5) disj level_reached [of nb s k] reached_mono [of j k nb s] jk by auto
  have "int (length (qb_all st')) \<le> n" unfolding st'(3) using d n reached_range [OF S, of k] by (intro distinct_room) auto
  then obtain q' where q': "qb_flush st' = Inr ([], q')" "same_window (snd st') q'" "sq_all q' = qb_all st'"
    using qb_finish [of st'] st'(2) q(2) by (auto simp: same_window_def)
  have W: "same_window q q'" by (rule same_window_trans [OF st'(2) q'(2)])
  then have ok: "sq_ok q'" "shared_out_end q' = shared_in q" "len (sq_shared q') = n" using q by (auto simp: same_window_def)
  have "nat (shared_in q) = length (sq_all q)" using length_sq_all [OF q(1)] by simp
  then have "sq_window (slide_window q') = new" using window_slide(3) [OF ok(1)] ok(2) q'(3) st'(3) by simp
  then have "queue_at n nb s k (slide_window q')"
    using window_slide(1,2) [OF ok(1)] ok(3) q'(3) st'(3,5) d by (simp add: queue_at_def slide_window_def)
  moreover have "BitmapToQueue g b q = Inr (slide_window q')" using st'(1) q'(1) g by (simp add: BitmapToQueue_def)
  ultimately show ?thesis by blast
qed

section \<open>The search\<close>

text \<open>The loop of bottom-up steps leaves a later level, and its predecessor level was not empty.\<close>

lemma bu_loop_ok:
  assumes S: "searchable n nb s" and G: "graph_reads g nb ib" "g_nodes g = n" and beta: "0 \<le> cdiv n beta"
    and F: "front_at n nb s k front" "level nb s k \<subseteq> bits front" and V: "visited n nb s (reached nb s k) parent"
    and b: "n \<le> 64 * len cur" and a: "awake = int (card (level nb s k))" "level nb s k \<noteq> {}" and m: "n \<le> int m + int k"
  shows "\<exists>k' parent' front' cur'. bu_loop m g beta awake (parent, front, cur) = Inr (parent', front', cur') \<and> k \<le> k' \<and>
    level nb s k' \<noteq> {} \<and> visited n nb s (reached nb s (Suc k')) parent' \<and> n \<le> 64 * len front' \<and>
    bits front' = level nb s (Suc k') \<and> n \<le> 64 * len cur'"
  using F V b a m
proof (induction m arbitrary: k parent front cur awake)
  case 0
  then show ?case using level_bound [OF S, of k] by simp
next
  case (Suc m)
  note F = Suc.prems(1,2) and V = Suc.prems(3) and b = Suc.prems(4) and a = Suc.prems(5,6) and m = Suc.prems(7)
  let ?a = "int (card (level nb s (Suc k)))"
  obtain parent1 next' where st: "BUStep g parent front cur = Inr (parent1, next', ?a)"
    and V1: "visited n nb s (reached nb s (Suc k)) parent1" and b1: "n \<le> 64 * len next'" "bits next' = level nb s (Suc k)"
    using BUStep_ok [OF S G F V b] by blast
  have fb: "n \<le> 64 * len front" using F(1) by (simp add: front_at_def)
  show ?case
  proof (cases "?a \<ge> awake \<or> ?a > cdiv n beta")
    case False
    then have "bu_loop (Suc m) g beta awake (parent, front, cur) = Inr (parent1, next', front)" using st G(2) by (simp add: Let_def)
    then show ?thesis using V1 b1 fb a(2) by blast
  next
    case True
    have fin: "finite (level nb s j)" for j
      by (rule finite_subset [OF subset_trans [OF level_reached reached_range [OF S]]]) simp
    have "0 < awake" using a fin by (simp add: card_gt_0_iff)
    then have ne: "level nb s (Suc k) \<noteq> {}" using True beta by auto
    have lv: "level nb s (Suc k) \<subseteq> bits next'" and m': "n \<le> int m + int (Suc k)" using b1(2) m by simp_all
    have nf: "front_at n nb s (Suc k) next'"
      using b1 level_reached [of nb s "Suc k"] reached_range [OF S, of "Suc k"] by (auto simp: front_at_def)
    obtain k' parent' front' cur' where r: "bu_loop m g beta ?a (parent1, next', front) = Inr (parent', front', cur')" "Suc k \<le> k'"
      "level nb s k' \<noteq> {}" "visited n nb s (reached nb s (Suc k')) parent'" "n \<le> 64 * len front'"
      "bits front' = level nb s (Suc k')" "n \<le> 64 * len cur'"
      using Suc.IH [OF nf lv V1 fb refl ne m'] by blast
    have "bu_loop (Suc m) g beta awake (parent, front, cur) = Inr (parent', front', cur')" using True st r(1) G(2) by (simp add: Let_def)
    moreover have "k \<le> k'" using r(2) by simp
    ultimately show ?thesis using r(3-7) by blast
  qed
qed

text \<open>What holds before each round.\<close>

definition bfs_at :: "int \<Rightarrow> (int \<Rightarrow> int list) \<Rightarrow> int \<Rightarrow> nat \<Rightarrow> bfs_state \<Rightarrow> bool" where
  "bfs_at n nb s k st \<longleftrightarrow> visited n nb s (reached nb s k) (b_parent st) \<and> queue_at n nb s k (b_queue st) \<and>
     front_at n nb s k (b_front st) \<and> n \<le> 64 * len (b_curr st)"

lemma bottom_up_ok:
  assumes S: "searchable n nb s" and G: "graph_reads g nb ib" "g_nodes g = n" and beta: "0 \<le> cdiv n beta"
    and I: "bfs_at n nb s k st" and ne: "level nb s k \<noteq> {}"
  shows "\<exists>k' st'. bottom_up (nat n + 2) g beta st = Inr st' \<and> k \<le> k' \<and> level nb s k' \<noteq> {} \<and> bfs_at n nb s (Suc k') st'"
proof -
  let ?q = "b_queue st"
  have V: "visited n nb s (reached nb s k) (b_parent st)" and Q: "queue_at n nb s k ?q" and F: "front_at n nb s k (b_front st)"
    and c: "n \<le> 64 * len (b_curr st)" using I by (auto simp: bfs_at_def)
  have q: "sq_ok ?q" "len (sq_shared ?q) = n" "distinct (sq_all ?q)" "set (sq_all ?q) \<subseteq> reached nb s k" "shared_out_end ?q = shared_in ?q"
    "set (sq_window ?q) = level nb s k" using Q by (auto simp: queue_at_def)
  obtain front where f: "QueueToBitmap ?q (b_front st) = Inr front" "front_at n nb s k front" "level nb s k \<subseteq> bits front"
    using QueueToBitmap_ok [OF S Q F] by blast
  have "sq_window ?q = drop (nat (shared_out_start ?q)) (sq_all ?q)"
    using q(1,5) by (simp add: window_drop)
  then have "distinct (sq_window ?q)" using q(3) by simp
  moreover have "int (length (sq_window ?q)) = sq_size ?q" using q(1) by (simp add: sq_window_def sq_size_def sq_ok_def cells_def)
  ultimately have sz: "sq_size ?q = int (card (level nb s k))" using distinct_card [of "sq_window ?q"] q(6) by simp
  have m: "n \<le> int (nat n + 2) + int k" by simp
  obtain k' parent front' cur where r: "bu_loop (nat n + 2) g beta (sq_size ?q) (b_parent st, front, b_curr st) = Inr (parent, front', cur)"
    "k \<le> k'" "level nb s k' \<noteq> {}" "visited n nb s (reached nb s (Suc k')) parent" "n \<le> 64 * len front'"
    "bits front' = level nb s (Suc k')" "n \<le> 64 * len cur"
    using bu_loop_ok [OF S G beta f(2,3) V c sz ne m] by blast
  have w: "sq_ok (slide_window ?q)" "sq_all (slide_window ?q) = sq_all ?q" using window_slide(1,2) [OF q(1)] by simp_all
  obtain q' where q': "BitmapToQueue g front' (slide_window ?q) = Inr q'" "queue_at n nb s (Suc k') q'"
    using BitmapToQueue_ok [OF S G(2) w(1), of k "Suc k'" front'] w(2) q(2-5) r(2,5,6) by (auto simp: slide_window_def)
  have "front_at n nb s (Suc k') front'"
    using r(5,6) level_reached [of nb s "Suc k'"] reached_range [OF S, of "Suc k'"] by (auto simp: front_at_def)
  then have "bfs_at n nb s (Suc k') (st\<lparr>b_parent := parent, b_queue := q', b_front := front', b_curr := cur, scout_count := 1\<rparr>)"
    using r(4,7) q'(2) by (simp add: bfs_at_def)
  moreover have "bottom_up (nat n + 2) g beta st = Inr (st\<lparr>b_parent := parent, b_queue := q', b_front := front', b_curr := cur, scout_count := 1\<rparr>)"
    using f(1) r(1) q'(1) by (simp add: bottom_up_def)
  ultimately show ?thesis using r(2,3) by blast
qed

lemma top_down_ok:
  assumes S: "searchable n nb s" and G: "graph_reads g nb ib" "g_nodes g = n" and I: "bfs_at n nb s k st"
  shows "\<exists>st'. top_down g st = Inr st' \<and> bfs_at n nb s (Suc k) st'"
proof -
  have V: "visited n nb s (reached nb s k) (b_parent st)" and Q: "queue_at n nb s k (b_queue st)" and F: "front_at n nb s k (b_front st)"
    and c: "n \<le> 64 * len (b_curr st)" using I by (auto simp: bfs_at_def)
  obtain parent' q' sc where "TDStep g (b_parent st) (b_queue st) = Inr (parent', q', sc)"
    "visited n nb s (reached nb s (Suc k)) parent'" "queue_at n nb s (Suc k) (slide_window q')"
    using TDStep_ok [OF S Q G V] by blast
  then show ?thesis using front_next [OF F] c by (simp add: top_down_def bfs_at_def)
qed

lemma sq_empty_level:
  assumes "queue_at n nb s k q"
  shows "sq_empty q \<longleftrightarrow> level nb s k = {}"
proof -
  have "length (sq_window q) = nat (sq_size q)" by (simp add: sq_window_def cells_def)
  then show ?thesis using assms by (auto simp: queue_at_def sq_empty_def sq_size_def sq_ok_def)
qed

lemma bfs_loop_ok:
  assumes S: "searchable n nb s" and G: "graph_reads g nb ib" "g_nodes g = n" and beta: "0 \<le> cdiv n beta"
    and I: "bfs_at n nb s k st" and m: "n < int m + int k" "int k \<le> n"
  shows "\<exists>j parent. bfs_loop m g alpha beta st = Inr parent \<and> level nb s j = {} \<and> visited n nb s (reached nb s j) parent"
  using I m
proof (induction m arbitrary: k st)
  case (Suc m)
  have e: "sq_empty (b_queue st) \<longleftrightarrow> level nb s k = {}" using Suc.prems(1) by (intro sq_empty_level) (auto simp: bfs_at_def)
  show ?case
  proof (cases "level nb s k = {}")
    case True
    then have "bfs_loop (Suc m) g alpha beta st = Inr (b_parent st)" using e by simp
    then show ?thesis using True Suc.prems(1) by (auto simp: bfs_at_def)
  next
    case False
    have "\<exists>k' st'. (if scout_count st > cdiv (edges_to_check st) alpha then bottom_up (nat n + 2) g beta st else top_down g st) = Inr st' \<and>
      k \<le> k' \<and> level nb s k' \<noteq> {} \<and> bfs_at n nb s (Suc k') st'"
    proof (cases "scout_count st > cdiv (edges_to_check st) alpha")
      case True
      show ?thesis unfolding if_P [OF True] by (rule bottom_up_ok [OF S G beta Suc.prems(1) False])
    next
      case f: False
      show ?thesis unfolding if_not_P [OF f] using top_down_ok [OF S G Suc.prems(1)] False by blast
    qed
    then obtain k' st' where r: "(if scout_count st > cdiv (edges_to_check st) alpha then bottom_up (nat n + 2) g beta st else top_down g st) = Inr st'"
      "k \<le> k'" "level nb s k' \<noteq> {}" "bfs_at n nb s (Suc k') st'" by blast
    have "n < int m + int (Suc k')" "int (Suc k') \<le> n" using Suc.prems(2) r(2) level_bound [OF S r(3)] by simp_all
    from Suc.IH [OF r(4) this] obtain j parent where
      j: "bfs_loop m g alpha beta st' = Inr parent" "level nb s j = {}" "visited n nb s (reached nb s j) parent" by blast
    have "\<not> sq_empty (b_queue st)" using e False by simp
    then have "bfs_loop (Suc m) g alpha beta st = sbind (Inr st') (bfs_loop m g alpha beta)"
      unfolding bfs_loop.simps G(2) r(1) by (rule if_not_P)
    then show ?thesis using j by auto
  qed
qed simp

lemma init_parent_ok:
  assumes "graph_reads g nb ib" "g_nodes g = n" "0 \<le> i" "i \<le> n" "len parent = n" "\<forall>v. 0 \<le> v \<and> v < i \<longrightarrow> cell parent v < 0"
  shows "\<exists>p. init_parent g i parent = Inr p \<and> len p = n \<and> (\<forall>v. 0 \<le> v \<and> v < n \<longrightarrow> cell p v < 0)"
  using assms(3-6)
proof (induction "nat (n - i)" arbitrary: i parent)
  case 0
  then show ?case using assms(2) by (subst init_parent.simps) auto
next
  case (Suc m)
  have i: "0 \<le> i" "i < n" using Suc.hyps(2) Suc.prems(1) by simp_all
  let ?d = "int (length (nb i))" let ?p = "upd parent i (if ?d \<noteq> 0 then - ?d else -1)"
  have c: "\<forall>v. 0 \<le> v \<and> v < i + 1 \<longrightarrow> cell ?p v < 0"
  proof (intro allI impI)
    fix v assume v: "0 \<le> v \<and> v < i + 1"
    show "cell ?p v < 0" using v Suc.prems i by (cases "v = i") auto
  qed
  have "init_parent g i parent = init_parent g (i + 1) ?p"
    using i assms(2) Suc.prems(3) graph_readsD(3) [OF assms(1), of i] by (subst init_parent.simps) simp
  moreover have "\<exists>p. init_parent g (i + 1) ?p = Inr p \<and> len p = n \<and> (\<forall>v. 0 \<le> v \<and> v < n \<longrightarrow> cell p v < 0)"
    by (rule Suc.hyps(1)) (use Suc.hyps(2) Suc.prems(3) i c in auto)
  ultimately show ?case by simp
qed

lemma start_queue:
  assumes S: "searchable n nb s"
  shows "\<exists>q. sq_push s (sq_new mq n) = Inr q \<and> queue_at n nb s 0 (slide_window q)"
proof -
  let ?xs = "upd (map (mq \<circ> int) [0..<nat n]) 0 s"
  have n: "0 \<le> s" "s < n" using searchableD(1,2) [OF S] .
  have l: "len (map (mq \<circ> int) [0..<nat n]) = n" using n by (simp add: len_def)
  have c: "cells ?xs 0 1 = [s]" using n l by (simp add: cells_def)
  have "sq_push s (sq_new mq n) = Inr \<lparr>sq_shared = ?xs, shared_in = 1, shared_out_start = 0, shared_out_end = 0\<rparr>"
    using n l by (simp add: sq_push_def sq_new_def)
  moreover have "queue_at n nb s 0 (slide_window \<lparr>sq_shared = ?xs, shared_in = 1, shared_out_start = 0, shared_out_end = 0\<rparr>)"
    using n l c by (simp add: queue_at_def slide_window_def sq_ok_def sq_all_def sq_window_def sq_size_def level_simps)
  ultimately show ?thesis by blast
qed

text \<open>Every vertex that can be reached gets a parent on a shortest path, and no other one.\<close>

definition bfs_result :: "int \<Rightarrow> (int \<Rightarrow> int list) \<Rightarrow> int \<Rightarrow> int list \<Rightarrow> bool" where
  "bfs_result n nb s parent \<longleftrightarrow> len parent = n \<and> (\<forall>v. 0 \<le> v \<and> v < n \<longrightarrow>
     (if \<exists>k. v \<in> reached nb s k then 0 \<le> cell parent v \<and> parent_ok nb s v (cell parent v) else cell parent v = -1))"

lemma bfs_result_cong:
  assumes S: "searchable n nb s" and e: "\<And>v. 0 \<le> v \<Longrightarrow> v < n \<Longrightarrow> set (nb v) = set (nb' v)"
  shows "bfs_result n nb s = bfs_result n nb' s"
proof -
  have r: "reached nb s k = reached nb' s k" for k
  proof (induction k)
    case (Suc k)
    have "set (nb u) = set (nb' u)" if "u \<in> reached nb s k" for u
      using e reached_range [OF S, of k] that by auto
    then show ?case using Suc by (auto simp: reached.simps(2))
  qed simp
  then have l: "level nb s k = level nb' s k" for k by (simp add: level_def split: nat.splits)
  have "set (nb u) = set (nb' u)" if "u \<in> level nb' s k" for u k
    using e reached_range [OF S, of k] level_reached [of nb s k] that l [of k] by auto
  then have "parent_ok nb s v p = parent_ok nb' s v p" for v p
    unfolding parent_ok_def l by blast
  then show ?thesis by (simp add: bfs_result_def fun_eq_iff r)
qed

lemma DOBFS_ok:
  assumes S: "searchable (g_nodes g) nb s" and G: "graph_reads g nb ib" and beta: "0 < beta"
  shows "\<exists>parent. DOBFS mp mq mb g s alpha beta = Inr parent \<and> bfs_result (g_nodes g) nb s parent"
proof -
  define n where "n = g_nodes g"
  have s: "searchable n nb s" "0 \<le> s" "s < n" "0 \<le> n" using S searchableD(1-3) [OF S] by (simp_all add: n_def)
  have g: "g_nodes g = n" by (simp add: n_def)
  obtain p where p: "InitParent g mp = Inr p" "len p = n" "\<forall>v. 0 \<le> v \<and> v < n \<longrightarrow> cell p v < 0"
    using init_parent_ok [OF G g, of 0 "map (mp \<circ> int) [0..<nat n]"] s by (auto simp: InitParent_def g len_def)
  obtain q where q: "sq_push s (sq_new mq n) = Inr q" "queue_at n nb s 0 (slide_window q)" using start_queue [OF s(1)] by blast
  let ?st = "\<lparr>b_parent = upd p s s, b_queue = slide_window q, b_curr = bm_reset (bm_new mb n), b_front = bm_reset (bm_new mb n),
    edges_to_check = g_edges_directed g, scout_count = int (length (nb s))\<rparr>"
  have "visited n nb s {s} (upd p s s)" unfolding visited_def
  proof (intro conjI allI impI)
    fix v assume v: "0 \<le> v \<and> v < n"
    show "if v \<in> {s} then 0 \<le> cell (upd p s s) v \<and> parent_ok nb s v (cell (upd p s s) v) else cell (upd p s s) v < 0"
      using p(2,3) s v by (cases "v = s") (auto simp: parent_ok_def)
  qed (use p in simp)
  then have I: "bfs_at n nb s 0 ?st" using q(2) s len_bm_new [of n mb] by (simp add: bfs_at_def front_at_def)
  have beta': "0 \<le> cdiv n beta" using s(4) beta by (simp add: pos_imp_zdiv_nonneg_iff)
  have m: "n < int (nat n + 2) + int 0" "int 0 \<le> n" using s by simp_all
  obtain j parent where r: "bfs_loop (nat n + 2) g alpha beta ?st = Inr parent" "level nb s j = {}"
    "visited n nb s (reached nb s j) parent" using bfs_loop_ok [OF s(1) G g beta' I m] by blast
  have all: "(\<exists>k. v \<in> reached nb s k) \<longleftrightarrow> v \<in> reached nb s j" for v
    using level_end [OF r(2)] reached_mono [of _ j nb s] by (metis nat_le_linear subsetD)
  let ?f = "\<lambda>p. if p < -1 then -1 else p :: int"
  have "DOBFS mp mq mb g s alpha beta = Inr (map ?f parent)"
    using p q r(1) s graph_readsD(3) [OF G, of s] by (simp add: DOBFS_def g)
  moreover have "bfs_result n nb s (map ?f parent)" unfolding bfs_result_def all
  proof (intro conjI allI impI)
    show "len (map ?f parent) = n" using r(3) by (simp add: visited_def len_def)
    fix v assume v: "0 \<le> v \<and> v < n"
    have "nat v < length parent" using v r(3) by (auto simp: visited_def len_def)
    then have "cell (map ?f parent) v = ?f (cell parent v)" unfolding cell_def by (rule nth_map)
    then show "if v \<in> reached nb s j then 0 \<le> cell (map ?f parent) v \<and> parent_ok nb s v (cell (map ?f parent) v) else cell (map ?f parent) v = - 1"
      using r(3) v by (auto simp: visited_def split: if_splits)
  qed
  ultimately show ?thesis by (auto simp: n_def)
qed

end
