(* ===== verification/DgapBuild.thy ===== *)
theory DgapBuild
  imports DgapInsert
begin

text \<open>
  Making a graph: \<^verbatim>\<open>compute_capacity\<close>, the insertion of the base graph, \<^verbatim>\<open>spread_weighted\<close> and the
  constructor of \<^verbatim>\<open>CSRGraph\<close> for a new pool file, and \<^verbatim>\<open>MakeGraph\<close> of \<^verbatim>\<open>builder.h\<close>, which calls them. The
  pool file is new and its allocations succeed; loops over \<^verbatim>\<open>int\<close> counters are for fewer than \<open>2\<^sup>3\<^sup>1\<close> edges.
\<close>

section \<open>Parameters of the array\<close>

definition max_sparseness :: int where
  "max_sparseness = 4"

definition compute_capacity :: "dgraph \<Rightarrow> dgraph res" where
  "compute_capacity g =
     sbind (ceil_log2 (to_u64 (num_vertices g))) (\<lambda>k.
     let segment_size = to_i32 (uint k);
         segment_count = to_i64 (uint (ceil_div (to_u64 (num_vertices g)) (to_u64 segment_size))) in
     sbind (hyperfloor (to_u64 segment_count)) (\<lambda>h.
     let segment_count = to_i64 (uint h);
         segment_size = to_i32 (uint (ceil_div (to_u64 (num_vertices g)) (to_u64 segment_count)));
         num_vertices = to_i32 (segment_count * segment_size) in
     Inr (g\<lparr>segment_size := segment_size, segment_count := segment_count, num_vertices := num_vertices,
       avg_degree := to_i64 (uint (ceil_div (to_u64 (num_edges g)) (to_u64 num_vertices))),
       elem_capacity := (num_edges g + num_vertices) * max_sparseness\<rparr>)))"

section \<open>The base graph\<close>

text \<open>The graph with the local \<^verbatim>\<open>ii\<close>, the next free cell. The pivot of a vertex, without edges.\<close>

definition base_pivot :: "int \<Rightarrow> dgraph \<times> int \<Rightarrow> (dgraph \<times> int) res" where
  "base_pivot vid = (\<lambda>(g, ii).
     sbind (set_edge g ii (- vid)) (\<lambda>g.
     sbind (rd (vertices g) vid) (\<lambda>x.
     sbind (set_vertex g vid (x\<lparr>v_degree := 1, v_index := ii\<rparr>)) (\<lambda>g.
     sbind (add_actual g (get_segment_id g vid) 1) (\<lambda>g.
     Inr (g, ii + 1))))))"

function fill_vertices :: "int \<Rightarrow> int \<Rightarrow> dgraph \<times> int \<Rightarrow> (dgraph \<times> int) res" where
  "fill_vertices vid t_src s =
     (if vid < t_src then sbind (base_pivot vid s) (fill_vertices (vid + 1) t_src) else Inr s)"
  by pat_completeness auto
termination
  by (relation "measure (\<lambda>(v, t, s). nat (t - v))") auto

declare fill_vertices.simps [simp del]

text \<open>One edge; the local \<^verbatim>\<open>last_vid\<close> comes with the state.\<close>

definition base_edge :: "int \<times> int \<Rightarrow> int \<times> dgraph \<times> int \<Rightarrow> (int \<times> dgraph \<times> int) res" where
  "base_edge e = (\<lambda>(last_vid, g, ii).
     let t_src = fst e; t_dst = snd e in
     sbind (rd (vertices g) t_src) (\<lambda>x.
     sbind (if v_degree x = 0
            then sbind (if t_src \<noteq> last_vid + 1 then fill_vertices (last_vid + 1) t_src (g, ii) else Inr (g, ii)) (\<lambda>s.
                 sbind (base_pivot t_src s) (\<lambda>s. Inr (t_src, s)))
            else Inr (last_vid, g, ii)) (\<lambda>(last_vid, g, ii).
     sbind (set_edge g ii t_dst) (\<lambda>g.
     sbind (rd (vertices g) t_src) (\<lambda>x.
     sbind (set_vertex g t_src (x\<lparr>v_degree := v_degree x + 1\<rparr>)) (\<lambda>g.
     sbind (add_actual g (get_segment_id g t_src) 1) (\<lambda>g.
     Inr (last_vid, g, ii + 1))))))))"

text \<open>\<open>n\<close> is \<^verbatim>\<open>num_edges_\<close>, which the loop does not change.\<close>

function base_edges :: "(int \<times> int) list \<Rightarrow> int \<Rightarrow> int \<Rightarrow> int \<times> dgraph \<times> int \<Rightarrow> (int \<times> dgraph \<times> int) res" where
  "base_edges edge_list n i s =
     (if i < n then sbind (rd edge_list i) (\<lambda>e. sbind (base_edge e s) (base_edges edge_list n (i + 1))) else Inr s)"
  by pat_completeness auto
termination
  by (relation "measure (\<lambda>(es, n, i, s). nat (n - i))") auto

declare base_edges.simps [simp del]

text \<open>The vertices without edges behind the last one that has some.\<close>

function base_rest :: "int \<Rightarrow> int \<Rightarrow> int \<Rightarrow> dgraph \<times> int \<Rightarrow> (dgraph \<times> int) res" where
  "base_rest last_vid n i s =
     (if i < n
      then sbind (rd (vertices (fst s)) i) (\<lambda>x.
           sbind (if v_degree x = 0 then sbind (check (i > last_vid)) (\<lambda>_. base_pivot i s) else Inr s) (\<lambda>(g, ii).
           sbind (rd (vertices g) i) (\<lambda>x.
           sbind (set_vertex g i (x\<lparr>v_offset := -1\<rparr>)) (\<lambda>g.
           base_rest last_vid n (i + 1) (g, ii)))))
      else Inr s)"
  by pat_completeness auto
termination
  by (relation "measure (\<lambda>(l, n, i, s). nat (n - i))") auto

declare base_rest.simps [simp del]

section \<open>Spreading the vertices\<close>

function spread_copy :: "int list \<Rightarrow> int \<Rightarrow> int \<Rightarrow> int \<Rightarrow> int list res" where
  "spread_copy es n write_index read_index =
     (if 0 < n
      then sbind (rd es read_index) (\<lambda>x.
           sbind (wr es write_index x) (\<lambda>es.
           spread_copy es (n - 1) (write_index - 1) (read_index - 1)))
      else Inr es)"
  by pat_completeness auto
termination
  by (relation "measure (\<lambda>(es, n, w, r). nat n)") auto

declare spread_copy.simps [simp del]

function spread_from :: "int list \<Rightarrow> int \<Rightarrow> int \<Rightarrow> dgraph \<Rightarrow> dgraph res" where
  "spread_from new_positions start_vertex curr_vertex g =
     (if curr_vertex > start_vertex
      then sbind (rd (vertices g) curr_vertex) (\<lambda>x.
           sbind (rd new_positions curr_vertex) (\<lambda>p.
           let curr_degree = v_degree x;
               read_index = v_index x + curr_degree - 1;
               write_index = p + curr_degree - 1 in
           sbind (check (write_index \<ge> read_index)) (\<lambda>_.
           sbind (spread_copy (edges g) curr_degree write_index read_index) (\<lambda>es.
           sbind (set_vertex (g\<lparr>edges := es\<rparr>) curr_vertex (x\<lparr>v_index := p\<rparr>)) (\<lambda>g.
           spread_from new_positions start_vertex (curr_vertex - 1) g)))))
      else Inr g)"
  by pat_completeness auto
termination
  by (relation "measure (\<lambda>(ps, s, c, g). nat (c - s))") auto

declare spread_from.simps [simp del]

definition spread_weighted :: "int \<Rightarrow> int \<Rightarrow> dgraph \<Rightarrow> dgraph res" where
  "spread_weighted start_vertex end_vertex g =
     sbind (check (start_vertex = 0)) (\<lambda>_.
     let gaps = elem_capacity g - num_edges g in
     sbind (calculate_positions g start_vertex end_vertex gaps (num_edges g)) (\<lambda>new_positions.
     sbind (spread_from new_positions start_vertex (end_vertex - 1) g) (\<lambda>g.
     recount_segment_total g)))"

definition insert_base :: "(int \<times> int) list \<Rightarrow> dgraph \<Rightarrow> dgraph res" where
  "insert_base edge_list g =
     sbind (base_edges edge_list (num_edges g) 0 (-1, g, 0)) (\<lambda>(last_vid, s).
     sbind (base_rest last_vid (num_vertices (fst s)) 0 s) (\<lambda>(g, ii).
     let g = g\<lparr>num_edges := num_edges g + num_vertices g\<rparr> in
     sbind (spread_weighted 0 (num_vertices g) g) (\<lambda>g.
     Inr (flush (FlEdges 0 (elem_capacity g)) g))))"

section \<open>The constructor\<close>

definition zero_vertex :: vertex_element where
  "zero_vertex = \<lparr>v_index = 0, v_degree = 0, v_offset = 0\<rparr>"

text \<open>The object before and after its arrays exist; the new pool holds zeros.\<close>

definition empty_graph :: "int \<Rightarrow> int \<Rightarrow> bool \<Rightarrow> dgraph" where
  "empty_graph n_vertices n_edges is_directed =
     \<lparr>num_vertices = n_vertices, num_edges = n_edges, avg_degree = 0, elem_capacity = 0, segment_size = 0,
      segment_count = 0, tree_height = 0, delta_up = f64_of_int 0, directed = is_directed, edges = [],
      vertices = [], log_ptr = [], log_segment_idx = [], segment_edges_actual = [],
      segment_edges_total = [], leaf_segments = [], ulog_ptr = [], oplog_ptr = [], flushes = []\<rparr>"

definition alloc_arrays :: "nat \<Rightarrow> dgraph \<Rightarrow> dgraph" where
  "alloc_arrays num_threads g = g\<lparr>
     segment_edges_actual := replicate (nat (segment_count g * 2)) 0,
     segment_edges_total := replicate (nat (segment_count g * 2)) 0,
     edges := replicate (nat (elem_capacity g)) 0,
     vertices := replicate (nat (num_vertices g)) zero_vertex,
     log_ptr := replicate (nat (segment_count g)) (replicate (nat MAX_LOG_ENTRIES) zero_entry),
     log_segment_idx := replicate (nat (segment_count g)) 0,
     ulog_ptr := replicate num_threads (replicate (nat MAX_ULOG_ENTRIES) 0),
     oplog_ptr := replicate num_threads 0,
     leaf_segments := replicate (nat (segment_count g)) new_leaf\<rparr>"

definition new_graph :: "nat \<Rightarrow> (int \<times> int) list \<Rightarrow> bool \<Rightarrow> int \<Rightarrow> int \<Rightarrow> dgraph res" where
  "new_graph num_threads edge_list is_directed n_edges n_vertices =
     sbind (compute_capacity (empty_graph n_vertices n_edges is_directed)) (\<lambda>g.
     sbind (floor_log2 (to_u64 (segment_count g))) (\<lambda>h.
     let tree_height = to_i32 (uint h);
         delta_up = f64_div (f64_sub up_0 up_h) (f64_of_int tree_height) in
     insert_base edge_list (alloc_arrays num_threads (g\<lparr>tree_height := tree_height, delta_up := delta_up\<rparr>))))"

section \<open>Building from edge lists\<close>

text \<open>\<^verbatim>\<open>FindMaxNodeID\<close>: the reduction of its parallel loop.\<close>

definition FindMaxNodeID :: "(int \<times> int) list \<Rightarrow> int" where
  "FindMaxNodeID el = fold (\<lambda>(u, v) m. max (max m u) v) el 0"

definition symmetrized :: "(int \<times> int) list \<Rightarrow> (int \<times> int) list" where
  "symmetrized el = el @ map (\<lambda>(u, v). (v, u)) el"

text \<open>The insertion of the dynamic edges, by one thread.\<close>

fun insert_dynamic ::
  "int \<Rightarrow> (int \<Rightarrow> int) \<Rightarrow> int \<Rightarrow> bool \<Rightarrow> (int \<times> int) list \<Rightarrow> dgraph \<Rightarrow> dgraph res" where
  "insert_dynamic vn em tid symmetrize [] g = Inr g"
| "insert_dynamic vn em tid symmetrize ((u, v) # el) g =
     sbind (insert_edge vn em tid u v g) (\<lambda>g.
     sbind (if symmetrize then insert_edge vn em tid v u g else Inr g) (\<lambda>g.
     insert_dynamic vn em tid symmetrize el g))"

text \<open>
  \<^verbatim>\<open>MakeGraph\<close> when the pool file does not exist. \<open>srt\<close> is what \<^verbatim>\<open>std::sort\<close> makes of the edges: it may order
  the edges of one source in any way.
\<close>

definition MakeGraph ::
  "((int \<times> int) list \<Rightarrow> (int \<times> int) list) \<Rightarrow> nat \<Rightarrow> int \<Rightarrow> (int \<Rightarrow> int) \<Rightarrow> int \<Rightarrow> bool
   \<Rightarrow> (int \<times> int) list \<Rightarrow> (int \<times> int) list \<Rightarrow> dgraph res" where
  "MakeGraph srt num_threads vn em tid symmetrize base dynamic =
     (let num_nodes = FindMaxNodeID base + 1;
          el = (if symmetrize then symmetrized base else base) in
      sbind (new_graph num_threads (srt el) (\<not> symmetrize) (int (length el)) num_nodes) (\<lambda>g.
      insert_dynamic vn em tid symmetrize dynamic g))"

end
