(* ===== verification/DgapReopen.thy ===== *)
theory DgapReopen
  imports DgapBuild
begin

text \<open>
  What outlives the process: the root object \<^verbatim>\<open>struct Base\<close> with the arrays it points to, the destructor of
  \<^verbatim>\<open>CSRGraph\<close> that backs the DRAM state up, the constructor on an existing pool file, and \<^verbatim>\<open>recovery\<close>. Memory
  from \<^verbatim>\<open>malloc\<close> and members the constructor does not set are arguments. Output is left out.
\<close>

section \<open>The pool\<close>

record pool =
  bp_num_vertices :: int
  bp_num_edges :: int
  bp_elem_capacity :: int
  bp_segment_count :: int
  bp_segment_size :: int
  bp_tree_height :: int
  bp_directed :: bool
  bp_backed_up :: bool
  bp_vertices :: "vertex_element list"
  bp_edges :: "int list"
  bp_log_segment :: "LogEntry list list"
  bp_log_segment_idx :: "int list"
  bp_segment_edges_actual :: "int list"
  bp_segment_edges_total :: "int list"

text \<open>
  The pool the constructor sets up for a new graph \<open>g\<close>: the fields of the root object, the arrays allocated
  with zeros. The edge array, the edge logs and \<open>elem_capacity\<close> live in the pool and change with the graph.
\<close>

definition live_pool :: "dgraph \<Rightarrow> pool \<Rightarrow> pool" where
  "live_pool g p = p\<lparr>bp_edges := edges g, bp_log_segment := log_ptr g, bp_elem_capacity := elem_capacity g\<rparr>"

definition created_pool :: "dgraph \<Rightarrow> int \<Rightarrow> pool" where
  "created_pool g n_edges = live_pool g
     \<lparr>bp_num_vertices = num_vertices g, bp_num_edges = n_edges, bp_elem_capacity = 0, bp_segment_count = segment_count g,
      bp_segment_size = segment_size g, bp_tree_height = tree_height g, bp_directed = directed g, bp_backed_up = False,
      bp_vertices = replicate (nat (num_vertices g)) zero_vertex, bp_edges = [], bp_log_segment = [],
      bp_log_segment_idx = replicate (nat (segment_count g)) 0,
      bp_segment_edges_actual = replicate (nat (segment_count g * 2)) 0,
      bp_segment_edges_total = replicate (nat (segment_count g * 2)) 0\<rparr>"

section \<open>The destructor\<close>

definition destroy :: "dgraph \<Rightarrow> pool \<Rightarrow> pool res" where
  "destroy g p = (let p = live_pool g p in
     sbind (copy_cells (vertices g) 0 (bp_vertices p) 0 (num_vertices g)) (\<lambda>vs.
     sbind (copy_cells (log_segment_idx g) 0 (bp_log_segment_idx p) 0 (segment_count g)) (\<lambda>li.
     sbind (copy_cells (segment_edges_actual g) 0 (bp_segment_edges_actual p) 0 (segment_count g * 2)) (\<lambda>ac.
     sbind (copy_cells (segment_edges_total g) 0 (bp_segment_edges_total p) 0 (segment_count g * 2)) (\<lambda>tt.
     Inr (p\<lparr>bp_vertices := vs, bp_log_segment_idx := li, bp_segment_edges_actual := ac, bp_segment_edges_total := tt,
       bp_num_vertices := num_vertices g, bp_num_edges := num_edges g, bp_elem_capacity := elem_capacity g,
       bp_segment_count := segment_count g, bp_segment_size := segment_size g, bp_tree_height := tree_height g,
       bp_backed_up := True\<rparr>))))))"

section \<open>Recovery\<close>

text \<open>The part of a cell that belongs to vertex \<open>vid\<close>, whose segment is \<open>seg_id\<close>.\<close>

definition count_cell :: "int \<Rightarrow> int \<Rightarrow> dgraph \<Rightarrow> dgraph res" where
  "count_cell vid seg_id g =
     sbind (rd (vertices g) vid) (\<lambda>x.
     sbind (set_vertex g vid (x\<lparr>v_degree := v_degree x + 1\<rparr>)) (\<lambda>g.
     sbind (add_actual g seg_id 1) (\<lambda>g.
     Inr (g\<lparr>num_edges := num_edges g + 1\<rparr>))))"

definition found_pivot :: "int \<Rightarrow> int \<Rightarrow> dgraph \<Rightarrow> dgraph res" where
  "found_pivot vid i g =
     sbind (rd (vertices g) vid) (\<lambda>x.
     sbind (set_vertex g vid (x\<lparr>v_index := i, v_degree := 1\<rparr>)) (\<lambda>g.
     sbind (add_actual g (get_segment_id g vid) 1) (\<lambda>g.
     Inr (g\<lparr>num_edges := num_edges g + 1\<rparr>))))"

text \<open>The cells of vertex 0: up to the first zero. \<open>es\<close> is \<^verbatim>\<open>edges_\<close>, which recovery only reads.\<close>

function recover_first :: "int list \<Rightarrow> int \<Rightarrow> int \<Rightarrow> dgraph \<Rightarrow> (dgraph \<times> int) res" where
  "recover_first es seg_id st_idx g =
     sbind (rd es st_idx) (\<lambda>e.
     if e \<noteq> 0 then sbind (count_cell 0 seg_id g) (recover_first es seg_id (st_idx + 1)) else Inr (g, st_idx))"
  by pat_completeness auto
termination
  by (relation "measure (\<lambda>(es, s, i, g). nat (len es - i))") (auto simp: rd_Inr_iff)

declare recover_first.simps [simp del]

text \<open>The scan of the rest, to cell \<open>n\<close>; the locals \<^verbatim>\<open>vid\<close> and \<^verbatim>\<open>seg_id\<close> come with the graph.\<close>

definition recover_cell :: "int \<Rightarrow> int \<Rightarrow> int \<times> int \<times> dgraph \<Rightarrow> (int \<times> int \<times> dgraph) res" where
  "recover_cell i e = (\<lambda>(vid, seg_id, g).
     if e < 0 then sbind (found_pivot (- e) i g) (\<lambda>g. Inr (- e, get_segment_id g (- e), g))
     else if e > 0 then sbind (count_cell vid seg_id g) (\<lambda>g. Inr (vid, seg_id, g))
     else Inr (vid, seg_id, g))"

function recover_scan :: "int list \<Rightarrow> int \<Rightarrow> int \<Rightarrow> int \<times> int \<times> dgraph \<Rightarrow> (int \<times> int \<times> dgraph) res" where
  "recover_scan es n i s =
     (if i < n then sbind (rd es i) (\<lambda>e. sbind (recover_cell i e s) (recover_scan es n (i + 1))) else Inr s)"
  by pat_completeness auto
termination
  by (relation "measure (\<lambda>(es, n, i, s). nat (n - i))") auto

declare recover_scan.simps [simp del]

text \<open>The number of log entries of a segment, from the entries themselves.\<close>

function recover_log_idx :: "LogEntry list \<Rightarrow> int \<Rightarrow> int \<Rightarrow> int res" where
  "recover_log_idx entries i n =
     (if i < MAX_LOG_ENTRIES
      then sbind (rd entries i) (\<lambda>e.
           if le_u e \<noteq> 0 \<and> le_v e \<noteq> 0 \<and> le_prev e \<noteq> 0 then recover_log_idx entries (i + 1) i else Inr n)
      else Inr n)"
  by pat_completeness auto
termination
  by (relation "measure (\<lambda>(r, i, x). nat (MAX_LOG_ENTRIES - i))") auto

declare recover_log_idx.simps [simp del]

function recover_logs :: "int \<Rightarrow> dgraph \<Rightarrow> dgraph res" where
  "recover_logs sid g =
     (if sid < segment_count g
      then sbind (rd (log_ptr g) sid) (\<lambda>entries.
           sbind (rd (log_segment_idx g) sid) (\<lambda>n.
           sbind (recover_log_idx entries 0 n) (\<lambda>n.
           sbind (wr (log_segment_idx g) sid n) (\<lambda>li.
           recover_logs (sid + 1) (g\<lparr>log_segment_idx := li\<rparr>)))))
      else Inr g)"
  by pat_completeness auto
termination
  by (relation "measure (\<lambda>(i, g). nat (segment_count g - i))") auto

declare recover_logs.simps [simp del]

definition recovery :: "dgraph \<Rightarrow> dgraph res" where
  "recovery g =
     (let g = g\<lparr>num_edges := 0\<rparr> in
      sbind (rd (edges g) 0) (\<lambda>e.
      sbind (if e = 0
             then sbind (found_pivot 0 0 g) (\<lambda>g. sbind (recover_first (edges g) (get_segment_id g 0) 1 g) (\<lambda>(g, st).
                  Inr (st, get_segment_id g 0, g)))
             else Inr (0, 0, g)) (\<lambda>(st, seg_id, g).
      sbind (recover_scan (edges g) (elem_capacity g) st (0, seg_id, g)) (\<lambda>(vid, seg_id, g).
      sbind (recount_segment_total g) (\<lambda>g.
      recover_logs 0 g)))))"

section \<open>The constructor on an existing pool\<close>

text \<open>
  \<open>junk\<close> is the object before the constructor runs; of its members the constructor leaves \<open>leaf_segments\<close>,
  \<open>ulog_ptr\<close> and \<open>oplog_ptr\<close> as they are. \<open>mv\<close> and \<open>ml\<close> are what \<^verbatim>\<open>malloc\<close> returns.
\<close>

definition reopened :: "dgraph \<Rightarrow> (int \<Rightarrow> vertex_element) \<Rightarrow> (int \<Rightarrow> int) \<Rightarrow> pool \<Rightarrow> dgraph" where
  "reopened junk mv ml p = junk\<lparr>
     elem_capacity := bp_elem_capacity p, segment_count := bp_segment_count p, segment_size := bp_segment_size p,
     tree_height := bp_tree_height p, num_vertices := bp_num_vertices p, num_edges := bp_num_edges p,
     avg_degree := to_i64 (uint (ceil_div (to_u64 (bp_num_edges p)) (to_u64 (bp_num_vertices p)))), directed := bp_directed p,
     segment_edges_actual := replicate (nat (bp_segment_count p * 2)) 0,
     segment_edges_total := replicate (nat (bp_segment_count p * 2)) 0,
     delta_up := f64_div (f64_sub up_0 up_h) (f64_of_int (bp_tree_height p)),
     edges := bp_edges p, vertices := map (mv \<circ> int) [0..<nat (bp_num_vertices p)],
     log_ptr := bp_log_segment p, log_segment_idx := map (ml \<circ> int) [0..<nat (bp_segment_count p)]\<rparr>"

definition reopen :: "dgraph \<Rightarrow> (int \<Rightarrow> vertex_element) \<Rightarrow> (int \<Rightarrow> int) \<Rightarrow> pool \<Rightarrow> (dgraph \<times> pool) res" where
  "reopen junk mv ml p =
     (let g = reopened junk mv ml p in
      if bp_backed_up p
      then sbind (copy_cells (bp_vertices p) 0 (vertices g) 0 (num_vertices g)) (\<lambda>vs.
           sbind (copy_cells (bp_log_segment_idx p) 0 (log_segment_idx g) 0 (segment_count g)) (\<lambda>li.
           sbind (copy_cells (bp_segment_edges_actual p) 0 (segment_edges_actual g) 0 (segment_count g * 2)) (\<lambda>ac.
           sbind (copy_cells (bp_segment_edges_total p) 0 (segment_edges_total g) 0 (segment_count g * 2)) (\<lambda>tt.
           Inr (g\<lparr>vertices := vs, log_segment_idx := li, segment_edges_actual := ac, segment_edges_total := tt\<rparr>, p)))))
      else sbind (recovery g) (\<lambda>g. Inr (g, p\<lparr>bp_num_edges := num_edges g\<rparr>)))"

end
