(* ===== verification/DgapBuildOk.thy ===== *)
theory DgapBuildOk
  imports DgapBuild DgapTopOk
begin

text \<open>
  The graph the constructor makes of a sorted list of edges satisfies the invariant, and every vertex holds
  the targets of its edges in the order of the list.
\<close>

section \<open>What the base insertion has written so far\<close>

definition targets :: "(int \<times> int) list \<Rightarrow> int \<Rightarrow> int list" where
  "targets es v = map snd (filter (\<lambda>e. fst e = v) es)"

definition row :: "(int \<times> int) list \<Rightarrow> int \<Rightarrow> int list" where
  "row es v = - v # targets es v"

text \<open>The rows of the vertices below \<open>k\<close>, one behind the other.\<close>

definition rows :: "(int \<times> int) list \<Rightarrow> int \<Rightarrow> int list" where
  "rows es k = concat (map (row es) [0..k - 1])"

lemma rows_0 [simp]: "rows es 0 = []"
  by (simp add: rows_def)

lemma rows_Suc: "0 \<le> k \<Longrightarrow> rows es (k + 1) = rows es k @ row es k"
  by (simp add: rows_def upto_rec2)

lemma targets_snoc: "targets (es @ [(u, d)]) v = targets es v @ (if v = u then [d] else [])"
  by (simp add: targets_def)

lemma row_snoc: "row (es @ [(u, d)]) v = row es v @ (if v = u then [d] else [])"
  by (simp add: row_def targets_snoc)

lemma rows_snoc_other: "k \<le> u \<Longrightarrow> rows (es @ [(u, d)]) k = rows es k"
  by (auto simp: rows_def row_snoc intro!: arg_cong [where f = concat])

lemma rows_snoc: "0 \<le> u \<Longrightarrow> rows (es @ [(u, d)]) (u + 1) = rows es (u + 1) @ [d]"
  by (simp add: rows_Suc rows_snoc_other row_snoc)

lemma len_row_pos: "0 < len (row es v)" "row es v \<noteq> []"
  by (simp_all add: row_def)

lemma rows_mono: "0 \<le> j \<Longrightarrow> j \<le> k \<Longrightarrow> len (rows es j) \<le> len (rows es k)"
proof (induction "nat (k - j)" arbitrary: k)
  case (Suc n)
  then have "len (rows es j) \<le> len (rows es (k - 1))" by (intro Suc.hyps(1)) auto
  also have "\<dots> \<le> len (rows es k)" using Suc rows_Suc [of "k - 1" es] by (simp add: len_def)
  finally show ?case .
qed simp

definition seg_counts_ok :: "dgraph \<Rightarrow> bool" where
  "seg_counts_ok g \<longleftrightarrow> (\<forall>i. 0 \<le> i \<and> i < segment_count g \<longrightarrow> cell (segment_edges_actual g) (i + segment_count g)
     = degsum g (i * segment_size g) ((i + 1) * segment_size g))"

text \<open>
  The graph with the vertices below \<open>k\<close> written: their cells, indices and degrees, the degrees of the others
  zero, and the counters of the segments.
\<close>

definition based :: "(int \<times> int) list \<Rightarrow> int \<Rightarrow> dgraph \<Rightarrow> int \<Rightarrow> bool" where
  "based es k g ii \<longleftrightarrow> 0 \<le> k \<and> k \<le> num_vertices g \<and> ii = len (rows es k) \<and> ii \<le> elem_capacity g \<and>
     cells (edges g) 0 ii = rows es k \<and>
     (\<forall>v. 0 \<le> v \<and> v < num_vertices g \<longrightarrow> deg g v = (if v < k then len (row es v) else 0)) \<and>
     (\<forall>v. 0 \<le> v \<and> v < k \<longrightarrow> idx g v = len (rows es v)) \<and> seg_counts_ok g"

text \<open>What the insertion leaves alone.\<close>

definition base_frame :: "dgraph \<Rightarrow> dgraph \<Rightarrow> bool" where
  "base_frame g g' \<longleftrightarrow>
     num_vertices g' = num_vertices g \<and> num_edges g' = num_edges g \<and> elem_capacity g' = elem_capacity g \<and>
     segment_size g' = segment_size g \<and> segment_count g' = segment_count g \<and>
     log_ptr g' = log_ptr g \<and> log_segment_idx g' = log_segment_idx g \<and> leaf_segments g' = leaf_segments g \<and>
     tree_height g' = tree_height g \<and> delta_up g' = delta_up g \<and> segment_edges_total g' = segment_edges_total g \<and>
     ulog_ptr g' = ulog_ptr g \<and> oplog_ptr g' = oplog_ptr g \<and> len (vertices g') = len (vertices g) \<and>
     len (edges g') = len (edges g) \<and> len (segment_edges_actual g') = len (segment_edges_actual g)"

lemma base_frame_refl [simp]: "base_frame g g"
  by (simp add: base_frame_def)

lemma base_frame_trans: "base_frame g h \<Longrightarrow> base_frame h k \<Longrightarrow> base_frame g k"
  by (simp add: base_frame_def)

lemma base_frameD:
  assumes "base_frame g g'"
  shows "num_vertices g' = num_vertices g" "num_edges g' = num_edges g" "elem_capacity g' = elem_capacity g"
    "segment_size g' = segment_size g" "segment_count g' = segment_count g" "get_segment_id g' v = get_segment_id g v"
    "log_ptr g' = log_ptr g" "log_segment_idx g' = log_segment_idx g" "leaf_segments g' = leaf_segments g"
    "tree_height g' = tree_height g" "delta_up g' = delta_up g" "segment_edges_total g' = segment_edges_total g"
    "ulog_ptr g' = ulog_ptr g" "oplog_ptr g' = oplog_ptr g" "len (vertices g') = len (vertices g)"
    "len (edges g') = len (edges g)" "len (segment_edges_actual g') = len (segment_edges_actual g)"
  using assms by (simp_all add: base_frame_def get_segment_id_def)

lemma base_frame_shape: "base_frame g g' \<Longrightarrow> wf_shape g \<Longrightarrow> wf_shape g'"
  using base_frameD [of g g'] by (simp add: wf_shape_def)

text \<open>A change of one vertex's degree moves the sums of the segments that hold it.\<close>

lemma degsum_change:
  assumes "\<And>v. a \<le> v \<Longrightarrow> v < b \<Longrightarrow> v \<noteq> u \<Longrightarrow> deg g' v = deg g v" "deg g' u = deg g u + 1"
  shows "degsum g' a b = degsum g a b + (if a \<le> u \<and> u < b then 1 else 0)"
proof (cases "a \<le> u \<and> u < b")
  case True
  then have "{a..<b} = insert u ({a..<b} - {u})" by auto
  then have "degsum g' a b = deg g' u + sum (deg g') ({a..<b} - {u})" "degsum g a b = deg g u + sum (deg g) ({a..<b} - {u})"
    unfolding degsum_def by (metis finite_Diff finite_atLeastLessThan_int sum.insert Diff_iff singletonI)+
  moreover have "sum (deg g') ({a..<b} - {u}) = sum (deg g) ({a..<b} - {u})" using assms(1) by (intro sum.cong) auto
  ultimately show ?thesis using True assms(2) by simp
next
  case False
  then show ?thesis unfolding degsum_def using assms(1) by (auto intro!: sum.cong)
qed

text \<open>One cell written and one vertex grown by one.\<close>

definition grown :: "dgraph \<Rightarrow> int \<Rightarrow> vertex_element \<Rightarrow> int \<Rightarrow> int \<Rightarrow> dgraph" where
  "grown g u x ii d = g\<lparr>edges := upd (edges g) ii d, vertices := upd (vertices g) u x,
     segment_edges_actual := upd (segment_edges_actual g) (seg_of g u + segment_count g)
       (cell (segment_edges_actual g) (seg_of g u + segment_count g) + 1)\<rparr>"

lemma grown_frame: "base_frame g (grown g u x ii d)"
  by (simp add: base_frame_def grown_def)

lemma grown_fields:
  assumes "wf_shape g" "0 \<le> u" "u < num_vertices g" "0 \<le> v"
  shows "deg (grown g u x ii d) v = (if v = u then v_degree x else deg g v)"
    "idx (grown g u x ii d) v = (if v = u then v_index x else idx g v)"
    "off (grown g u x ii d) v = (if v = u then v_offset x else off g v)"
  using assms wf_shapeD(4) [OF assms(1)] by (simp_all add: grown_def deg_def idx_def off_def cell_upd)

lemma grown_counts:
  assumes S: "wf_shape g" and u: "0 \<le> u" "u < num_vertices g" and x: "v_degree x = deg g u + 1" and c: "seg_counts_ok g"
  shows "seg_counts_ok (grown g u x ii d)"
  unfolding seg_counts_ok_def
proof (intro allI impI)
  fix i
  let ?g = "grown g u x ii d" and ?k = "segment_count g" and ?z = "segment_size g"
  assume i: "0 \<le> i \<and> i < segment_count ?g"
  note F = base_frameD [OF grown_frame, of g u x ii d]
  note sg = seg_of_range [OF S u]
  have z: "0 < ?z" using wf_shapeD [OF S] by simp
  have lo: "0 \<le> i * ?z" using i z F(5) by simp
  have "degsum ?g (i * ?z) ((i + 1) * ?z) = degsum g (i * ?z) ((i + 1) * ?z) + (if i * ?z \<le> u \<and> u < (i + 1) * ?z then 1 else 0)"
  proof (rule degsum_change)
    show "deg ?g v = deg g v" if "i * ?z \<le> v" "v < (i + 1) * ?z" "v \<noteq> u" for v
      using that lo by (simp add: grown_fields [OF S u])
    show "deg ?g u = deg g u + 1" using u x by (simp add: grown_fields [OF S u])
  qed
  moreover have "i * ?z \<le> u \<and> u < (i + 1) * ?z \<longleftrightarrow> i = seg_of g u"
    using seg_of_iff [OF S, of i u] seg_of_iff [OF S, of u "i + 1"] by auto
  moreover have "cell (segment_edges_actual ?g) (i + ?k) = cell (segment_edges_actual g) (i + ?k) + (if i = seg_of g u then 1 else 0)"
    using sg i F(5) wf_shapeD(8) [OF S] by (auto simp: grown_def cell_upd)
  moreover have "cell (segment_edges_actual g) (i + ?k) = degsum g (i * ?z) ((i + 1) * ?z)" using c i F(5) by (simp add: seg_counts_ok_def)
  ultimately show "cell (segment_edges_actual ?g) (i + segment_count ?g) = degsum ?g (i * segment_size ?g) ((i + 1) * segment_size ?g)"
    unfolding F(4,5) by presburger
qed

lemma grown_run:
  assumes S: "wf_shape g" and u: "0 \<le> u" "u < num_vertices g"
  shows "sbind (set_vertex (g\<lparr>edges := upd (edges g) ii d\<rparr>) u x) (\<lambda>g. sbind (add_actual g (get_segment_id g u) 1) F) = F (grown g u x ii d)"
proof -
  note sg = seg_of_range [OF S u]
  have "get_segment_id (g\<lparr>edges := upd (edges g) ii d, vertices := upd (vertices g) u x\<rparr>) u = seg_of g u + segment_count g"
    using get_segment_id_seg_of [OF S u(1)] by (simp add: get_segment_id_def)
  then show ?thesis using u sg wf_shapeD [OF S]
    by (simp add: set_vertex_def add_actual_def grown_def)
qed

lemma grown_cells:
  assumes "wf_shape g" "0 \<le> ii" "ii < elem_capacity g"
  shows "cells (edges (grown g u x ii d)) 0 (ii + 1) = cells (edges g) 0 ii @ [d]"
proof -
  have "cells (edges (grown g u x ii d)) 0 ii = cells (edges g) 0 ii"
    using assms by (intro cells_cong) (simp add: grown_def)
  moreover have "cell (edges (grown g u x ii d)) (0 + ii) = d"
    using assms wf_shapeD(5) [OF assms(1)] by (simp add: grown_def)
  ultimately show ?thesis using assms(2) by (simp add: cells_snoc)
qed

section \<open>The steps of the insertion\<close>

text \<open>What a step on the rows keeps.\<close>

definition base_step :: "dgraph \<Rightarrow> dgraph \<Rightarrow> bool" where
  "base_step g g' \<longleftrightarrow> base_frame g g' \<and> (\<forall>v \<ge> 0. off g' v = off g v)"

lemma base_step_refl [simp]: "base_step g g"
  by (simp add: base_step_def)

lemma base_step_trans: "base_step g h \<Longrightarrow> base_step h k \<Longrightarrow> base_step g k"
  by (auto simp: base_step_def intro: base_frame_trans)

lemma base_pivot_ok:
  assumes S: "wf_shape g" and B: "based es k g ii" and k: "k < num_vertices g" "ii < elem_capacity g" and t: "targets es k = []"
  shows "\<exists>g'. base_pivot k (g, ii) = Inr (g', ii + 1) \<and> based es (k + 1) g' (ii + 1) \<and> base_step g g'"
proof -
  have k0: "0 \<le> k" and ii: "ii = len (rows es k)" "0 \<le> ii" and C: "cells (edges g) 0 ii = rows es k"
    using B by (auto simp: based_def)
  let ?x = "(cell (vertices g) k)\<lparr>v_degree := 1, v_index := ii\<rparr>"
  let ?g = "grown g k ?x ii (- k)"
  have r: "row es k = [- k]" using t by (simp add: row_def)
  have d: "deg g k = 0" using B k k0 by (simp add: based_def)
  have "base_pivot k (g, ii) = Inr (?g, ii + 1)"
    using k k0 ii(2) wf_shapeD(4,5) [OF S] grown_run [OF S k0 k(1), of ii "- k" ?x "\<lambda>g. Inr (g, ii + 1)"]
    by (simp add: base_pivot_def set_edge_def)
  moreover have "based es (k + 1) ?g (ii + 1)"
  proof -
    note F = base_frameD [OF grown_frame, of g k ?x ii "- k"]
    have L: "len (rows es (k + 1)) = ii + 1" using k0 ii r by (simp add: rows_Suc len_def)
    have "seg_counts_ok ?g" using B d by (intro grown_counts [OF S k0 k(1)]) (simp_all add: based_def)
    moreover have "cells (edges ?g) 0 (ii + 1) = rows es (k + 1)"
      using grown_cells [OF S ii(2) k(2)] C k0 r by (simp add: rows_Suc)
    moreover have "deg ?g v = (if v < k + 1 then len (row es v) else 0)" if "0 \<le> v" "v < num_vertices g" for v
      using B that r by (auto simp: based_def grown_fields [OF S k0 k(1)])
    moreover have "idx ?g v = len (rows es v)" if "0 \<le> v" "v < k + 1" for v
      using B that ii by (auto simp: based_def grown_fields [OF S k0 k(1)])
    ultimately show ?thesis unfolding based_def F(1,3) using k k0 L by auto
  qed
  moreover have "base_step g ?g"
    by (auto simp: base_step_def grown_frame grown_fields [OF S k0 k(1)]) (simp add: off_def)
  ultimately show ?thesis by blast
qed

lemma base_add_ok:
  assumes S: "wf_shape g" and B: "based es (u + 1) g ii" and u: "0 \<le> u" and c: "ii < elem_capacity g"
  defines "x \<equiv> (cell (vertices g) u)\<lparr>v_degree := v_degree (cell (vertices g) u) + 1\<rparr>"
  shows "based (es @ [(u, d)]) (u + 1) (grown g u x ii d) (ii + 1) \<and> base_step g (grown g u x ii d)"
proof -
  have n: "u < num_vertices g" and ii: "ii = len (rows es (u + 1))" "0 \<le> ii" and C: "cells (edges g) 0 ii = rows es (u + 1)"
    using B by (auto simp: based_def)
  let ?g = "grown g u x ii d" and ?es = "es @ [(u, d)]"
  note F = base_frameD [OF grown_frame, of g u x ii d]
  have x: "v_degree x = deg g u + 1" "v_index x = idx g u" "v_offset x = off g u" by (simp_all add: x_def deg_def idx_def off_def)
  have L: "len (rows ?es (u + 1)) = ii + 1" using u ii by (simp add: rows_snoc len_def)
  have "seg_counts_ok ?g" using B x by (intro grown_counts [OF S u n]) (simp_all add: based_def)
  moreover have "cells (edges ?g) 0 (ii + 1) = rows ?es (u + 1)"
    using grown_cells [OF S ii(2) c] C u by (simp add: rows_snoc)
  moreover have "deg ?g v = (if v < u + 1 then len (row ?es v) else 0)" if "0 \<le> v" "v < num_vertices g" for v
    using B that x u n by (auto simp: based_def grown_fields [OF S u n] row_snoc len_def)
  moreover have "idx ?g v = len (rows ?es v)" if "0 \<le> v" "v < u + 1" for v
    using B that ii x u by (auto simp: based_def grown_fields [OF S u n] rows_snoc_other)
  moreover have "base_step g ?g"
    by (auto simp: base_step_def grown_frame grown_fields [OF S u n] x)
  ultimately show ?thesis unfolding based_def F(1,3) using u n L c by auto
qed

section \<open>The loops\<close>

lemma len_rows_append: "0 \<le> k \<Longrightarrow> len (rows es k) \<le> len (rows (es @ es') k)"
proof (induction "nat k" arbitrary: k)
  case (Suc n)
  then have "len (rows es (k - 1)) \<le> len (rows (es @ es') (k - 1))" by (intro Suc.hyps(1)) auto
  moreover have "len (row es (k - 1)) \<le> len (row (es @ es') (k - 1))" by (simp add: row_def targets_def len_def)
  ultimately show ?case using rows_Suc [of "k - 1" es] rows_Suc [of "k - 1" "es @ es'"] Suc(2)
    by (simp add: len_append)
qed (simp add: rows_def)

lemma base_frame_cap: "base_step g g' \<Longrightarrow> elem_capacity g' = elem_capacity g \<and> num_vertices g' = num_vertices g"
  by (simp add: base_step_def base_frame_def)

lemma base_step_shape: "base_step g g' \<Longrightarrow> wf_shape g \<Longrightarrow> wf_shape g'"
  using base_frame_shape by (auto simp: base_step_def)

lemma fill_vertices_ok:
  assumes "wf_shape g" "based es k g ii" "k \<le> t" "t \<le> num_vertices g" "\<And>v. k \<le> v \<Longrightarrow> v < t \<Longrightarrow> targets es v = []"
    and "len (rows es t) \<le> elem_capacity g"
  shows "\<exists>g'. fill_vertices k t (g, ii) = Inr (g', len (rows es t)) \<and> based es t g' (len (rows es t)) \<and> base_step g g'"
  using assms
proof (induction "nat (t - k)" arbitrary: k g ii)
  case 0
  then have "k = t" "ii = len (rows es t)" by (simp_all add: based_def)
  then show ?case using 0 by (simp add: fill_vertices.simps)
next
  case (Suc n)
  have k0: "0 \<le> k" "ii = len (rows es k)" and kt: "k < t" using Suc by (simp_all add: based_def)
  have "ii + 1 \<le> len (rows es (k + 1))" using k0 by (simp add: rows_Suc len_def row_def)
  also have "\<dots> \<le> len (rows es t)" using k0 kt by (intro rows_mono) auto
  finally have c: "ii < elem_capacity g" using Suc.prems(6) by simp
  obtain g1 where g1: "base_pivot k (g, ii) = Inr (g1, ii + 1)" "based es (k + 1) g1 (ii + 1)" "base_step g g1"
    using base_pivot_ok [OF Suc.prems(1,2) _ c] kt Suc.prems(4,5) by auto
  have "\<exists>g'. fill_vertices (k + 1) t (g1, ii + 1) = Inr (g', len (rows es t)) \<and> based es t g' (len (rows es t)) \<and> base_step g1 g'"
    using Suc.prems base_frame_cap [OF g1(3)] kt Suc.hyps(2)
    by (intro Suc.hyps(1) [OF _ base_step_shape [OF g1(3)] g1(2)]) auto
  then show ?case using kt g1 base_step_trans by (subst fill_vertices.simps) auto
qed

lemma base_edge_ok:
  assumes S: "wf_shape g" and B: "based es k g ii" and u: "0 \<le> u" "k - 1 \<le> u" "u < num_vertices g"
    and lt: "\<forall>e \<in> set es. fst e < k" and c: "len (rows (es @ [(u, d)]) (u + 1)) \<le> elem_capacity g"
  shows "\<exists>g'. base_edge (u, d) (k - 1, g, ii) = Inr (u, g', len (rows (es @ [(u, d)]) (u + 1)))
     \<and> based (es @ [(u, d)]) (u + 1) g' (len (rows (es @ [(u, d)]) (u + 1))) \<and> base_step g g'"
proof -
  let ?r = "len (rows es (u + 1))"
  have r: "len (rows (es @ [(u, d)]) (u + 1)) = ?r + 1" using u by (simp add: rows_snoc len_def)
  have rd: "rd (vertices g) u = Inr (cell (vertices g) u)" using u wf_shapeD(4) [OF S] by simp
  have t: "targets es v = []" if "k \<le> v" for v using lt that by (auto simp: targets_def filter_empty_conv)
  have "\<exists>g1. (if v_degree (cell (vertices g) u) = 0
            then sbind (if u \<noteq> k - 1 + 1 then fill_vertices (k - 1 + 1) u (g, ii) else Inr (g, ii)) (\<lambda>s.
                 sbind (base_pivot u s) (\<lambda>s. Inr (u, s)))
            else Inr (k - 1, g, ii)) = Inr (u, g1, ?r) \<and> based es (u + 1) g1 ?r \<and> base_step g g1"
  proof (cases "k \<le> u")
    case True
    have z: "v_degree (cell (vertices g) u) = 0" using B u True by (simp add: based_def flip: deg_def)
    have "len (rows es u) \<le> ?r" using u by (intro rows_mono) auto
    then have c0: "len (rows es u) \<le> elem_capacity g" "len (rows es u) < elem_capacity g" using c r by simp_all
    obtain g0 where g0: "fill_vertices k u (g, ii) = Inr (g0, len (rows es u))" "based es u g0 (len (rows es u))" "base_step g g0"
      using fill_vertices_ok [OF S B True _ t c0(1)] u by auto
    have n0: "u < num_vertices g0" "len (rows es u) < elem_capacity g0" using u c0 base_frame_cap [OF g0(3)] by simp_all
    obtain g1 where g1: "base_pivot u (g0, len (rows es u)) = Inr (g1, len (rows es u) + 1)"
      "based es (u + 1) g1 (len (rows es u) + 1)" "base_step g0 g1"
      using base_pivot_ok [OF base_step_shape [OF g0(3) S] g0(2) n0 t [OF True]] by auto
    have e: "len (rows es u) + 1 = ?r" using g1(2) by (simp add: based_def)
    have f: "(if u \<noteq> k - 1 + 1 then fill_vertices (k - 1 + 1) u (g, ii) else Inr (g, ii)) = Inr (g0, len (rows es u))"
      using g0(1) by (auto simp: fill_vertices.simps)
    show ?thesis unfolding f using z g1 e base_step_trans [OF g0(3) g1(3)] by simp
  next
    case False
    then have k: "k = u + 1" using u by simp
    have "v_degree (cell (vertices g) u) \<noteq> 0"
      using B u k len_row_pos(1) [of es u] by (simp add: based_def flip: deg_def)
    moreover have "ii = ?r" using B k by (simp add: based_def)
    ultimately show ?thesis using B k by auto
  qed
  then obtain g1 where g1: "(if v_degree (cell (vertices g) u) = 0
            then sbind (if u \<noteq> k - 1 + 1 then fill_vertices (k - 1 + 1) u (g, ii) else Inr (g, ii)) (\<lambda>s.
                 sbind (base_pivot u s) (\<lambda>s. Inr (u, s)))
            else Inr (k - 1, g, ii)) = Inr (u, g1, ?r)" "based es (u + 1) g1 ?r" "base_step g g1" by blast
  have S1: "wf_shape g1" by (rule base_step_shape [OF g1(3) S])
  have n1: "u < num_vertices g1" "?r < elem_capacity g1" using u c r base_frame_cap [OF g1(3)] by simp_all
  let ?x = "(cell (vertices g1) u)\<lparr>v_degree := v_degree (cell (vertices g1) u) + 1\<rparr>"
  have r0: "0 \<le> ?r" by simp
  have rd1: "rd (vertices g1) u = Inr (cell (vertices g1) u)" using u n1 wf_shapeD(4) [OF S1] by simp
  have "base_edge (u, d) (k - 1, g, ii) = Inr (u, grown g1 u ?x ?r d, ?r + 1)"
    using g1(1) rd rd1 n1 r0 wf_shapeD(5) [OF S1] grown_run [OF S1 u(1) n1(1), of ?r d ?x "\<lambda>g. Inr (u, g, ?r + 1)"]
    by (simp add: base_edge_def Let_def set_edge_def del: len_nonneg)
  then show ?thesis using base_add_ok [OF S1 g1(2) u(1) n1(2), of d] base_step_trans [OF g1(3)] r by auto
qed

lemma base_edges_ok:
  assumes "wf_shape g" "based pre k g ii" "\<forall>e \<in> set pre. fst e < k" "es = pre @ post" "n = int (length es)"
    and "sorted (map fst post)" "\<forall>e \<in> set post. 0 \<le> fst e \<and> k - 1 \<le> fst e \<and> fst e < num_vertices g"
    and "len (rows es (num_vertices g)) \<le> elem_capacity g"
  shows "\<exists>k' g' ii'. base_edges es n (int (length pre)) (k - 1, g, ii) = Inr (k' - 1, g', ii')
     \<and> based es k' g' ii' \<and> (\<forall>e \<in> set es. fst e < k') \<and> base_step g g'"
  using assms
proof (induction post arbitrary: pre k g ii)
  case Nil
  then show ?case by (auto simp: base_edges.simps)
next
  case (Cons e post)
  obtain u d where e: "e = (u, d)" by fastforce
  have u: "0 \<le> u" "k - 1 \<le> u" "u < num_vertices g" using Cons.prems(7) e by auto
  have k0: "0 \<le> k" using Cons.prems(2) by (simp add: based_def)
  let ?pre = "pre @ [(u, d)]"
  have "len (rows ?pre (u + 1)) \<le> len (rows (?pre @ post) (u + 1))" using u by (intro len_rows_append) simp
  also have "\<dots> \<le> len (rows (?pre @ post) (num_vertices g))" using u by (intro rows_mono) auto
  finally have c: "len (rows ?pre (u + 1)) \<le> elem_capacity g" using Cons.prems(4,8) e by simp
  obtain g1 where g1: "base_edge (u, d) (k - 1, g, ii) = Inr (u, g1, len (rows ?pre (u + 1)))"
    "based ?pre (u + 1) g1 (len (rows ?pre (u + 1)))" "base_step g g1"
    using base_edge_ok [OF Cons.prems(1,2) u Cons.prems(3) c] by blast
  note F = base_frame_cap [OF g1(3)]
  have "\<exists>k' g' ii'. base_edges es n (int (length ?pre)) (u + 1 - 1, g1, len (rows ?pre (u + 1))) = Inr (k' - 1, g', ii')
     \<and> based es k' g' ii' \<and> (\<forall>e \<in> set es. fst e < k') \<and> base_step g1 g'"
  proof (rule Cons.IH [OF base_step_shape [OF g1(3) Cons.prems(1)] g1(2)])
    show "\<forall>e \<in> set ?pre. fst e < u + 1" using Cons.prems(3) u by auto
    show "\<forall>e \<in> set post. 0 \<le> fst e \<and> u + 1 - 1 \<le> fst e \<and> fst e < num_vertices g1"
      using Cons.prems(6,7) e F by auto
  qed (use Cons.prems e F in auto)
  moreover have "rd es (int (length pre)) = Inr (u, d)" using Cons.prems(4) e by (simp add: rd_def)
  moreover have "int (length pre) < n" using Cons.prems(4,5) by simp
  moreover have "int (length ?pre) = int (length pre) + 1" by simp
  ultimately obtain k' g' ii' where r: "base_edges es n (int (length pre) + 1) (u, g1, len (rows ?pre (u + 1))) = Inr (k' - 1, g', ii')"
      "based es k' g' ii'" "\<forall>e \<in> set es. fst e < k'" "base_step g1 g'" and i: "rd es (int (length pre)) = Inr (u, d)" "int (length pre) < n"
    by (auto simp: add.commute)
  have "base_edges es n (int (length pre)) (k - 1, g, ii) = Inr (k' - 1, g', ii')"
    using i g1(1) r(1) by (subst base_edges.simps) simp
  then show ?case using r base_step_trans [OF g1(3)] by blast
qed

text \<open>Setting the offset of a vertex, and the vertices at the end.\<close>

lemma based_offset:
  assumes S: "wf_shape g" and B: "based es k g ii" and i: "0 \<le> i" "i < num_vertices g"
  defines "g' \<equiv> g\<lparr>vertices := upd (vertices g) i ((cell (vertices g) i)\<lparr>v_offset := -1\<rparr>)\<rparr>"
  shows "based es k g' ii" "base_frame g g'" "0 \<le> v \<Longrightarrow> off g' v = (if v = i then -1 else off g v)"
proof -
  have f: "deg g' v = deg g v" "idx g' v = idx g v" "off g' v = (if v = i then -1 else off g v)" if "0 \<le> v" for v
    using that i wf_shapeD(4) [OF S] by (simp_all add: g'_def deg_def idx_def off_def cell_upd)
  have ds: "degsum g' a b = degsum g a b" if "0 \<le> a" for a b
    unfolding degsum_def using that f by (intro sum.cong) auto
  have z: "0 < segment_size g" using wf_shapeD [OF S] by simp
  show "base_frame g g'" by (simp add: base_frame_def g'_def)
  have "seg_counts_ok g'" using B ds z by (simp add: based_def seg_counts_ok_def) (simp add: g'_def)
  moreover have "num_vertices g' = num_vertices g" "elem_capacity g' = elem_capacity g" "edges g' = edges g"
    by (simp_all add: g'_def)
  ultimately show "based es k g' ii" using B f unfolding based_def by auto
  show "0 \<le> v \<Longrightarrow> off g' v = (if v = i then -1 else off g v)" by (rule f(3))
qed

lemma base_rest_ok:
  assumes "wf_shape g" "based es (max k i) g ii" "0 \<le> i" "i \<le> n" "n = num_vertices g" "\<forall>e \<in> set es. fst e < k"
    and "0 \<le> k" "k \<le> n" "\<forall>j. 0 \<le> j \<and> j < i \<longrightarrow> off g j = -1" "len (rows es n) \<le> elem_capacity g"
  shows "\<exists>g'. base_rest (k - 1) n i (g, ii) = Inr (g', len (rows es n)) \<and> based es n g' (len (rows es n))
    \<and> base_frame g g' \<and> (\<forall>j. 0 \<le> j \<and> j < n \<longrightarrow> off g' j = -1)"
  using assms
proof (induction "nat (n - i)" arbitrary: i g ii)
  case 0
  then have "i = n" "max k i = n" by simp_all
  moreover have "ii = len (rows es n)" using 0 by (simp add: based_def max_def split: if_splits)
  ultimately show ?case using 0 by (subst base_rest.simps) (auto simp: max_def)
next
  case (Suc m)
  note S = Suc.prems(1)
  have i: "0 \<le> i" "i < num_vertices g" "i < n" using Suc by simp_all
  have t: "targets es v = []" if "k \<le> v" for v using Suc.prems(6) that by (auto simp: targets_def filter_empty_conv)
  have "\<exists>g1 ii1. (if v_degree (cell (vertices g) i) = 0 then sbind (check (i > k - 1)) (\<lambda>_. base_pivot i (g, ii)) else Inr (g, ii)) = Inr (g1, ii1)
    \<and> based es (max k (i + 1)) g1 ii1 \<and> base_step g g1"
  proof (cases "i < k")
    case True
    then have "v_degree (cell (vertices g) i) \<noteq> 0"
      using Suc.prems(2) i len_row_pos(1) [of es i] by (simp add: based_def flip: deg_def)
    moreover have "max k (i + 1) = k" "max k i = k" using True by simp_all
    ultimately show ?thesis using Suc.prems(2) by simp
  next
    case False
    then have B: "based es i g ii" using Suc.prems(2) by (simp add: max_def split: if_splits)
    then have z: "v_degree (cell (vertices g) i) = 0" using i by (simp add: based_def flip: deg_def)
    have "ii + 1 \<le> len (rows es (i + 1))" using B i by (simp add: based_def rows_Suc len_row_pos(1) int_one_le_iff_zero_less)
    also have "\<dots> \<le> len (rows es n)" using i by (intro rows_mono) auto
    finally have c: "ii < elem_capacity g" using Suc.prems(10) by simp
    show ?thesis using base_pivot_ok [OF S B i(2) c t] False z by (auto simp: max_def)
  qed
  then obtain g1 ii1 where g1: "(if v_degree (cell (vertices g) i) = 0 then sbind (check (i > k - 1)) (\<lambda>_. base_pivot i (g, ii)) else Inr (g, ii)) = Inr (g1, ii1)"
    "based es (max k (i + 1)) g1 ii1" "base_step g g1" by blast
  have S1: "wf_shape g1" by (rule base_step_shape [OF g1(3) S])
  note F1 = base_frame_cap [OF g1(3)]
  have i1: "i < num_vertices g1" using i F1 by simp
  let ?g = "g1\<lparr>vertices := upd (vertices g1) i ((cell (vertices g1) i)\<lparr>v_offset := -1\<rparr>)\<rparr>"
  note O = based_offset [OF S1 g1(2) i(1) i1]
  have "\<exists>g'. base_rest (k - 1) n (i + 1) (?g, ii1) = Inr (g', len (rows es n)) \<and> based es n g' (len (rows es n))
    \<and> base_frame ?g g' \<and> (\<forall>j. 0 \<le> j \<and> j < n \<longrightarrow> off g' j = -1)"
  proof (rule Suc.hyps(1))
    show "wf_shape ?g" by (rule base_frame_shape [OF O(2) S1])
    show "based es (max k (i + 1)) ?g ii1" by (rule O(1))
    show "\<forall>j. 0 \<le> j \<and> j < i + 1 \<longrightarrow> off ?g j = -1"
    proof (intro allI impI)
      fix j assume j: "0 \<le> j \<and> j < i + 1"
      then have "off ?g j = (if j = i then -1 else off g1 j)" using O(3) by blast
      moreover have "off g1 j = off g j" using j g1(3) by (simp add: base_step_def)
      ultimately show "off ?g j = -1" using j Suc.prems(9) by auto
    qed
  qed (use Suc i F1 in auto)
  moreover have "rd (vertices g) i = Inr (cell (vertices g) i)" "rd (vertices g1) i = Inr (cell (vertices g1) i)"
    using i i1 wf_shapeD(4) [OF S] wf_shapeD(4) [OF S1] by simp_all
  moreover have "set_vertex g1 i ((cell (vertices g1) i)\<lparr>v_offset := -1\<rparr>) = Inr ?g"
    using i i1 wf_shapeD(4) [OF S1] by (simp add: set_vertex_def)
  moreover have "base_frame g ?g" using g1(3) O(2) base_frame_trans by (auto simp: base_step_def)
  ultimately show ?case using g1(1) i base_frame_trans by (subst base_rest.simps) auto
qed

section \<open>Spreading\<close>

text \<open>Moving the vertices writes no cell below their new positions, and clears none.\<close>

lemma spread_copy_keeps:
  assumes "spread_copy es n w r = Inr es'" "0 \<le> j" "j \<le> w - n"
  shows "cell es' j = cell es j"
  using assms
proof (induction es n w r rule: spread_copy.induct)
  case (1 es n w r)
  show ?case
  proof (cases "0 < n")
    case True
    then obtain x es1 where x: "rd es r = Inr x" "wr es w x = Inr es1" "spread_copy es1 (n - 1) (w - 1) (r - 1) = Inr es'"
      using "1.prems"(1) [unfolded spread_copy.simps [of es n w r]] by (auto simp: sbind_Inr_iff)
    then have "cell es' j = cell es1 j" using "1.IH" True "1.prems"(2,3) by auto
    then show ?thesis using x(2) True "1.prems"(2,3) by (auto simp: wr_Inr_iff cell_upd)
  next
    case False
    then show ?thesis using "1.prems"(1) by (subst (asm) spread_copy.simps) simp
  qed
qed

lemma spread_from_keeps:
  assumes "spread_from ns s c g = Inr g'" "0 \<le> j" "\<And>v. s < v \<Longrightarrow> v \<le> c \<Longrightarrow> j < cell ns v"
  shows "cell (edges g') j = cell (edges g) j"
  using assms
proof (induction ns s c g rule: spread_from.induct)
  case (1 ns s c g)
  show ?case
  proof (cases "c > s")
    case True
    then obtain x p es g1 where x: "rd (vertices g) c = Inr x" "rd ns c = Inr p"
      "spread_copy (edges g) (v_degree x) (p + v_degree x - 1) (v_index x + v_degree x - 1) = Inr es"
      "set_vertex (g\<lparr>edges := es\<rparr>) c (x\<lparr>v_index := p\<rparr>) = Inr g1" "spread_from ns s (c - 1) g1 = Inr g'"
      "v_index x + v_degree x - 1 \<le> p + v_degree x - 1"
      using "1.prems"(1) [unfolded spread_from.simps [of ns s c g]] by (auto simp: Let_def sbind_Inr_iff)
    have "j < p" using x(2) "1.prems"(3) [of c] True by (simp add: rd_Inr_iff)
    then have "cell es j = cell (edges g) j" using spread_copy_keeps [OF x(3) "1.prems"(2)] by simp
    moreover have "edges g1 = es" using x(4) by (auto simp: set_vertex_def)
    moreover have "cell (edges g') j = cell (edges g1) j" using True x "1.prems"(2,3) by (intro "1.IH") auto
    ultimately show ?thesis by simp
  next
    case False
    then show ?thesis using "1.prems"(1) by (subst (asm) spread_from.simps) simp
  qed
qed

lemma spread_copy_ok:
  assumes "0 \<le> n" "0 \<le> r - n + 1" "r \<le> w" "w < len es"
  shows "\<exists>es'. spread_copy es n w r = Inr es' \<and> len es' = len es \<and>
    (\<forall>j. 0 \<le> j \<longrightarrow> cell es' j = (if w - n < j \<and> j \<le> w then cell es (j - (w - r)) else cell es j))"
  using assms
proof (induction "nat n" arbitrary: n w r es)
  case 0
  then show ?case by (simp add: spread_copy.simps)
next
  case (Suc m)
  let ?es = "upd es w (cell es r)"
  have n: "0 < n" "0 \<le> w" using Suc by simp_all
  have r0: "0 \<le> r" using Suc by simp
  have "\<exists>es'. spread_copy ?es (n - 1) (w - 1) (r - 1) = Inr es' \<and> len es' = len ?es \<and>
    (\<forall>j. 0 \<le> j \<longrightarrow> cell es' j = (if w - 1 - (n - 1) < j \<and> j \<le> w - 1 then cell ?es (j - (w - 1 - (r - 1))) else cell ?es j))"
    by (rule Suc.hyps(1)) (use Suc n in auto)
  then obtain es' where es': "spread_copy ?es (n - 1) (w - 1) (r - 1) = Inr es'" "len es' = len ?es"
    "\<forall>j. 0 \<le> j \<longrightarrow> cell es' j = (if w - 1 - (n - 1) < j \<and> j \<le> w - 1 then cell ?es (j - (w - 1 - (r - 1))) else cell ?es j)"
    by blast
  have "spread_copy es n w r = Inr es'" using n es'(1) r0 Suc.prems by (subst spread_copy.simps) simp
  moreover have "cell es' j = (if w - n < j \<and> j \<le> w then cell es (j - (w - r)) else cell es j)" if j: "0 \<le> j" for j
  proof (cases "w - n < j \<and> j < w")
    case True
    then have "cell es' j = cell ?es (j - (w - r))" using es'(3) j by simp
    also have "\<dots> = cell es (j - (w - r))" using True Suc.prems n by (intro cell_upd_other) auto
    finally show ?thesis using True by simp
  next
    case False
    then have "cell es' j = cell ?es j" using es'(3) j by auto
    then show ?thesis using False n j Suc.prems by (auto simp: cell_upd)
  qed
  ultimately show ?case using es'(2) by auto
qed

text \<open>The vertices above \<open>c\<close> are at their new positions, the others where they were.\<close>

definition new_place :: "(int \<times> int) list \<Rightarrow> int list \<Rightarrow> int \<Rightarrow> int \<Rightarrow> int" where
  "new_place es ns c v = (if c < v then cell ns v else len (rows es v))"

definition spreading :: "(int \<times> int) list \<Rightarrow> int list \<Rightarrow> int \<Rightarrow> dgraph \<Rightarrow> bool" where
  "spreading es ns c g \<longleftrightarrow> (\<forall>v. 0 \<le> v \<and> v < num_vertices g \<longrightarrow>
     deg g v = len (row es v) \<and> off g v = -1 \<and> idx g v = new_place es ns c v \<and>
     cells (edges g) (new_place es ns c v) (len (row es v)) = row es v)"

lemma spreadingD:
  assumes "spreading es ns c g" "0 \<le> v" "v < num_vertices g"
  shows "deg g v = len (row es v)" "off g v = -1" "idx g v = new_place es ns c v"
    "cells (edges g) (new_place es ns c v) (len (row es v)) = row es v"
  using assms by (simp_all add: spreading_def)

lemma cells_split_at:
  assumes "0 \<le> a" "0 \<le> b" "cells xs 0 (a + b) = ys @ zs" "len ys = a"
  shows "cells xs a b = zs"
proof -
  have "cells xs 0 a @ cells xs a b = ys @ zs" using assms(3) cells_append [OF assms(1,2), of xs 0] by simp
  moreover have "length (cells xs 0 a) = length ys" using assms(1,4) by (simp add: len_def)
  ultimately show ?thesis by simp
qed

lemma cells_take: "0 \<le> n \<Longrightarrow> n \<le> m \<Longrightarrow> cells xs 0 n = take (nat n) (cells xs 0 m)"
  by (simp add: cells_def take_map)

lemma rows_take: "0 \<le> k \<Longrightarrow> k \<le> n \<Longrightarrow> take (length (rows es k)) (rows es n) = rows es k"
proof (induction "nat (n - k)" arbitrary: n)
  case (Suc m)
  then have "take (length (rows es k)) (rows es (n - 1)) = rows es k" by (intro Suc.hyps(1)) auto
  moreover have "rows es n = rows es (n - 1) @ row es (n - 1)" using rows_Suc [of "n - 1" es] Suc by simp
  moreover have "length (rows es k) \<le> length (rows es (n - 1))" using rows_mono [of k "n - 1" es] Suc by (simp add: len_def)
  ultimately show ?case by simp
qed simp

lemma based_spreading:
  assumes B: "based es n g ii" and n: "n = num_vertices g" and off: "\<forall>j. 0 \<le> j \<and> j < n \<longrightarrow> off g j = -1"
  shows "spreading es ns (n - 1) g"
  unfolding spreading_def
proof (intro allI impI conjI)
  fix v assume v: "0 \<le> v \<and> v < num_vertices g"
  have C: "cells (edges g) 0 (len (rows es n)) = rows es n" using B by (auto simp: based_def)
  show "deg g v = len (row es v)" "off g v = -1" using B v n off by (simp_all add: based_def)
  show "idx g v = new_place es ns (n - 1) v" using B v n by (simp add: based_def new_place_def)
  have le: "len (rows es (v + 1)) \<le> len (rows es n)" using v n by (intro rows_mono) auto
  have "cells (edges g) 0 (len (rows es (v + 1))) = rows es (v + 1)"
  proof -
    have "cells (edges g) 0 (len (rows es (v + 1))) = take (nat (len (rows es (v + 1)))) (rows es n)"
      unfolding cells_take [OF len_nonneg le] C ..
    also have "nat (len (rows es (v + 1))) = length (rows es (v + 1))" by (simp add: len_def)
    also have "take (length (rows es (v + 1))) (rows es n) = rows es (v + 1)" using v n by (intro rows_take) auto
    finally show ?thesis .
  qed
  then have "cells (edges g) (len (rows es v)) (len (row es v)) = row es v"
    by (intro cells_split_at [of "len (rows es v)" "len (row es v)" "edges g" "rows es v"]) (use v in \<open>simp_all add: rows_Suc\<close>)
  then show "cells (edges g) (new_place es ns (n - 1) v) (len (row es v)) = row es v" using v n by (simp add: new_place_def)
qed

text \<open>Positions that leave every row its room, in order, and do not lie left of the packed ones.\<close>

definition spread_places :: "(int \<times> int) list \<Rightarrow> int list \<Rightarrow> int \<Rightarrow> int \<Rightarrow> bool" where
  "spread_places es ns n b \<longleftrightarrow> len ns = n \<and> cell ns 0 = 0 \<and>
     (\<forall>v. 0 \<le> v \<and> v < n \<longrightarrow> len (rows es v) \<le> cell ns v \<and>
        cell ns v + len (row es v) \<le> (if v + 1 < n then cell ns (v + 1) else b))"

lemma spread_placesD:
  assumes "spread_places es ns n b" "0 \<le> v" "v < n"
  shows "len (rows es v) \<le> cell ns v" "v + 1 < n \<Longrightarrow> cell ns v + len (row es v) \<le> cell ns (v + 1)"
    "v + 1 = n \<Longrightarrow> cell ns v + len (row es v) \<le> b"
proof -
  have a: "len (rows es v) \<le> cell ns v \<and> cell ns v + len (row es v) \<le> (if v + 1 < n then cell ns (v + 1) else b)"
    using assms unfolding spread_places_def by blast
  then show "len (rows es v) \<le> cell ns v" by blast
  show "v + 1 < n \<Longrightarrow> cell ns v + len (row es v) \<le> cell ns (v + 1)" "v + 1 = n \<Longrightarrow> cell ns v + len (row es v) \<le> b"
    using a by simp_all
qed

lemma spread_places_mono:
  assumes "spread_places es ns n b" "0 \<le> v" "v < w" "w < n"
  shows "cell ns v + len (row es v) \<le> cell ns w"
  using assms(3,4)
proof (induction "nat (w - v)" arbitrary: w)
  case (Suc m)
  show ?case
  proof (cases "w = v + 1")
    case True
    then show ?thesis using spread_placesD(2) [OF assms(1,2)] Suc.prems by simp
  next
    case False
    then have "cell ns v + len (row es v) \<le> cell ns (w - 1)" using Suc by (intro Suc.hyps(1)) auto
    also have "\<dots> \<le> cell ns (w - 1) + len (row es (w - 1))" by simp
    also have "\<dots> \<le> cell ns (w - 1 + 1)" using assms(2) Suc.prems False by (intro spread_placesD(2) [OF assms(1)]) auto
    finally show ?thesis by simp
  qed
qed simp

lemma spread_places_end:
  assumes "spread_places es ns n b" "0 \<le> v" "v < n"
  shows "cell ns v + len (row es v) \<le> b"
proof (cases "v = n - 1")
  case True
  then show ?thesis using spread_placesD(3) [OF assms] by simp
next
  case False
  then have "cell ns v + len (row es v) \<le> cell ns (n - 1)" using assms by (intro spread_places_mono) auto
  moreover have "cell ns (n - 1) + len (row es (n - 1)) \<le> b" using assms by (intro spread_placesD(3)) auto
  ultimately show ?thesis using len_nonneg [of "row es (n - 1)"] by linarith
qed

lemma spread_places_below:
  assumes "spread_places es ns n b" "0 \<le> v" "v < c" "c < n"
  shows "len (rows es v) + len (row es v) \<le> cell ns c"
proof -
  have "len (rows es v) + len (row es v) = len (rows es (v + 1))" using assms(2) by (simp add: rows_Suc)
  also have "\<dots> \<le> len (rows es c)" using assms by (intro rows_mono) auto
  also have "\<dots> \<le> cell ns c" using assms by (intro spread_placesD(1)) auto
  finally show ?thesis .
qed

lemma spread_step_ok:
  assumes S: "wf_shape g" and P: "spreading es ns c g" and c: "0 < c" "c < num_vertices g"
    and ns: "spread_places es ns (num_vertices g) (elem_capacity g)"
  shows "\<exists>es'. spread_copy (edges g) (deg g c) (cell ns c + deg g c - 1) (idx g c + deg g c - 1) = Inr es' \<and>
     idx g c \<le> cell ns c \<and> len es' = len (edges g) \<and>
     spreading es ns (c - 1) (g\<lparr>edges := es', vertices := upd (vertices g) c ((cell (vertices g) c)\<lparr>v_index := cell ns c\<rparr>)\<rparr>)"
proof -
  let ?d = "len (row es c)" and ?p = "cell ns c" and ?r = "len (rows es c)"
  have D: "deg g c = ?d" "idx g c = ?r" using spreadingD [OF P _ c(2)] c by (simp_all add: new_place_def)
  have cap: "?r \<le> ?p" "?p + ?d \<le> elem_capacity g"
    using spread_placesD(1) [OF ns, of c] spread_places_end [OF ns, of c] c by simp_all
  have d0: "0 < ?d" by (rule len_row_pos)
  have "\<exists>es'. spread_copy (edges g) ?d (?p + ?d - 1) (?r + ?d - 1) = Inr es' \<and> len es' = len (edges g) \<and>
    (\<forall>j. 0 \<le> j \<longrightarrow> cell es' j = (if ?p + ?d - 1 - ?d < j \<and> j \<le> ?p + ?d - 1
       then cell (edges g) (j - (?p + ?d - 1 - (?r + ?d - 1))) else cell (edges g) j))"
    using cap d0 wf_shapeD(5) [OF S] by (intro spread_copy_ok) simp_all
  then obtain es' where r: "spread_copy (edges g) ?d (?p + ?d - 1) (?r + ?d - 1) = Inr es'" "len es' = len (edges g)"
    and e: "0 \<le> j \<Longrightarrow> cell es' j = (if ?p \<le> j \<and> j < ?p + ?d then cell (edges g) (j - (?p - ?r)) else cell (edges g) j)" for j
    by (auto simp: algebra_simps)
  let ?g = "g\<lparr>edges := es', vertices := upd (vertices g) c ((cell (vertices g) c)\<lparr>v_index := ?p\<rparr>)\<rparr>"
  have f: "deg ?g v = deg g v" "off ?g v = off g v" "idx ?g v = (if v = c then ?p else idx g v)" if "0 \<le> v" for v
    using that c wf_shapeD(4) [OF S] by (simp_all add: deg_def idx_def off_def cell_upd)
  have "spreading es ns (c - 1) ?g"
    unfolding spreading_def
  proof (intro allI impI)
    fix v assume v: "0 \<le> v \<and> v < num_vertices ?g"
    then have vn: "0 \<le> v" "v < num_vertices g" by simp_all
    note Pv = spreadingD [OF P vn]
    let ?q = "new_place es ns (c - 1) v"
    have "0 \<le> cell ns v" using spread_placesD(1) [OF ns vn] len_nonneg [of "rows es v"] by linarith
    then have pos: "0 \<le> ?q" by (simp add: new_place_def)
    have "cells es' ?q (len (row es v)) = row es v"
    proof (cases "v = c")
      case True
      have "cells es' ?p ?d = cells (edges g) ?r ?d"
      proof (rule cells_cong)
        fix k assume k: "0 \<le> k" "k < ?d"
        have "0 \<le> ?p + k" using cap(1) len_nonneg [of "rows es c"] k by linarith
        moreover have "?p + k - (?p - ?r) = ?r + k" by simp
        ultimately show "cell es' (?p + k) = cell (edges g) (?r + k)" using k e [of "?p + k"] by (simp add: add.commute)
      qed
      then show ?thesis using True Pv by (simp add: new_place_def)
    next
      case False
      have "?q = new_place es ns c v" using False by (simp add: new_place_def)
      moreover have "?q + len (row es v) \<le> ?p \<or> ?p + ?d \<le> ?q"
        using False spread_places_below [OF ns, of v c] spread_places_mono [OF ns, of c v] vn c
        by (cases "v < c") (simp_all add: new_place_def)
      then have "cells es' ?q (len (row es v)) = cells (edges g) ?q (len (row es v))"
        using pos by (intro cells_cong) (auto simp: e)
      ultimately show ?thesis using Pv(4) by simp
    qed
    then show "deg ?g v = len (row es v) \<and> off ?g v = -1 \<and> idx ?g v = ?q \<and> cells (edges ?g) ?q (len (row es v)) = row es v"
      using Pv f [OF vn(1)] by (auto simp: new_place_def)
  qed
  then show ?thesis using r cap(1) D by auto
qed

lemma spread_from_ok:
  assumes "wf_shape g" "spreading es ns c g" "0 \<le> c" "c < num_vertices g" "spread_places es ns (num_vertices g) (elem_capacity g)"
  shows "\<exists>g'. spread_from ns 0 c g = Inr g' \<and> base_frame g g' \<and> segment_edges_actual g' = segment_edges_actual g \<and> spreading es ns 0 g'"
  using assms
proof (induction "nat c" arbitrary: c g)
  case 0
  then show ?case by (subst spread_from.simps) auto
next
  case (Suc m)
  then have c: "0 < c" by simp
  note S = Suc.prems(1)
  let ?g = "\<lambda>es'. g\<lparr>edges := es', vertices := upd (vertices g) c ((cell (vertices g) c)\<lparr>v_index := cell ns c\<rparr>)\<rparr>"
  obtain es' where r: "spread_copy (edges g) (deg g c) (cell ns c + deg g c - 1) (idx g c + deg g c - 1) = Inr es'"
      "idx g c \<le> cell ns c" "len es' = len (edges g)" "spreading es ns (c - 1) (?g es')"
    using spread_step_ok [OF S Suc.prems(2) c Suc.prems(4,5)] by blast
  have f: "base_frame g (?g es')" using r(3) by (simp add: base_frame_def)
  have "\<exists>g'. spread_from ns 0 (c - 1) (?g es') = Inr g' \<and> base_frame (?g es') g' \<and>
      segment_edges_actual g' = segment_edges_actual (?g es') \<and> spreading es ns 0 g'"
    by (rule Suc.hyps(1) [OF _ base_frame_shape [OF f S] r(4)]) (use Suc in auto)
  then obtain g' where g': "spread_from ns 0 (c - 1) (?g es') = Inr g'" "base_frame (?g es') g'"
      "segment_edges_actual g' = segment_edges_actual (?g es')" "spreading es ns 0 g'" by blast
  have rd: "rd (vertices g) c = Inr (cell (vertices g) c)" "rd ns c = Inr (cell ns c)"
    using c Suc.prems(4,5) wf_shapeD(4) [OF S] by (simp_all add: spread_places_def)
  have "spread_from ns 0 c g = Inr g'"
    using c r g'(1) rd Suc.prems(4) wf_shapeD(4) [OF S]
    by (subst spread_from.simps) (simp add: Let_def set_vertex_def flip: deg_def idx_def)
  then show ?case using g' base_frame_trans [OF f g'(2)] by auto
qed

text \<open>The sum of the rows is what the counters say.\<close>

lemma len_rows_sum: "0 \<le> n \<Longrightarrow> len (rows es n) = (\<Sum>v\<in>{0..<n}. len (row es v))"
proof (induction "nat n" arbitrary: n)
  case (Suc m)
  have "{0..<n} = insert (n - 1) {0..<n - 1}" using Suc by auto
  moreover have "rows es n = rows es (n - 1) @ row es (n - 1)" using rows_Suc [of "n - 1" es] Suc by simp
  ultimately show ?case using Suc by simp
qed simp

lemma len_rows_total:
  assumes "0 \<le> n" "\<forall>e \<in> set es. 0 \<le> fst e \<and> fst e < n"
  shows "len (rows es n) = n + int (length es)"
proof -
  have "(\<Sum>v\<in>{0..<n}. len (targets es v)) = int (length es)"
    using assms(2)
  proof (induction es)
    case (Cons e es)
    have "len (targets (e # es) v) = len (targets es v) + (if v = fst e then 1 else 0)" for v
      by (simp add: targets_def)
    then show ?case using Cons by (simp add: sum.distrib)
  qed (simp add: targets_def)
  then show ?thesis using assms(1) by (simp add: len_rows_sum row_def sum.distrib)
qed

lemma spreading_degsum: "spreading es ns c g \<Longrightarrow> 0 \<le> num_vertices g \<Longrightarrow> degsum g 0 (num_vertices g) = len (rows es (num_vertices g))"
  unfolding degsum_def len_rows_sum by (intro sum.cong) (auto simp: spreading_def)

text \<open>The positions \<^verbatim>\<open>calculate_positions\<close> gives for the packed array.\<close>

lemma spread_positions:
  assumes S: "wf_shape g" and B: "spreading es ns0 (num_vertices g - 1) g"
    and ne: "num_edges g = len (rows es (num_vertices g))" "num_edges g < elem_capacity g" "elem_capacity g \<le> 2 ^ 24"
  shows "\<exists>ns. calculate_positions g 0 (num_vertices g) (elem_capacity g - num_edges g) (num_edges g) = Inr ns
    \<and> spread_places es ns (num_vertices g) (elem_capacity g)
    \<and> (2 * num_edges g + num_vertices g \<le> elem_capacity g \<and> 1 < num_vertices g \<longrightarrow> len (row es 0) < cell ns 1)"
proof -
  let ?n = "num_vertices g"
  have n: "0 < ?n" using wf_shapeD(1-3) [OF S] by simp
  have d: "deg g v = len (row es v)" "idx g v = len (rows es v)" if "0 \<le> v" "v < ?n" for v
    using spreadingD [OF B that] that by (simp_all add: new_place_def)
  have sum: "degsum g 0 ?n = num_edges g" using spreading_degsum [OF B] n ne(1) by simp
  have i0: "idx g 0 = 0" using d(2) [of 0] n by simp
  have gaps: "0 < elem_capacity g - num_edges g" using ne by simp
  have "\<exists>ns. calculate_positions g 0 ?n (elem_capacity g - num_edges g) (degsum g 0 ?n) = Inr ns
           \<and> positions_fit g 0 ?n (elem_capacity g) ns \<and> cell ns 0 = idx g 0
           \<and> (degsum g 0 ?n + (?n - 0) \<le> elem_capacity g - num_edges g \<and> 0 + 1 < ?n \<longrightarrow> idx g 0 + deg g 0 < cell ns 1)"
  proof (rule calculate_positions_gap)
    show "1 \<le> deg g v" if "0 \<le> v" "v < ?n" for v using d(1) [OF that] len_row_pos(1) [of es v] by simp
  qed (use n S wf_shapeD(4) ne i0 sum gaps in \<open>auto simp: index_boundary_def\<close>)
  then obtain ns where ns: "calculate_positions g 0 ?n (elem_capacity g - num_edges g) (num_edges g) = Inr ns"
    "positions_fit g 0 ?n (elem_capacity g) ns" "cell ns 0 = 0"
    "num_edges g + (?n - 0) \<le> elem_capacity g - num_edges g \<and> 0 + 1 < ?n \<longrightarrow> 0 + deg g 0 < cell ns 1" unfolding sum i0 by blast
  have fit: "cell ns v + len (row es v) \<le> (if v + 1 < ?n then cell ns (v + 1) else elem_capacity g)" if "0 \<le> v" "v < ?n" for v
    using ns(2) that d(1) [OF that] by (auto simp: positions_fit_def)
  have lo: "len (rows es v) \<le> cell ns v" if "0 \<le> v" "v < ?n" for v
    using that
  proof (induction "nat v" arbitrary: v)
    case 0
    then show ?case using ns(3) by simp
  next
    case (Suc m)
    then have "len (rows es (v - 1)) \<le> cell ns (v - 1)" by (intro Suc.hyps(1)) auto
    moreover have "cell ns (v - 1) + len (row es (v - 1)) \<le> cell ns v" using fit [of "v - 1"] Suc by simp
    moreover have "rows es v = rows es (v - 1) @ row es (v - 1)" using rows_Suc [of "v - 1" es] Suc by simp
    ultimately show ?case by simp
  qed
  have "spread_places es ns ?n (elem_capacity g)"
    unfolding spread_places_def using ns(2,3) fit lo by (auto simp: positions_fit_def)
  then show ?thesis using ns(1,4) d(1) [of 0] by auto
qed

text \<open>What the spread graph keeps of the packed one.\<close>

definition spread_frame :: "dgraph \<Rightarrow> dgraph \<Rightarrow> bool" where
  "spread_frame g g' \<longleftrightarrow> num_vertices g' = num_vertices g \<and> elem_capacity g' = elem_capacity g \<and>
     segment_count g' = segment_count g \<and> segment_size g' = segment_size g \<and> tree_height g' = tree_height g \<and>
     delta_up g' = delta_up g \<and> leaf_segments g' = leaf_segments g \<and> log_segment_idx g' = log_segment_idx g \<and>
     ulog_ptr g' = ulog_ptr g \<and> oplog_ptr g' = oplog_ptr g \<and> num_edges g' = num_edges g"

lemma spreading_vlist:
  assumes "spreading es ns 0 g" "0 \<le> v" "v < num_vertices g"
  shows "vlist g v = row es v" "onseg g v = len (row es v)"
proof -
  note P = spreadingD [OF assms]
  show o: "onseg g v = len (row es v)" using P by (simp add: onseg_def)
  then show "vlist g v = row es v" using P by (simp add: vlist_def chain_vals.simps(1))
qed

lemma spread_weighted_ok:
  assumes S: "wf_shape g" and B: "spreading es ns0 (num_vertices g - 1) g" and c: "seg_counts_ok g"
    and ne: "num_edges g = len (rows es (num_vertices g))" "num_edges g < elem_capacity g" "elem_capacity g \<le> 2 ^ 24"
  shows "\<exists>g'. spread_weighted 0 (num_vertices g) g = Inr g' \<and> wf g' \<and> spread_frame g g'
    \<and> (\<forall>v. 0 \<le> v \<and> v < num_vertices g \<longrightarrow> vlist g' v = row es v)
    \<and> (2 * num_edges g + num_vertices g \<le> elem_capacity g \<and> 1 < num_vertices g \<longrightarrow>
       (\<forall>j. 0 \<le> j \<and> j \<le> len (row es 0) \<longrightarrow> cell (edges g') j = cell (edges g) j))"
proof -
  let ?n = "num_vertices g"
  have n: "0 < ?n" using wf_shapeD(1-3) [OF S] by simp
  obtain ns where ns: "calculate_positions g 0 ?n (elem_capacity g - num_edges g) (num_edges g) = Inr ns"
    and sp: "spread_places es ns ?n (elem_capacity g)"
    and gap: "2 * num_edges g + ?n \<le> elem_capacity g \<and> 1 < ?n \<longrightarrow> len (row es 0) < cell ns 1"
    using spread_positions [OF S B ne] by blast
  have "spreading es ns (?n - 1) g" using B by (auto simp: spreading_def new_place_def)
  from spread_from_ok [OF S this _ _ sp] n obtain g1 where g1: "spread_from ns 0 (?n - 1) g = Inr g1" "base_frame g g1"
    "segment_edges_actual g1 = segment_edges_actual g" "spreading es ns 0 g1" by auto
  note F = base_frameD [OF g1(2)]
  let ?g1 = "g1\<lparr>segment_edges_total := replicate (nat (segment_count g1 * 2)) 0\<rparr>"
  have S1: "wf_shape g1" by (rule base_frame_shape [OF g1(2) S])
  have S1': "wf_shape ?g1" using S1 wf_shapeD(2) [OF S1] by (auto simp: wf_shape_def)
  obtain xs where xs: "recount_total_range ?g1 0 (segment_count g1) = Inr (?g1\<lparr>segment_edges_total := xs\<rparr>)"
    "len xs = len (segment_edges_total ?g1)"
    "\<And>i. 0 \<le> i \<Longrightarrow> i < segment_count g1 \<Longrightarrow> cell xs (i + segment_count g1) = start ?g1 ((i + 1) * segment_size g1) - start ?g1 (i * segment_size g1)"
    using recount_total_range_ok [OF S1', of 0 "segment_count ?g1"] wf_shapeD(2) [OF S1] by auto
  let ?g = "g1\<lparr>segment_edges_total := xs\<rparr>"
  have run: "spread_weighted 0 ?n g = Inr ?g"
    using ns g1(1) xs(1) by (simp add: spread_weighted_def Let_def recount_segment_total_def)
  have same: "deg ?g v = deg g1 v" "idx ?g v = idx g1 v" "off ?g v = off g1 v" "start ?g v = start g1 v" "start ?g1 v = start g1 v"
    "vlist ?g v = vlist g1 v" "onseg ?g v = onseg g1 v" "log_row ?g v = log_row g1 v" "degsum ?g a b = degsum g1 a b" for v a b
    by (simp_all add: deg_def idx_def off_def start_def vlist_def onseg_def log_row_def seg_of_def degsum_def)
  have P: "deg g1 v = len (row es v)" "off g1 v = -1" "idx g1 v = cell ns v" if "0 \<le> v" "v < ?n" for v
    using spreadingD [OF g1(4), of v] that F(1) sp by (auto simp: new_place_def spread_places_def)
  have shape: "wf_shape ?g" using S1 xs(2) wf_shapeD(2) [OF S1] by (simp add: wf_shape_def)
  have vok: "vertex_ok ?g v" if v: "0 \<le> v" "v < num_vertices g1" for v
  proof -
    have vn: "0 \<le> v" "v < ?n" using v F(1) by simp_all
    have "cell ns v + len (row es v) \<le> start g1 (v + 1)"
      using spread_placesD(2) [OF sp vn] spread_places_end [OF sp vn] P(3) [of "v + 1"] vn F by (simp add: start_def)
    moreover have "0 \<le> cell ns v" using spread_placesD(1) [OF sp vn] len_nonneg [of "rows es v"] by linarith
    moreover have "onseg g1 v = len (row es v)" using spreading_vlist(2) [OF g1(4) v] .
    ultimately show ?thesis using P [OF vn] len_row_pos(1) [of es v] by (simp add: vertex_ok_def same)
  qed
  have lay: "wf_layout ?g" using shape vok by (simp add: wf_layout_def)
  have log: "log_ok ?g"
    unfolding log_ok_def
  proof (intro allI impI)
    fix v assume v: "0 \<le> v \<and> v < num_vertices ?g"
    then have "0 \<le> cell (log_segment_idx ?g) (seg_of ?g v)"
      using wf_shape_rows(2) [OF shape] seg_of_range [OF shape] by simp
    then show "off ?g v < cell (log_segment_idx ?g) (seg_of ?g v)" using P(2) [of v] v F(1) by (simp add: same)
  qed
  have counts: "counts_ok ?g"
  proof -
    have z: "0 \<le> i * segment_size g1" "(i + 1) * segment_size g1 \<le> ?n" if "0 \<le> i" "i < segment_count g1" for i
      using seg_mult_range [OF S1 that(1), of "i + 1"] that F(1) by simp_all
    have ds: "degsum g1 a b = degsum g a b" if "0 \<le> a" "b \<le> ?n" for a b
      unfolding degsum_def using that P(1) spreadingD(1) [OF B] by (intro sum.cong) auto
    have "num_edges ?g = degsum ?g 0 (num_vertices ?g)"
      using spreading_degsum [OF g1(4)] F n ne by (simp add: same)
    moreover have "idx ?g 0 = 0" using P(3) [of 0] n sp by (simp add: same spread_places_def)
    moreover have "cell (segment_edges_actual ?g) (i + segment_count ?g) = degsum ?g (i * segment_size ?g) ((i + 1) * segment_size ?g)"
      if "0 \<le> i" "i < segment_count g1" for i
      using c g1(3) ds [OF z [OF that]] that F by (simp add: seg_counts_ok_def same)
    ultimately show ?thesis using xs(3) by (simp add: counts_ok_def same)
  qed
  have "spread_frame g ?g" using F by (simp add: spread_frame_def)
  moreover have "vlist ?g v = row es v" if "0 \<le> v" "v < ?n" for v
    using spreading_vlist(1) [OF g1(4)] that F(1) by (simp add: same)
  moreover have "cell (edges ?g) j = cell (edges g) j"
    if "2 * num_edges g + ?n \<le> elem_capacity g \<and> 1 < ?n" "0 \<le> j" "j \<le> len (row es 0)" for j
  proof -
    have "j < cell ns v" if v: "0 < v" "v \<le> ?n - 1" for v
    proof -
      have "cell ns 1 \<le> cell ns v"
      proof (cases "v = 1")
        case False
        then have "cell ns 1 + len (row es 1) \<le> cell ns v" using spread_places_mono [OF sp, of 1 v] v by simp
        moreover have "0 \<le> len (row es 1)" by simp
        ultimately show ?thesis by linarith
      qed simp
      then show ?thesis using gap \<open>2 * num_edges g + ?n \<le> elem_capacity g \<and> 1 < ?n\<close> \<open>j \<le> len (row es 0)\<close> by linarith
    qed
    then show ?thesis using spread_from_keeps [OF g1(1) that(2)] by simp
  qed
  ultimately show ?thesis using run lay log counts by (auto simp: wf_def)
qed

end
