(* ===== verification/DgapMakeOk.thy ===== *)
theory DgapMakeOk
  imports DgapBuildOk DgapExample "HOL-Library.Multiset"
begin

text \<open>
  The constructor and \<^verbatim>\<open>MakeGraph\<close>: the parameters of the array, and what a caller finds in the new graph.
\<close>

lemma flush_views [simp]:
  "deg (flush e g) = deg g" "idx (flush e g) = idx g" "off (flush e g) = off g" "start (flush e g) = start g"
  "onseg (flush e g) = onseg g" "log_row (flush e g) = log_row g" "degsum (flush e g) = degsum g"
  "seg_of (flush e g) = seg_of g" "vlist (flush e g) = vlist g"
  by (intro ext; simp add: deg_def idx_def off_def start_def onseg_def log_row_def degsum_def seg_of_def vlist_def)+

lemma flush_wf [simp]: "wf (flush e g) = wf g"
  by (simp add: wf_def wf_layout_def wf_shape_def log_ok_def counts_ok_def vertex_ok_def)

lemma zdiv_le_self: "0 \<le> a \<Longrightarrow> 0 < b \<Longrightarrow> a div b \<le> (a::int)"
  using zdiv_mono2 [of a 1 b] by simp

section \<open>The base insertion as a whole\<close>

definition fresh_arrays :: "dgraph \<Rightarrow> bool" where
  "fresh_arrays g \<longleftrightarrow> wf_shape g \<and> (\<forall>v. 0 \<le> v \<and> v < num_vertices g \<longrightarrow> deg g v = 0) \<and>
     (\<forall>i. 0 \<le> i \<and> i < segment_count g \<longrightarrow> cell (segment_edges_actual g) (i + segment_count g) = 0)"

lemma fresh_based:
  assumes "fresh_arrays g" "0 \<le> elem_capacity g"
  shows "based [] 0 g 0"
proof -
  have S: "wf_shape g" and d: "\<forall>v. 0 \<le> v \<and> v < num_vertices g \<longrightarrow> deg g v = 0" using assms(1) by (auto simp: fresh_arrays_def)
  have "degsum g (i * segment_size g) ((i + 1) * segment_size g) = 0" if "0 \<le> i" "i < segment_count g" for i
  proof -
    have "0 \<le> i * segment_size g" "(i + 1) * segment_size g \<le> num_vertices g"
      using seg_mult_range [OF S that(1), of "i + 1"] that by simp_all
    then show ?thesis using d unfolding degsum_def by (intro sum.neutral) auto
  qed
  moreover have "0 \<le> num_vertices g" using wf_shapeD(1-3) [OF S] by simp
  ultimately show ?thesis using assms by (auto simp: based_def seg_counts_ok_def fresh_arrays_def)
qed

definition sources_ok :: "int \<Rightarrow> (int \<times> int) list \<Rightarrow> bool" where
  "sources_ok n es \<longleftrightarrow> sorted (map fst es) \<and> (\<forall>e \<in> set es. 0 \<le> fst e \<and> fst e < n)"

lemma insert_base_ok:
  assumes f: "fresh_arrays g" and es: "sources_ok (num_vertices g) es" and ne: "num_edges g = int (length es)"
    and cap: "num_edges g + num_vertices g < elem_capacity g" "elem_capacity g \<le> 2 ^ 24"
  shows "\<exists>g'. insert_base es g = Inr g' \<and> wf g' \<and> spread_frame (g\<lparr>num_edges := num_edges g + num_vertices g\<rparr>) g'
    \<and> (\<forall>v. 0 \<le> v \<and> v < num_vertices g \<longrightarrow> vlist g' v = row es v)
    \<and> (2 * num_edges g + 3 * num_vertices g \<le> elem_capacity g \<and> 1 < num_vertices g \<longrightarrow>
       cells (edges g') 0 (len (row es 0)) = row es 0 \<and> cell (edges g') (len (row es 0)) = -1)"
proof -
  let ?n = "num_vertices g"
  have S: "wf_shape g" using f by (simp add: fresh_arrays_def)
  have n: "0 \<le> ?n" using wf_shapeD(1-3) [OF S] by simp
  have tot: "len (rows es ?n) = ?n + int (length es)" using es n by (intro len_rows_total) (auto simp: sources_ok_def)
  have "\<exists>k' g' ii'. base_edges es (num_edges g) (int (length ([] :: (int \<times> int) list))) (0 - 1, g, 0) = Inr (k' - 1, g', ii')
     \<and> based es k' g' ii' \<and> (\<forall>e \<in> set es. fst e < k') \<and> base_step g g'"
    using es tot ne cap n fresh_based [OF f] by (intro base_edges_ok [OF S]) (auto simp: sources_ok_def)
  then obtain k g1 ii where g1: "base_edges es (num_edges g) 0 (-1, g, 0) = Inr (k - 1, g1, ii)" "based es k g1 ii"
    "\<forall>e \<in> set es. fst e < k" "base_frame g g1" by (auto simp: base_step_def)
  note F1 = base_frameD [OF g1(4)]
  have S1: "wf_shape g1" by (rule base_frame_shape [OF g1(4) S])
  have k: "0 \<le> k" "k \<le> num_vertices g1" using g1(2) by (auto simp: based_def)
  have "\<exists>g'. base_rest (k - 1) ?n 0 (g1, ii) = Inr (g', len (rows es ?n)) \<and> based es ?n g' (len (rows es ?n))
    \<and> base_frame g1 g' \<and> (\<forall>j. 0 \<le> j \<and> j < ?n \<longrightarrow> off g' j = -1)"
    using g1 k F1 n tot cap ne by (intro base_rest_ok [OF S1]) (auto simp: max_def)
  then obtain g2 where g2: "base_rest (k - 1) ?n 0 (g1, ii) = Inr (g2, len (rows es ?n))" "based es ?n g2 (len (rows es ?n))"
    "base_frame g1 g2" "\<forall>j. 0 \<le> j \<and> j < ?n \<longrightarrow> off g2 j = -1" by blast
  have fr: "base_frame g g2" by (rule base_frame_trans [OF g1(4) g2(3)])
  note F2 = base_frameD [OF fr]
  let ?g2 = "g2\<lparr>num_edges := num_edges g2 + num_vertices g2\<rparr>"
  have same: "deg ?g2 = deg g2" "idx ?g2 = idx g2" "off ?g2 = off g2" by (auto simp: deg_def idx_def off_def)
  have S2: "wf_shape ?g2" using base_frame_shape [OF fr S] by (simp add: wf_shape_def)
  have "spreading es [] (?n - 1) g2" using based_spreading [OF g2(2) _ g2(4)] F2(1) by simp
  then have sp: "spreading es [] (num_vertices ?g2 - 1) ?g2" unfolding spreading_def same using F2(1) by simp
  have sc: "seg_counts_ok ?g2" using g2(2) unfolding based_def seg_counts_ok_def degsum_def same by simp
  have "\<exists>g'. spread_weighted 0 (num_vertices ?g2) ?g2 = Inr g' \<and> wf g' \<and> spread_frame ?g2 g'
    \<and> (\<forall>v. 0 \<le> v \<and> v < num_vertices ?g2 \<longrightarrow> vlist g' v = row es v)
    \<and> (2 * num_edges ?g2 + num_vertices ?g2 \<le> elem_capacity ?g2 \<and> 1 < num_vertices ?g2 \<longrightarrow>
       (\<forall>j. 0 \<le> j \<and> j \<le> len (row es 0) \<longrightarrow> cell (edges g') j = cell (edges ?g2) j))"
    using F2 tot ne cap by (intro spread_weighted_ok [OF S2 sp sc]) simp_all
  then obtain g3 where g3: "spread_weighted 0 (num_vertices g2) ?g2 = Inr g3" "wf g3" "spread_frame ?g2 g3"
    "\<forall>v. 0 \<le> v \<and> v < ?n \<longrightarrow> vlist g3 v = row es v"
    "2 * num_edges ?g2 + num_vertices ?g2 \<le> elem_capacity ?g2 \<and> 1 < num_vertices ?g2 \<longrightarrow>
       (\<forall>j. 0 \<le> j \<and> j \<le> len (row es 0) \<longrightarrow> cell (edges g3) j = cell (edges ?g2) j)" using F2(1) by auto
  have first: "cells (edges g3) 0 (len (row es 0)) = row es 0 \<and> cell (edges g3) (len (row es 0)) = -1"
    if room: "2 * num_edges g + 3 * ?n \<le> elem_capacity g \<and> 1 < ?n"
  proof -
    have same: "cell (edges g3) j = cell (edges g2) j" if "0 \<le> j" "j \<le> len (row es 0)" for j
      using g3(5) room F2 that by simp
    have "rows es 1 = row es 0" using rows_Suc [of 0 es] by simp
    have C: "cells (edges g2) 0 (len (rows es ?n)) = rows es ?n" using g2(2) by (simp add: based_def)
    have "spreading es [] (?n - 1) g2" using based_spreading [OF g2(2) _ g2(4)] F2(1) by simp
    from spreadingD(4) [OF this, of 0] spreadingD(4) [OF this, of 1]
    have "cells (edges g2) 0 (len (row es 0)) = row es 0" "cells (edges g2) (len (row es 0)) (len (row es 1)) = row es 1"
      using room F2(1) rows_Suc [of 0 es] by (simp_all add: new_place_def)
    moreover from this(2) have "cell (edges g2) (len (row es 0)) = -1"
      using cells_Cons [of "len (row es 1)" "edges g2" "len (row es 0)"] by (simp add: row_def)
    moreover have "cells (edges g3) 0 (len (row es 0)) = cells (edges g2) 0 (len (row es 0))"
      using same by (intro cells_cong) simp
    ultimately show ?thesis using same [of "len (row es 0)"] by simp
  qed
  let ?g = "flush (FlEdges 0 (elem_capacity g3)) g3"
  have "insert_base es g = Inr ?g"
    using g1(1) g2(1) g3(1) F1(1) by (simp add: insert_base_def Let_def)
  moreover have "wf ?g" using g3(2) by simp
  moreover have "vlist ?g v = vlist g3 v" for v by simp
  moreover have "spread_frame (g\<lparr>num_edges := num_edges g + num_vertices g\<rparr>) ?g"
    using g3(3) F2 by (simp add: spread_frame_def flush_def)
  moreover have "edges ?g = edges g3" by (simp add: flush_def)
  ultimately show ?thesis using g3(4) first by auto
qed

section \<open>The parameters of the array\<close>

lemma to_u64_uint: "0 \<le> n \<Longrightarrow> n < 2 ^ 64 \<Longrightarrow> uint (to_u64 n) = n"
  by (simp add: to_u64_def uint_word_of_int_small)

lemma to_u64_pos: "0 < n \<Longrightarrow> n < 2 ^ 64 \<Longrightarrow> to_u64 n \<noteq> 0"
  using to_u64_uint [of n] by auto

lemma to_u64_pred: "to_u64 x - 1 = to_u64 (x - 1)"
  by (simp add: to_u64_def wi_hom_sub [symmetric])

lemma ceil_div_uint:
  assumes "0 < x" "x < 2 ^ 63" "0 < y" "y < 2 ^ 63"
  shows "uint (ceil_div (to_u64 x) (to_u64 y)) = 1 + (x - 1) div y"
proof -
  have x: "uint (to_u64 x - 1) = x - 1"
    using assms to_u64_uint [of "x - 1"] by (simp add: to_u64_pred)
  define Q where "Q = (x - 1) div y"
  have Q: "0 \<le> Q" "Q \<le> x - 1"
    using assms zdiv_le_self [of "x - 1" y] unfolding Q_def by (simp_all add: pos_imp_zdiv_nonneg_iff)
  have y: "uint (to_u64 y) = y" using assms by (intro to_u64_uint) simp_all
  have "uint ((to_u64 x - 1) div to_u64 y) = Q" unfolding uint_div x y Q_def ..
  then have "(to_u64 x - 1) div to_u64 y = word_of_int Q" by (metis word_of_int_uint)
  then have "ceil_div (to_u64 x) (to_u64 y) = word_of_int (1 + Q)"
    using assms to_u64_pos [of x] by (simp add: ceil_div_def)
  moreover have "uint (word_of_int (1 + Q) :: 64 word) = 1 + Q" using Q assms(2) by (intro uint_word_of_int_small) simp_all
  ultimately show ?thesis unfolding Q_def by simp
qed

lemma floor_log2_pow: "k < 63 \<Longrightarrow> floor_log2 (to_u64 (2 ^ k)) = Inr (of_nat k)"
proof -
  assume k: "k < 63"
  have u: "uint (to_u64 (2 ^ k)) = 2 ^ k" using k by (intro to_u64_uint power_strict_increasing) simp_all
  have nz: "to_u64 (2 ^ k) \<noteq> 0" using k by (intro to_u64_pos power_strict_increasing) simp_all
  obtain w where w: "floor_log2 (to_u64 (2 ^ k)) = Inr w" "(2::int) ^ unat w \<le> 2 ^ k" "(2::int) ^ k < 2 ^ (unat w + 1)"
    using floor_log2_spec [OF nz] unfolding u by blast
  have "unat w \<le> k" using w(2) by (rule power_le_imp_le_exp [rotated]) simp
  moreover have "k < unat w + 1" using w(3) by (rule power_less_imp_less_exp [rotated]) simp
  ultimately have "unat w = k" by simp
  moreover have "of_nat (unat w) = w" by simp
  ultimately have "w = of_nat k" by simp
  then show ?thesis using w(1) by simp
qed

lemma hyperfloor_ok:
  assumes "0 < x" "x < 2 ^ 62"
  obtains k :: nat where "hyperfloor (to_u64 x) = Inr (to_u64 (2 ^ k))" "2 ^ k \<le> x" "k < 62" "x < 2 ^ (k + 1)"
proof -
  have u: "uint (to_u64 x) = x" "to_u64 x \<noteq> 0" using assms to_u64_uint [of x] to_u64_pos [of x] by simp_all
  obtain w where w: "floor_log2 (to_u64 x) = Inr w" "2 ^ unat w \<le> x" "x < 2 ^ (unat w + 1)" using floor_log2_spec [OF u(2)] unfolding u(1) by blast
  have "(2::int) ^ unat w < 2 ^ 62" using w(2) assms(2) by linarith
  then have k: "unat w < 62" by (rule power_less_imp_less_exp [rotated]) simp
  have "push_bit (unat w) 1 = to_u64 (2 ^ unat w)" by (simp add: to_u64_def push_bit_eq_mult)
  then have "hyperfloor (to_u64 x) = Inr (to_u64 (2 ^ unat w))" using w(1) by (simp add: hyperfloor_def)
  then show thesis using that w(2,3) k by blast
qed

text \<open>The number of vertices is rounded up to a whole number of segments, a power of two of them.\<close>

lemma compute_capacity_ok:
  assumes n: "2 \<le> num_vertices g" "num_vertices g \<le> 2 ^ 30" and e: "0 \<le> num_edges g"
  obtains g' k where "compute_capacity g = Inr g'" "segment_count g' = 2 ^ k" "k < 30" "0 < segment_size g'"
    "num_vertices g' = segment_count g' * segment_size g'" "num_vertices g \<le> num_vertices g'" "num_vertices g' < 2 * num_vertices g"
    "elem_capacity g' = (num_edges g + num_vertices g') * 4"
    "\<exists>ss sc nv av ec. g' = g\<lparr>segment_size := ss, segment_count := sc, num_vertices := nv, avg_degree := av, elem_capacity := ec\<rparr>"
    "1 \<le> k"
proof -
  let ?n = "num_vertices g"
  have p: "0 < ?n" "?n < 2 ^ 64" "?n - 1 < 2 ^ 64" using n by simp_all
  note x = to_u64_pred [of ?n]
  have nz: "to_u64 (?n - 1) \<noteq> 0" using n by (intro to_u64_pos) simp_all
  define b where "b = bitlen (?n - 1)"
  have "uint (to_u64 (?n - 1)) = ?n - 1" using n by (intro to_u64_uint) simp_all
  then obtain w where w: "last_bit_set (to_u64 (?n - 1)) = Inr w" "uint w = b" using last_bit_set_uint [OF nz] unfolding b_def by auto
  have "0 < to_u64 ?n" using p to_u64_pos [of ?n] by (simp add: word_neq_0_conv)
  then have cl: "ceil_log2 (to_u64 ?n) = Inr w" using w(1) x by (simp add: ceil_log2_def)
  have b: "1 \<le> b" "b \<le> 64" unfolding b_def using bitlen_ge_1 [of "?n - 1"] n w(2) bitlen_uint64(2) [of "to_u64 (?n - 1)"]
    \<open>uint (to_u64 (?n - 1)) = ?n - 1\<close> by simp_all
  have ss: "to_i32 (uint w) = b" using w(2) b by simp
  define sc where "sc = 1 + (?n - 1) div b"
  have "0 \<le> (?n - 1) div b" using n b by (simp add: pos_imp_zdiv_nonneg_iff)
  then have scb: "0 < sc" "sc \<le> ?n"
    using n b zdiv_le_self [of "?n - 1" b] unfolding sc_def by simp_all
  have sc: "to_i64 (uint (ceil_div (to_u64 ?n) (to_u64 b))) = sc"
    using n b scb ceil_div_uint [of ?n b] by (simp add: sc_def)
  obtain k :: nat where k: "hyperfloor (to_u64 sc) = Inr (to_u64 (2 ^ k))" "2 ^ k \<le> sc" "k < 62" "sc < 2 ^ (k + 1)"
    using hyperfloor_ok [of sc] scb n by auto
  have kn: "(2::int) ^ k \<le> ?n" using k(2) scb(2) by simp
  then have k30: "(2::int) ^ k \<le> 2 ^ 30" using n(2) by simp
  have K: "to_i64 (uint (to_u64 (2 ^ k))) = 2 ^ k"
  proof -
    have "- (2 ^ 63) \<le> (2 :: int) ^ k" by (rule order_trans [of _ 0]) simp_all
    moreover have "(2 :: int) ^ k < 2 ^ 63" using k30 by simp
    ultimately have "to_i64 (2 ^ k) = 2 ^ k" by (rule to_i64_id)
    then show ?thesis using k30 by (simp add: to_u64_uint)
  qed
  define z where "z = 1 + (?n - 1) div 2 ^ k"
  have "0 \<le> (?n - 1) div 2 ^ k" using n by (simp add: pos_imp_zdiv_nonneg_iff)
  then have zb: "0 < z" "z \<le> ?n" using n zdiv_le_self [of "?n - 1" "2 ^ k"] unfolding z_def by simp_all
  have z: "to_i32 (uint (ceil_div (to_u64 ?n) (to_u64 (2 ^ k)))) = z"
    using n k30 zb ceil_div_uint [of ?n "2 ^ k"] by (simp add: z_def)
  have "2 ^ k * ((?n - 1) div 2 ^ k) + (?n - 1) mod 2 ^ k = ?n - 1" by simp
  moreover have "0 \<le> (?n - 1) mod 2 ^ k" "(?n - 1) mod 2 ^ k < 2 ^ k" by simp_all
  moreover have "2 ^ k * z = 2 ^ k + 2 ^ k * ((?n - 1) div 2 ^ k)" by (simp add: z_def distrib_left)
  ultimately have nv: "?n \<le> 2 ^ k * z" "2 ^ k * z < 2 * ?n" using kn by linarith+
  have N: "to_i32 (2 ^ k * z) = 2 ^ k * z" using nv n by simp
  have "k < 30 \<or> k = 30"
  proof -
    have "k \<le> 30" using k30 by (rule power_le_imp_le_exp [rotated]) simp
    then show ?thesis by auto
  qed
  moreover have "k \<noteq> 30"
  proof
    assume "k = 30"
    then have "2 ^ 30 \<le> sc" using k(2) by simp
    then have "?n \<le> sc" using n(2) by simp
    moreover have "?n \<noteq> sc \<or> b = 1"
    proof (rule ccontr)
      assume "\<not> (?n \<noteq> sc \<or> b = 1)"
      then have "?n = sc" "2 \<le> b" using b by auto
      then have "(?n - 1) div b \<le> (?n - 1) div 2" using n by (intro zdiv_mono2) auto
      then show False using \<open>?n = sc\<close> n unfolding sc_def by linarith
    qed
    ultimately have "b = 1" "?n = sc" using scb by auto
    then have "?n - 1 < 2 ^ nat 1" using bitlen_bounds [of "?n - 1"] n unfolding b_def by auto
    then show False using \<open>2 ^ 30 \<le> sc\<close> scb by simp
  qed
  ultimately have k30': "k < 30" by blast
  have k1: "1 \<le> k"
  proof (rule ccontr)
    assume "\<not> 1 \<le> k"
    then have "k = 0" by simp
    then have "(?n - 1) div b < 1" using k(4) by (simp add: sc_def)
    moreover have "b \<le> ?n - 1"
    proof -
      have "int (nat (b - 1)) < 2 ^ nat (b - 1)" by (rule of_nat_less_two_power)
      also have "\<dots> \<le> ?n - 1" unfolding b_def using bitlen_bounds [of "?n - 1"] n by simp
      finally show ?thesis using b by simp
    qed
    then have "1 \<le> (?n - 1) div b" using b zdiv_mono1 [of b "?n - 1" b] by simp
    ultimately show False by simp
  qed
  define g' where "g' = g\<lparr>segment_size := z, segment_count := 2 ^ k, num_vertices := 2 ^ k * z,
    avg_degree := to_i64 (uint (ceil_div (to_u64 (num_edges g)) (to_u64 (2 ^ k * z)))),
    elem_capacity := (num_edges g + 2 ^ k * z) * 4\<rparr>"
  have "compute_capacity g = Inr g'"
    by (simp add: compute_capacity_def cl Let_def ss sc k(1) K z N max_sparseness_def g'_def)
  then show thesis
  proof (rule that)
    show "\<exists>ss sc nv av ec. g' = g\<lparr>segment_size := ss, segment_count := sc, num_vertices := nv, avg_degree := av, elem_capacity := ec\<rparr>"
      unfolding g'_def by blast
  qed (use nv zb k30' k1 in \<open>simp_all add: g'_def\<close>)
qed

section \<open>The constructor\<close>

lemma cell_replicate_int: "0 \<le> i \<Longrightarrow> i < n \<Longrightarrow> cell (replicate (nat n) x) i = x"
  by (rule cell_replicate) simp_all

lemma alloc_arrays_ok:
  assumes "0 < segment_size g" "0 < segment_count g" "num_vertices g = segment_count g * segment_size g" "0 \<le> elem_capacity g"
  shows "fresh_arrays (alloc_arrays t g)"
proof -
  have n: "0 \<le> num_vertices g" using assms by simp
  have "wf_shape (alloc_arrays t g)"
    using assms n by (simp add: wf_shape_def alloc_arrays_def MAX_LOG_ENTRIES_def cell_replicate_int)
  moreover have "deg (alloc_arrays t g) v = 0" if "0 \<le> v" "v < num_vertices g" for v
    using that by (simp add: deg_def alloc_arrays_def cell_replicate_int zero_vertex_def)
  ultimately show ?thesis
    using assms n by (simp add: fresh_arrays_def) (simp add: alloc_arrays_def cell_replicate_int)
qed

text \<open>The vertices of the file and those added to fill the segments.\<close>

lemma new_graph_ok:
  assumes n: "2 \<le> n_vertices" "n_vertices \<le> 2 ^ 20" and e: "n_edges = int (length es)" "n_edges \<le> 2 ^ 20"
    and es: "sources_ok n_vertices es"
  shows "\<exists>g. new_graph t es d n_edges n_vertices = Inr g \<and> inv g \<and> n_vertices \<le> num_vertices g \<and> num_vertices g < 2 * n_vertices
    \<and> elem_capacity g = (n_edges + num_vertices g) * 4
    \<and> (\<forall>tid. 0 \<le> tid \<and> tid < int t \<longrightarrow> ulog_ready tid g)
    \<and> (\<forall>v. 0 \<le> v \<and> v < num_vertices g \<longrightarrow> vlist g v = row es v)
    \<and> num_edges g = n_edges + num_vertices g \<and> 1 \<le> tree_height g
    \<and> cells (edges g) 0 (len (row es 0)) = row es 0 \<and> cell (edges g) (len (row es 0)) = -1"
proof -
  let ?g0 = "empty_graph n_vertices n_edges d"
  have g0: "num_vertices ?g0 = n_vertices" "num_edges ?g0 = n_edges" by (simp_all add: empty_graph_def)
  obtain g1 k where g1: "compute_capacity ?g0 = Inr g1" "segment_count g1 = 2 ^ k" "k < 30" "0 < segment_size g1"
    "num_vertices g1 = segment_count g1 * segment_size g1" "num_vertices ?g0 \<le> num_vertices g1" "num_vertices g1 < 2 * num_vertices ?g0"
    "elem_capacity g1 = (num_edges ?g0 + num_vertices g1) * 4"
    "\<exists>ss sc nv av ec. g1 = ?g0\<lparr>segment_size := ss, segment_count := sc, num_vertices := nv, avg_degree := av, elem_capacity := ec\<rparr>"
    "1 \<le> k"
    by (rule compute_capacity_ok [of ?g0]) (use n e g0 in simp_all)
  have ne: "num_edges g1 = n_edges" using g1(9) g0 by auto
  have h: "floor_log2 (to_u64 (segment_count g1)) = Inr (of_nat k)" using g1(2,3) floor_log2_pow [of k] by simp
  have k: "to_i32 (uint (of_nat k :: 64 word)) = int k" using g1(3) by (simp add: uint_nat unat_of_nat)
  let ?g1 = "g1\<lparr>tree_height := int k, delta_up := f64_div (f64_sub up_0 up_h) (f64_of_int (int k))\<rparr>"
  let ?g = "alloc_arrays t ?g1"
  have cap: "0 \<le> elem_capacity g1" "elem_capacity g1 = (n_edges + num_vertices g1) * 4" using g1(6,8) g0 n e by simp_all
  have fr: "fresh_arrays ?g" using g1 cap by (intro alloc_arrays_ok) simp_all
  have F: "num_vertices ?g = num_vertices g1" "num_edges ?g = n_edges" "elem_capacity ?g = elem_capacity g1" "segment_count ?g = 2 ^ k"
    "tree_height ?g = int k" "delta_up ?g = delta_up_of (int k)" "leaf_segments ?g = replicate (2 ^ k) new_leaf"
    "log_segment_idx ?g = replicate (2 ^ k) 0" "ulog_ptr ?g = replicate t (replicate (nat MAX_ULOG_ENTRIES) 0)" "oplog_ptr ?g = replicate t 0"
    using ne g1(2) by (simp_all add: alloc_arrays_def delta_up_of_def nat_power_eq)
  have src: "sources_ok (num_vertices ?g) es" using es g1(6) g0 F(1) by (auto simp: sources_ok_def)
  have "\<exists>g'. insert_base es ?g = Inr g' \<and> wf g' \<and> spread_frame (?g\<lparr>num_edges := num_edges ?g + num_vertices ?g\<rparr>) g'
    \<and> (\<forall>v. 0 \<le> v \<and> v < num_vertices ?g \<longrightarrow> vlist g' v = row es v)
    \<and> (2 * num_edges ?g + 3 * num_vertices ?g \<le> elem_capacity ?g \<and> 1 < num_vertices ?g \<longrightarrow>
       cells (edges g') 0 (len (row es 0)) = row es 0 \<and> cell (edges g') (len (row es 0)) = -1)"
    using F e cap g1(6,7) g0 n by (intro insert_base_ok [OF fr src]) simp_all
  then obtain g2 where g2: "insert_base es ?g = Inr g2" "wf g2" "spread_frame (?g\<lparr>num_edges := num_edges ?g + num_vertices ?g\<rparr>) g2"
    "\<forall>v. 0 \<le> v \<and> v < num_vertices ?g \<longrightarrow> vlist g2 v = row es v"
    "2 * num_edges ?g + 3 * num_vertices ?g \<le> elem_capacity ?g \<and> 1 < num_vertices ?g \<longrightarrow>
       cells (edges g2) 0 (len (row es 0)) = row es 0 \<and> cell (edges g2) (len (row es 0)) = -1" by blast
  have G: "num_vertices g2 = num_vertices g1" "elem_capacity g2 = elem_capacity g1" "segment_count g2 = 2 ^ k" "tree_height g2 = int k"
    "delta_up g2 = delta_up_of (int k)" "leaf_segments g2 = replicate (2 ^ k) new_leaf" "log_segment_idx g2 = replicate (2 ^ k) 0"
    "ulog_ptr g2 = replicate t (replicate (nat MAX_ULOG_ENTRIES) 0)" "oplog_ptr g2 = replicate t 0"
    "num_edges g2 = n_edges + num_vertices g1"
    using g2(3) F by (simp_all add: spread_frame_def)
  have "new_graph t es d n_edges n_vertices = Inr g2"
    using g1(1) h k g2(1) by (simp add: new_graph_def Let_def)
  moreover have "inv g2"
    using g2(2) G cap g1(6) [unfolded g0] n e by (simp add: inv_def pma_ok_def quiet_def room_ok_def cell_replicate)
  moreover have "ulog_ready tid g2" if "0 \<le> tid" "tid < int t" for tid
    using that G by (simp add: ulog_ready_def MAX_ULOG_ENTRIES_def)
  moreover have "cells (edges g2) 0 (len (row es 0)) = row es 0 \<and> cell (edges g2) (len (row es 0)) = -1"
    using g2(5) F(1-3) cap g1(6) g0 n e by simp
  ultimately show ?thesis using g2(4) G F g1(6,7,10) g0 cap by auto
qed

section \<open>Inserting a list of edges\<close>

fun insert_list :: "int \<Rightarrow> (int \<Rightarrow> int) \<Rightarrow> int \<Rightarrow> (int \<times> int) list \<Rightarrow> dgraph \<Rightarrow> dgraph res" where
  "insert_list vn em tid [] g = Inr g"
| "insert_list vn em tid (e # el) g = sbind (insert_edge vn em tid (fst e) (snd e) g) (insert_list vn em tid el)"

definition both_ways :: "bool \<Rightarrow> (int \<times> int) list \<Rightarrow> (int \<times> int) list" where
  "both_ways symmetrize el = (if symmetrize then concat (map (\<lambda>(u, v). [(u, v), (v, u)]) el) else el)"

lemma insert_dynamic_list: "insert_dynamic vn em tid s el g = insert_list vn em tid (both_ways s el) g"
  by (induction vn em tid s el g rule: insert_dynamic.induct)
    (auto simp: both_ways_def sbind_def split: sum.split)

text \<open>The array stays below \<open>2\<^sup>2\<^sup>3\<close> cells on the way, the range in which the double computations are exact.\<close>

fun stays_small :: "int \<Rightarrow> (int \<Rightarrow> int) \<Rightarrow> int \<Rightarrow> (int \<times> int) list \<Rightarrow> dgraph \<Rightarrow> bool" where
  "stays_small vn em tid [] g = True"
| "stays_small vn em tid (e # el) g = (elem_capacity g * 2 \<le> 2 ^ 24 \<and>
     (case insert_edge vn em tid (fst e) (snd e) g of Inl f \<Rightarrow> True | Inr g' \<Rightarrow> stays_small vn em tid el g'))"

lemma tree_height_bound:
  assumes "inv g" "num_vertices g \<le> 2 ^ 20"
  shows "tree_height g \<le> 2 ^ 20"
proof -
  have "int (nat (tree_height g)) < 2 ^ nat (tree_height g)" by (rule of_nat_less_two_power)
  also have "\<dots> = segment_count g * 1" using invD(2) [OF assms(1)] by (simp add: pma_ok_def)
  also have "\<dots> \<le> segment_count g * segment_size g"
    using wf_shapeD(1,2) [OF wfD(2) [OF invD(1) [OF assms(1)]]] by (intro mult_left_mono) simp_all
  also have "\<dots> = num_vertices g" using wf_shapeD(3) [OF wfD(2) [OF invD(1) [OF assms(1)]]] by simp
  finally show ?thesis using assms(2) by (simp split: if_splits)
qed

lemma targets_Cons: "targets (e # es) v = (if fst e = v then [snd e] else []) @ targets es v"
  by (simp add: targets_def)

text \<open>Some insertion of the list reaches the resize with logged edges of the last vertex.\<close>

fun list_overruns :: "int \<Rightarrow> (int \<Rightarrow> int) \<Rightarrow> int \<Rightarrow> (int \<times> int) list \<Rightarrow> dgraph \<Rightarrow> bool" where
  "list_overruns vn em tid [] g = False"
| "list_overruns vn em tid (e # el) g = (resize_overruns vn em tid (fst e) (snd e) g \<or>
     (case insert_edge vn em tid (fst e) (snd e) g of Inl f \<Rightarrow> False | Inr g' \<Rightarrow> list_overruns vn em tid el g'))"

lemma appended_targets:
  assumes "appended (fst e) (snd e) g h" "0 \<le> v" "v < num_vertices g"
  shows "num_vertices h = num_vertices g" "vlist h v @ targets el v = vlist g v @ targets (e # el) v"
  using assms by (auto simp: appended_def targets_Cons)

lemma insert_list_ok:
  assumes "inv g" "ulog_ready tid g" "num_vertices g \<le> 2 ^ 20" "\<forall>e \<in> set el. 0 \<le> fst e \<and> fst e < num_vertices g" "stays_small vn em tid el g"
  shows "if list_overruns vn em tid el g then insert_list vn em tid el g = Inl OutOfBounds
    else \<exists>g'. insert_list vn em tid el g = Inr g' \<and> inv g' \<and> ulog_ready tid g' \<and> num_vertices g' = num_vertices g \<and>
      (\<forall>v. 0 \<le> v \<and> v < num_vertices g \<longrightarrow> vlist g' v = vlist g v @ targets el v)"
  using assms
proof (induction el arbitrary: g)
  case Nil
  then show ?case by (simp add: targets_def)
next
  case (Cons e el)
  have src: "0 \<le> fst e" "fst e < num_vertices g" and cap: "elem_capacity g * 2 \<le> 2 ^ 24" using Cons.prems(4,5) by auto
  note th = tree_height_bound [OF Cons.prems(1,3)]
  note one = insert_edge_ok [OF Cons.prems(1,2) src th cap, of vn em "snd e"]
  show ?case
  proof (cases "resize_overruns vn em tid (fst e) (snd e) g")
    case True
    then show ?thesis using one by simp
  next
    case False
    then obtain g1 where g1: "insert_edge vn em tid (fst e) (snd e) g = Inr g1" "inv g1" "ulog_ready tid g1" "appended (fst e) (snd e) g g1"
      using one by auto
    have n: "num_vertices g1 = num_vertices g" using g1(4) by (simp add: appended_def)
    have "if list_overruns vn em tid el g1 then insert_list vn em tid el g1 = Inl OutOfBounds
      else \<exists>g'. insert_list vn em tid el g1 = Inr g' \<and> inv g' \<and> ulog_ready tid g' \<and> num_vertices g' = num_vertices g1 \<and>
        (\<forall>v. 0 \<le> v \<and> v < num_vertices g1 \<longrightarrow> vlist g' v = vlist g1 v @ targets el v)"
      by (rule Cons.IH [OF g1(2,3)]) (use Cons.prems n g1(1) in auto)
    then show ?thesis using False g1(1) n appended_targets(2) [OF g1(4)] by auto
  qed
qed

text \<open>Lists that leave the array at most half full are inserted without a resize.\<close>

lemma insert_list_half_full:
  assumes "inv g" "ulog_ready tid g" "num_vertices g \<le> 2 ^ 20" "\<forall>e \<in> set el. 0 \<le> fst e \<and> fst e < num_vertices g"
    and "1 \<le> tree_height g" "elem_capacity g * 2 \<le> 2 ^ 24" "2 * (num_edges g + int (length el)) \<le> elem_capacity g"
  shows "\<not> list_overruns vn em tid el g \<and> stays_small vn em tid el g \<and> (\<exists>g'. insert_list vn em tid el g = Inr g' \<and>
     elem_capacity g' = elem_capacity g \<and> num_edges g' = num_edges g + int (length el))"
  using assms
proof (induction el arbitrary: g)
  case (Cons e el)
  have src: "0 \<le> fst e" "fst e < num_vertices g" using Cons.prems(4) by auto
  note th = tree_height_bound [OF Cons.prems(1,3)]
  have "2 * (num_edges g + 1) \<le> elem_capacity g" using Cons.prems(7) by simp
  from insert_half_full [OF Cons.prems(1,2) src Cons.prems(5) th Cons.prems(6) this, of vn em "snd e"]
  obtain g1 where g1: "\<not> resize_overruns vn em tid (fst e) (snd e) g" "insert_edge vn em tid (fst e) (snd e) g = Inr g1" "inv g1"
    "ulog_ready tid g1" "appended (fst e) (snd e) g g1" "num_edges g1 = num_edges g + 1" "elem_capacity g1 = elem_capacity g"
    "tree_height g1 = tree_height g" by blast
  have n: "num_vertices g1 = num_vertices g" using g1(5) by (simp add: appended_def)
  have "\<not> list_overruns vn em tid el g1 \<and> stays_small vn em tid el g1 \<and> (\<exists>g'. insert_list vn em tid el g1 = Inr g' \<and>
     elem_capacity g' = elem_capacity g1 \<and> num_edges g' = num_edges g1 + int (length el))"
    by (rule Cons.IH [OF g1(3,4)]) (use Cons.prems g1 n in auto)
  then show ?case using g1 Cons.prems(6) by auto
qed simp

section \<open>The builder\<close>

lemma FindMaxNodeID_upper:
  "0 \<le> FindMaxNodeID el" "(u, v) \<in> set el \<Longrightarrow> u \<le> FindMaxNodeID el \<and> v \<le> FindMaxNodeID el"
proof -
  have ge: "m \<le> fold (\<lambda>(u, v) m. max (max m u) v) el m" for el :: "(int \<times> int) list" and m
  proof (induction el arbitrary: m)
    case (Cons e el)
    obtain a b where "e = (a, b)" by fastforce
    moreover have "m \<le> max (max m a) b" by simp
    ultimately show ?case using Cons [of "max (max m a) b"] by simp
  qed simp
  show "0 \<le> FindMaxNodeID el" unfolding FindMaxNodeID_def by (rule ge)
  have "(u, v) \<in> set el \<Longrightarrow> u \<le> fold (\<lambda>(u, v) m. max (max m u) v) el m \<and> v \<le> fold (\<lambda>(u, v) m. max (max m u) v) el m" for m
  proof (induction el arbitrary: m)
    case (Cons e el)
    obtain a b where e: "e = (a, b)" by fastforce
    show ?case
    proof (cases "(u, v) = e")
      case True
      then show ?thesis using e ge [of "max (max m u) v" el] by simp
    next
      case False
      then show ?thesis using Cons.prems Cons.IH [of "max (max m a) b"] e by auto
    qed
  qed simp
  then show "(u, v) \<in> set el \<Longrightarrow> u \<le> FindMaxNodeID el \<and> v \<le> FindMaxNodeID el" unfolding FindMaxNodeID_def .
qed

text \<open>What \<^verbatim>\<open>std::sort\<close> with a comparison of the sources promises.\<close>

definition sorts_by_source :: "((int \<times> int) list \<Rightarrow> (int \<times> int) list) \<Rightarrow> bool" where
  "sorts_by_source srt \<longleftrightarrow> (\<forall>el. mset (srt el) = mset el \<and> sorted (map fst (srt el)))"

lemma MakeGraph_ok:
  fixes s :: bool and base :: "(int \<times> int) list"
  assumes srt: "sorts_by_source srt" and ids: "\<forall>(u, v) \<in> set base. 0 \<le> u \<and> 0 \<le> v" "1 \<le> FindMaxNodeID base" "FindMaxNodeID base < 2 ^ 19"
    and m: "length base \<le> 2 ^ 19" and dyn: "\<forall>(u, v) \<in> set dynamic. 0 \<le> u \<and> u \<le> FindMaxNodeID base \<and> 0 \<le> v \<and> v \<le> FindMaxNodeID base"
    and tid: "0 \<le> tid" "tid < int t"
  defines "el \<equiv> if s then symmetrized base else base"
  obtains g0 where "new_graph t (srt el) (\<not> s) (int (length el)) (FindMaxNodeID base + 1) = Inr g0" "inv g0" "ulog_ready tid g0"
    "FindMaxNodeID base < num_vertices g0" "num_vertices g0 \<le> 2 ^ 20" "1 \<le> tree_height g0"
    "elem_capacity g0 = (int (length el) + num_vertices g0) * 4" "num_edges g0 = int (length el) + num_vertices g0"
    "\<forall>v. 0 \<le> v \<and> v < num_vertices g0 \<longrightarrow> vlist g0 v = row (srt el) v"
    "MakeGraph srt t vn em tid s base dynamic = insert_list vn em tid (both_ways s dynamic) g0"
    "\<forall>e \<in> set (both_ways s dynamic). 0 \<le> fst e \<and> fst e < num_vertices g0" "int (length el) \<le> 2 ^ 20"
proof -
  let ?N = "FindMaxNodeID base + 1"
  have el: "0 \<le> u \<and> u < ?N" if "(u, v) \<in> set el" for u v
    using that ids(1) FindMaxNodeID_upper(2) [of _ _ base] by (fastforce simp: el_def symmetrized_def split: if_splits)
  have len: "int (length el) \<le> 2 ^ 20" using m by (simp add: el_def symmetrized_def)
  have ls: "int (length el) = int (length (srt el))" using srt by (simp add: sorts_by_source_def) (metis size_mset)
  have set: "set (srt el) = set el" using srt by (metis sorts_by_source_def set_mset_mset)
  have src: "sources_ok ?N (srt el)" using srt el set by (force simp: sources_ok_def sorts_by_source_def)
  have N: "2 \<le> ?N" "?N \<le> 2 ^ 20" using ids by simp_all
  obtain g0 where g0: "new_graph t (srt el) (\<not> s) (int (length el)) ?N = Inr g0" "inv g0" "?N \<le> num_vertices g0"
    "num_vertices g0 < 2 * ?N" "elem_capacity g0 = (int (length el) + num_vertices g0) * 4" "ulog_ready tid g0"
    "\<forall>v. 0 \<le> v \<and> v < num_vertices g0 \<longrightarrow> vlist g0 v = row (srt el) v"
    "num_edges g0 = int (length el) + num_vertices g0" "1 \<le> tree_height g0"
    using tid new_graph_ok [OF N ls len src, of t "\<not> s"] by auto
  have run: "MakeGraph srt t vn em tid s base dynamic = insert_list vn em tid (both_ways s dynamic) g0"
    using g0(1) by (simp add: MakeGraph_def Let_def el_def insert_dynamic_list)
  have d: "\<forall>e \<in> set (both_ways s dynamic). 0 \<le> fst e \<and> fst e < num_vertices g0"
    using dyn g0(3) by (fastforce simp: both_ways_def split: if_splits)
  have n: "num_vertices g0 \<le> 2 ^ 20" "FindMaxNodeID base < num_vertices g0" using g0(3,4) ids(3) by simp_all
  show thesis by (rule that [OF g0(1,2,6) n(2,1) g0(9,5,8,7) run d len])
qed

end
