(* ===== verification/DgapReopenOk.thy ===== *)
theory DgapReopenOk
  imports DgapReopen DgapNeighOk DgapMakeOk
begin

text \<open>
  What the constructor rebuilds from an existing pool: everything after a proper shutdown; the indices, degrees
  and counters, but neither the log offsets nor the log lengths, after a crash.
\<close>

section \<open>Clean shutdown\<close>

text \<open>The root object of \<open>g\<close>: the parameters of the array and backup arrays of its sizes.\<close>

definition pool_fits :: "dgraph \<Rightarrow> pool \<Rightarrow> bool" where
  "pool_fits g p \<longleftrightarrow> bp_num_vertices p = num_vertices g \<and> bp_segment_count p = segment_count g \<and>
     bp_segment_size p = segment_size g \<and> bp_tree_height p = tree_height g \<and> bp_directed p = directed g \<and>
     len (bp_vertices p) = num_vertices g \<and> len (bp_log_segment_idx p) = segment_count g \<and>
     len (bp_segment_edges_actual p) = segment_count g * 2 \<and> len (bp_segment_edges_total p) = segment_count g * 2"

lemma created_pool_fits: "wf_shape g \<Longrightarrow> pool_fits g (created_pool g n)"
  by (frule wf_shapeD(1), frule wf_shapeD(2), frule wf_shapeD(3)) (simp add: pool_fits_def created_pool_def live_pool_def)

lemma live_pool_fits [simp]: "pool_fits g (live_pool g p) = pool_fits g p"
  by (simp add: pool_fits_def live_pool_def)

lemma copy_whole: "len src = n \<Longrightarrow> len dst = n \<Longrightarrow> copy_cells src 0 dst 0 n = Inr src"
proof -
  assume n: "len src = n" "len dst = n"
  have "cells src 0 n = src" by (rule nth_equalityI) (use n in \<open>auto simp: len_def cell_def\<close>)
  then show ?thesis using n by (auto simp: copy_cells_def len_def)
qed

lemma len_map_upt [simp]: "0 \<le> n \<Longrightarrow> len (map f [0..<nat n]) = n"
  by (simp add: len_def)

text \<open>The pool after the destructor.\<close>

definition backed_up :: "dgraph \<Rightarrow> pool \<Rightarrow> pool" where
  "backed_up g p = (live_pool g p)\<lparr>bp_vertices := vertices g, bp_log_segment_idx := log_segment_idx g,
     bp_segment_edges_actual := segment_edges_actual g, bp_segment_edges_total := segment_edges_total g,
     bp_num_vertices := num_vertices g, bp_num_edges := num_edges g, bp_elem_capacity := elem_capacity g,
     bp_segment_count := segment_count g, bp_segment_size := segment_size g, bp_tree_height := tree_height g,
     bp_backed_up := True\<rparr>"

lemma destroy_ok:
  assumes "wf_shape g" "pool_fits g p"
  shows "destroy g p = Inr (backed_up g p)"
proof -
  note w = wf_shapeD [OF assms(1)]
  show ?thesis using assms(2) w unfolding destroy_def Let_def
    by (simp add: pool_fits_def live_pool_def copy_whole backed_up_def mult.commute)
qed

text \<open>The graph an opening finds in a backed-up pool: the arrays of the backup, the rest from the pool.\<close>

definition restored :: "dgraph \<Rightarrow> pool \<Rightarrow> dgraph" where
  "restored junk p = (reopened junk (\<lambda>_. zero_vertex) (\<lambda>_. 0) p)\<lparr>vertices := bp_vertices p,
     log_segment_idx := bp_log_segment_idx p, segment_edges_actual := bp_segment_edges_actual p,
     segment_edges_total := bp_segment_edges_total p\<rparr>"

lemma reopen_backed_up:
  assumes "bp_backed_up p" "len (bp_vertices p) = bp_num_vertices p" "len (bp_log_segment_idx p) = bp_segment_count p"
    "len (bp_segment_edges_actual p) = bp_segment_count p * 2" "len (bp_segment_edges_total p) = bp_segment_count p * 2"
  shows "reopen junk mv ml p = Inr (restored junk p, p)"
proof -
  have n: "0 \<le> bp_num_vertices p" "0 \<le> bp_segment_count p"
    using assms(2,3) len_nonneg [of "bp_vertices p"] len_nonneg [of "bp_log_segment_idx p"] by simp_all
  show ?thesis using assms n unfolding reopen_def Let_def
    by (simp add: reopened_def copy_whole restored_def)
qed

text \<open>Two graphs with the same arrays, as far as reading goes.\<close>

definition same_arrays :: "dgraph \<Rightarrow> dgraph \<Rightarrow> bool" where
  "same_arrays g h \<longleftrightarrow> num_vertices h = num_vertices g \<and> num_edges h = num_edges g \<and> elem_capacity h = elem_capacity g \<and>
     segment_size h = segment_size g \<and> segment_count h = segment_count g \<and> tree_height h = tree_height g \<and>
     directed h = directed g \<and> edges h = edges g \<and> vertices h = vertices g \<and> log_ptr h = log_ptr g \<and>
     log_segment_idx h = log_segment_idx g \<and> segment_edges_actual h = segment_edges_actual g \<and>
     segment_edges_total h = segment_edges_total g"

lemma restored_same: "same_arrays g (restored junk (backed_up g p))" if "bp_directed p = directed g"
  using that by (simp add: same_arrays_def restored_def reopened_def backed_up_def live_pool_def)

lemma same_arrays_neighbors:
  assumes "same_arrays g h"
  shows "out_neighbors h v k = out_neighbors g v k"
  using assms by (simp add: same_arrays_def out_neighbors_def out_neigh_def onseg_count_def)

lemma same_arrays_vlist:
  assumes "same_arrays g h"
  shows "vlist h v = vlist g v"
  using assms by (simp add: same_arrays_def vlist_def onseg_def log_row_def seg_of_def start_def idx_def deg_def off_def)

lemma clean_reopen:
  assumes "wf_shape g" "pool_fits g p"
  shows "\<exists>q h. destroy g p = Inr q \<and> bp_backed_up q \<and> reopen junk mv ml q = Inr (h, q) \<and> same_arrays g h"
proof (intro exI conjI)
  note w = wf_shapeD [OF assms(1)]
  show "destroy g p = Inr (backed_up g p)" by (rule destroy_ok [OF assms])
  show "bp_backed_up (backed_up g p)" by (simp add: backed_up_def)
  show "reopen junk mv ml (backed_up g p) = Inr (restored junk (backed_up g p), backed_up g p)"
    by (rule reopen_backed_up) (use w in \<open>simp_all add: backed_up_def mult.commute\<close>)
  show "same_arrays g (restored junk (backed_up g p))" by (rule restored_same) (use assms(2) in \<open>simp add: pool_fits_def\<close>)
qed

text \<open>A pool that was closed once and reopened still says it is backed up while the graph changes.\<close>

lemma stale_backup:
  assumes "wf_shape g" "pool_fits g p" "reopen junk mv ml (backed_up g p) = Inr (h, q)"
    and "num_vertices g' = num_vertices g" "segment_count g' = segment_count g"
  shows "\<exists>h' q'. reopen junk' mv' ml' (live_pool g' q) = Inr (h', q') \<and> edges h' = edges g' \<and> log_ptr h' = log_ptr g' \<and>
     vertices h' = vertices g \<and> log_segment_idx h' = log_segment_idx g \<and> num_edges h' = num_edges g"
proof -
  note w = wf_shapeD [OF assms(1)]
  have "reopen junk mv ml (backed_up g p) = Inr (restored junk (backed_up g p), backed_up g p)"
    by (rule reopen_backed_up) (use w in \<open>simp_all add: backed_up_def mult.commute\<close>)
  then have q: "q = backed_up g p" using assms(3) by simp
  have "reopen junk' mv' ml' (live_pool g' q) = Inr (restored junk' (live_pool g' q), live_pool g' q)"
    by (rule reopen_backed_up) (use w in \<open>simp_all add: q live_pool_def backed_up_def mult.commute\<close>)
  then show ?thesis by (auto simp: q restored_def reopened_def live_pool_def backed_up_def)
qed

end
