(* ===== verification/DgapRecoverOk.thy ===== *)
theory DgapRecoverOk
  imports DgapReopenOk
begin

text \<open>
  The scan of \<^verbatim>\<open>recovery\<close> over an array whose vertices are separated by zero cells: it finds every index and
  degree and the counters again.
\<close>

section \<open>The array it understands\<close>

text \<open>
  No logged edge, positive targets, zeros behind the edges of a vertex, and a zero cell behind vertex 0.
\<close>

definition clean_cells :: "dgraph \<Rightarrow> bool" where
  "clean_cells g \<longleftrightarrow> idx g 0 = 0 \<and> deg g 0 < start g 1 \<and>
     (\<forall>v. 0 \<le> v \<and> v < num_vertices g \<longrightarrow> off g v = -1 \<and> cell (edges g) (idx g v) = - v \<and>
       (\<forall>i. idx g v < i \<and> i < idx g v + deg g v \<longrightarrow> 0 < cell (edges g) i) \<and>
       (\<forall>i. idx g v + deg g v \<le> i \<and> i < start g (v + 1) \<longrightarrow> cell (edges g) i = 0))"

lemma clean_cellsD:
  assumes "clean_cells g"
  shows "idx g 0 = 0" "deg g 0 < start g 1"
    "0 \<le> v \<Longrightarrow> v < num_vertices g \<Longrightarrow> off g v = -1"
    "0 \<le> v \<Longrightarrow> v < num_vertices g \<Longrightarrow> cell (edges g) (idx g v) = - v"
    "0 \<le> v \<Longrightarrow> v < num_vertices g \<Longrightarrow> idx g v < i \<Longrightarrow> i < idx g v + deg g v \<Longrightarrow> 0 < cell (edges g) i"
    "0 \<le> v \<Longrightarrow> v < num_vertices g \<Longrightarrow> idx g v + deg g v \<le> i \<Longrightarrow> i < start g (v + 1) \<Longrightarrow> cell (edges g) i = 0"
  using assms unfolding clean_cells_def by blast+

text \<open>The part of a vertex in front of cell \<open>i\<close>, and the state of the scan there.\<close>

definition clipped :: "dgraph \<Rightarrow> int \<Rightarrow> int \<Rightarrow> int" where
  "clipped g i v = max 0 (min (deg g v) (i - idx g v))"

definition scanned :: "dgraph \<Rightarrow> (int \<Rightarrow> vertex_element) \<Rightarrow> int \<Rightarrow> vertex_element list \<Rightarrow> int list \<Rightarrow> int \<Rightarrow> bool" where
  "scanned g mv i vs ac ne \<longleftrightarrow> len vs = num_vertices g \<and> len ac = 2 * segment_count g \<and>
     ne = (\<Sum>v\<in>{0..<num_vertices g}. clipped g i v) \<and>
     (\<forall>v. 0 \<le> v \<and> v < num_vertices g \<longrightarrow> cell vs v = (if idx g v < i
        then \<lparr>v_index = idx g v, v_degree = clipped g i v, v_offset = v_offset (mv v)\<rparr> else mv v)) \<and>
     (\<forall>s. 0 \<le> s \<and> s < segment_count g \<longrightarrow> cell ac (s + segment_count g) =
        (\<Sum>v\<in>{s * segment_size g..<(s + 1) * segment_size g}. clipped g i v))"

lemma layout_off:
  assumes "wf_layout g" "clean_cells g" "0 \<le> v" "v < num_vertices g"
  shows "0 \<le> idx g v" "1 \<le> deg g v" "idx g v + deg g v \<le> start g (v + 1)"
  using vertex_okD [OF wf_layoutD(2) [OF assms(1,3,4)]] clean_cellsD(3) [OF assms(2-4)] by (simp_all add: onseg_def)

lemma clipped_step:
  assumes L: "wf_layout g" and C: "clean_cells g" and v: "0 \<le> v" "v < num_vertices g" and w: "0 \<le> w" "w < num_vertices g"
    and i: "idx g v \<le> i" "i < start g (v + 1)"
  shows "clipped g (i + 1) w = clipped g i w + (if w = v \<and> i < idx g v + deg g v then 1 else 0)"
proof -
  consider "w < v" | "w = v" | "v < w" by linarith
  then show ?thesis
  proof cases
    case 1
    have "idx g w + deg g w \<le> start g (w + 1)" by (rule layout_off(3) [OF L C w])
    also have "\<dots> \<le> start g v" using 1 v w by (intro start_mono [OF L]) auto
    finally show ?thesis using 1 i(1) by (simp add: clipped_def start_idx [OF v(2)])
  next
    case 2
    then show ?thesis using i layout_off(2) [OF L C v] by (auto simp: clipped_def)
  next
    case 3
    have "start g (v + 1) \<le> start g w" using 3 v w by (intro start_mono [OF L]) auto
    then show ?thesis using 3 i(2) by (simp add: clipped_def start_idx [OF w(2)])
  qed
qed

lemma clipped_sum:
  assumes L: "wf_layout g" and C: "clean_cells g" and v: "0 \<le> v" "v < num_vertices g"
    and i: "idx g v \<le> i" "i < start g (v + 1)" and ab: "0 \<le> a" "b \<le> num_vertices g"
  shows "(\<Sum>w\<in>{a..<b}. clipped g (i + 1) w) =
    (\<Sum>w\<in>{a..<b}. clipped g i w) + (if a \<le> v \<and> v < b \<and> i < idx g v + deg g v then 1 else 0)"
proof -
  have "(\<Sum>w\<in>{a..<b}. clipped g (i + 1) w) = (\<Sum>w\<in>{a..<b}. clipped g i w + (if w = v then if i < idx g v + deg g v then 1 else 0 else 0))"
    using clipped_step [OF L C v _ _ i] ab by (intro sum.cong) auto
  then show ?thesis by (auto simp: sum.distrib)
qed

text \<open>Passing a cell that holds zero, and one that belongs to \<open>v\<close>.\<close>

lemma later_idx:
  assumes L: "wf_layout g" and C: "clean_cells g" and v: "0 \<le> v" "v < num_vertices g" and w: "0 \<le> w" "w < num_vertices g"
    and i: "idx g v \<le> i" "i < start g (v + 1)" and n: "w \<noteq> v \<or> idx g v < i"
  shows "idx g w < i + 1 \<longleftrightarrow> idx g w < i"
proof -
  consider "w < v" | "w = v" | "v < w" by linarith
  then show ?thesis
  proof cases
    case 1
    have "idx g w + deg g w \<le> start g (w + 1)" "1 \<le> deg g w" by (rule layout_off [OF L C w])+
    moreover have "start g (w + 1) \<le> start g v" using 1 v w by (intro start_mono [OF L]) auto
    ultimately show ?thesis using i(1) by (simp add: start_idx [OF v(2)])
  next
    case 2
    then show ?thesis using n i by auto
  next
    case 3
    have "start g (v + 1) \<le> start g w" using 3 v w by (intro start_mono [OF L]) auto
    then show ?thesis using i(2) by (simp add: start_idx [OF w(2)])
  qed
qed

lemma scanned_zero:
  assumes L: "wf_layout g" and C: "clean_cells g" and v: "0 \<le> v" "v < num_vertices g"
    and i: "idx g v \<le> i" "i < start g (v + 1)" and z: "idx g v + deg g v \<le> i" and S: "scanned g mv i vs ac ne"
  shows "scanned g mv (i + 1) vs ac ne"
proof -
  note w = wf_shapeD [OF wf_layoutD(1) [OF L]]
  have lt: "idx g v < i" using layout_off(2) [OF L C v] z by simp
  have b: "(s + 1) * segment_size g \<le> num_vertices g" "0 \<le> s * segment_size g" if "0 \<le> s" "s < segment_count g" for s
    unfolding w(3) using that w(1) by (auto intro: mult_right_mono)
  have "sum (clipped g (i + 1)) {s * segment_size g..<(s + 1) * segment_size g} = sum (clipped g i) {s * segment_size g..<(s + 1) * segment_size g}"
    if s: "0 \<le> s" "s < segment_count g" for s
    using clipped_sum [OF L C v i b(2) [OF s] b(1) [OF s]] z by simp
  moreover have "sum (clipped g (i + 1)) {0..<num_vertices g} = sum (clipped g i) {0..<num_vertices g}"
    using clipped_sum [OF L C v i, of 0 "num_vertices g"] z by simp
  ultimately show ?thesis using S z lt clipped_step [OF L C v _ _ i] later_idx [OF L C v _ _ i]
    by (simp add: scanned_def)
qed

lemma scanned_cell:
  assumes L: "wf_layout g" and C: "clean_cells g" and v: "0 \<le> v" "v < num_vertices g"
    and i: "idx g v \<le> i" "i < idx g v + deg g v" and S: "scanned g mv i vs ac ne"
    and x: "x = \<lparr>v_index = idx g v, v_degree = i - idx g v + 1, v_offset = v_offset (mv v)\<rparr>"
  shows "scanned g mv (i + 1) (upd vs v x)
    (upd ac (seg_of g v + segment_count g) (cell ac (seg_of g v + segment_count g) + 1)) (ne + 1)"
proof -
  note w = wf_shapeD [OF wf_layoutD(1) [OF L]]
  note sg = seg_of_range [OF wf_layoutD(1) [OF L] v]
  have i2: "i < start g (v + 1)" using i(2) layout_off(3) [OF L C v] by simp
  note st = clipped_step [OF L C v _ _ i(1) i2] and sm = clipped_sum [OF L C v i(1) i2] and lt = later_idx [OF L C v _ _ i(1) i2]
  have b: "(s + 1) * segment_size g \<le> num_vertices g" "0 \<le> s * segment_size g" if "0 \<le> s" "s < segment_count g" for s
    unfolding w(3) using that w(1) by (auto intro: mult_right_mono)
  have V: "cell (upd vs v x) u = (if idx g u < i + 1
        then \<lparr>v_index = idx g u, v_degree = clipped g (i + 1) u, v_offset = v_offset (mv u)\<rparr> else mv u)"
    if u: "0 \<le> u" "u < num_vertices g" for u
    using S u v x i st [OF u] lt [OF u] by (cases "u = v") (auto simp: scanned_def clipped_def)
  have A: "cell (upd ac (seg_of g v + segment_count g) (cell ac (seg_of g v + segment_count g) + 1)) (s + segment_count g) =
        (\<Sum>u\<in>{s * segment_size g..<(s + 1) * segment_size g}. clipped g (i + 1) u)" if s: "0 \<le> s" "s < segment_count g" for s
  proof -
    have "s = seg_of g v \<longleftrightarrow> s * segment_size g \<le> v \<and> v < (s + 1) * segment_size g"
      using seg_of_iff(1) [OF wf_layoutD(1) [OF L], of s v] seg_of_iff(2) [OF wf_layoutD(1) [OF L], of v "s + 1"] by auto
    then show ?thesis using S s sg i(2) sm [OF b(2) [OF s] b(1) [OF s]] by (auto simp: scanned_def cell_upd)
  qed
  show ?thesis using S V A sm [of 0 "num_vertices g"] v i(2) by (simp add: scanned_def)
qed

section \<open>The scan\<close>

text \<open>\<open>h\<close> with the three members that the scan changes.\<close>

definition with_scan :: "dgraph \<Rightarrow> vertex_element list \<Rightarrow> int list \<Rightarrow> int \<Rightarrow> dgraph" where
  "with_scan h vs ac ne = h\<lparr>vertices := vs, segment_edges_actual := ac, num_edges := ne\<rparr>"

lemma with_scan_fields [simp]:
  "vertices (with_scan h vs ac ne) = vs" "segment_edges_actual (with_scan h vs ac ne) = ac" "num_edges (with_scan h vs ac ne) = ne"
  "edges (with_scan h vs ac ne) = edges h" "elem_capacity (with_scan h vs ac ne) = elem_capacity h"
  "num_vertices (with_scan h vs ac ne) = num_vertices h" "segment_size (with_scan h vs ac ne) = segment_size h"
  "segment_count (with_scan h vs ac ne) = segment_count h"
  "(with_scan h vs ac ne)\<lparr>vertices := vs'\<rparr> = with_scan h vs' ac ne"
  "(with_scan h vs ac ne)\<lparr>segment_edges_actual := ac'\<rparr> = with_scan h vs ac' ne"
  "(with_scan h vs ac ne)\<lparr>num_edges := ne'\<rparr> = with_scan h vs ac ne'"
  by (simp_all add: with_scan_def)

definition same_sizes :: "dgraph \<Rightarrow> dgraph \<Rightarrow> bool" where
  "same_sizes g h \<longleftrightarrow> segment_size h = segment_size g \<and> segment_count h = segment_count g \<and>
     num_vertices h = num_vertices g \<and> elem_capacity h = elem_capacity g \<and> edges h = edges g"

lemma same_sizes_segment: "wf_shape g \<Longrightarrow> same_sizes g h \<Longrightarrow> 0 \<le> v \<Longrightarrow>
    get_segment_id (with_scan h vs ac ne) v = seg_of g v + segment_count g"
  using get_segment_id_seg_of [of g v] by (simp add: get_segment_id_def same_sizes_def)

lemma found_pivot_ok:
  assumes L: "wf_layout g" and C: "clean_cells g" and H: "same_sizes g h" and v: "0 \<le> v" "v < num_vertices g"
    and S: "scanned g mv (idx g v) vs ac ne"
  shows "\<exists>vs' ac' ne'. found_pivot v (idx g v) (with_scan h vs ac ne) = Inr (with_scan h vs' ac' ne')
     \<and> scanned g mv (idx g v + 1) vs' ac' ne'"
proof (intro exI conjI)
  note sh = wf_layoutD(1) [OF L] and sg = seg_of_range [OF wf_layoutD(1) [OF L] v]
  let ?x = "\<lparr>v_index = idx g v, v_degree = idx g v - idx g v + 1, v_offset = v_offset (mv v)\<rparr>"
  have "cell vs v = mv v" using S v by (simp add: scanned_def)
  moreover have q: "(mv v)\<lparr>v_index := idx g v, v_degree := 1\<rparr> = \<lparr>v_index = idx g v, v_degree = 1, v_offset = v_offset (mv v)\<rparr>"
    by (cases "mv v") simp
  moreover have "len vs = num_vertices g" "len ac = 2 * segment_count g" using S by (simp_all add: scanned_def)
  ultimately show "found_pivot v (idx g v) (with_scan h vs ac ne) = Inr (with_scan h (upd vs v ?x)
     (upd ac (seg_of g v + segment_count g) (cell ac (seg_of g v + segment_count g) + 1)) (ne + 1))"
    using v sg by (simp add: found_pivot_def set_vertex_def add_actual_def same_sizes_segment [OF sh H]) (simp add: q)
  show "scanned g mv (idx g v + 1) (upd vs v ?x)
     (upd ac (seg_of g v + segment_count g) (cell ac (seg_of g v + segment_count g) + 1)) (ne + 1)"
    by (rule scanned_cell [OF L C v _ _ S]) (use layout_off(2) [OF L C v] in simp_all)
qed

lemma count_cell_ok:
  assumes L: "wf_layout g" and C: "clean_cells g" and v: "0 \<le> v" "v < num_vertices g"
    and i: "idx g v < i" "i < idx g v + deg g v" and S: "scanned g mv i vs ac ne"
  shows "\<exists>vs' ac' ne'. count_cell v (seg_of g v + segment_count g) (with_scan h vs ac ne) = Inr (with_scan h vs' ac' ne')
     \<and> scanned g mv (i + 1) vs' ac' ne'"
proof (intro exI conjI)
  note sg = seg_of_range [OF wf_layoutD(1) [OF L] v]
  let ?x = "\<lparr>v_index = idx g v, v_degree = i - idx g v + 1, v_offset = v_offset (mv v)\<rparr>"
  have "cell vs v = \<lparr>v_index = idx g v, v_degree = i - idx g v, v_offset = v_offset (mv v)\<rparr>"
    using S v i by (simp add: scanned_def clipped_def)
  moreover have "len vs = num_vertices g" "len ac = 2 * segment_count g" using S by (simp_all add: scanned_def)
  ultimately show "count_cell v (seg_of g v + segment_count g) (with_scan h vs ac ne) = Inr (with_scan h (upd vs v ?x)
     (upd ac (seg_of g v + segment_count g) (cell ac (seg_of g v + segment_count g) + 1)) (ne + 1))"
    using v sg by (simp add: count_cell_def set_vertex_def add_actual_def)
  show "scanned g mv (i + 1) (upd vs v ?x)
     (upd ac (seg_of g v + segment_count g) (cell ac (seg_of g v + segment_count g) + 1)) (ne + 1)"
    by (rule scanned_cell [OF L C v _ i(2) S]) (use i in simp_all)
qed

lemma recover_first_ok:
  assumes L: "wf_layout g" and C: "clean_cells g" and n: "0 < num_vertices g" and i: "0 < i" "i \<le> deg g 0"
    and S: "scanned g mv i vs ac ne"
  shows "\<exists>vs' ac' ne'. recover_first (edges g) (seg_of g 0 + segment_count g) i (with_scan h vs ac ne)
       = Inr (with_scan h vs' ac' ne', deg g 0) \<and> scanned g mv (deg g 0) vs' ac' ne'"
  using i S
proof (induction "nat (deg g 0 - i)" arbitrary: i vs ac ne)
  case 0
  note c = clean_cellsD [OF C]
  have "start g 1 \<le> elem_capacity g" using start_le_cap [OF L, of 1] n by simp
  then have "i = deg g 0" "rd (edges g) i = Inr 0"
    using 0 c(1,2) c(6) [of 0 i] n wf_shapeD [OF wf_layoutD(1) [OF L]] by simp_all
  then show ?case using 0 by (subst recover_first.simps) auto
next
  case (Suc k)
  note c = clean_cellsD [OF C]
  have id: "i < deg g 0" using Suc.hyps(2) by simp
  have "start g 1 \<le> elem_capacity g" using start_le_cap [OF L, of 1] n by simp
  then have r: "rd (edges g) i = Inr (cell (edges g) i)" "0 < cell (edges g) i"
    using Suc.prems id c(1,2) c(5) [of 0 i] n wf_shapeD [OF wf_layoutD(1) [OF L]] by simp_all
  obtain vs1 ac1 ne1 where s1: "count_cell 0 (seg_of g 0 + segment_count g) (with_scan h vs ac ne) = Inr (with_scan h vs1 ac1 ne1)"
    "scanned g mv (i + 1) vs1 ac1 ne1"
    using count_cell_ok [OF L C _ n _ _ Suc.prems(3), of h] Suc.prems(1) id c(1) by auto
  have "\<exists>vs' ac' ne'. recover_first (edges g) (seg_of g 0 + segment_count g) (i + 1) (with_scan h vs1 ac1 ne1)
       = Inr (with_scan h vs' ac' ne', deg g 0) \<and> scanned g mv (deg g 0) vs' ac' ne'"
    by (rule Suc.hyps(1)) (use Suc.hyps(2) Suc.prems id s1 in auto)
  then show ?case using r s1(1) by (subst recover_first.simps) simp
qed

lemma recover_scan_ok:
  assumes L: "wf_layout g" and C: "clean_cells g" and H: "same_sizes g h"
    and v: "0 \<le> v" "v < num_vertices g" "idx g v < i" "i \<le> start g (v + 1)" and S: "scanned g mv i vs ac ne"
  shows "\<exists>w sg vs' ac' ne'. recover_scan (edges g) (elem_capacity g) i (v, seg_of g v + segment_count g, with_scan h vs ac ne)
       = Inr (w, sg, with_scan h vs' ac' ne') \<and> scanned g mv (elem_capacity g) vs' ac' ne'"
  using v S
proof (induction "nat (elem_capacity g - i)" arbitrary: i v vs ac ne)
  case 0
  have "start g (v + 1) \<le> elem_capacity g" using start_le_cap [OF L, of "v + 1"] 0 by simp
  then have "i = elem_capacity g" using 0 by simp
  then show ?case using 0 by (subst recover_scan.simps) auto
next
  case (Suc k)
  note c = clean_cellsD [OF C] and w = wf_shapeD [OF wf_layoutD(1) [OF L]] and v = Suc.prems(1,2)
  have i: "0 \<le> i" "i < elem_capacity g" using Suc.hyps(2) Suc.prems layout_off(1) [OF L C v] by simp_all
  have "\<exists>v1 vs1 ac1 ne1. recover_cell i (cell (edges g) i) (v, seg_of g v + segment_count g, with_scan h vs ac ne)
      = Inr (v1, seg_of g v1 + segment_count g, with_scan h vs1 ac1 ne1) \<and> scanned g mv (i + 1) vs1 ac1 ne1 \<and>
      0 \<le> v1 \<and> v1 < num_vertices g \<and> idx g v1 < i + 1 \<and> i + 1 \<le> start g (v1 + 1)"
  proof (cases "i = start g (v + 1)")
    case True
    then have v1: "v + 1 < num_vertices g" "idx g (v + 1) = i" "0 \<le> v + 1" using i v by (auto simp: start_def split: if_splits)
    have e: "cell (edges g) i = - (v + 1)" using c(4) [of "v + 1"] v1 by simp
    obtain vs1 ac1 ne1 where "found_pivot (v + 1) i (with_scan h vs ac ne) = Inr (with_scan h vs1 ac1 ne1)" "scanned g mv (i + 1) vs1 ac1 ne1"
      using found_pivot_ok [OF L C H v1(3,1)] Suc.prems(5) v1(2) by metis
    then show ?thesis using v v1 e layout_off [OF L C v1(3,1)] same_sizes_segment [OF wf_layoutD(1) [OF L] H, of "v + 1"]
      by (auto simp: recover_cell_def add.commute)
  next
    case False
    then have lt: "i < start g (v + 1)" using Suc.prems by simp
    show ?thesis
    proof (cases "i < idx g v + deg g v")
      case True
      have e: "0 < cell (edges g) i" using c(5) [OF v Suc.prems(3) True] .
      obtain vs1 ac1 ne1 where "count_cell v (seg_of g v + segment_count g) (with_scan h vs ac ne) = Inr (with_scan h vs1 ac1 ne1)"
        "scanned g mv (i + 1) vs1 ac1 ne1"
        using count_cell_ok [OF L C v Suc.prems(3) True Suc.prems(5)] by blast
      then show ?thesis using e v lt Suc.prems by (auto simp: recover_cell_def)
    next
      case False
      then have "cell (edges g) i = 0" using c(6) [OF v _ lt] by simp
      moreover have "scanned g mv (i + 1) vs ac ne" by (rule scanned_zero [OF L C v _ lt _ Suc.prems(5)]) (use False Suc.prems in auto)
      ultimately show ?thesis using v lt Suc.prems by (auto simp: recover_cell_def)
    qed
  qed
  then obtain v1 vs1 ac1 ne1 where s1: "recover_cell i (cell (edges g) i) (v, seg_of g v + segment_count g, with_scan h vs ac ne)
      = Inr (v1, seg_of g v1 + segment_count g, with_scan h vs1 ac1 ne1)" "scanned g mv (i + 1) vs1 ac1 ne1"
      "0 \<le> v1" "v1 < num_vertices g" "idx g v1 < i + 1" "i + 1 \<le> start g (v1 + 1)" by blast
  have "\<exists>w sg vs' ac' ne'. recover_scan (edges g) (elem_capacity g) (i + 1) (v1, seg_of g v1 + segment_count g, with_scan h vs1 ac1 ne1)
       = Inr (w, sg, with_scan h vs' ac' ne') \<and> scanned g mv (elem_capacity g) vs' ac' ne'"
    by (rule Suc.hyps(1)) (use Suc.hyps(2) s1 in auto)
  then show ?case using i s1(1) w(5) by (subst recover_scan.simps) simp
qed

lemma scanned_start:
  assumes L: "wf_layout g" and C: "clean_cells g"
  shows "scanned g mv 0 (map (mv \<circ> int) [0..<nat (num_vertices g)]) (replicate (nat (segment_count g * 2)) 0) 0"
proof -
  note w = wf_shapeD [OF wf_layoutD(1) [OF L]]
  have n: "0 \<le> num_vertices g" using w by simp
  have z: "clipped g 0 v = 0" if "0 \<le> v" "v < num_vertices g" for v using layout_off(1) [OF L C that] by (simp add: clipped_def)
  have b: "(s + 1) * segment_size g \<le> num_vertices g" "0 \<le> s * segment_size g" if "0 \<le> s" "s < segment_count g" for s
    unfolding w(3) using that w(1) by (auto intro: mult_right_mono)
  have "(\<Sum>v\<in>{s * segment_size g..<(s + 1) * segment_size g}. clipped g 0 v) = 0" if "0 \<le> s" "s < segment_count g" for s
    using z b [OF that] by (intro sum.neutral) auto
  moreover have "cell (map (mv \<circ> int) [0..<nat (num_vertices g)]) v = mv v" if "0 \<le> v" "v < num_vertices g" for v
    using that by (simp add: cell_def)
  moreover have "\<not> idx g v < 0" if "0 \<le> v" "v < num_vertices g" for v using layout_off(1) [OF L C that] by simp
  ultimately show ?thesis using z n w(2) by (auto simp: scanned_def)
qed

lemma scanned_all:
  assumes L: "wf_layout g" and C: "clean_cells g" and S: "scanned g mv (elem_capacity g) vs ac ne"
  shows "len vs = num_vertices g" "len ac = 2 * segment_count g" "ne = degsum g 0 (num_vertices g)"
    "0 \<le> v \<Longrightarrow> v < num_vertices g \<Longrightarrow> cell vs v = \<lparr>v_index = idx g v, v_degree = deg g v, v_offset = v_offset (mv v)\<rparr>"
    "0 \<le> s \<Longrightarrow> s < segment_count g \<Longrightarrow>
       cell ac (s + segment_count g) = degsum g (s * segment_size g) ((s + 1) * segment_size g)"
proof -
  note w = wf_shapeD [OF wf_layoutD(1) [OF L]]
  have full: "clipped g (elem_capacity g) v = deg g v \<and> idx g v < elem_capacity g" if "0 \<le> v" "v < num_vertices g" for v
  proof -
    have "start g (v + 1) \<le> elem_capacity g" using start_le_cap [OF L, of "v + 1"] that by simp
    then show ?thesis using layout_off [OF L C that] by (simp add: clipped_def)
  qed
  have b: "(s + 1) * segment_size g \<le> num_vertices g" "0 \<le> s * segment_size g" if "0 \<le> s" "s < segment_count g" for s
    unfolding w(3) using that w(1) by (auto intro: mult_right_mono)
  show "len vs = num_vertices g" "len ac = 2 * segment_count g" using S by (simp_all add: scanned_def)
  show "ne = degsum g 0 (num_vertices g)" using S full by (auto simp: scanned_def degsum_def intro!: sum.cong)
  show "cell vs v = \<lparr>v_index = idx g v, v_degree = deg g v, v_offset = v_offset (mv v)\<rparr>" if "0 \<le> v" "v < num_vertices g"
    using S full [OF that] that by (simp add: scanned_def)
  show "cell ac (s + segment_count g) = degsum g (s * segment_size g) ((s + 1) * segment_size g)" if s: "0 \<le> s" "s < segment_count g"
  proof -
    have "cell ac (s + segment_count g) = (\<Sum>v\<in>{s * segment_size g..<(s + 1) * segment_size g}. clipped g (elem_capacity g) v)"
      using S s by (simp add: scanned_def)
    also have "\<dots> = degsum g (s * segment_size g) ((s + 1) * segment_size g)"
      unfolding degsum_def using full b [OF s] by (intro sum.cong) auto
    finally show ?thesis .
  qed
qed

section \<open>The segment totals and the logs\<close>

text \<open>The totals do not depend on the members the constructor has not set.\<close>

lemma recount_total_commute:
  "recount_total_range (g\<lparr>leaf_segments := l, log_segment_idx := m\<rparr>) a b =
     sbind (recount_total_range g a b) (\<lambda>h. Inr (h\<lparr>leaf_segments := l, log_segment_idx := m\<rparr>))"
proof (induction g a b rule: recount_total_range.induct)
  case (1 g i b)
  have t: "segment_total_of (g\<lparr>leaf_segments := l, log_segment_idx := m\<rparr>) i = segment_total_of g i" by (simp add: segment_total_of_def)
  have c: "g\<lparr>leaf_segments := l, log_segment_idx := m, segment_edges_total := xs\<rparr> =
    g\<lparr>segment_edges_total := xs, leaf_segments := l, log_segment_idx := m\<rparr>" for xs by simp
  show ?case
  proof (cases "i < b")
    case True
    show ?thesis
    proof (cases "segment_total_of g i")
      case (Inr p)
      show ?thesis
      proof (cases "wr (segment_edges_total g) (i + segment_count g) p")
        case (Inr xs)
        then show ?thesis using 1 [OF True \<open>segment_total_of g i = Inr p\<close> Inr] True \<open>segment_total_of g i = Inr p\<close> t
          by (subst (1 2) recount_total_range.simps) (simp add: c)
      qed (use True \<open>segment_total_of g i = Inr p\<close> t in \<open>subst (1 2) recount_total_range.simps, simp\<close>)
    qed (use True t in \<open>subst (1 2) recount_total_range.simps, simp\<close>)
  qed (subst (1 2) recount_total_range.simps, simp)
qed

text \<open>An entry the scan of a log takes for written, and the number of those in front.\<close>

definition complete :: "LogEntry \<Rightarrow> bool" where
  "complete e \<longleftrightarrow> le_u e \<noteq> 0 \<and> le_v e \<noteq> 0 \<and> le_prev e \<noteq> 0"

definition leading :: "LogEntry list \<Rightarrow> int" where
  "leading entries = len (takeWhile complete entries)"

lemma takeWhile_drop_Cons: "i < length xs \<Longrightarrow> takeWhile P (drop i xs) = (if P (xs ! i) then xs ! i # takeWhile P (drop (Suc i) xs) else [])"
  by (simp add: Cons_nth_drop_Suc [symmetric])

lemma recover_log_idx_from:
  assumes "len entries = MAX_LOG_ENTRIES" "0 \<le> i" "i \<le> MAX_LOG_ENTRIES"
  shows "recover_log_idx entries i n = Inr (let k = len (takeWhile complete (drop (nat i) entries)) in if k = 0 then n else i + k - 1)"
  using assms
proof (induction entries i n rule: recover_log_idx.induct)
  case (1 entries i n)
  show ?case
  proof (cases "i < MAX_LOG_ENTRIES")
    case True
    let ?e = "cell entries i"
    have r: "rd entries i = Inr ?e" using True 1 by simp
    have len_i: "nat i < length entries" using True 1 by (simp add: len_def nat_less_iff)
    have nth: "entries ! nat i = ?e" by (simp add: cell_def)
    have s: "nat (i + 1) = Suc (nat i)" using 1 by simp
    show ?thesis
    proof (cases "complete ?e")
      case True
      have c: "le_u ?e \<noteq> 0 \<and> le_v ?e \<noteq> 0 \<and> le_prev ?e \<noteq> 0" using True by (simp add: complete_def)
      have "recover_log_idx entries (i + 1) i = Inr (let k = len (takeWhile complete (drop (nat (i + 1)) entries)) in if k = 0 then i else i + 1 + k - 1)"
        by (rule 1(1) [OF \<open>i < MAX_LOG_ENTRIES\<close> r c]) (use 1 \<open>i < MAX_LOG_ENTRIES\<close> in simp_all)
      then show ?thesis using True c r \<open>i < MAX_LOG_ENTRIES\<close>
        by (subst recover_log_idx.simps) (auto simp: takeWhile_drop_Cons [OF len_i] nth s Let_def len_def)
    next
      case False
      then show ?thesis using r \<open>i < MAX_LOG_ENTRIES\<close>
        by (subst recover_log_idx.simps) (auto simp: takeWhile_drop_Cons [OF len_i] nth complete_def Let_def len_def)
    qed
  next
    case False
    then show ?thesis using 1 by (subst recover_log_idx.simps) (simp add: len_def Let_def)
  qed
qed

lemma recover_logs_from:
  assumes "0 \<le> sid" "len (log_ptr g) = segment_count g" "len (log_segment_idx g) = segment_count g"
    and "\<forall>s. 0 \<le> s \<and> s < segment_count g \<longrightarrow> len (cell (log_ptr g) s) = MAX_LOG_ENTRIES"
  shows "\<exists>li. recover_logs sid g = Inr (g\<lparr>log_segment_idx := li\<rparr>) \<and> len li = segment_count g \<and>
    (\<forall>s. 0 \<le> s \<and> s < segment_count g \<longrightarrow> cell li s =
       (if s < sid \<or> leading (cell (log_ptr g) s) = 0 then cell (log_segment_idx g) s else leading (cell (log_ptr g) s) - 1))"
  using assms
proof (induction "nat (segment_count g - sid)" arbitrary: sid g)
  case 0
  then show ?case by (subst recover_logs.simps) (auto intro!: exI [of _ "log_segment_idx g"])
next
  case (Suc k)
  have lt: "sid < segment_count g" using Suc.hyps(2) by simp
  define x where "x = (if leading (cell (log_ptr g) sid) = 0 then cell (log_segment_idx g) sid else leading (cell (log_ptr g) sid) - 1)"
  define g1 where "g1 = g\<lparr>log_segment_idx := upd (log_segment_idx g) sid x\<rparr>"
  have x: "recover_log_idx (cell (log_ptr g) sid) 0 (cell (log_segment_idx g) sid) = Inr x"
    using recover_log_idx_from [of "cell (log_ptr g) sid" 0] Suc.prems lt by (simp add: x_def leading_def Let_def MAX_LOG_ENTRIES_def)
  have "\<exists>li. recover_logs (sid + 1) g1 = Inr (g1\<lparr>log_segment_idx := li\<rparr>) \<and> len li = segment_count g1 \<and>
    (\<forall>s. 0 \<le> s \<and> s < segment_count g1 \<longrightarrow> cell li s =
       (if s < sid + 1 \<or> leading (cell (log_ptr g1) s) = 0 then cell (log_segment_idx g1) s else leading (cell (log_ptr g1) s) - 1))"
    by (rule Suc.hyps(1)) (use Suc.hyps(2) Suc.prems in \<open>simp_all add: g1_def\<close>)
  then obtain li where li: "recover_logs (sid + 1) g1 = Inr (g\<lparr>log_segment_idx := li\<rparr>)" "len li = segment_count g"
    "\<forall>s. 0 \<le> s \<and> s < segment_count g \<longrightarrow> cell li s = (if s < sid + 1 \<or> leading (cell (log_ptr g) s) = 0
        then cell (upd (log_segment_idx g) sid x) s else leading (cell (log_ptr g) s) - 1)"
    by (auto simp: g1_def)
  have "recover_logs sid g = Inr (g\<lparr>log_segment_idx := li\<rparr>)"
    using lt Suc.prems x li(1) by (subst recover_logs.simps) (simp add: g1_def)
  moreover have "cell li s = (if s < sid \<or> leading (cell (log_ptr g) s) = 0 then cell (log_segment_idx g) s else leading (cell (log_ptr g) s) - 1)"
    if "0 \<le> s" "s < segment_count g" for s
    using li(3) that Suc.prems lt by (cases "s = sid") (auto simp: x_def)
  ultimately show ?case using li(2) by blast
qed

text \<open>The totals, whatever the members the constructor has not set hold.\<close>

lemma recount_after_scan:
  assumes L: "wf_layout g" and H: "same_sizes g h" "len (log_ptr h) = segment_count g" "len (segment_edges_total h) = 2 * segment_count g"
    and A: "len vs = num_vertices g" "len ac = 2 * segment_count g"
    and V: "\<And>v. 0 \<le> v \<Longrightarrow> v < num_vertices g \<Longrightarrow> v_index (cell vs v) = idx g v"
    and R: "\<forall>s. 0 \<le> s \<and> s < segment_count g \<longrightarrow> len (cell (log_ptr h) s) = MAX_LOG_ENTRIES"
  shows "\<exists>ts. recount_segment_total (with_scan h vs ac ne) = Inr (with_scan h vs ac ne\<lparr>segment_edges_total := ts\<rparr>) \<and>
    (\<forall>i. 0 \<le> i \<and> i < segment_count g \<longrightarrow> cell ts (i + segment_count g) = start g ((i + 1) * segment_size g) - start g (i * segment_size g))"
proof -
  note w = wf_shapeD [OF wf_layoutD(1) [OF L]]
  let ?h = "with_scan h vs ac ne\<lparr>segment_edges_total := replicate (nat (segment_count h * 2)) 0\<rparr>"
  let ?k = "?h\<lparr>leaf_segments := leaf_segments g, log_segment_idx := replicate (nat (segment_count g)) 0\<rparr>"
  have hs: "segment_size h = segment_size g" "segment_count h = segment_count g" "num_vertices h = num_vertices g"
    "elem_capacity h = elem_capacity g" "edges h = edges g" using H(1) by (auto simp: same_sizes_def)
  have "wf_shape ?k" using w hs H A R by (simp add: wf_shape_def with_scan_def MAX_LOG_ENTRIES_def cell_replicate_int)
  then obtain ts where ts: "recount_total_range ?k 0 (segment_count g) = Inr (?k\<lparr>segment_edges_total := ts\<rparr>)"
    "\<forall>i. 0 \<le> i \<longrightarrow> cell ts (i + segment_count g) = (if 0 \<le> i \<and> i < segment_count g
       then start ?k ((i + 1) * segment_size g) - start ?k (i * segment_size g) else cell (segment_edges_total ?k) (i + segment_count g))"
    using recount_total_range_ok [of ?k 0 "segment_count g"] w by (auto simp: hs)
  have st: "start ?k v = start g v" if "0 \<le> v" for v
    using V [OF that] that by (auto simp: start_def idx_def hs)
  define k where "k = ?k"
  have "?h = k\<lparr>leaf_segments := leaf_segments h, log_segment_idx := log_segment_idx h\<rparr>" by (simp add: k_def with_scan_def)
  moreover have "recount_total_range (k\<lparr>leaf_segments := leaf_segments h, log_segment_idx := log_segment_idx h\<rparr>) 0 (segment_count g)
      = Inr (?h\<lparr>segment_edges_total := ts\<rparr>)"
    unfolding recount_total_commute ts(1) [folded k_def] by (simp add: k_def with_scan_def)
  ultimately have "recount_total_range ?h 0 (segment_count g) = Inr (?h\<lparr>segment_edges_total := ts\<rparr>)" by (simp only:)
  then have "recount_segment_total (with_scan h vs ac ne) = Inr (with_scan h vs ac ne\<lparr>segment_edges_total := ts\<rparr>)"
    by (simp add: recount_segment_total_def hs)
  moreover have "cell ts (i + segment_count g) = start g ((i + 1) * segment_size g) - start g (i * segment_size g)"
    if i: "0 \<le> i" "i < segment_count g" for i
  proof -
    have "0 \<le> (i + 1) * segment_size g" "0 \<le> i * segment_size g" using i w(1) by simp_all
    then show ?thesis using ts(2) i st by simp
  qed
  ultimately show ?thesis by blast
qed

section \<open>Recovery as a whole\<close>

text \<open>What is right again in \<open>h\<close> after a crash of \<open>g\<close>, and what is not.\<close>

definition recovered :: "dgraph \<Rightarrow> (int \<Rightarrow> vertex_element) \<Rightarrow> (int \<Rightarrow> int) \<Rightarrow> dgraph \<Rightarrow> bool" where
  "recovered g mv ml h \<longleftrightarrow> edges h = edges g \<and> log_ptr h = log_ptr g \<and> num_vertices h = num_vertices g \<and>
     elem_capacity h = elem_capacity g \<and> num_edges h = degsum g 0 (num_vertices g) \<and> len (vertices h) = num_vertices g \<and>
     (\<forall>v. 0 \<le> v \<and> v < num_vertices g \<longrightarrow> idx h v = idx g v \<and> deg h v = deg g v \<and> off h v = v_offset (mv v)) \<and>
     (\<forall>s. 0 \<le> s \<and> s < segment_count g \<longrightarrow>
        cell (segment_edges_actual h) (s + segment_count g) = degsum g (s * segment_size g) ((s + 1) * segment_size g) \<and>
        cell (segment_edges_total h) (s + segment_count g) = start g ((s + 1) * segment_size g) - start g (s * segment_size g) \<and>
        cell (log_segment_idx h) s = (if leading (cell (log_ptr g) s) = 0 then ml s else leading (cell (log_ptr g) s) - 1))"

lemma recovery_ok:
  assumes L: "wf_layout g" and C: "clean_cells g" and P: "pool_fits g p" "bp_backed_up p = False"
  shows "\<exists>h. reopen junk mv ml (live_pool g p) = Inr (h, (live_pool g p)\<lparr>bp_num_edges := num_edges h\<rparr>) \<and> recovered g mv ml h"
proof -
  note sh = wf_layoutD(1) [OF L]
  note w = wf_shapeD [OF sh] and c = clean_cellsD [OF C]
  have n: "0 < num_vertices g" using w(1-3) by simp
  define h0 where "h0 = reopened junk mv ml (live_pool g p)"
  let ?vs = "map (mv \<circ> int) [0..<nat (num_vertices g)]" and ?ac = "replicate (nat (segment_count g * 2)) (0::int)"
  have hs: "num_vertices h0 = num_vertices g" "segment_count h0 = segment_count g" "segment_size h0 = segment_size g"
    "elem_capacity h0 = elem_capacity g" "edges h0 = edges g" "log_ptr h0 = log_ptr g" "vertices h0 = ?vs" "segment_edges_actual h0 = ?ac"
    "log_segment_idx h0 = map (ml \<circ> int) [0..<nat (segment_count g)]" "len (segment_edges_total h0) = 2 * segment_count g"
    using P w(2) by (auto simp: h0_def reopened_def live_pool_def pool_fits_def)
  have H: "same_sizes g h0" by (simp add: same_sizes_def hs)
  have h0: "h0\<lparr>num_edges := 0\<rparr> = with_scan h0 ?vs ?ac 0" using hs by (simp add: with_scan_def flip: hs(7,8))
  have e0: "rd (edges g) 0 = Inr 0"
    using c(1,2) c(4) [of 0] n w(5) layout_off(2) [OF L C _ n] start_le_cap [OF L, of 1] by simp
  have s0: "seg_of g 0 = 0" by (simp add: seg_of_def)
  obtain vs1 ac1 ne1 where S1: "found_pivot 0 0 (with_scan h0 ?vs ?ac 0) = Inr (with_scan h0 vs1 ac1 ne1)" "scanned g mv 1 vs1 ac1 ne1"
    using found_pivot_ok [OF L C H, of 0 mv ?vs ?ac 0] n c(1) scanned_start [OF L C] by auto
  obtain vs2 ac2 ne2 where S2: "recover_first (edges g) (seg_of g 0 + segment_count g) 1 (with_scan h0 vs1 ac1 ne1)
      = Inr (with_scan h0 vs2 ac2 ne2, deg g 0)" "scanned g mv (deg g 0) vs2 ac2 ne2"
    using recover_first_ok [OF L C n _ _ S1(2), of h0] layout_off(2) [OF L C _ n] by auto
  obtain x sg vs3 ac3 ne3 where S3: "recover_scan (edges g) (elem_capacity g) (deg g 0) (0, seg_of g 0 + segment_count g, with_scan h0 vs2 ac2 ne2)
      = Inr (x, sg, with_scan h0 vs3 ac3 ne3)" "scanned g mv (elem_capacity g) vs3 ac3 ne3"
    using recover_scan_ok [OF L C H _ n, of "deg g 0"] layout_off(2) [OF L C _ n] c(1,2) S2(2) by fastforce
  note A = scanned_all [OF L C S3(2)]
  have R: "\<forall>s. 0 \<le> s \<and> s < segment_count g \<longrightarrow> len (cell (log_ptr h0) s) = MAX_LOG_ENTRIES" using wf_shape_rows(1) [OF sh] by (simp add: hs)
  obtain ts where T: "recount_segment_total (with_scan h0 vs3 ac3 ne3) = Inr (with_scan h0 vs3 ac3 ne3\<lparr>segment_edges_total := ts\<rparr>)"
    "\<forall>i. 0 \<le> i \<and> i < segment_count g \<longrightarrow> cell ts (i + segment_count g) = start g ((i + 1) * segment_size g) - start g (i * segment_size g)"
    using recount_after_scan [OF L H _ hs(10) A(1,2) _ R, of ne3] A(4) w(6) by (auto simp: hs)
  let ?h = "with_scan h0 vs3 ac3 ne3\<lparr>segment_edges_total := ts\<rparr>"
  have lr: "log_ptr ?h = log_ptr g" "segment_count ?h = segment_count g" "log_segment_idx ?h = map (ml \<circ> int) [0..<nat (segment_count g)]"
    by (simp_all add: with_scan_def hs)
  obtain li where li: "recover_logs 0 ?h = Inr (?h\<lparr>log_segment_idx := li\<rparr>)"
    "\<forall>s. 0 \<le> s \<and> s < segment_count g \<longrightarrow> cell li s = (if leading (cell (log_ptr g) s) = 0 then ml s else leading (cell (log_ptr g) s) - 1)"
    using recover_logs_from [of 0 ?h] wf_shape_rows(1) [OF sh] w(2,6) unfolding lr by (auto simp: cell_def)
  have "recovery h0 = Inr (?h\<lparr>log_segment_idx := li\<rparr>)"
    unfolding recovery_def Let_def h0
    using e0 S1(1) S2(1) S3(1) T(1) li(1) same_sizes_segment [OF sh H, of 0] by (simp add: hs)
  then have "reopen junk mv ml (live_pool g p) = Inr (?h\<lparr>log_segment_idx := li\<rparr>, (live_pool g p)\<lparr>bp_num_edges := num_edges (?h\<lparr>log_segment_idx := li\<rparr>)\<rparr>)"
    using P(2) unfolding reopen_def Let_def h0_def [symmetric] by (simp add: live_pool_def)
  moreover have "recovered g mv ml (?h\<lparr>log_segment_idx := li\<rparr>)"
    using A T(2) li(2) by (simp add: recovered_def hs with_scan_def idx_def deg_def off_def)
  ultimately show ?thesis by blast
qed

section \<open>What recovery never restores\<close>

text \<open>The log offsets of the vertices and the logs, which no step of the scan changes.\<close>

definition logs_kept :: "dgraph \<Rightarrow> dgraph \<Rightarrow> bool" where
  "logs_kept g h \<longleftrightarrow> map v_offset (vertices h) = map v_offset (vertices g) \<and> log_ptr h = log_ptr g \<and>
     log_segment_idx h = log_segment_idx g \<and> segment_count h = segment_count g"

lemma logs_kept_refl [simp]: "logs_kept g g"
  by (simp add: logs_kept_def)

lemma logs_kept_trans: "logs_kept g h \<Longrightarrow> logs_kept h k \<Longrightarrow> logs_kept g k"
  by (simp add: logs_kept_def)

lemma map_upd_same: "f x = f (cell xs v) \<Longrightarrow> map f (upd xs v x) = map f xs"
proof (rule nth_equalityI)
  fix i assume a: "f x = f (cell xs v)" "i < length (map f (upd xs v x))"
  then show "map f (upd xs v x) ! i = map f xs ! i" by (cases "i = nat v") (simp_all add: upd_def cell_def)
qed (simp add: upd_def)

lemma logs_kept_set_vertex: "set_vertex g v x = Inr h \<Longrightarrow> v_offset x = v_offset (cell (vertices g) v) \<Longrightarrow> logs_kept g h"
  by (auto simp: set_vertex_def sbind_Inr_iff wr_Inr_iff logs_kept_def map_upd_same)

lemma logs_kept_add_actual: "add_actual g s d = Inr h \<Longrightarrow> logs_kept g h"
  by (auto simp: add_actual_def sbind_Inr_iff logs_kept_def)

lemma logs_kept_count: "count_cell v s g = Inr h \<Longrightarrow> logs_kept g h"
proof -
  assume "count_cell v s g = Inr h"
  then obtain x g1 g2 where f: "rd (vertices g) v = Inr x" "set_vertex g v (x\<lparr>v_degree := v_degree x + 1\<rparr>) = Inr g1"
    "add_actual g1 s 1 = Inr g2" "h = g2\<lparr>num_edges := num_edges g2 + 1\<rparr>"
    by (auto simp: count_cell_def sbind_Inr_iff)
  have "logs_kept g g1" using logs_kept_set_vertex [OF f(2)] f(1) by (simp add: rd_Inr_iff)
  moreover have "logs_kept g1 g2" by (rule logs_kept_add_actual [OF f(3)])
  moreover have "logs_kept g2 h" unfolding f(4) by (simp add: logs_kept_def)
  ultimately show "logs_kept g h" by (blast intro: logs_kept_trans)
qed

lemma logs_kept_pivot: "found_pivot v i g = Inr h \<Longrightarrow> logs_kept g h"
proof -
  assume "found_pivot v i g = Inr h"
  then obtain x g1 g2 where f: "rd (vertices g) v = Inr x" "set_vertex g v (x\<lparr>v_index := i, v_degree := 1\<rparr>) = Inr g1"
    "add_actual g1 (get_segment_id g1 v) 1 = Inr g2" "h = g2\<lparr>num_edges := num_edges g2 + 1\<rparr>"
    by (auto simp: found_pivot_def sbind_Inr_iff)
  have "logs_kept g g1" using logs_kept_set_vertex [OF f(2)] f(1) by (simp add: rd_Inr_iff)
  moreover have "logs_kept g1 g2" by (rule logs_kept_add_actual [OF f(3)])
  moreover have "logs_kept g2 h" unfolding f(4) by (simp add: logs_kept_def)
  ultimately show "logs_kept g h" by (blast intro: logs_kept_trans)
qed

lemma logs_kept_first: "recover_first es s i g = Inr (h, j) \<Longrightarrow> logs_kept g h"
proof (induction es s i g rule: recover_first.induct)
  case (1 es s i g)
  from "1.prems" obtain e where e: "rd es i = Inr e" by (subst (asm) recover_first.simps) (auto simp: sbind_Inr_iff)
  show ?case
  proof (cases "e = 0")
    case True
    then show ?thesis using "1.prems" e by (subst (asm) recover_first.simps) simp
  next
    case False
    then obtain g1 where g1: "count_cell 0 s g = Inr g1" "recover_first es s (i + 1) g1 = Inr (h, j)"
      using "1.prems" e by (subst (asm) recover_first.simps) (auto simp: sbind_Inr_iff)
    show ?thesis using logs_kept_count [OF g1(1)] "1.IH" [OF e False g1] by (rule logs_kept_trans)
  qed
qed

lemma logs_kept_cell: "recover_cell i e s = Inr s' \<Longrightarrow> logs_kept (snd (snd s)) (snd (snd s'))"
  by (cases s) (auto simp: recover_cell_def sbind_Inr_iff intro: logs_kept_pivot logs_kept_count split: if_splits)

lemma logs_kept_scan: "recover_scan es n i s = Inr s' \<Longrightarrow> logs_kept (snd (snd s)) (snd (snd s'))"
proof (induction es n i s rule: recover_scan.induct)
  case (1 es n i s)
  show ?case
  proof (cases "i < n")
    case True
    then obtain e s1 where e: "rd es i = Inr e" "recover_cell i e s = Inr s1" "recover_scan es n (i + 1) s1 = Inr s'"
      using "1.prems" by (subst (asm) recover_scan.simps) (auto simp: sbind_Inr_iff)
    show ?thesis using logs_kept_cell [OF e(2)] "1.IH" [OF True e] by (rule logs_kept_trans)
  next
    case False
    then show ?thesis using "1.prems" by (subst (asm) recover_scan.simps) simp
  qed
qed

lemma logs_kept_total: "recount_total_range g i n = Inr h \<Longrightarrow> logs_kept g h"
proof (induction g i n rule: recount_total_range.induct)
  case (1 g i n)
  show ?case
  proof (cases "i < n")
    case True
    then obtain p xs where e: "segment_total_of g i = Inr p" "wr (segment_edges_total g) (i + segment_count g) p = Inr xs"
      "recount_total_range (g\<lparr>segment_edges_total := xs\<rparr>) (i + 1) n = Inr h"
      using "1.prems" by (subst (asm) recount_total_range.simps) (auto simp: sbind_Inr_iff)
    have "logs_kept g (g\<lparr>segment_edges_total := xs\<rparr>)" by (simp add: logs_kept_def)
    then show ?thesis using "1.IH" [OF True e] by (rule logs_kept_trans)
  next
    case False
    then show ?thesis using "1.prems" by (subst (asm) recount_total_range.simps) simp
  qed
qed

text \<open>After a crash, of any graph: log offsets from \<^verbatim>\<open>malloc\<close>, log lengths one too short or from \<^verbatim>\<open>malloc\<close>.\<close>

lemma recovery_logs:
  assumes r: "recovery g = Inr h" and l: "len (log_ptr g) = segment_count g" "len (log_segment_idx g) = segment_count g"
    and m: "\<forall>s. 0 \<le> s \<and> s < segment_count g \<longrightarrow> len (cell (log_ptr g) s) = MAX_LOG_ENTRIES"
  shows "map v_offset (vertices h) = map v_offset (vertices g)" "log_ptr h = log_ptr g"
    "\<forall>s. 0 \<le> s \<and> s < segment_count g \<longrightarrow> cell (log_segment_idx h) s =
       (if leading (cell (log_ptr g) s) = 0 then cell (log_segment_idx g) s else leading (cell (log_ptr g) s) - 1)"
proof -
  define b where "b e = (if e = (0::int) then sbind (found_pivot 0 0 (g\<lparr>num_edges := 0\<rparr>)) (\<lambda>g.
          sbind (recover_first (edges g) (get_segment_id g 0) 1 g) (\<lambda>(g, st). Inr (st, get_segment_id g 0, g)))
         else Inr (0, 0, g\<lparr>num_edges := 0\<rparr>))" for e
  obtain e st sg g1 where 1: "b e = Inr (st, sg, g1)" and
    r2: "sbind (recover_scan (edges g1) (elem_capacity g1) st (0, sg, g1)) (\<lambda>(vid, seg_id, g). sbind (recount_segment_total g) (recover_logs 0)) = Inr h"
    using r unfolding recovery_def Let_def b_def [symmetric] by (auto simp: sbind_Inr_iff)
  obtain vid sg' g2 g3 where 2: "recover_scan (edges g1) (elem_capacity g1) st (0, sg, g1) = Inr (vid, sg', g2)" and
    3: "recount_segment_total g2 = Inr g3" and 4: "recover_logs 0 g3 = Inr h"
    using r2 by (auto simp: sbind_Inr_iff)
  have "logs_kept g (g\<lparr>num_edges := 0\<rparr>)" by (simp add: logs_kept_def)
  moreover have "logs_kept (g\<lparr>num_edges := 0\<rparr>) g1"
    using 1 by (auto simp: b_def sbind_Inr_iff split: if_splits intro: logs_kept_trans [OF logs_kept_pivot logs_kept_first])
  moreover have "logs_kept g1 g2" using logs_kept_scan [OF 2] by simp
  moreover have "logs_kept g2 g3"
    using logs_kept_trans [OF _ logs_kept_total [OF 3 [unfolded recount_segment_total_def]]] by (simp add: logs_kept_def)
  ultimately have K: "logs_kept g g3" by (blast intro: logs_kept_trans)
  then have k: "log_ptr g3 = log_ptr g" "log_segment_idx g3 = log_segment_idx g" "segment_count g3 = segment_count g"
    by (simp_all add: logs_kept_def)
  obtain li where li: "recover_logs 0 g3 = Inr (g3\<lparr>log_segment_idx := li\<rparr>)" "\<forall>s. 0 \<le> s \<and> s < segment_count g \<longrightarrow> cell li s =
       (if leading (cell (log_ptr g) s) = 0 then cell (log_segment_idx g) s else leading (cell (log_ptr g) s) - 1)"
    using recover_logs_from [of 0 g3] l m unfolding k by auto
  have h: "h = g3\<lparr>log_segment_idx := li\<rparr>" using 4 li(1) by simp
  show "map v_offset (vertices h) = map v_offset (vertices g)" "log_ptr h = log_ptr g"
    using K by (simp_all add: h logs_kept_def)
  show "\<forall>s. 0 \<le> s \<and> s < segment_count g \<longrightarrow> cell (log_segment_idx h) s =
       (if leading (cell (log_ptr g) s) = 0 then cell (log_segment_idx g) s else leading (cell (log_ptr g) s) - 1)"
    using li(2) by (simp add: h)
qed

lemma reopen_logs:
  assumes r: "reopen junk mv ml p = Inr (h, q)" "\<not> bp_backed_up p" and n: "0 \<le> bp_num_vertices p"
    and l: "len (bp_log_segment p) = bp_segment_count p"
    and m: "\<forall>s. 0 \<le> s \<and> s < bp_segment_count p \<longrightarrow> len (cell (bp_log_segment p) s) = MAX_LOG_ENTRIES"
  shows "\<forall>v. 0 \<le> v \<and> v < bp_num_vertices p \<longrightarrow> off h v = v_offset (mv v)" "log_ptr h = bp_log_segment p"
    "\<forall>s. 0 \<le> s \<and> s < bp_segment_count p \<longrightarrow> cell (log_segment_idx h) s =
       (if leading (cell (bp_log_segment p) s) = 0 then ml s else leading (cell (bp_log_segment p) s) - 1)"
proof -
  let ?g = "reopened junk mv ml p"
  have rec: "recovery ?g = Inr h" using r by (auto simp: reopen_def Let_def sbind_Inr_iff)
  have sc: "0 \<le> bp_segment_count p" using l len_nonneg [of "bp_log_segment p"] by simp
  have g: "len (log_ptr ?g) = segment_count ?g" "len (log_segment_idx ?g) = segment_count ?g"
    "\<forall>s. 0 \<le> s \<and> s < segment_count ?g \<longrightarrow> len (cell (log_ptr ?g) s) = MAX_LOG_ENTRIES"
    using l m sc by (simp_all add: reopened_def)
  note R = recovery_logs [OF rec g]
  show "\<forall>v. 0 \<le> v \<and> v < bp_num_vertices p \<longrightarrow> off h v = v_offset (mv v)"
  proof (intro allI impI)
    fix v assume v: "0 \<le> v \<and> v < bp_num_vertices p"
    have n: "length (vertices h) = nat (bp_num_vertices p)" using arg_cong [OF R(1), of length] by (simp add: reopened_def)
    have "off h v = map v_offset (vertices h) ! nat v" using v n by (simp add: off_def cell_def)
    also have "\<dots> = v_offset (mv v)" unfolding R(1) using v by (simp add: reopened_def)
    finally show "off h v = v_offset (mv v)" .
  qed
  show "log_ptr h = bp_log_segment p" using R(2) by (simp add: reopened_def)
  show "\<forall>s. 0 \<le> s \<and> s < bp_segment_count p \<longrightarrow> cell (log_segment_idx h) s =
       (if leading (cell (bp_log_segment p) s) = 0 then ml s else leading (cell (bp_log_segment p) s) - 1)"
    using R(3) by (simp add: reopened_def cell_def)
qed

section \<open>Cells that are not edges\<close>

text \<open>
  Recovery counts the cells behind the pivot of vertex 0 up to the first zero, and never takes a count back. The
  following lemmas hold for any contents of the pool.
\<close>

lemma vertex_grows:
  assumes "rd (vertices g) v = Inr x" "set_vertex g v y = Inr g'"
  shows "deg g' 0 = (if v = 0 then v_degree y else deg g 0)" "edges g' = edges g"
  using assms by (auto simp: set_vertex_def deg_def rd_Inr_iff wr_Inr_iff sbind_Inr_iff cell_upd)

lemma add_actual_keeps: "add_actual g i d = Inr g' \<Longrightarrow> vertices g' = vertices g \<and> edges g' = edges g"
  by (auto simp: add_actual_def sbind_Inr_iff)

lemma count_cell_deg:
  assumes "count_cell vid sg g = Inr g'"
  shows "deg g' 0 = deg g 0 + (if vid = 0 then 1 else 0)"
proof -
  obtain x h k where x: "rd (vertices g) vid = Inr x" "set_vertex g vid (x\<lparr>v_degree := v_degree x + 1\<rparr>) = Inr h"
    "add_actual h sg 1 = Inr k" "g' = k\<lparr>num_edges := num_edges k + 1\<rparr>"
    using assms unfolding count_cell_def sbind_Inr_iff by auto
  have "deg g' 0 = deg h 0" using x(4) add_actual_keeps [OF x(3)] by (simp add: deg_def)
  then show ?thesis using vertex_grows(1) [OF x(1,2)] x(1) by (auto simp: deg_def rd_Inr_iff)
qed

lemma found_pivot_deg:
  assumes "found_pivot vid i g = Inr g'"
  shows "deg g' 0 = (if vid = 0 then 1 else deg g 0)" "edges g' = edges g"
proof -
  obtain x h k where x: "rd (vertices g) vid = Inr x" "set_vertex g vid (x\<lparr>v_index := i, v_degree := 1\<rparr>) = Inr h"
    "add_actual h (get_segment_id h vid) 1 = Inr k" "g' = k\<lparr>num_edges := num_edges k + 1\<rparr>"
    using assms unfolding found_pivot_def sbind_Inr_iff by auto
  have "deg g' 0 = deg h 0" "edges g' = edges h" using x(4) add_actual_keeps [OF x(3)] by (simp_all add: deg_def)
  then show "deg g' 0 = (if vid = 0 then 1 else deg g 0)" "edges g' = edges g" using vertex_grows [OF x(1,2)] by simp_all
qed

lemma recover_first_deg:
  assumes "recover_first es sg i g = Inr (g', st)" "i \<le> m" "\<And>j. i \<le> j \<Longrightarrow> j < m \<Longrightarrow> cell es j \<noteq> 0"
  shows "deg g 0 + (m - i) \<le> deg g' 0"
  using assms
proof (induction es sg i g arbitrary: m rule: recover_first.induct)
  case (1 es sg i g)
  obtain e where e: "rd es i = Inr e"
    "(if e \<noteq> 0 then sbind (count_cell 0 sg g) (recover_first es sg (i + 1)) else Inr (g, i)) = Inr (g', st)"
    using "1.prems"(1) [unfolded recover_first.simps [of es sg i g]] by (auto simp: sbind_Inr_iff)
  show ?case
  proof (cases "e = 0")
    case True
    then have "\<not> i < m" "g' = g" using e "1.prems"(3) [of i] by (auto simp: rd_Inr_iff)
    then show ?thesis using "1.prems"(2) by simp
  next
    case False
    then obtain h where h: "count_cell 0 sg g = Inr h" "recover_first es sg (i + 1) h = Inr (g', st)"
      using e(2) by (auto simp: sbind_Inr_iff)
    have d: "deg h 0 = deg g 0 + 1" using count_cell_deg [OF h(1)] by simp
    have "deg h 0 + (max m (i + 1) - (i + 1)) \<le> deg g' 0"
    proof (rule "1.IH" [OF e(1) _ h(1) h(2)])
      show "e \<noteq> 0" by (rule False)
      show "cell es j \<noteq> 0" if "i + 1 \<le> j" "j < max m (i + 1)" for j using "1.prems"(3) [of j] that by (simp add: max_def split: if_splits)
    qed simp
    then show ?thesis using d "1.prems"(2) by (simp add: max_def split: if_splits)
  qed
qed

lemma recover_cell_deg:
  assumes "recover_cell i e (vid, sg, g) = Inr (vid', sg', g')"
  shows "deg g 0 \<le> deg g' 0"
  using assms by (auto simp: recover_cell_def sbind_Inr_iff dest!: count_cell_deg found_pivot_deg(1) split: if_splits)

lemma recover_scan_deg: "recover_scan es n i s = Inr s' \<Longrightarrow> deg (snd (snd s)) 0 \<le> deg (snd (snd s')) 0"
proof (induction es n i s rule: recover_scan.induct)
  case (1 es n i s)
  show ?case
  proof (cases "i < n")
    case True
    then obtain e s1 where s1: "rd es i = Inr e" "recover_cell i e s = Inr s1" "recover_scan es n (i + 1) s1 = Inr s'"
      using "1.prems" [unfolded recover_scan.simps [of es n i s]] by (auto simp: sbind_Inr_iff)
    have "deg (snd (snd s)) 0 \<le> deg (snd (snd s1)) 0" using s1(2) recover_cell_deg by (metis prod.collapse)
    also have "\<dots> \<le> deg (snd (snd s')) 0" by (rule "1.IH" [OF True s1])
    finally show ?thesis .
  next
    case False
    then show ?thesis using "1.prems" by (simp add: recover_scan.simps [of es n i s])
  qed
qed

lemma recount_total_range_vertices: "recount_total_range g i n = Inr g' \<Longrightarrow> vertices g' = vertices g"
proof (induction g i n rule: recount_total_range.induct)
  case (1 g i n)
  show ?case
  proof (cases "i < n")
    case True
    then obtain p xs where p: "segment_total_of g i = Inr p" "wr (segment_edges_total g) (i + segment_count g) p = Inr xs"
      "recount_total_range (g\<lparr>segment_edges_total := xs\<rparr>) (i + 1) n = Inr g'"
      using "1.prems" [unfolded recount_total_range.simps [of g i n]] by (auto simp: sbind_Inr_iff)
    then show ?thesis using "1.IH" [OF True p] by simp
  next
    case False
    then show ?thesis using "1.prems" by (simp add: recount_total_range.simps [of g i n])
  qed
qed

lemma recover_logs_vertices: "recover_logs i g = Inr g' \<Longrightarrow> vertices g' = vertices g"
proof (induction i g rule: recover_logs.induct)
  case (1 i g)
  show ?case
  proof (cases "i < segment_count g")
    case True
    then obtain r n k li where r: "rd (log_ptr g) i = Inr r" "rd (log_segment_idx g) i = Inr n" "recover_log_idx r 0 n = Inr k"
      "wr (log_segment_idx g) i k = Inr li" "recover_logs (i + 1) (g\<lparr>log_segment_idx := li\<rparr>) = Inr g'"
      using "1.prems" [unfolded recover_logs.simps [of i g]] by (auto simp: sbind_Inr_iff)
    then show ?thesis using "1.IH" [OF True r] by simp
  next
    case False
    then show ?thesis using "1.prems" by (simp add: recover_logs.simps [of i g])
  qed
qed

text \<open>Every non-zero cell directly behind pivot 0 becomes an edge of vertex 0.\<close>

lemma recovery_counts:
  assumes R: "recovery g = Inr h" and z: "cell (edges g) 0 = 0" and m: "1 \<le> m" "\<And>j. 1 \<le> j \<Longrightarrow> j < m \<Longrightarrow> cell (edges g) j \<noteq> 0"
  shows "m \<le> deg h 0"
proof -
  let ?g = "g\<lparr>num_edges := 0\<rparr>"
  obtain e s where e: "rd (edges g) 0 = Inr e"
    and s: "(if e = 0 then sbind (found_pivot 0 0 ?g) (\<lambda>g. sbind (recover_first (edges g) (get_segment_id g 0) 1 g) (\<lambda>(g, st).
                  Inr (st, get_segment_id g 0, g))) else Inr (0, 0, ?g)) = Inr s"
    and rest: "(case s of (st, seg_id, g) \<Rightarrow> sbind (recover_scan (edges g) (elem_capacity g) st (0, seg_id, g)) (\<lambda>(vid, seg_id, g).
      sbind (recount_segment_total g) (recover_logs 0))) = Inr h"
    using R unfolding recovery_def Let_def by (auto simp: sbind_Inr_iff)
  have "e = 0" using e z by (simp add: rd_Inr_iff)
  then obtain g1 g2 st where g1: "found_pivot 0 0 ?g = Inr g1"
    and g2: "recover_first (edges g1) (get_segment_id g1 0) 1 g1 = Inr (g2, st)" and s2: "s = (st, get_segment_id g2 0, g2)"
    using s by (auto simp: sbind_Inr_iff)
  have "edges g1 = edges g" using found_pivot_deg(2) [OF g1] by simp
  moreover have "deg g1 0 = 1" using found_pivot_deg(1) [OF g1] by simp
  ultimately have "m \<le> deg g2 0" using recover_first_deg [OF g2 m(1)] m(2) by simp
  moreover obtain s3 g4 where s3: "recover_scan (edges g2) (elem_capacity g2) st (0, get_segment_id g2 0, g2) = Inr s3"
    "recount_segment_total (snd (snd s3)) = Inr g4" "recover_logs 0 g4 = Inr h"
    using rest unfolding s2 by (auto simp: sbind_Inr_iff)
  moreover have "vertices h = vertices (snd (snd s3))"
    using recover_logs_vertices [OF s3(3)] recount_total_range_vertices [OF s3(2) [unfolded recount_segment_total_def]] by simp
  ultimately show ?thesis using recover_scan_deg [OF s3(1)] by (simp add: deg_def)
qed

end
