(* ===== verification/DgapLifeClaims.thy ===== *)
theory DgapLifeClaims
  imports DgapRecoverOk DgapExample
begin

text \<open>
  The properties of making, closing and reopening a graph, each with an application to a concrete graph.
\<close>

section \<open>Making a graph\<close>

text \<open>C10: the constructor on a new pool file, with the edges sorted by source: it rounds the number of vertices up
  to a power of two of segments, leaves every lock free, every log empty and every counter right, gives
  every vertex its pivot and its edges in order, and fails no assertion.\<close>

theorem new_graph_wellformed:
  assumes "2 \<le> n_vertices" "n_vertices \<le> 2 ^ 20" and "n_edges = int (length es)" "n_edges \<le> 2 ^ 20"
    and "sources_ok n_vertices es"
  shows "\<exists>g. new_graph t es d n_edges n_vertices = Inr g \<and> inv g \<and> n_vertices \<le> num_vertices g \<and> num_vertices g < 2 * n_vertices
    \<and> elem_capacity g = (n_edges + num_vertices g) * 4
    \<and> (\<forall>tid. 0 \<le> tid \<and> tid < int t \<longrightarrow> ulog_ready tid g)
    \<and> (\<forall>v. 0 \<le> v \<and> v < num_vertices g \<longrightarrow> vlist g v = - v # map snd (filter (\<lambda>e. fst e = v) es))"
  using new_graph_ok [OF assms, of t d] unfolding row_def targets_def by blast

theorem new_graph_wellformed_witness:
  "\<exists>g. new_graph 1 [(0, 1), (0, 2), (2, 0)] True 3 3 = Inr g \<and> inv g \<and> 3 \<le> num_vertices g \<and> num_vertices g < 2 * 3
    \<and> elem_capacity g = (3 + num_vertices g) * 4
    \<and> (\<forall>tid. 0 \<le> tid \<and> tid < int 1 \<longrightarrow> ulog_ready tid g)
    \<and> (\<forall>v. 0 \<le> v \<and> v < num_vertices g \<longrightarrow> vlist g v = - v # map snd (filter (\<lambda>e. fst e = v) [(0, 1), (0, 2), (2, 0)]))"
  by (rule new_graph_wellformed) (simp_all add: sources_ok_def)

text \<open>C8: \<^verbatim>\<open>MakeGraph\<close> in one thread, for a base graph with ids below \<open>2\<^sup>1\<^sup>9\<close> and arrays that stay below \<open>2\<^sup>2\<^sup>3\<close>
  cells: the base graph is always made; then the load fails, with an access outside the array, exactly when
  one of the insertions reaches the resize while the last vertex has edges in its log. Otherwise every vertex
  has its pivot, its targets in the base edges, in the order the sort leaves them, and behind them its targets
  in the dynamic edges in insertion order (both directions of each edge when the graph is undirected).\<close>

theorem MakeGraph_adjacency:
  assumes "sorts_by_source srt" and "\<forall>(u, v) \<in> set base. 0 \<le> u \<and> 0 \<le> v" "1 \<le> FindMaxNodeID base" "FindMaxNodeID base < 2 ^ 19"
    and "length base \<le> 2 ^ 19" and "\<forall>(u, v) \<in> set dynamic. 0 \<le> u \<and> u \<le> FindMaxNodeID base \<and> 0 \<le> v \<and> v \<le> FindMaxNodeID base"
    and "0 \<le> tid" "tid < int t"
    and small: "\<And>g0. new_graph t (srt (if s then symmetrized base else base)) (\<not> s) (int (length (if s then symmetrized base else base)))
       (FindMaxNodeID base + 1) = Inr g0 \<Longrightarrow> stays_small vn em tid (both_ways s dynamic) g0"
  shows "\<exists>g0. new_graph t (srt (if s then symmetrized base else base)) (\<not> s) (int (length (if s then symmetrized base else base)))
       (FindMaxNodeID base + 1) = Inr g0 \<and>
    (if list_overruns vn em tid (both_ways s dynamic) g0 then MakeGraph srt t vn em tid s base dynamic = Inl OutOfBounds
     else \<exists>g. MakeGraph srt t vn em tid s base dynamic = Inr g \<and> inv g \<and> FindMaxNodeID base < num_vertices g \<and>
      (\<forall>v. 0 \<le> v \<and> v < num_vertices g \<longrightarrow>
        vlist g v = - v # targets (srt (if s then symmetrized base else base)) v @ targets (both_ways s dynamic) v))"
proof (rule MakeGraph_ok [OF assms(1-8), where s = s and vn = vn and em = em])
  fix g0
  assume g0: "new_graph t (srt (if s then symmetrized base else base)) (\<not> s) (int (length (if s then symmetrized base else base)))
       (FindMaxNodeID base + 1) = Inr g0" "inv g0" "ulog_ready tid g0" "FindMaxNodeID base < num_vertices g0" "num_vertices g0 \<le> 2 ^ 20"
    "\<forall>v. 0 \<le> v \<and> v < num_vertices g0 \<longrightarrow> vlist g0 v = row (srt (if s then symmetrized base else base)) v"
    "MakeGraph srt t vn em tid s base dynamic = insert_list vn em tid (both_ways s dynamic) g0"
    "\<forall>e \<in> set (both_ways s dynamic). 0 \<le> fst e \<and> fst e < num_vertices g0"
  from insert_list_ok [OF g0(2,3,5,8) small [OF g0(1)]] show ?thesis
    unfolding g0(7) [symmetric] using g0(1,4,6) by (auto simp: row_def)
qed

lemma demo_base_max: "FindMaxNodeID [(1, 0), (0, 1)] = 1"
  by (simp add: FindMaxNodeID_def)

lemma demo_load:
  assumes "new_graph 1 [(0, 1), (1, 0)] True 2 2 = Inr g0"
  shows "\<not> list_overruns 0 (\<lambda>_. 0) 0 [(1, 1)] g0 \<and> stays_small 0 (\<lambda>_. 0) 0 [(1, 1)] g0"
proof -
  have "\<exists>g. new_graph 1 [(0, 1), (1, 0)] True 2 2 = Inr g \<and> inv g \<and> 2 \<le> num_vertices g \<and> num_vertices g < 2 * 2
    \<and> elem_capacity g = (2 + num_vertices g) * 4 \<and> (\<forall>tid. 0 \<le> tid \<and> tid < int 1 \<longrightarrow> ulog_ready tid g)
    \<and> (\<forall>v. 0 \<le> v \<and> v < num_vertices g \<longrightarrow> vlist g v = row [(0, 1), (1, 0)] v) \<and> num_edges g = 2 + num_vertices g \<and> 1 \<le> tree_height g
    \<and> cells (edges g) 0 (len (row [(0, 1), (1, 0)] 0)) = row [(0, 1), (1, 0)] 0 \<and> cell (edges g) (len (row [(0, 1), (1, 0)] 0)) = -1"
    by (rule new_graph_ok) (simp_all add: sources_ok_def)
  then have "inv g0" "ulog_ready 0 g0" "2 \<le> num_vertices g0" "num_vertices g0 < 4" "elem_capacity g0 = (2 + num_vertices g0) * 4"
    "num_edges g0 = 2 + num_vertices g0" "1 \<le> tree_height g0" using assms by auto
  then show ?thesis using insert_list_half_full [of g0 0 "[(1, 1)]" 0 "\<lambda>_. 0"] by simp
qed

theorem MakeGraph_adjacency_witness:
  "\<exists>g. MakeGraph (sort_key fst) 1 0 (\<lambda>_. 0) 0 False [(1, 0), (0, 1)] [(1, 1)] = Inr g \<and> inv g \<and> 1 < num_vertices g \<and>
    vlist g 0 = [0, 1] \<and> vlist g 1 = [-1, 0, 1]"
proof -
  have "\<exists>g0. new_graph 1 (sort_key fst (if False then symmetrized [(1, 0), (0, 1)] else [(1, 0), (0, 1)])) (\<not> False)
      (int (length (if False then symmetrized [(1, 0), (0, 1)] else [(1 :: int, 0 :: int), (0, 1)]))) (FindMaxNodeID [(1, 0), (0, 1)] + 1) = Inr g0 \<and>
    (if list_overruns 0 (\<lambda>_. 0) 0 (both_ways False [(1, 1)]) g0
     then MakeGraph (sort_key fst) 1 0 (\<lambda>_. 0) 0 False [(1, 0), (0, 1)] [(1, 1)] = Inl OutOfBounds
     else \<exists>g. MakeGraph (sort_key fst) 1 0 (\<lambda>_. 0) 0 False [(1, 0), (0, 1)] [(1, 1)] = Inr g \<and> inv g \<and>
      FindMaxNodeID [(1, 0), (0, 1)] < num_vertices g \<and> (\<forall>v. 0 \<le> v \<and> v < num_vertices g \<longrightarrow>
        vlist g v = - v # targets (sort_key fst (if False then symmetrized [(1, 0), (0, 1)] else [(1, 0), (0, 1)])) v
         @ targets (both_ways False [(1, 1)]) v))"
    by (rule MakeGraph_adjacency) (use demo_load in \<open>simp_all add: sorts_by_source_def demo_base_max both_ways_def\<close>)
  then show ?thesis using demo_load by (auto simp: demo_base_max both_ways_def targets_def)
qed

text \<open>C9: as long as there are no more dynamic insertions than base edges and vertices, the array, made with room for
  four times the base graph, stays at most half full: the load never resizes, so it always succeeds, whatever
  the order of the edges, and the capacity is the one computed at the start.\<close>

theorem MakeGraph_half_full:
  assumes "sorts_by_source srt" and "\<forall>(u, v) \<in> set base. 0 \<le> u \<and> 0 \<le> v" "1 \<le> FindMaxNodeID base" "FindMaxNodeID base < 2 ^ 19"
    and "length base \<le> 2 ^ 19" and "\<forall>(u, v) \<in> set dynamic. 0 \<le> u \<and> u \<le> FindMaxNodeID base \<and> 0 \<le> v \<and> v \<le> FindMaxNodeID base"
    and "0 \<le> tid" "tid < int t"
    and few: "int (length (both_ways s dynamic)) \<le> int (length (if s then symmetrized base else base)) + FindMaxNodeID base + 1"
  shows "\<exists>g. MakeGraph srt t vn em tid s base dynamic = Inr g \<and> inv g \<and> FindMaxNodeID base < num_vertices g \<and>
    elem_capacity g = (int (length (if s then symmetrized base else base)) + num_vertices g) * 4 \<and>
    num_edges g = int (length (if s then symmetrized base else base)) + num_vertices g + int (length (both_ways s dynamic)) \<and>
    (\<forall>v. 0 \<le> v \<and> v < num_vertices g \<longrightarrow>
      vlist g v = - v # targets (srt (if s then symmetrized base else base)) v @ targets (both_ways s dynamic) v)"
proof (rule MakeGraph_ok [OF assms(1-8), where s = s and vn = vn and em = em])
  let ?m = "int (length (if s then symmetrized base else base))"
  fix g0
  assume g0: "inv g0" "ulog_ready tid g0" "FindMaxNodeID base < num_vertices g0" "num_vertices g0 \<le> 2 ^ 20" "1 \<le> tree_height g0"
    "elem_capacity g0 = (?m + num_vertices g0) * 4" "num_edges g0 = ?m + num_vertices g0"
    "\<forall>v. 0 \<le> v \<and> v < num_vertices g0 \<longrightarrow> vlist g0 v = row (srt (if s then symmetrized base else base)) v"
    "MakeGraph srt t vn em tid s base dynamic = insert_list vn em tid (both_ways s dynamic) g0"
    "\<forall>e \<in> set (both_ways s dynamic). 0 \<le> fst e \<and> fst e < num_vertices g0" "?m \<le> 2 ^ 20"
  have "elem_capacity g0 * 2 \<le> 2 ^ 24" "2 * (num_edges g0 + int (length (both_ways s dynamic))) \<le> elem_capacity g0"
    using g0(3,4,6,7,11) few by simp_all
  from insert_list_half_full [OF g0(1,2,4,10,5) this, of vn em] obtain g where g: "\<not> list_overruns vn em tid (both_ways s dynamic) g0"
    "stays_small vn em tid (both_ways s dynamic) g0" "insert_list vn em tid (both_ways s dynamic) g0 = Inr g"
    "elem_capacity g = elem_capacity g0" "num_edges g = num_edges g0 + int (length (both_ways s dynamic))" by blast
  from insert_list_ok [OF g0(1,2,4,10) g(2)] g(1,3) have "inv g" "num_vertices g = num_vertices g0"
    "\<forall>v. 0 \<le> v \<and> v < num_vertices g0 \<longrightarrow> vlist g v = vlist g0 v @ targets (both_ways s dynamic) v" by auto
  then show ?thesis using g g0(3,6-9) by (auto simp: row_def)
qed

theorem MakeGraph_half_full_witness:
  "\<exists>g. MakeGraph (sort_key fst) 1 0 (\<lambda>_. 0) 0 True [(0, 1)] [(1, 1), (0, 1)] = Inr g \<and> inv g \<and> elem_capacity g = (2 + num_vertices g) * 4 \<and>
    num_edges g = 6 + num_vertices g \<and> vlist g 0 = [0, 1, 1] \<and> vlist g 1 = [-1, 0, 1, 1, 0]"
proof -
  have max: "FindMaxNodeID [(0, 1)] = 1" by (simp add: FindMaxNodeID_def)
  have "\<exists>g. MakeGraph (sort_key fst) 1 0 (\<lambda>_. 0) 0 True [(0, 1)] [(1, 1), (0, 1)] = Inr g \<and> inv g \<and> FindMaxNodeID [(0, 1)] < num_vertices g \<and>
    elem_capacity g = (int (length (if True then symmetrized [(0, 1)] else [(0, 1)])) + num_vertices g) * 4 \<and>
    num_edges g = int (length (if True then symmetrized [(0, 1)] else [(0, 1)])) + num_vertices g + int (length (both_ways True [(1, 1), (0, 1)])) \<and>
    (\<forall>v. 0 \<le> v \<and> v < num_vertices g \<longrightarrow>
      vlist g v = - v # targets (sort_key fst (if True then symmetrized [(0, 1)] else [(0, 1)])) v @ targets (both_ways True [(1, 1), (0, 1)]) v)"
    by (rule MakeGraph_half_full) (simp_all add: sorts_by_source_def max both_ways_def symmetrized_def)
  then show ?thesis by (auto simp: max both_ways_def targets_def symmetrized_def)
qed

section \<open>Closing and reopening\<close>

text \<open>C11: after a proper shutdown the constructor finds these again, whatever memory \<^verbatim>\<open>malloc\<close> returns: the edge array,
  the vertices, the edge logs and their lengths, the two arrays of segment counters, the numbers of vertices and
  edges, the capacity, the segment size and count, the tree height and the direction flag (\<open>same_arrays\<close>). So all
  neighbourhoods are the same. The locks of the segments and the undo logs (\<open>leaf_segments\<close>, \<open>ulog_ptr\<close>, \<open>oplog_ptr\<close>)
  are not among them: the constructor does not set these members on an existing pool.\<close>

theorem clean_shutdown_roundtrip:
  assumes "wf_shape g" and "pool_fits g p"
  shows "\<exists>q h. destroy g p = Inr q \<and> reopen junk mv ml q = Inr (h, q) \<and> same_arrays g h \<and>
    (\<forall>v k. out_neighbors h v k = out_neighbors g v k)"
  using clean_reopen [OF assms, of junk mv ml] same_arrays_neighbors by blast

theorem clean_shutdown_roundtrip_witness:
  "\<exists>q h. destroy demo_logged (created_pool demo_logged 0) = Inr q \<and> reopen demo (\<lambda>_. zero_vertex) (\<lambda>_. 7) q = Inr (h, q) \<and>
    same_arrays demo_logged h \<and> (\<forall>v k. out_neighbors h v k = out_neighbors demo_logged v k)"
  by (rule clean_shutdown_roundtrip [OF wfD(2) [OF demo_wf_logged] created_pool_fits [OF wfD(2) [OF demo_wf_logged]]])

text \<open>C12: after a crash of a graph without logged edges, in which all free cells are zero, vertex 0 is followed by a free
  cell and every edge goes to a vertex other than 0 (a target 0 is stored as a zero cell, which recovery does not
  count), \<^verbatim>\<open>recovery\<close> finds the index and the degree of every vertex and the segment counters from the edge array
  alone.\<close>

theorem recovery_restores:
  assumes "wf_layout g" and "clean_cells g" and "pool_fits g p" and "bp_backed_up p = False"
  shows "\<exists>h q. reopen junk mv ml (live_pool g p) = Inr (h, q) \<and> edges h = edges g \<and> num_edges h = degsum g 0 (num_vertices g) \<and>
    bp_num_edges q = num_edges h \<and>
    (\<forall>v. 0 \<le> v \<and> v < num_vertices g \<longrightarrow> idx h v = idx g v \<and> deg h v = deg g v) \<and>
    (\<forall>s. 0 \<le> s \<and> s < segment_count g \<longrightarrow>
       cell (segment_edges_actual h) (s + segment_count g) = degsum g (s * segment_size g) ((s + 1) * segment_size g) \<and>
       cell (segment_edges_total h) (s + segment_count g) = start g ((s + 1) * segment_size g) - start g (s * segment_size g))"
  using recovery_ok [OF assms, of junk mv ml] unfolding recovered_def by fastforce

text \<open>A graph with separated vertices.\<close>

definition demo_apart :: dgraph where
  "demo_apart = demo_graph [0, 5, 7, 0, -1, 1, 0, 0] 3 4 2 (-1) 5 (replicate 170 zero_entry) 0"

lemma demo_apart_inv: "inv demo_apart"
  unfolding demo_apart_def by (rule demo_inv [OF demo_wf], simp_all)

lemma demo_apart_clean: "clean_cells demo_apart"
proof -
  have "0 < cell (edges demo_apart) i" if "0 < i" "i < 3" for i
  proof -
    have "i = 1 \<or> i = 2" using that by auto
    then show ?thesis by (auto simp: demo_apart_def demo_simps)
  qed
  moreover have "cell (edges demo_apart) i = 0" if "3 \<le> i" "i < 4" for i
  proof -
    have "i = 3" using that by simp
    then show ?thesis by (simp add: demo_apart_def demo_simps)
  qed
  moreover have "cell (edges demo_apart) i = 0" if "6 \<le> i" "i < 8" for i
  proof -
    have "i = 6 \<or> i = 7" using that by auto
    then show ?thesis by (auto simp: demo_apart_def demo_simps)
  qed
  moreover have "0 < cell (edges demo_apart) i" if "4 < i" "i < 6" for i
  proof -
    have "i = 5" using that by simp
    then show ?thesis by (simp add: demo_apart_def demo_simps)
  qed
  moreover have "start demo_apart 2 = 8" "start demo_apart 1 = 4" "idx demo_apart 0 = 0" "idx demo_apart 1 = 4" "deg demo_apart 0 = 3"
    "deg demo_apart 1 = 2" "num_vertices demo_apart = 2" "off demo_apart 0 = -1" "off demo_apart 1 = -1"
    "cell (edges demo_apart) 0 = 0" "cell (edges demo_apart) 4 = -1"
    by (simp_all add: demo_apart_def demo_simps)
  ultimately show ?thesis unfolding clean_cells_def by (auto simp: all_int2)
qed

theorem recovery_restores_witness:
  "\<exists>h q. reopen demo (\<lambda>_. zero_vertex) (\<lambda>_. 7) (live_pool demo_apart (created_pool demo_apart 0)) = Inr (h, q) \<and>
    edges h = edges demo_apart \<and> num_edges h = degsum demo_apart 0 (num_vertices demo_apart) \<and> bp_num_edges q = num_edges h \<and>
    (\<forall>v. 0 \<le> v \<and> v < num_vertices demo_apart \<longrightarrow> idx h v = idx demo_apart v \<and> deg h v = deg demo_apart v) \<and>
    (\<forall>s. 0 \<le> s \<and> s < segment_count demo_apart \<longrightarrow>
       cell (segment_edges_actual h) (s + segment_count demo_apart)
         = degsum demo_apart (s * segment_size demo_apart) ((s + 1) * segment_size demo_apart) \<and>
       cell (segment_edges_total h) (s + segment_count demo_apart)
         = start demo_apart ((s + 1) * segment_size demo_apart) - start demo_apart (s * segment_size demo_apart))"
proof -
  note w = invD(1) [OF demo_apart_inv]
  show ?thesis
    by (rule recovery_restores [OF wfD(1) [OF w] demo_apart_clean created_pool_fits [OF wfD(2) [OF w]]])
      (simp add: created_pool_def live_pool_def)
qed

text \<open>
  A graph the constructor makes, evaluated: \<open>demo_new\<close> is what it leaves in memory for the base edges 0 to 1 and
  1 to 1. The doubles that occur are small dyadic rationals, so their rounding is exact.
\<close>

lemma mk_f64_exact:
  assumes "0 \<le> x" "x \<le> 2 ^ 30" "of_int \<lfloor>x * 2 ^ 20\<rfloor> = x * 2 ^ 20"
  shows "mk_f64 x = Fin x"
proof -
  have "fl x = x"
  proof (rule fl_exact)
    have "\<lfloor>x * 2 ^ 20\<rfloor> \<le> 2 ^ 50" using assms(2) by (simp add: floor_le_iff)
    moreover have "0 \<le> \<lfloor>x * 2 ^ 20\<rfloor>" using assms(1) by simp
    ultimately show "\<bar>\<lfloor>x * 2 ^ 20\<rfloor>\<bar> < 2 ^ 53" by simp
    show "x = of_int \<lfloor>x * 2 ^ 20\<rfloor> * 2 powi - 20" using assms(3) [symmetric] by (simp only: power_int_minus) simp
  qed simp
  moreover have "x \<le> 2 powi 62" using assms(2) by (rule order_trans) simp
  ultimately show ?thesis using assms(1) by (simp add: mk_f64_small)
qed

lemma sbind_weak: "m = m' \<Longrightarrow> sbind m f = sbind m' f"
  by simp

lemma upd_Cons_0 [simp]: "upd (x # xs) 0 y = y # xs"
  by (simp add: upd_def)

lemma upd_Cons_pos: "0 < i \<Longrightarrow> upd (x # xs) i y = x # upd xs (i - 1) y"
  by (cases "nat i") (auto simp: upd_def nat_diff_distrib')

lemma small_lists: "replicate 2 x = [x, x]" "replicate 4 x = [x, x, x, x]"
  "replicate 16 x = [x, x, x, x, x, x, x, x, x, x, x, x, x, x, x, x]"
  by (simp_all add: numeral_eq_Suc)

lemma small_bitlens: "bitlen 1 = 1" "bitlen 2 = 2"
  by (simp_all add: bitlen_def compute_floorlog)

lemmas f64_eval = mk_f64_exact f64_of_int_def f64_to_int64.simps up_0_def up_h_def f64_sub_def precision_pos_def trunc_rat_def

lemmas run_eval = f64_eval cell_Cons_pos upd_Cons_pos small_lists Let_def get_segment_id_def cdiv_def flush_def set_edge_def
  set_vertex_def add_actual_def recount_segment_total_def recount_total_range.simps segment_total_of_def

definition demo_array :: "int list \<Rightarrow> vertex_element list \<Rightarrow> int list \<Rightarrow> int list \<Rightarrow> int \<Rightarrow> flush_ev list \<Rightarrow> dgraph" where
  "demo_array es vs ac tt ne fs =
     \<lparr>num_vertices = 2, num_edges = ne, avg_degree = 1, elem_capacity = 16, segment_size = 1,
      segment_count = 2, tree_height = 1, delta_up = Fin (1 / 4), directed = True, edges = es, vertices = vs,
      log_ptr = [replicate 170 zero_entry, replicate 170 zero_entry], log_segment_idx = [0, 0],
      segment_edges_actual = ac, segment_edges_total = tt, leaf_segments = [new_leaf, new_leaf],
      ulog_ptr = [replicate 512 0], oplog_ptr = [0], flushes = fs\<rparr>"

definition demo_new :: dgraph where
  "demo_new = demo_array [0, 1, -1, 1, 0, 0, 0, 0, -1, 1, 0, 0, 0, 0, 0, 0]
     [\<lparr>v_index = 0, v_degree = 2, v_offset = -1\<rparr>, \<lparr>v_index = 8, v_degree = 2, v_offset = -1\<rparr>]
     [0, 0, 2, 2] [0, 0, 8, 8] 4 [FlEdges 0 16]"

lemma demo_array_sel [simp]:
  "num_vertices (demo_array es vs ac tt ne fs) = 2" "num_edges (demo_array es vs ac tt ne fs) = ne"
  "elem_capacity (demo_array es vs ac tt ne fs) = 16" "segment_size (demo_array es vs ac tt ne fs) = 1"
  "segment_count (demo_array es vs ac tt ne fs) = 2" "tree_height (demo_array es vs ac tt ne fs) = 1"
  "edges (demo_array es vs ac tt ne fs) = es" "vertices (demo_array es vs ac tt ne fs) = vs"
  "log_ptr (demo_array es vs ac tt ne fs) = [replicate 170 zero_entry, replicate 170 zero_entry]"
  "segment_edges_actual (demo_array es vs ac tt ne fs) = ac" "segment_edges_total (demo_array es vs ac tt ne fs) = tt"
  "flushes (demo_array es vs ac tt ne fs) = fs"
  "demo_array es vs ac tt ne fs\<lparr>edges := es'\<rparr> = demo_array es' vs ac tt ne fs"
  "demo_array es vs ac tt ne fs\<lparr>vertices := vs'\<rparr> = demo_array es vs' ac tt ne fs"
  "demo_array es vs ac tt ne fs\<lparr>segment_edges_actual := ac'\<rparr> = demo_array es vs ac' tt ne fs"
  "demo_array es vs ac tt ne fs\<lparr>segment_edges_total := tt'\<rparr> = demo_array es vs ac tt' ne fs"
  "demo_array es vs ac tt ne fs\<lparr>num_edges := ne'\<rparr> = demo_array es vs ac tt ne' fs"
  "demo_array es vs ac tt ne fs\<lparr>flushes := fs'\<rparr> = demo_array es vs ac tt ne fs'"
  by (simp_all add: demo_array_def)

lemma demo_zero: "f64_of_int 0 = Fin 0"
  by (simp add: f64_of_int_small)

lemma demo_capacity: "compute_capacity (empty_graph 2 2 True) = Inr ((empty_graph 2 2 True)
  \<lparr>segment_size := 1, segment_count := 2, num_vertices := 2, avg_degree := 1, elem_capacity := 16\<rparr>)"
  by (simp cong: sbind_weak add: compute_capacity_def empty_graph_def Let_def floor_log2_def last_bit_set_def clzll_def
    ceil_log2_def hyperfloor_def to_u64_def ceil_div_def max_sparseness_def small_bitlens)

lemma demo_arrays: "new_graph 1 es True 2 2 =
  insert_base es (demo_array (replicate 16 0) [zero_vertex, zero_vertex] [0, 0, 0, 0] [0, 0, 0, 0] 2 [])"
  by (simp cong: sbind_weak add: new_graph_def demo_capacity [unfolded empty_graph_def demo_zero] demo_array_def
    alloc_arrays_def empty_graph_def Let_def floor_log2_def last_bit_set_def clzll_def to_u64_def small_bitlens f64_eval
    small_lists MAX_LOG_ENTRIES_def MAX_ULOG_ENTRIES_def)

lemma demo_new_made: "new_graph 1 [(0, 1), (1, 1)] True 2 2 = Inr demo_new"
  unfolding demo_arrays
  by (simp cong: sbind_weak add: insert_base_def base_edges.simps base_edge_def fill_vertices.simps base_pivot_def
    base_rest.simps spread_weighted_def calculate_positions_def index_boundary_def position_step_def positions_loop.simps
    next_position_def spread_from.simps spread_copy.simps zero_vertex_def demo_new_def run_eval)

lemma demo_new_reopens: "\<exists>h q. reopen junk mv ml (live_pool demo_new (created_pool demo_new 2)) = Inr (h, q)"
  by (simp cong: sbind_weak add: reopen_def reopened_def live_pool_def created_pool_def demo_new_def recovery_def
    found_pivot_def count_cell_def recover_first.simps recover_scan.simps recover_cell_def recover_logs.simps
    recover_log_idx.simps MAX_LOG_ENTRIES_def zero_entry_def upt_rec run_eval)

text \<open>C15: the edge array does not tell an edge from a cell whose content has been moved away. The constructor packs
  the base graph and then spreads the vertices, without clearing the cells they leave, so the old pivot of vertex 1
  stays directly behind the edges of vertex 0. Every graph just made from base edges (no edge from vertex 0 to
  vertex 0) that crashes before anything else happens comes back with a vertex 0 of a greater degree.\<close>

theorem recovery_counts_leftovers:
  assumes "2 \<le> n_vertices" "n_vertices \<le> 2 ^ 20" and "n_edges = int (length es)" "n_edges \<le> 2 ^ 20"
    and "sources_ok n_vertices es" and "\<forall>(u, v) \<in> set es. u = 0 \<longrightarrow> 0 < v"
    and "new_graph t es d n_edges n_vertices = Inr g"
    and "reopen junk mv ml (live_pool g (created_pool g n_edges)) = Inr (h, q)"
  shows "cell (edges g) (deg g 0) = -1 \<and> deg g 0 < deg h 0"
proof -
  let ?m = "len (row es 0)"
  have "wf g" "0 < num_vertices g" and v: "vlist g 0 = row es 0" "cells (edges g) 0 ?m = row es 0" "cell (edges g) ?m = -1"
    using new_graph_ok [OF assms(1-5), of t d] assms(1,7) by (auto dest: invD(1))
  from length_vlist [OF wf_layoutD(2) [OF wfD(1) [OF this(1)] order.refl this(2)]] have d: "deg g 0 = ?m"
    using v(1) vertex_okD(4) [OF wf_layoutD(2) [OF wfD(1) [OF \<open>wf g\<close>] order.refl \<open>0 < num_vertices g\<close>]] by (simp add: len_def)
  have nth: "cell (edges g) j = row es 0 ! nat j" if "0 \<le> j" "j < ?m" for j
    using that arg_cong [OF v(2), of "\<lambda>xs. xs ! nat j"] by (simp add: len_def nat_less_iff)
  have "0 < targets es 0 ! i" if "i < length (targets es 0)" for i
    using nth_mem [OF that] assms(6) by (auto simp: targets_def)
  then have pos: "cell (edges g) j \<noteq> 0" if "1 \<le> j" "j < ?m" for j
  proof -
    define i where "i = nat (j - 1)"
    then have i: "nat j = Suc i" using that(1) by simp
    then have "i < length (targets es 0)" using that by (simp add: row_def len_def)
    then have "0 < targets es 0 ! i" using \<open>\<And>i. i < length (targets es 0) \<Longrightarrow> 0 < targets es 0 ! i\<close> by blast
    then show ?thesis using nth [of j] that i by (simp add: row_def)
  qed
  then have nz: "cell (edges g) j \<noteq> 0" if "1 \<le> j" "j < ?m + 1" for j
    using that v(3) by (cases "j = ?m") auto
  have z: "cell (edges g) 0 = 0" using nth [of 0] by (simp add: row_def)
  have "recovery (reopened junk mv ml (live_pool g (created_pool g n_edges))) = Inr h"
    using assms(8) by (auto simp: reopen_def Let_def created_pool_def live_pool_def sbind_Inr_iff)
  from recovery_counts [OF this, of "?m + 1"] have "?m + 1 \<le> deg h 0"
    using z nz by (simp add: reopened_def live_pool_def)
  then show ?thesis using d v(3) by simp
qed

theorem recovery_counts_leftovers_witness:
  "\<exists>g h q. new_graph 1 [(0, 1), (1, 1)] True 2 2 = Inr g \<and>
    reopen demo (\<lambda>_. zero_vertex) (\<lambda>_. 7) (live_pool g (created_pool g 2)) = Inr (h, q) \<and>
    cell (edges g) (deg g 0) = -1 \<and> deg g 0 < deg h 0"
proof -
  obtain h q where r: "reopen demo (\<lambda>_. zero_vertex) (\<lambda>_. 7) (live_pool demo_new (created_pool demo_new 2)) = Inr (h, q)"
    using demo_new_reopens by blast
  have "cell (edges demo_new) (deg demo_new 0) = -1 \<and> deg demo_new 0 < deg h 0"
    by (rule recovery_counts_leftovers [OF _ _ _ _ _ _ demo_new_made r]) (simp_all add: sources_ok_def)
  then show ?thesis using demo_new_made r by blast
qed

text \<open>C13: after a crash, of any graph, the log offset of every vertex is what \<^verbatim>\<open>malloc\<close> returned, and the insert
  position of a segment's log points at its last written entry, or is what \<^verbatim>\<open>malloc\<close> returned when the first
  entry has a zero field.\<close>

theorem recovery_loses_logs:
  assumes "reopen junk mv ml p = Inr (h, q)" and "\<not> bp_backed_up p" and "0 \<le> bp_num_vertices p"
    and "len (bp_log_segment p) = bp_segment_count p"
    and "\<forall>s. 0 \<le> s \<and> s < bp_segment_count p \<longrightarrow> len (cell (bp_log_segment p) s) = MAX_LOG_ENTRIES"
  shows "(\<forall>v. 0 \<le> v \<and> v < bp_num_vertices p \<longrightarrow> off h v = v_offset (mv v)) \<and> log_ptr h = bp_log_segment p \<and>
    (\<forall>s. 0 \<le> s \<and> s < bp_segment_count p \<longrightarrow> cell (log_segment_idx h) s =
       (if leading (cell (bp_log_segment p) s) = 0 then ml s else leading (cell (bp_log_segment p) s) - 1))"
  using reopen_logs [OF assms] by blast

theorem recovery_loses_logs_witness:
  "\<exists>h q. reopen demo (\<lambda>_. zero_vertex) (\<lambda>_. 7) (live_pool demo_apart (created_pool demo_apart 0)) = Inr (h, q) \<and>
     off h 0 = 0 \<and> cell (log_segment_idx h) 0 = 7"
proof -
  note w = invD(1) [OF demo_apart_inv]
  let ?p = "live_pool demo_apart (created_pool demo_apart 0)"
  obtain h q where r: "reopen demo (\<lambda>_. zero_vertex) (\<lambda>_. 7) ?p = Inr (h, q)"
    using recovery_ok [OF wfD(1) [OF w] demo_apart_clean created_pool_fits [OF wfD(2) [OF w]], of 0 demo "\<lambda>_. zero_vertex" "\<lambda>_. 7"]
    by (auto simp: created_pool_def live_pool_def)
  have p: "bp_num_vertices ?p = 2" "bp_segment_count ?p = 2" "\<not> bp_backed_up ?p"
    "bp_log_segment ?p = [replicate 170 zero_entry, replicate 170 zero_entry]"
    by (simp_all add: live_pool_def created_pool_def demo_apart_def demo_graph_def)
  have z: "leading (cell (bp_log_segment ?p) 0) = 0" unfolding p(4) by (simp add: leading_def complete_def zero_entry_def len_def)
  have "len (bp_log_segment ?p) = bp_segment_count ?p" unfolding p by simp
  moreover have "\<forall>s. 0 \<le> s \<and> s < bp_segment_count ?p \<longrightarrow> len (cell (bp_log_segment ?p) s) = MAX_LOG_ENTRIES"
    unfolding p by (simp add: all_int2 MAX_LOG_ENTRIES_def cell_Cons_pos)
  ultimately have "(\<forall>v. 0 \<le> v \<and> v < bp_num_vertices ?p \<longrightarrow> off h v = v_offset zero_vertex) \<and> log_ptr h = bp_log_segment ?p \<and>
    (\<forall>s. 0 \<le> s \<and> s < bp_segment_count ?p \<longrightarrow> cell (log_segment_idx h) s =
       (if leading (cell (bp_log_segment ?p) s) = 0 then 7 else leading (cell (bp_log_segment ?p) s) - 1))"
    using recovery_loses_logs [OF r p(3)] p(1) by auto
  then show ?thesis using r z p(1,2) by (auto simp: zero_vertex_def)
qed

text \<open>C14: reopening never clears the flag that the pool was backed up: when a graph \<open>g\<close> has been closed properly,
  opened again, changed to \<open>g'\<close> and then crashes, the next opening pairs the edge array of \<open>g'\<close> with the
  vertices and the log lengths of \<open>g\<close>.\<close>

theorem stale_backup_used:
  assumes "wf_shape g" and "pool_fits g p" and "destroy g p = Inr q" and "reopen junk mv ml q = Inr (h, q1)"
    and "num_vertices g' = num_vertices g" and "segment_count g' = segment_count g"
  shows "\<exists>h' q'. reopen junk' mv' ml' (live_pool g' q1) = Inr (h', q') \<and> edges h' = edges g' \<and> log_ptr h' = log_ptr g' \<and>
     vertices h' = vertices g \<and> log_segment_idx h' = log_segment_idx g \<and> num_edges h' = num_edges g"
  using stale_backup [OF assms(1,2) _ assms(5,6), of junk mv ml h q1] assms(3,4) destroy_ok [OF assms(1,2)] by simp

theorem stale_backup_used_witness:
  "\<exists>h' q'. reopen demo (\<lambda>_. zero_vertex) (\<lambda>_. 7) (live_pool demo_apart (backed_up demo (created_pool demo 0))) = Inr (h', q') \<and>
     edges h' = edges demo_apart \<and> log_ptr h' = log_ptr demo_apart \<and> vertices h' = vertices demo \<and>
     log_segment_idx h' = log_segment_idx demo \<and> num_edges h' = num_edges demo"
proof -
  note w = wfD(2) [OF invD(1) [OF demo_inv_demo(1)]]
  note f = created_pool_fits [OF w, of 0]
  obtain q h where q: "destroy demo (created_pool demo 0) = Inr q" "reopen demo (\<lambda>_. zero_vertex) (\<lambda>_. 7) q = Inr (h, q)"
    using clean_reopen [OF w f, of demo "\<lambda>_. zero_vertex" "\<lambda>_. 7"] by blast
  have "q = backed_up demo (created_pool demo 0)" using destroy_ok [OF w f] q(1) by simp
  then show ?thesis using stale_backup_used [OF w f q, of demo_apart demo "\<lambda>_. zero_vertex" "\<lambda>_. 7"]
    by (simp add: demo_fields) (simp add: demo_apart_def demo_graph_def)
qed

end
