(* ===== verification/DgapKernels.thy ===== *)
theory DgapKernels
  imports KernelCc KernelBfsOk DgapLifeClaims
begin

text \<open>
  The kernels on the graph of \<^verbatim>\<open>graph.h\<close>: its neighbourhoods satisfy what the kernels need to read.
\<close>

section \<open>Graphs the kernels can read\<close>

text \<open>The layout is right, and every stored target is a vertex.\<close>

definition readable :: "dgraph \<Rightarrow> bool" where
  "readable g \<longleftrightarrow> wf_layout g \<and> (\<forall>v. 0 \<le> v \<and> v < num_vertices g \<longrightarrow> deg g v < 2 ^ 31 \<and>
     (\<forall>u \<in> set (tl (vlist g v)). 0 \<le> u \<and> u < num_vertices g))"

lemma visit_order_set: "wf_layout g \<Longrightarrow> 0 \<le> v \<Longrightarrow> v < num_vertices g \<Longrightarrow> set (visit_order g v) = set (tl (vlist g v))"
  by (metis set_mset_mset visit_order_mset wf_layoutD(2))

interpretation dgap_graphs: readable_graphs readable num_vertices "\<lambda>g v. out_neighbors g v 0" visit_order
proof
  fix g assume r: "readable g"
  then have W: "wf_layout g" by (simp add: readable_def)
  show "0 \<le> num_vertices g" using wf_shapeD [OF wf_layoutD(1) [OF W]] by simp
  fix v assume v: "0 \<le> v" "v < num_vertices g"
  have "0 < deg g v" using vertex_okD(4) [OF wf_layoutD(2) [OF W v]] by simp
  moreover have "deg g v < 2 ^ 31" using r v unfolding readable_def by blast
  ultimately have "out_neighbors g v 0 = Inr (drop (nat 0) (visit_order g v))" by (intro out_neighbors_ok [OF W v]) simp_all
  then show "out_neighbors g v 0 = Inr (visit_order g v)" by simp
  fix u assume "u \<in> set (visit_order g v)"
  then have "u \<in> set (tl (vlist g v))" unfolding visit_order_set [OF W v] .
  then show "0 \<le> u \<and> u < num_vertices g" using r v unfolding readable_def by blast
qed

section \<open>Connected components\<close>

text \<open>C19: on a graph whose targets are vertices, \<^verbatim>\<open>ShiloachVishkin\<close> terminates, and two vertices get the same label
  exactly when they are linked by edges in either direction; the label is the least vertex of the component.\<close>

theorem components_labelled:
  assumes "readable g"
  shows "\<exists>cmp. ShiloachVishkin (num_vertices g) (\<lambda>v. out_neighbors g v 0) = Inr cmp \<and>
    components (num_vertices g) (\<lambda>v. tl (vlist g v)) cmp"
proof -
  have W: "wf_layout g" using assms by (simp add: readable_def)
  have "edge_rel (num_vertices g) (visit_order g) = edge_rel (num_vertices g) (\<lambda>v. tl (vlist g v))"
    unfolding edge_rel_def using visit_order_set [OF W] by (intro set_eqI) (clarsimp, metis)
  then have "components (num_vertices g) (visit_order g) = components (num_vertices g) (\<lambda>v. tl (vlist g v))"
    by (intro ext) (simp only: components_def linked_def)
  then show ?thesis using dgap_graphs.shiloach_vishkin [OF assms] by simp
qed

lemma demo_readable: "readable demo"
proof -
  have "wf_layout demo" by (rule wfD(1) [OF invD(1) [OF demo_inv_demo(1)]])
  moreover have "vlist demo 0 = [0, 1]" "vlist demo 1 = [-1]" "deg demo 0 = 2" "deg demo 1 = 1"
    by (simp_all add: vlist_def demo_def demo_simps cells_Cons)
  ultimately show ?thesis by (simp add: readable_def demo_fields all_int2)
qed

theorem components_labelled_witness:
  "\<exists>cmp. ShiloachVishkin (num_vertices demo) (\<lambda>v. out_neighbors demo v 0) = Inr cmp \<and>
    components (num_vertices demo) (\<lambda>v. tl (vlist demo v)) cmp"
  by (rule components_labelled [OF demo_readable])

section \<open>Breadth-first search\<close>

text \<open>The graph as the search reads it; iterating over \<^verbatim>\<open>in_neigh\<close> is iterating over what it returns.\<close>

definition in_neighbors :: "dgraph \<Rightarrow> int \<Rightarrow> int \<Rightarrow> int list res" where
  "in_neighbors g n start_offset =
     sbind (in_neigh g n start_offset) (\<lambda>nb.
     collect (edges g) (nat (v_degree (nb_src nb))) (nb_begin_it nb))"

definition dgap_ops :: "dgraph \<Rightarrow> graph_ops" where
  "dgap_ops g = \<lparr>g_nodes = num_vertices g, g_out_neigh = \<lambda>v. out_neighbors g v 0, g_in_neigh = \<lambda>v. in_neighbors g v 0,
     g_out_degree = out_degree g, g_edges_directed = num_edges_directed g\<rparr>"

text \<open>The edges in both directions, as in a graph built with symmetrization.\<close>

definition undirected :: "dgraph \<Rightarrow> bool" where
  "undirected g \<longleftrightarrow> (\<forall>u v. 0 \<le> u \<and> u < num_vertices g \<and> 0 \<le> v \<and> v < num_vertices g \<longrightarrow>
     (v \<in> set (tl (vlist g u)) \<longleftrightarrow> u \<in> set (tl (vlist g v))))"

lemma in_neighbors_out: "in_neighbors g n k = out_neighbors g n k"
  by (simp add: in_neighbors_def out_neighbors_def in_neigh_def out_neigh_def)

lemma dgap_reads:
  assumes "readable g" "undirected g"
  shows "graph_reads (dgap_ops g) (visit_order g) (visit_order g)"
  unfolding graph_reads_def
proof (intro allI impI)
  fix v assume v': "0 \<le> v \<and> v < g_nodes (dgap_ops g)"
  have W: "wf_layout g" using assms(1) by (simp add: readable_def)
  have v: "0 \<le> v" "v < num_vertices g" using v' by (simp_all add: dgap_ops_def)
  have o: "out_neighbors g v 0 = Inr (visit_order g v)" by (rule dgap_graphs.out_neigh_reads [OF assms(1) v])
  note ok = wf_layoutD(2) [OF W v]
  have "length (visit_order g v) = length (tl (vlist g v))" using visit_order_mset [OF ok] by (metis size_mset)
  then have l: "int (length (visit_order g v)) = deg g v - 1" using length_vlist [OF ok] vertex_okD(4) [OF ok] by simp
  have d: "out_degree g v = Inr (deg g v - 1)"
    using wf_shapeD [OF wf_layoutD(1) [OF W]] v by (simp add: out_degree_def deg_def)
  have "u \<in> set (visit_order g v) \<longleftrightarrow> 0 \<le> u \<and> u < num_vertices g \<and> v \<in> set (visit_order g u)" for u
  proof (cases "0 \<le> u \<and> u < num_vertices g")
    case True
    then have e: "set (visit_order g v) = set (tl (vlist g v))" "set (visit_order g u) = set (tl (vlist g u))"
      using visit_order_set [OF W] v by simp_all
    have "u \<in> set (tl (vlist g v)) \<longleftrightarrow> v \<in> set (tl (vlist g u))"
      using assms(2) [unfolded undirected_def, rule_format, of v u] v True by simp
    then show ?thesis using True unfolding e by simp
  next
    case False
    then show ?thesis using dgap_graphs.adj_range [OF assms(1) v, of u] by blast
  qed
  then show "g_out_neigh (dgap_ops g) v = Inr (visit_order g v) \<and> g_in_neigh (dgap_ops g) v = Inr (visit_order g v) \<and>
    g_out_degree (dgap_ops g) v = Inr (int (length (visit_order g v))) \<and>
    (\<forall>u. u \<in> set (visit_order g v) \<longleftrightarrow> 0 \<le> u \<and> u < g_nodes (dgap_ops g) \<and> v \<in> set (visit_order g u))"
    using o l d by (simp add: dgap_ops_def in_neighbors_out)
qed

text \<open>C20: on a graph that holds every edge in both directions, \<^verbatim>\<open>DOBFS\<close> terminates; every vertex that can be reached
  from the source gets a parent that is one level nearer and has an edge to it, every other vertex gets \<open>-1\<close>, whatever the
  switching between top-down and bottom-up steps.\<close>

theorem bfs_parents:
  assumes "readable g" "undirected g" "0 \<le> source" "source < num_vertices g" "0 < beta"
  shows "\<exists>parent. DOBFS mp mq mb (dgap_ops g) source alpha beta = Inr parent \<and>
    bfs_result (num_vertices g) (\<lambda>v. tl (vlist g v)) source parent"
proof -
  have W: "wf_layout g" using assms(1) by (simp add: readable_def)
  have n: "g_nodes (dgap_ops g) = num_vertices g" by (simp add: dgap_ops_def)
  have S: "searchable (num_vertices g) (visit_order g) source"
    unfolding searchable_def using assms(3,4) dgap_graphs.adj_range [OF assms(1)] by blast
  have "bfs_result (num_vertices g) (visit_order g) source = bfs_result (num_vertices g) (\<lambda>v. tl (vlist g v)) source"
    by (rule bfs_result_cong [OF S]) (use visit_order_set [OF W] in auto)
  then show ?thesis using DOBFS_ok [OF S [folded n] dgap_reads [OF assms(1,2)] assms(5)] by (simp add: n)
qed

text \<open>The demonstration graph with its edge in both directions.\<close>

definition demo_both :: dgraph where
  "demo_both = demo_graph [0, 1, 0, 0, -1, 0, 0, 0] 2 4 2 (-1) 4 (replicate 170 zero_entry) 0"

lemma demo_both_reads: "readable demo_both" "undirected demo_both"
proof -
  have v: "vlist demo_both 0 = [0, 1]" "vlist demo_both 1 = [-1, 0]" "deg demo_both 0 = 2" "deg demo_both 1 = 2" "num_vertices demo_both = 2"
    by (simp_all add: vlist_def demo_both_def demo_simps cells_Cons)
  have "wf_layout demo_both" by (rule wfD(1)) (simp add: demo_both_def demo_wf)
  then show "readable demo_both" using v by (simp add: readable_def all_int2)
  show "undirected demo_both" unfolding undirected_def
  proof (intro allI impI)
    fix x y assume "0 \<le> x \<and> x < num_vertices demo_both \<and> 0 \<le> y \<and> y < num_vertices demo_both"
    then have "x = 0 \<or> x = 1" "y = 0 \<or> y = 1" using v(5) by auto
    then show "(y \<in> set (tl (vlist demo_both x))) = (x \<in> set (tl (vlist demo_both y)))" using v(1,2) by auto
  qed
qed

theorem bfs_parents_witness:
  "\<exists>parent. DOBFS (\<lambda>_. 0) (\<lambda>_. 0) (\<lambda>_. 0) (dgap_ops demo_both) 0 15 18 = Inr parent \<and>
    bfs_result (num_vertices demo_both) (\<lambda>v. tl (vlist demo_both v)) 0 parent"
  by (rule bfs_parents [OF demo_both_reads]) (simp_all add: demo_both_def demo_simps)

text \<open>Without the edges back, a bottom-up step does not see the edge from 0 to 1: \<^verbatim>\<open>in_neigh\<close> returns the out-neighbours.\<close>

lemma bfs_misses_vertex:
  "DOBFS (\<lambda>_. 0) (\<lambda>_. 0) (\<lambda>_. 0) (dgap_ops demo) 0 15 18 = Inr [0, -1] \<and> 1 \<in> set (tl (vlist demo 0))"
proof -
  have v: "vlist demo 0 = [0, 1]" "vlist demo 1 = [-1]" "num_vertices demo = 2" "deg demo 0 = 2" "deg demo 1 = 1"
    by (simp_all add: vlist_def demo_def demo_simps cells_Cons)
  have o: "out_neighbors demo 0 0 = Inr [1]" "out_neighbors demo 1 0 = Inr []"
    using dgap_graphs.out_neigh_reads [OF demo_readable] by (simp_all add: v visit_order_def demo_def demo_simps cells_Cons)
  have d: "out_degree demo 0 = Inr 1" "out_degree demo 1 = Inr 0" by (simp_all add: out_degree_def demo_def demo_simps)
  define g where "g = dgap_ops demo"
  have g: "g_nodes g = 2" "g_out_degree g = out_degree demo" "g_edges_directed g = 3" "g_in_neigh g = (\<lambda>v. out_neighbors demo v 0)"
    by (simp_all add: g_def dgap_ops_def v in_neighbors_out num_edges_directed_def, simp_all add: demo_def demo_simps)
  note ev = rd_def wr_def bm_reset_def word_offset_def bit_offset_def kBitsPerWord_def set_bit_at_def get_bit_at_def
    slide_window_def sq_size_def sq_empty_def len_def g o d Let_def
  have 1: "InitParent g (\<lambda>_. 0) = Inr [-1, -1]"
    by (simp add: InitParent_def init_parent.simps ev upt_rec del: rd_cell wr_upd)
  have 2: "sq_push 0 (sq_new (\<lambda>_. 0) 2) = Inr \<lparr>sq_shared = [0, 0], shared_in = 1, shared_out_start = 0, shared_out_end = 0\<rparr>"
    by (simp add: sq_push_def sq_new_def ev upt_rec del: rd_cell wr_upd)
  have 3: "bm_reset (bm_new (\<lambda>_. 0) 2) = [0]" by (simp add: bm_new_def ev)
  let ?q = "\<lparr>sq_shared = [0, 0], shared_in = 1, shared_out_start = 0, shared_out_end = 1\<rparr> :: squeue"
  have 4: "QueueToBitmap ?q [0] = Inr [1]" by (simp add: QueueToBitmap_def queue_bits.simps ev del: rd_cell wr_upd)
  have 5: "BUStep g [0, -1] [1] [0] = Inr ([0, -1], [0], 0)" by (simp add: BUStep_def bu_nodes.simps ev del: rd_cell wr_upd)
  let ?q' = "\<lparr>sq_shared = [0, 0], shared_in = 1, shared_out_start = 1, shared_out_end = 1\<rparr> :: squeue"
  have 6: "BitmapToQueue g [0] ?q' = Inr ?q'"
    by (simp add: BitmapToQueue_def bits_queue.simps qb_flush_def ev del: rd_cell wr_upd)
  have n: "nat (g_nodes g) + 2 = Suc (Suc (Suc (Suc 0)))" by (simp add: g)
  have 7: "bu_loop (nat (g_nodes g) + 2) g 18 1 ([0, -1], [1], [0]) = Inr ([0, -1], [0], [1])"
    unfolding n by (simp add: 5 ev cdiv_def)
  have 8: "bottom_up (nat (g_nodes g) + 2) g 18 \<lparr>b_parent = [0, -1], b_queue = ?q, b_curr = [0], b_front = [0], edges_to_check = 3, scout_count = 1\<rparr>
      = Inr \<lparr>b_parent = [0, -1], b_queue = ?q', b_curr = [1], b_front = [0], edges_to_check = 3, scout_count = 1\<rparr>"
    unfolding bottom_up_def using 4 7 6 by (simp add: slide_window_def sq_size_def)
  have 9: "bfs_loop (nat (g_nodes g) + 2) g 15 18 \<lparr>b_parent = [0, -1], b_queue = ?q, b_curr = [0], b_front = [0], edges_to_check = 3, scout_count = 1\<rparr> = Inr [0, -1]"
    using 8 unfolding n by (simp add: sq_empty_def cdiv_def g(1) numeral_eq_Suc)
  have "DOBFS (\<lambda>_. 0) (\<lambda>_. 0) (\<lambda>_. 0) g 0 15 18 = Inr [0, -1]"
    unfolding DOBFS_def using 9 by (simp add: 1 2 [folded g(1)] 3 [folded g(1)] slide_window_def g(2,3) d wr_def del: wr_upd bfs_loop.simps add_2_eq_Suc add_2_eq_Suc')
  then show ?thesis using v by (simp add: g_def)
qed

end
