(* ===== verification/DgapThreads.thy ===== *)
theory DgapThreads
  imports DgapInsert
begin

text \<open>
  The lock protocol of several writers: \<^verbatim>\<open>insert(src, dst)\<close> and \<^verbatim>\<open>rebalance_all\<close> of \<^verbatim>\<open>graph.h\<close> as sequences of
  steps that other threads interleave with, over the mutexes, the counters \<^verbatim>\<open>on_rebalance\<close> and the condition
  variables of the leaf segments. The graph itself is left out: the outcome of a density test is an input
  of the step, so the steps are an over-approximation: every run of the code is one, and what holds in all reachable states holds for
  the code, but a run of the steps need not be one of the code. A \<^verbatim>\<open>compare_and_swap\<close> loop is one step, a plain \<^verbatim>\<open>+=\<close> a load and a store.
\<close>

section \<open>Positions in the code\<close>

text \<open>
  A call of \<^verbatim>\<open>lock_in_batch\<close>: in the climb from segment \<open>c\<close> at height \<open>h\<close>, or for all segments (before a
  resize with source segment \<open>c\<close>, from \<^verbatim>\<open>rebalance_all\<close> with \<open>-1\<close>).
\<close>

datatype batch = Climb int nat | Whole int

primrec ba_src :: "batch \<Rightarrow> int" where
  "ba_src (Climb c h) = c"
| "ba_src (Whole c) = c"

text \<open>\<open>left_segment\<close>, \<open>right_segment\<close> and \<open>window\<close>, in segments; \<open>n\<close> is \<^verbatim>\<open>segment_count\<close>.\<close>

primrec ba_left :: "batch \<Rightarrow> int" where
  "ba_left (Climb c h) = c div 2 ^ h * 2 ^ h"
| "ba_left (Whole c) = 0"

primrec ba_right :: "int \<Rightarrow> batch \<Rightarrow> int" where
  "ba_right n (Climb c h) = min (c div 2 ^ h * 2 ^ h + 2 ^ h) n"
| "ba_right n (Whole c) = n"

primrec ba_window :: "int \<Rightarrow> batch \<Rightarrow> int" where
  "ba_window n (Climb c h) = (c + n) div 2 ^ h"
| "ba_window n (Whole c) = 0"

datatype pc =
    Idle
  | AtLock int                      \<comment> \<open>about to take the lock of the segment\<close>
  | Testing int                     \<comment> \<open>the predicate of \<^verbatim>\<open>cv.wait\<close>, lock held\<close>
  | Asleep int                      \<comment> \<open>in \<^verbatim>\<open>cv.wait\<close>\<close>
  | Inserting int                   \<comment> \<open>\<^verbatim>\<open>do_insertion\<close> and the density test\<close>
  | AtLoad int | AtStore int int    \<comment> \<open>\<^verbatim>\<open>on_rebalance += 1\<close>\<close>
  | AtUnlock int bool               \<comment> \<open>\<^verbatim>\<open>ul.unlock()\<close>, and whether the climb follows\<close>
  | Raising batch int | Taking batch int  \<comment> \<open>\<^verbatim>\<open>lock_in_batch\<close>: the counter, the lock\<close>
  | Holding batch                   \<comment> \<open>the window is locked\<close>
  | Relocking batch | Relocked batch \<comment> \<open>the resize branch entered with the window still locked\<close>
  | Returned batch                  \<comment> \<open>\<^verbatim>\<open>insert\<close> has returned with the window still locked\<close>
  | Lowering batch bool int | Peeking batch bool int | Dropping batch bool int int | Notifying batch bool int int
      \<comment> \<open>\<^verbatim>\<open>unlock_in_batch\<close>, with \<open>True\<close> the two-argument version\<close>

record threads =
  holder :: "int \<Rightarrow> nat option"
  counter :: "int \<Rightarrow> int"
  pos :: "nat \<Rightarrow> pc"

definition all_idle :: threads where
  "all_idle = \<lparr>holder = (\<lambda>_. None), counter = (\<lambda>_. 0), pos = (\<lambda>_. Idle)\<rparr>"

section \<open>The steps of a thread\<close>

definition goto :: "nat \<Rightarrow> pc \<Rightarrow> threads \<Rightarrow> threads" where
  "goto t p s = s\<lparr>pos := (pos s)(t := p)\<rparr>"

definition own :: "int \<Rightarrow> nat option \<Rightarrow> threads \<Rightarrow> threads" where
  "own k u s = s\<lparr>holder := (holder s)(k := u)\<rparr>"

definition set_count :: "int \<Rightarrow> int \<Rightarrow> threads \<Rightarrow> threads" where
  "set_count k x s = s\<lparr>counter := (counter s)(k := x)\<rparr>"

definition wake :: "int \<Rightarrow> threads \<Rightarrow> threads" where
  "wake k s = s\<lparr>pos := (\<lambda>u. if pos s u = Asleep k then AtLock k else pos s u)\<rparr>"

text \<open>After the first \<^verbatim>\<open>unlock\<close> and after each window that is too dense, the next window.\<close>

definition climb_to :: "int \<Rightarrow> nat \<Rightarrow> pc" where
  "climb_to c h = Raising (Climb c h) (ba_left (Climb c h))"

definition advance_insert :: "nat \<Rightarrow> bool \<Rightarrow> pc \<Rightarrow> threads \<Rightarrow> threads option" where
  "advance_insert t d p s = (case p of
     AtLock c \<Rightarrow> if holder s c = None then Some (goto t (Testing c) (own c (Some t) s)) else None
   | Testing c \<Rightarrow> if counter s c = 0 then Some (goto t (Inserting c) s) else Some (goto t (Asleep c) (own c None s))
   | Inserting c \<Rightarrow> Some (goto t (if d then AtLoad c else AtUnlock c False) s)
   | AtLoad c \<Rightarrow> Some (goto t (AtStore c (counter s c)) s)
   | AtStore c v \<Rightarrow> Some (goto t (AtUnlock c True) (set_count c (v + 1) s))
   | AtUnlock c b \<Rightarrow> Some (goto t (if b then climb_to c 1 else Idle) (own c None s))
   | _ \<Rightarrow> None)"

definition advance_lock :: "int \<Rightarrow> nat \<Rightarrow> pc \<Rightarrow> threads \<Rightarrow> threads option" where
  "advance_lock n t p s = (case p of
     Raising b k \<Rightarrow> if k < ba_right n b
       then Some (goto t (Taking b k) (if k \<noteq> ba_src b then set_count k (counter s k + 1) s else s))
       else Some (goto t (Holding b) s)
   | Taking b k \<Rightarrow> if holder s k = None then Some (goto t (Raising b (k + 1)) (own k (Some t) s)) else None
   | _ \<Rightarrow> None)"

text \<open>With the window locked: \<open>d\<close> is \<^verbatim>\<open>density < up_height\<close>, and \<^verbatim>\<open>density < up_0\<close> in the resize branch.\<close>

definition advance_window :: "int \<Rightarrow> nat \<Rightarrow> bool \<Rightarrow> pc \<Rightarrow> threads \<Rightarrow> threads option" where
  "advance_window n t d p s = (case p of
     Holding (Whole c) \<Rightarrow> Some (goto t (Lowering (Whole c) True (n - 1)) s)
   | Holding (Climb c h) \<Rightarrow> let b = Climb c h in
       if d then if ba_window n b \<noteq> 0 then Some (goto t (Lowering b True (ba_right n b - 1)) s)
                 else Some (goto t (Relocking b) s)
       else Some (goto t (Lowering b False (ba_right n b - 1)) s)
   | Relocking b \<Rightarrow> if d then Some (goto t (Returned b) s)
       else Some (goto t (Relocked b) (if ba_src b \<noteq> 0 then set_count 0 (counter s 0 + 1) s else s))
   | _ \<Rightarrow> None)"

definition advance_unlock :: "int \<Rightarrow> nat \<Rightarrow> bool \<Rightarrow> pc \<Rightarrow> threads \<Rightarrow> threads option" where
  "advance_unlock n t d p s = (case p of
     Lowering b a k \<Rightarrow>
       if ba_left b \<le> k
       then Some (goto t (Peeking b a k) (if a \<or> k \<noteq> ba_src b then set_count k (counter s k - 1) s else s))
       else if a then Some (goto t Idle s)
       else (case b of
           Climb c h \<Rightarrow> if ba_window n b > 0 then Some (goto t (climb_to c (h + 1)) s)
             else if d then Some (goto t Idle s) else Some (goto t (Raising (Whole c) 0) s)
         | Whole c \<Rightarrow> None)
   | Peeking b a k \<Rightarrow> Some (goto t (Dropping b a k (counter s k)) s)
   | Dropping b a k v \<Rightarrow> Some (goto t (Notifying b a k v) (own k None s))
   | Notifying b a k v \<Rightarrow> Some (goto t (Lowering b a (k - 1)) (if v = 0 then wake k s else s))
   | _ \<Rightarrow> None)"

definition advance :: "int \<Rightarrow> nat \<Rightarrow> bool \<Rightarrow> threads \<Rightarrow> threads option" where
  "advance n t d s = (case pos s t of
     Raising b k \<Rightarrow> advance_lock n t (pos s t) s
   | Taking b k \<Rightarrow> advance_lock n t (pos s t) s
   | Holding b \<Rightarrow> advance_window n t d (pos s t) s
   | Relocking b \<Rightarrow> advance_window n t d (pos s t) s
   | Lowering b a k \<Rightarrow> advance_unlock n t d (pos s t) s
   | Peeking b a k \<Rightarrow> advance_unlock n t d (pos s t) s
   | Dropping b a k v \<Rightarrow> advance_unlock n t d (pos s t) s
   | Notifying b a k v \<Rightarrow> advance_unlock n t d (pos s t) s
   | _ \<Rightarrow> advance_insert t d (pos s t) s)"

text \<open>
  What can happen next: an idle thread calls an operation, a thread advances, a sleeping one wakes up for no
  reason, which condition variables allow.
\<close>

inductive tick :: "int \<Rightarrow> threads \<Rightarrow> threads \<Rightarrow> bool" for n where
  call_insert: "pos s t = Idle \<Longrightarrow> 0 \<le> c \<Longrightarrow> c < n \<Longrightarrow> tick n s (goto t (AtLock c) s)"
| call_all: "pos s t = Idle \<Longrightarrow> tick n s (goto t (Raising (Whole (-1)) 0) s)"
| advances: "advance n t d s = Some s' \<Longrightarrow> tick n s s'"
| spurious: "pos s t = Asleep c \<Longrightarrow> tick n s (goto t (AtLock c) s)"

definition reachable :: "int \<Rightarrow> threads \<Rightarrow> bool" where
  "reachable n s = (tick n)\<^sup>*\<^sup>* all_idle s"

section \<open>Who holds what\<close>

fun holds :: "int \<Rightarrow> pc \<Rightarrow> int set" where
  "holds n (Testing c) = {c}"
| "holds n (Inserting c) = {c}"
| "holds n (AtLoad c) = {c}"
| "holds n (AtStore c v) = {c}"
| "holds n (AtUnlock c b) = {c}"
| "holds n (Raising b k) = {ba_left b..<k}"
| "holds n (Taking b k) = {ba_left b..<k}"
| "holds n (Holding b) = {ba_left b..<ba_right n b}"
| "holds n (Relocking b) = {ba_left b..<ba_right n b}"
| "holds n (Relocked b) = {ba_left b..<ba_right n b}"
| "holds n (Returned b) = {ba_left b..<ba_right n b}"
| "holds n (Lowering b a k) = {ba_left b..k}"
| "holds n (Peeking b a k) = {ba_left b..k}"
| "holds n (Dropping b a k v) = {ba_left b..k}"
| "holds n (Notifying b a k v) = {ba_left b..<k}"
| "holds n Idle = {}"
| "holds n (AtLock c) = {}"
| "holds n (Asleep c) = {}"

fun batch_ok :: "int \<Rightarrow> batch \<Rightarrow> bool" where
  "batch_ok n (Climb c h) = (0 \<le> c \<and> c < n)"
| "batch_ok n (Whole c) = (-1 \<le> c \<and> c < n)"

fun pc_ok :: "int \<Rightarrow> pc \<Rightarrow> bool" where
  "pc_ok n (AtLock c) = (0 \<le> c \<and> c < n)"
| "pc_ok n (Testing c) = (0 \<le> c \<and> c < n)"
| "pc_ok n (Asleep c) = (0 \<le> c \<and> c < n)"
| "pc_ok n (Inserting c) = (0 \<le> c \<and> c < n)"
| "pc_ok n (AtLoad c) = (0 \<le> c \<and> c < n)"
| "pc_ok n (AtStore c v) = (0 \<le> c \<and> c < n)"
| "pc_ok n (AtUnlock c b) = (0 \<le> c \<and> c < n)"
| "pc_ok n (Raising b k) = (batch_ok n b \<and> ba_left b \<le> k \<and> k \<le> ba_right n b)"
| "pc_ok n (Taking b k) = (batch_ok n b \<and> ba_left b \<le> k \<and> k < ba_right n b)"
| "pc_ok n (Lowering b a k) = (batch_ok n b \<and> (a \<or> (\<exists>c h. b = Climb c h)) \<and> ba_left b - 1 \<le> k \<and> k < ba_right n b)"
| "pc_ok n (Peeking b a k) = (batch_ok n b \<and> (a \<or> (\<exists>c h. b = Climb c h)) \<and> ba_left b \<le> k \<and> k < ba_right n b)"
| "pc_ok n (Dropping b a k v) = (batch_ok n b \<and> (a \<or> (\<exists>c h. b = Climb c h)) \<and> ba_left b \<le> k \<and> k < ba_right n b)"
| "pc_ok n (Notifying b a k v) = (batch_ok n b \<and> (a \<or> (\<exists>c h. b = Climb c h)) \<and> ba_left b \<le> k \<and> k < ba_right n b)"
| "pc_ok n (Holding b) = batch_ok n b"
| "pc_ok n (Relocking b) = batch_ok n b"
| "pc_ok n (Relocked b) = batch_ok n b"
| "pc_ok n (Returned b) = batch_ok n b"
| "pc_ok n Idle = True"

definition consistent :: "int \<Rightarrow> threads \<Rightarrow> bool" where
  "consistent n s \<longleftrightarrow> (\<forall>t. pc_ok n (pos s t)) \<and> (\<forall>t k. holder s k = Some t \<longleftrightarrow> k \<in> holds n (pos s t))"

end
