(* ===== verification/DgapThreadsOk.thy ===== *)
theory DgapThreadsOk
  imports DgapThreads
begin

text \<open>
  What the protocol keeps: every lock is held by the one thread whose position says so; as long as no thread
  leaves the resize branch with its window locked, some active thread can move.
\<close>

section \<open>The invariant\<close>

lemma goto_simps [simp]:
  "holder (goto t p s) = holder s" "counter (goto t p s) = counter s" "pos (goto t p s) u = (if u = t then p else pos s u)"
  by (simp_all add: goto_def)

lemma own_simps [simp]:
  "holder (own k u s) j = (if j = k then u else holder s j)" "counter (own k u s) = counter s" "pos (own k u s) = pos s"
  by (simp_all add: own_def)

lemma set_count_simps [simp]:
  "holder (set_count k x s) = holder s" "counter (set_count k x s) j = (if j = k then x else counter s j)" "pos (set_count k x s) = pos s"
  by (simp_all add: set_count_def)

lemma wake_simps [simp]:
  "holder (wake k s) = holder s" "counter (wake k s) = counter s"
  "pos (wake k s) u = (if pos s u = Asleep k then AtLock k else pos s u)"
  by (simp_all add: wake_def)

lemma left_le_src: "0 \<le> c \<Longrightarrow> ba_left (Climb c h) \<le> c"
  by (simp add: minus_mod_eq_div_mult [symmetric])

lemma batch_bounds: "batch_ok n b \<Longrightarrow> 0 < n \<Longrightarrow> 0 \<le> ba_left b \<and> ba_left b < ba_right n b \<and> ba_right n b \<le> n"
proof (cases b)
  case (Climb c h)
  assume "batch_ok n b" "0 < n"
  then have c: "0 \<le> c" "c < n" using Climb by simp_all
  have "c div 2 ^ h * 2 ^ h \<le> c" using left_le_src [OF c(1), of h] by simp
  moreover have "0 \<le> c div 2 ^ h" using c by (simp add: pos_imp_zdiv_nonneg_iff)
  then have "0 \<le> c div 2 ^ h * 2 ^ h" by simp
  ultimately show ?thesis using c Climb by auto
qed auto

lemma climb_ok: "0 < n \<Longrightarrow> 0 \<le> c \<Longrightarrow> c < n \<Longrightarrow> pc_ok n (climb_to c h)"
  using batch_bounds [of n "Climb c h"] by (simp add: climb_to_def)

declare ba_left.simps(1) [simp del] ba_right.simps(1) [simp del]

text \<open>A step of thread \<open>t\<close> that moves locks between \<open>t\<close> and nobody.\<close>

lemma consistentI:
  assumes C: "consistent n s" and p: "pc_ok n p"
    and h: "\<And>k. holder s' k = (if k \<in> holds n p then Some t else if k \<in> holds n (pos s t) then None else holder s k)"
    and new: "\<And>k. k \<in> holds n p \<Longrightarrow> k \<in> holds n (pos s t) \<or> holder s k = None"
    and q: "\<And>u. u \<noteq> t \<Longrightarrow> pos s' u = pos s u \<or> (\<exists>c. pos s u = Asleep c \<and> pos s' u = AtLock c)" "pos s' t = p"
  shows "consistent n s'"
  unfolding consistent_def
proof (intro conjI allI)
  fix u
  have ok: "pc_ok n (pos s u)" and own: "holder s k = Some u \<longleftrightarrow> k \<in> holds n (pos s u)" for u k
    using C by (auto simp: consistent_def)
  show "pc_ok n (pos s' u)" using q(1) [of u] ok [of u] p q(2) by (cases "u = t") auto
  fix k
  show "holder s' k = Some u \<longleftrightarrow> k \<in> holds n (pos s' u)"
  proof (cases "u = t")
    case True
    then show ?thesis using h [of k] q(2) own [of k t] by auto
  next
    case False
    have "k \<in> holds n (pos s' u) \<longleftrightarrow> k \<in> holds n (pos s u)" using q(1) [OF False] by auto
    moreover have "k \<notin> holds n p" "k \<notin> holds n (pos s t)" if "k \<in> holds n (pos s u)"
      using that own [of k u] own [of k t] new [of k] False by auto
    ultimately show ?thesis using h [of k] own [of k u] False by auto
  qed
qed

lemma consistent_holds: "consistent n s \<Longrightarrow> k \<in> holds n (pos s t) \<Longrightarrow> holder s k = Some t"
  by (simp add: consistent_def)

lemma insert_consistent:
  assumes C: "consistent n s" and n: "0 < n" and a: "advance_insert t d (pos s t) s = Some s'"
  shows "consistent n s'"
proof -
  have ok: "pc_ok n (pos s t)" using C by (simp add: consistent_def)
  note H = consistent_holds [OF C, of _ t]
  show ?thesis
  proof (cases "pos s t")
    case (AtUnlock c b)
    then show ?thesis using a ok H n climb_ok [of n c 1]
      by (intro consistentI [OF C, of "pos s' t" s' t]) (auto simp: advance_insert_def climb_to_def split: if_splits)
  next
    case (AtLock c)
    then show ?thesis using a ok H
      by (intro consistentI [OF C, of "Testing c"]) (auto simp: advance_insert_def split: if_splits)
  next
    case (Testing c)
    then show ?thesis using a ok H
      by (intro consistentI [OF C, of "pos s' t" s' t]) (auto simp: advance_insert_def split: if_splits)
  next
    case (Inserting c)
    then show ?thesis using a ok H
      by (intro consistentI [OF C, of "pos s' t" s' t]) (auto simp: advance_insert_def split: if_splits)
  next
    case (AtLoad c)
    then show ?thesis using a ok H
      by (intro consistentI [OF C, of "pos s' t" s' t]) (auto simp: advance_insert_def)
  next
    case (AtStore c v)
    then show ?thesis using a ok H
      by (intro consistentI [OF C, of "pos s' t" s' t]) (auto simp: advance_insert_def)
  qed (use a in \<open>simp_all add: advance_insert_def\<close>)
qed

lemma lock_consistent:
  assumes C: "consistent n s" and n: "0 < n" and a: "advance_lock n t (pos s t) s = Some s'"
  shows "consistent n s'"
proof -
  have ok: "pc_ok n (pos s t)" using C by (simp add: consistent_def)
  note H = consistent_holds [OF C, of _ t]
  show ?thesis
  proof (cases "pos s t")
    case (Raising b k)
    then show ?thesis using a ok H
      by (intro consistentI [OF C, of "pos s' t" s' t]) (auto simp: advance_lock_def split: if_splits)
  next
    case (Taking b k)
    then have "s' = goto t (Raising b (k + 1)) (own k (Some t) s)" "holder s k = None" using a by (auto simp: advance_lock_def split: if_splits)
    moreover have "j \<in> {ba_left b..<k + 1} \<longleftrightarrow> j = k \<or> j \<in> {ba_left b..<k}" for j using ok Taking by auto
    ultimately show ?thesis using Taking ok H
      by (intro consistentI [OF C, of "Raising b (k + 1)" s' t]) auto
  qed (use a in \<open>simp_all add: advance_lock_def\<close>)
qed

lemma window_consistent:
  assumes C: "consistent n s" and n: "0 < n" and a: "advance_window n t d (pos s t) s = Some s'"
  shows "consistent n s'"
proof -
  have ok: "pc_ok n (pos s t)" using C by (simp add: consistent_def)
  note H = consistent_holds [OF C, of _ t]
  show ?thesis
  proof (cases "pos s t")
    case (Holding b)
    have bb: "0 \<le> ba_left b \<and> ba_left b < ba_right n b \<and> ba_right n b \<le> n" using batch_bounds [OF _ n] ok Holding by simp
    show ?thesis
    proof (cases b)
      case (Climb c h)
      then show ?thesis using a ok H Holding bb
        by (intro consistentI [OF C, of "pos s' t" s' t]) (auto simp: advance_window_def Let_def split: if_splits)
    next
      case (Whole c)
      then show ?thesis using a ok H Holding bb
        by (intro consistentI [OF C, of "pos s' t" s' t]) (auto simp: advance_window_def)
    qed
  next
    case (Relocking b)
    then show ?thesis using a ok H
      by (intro consistentI [OF C, of "pos s' t" s' t]) (auto simp: advance_window_def split: if_splits)
  qed (use a in \<open>simp_all add: advance_window_def\<close>)
qed

lemma unlock_consistent:
  assumes C: "consistent n s" and n: "0 < n" and a: "advance_unlock n t d (pos s t) s = Some s'"
  shows "consistent n s'"
proof -
  have ok: "pc_ok n (pos s t)" using C by (simp add: consistent_def)
  note H = consistent_holds [OF C, of _ t]
  show ?thesis
  proof (cases "pos s t")
    case (Lowering b x k)
    show ?thesis
    proof (cases "ba_left b \<le> k")
      case True
      then show ?thesis using a ok H Lowering
        by (intro consistentI [OF C, of "pos s' t" s' t]) (auto simp: advance_unlock_def split: if_splits)
    next
      case False
      then have e: "holds n (pos s t) = {}" using Lowering by simp
      have "pc_ok n (pos s' t) \<and> holds n (pos s' t) = {} \<and> holder s' = holder s \<and> (\<forall>u. u \<noteq> t \<longrightarrow> pos s' u = pos s u)"
        using a ok False Lowering n climb_ok [OF n] by (cases b) (auto simp: advance_unlock_def climb_to_def split: if_splits)
      then show ?thesis using e by (intro consistentI [OF C, of "pos s' t" s' t]) auto
    qed
  next
    case (Peeking b x k)
    then show ?thesis using a ok H
      by (intro consistentI [OF C, of "pos s' t" s' t]) (auto simp: advance_unlock_def)
  next
    case (Dropping b x k v)
    then show ?thesis using a ok H
      by (intro consistentI [OF C, of "pos s' t" s' t]) (auto simp: advance_unlock_def)
  next
    case (Notifying b x k v)
    then show ?thesis using a ok H
      by (intro consistentI [OF C, of "pos s' t" s' t]) (auto simp: advance_unlock_def split: if_splits)
  qed (use a in \<open>simp_all add: advance_unlock_def\<close>)
qed

lemma advance_cases:
  "advance n t d s = Some s' \<Longrightarrow> advance_insert t d (pos s t) s = Some s' \<or> advance_lock n t (pos s t) s = Some s' \<or>
     advance_window n t d (pos s t) s = Some s' \<or> advance_unlock n t d (pos s t) s = Some s'"
  by (auto simp: advance_def split: pc.splits)

lemma tick_consistent:
  assumes "tick n s s'" "consistent n s" "0 < n"
  shows "consistent n s'"
  using assms
proof cases
  case (call_insert t c)
  then show ?thesis using assms(2) by (intro consistentI [OF assms(2), of "AtLock c" s' t]) (auto dest: consistent_holds)
next
  case (call_all t)
  then show ?thesis using assms(2,3) by (intro consistentI [OF assms(2), of "Raising (Whole (-1)) 0" s' t]) (auto dest: consistent_holds)
next
  case (advances t d)
  then show ?thesis using insert_consistent [OF assms(2,3)] lock_consistent [OF assms(2,3)] window_consistent [OF assms(2,3)]
    unlock_consistent [OF assms(2,3)] advance_cases by blast
next
  case (spurious t c)
  moreover have "pc_ok n (pos s t)" using assms(2) by (simp add: consistent_def)
  ultimately show ?thesis by (intro consistentI [OF assms(2), of "AtLock c" s' t]) auto
qed

lemma reachable_consistent: "reachable n s \<Longrightarrow> 0 < n \<Longrightarrow> consistent n s"
  unfolding reachable_def
proof (induction rule: rtranclp_induct)
  case base
  then show ?case by (simp add: consistent_def all_idle_def)
next
  case (step s s')
  then show ?case using tick_consistent by blast
qed

section \<open>Progress\<close>

definition active :: "pc \<Rightarrow> bool" where
  "active p = (case p of Idle \<Rightarrow> False | Asleep c \<Rightarrow> False | _ \<Rightarrow> True)"

text \<open>Out of the resize branch with the window still locked: blocked on its own lock, or gone.\<close>

definition stopped :: "pc \<Rightarrow> bool" where
  "stopped p = (case p of Relocked b \<Rightarrow> True | Returned b \<Rightarrow> True | _ \<Rightarrow> False)"

definition waits_for :: "int \<Rightarrow> pc \<Rightarrow> bool" where
  "waits_for k p \<longleftrightarrow> p = AtLock k \<or> (\<exists>b. p = Taking b k)"

lemma moves_or_waits:
  assumes "pc_ok n (pos s t)" "active (pos s t)" "\<not> stopped (pos s t)"
  shows "(\<exists>d s'. advance n t d s = Some s') \<or> (\<exists>k u. waits_for k (pos s t) \<and> holder s k = Some u)"
proof (cases "pos s t")
  case (Lowering b a k)
  then show ?thesis using assms
    by (cases b) (auto simp: advance_def advance_unlock_def)
next
  case (Holding b)
  then show ?thesis by (cases b) (auto simp: advance_def advance_window_def Let_def)
qed (use assms in \<open>auto simp: advance_def advance_insert_def advance_lock_def advance_window_def advance_unlock_def active_def stopped_def waits_for_def\<close>)

text \<open>A thread that holds a lock and waits, waits for a later one.\<close>

lemma waits_above: "waits_for k p \<Longrightarrow> j \<in> holds n p \<Longrightarrow> j < k"
  by (auto simp: waits_for_def)

lemma waits_bound: "waits_for k p \<Longrightarrow> pc_ok n p \<Longrightarrow> 0 < n \<Longrightarrow> k < n"
  using batch_bounds [of n] by (fastforce simp: waits_for_def)

lemma holder_active: "j \<in> holds n p \<Longrightarrow> active p"
  by (cases p) (auto simp: active_def)

lemma somebody_moves:
  assumes C: "consistent n s" and n: "0 < n" and go: "\<And>t. \<not> stopped (pos s t)" and t: "active (pos s t)"
  shows "\<exists>u d s'. advance n u d s = Some s' \<and> active (pos s u)"
proof -
  have ok: "pc_ok n (pos s u)" for u using C by (simp add: consistent_def)
  have *: "\<exists>u d s'. advance n u d s = Some s' \<and> active (pos s u)" if "waits_for k (pos s t)" "holder s k = Some u" for k t u
    using that
  proof (induction "nat (n - k)" arbitrary: k t u rule: less_induct)
    case less
    have k: "k \<in> holds n (pos s u)" using less.prems(2) C by (simp add: consistent_def)
    have a: "active (pos s u)" by (rule holder_active [OF k])
    show ?case
    proof (cases "\<exists>d s'. advance n u d s = Some s'")
      case True
      then show ?thesis using a by blast
    next
      case False
      then obtain j v where j: "waits_for j (pos s u)" "holder s j = Some v" using moves_or_waits [OF ok a go] by blast
      have "k < j" by (rule waits_above [OF j(1) k])
      moreover have "j < n" by (rule waits_bound [OF j(1) ok n])
      ultimately show ?thesis by (intro less.hyps [OF _ j]) simp
    qed
  qed
  show ?thesis using moves_or_waits [OF ok t go] * t by blast
qed

end
