(* ===== verification/DgapThreadClaims.thy ===== *)
theory DgapThreadClaims
  imports DgapThreadsOk
begin

text \<open>
  The properties of the lock protocol. They hold for every outcome of the density tests, so for more runs than the
  graph allows: that is enough for what never happens (\<open>locks_exclude\<close>), for what stays as it is
  (\<open>window_never_released\<close>) and for progress (a thread at a test can move with either outcome), and it is why no
  theorem here says that the program reaches a state. The schedules are runs of the model, for the applications.
\<close>

section \<open>Schedules\<close>

datatype event = Call nat int | Step nat bool

fun perform :: "int \<Rightarrow> event \<Rightarrow> threads \<Rightarrow> threads option" where
  "perform n (Call t c) s = (if pos s t = Idle \<and> 0 \<le> c \<and> c < n then Some (goto t (AtLock c) s) else None)"
| "perform n (Step t d) s = advance n t d s"

fun run :: "int \<Rightarrow> event list \<Rightarrow> threads \<Rightarrow> threads option" where
  "run n [] s = Some s"
| "run n (e # es) s = (case perform n e s of None \<Rightarrow> None | Some s' \<Rightarrow> run n es s')"

lemma perform_tick: "perform n e s = Some s' \<Longrightarrow> tick n s s'"
  by (cases e) (auto intro: tick.intros split: if_splits)

lemma run_ticks: "run n es s = Some s' \<Longrightarrow> (tick n)\<^sup>*\<^sup>* s s'"
  by (induction n es s rule: run.induct)
    (auto split: option.splits dest!: perform_tick intro: converse_rtranclp_into_rtranclp)

lemma run_reachable: "run n es all_idle = Some s \<Longrightarrow> reachable n s"
  unfolding reachable_def by (rule run_ticks)













section \<open>Properties\<close>

text \<open>C16: in every reachable state the segments that two threads have locked are disjoint: no insertion runs inside a
  window another thread rebalances, and no two windows overlap.\<close>

theorem locks_exclude:
  assumes "reachable n s" and "0 < n" and "t \<noteq> u"
  shows "holds n (pos s t) \<inter> holds n (pos s u) = {}"
proof (rule ccontr)
  assume "holds n (pos s t) \<inter> holds n (pos s u) \<noteq> {}"
  then obtain k where "k \<in> holds n (pos s t)" "k \<in> holds n (pos s u)" by blast
  then have "holder s k = Some t" "holder s k = Some u" using consistent_holds [OF reachable_consistent [OF assms(1,2)]] by blast+
  then show False using assms(3) by simp
qed

theorem locks_exclude_witness: "holds 2 (pos (goto 1 (AtLock 1) all_idle) 0) \<inter> holds 2 (pos (goto 1 (AtLock 1) all_idle) 1) = {}"
proof (rule locks_exclude)
  have "run 2 [Call 1 1] all_idle = Some (goto 1 (AtLock 1) all_idle)" by (simp add: all_idle_def)
  then show "reachable 2 (goto 1 (AtLock 1) all_idle)" by (rule run_reachable)
qed simp_all

text \<open>C17: in every reachable state with a thread inside an operation and not waiting to be notified, some such thread can
  take its next step (the locks are always taken in increasing order), as long as no thread has gone into the
  resize branch with its window still locked.\<close>

theorem lock_progress:
  assumes "reachable n s" and "0 < n" and "\<And>t. \<not> stopped (pos s t)" and "active (pos s t)"
  shows "\<exists>u d s'. advance n u d s = Some s' \<and> active (pos s u)"
  by (rule somebody_moves [OF reachable_consistent [OF assms(1,2)] assms(2-4)])

theorem lock_progress_witness:
  "\<exists>u d s'. advance 2 u d (goto 1 (AtLock 1) all_idle) = Some s' \<and> active (pos (goto 1 (AtLock 1) all_idle) u)"
proof (rule lock_progress)
  have "run 2 [Call 1 1] all_idle = Some (goto 1 (AtLock 1) all_idle)" by (simp add: all_idle_def)
  then show "reachable 2 (goto 1 (AtLock 1) all_idle)" by (rule run_reachable)
  show "\<not> stopped (pos (goto 1 (AtLock 1) all_idle) t)" for t by (simp add: stopped_def all_idle_def)
  show "active (pos (goto 1 (AtLock 1) all_idle) 1)" by (simp add: active_def)
qed simp





end
