(* ===== verification/PmdkPersist.thy ===== *)
theory PmdkPersist
  imports BttInv
begin

text \<open>
  Persistent memory as the library sees it: a store is visible at once but durable only after its range has been
  flushed and a fence has completed. At a power failure any of the aligned groups of eight bytes of a store
  that is not durable yet may have reached the media, in the order of the stores.
\<close>

section \<open>State\<close>

text \<open>\<open>pm_pending\<close>: the stores that are not durable, oldest first, each with whether its flush has started.\<close>

record pmem =
  pm_live :: "nat \<Rightarrow> byte"
  pm_durable :: "nat \<Rightarrow> byte"
  pm_pending :: "(bool \<times> (nat \<Rightarrow> byte option)) list"

definition store_map :: "nat \<Rightarrow> byte list \<Rightarrow> nat \<Rightarrow> byte option" where
  "store_map off bs x = (if off \<le> x \<and> x < off + length bs then Some (bs ! (x - off)) else None)"

definition pm_store :: "bool \<Rightarrow> nat \<Rightarrow> byte list \<Rightarrow> pmem \<Rightarrow> pmem" where
  "pm_store flushed off bs m = m \<lparr> pm_live := put_at off bs (pm_live m), pm_pending := pm_pending m @ [(flushed, store_map off bs)] \<rparr>"

definition apply_store :: "(nat \<Rightarrow> byte option) \<Rightarrow> (nat \<Rightarrow> byte) \<Rightarrow> nat \<Rightarrow> byte" where
  "apply_store s m x = (case s x of None \<Rightarrow> m x | Some b \<Rightarrow> b)"

text \<open>\<^verbatim>\<open>pmem_drain\<close> completes the flushes that were started.\<close>

definition pm_drain :: "pmem \<Rightarrow> pmem" where
  "pm_drain m = m \<lparr> pm_durable := fold (\<lambda>(f, s). if f then apply_store s else id) (pm_pending m) (pm_durable m),
     pm_pending := filter (\<lambda>(f, s). \<not> f) (pm_pending m) \<rparr>"

text \<open>\<^verbatim>\<open>pmem_persist\<close> and \<^verbatim>\<open>pmem_msync\<close> of a range: its bytes are durable when the call returns.\<close>

definition pm_persist :: "nat \<Rightarrow> nat \<Rightarrow> pmem \<Rightarrow> pmem" where
  "pm_persist off n m = m \<lparr> pm_durable := (\<lambda>x. if off \<le> x \<and> x < off + n then pm_live m x else pm_durable m x),
     pm_pending := map (\<lambda>(f, s). (f, \<lambda>x. if off \<le> x \<and> x < off + n then None else s x)) (pm_pending m) \<rparr>"

section \<open>Power failure\<close>

text \<open>What the media may hold after a power failure: \<open>keep i g\<close> says whether group \<open>g\<close> of the \<open>i\<close>-th pending store made it.\<close>

fun torn_stores :: "(nat \<Rightarrow> nat \<Rightarrow> bool) \<Rightarrow> nat \<Rightarrow> (bool \<times> (nat \<Rightarrow> byte option)) list \<Rightarrow> (nat \<Rightarrow> byte) \<Rightarrow> nat \<Rightarrow> byte" where
  "torn_stores keep i [] m = m"
| "torn_stores keep i ((f, s) # ss) m =
     torn_stores keep (Suc i) ss (\<lambda>x. if keep i (x div 8) then apply_store s m x else m x)"

definition crash_image :: "(nat \<Rightarrow> nat \<Rightarrow> bool) \<Rightarrow> pmem \<Rightarrow> nat \<Rightarrow> byte" where
  "crash_image keep m = torn_stores keep 0 (pm_pending m) (pm_durable m)"

definition pm_clean :: "pmem \<Rightarrow> bool" where
  "pm_clean m \<longleftrightarrow> pm_durable m = pm_live m \<and> (\<forall>(f, s) \<in> set (pm_pending m). s = (\<lambda>_. None))"

lemma torn_stores_outside: "(\<And>f s. (f, s) \<in> set ss \<Longrightarrow> s x = None) \<Longrightarrow> torn_stores keep i ss m x = m x"
proof (induction ss arbitrary: i m)
  case (Cons p ss)
  obtain f s where p: "p = (f, s)" by fastforce
  have "torn_stores keep (Suc i) ss m' x = m' x" for m' using Cons.prems by (intro Cons.IH) auto
  moreover have "s x = None" using Cons.prems [of f s] p by simp
  ultimately show ?case using p by (simp add: apply_store_def)
qed simp

lemma clean_image: "pm_clean m \<Longrightarrow> crash_image keep m = pm_live m"
  unfolding crash_image_def by (rule ext) (subst torn_stores_outside, auto simp: pm_clean_def)

lemma store_map_put: "apply_store (store_map off bs) m = put_at off bs m"
  by (rule ext) (simp add: apply_store_def store_map_def put_at_def)

text \<open>The stores that are not durable touch a range only, or are a single store inside one group.\<close>

definition pending_in :: "pmem \<Rightarrow> nat \<Rightarrow> nat \<Rightarrow> bool" where
  "pending_in m off n \<longleftrightarrow> (\<forall>(f, s) \<in> set (pm_pending m). \<forall>x. x < off \<or> off + n \<le> x \<longrightarrow> s x = None)"

lemma image_outside: "pending_in m off n \<Longrightarrow> x < off \<or> off + n \<le> x \<Longrightarrow> crash_image keep m x = pm_durable m x"
  unfolding crash_image_def by (rule torn_stores_outside) (auto simp: pending_in_def)

lemma torn_append: "torn_stores keep i (xs @ ys) m = torn_stores keep (i + length xs) ys (torn_stores keep i xs m)"
  by (induction keep i xs m rule: torn_stores.induct) simp_all

lemma image_last_store:
  assumes "\<forall>(f, s) \<in> set ss. s = (\<lambda>_. None)" "pm_pending m = ss @ [(f, store_map off bs)]" "off mod 8 + length bs \<le> 8"
  shows "crash_image keep m = pm_durable m \<or> crash_image keep m = put_at off bs (pm_durable m)"
proof -
  have "torn_stores keep 0 ss (pm_durable m) = pm_durable m"
    using assms(1) by (intro ext torn_stores_outside) auto
  then have i: "crash_image keep m = (\<lambda>x. if keep (length ss) (x div 8) then put_at off bs (pm_durable m) x else pm_durable m x)"
    using assms(2) unfolding crash_image_def by (simp add: torn_append) (simp only: store_map_put)
  have "x div 8 = off div 8" if "off \<le> x" "x < off + length bs" for x
  proof -
    have "off div 8 * 8 + off mod 8 = off" by simp
    then have "off div 8 * 8 \<le> x" "x < off div 8 * 8 + 8" using assms(3) that by linarith+
    then show ?thesis by (intro div_nat_eqI) simp_all
  qed
  then have "crash_image keep m = (if keep (length ss) (off div 8) then put_at off bs (pm_durable m) else pm_durable m)"
    unfolding i by (auto simp: put_at_def fun_eq_iff)
  then show ?thesis by simp
qed

end
