(* ===== verification/PmemLog.thy ===== *)
theory PmemLog
  imports PmdkPersist
begin

text \<open>
  The log pool of \<^verbatim>\<open>pmdk/src/libpmemlog/log.c\<close>. The mapped region is persistent memory; the three offsets of
  the descriptor are little-endian fields in it, behind the pool header. The fields of \<^verbatim>\<open>struct pmemlog\<close> that
  are set up at every open are fields of the record here. The results of the pool-set functions are arguments.
  \<open>l_hist\<close> is a ghost: the states the memory went through.
\<close>

section \<open>State\<close>

record pmemlog =
  l_mem :: pmem
  l_size :: nat
  l_is_pmem :: bool
  l_rdonly :: bool
  l_is_dev_dax :: bool
  l_writer :: bool
  l_readers :: nat
  l_hist :: "pmem list"

definition LOG_FORMAT_DATA_ALIGN :: nat where "LOG_FORMAT_DATA_ALIGN = 4096"
definition SIZEOF_PMEMLOG :: nat where "SIZEOF_PMEMLOG = 4176"
definition START_OFFSET :: nat where "START_OFFSET = 4096"
definition END_OFFSET :: nat where "END_OFFSET = 4104"
definition WRITE_OFFSET :: nat where "WRITE_OFFSET = 4112"

definition word64_at :: "(nat \<Rightarrow> byte) \<Rightarrow> nat \<Rightarrow> nat" where
  "word64_at m off = unat (le64toh (of_le (get_at m off 8)))"

definition bytes64 :: "nat \<Rightarrow> byte list" where
  "bytes64 x = to_le 8 (htole64 (of_nat x))"

definition start_offset :: "(nat \<Rightarrow> byte) \<Rightarrow> nat" where "start_offset m = word64_at m START_OFFSET"
definition end_offset :: "(nat \<Rightarrow> byte) \<Rightarrow> nat" where "end_offset m = word64_at m END_OFFSET"
definition write_offset :: "(nat \<Rightarrow> byte) \<Rightarrow> nat" where "write_offset m = word64_at m WRITE_OFFSET"

definition live :: "pmemlog \<Rightarrow> nat \<Rightarrow> byte" where "live p = pm_live (l_mem p)"

section \<open>Memory accesses and the lock\<close>

definition lstep :: "(pmem \<Rightarrow> pmem) \<Rightarrow> pmemlog \<Rightarrow> pmemlog" where
  "lstep f p = p \<lparr> l_mem := f (l_mem p), l_hist := l_hist p @ [f (l_mem p)] \<rparr>"

text \<open>A copy into the region; past its end it faults. \<open>flushed\<close> is \<^verbatim>\<open>pmem_memcpy_nodrain\<close>, otherwise plain stores.\<close>

definition lcopy :: "bool \<Rightarrow> nat \<Rightarrow> byte list \<Rightarrow> (pmemlog, unit) act" where
  "lcopy flushed off bs = abind (aget l_size) (\<lambda>sz.
     if off + length bs > sz then afail (Fault OutOfBounds) else amod (lstep (pm_store flushed off bs)))"

definition lread :: "nat \<Rightarrow> nat \<Rightarrow> (pmemlog, byte list) act" where
  "lread off n = abind (aget (\<lambda>p. p)) (\<lambda>p.
     if off + n > l_size p then afail (Fault OutOfBounds) else aret (get_at (live p) off n))"

definition wrlock :: "(pmemlog, unit) act" where
  "wrlock = abind (aget (\<lambda>p. p)) (\<lambda>p. if l_writer p \<or> l_readers p \<noteq> 0 then afail (Fault Deadlock)
     else amod (\<lambda>p. p \<lparr> l_writer := True \<rparr>))"

definition rdlock :: "(pmemlog, unit) act" where
  "rdlock = abind (aget l_writer) (\<lambda>w. if w then afail (Fault Deadlock)
     else amod (\<lambda>p. p \<lparr> l_readers := l_readers p + 1 \<rparr>))"

definition unlock :: "(pmemlog, unit) act" where
  "unlock = amod (\<lambda>p. if l_writer p then p \<lparr> l_writer := False \<rparr> else p \<lparr> l_readers := l_readers p - 1 \<rparr>)"

section \<open>Descriptor\<close>

definition log_descr_create :: "nat \<Rightarrow> nat \<Rightarrow> (pmemlog, unit) act" where
  "log_descr_create pagesize poolsize =
     abind (aassert (poolsize mod pagesize = 0)) (\<lambda>_.
     let start = roundup64 SIZEOF_PMEMLOG LOG_FORMAT_DATA_ALIGN in
     abind (lcopy False START_OFFSET (bytes64 start)) (\<lambda>_.
     abind (lcopy False END_OFFSET (bytes64 poolsize)) (\<lambda>_.
     abind (lcopy False WRITE_OFFSET (bytes64 start)) (\<lambda>_.
     amod (lstep (pm_persist START_OFFSET (3 * 8)))))))"

definition log_descr_check :: "(nat \<Rightarrow> byte) \<Rightarrow> nat \<Rightarrow> failure + unit" where
  "log_descr_check m poolsize =
     (if start_offset m \<noteq> roundup64 SIZEOF_PMEMLOG LOG_FORMAT_DATA_ALIGN \<or> end_offset m \<noteq> poolsize
         \<or> start_offset m > end_offset m then fail_with EINVAL
      else if write_offset m > end_offset m \<or> write_offset m < start_offset m then fail_with EINVAL
      else Inr ())"

definition log_runtime_init :: "bool \<Rightarrow> bool \<Rightarrow> (pmemlog, unit) act" where
  "log_runtime_init rdonly malloc_ok =
     abind (amod (\<lambda>p. p \<lparr> l_rdonly := rdonly \<rparr>)) (\<lambda>_.
     if \<not> malloc_ok then aerr ENOMEM else amod (\<lambda>p. p \<lparr> l_writer := False, l_readers := 0 \<rparr>))"

section \<open>Creating and opening\<close>

text \<open>What the pool-set library hands over: the mapped region of the only part and its attributes.\<close>

record pool_region =
  s_mem :: pmem
  s_repsize :: nat
  s_is_pmem :: bool
  s_is_dev_dax :: bool
  s_nreplicas :: nat
  s_rdonly :: bool

definition mapped :: "pool_region \<Rightarrow> pmemlog" where
  "mapped r = \<lparr> l_mem = s_mem r, l_size = s_repsize r, l_is_pmem = s_is_pmem r, l_rdonly = False,
     l_is_dev_dax = s_is_dev_dax r, l_writer = False, l_readers = 0, l_hist = [] \<rparr>"

definition outcome :: "(failure + unit) \<times> pmemlog \<Rightarrow> failure + pmemlog" where
  "outcome r = (case r of (Inl e, p) \<Rightarrow> Inl e | (Inr _, p) \<Rightarrow> Inr p)"

definition pmemlog_create :: "failure + pool_region \<Rightarrow> nat \<Rightarrow> bool \<Rightarrow> failure + unit \<Rightarrow> failure + pmemlog" where
  "pmemlog_create created pagesize malloc_ok chmod =
     sbind created (\<lambda>r.
     sbind (massert (s_nreplicas r > 0)) (\<lambda>_.
     sbind (massert (\<not> s_is_dev_dax r \<or> s_is_pmem r)) (\<lambda>_.
     sbind (outcome (abind (log_descr_create pagesize (s_repsize r)) (\<lambda>_. log_runtime_init False malloc_ok) (mapped r))) (\<lambda>p.
     sbind chmod (\<lambda>_. Inr p)))))"

definition log_open_common :: "failure + pool_region \<Rightarrow> bool \<Rightarrow> failure + pmemlog" where
  "log_open_common opened malloc_ok =
     sbind opened (\<lambda>r.
     sbind (massert (s_nreplicas r > 0)) (\<lambda>_.
     sbind (massert (\<not> s_is_dev_dax r \<or> s_is_pmem r)) (\<lambda>_.
     if s_nreplicas r > 1 then fail_with ENOTSUP
     else sbind (log_descr_check (pm_live (s_mem r)) (s_repsize r)) (\<lambda>_.
          outcome (log_runtime_init (s_rdonly r) malloc_ok (mapped r))))))"

text \<open>\<^verbatim>\<open>pmemlog_check\<close>: whether the pool is consistent, or an error.\<close>

definition pmemlog_check :: "failure + pool_region \<Rightarrow> bool \<Rightarrow> failure + bool" where
  "pmemlog_check opened malloc_ok =
     sbind (log_open_common opened malloc_ok) (\<lambda>p. let m = live p in
     Inr (\<not> (start_offset m \<noteq> roundup64 SIZEOF_PMEMLOG LOG_FORMAT_DATA_ALIGN) \<and> \<not> (end_offset m \<noteq> l_size p)
       \<and> \<not> (start_offset m > end_offset m) \<and> \<not> (start_offset m > write_offset m) \<and> \<not> (write_offset m > end_offset m)))"

section \<open>Operations on an open log\<close>

definition pmemlog_nbyte :: "(pmemlog, nat) act" where
  "pmemlog_nbyte = abind rdlock (\<lambda>_. abind (aget live) (\<lambda>m. abind unlock (\<lambda>_. aret (sub64 (end_offset m) (start_offset m)))))"

definition log_persist :: "nat \<Rightarrow> (pmemlog, unit) act" where
  "log_persist new_write_offset = abind (aget (\<lambda>p. p)) (\<lambda>p.
     let old_write_offset = write_offset (live p);
         len = sub64 new_write_offset old_write_offset in
     abind (amod (lstep (if l_is_pmem p then pm_drain else pm_persist old_write_offset len))) (\<lambda>_.
     abind (lcopy False WRITE_OFFSET (bytes64 new_write_offset)) (\<lambda>_.
     amod (lstep (pm_persist WRITE_OFFSET 8)))))"

text \<open>The part of an append between taking and giving back the lock.\<close>

definition append_locked :: "byte list \<Rightarrow> (pmemlog, unit) act" where
  "append_locked buf = abind (aget (\<lambda>p. p)) (\<lambda>p.
     let end' = end_offset (live p); write = write_offset (live p) in
     if write \<ge> end' then aerr ENOSPC
     else if length buf > end' - write then aerr ENOSPC
     else abind (lcopy (l_is_pmem p) write buf) (\<lambda>_. log_persist (u64 (write + length buf))))"

definition with_wrlock :: "(pmemlog, unit) act \<Rightarrow> (pmemlog, unit) act" where
  "with_wrlock f = abind wrlock (\<lambda>_.
     abind (acatch f (\<lambda>e. abind unlock (\<lambda>_. aerr e))) (\<lambda>_. unlock))"

definition pmemlog_append :: "byte list \<Rightarrow> (pmemlog, unit) act" where
  "pmemlog_append buf = abind (aget l_rdonly) (\<lambda>rdonly.
     if rdonly then aerr EROFS else with_wrlock (append_locked buf))"

fun copy_iovs :: "bool \<Rightarrow> nat \<Rightarrow> byte list list \<Rightarrow> (pmemlog, nat) act" where
  "copy_iovs flushed write [] = aret write"
| "copy_iovs flushed write (buf # iov) =
     abind (lcopy flushed write buf) (\<lambda>_. copy_iovs flushed (u64 (write + length buf)) iov)"

fun iov_total :: "nat \<Rightarrow> byte list list \<Rightarrow> nat" where
  "iov_total count [] = count"
| "iov_total count (buf # iov) = iov_total (u64 (count + length buf)) iov"

definition appendv_locked :: "byte list list \<Rightarrow> nat \<Rightarrow> (pmemlog, unit) act" where
  "appendv_locked iov iovcnt = abind (aget (\<lambda>p. p)) (\<lambda>p.
     let end' = end_offset (live p); write = write_offset (live p) in
     if write \<ge> end' then aerr ENOSPC
     else if iovcnt > length iov then afail (Fault OutOfBounds)
     else if iov_total 0 (take iovcnt iov) > end' - write then aerr ENOSPC
     else abind (copy_iovs (l_is_pmem p) write (take iovcnt iov)) log_persist)"

definition pmemlog_appendv :: "byte list list \<Rightarrow> int \<Rightarrow> (pmemlog, unit) act" where
  "pmemlog_appendv iov iovcnt =
     (if iovcnt < 0 then aerr EINVAL
      else abind (aget l_rdonly) (\<lambda>rdonly.
        if rdonly then aerr EROFS else with_wrlock (appendv_locked iov (nat iovcnt))))"

definition pmemlog_tell :: "(pmemlog, int) act" where
  "pmemlog_tell = abind rdlock (\<lambda>_. abind (aget live) (\<lambda>m.
     abind (aassert (write_offset m \<ge> start_offset m)) (\<lambda>_.
     abind unlock (\<lambda>_. aret (sint (of_nat (sub64 (write_offset m) (start_offset m)) :: 64 word))))))"

definition pmemlog_rewind :: "(pmemlog, unit) act" where
  "pmemlog_rewind = abind (aget l_rdonly) (\<lambda>rdonly.
     if rdonly then aerr EROFS
     else abind wrlock (\<lambda>_. abind (aget live) (\<lambda>m.
       abind (lcopy False WRITE_OFFSET (get_at m START_OFFSET 8)) (\<lambda>_.
       abind (amod (lstep (pm_persist WRITE_OFFSET 8))) (\<lambda>_. unlock)))))"

text \<open>
  The walk: \<open>process_chunk\<close> gets the bytes and its own argument, and tells whether to go on. The offset grows by
  \<open>chunksize\<close> modulo \<open>2 ^ 64\<close>, so the loop is a partial function; \<open>Inl\<close> is a fault.
\<close>

partial_function (option) walk_loop ::
    "(nat \<Rightarrow> byte) \<Rightarrow> nat \<Rightarrow> nat \<Rightarrow> nat \<Rightarrow> (byte list \<Rightarrow> 'a \<Rightarrow> bool \<times> 'a) \<Rightarrow> nat \<Rightarrow> 'a \<Rightarrow> 'a res option" where
  "walk_loop m sz chunksize write_off process_chunk dataoff arg =
     (if dataoff < write_off then
        let n = min chunksize (write_off - dataoff) in
        if dataoff + n > sz then Some (Inl OutOfBounds)
        else let r = process_chunk (get_at m dataoff n) arg in
             if \<not> fst r then Some (Inr (snd r))
             else walk_loop m sz chunksize write_off process_chunk (u64 (dataoff + chunksize)) (snd r)
      else Some (Inr arg))"

definition pmemlog_walk :: "nat \<Rightarrow> (byte list \<Rightarrow> 'a \<Rightarrow> bool \<times> 'a) \<Rightarrow> 'a \<Rightarrow> (pmemlog, 'a) act" where
  "pmemlog_walk chunksize process_chunk arg = abind rdlock (\<lambda>_. abind (aget (\<lambda>p. p)) (\<lambda>p.
     let m = live p; write = write_offset m; data = start_offset m in
     abind (if chunksize = 0 then abind (lread data (sub64 write data)) (\<lambda>bs. aret (snd (process_chunk bs arg)))
            else case walk_loop m (l_size p) chunksize write process_chunk data arg of
              None \<Rightarrow> afail (Fault Diverged)
            | Some r \<Rightarrow> alift r) (\<lambda>arg.
     abind unlock (\<lambda>_. aret arg))))"

end
