(* ===== verification/PmemLogOk.thy ===== *)
theory PmemLogOk
  imports PmemLog
begin

text \<open>
  What an append does to the log, in memory and on the media: the bytes are added at the end, and at every
  moment the media holds the log as it was or with all the new bytes.
\<close>

section \<open>The content of a log\<close>

definition log_bytes :: "(nat \<Rightarrow> byte) \<Rightarrow> byte list" where
  "log_bytes m = get_at m (start_offset m) (write_offset m - start_offset m)"

definition log_ok :: "pmemlog \<Rightarrow> bool" where
  "log_ok p \<longleftrightarrow> l_size p < 2 ^ 63 \<and> log_descr_check (live p) (l_size p) = Inr () \<and> pm_clean (l_mem p)
     \<and> \<not> l_writer p \<and> l_readers p = 0"

lemma start_value: "roundup64 SIZEOF_PMEMLOG LOG_FORMAT_DATA_ALIGN = 8192"
  by (simp add: roundup64_def SIZEOF_PMEMLOG_def LOG_FORMAT_DATA_ALIGN_def)

lemma descr_iff: "log_descr_check m sz = Inr () \<longleftrightarrow>
    start_offset m = 8192 \<and> end_offset m = sz \<and> 8192 \<le> write_offset m \<and> write_offset m \<le> sz"
  by (auto simp: log_descr_check_def start_value fail_with_def)

lemma word64_put: "x < 2 ^ 64 \<Longrightarrow> word64_at (put_at off (bytes64 x) m) off = x"
  by (simp add: word64_at_def bytes64_def of_le_to_le unat_of_nat)

lemma length_bytes64 [simp]: "length (bytes64 x) = 8"
  by (simp add: bytes64_def)

text \<open>Bytes behind the write offset do not matter.\<close>

lemma log_beyond:
  assumes "log_descr_check m sz = Inr ()" "\<And>x. x < write_offset m \<Longrightarrow> d x = m x"
  shows "log_descr_check d sz = Inr ()" "log_bytes d = log_bytes m"
proof -
  note D = assms(1) [unfolded descr_iff]
  have g: "get_at d off n = get_at m off n" if "off + n \<le> write_offset m" for off n
    using that assms(2) by (simp add: get_at_def)
  have "get_at d START_OFFSET 8 = get_at m START_OFFSET 8" "get_at d END_OFFSET 8 = get_at m END_OFFSET 8"
    "get_at d WRITE_OFFSET 8 = get_at m WRITE_OFFSET 8"
    using D by (intro g; simp add: START_OFFSET_def END_OFFSET_def WRITE_OFFSET_def)+
  then have "start_offset d = start_offset m" "end_offset d = end_offset m" "write_offset d = write_offset m"
    by (simp_all add: start_offset_def end_offset_def write_offset_def word64_at_def)
  then show "log_descr_check d sz = Inr ()" "log_bytes d = log_bytes m"
    using D by (simp_all add: descr_iff log_bytes_def g)
qed

lemma log_extend:
  assumes D: "log_descr_check m sz = Inr ()" and n: "write_offset m + length bs \<le> sz" "sz < 2 ^ 63"
  defines "m' \<equiv> put_at WRITE_OFFSET (bytes64 (write_offset m + length bs)) (put_at (write_offset m) bs m)"
  shows "log_descr_check m' sz = Inr ()" "log_bytes m' = log_bytes m @ bs" "write_offset m' = write_offset m + length bs"
proof -
  note D = D [unfolded descr_iff]
  let ?w = "write_offset m"
  have g: "get_at m' off k = get_at (put_at ?w bs m) off k" if "8192 \<le> off" for off k
    using that unfolding m'_def by (intro get_put_other) (simp add: WRITE_OFFSET_def)
  have w: "write_offset m' = ?w + length bs"
    using n unfolding m'_def by (simp add: write_offset_def word64_put del: of_nat_add)
  then show "write_offset m' = ?w + length bs" .
  have f: "start_offset m' = start_offset m" "end_offset m' = end_offset m"
    using D by (simp_all add: m'_def start_offset_def end_offset_def word64_at_def START_OFFSET_def END_OFFSET_def WRITE_OFFSET_def)
  then show "log_descr_check m' sz = Inr ()" using D w n by (simp add: descr_iff)
  have e: "?w + length bs - 8192 = (?w - 8192) + length bs" "8192 + (?w - 8192) = ?w" using D by simp_all
  have "log_bytes m' = get_at (put_at ?w bs m) 8192 (?w + length bs - 8192)"
    using D f w by (simp add: log_bytes_def g)
  also have "\<dots> = get_at (put_at ?w bs m) 8192 (?w - 8192) @ get_at (put_at ?w bs m) ?w (length bs)"
    unfolding e(1) get_at_split e(2) ..
  finally show "log_bytes m' = log_bytes m @ bs" using D by (simp add: log_bytes_def)
qed

section \<open>Copying the data\<close>

fun stores_of :: "bool \<Rightarrow> nat \<Rightarrow> byte list list \<Rightarrow> (bool \<times> (nat \<Rightarrow> byte option)) list" where
  "stores_of f w [] = []"
| "stores_of f w (b # bs) = (f, store_map w b) # stores_of f (w + length b) bs"

definition copied :: "bool \<Rightarrow> nat \<Rightarrow> byte list list \<Rightarrow> pmem \<Rightarrow> pmem" where
  "copied f w xs m = m \<lparr> pm_live := put_at w (concat xs) (pm_live m), pm_pending := pm_pending m @ stores_of f w xs \<rparr>"

lemma put_at_nil [simp]: "put_at w [] m = m"
  by (rule ext) (auto simp: put_at_def)

lemma copied_nil [simp]: "copied f w [] m = m"
  by (simp add: copied_def)

lemma copied_cons: "copied f w (b # xs) m = copied f (w + length b) xs (pm_store f w b m)"
  by (simp add: copied_def pm_store_def put_at_append)

lemma stores_in: "(g, s) \<in> set (stores_of f w xs) \<Longrightarrow> x < w \<or> w + length (concat xs) \<le> x \<Longrightarrow> s x = None"
proof (induction xs arbitrary: w)
  case (Cons b xs)
  then show ?case using Cons.IH [of "w + length b"] by (auto simp: store_map_def)
qed simp

lemma stores_flag: "(g, s) \<in> set (stores_of f w xs) \<Longrightarrow> g = f"
  by (induction xs arbitrary: w) auto

lemma stores_apply: "fold (\<lambda>(f, s). if f then apply_store s else id) (stores_of True w xs) m = put_at w (concat xs) m"
  by (induction xs arbitrary: w m) (simp_all add: store_map_put put_at_append)

lemma lcopy_ok: "off + length bs \<le> l_size p \<Longrightarrow> lcopy f off bs p = (Inr (), lstep (pm_store f off bs) p)"
  by (simp add: lcopy_def act_run afail_def)

text \<open>The states on the way: the live memory and the pending stores of a prefix of the data.\<close>

lemma copy_iovs_ok:
  assumes "w + length (concat xs) \<le> l_size p" "l_size p < 2 ^ 63"
  shows "copy_iovs f w xs p = (Inr (w + length (concat xs)), p \<lparr> l_mem := copied f w xs (l_mem p),
    l_hist := l_hist p @ map (\<lambda>k. copied f w (take (Suc k) xs) (l_mem p)) [0..<length xs] \<rparr>)"
  using assms
proof (induction xs arbitrary: w p)
  case Nil
  then show ?case by (simp add: aret_def)
next
  case (Cons b xs)
  let ?p = "lstep (pm_store f w b) p"
  have sel: "l_size ?p = l_size p" "l_mem ?p = pm_store f w b (l_mem p)" "l_hist ?p = l_hist p @ [pm_store f w b (l_mem p)]"
    by (simp_all add: lstep_def)
  have IH: "copy_iovs f (w + length b) xs ?p = (Inr (w + length b + length (concat xs)), ?p \<lparr> l_mem := copied f (w + length b) xs (l_mem ?p),
    l_hist := l_hist ?p @ map (\<lambda>k. copied f (w + length b) (take (Suc k) xs) (l_mem ?p)) [0..<length xs] \<rparr>)"
    using Cons.prems sel by (intro Cons.IH) simp_all
  have u: "u64 (w + length b) = w + length b" using Cons.prems by simp
  have h: "map (\<lambda>k. copied f w (take (Suc k) (b # xs)) (l_mem p)) [0..<length (b # xs)]
      = pm_store f w b (l_mem p) # map (\<lambda>k. copied f (w + length b) (take (Suc k) xs) (pm_store f w b (l_mem p))) [0..<length xs]"
    by (simp add: copied_cons upt_conv_Cons map_Suc_upt [symmetric] comp_def del: upt_Suc)
  show ?case unfolding h using Cons.prems IH u
    by (simp add: lcopy_ok abind_def copied_cons sel) (simp add: lstep_def)
qed

section \<open>Making it durable\<close>

lemma clean_pending: "pm_clean m \<Longrightarrow> (f, s) \<in> set (pm_pending m) \<Longrightarrow> s = (\<lambda>_. None)"
  by (auto simp: pm_clean_def)

lemma apply_none: "apply_store (\<lambda>_. None) m = m"
  by (rule ext) (simp add: apply_store_def)

lemma copied_pending:
  assumes "pm_clean m" "length (concat ys) \<le> n"
  shows "pending_in (copied f w ys m) w n" "pm_durable (copied f w ys m) = pm_live m"
proof -
  have "s x = None" if "(g, s) \<in> set (pm_pending m @ stores_of f w ys)" "x < w \<or> w + n \<le> x" for g s x
    using that clean_pending [OF assms(1), of g s] stores_in [of g s f w ys x] assms(2) by auto
  then show "pending_in (copied f w ys m) w n" by (auto simp: pending_in_def copied_def)
  show "pm_durable (copied f w ys m) = pm_live m" using assms(1) by (simp add: copied_def pm_clean_def)
qed

lemma drain_clean:
  assumes "pm_clean m"
  shows "pm_clean (pm_drain (copied True w xs m))" "pm_live (pm_drain (copied True w xs m)) = put_at w (concat xs) (pm_live m)"
proof -
  have "fold (\<lambda>(f, s). if f then apply_store s else id) ss d = d" if "\<forall>(f, s) \<in> set ss. s = (\<lambda>_. None)" for ss d
    using that by (induction ss) (auto simp: apply_none)
  then have "fold (\<lambda>(f, s). if f then apply_store s else id) (pm_pending m) (pm_durable m) = pm_durable m"
    using assms by (simp add: pm_clean_def)
  then show "pm_clean (pm_drain (copied True w xs m))"
    using assms stores_flag [of _ _ True w xs] by (auto simp: pm_clean_def pm_drain_def copied_def stores_apply)
  show "pm_live (pm_drain (copied True w xs m)) = put_at w (concat xs) (pm_live m)" by (simp add: pm_drain_def copied_def)
qed

lemma persist_clean:
  assumes "pm_durable m = d" "pending_in m off n" "\<And>x. x < off \<or> off + n \<le> x \<Longrightarrow> pm_live m x = d x"
  shows "pm_clean (pm_persist off n m)" "pm_live (pm_persist off n m) = pm_live m"
proof -
  have none: "(\<lambda>x. if off \<le> x \<and> x < off + n then None else s x) = (\<lambda>_. None)" if i: "(f, s) \<in> set (pm_pending m)" for f s
  proof
    fix x
    have "x < off \<or> off + n \<le> x \<longrightarrow> s x = None" using assms(2) i unfolding pending_in_def by blast
    then show "(if off \<le> x \<and> x < off + n then None else s x) = None" by auto
  qed
  have "(\<lambda>x. if off \<le> x \<and> x < off + n then pm_live m x else pm_durable m x) = pm_live m"
  proof
    fix x
    show "(if off \<le> x \<and> x < off + n then pm_live m x else pm_durable m x) = pm_live m x"
      using assms(1) assms(3) [of x] by (cases "off \<le> x \<and> x < off + n") auto
  qed
  then show "pm_clean (pm_persist off n m)" by (auto simp: pm_clean_def pm_persist_def dest: none)
  show "pm_live (pm_persist off n m) = pm_live m" by (simp add: pm_persist_def)
qed

text \<open>The data part of an append: afterwards memory and media agree.\<close>

lemma data_clean:
  fixes w is_pmem
  assumes "pm_clean m" "n = length (concat xs)"
  defines "m' \<equiv> (if is_pmem then pm_drain else pm_persist w n) (copied is_pmem w xs m)"
  shows "pm_clean m'" "pm_live m' = put_at w (concat xs) (pm_live m)"
proof -
  have "pm_clean m' \<and> pm_live m' = put_at w (concat xs) (pm_live m)"
  proof (cases is_pmem)
    case True
    then show ?thesis using drain_clean [OF assms(1)] by (simp add: m'_def)
  next
    case False
    note C = copied_pending [OF assms(1), of xs n is_pmem w]
    have "pm_live (copied is_pmem w xs m) x = pm_live m x" if "x < w \<or> w + n \<le> x" for x
      using that assms(2) by (auto simp: copied_def put_at_def)
    then have "pm_clean (pm_persist w n (copied is_pmem w xs m))" "pm_live (pm_persist w n (copied is_pmem w xs m)) = pm_live (copied is_pmem w xs m)"
      using persist_clean [OF C(2,1)] assms(2) by auto
    then show ?thesis using False by (simp add: m'_def copied_def)
  qed
  then show "pm_clean m'" "pm_live m' = put_at w (concat xs) (pm_live m)" by blast+
qed

text \<open>The store of a field inside one group, and its flush.\<close>

lemma field_clean:
  fixes f keep
  assumes "pm_clean m" "off mod 8 + length bs \<le> 8"
  defines "m1 \<equiv> pm_store f off bs m"
  defines "m2 \<equiv> pm_persist off (length bs) m1"
  shows "pm_clean m2" "pm_live m2 = put_at off bs (pm_live m)"
    and "crash_image keep m1 \<in> {pm_live m, put_at off bs (pm_live m)}" "crash_image keep m2 = put_at off bs (pm_live m)"
proof -
  have d: "pm_durable m1 = pm_live m" using assms(1) by (simp add: m1_def pm_store_def pm_clean_def)
  have p: "pending_in m1 off (length bs)"
    using clean_pending [OF assms(1)] by (auto simp: pending_in_def m1_def pm_store_def store_map_def)
  have l: "pm_live m1 x = pm_live m x" if "x < off \<or> off + length bs \<le> x" for x
    using that by (auto simp: m1_def pm_store_def put_at_def)
  have L: "pm_live m1 = put_at off bs (pm_live m)" by (simp add: m1_def pm_store_def)
  show c: "pm_clean m2" and l2: "pm_live m2 = put_at off bs (pm_live m)"
    using persist_clean [OF d p l] L by (simp_all add: m2_def)
  show "crash_image keep m2 = put_at off bs (pm_live m)" using clean_image [OF c] l2 by simp
  have "\<forall>(f, s) \<in> set (pm_pending m). s = (\<lambda>_. None)" using assms(1) by (simp add: pm_clean_def)
  from image_last_store [OF this _ assms(2), of m1 f keep]
  show "crash_image keep m1 \<in> {pm_live m, put_at off bs (pm_live m)}" using d by (auto simp: m1_def pm_store_def)
qed

section \<open>Appending\<close>

text \<open>The content becomes \<open>ys\<close>, and at every moment on the way the media holds the old or the new content.\<close>

definition log_goes :: "pmemlog \<Rightarrow> byte list \<Rightarrow> pmemlog \<Rightarrow> bool" where
  "log_goes p ys p' \<longleftrightarrow> log_ok p' \<and> l_size p' = l_size p \<and> l_rdonly p' = l_rdonly p \<and> l_is_pmem p' = l_is_pmem p
     \<and> log_bytes (live p') = ys
     \<and> (\<exists>hs. l_hist p' = l_hist p @ hs \<and> (\<forall>m \<in> set hs. \<forall>keep.
          log_descr_check (crash_image keep m) (l_size p) = Inr ()
          \<and> log_bytes (crash_image keep m) \<in> {log_bytes (live p), ys}))"

lemma write_offset_beyond:
  "log_descr_check m sz = Inr () \<Longrightarrow> write_offset m \<le> w \<Longrightarrow> write_offset (put_at w bs m) = write_offset m"
  by (simp add: descr_iff write_offset_def word64_at_def WRITE_OFFSET_def)

lemma copy_persist_ok:
  fixes xs
  assumes ok: "log_descr_check (live p) (l_size p) = Inr ()" "pm_clean (l_mem p)" "l_size p < 2 ^ 63"
    and w: "w = write_offset (live p)" "w + length (concat xs) \<le> l_size p"
  obtains mem hs where "abind (copy_iovs (l_is_pmem p) w xs) log_persist p = (Inr (), p \<lparr> l_mem := mem, l_hist := l_hist p @ hs \<rparr>)"
    "pm_clean mem" "log_descr_check (pm_live mem) (l_size p) = Inr ()" "log_bytes (pm_live mem) = log_bytes (live p) @ concat xs"
    "\<forall>m \<in> set hs. \<forall>keep. log_descr_check (crash_image keep m) (l_size p) = Inr ()
       \<and> log_bytes (crash_image keep m) \<in> {log_bytes (live p), log_bytes (live p) @ concat xs}"
proof -
  let ?n = "length (concat xs)" and ?L = "live p" and ?f = "l_is_pmem p"
  note D = ok(1) [unfolded descr_iff]
  define m0 where "m0 = copied ?f w xs (l_mem p)"
  define hs0 where "hs0 = map (\<lambda>k. copied ?f w (take (Suc k) xs) (l_mem p)) [0..<length xs]"
  define m1 where "m1 = (if ?f then pm_drain else pm_persist w ?n) m0"
  define fld where "fld = bytes64 (w + ?n)"
  define m2 where "m2 = pm_store False WRITE_OFFSET fld m1"
  define m3 where "m3 = pm_persist WRITE_OFFSET 8 m2"
  have c1: "pm_clean m1" "pm_live m1 = put_at w (concat xs) ?L"
    using data_clean [OF ok(2) refl, where is_pmem = ?f and w = w and xs = xs] by (simp_all add: m1_def m0_def live_def)
  have al: "WRITE_OFFSET mod 8 + length fld \<le> 8" by (simp add: WRITE_OFFSET_def fld_def)
  note F = field_clean [OF c1(1) al, where f = False]
  have c3: "pm_clean m3" "pm_live m3 = put_at WRITE_OFFSET fld (put_at w (concat xs) ?L)"
    using F(1,2) c1(2) by (simp_all add: m3_def m2_def fld_def)
  have u: "u64 (w + ?n) = w + ?n" using w(2) ok(3) by simp
  have wo: "write_offset (pm_live m0) = w"
    using write_offset_beyond [OF ok(1), of w "concat xs"] w(1) by (simp add: m0_def copied_def live_def)
  have sub: "sub64 (w + ?n) w = ?n" using w(2) ok(3) by (subst sub64_id) simp_all
  have fits: "WRITE_OFFSET + 8 \<le> l_size p" using D by (simp add: WRITE_OFFSET_def)
  let ?hs = "hs0 @ [m1, m2, m3]"
  let ?p0 = "p \<lparr> l_mem := m0, l_hist := l_hist p @ hs0 \<rparr>"
  have run0: "copy_iovs ?f w xs p = (Inr (w + ?n), ?p0)"
    using copy_iovs_ok [of w xs p ?f] w(2) ok(3) by (simp add: m0_def hs0_def)
  have len8: "length fld = 8" by (simp add: fld_def)
  have "log_persist (w + ?n) ?p0 = (Inr (), p \<lparr> l_mem := m3, l_hist := l_hist p @ ?hs \<rparr>)"
    using wo sub fits
    by (cases ?f) (simp_all add: log_persist_def abind_def aget_def amod_def live_def Let_def lcopy_ok lstep_def m1_def m2_def m3_def fld_def)
  then have run: "abind (copy_iovs ?f w xs) log_persist p = (Inr (), p \<lparr> l_mem := m3, l_hist := l_hist p @ ?hs \<rparr>)"
    using run0 by (simp add: abind_def)
  have E: "log_descr_check (pm_live m3) (l_size p) = Inr ()" "log_bytes (pm_live m3) = log_bytes ?L @ concat xs"
    using log_extend [OF ok(1), of "concat xs"] w ok(3) by (simp_all add: c3(2) fld_def)
  have old: "log_descr_check d (l_size p) = Inr () \<and> log_bytes d = log_bytes ?L"
    if "\<And>x. x < w \<or> w + ?n \<le> x \<Longrightarrow> d x = ?L x" for d
    using log_beyond [OF ok(1), of d] that w(1) by simp
  have imgs: "log_descr_check (crash_image keep m) (l_size p) = Inr ()
       \<and> log_bytes (crash_image keep m) \<in> {log_bytes ?L, log_bytes ?L @ concat xs}" if "m \<in> set ?hs" for m keep
  proof -
    have put1: "put_at w (concat xs) ?L x = ?L x" if "x < w \<or> w + ?n \<le> x" for x using that by (auto simp: put_at_def)
    have "m \<in> (\<lambda>k. copied ?f w (take (Suc k) xs) (l_mem p)) ` {0..<length xs} \<or> m = m1 \<or> m = m2 \<or> m = m3"
      using that unfolding hs0_def by auto
    then consider (copy) k where "m = copied ?f w (take (Suc k) xs) (l_mem p)" | (data) "m = m1" | (store) "m = m2" | (final) "m = m3"
      by blast
    then show ?thesis
    proof cases
      case copy
      have "concat xs = concat (take (Suc k) xs) @ concat (drop (Suc k) xs)" by (metis append_take_drop_id concat_append)
      then have "length (concat (take (Suc k) xs)) \<le> ?n" by simp
      note C = copied_pending [OF ok(2) this, of ?f w, folded copy]
      show ?thesis using old [of "crash_image keep m"] image_outside [OF C(1)] C(2) by (simp add: live_def)
    next
      case data
      then show ?thesis using old [of "crash_image keep m"] clean_image [OF c1(1)] c1(2) put1 by simp
    next
      case store
      then have "crash_image keep m \<in> {put_at w (concat xs) ?L, pm_live m3}"
        using F(3) c1(2) c3(2) by (simp add: m2_def)
      then show ?thesis using old [OF put1] E by auto
    next
      case final
      then show ?thesis using clean_image [OF c3(1)] E by simp
    qed
  qed
  then have "\<forall>m \<in> set ?hs. \<forall>keep. log_descr_check (crash_image keep m) (l_size p) = Inr ()
       \<and> log_bytes (crash_image keep m) \<in> {log_bytes ?L, log_bytes ?L @ concat xs}" by blast
  then show thesis by (rule that [OF run c3(1) E])
qed

lemma append_run:
  assumes ok: "log_ok p" and ro: "\<not> l_rdonly p" and f: "abind (copy_iovs (l_is_pmem p) w xs) log_persist = g"
    and w: "w = write_offset (live p)" "w + length (concat xs) \<le> l_size p"
  obtains p' where "with_wrlock g p = (Inr (), p')" "log_goes p (log_bytes (live p) @ concat xs) p'"
proof -
  let ?q = "p \<lparr> l_writer := True \<rparr>"
  have q: "log_descr_check (live ?q) (l_size ?q) = Inr ()" "pm_clean (l_mem ?q)" "l_size ?q < 2 ^ 63"
    using ok by (simp_all add: log_ok_def live_def)
  have w': "w = write_offset (live ?q)" "w + length (concat xs) \<le> l_size ?q" using w by (simp_all add: live_def)
  obtain mem hs where r0: "abind (copy_iovs (l_is_pmem ?q) w xs) log_persist ?q = (Inr (), ?q \<lparr> l_mem := mem, l_hist := l_hist ?q @ hs \<rparr>)"
    and r: "pm_clean mem" "log_descr_check (pm_live mem) (l_size ?q) = Inr ()" "log_bytes (pm_live mem) = log_bytes (live ?q) @ concat xs"
    and h: "\<forall>m \<in> set hs. \<forall>keep. log_descr_check (crash_image keep m) (l_size ?q) = Inr ()
       \<and> log_bytes (crash_image keep m) \<in> {log_bytes (live ?q), log_bytes (live ?q) @ concat xs}"
    by (rule copy_persist_ok [OF q w'])
  have g: "g ?q = (Inr (), ?q \<lparr> l_mem := mem, l_hist := l_hist p @ hs \<rparr>)" using r0 f by simp
  let ?p' = "p \<lparr> l_mem := mem, l_hist := l_hist p @ hs \<rparr>"
  have "with_wrlock g p = (Inr (), ?p')"
    using ok g by (simp add: with_wrlock_def wrlock_def unlock_def act_defs log_ok_def)
  moreover have "log_goes p (log_bytes (live p) @ concat xs) ?p'"
    using ok r h by (auto simp: log_goes_def log_ok_def live_def)
  ultimately show thesis by (rule that)
qed

lemma append_ok:
  assumes ok: "log_ok p" and ro: "\<not> l_rdonly p" and sp: "write_offset (live p) < l_size p" "write_offset (live p) + length buf \<le> l_size p"
  obtains p' where "pmemlog_append buf p = (Inr (), p')" "log_goes p (log_bytes (live p) @ buf) p'"
proof -
  let ?w = "write_offset (live p)" and ?q = "p \<lparr> l_writer := True \<rparr>"
  have D: "end_offset (live p) = l_size p" using ok by (simp add: log_ok_def descr_iff)
  obtain p' where p': "with_wrlock (abind (copy_iovs (l_is_pmem p) ?w [buf]) log_persist) p = (Inr (), p')" "log_goes p (log_bytes (live p) @ buf) p'"
    using append_run [OF ok ro refl, of ?w "[buf]"] sp by auto
  have nsp: "\<not> l_size p - write_offset (pm_live (l_mem p)) < length buf" using sp by (simp add: live_def)
  have "append_locked buf ?q = abind (copy_iovs (l_is_pmem p) ?w [buf]) log_persist ?q"
    using D sp nsp by (simp add: append_locked_def act_run Let_def live_def abind_assoc)
  then have "with_wrlock (append_locked buf) p = with_wrlock (abind (copy_iovs (l_is_pmem p) ?w [buf]) log_persist) p"
    using ok by (simp add: with_wrlock_def wrlock_def act_defs log_ok_def)
  then show thesis using that p' ro by (simp add: pmemlog_append_def act_run)
qed

lemma iov_total_eq: "c + length (concat xs) < 2 ^ 64 \<Longrightarrow> iov_total c xs = c + length (concat xs)"
  by (induction xs arbitrary: c) simp_all

lemma appendv_ok:
  assumes ok: "log_ok p" and ro: "\<not> l_rdonly p" and n: "0 \<le> iovcnt" "nat iovcnt \<le> length iov"
    and sp: "write_offset (live p) < l_size p" "write_offset (live p) + length (concat (take (nat iovcnt) iov)) \<le> l_size p"
  obtains p' where "pmemlog_appendv iov iovcnt p = (Inr (), p')" "log_goes p (log_bytes (live p) @ concat (take (nat iovcnt) iov)) p'"
proof -
  let ?w = "write_offset (live p)" and ?q = "p \<lparr> l_writer := True \<rparr>" and ?xs = "take (nat iovcnt) iov"
  have D: "end_offset (live p) = l_size p" "l_size p < 2 ^ 63" using ok by (simp_all add: log_ok_def descr_iff)
  obtain p' where p': "with_wrlock (abind (copy_iovs (l_is_pmem p) ?w ?xs) log_persist) p = (Inr (), p')" "log_goes p (log_bytes (live p) @ concat ?xs) p'"
    using append_run [OF ok ro refl, of ?w ?xs] sp by auto
  have "iov_total 0 ?xs = length (concat ?xs)" using sp D(2) by (subst iov_total_eq) simp_all
  moreover have "\<not> l_size p - write_offset (pm_live (l_mem p)) < length (concat ?xs)" using sp by (simp add: live_def)
  ultimately have "appendv_locked iov (nat iovcnt) ?q = abind (copy_iovs (l_is_pmem p) ?w ?xs) log_persist ?q"
    using D sp n by (simp add: appendv_locked_def act_run Let_def live_def)
  then have "with_wrlock (appendv_locked iov (nat iovcnt)) p = with_wrlock (abind (copy_iovs (l_is_pmem p) ?w ?xs) log_persist) p"
    using ok by (simp add: with_wrlock_def wrlock_def act_defs log_ok_def)
  then show thesis using that p' ro n by (simp add: pmemlog_appendv_def act_run)
qed

end
