(* ===== verification/PmemLogRead.thy ===== *)
theory PmemLogRead
  imports PmemLogOk
begin

text \<open>
  The other operations of an open log: what a rewind leaves, what a walk reads, and how a log is created,
  opened and checked.
\<close>

section \<open>Rewinding\<close>

lemma log_rewound:
  assumes D: "log_descr_check m sz = Inr ()"
  defines "m' \<equiv> put_at WRITE_OFFSET (get_at m START_OFFSET 8) m"
  shows "log_descr_check m' sz = Inr ()" "log_bytes m' = []"
proof -
  note D = D [unfolded descr_iff]
  have "start_offset m' = start_offset m" "end_offset m' = end_offset m"
    by (simp_all add: m'_def start_offset_def end_offset_def word64_at_def START_OFFSET_def END_OFFSET_def WRITE_OFFSET_def)
  moreover have "write_offset m' = start_offset m"
    by (simp add: m'_def start_offset_def write_offset_def word64_at_def)
  ultimately show "log_descr_check m' sz = Inr ()" "log_bytes m' = []"
    using D by (simp_all add: descr_iff log_bytes_def get_at_def)
qed

lemma rewind_ok:
  assumes ok: "log_ok p" and ro: "\<not> l_rdonly p"
  obtains p' where "pmemlog_rewind p = (Inr (), p')" "log_goes p [] p'"
proof -
  have D: "log_descr_check (live p) (l_size p) = Inr ()" and c: "pm_clean (l_mem p)" using ok by (simp_all add: log_ok_def)
  define fld where "fld = get_at (live p) START_OFFSET 8"
  define m1 where "m1 = pm_store False WRITE_OFFSET fld (l_mem p)"
  define m2 where "m2 = pm_persist WRITE_OFFSET 8 m1"
  have len8: "length fld = 8" and al: "WRITE_OFFSET mod 8 + length fld \<le> 8" by (simp_all add: WRITE_OFFSET_def fld_def)
  note F = field_clean [OF c al, where f = False, unfolded len8, folded m1_def, folded m2_def]
  note R = log_rewound [OF D, folded fld_def]
  let ?p' = "p \<lparr> l_mem := m2, l_hist := l_hist p @ [m1, m2] \<rparr>"
  have fits: "WRITE_OFFSET + 8 \<le> l_size p" using D by (simp add: descr_iff WRITE_OFFSET_def)
  have "pmemlog_rewind p = (Inr (), ?p')"
    using ok ro fits by (simp add: pmemlog_rewind_def wrlock_def unlock_def act_defs log_ok_def lcopy_ok len8
      flip: fld_def, simp add: live_def lstep_def m1_def m2_def len8 fld_def lcopy_ok)
  moreover have "log_descr_check (crash_image keep m) (l_size p) = Inr () \<and> log_bytes (crash_image keep m) \<in> {log_bytes (live p), []}"
    if "m \<in> set [m1, m2]" for m keep
  proof -
    have "crash_image keep m \<in> {live p, put_at WRITE_OFFSET fld (live p)}" using that F(3,4) by (auto simp: live_def)
    then show ?thesis using R D by auto
  qed
  then have "log_goes p [] ?p'"
    using ok F(1,2) R by (simp add: log_goes_def log_ok_def live_def)
  ultimately show thesis by (rule that)
qed

section \<open>Walking\<close>

text \<open>The pieces of a list of at most \<open>n\<close> elements, and the calls of the callback with them.\<close>

fun chunks :: "nat \<Rightarrow> 'b list \<Rightarrow> 'b list list" where
  "chunks n xs = (if n = 0 \<or> xs = [] then [] else take n xs # chunks n (drop n xs))"

declare chunks.simps [simp del]

fun feed :: "('b list \<Rightarrow> 'a \<Rightarrow> bool \<times> 'a) \<Rightarrow> 'b list list \<Rightarrow> 'a \<Rightarrow> 'a" where
  "feed f [] a = a"
| "feed f (c # cs) a = (let r = f c a in if fst r then feed f cs (snd r) else snd r)"

lemma concat_chunks: "0 < n \<Longrightarrow> concat (chunks n xs) = xs"
  by (induction n xs rule: chunks.induct) (subst chunks.simps, simp)

lemma get_at_take: "get_at m off (min k n) = take k (get_at m off n)"
  by (rule nth_equalityI) (simp_all add: get_at_def)

lemma get_at_drop: "drop k (get_at m off n) = get_at m (off + k) (n - k)"
  by (rule nth_equalityI) (simp_all add: get_at_def ac_simps)

lemma walk_loop_ok:
  assumes "0 < n" "w \<le> sz" "w + n \<le> 2 ^ 64"
  shows "walk_loop m sz n w f off a = Some (Inr (feed f (chunks n (get_at m off (w - off))) a))"
proof (induction "w - off" arbitrary: off a rule: less_induct)
  case less
  show ?case
  proof (cases "off < w")
    case False
    then show ?thesis by (simp add: walk_loop.simps chunks.simps get_at_def)
  next
    case True
    let ?c = "get_at m off (min n (w - off))"
    have u: "u64 (off + n) = off + n" using True assms by simp
    have IH: "walk_loop m sz n w f (off + n) b = Some (Inr (feed f (chunks n (get_at m (off + n) (w - (off + n)))) b))" for b
      using True assms(1) by (intro less) simp
    have "get_at m off (w - off) \<noteq> []" using True by (simp add: get_at_def)
    then have "chunks n (get_at m off (w - off)) = ?c # chunks n (get_at m (off + n) (w - (off + n)))"
      using assms(1) by (subst chunks.simps) (simp add: get_at_take get_at_drop)
    moreover have "\<not> sz < off + min n (w - off)" using True assms(2) min.cobounded2 [of n "w - off"] by linarith
    ultimately show ?thesis using True assms u by (subst walk_loop.simps) (simp add: IH Let_def)
  qed
qed

lemma with_rdlock:
  assumes "log_ok p"
  shows "abind rdlock (\<lambda>_. abind (aget g) (\<lambda>x. abind (k x) (\<lambda>y. abind unlock (\<lambda>_. aret y)))) p
    = (let q = p \<lparr> l_readers := 1 \<rparr> in case k (g q) q of (Inl e, t) \<Rightarrow> (Inl e, t)
       | (Inr y, t) \<Rightarrow> (Inr y, if l_writer t then t \<lparr> l_writer := False \<rparr> else t \<lparr> l_readers := l_readers t - 1 \<rparr>))"
  using assms by (simp add: rdlock_def unlock_def act_defs log_ok_def Let_def split: prod.splits sum.splits)

lemma walk_ok:
  assumes "log_ok p" "write_offset (live p) + n \<le> 2 ^ 64"
  shows "pmemlog_walk n f a p
    = (Inr (if n = 0 then snd (f (log_bytes (live p)) a) else feed f (chunks n (log_bytes (live p))) a), p)"
proof -
  let ?q = "p \<lparr> l_readers := 1 \<rparr>"
  have D: "start_offset (live p) = 8192" "8192 \<le> write_offset (live p)" "write_offset (live p) \<le> l_size p" "l_size p < 2 ^ 63"
    and l: "l_readers p = 0" "\<not> l_writer p"
    using assms(1) by (simp_all add: log_ok_def descr_iff)
  have s: "sub64 (write_offset (live p)) 8192 = write_offset (live p) - 8192" using D by (subst sub64_id) simp_all
  have q: "live ?q = live p" "p \<lparr> l_readers := 0 \<rparr> = p" using l(1) by (simp_all add: live_def)
  show ?thesis
    unfolding pmemlog_walk_def Let_def with_rdlock [OF assms(1)]
    using D l s q walk_loop_ok [OF _ D(3), where n = n and f = f] assms(2)
    by (cases "n = 0") (simp_all add: lread_def act_defs log_bytes_def)
qed

section \<open>The size, and the position\<close>

lemma tell_ok: "log_ok p \<Longrightarrow> pmemlog_tell p = (Inr (int (length (log_bytes (live p)))), p)"
proof -
  assume ok: "log_ok p"
  let ?n = "write_offset (live p) - start_offset (live p)"
  have D: "start_offset (live p) \<le> write_offset (live p)" "write_offset (live p) < 2 ^ 63"
    using ok by (auto simp: log_ok_def descr_iff)
  then have "sub64 (write_offset (live p)) (start_offset (live p)) = ?n" by (subst sub64_id) simp_all
  moreover have "sint (of_nat ?n :: 64 word) = int ?n"
    using D by (simp add: signed_of_nat signed_take_bit_int_eq_self del: of_nat_diff)
  ultimately show ?thesis
    using ok D by (simp add: pmemlog_tell_def rdlock_def unlock_def act_defs log_ok_def live_def log_bytes_def get_at_def)
qed

lemma nbyte_ok: "log_ok p \<Longrightarrow> pmemlog_nbyte p = (Inr (l_size p - 8192), p)"
proof -
  assume ok: "log_ok p"
  have "start_offset (live p) = 8192" "end_offset (live p) = l_size p" "8192 \<le> l_size p" "l_size p < 2 ^ 63"
    using ok by (simp_all add: log_ok_def descr_iff)
  moreover from this have "sub64 (l_size p) 8192 = l_size p - 8192" by (subst sub64_id) simp_all
  ultimately show ?thesis
    using ok by (simp add: pmemlog_nbyte_def rdlock_def unlock_def act_defs log_ok_def live_def)
qed

section \<open>Creating, opening, checking\<close>

text \<open>A region as a new pool set has it, and what opening it again finds.\<close>

definition region_ok :: "pool_region \<Rightarrow> bool" where
  "region_ok r \<longleftrightarrow> s_nreplicas r = 1 \<and> (s_is_dev_dax r \<longrightarrow> s_is_pmem r) \<and> s_repsize r < 2 ^ 63"

lemma open_ok:
  assumes "region_ok r" "log_descr_check (pm_live (s_mem r)) (s_repsize r) = Inr ()"
  shows "log_open_common (Inr r) True = Inr (mapped r \<lparr> l_rdonly := s_rdonly r \<rparr>)"
  using assms by (auto simp: log_open_common_def region_ok_def massert_def outcome_def log_runtime_init_def act_defs mapped_def)

lemma open_bad:
  assumes "region_ok r" "log_descr_check (pm_live (s_mem r)) (s_repsize r) \<noteq> Inr ()"
  shows "log_open_common (Inr r) True = fail_with EINVAL"
  using assms by (auto simp: log_open_common_def region_ok_def massert_def log_descr_check_def fail_with_def split: if_splits)

lemma open_descr:
  assumes "log_open_common opened ok = Inr p"
  shows "log_descr_check (live p) (l_size p) = Inr ()"
proof -
  obtain r where r: "opened = Inr r" using assms by (cases opened) (simp_all add: log_open_common_def)
  have g: "sbind (massert b) k = Inr p \<Longrightarrow> k () = Inr p" for b and k :: "unit \<Rightarrow> failure + pmemlog"
    by (auto simp: massert_def fail_with_def split: if_splits)
  have "(if s_nreplicas r > 1 then fail_with ENOTSUP
     else sbind (log_descr_check (pm_live (s_mem r)) (s_repsize r)) (\<lambda>_. outcome (log_runtime_init (s_rdonly r) ok (mapped r)))) = Inr p"
    using assms g [OF g] unfolding r log_open_common_def sbind_simps by blast
  then have "sbind (log_descr_check (pm_live (s_mem r)) (s_repsize r)) (\<lambda>_. outcome (log_runtime_init (s_rdonly r) ok (mapped r))) = Inr p"
    by (simp add: fail_with_def split: if_splits)
  then have d: "log_descr_check (pm_live (s_mem r)) (s_repsize r) = Inr ()" and o: "outcome (log_runtime_init (s_rdonly r) ok (mapped r)) = Inr p"
    by (auto simp: sbind_Inr_iff)
  have "live p = pm_live (s_mem r) \<and> l_size p = s_repsize r"
    using o by (cases ok) (auto simp: outcome_def log_runtime_init_def act_defs mapped_def live_def)
  then show ?thesis using d by simp
qed

lemma check_consistent:
  assumes "pmemlog_check opened ok = Inr c" shows c
proof -
  obtain p where "log_open_common opened ok = Inr p" using assms unfolding pmemlog_check_def by blast
  then show ?thesis using assms open_descr by (fastforce simp: pmemlog_check_def descr_iff start_value Let_def)
qed

lemma word64_read:
  "x < 2 ^ 64 \<Longrightarrow> word64_at (put_at off (bytes64 x) m) off = x"
  "off' + 8 \<le> off \<or> off + 8 \<le> off' \<Longrightarrow> word64_at (put_at off (bytes64 x) m) off' = word64_at m off'"
proof -
  assume "x < 2 ^ 64" then show "word64_at (put_at off (bytes64 x) m) off = x" by (rule word64_put)
next
  assume "off' + 8 \<le> off \<or> off + 8 \<le> off'"
  then have "get_at (put_at off (bytes64 x) m) off' 8 = get_at m off' 8" by (intro get_put_other) auto
  then show "word64_at (put_at off (bytes64 x) m) off' = word64_at m off'" by (simp add: word64_at_def)
qed

lemma descr_put:
  defines "d m sz \<equiv> put_at WRITE_OFFSET (bytes64 8192) (put_at END_OFFSET (bytes64 sz) (put_at START_OFFSET (bytes64 8192) m))"
  assumes "sz < 2 ^ 63" "8192 \<le> sz"
  shows "log_descr_check (d m sz) sz = Inr ()" "log_bytes (d m sz) = []"
proof -
  have "start_offset (d m sz) = 8192" "end_offset (d m sz) = sz" "write_offset (d m sz) = 8192"
    using assms(2) by (simp_all add: d_def start_offset_def end_offset_def write_offset_def word64_read START_OFFSET_def END_OFFSET_def WRITE_OFFSET_def)
  then show "log_descr_check (d m sz) sz = Inr ()" "log_bytes (d m sz) = []"
    using assms(3) by (simp_all add: descr_iff log_bytes_def get_at_def)
qed

text \<open>A new log: empty, durable, and found again by an open.\<close>

lemma create_ok:
  assumes "region_ok r" "s_repsize r mod pagesize = 0" "8192 \<le> s_repsize r" "pm_clean (s_mem r)"
  obtains p where "pmemlog_create (Inr r) pagesize True (Inr ()) = Inr p" "log_ok p" "l_size p = s_repsize r"
    "\<not> l_rdonly p" "log_bytes (live p) = []"
proof -
  let ?sz = "s_repsize r" and ?b = "bytes64 8192"
  define m1 where "m1 = pm_store False WRITE_OFFSET ?b (pm_store False END_OFFSET (bytes64 ?sz) (pm_store False START_OFFSET ?b (s_mem r)))"
  define m2 where "m2 = pm_persist START_OFFSET 24 m1"
  have live1: "pm_live m1 = put_at WRITE_OFFSET ?b (put_at END_OFFSET (bytes64 ?sz) (put_at START_OFFSET ?b (pm_live (s_mem r))))"
    by (simp add: m1_def pm_store_def)
  have dur: "pm_durable m1 = pm_live (s_mem r)" using assms(4) by (simp add: m1_def pm_store_def pm_clean_def)
  have pend: "pending_in m1 START_OFFSET 24"
    using clean_pending [OF assms(4)]
    by (auto simp: pending_in_def m1_def pm_store_def store_map_def START_OFFSET_def END_OFFSET_def WRITE_OFFSET_def)
  have out: "pm_live m1 x = pm_live (s_mem r) x" if "x < START_OFFSET \<or> START_OFFSET + 24 \<le> x" for x
    using that by (auto simp: live1 put_at_def START_OFFSET_def END_OFFSET_def WRITE_OFFSET_def)
  note C = persist_clean [OF dur pend out, folded m2_def]
  have sz: "?sz < 2 ^ 63" using assms(1) by (simp add: region_ok_def)
  note P = descr_put [OF sz assms(3), of "pm_live (s_mem r)", folded live1]
  let ?p = "lstep (pm_persist START_OFFSET 24) (lstep (pm_store False WRITE_OFFSET ?b) (lstep (pm_store False END_OFFSET (bytes64 ?sz))
      (lstep (pm_store False START_OFFSET ?b) (mapped r))))"
  have sel: "l_mem ?p = m2" "l_size ?p = ?sz" by (simp_all add: lstep_def mapped_def m2_def m1_def)
  have "log_descr_create pagesize ?sz (mapped r) = (Inr (), ?p)"
    using assms(2,3) sz by (simp add: log_descr_create_def start_value Let_def lcopy_ok abind_def amod_def lstep_def mapped_def
        START_OFFSET_def END_OFFSET_def WRITE_OFFSET_def)
  then have "pmemlog_create (Inr r) pagesize True (Inr ()) = Inr (?p \<lparr> l_rdonly := False, l_writer := False, l_readers := 0 \<rparr>)"
    using assms(1) by (auto simp: pmemlog_create_def region_ok_def massert_def abind_def outcome_def log_runtime_init_def amod_def)
  moreover have "log_ok (?p \<lparr> l_rdonly := False, l_writer := False, l_readers := 0 \<rparr>)"
    using C P sz sel by (simp add: log_ok_def live_def)
  moreover have "log_bytes (live (?p \<lparr> l_rdonly := False, l_writer := False, l_readers := 0 \<rparr>)) = []"
    using C P unfolding live_def by (simp flip: sel(1))
  ultimately show thesis using sel(2) by (intro that) simp_all
qed

end
