(* ===== verification/PmemLogSpec.thy ===== *)
theory PmemLogSpec
  imports PmemLogRead
begin

text \<open>
  What a log promises: a bounded list of bytes that grows at its end or is emptied, and whose media holds, at
  every moment, the content the log had after some of the operations. The contract is a locale; the log pool
  is an instance of it.
\<close>

section \<open>The specification\<close>

datatype log_op = Append "byte list" | Rewind

definition fits :: "nat \<Rightarrow> byte list \<Rightarrow> byte list \<Rightarrow> bool" where
  "fits n xs buf \<longleftrightarrow> length xs < n \<and> length xs + length buf \<le> n"

fun spec_log :: "nat \<Rightarrow> byte list \<Rightarrow> log_op \<Rightarrow> (failure + unit) \<times> byte list" where
  "spec_log n xs (Append buf) = (if fits n xs buf then (Inr (), xs @ buf) else (Inl (Errno ENOSPC), xs))"
| "spec_log n xs Rewind = (Inr (), [])"

text \<open>The answers of a sequence of operations, and the contents from the first to the last.\<close>

fun spec_answers :: "nat \<Rightarrow> byte list \<Rightarrow> log_op list \<Rightarrow> (failure + unit) list" where
  "spec_answers n xs [] = []"
| "spec_answers n xs (x # ops) = fst (spec_log n xs x) # spec_answers n (snd (spec_log n xs x)) ops"

fun spec_contents :: "nat \<Rightarrow> byte list \<Rightarrow> log_op list \<Rightarrow> byte list list" where
  "spec_contents n xs [] = [xs]"
| "spec_contents n xs (x # ops) = xs # spec_contents n (snd (spec_log n xs x)) ops"

lemma spec_contents_not_Nil [simp]: "spec_contents n xs ops \<noteq> []"
  by (cases ops) simp_all

lemma hd_contents: "xs \<in> set (spec_contents n xs ops)"
  by (cases ops) simp_all

fun run_log :: "(log_op \<Rightarrow> ('s, unit) act) \<Rightarrow> log_op list \<Rightarrow> 's \<Rightarrow> (failure + unit) list \<times> 's" where
  "run_log step [] s = ([], s)"
| "run_log step (x # ops) s =
     (let (r, t) = step x s; (rs, u) = run_log step ops t in (r # rs, u))"

section \<open>The contract\<close>

locale durable_log =
  fixes ok :: "'s \<Rightarrow> bool" and content :: "'s \<Rightarrow> byte list" and room :: "'s \<Rightarrow> nat" and images :: "'s \<Rightarrow> byte list set"
    and step :: "log_op \<Rightarrow> ('s, unit) act"
  assumes step_keeps: "ok s \<Longrightarrow> ok (snd (step x s)) \<and> room (snd (step x s)) = room s"
    and step_answer: "ok s \<Longrightarrow> fst (step x s) = fst (spec_log (room s) (content s) x)"
    and step_content: "ok s \<Longrightarrow> content (snd (step x s)) = snd (spec_log (room s) (content s) x)"
    and step_images: "ok s \<Longrightarrow> images (snd (step x s)) \<subseteq> images s \<union> {content s, content (snd (step x s))}"
begin

lemma run_refines:
  "ok s \<Longrightarrow> fst (run_log step ops s) = spec_answers (room s) (content s) ops
    \<and> content (snd (run_log step ops s)) = last (spec_contents (room s) (content s) ops)
    \<and> ok (snd (run_log step ops s)) \<and> room (snd (run_log step ops s)) = room s"
proof (induction ops arbitrary: s)
  case (Cons x ops)
  obtain r t where s: "step x s = (r, t)" by fastforce
  note L = step_keeps [OF Cons.prems, of x, unfolded s] step_answer [OF Cons.prems, of x, unfolded s]
    step_content [OF Cons.prems, of x, unfolded s]
  obtain rs u where u: "run_log step ops t = (rs, u)" by fastforce
  show ?case using L Cons.IH [of t, unfolded u] by (simp add: s u)
qed simp

lemma run_images:
  "ok s \<Longrightarrow> images (snd (run_log step ops s)) \<subseteq> images s \<union> set (spec_contents (room s) (content s) ops)"
proof (induction ops arbitrary: s)
  case Nil
  then show ?case by auto
next
  case (Cons x ops)
  obtain r t where s: "step x s = (r, t)" by fastforce
  note L = step_keeps [OF Cons.prems, of x, unfolded s] step_content [OF Cons.prems, of x, unfolded s]
    step_images [OF Cons.prems, of x, unfolded s]
  have t: "ok t" "room t = room s" "content t = snd (spec_log (room s) (content s) x)"
    and i: "images t \<subseteq> images s \<union> {content s, content t}" using L by simp_all
  have "images (snd (run_log step ops t)) \<subseteq> images t \<union> set (spec_contents (room s) (content t) ops)"
    using Cons.IH [OF t(1)] by (simp only: t(2))
  then have "images (snd (run_log step ops t)) \<subseteq> images s \<union> ({content s} \<union> set (spec_contents (room s) (content t) ops))"
    using i hd_contents [of "content t" "room s" ops] by blast
  moreover obtain rs u where "run_log step ops t = (rs, u)" by fastforce
  ultimately show ?case by (simp add: s t(3))
qed

end

section \<open>The log pool keeps the contract\<close>

definition log_step :: "log_op \<Rightarrow> (pmemlog, unit) act" where
  "log_step x = (case x of Append buf \<Rightarrow> pmemlog_append buf | Rewind \<Rightarrow> pmemlog_rewind)"

definition writable_log :: "pmemlog \<Rightarrow> bool" where "writable_log p \<longleftrightarrow> log_ok p \<and> \<not> l_rdonly p"

text \<open>What an open would find after a power failure at one of the moments so far; \<open>None\<close>: no valid log.\<close>

definition log_image :: "nat \<Rightarrow> (nat \<Rightarrow> byte) \<Rightarrow> byte list option" where
  "log_image sz m = (if log_descr_check m sz = Inr () then Some (log_bytes m) else None)"

definition log_images :: "pmemlog \<Rightarrow> byte list set" where
  "log_images p = {ys. \<exists>m \<in> set (l_hist p). \<exists>keep. Some ys = log_image (l_size p) (crash_image keep m)}"

lemma goes_images:
  assumes "log_goes p ys p'"
  shows "log_images p' \<subseteq> log_images p \<union> {log_bytes (live p), ys}"
proof
  fix zs assume "zs \<in> log_images p'"
  then obtain m keep where m: "m \<in> set (l_hist p')" "Some zs = log_image (l_size p') (crash_image keep m)"
    by (auto simp: log_images_def)
  obtain hs where hs: "l_hist p' = l_hist p @ hs" "l_size p' = l_size p"
    "\<forall>m \<in> set hs. \<forall>keep. log_bytes (crash_image keep m) \<in> {log_bytes (live p), ys}"
    using assms by (auto simp: log_goes_def)
  have z: "zs = log_bytes (crash_image keep m)" using m(2) by (simp add: log_image_def split: if_splits)
  show "zs \<in> log_images p \<union> {log_bytes (live p), ys}"
  proof (cases "m \<in> set hs")
    case True
    then show ?thesis using hs(3) z by auto
  next
    case False
    then show ?thesis using m hs by (auto simp: log_images_def)
  qed
qed

lemma log_length:
  assumes "log_ok p"
  shows "length (log_bytes (live p)) = write_offset (live p) - 8192" "8192 \<le> write_offset (live p)"
    "write_offset (live p) \<le> l_size p" "end_offset (live p) = l_size p" "l_size p < 2 ^ 63"
  using assms by (simp_all add: log_ok_def descr_iff log_bytes_def get_at_def)

lemma fits_iff: "log_ok p \<Longrightarrow> fits (l_size p - 8192) (log_bytes (live p)) buf
    \<longleftrightarrow> write_offset (live p) < l_size p \<and> write_offset (live p) + length buf \<le> l_size p"
  using log_length [of p] by (auto simp: fits_def)

lemma lock_cycle: "log_ok p \<Longrightarrow> p \<lparr> l_writer := False \<rparr> = p"
  by (simp add: log_ok_def)

lemma with_wrlock_fails:
  "log_ok p \<Longrightarrow> f (p \<lparr> l_writer := True \<rparr>) = (Inl (Errno e), p \<lparr> l_writer := True \<rparr>) \<Longrightarrow> with_wrlock f p = (Inl (Errno e), p)"
  by (simp add: with_wrlock_def wrlock_def unlock_def act_defs log_ok_def)

lemma append_full:
  assumes "log_ok p" "\<not> l_rdonly p" "\<not> fits (l_size p - 8192) (log_bytes (live p)) buf"
  shows "pmemlog_append buf p = (Inl (Errno ENOSPC), p)"
proof -
  let ?q = "p \<lparr> l_writer := True \<rparr>"
  have "live ?q = live p" by (simp add: live_def)
  then have "append_locked buf ?q = (Inl (Errno ENOSPC), ?q)"
    using assms(3) log_length [OF assms(1)] unfolding fits_iff [OF assms(1)]
    by (auto simp: append_locked_def act_run Let_def)
  then show ?thesis using with_wrlock_fails [OF assms(1)] assms(2) by (simp add: pmemlog_append_def act_run)
qed

lemma step_goes:
  assumes "writable_log p"
  shows "\<exists>p'. log_step x p = (fst (spec_log (l_size p - 8192) (log_bytes (live p)) x), p')
    \<and> (p' = p \<and> snd (spec_log (l_size p - 8192) (log_bytes (live p)) x) = log_bytes (live p)
       \<or> log_goes p (snd (spec_log (l_size p - 8192) (log_bytes (live p)) x)) p')"
proof (cases x)
  case (Append buf)
  show ?thesis
  proof (cases "fits (l_size p - 8192) (log_bytes (live p)) buf")
    case True
    then show ?thesis using assms append_ok [of p buf] fits_iff [of p buf] Append
      by (auto simp: log_step_def writable_log_def)
  next
    case False
    then show ?thesis using assms append_full [of p buf] Append by (simp add: log_step_def writable_log_def)
  qed
next
  case Rewind
  then show ?thesis using assms rewind_ok [of p] by (auto simp: log_step_def writable_log_def)
qed

interpretation pool_log: durable_log writable_log "\<lambda>p. log_bytes (live p)" "\<lambda>p. l_size p - 8192" log_images log_step
proof
  fix p x assume ok: "writable_log p"
  obtain p' where s: "log_step x p = (fst (spec_log (l_size p - 8192) (log_bytes (live p)) x), p')"
    and g: "p' = p \<and> snd (spec_log (l_size p - 8192) (log_bytes (live p)) x) = log_bytes (live p)
       \<or> log_goes p (snd (spec_log (l_size p - 8192) (log_bytes (live p)) x)) p'"
    using step_goes [OF ok] by blast
  show "fst (log_step x p) = fst (spec_log (l_size p - 8192) (log_bytes (live p)) x)" using s by simp
  show "writable_log (snd (log_step x p)) \<and> l_size (snd (log_step x p)) - 8192 = l_size p - 8192"
    using s g ok by (auto simp: writable_log_def log_goes_def)
  show c: "log_bytes (live (snd (log_step x p))) = snd (spec_log (l_size p - 8192) (log_bytes (live p)) x)"
    using s g by (auto simp: log_goes_def)
  show "log_images (snd (log_step x p)) \<subseteq> log_images p \<union> {log_bytes (live p), log_bytes (live (snd (log_step x p)))}"
    using s g goes_images [of p _ p'] unfolding c by auto
qed

text \<open>No moment has an image that an open would reject.\<close>

definition images_valid :: "pmemlog \<Rightarrow> bool" where
  "images_valid p \<longleftrightarrow> (\<forall>m \<in> set (l_hist p). \<forall>keep. log_descr_check (crash_image keep m) (l_size p) = Inr ())"

lemma step_valid: "writable_log p \<Longrightarrow> images_valid p \<Longrightarrow> images_valid (snd (log_step x p))"
  using step_goes [of p x] by (auto simp: images_valid_def log_goes_def)

lemma run_valid: "writable_log p \<Longrightarrow> images_valid p \<Longrightarrow> images_valid (snd (run_log log_step ops p))"
proof (induction ops arbitrary: p)
  case (Cons x ops)
  obtain r t where s: "log_step x p = (r, t)" by fastforce
  have "writable_log t" "images_valid t"
    using pool_log.step_keeps [OF Cons.prems(1), of x] step_valid [OF Cons.prems, of x] by (simp_all add: s)
  moreover obtain rs u where "run_log log_step ops t = (rs, u)" by fastforce
  ultimately show ?case using Cons.IH [of t] by (simp add: s)
qed simp

end
