(* ===== verification/LogClaims.thy ===== *)
theory LogClaims
  imports PmemLogSpec
begin

text \<open>
  The properties of a log pool: sequences of appends and rewinds against their specification, in memory and
  across a power failure, the walk, and opening.
\<close>

section \<open>Regions\<close>

text \<open>A region of one replica whose media holds \<open>m\<close>.\<close>

definition region_of :: "nat \<Rightarrow> (nat \<Rightarrow> byte) \<Rightarrow> pool_region" where
  "region_of sz m = \<lparr> s_mem = \<lparr> pm_live = m, pm_durable = m, pm_pending = [] \<rparr>, s_repsize = sz, s_is_pmem = True,
     s_is_dev_dax = False, s_nreplicas = 1, s_rdonly = False \<rparr>"

lemma region_of_open:
  assumes "sz < 2 ^ 63" "log_descr_check m sz = Inr ()"
  shows "\<exists>q. log_open_common (Inr (region_of sz m)) True = Inr q \<and> writable_log q \<and> l_size q = sz \<and> live q = m \<and> l_hist q = []"
proof -
  have "region_ok (region_of sz m)" using assms by (simp add: region_ok_def region_of_def)
  then have "log_open_common (Inr (region_of sz m)) True = Inr (mapped (region_of sz m) \<lparr> l_rdonly := False \<rparr>)"
    using open_ok [of "region_of sz m"] assms by (simp add: region_of_def)
  then show ?thesis using assms by (auto simp: region_of_def mapped_def writable_log_def log_ok_def live_def pm_clean_def)
qed

text \<open>A pool of three pages, for the witnesses: just created, and with five bytes.\<close>

definition small_log :: pmemlog where
  "small_log = (case pmemlog_create (Inr (region_of 12288 (\<lambda>_. 0))) 4096 True (Inr ()) of Inr p \<Rightarrow> p \<lparr> l_hist := [] \<rparr>)"

definition five_log :: pmemlog where "five_log = snd (pmemlog_append [1, 2, 3, 4, 5] small_log)"

lemma small_log: "writable_log small_log \<and> l_size small_log = 12288 \<and> log_bytes (live small_log) = [] \<and> l_hist small_log = []"
proof -
  have r: "region_ok (region_of 12288 (\<lambda>_. 0))" "s_repsize (region_of 12288 (\<lambda>_. 0)) mod 4096 = 0"
    "8192 \<le> s_repsize (region_of 12288 (\<lambda>_. 0))" "pm_clean (s_mem (region_of 12288 (\<lambda>_. 0)))"
    by (simp_all add: region_of_def region_ok_def pm_clean_def)
  obtain p where p: "pmemlog_create (Inr (region_of 12288 (\<lambda>_. 0))) 4096 True (Inr ()) = Inr p" "log_ok p"
    "l_size p = s_repsize (region_of 12288 (\<lambda>_. 0))" "\<not> l_rdonly p" "log_bytes (live p) = []"
    by (rule create_ok [OF r])
  then show ?thesis by (simp add: small_log_def writable_log_def log_ok_def live_def) (simp add: region_of_def)
qed

lemma five_log: "writable_log five_log \<and> l_size five_log = 12288 \<and> log_bytes (live five_log) = [1, 2, 3, 4, 5]"
proof -
  have f: "fits (l_size small_log - 8192) (log_bytes (live small_log)) [1, 2, 3, 4, 5]" using small_log by (simp add: fits_def)
  have ok: "log_ok small_log" "\<not> l_rdonly small_log" using small_log by (simp_all add: writable_log_def)
  obtain p' where "pmemlog_append [1, 2, 3, 4, 5] small_log = (Inr (), p')"
    "log_goes small_log (log_bytes (live small_log) @ [1, 2, 3, 4, 5]) p'"
    using append_ok [OF ok] fits_iff [OF ok(1)] f by metis
  then show ?thesis using small_log by (simp add: five_log_def log_goes_def writable_log_def)
qed

section \<open>Sequences of operations\<close>

text \<open>C31: On a writable log, any sequence of appends and rewinds gives the answers of a bounded list of bytes: an append is
  accepted exactly when the list is not full and has room for all of its bytes, and refused with ENOSPC otherwise, leaving
  the content alone; afterwards the log holds the content the specification has, its position is that content's length, and
  the log is as well-formed and writable as before.\<close>

theorem log_refines:
  assumes "writable_log p"
  shows "fst (run_log log_step ops p) = spec_answers (l_size p - 8192) (log_bytes (live p)) ops
    \<and> log_bytes (live (snd (run_log log_step ops p))) = last (spec_contents (l_size p - 8192) (log_bytes (live p)) ops)
    \<and> fst (pmemlog_tell (snd (run_log log_step ops p)))
        = Inr (int (length (last (spec_contents (l_size p - 8192) (log_bytes (live p)) ops))))
    \<and> writable_log (snd (run_log log_step ops p))"
proof -
  note R = pool_log.run_refines [OF assms, of ops]
  then have "log_ok (snd (run_log log_step ops p))" by (simp add: writable_log_def)
  from tell_ok [OF this] show ?thesis using R by simp
qed

theorem log_refines_witness:
  "fst (run_log log_step [Append [1, 2], Rewind, Append [3], Append (replicate 4096 0)] small_log) = [Inr (), Inr (), Inr (), Inl (Errno ENOSPC)]
    \<and> log_bytes (live (snd (run_log log_step [Append [1, 2], Rewind, Append [3], Append (replicate 4096 0)] small_log))) = [3]"
  using log_refines [of small_log "[Append [1, 2], Rewind, Append [3], Append (replicate 4096 0)]"] small_log
  by (simp add: fits_def)

text \<open>C30: A power failure at any moment of any sequence of appends and rewinds, with any choice of which not yet durable
  stores reached the media, leaves a pool that an open accepts, and the log that is opened holds the content the log had
  after some of the operations: an append is never seen in part.\<close>

theorem log_crash_atomic:
  assumes "writable_log p" "l_hist p = []"
  shows "\<forall>m \<in> set (l_hist (snd (run_log log_step ops p))). \<forall>keep.
    \<exists>q. log_open_common (Inr (region_of (l_size p) (crash_image keep m))) True = Inr q \<and> writable_log q
      \<and> log_bytes (live q) \<in> set (spec_contents (l_size p - 8192) (log_bytes (live p)) ops)"
proof (intro ballI allI)
  fix m keep assume m: "m \<in> set (l_hist (snd (run_log log_step ops p)))"
  let ?p' = "snd (run_log log_step ops p)"
  have ok: "log_ok p" using assms(1) by (simp add: writable_log_def)
  have "l_size ?p' - 8192 = l_size p - 8192" "log_ok ?p'"
    using pool_log.run_refines [OF assms(1), of ops] by (simp_all add: writable_log_def)
  then have sz: "l_size ?p' = l_size p" using log_length [OF ok] log_length [of ?p'] by simp
  have "images_valid p" using assms(2) by (simp add: images_valid_def)
  then have "images_valid ?p'" by (rule run_valid [OF assms(1)])
  then have d: "log_descr_check (crash_image keep m) (l_size p) = Inr ()"
    using m by (simp add: images_valid_def sz)
  then have "log_bytes (crash_image keep m) \<in> log_images ?p'"
    using m sz by (auto simp: log_images_def log_image_def)
  then have "log_bytes (crash_image keep m) \<in> set (spec_contents (l_size p - 8192) (log_bytes (live p)) ops)"
    using pool_log.run_images [OF assms(1), of ops] assms(2) by (auto simp: log_images_def)
  then show "\<exists>q. log_open_common (Inr (region_of (l_size p) (crash_image keep m))) True = Inr q \<and> writable_log q
      \<and> log_bytes (live q) \<in> set (spec_contents (l_size p - 8192) (log_bytes (live p)) ops)"
    using region_of_open [OF log_length(5) [OF ok] d] by auto
qed

theorem log_crash_atomic_witness:
  "\<not> (\<exists>m keep. m \<in> set (l_hist (snd (run_log log_step [Append [1, 2, 3]] small_log)))
    \<and> \<not> (\<exists>q. log_open_common (Inr (region_of 12288 (crash_image keep m))) True = Inr q \<and> writable_log q
      \<and> log_bytes (live q) \<in> {[], [1, 2, 3]}))"
proof -
  have "spec_contents (l_size small_log - 8192) (log_bytes (live small_log)) [Append [1, 2, 3]] = [[], [1, 2, 3]]"
    using small_log by (simp add: fits_def)
  then show ?thesis using log_crash_atomic [of small_log "[Append [1, 2, 3]]"] small_log
    by (auto simp del: run_log.simps spec_contents.simps)
qed

text \<open>C32: A vectored append of as many buffers as its count says answers as an append of their concatenation, and leaves a
  log of the same content, well-formed again, provided their lengths do not add up to more than 64 bits hold.\<close>

theorem appendv_as_append:
  assumes "writable_log p" "0 \<le> iovcnt" "nat iovcnt \<le> length iov" "length (concat (take (nat iovcnt) iov)) < 2 ^ 64"
  shows "fst (pmemlog_appendv iov iovcnt p) = fst (pmemlog_append (concat (take (nat iovcnt) iov)) p)
    \<and> log_bytes (live (snd (pmemlog_appendv iov iovcnt p))) = log_bytes (live (snd (pmemlog_append (concat (take (nat iovcnt) iov)) p)))
    \<and> writable_log (snd (pmemlog_appendv iov iovcnt p))"
proof -
  let ?xs = "take (nat iovcnt) iov" and ?q = "p \<lparr> l_writer := True \<rparr>"
  have ok: "log_ok p" "\<not> l_rdonly p" using assms(1) by (simp_all add: writable_log_def)
  show ?thesis
  proof (cases "fits (l_size p - 8192) (log_bytes (live p)) (concat ?xs)")
    case True
    then have sp: "write_offset (live p) < l_size p" "write_offset (live p) + length (concat ?xs) \<le> l_size p"
      using fits_iff [OF ok(1)] by simp_all
    obtain p1 where "pmemlog_append (concat ?xs) p = (Inr (), p1)" "log_goes p (log_bytes (live p) @ concat ?xs) p1"
      by (rule append_ok [OF ok sp])
    moreover obtain p2 where "pmemlog_appendv iov iovcnt p = (Inr (), p2)" "log_goes p (log_bytes (live p) @ concat ?xs) p2"
      by (rule appendv_ok [OF ok assms(2,3) sp])
    ultimately show ?thesis using ok by (simp add: writable_log_def log_goes_def)
  next
    case False
    have "live ?q = live p" by (simp add: live_def)
    moreover have "iov_total 0 ?xs = length (concat ?xs)" using assms(4) by (subst iov_total_eq) simp_all
    ultimately have "appendv_locked iov (nat iovcnt) ?q = (Inl (Errno ENOSPC), ?q)"
      using False log_length [OF ok(1)] assms(2,3) unfolding fits_iff [OF ok(1)]
      by (auto simp: appendv_locked_def act_run Let_def)
    then have "pmemlog_appendv iov iovcnt p = (Inl (Errno ENOSPC), p)"
      using with_wrlock_fails [OF ok(1)] ok assms(2) by (simp add: pmemlog_appendv_def act_run)
    then show ?thesis using append_full [OF ok False] assms(1) by simp
  qed
qed

theorem appendv_as_append_witness:
  "log_bytes (live (snd (pmemlog_appendv [[6, 7], [8], [9]] 2 five_log))) = [1, 2, 3, 4, 5, 6, 7, 8]"
proof -
  have ok: "log_ok five_log" "\<not> l_rdonly five_log" and w: "writable_log five_log" using five_log by (simp_all add: writable_log_def)
  have "fits (l_size five_log - 8192) (log_bytes (live five_log)) [6, 7, 8]" using five_log by (simp add: fits_def)
  then obtain p' where "pmemlog_append [6, 7, 8] five_log = (Inr (), p')" "log_goes five_log (log_bytes (live five_log) @ [6, 7, 8]) p'"
    using append_ok [OF ok] fits_iff [OF ok(1)] by metis
  then show ?thesis using appendv_as_append [OF w, of 2 "[[6, 7], [8], [9]]"] five_log by (simp add: log_goes_def)
qed

text \<open>A log that is open read-only refuses appends and rewinds with EROFS and stays as it is.\<close>

theorem log_read_only:
  assumes "l_rdonly p"
  shows "pmemlog_append buf p = (Inl (Errno EROFS), p) \<and> pmemlog_rewind p = (Inl (Errno EROFS), p)
    \<and> pmemlog_appendv iov iovcnt p = (Inl (Errno (if iovcnt < 0 then EINVAL else EROFS)), p)"
  using assms by (simp add: pmemlog_append_def pmemlog_appendv_def pmemlog_rewind_def act_run)

theorem log_read_only_witness:
  "pmemlog_append [1] (five_log \<lparr> l_rdonly := True \<rparr>) = (Inl (Errno EROFS), five_log \<lparr> l_rdonly := True \<rparr>)"
  using log_read_only [of "five_log \<lparr> l_rdonly := True \<rparr>" "[1]"] by simp

section \<open>Walking\<close>

text \<open>A chunk size near \<open>2 ^ 64\<close> makes the offset go down instead of up, until it drops below zero.\<close>

lemma walk_wrap_returns:
  assumes "2 ^ 64 < w + n" "w < 2 ^ 63" "n < 2 ^ 64" "w \<le> sz"
  shows "off < 2 ^ 64 \<Longrightarrow> \<exists>b. walk_loop m sz n w f off a = Some (Inr b)"
proof (induction off arbitrary: a rule: less_induct)
  case (less off)
  show ?case
  proof (cases "off < w")
    case False
    then show ?thesis by (simp add: walk_loop.simps)
  next
    case True
    have sz: "\<not> sz < off + min n (w - off)" using True assms(4) min.cobounded2 [of n "w - off"] by linarith
    have "\<exists>b. walk_loop m sz n w f (u64 (off + n)) c = Some (Inr b)" for c
    proof (cases "off + n < 2 ^ 64")
      case below: True
      then have "\<not> u64 (off + n) < w" using assms by simp
      then show ?thesis by (simp add: walk_loop.simps)
    next
      case above: False
      have "u64 (off + n) = off + n - 2 ^ 64"
        using True assms above unfolding u64_def by (subst mod_if) (simp add: le_mod_geq)
      then have "u64 (off + n) < off" using assms(3) above by simp
      then show ?thesis using less by simp
    qed
    then show ?thesis using True sz by (subst walk_loop.simps) (simp add: Let_def)
  qed
qed

text \<open>C33: A walk returns for every chunk size, even one for which the offset wraps around, whatever the callback does; it
  leaves the log as it was. When the chunk size is at most \<open>2 ^ 64\<close> less the write offset, the callback has been given the
  log in pieces of the chunk size, in order, each once, until it asked to stop; with chunk size zero it has been called
  exactly once, with the whole log.\<close>

theorem walk_returns:
  assumes "log_ok p" "n < 2 ^ 64"
  shows "\<exists>b. pmemlog_walk n f a p = (Inr b, p)
    \<and> (n = 0 \<longrightarrow> b = snd (f (log_bytes (live p)) a))
    \<and> (0 < n \<and> write_offset (live p) + n \<le> 2 ^ 64 \<longrightarrow> b = feed f (chunks n (log_bytes (live p))) a
         \<and> concat (chunks n (log_bytes (live p))) = log_bytes (live p))"
proof (cases "write_offset (live p) + n \<le> 2 ^ 64")
  case True
  then show ?thesis using walk_ok [OF assms(1) True, of f a] concat_chunks [of n "log_bytes (live p)"] by simp
next
  case False
  let ?q = "p \<lparr> l_readers := 1 \<rparr>"
  note L = log_length [OF assms(1)]
  have "start_offset (live p) = 8192" using assms(1) by (simp add: log_ok_def descr_iff)
  moreover have "n \<noteq> 0" using False L by simp
  moreover have "write_offset (live p) < 2 ^ 63" using L by simp
  then obtain b where "walk_loop (live p) (l_size p) n (write_offset (live p)) f 8192 a = Some (Inr b)"
    using walk_wrap_returns [of "write_offset (live p)" n "l_size p" 8192 "live p" f a] False L assms(2) by auto
  moreover have "live ?q = live p" "p \<lparr> l_readers := 0 \<rparr> = p" "\<not> l_writer p" using assms(1) by (simp_all add: live_def log_ok_def)
  ultimately have "pmemlog_walk n f a p = (Inr b, p)"
    unfolding pmemlog_walk_def Let_def with_rdlock [OF assms(1)] by (simp add: act_defs)
  then show ?thesis using False \<open>n \<noteq> 0\<close> by simp
qed

theorem walk_returns_witness:
  "pmemlog_walk 2 (\<lambda>c cs. (True, cs @ [c])) [] five_log = (Inr [[1, 2], [3, 4], [5]], five_log)"
proof -
  have ok: "log_ok five_log" using five_log by (simp add: writable_log_def)
  have "write_offset (live five_log) + 2 \<le> 2 ^ 64" using log_length [OF ok] by simp
  then show ?thesis using walk_returns [OF ok, of 2 "\<lambda>c cs. (True, cs @ [c])" "[]"] five_log by (auto simp: chunks.simps)
qed

text \<open>C35: With chunk size \<open>2 ^ 64 - 1\<close> (as the type \<^verbatim>\<open>size_t\<close> allows) a walk of a log that is not empty does not
  end after its one chunk: the next piece it hands to the callback starts one byte before the log.\<close>

theorem walk_overruns:
  assumes "log_ok p" "log_bytes (live p) \<noteq> []"
  shows "pmemlog_walk (2 ^ 64 - 1) (\<lambda>c cs. (cs = [], cs @ [c])) [] p
    = (Inr [log_bytes (live p), live p (start_offset (live p) - 1) # log_bytes (live p)], p)"
proof -
  let ?f = "\<lambda>c cs. (cs = [], cs @ [c])" and ?N = "2 ^ 64 - 1 :: nat" and ?w = "write_offset (live p)" and ?q = "p \<lparr> l_readers := 1 \<rparr>"
  note L = log_length [OF assms(1)]
  have st: "start_offset (live p) = 8192" using assms(1) by (simp add: log_ok_def descr_iff)
  have w: "8192 < ?w" "?w \<le> l_size p" "?w < 2 ^ 63" using L assms(2) by (simp_all flip: length_0_conv)
  have u: "u64 (8192 + ?N) = 8191" by (simp add: u64_def)
  have g: "get_at (live p) 8191 (?w - 8191) = live p 8191 # log_bytes (live p)"
    using w st by (simp add: get_at_def log_bytes_def upt_conv_Cons)
  have l2: "walk_loop (live p) (l_size p) ?N ?w ?f 8191 [log_bytes (live p)] = Some (Inr [log_bytes (live p), live p 8191 # log_bytes (live p)])"
  proof -
    have "\<not> 18446744073709551615 \<le> ?w - 8191" using w(3) by simp
    then show ?thesis using w g by (subst walk_loop.simps) (simp add: Let_def min_def)
  qed
  have "walk_loop (live p) (l_size p) ?N ?w ?f 8192 [] = walk_loop (live p) (l_size p) ?N ?w ?f (u64 (8192 + ?N)) [log_bytes (live p)]"
  proof -
    have "\<not> 18446744073709551615 \<le> ?w - 8192" using w(3) by simp
    then show ?thesis using w st by (subst walk_loop.simps) (simp add: Let_def min_def log_bytes_def)
  qed
  then have r: "walk_loop (live p) (l_size p) ?N ?w ?f 8192 [] = Some (Inr [log_bytes (live p), live p 8191 # log_bytes (live p)])"
    using l2 unfolding u by simp
  have "live ?q = live p" "p \<lparr> l_readers := 0 \<rparr> = p" "\<not> l_writer p" using assms(1) by (simp_all add: live_def log_ok_def)
  then show ?thesis
    unfolding pmemlog_walk_def Let_def with_rdlock [OF assms(1)] using r st by (simp add: act_defs)
qed

theorem walk_overruns_witness:
  "\<exists>b. pmemlog_walk (2 ^ 64 - 1) (\<lambda>c cs. (cs = [], cs @ [c])) [] five_log = (Inr [[1, 2, 3, 4, 5], [b, 1, 2, 3, 4, 5]], five_log)"
  using walk_overruns [of five_log] five_log by (simp add: writable_log_def)

section \<open>Creating and opening\<close>

text \<open>C34: A pool made from a region of a whole number of pages holds an empty log whose capacity is the region less its two
  header pages; after any operations on it, opening what its memory then holds gives the log back with the content it had.\<close>

theorem create_open_roundtrip:
  assumes "region_ok r" "s_repsize r mod pagesize = 0" "8192 \<le> s_repsize r" "pm_clean (s_mem r)"
  shows "\<exists>p. pmemlog_create (Inr r) pagesize True (Inr ()) = Inr p
    \<and> fst (pmemlog_tell p) = Inr 0 \<and> fst (pmemlog_nbyte p) = Inr (s_repsize r - 8192)
    \<and> (\<exists>q. log_open_common (Inr (r \<lparr> s_mem := l_mem (snd (run_log log_step ops p)) \<rparr>)) True = Inr q
         \<and> log_ok q \<and> log_bytes (live q) = last (spec_contents (s_repsize r - 8192) [] ops))"
proof -
  obtain p where p: "pmemlog_create (Inr r) pagesize True (Inr ()) = Inr p" "log_ok p" "l_size p = s_repsize r"
    "\<not> l_rdonly p" "log_bytes (live p) = []"
    by (rule create_ok [OF assms])
  let ?p' = "snd (run_log log_step ops p)"
  have "writable_log p" using p by (simp add: writable_log_def)
  note R = pool_log.run_refines [OF this, of ops]
  have ok': "log_ok ?p'" and c: "log_bytes (live ?p') = last (spec_contents (s_repsize r - 8192) [] ops)"
    using R p by (simp_all add: writable_log_def)
  have "l_size ?p' - 8192 = l_size p - 8192" using R by simp
  then have sz: "l_size ?p' = s_repsize r" using p(3) log_length(2,3) [OF ok'] log_length(2,3) [OF p(2)] by linarith
  let ?r = "r \<lparr> s_mem := l_mem ?p' \<rparr>"
  have "region_ok ?r" "log_descr_check (pm_live (s_mem ?r)) (s_repsize ?r) = Inr ()"
    using assms(1) ok' sz by (simp_all add: region_ok_def log_ok_def live_def)
  then have "log_open_common (Inr ?r) True = Inr (mapped ?r \<lparr> l_rdonly := s_rdonly ?r \<rparr>)" by (rule open_ok)
  moreover have "log_ok (mapped ?r \<lparr> l_rdonly := s_rdonly ?r \<rparr>)" "live (mapped ?r \<lparr> l_rdonly := s_rdonly ?r \<rparr>) = live ?p'"
    using ok' sz by (simp_all add: mapped_def log_ok_def live_def)
  ultimately show ?thesis using p tell_ok [OF p(2)] nbyte_ok [OF p(2)] c by simp
qed

theorem create_open_roundtrip_witness:
  "\<exists>p q. pmemlog_create (Inr (region_of 12288 (\<lambda>_. 0))) 4096 True (Inr ()) = Inr p
    \<and> log_open_common (Inr (region_of 12288 (\<lambda>_. 0) \<lparr> s_mem := l_mem (snd (run_log log_step [Append [7, 8]] p)) \<rparr>)) True = Inr q
    \<and> log_bytes (live q) = [7, 8]"
  using create_open_roundtrip [of "region_of 12288 (\<lambda>_. 0)" 4096 "[Append [7, 8]]"]
  by (auto simp: region_ok_def region_of_def pm_clean_def fits_def)

text \<open>C36: Opening refuses with EINVAL a region whose offsets are not those of a log of its size, so the consistency check,
  which opens the pool first, never answers that a pool is inconsistent: it is consistent or there was an error.\<close>

theorem open_checks_offsets:
  shows "pmemlog_check opened ok \<noteq> Inr False
    \<and> (region_ok r \<and> log_descr_check (pm_live (s_mem r)) (s_repsize r) \<noteq> Inr () \<longrightarrow>
         pmemlog_check (Inr r) True = Inl (Errno EINVAL) \<and> log_open_common (Inr r) True = Inl (Errno EINVAL))"
proof -
  have "pmemlog_check opened ok \<noteq> Inr False" using check_consistent [of opened ok False] by auto
  moreover have "pmemlog_check (Inr r) True = Inl (Errno EINVAL) \<and> log_open_common (Inr r) True = Inl (Errno EINVAL)"
    if "region_ok r" "log_descr_check (pm_live (s_mem r)) (s_repsize r) \<noteq> Inr ()"
    using open_bad [OF that] by (simp add: pmemlog_check_def fail_with_def)
  ultimately show ?thesis by blast
qed

theorem open_checks_offsets_witness:
  "pmemlog_check (Inr (region_of 12288 (\<lambda>_. 0))) True = Inl (Errno EINVAL)"
proof -
  have "word64_at (\<lambda>_. 0) n = 0" for n
    by (simp add: word64_at_def get_at_def upt_conv_Cons le64toh_def)
  then have "log_descr_check (pm_live (s_mem (region_of 12288 (\<lambda>_. 0)))) (s_repsize (region_of 12288 (\<lambda>_. 0))) \<noteq> Inr ()"
    by (simp add: region_of_def descr_iff start_offset_def)
  moreover have "region_ok (region_of 12288 (\<lambda>_. 0))" by (simp add: region_of_def region_ok_def)
  ultimately show ?thesis using open_checks_offsets by blast
qed

end
