(* ===== verification/Ulog.thy ===== *)
theory Ulog
  imports PmdkPersist PmdkChecksum
begin

text \<open>
  The unified log of \<^verbatim>\<open>pmdk/src/libpmemobj/ulog.c\<close>: the log of modifications behind every atomic operation of the
  object store. Addresses in the pool are offsets from its base. A log lies in the pool or, as the copy an
  operation collects, in ordinary memory; modifications go to the pool or, for transient state, to ordinary memory.
  \<open>o_hist\<close> is a ghost: the states the persistent memory went through. Iteration over a log has fuel; every step of it consumes an
  entry of at least 16 bytes or moves to the next log, so that the size of the memory is enough unless
  the logs form a circle.
\<close>

unbundle bit_operations_syntax

section \<open>Memory\<close>

record pool_mem =
  o_mem :: pmem
  o_size :: nat
  o_dram :: "nat \<Rightarrow> byte"
  o_hist :: "pmem list"

datatype target = Persistent | Transient

definition olive :: "pool_mem \<Rightarrow> nat \<Rightarrow> byte" where
  "olive s = pm_live (o_mem s)"

definition ostep :: "(pmem \<Rightarrow> pmem) \<Rightarrow> pool_mem \<Rightarrow> pool_mem" where
  "ostep f s = s \<lparr> o_mem := f (o_mem s), o_hist := o_hist s @ [f (o_mem s)] \<rparr>"

text \<open>A store whose flush has started, and \<^verbatim>\<open>pmemops_drain\<close>.\<close>

definition ostore :: "nat \<Rightarrow> byte list \<Rightarrow> (pool_mem, unit) act" where
  "ostore off bs = abind (aget o_size) (\<lambda>sz.
     if off + length bs > sz then afail (Fault OutOfBounds) else amod (ostep (pm_store True off bs)))"

definition odrain :: "(pool_mem, unit) act" where
  "odrain = amod (ostep pm_drain)"

definition opersist :: "nat \<Rightarrow> nat \<Rightarrow> (pool_mem, unit) act" where
  "opersist off n = amod (ostep (pm_persist off n))"

definition twrite :: "target \<Rightarrow> nat \<Rightarrow> byte list \<Rightarrow> (pool_mem, unit) act" where
  "twrite ops off bs = (case ops of Persistent \<Rightarrow> ostore off bs
     | Transient \<Rightarrow> amod (\<lambda>s. s \<lparr> o_dram := put_at off bs (o_dram s) \<rparr>))"

definition tread :: "target \<Rightarrow> nat \<Rightarrow> nat \<Rightarrow> (pool_mem, byte list) act" where
  "tread ops off n = (case ops of
       Persistent \<Rightarrow> abind (aget (\<lambda>s. s)) (\<lambda>s. if off + n > o_size s then afail (Fault OutOfBounds) else aret (get_at (olive s) off n))
     | Transient \<Rightarrow> aget (\<lambda>s. get_at (o_dram s) off n))"

section \<open>Fields and entries\<close>

definition CACHELINE_SIZE :: nat where "CACHELINE_SIZE = 64"

definition cacheline_align :: "nat \<Rightarrow> nat" where
  "cacheline_align n = roundup64 n CACHELINE_SIZE"

text \<open>A 64-bit field of a structure given by its bytes, as far as they are memory.\<close>

definition rd64 :: "byte list \<Rightarrow> nat \<Rightarrow> 64 word res" where
  "rd64 b off = (if off + 8 \<le> length b then Inr (of_le (get_bytes off 8 b)) else Inl OutOfBounds)"

definition rd64n :: "byte list \<Rightarrow> nat \<Rightarrow> nat res" where
  "rd64n b off = sbind (rd64 b off) (\<lambda>w. Inr (unat w))"

text \<open>Offsets of the fields of \<^verbatim>\<open>struct ulog\<close>; the data follow the 64 bytes of metadata.\<close>

definition U_NEXT :: nat where "U_NEXT = 8"
definition U_CAPACITY :: nat where "U_CAPACITY = 16"
definition U_GEN_NUM :: nat where "U_GEN_NUM = 24"
definition U_FLAGS :: nat where "U_FLAGS = 32"
definition SIZEOF_ULOG :: "nat \<Rightarrow> nat" where "SIZEOF_ULOG n = 64 + n"

lemmas ulog_fields = U_NEXT_def U_CAPACITY_def U_GEN_NUM_def U_FLAGS_def SIZEOF_ULOG_def

definition ULOG_OPERATION_SET :: "64 word" where "ULOG_OPERATION_SET = push_bit 61 0"
definition ULOG_OPERATION_AND :: "64 word" where "ULOG_OPERATION_AND = push_bit 61 1"
definition ULOG_OPERATION_OR :: "64 word" where "ULOG_OPERATION_OR = push_bit 61 2"
definition ULOG_OPERATION_BUF_SET :: "64 word" where "ULOG_OPERATION_BUF_SET = push_bit 61 5"
definition ULOG_OPERATION_BUF_CPY :: "64 word" where "ULOG_OPERATION_BUF_CPY = push_bit 61 6"
definition ULOG_OPERATION_MASK :: "64 word" where "ULOG_OPERATION_MASK = push_bit 61 7"
definition ULOG_OFFSET_MASK :: "64 word" where "ULOG_OFFSET_MASK = NOT ULOG_OPERATION_MASK"

lemmas ulog_operations = ULOG_OPERATION_SET_def ULOG_OPERATION_AND_def ULOG_OPERATION_OR_def
  ULOG_OPERATION_BUF_SET_def ULOG_OPERATION_BUF_CPY_def ULOG_OPERATION_MASK_def ULOG_OFFSET_MASK_def

definition ULOG_USER_OWNED :: "64 word" where "ULOG_USER_OWNED = 1"
definition ULOG_FREE_AFTER_FIRST :: "64 word" where "ULOG_FREE_AFTER_FIRST = 1"
definition ULOG_INC_FIRST_GEN_NUM :: "64 word" where "ULOG_INC_FIRST_GEN_NUM = 2"
definition ULOG_ANY_USER_BUFFER :: "64 word" where "ULOG_ANY_USER_BUFFER = 4"

definition ulog_entry_type :: "64 word \<Rightarrow> 64 word" where
  "ulog_entry_type offset = offset AND ULOG_OPERATION_MASK"

definition ulog_entry_offset :: "64 word \<Rightarrow> nat" where
  "ulog_entry_offset offset = unat (offset AND ULOG_OFFSET_MASK)"

text \<open>An entry is given by the bytes from its start on: \<^verbatim>\<open>offset\<close>, then \<^verbatim>\<open>value\<close>, or \<^verbatim>\<open>checksum\<close>, \<^verbatim>\<open>size\<close> and \<^verbatim>\<open>data\<close>.\<close>

definition is_val :: "64 word \<Rightarrow> bool" where
  "is_val t \<longleftrightarrow> t = ULOG_OPERATION_AND \<or> t = ULOG_OPERATION_OR \<or> t = ULOG_OPERATION_SET"

definition is_buf :: "64 word \<Rightarrow> bool" where
  "is_buf t \<longleftrightarrow> t = ULOG_OPERATION_BUF_SET \<or> t = ULOG_OPERATION_BUF_CPY"

definition ulog_entry_size :: "byte list \<Rightarrow> nat res" where
  "ulog_entry_size e = sbind (rd64 e 0) (\<lambda>offset.
     if is_val (ulog_entry_type offset) then Inr 16
     else if is_buf (ulog_entry_type offset) then sbind (rd64n e 16) (\<lambda>size. Inr (cacheline_align (u64 (24 + size))))
     else Inl AssertFailed)"

definition ulog_entry_valid :: "64 word \<Rightarrow> byte list \<Rightarrow> bool res" where
  "ulog_entry_valid gen_num e = sbind (rd64 e 0) (\<lambda>offset.
     if offset = 0 then Inr False
     else if is_buf (ulog_entry_type offset)
     then sbind (ulog_entry_size e) (\<lambda>size.
          if size > length e then Inl OutOfBounds
          else sbind (util_checksum_compute (take size e) (Some 8) 0) (\<lambda>csum.
               sbind (util_checksum_seq (to_le 8 gen_num) csum) (\<lambda>csum.
               sbind (rd64 e 8) (\<lambda>checksum. Inr (checksum = csum)))))
     else Inr True)"

section \<open>Walking over the logs\<close>

datatype ulog_ref = Dram "byte list" | Pool nat

text \<open>The bytes from the start of a log to the end of the memory it is in.\<close>

definition ulog_view :: "ulog_ref \<Rightarrow> pool_mem \<Rightarrow> byte list" where
  "ulog_view r s = (case r of Dram b \<Rightarrow> b | Pool a \<Rightarrow> get_at (olive s) a (o_size s - a))"

definition ulog_by_offset :: "nat \<Rightarrow> nat option" where
  "ulog_by_offset offset = (if offset = 0 then None else Some (cacheline_align offset))"

definition ulog_next :: "ulog_ref \<Rightarrow> (pool_mem, nat option) act" where
  "ulog_next r = abind (aget (ulog_view r)) (\<lambda>b. abind (alift (rd64n b U_NEXT)) (\<lambda>next. aret (ulog_by_offset next)))"

text \<open>
  The two loops of \<^verbatim>\<open>ulog_foreach_entry\<close>; \<open>cb\<close> gets the bytes from the entry on. Entries of the pool
  are read again after the callback, which may have changed it.
\<close>

fun foreach_loop ::
    "nat \<Rightarrow> ulog_ref \<Rightarrow> (byte list \<Rightarrow> (pool_mem, int) act) \<Rightarrow> ulog_ref \<Rightarrow> nat \<Rightarrow> (pool_mem, int) act" where
  "foreach_loop 0 ulog cb r offset = afail (Fault Diverged)"
| "foreach_loop (Suc k) ulog cb r offset =
     abind (aget (ulog_view r)) (\<lambda>b.
     abind (alift (rd64n b U_CAPACITY)) (\<lambda>capacity.
     if offset < capacity
     then abind (aget (ulog_view ulog)) (\<lambda>b0.
          abind (alift (rd64 b0 U_GEN_NUM)) (\<lambda>gen_num.
          abind (alift (ulog_entry_valid gen_num (drop (64 + offset) b))) (\<lambda>valid.
          if \<not> valid then aret 0
          else abind (cb (drop (64 + offset) b)) (\<lambda>ret.
               if ret \<noteq> 0 then aret ret
               else abind (aget (ulog_view r)) (\<lambda>b.
                    abind (alift (ulog_entry_size (drop (64 + offset) b))) (\<lambda>size.
                    foreach_loop k ulog cb r (u64 (offset + size))))))))
     else abind (ulog_next r) (\<lambda>next. case next of None \<Rightarrow> aret 0 | Some a \<Rightarrow> foreach_loop k ulog cb (Pool a) 0)))"

definition walk_fuel :: "ulog_ref \<Rightarrow> pool_mem \<Rightarrow> nat" where
  "walk_fuel r s = Suc (o_size s + length (ulog_view r s))"

definition ulog_foreach_entry :: "ulog_ref \<Rightarrow> (byte list \<Rightarrow> (pool_mem, int) act) \<Rightarrow> (pool_mem, int) act" where
  "ulog_foreach_entry ulog cb = abind (aget (walk_fuel ulog)) (\<lambda>k. foreach_loop k ulog cb ulog 0)"

text \<open>The chain of logs behind one.\<close>

fun next_logs :: "nat \<Rightarrow> ulog_ref \<Rightarrow> (pool_mem, nat list) act" where
  "next_logs 0 r = afail (Fault Diverged)"
| "next_logs (Suc k) r =
     abind (ulog_next r) (\<lambda>next. case next of None \<Rightarrow> aret []
     | Some a \<Rightarrow> abind (next_logs k (Pool a)) (\<lambda>as. aret (a # as)))"

definition pool_field :: "nat \<Rightarrow> nat \<Rightarrow> (pool_mem, nat) act" where
  "pool_field a off = abind (aget (ulog_view (Pool a))) (\<lambda>b. alift (rd64n b off))"

fun sum_capacity :: "nat list \<Rightarrow> nat \<Rightarrow> (pool_mem, nat) act" where
  "sum_capacity [] capacity = aret capacity"
| "sum_capacity (a # as) capacity = abind (pool_field a U_CAPACITY) (\<lambda>c. sum_capacity as (u64 (capacity + c)))"

definition ulog_capacity :: "nat \<Rightarrow> nat \<Rightarrow> (pool_mem, nat) act" where
  "ulog_capacity ulog ulog_base_bytes =
     abind (aget (walk_fuel (Pool ulog))) (\<lambda>k. abind (next_logs k (Pool ulog)) (\<lambda>as. sum_capacity as ulog_base_bytes))"

text \<open>The vector of \<^verbatim>\<open>next\<close> fields that are not zero; pushing succeeds.\<close>

fun next_fields :: "nat list \<Rightarrow> (pool_mem, nat list) act" where
  "next_fields [] = aret []"
| "next_fields (a # as) = abind (pool_field a U_NEXT) (\<lambda>n. abind (next_fields as) (\<lambda>ns. aret (if n \<noteq> 0 then n # ns else ns)))"

definition ulog_rebuild_next_vec :: "nat \<Rightarrow> (pool_mem, nat list) act" where
  "ulog_rebuild_next_vec ulog =
     abind (aget (walk_fuel (Pool ulog))) (\<lambda>k. abind (next_logs k (Pool ulog)) (\<lambda>as. next_fields (ulog # as)))"

section \<open>Making logs\<close>

definition ALIGN_DOWN64 :: "nat \<Rightarrow> nat" where "ALIGN_DOWN64 n = n div CACHELINE_SIZE * CACHELINE_SIZE"

text \<open>The header written by \<^verbatim>\<open>ulog_construct\<close> and the zeroed header of the first entry.\<close>

definition ulog_construct :: "nat \<Rightarrow> nat \<Rightarrow> 64 word \<Rightarrow> bool \<Rightarrow> 64 word \<Rightarrow> (pool_mem, unit) act" where
  "ulog_construct offset capacity gen_num flush flags = (case ulog_by_offset offset of
       None \<Rightarrow> afail (Fault AssertFailed)
     | Some ulog \<Rightarrow>
         let diff = sub64 ulog offset;
             capacity = (if diff > 0 then ALIGN_DOWN64 (sub64 capacity diff) else capacity);
             header = to_le 8 (0 :: 64 word) @ to_le 8 (0 :: 64 word) @ to_le 8 (of_nat capacity :: 64 word)
               @ to_le 8 gen_num @ to_le 8 flags @ replicate 24 0 in
         abind (aget o_size) (\<lambda>sz.
         if ulog + 128 > sz then afail (Fault OutOfBounds)
         else abind (amod (ostep (pm_store flush ulog header))) (\<lambda>_.
              amod (ostep (pm_store flush (ulog + 64) (replicate (cacheline_align 8) 0))))))"

text \<open>Adding logs until \<open>new_capacity\<close> is reached; \<open>extend_fn\<close> gets the address of the field \<^verbatim>\<open>next\<close> to fill.\<close>

fun reserve_loop ::
    "nat \<Rightarrow> (nat \<Rightarrow> 64 word \<Rightarrow> (pool_mem, int) act) \<Rightarrow> 64 word \<Rightarrow> nat \<Rightarrow> nat \<Rightarrow> nat \<Rightarrow> nat list \<Rightarrow> (pool_mem, (nat \<times> nat list) option) act" where
  "reserve_loop 0 extend_fn gen_num new_capacity ulog capacity next = afail (Fault Diverged)"
| "reserve_loop (Suc k) extend_fn gen_num new_capacity ulog capacity next =
     (if capacity < new_capacity
      then abind (extend_fn (ulog + U_NEXT) gen_num) (\<lambda>r.
           if r \<noteq> 0 then aret None
           else abind (pool_field ulog U_NEXT) (\<lambda>n. case ulog_by_offset n of None \<Rightarrow> afail (Fault AssertFailed)
           | Some ulog \<Rightarrow> abind (pool_field ulog U_CAPACITY) (\<lambda>c.
                reserve_loop k extend_fn gen_num new_capacity ulog (u64 (capacity + c)) (next @ [n]))))
      else aret (Some (capacity, next)))"

definition last_log :: "nat \<Rightarrow> nat list \<Rightarrow> nat option" where
  "last_log ulog next = (if next = [] then Some ulog else ulog_by_offset (last next))"

definition ulog_reserve ::
    "nat \<Rightarrow> nat \<Rightarrow> 64 word \<Rightarrow> bool \<Rightarrow> nat \<Rightarrow> (nat \<Rightarrow> 64 word \<Rightarrow> (pool_mem, int) act) \<Rightarrow> nat list \<Rightarrow> (pool_mem, (nat \<times> nat list) option) act" where
  "ulog_reserve ulog ulog_base_nbytes gen_num auto_reserve new_capacity extend_fn next =
     (if \<not> auto_reserve then aret None
      else abind (sum_capacity (map cacheline_align next) ulog_base_nbytes) (\<lambda>capacity.
           case last_log ulog next of None \<Rightarrow> afail (Fault AssertFailed)
           | Some ulog \<Rightarrow> reserve_loop (Suc new_capacity) extend_fn gen_num new_capacity ulog capacity next))"

text \<open>A value entry in a log in ordinary memory, and a zeroed offset behind it; \<open>dest\<close> is relative to the base.\<close>

definition ulog_entry_val_create :: "byte list \<Rightarrow> nat \<Rightarrow> nat \<Rightarrow> 64 word \<Rightarrow> 64 word \<Rightarrow> byte list res" where
  "ulog_entry_val_create ulog offset dest value type =
     (let data = to_le 8 (of_nat dest OR type) @ to_le 8 value @ to_le 8 (0 :: 64 word) in
      if 64 + offset + 24 > length ulog then Inl OutOfBounds else Inr (put_bytes (64 + offset) data ulog))"

definition ulog_clobber_entry :: "nat \<Rightarrow> (pool_mem, unit) act" where
  "ulog_clobber_entry e = abind (ostore e (replicate (cacheline_align 8) 0)) (\<lambda>_. odrain)"

text \<open>A buffer entry: the whole cache lines and the padded last one first, then the line with the metadata.\<close>

definition ulog_entry_buf_create :: "nat \<Rightarrow> nat \<Rightarrow> 64 word \<Rightarrow> nat \<Rightarrow> byte list \<Rightarrow> 64 word \<Rightarrow> (pool_mem, unit) act" where
  "ulog_entry_buf_create ulog offset gen_num dest src type =
     (let e = ulog + 64 + offset; size = length src;
          ncopy = min size 40;
          data = take ncopy src @ replicate (40 - ncopy) 0;
          rest = drop ncopy src;
          rcopy = ALIGN_DOWN64 (length rest);
          lcopy = length rest - rcopy;
          last_cacheline = drop rcopy rest @ replicate (64 - lcopy) 0;
          base = to_le 8 (of_nat dest OR type) in
      abind (if rcopy \<noteq> 0
             then abind (aassert ((e + 24 + ncopy) mod 64 = 0)) (\<lambda>_. ostore (e + 24 + ncopy) (take rcopy rest)) else aret ()) (\<lambda>_.
      abind (if lcopy \<noteq> 0
             then abind (aassert ((e + 24 + ncopy + rcopy) mod 64 = 0)) (\<lambda>_. ostore (e + 24 + ncopy + rcopy) last_cacheline) else aret ()) (\<lambda>_.
      abind (alift (util_checksum_seq (base @ to_le 8 (0 :: 64 word) @ to_le 8 (of_nat size :: 64 word) @ data) 0)) (\<lambda>csum.
      abind (if rcopy \<noteq> 0 then alift (util_checksum_seq (take rcopy rest) csum) else aret csum) (\<lambda>csum.
      abind (if lcopy \<noteq> 0 then alift (util_checksum_seq last_cacheline csum) else aret csum) (\<lambda>csum.
      abind (alift (util_checksum_seq (to_le 8 gen_num) csum)) (\<lambda>csum.
      abind (aassert (e mod 64 = 0)) (\<lambda>_.
      abind (ostore e (base @ to_le 8 csum @ to_le 8 (of_nat size :: 64 word) @ data)) (\<lambda>_.
      abind odrain (\<lambda>_.
      abind (aget (ulog_view (Pool ulog))) (\<lambda>b.
      abind (alift (rd64 b U_GEN_NUM)) (\<lambda>g.
      abind (alift (ulog_entry_valid g (drop (64 + offset) b))) aassert))))))))))))"

section \<open>Storing and applying\<close>

definition ulog_checksum_insert :: "byte list \<Rightarrow> nat \<Rightarrow> byte list res" where
  "ulog_checksum_insert ulog n =
     (if SIZEOF_ULOG n > length ulog then Inl OutOfBounds
      else sbind (util_checksum_insert (take (SIZEOF_ULOG n) ulog) 0 0) (\<lambda>b. Inr (b @ drop (SIZEOF_ULOG n) ulog)))"

definition ulog_checksum_check :: "byte list \<Rightarrow> nat \<Rightarrow> bool res" where
  "ulog_checksum_check ulog n =
     (if SIZEOF_ULOG n > length ulog then Inl OutOfBounds else util_checksum_check (take (SIZEOF_ULOG n) ulog) 0 0)"

fun store_next :: "byte list \<Rightarrow> nat \<Rightarrow> nat \<Rightarrow> nat list \<Rightarrow> (pool_mem, unit) act" where
  "store_next src offset 0 next = aret ()"
| "store_next src offset (Suc n) [] = afail (Fault OutOfBounds)"
| "store_next src offset (Suc n) (x # next) = (case ulog_by_offset x of
       None \<Rightarrow> afail (Fault AssertFailed)
     | Some ulog \<Rightarrow> abind (pool_field ulog U_CAPACITY) (\<lambda>capacity.
         let copy_nbytes = min (Suc n) capacity in
         abind (aassert ((ulog + 64) mod 64 = 0)) (\<lambda>_.
         if 64 + offset + copy_nbytes > length src then afail (Fault OutOfBounds)
         else abind (ostore (ulog + 64) (take copy_nbytes (drop (64 + offset) src))) (\<lambda>_.
              store_next src (offset + copy_nbytes) (Suc n - copy_nbytes) next))))"

text \<open>The source comes back with its capacity restored, its \<^verbatim>\<open>next\<close> and checksum set.\<close>

definition ulog_store :: "nat \<Rightarrow> byte list \<Rightarrow> nat \<Rightarrow> nat \<Rightarrow> nat \<Rightarrow> nat list \<Rightarrow> (pool_mem, byte list) act" where
  "ulog_store dest src nbytes ulog_base_nbytes ulog_total_capacity next =
     (let checksum_nbytes = min ulog_base_nbytes nbytes;
          nbytes = (if nbytes \<noteq> ulog_total_capacity then cacheline_align (u64 (nbytes + 8)) else nbytes) in
      abind (aassert (nbytes \<le> ulog_total_capacity)) (\<lambda>_.
      let base_nbytes = min ulog_base_nbytes nbytes; next_nbytes = nbytes - base_nbytes in
      abind (store_next src ulog_base_nbytes next_nbytes next) (\<lambda>_.
      abind (if next_nbytes > 0 then odrain else aret ()) (\<lambda>_.
      abind (alift (rd64 src U_CAPACITY)) (\<lambda>old_capacity.
      let src = put_bytes U_CAPACITY (to_le 8 (of_nat base_nbytes :: 64 word)) src;
          src = put_bytes U_NEXT (to_le 8 (of_nat (if next = [] then 0 else hd next) :: 64 word)) src in
      abind (alift (ulog_checksum_insert src checksum_nbytes)) (\<lambda>src.
      if SIZEOF_ULOG base_nbytes > length src then afail (Fault OutOfBounds)
      else abind (ostore dest (take (SIZEOF_ULOG base_nbytes) src)) (\<lambda>_.
           abind odrain (\<lambda>_.
           aret (put_bytes U_CAPACITY (to_le 8 old_capacity) src)))))))))"

definition ulog_entry_apply :: "bool \<Rightarrow> target \<Rightarrow> byte list \<Rightarrow> (pool_mem, unit) act" where
  "ulog_entry_apply persist ops e =
     abind (alift (rd64 e 0)) (\<lambda>w.
     let t = ulog_entry_type w; dst = ulog_entry_offset w in
     if is_val t
     then abind (alift (rd64 e 8)) (\<lambda>value.
          abind (tread ops dst 8) (\<lambda>old.
          let new = (if t = ULOG_OPERATION_AND then of_le old AND value else if t = ULOG_OPERATION_OR then of_le old OR value else value) in
          abind (twrite ops dst (to_le 8 new)) (\<lambda>_.
          if persist \<and> ops = Persistent then opersist dst 8 else aret ())))
     else if is_buf t
     then abind (alift (rd64n e 16)) (\<lambda>size.
          if t = ULOG_OPERATION_BUF_SET
          then if length e \<le> 24 then afail (Fault OutOfBounds) else twrite ops dst (replicate size (e ! 24))
          else if 24 + size > length e then afail (Fault OutOfBounds) else twrite ops dst (take size (drop 24 e)))
     else afail (Fault AssertFailed))"

definition ulog_process_entry :: "target \<Rightarrow> byte list \<Rightarrow> (pool_mem, int) act" where
  "ulog_process_entry ops e = abind (ulog_entry_apply False ops e) (\<lambda>_. aret 0)"

definition ulog_process :: "target \<Rightarrow> ulog_ref \<Rightarrow> (pool_mem, unit) act" where
  "ulog_process ops ulog =
     abind (ulog_foreach_entry ulog (ulog_process_entry ops)) (\<lambda>_. if ops = Persistent then odrain else aret ())"

definition ulog_clobber :: "nat \<Rightarrow> nat list option \<Rightarrow> (pool_mem, unit) act" where
  "ulog_clobber dest next =
     abind (case next of Some ns \<Rightarrow> aret (if ns = [] then 0 else hd ns) | None \<Rightarrow> pool_field dest U_NEXT) (\<lambda>n.
     abind (ostore dest (to_le 8 (0 :: 64 word) @ to_le 8 (of_nat n :: 64 word) @ replicate 48 0)) (\<lambda>_. odrain))"

section \<open>Recovery\<close>

fun base_nbytes_loop :: "nat \<Rightarrow> byte list \<Rightarrow> nat \<Rightarrow> nat \<Rightarrow> 64 word \<Rightarrow> nat res" where
  "base_nbytes_loop 0 b capacity offset gen_num = Inl Diverged"
| "base_nbytes_loop (Suc k) b capacity offset gen_num =
     (if offset < capacity
      then sbind (ulog_entry_valid gen_num (drop (64 + offset) b)) (\<lambda>valid.
           if \<not> valid then Inr offset
           else sbind (ulog_entry_size (drop (64 + offset) b)) (\<lambda>size. base_nbytes_loop k b capacity (u64 (offset + size)) gen_num))
      else Inr offset)"

definition ulog_base_nbytes :: "byte list \<Rightarrow> nat res" where
  "ulog_base_nbytes b = sbind (rd64n b U_CAPACITY) (\<lambda>capacity. sbind (rd64 b U_GEN_NUM) (\<lambda>gen_num.
     base_nbytes_loop (Suc (length b)) b capacity 0 gen_num))"

definition ulog_recovery_needed :: "byte list \<Rightarrow> bool \<Rightarrow> bool res" where
  "ulog_recovery_needed b verify_checksum =
     sbind (ulog_base_nbytes b) (\<lambda>n. sbind (rd64n b U_CAPACITY) (\<lambda>capacity.
     let nbytes = min n capacity in
     if nbytes = 0 then Inr False
     else if verify_checksum then ulog_checksum_check b nbytes
     else Inr True))"

definition ulog_recover :: "nat \<Rightarrow> (pool_mem, unit) act" where
  "ulog_recover ulog =
     abind (aget (ulog_view (Pool ulog))) (\<lambda>b.
     abind (alift (ulog_recovery_needed b True)) (\<lambda>needed.
     if needed then abind (ulog_process Persistent (Pool ulog)) (\<lambda>_. ulog_clobber ulog None) else aret ()))"

definition ulog_check_entry :: "(nat \<Rightarrow> bool) \<Rightarrow> byte list \<Rightarrow> (pool_mem, int) act" where
  "ulog_check_entry chk e = abind (alift (rd64 e 0)) (\<lambda>w.
     let offset = ulog_entry_offset w in
     if \<not> chk offset then aret (-1) else aret (if offset = 0 then -1 else 0))"

definition ulog_check :: "ulog_ref \<Rightarrow> (nat \<Rightarrow> bool) \<Rightarrow> (pool_mem, int) act" where
  "ulog_check ulog chk = ulog_foreach_entry ulog (ulog_check_entry chk)"

section \<open>Releasing extensions\<close>

text \<open>An ordinary store made durable at once.\<close>

definition oput :: "nat \<Rightarrow> byte list \<Rightarrow> (pool_mem, unit) act" where
  "oput off bs = abind (aget o_size) (\<lambda>sz.
     if off + length bs > sz then afail (Fault OutOfBounds)
     else abind (amod (ostep (pm_store False off bs))) (\<lambda>_. opersist off (length bs)))"

definition ulog_inc_gen_num :: "bool \<Rightarrow> nat \<Rightarrow> (pool_mem, unit) act" where
  "ulog_inc_gen_num durable ulog = abind (aget (ulog_view (Pool ulog))) (\<lambda>b. abind (alift (rd64 b U_GEN_NUM)) (\<lambda>g.
     if durable then oput (ulog + U_GEN_NUM) (to_le 8 (g + 1))
     else amod (ostep (pm_store False (ulog + U_GEN_NUM) (to_le 8 (g + 1))))))"

definition user_owned :: "nat \<Rightarrow> (pool_mem, bool) act" where
  "user_owned ulog = abind (aget (ulog_view (Pool ulog))) (\<lambda>b. abind (alift (rd64 b U_FLAGS)) (\<lambda>f. aret (f AND ULOG_USER_OWNED \<noteq> 0)))"

text \<open>The user's buffers behind \<open>lg\<close> are taken out of the chain; \<open>remove\<close> is \<^verbatim>\<open>user_buff_remove\<close>.\<close>

fun unlink_user :: "nat \<Rightarrow> (nat \<Rightarrow> (pool_mem, unit) act) \<Rightarrow> nat \<Rightarrow> bool \<Rightarrow> (pool_mem, bool) act" where
  "unlink_user 0 remove lg ret = afail (Fault Diverged)"
| "unlink_user (Suc k) remove lg ret =
     abind (pool_field lg U_NEXT) (\<lambda>n. case ulog_by_offset n of None \<Rightarrow> aret ret
     | Some current \<Rightarrow> abind (user_owned current) (\<lambda>own.
         if own then abind (pool_field current U_NEXT) (\<lambda>n. abind (oput (lg + U_NEXT) (to_le 8 (of_nat n :: 64 word))) (\<lambda>_.
           abind (remove current) (\<lambda>_. unlink_user k remove lg True)))
         else unlink_user k remove current ret))"

text \<open>The addresses of the \<^verbatim>\<open>next\<close> fields, last log first.\<close>

fun next_ptrs :: "nat \<Rightarrow> nat \<Rightarrow> nat list \<Rightarrow> (pool_mem, nat list) act" where
  "next_ptrs 0 u acc = afail (Fault Diverged)"
| "next_ptrs (Suc k) u acc = abind (pool_field u U_NEXT) (\<lambda>n. case ulog_by_offset n of None \<Rightarrow> aret acc
     | Some v \<Rightarrow> next_ptrs k v ((u + U_NEXT) # acc))"

fun free_each :: "(nat \<Rightarrow> (pool_mem, unit) act) \<Rightarrow> nat list \<Rightarrow> (pool_mem, unit) act" where
  "free_each ulog_free [] = aret ()"
| "free_each ulog_free (p # ps) = abind (ulog_free p) (\<lambda>_. free_each ulog_free ps)"

definition ulog_free_next ::
    "nat option \<Rightarrow> (nat \<Rightarrow> (pool_mem, unit) act) \<Rightarrow> (nat \<Rightarrow> (pool_mem, unit) act) \<Rightarrow> 64 word \<Rightarrow> (pool_mem, bool) act" where
  "ulog_free_next ulog ulog_free remove flags = (case ulog of None \<Rightarrow> aret False
     | Some u \<Rightarrow> abind (aget (walk_fuel (Pool u))) (\<lambda>k.
         abind (if flags AND ULOG_ANY_USER_BUFFER \<noteq> 0 then unlink_user k remove u False else aret False) (\<lambda>ret.
         abind (next_ptrs k u []) (\<lambda>ps. abind (free_each ulog_free ps) (\<lambda>_. aret (ret \<or> ps \<noteq> []))))))"

definition ulog_clobber_data ::
    "nat \<Rightarrow> nat list \<Rightarrow> (nat \<Rightarrow> (pool_mem, unit) act) \<Rightarrow> (nat \<Rightarrow> (pool_mem, unit) act) \<Rightarrow> 64 word \<Rightarrow> (pool_mem, bool) act" where
  "ulog_clobber_data ulog_first next ulog_free remove flags =
     abind (if flags AND ULOG_INC_FIRST_GEN_NUM \<noteq> 0 then ulog_inc_gen_num True ulog_first else aret ()) (\<lambda>_.
     let ulog_second = ulog_by_offset (if next = [] then 0 else hd next) in
     abind (case ulog_second of Some u \<Rightarrow> if flags AND ULOG_FREE_AFTER_FIRST = 0 then ulog_inc_gen_num False u else aret ()
            | None \<Rightarrow> aret ()) (\<lambda>_.
     abind (if flags AND ULOG_ANY_USER_BUFFER \<noteq> 0 then aassert (ulog_second \<noteq> None) else aret ()) (\<lambda>_.
     abind (case ulog_second of Some u \<Rightarrow> if flags AND ULOG_ANY_USER_BUFFER \<noteq> 0 then user_owned u else aret False
            | None \<Rightarrow> aret False) (\<lambda>own.
     let u = (if own then Some ulog_first else if flags AND ULOG_FREE_AFTER_FIRST \<noteq> 0 then Some ulog_first else ulog_second) in
     ulog_free_next u ulog_free remove flags))))"

end
