(* ===== verification/MemOps.thy ===== *)
theory MemOps
  imports Ulog
begin

text \<open>
  Operation contexts of \<^verbatim>\<open>pmdk/src/libpmemobj/memops.c\<close>: modifications collected in ordinary memory and carried
  out together through a redo log, and snapshots for undo logs. Allocation results are
  arguments; \<^verbatim>\<open>extend\<close>, \<^verbatim>\<open>ulog_free\<close> and the removal of user buffers are functions the heap provides.
\<close>

unbundle bit_operations_syntax

section \<open>The queue of merge candidates\<close>

text \<open>\<^verbatim>\<open>VECQ\<close> of \<^verbatim>\<open>vecq.h\<close>. Slots that growing adds are not read before they are written; they hold 0 here.\<close>

record vecq =
  vq_buffer :: "nat list"
  vq_front :: nat
  vq_back :: nat

definition VECQ_INIT_SIZE :: nat where "VECQ_INIT_SIZE = 64"

definition vq_capacity :: "vecq \<Rightarrow> nat" where "vq_capacity q = length (vq_buffer q)"

definition VECQ_SIZE :: "vecq \<Rightarrow> nat" where "VECQ_SIZE q = vq_back q - vq_front q"

definition VECQ_CLEAR :: "vecq \<Rightarrow> vecq" where "VECQ_CLEAR q = q\<lparr>vq_front := 0, vq_back := 0\<rparr>"

definition vq_pos :: "vecq \<Rightarrow> nat \<Rightarrow> nat" where "vq_pos q i = i AND (vq_capacity q - 1)"

definition VECQ_GROW :: "vecq \<Rightarrow> vecq" where
  "VECQ_GROW q = (let cap = vq_capacity q; ncap = (if cap = 0 then VECQ_INIT_SIZE else cap * 2); f = vq_pos q (vq_front q) in
     \<lparr>vq_buffer = vq_buffer q @ take f (vq_buffer q) @ replicate (ncap - cap - f) 0, vq_front = f, vq_back = f + cap\<rparr>)"

definition VECQ_INSERT :: "vecq \<Rightarrow> nat \<Rightarrow> vecq" where
  "VECQ_INSERT q x = q\<lparr>vq_buffer := (vq_buffer q)[vq_pos q (vq_back q) := x], vq_back := vq_back q + 1\<rparr>"

definition VECQ_ENQUEUE :: "bool \<Rightarrow> vecq \<Rightarrow> nat \<Rightarrow> vecq option" where
  "VECQ_ENQUEUE realloc_ok q x =
     (if vq_capacity q = VECQ_SIZE q
      then if realloc_ok then Some (VECQ_INSERT (VECQ_GROW q) x) else None
      else Some (VECQ_INSERT q x))"

definition VECQ_DEQUEUE :: "vecq \<Rightarrow> vecq" where "VECQ_DEQUEUE q = q\<lparr>vq_front := vq_front q + 1\<rparr>"

text \<open>The elements in the order of \<^verbatim>\<open>VECQ_FOREACH_REVERSE\<close>.\<close>

definition vq_reverse :: "vecq \<Rightarrow> nat list" where
  "vq_reverse q = map (\<lambda>i. vq_buffer q ! vq_pos q (i - 1)) (rev [1..<VECQ_SIZE q + 1])"

section \<open>Contexts\<close>

datatype operation_state = OPERATION_IDLE | OPERATION_IN_PROGRESS | OPERATION_CLEANUP

datatype log_type = LOG_TYPE_UNDO | LOG_TYPE_REDO

definition ULOG_BASE_SIZE :: nat where "ULOG_BASE_SIZE = 1024"
definition OP_MERGE_SEARCH :: nat where "OP_MERGE_SEARCH = 64"

record operation_log =
  ol_capacity :: nat
  ol_offset :: nat
  ol_ulog :: "byte list"

text \<open>Entries of \<open>merge_entries\<close> are data offsets in the shadow log.\<close>

record operation_context =
  oc_type :: log_type
  ulog_curr_offset :: nat
  ulog_curr_capacity :: nat
  ulog_curr_gen_num :: "64 word"
  ulog_curr :: "nat option"
  total_logged :: nat
  oc_ulog :: nat
  oc_base_nbytes :: nat
  oc_capacity :: nat
  ulog_auto_reserve :: bool
  ulog_any_user_buffer :: bool
  oc_next :: "nat list"
  oc_state :: operation_state
  pshadow_ops :: operation_log
  transient_ops :: operation_log
  merge_entries :: vecq

text \<open>\<^verbatim>\<open>Zalloc\<close> succeeds in \<open>operation_new\<close>.\<close>

definition operation_log_transient_init :: operation_log where
  "operation_log_transient_init = \<lparr>ol_capacity = ULOG_BASE_SIZE, ol_offset = 0,
     ol_ulog = put_bytes U_CAPACITY (to_le 8 (of_nat ULOG_BASE_SIZE :: 64 word)) (replicate (SIZEOF_ULOG ULOG_BASE_SIZE) 0)\<rparr>"

definition operation_log_persistent_init :: "nat \<Rightarrow> operation_log" where
  "operation_log_persistent_init base_nbytes = \<lparr>ol_capacity = ULOG_BASE_SIZE, ol_offset = 0,
     ol_ulog = put_bytes U_CAPACITY (to_le 8 (of_nat base_nbytes :: 64 word)) (replicate (SIZEOF_ULOG ULOG_BASE_SIZE) 0)\<rparr>"

definition operation_new :: "nat \<Rightarrow> nat \<Rightarrow> log_type \<Rightarrow> (pool_mem, operation_context) act" where
  "operation_new ulog base_nbytes type =
     abind (ulog_capacity ulog base_nbytes) (\<lambda>capacity.
     abind (ulog_rebuild_next_vec ulog) (\<lambda>next.
     aret \<lparr>oc_type = type, ulog_curr_offset = 0, ulog_curr_capacity = 0, ulog_curr_gen_num = 0, ulog_curr = None,
       total_logged = 0, oc_ulog = ulog, oc_base_nbytes = base_nbytes, oc_capacity = capacity, ulog_auto_reserve = False,
       ulog_any_user_buffer = False, oc_next = next, oc_state = OPERATION_IDLE,
       pshadow_ops = operation_log_persistent_init base_nbytes, transient_ops = operation_log_transient_init,
       merge_entries = \<lparr>vq_buffer = [], vq_front = 0, vq_back = 0\<rparr>\<rparr>))"

definition operation_init :: "operation_context \<Rightarrow> operation_context" where
  "operation_init ctx = ctx\<lparr>transient_ops := (transient_ops ctx)\<lparr>ol_offset := 0\<rparr>, pshadow_ops := (pshadow_ops ctx)\<lparr>ol_offset := 0\<rparr>,
     merge_entries := VECQ_CLEAR (merge_entries ctx), ulog_curr_offset := 0, ulog_curr_capacity := 0, ulog_curr_gen_num := 0,
     ulog_curr := None, total_logged := 0, ulog_auto_reserve := True, ulog_any_user_buffer := False\<rparr>"

definition operation_start :: "operation_context \<Rightarrow> operation_context res" where
  "operation_start ctx = sbind (check (oc_state ctx = OPERATION_IDLE)) (\<lambda>_.
     Inr ((operation_init ctx)\<lparr>oc_state := OPERATION_IN_PROGRESS\<rparr>))"

definition operation_cancel :: "operation_context \<Rightarrow> operation_context res" where
  "operation_cancel ctx = sbind (check (oc_state ctx = OPERATION_IN_PROGRESS)) (\<lambda>_. Inr (ctx\<lparr>oc_state := OPERATION_IDLE\<rparr>))"

definition operation_resume :: "operation_context \<Rightarrow> (pool_mem, operation_context) act" where
  "operation_resume ctx =
     abind (alift (operation_start ctx)) (\<lambda>ctx.
     abind (aget (ulog_view (Pool (oc_ulog ctx)))) (\<lambda>b.
     abind (alift (ulog_base_nbytes b)) (\<lambda>n.
     abind (ulog_next (Pool (oc_ulog ctx))) (\<lambda>next.
     aret (if next \<noteq> None then ctx\<lparr>total_logged := n, oc_state := OPERATION_CLEANUP\<rparr> else ctx\<lparr>total_logged := n\<rparr>)))))"

section \<open>Collecting modifications\<close>

definition operation_merge :: "64 word \<Rightarrow> 64 word \<Rightarrow> 64 word \<Rightarrow> 64 word res" where
  "operation_merge old value type =
     (if type = ULOG_OPERATION_AND then Inr (old AND value)
      else if type = ULOG_OPERATION_OR then Inr (old OR value)
      else if type = ULOG_OPERATION_SET then Inr value
      else Inl AssertFailed)"

text \<open>The candidates in order, over the bytes of the shadow log; \<open>None\<close> if nothing is merged.\<close>

fun try_merge :: "nat list \<Rightarrow> byte list \<Rightarrow> nat \<Rightarrow> 64 word \<Rightarrow> 64 word \<Rightarrow> byte list option res" where
  "try_merge [] b offset value type = Inr None"
| "try_merge (e # es) b offset value type =
     sbind (rd64 b (64 + e)) (\<lambda>w.
     if ulog_entry_offset w = offset
     then if ulog_entry_type w = type
          then sbind (rd64 b (64 + e + 8)) (\<lambda>old. sbind (operation_merge old value type) (\<lambda>v.
               Inr (Some (put_bytes (64 + e + 8) (to_le 8 v) b))))
          else Inr None
     else try_merge es b offset value type)"

definition operation_try_merge_entry :: "operation_context \<Rightarrow> nat \<Rightarrow> 64 word \<Rightarrow> 64 word \<Rightarrow> operation_context option res" where
  "operation_try_merge_entry ctx offset value type =
     sbind (try_merge (vq_reverse (merge_entries ctx)) (ol_ulog (pshadow_ops ctx)) offset value type) (\<lambda>r.
     Inr (map_option (\<lambda>b. ctx\<lparr>pshadow_ops := (pshadow_ops ctx)\<lparr>ol_ulog := b\<rparr>\<rparr>) r))"

definition operation_merge_entry_add :: "bool \<Rightarrow> operation_context \<Rightarrow> nat \<Rightarrow> operation_context" where
  "operation_merge_entry_add realloc_ok ctx entry =
     (let q = merge_entries ctx;
          q = (if VECQ_SIZE q = OP_MERGE_SEARCH then VECQ_DEQUEUE q else q) in
      ctx\<lparr>merge_entries := (case VECQ_ENQUEUE realloc_ok q entry of None \<Rightarrow> q | Some q \<Rightarrow> q)\<rparr>)"

text \<open>One more block for a log that leaves less than a spare cache line; \<open>mem\<close> is what \<^verbatim>\<open>Realloc\<close> appends, if it succeeds.\<close>

definition grow_log :: "(nat \<Rightarrow> byte) \<Rightarrow> operation_log \<Rightarrow> operation_log" where
  "grow_log mem l = (let capacity = ol_capacity l + ULOG_BASE_SIZE in
     l\<lparr>ol_capacity := capacity,
       ol_ulog := put_bytes U_CAPACITY (to_le 8 (of_nat capacity :: 64 word)) (ol_ulog l @ map mem [0..<ULOG_BASE_SIZE])\<rparr>)"

definition add_to_log :: "operation_log \<Rightarrow> nat \<Rightarrow> 64 word \<Rightarrow> 64 word \<Rightarrow> operation_log res" where
  "add_to_log l ptr value type =
     sbind (ulog_entry_val_create (ol_ulog l) (ol_offset l) ptr value type) (\<lambda>b.
     sbind (ulog_entry_size (drop (64 + ol_offset l) b)) (\<lambda>n.
     Inr (l\<lparr>ol_ulog := b, ol_offset := ol_offset l + n\<rparr>)))"

definition operation_add_typed_entry ::
    "(nat \<Rightarrow> byte) option \<Rightarrow> bool \<Rightarrow> operation_context \<Rightarrow> nat \<Rightarrow> 64 word \<Rightarrow> 64 word \<Rightarrow> target \<Rightarrow> (int \<times> operation_context) res" where
  "operation_add_typed_entry mem realloc_ok ctx ptr value type ops =
     (let oplog = (case ops of Persistent \<Rightarrow> pshadow_ops ctx | Transient \<Rightarrow> transient_ops ctx);
          full = ol_offset oplog + CACHELINE_SIZE = ol_capacity oplog in
      if full \<and> mem = None then Inr (-1, ctx)
      else
        let oplog = (if full then grow_log (the mem) oplog else oplog);
            ctx = (if full then ctx\<lparr>merge_entries := VECQ_CLEAR (merge_entries ctx)\<rparr> else ctx) in
        case ops of
          Transient \<Rightarrow> sbind (add_to_log oplog ptr value type) (\<lambda>oplog. Inr (0, ctx\<lparr>transient_ops := oplog\<rparr>))
        | Persistent \<Rightarrow>
            let ctx = ctx\<lparr>pshadow_ops := oplog\<rparr> in
            sbind (operation_try_merge_entry ctx ptr value type) (\<lambda>merged. case merged of Some ctx \<Rightarrow> Inr (0, ctx)
            | None \<Rightarrow> sbind (add_to_log oplog ptr value type) (\<lambda>oplog'.
                Inr (0, (operation_merge_entry_add realloc_ok ctx (ol_offset oplog))\<lparr>pshadow_ops := oplog'\<rparr>))))"

section \<open>Processing\<close>

definition operation_process_persistent_redo :: "operation_context \<Rightarrow> (pool_mem, operation_context) act" where
  "operation_process_persistent_redo ctx = (let p = pshadow_ops ctx in
     abind (aassert (ol_capacity p mod CACHELINE_SIZE = 0)) (\<lambda>_.
     abind (ulog_store (oc_ulog ctx) (ol_ulog p) (ol_offset p) (oc_base_nbytes ctx) (oc_capacity ctx) (oc_next ctx)) (\<lambda>src.
     abind (ulog_process Persistent (Dram src)) (\<lambda>_.
     abind (ulog_clobber (oc_ulog ctx) (Some (oc_next ctx))) (\<lambda>_.
     aret (ctx\<lparr>pshadow_ops := p\<lparr>ol_ulog := src\<rparr>\<rparr>))))))"

definition operation_process_persistent_undo :: "operation_context \<Rightarrow> (pool_mem, unit) act" where
  "operation_process_persistent_undo ctx =
     abind (aassert (ol_capacity (pshadow_ops ctx) mod CACHELINE_SIZE = 0)) (\<lambda>_. ulog_process Persistent (Pool (oc_ulog ctx)))"

text \<open>Whether a redo log is needed: a single value entry is applied and made durable directly.\<close>

definition operation_process :: "operation_context \<Rightarrow> (pool_mem, operation_context) act" where
  "operation_process ctx =
     (let p = pshadow_ops ctx; redo = oc_type ctx = LOG_TYPE_REDO \<and> ol_offset p \<noteq> 0; e = drop 64 (ol_ulog p) in
      abind (if redo \<and> ol_offset p = 16
             then abind (alift (rd64 e 0)) (\<lambda>w.
                  if is_val (ulog_entry_type w) then abind (ulog_entry_apply True Persistent e) (\<lambda>_. aret False) else aret True)
             else aret redo) (\<lambda>redo.
      abind (if redo then abind (operation_process_persistent_redo ctx) (\<lambda>ctx. aret (ctx\<lparr>oc_state := OPERATION_CLEANUP\<rparr>))
             else if oc_type ctx = LOG_TYPE_UNDO \<and> total_logged ctx \<noteq> 0
             then abind (operation_process_persistent_undo ctx) (\<lambda>_. aret (ctx\<lparr>oc_state := OPERATION_CLEANUP\<rparr>))
             else aret ctx) (\<lambda>ctx.
      abind (if ol_offset (transient_ops ctx) \<noteq> 0 then ulog_process Transient (Dram (ol_ulog (transient_ops ctx))) else aret ()) (\<lambda>_.
      aret ctx))))"

definition after_free :: "operation_context \<Rightarrow> (pool_mem, operation_context) act" where
  "after_free ctx = abind (ulog_capacity (oc_ulog ctx) (oc_base_nbytes ctx)) (\<lambda>capacity.
     abind (ulog_rebuild_next_vec (oc_ulog ctx)) (\<lambda>next. aret (ctx\<lparr>oc_capacity := capacity, oc_next := next\<rparr>)))"

definition operation_free_logs ::
    "(nat \<Rightarrow> (pool_mem, unit) act) \<Rightarrow> (nat \<Rightarrow> (pool_mem, unit) act) \<Rightarrow> operation_context \<Rightarrow> 64 word \<Rightarrow> (pool_mem, operation_context) act" where
  "operation_free_logs ulog_free remove ctx flags =
     abind (ulog_free_next (Some (oc_ulog ctx)) ulog_free remove flags) (\<lambda>freed.
     abind (if freed then after_free ctx else aret ctx) (\<lambda>ctx.
     abind (aassert (oc_next ctx = [])) (\<lambda>_. aret ctx)))"

definition operation_finish ::
    "(nat \<Rightarrow> (pool_mem, unit) act) \<Rightarrow> (nat \<Rightarrow> (pool_mem, unit) act) \<Rightarrow> operation_context \<Rightarrow> 64 word \<Rightarrow> (pool_mem, operation_context) act" where
  "operation_finish ulog_free remove ctx flags =
     abind (aassert (oc_state ctx \<noteq> OPERATION_IDLE)) (\<lambda>_.
     let cleanup = oc_state ctx = OPERATION_CLEANUP \<or> (oc_type ctx = LOG_TYPE_UNDO \<and> total_logged ctx \<noteq> 0) \<or> ulog_any_user_buffer ctx;
         flags = (if ulog_any_user_buffer ctx then flags OR ULOG_ANY_USER_BUFFER else flags) in
     if \<not> cleanup then aret (ctx\<lparr>oc_state := OPERATION_IDLE\<rparr>)
     else abind (case oc_type ctx of LOG_TYPE_UNDO \<Rightarrow> ulog_clobber_data (oc_ulog ctx) (oc_next ctx) ulog_free remove flags
                 | LOG_TYPE_REDO \<Rightarrow> ulog_free_next (Some (oc_ulog ctx)) ulog_free remove flags) (\<lambda>ret.
          abind (if ret then after_free ctx else aret ctx) (\<lambda>ctx. aret (ctx\<lparr>oc_state := OPERATION_IDLE\<rparr>))))"

section \<open>Snapshots\<close>

definition operation_reserve ::
    "(nat \<Rightarrow> 64 word \<Rightarrow> (pool_mem, int) act) option \<Rightarrow> operation_context \<Rightarrow> nat \<Rightarrow> (pool_mem, operation_context option) act" where
  "operation_reserve extend_fn ctx new_capacity =
     (if new_capacity > oc_capacity ctx
      then case extend_fn of None \<Rightarrow> aret None
           | Some f \<Rightarrow> abind (ulog_reserve (oc_ulog ctx) (oc_base_nbytes ctx) (ulog_curr_gen_num ctx) (ulog_auto_reserve ctx)
               new_capacity f (oc_next ctx)) (\<lambda>r. aret (map_option (\<lambda>(capacity, next). ctx\<lparr>oc_capacity := capacity, oc_next := next\<rparr>) r))
      else aret (Some ctx))"

text \<open>The current log, taking the next one when it is full; \<open>None\<close> if there is no space.\<close>

definition current_log ::
    "(nat \<Rightarrow> 64 word \<Rightarrow> (pool_mem, int) act) option \<Rightarrow> operation_context \<Rightarrow> nat \<Rightarrow> (pool_mem, operation_context option) act" where
  "current_log extend_fn ctx real_size =
     (if ulog_curr_capacity ctx \<noteq> 0 then aret (Some ctx)
      else abind (aget (ulog_view (Pool (oc_ulog ctx)))) (\<lambda>b. abind (alift (rd64 b U_GEN_NUM)) (\<lambda>g.
           abind (operation_reserve extend_fn (ctx\<lparr>ulog_curr_gen_num := g\<rparr>) (total_logged ctx + real_size)) (\<lambda>r. case r of
             None \<Rightarrow> aret None
           | Some ctx \<Rightarrow>
               abind (case ulog_curr ctx of None \<Rightarrow> aret (Some (oc_ulog ctx)) | Some u \<Rightarrow> ulog_next (Pool u)) (\<lambda>cur. case cur of
                 None \<Rightarrow> afail (Fault AssertFailed)
               | Some u \<Rightarrow> abind (pool_field u U_CAPACITY) (\<lambda>c.
                   aret (Some (ctx\<lparr>ulog_curr := Some u, ulog_curr_offset := 0, ulog_curr_capacity := c\<rparr>))))))))"

definition curr_log :: "operation_context \<Rightarrow> nat" where
  "curr_log ctx = (case ulog_curr ctx of None \<Rightarrow> 0 | Some u \<Rightarrow> u)"

text \<open>One entry for as much of \<open>src\<close> as the current log has room for; the result is the number of bytes logged.\<close>

definition add_piece :: "operation_context \<Rightarrow> nat \<Rightarrow> byte list \<Rightarrow> 64 word \<Rightarrow> (pool_mem, nat \<times> operation_context) act" where
  "add_piece ctx dest src type =
     (let curr_size = min (length src + 24) (ulog_curr_capacity ctx);
          data_size = sub64 curr_size 24; entry_size = cacheline_align curr_size;
          ulog = curr_log ctx; offset = ulog_curr_offset ctx in
      abind (if entry_size = ulog_curr_capacity ctx
             then abind (ulog_next (Pool ulog)) (\<lambda>n. aret (map_option (\<lambda>u. u + 64) n))
             else aret (Some (ulog + 64 + offset + entry_size))) (\<lambda>next_entry.
      abind (case next_entry of None \<Rightarrow> aret () | Some e \<Rightarrow> ulog_clobber_entry e) (\<lambda>_.
      if data_size > length src then afail (Fault OutOfBounds)
      else abind (ulog_entry_buf_create ulog offset (ulog_curr_gen_num ctx) dest (take data_size src) type) (\<lambda>_.
           abind (aget (ulog_view (Pool ulog))) (\<lambda>b.
           abind (alift (ulog_entry_size (drop (64 + offset) b))) (\<lambda>n.
           abind (aassert (entry_size = n \<and> entry_size \<le> ulog_curr_capacity ctx)) (\<lambda>_.
           aret (data_size, ctx\<lparr>total_logged := total_logged ctx + entry_size, ulog_curr_offset := offset + entry_size,
             ulog_curr_capacity := ulog_curr_capacity ctx - entry_size\<rparr>))))))))"

fun add_buffer_loop ::
    "nat \<Rightarrow> (nat \<Rightarrow> 64 word \<Rightarrow> (pool_mem, int) act) option \<Rightarrow> operation_context \<Rightarrow> nat \<Rightarrow> byte list \<Rightarrow> 64 word
      \<Rightarrow> (pool_mem, operation_context option) act" where
  "add_buffer_loop 0 extend_fn ctx dest src type = afail (Fault Diverged)"
| "add_buffer_loop (Suc k) extend_fn ctx dest src type =
     abind (current_log extend_fn ctx (length src + 24)) (\<lambda>r. case r of None \<Rightarrow> aret None
     | Some ctx \<Rightarrow> abind (add_piece ctx dest src type) (\<lambda>(n, ctx).
         if length src - n = 0 then aret (Some ctx) else add_buffer_loop k extend_fn ctx (dest + n) (drop n src) type))"

text \<open>\<open>None\<close> stands for the result \<open>-1\<close>. Every entry takes at least a byte.\<close>

definition operation_add_buffer ::
    "(nat \<Rightarrow> 64 word \<Rightarrow> (pool_mem, int) act) option \<Rightarrow> operation_context \<Rightarrow> nat \<Rightarrow> byte list \<Rightarrow> 64 word
      \<Rightarrow> (pool_mem, operation_context option) act" where
  "operation_add_buffer extend_fn ctx dest src type = add_buffer_loop (Suc (length src)) extend_fn ctx dest src type"

definition operation_set_auto_reserve :: "operation_context \<Rightarrow> bool \<Rightarrow> operation_context" where
  "operation_set_auto_reserve ctx auto_reserve = ctx\<lparr>ulog_auto_reserve := auto_reserve\<rparr>"

definition operation_set_any_user_buffer :: "operation_context \<Rightarrow> bool \<Rightarrow> operation_context" where
  "operation_set_any_user_buffer ctx any_user_buffer = ctx\<lparr>ulog_any_user_buffer := any_user_buffer\<rparr>"

definition operation_add_user_buffer :: "operation_context \<Rightarrow> nat \<Rightarrow> nat \<Rightarrow> (pool_mem, operation_context) act" where
  "operation_add_user_buffer ctx addr sz =
     (let capacity = sub64 sz 64 in
      abind (aget (ulog_view (Pool (oc_ulog ctx)))) (\<lambda>b. abind (alift (rd64 b U_GEN_NUM)) (\<lambda>g.
      abind (ulog_construct addr capacity g True ULOG_USER_OWNED) (\<lambda>_. case last_log (oc_ulog ctx) (oc_next ctx) of
        None \<Rightarrow> afail (Fault AssertFailed)
      | Some lg \<Rightarrow> abind (oput (lg + U_NEXT) (to_le 8 (of_nat addr :: 64 word))) (\<lambda>_.
          aret (operation_set_any_user_buffer (ctx\<lparr>oc_next := oc_next ctx @ [addr], oc_capacity := u64 (oc_capacity ctx + capacity)\<rparr>) True))))))"

end
