(* ===== verification/UlogEffect.thy ===== *)
theory UlogEffect
  imports MemOps
begin

text \<open>
  What value entries do to memory, byte by byte. Carrying out a list of them again, after any part of
  them has reached any byte, gives the same memory: the algebra behind recovery by replay.
\<close>

unbundle bit_operations_syntax

section \<open>Bytes\<close>

text \<open>One modification of a byte; \<^verbatim>\<open>AND\<close> and \<^verbatim>\<open>OR\<close> act on every byte of the word on its own.\<close>

definition bval :: "64 word \<Rightarrow> byte \<Rightarrow> byte \<Rightarrow> byte" where
  "bval t v old = (if t = ULOG_OPERATION_AND then old AND v else if t = ULOG_OPERATION_OR then old OR v else v)"

definition val_fun :: "64 word \<Rightarrow> 64 word \<Rightarrow> 64 word \<Rightarrow> 64 word" where
  "val_fun t v old = (if t = ULOG_OPERATION_AND then old AND v else if t = ULOG_OPERATION_OR then old OR v else v)"

lemma bval_absorb: "bval t v (bval u w (bval t v a)) = bval t v (bval u w a)"
  by (rule bit_word_eqI) (auto simp: bval_def bit_and_iff bit_or_iff)

lemma bval_idem: "bval t v (bval t v a) = bval t v a"
  by (rule bit_word_eqI) (auto simp: bval_def bit_and_iff bit_or_iff)

type_synonym byte_ops = "(64 word \<times> byte) list"

definition bapply :: "byte_ops \<Rightarrow> byte \<Rightarrow> byte" where
  "bapply fs = fold (\<lambda>(t, v). bval t v) fs"

lemma bapply_simps [simp]:
  "bapply [] a = a" "bapply ((t, v) # fs) a = bapply fs (bval t v a)" "bapply (fs @ gs) a = bapply gs (bapply fs a)"
  by (simp_all add: bapply_def)

lemma bapply_absorb1: "(t, v) \<in> set fs \<Longrightarrow> bapply fs (bval t v a) = bapply fs a"
proof (induction fs arbitrary: a)
  case (Cons f fs)
  obtain u w where f: "f = (u, w)" by fastforce
  show ?case
  proof (cases "(t, v) = f")
    case True
    then show ?thesis using f by (simp add: bval_idem)
  next
    case False
    then have m: "(t, v) \<in> set fs" using Cons.prems by simp
    have "bapply fs (bval u w (bval t v a)) = bapply fs (bval t v (bval u w (bval t v a)))" using Cons.IH [OF m] by simp
    also have "\<dots> = bapply fs (bval t v (bval u w a))" by (simp only: bval_absorb)
    also have "\<dots> = bapply fs (bval u w a)" by (rule Cons.IH [OF m])
    finally show ?thesis using f by simp
  qed
qed simp

text \<open>The values a byte may have while some of the modifications have reached it.\<close>

definition partial :: "byte_ops \<Rightarrow> byte \<Rightarrow> byte set" where
  "partial fs a = {bapply gs a | gs. set gs \<subseteq> set fs}"

lemma partial_start [simp]: "a \<in> partial fs a"
  unfolding partial_def by (rule CollectI, rule exI [of _ "[]"]) simp

lemma partial_step: "b \<in> partial fs a \<Longrightarrow> (t, v) \<in> set fs \<Longrightarrow> bval t v b \<in> partial fs a"
proof -
  assume "b \<in> partial fs a" and m: "(t, v) \<in> set fs"
  then obtain gs where gs: "b = bapply gs a" "set gs \<subseteq> set fs" by (auto simp: partial_def)
  then have "bval t v b = bapply (gs @ [(t, v)]) a" "set (gs @ [(t, v)]) \<subseteq> set fs" using m by auto
  then show ?thesis unfolding partial_def by blast
qed

lemma replay: "b \<in> partial fs a \<Longrightarrow> bapply fs b = bapply fs a"
proof -
  have "set gs \<subseteq> set fs \<Longrightarrow> bapply fs (bapply gs a) = bapply fs a" for gs
    by (induction gs arbitrary: a) (auto simp: bapply_absorb1)
  then show "b \<in> partial fs a \<Longrightarrow> ?thesis" by (auto simp: partial_def)
qed

section \<open>Memory\<close>

text \<open>A modification: its type, offset and value.\<close>

type_synonym vop = "64 word \<times> nat \<times> 64 word"

fun effect :: "vop \<Rightarrow> (nat \<Rightarrow> byte) \<Rightarrow> nat \<Rightarrow> byte" where
  "effect (t, off, v) m = put_at off (to_le 8 (val_fun t v (of_le (get_at m off 8)))) m"

definition effects :: "vop list \<Rightarrow> (nat \<Rightarrow> byte) \<Rightarrow> nat \<Rightarrow> byte" where
  "effects ops = fold effect ops"

lemma effects_simps [simp]:
  "effects [] m = m" "effects (e # es) m = effects es (effect e m)" "effects (es @ es') m = effects es' (effects es m)"
  by (simp_all add: effects_def)

text \<open>What a list of modifications does to one byte.\<close>

fun at_byte :: "nat \<Rightarrow> vop list \<Rightarrow> byte_ops" where
  "at_byte x [] = []"
| "at_byte x ((t, off, v) # ops) = (if off \<le> x \<and> x < off + 8 then (t, to_le 8 v ! (x - off)) # at_byte x ops else at_byte x ops)"

lemma at_byte_append [simp]: "at_byte x (ops @ ops') = at_byte x ops @ at_byte x ops'"
  by (induction x ops rule: at_byte.induct) simp_all

lemma to_le_val: "i < 8 \<Longrightarrow> to_le 8 (val_fun t v (of_le bs)) ! i = bval t (to_le 8 v ! i) (to_le 8 (of_le bs :: 64 word) ! i)"
  by (rule bit_word_eqI) (auto simp: to_le_def val_fun_def bval_def bit_and_iff bit_or_iff bit_ucast_iff bit_drop_bit_eq)

lemma effect_byte: "effect (t, off, v) m x = (if off \<le> x \<and> x < off + 8 then bval t (to_le 8 v ! (x - off)) (m x) else m x)"
proof (cases "off \<le> x \<and> x < off + 8")
  case True
  then have "x - off < 8" "off + (x - off) = x" by auto
  then have "to_le 8 (of_le (get_at m off 8) :: 64 word) ! (x - off) = m x" by (simp add: to_le_of_le get_at_def)
  moreover have "x - off < 8" using True by auto
  ultimately show ?thesis using True to_le_val [of "x - off" t v "get_at m off 8"] by (simp add: put_at_def)
next
  case False
  then show ?thesis unfolding effect.simps put_at_def length_to_le by (simp only: if_False)
qed

lemma effects_byte: "effects ops m x = bapply (at_byte x ops) (m x)"
proof (induction ops arbitrary: m)
  case (Cons e ops)
  obtain t off v where e: "e = (t, off, v)" by (cases e)
  have "effects (e # ops) m x = bapply (at_byte x ops) (effect e m x)" using Cons.IH [of "effect e m"] by (simp only: effects_simps)
  then show ?case unfolding e effect_byte by simp
qed simp

declare effect.simps [simp del]

text \<open>Memory some of the modifications have reached.\<close>

definition torn :: "vop list \<Rightarrow> (nat \<Rightarrow> byte) \<Rightarrow> (nat \<Rightarrow> byte) \<Rightarrow> bool" where
  "torn ops m m' \<longleftrightarrow> (\<forall>x. m' x \<in> partial (at_byte x ops) (m x))"

lemma torn_replay: "torn ops m m' \<Longrightarrow> effects ops m' = effects ops m"
  unfolding torn_def by (rule ext) (simp add: effects_byte replay)

lemma torn_refl: "torn ops m m"
  by (simp add: torn_def)

lemma at_byte_mem: "(t, off, v) \<in> set ops \<Longrightarrow> off \<le> x \<Longrightarrow> x < off + 8 \<Longrightarrow> (t, to_le 8 v ! (x - off)) \<in> set (at_byte x ops)"
  by (induction x ops rule: at_byte.induct) auto

lemma torn_effect: "torn ops m m' \<Longrightarrow> e \<in> set ops \<Longrightarrow> torn ops m (effect e m')"
  unfolding torn_def by (cases e) (auto simp: effect_byte intro!: partial_step at_byte_mem)

lemma at_byte_outside: "\<forall>(t, off, v) \<in> set ops. x < off \<or> off + 8 \<le> x \<Longrightarrow> at_byte x ops = []"
  by (induction x ops rule: at_byte.induct) auto

lemma effects_outside: "\<forall>(t, off, v) \<in> set ops. x < off \<or> off + 8 \<le> x \<Longrightarrow> effects ops m x = m x"
  by (simp add: effects_byte at_byte_outside)

lemma torn_ops_outside: "torn ops m m' \<Longrightarrow> \<forall>(t, off, v) \<in> set ops. x < off \<or> off + 8 \<le> x \<Longrightarrow> m' x = m x"
  unfolding torn_def by (drule spec [of _ x]) (simp add: at_byte_outside partial_def)

lemma effects_again: "effects ops (effects ops m) = effects ops m"
proof -
  have "torn ops m (effects es m')" if "set es \<subseteq> set ops" "torn ops m m'" for es m'
    using that by (induction es arbitrary: m') (auto intro: torn_effect)
  then show ?thesis by (intro torn_replay) (simp add: torn_refl)
qed

section \<open>Merging\<close>

lemma effect_commute:
  assumes "off + 8 \<le> off' \<or> off' + 8 \<le> off"
  shows "effect (t, off, v) (effect (t', off', v') m) = effect (t', off', v') (effect (t, off, v) m)"
  by (rule ext) (use assms in \<open>auto simp: effect_byte\<close>)

definition disjoint_from :: "nat \<Rightarrow> vop \<Rightarrow> bool" where
  "disjoint_from off e \<longleftrightarrow> off + 8 \<le> fst (snd e) \<or> fst (snd e) + 8 \<le> off"

lemma effects_commute:
  "\<forall>e \<in> set es. disjoint_from off e \<Longrightarrow> effects es (effect (t, off, v) m) = effect (t, off, v) (effects es m)"
proof (induction es arbitrary: m)
  case (Cons e es)
  obtain t' off' v' where e: "e = (t', off', v')" by (cases e)
  then have "off + 8 \<le> off' \<or> off' + 8 \<le> off" using Cons.prems by (simp add: disjoint_from_def)
  then have "effect e (effect (t, off, v) m) = effect (t, off, v) (effect e m)" unfolding e using effect_commute by metis
  then show ?case using Cons by simp
qed simp

text \<open>\<^verbatim>\<open>operation_merge\<close> combines two modifications of the same kind and place.\<close>

definition merged :: "64 word \<Rightarrow> 64 word \<Rightarrow> 64 word \<Rightarrow> 64 word" where
  "merged t old v = (if t = ULOG_OPERATION_AND then old AND v else if t = ULOG_OPERATION_OR then old OR v else v)"

lemma operation_merge_ok: "is_val t \<Longrightarrow> operation_merge old v t = Inr (merged t old v)"
  by (auto simp: operation_merge_def merged_def is_val_def)

lemma to_le_merged: "i < 8 \<Longrightarrow> to_le 8 (merged t old v) ! i = (if t = ULOG_OPERATION_AND then to_le 8 old ! i AND to_le 8 v ! i
    else if t = ULOG_OPERATION_OR then to_le 8 old ! i OR to_le 8 v ! i else to_le 8 v ! i)"
  by (auto simp: to_le_def merged_def intro!: bit_word_eqI simp: bit_and_iff bit_or_iff bit_ucast_iff bit_drop_bit_eq)

lemma effect_merged: "effect (t, off, v) (effect (t, off, old) m) = effect (t, off, merged t old v) m"
  by (rule ext) (auto simp: effect_byte bval_def to_le_merged and.assoc or.assoc)

lemma effects_merged:
  assumes "\<forall>e \<in> set rest. disjoint_from off e"
  shows "effects (pre @ (t, off, merged t old v) # rest) m = effects (pre @ (t, off, old) # rest @ [(t, off, v)]) m"
  using effects_commute [OF assms] by (simp add: effect_merged)

end
