(* ===== verification/UlogOk.thy ===== *)
theory UlogOk
  imports UlogEffect
begin

text \<open>
  Logs of value entries: how entries are encoded, what a log holds, and that processing it carries out its
  modifications in order.
\<close>

unbundle bit_operations_syntax

section \<open>Fields\<close>

lemma rd64_get: "off + 8 \<le> length b \<Longrightarrow> rd64 b off = Inr (of_le (get_bytes off 8 b))"
  by (simp add: rd64_def)

lemma rd64_drop: "rd64 (drop n b) off = (if n \<le> length b then rd64 b (n + off) else rd64 [] off)"
  by (auto simp: rd64_def get_bytes_def add.commute)

lemma rd64_take: "off + 8 \<le> n \<Longrightarrow> n \<le> length b \<Longrightarrow> take n b' = take n b \<Longrightarrow> length b' = length b \<Longrightarrow> rd64 b' off = rd64 b off"
proof -
  assume a: "off + 8 \<le> n" "n \<le> length b" "take n b' = take n b" "length b' = length b"
  have "get_bytes off 8 c = get_bytes off 8 (take n c)" for c :: "byte list"
    using a(1) by (simp add: get_bytes_def drop_take min_def)
  then have "get_bytes off 8 b' = get_bytes off 8 b" using a(3) by metis
  then show ?thesis using a by (simp add: rd64_def)
qed

lemma rd64_put: "off + length new \<le> length b \<Longrightarrow> off' + 8 \<le> off \<or> off + length new \<le> off' \<Longrightarrow> rd64 (put_bytes off new b) off' = rd64 b off'"
  by (auto simp: rd64_def length_put_bytes get_bytes_put_other)

lemma rd64_put_same: "off + 8 \<le> length b \<Longrightarrow> rd64 (put_bytes off (to_le 8 w) b) off = Inr w"
  by (simp add: rd64_def length_put_bytes get_put_bytes of_le_to_le)

section \<open>Entries\<close>

lemma unat_of_nat_id: "x < 2 ^ 64 \<Longrightarrow> unat (of_nat x :: 64 word) = x"
  by (simp add: unat_of_nat take_bit_nat_eq_self)

lemma offset_bits: "off < 2 ^ 61 \<Longrightarrow> 61 \<le> n \<Longrightarrow> \<not> bit (of_nat off :: 64 word) n"
proof -
  assume "off < 2 ^ 61" and n: "61 \<le> n"
  then have "off < 2 ^ n" using power_increasing [OF n, of "2 :: nat"] by linarith
  then have "\<not> bit off n" by (simp add: bit_iff_odd)
  moreover have "unat (of_nat off :: 64 word) = off" using \<open>off < 2 ^ 61\<close> by (intro unat_of_nat_id) simp
  ultimately show ?thesis using bit_unsigned_iff [of "of_nat off :: 64 word" n, where 'a = nat] by simp
qed

lemma entry_decode:
  assumes "off < 2 ^ 61" "is_val t"
  shows "ulog_entry_type (of_nat off OR t) = t" "ulog_entry_offset (of_nat off OR t) = off"
proof -
  have "\<exists>k :: 64 word. t = push_bit 61 k" using assms(2) unfolding is_val_def ulog_operations by blast
  then obtain k :: "64 word" where t: "t = push_bit 61 k" by blast
  have o: "bit (of_nat off :: 64 word) n \<Longrightarrow> n < 61" for n using offset_bits [OF assms(1), of n] by (meson not_le)
  have m: "bit (ULOG_OPERATION_MASK :: 64 word) n \<longleftrightarrow> 61 \<le> n \<and> n < 64" for n
  proof -
    have "ULOG_OPERATION_MASK = push_bit 61 (mask 3)" by (simp add: ULOG_OPERATION_MASK_def mask_eq_exp_minus_1)
    show ?thesis unfolding \<open>ULOG_OPERATION_MASK = push_bit 61 (mask 3)\<close> by (auto simp: bit_push_bit_iff bit_mask_iff)
  qed
  have b: "bit t n \<Longrightarrow> 61 \<le> n" for n by (auto simp: t bit_push_bit_iff)
  show "ulog_entry_type (of_nat off OR t) = t"
  proof (rule bit_word_eqI)
    fix n assume "n < LENGTH(64)"
    then show "bit (ulog_entry_type (of_nat off OR t)) n \<longleftrightarrow> bit t n"
      using o [of n] b [of n] by (cases "n < 61") (auto simp: ulog_entry_type_def bit_and_iff bit_or_iff m)
  qed
  have "(of_nat off OR t) AND ULOG_OFFSET_MASK = of_nat off"
    by (rule bit_word_eqI) (auto simp: ULOG_OFFSET_MASK_def bit_and_iff bit_or_iff bit_not_iff m dest: o b)
  moreover have "unat (of_nat off :: 64 word) = off" using assms(1) by (intro unat_of_nat_id) simp
  ultimately show "ulog_entry_offset (of_nat off OR t) = off" by (simp add: ulog_entry_offset_def)
qed

lemma entry_nonzero: "off < 2 ^ 61 \<Longrightarrow> 0 < off \<Longrightarrow> is_val t \<Longrightarrow> of_nat off OR t \<noteq> (0 :: 64 word)"
  using entry_decode(2) [of off t] by (auto simp: ulog_entry_offset_def)

lemma val_not_buf: "is_val t \<Longrightarrow> \<not> is_buf t"
  by (auto simp: is_val_def is_buf_def ulog_operations)

definition vop_ok :: "nat \<Rightarrow> vop \<Rightarrow> bool" where
  "vop_ok n e \<longleftrightarrow> (case e of (t, off, v) \<Rightarrow> is_val t \<and> 0 < off \<and> off + 8 \<le> n \<and> n \<le> 2 ^ 61)"

fun entry_bytes :: "vop \<Rightarrow> byte list" where
  "entry_bytes (t, off, v) = to_le 8 (of_nat off OR t :: 64 word) @ to_le 8 v"

lemma length_entry_bytes [simp]: "length (entry_bytes e) = 16"
  by (cases e) simp

lemma length_entries [simp]: "length (concat (map entry_bytes es)) = 16 * length es"
  by (induction es) simp_all

section \<open>Logs\<close>

text \<open>The bytes of a log without extensions that holds the entries \<open>es\<close>.\<close>

definition log_holds :: "byte list \<Rightarrow> nat \<Rightarrow> vop list \<Rightarrow> bool" where
  "log_holds b cap es \<longleftrightarrow> cap < 2 ^ 64 \<and> 64 + cap \<le> length b \<and> cap mod 16 = 0 \<and> 16 * length es \<le> cap \<and>
     rd64 b U_CAPACITY = Inr (of_nat cap) \<and> rd64 b U_NEXT = Inr 0 \<and>
     get_bytes 64 (16 * length es) b = concat (map entry_bytes es) \<and>
     (16 * length es < cap \<longrightarrow> rd64 b (64 + 16 * length es) = Inr 0)"

lemma log_holds_same:
  assumes "log_holds b cap es" "take (64 + cap) b' = take (64 + cap) b" "length b' = length b"
  shows "log_holds b' cap es"
proof -
  have l: "64 + cap \<le> length b" "cap mod 16 = 0" "16 * length es \<le> cap" using assms(1) by (auto simp: log_holds_def)
  have r: "rd64 b' off = rd64 b off" if "off + 8 \<le> 64 + cap" for off by (rule rd64_take [OF that l(1) assms(2,3)])
  have "get_bytes 64 (16 * length es) c = get_bytes 64 (16 * length es) (take (64 + cap) c)" for c :: "byte list"
    using l(3) by (simp add: get_bytes_def drop_take min_def)
  then have "get_bytes 64 (16 * length es) b' = get_bytes 64 (16 * length es) b" using assms(2) by metis
  moreover have "16 * length es < cap \<longrightarrow> 64 + 16 * length es + 8 \<le> 64 + cap"
    using l(2) by (auto simp: mod_eq_0_iff_dvd dvd_def)
  ultimately show ?thesis using assms(1,3) r by (auto simp: log_holds_def ulog_fields)
qed

lemma get_bytes_concat:
  assumes "get_bytes a (16 * length es) b = concat (map entry_bytes es)" "i < length es"
  shows "get_bytes (a + 16 * i) 16 b = entry_bytes (es ! i)"
proof -
  have "get_bytes (a + 16 * i) 16 b = take 16 (drop (16 * i) (get_bytes a (16 * length es) b))"
    using assms(2) by (simp add: get_bytes_def drop_take min_def add.commute)
  also have "\<dots> = entry_bytes (es ! i)"
    unfolding assms(1) using assms(2)
  proof (induction es arbitrary: i)
    case (Cons e es)
    then show ?case by (cases i) (simp_all add: drop_append)
  qed simp
  finally show ?thesis .
qed

lemma entry_words:
  assumes "get_bytes 64 (16 * length es) b = concat (map entry_bytes es)" "64 + 16 * length es \<le> length b" "i < length es" "es ! i = (t, off, v)"
  shows "rd64 b (64 + 16 * i) = Inr (of_nat off OR t)" "rd64 b (64 + 16 * i + 8) = Inr v"
proof -
  have e: "get_bytes (64 + 16 * i) 16 b = entry_bytes (t, off, v)" using get_bytes_concat [OF assms(1,3)] assms(4) by simp
  have "get_bytes (64 + 16 * i) 8 b = take 8 (get_bytes (64 + 16 * i) 16 b)"
    "get_bytes (64 + 16 * i + 8) 8 b = drop 8 (get_bytes (64 + 16 * i) 16 b)"
    by (simp_all add: get_bytes_def drop_take add.commute)
  then have "get_bytes (64 + 16 * i) 8 b = to_le 8 (of_nat off OR t :: 64 word)" "get_bytes (64 + 16 * i + 8) 8 b = to_le 8 v"
    unfolding e by simp_all
  moreover have "64 + 16 * i + 16 \<le> length b" using assms(2,3) by linarith
  ultimately show "rd64 b (64 + 16 * i) = Inr (of_nat off OR t)" "rd64 b (64 + 16 * i + 8) = Inr v"
    by (simp_all add: rd64_get of_le_to_le)
qed

lemma holds_entry:
  assumes "log_holds b cap es" "i < length es" "es ! i = (t, off, v)"
  shows "rd64 (drop (64 + 16 * i) b) 0 = Inr (of_nat off OR t)" "rd64 (drop (64 + 16 * i) b) 8 = Inr v"
proof -
  have l: "get_bytes 64 (16 * length es) b = concat (map entry_bytes es)" "64 + 16 * length es \<le> length b"
    using assms(1) by (auto simp: log_holds_def)
  then have "64 + 16 * i \<le> length b" using assms(2) by linarith
  then show "rd64 (drop (64 + 16 * i) b) 0 = Inr (of_nat off OR t)" "rd64 (drop (64 + 16 * i) b) 8 = Inr v"
    using entry_words [OF l assms(2,3)] by (simp_all add: rd64_drop)
qed

section \<open>Processing\<close>

fun apply_op :: "vop \<Rightarrow> pool_mem \<Rightarrow> pool_mem" where
  "apply_op (t, off, v) s = ostep (pm_store True off (to_le 8 (val_fun t v (of_le (get_at (olive s) off 8))))) s"

lemma olive_ostep [simp]: "olive (ostep f s) = pm_live (f (o_mem s))" "o_size (ostep f s) = o_size s" "o_dram (ostep f s) = o_dram s"
  by (simp_all add: olive_def ostep_def)

lemma o_mem_ostep: "o_mem (ostep f s) = f (o_mem s)" "o_hist (ostep f s) = o_hist s @ [f (o_mem s)]"
  by (simp_all add: ostep_def)

lemma apply_op_live [simp]: "olive (apply_op e s) = effect e (olive s)" "o_size (apply_op e s) = o_size s"
proof -
  obtain t off v where e: "e = (t, off, v)" by (cases e)
  show "olive (apply_op e s) = effect e (olive s)" unfolding e apply_op.simps effect.simps olive_ostep(1) by (simp add: pm_store_def olive_def)
  show "o_size (apply_op e s) = o_size s" unfolding e apply_op.simps by (rule olive_ostep(2))
qed

lemma entry_apply_ok:
  assumes "rd64 e 0 = Inr (of_nat off OR t)" "rd64 e 8 = Inr v" "vop_ok (o_size s) (t, off, v)"
  shows "ulog_entry_apply False Persistent e s = (Inr (), apply_op (t, off, v) s)"
proof -
  have ok: "is_val t" "off + 8 \<le> o_size s" "off < 2 ^ 61" using assms(3) by (auto simp: vop_ok_def)
  show ?thesis using ok assms(1,2)
    by (simp add: ulog_entry_apply_def entry_decode [OF ok(3,1)] tread_def twrite_def ostore_def act_simps val_fun_def Let_def)
qed

lemma entry_valid_val:
  assumes "rd64 e 0 = Inr (of_nat off OR t)" "vop_ok n (t, off, v)"
  shows "ulog_entry_valid g e = Inr True" "ulog_entry_size e = Inr 16"
proof -
  have ok: "is_val t" "off < 2 ^ 61" "0 < off" using assms(2) by (auto simp: vop_ok_def)
  show "ulog_entry_valid g e = Inr True" "ulog_entry_size e = Inr 16"
    using assms(1) entry_nonzero [OF ok(2,3,1)] val_not_buf [OF ok(1)] ok(1)
    by (simp_all add: ulog_entry_valid_def ulog_entry_size_def entry_decode [OF ok(2,1)])
qed

text \<open>Where the log is not itself modified, its entries are carried out one after the other.\<close>

lemma foreach_process:
  assumes st: "\<And>e s. e \<in> set es \<Longrightarrow> o_size s = n \<Longrightarrow> log_holds (ulog_view r s) cap es \<Longrightarrow> log_holds (ulog_view r (apply_op e s)) cap es"
    and ok: "\<forall>e \<in> set es. vop_ok n e"
    and s: "o_size s = n" "log_holds (ulog_view r s) cap es" and i: "i \<le> length es" and k: "length es - i < k"
  shows "foreach_loop k r (ulog_process_entry Persistent) r (16 * i) s = (Inr 0, fold apply_op (drop i es) s)"
  using s i k
proof (induction "length es - i" arbitrary: i k s)
  case 0
  then have i: "i = length es" by simp
  obtain j where k: "k = Suc j" using 0 by (cases k) auto
  let ?b = "ulog_view r s"
  have h: "log_holds ?b cap es" by (rule "0.prems"(2))
  then have f: "rd64n ?b U_CAPACITY = Inr cap" "rd64n ?b U_NEXT = Inr 0" "64 + cap \<le> length ?b"
    by (auto simp: log_holds_def rd64n_def unat_of_nat_id)
  show ?case
  proof (cases "16 * length es < cap")
    case True
    then have z: "rd64 (drop (64 + 16 * length es) ?b) 0 = Inr 0" using h f(3) by (simp add: log_holds_def rd64_drop)
    obtain g where "rd64 ?b U_GEN_NUM = Inr g" using f(3) by (simp add: rd64_def U_GEN_NUM_def)
    then show ?thesis using True z f unfolding i k by (simp add: act_simps ulog_entry_valid_def)
  next
    case False
    then show ?thesis using f unfolding i k by (simp add: act_simps ulog_next_def ulog_by_offset_def)
  qed
next
  case (Suc m)
  have i: "i < length es" using Suc.hyps(2) by simp
  obtain j where k: "k = Suc j" using Suc.prems by (cases k) auto
  let ?b = "ulog_view r s"
  obtain t off v where e: "es ! i = (t, off, v)" by (cases "es ! i")
  have mem: "es ! i \<in> set es" using i by simp
  have h: "log_holds ?b cap es" by (rule Suc.prems(2))
  then have f: "rd64n ?b U_CAPACITY = Inr cap" "64 + cap \<le> length ?b" "16 * length es \<le> cap" "cap < 2 ^ 64"
    by (auto simp: log_holds_def rd64n_def unat_of_nat_id)
  obtain g where g: "rd64 ?b U_GEN_NUM = Inr g" using f(2) by (simp add: rd64_def U_GEN_NUM_def)
  have v: "vop_ok n (t, off, v)" using ok mem e by auto
  note en = holds_entry [OF h i e]
  let ?s = "apply_op (t, off, v) s"
  have h': "log_holds (ulog_view r ?s) cap es" using st [OF mem Suc.prems(1) h] e by simp
  note en' = holds_entry [OF h' i e]
  have "16 * i < cap" "u64 (16 * i + 16) = 16 * Suc i" using i f(3,4) by (simp_all add: u64_def)
  then have "foreach_loop k r (ulog_process_entry Persistent) r (16 * i) s
      = foreach_loop j r (ulog_process_entry Persistent) r (16 * Suc i) ?s"
    using f(1) g entry_valid_val [OF en(1) v] entry_valid_val(2) [OF en'(1) v] entry_apply_ok [OF en, of s] v Suc.prems(1)
    unfolding k by (simp add: act_simps ulog_process_entry_def abind_def)
  moreover have "foreach_loop j r (ulog_process_entry Persistent) r (16 * Suc i) ?s = (Inr 0, fold apply_op (drop (Suc i) es) ?s)"
    using Suc.hyps(2) Suc.prems h' i k by (intro Suc.hyps(1)) simp_all
  ultimately show ?case using i e by (simp add: Cons_nth_drop_Suc [symmetric])
qed

end
