(* ===== verification/UlogCrash.thy ===== *)
theory UlogCrash
  imports UlogOk
begin

text \<open>
  Power failures around a redo log: what the media may hold while modifications are being carried out, and what
  recovery makes of it.
\<close>

unbundle bit_operations_syntax

section \<open>Images\<close>

text \<open>Every byte, visible, durable or on its way, has one of some values.\<close>

definition values_in :: "(nat \<Rightarrow> byte set) \<Rightarrow> pmem \<Rightarrow> bool" where
  "values_in S m \<longleftrightarrow> (\<forall>x. pm_live m x \<in> S x \<and> pm_durable m x \<in> S x) \<and>
     (\<forall>(f, s) \<in> set (pm_pending m). \<forall>x b. s x = Some b \<longrightarrow> b \<in> S x)"

lemma apply_store_in: "\<forall>x. m x \<in> S x \<Longrightarrow> \<forall>x b. s x = Some b \<longrightarrow> b \<in> S x \<Longrightarrow> apply_store s m x \<in> S x"
  by (auto simp: apply_store_def split: option.splits)

lemma torn_stores_in:
  "\<forall>x. m x \<in> S x \<Longrightarrow> \<forall>(f, s) \<in> set ss. \<forall>x b. s x = Some b \<longrightarrow> b \<in> S x \<Longrightarrow> torn_stores keep i ss m x \<in> S x"
proof (induction keep i ss m rule: torn_stores.induct)
  case (2 keep i f s ss m)
  have "\<forall>x. (if keep i (x div 8) then apply_store s m x else m x) \<in> S x"
    using 2(2,3) by (auto intro: apply_store_in)
  then show ?case using 2 by simp
qed simp

lemma crash_in: "values_in S m \<Longrightarrow> crash_image keep m x \<in> S x"
  unfolding crash_image_def values_in_def by (intro torn_stores_in) auto

lemma values_in_store: "values_in S m \<Longrightarrow> (\<And>x. put_at off bs (pm_live m) x \<in> S x) \<Longrightarrow> values_in S (pm_store f off bs m)"
proof -
  assume w: "values_in S m" and p: "\<And>x. put_at off bs (pm_live m) x \<in> S x"
  have "b \<in> S x" if "store_map off bs x = Some b" for x b using that p [of x] by (auto simp: store_map_def put_at_def split: if_splits)
  then show ?thesis using w p by (auto simp: values_in_def pm_store_def)
qed

lemma values_in_drain: "values_in S m \<Longrightarrow> values_in S (pm_drain m)"
proof -
  assume w: "values_in S m"
  have f: "(\<forall>x. m' x \<in> S x) \<Longrightarrow> \<forall>(f, s) \<in> set ss. \<forall>x b. s x = Some b \<longrightarrow> b \<in> S x \<Longrightarrow> fold (\<lambda>(f, s). if f then apply_store s else id) ss m' x \<in> S x"
    for ss :: "(bool \<times> (nat \<Rightarrow> byte option)) list" and m' x
  proof (induction ss arbitrary: m')
    case (Cons p ss)
    obtain f s where p: "p = (f, s)" by fastforce
    have "\<forall>x. (if f then apply_store s else id) m' x \<in> S x" using Cons.prems p by (auto intro: apply_store_in)
    then show ?case using Cons p by simp
  qed simp
  show ?thesis using w f [of "pm_durable m" "pm_pending m"] by (auto simp: values_in_def pm_drain_def)
qed

lemma values_in_mono: "values_in S m \<Longrightarrow> (\<And>x. S x \<subseteq> T x) \<Longrightarrow> values_in T m"
  unfolding values_in_def by blast

lemma clean_values_in: "pm_clean m \<Longrightarrow> values_in (\<lambda>x. {pm_live m x}) m"
  by (auto simp: pm_clean_def values_in_def)

text \<open>A drain after stores whose flushes have all started leaves nothing pending.\<close>

definition flushed :: "pmem \<Rightarrow> bool" where
  "flushed m \<longleftrightarrow> (\<forall>(f, s) \<in> set (pm_pending m). f \<or> s = (\<lambda>_. None)) \<and>
     fold (\<lambda>(f, s). if f then apply_store s else id) (pm_pending m) (pm_durable m) = pm_live m"

lemma flushed_drain: "flushed m \<Longrightarrow> pm_clean (pm_drain m)"
  by (auto simp: flushed_def pm_clean_def pm_drain_def)

lemma flushed_store: "flushed m \<Longrightarrow> flushed (pm_store True off bs m)"
  by (auto simp: flushed_def pm_store_def store_map_put)

lemma apply_store_none [simp]: "apply_store (\<lambda>_. None) m = m"
  by (rule ext) (simp add: apply_store_def)

lemma clean_flushed: "pm_clean m \<Longrightarrow> flushed m"
proof -
  assume c: "pm_clean m"
  have "\<forall>(f, s) \<in> set ss. s = (\<lambda>_. None) \<Longrightarrow> fold (\<lambda>(f, s). if f then apply_store s else id) ss d = d"
    for ss :: "(bool \<times> (nat \<Rightarrow> byte option)) list" and d
    by (induction ss) auto
  then show ?thesis using c by (auto simp: flushed_def pm_clean_def)
qed

lemma live_drain [simp]: "pm_live (pm_drain m) = pm_live m"
  by (simp add: pm_drain_def)

lemma live_store [simp]: "pm_live (pm_store f off bs m) = put_at off bs (pm_live m)"
  by (simp add: pm_store_def)

section \<open>Carrying out modifications\<close>

lemma apply_op_flushed: "flushed (o_mem s) \<Longrightarrow> flushed (o_mem (apply_op e s))"
  by (cases e) (simp add: ostep_def flushed_store)

lemma apply_ops_live: "olive (fold apply_op es s) = effects es (olive s)" "o_size (fold apply_op es s) = o_size s"
  "flushed (o_mem s) \<Longrightarrow> flushed (o_mem (fold apply_op es s))"
  by (induction es arbitrary: s) (simp_all add: apply_op_flushed)

definition between :: "vop list \<Rightarrow> (nat \<Rightarrow> byte) \<Rightarrow> nat \<Rightarrow> byte set" where
  "between ops m x = partial (at_byte x ops) (m x)"

lemma apply_op_values_in:
  assumes "values_in (between ops m0) (o_mem s)" "e \<in> set ops"
  shows "values_in (between ops m0) (o_mem (apply_op e s))"
proof -
  obtain t off v where e: "e = (t, off, v)" by (cases e)
  have "torn ops m0 (olive s)" using assms(1) by (simp add: torn_def values_in_def between_def olive_def)
  then have "torn ops m0 (effect e (olive s))" using assms(2) by (rule torn_effect)
  then have "\<And>x. effect e (olive s) x \<in> between ops m0 x" by (simp add: torn_def between_def)
  then show ?thesis using values_in_store [OF assms(1)] unfolding e by (simp add: ostep_def olive_def effect.simps)
qed

text \<open>Every state the memory goes through can be replayed from.\<close>

lemma apply_ops_hist:
  assumes "values_in (between ops m0) (o_mem s)" "set es \<subseteq> set ops"
  shows "\<exists>H. o_hist (fold apply_op es s) = o_hist s @ H \<and> (\<forall>m \<in> set H. values_in (between ops m0) m) \<and>
    values_in (between ops m0) (o_mem (fold apply_op es s))"
  using assms
proof (induction es arbitrary: s)
  case (Cons e es)
  have w: "values_in (between ops m0) (o_mem (apply_op e s))" using Cons.prems by (intro apply_op_values_in) auto
  obtain H where H: "o_hist (fold apply_op es (apply_op e s)) = o_hist (apply_op e s) @ H" "\<forall>m \<in> set H. values_in (between ops m0) m"
    "values_in (between ops m0) (o_mem (fold apply_op es (apply_op e s)))" using Cons.IH [OF w] Cons.prems(2) by auto
  have "o_hist (apply_op e s) = o_hist s @ [o_mem (apply_op e s)]" by (cases e) (simp add: ostep_def)
  then have "o_hist (fold apply_op (e # es) s) = o_hist s @ (o_mem (apply_op e s) # H)" using H(1) by simp
  moreover have "\<forall>m \<in> set (o_mem (apply_op e s) # H). values_in (between ops m0) m" using H(2) w by simp
  ultimately show ?case using H(3) by (metis fold_simps(2))
qed simp

lemma torn_values_replay:
  assumes "values_in (between ops m0) m"
  shows "effects ops (crash_image keep m) = effects ops m0"
    "\<forall>(t, off, v) \<in> set ops. x < off \<or> off + 8 \<le> x \<Longrightarrow> crash_image keep m x = m0 x"
proof -
  have t: "torn ops m0 (crash_image keep m)" using crash_in [OF assms] by (simp add: torn_def between_def)
  show "effects ops (crash_image keep m) = effects ops m0" by (rule torn_replay [OF t])
  show "\<forall>(t, off, v) \<in> set ops. x < off \<or> off + 8 \<le> x \<Longrightarrow> crash_image keep m x = m0 x" by (rule torn_ops_outside [OF t])
qed

section \<open>Processing a log\<close>

text \<open>The modifications stay away from the log itself.\<close>

definition away :: "nat \<Rightarrow> nat \<Rightarrow> vop list \<Rightarrow> bool" where
  "away a n es \<longleftrightarrow> (\<forall>(t, off, v) \<in> set es. off + 8 \<le> a \<or> a + n \<le> off)"

lemma take_view: "a + n \<le> o_size s \<Longrightarrow> take n (ulog_view (Pool a) s) = get_at (olive s) a n"
  by (simp add: ulog_view_def get_at_def take_map)

lemma length_view [simp]: "length (ulog_view (Pool a) s) = o_size s - a"
  by (simp add: ulog_view_def)

lemma get_at_cong: "(\<And>x. a \<le> x \<Longrightarrow> x < a + n \<Longrightarrow> m x = m' x) \<Longrightarrow> get_at m a n = get_at m' a n"
  by (simp add: get_at_def)

lemma view_same:
  assumes "log_holds (ulog_view (Pool a) s) cap es" "o_size s' = o_size s" "\<And>x. a \<le> x \<Longrightarrow> x < a + (64 + cap) \<Longrightarrow> olive s' x = olive s x"
  shows "log_holds (ulog_view (Pool a) s') cap es"
proof (rule log_holds_same [OF assms(1)])
  have "64 + cap \<le> o_size s - a" using assms(1) unfolding log_holds_def length_view by blast
  then have "a + (64 + cap) \<le> o_size s" by simp
  then show "take (64 + cap) (ulog_view (Pool a) s') = take (64 + cap) (ulog_view (Pool a) s)"
    using assms(2,3) by (simp add: take_view cong: get_at_cong)
qed (simp add: assms(2))

lemma process_ok:
  assumes h: "log_holds (ulog_view r s) cap es" and ok: "\<forall>e \<in> set es. vop_ok (o_size s) e"
    and r: "case r of Dram b \<Rightarrow> True | Pool a \<Rightarrow> away a (64 + cap) es"
  shows "ulog_process Persistent r s = (Inr (), ostep pm_drain (fold apply_op es s))"
proof -
  have st: "log_holds (ulog_view r (apply_op e s')) cap es" if "e \<in> set es" "log_holds (ulog_view r s') cap es" for e s'
  proof (cases r)
    case (Pool a)
    obtain t off v where e: "e = (t, off, v)" by (cases e)
    have "off + 8 \<le> a \<or> a + (64 + cap) \<le> off" using r that(1) Pool e by (auto simp: away_def)
    then have "olive (apply_op e s') x = olive s' x" if "a \<le> x" "x < a + (64 + cap)" for x
      using that unfolding apply_op_live e effect_byte by auto
    then show ?thesis using that(2) unfolding Pool by (intro view_same [OF _ apply_op_live(2)])
  qed (use that(2) in \<open>simp add: ulog_view_def\<close>)
  have "length es < walk_fuel r s" using h by (auto simp: walk_fuel_def log_holds_def)
  then have "foreach_loop (walk_fuel r s) r (ulog_process_entry Persistent) r (16 * 0) s = (Inr 0, fold apply_op (drop 0 es) s)"
    using st h by (intro foreach_process [OF _ ok]) auto
  then show ?thesis by (simp add: ulog_process_def ulog_foreach_entry_def odrain_def abind_def aget_def amod_def)
qed

section \<open>Recovery\<close>

text \<open>The pool after a power failure.\<close>

definition rebooted :: "nat \<Rightarrow> (nat \<Rightarrow> byte) \<Rightarrow> pool_mem" where
  "rebooted n im = \<lparr>o_mem = \<lparr>pm_live = im, pm_durable = im, pm_pending = []\<rparr>, o_size = n, o_dram = (\<lambda>_. 0), o_hist = []\<rparr>"

lemma rebooted_simps [simp]: "olive (rebooted n im) = im" "o_size (rebooted n im) = n" "flushed (o_mem (rebooted n im))"
  by (simp_all add: rebooted_def olive_def flushed_def)

lemma base_nbytes_holds:
  assumes h: "log_holds b cap es" and ok: "\<forall>e \<in> set es. vop_ok n e"
  shows "ulog_base_nbytes b = Inr (16 * length es)"
proof -
  have f: "rd64n b U_CAPACITY = Inr cap" "64 + cap \<le> length b" "16 * length es \<le> cap" "cap < 2 ^ 64"
    using h by (auto simp: log_holds_def rd64n_def unat_of_nat_id)
  have "base_nbytes_loop k b cap (16 * i) g = Inr (16 * length es)" if "i \<le> length es" "length es - i < k" for k i g
    using that
  proof (induction "length es - i" arbitrary: i k)
    case 0
    then obtain j where k: "k = Suc j" by (cases k) auto
    have i: "i = length es" using 0 by simp
    show ?case
    proof (cases "16 * length es < cap")
      case True
      then have "rd64 (drop (64 + 16 * length es) b) 0 = Inr 0" using h f(2) by (simp add: log_holds_def rd64_drop)
      then show ?thesis using True unfolding i k by (simp add: ulog_entry_valid_def)
    qed (simp add: i k)
  next
    case (Suc m)
    have i: "i < length es" using Suc.hyps(2) by simp
    obtain j where k: "k = Suc j" using Suc.prems by (cases k) auto
    obtain t off v where e: "es ! i = (t, off, v)" by (cases "es ! i")
    have v: "vop_ok n (t, off, v)" using ok i e by (metis nth_mem)
    note en = entry_valid_val [OF holds_entry(1) [OF h i e] v]
    have "16 * i < cap" "u64 (16 * i + 16) = 16 * Suc i" using i f(3,4) by (simp_all add: u64_def)
    then have "base_nbytes_loop k b cap (16 * i) g = base_nbytes_loop j b cap (16 * Suc i) g" using en unfolding k by simp
    also have "\<dots> = Inr (16 * length es)" using Suc.hyps(2) Suc.prems k i by (intro Suc.hyps(1)) auto
    finally show ?case .
  qed
  from this [of 0 "Suc (length b)"] f obtain g where "rd64 b U_GEN_NUM = Inr g" "base_nbytes_loop (Suc (length b)) b cap 0 g = Inr (16 * length es)"
    by (auto simp: rd64_def U_GEN_NUM_def)
  then show ?thesis using f(1) by (simp add: ulog_base_nbytes_def del: base_nbytes_loop.simps)
qed

text \<open>A log is idle when its capacity is zero or its first entry is.\<close>

definition ulog_idle :: "byte list \<Rightarrow> bool" where
  "ulog_idle b \<longleftrightarrow> 72 \<le> length b \<and> (\<exists>c. rd64n b U_CAPACITY = Inr c \<and> (c = 0 \<or> rd64 b 64 = Inr 0))"

lemma idle_no_recovery:
  assumes "ulog_idle b"
  shows "ulog_recovery_needed b verify = Inr False"
proof -
  obtain c where c: "72 \<le> length b" "rd64n b U_CAPACITY = Inr c" "c = 0 \<or> rd64 b 64 = Inr 0" using assms by (auto simp: ulog_idle_def)
  then have z: "0 < c \<Longrightarrow> rd64 (drop (64 + 0) b) 0 = Inr 0" by (simp add: rd64_drop)
  have "base_nbytes_loop (Suc (length b)) b c 0 g = Inr 0" for g using z by (cases "0 < c") (simp_all add: ulog_entry_valid_def)
  moreover obtain g where "rd64 b U_GEN_NUM = Inr g" using c(1) by (simp add: rd64_def U_GEN_NUM_def)
  ultimately show ?thesis using c(2) by (simp add: ulog_recovery_needed_def ulog_base_nbytes_def del: base_nbytes_loop.simps)
qed

lemma recover_nothing: "ulog_recovery_needed (ulog_view (Pool a) s) True = Inr False \<Longrightarrow> ulog_recover a s = (Inr (), s)"
  by (simp add: ulog_recover_def act_simps)

text \<open>The zeroed header of \<^verbatim>\<open>ulog_clobber\<close>.\<close>

definition clobbered :: "byte list" where
  "clobbered = to_le 8 (0 :: 64 word) @ to_le 8 (0 :: 64 word) @ replicate 48 0"

lemma length_clobbered [simp]: "length clobbered = 64"
  by (simp add: clobbered_def)

lemma clobber_ok:
  assumes "a + 64 \<le> o_size s"
  shows "ulog_clobber a (Some []) s = (Inr (), ostep pm_drain (ostep (pm_store True a clobbered) s))"
    "log_holds (ulog_view (Pool a) s) cap es \<Longrightarrow> ulog_clobber a None s = (Inr (), ostep pm_drain (ostep (pm_store True a clobbered) s))"
proof -
  show "ulog_clobber a (Some []) s = (Inr (), ostep pm_drain (ostep (pm_store True a clobbered) s))"
    using assms by (simp add: ulog_clobber_def act_simps ostore_def odrain_def clobbered_def)
  assume "log_holds (ulog_view (Pool a) s) cap es"
  then have "rd64n (ulog_view (Pool a) s) U_NEXT = Inr 0" by (simp add: log_holds_def rd64n_def)
  then show "ulog_clobber a None s = (Inr (), ostep pm_drain (ostep (pm_store True a clobbered) s))"
    using assms by (simp add: ulog_clobber_def act_simps ostore_def odrain_def clobbered_def pool_field_def)
qed

text \<open>Recovery of a complete log carries out its modifications.\<close>

definition recovered :: "nat \<Rightarrow> vop list \<Rightarrow> pool_mem \<Rightarrow> pool_mem" where
  "recovered a es s = ostep pm_drain (ostep (pm_store True a clobbered) (ostep pm_drain (fold apply_op es s)))"

lemma recover_runs:
  assumes h: "log_holds (ulog_view (Pool a) s) cap es" and ok: "\<forall>e \<in> set es. vop_ok (o_size s) e" and aw: "away a (64 + cap) es"
    and need: "ulog_recovery_needed (ulog_view (Pool a) s) True = Inr True"
  shows "ulog_recover a s = (Inr (), recovered a es s)" "olive (recovered a es s) = put_at a clobbered (effects es (olive s))"
    "log_holds (ulog_view (Pool a) (ostep pm_drain (fold apply_op es s))) cap es"
proof -
  have p: "ulog_process Persistent (Pool a) s = (Inr (), ostep pm_drain (fold apply_op es s))" using h ok aw by (intro process_ok) auto
  let ?s = "ostep pm_drain (fold apply_op es s)"
  have l: "olive ?s = effects es (olive s)" "o_size ?s = o_size s" unfolding olive_ostep live_drain olive_def [symmetric] apply_ops_live by (rule refl)+
  have "64 + cap \<le> o_size s - a" using h unfolding log_holds_def length_view by blast
  then have sz: "a + (64 + cap) \<le> o_size s" by simp
  have "olive ?s x = olive s x" if "a \<le> x" "x < a + (64 + cap)" for x
    unfolding l(1) using aw that by (intro effects_outside) (fastforce simp: away_def)
  then show h': "log_holds (ulog_view (Pool a) ?s) cap es" by (intro view_same [OF h l(2)])
  show "ulog_recover a s = (Inr (), recovered a es s)"
    using need p clobber_ok(2) [OF _ h'] sz l(2) by (simp add: ulog_recover_def act_simps abind_def recovered_def)
  have "olive (ostep pm_drain (ostep (pm_store True a clobbered) ?s)) = put_at a clobbered (olive ?s)"
    unfolding olive_ostep live_drain o_mem_ostep live_store by (simp only: olive_def)
  then show "olive (recovered a es s) = put_at a clobbered (effects es (olive s))" unfolding l(1) recovered_def .
qed

lemma recover_complete:
  assumes h: "log_holds (ulog_view (Pool a) s) cap es" and ok: "\<forall>e \<in> set es. vop_ok (o_size s) e" and aw: "away a (64 + cap) es"
    and need: "ulog_recovery_needed (ulog_view (Pool a) s) True = Inr True"
  shows "\<exists>s'. ulog_recover a s = (Inr (), s') \<and> olive s' = put_at a clobbered (effects es (olive s))"
  using recover_runs [OF assms] by blast

end
