(* ===== verification/UlogCommit.thy ===== *)
theory UlogCommit
  imports UlogCrash
begin

text \<open>
  Storing a collected log in the pool, and the whole of a redo operation: at every power failure, either nothing of it is
  there after recovery, or all of it.
\<close>

section \<open>The stored log\<close>

text \<open>A shadow log of some value entries, with a spare cache line behind them.\<close>

definition shadow_holds :: "byte list \<Rightarrow> vop list \<Rightarrow> bool" where
  "shadow_holds b es \<longleftrightarrow> es \<noteq> [] \<and> 128 + 16 * length es \<le> length b \<and>
     get_bytes 64 (16 * length es) b = concat (map entry_bytes es) \<and> rd64 b (64 + 16 * length es) = Inr 0 \<and>
     (\<exists>c. rd64 b U_CAPACITY = Inr (of_nat c) \<and> 16 * length es \<le> c \<and> c mod 16 = 0 \<and> 64 + c \<le> length b \<and> c < 2 ^ 64)"

text \<open>How much of a log of \<open>n\<close> bytes of entries is stored in one of \<open>base\<close> bytes.\<close>

definition padded :: "nat \<Rightarrow> nat \<Rightarrow> nat" where
  "padded n base = (if n \<noteq> base then cacheline_align (u64 (n + 8)) else n)"

lemma padded_bounds:
  assumes "n mod 16 = 0" "base mod 64 = 0" "n \<le> base" "base < 2 ^ 62"
  shows "n \<le> padded n base" "padded n base \<le> base" "padded n base \<le> n + 64" "padded n base mod 16 = 0"
    "n < padded n base \<Longrightarrow> n + 8 \<le> padded n base"
proof -
  let ?k = "cacheline_align (u64 (n + 8))"
  have u: "u64 (n + 8) = n + 8" using assms by simp
  have r: "n + 8 \<le> ?k" "?k < n + 8 + 64" "64 dvd ?k"
    using roundup64_bounds [of 64 "n + 8"] assms(3,4) unfolding u cacheline_align_def CACHELINE_SIZE_def by simp_all
  obtain j b i where j: "?k = 64 * j" "base = 64 * b" "n = 16 * i" using r(3) assms(1,2) by (auto simp: mod_eq_0_iff_dvd dvd_def)
  have "n \<noteq> base \<Longrightarrow> ?k \<le> base" using r(2) assms(3) j by (auto simp: not_le)
  moreover have "?k \<le> n + 64"
  proof -
    have "64 * j < 16 * i + 8 + 64" using r(2) j by simp
    then have "64 * j \<le> 16 * i + 64" by presburger
    then show ?thesis using j by simp
  qed
  moreover have "?k mod 16 = 0" using j(1) by auto
  ultimately show "n \<le> padded n base" "padded n base \<le> base" "padded n base \<le> n + 64" "padded n base mod 16 = 0"
    "n < padded n base \<Longrightarrow> n + 8 \<le> padded n base"
    using r(1) assms(1,3) by (auto simp: padded_def)
qed

text \<open>The source of the copy into the pool, and its bytes there.\<close>

definition commit_src :: "byte list \<Rightarrow> nat \<Rightarrow> nat \<Rightarrow> byte list res" where
  "commit_src b n base = ulog_checksum_insert
     (put_bytes U_NEXT (to_le 8 (0 :: 64 word)) (put_bytes U_CAPACITY (to_le 8 (of_nat (padded n base) :: 64 word)) b)) n"

definition commit_bytes :: "byte list \<Rightarrow> nat \<Rightarrow> nat \<Rightarrow> byte list" where
  "commit_bytes b n base = (case commit_src b n base of Inl e \<Rightarrow> [] | Inr src \<Rightarrow> take (64 + padded n base) src)"

lemma put_bytes_prefix:
  assumes "length new \<le> n" "n \<le> length b"
  shows "put_bytes 0 new (take n b) @ drop n b = put_bytes 0 new b"
proof -
  have "drop (length new) (take n b @ drop n b) = drop (length new) (take n b) @ drop n b"
    unfolding drop_append using assms by (simp add: min_def)
  then show ?thesis by (simp add: put_bytes_def)
qed

lemma commit_src_ok:
  assumes S: "shadow_holds b es" and n: "n = 16 * length es" "n \<le> base" "base mod 64 = 0" "base < 2 ^ 62"
  shows "\<exists>src. commit_src b n base = Inr src \<and> length src = length b \<and> log_holds src (padded n base) es \<and>
    util_checksum_check (take (64 + n) src) 0 0 = Inr True \<and> (\<forall>off. 24 \<le> off \<longrightarrow> rd64 src off = rd64 b off) \<and>
    get_bytes 64 n src = get_bytes 64 n b"
proof -
  let ?k = "padded n base"
  let ?b = "put_bytes U_NEXT (to_le 8 (0 :: 64 word)) (put_bytes U_CAPACITY (to_le 8 (of_nat ?k :: 64 word)) b)"
  have s: "128 + n \<le> length b" "get_bytes 64 n b = concat (map entry_bytes es)" "rd64 b (64 + n) = Inr 0"
    using S n(1) by (auto simp: shadow_holds_def)
  have lb: "length ?b = length b" using s(1) by (simp add: length_put_bytes ulog_fields)
  have p: "n \<le> ?k" "?k \<le> n + 64" "?k mod 16 = 0" "?k < 2 ^ 64" using padded_bounds [of n base] n by auto
  have "length (take (64 + n) ?b) mod 4 = 0" using lb s(1) n(1) by (simp add: mod_eq_0_iff_dvd)
  then obtain t where t: "util_checksum_insert (take (64 + n) ?b) 0 0 = Inr t" "length t = length (take (64 + n) ?b)"
    "util_checksum_check t 0 0 = Inr True"
    using checksum_insert_check [of "take (64 + n) ?b" 0 0] lb s(1) by auto
  then obtain c :: "64 word" where c: "t = put_bytes 0 (to_le 8 c) (take (64 + n) ?b)"
    by (auto simp: util_checksum_insert_def sbind_def split: sum.splits)
  define src where "src = t @ drop (64 + n) ?b"
  have src: "commit_src b n base = Inr src"
    using t(1) lb s(1) by (simp add: commit_src_def ulog_checksum_insert_def SIZEOF_ULOG_def src_def)
  have src': "src = put_bytes 0 (to_le 8 c) ?b" unfolding src_def c using lb s(1) by (intro put_bytes_prefix) simp_all
  have ls: "length src = length b" using lb s(1) by (simp add: src' length_put_bytes)
  have r: "rd64 src off = rd64 b off" if "24 \<le> off" for off
    using that s(1) by (simp add: src' rd64_put length_put_bytes ulog_fields)
  have r2: "rd64 src U_CAPACITY = Inr (of_nat ?k)" "rd64 src U_NEXT = Inr 0"
    using s(1) by (simp_all add: src' rd64_put rd64_put_same length_put_bytes ulog_fields)
  have g: "get_bytes 64 n src = get_bytes 64 n b"
    using s(1) by (simp add: src' get_bytes_put_other length_put_bytes ulog_fields)
  then have "log_holds src ?k es" using s r [of "64 + n"] r2 p ls n(1) by (simp add: log_holds_def)
  moreover have "take (64 + n) src = t" using t(2) lb s(1) by (simp add: src_def)
  ultimately show ?thesis using src ls t(3) r g by simp
qed

text \<open>The part of the stored bytes that matters: up to the zero that ends the entries.\<close>

definition significant :: "nat \<Rightarrow> nat \<Rightarrow> nat" where
  "significant n base = 64 + min (n + 8) (padded n base)"

lemma log_holds_prefix:
  assumes h: "log_holds b cap es" and j: "j = 64 + min (16 * length es + 8) cap"
    and t: "take j b' = take j b" and l: "64 + cap \<le> length b'"
  shows "log_holds b' cap es"
proof -
  have c: "16 * length es \<le> cap" "cap mod 16 = 0" "64 + cap \<le> length b" using h by (auto simp: log_holds_def)
  have k: "16 * length es < cap \<Longrightarrow> 16 * length es + 8 \<le> cap" using c(2) by (auto simp: mod_eq_0_iff_dvd dvd_def)
  have g: "get_bytes off i d = get_bytes off i (take j d)" if "off + i \<le> j" for off i and d :: "byte list"
    using that by (simp add: get_bytes_def drop_take min_def)
  have e: "get_bytes off i b' = get_bytes off i b" if "off + i \<le> j" for off i
    using g [OF that, of b'] g [OF that, of b] t by simp
  have r: "rd64 b' off = rd64 b off" if "off + 8 \<le> j" for off
  proof -
    have "j \<le> 64 + cap" using j by simp
    then have "off + 8 \<le> length b" "off + 8 \<le> length b'" using that c(3) l by linarith+
    then show ?thesis using e [OF that] by (simp add: rd64_def)
  qed
  have "64 + 16 * length es \<le> j" using c(1) j by simp
  then show ?thesis using h r e l k j by (auto simp: log_holds_def ulog_fields)
qed

lemma commit_bytes_ok:
  assumes S: "shadow_holds b es" and n: "n = 16 * length es" "n \<le> base" "base mod 64 = 0" "base < 2 ^ 62"
  shows "length (commit_bytes b n base) = 64 + padded n base"
    "take (significant n base) b' = take (significant n base) (commit_bytes b n base) \<Longrightarrow> 64 + padded n base \<le> length b' \<Longrightarrow>
      log_holds b' (padded n base) es \<and> util_checksum_check (take (64 + n) b') 0 0 = Inr True"
proof -
  obtain src where src: "commit_src b n base = Inr src" "length src = length b" "log_holds src (padded n base) es"
    "util_checksum_check (take (64 + n) src) 0 0 = Inr True" using commit_src_ok [OF assms] by blast
  let ?k = "padded n base" and ?j = "significant n base"
  have k: "n \<le> ?k" "64 + ?k \<le> length src" using padded_bounds [of n base] n src(3) by (auto simp: log_holds_def)
  have cb: "commit_bytes b n base = take (64 + ?k) src" by (simp add: commit_bytes_def src(1))
  show "length (commit_bytes b n base) = 64 + ?k" using k(2) cb by simp
  assume t: "take ?j b' = take ?j (commit_bytes b n base)" and l: "64 + ?k \<le> length b'"
  have j: "?j \<le> 64 + ?k" "64 + n \<le> ?j" using k(1) by (simp_all add: significant_def)
  have t': "take ?j b' = take ?j src" using t j(1) unfolding cb by (simp add: min_def)
  have "log_holds b' ?k es" by (rule log_holds_prefix [OF src(3) _ t' l]) (simp add: significant_def n(1))
  moreover have "take (64 + n) b' = take (64 + n) (take ?j b')" using j(2) by (simp add: min_def)
  then have "take (64 + n) b' = take (64 + n) src" using t' j(2) by (simp add: min_def)
  ultimately show "log_holds b' ?k es \<and> util_checksum_check (take (64 + n) b') 0 0 = Inr True" using src(4) by simp
qed

lemma ulog_store_ok:
  assumes S: "shadow_holds b es" and n: "n = 16 * length es" "n \<le> base" "base mod 64 = 0" "base < 2 ^ 62"
    and a: "a + 64 + base \<le> o_size s"
  shows "\<exists>src c. ulog_store a b n base base [] s = (Inr src, ostep pm_drain (ostep (pm_store True a (commit_bytes b n base)) s)) \<and>
    log_holds src c es \<and> length src = length b \<and> rd64 src U_CAPACITY = rd64 b U_CAPACITY \<and>
    (\<forall>off. 24 \<le> off \<longrightarrow> rd64 src off = rd64 b off) \<and> get_bytes 64 (16 * length es) src = get_bytes 64 (16 * length es) b"
proof -
  obtain src where src: "commit_src b n base = Inr src" "length src = length b" "log_holds src (padded n base) es"
    and r: "\<And>off. 24 \<le> off \<Longrightarrow> rd64 src off = rd64 b off" "get_bytes 64 n src = get_bytes 64 n b"
    using commit_src_ok [OF S n] by blast
  let ?k = "padded n base"
  have p: "n \<le> ?k" "?k \<le> base" "?k \<le> n + 64" using padded_bounds [of n base] n by auto
  obtain c where c: "rd64 b U_CAPACITY = Inr (of_nat c)" "16 * length es \<le> c" "c mod 16 = 0" "64 + c \<le> length b" "c < 2 ^ 64"
    and s: "128 + n \<le> length b" "rd64 b (64 + n) = Inr 0" "get_bytes 64 n b = concat (map entry_bytes es)"
    using S n(1) by (auto simp: shadow_holds_def)
  let ?src = "put_bytes U_CAPACITY (to_le 8 (of_nat c :: 64 word)) src"
  have lc: "length (commit_bytes b n base) = 64 + ?k" by (rule commit_bytes_ok(1) [OF S n])
  have cb: "commit_bytes b n base = take (64 + ?k) src" by (simp add: commit_bytes_def src(1))
  have st: "ostore a (take (64 + ?k) src) s = (Inr (), ostep (pm_store True a (commit_bytes b n base)) s)"
    using a p(2) lc by (simp add: ostore_def act_simps cb)
  have k': "(if n \<noteq> base then cacheline_align (u64 (n + 8)) else n) = ?k" by (simp add: padded_def)
  have m: "min base n = n" "min base ?k = ?k" "?k - min base ?k = 0" using n(2) p by simp_all
  have "64 + ?k \<le> length src" using s(1) p(3) src(2) by simp
  then have run: "ulog_store a b n base base [] s = (Inr ?src, ostep pm_drain (ostep (pm_store True a (commit_bytes b n base)) s))"
    using p(2) c(1) src(1) st
    by (simp add: ulog_store_def k' m Let_def act_simps abind_def odrain_def commit_src_def SIZEOF_ULOG_def)
  have l: "length ?src = length b" using s(1) src(2) by (simp add: length_put_bytes ulog_fields)
  have q: "rd64 ?src off = rd64 src off" if "24 \<le> off \<or> off = U_NEXT" for off
    using that s(1) src(2) by (intro rd64_put) (auto simp: ulog_fields)
  have q1: "rd64 ?src U_CAPACITY = Inr (of_nat c)" using s(1) src(2) by (intro rd64_put_same) (simp add: ulog_fields)
  have q2: "get_bytes 64 (16 * length es) ?src = get_bytes 64 (16 * length es) src"
    using s(1) src(2) n(1) by (intro get_bytes_put_other) (simp_all add: ulog_fields)
  have "rd64 src U_NEXT = Inr 0" using src(3) by (simp add: log_holds_def)
  then have "log_holds ?src c es"
    using c l q q1 q2 r s n(1) by (simp add: log_holds_def)
  then show ?thesis using run l q q1 q2 r c(1) n(1) by auto
qed

end
