(* ===== verification/MemOpsCommit.thy ===== *)
theory MemOpsCommit
  imports UlogCommit
begin

text \<open>
  Processing an operation: what it does to memory, and what recovery finds after a power failure at any moment of it.
\<close>

section \<open>Ready to process\<close>

text \<open>A context for a redo log without extensions, over a pool at rest with that log idle.\<close>

definition redo_ready :: "operation_context \<Rightarrow> pool_mem \<Rightarrow> bool" where
  "redo_ready ctx s \<longleftrightarrow> oc_type ctx = LOG_TYPE_REDO \<and> oc_next ctx = [] \<and> oc_capacity ctx = oc_base_nbytes ctx \<and>
     oc_base_nbytes ctx mod 64 = 0 \<and> 64 \<le> oc_base_nbytes ctx \<and> oc_base_nbytes ctx \<le> ULOG_BASE_SIZE \<and>
     oc_ulog ctx mod 64 = 0 \<and> oc_ulog ctx + 64 + oc_base_nbytes ctx \<le> o_size s \<and> o_size s \<le> 2 ^ 61 \<and>
     pm_clean (o_mem s) \<and> ulog_idle (ulog_view (Pool (oc_ulog ctx)) s) \<and> ol_offset (transient_ops ctx) = 0"

text \<open>The collected entries, and that they fit into the log and leave it alone.\<close>

definition collected :: "operation_context \<Rightarrow> pool_mem \<Rightarrow> vop list \<Rightarrow> bool" where
  "collected ctx s es \<longleftrightarrow> ol_offset (pshadow_ops ctx) = 16 * length es \<and> ol_capacity (pshadow_ops ctx) mod 64 = 0 \<and>
     shadow_holds (ol_ulog (pshadow_ops ctx)) es \<and> 16 * length es \<le> oc_base_nbytes ctx \<and>
     (\<forall>e \<in> set es. vop_ok (o_size s) e \<and> fst (snd e) mod 8 = 0) \<and> away (oc_ulog ctx) (64 + oc_base_nbytes ctx) es"

text \<open>The bytes about to be stored in the log.\<close>

definition stored_bytes :: "operation_context \<Rightarrow> byte list" where
  "stored_bytes ctx = commit_bytes (ol_ulog (pshadow_ops ctx)) (ol_offset (pshadow_ops ctx)) (oc_base_nbytes ctx)"

text \<open>The checksum tells a log that was torn on its way to the media from a complete one.\<close>

definition commit_detectable :: "operation_context \<Rightarrow> pool_mem \<Rightarrow> bool" where
  "commit_detectable ctx s \<longleftrightarrow> (\<forall>keep. let a = oc_ulog ctx; j = significant (ol_offset (pshadow_ops ctx)) (oc_base_nbytes ctx);
       b = ulog_view (Pool a) (rebooted (o_size s) (crash_image keep (pm_store True a (stored_bytes ctx) (o_mem s)))) in
     ulog_recovery_needed b True = Inr False \<or> take j b = take j (stored_bytes ctx))"

text \<open>Outside the log, recovery from an image leaves one memory or the other.\<close>

definition recovers_to :: "operation_context \<Rightarrow> nat \<Rightarrow> (nat \<Rightarrow> byte) \<Rightarrow> (nat \<Rightarrow> byte) \<Rightarrow> (nat \<Rightarrow> byte) \<Rightarrow> bool" where
  "recovers_to ctx n old new im \<longleftrightarrow> (\<exists>s. ulog_recover (oc_ulog ctx) (rebooted n im) = (Inr (), s) \<and>
     ((\<forall>x. x < oc_ulog ctx \<or> oc_ulog ctx + 64 + oc_base_nbytes ctx \<le> x \<longrightarrow> olive s x = old x) \<or>
      (\<forall>x. x < oc_ulog ctx \<or> oc_ulog ctx + 64 + oc_base_nbytes ctx \<le> x \<longrightarrow> olive s x = new x)))"

lemma recovers_idle:
  assumes "ulog_recovery_needed (ulog_view (Pool (oc_ulog ctx)) (rebooted n im)) True = Inr False"
    and "(\<forall>x. x < oc_ulog ctx \<or> oc_ulog ctx + 64 + oc_base_nbytes ctx \<le> x \<longrightarrow> im x = old x) \<or>
      (\<forall>x. x < oc_ulog ctx \<or> oc_ulog ctx + 64 + oc_base_nbytes ctx \<le> x \<longrightarrow> im x = new x)"
  shows "recovers_to ctx n old new im"
  using recover_nothing [OF assms(1)] assms(2) by (simp add: recovers_to_def)

lemma recovers_complete:
  assumes h: "log_holds (ulog_view (Pool (oc_ulog ctx)) (rebooted n im)) cap es" and cap: "cap \<le> oc_base_nbytes ctx"
    and ok: "\<forall>e \<in> set es. vop_ok n e" and aw: "away (oc_ulog ctx) (64 + oc_base_nbytes ctx) es"
    and need: "ulog_recovery_needed (ulog_view (Pool (oc_ulog ctx)) (rebooted n im)) True = Inr True"
    and new: "\<And>x. x < oc_ulog ctx \<or> oc_ulog ctx + 64 + oc_base_nbytes ctx \<le> x \<Longrightarrow> effects es im x = new x"
  shows "recovers_to ctx n old new im"
proof -
  have "away (oc_ulog ctx) (64 + cap) es" using aw cap by (fastforce simp: away_def)
  then obtain s where s: "ulog_recover (oc_ulog ctx) (rebooted n im) = (Inr (), s)" "olive s = put_at (oc_ulog ctx) clobbered (effects es im)"
    using recover_complete [OF h _ _ need] ok by auto
  have "olive s x = new x" if "x < oc_ulog ctx \<or> oc_ulog ctx + 64 + oc_base_nbytes ctx \<le> x" for x
    using new [OF that] that s(2) by (auto simp: put_at_def)
  then show ?thesis unfolding recovers_to_def using s(1) by blast
qed

lemma effects_cong_byte: "m x = m' x \<Longrightarrow> effects es m x = effects es m' x"
  by (simp add: effects_byte)

text \<open>Pending stores that touch only a range leave the rest of a clean memory in every image.\<close>

lemma image_of_store:
  assumes "pm_clean m" "x < a \<or> a + length bs \<le> x"
  shows "crash_image keep (pm_store f a bs m) x = pm_live m x"
proof -
  have "pending_in (pm_store f a bs m) a (length bs)"
    using assms(1) by (auto simp: pending_in_def pm_store_def pm_clean_def store_map_def)
  then show ?thesis using assms image_outside [of "pm_store f a bs m" a "length bs" x keep] by (simp add: pm_store_def pm_clean_def)
qed

text \<open>Inside, each aligned group of eight bytes is old or new as a whole.\<close>

lemma image_group:
  assumes "pm_clean m" "g mod 8 = 0" "a \<le> g" "g + 8 \<le> a + length bs"
  shows "(\<forall>x. g \<le> x \<and> x < g + 8 \<longrightarrow> crash_image keep (pm_store f a bs m) x = pm_live m x) \<or>
    (\<forall>x. g \<le> x \<and> x < g + 8 \<longrightarrow> crash_image keep (pm_store f a bs m) x = put_at a bs (pm_live m) x)"
proof -
  let ?n = "length (pm_pending m)"
  have d: "pm_durable m = pm_live m" "\<forall>(f, s) \<in> set (pm_pending m). s = (\<lambda>_. None)" using assms(1) by (auto simp: pm_clean_def)
  have "torn_stores keep 0 (pm_pending m) (pm_live m) = pm_live m" using d(2) by (intro ext torn_stores_outside) auto
  then have e: "crash_image keep (pm_store f a bs m) x = (if keep ?n (x div 8) then put_at a bs (pm_live m) x else pm_live m x)" for x
    using d(1) by (simp add: crash_image_def pm_store_def torn_append, simp only: store_map_put, simp)
  have q: "x div 8 = g div 8" if "g \<le> x \<and> x < g + 8" for x
  proof -
    obtain q where "g = 8 * q" using assms(2) by (auto simp: mod_eq_0_iff_dvd)
    then show ?thesis using that by (intro div_nat_eqI) simp_all
  qed
  show ?thesis
  proof (cases "keep ?n (g div 8)")
    case True
    have "crash_image keep (pm_store f a bs m) x = put_at a bs (pm_live m) x" if "g \<le> x \<and> x < g + 8" for x
      unfolding e q [OF that] using True by (rule if_P)
    then show ?thesis by blast
  next
    case False
    have "crash_image keep (pm_store f a bs m) x = pm_live m x" if "g \<le> x \<and> x < g + 8" for x
      unfolding e q [OF that] using False by (rule if_not_P)
    then show ?thesis by blast
  qed
qed

section \<open>The phases of a redo operation\<close>

lemma take_shorter: "take k b = c \<Longrightarrow> j \<le> k \<Longrightarrow> take j b = take j c"
  by (auto simp: min_def)

text \<open>While the log is being stored.\<close>

lemma stored_ok:
  assumes R: "redo_ready ctx s" and C: "collected ctx s es"
  shows "length (stored_bytes ctx) = 64 + padded (16 * length es) (oc_base_nbytes ctx)"
    "padded (16 * length es) (oc_base_nbytes ctx) \<le> oc_base_nbytes ctx"
    "take j b = take j (stored_bytes ctx) \<Longrightarrow> j = significant (16 * length es) (oc_base_nbytes ctx) \<Longrightarrow>
      64 + padded (16 * length es) (oc_base_nbytes ctx) \<le> length b \<Longrightarrow>
      log_holds b (padded (16 * length es) (oc_base_nbytes ctx)) es \<and> ulog_recovery_needed b True = Inr True"
proof -
  let ?B = "oc_base_nbytes ctx" and ?n = "16 * length es"
  have B: "?B mod 64 = 0" "?B < 2 ^ 62" using R by (auto simp: redo_ready_def ULOG_BASE_SIZE_def)
  have c: "shadow_holds (ol_ulog (pshadow_ops ctx)) es" "?n \<le> ?B" "ol_offset (pshadow_ops ctx) = ?n" "\<forall>e \<in> set es. vop_ok (o_size s) e"
    using C by (auto simp: collected_def)
  note cb = commit_bytes_ok [OF c(1) refl c(2) B, folded c(3), folded stored_bytes_def, unfolded c(3)]
  show "length (stored_bytes ctx) = 64 + padded ?n ?B" by (rule cb(1))
  show "padded ?n ?B \<le> ?B" using padded_bounds(2) [of ?n ?B] c(2) B by simp
  assume t: "take j b = take j (stored_bytes ctx)" "j = significant ?n ?B" "64 + padded ?n ?B \<le> length b"
  then have h: "log_holds b (padded ?n ?B) es" and ch: "util_checksum_check (take (64 + ?n) b) 0 0 = Inr True" using cb(2) [of b] by auto
  have "rd64n b U_CAPACITY = Inr (padded ?n ?B)" "?n \<le> padded ?n ?B" "64 + padded ?n ?B \<le> length b"
    using h by (auto simp: log_holds_def rd64n_def unat_of_nat_id)
  moreover have "es \<noteq> []" using c(1) by (simp add: shadow_holds_def)
  ultimately have "ulog_recovery_needed b True = Inr True"
    using base_nbytes_holds [OF h c(4)] ch
    by (simp add: ulog_recovery_needed_def ulog_checksum_check_def SIZEOF_ULOG_def Let_def min_def)
  then show "log_holds b (padded ?n ?B) es \<and> ulog_recovery_needed b True = Inr True" using h by simp
qed

lemma phase_store:
  assumes R: "redo_ready ctx s" and C: "collected ctx s es" and D: "commit_detectable ctx s"
  shows "recovers_to ctx (o_size s) (olive s) (effects es (olive s))
    (crash_image keep (pm_store True (oc_ulog ctx) (stored_bytes ctx) (o_mem s)))" (is "recovers_to _ _ _ _ ?im")
proof -
  let ?a = "oc_ulog ctx" and ?B = "oc_base_nbytes ctx" and ?n = "16 * length es"
  let ?b = "ulog_view (Pool ?a) (rebooted (o_size s) ?im)"
  note st = stored_ok [OF R C]
  have cl: "pm_clean (o_mem s)" and sz: "?a + 64 + ?B \<le> o_size s" using R by (auto simp: redo_ready_def)
  have out: "?im x = olive s x" if "x < ?a \<or> ?a + 64 + ?B \<le> x" for x
    using image_of_store [OF cl, of x ?a "stored_bytes ctx" keep True] that st(1,2) by (auto simp: olive_def)
  have off: "ol_offset (pshadow_ops ctx) = ?n" using C by (simp add: collected_def)
  have "ulog_recovery_needed ?b True = Inr False \<or> take (significant ?n ?B) ?b = take (significant ?n ?B) (stored_bytes ctx)"
    using D unfolding commit_detectable_def Let_def off by blast
  then show ?thesis
  proof
    assume "ulog_recovery_needed ?b True = Inr False"
    then show ?thesis using out by (intro recovers_idle) auto
  next
    assume t: "take (significant ?n ?B) ?b = take (significant ?n ?B) (stored_bytes ctx)"
    have "64 + padded ?n ?B \<le> length ?b" using sz st(2) by simp
    then have h: "log_holds ?b (padded ?n ?B) es" "ulog_recovery_needed ?b True = Inr True" using st(3) [OF t refl] by auto
    show ?thesis
    proof (rule recovers_complete [OF h(1) st(2) _ _ h(2)])
      show "effects es ?im x = effects es (olive s) x" if "x < ?a \<or> ?a + 64 + ?B \<le> x" for x
        by (rule effects_cong_byte [where m' = "olive s"]) (rule out [OF that])
    qed (use C in \<open>auto simp: collected_def\<close>)
  qed
qed

text \<open>While the modifications are carried out, over a memory that holds the stored log.\<close>

lemma phase_apply:
  assumes R: "redo_ready ctx s" and C: "collected ctx s es"
    and w: "values_in (between es (put_at (oc_ulog ctx) (stored_bytes ctx) (olive s))) m"
  shows "recovers_to ctx (o_size s) (olive s) (effects es (olive s)) (crash_image keep m)"
proof -
  let ?a = "oc_ulog ctx" and ?B = "oc_base_nbytes ctx" and ?n = "16 * length es" and ?im = "crash_image keep m"
  let ?m1 = "put_at ?a (stored_bytes ctx) (olive s)"
  let ?b = "ulog_view (Pool ?a) (rebooted (o_size s) ?im)"
  note st = stored_ok [OF R C]
  have sz: "?a + 64 + ?B \<le> o_size s" using R by (auto simp: redo_ready_def)
  have aw: "away ?a (64 + ?B) es" using C by (simp add: collected_def)
  have "?im x = ?m1 x" if "?a \<le> x" "x < ?a + (64 + ?B)" for x
    by (rule torn_values_replay(2) [OF w]) (use aw that in \<open>fastforce simp: away_def\<close>)
  then have "get_at ?im ?a (64 + padded ?n ?B) = get_at ?m1 ?a (64 + padded ?n ?B)" using st(2) by (intro get_at_cong) auto
  also have "\<dots> = stored_bytes ctx" using st(1) by simp
  finally have g: "take (64 + padded ?n ?B) ?b = stored_bytes ctx" using sz st(2) by (simp add: take_view)
  have t: "take (significant ?n ?B) ?b = take (significant ?n ?B) (stored_bytes ctx)"
    by (rule take_shorter [OF g]) (simp add: significant_def)
  have "64 + padded ?n ?B \<le> length ?b" using sz st(2) by simp
  then have h: "log_holds ?b (padded ?n ?B) es" "ulog_recovery_needed ?b True = Inr True" using st(3) [OF t refl] by auto
  show ?thesis
  proof (rule recovers_complete [OF h(1) st(2) _ aw h(2)])
    fix x assume x: "x < ?a \<or> ?a + 64 + ?B \<le> x"
    have "effects es ?im x = effects es ?m1 x" unfolding torn_values_replay(1) [OF w] ..
    also have "\<dots> = effects es (olive s) x" using x st(1,2) by (intro effects_cong_byte) (auto simp: put_at_def)
    finally show "effects es ?im x = effects es (olive s) x" .
  qed (use C in \<open>simp add: collected_def\<close>)
qed

end
