(* ===== verification/MemOpsProcess.thy ===== *)
theory MemOpsProcess
  imports MemOpsCommit
begin

text \<open>
  The end of a redo operation, and the whole of it; the shortcut for a single modification; recovery that is itself interrupted.
\<close>

section \<open>Clearing the log\<close>

lemma rd64_view: "a + off + 8 \<le> o_size s \<Longrightarrow> rd64 (ulog_view (Pool a) s) off = Inr (of_le (get_at (olive s) (a + off) 8))"
  by (simp add: rd64_def ulog_view_def get_bytes_get_at)

lemma checksum_check_total: "length b mod 4 = 0 \<Longrightarrow> \<exists>v. util_checksum_check b 0 0 = Inr v"
  by (simp add: util_checksum_check_def util_checksum_compute_def Let_def)

lemma get_at_eq: "(\<forall>x. a \<le> x \<and> x < a + n \<longrightarrow> m x = m' x) \<Longrightarrow> get_at m a n = get_at m' a n"
  by (rule get_at_cong) auto

lemma clobbered_words: "get_at (put_at a clobbered m) (a + 8) 8 = to_le 8 (0 :: 64 word)" "get_at (put_at a clobbered m) (a + 16) 8 = to_le 8 (0 :: 64 word)"
proof -
  have z: "clobbered = replicate 64 0" by (simp add: clobbered_def to_le_def numeral_eq_Suc)
  have "get_at (put_at a clobbered m) (a + i) 8 = replicate 8 0" if "i + 8 \<le> 64" for i
    unfolding z using that by (intro nth_equalityI) (auto simp: get_at_def put_at_def)
  moreover have "to_le 8 (0 :: 64 word) = replicate 8 0" by (simp add: to_le_def numeral_eq_Suc)
  ultimately show "get_at (put_at a clobbered m) (a + 8) 8 = to_le 8 (0 :: 64 word)" "get_at (put_at a clobbered m) (a + 16) 8 = to_le 8 (0 :: 64 word)"
    by simp_all
qed

lemma word_zero_bytes: "of_le (to_le 8 (0 :: 64 word)) = (0 :: 64 word)"
  by (simp add: of_le_to_le)

lemma idle_clobbered:
  assumes "olive s = put_at a clobbered m" "a + 128 \<le> o_size s"
  shows "ulog_idle (ulog_view (Pool a) s)"
proof -
  have "rd64 (ulog_view (Pool a) s) U_CAPACITY = Inr 0"
    using assms rd64_view [of a 16 s] clobbered_words(2) [of a m] word_zero_bytes by (simp add: U_CAPACITY_def)
  then show ?thesis using assms(2) by (simp add: ulog_idle_def rd64n_def)
qed

text \<open>A partly cleared header: without its capacity the log is idle, with it all entries are still there.\<close>

lemma torn_clobber:
  assumes h: "log_holds (ulog_view (Pool a) s) cap es" and cl: "pm_clean (o_mem s)" and a: "a mod 8 = 0" "a + 128 \<le> o_size s"
    and im_def: "im = crash_image keep (pm_store True a clobbered (o_mem s))"
  shows "ulog_idle (ulog_view (Pool a) (rebooted (o_size s) im)) \<or> log_holds (ulog_view (Pool a) (rebooted (o_size s) im)) cap es"
proof -
  let ?b = "ulog_view (Pool a) (rebooted (o_size s) im)" and ?v = "ulog_view (Pool a) s"
  have lv: "pm_live (o_mem s) = olive s" by (simp add: olive_def)
  have out: "im x = olive s x" if "a + 64 \<le> x" for x
    using image_of_store [OF cl, of x a clobbered keep True] that by (simp add: im_def lv)
  have grp: "get_at im (a + i) 8 = get_at (olive s) (a + i) 8 \<or> get_at im (a + i) 8 = get_at (put_at a clobbered (olive s)) (a + i) 8"
    if "i mod 8 = 0" "i + 8 \<le> 64" for i
    using image_group [OF cl, of "a + i" a clobbered keep True] that a(1) get_at_eq [of "a + i" 8]
    unfolding im_def lv by (simp add: mod_add_eq [symmetric]) blast
  have sz: "a + i + 8 \<le> o_size s" if "i \<le> 64" for i using that a(2) by simp
  have r: "rd64 ?b i = Inr (of_le (get_at im (a + i) 8))" "rd64 ?v i = Inr (of_le (get_at (olive s) (a + i) 8))" if "i \<le> 64" for i
    using rd64_view [of a i "rebooted (o_size s) im"] rd64_view [of a i s] sz [OF that] by simp_all
  have n0: "rd64 ?v U_NEXT = Inr 0" "rd64 ?v U_CAPACITY = Inr (of_nat cap)" using h by (auto simp: log_holds_def)
  have nx: "rd64 ?b U_NEXT = Inr 0"
    using grp [of 8] r [of 8] n0(1) clobbered_words(1) [of a] word_zero_bytes by (auto simp: U_NEXT_def)
  have cp: "rd64 ?b U_CAPACITY = Inr 0 \<or> rd64 ?b U_CAPACITY = Inr (of_nat cap)"
    using grp [of 16] r [of 16] n0(2) clobbered_words(2) [of a] word_zero_bytes by (auto simp: U_CAPACITY_def)
  then show ?thesis
  proof
    assume "rd64 ?b U_CAPACITY = Inr 0"
    then have "ulog_idle ?b" using a(2) by (simp add: ulog_idle_def rd64n_def)
    then show ?thesis ..
  next
    assume c: "rd64 ?b U_CAPACITY = Inr (of_nat cap)"
    have l: "64 + cap \<le> length ?v" "16 * length es \<le> cap" using h by (auto simp: log_holds_def)
    have "get_bytes i n ?b = get_bytes i n ?v" if "64 \<le> i" "i + n \<le> 64 + cap" for i n
    proof -
      have "i + n \<le> o_size s - a" using that(2) l(1) by simp
      then show ?thesis using that(1) out by (simp add: ulog_view_def get_bytes_get_at cong: get_at_cong)
    qed
    then have e: "get_bytes 64 (16 * length es) ?b = get_bytes 64 (16 * length es) ?v"
      "16 * length es + 8 \<le> cap \<Longrightarrow> get_bytes (64 + 16 * length es) 8 ?b = get_bytes (64 + 16 * length es) 8 ?v" using l(2) by simp_all
    have "cap mod 16 = 0" using h by (simp add: log_holds_def)
    then have "16 * length es < cap \<Longrightarrow> 16 * length es + 8 \<le> cap" by (auto simp: mod_eq_0_iff_dvd dvd_def)
    then have "log_holds ?b cap es" using h c nx e by (auto simp: log_holds_def rd64_def)
    then show ?thesis ..
  qed
qed

text \<open>
  Recovery from a partly cleared header finds the modifications carried out, or carries them out
  again: the log is idle, or it is whole but for its checksum.
\<close>

lemma clobber_image:
  assumes h: "log_holds (ulog_view (Pool a) s) cap es" and cl: "pm_clean (o_mem s)" and a: "a mod 8 = 0" "a + 128 \<le> o_size s"
    and ne: "es \<noteq> []" and ok: "\<forall>e \<in> set es. vop_ok (o_size s) e" and aw: "away a (64 + cap) es"
    and rep: "\<And>x. x < a \<or> a + 64 + cap \<le> x \<Longrightarrow> effects es (olive s) x = olive s x"
  shows "\<exists>s'. ulog_recover a (rebooted (o_size s) (crash_image keep (pm_store True a clobbered (o_mem s)))) = (Inr (), s') \<and>
    (\<forall>x. x < a \<or> a + 64 + cap \<le> x \<longrightarrow> olive s' x = olive s x)"
proof -
  let ?n = "16 * length es" and ?im = "crash_image keep (pm_store True a clobbered (o_mem s))"
  let ?b = "ulog_view (Pool a) (rebooted (o_size s) ?im)"
  have out: "?im x = olive s x" if "x < a \<or> a + 64 + cap \<le> x" for x
    using image_of_store [OF cl, of x a clobbered keep True] that by (auto simp: olive_def)
  have idle: ?thesis if "ulog_recovery_needed ?b True = Inr False"
    using recover_nothing [OF that] out by (intro exI [of _ "rebooted (o_size s) ?im"]) simp
  consider "ulog_idle ?b" | "log_holds ?b cap es" using torn_clobber [OF h cl a refl] by auto
  then show ?thesis
  proof cases
    case 1
    then show ?thesis by (intro idle idle_no_recovery)
  next
    case 2
    have "64 + ?n \<le> length ?b" using 2 by (auto simp: log_holds_def)
    then have "length (take (64 + ?n) ?b) = 4 * (16 + 4 * length es)" by simp
    then have "length (take (64 + ?n) ?b) mod 4 = 0" by (simp only: mod_mult_self1_is_0)
    from checksum_check_total [OF this] obtain v where v: "util_checksum_check (take (64 + ?n) ?b) 0 0 = Inr v" ..
    have "rd64n ?b U_CAPACITY = Inr cap" "?n \<le> cap" "64 + cap \<le> length ?b"
      using 2 by (auto simp: log_holds_def rd64n_def unat_of_nat_id)
    then have need: "ulog_recovery_needed ?b True = Inr v"
      using base_nbytes_holds [OF 2 ok] v ne by (simp add: ulog_recovery_needed_def ulog_checksum_check_def SIZEOF_ULOG_def Let_def min_def)
    show ?thesis
    proof (cases v)
      case False
      then show ?thesis using need by (intro idle) simp
    next
      case True
      obtain s' where s': "ulog_recover a (rebooted (o_size s) ?im) = (Inr (), s')" "olive s' = put_at a clobbered (effects es ?im)"
        using recover_complete [OF 2 _ aw] ok need True by auto
      have "olive s' x = olive s x" if "x < a \<or> a + 64 + cap \<le> x" for x
      proof -
        have "olive s' x = effects es ?im x" unfolding s'(2) using that by (auto simp: put_at_def)
        also have "\<dots> = effects es (olive s) x" by (rule effects_cong_byte) (rule out [OF that])
        also have "\<dots> = olive s x" by (rule rep [OF that])
        finally show ?thesis .
      qed
      then show ?thesis using s'(1) by blast
    qed
  qed
qed

lemma phase_clobber:
  assumes R: "redo_ready ctx s" and C: "collected ctx s es" and cl: "pm_clean (o_mem s')" and sz: "o_size s' = o_size s"
    and lv: "olive s' = effects es (put_at (oc_ulog ctx) (stored_bytes ctx) (olive s))"
  shows "recovers_to ctx (o_size s) (olive s) (effects es (olive s)) (crash_image keep (pm_store True (oc_ulog ctx) clobbered (o_mem s')))"
proof -
  let ?a = "oc_ulog ctx" and ?B = "oc_base_nbytes ctx" and ?n = "16 * length es"
  let ?m1 = "put_at ?a (stored_bytes ctx) (olive s)"
  note st = stored_ok [OF R C]
  have B: "?a + 64 + ?B \<le> o_size s" "?a mod 8 = 0" "?a + 128 \<le> o_size s" using R by (auto simp: redo_ready_def)
  have aw: "away ?a (64 + ?B) es" and ok: "\<forall>e \<in> set es. vop_ok (o_size s) e" using C by (auto simp: collected_def)
  have "olive s' x = ?m1 x" if "?a \<le> x" "x < ?a + (64 + ?B)" for x
    unfolding lv by (rule effects_outside) (use aw that in \<open>fastforce simp: away_def\<close>)
  then have "get_at (olive s') ?a (64 + padded ?n ?B) = get_at ?m1 ?a (64 + padded ?n ?B)" using st(2) by (intro get_at_cong) auto
  also have "\<dots> = stored_bytes ctx" using st(1) by simp
  finally have "take (64 + padded ?n ?B) (ulog_view (Pool ?a) s') = stored_bytes ctx" using B(1) sz st(2) by (simp add: take_view)
  then have "take (significant ?n ?B) (ulog_view (Pool ?a) s') = take (significant ?n ?B) (stored_bytes ctx)"
    by (rule take_shorter) (simp add: significant_def)
  then have h: "log_holds (ulog_view (Pool ?a) s') (padded ?n ?B) es"
    using st(3) [OF _ refl, of "ulog_view (Pool ?a) s'"] st(2) B(1) sz by simp
  have "es \<noteq> []" using C by (simp add: collected_def shadow_holds_def)
  moreover have "away ?a (64 + padded ?n ?B) es" using aw st(2) by (fastforce simp: away_def)
  moreover have "effects es (olive s') x = olive s' x" for x unfolding lv by (simp only: effects_again)
  ultimately obtain s'' where s'': "ulog_recover ?a (rebooted (o_size s) (crash_image keep (pm_store True ?a clobbered (o_mem s')))) = (Inr (), s'')"
    "\<forall>x. x < ?a \<or> ?a + 64 + padded ?n ?B \<le> x \<longrightarrow> olive s'' x = olive s' x"
    using clobber_image [OF h cl B(2), of keep] B(3) ok unfolding sz by blast
  have "olive s'' x = effects es (olive s) x" if "x < ?a \<or> ?a + 64 + ?B \<le> x" for x
  proof -
    have "olive s'' x = olive s' x" using s''(2) that st(2) by auto
    also have "\<dots> = effects es (olive s) x" unfolding lv using that st(1,2) by (intro effects_cong_byte) (auto simp: put_at_def)
    finally show ?thesis .
  qed
  then show ?thesis unfolding recovers_to_def using s''(1) by blast
qed

text \<open>
  A whole redo operation: what \<^verbatim>\<open>operation_process\<close> does, and that recovery from a power failure at any moment of it finds
  all of the modifications or none.
\<close>

section \<open>Processing several modifications\<close>

text \<open>What the run must satisfy: its effect, the state it leaves, and every moment on the way.\<close>

definition atomically :: "operation_context \<Rightarrow> vop list \<Rightarrow> pool_mem \<Rightarrow> pool_mem \<Rightarrow> bool" where
  "atomically ctx es s s' \<longleftrightarrow> o_size s' = o_size s \<and> pm_clean (o_mem s') \<and> ulog_idle (ulog_view (Pool (oc_ulog ctx)) s') \<and>
     (\<forall>x. x < oc_ulog ctx \<or> oc_ulog ctx + 64 + oc_base_nbytes ctx \<le> x \<longrightarrow> olive s' x = effects es (olive s) x) \<and>
     (\<exists>H. o_hist s' = o_hist s @ H \<and>
       (\<forall>m \<in> set H. \<forall>keep. recovers_to ctx (o_size s) (olive s) (effects es (olive s)) (crash_image keep m)))"

definition redo_stored :: "operation_context \<Rightarrow> pool_mem \<Rightarrow> pool_mem" where
  "redo_stored ctx s = ostep pm_drain (ostep (pm_store True (oc_ulog ctx) (stored_bytes ctx)) s)"

definition redo_applied :: "operation_context \<Rightarrow> vop list \<Rightarrow> pool_mem \<Rightarrow> pool_mem" where
  "redo_applied ctx es s = ostep pm_drain (fold apply_op es (redo_stored ctx s))"

definition redo_cleared :: "operation_context \<Rightarrow> vop list \<Rightarrow> pool_mem \<Rightarrow> pool_mem" where
  "redo_cleared ctx es s = ostep pm_drain (ostep (pm_store True (oc_ulog ctx) clobbered) (redo_applied ctx es s))"

lemma flushed_step: "pm_clean (o_mem s) \<Longrightarrow> pm_clean (o_mem (ostep pm_drain (ostep (pm_store True off bs) s)))"
  by (simp add: o_mem_ostep flushed_drain flushed_store clean_flushed)

lemma redo_stored_ok:
  assumes "redo_ready ctx s"
  shows "pm_clean (o_mem (redo_stored ctx s))" "olive (redo_stored ctx s) = put_at (oc_ulog ctx) (stored_bytes ctx) (olive s)"
    "o_size (redo_stored ctx s) = o_size s"
proof -
  show "pm_clean (o_mem (redo_stored ctx s))" unfolding redo_stored_def by (rule flushed_step) (use assms in \<open>simp add: redo_ready_def\<close>)
  show "olive (redo_stored ctx s) = put_at (oc_ulog ctx) (stored_bytes ctx) (olive s)"
    by (simp add: redo_stored_def olive_def o_mem_ostep)
qed (simp add: redo_stored_def)

lemma redo_applied_ok:
  assumes "redo_ready ctx s"
  shows "pm_clean (o_mem (redo_applied ctx es s))" "o_size (redo_applied ctx es s) = o_size s"
    "olive (redo_applied ctx es s) = effects es (put_at (oc_ulog ctx) (stored_bytes ctx) (olive s))"
proof -
  note a = redo_stored_ok [OF assms]
  have "flushed (o_mem (fold apply_op es (redo_stored ctx s)))" by (rule apply_ops_live(3)) (rule clean_flushed [OF a(1)])
  then show "pm_clean (o_mem (redo_applied ctx es s))" by (simp add: redo_applied_def o_mem_ostep flushed_drain)
  show "o_size (redo_applied ctx es s) = o_size s" by (simp add: redo_applied_def apply_ops_live a)
  have "olive (redo_applied ctx es s) = olive (fold apply_op es (redo_stored ctx s))" by (simp add: redo_applied_def olive_def o_mem_ostep)
  then show "olive (redo_applied ctx es s) = effects es (put_at (oc_ulog ctx) (stored_bytes ctx) (olive s))"
    by (simp add: apply_ops_live a)
qed

lemma redo_cleared_ok:
  assumes "redo_ready ctx s"
  shows "pm_clean (o_mem (redo_cleared ctx es s))" "o_size (redo_cleared ctx es s) = o_size s"
    "olive (redo_cleared ctx es s) = put_at (oc_ulog ctx) clobbered (effects es (put_at (oc_ulog ctx) (stored_bytes ctx) (olive s)))"
proof -
  note a = redo_applied_ok [OF assms, of es]
  show "pm_clean (o_mem (redo_cleared ctx es s))" unfolding redo_cleared_def by (rule flushed_step) (rule a(1))
  show "o_size (redo_cleared ctx es s) = o_size s" by (simp add: redo_cleared_def a)
  have "olive (redo_cleared ctx es s) = put_at (oc_ulog ctx) clobbered (olive (redo_applied ctx es s))"
    by (simp add: redo_cleared_def olive_def o_mem_ostep)
  then show "olive (redo_cleared ctx es s) = put_at (oc_ulog ctx) clobbered (effects es (put_at (oc_ulog ctx) (stored_bytes ctx) (olive s)))"
    by (simp add: a)
qed

text \<open>Every moment, phase by phase.\<close>

lemma redo_history:
  assumes R: "redo_ready ctx s" and C: "collected ctx s es" and D: "commit_detectable ctx s"
  shows "\<exists>H. o_hist (redo_cleared ctx es s) = o_hist s @ H \<and>
    (\<forall>m \<in> set H. \<forall>keep. recovers_to ctx (o_size s) (olive s) (effects es (olive s)) (crash_image keep m))"
proof -
  let ?a = "oc_ulog ctx" and ?good = "\<lambda>m. \<forall>keep. recovers_to ctx (o_size s) (olive s) (effects es (olive s)) (crash_image keep m)"
  let ?m1 = "put_at ?a (stored_bytes ctx) (olive s)" and ?s1 = "redo_stored ctx s" and ?s2 = "redo_applied ctx es s"
  let ?S = "between es ?m1"
  have "values_in (\<lambda>x. {pm_live (o_mem ?s1) x}) (o_mem ?s1)" by (rule clean_values_in) (rule redo_stored_ok [OF R])
  moreover have "{pm_live (o_mem ?s1) x} \<subseteq> ?S x" for x
    using redo_stored_ok(2) [OF R] by (simp add: between_def olive_def [symmetric])
  ultimately have w1: "values_in ?S (o_mem ?s1)" by (rule values_in_mono)
  obtain H where H: "o_hist (fold apply_op es ?s1) = o_hist ?s1 @ H" "\<forall>m \<in> set H. values_in ?S m"
    "values_in ?S (o_mem (fold apply_op es ?s1))" using apply_ops_hist [OF w1 subset_refl] by blast
  have g1: "?good (pm_store True ?a (stored_bytes ctx) (o_mem s))" using phase_store [OF R C D] by blast
  have g2: "\<forall>m \<in> set ([o_mem ?s1] @ H @ [o_mem ?s2]). ?good m"
    using w1 H(2) values_in_drain [OF H(3)] phase_apply [OF R C] by (simp add: redo_applied_def o_mem_ostep) 
  have g3: "?good (pm_store True ?a clobbered (o_mem ?s2))"
    using phase_clobber [OF R C redo_applied_ok(1,2,3) [OF R]] by blast
  let ?s3 = "redo_cleared ctx es s"
  have g4: "?good (o_mem ?s3)"
  proof (rule allI)
    fix keep
    let ?im = "crash_image keep (o_mem ?s3)"
    have im: "?im = put_at ?a clobbered (effects es ?m1)"
      using clean_image [OF redo_cleared_ok(1) [OF R], of keep es] redo_cleared_ok(3) [OF R, of es] by (simp add: olive_def)
    have B: "?a + 128 \<le> o_size s" "64 \<le> oc_base_nbytes ctx" using R by (auto simp: redo_ready_def)
    have "ulog_idle (ulog_view (Pool ?a) (rebooted (o_size s) ?im))"
      by (rule idle_clobbered [where m = "effects es ?m1"]) (use im B in simp_all)
    moreover have "?im x = effects es (olive s) x" if "x < ?a \<or> ?a + 64 + oc_base_nbytes ctx \<le> x" for x
      using that stored_ok(1,2) [OF R C] unfolding im
      by (subst effects_cong_byte [of ?m1 _ "olive s", symmetric]) (auto simp: put_at_def)
    ultimately show "recovers_to ctx (o_size s) (olive s) (effects es (olive s)) ?im"
      by (intro recovers_idle idle_no_recovery) auto
  qed
  have "o_hist ?s3 = o_hist s @ (pm_store True ?a (stored_bytes ctx) (o_mem s) # ([o_mem ?s1] @ H @ [o_mem ?s2]) @
      [pm_store True ?a clobbered (o_mem ?s2), o_mem ?s3])"
    using H(1) by (simp add: redo_cleared_def redo_applied_def redo_stored_def o_mem_ostep)
  then show ?thesis using g1 g2 g3 g4 by (intro exI conjI) (assumption | auto)+
qed

lemma redo_atomically:
  assumes R: "redo_ready ctx s" and C: "collected ctx s es" and D: "commit_detectable ctx s"
  shows "atomically ctx es s (redo_cleared ctx es s)"
proof -
  let ?a = "oc_ulog ctx" and ?s3 = "redo_cleared ctx es s"
  note c = redo_cleared_ok [OF R, of es]
  have B: "?a + 128 \<le> o_size s" using R by (auto simp: redo_ready_def)
  have "ulog_idle (ulog_view (Pool ?a) ?s3)" by (rule idle_clobbered [OF c(3)]) (simp add: c B)
  moreover have "olive ?s3 x = effects es (olive s) x" if "x < ?a \<or> ?a + 64 + oc_base_nbytes ctx \<le> x" for x
  proof -
    have o: "put_at ?a (stored_bytes ctx) (olive s) x = olive s x" using that stored_ok(1,2) [OF R C] by (auto simp: put_at_def)
    have "64 \<le> oc_base_nbytes ctx" using R by (simp add: redo_ready_def)
    then have "olive ?s3 x = effects es (put_at ?a (stored_bytes ctx) (olive s)) x" unfolding c(3) using that by (auto simp: put_at_def)
    also have "\<dots> = effects es (olive s) x" by (rule effects_cong_byte [where m' = "olive s"]) (rule o)
    finally show ?thesis .
  qed
  ultimately show ?thesis unfolding atomically_def using c(1,2) redo_history [OF R C D] by blast
qed

lemma redo_run:
  assumes R: "redo_ready ctx s" and C: "collected ctx s es"
  shows "\<exists>src. operation_process_persistent_redo ctx s =
    (Inr (ctx\<lparr>pshadow_ops := (pshadow_ops ctx)\<lparr>ol_ulog := src\<rparr>\<rparr>), redo_cleared ctx es s) \<and> length src = length (ol_ulog (pshadow_ops ctx)) \<and>
    rd64 src U_CAPACITY = rd64 (ol_ulog (pshadow_ops ctx)) U_CAPACITY"
proof -
  let ?a = "oc_ulog ctx" and ?B = "oc_base_nbytes ctx" and ?b = "ol_ulog (pshadow_ops ctx)" and ?n = "16 * length es"
  have r: "?B mod 64 = 0" "?B < 2 ^ 62" "?a + 64 + ?B \<le> o_size s" "oc_capacity ctx = ?B" "oc_next ctx = []"
    using R by (auto simp: redo_ready_def ULOG_BASE_SIZE_def)
  have c: "shadow_holds ?b es" "?n \<le> ?B" "ol_offset (pshadow_ops ctx) = ?n" "\<forall>e \<in> set es. vop_ok (o_size s) e"
    "ol_capacity (pshadow_ops ctx) mod 64 = 0" using C by (auto simp: collected_def)
  obtain src k where st: "ulog_store ?a ?b ?n ?B ?B [] s = (Inr src, redo_stored ctx s)"
    "log_holds src k es" "length src = length ?b" "rd64 src U_CAPACITY = rd64 ?b U_CAPACITY"
    using ulog_store_ok [OF c(1) refl c(2) r(1,2,3)] unfolding redo_stored_def stored_bytes_def c(3) by blast
  have "ulog_process Persistent (Dram src) (redo_stored ctx s) = (Inr (), redo_applied ctx es s)"
    unfolding redo_applied_def
    by (rule process_ok) (use st(2) c(4) redo_stored_ok(3) [OF R] in \<open>simp_all add: ulog_view_def\<close>)
  moreover have "ulog_clobber ?a (Some []) (redo_applied ctx es s) = (Inr (), redo_cleared ctx es s)"
    unfolding redo_cleared_def by (rule clobber_ok(1)) (use r(3) redo_applied_ok(2) [OF R] in simp)
  ultimately have "operation_process_persistent_redo ctx s = (Inr (ctx\<lparr>pshadow_ops := (pshadow_ops ctx)\<lparr>ol_ulog := src\<rparr>\<rparr>), redo_cleared ctx es s)"
    using st(1) c(3,5) r(4,5) by (simp add: operation_process_persistent_redo_def Let_def act_simps abind_def CACHELINE_SIZE_def)
  then show ?thesis using st(3,4) by blast
qed

unbundle bit_operations_syntax

section \<open>A single modification\<close>

text \<open>One aligned word is applied and made durable without the log.\<close>

lemma persist_store_clean: "pm_clean m \<Longrightarrow> pm_clean (pm_persist off (length bs) (pm_store True off bs m))"
  by (auto simp: pm_clean_def pm_persist_def pm_store_def store_map_def put_at_def fun_eq_iff)

lemma live_persist [simp]: "pm_live (pm_persist off n m) = pm_live m"
  by (simp add: pm_persist_def)

lemma idle_untouched:
  assumes "ulog_idle (ulog_view (Pool a) s)" "o_size s' = o_size s" "a + 128 \<le> o_size s"
    and "\<And>x. a \<le> x \<Longrightarrow> x < a + 128 \<Longrightarrow> olive s' x = olive s x"
  shows "ulog_idle (ulog_view (Pool a) s')"
proof -
  have "rd64 (ulog_view (Pool a) s') i = rd64 (ulog_view (Pool a) s) i" if "i \<le> 64" for i
  proof -
    have "get_at (olive s') (a + i) 8 = get_at (olive s) (a + i) 8" using assms(4) that by (intro get_at_cong) simp
    then show ?thesis using rd64_view [of a i s] rd64_view [of a i s'] assms(2,3) that by simp
  qed
  then show ?thesis using assms(1,2) by (simp add: ulog_idle_def rd64n_def U_CAPACITY_def)
qed

definition redo_single :: "vop \<Rightarrow> pool_mem \<Rightarrow> pool_mem" where
  "redo_single e s = ostep (pm_persist (fst (snd e)) 8) (apply_op e s)"

lemma single_atomically:
  assumes R: "redo_ready ctx s" and C: "collected ctx s [e]"
  shows "atomically ctx [e] s (redo_single e s)"
proof -
  obtain t off v where e: "e = (t, off, v)" by (cases e)
  let ?a = "oc_ulog ctx" and ?B = "oc_base_nbytes ctx" and ?s' = "redo_single e s"
  define w where "w = to_le 8 (val_fun t v (of_le (get_at (olive s) off 8)))"
  have lw: "length w = 8" by (simp add: w_def)
  have r: "pm_clean (o_mem s)" "ulog_idle (ulog_view (Pool ?a) s)" "?a + 128 \<le> o_size s" "64 \<le> ?B" using R by (auto simp: redo_ready_def)
  have c: "off mod 8 = 0" "away ?a (64 + ?B) [e]" using C by (auto simp: collected_def e)
  let ?m1 = "pm_store True off w (o_mem s)" and ?m2 = "pm_persist off 8 (pm_store True off w (o_mem s))"
  have run: "o_mem ?s' = ?m2" "o_hist ?s' = o_hist s @ [?m1, ?m2]" "o_size ?s' = o_size s"
    by (simp_all add: redo_single_def e o_mem_ostep w_def)
  have new: "put_at off w (olive s) = effects [e] (olive s)" by (simp add: e effect.simps w_def)
  have cl: "pm_clean ?m2" using persist_store_clean [OF r(1), of off w] by (simp add: lw)
  have lv: "olive ?s' = effects [e] (olive s)" using new by (simp add: olive_def run(1))
  have out: "effects [e] (olive s) x = olive s x" if "?a \<le> x" "x < ?a + (64 + ?B)" for x
    by (rule effects_outside) (use c(2) that in \<open>fastforce simp: away_def\<close>)
  have idle: "ulog_idle (ulog_view (Pool ?a) (rebooted (o_size s) im))" if "im = olive s \<or> im = effects [e] (olive s)" for im
    by (rule idle_untouched [OF r(2)]) (use that out r(3,4) in auto)
  have good: "recovers_to ctx (o_size s) (olive s) (effects [e] (olive s)) im" if "im = olive s \<or> im = effects [e] (olive s)" for im
    by (rule recovers_idle [OF idle_no_recovery [OF idle [OF that]]]) (use that in auto)
  have i1: "crash_image keep ?m1 = olive s \<or> crash_image keep ?m1 = effects [e] (olive s)" for keep
  proof -
    have p: "pm_pending ?m1 = pm_pending (o_mem s) @ [(True, store_map off w)]" "pm_durable ?m1 = olive s"
      "\<forall>(f, s) \<in> set (pm_pending (o_mem s)). s = (\<lambda>_. None)"
      using r(1) by (auto simp: pm_store_def pm_clean_def olive_def)
    show ?thesis using image_last_store [OF p(3) p(1), of keep] c(1) lw p(2) new by simp
  qed
  have i2: "crash_image keep ?m2 = effects [e] (olive s)" for keep
    using clean_image [OF cl, of keep] new by (simp add: olive_def)
  have i: "ulog_idle (ulog_view (Pool ?a) ?s')"
    by (rule idle_untouched [OF r(2)]) (use lv run(3) out r(3,4) in auto)
  have h: "\<forall>m \<in> set [?m1, ?m2]. \<forall>keep. recovers_to ctx (o_size s) (olive s) (effects [e] (olive s)) (crash_image keep m)"
    using i1 i2 good by simp
  show ?thesis unfolding atomically_def
    by (intro conjI exI [of _ "[?m1, ?m2]"] run(2,3) i h) (simp_all add: run(1) cl lv)
qed

lemma single_run:
  assumes "rd64 b 0 = Inr (of_nat off OR t)" "rd64 b 8 = Inr v" "vop_ok (o_size s) (t, off, v)"
  shows "ulog_entry_apply True Persistent b s = (Inr (), redo_single (t, off, v) s)"
proof -
  have ok: "is_val t" "off + 8 \<le> o_size s" "off < 2 ^ 61" using assms(3) by (auto simp: vop_ok_def)
  show ?thesis using ok assms(1,2)
    by (simp add: ulog_entry_apply_def entry_decode [OF ok(3,1)] tread_def twrite_def ostore_def opersist_def act_simps val_fun_def
        Let_def redo_single_def)
qed

section \<open>Processing an operation\<close>

definition processed :: "operation_context \<Rightarrow> operation_context \<Rightarrow> bool" where
  "processed ctx ctx' \<longleftrightarrow> (\<exists>src st. ctx' = ctx\<lparr>pshadow_ops := (pshadow_ops ctx)\<lparr>ol_ulog := src\<rparr>, oc_state := st\<rparr> \<and>
     length src = length (ol_ulog (pshadow_ops ctx)) \<and> rd64 src U_CAPACITY = rd64 (ol_ulog (pshadow_ops ctx)) U_CAPACITY \<and>
     st \<in> {oc_state ctx, OPERATION_CLEANUP})"

lemma process_atomically:
  assumes R: "redo_ready ctx s" and C: "collected ctx s es" and D: "1 < length es \<longrightarrow> commit_detectable ctx s"
  shows "\<exists>ctx' s'. operation_process ctx s = (Inr ctx', s') \<and> processed ctx ctx' \<and> atomically ctx es s s' \<and>
    (oc_state ctx' \<noteq> oc_state ctx \<longrightarrow> rd64 (ulog_view (Pool (oc_ulog ctx)) s') U_NEXT = Inr 0)"
proof -
  let ?p = "pshadow_ops ctx"
  have r: "oc_type ctx = LOG_TYPE_REDO" "ol_offset (transient_ops ctx) = 0" using R by (auto simp: redo_ready_def)
  have c: "shadow_holds (ol_ulog ?p) es" "ol_offset ?p = 16 * length es" "\<forall>e \<in> set es. vop_ok (o_size s) e" using C by (auto simp: collected_def)
  have ne: "es \<noteq> []" using c(1) by (simp add: shadow_holds_def)
  show ?thesis
  proof (cases "length es = 1")
    case True
    then obtain e where es: "es = [e]" by (cases es) auto
    obtain t off v where e: "e = (t, off, v)" by (cases e)
    let ?e = "drop 64 (ol_ulog ?p)"
    have l: "128 \<le> length (ol_ulog ?p)" "get_bytes 64 16 (ol_ulog ?p) = entry_bytes e"
      using c(1) by (auto simp: shadow_holds_def es)
    have "get_bytes 64 8 (ol_ulog ?p) = take 8 (get_bytes 64 16 (ol_ulog ?p))" "get_bytes 72 8 (ol_ulog ?p) = drop 8 (get_bytes 64 16 (ol_ulog ?p))"
      by (simp_all add: get_bytes_def drop_take)
    then have rd: "rd64 ?e 0 = Inr (of_nat off OR t)" "rd64 ?e 8 = Inr v"
      using l by (simp_all add: e rd64_drop rd64_get of_le_to_le)
    have v: "vop_ok (o_size s) (t, off, v)" using c(3) by (simp add: es e)
    then have "is_val (ulog_entry_type (of_nat off OR t))" by (auto simp: vop_ok_def entry_decode)
    then have "operation_process ctx s = (Inr ctx, redo_single e s)"
      using r c(2) rd single_run [OF rd v] by (simp add: operation_process_def es e Let_def act_simps abind_def)
    moreover have "processed ctx ctx" unfolding processed_def by (rule exI [of _ "ol_ulog ?p"], rule exI [of _ "oc_state ctx"]) simp
    ultimately show ?thesis using single_atomically [OF R C [unfolded es]] es by blast
  next
    case False
    then have n: "1 < length es" using ne by (cases es) auto
    obtain src where src: "operation_process_persistent_redo ctx s = (Inr (ctx\<lparr>pshadow_ops := ?p\<lparr>ol_ulog := src\<rparr>\<rparr>), redo_cleared ctx es s)"
      "length src = length (ol_ulog ?p)" "rd64 src U_CAPACITY = rd64 (ol_ulog ?p) U_CAPACITY" using redo_run [OF R C] by blast
    let ?ctx = "ctx\<lparr>pshadow_ops := ?p\<lparr>ol_ulog := src\<rparr>, oc_state := OPERATION_CLEANUP\<rparr>"
    have "operation_process ctx s = (Inr ?ctx, redo_cleared ctx es s)"
      using r c(2) n src(1) ne by (simp add: operation_process_def Let_def act_simps abind_def)
    moreover have "processed ctx ?ctx" unfolding processed_def using src(2,3) by blast
    moreover have "rd64 (ulog_view (Pool (oc_ulog ctx)) (redo_cleared ctx es s)) U_NEXT = Inr 0"
    proof -
      have "oc_ulog ctx + 8 + 8 \<le> o_size (redo_cleared ctx es s)" using R redo_cleared_ok(2) [OF R, of es] by (auto simp: redo_ready_def)
      then show ?thesis
        using rd64_view [of "oc_ulog ctx" 8 "redo_cleared ctx es s"] redo_cleared_ok(3) [OF R, of es] clobbered_words(1) word_zero_bytes
        by (simp add: U_NEXT_def)
    qed
    ultimately show ?thesis using redo_atomically [OF R C] D n by blast
  qed
qed

section \<open>Interrupted recovery\<close>

text \<open>
  Recovery interrupted by a power failure, at any moment, and run again.
\<close>

text \<open>The need for recovery is read from the log alone.\<close>

lemma needed_same:
  assumes h: "log_holds b cap es" and h': "log_holds b' cap es" and ok: "\<forall>e \<in> set es. vop_ok n e" and ne: "es \<noteq> []"
    and t: "take (64 + 16 * length es) b' = take (64 + 16 * length es) b"
  shows "ulog_recovery_needed b' True = ulog_recovery_needed b True"
proof -
  have c: "rd64n c U_CAPACITY = Inr cap" "min (16 * length es) cap = 16 * length es" "\<not> length c < 64 + 16 * length es" if "log_holds c cap es" for c
    using that by (auto simp: log_holds_def rd64n_def unat_of_nat_id)
  show ?thesis using base_nbytes_holds [OF h ok] base_nbytes_holds [OF h' ok] c [OF h] c [OF h'] t ne
    by (simp add: ulog_recovery_needed_def ulog_checksum_check_def SIZEOF_ULOG_def Let_def)
qed

lemma take_view_same:
  assumes "\<And>x. a \<le> x \<Longrightarrow> x < a + n \<Longrightarrow> olive s' x = olive s x" "a + n \<le> o_size s" "o_size s' = o_size s"
  shows "take n (ulog_view (Pool a) s') = take n (ulog_view (Pool a) s)"
  using assms by (simp add: take_view cong: get_at_cong)

lemma recover_again:
  assumes h: "log_holds (ulog_view (Pool a) s) cap es" and cl: "pm_clean (o_mem s)" and a: "a mod 8 = 0" "64 \<le> cap" and ne: "es \<noteq> []"
    and ok: "\<forall>e \<in> set es. vop_ok (o_size s) e" and aw: "away a (64 + cap) es"
    and need: "ulog_recovery_needed (ulog_view (Pool a) s) True = Inr True"
  shows "\<exists>H. o_hist (recovered a es s) = o_hist s @ H \<and> (\<forall>m \<in> set H. \<forall>keep. \<exists>s'.
    ulog_recover a (rebooted (o_size s) (crash_image keep m)) = (Inr (), s') \<and>
    (\<forall>x. x < a \<or> a + 64 + cap \<le> x \<longrightarrow> olive s' x = effects es (olive s) x))"
proof -
  let ?S = "between es (olive s)" and ?s1 = "ostep pm_drain (fold apply_op es s)" and ?s2 = "recovered a es s"
  let ?good = "\<lambda>m. \<forall>keep. \<exists>s'. ulog_recover a (rebooted (o_size s) (crash_image keep m)) = (Inr (), s') \<and>
    (\<forall>x. x < a \<or> a + 64 + cap \<le> x \<longrightarrow> olive s' x = effects es (olive s) x)"
  have sz: "a + (64 + cap) \<le> o_size s"
  proof -
    have "64 + cap \<le> o_size s - a" using h unfolding log_holds_def length_view by blast
    then show ?thesis by simp
  qed
  have c16: "16 * length es \<le> cap" using h by (simp add: log_holds_def)
  have replay: "?good m" if w: "values_in ?S m" for m
  proof
    fix keep
    let ?r = "rebooted (o_size s) (crash_image keep m)"
    have "crash_image keep m x = olive s x" if "a \<le> x" "x < a + (64 + cap)" for x
      by (rule torn_values_replay(2) [OF w]) (use aw that in \<open>fastforce simp: away_def\<close>)
    then have same: "olive ?r x = olive s x" if "a \<le> x" "x < a + (64 + cap)" for x using that by simp
    have h': "log_holds (ulog_view (Pool a) ?r) cap es" by (rule view_same [OF h]) (use same in auto)
    have "take (64 + 16 * length es) (ulog_view (Pool a) ?r) = take (64 + 16 * length es) (ulog_view (Pool a) s)"
      by (rule take_view_same) (use same sz c16 in auto)
    then have "ulog_recovery_needed (ulog_view (Pool a) ?r) True = Inr True" using needed_same [OF h h' ok ne] need by simp
    then obtain s' where s': "ulog_recover a ?r = (Inr (), s')" "olive s' = put_at a clobbered (effects es (olive ?r))"
      using recover_complete [OF h' _ aw] ok by auto
    have "effects es (olive ?r) = effects es (olive s)" using torn_values_replay(1) [OF w, of keep] by simp
    then have "olive s' x = effects es (olive s) x" if "x < a \<or> a + 64 + cap \<le> x" for x
      using s'(2) that by (auto simp: put_at_def)
    then show "\<exists>s'. ulog_recover a ?r = (Inr (), s') \<and> (\<forall>x. x < a \<or> a + 64 + cap \<le> x \<longrightarrow> olive s' x = effects es (olive s) x)"
      using s'(1) by blast
  qed
  have "values_in (\<lambda>x. {pm_live (o_mem s) x}) (o_mem s)" by (rule clean_values_in [OF cl])
  then have w0: "values_in ?S (o_mem s)" by (rule values_in_mono) (simp add: between_def olive_def)
  obtain H where H: "o_hist (fold apply_op es s) = o_hist s @ H" "\<forall>m \<in> set H. values_in ?S m" "values_in ?S (o_mem (fold apply_op es s))"
    using apply_ops_hist [OF w0 subset_refl] by blast
  have w1: "values_in ?S (o_mem ?s1)" using values_in_drain [OF H(3)] by (simp add: o_mem_ostep)
  have l1: "olive ?s1 = effects es (olive s)" "o_size ?s1 = o_size s" unfolding olive_ostep live_drain olive_def [symmetric] apply_ops_live by (rule refl)+
  have c1: "pm_clean (o_mem ?s1)" using apply_ops_live(3) [OF clean_flushed [OF cl]] by (simp add: o_mem_ostep flushed_drain)
  have h1: "log_holds (ulog_view (Pool a) ?s1) cap es" by (rule recover_runs(3) [OF h ok aw need])
  have g2: "?good (pm_store True a clobbered (o_mem ?s1))"
    using clobber_image [OF h1 c1 a(1) _ ne _ aw] sz a(2) ok effects_again [of es "olive s"] unfolding l1 by simp
  have c2: "pm_clean (o_mem ?s2)" unfolding recovered_def using flushed_store [OF clean_flushed [OF c1]] by (simp add: o_mem_ostep flushed_drain)
  have g3: "?good (o_mem ?s2)"
  proof
    fix keep
    let ?r = "rebooted (o_size s) (crash_image keep (o_mem ?s2))"
    have "crash_image keep (o_mem ?s2) = olive ?s2" using clean_image [OF c2] by (simp add: olive_def)
    then have im: "olive ?r = put_at a clobbered (effects es (olive s))"
      unfolding rebooted_simps by (simp only: recover_runs(2) [OF h ok aw need])
    have "ulog_idle (ulog_view (Pool a) ?r)" by (rule idle_clobbered [OF im]) (use sz a(2) in simp)
    then have "ulog_recover a ?r = (Inr (), ?r)" by (intro recover_nothing idle_no_recovery)
    moreover have "olive ?r x = effects es (olive s) x" if "x < a \<or> a + 64 + cap \<le> x" for x unfolding im using that by (auto simp: put_at_def)
    ultimately show "\<exists>s'. ulog_recover a ?r = (Inr (), s') \<and> (\<forall>x. x < a \<or> a + 64 + cap \<le> x \<longrightarrow> olive s' x = effects es (olive s) x)"
      by blast
  qed
  have "o_hist ?s2 = o_hist s @ (H @ [o_mem ?s1, pm_store True a clobbered (o_mem ?s1), o_mem ?s2])"
    using H(1) by (simp add: recovered_def o_mem_ostep)
  moreover have "\<forall>m \<in> set (H @ [o_mem ?s1, pm_store True a clobbered (o_mem ?s1), o_mem ?s2]). ?good m"
    unfolding set_append list.set ball_Un using H(2) replay w1 g2 g3 by (intro conjI ballI) (auto simp del: split_paired_All)
  ultimately show ?thesis by blast
qed

end
