(* ===== verification/MemOpsCollect.thy ===== *)
theory MemOpsCollect
  imports MemOpsProcess
begin

text \<open>
  Collecting modifications: the shadow log, its growth, and the merging of modifications of one place; adding
  modifications one after the other.
\<close>

unbundle bit_operations_syntax

section \<open>The shadow log\<close>

text \<open>The bytes of a shadow log with entries \<open>es\<close>, of which the last \<open>k\<close> are candidates for merging.\<close>

definition shadow_log :: "operation_log \<Rightarrow> nat \<Rightarrow> vop list \<Rightarrow> bool" where
  "shadow_log l base es \<longleftrightarrow> ol_offset l = 16 * length es \<and> ol_capacity l mod 64 = 0 \<and> length (ol_ulog l) = 64 + ol_capacity l \<and>
     16 * length es + 64 \<le> ol_capacity l \<and> get_bytes 64 (16 * length es) (ol_ulog l) = concat (map entry_bytes es) \<and>
     (es \<noteq> [] \<longrightarrow> rd64 (ol_ulog l) (64 + 16 * length es) = Inr 0) \<and> (ol_capacity l \<le> 2 ^ 40 \<or> ol_capacity l \<le> 16 * length es + 1088) \<and>
     (\<exists>c. rd64 (ol_ulog l) U_CAPACITY = Inr (of_nat c) \<and> c \<le> ol_capacity l \<and> c mod 16 = 0 \<and> base \<le> c)"

definition candidates :: "vecq \<Rightarrow> nat \<Rightarrow> nat \<Rightarrow> bool" where
  "candidates q n k \<longleftrightarrow> k \<le> n \<and> k \<le> 64 \<and> vq_front q = 0 \<and> vq_back q = k \<and> (vq_buffer q = [] \<and> k = 0 \<or> length (vq_buffer q) = 64) \<and>
     (\<forall>i < k. vq_buffer q ! i = 16 * (n - k + i))"

lemma candidates_clear: "length (vq_buffer q) \<in> {0, 64} \<Longrightarrow> candidates (VECQ_CLEAR q) n 0"
  by (auto simp: candidates_def VECQ_CLEAR_def)

lemma and63: "x < 64 \<Longrightarrow> x AND 63 = (x :: nat)"
proof -
  assume "x < 64"
  then have "x AND mask 6 = x" by (simp add: take_bit_eq_mask [symmetric] take_bit_nat_eq_self)
  then show ?thesis by (simp add: mask_eq_exp_minus_1)
qed

lemma candidates_reverse:
  assumes "candidates q n k"
  shows "vq_reverse q = map (\<lambda>j. 16 * j) (rev [n - k..<n])"
proof -
  have c: "k \<le> n" "k \<le> 64" "VECQ_SIZE q = k" "0 < k \<Longrightarrow> vq_capacity q = 64" "\<And>i. i < k \<Longrightarrow> vq_buffer q ! i = 16 * (n - k + i)"
    using assms by (auto simp: candidates_def VECQ_SIZE_def vq_capacity_def)
  have "vq_buffer q ! vq_pos q i = 16 * (n - k + i)" if "i < k" for i
    using c that and63 [of i] by (simp add: vq_pos_def)
  then have "map (\<lambda>i. vq_buffer q ! vq_pos q (i - 1)) [1..<k + 1] = map (\<lambda>j. 16 * j) [n - k..<n]"
    using c(1) by (intro nth_equalityI) (simp_all del: upt_Suc)
  then show ?thesis unfolding vq_reverse_def c(3) by (simp only: rev_map [symmetric])
qed

lemma candidates_add:
  assumes "candidates q n k" "k < 64"
  shows "\<exists>q' k'. (case VECQ_ENQUEUE ok (if VECQ_SIZE q = OP_MERGE_SEARCH then VECQ_DEQUEUE q else q) (16 * n) of
      None \<Rightarrow> (if VECQ_SIZE q = OP_MERGE_SEARCH then VECQ_DEQUEUE q else q) | Some q \<Rightarrow> q) = q' \<and> candidates q' (Suc n) k' \<and> k' \<le> Suc k"
proof -
  have c: "k \<le> n" "VECQ_SIZE q = k" "vq_front q = 0" "vq_back q = k" "vq_buffer q = [] \<and> k = 0 \<or> length (vq_buffer q) = 64"
    "\<And>i. i < k \<Longrightarrow> vq_buffer q ! i = 16 * (n - k + i)"
    using assms(1) by (auto simp: candidates_def VECQ_SIZE_def)
  have nd: "(if VECQ_SIZE q = OP_MERGE_SEARCH then VECQ_DEQUEUE q else q) = q" using c(2) assms(2) by (simp add: OP_MERGE_SEARCH_def)
  have ins: "candidates (VECQ_INSERT r (16 * n)) (Suc n) (Suc k)"
    if "vq_front r = 0" "vq_back r = k" "length (vq_buffer r) = 64" "\<And>i. i < k \<Longrightarrow> vq_buffer r ! i = vq_buffer q ! i" for r
    using that c assms(2) and63 [of k] by (auto simp: candidates_def VECQ_INSERT_def vq_pos_def vq_capacity_def nth_list_update less_Suc_eq)
  show ?thesis unfolding nd
  proof (cases "vq_buffer q = []")
    case True
    then have k0: "k = 0" using c(5) by auto
    show "\<exists>q' k'. (case VECQ_ENQUEUE ok q (16 * n) of None \<Rightarrow> q | Some q \<Rightarrow> q) = q' \<and> candidates q' (Suc n) k' \<and> k' \<le> Suc k"
    proof (cases ok)
      case True
      have "candidates (VECQ_INSERT (VECQ_GROW q) (16 * n)) (Suc n) (Suc k)"
        by (rule ins) (use c k0 \<open>vq_buffer q = []\<close> in \<open>simp_all add: VECQ_GROW_def vq_pos_def vq_capacity_def VECQ_INIT_SIZE_def Let_def\<close>)
      then show ?thesis using \<open>vq_buffer q = []\<close> True c(2) k0 by (auto simp: VECQ_ENQUEUE_def vq_capacity_def)
    next
      case False
      have "candidates q (Suc n) 0" using c k0 \<open>vq_buffer q = []\<close> by (simp add: candidates_def)
      then show ?thesis using \<open>vq_buffer q = []\<close> False c(2) k0 by (auto simp: VECQ_ENQUEUE_def vq_capacity_def)
    qed
  next
    case False
    then have "length (vq_buffer q) = 64" using c(5) by simp
    then show "\<exists>q' k'. (case VECQ_ENQUEUE ok q (16 * n) of None \<Rightarrow> q | Some q \<Rightarrow> q) = q' \<and> candidates q' (Suc n) k' \<and> k' \<le> Suc k"
      using ins [of q] c assms(2) by (auto simp: VECQ_ENQUEUE_def vq_capacity_def)
  qed
qed

section \<open>Merging\<close>

text \<open>The newest candidate for the place decides; all newer ones are for other places.\<close>

lemma try_merge_ok:
  assumes b: "get_bytes 64 (16 * length es) b = concat (map entry_bytes es)" "64 + 16 * length es \<le> length b"
    and ok: "\<forall>e \<in> set es. vop_ok n e" and t: "is_val t" and j: "j \<le> length es"
  shows "try_merge (map (\<lambda>j. 16 * j) (rev [i..<j])) b off v t = Inr None \<or>
    (\<exists>p v0. i \<le> p \<and> p < j \<and> es ! p = (t, off, v0) \<and> (\<forall>q. p < q \<and> q < j \<longrightarrow> fst (snd (es ! q)) \<noteq> off) \<and>
      try_merge (map (\<lambda>j. 16 * j) (rev [i..<j])) b off v t = Inr (Some (put_bytes (64 + 16 * p + 8) (to_le 8 (merged t v0 v)) b)))"
  using j
proof (induction j)
  case (Suc j)
  show ?case
  proof (cases "i \<le> j")
    case False
    then show ?thesis by simp
  next
    case True
    obtain u o' w where e: "es ! j = (u, o', w)" by (cases "es ! j")
    have l: "j < length es" using Suc.prems by simp
    then have v: "vop_ok n (u, o', w)" using ok e by (metis nth_mem)
    then have d: "ulog_entry_type (of_nat o' OR u) = u" "ulog_entry_offset (of_nat o' OR u) = o'" by (auto simp: vop_ok_def entry_decode)
    note wd = entry_words [OF b l e]
    have r: "rev [i..<Suc j] = j # rev [i..<j]" using True by simp
    consider "o' = off" "u = t" | "o' = off" "u \<noteq> t" | "o' \<noteq> off" by blast
    then show ?thesis
    proof cases
      case 1
      have "try_merge (map (\<lambda>j. 16 * j) (rev [i..<Suc j])) b off v t = Inr (Some (put_bytes (64 + 16 * j + 8) (to_le 8 (merged t w v)) b))"
        using 1 wd d operation_merge_ok [OF t] by (simp add: r add.assoc del: upt_Suc)
      then show ?thesis using True 1 e by (intro disjI2 exI [of _ j] exI [of _ w]) simp
    next
      case 2
      then show ?thesis using wd d by (intro disjI1) (simp add: r add.assoc del: upt_Suc)
    next
      case 3
      then have "try_merge (map (\<lambda>j. 16 * j) (rev [i..<Suc j])) b off v t = try_merge (map (\<lambda>j. 16 * j) (rev [i..<j])) b off v t"
        using wd d by (simp add: r del: upt_Suc)
      note skip = this
      have "j \<le> length es" using Suc.prems by simp
      from Suc.IH [OF this] show ?thesis unfolding skip
      proof (elim disjE exE conjE)
        fix p v0 assume p: "i \<le> p" "p < j" "es ! p = (t, off, v0)" "\<forall>q. p < q \<and> q < j \<longrightarrow> fst (snd (es ! q)) \<noteq> off"
          "try_merge (map (\<lambda>j. 16 * j) (rev [i..<j])) b off v t = Inr (Some (put_bytes (64 + 16 * p + 8) (to_le 8 (merged t v0 v)) b))"
        have "\<forall>q. p < q \<and> q < Suc j \<longrightarrow> fst (snd (es ! q)) \<noteq> off" using p(4) 3 e by (auto simp: less_Suc_eq)
        then show "try_merge (map (\<lambda>j. 16 * j) (rev [i..<j])) b off v t = Inr None \<or> (\<exists>p v0. i \<le> p \<and> p < Suc j \<and> es ! p = (t, off, v0) \<and>
          (\<forall>q. p < q \<and> q < Suc j \<longrightarrow> fst (snd (es ! q)) \<noteq> off) \<and>
          try_merge (map (\<lambda>j. 16 * j) (rev [i..<j])) b off v t = Inr (Some (put_bytes (64 + 16 * p + 8) (to_le 8 (merged t v0 v)) b)))"
          using p by (intro disjI2 exI [of _ p] exI [of _ v0]) simp
      qed (rule disjI1)
    qed
  qed
qed simp

lemma put_bytes_append: "length xs = p \<Longrightarrow> length new \<le> length ys \<Longrightarrow> put_bytes p new (xs @ ys) = xs @ put_bytes 0 new ys"
  by (simp add: put_bytes_def)

lemma get_put_within:
  assumes "a \<le> off" "off + length new \<le> a + n" "a + n \<le> length b"
  shows "get_bytes a n (put_bytes off new b) = put_bytes (off - a) new (get_bytes a n b)"
proof (rule nth_equalityI)
  have l: "length (get_bytes a n b) = n" using assms(3) by (simp add: get_bytes_def)
  show e: "length (get_bytes a n (put_bytes off new b)) = length (put_bytes (off - a) new (get_bytes a n b))"
    using assms l by (simp add: get_bytes_def length_put_bytes)
  fix i assume "i < length (get_bytes a n (put_bytes off new b))"
  then have i: "i < n" by (simp add: get_bytes_def)
  have "get_bytes a n (put_bytes off new b) ! i = put_bytes off new b ! (a + i)"
    using i assms by (simp add: get_bytes_def length_put_bytes)
  also have "\<dots> = (if off - a \<le> i \<and> i < off - a + length new then new ! (i - (off - a)) else get_bytes a n b ! i)"
    using i assms by (auto simp: nth_put_bytes get_bytes_def add.commute)
  also have "\<dots> = put_bytes (off - a) new (get_bytes a n b) ! i" using i assms l by (subst nth_put_bytes) auto
  finally show "get_bytes a n (put_bytes off new b) ! i = put_bytes (off - a) new (get_bytes a n b) ! i" .
qed

lemma merge_entries_bytes:
  assumes "get_bytes 64 (16 * length es) b = concat (map entry_bytes es)" "64 + 16 * length es \<le> length b" "p < length es" "es ! p = (t, off, v0)"
  shows "get_bytes 64 (16 * length es) (put_bytes (64 + 16 * p + 8) (to_le 8 v) b) = concat (map entry_bytes (es[p := (t, off, v)]))"
proof -
  let ?pre = "take p es" and ?post = "drop (Suc p) es"
  have es: "es = ?pre @ (t, off, v0) # ?post" using id_take_nth_drop [OF assms(3)] assms(4) by simp
  have lp: "length ?pre = p" using assms(3) by simp
  have "get_bytes 64 (16 * length es) (put_bytes (64 + 16 * p + 8) (to_le 8 v) b) = put_bytes (16 * p + 8) (to_le 8 v) (concat (map entry_bytes es))"
    unfolding assms(1) [symmetric] using assms(2,3) by (subst get_put_within) (simp_all add: add.commute)
  also have "concat (map entry_bytes es) = (concat (map entry_bytes ?pre) @ to_le 8 (of_nat off OR t :: 64 word)) @ to_le 8 v0 @ concat (map entry_bytes ?post)"
    by (subst es) simp
  also have "put_bytes (16 * p + 8) (to_le 8 v) \<dots> = (concat (map entry_bytes ?pre) @ to_le 8 (of_nat off OR t :: 64 word)) @ to_le 8 v @ concat (map entry_bytes ?post)"
    using lp by (subst put_bytes_append) (simp_all add: put_bytes_def)
  also have "\<dots> = concat (map entry_bytes (es[p := (t, off, v)]))"
    using assms(3) by (simp add: upd_conv_take_nth_drop)
  finally show ?thesis .
qed

section \<open>Changes of the shadow log\<close>

lemma shadow_grow:
  assumes S: "shadow_log l base es" and full: "ol_offset l + CACHELINE_SIZE = ol_capacity l"
  shows "shadow_log (grow_log mem l) base es" "16 * length es + 64 < ol_capacity (grow_log mem l)"
    "ol_offset (grow_log mem l) = ol_offset l" "ol_capacity (grow_log mem l) = ol_capacity l + 1024"
proof -
  let ?b = "ol_ulog l" and ?n = "16 * length es" and ?cap = "ol_capacity l + 1024"
  let ?b' = "put_bytes U_CAPACITY (to_le 8 (of_nat ?cap :: 64 word)) (?b @ map mem [0..<1024])"
  have s: "ol_offset l = ?n" "ol_capacity l mod 64 = 0" "length ?b = 64 + ol_capacity l" "?n + 64 \<le> ol_capacity l"
    "get_bytes 64 ?n ?b = concat (map entry_bytes es)" "es \<noteq> [] \<Longrightarrow> rd64 ?b (64 + ?n) = Inr 0" "\<exists>c \<le> ol_capacity l. base \<le> c"
    using S by (auto simp: shadow_log_def)
  have g: "grow_log mem l = l\<lparr>ol_capacity := ?cap, ol_ulog := ?b'\<rparr>" by (simp add: grow_log_def ULOG_BASE_SIZE_def)
  have l: "length ?b' = 64 + ?cap" using s(3) by (simp add: length_put_bytes U_CAPACITY_def)
  have gb: "get_bytes 64 ?n ?b' = get_bytes 64 ?n ?b"
    using s(3,4) by (subst get_bytes_put_other) (simp_all add: U_CAPACITY_def get_bytes_def)
  have r: "rd64 ?b' (64 + ?n) = rd64 ?b (64 + ?n)"
    using s(3,4) by (subst rd64_put) (simp_all add: U_CAPACITY_def rd64_def get_bytes_def)
  have c: "rd64 ?b' U_CAPACITY = Inr (of_nat ?cap)" using s(3) by (subst rd64_put_same) (simp_all add: U_CAPACITY_def)
  have m: "?cap mod 64 = 0" "?cap mod 16 = 0"
  proof -
    have "64 dvd ?cap" using s(2) by (simp add: dvd_eq_mod_eq_0 mod_add_eq [symmetric])
    then have "64 dvd ?cap" "16 dvd ?cap" by (auto intro: dvd_trans [of 16 64])
    then show "?cap mod 64 = 0" "?cap mod 16 = 0" by (simp_all only: dvd_eq_mod_eq_0)
  qed
  have f: "ol_capacity l = ?n + 64" using full s(1) by (simp add: CACHELINE_SIZE_def)
  have k: "\<exists>c. rd64 ?b' U_CAPACITY = Inr (of_nat c) \<and> c \<le> ?cap \<and> c mod 16 = 0 \<and> base \<le> c"
    by (rule exI [of _ ?cap]) (use c m s(7) in auto)
  show "shadow_log (grow_log mem l) base es"
    unfolding shadow_log_def g using s(1,4,5,6) l gb r m(1) f k by simp
  show "?n + 64 < ol_capacity (grow_log mem l)" "ol_offset (grow_log mem l) = ol_offset l" "ol_capacity (grow_log mem l) = ol_capacity l + 1024"
    using s(4) by (simp_all add: g)
qed

lemma shadow_append:
  assumes S: "shadow_log l base es" and room: "16 * length es + 64 < ol_capacity l" and v: "vop_ok n (t, off, v)"
  shows "\<exists>l'. add_to_log l off v t = Inr l' \<and> shadow_log l' base (es @ [(t, off, v)]) \<and> ol_capacity l' = ol_capacity l"
proof -
  let ?b = "ol_ulog l" and ?n = "16 * length es" and ?new = "to_le 8 (of_nat off OR t :: 64 word) @ to_le 8 v @ to_le 8 (0 :: 64 word)"
  let ?b' = "put_bytes (64 + ?n) ?new ?b"
  have s: "ol_offset l = ?n" "ol_capacity l mod 64 = 0" "length ?b = 64 + ol_capacity l"
    "get_bytes 64 ?n ?b = concat (map entry_bytes es)" "ol_capacity l \<le> 2 ^ 40 \<or> ol_capacity l \<le> ?n + 1088"
    using S by (auto simp: shadow_log_def)
  have c: "\<exists>c. rd64 ?b U_CAPACITY = Inr (of_nat c) \<and> c \<le> ol_capacity l \<and> c mod 16 = 0 \<and> base \<le> c" using S by (simp add: shadow_log_def)
  have r: "?n + 80 \<le> ol_capacity l"
  proof -
    obtain i where "ol_capacity l = 64 * i" using s(2) by (auto simp: mod_eq_0_iff_dvd)
    then show ?thesis using room by presburger
  qed
  have l: "length ?b' = length ?b" using s(3) r by (simp add: length_put_bytes)
  have nw: "get_bytes (64 + ?n) 24 ?b' = ?new" using s(3) r by (subst get_put_bytes) simp_all
  have sp: "get_bytes x (i + j) b = get_bytes x i b @ get_bytes (x + i) j b" for x i j and b :: "byte list"
    by (simp add: get_bytes_def take_add add.commute)
  have "get_bytes (64 + ?n) 16 ?b' = take 16 (get_bytes (64 + ?n) 24 ?b')" by (simp add: get_bytes_def)
  then have eb: "get_bytes (64 + ?n) 16 ?b' = entry_bytes (t, off, v)" unfolding nw by simp
  have old: "get_bytes 64 ?n ?b' = get_bytes 64 ?n ?b" using s(3) r by (intro get_bytes_put_other) simp_all
  have g: "get_bytes 64 (16 * length (es @ [(t, off, v)])) ?b' = concat (map entry_bytes (es @ [(t, off, v)]))"
    using sp [of 64 ?n 16 ?b'] eb old s(4) by (simp add: add.commute)
  have wd: "rd64 ?b' (64 + 16 * length es) = Inr (of_nat off OR t)"
    by (rule entry_words(1) [OF g, of "length es" t off v]) (use l s(3) r in simp_all)
  have z: "rd64 ?b' (64 + 16 * length (es @ [(t, off, v)])) = Inr 0"
  proof -
    have "get_bytes (64 + ?n + 16) 8 ?b' = drop 16 (get_bytes (64 + ?n) 24 ?b')" by (simp add: get_bytes_def drop_take add.commute)
    then have "get_bytes (64 + ?n + 16) 8 ?b' = to_le 8 (0 :: 64 word)" unfolding nw by simp
    then show ?thesis using l s(3) r by (simp add: rd64_get add.commute of_le_to_le)
  qed
  have cp: "rd64 ?b' U_CAPACITY = rd64 ?b U_CAPACITY" using s(3) r by (intro rd64_put) (simp_all add: U_CAPACITY_def)
  let ?l = "l\<lparr>ol_ulog := ?b', ol_offset := ?n + 16\<rparr>"
  have "rd64 (drop (64 + ?n) ?b') 0 = Inr (of_nat off OR t)" using wd l s(3) r by (simp add: rd64_drop)
  then have "add_to_log l off v t = Inr ?l"
    using entry_valid_val(2) [OF _ v] s(1,3) r by (simp add: add_to_log_def ulog_entry_val_create_def Let_def)
  moreover have "shadow_log ?l base (es @ [(t, off, v)])"
    unfolding shadow_log_def using s(2,3,5) r l g z c cp by auto
  ultimately show ?thesis by auto
qed

lemma shadow_merge:
  assumes S: "shadow_log l base es" and p: "p < length es" "es ! p = (t, off, v0)"
  shows "shadow_log (l\<lparr>ol_ulog := put_bytes (64 + 16 * p + 8) (to_le 8 v) (ol_ulog l)\<rparr>) base (es[p := (t, off, v)])"
proof -
  let ?b = "ol_ulog l" and ?n = "16 * length es" let ?b' = "put_bytes (64 + 16 * p + 8) (to_le 8 v) ?b"
  have s: "ol_offset l = ?n" "ol_capacity l mod 64 = 0" "length ?b = 64 + ol_capacity l" "?n + 64 \<le> ol_capacity l"
    "get_bytes 64 ?n ?b = concat (map entry_bytes es)" "es \<noteq> [] \<longrightarrow> rd64 ?b (64 + ?n) = Inr 0" "ol_capacity l \<le> 2 ^ 40 \<or> ol_capacity l \<le> ?n + 1088"
    "\<exists>c. rd64 ?b U_CAPACITY = Inr (of_nat c) \<and> c \<le> ol_capacity l \<and> c mod 16 = 0 \<and> base \<le> c"
    using S by (simp_all add: shadow_log_def)
  have b: "64 + 16 * p + 16 \<le> 64 + ?n" "64 + ?n + 8 \<le> length ?b" using p(1) s(3,4) by linarith+
  then have l: "length ?b' = length ?b" by (simp add: length_put_bytes)
  have "get_bytes 64 ?n ?b' = concat (map entry_bytes (es[p := (t, off, v)]))"
    by (rule merge_entries_bytes [OF s(5) _ p]) (use b in simp)
  moreover have "rd64 ?b' (64 + ?n) = rd64 ?b (64 + ?n)" using b by (intro rd64_put) simp_all
  moreover have "rd64 ?b' U_CAPACITY = rd64 ?b U_CAPACITY" using b by (intro rd64_put) (simp_all add: U_CAPACITY_def)
  moreover have "es[p := (t, off, v)] \<noteq> [] \<longleftrightarrow> es \<noteq> []" by simp
  ultimately show ?thesis unfolding shadow_log_def using s l by simp
qed

section \<open>One modification\<close>

text \<open>Where modifications act, and of which kind they are.\<close>

definition places :: "vop list \<Rightarrow> (64 word \<times> nat) set" where
  "places es = (\<lambda>(t, off, v). (t, off)) ` set es"

definition aligned_ops :: "nat \<Rightarrow> vop list \<Rightarrow> bool" where
  "aligned_ops n es \<longleftrightarrow> (\<forall>(t, off) \<in> places es. is_val t \<and> 0 < off \<and> off + 8 \<le> n \<and> off mod 8 = 0) \<and> n \<le> 2 ^ 61"

lemma aligned_ops_iff: "aligned_ops n es \<longleftrightarrow> (\<forall>e \<in> set es. vop_ok n e \<and> fst (snd e) mod 8 = 0) \<and> n \<le> 2 ^ 61"
  by (auto simp: aligned_ops_def places_def vop_ok_def)

lemma aligned_disjoint: "off mod 8 = 0 \<Longrightarrow> fst (snd e) mod 8 = 0 \<Longrightarrow> fst (snd e) \<noteq> off \<Longrightarrow> disjoint_from off e"
proof -
  assume "off mod 8 = 0" "fst (snd e) mod 8 = 0" "fst (snd e) \<noteq> off"
  moreover have "8 dvd off" "8 dvd fst (snd e)" using calculation by (simp_all add: dvd_eq_mod_eq_0)
  ultimately show ?thesis by (auto simp: disjoint_from_def elim!: dvdE)
qed

text \<open>The collected entries stand for the modifications made so far; \<open>k\<close> of them may be merged into.\<close>

definition gathered :: "operation_context \<Rightarrow> nat \<Rightarrow> vop list \<Rightarrow> nat \<Rightarrow> bool" where
  "gathered ctx n es k \<longleftrightarrow> shadow_log (pshadow_ops ctx) (oc_base_nbytes ctx) es \<and> candidates (merge_entries ctx) (length es) k \<and> aligned_ops n es"

text \<open>The queue of candidates never has to give one up: the log grows first, or the operation is short.\<close>

definition roomy :: "operation_context \<Rightarrow> vop list \<Rightarrow> nat \<Rightarrow> nat \<Rightarrow> bool" where
  "roomy ctx es k rest \<longleftrightarrow> 16 * k + ol_capacity (pshadow_ops ctx) \<le> 1088 + 16 * length es \<or> k + rest \<le> 64"

text \<open>A run that only changes what is collected.\<close>

definition only_collects :: "operation_context \<Rightarrow> operation_context \<Rightarrow> bool" where
  "only_collects ctx ctx' \<longleftrightarrow> ctx' = ctx\<lparr>pshadow_ops := pshadow_ops ctx', merge_entries := merge_entries ctx'\<rparr>"

lemma effects_update:
  assumes p: "p < length es" "es ! p = (t, off, v0)" and d: "\<And>q. p < q \<Longrightarrow> q < length es \<Longrightarrow> disjoint_from off (es ! q)"
  shows "effects (es[p := (t, off, merged t v0 v)]) m = effects (es @ [(t, off, v)]) m"
proof -
  have dj: "\<forall>e \<in> set (drop (Suc p) es). disjoint_from off e"
  proof
    fix e assume "e \<in> set (drop (Suc p) es)"
    then obtain i where "i < length (drop (Suc p) es)" "drop (Suc p) es ! i = e" by (auto simp: in_set_conv_nth)
    then show "disjoint_from off e" using d [of "Suc p + i"] by auto
  qed
  have "es[p := (t, off, merged t v0 v)] = take p es @ (t, off, merged t v0 v) # drop (Suc p) es" using p(1) by (rule upd_conv_take_nth_drop)
  then have "effects (es[p := (t, off, merged t v0 v)]) m = effects (take p es @ (t, off, v0) # drop (Suc p) es @ [(t, off, v)]) m"
    using effects_merged [OF dj] by simp
  also have "take p es @ (t, off, v0) # drop (Suc p) es @ [(t, off, v)] = es @ [(t, off, v)]"
    using id_take_nth_drop [OF p(1)] p(2) by (metis append.assoc append_Cons)
  finally show ?thesis .
qed

lemma places_update: "places (es[p := (t, off, v)]) \<subseteq> places (es @ [(t, off, v')])"
proof -
  have "places (es[p := (t, off, v)]) \<subseteq> (\<lambda>(t, off, v). (t, off)) ` insert (t, off, v) (set es)"
    unfolding places_def by (rule image_mono) (rule set_update_subset_insert)
  also have "\<dots> = places (es @ [(t, off, v')])" by (simp add: places_def)
  finally show ?thesis .
qed

lemma places_aligned: "places es' \<subseteq> places es \<Longrightarrow> aligned_ops n es \<Longrightarrow> aligned_ops n es'"
  unfolding aligned_ops_def by (elim conjE, intro conjI ballI) (drule (1) subsetD, drule (1) bspec, assumption+)

text \<open>Appending an entry that is not merged.\<close>

lemma add_append:
  assumes S: "shadow_log (pshadow_ops ctx) (oc_base_nbytes ctx) es" and q: "candidates (merge_entries ctx) (length es) k" "k < 64"
    and room: "16 * length es + 64 < ol_capacity (pshadow_ops ctx)" and al: "aligned_ops n (es @ [(t, off, v)])"
  shows "\<exists>l' ctx' k'. add_to_log (pshadow_ops ctx) off v t = Inr l' \<and>
    ctx' = (operation_merge_entry_add rok ctx (ol_offset (pshadow_ops ctx)))\<lparr>pshadow_ops := l'\<rparr> \<and>
    gathered ctx' n (es @ [(t, off, v)]) k' \<and> k' \<le> Suc k \<and> only_collects ctx ctx' \<and> ol_capacity (pshadow_ops ctx') = ol_capacity (pshadow_ops ctx)"
proof -
  have v: "vop_ok n (t, off, v)" using al by (simp add: aligned_ops_iff)
  obtain l' where l: "add_to_log (pshadow_ops ctx) off v t = Inr l'" "shadow_log l' (oc_base_nbytes ctx) (es @ [(t, off, v)])"
    "ol_capacity l' = ol_capacity (pshadow_ops ctx)" using shadow_append [OF S room v] by blast
  have off: "ol_offset (pshadow_ops ctx) = 16 * length es" using S by (simp add: shadow_log_def)
  obtain q' k' where q': "merge_entries (operation_merge_entry_add rok ctx (ol_offset (pshadow_ops ctx))) = q'"
    "candidates q' (Suc (length es)) k'" "k' \<le> Suc k"
    using candidates_add [OF q, of rok] unfolding off operation_merge_entry_add_def Let_def by auto
  let ?ctx = "(operation_merge_entry_add rok ctx (ol_offset (pshadow_ops ctx)))\<lparr>pshadow_ops := l'\<rparr>"
  have o: "only_collects ctx ?ctx" "merge_entries ?ctx = q'" "oc_base_nbytes ?ctx = oc_base_nbytes ctx" "pshadow_ops ?ctx = l'"
    using q'(1) by (simp_all add: only_collects_def operation_merge_entry_add_def Let_def)
  have "gathered ?ctx n (es @ [(t, off, v)]) k'" unfolding gathered_def o using l(2) q'(2) al by simp
  then show ?thesis using l(1,3) q'(3) o(1,4) by (intro exI conjI) (assumption | rule refl | simp)+
qed

text \<open>The whole of \<^verbatim>\<open>operation_add_typed_entry\<close>.\<close>

lemma add_entry:
  assumes G: "gathered ctx n es k" and al: "aligned_ops n (es @ [(t, off, v)])" and R: "roomy ctx es k (Suc rest)"
  shows "\<exists>ctx' es' k'. operation_add_typed_entry (Some mem) rok ctx off v t Persistent = Inr (0, ctx') \<and> only_collects ctx ctx' \<and>
    gathered ctx' n es' k' \<and> roomy ctx' es' k' rest \<and> places es' \<subseteq> places (es @ [(t, off, v)]) \<and>
    length es' \<le> Suc (length es) \<and> es' \<noteq> [] \<and> effects es' = effects (es @ [(t, off, v)])"
proof -
  let ?l = "pshadow_ops ctx" and ?q = "merge_entries ctx"
  have S: "shadow_log ?l (oc_base_nbytes ctx) es" and q: "candidates ?q (length es) k" and ae: "aligned_ops n es"
    using G by (simp_all add: gathered_def)
  have t: "is_val t" using al by (auto simp: aligned_ops_def places_def)
  have s: "ol_offset ?l = 16 * length es" "16 * length es + 64 \<le> ol_capacity ?l" "ol_capacity ?l mod 64 = 0" "length (ol_ulog ?l) = 64 + ol_capacity ?l"
    "get_bytes 64 (16 * length es) (ol_ulog ?l) = concat (map entry_bytes es)"
    using S by (simp_all add: shadow_log_def)
  let ?full = "ol_offset ?l + CACHELINE_SIZE = ol_capacity ?l"
  show ?thesis
  proof (cases ?full)
    case True
    let ?ctx = "ctx\<lparr>merge_entries := VECQ_CLEAR ?q, pshadow_ops := grow_log mem ?l\<rparr>"
    note g = shadow_grow [OF S True, of mem]
    have qc: "candidates (merge_entries ?ctx) (length es) 0" using q by (auto simp: candidates_def VECQ_CLEAR_def)
    obtain l' ctx' k' where a: "add_to_log (pshadow_ops ?ctx) off v t = Inr l'"
      "ctx' = (operation_merge_entry_add rok ?ctx (ol_offset (pshadow_ops ?ctx)))\<lparr>pshadow_ops := l'\<rparr>"
      "gathered ctx' n (es @ [(t, off, v)]) k'" "k' \<le> Suc 0" "only_collects ?ctx ctx'" "ol_capacity (pshadow_ops ctx') = ol_capacity (pshadow_ops ?ctx)"
      using add_append [of ?ctx es 0 n t off v rok] g(1,2) qc al by auto
    have "operation_try_merge_entry ?ctx off v t = Inr None"
      by (simp add: operation_try_merge_entry_def VECQ_CLEAR_def vq_reverse_def VECQ_SIZE_def)
    then have "operation_add_typed_entry (Some mem) rok ctx off v t Persistent = Inr (0, ctx')"
      using True a(1,2) by (simp add: operation_add_typed_entry_def Let_def)
    moreover have "only_collects ctx ctx'" using a(5) by (simp add: only_collects_def)
    moreover have "16 * k' + ol_capacity (pshadow_ops ctx') \<le> 1088 + 16 * length (es @ [(t, off, v)])"
      using a(4,6) g(4) True s(1) by (simp add: CACHELINE_SIZE_def)
    ultimately show ?thesis using a(3)
      by (intro exI [of _ ctx'] exI [of _ "es @ [(t, off, v)]"] exI [of _ k']) (simp add: roomy_def)
  next
    case False
    then have room: "16 * length es + 64 < ol_capacity ?l" using s(1,2) by (simp add: CACHELINE_SIZE_def)
    have k: "k < 64"
    proof -
      obtain i where "ol_capacity ?l = 64 * i" using s(3) by (auto simp: mod_eq_0_iff_dvd)
      then show ?thesis using R room unfolding roomy_def by presburger
    qed
    have kn: "k \<le> length es" using q by (simp add: candidates_def)
    have b: "64 + 16 * length es \<le> length (ol_ulog ?l)" using s(2,4) by simp
    have ok: "\<forall>e \<in> set es. vop_ok n e" using ae by (simp add: aligned_ops_iff)
    consider "try_merge (vq_reverse ?q) (ol_ulog ?l) off v t = Inr None"
      | p v0 where "length es - k \<le> p" "p < length es" "es ! p = (t, off, v0)" "\<forall>q. p < q \<and> q < length es \<longrightarrow> fst (snd (es ! q)) \<noteq> off"
        "try_merge (vq_reverse ?q) (ol_ulog ?l) off v t = Inr (Some (put_bytes (64 + 16 * p + 8) (to_le 8 (merged t v0 v)) (ol_ulog ?l)))"
      using try_merge_ok [OF s(5) b ok t order_refl, of "length es - k" off v] unfolding candidates_reverse [OF q] by blast
    then show ?thesis
    proof cases
      case 1
      obtain l' ctx' k' where a: "add_to_log ?l off v t = Inr l'" "ctx' = (operation_merge_entry_add rok ctx (ol_offset ?l))\<lparr>pshadow_ops := l'\<rparr>"
        "gathered ctx' n (es @ [(t, off, v)]) k'" "k' \<le> Suc k" "only_collects ctx ctx'" "ol_capacity (pshadow_ops ctx') = ol_capacity ?l"
        using add_append [OF S q k room al, of rok] by blast
      have "operation_add_typed_entry (Some mem) rok ctx off v t Persistent = Inr (0, ctx')"
        using False a(1,2) 1 by (simp add: operation_add_typed_entry_def operation_try_merge_entry_def Let_def)
      moreover have "roomy ctx' (es @ [(t, off, v)]) k' rest" using R a(4,6) by (auto simp: roomy_def)
      ultimately show ?thesis using a(3,5) by (intro exI [of _ ctx'] exI [of _ "es @ [(t, off, v)]"] exI [of _ k']) simp
    next
      case 2
      let ?ctx = "ctx\<lparr>pshadow_ops := ?l\<lparr>ol_ulog := put_bytes (64 + 16 * p + 8) (to_le 8 (merged t v0 v)) (ol_ulog ?l)\<rparr>\<rparr>"
      let ?es = "es[p := (t, off, merged t v0 v)]"
      have "operation_add_typed_entry (Some mem) rok ctx off v t Persistent = Inr (0, ?ctx)"
        using False 2(5) by (simp add: operation_add_typed_entry_def operation_try_merge_entry_def Let_def)
      moreover have "places ?es \<subseteq> places (es @ [(t, off, v)])" by (rule places_update)
      moreover have "gathered ?ctx n ?es k"
        using shadow_merge [OF S 2(2,3)] q places_aligned [OF places_update al] by (simp add: gathered_def)
      moreover have "effects ?es = effects (es @ [(t, off, v)])"
      proof (rule ext, rule effects_update [OF 2(2,3)])
        fix q assume "p < q" "q < length es"
        then show "disjoint_from off (es ! q)" using 2(4) al by (intro aligned_disjoint) (auto simp: aligned_ops_iff)
      qed
      moreover have "?es \<noteq> []" using 2(2) by auto
      moreover have "roomy ?ctx ?es k rest" using R by (auto simp: roomy_def)
      moreover have "only_collects ctx ?ctx" by (simp add: only_collects_def)
      ultimately show ?thesis by (intro exI [of _ ?ctx] exI [of _ ?es] exI [of _ k]) simp
    qed
  qed
qed

end
