(* ===== verification/MemOpsRun.thy ===== *)
theory MemOpsRun
  imports MemOpsCollect
begin

text \<open>
  A whole redo operation as the allocator runs it: \<^verbatim>\<open>operation_start\<close>, modifications added one by one,
  \<^verbatim>\<open>operation_process\<close>, \<^verbatim>\<open>operation_finish\<close>; and several of them through one context.
\<close>

section \<open>Adding\<close>

text \<open>Calls of \<^verbatim>\<open>operation_add_typed_entry\<close> up to the first that fails.\<close>

fun collect :: "(nat \<Rightarrow> byte) option \<Rightarrow> bool \<Rightarrow> operation_context \<Rightarrow> vop list \<Rightarrow> (int \<times> operation_context) res" where
  "collect mem rok ctx [] = Inr (0, ctx)"
| "collect mem rok ctx ((t, off, v) # ops) =
     sbind (operation_add_typed_entry mem rok ctx off v t Persistent) (\<lambda>(ret, ctx).
     if ret \<noteq> 0 then Inr (ret, ctx) else collect mem rok ctx ops)"

lemma only_collects_trans: "only_collects a b \<Longrightarrow> only_collects b c \<Longrightarrow> only_collects a c"
  by (cases a, cases b, cases c) (simp add: only_collects_def)

lemma places_append: "places (es @ es') = places es \<union> places es'"
  by (simp add: places_def image_Un)

lemma aligned_append: "aligned_ops n (es @ es') \<longleftrightarrow> aligned_ops n es \<and> aligned_ops n es'"
  by (auto simp: aligned_ops_iff)

lemma collect_all:
  assumes "gathered ctx n es k" "aligned_ops n ops" "roomy ctx es k (length ops)"
  shows "\<exists>ctx' es' k'. collect (Some mem) rok ctx ops = Inr (0, ctx') \<and> only_collects ctx ctx' \<and> gathered ctx' n es' k' \<and>
    places es' \<subseteq> places (es @ ops) \<and> length es' \<le> length es + length ops \<and> (es @ ops \<noteq> [] \<longrightarrow> es' \<noteq> []) \<and>
    effects es' = effects (es @ ops)"
  using assms
proof (induction ops arbitrary: ctx es k)
  case Nil
  have "only_collects ctx ctx" by (simp add: only_collects_def)
  then show ?case using Nil by (intro exI [of _ ctx] exI [of _ es] exI [of _ k]) simp
next
  case (Cons op ops)
  obtain t off v where op: "op = (t, off, v)" by (cases op)
  have al: "aligned_ops n (es @ [(t, off, v)])" "aligned_ops n ops"
    using Cons.prems(1,2) aligned_append [of n "[op]" ops] by (simp_all add: gathered_def aligned_append op)
  obtain ctx1 es1 k1 where a: "operation_add_typed_entry (Some mem) rok ctx off v t Persistent = Inr (0, ctx1)" "only_collects ctx ctx1"
    "gathered ctx1 n es1 k1" "roomy ctx1 es1 k1 (length ops)" "places es1 \<subseteq> places (es @ [(t, off, v)])"
    "length es1 \<le> Suc (length es)" "es1 \<noteq> []" "effects es1 = effects (es @ [(t, off, v)])"
    using add_entry [OF Cons.prems(1) al(1), of "length ops" mem rok] Cons.prems(3) by auto
  obtain ctx2 es2 k2 where b: "collect (Some mem) rok ctx1 ops = Inr (0, ctx2)" "only_collects ctx1 ctx2" "gathered ctx2 n es2 k2"
    "places es2 \<subseteq> places (es1 @ ops)" "length es2 \<le> length es1 + length ops" "es1 @ ops \<noteq> [] \<longrightarrow> es2 \<noteq> []" "effects es2 = effects (es1 @ ops)"
    using Cons.IH [OF a(3) al(2) a(4)] by blast
  have "effects (es1 @ ops) = effects (es @ op # ops)"
    by (rule ext) (simp add: a(8) op)
  moreover have "places es2 \<subseteq> places (es @ op # ops)"
  proof -
    have "places (es @ op # ops) = places (es @ [(t, off, v)]) \<union> places ops" by (simp add: op places_append [symmetric])
    then show ?thesis using b(4) a(5) places_append [of es1 ops] by blast
  qed
  ultimately show ?case using a(1,2,6,7) b only_collects_trans [OF a(2) b(2)]
    by (intro exI [of _ ctx2] exI [of _ es2] exI [of _ k2]) (simp add: op)
qed

section \<open>One operation\<close>

definition redo_operation ::
    "(nat \<Rightarrow> byte) option \<Rightarrow> bool \<Rightarrow> (nat \<Rightarrow> (pool_mem, unit) act) \<Rightarrow> (nat \<Rightarrow> (pool_mem, unit) act) \<Rightarrow> vop list \<Rightarrow> operation_context
      \<Rightarrow> (pool_mem, int \<times> operation_context) act" where
  "redo_operation mem rok ulog_free remove ops ctx =
     abind (alift (operation_start ctx)) (\<lambda>ctx.
     abind (alift (collect mem rok ctx ops)) (\<lambda>(ret, ctx).
     if ret \<noteq> 0 then abind (alift (operation_cancel ctx)) (\<lambda>ctx. aret (ret, ctx))
     else abind (operation_process ctx) (\<lambda>ctx. abind (operation_finish ulog_free remove ctx 0) (\<lambda>ctx. aret (0, ctx)))))"

text \<open>A context between operations.\<close>

definition context_ready :: "operation_context \<Rightarrow> pool_mem \<Rightarrow> bool" where
  "context_ready ctx s \<longleftrightarrow> oc_state ctx = OPERATION_IDLE \<and> redo_ready (ctx\<lparr>transient_ops := (transient_ops ctx)\<lparr>ol_offset := 0\<rparr>\<rparr>) s \<and>
     shadow_log ((pshadow_ops ctx)\<lparr>ol_offset := 0\<rparr>) (oc_base_nbytes ctx) [] \<and> length (vq_buffer (merge_entries ctx)) \<in> {0, 64}"

text \<open>Modifications that fit into the log and leave it alone.\<close>

definition operation_fits :: "operation_context \<Rightarrow> nat \<Rightarrow> vop list \<Rightarrow> bool" where
  "operation_fits ctx n ops \<longleftrightarrow> ops \<noteq> [] \<and> aligned_ops n ops \<and> 16 * length ops \<le> oc_base_nbytes ctx \<and>
     away (oc_ulog ctx) (64 + oc_base_nbytes ctx) ops"

text \<open>The checksum of what is collected, if it is more than one entry, finds out a torn log.\<close>

definition operation_detectable :: "(nat \<Rightarrow> byte) option \<Rightarrow> bool \<Rightarrow> vop list \<Rightarrow> operation_context \<Rightarrow> pool_mem \<Rightarrow> bool" where
  "operation_detectable mem rok ops ctx s \<longleftrightarrow>
     (\<forall>ctx1 ctx2. operation_start ctx = Inr ctx1 \<and> collect mem rok ctx1 ops = Inr (0, ctx2) \<and>
        16 < ol_offset (pshadow_ops ctx2) \<longrightarrow> commit_detectable ctx2 s)"

lemma start_gathers:
  assumes R: "context_ready ctx s"
  shows "\<exists>ctx'. operation_start ctx = Inr ctx' \<and> redo_ready ctx' s \<and> gathered ctx' (o_size s) [] 0 \<and> oc_state ctx' = OPERATION_IN_PROGRESS \<and>
    oc_ulog ctx' = oc_ulog ctx \<and> oc_base_nbytes ctx' = oc_base_nbytes ctx \<and> \<not> ulog_any_user_buffer ctx'"
proof -
  let ?ctx = "(operation_init ctx)\<lparr>oc_state := OPERATION_IN_PROGRESS\<rparr>"
  have st: "operation_start ctx = Inr ?ctx" using R by (simp add: operation_start_def context_ready_def)
  have "candidates (merge_entries ?ctx) 0 0"
    using R candidates_clear [of "merge_entries ctx" 0] by (simp add: operation_init_def context_ready_def)
  moreover have "aligned_ops (o_size s) []" using R by (simp add: aligned_ops_iff context_ready_def redo_ready_def)
  ultimately have "gathered ?ctx (o_size s) [] 0" using R by (simp add: gathered_def context_ready_def operation_init_def)
  moreover have "redo_ready ?ctx s" using R by (simp add: context_ready_def redo_ready_def operation_init_def)
  ultimately show ?thesis using st by (intro exI [of _ ?ctx]) (simp add: operation_init_def)
qed

lemma away_places: "places es' \<subseteq> places es \<Longrightarrow> away a n es \<Longrightarrow> away a n es'"
proof -
  assume p: "places es' \<subseteq> places es" and a: "away a n es"
  have i: "away a n es \<longleftrightarrow> (\<forall>(t, off) \<in> places es. off + 8 \<le> a \<or> a + n \<le> off)" for es by (auto simp: away_def places_def)
  show ?thesis using a unfolding i by (intro ballI) (drule subsetD [OF p], drule (1) bspec, assumption)
qed

lemma gathered_collected:
  assumes G: "gathered ctx n es k" and ne: "es \<noteq> []" and fit: "16 * length es \<le> oc_base_nbytes ctx" "oc_base_nbytes ctx \<le> ULOG_BASE_SIZE"
    and aw: "away (oc_ulog ctx) (64 + oc_base_nbytes ctx) es" and n: "o_size s = n"
  shows "collected ctx s es"
proof -
  let ?l = "pshadow_ops ctx"
  have S: "ol_offset ?l = 16 * length es" "ol_capacity ?l mod 64 = 0" "length (ol_ulog ?l) = 64 + ol_capacity ?l" "16 * length es + 64 \<le> ol_capacity ?l"
    "get_bytes 64 (16 * length es) (ol_ulog ?l) = concat (map entry_bytes es)" "rd64 (ol_ulog ?l) (64 + 16 * length es) = Inr 0"
    "ol_capacity ?l \<le> 2 ^ 40 \<or> ol_capacity ?l \<le> 16 * length es + 1088"
    and al: "\<forall>e \<in> set es. vop_ok n e \<and> fst (snd e) mod 8 = 0"
    using G ne by (simp_all add: gathered_def shadow_log_def aligned_ops_iff)
  have "\<exists>c. rd64 (ol_ulog ?l) U_CAPACITY = Inr (of_nat c) \<and> c \<le> ol_capacity ?l \<and> c mod 16 = 0 \<and> oc_base_nbytes ctx \<le> c"
    using G by (simp add: gathered_def shadow_log_def)
  then obtain c where c: "rd64 (ol_ulog ?l) U_CAPACITY = Inr (of_nat c)" "c \<le> ol_capacity ?l" "c mod 16 = 0" "oc_base_nbytes ctx \<le> c"
    by (elim exE conjE) (rule that)
  have "c < 2 ^ 64" using c(2) S(7) fit by (auto simp: ULOG_BASE_SIZE_def)
  moreover have "16 * length es \<le> c" "64 + c \<le> length (ol_ulog ?l)" using c fit(1) S(3) by linarith+
  moreover have "128 + 16 * length es \<le> length (ol_ulog ?l)" using S(3,4) by simp
  ultimately have "shadow_holds (ol_ulog ?l) es" unfolding shadow_holds_def using S(5,6) ne c(1,3) by (intro conjI exI [of _ c])
  then show ?thesis unfolding collected_def using S(1,2) al fit(1) aw n by blast
qed

lemma finish_ok:
  assumes "oc_type ctx = LOG_TYPE_REDO" "oc_state ctx \<noteq> OPERATION_IDLE" "\<not> ulog_any_user_buffer ctx"
    and "oc_state ctx = OPERATION_CLEANUP \<Longrightarrow> rd64 (ulog_view (Pool (oc_ulog ctx)) s) U_NEXT = Inr 0"
  shows "operation_finish ulog_free remove ctx 0 s = (Inr (ctx\<lparr>oc_state := OPERATION_IDLE\<rparr>), s)"
proof (cases "oc_state ctx = OPERATION_CLEANUP")
  case True
  then have "rd64n (ulog_view (Pool (oc_ulog ctx)) s) U_NEXT = Inr 0" using assms(4) by (simp add: rd64n_def)
  then show ?thesis using assms(1,3) True
    by (simp add: operation_finish_def ulog_free_next_def walk_fuel_def pool_field_def ulog_by_offset_def act_simps abind_def Let_def)
next
  case False
  then show ?thesis using assms(1,2,3) by (simp add: operation_finish_def Let_def act_simps)
qed

lemma only_collects_fields:
  "only_collects a b \<Longrightarrow> oc_type b = oc_type a \<and> oc_ulog b = oc_ulog a \<and> oc_base_nbytes b = oc_base_nbytes a \<and> oc_capacity b = oc_capacity a \<and>
     oc_next b = oc_next a \<and> oc_state b = oc_state a \<and> transient_ops b = transient_ops a \<and> ulog_any_user_buffer b = ulog_any_user_buffer a"
  by (cases a, cases b) (simp add: only_collects_def)

lemma redo_ready_cong:
  assumes "redo_ready a s" "oc_type b = oc_type a" "oc_ulog b = oc_ulog a" "oc_base_nbytes b = oc_base_nbytes a" "oc_capacity b = oc_capacity a"
    "oc_next b = oc_next a" "ol_offset (transient_ops b) = ol_offset (transient_ops a)" "o_size s' = o_size s" "pm_clean (o_mem s')"
    "ulog_idle (ulog_view (Pool (oc_ulog a)) s')"
  shows "redo_ready b s'"
  using assms by (simp add: redo_ready_def)

lemma atomically_cong:
  assumes "atomically a es s s'" "oc_ulog b = oc_ulog a" "oc_base_nbytes b = oc_base_nbytes a" "effects es = effects ops"
  shows "atomically b ops s s'"
proof -
  have "recovers_to b = recovers_to a" by (intro ext) (simp add: recovers_to_def assms(2,3))
  then show ?thesis using assms by (simp add: atomically_def)
qed

lemma processed_ready:
  assumes R: "redo_ready a s" and P: "processed a c" and A: "atomically a es s s'" and G: "gathered a n es k" and fit: "16 * length es \<le> 1024"
  shows "context_ready (c\<lparr>oc_state := OPERATION_IDLE\<rparr>) s'"
proof -
  let ?l = "pshadow_ops a"
  obtain src st where c: "c = a\<lparr>pshadow_ops := ?l\<lparr>ol_ulog := src\<rparr>, oc_state := st\<rparr>" "length src = length (ol_ulog ?l)"
    "rd64 src U_CAPACITY = rd64 (ol_ulog ?l) U_CAPACITY" using P by (auto simp: processed_def)
  have S: "shadow_log ?l (oc_base_nbytes a) es" and q: "candidates (merge_entries a) (length es) k" using G by (simp_all add: gathered_def)
  have "ol_capacity ?l \<le> 2 ^ 40" "64 \<le> ol_capacity ?l" "ol_capacity ?l mod 64 = 0" "length (ol_ulog ?l) = 64 + ol_capacity ?l"
    "\<exists>c. rd64 (ol_ulog ?l) U_CAPACITY = Inr (of_nat c) \<and> c \<le> ol_capacity ?l \<and> c mod 16 = 0 \<and> oc_base_nbytes a \<le> c"
    using S fit by (auto simp: shadow_log_def)
  then have "shadow_log (?l\<lparr>ol_ulog := src, ol_offset := 0\<rparr>) (oc_base_nbytes a) []"
    unfolding shadow_log_def using c(2,3) by (simp add: get_bytes_def)
  moreover have "redo_ready (c\<lparr>oc_state := OPERATION_IDLE, transient_ops := (transient_ops c)\<lparr>ol_offset := 0\<rparr>\<rparr>) s'"
    by (rule redo_ready_cong [OF R]) (use A R c(1) in \<open>simp_all add: atomically_def redo_ready_def\<close>)
  moreover have "length (vq_buffer (merge_entries a)) \<in> {0, 64}" using q by (auto simp: candidates_def)
  ultimately show ?thesis unfolding c(1) by (simp add: context_ready_def)
qed

text \<open>The operation runs to its end; the context is ready for the next one, and all of it is atomic.\<close>

lemma redo_operation_ok:
  assumes R: "context_ready ctx s" and fit: "operation_fits ctx (o_size s) ops"
    and D: "operation_detectable (Some mem) rok ops ctx s"
  shows "\<exists>ctx' s'. redo_operation (Some mem) rok ulog_free remove ops ctx s = (Inr (0, ctx'), s') \<and>
    oc_ulog ctx' = oc_ulog ctx \<and> oc_base_nbytes ctx' = oc_base_nbytes ctx \<and> context_ready ctx' s' \<and> atomically ctx ops s s'"
proof -
  let ?B = "oc_base_nbytes ctx"
  obtain ctx1 where st: "operation_start ctx = Inr ctx1" "redo_ready ctx1 s" "gathered ctx1 (o_size s) [] 0" "oc_state ctx1 = OPERATION_IN_PROGRESS"
    "oc_ulog ctx1 = oc_ulog ctx" "oc_base_nbytes ctx1 = ?B" "\<not> ulog_any_user_buffer ctx1" using start_gathers [OF R] by blast
  have B: "?B \<le> ULOG_BASE_SIZE" using st(2,6) by (simp add: redo_ready_def)
  have f: "ops \<noteq> []" "aligned_ops (o_size s) ops" "16 * length ops \<le> ?B" "away (oc_ulog ctx) (64 + ?B) ops" using fit by (simp_all add: operation_fits_def)
  have "roomy ctx1 [] 0 (length ops)" using f(3) B by (simp add: roomy_def ULOG_BASE_SIZE_def)
  then obtain ctx2 es k where co: "collect (Some mem) rok ctx1 ops = Inr (0, ctx2)" "only_collects ctx1 ctx2" "gathered ctx2 (o_size s) es k"
    "places es \<subseteq> places ops" "length es \<le> length ops" "es \<noteq> []" "effects es = effects ops"
    using collect_all [OF st(3) f(2), of mem rok] f(1) by auto
  have c2: "oc_ulog ctx2 = oc_ulog ctx" "oc_base_nbytes ctx2 = ?B" "oc_state ctx2 = OPERATION_IN_PROGRESS" "\<not> ulog_any_user_buffer ctx2"
    "redo_ready ctx2 s"
    using st only_collects_fields [OF co(2)] redo_ready_cong [OF st(2), of ctx2 s] by (simp_all add: redo_ready_def)
  have "collected ctx2 s es"
    by (rule gathered_collected [OF co(3,6)]) (use c2 f(3,4) co(5) B away_places [OF co(4)] in auto)
  moreover have "ol_offset (pshadow_ops ctx2) = 16 * length es" using co(3) by (simp add: gathered_def shadow_log_def)
  then have "1 < length es \<longrightarrow> commit_detectable ctx2 s" using D st(1) co(1) by (auto simp: operation_detectable_def)
  ultimately obtain ctx3 s' where pr: "operation_process ctx2 s = (Inr ctx3, s')" "processed ctx2 ctx3" "atomically ctx2 es s s'"
    "oc_state ctx3 \<noteq> oc_state ctx2 \<longrightarrow> rd64 (ulog_view (Pool (oc_ulog ctx2)) s') U_NEXT = Inr 0"
    using process_atomically [OF c2(5)] by blast
  let ?ctx = "ctx3\<lparr>oc_state := OPERATION_IDLE\<rparr>"
  have c3: "oc_type ctx3 = LOG_TYPE_REDO" "oc_state ctx3 \<in> {OPERATION_IN_PROGRESS, OPERATION_CLEANUP}" "oc_ulog ctx3 = oc_ulog ctx"
    "oc_base_nbytes ctx3 = ?B" "\<not> ulog_any_user_buffer ctx3"
    using pr(2) c2 by (auto simp: processed_def redo_ready_def)
  have fin: "operation_finish ulog_free remove ctx3 0 s' = (Inr ?ctx, s')"
    by (rule finish_ok) (use c3 pr(4) c2(1,3) in auto)
  have "redo_operation (Some mem) rok ulog_free remove ops ctx s = (Inr (0, ?ctx), s')"
    using st(1) co(1) pr(1) fin by (simp add: redo_operation_def act_simps abind_def)
  moreover have "context_ready ?ctx s'" by (rule processed_ready [OF c2(5) pr(2,3) co(3)]) (use co(5) f(3) B in \<open>simp add: ULOG_BASE_SIZE_def\<close>)
  moreover have "atomically ctx ops s s'" by (rule atomically_cong [OF pr(3)]) (use c2 co(7) in simp_all)
  ultimately show ?thesis using c3(3,4) by (intro exI [of _ ?ctx] exI [of _ s']) simp
qed

text \<open>A single modification needs no checksum.\<close>

lemma single_detectable:
  assumes R: "context_ready ctx s" and al: "aligned_ops (o_size s) [op]"
  shows "operation_detectable (Some mem) rok [op] ctx s"
  unfolding operation_detectable_def
proof (intro allI impI, elim conjE)
  fix ctx1 ctx2
  assume c: "operation_start ctx = Inr ctx1" "collect (Some mem) rok ctx1 [op] = Inr (0, ctx2)" "16 < ol_offset (pshadow_ops ctx2)"
  have G: "gathered ctx1 (o_size s) [] 0" using start_gathers [OF R] c(1) by auto
  obtain ctx3 es k where e: "collect (Some mem) rok ctx1 [op] = Inr (0, ctx3)" "gathered ctx3 (o_size s) es k" "length es \<le> 1"
    using collect_all [OF G al, of mem rok] by (auto simp: roomy_def)
  then have "ol_offset (pshadow_ops ctx2) = 16 * length es" using c(2) by (simp add: gathered_def shadow_log_def)
  then show "commit_detectable ctx2 s" using c(3) e(3) by simp
qed

end
