(* ===== verification/MemOpsSeq.thy ===== *)
theory MemOpsSeq
  imports MemOpsRun
begin

text \<open>
  What operations promise to their callers: a sequence of transactions, of which a power failure leaves a prefix. The interface
  is stated for any machine whose steps are atomic, and provided by the redo operations of one context.
\<close>

section \<open>Machines with atomic steps\<close>

fun run_all :: "('op \<Rightarrow> 'st \<Rightarrow> 'st option) \<Rightarrow> 'op list \<Rightarrow> 'st \<Rightarrow> 'st option" where
  "run_all run [] s = Some s"
| "run_all run (op # ops) s = Option.bind (run op s) (run_all run ops)"

text \<open>Every step of a run fits the state it starts in.\<close>

fun fits_all :: "('op \<Rightarrow> 'st \<Rightarrow> 'st option) \<Rightarrow> ('op \<Rightarrow> 'st \<Rightarrow> bool) \<Rightarrow> 'op list \<Rightarrow> 'st \<Rightarrow> bool" where
  "fits_all run fits [] s \<longleftrightarrow> True"
| "fits_all run fits (op # ops) s \<longleftrightarrow> fits op s \<and> (\<forall>s'. run op s = Some s' \<longrightarrow> fits_all run fits ops s')"

text \<open>\<open>found m\<close>: what recovery from the moment \<open>m\<close> may find, \<open>None\<close> if it fails.\<close>

locale atomic_steps =
  fixes run :: "'op \<Rightarrow> 'st \<Rightarrow> 'st option" and ready :: "'st \<Rightarrow> bool" and fits :: "'op \<Rightarrow> 'st \<Rightarrow> bool" and view :: "'st \<Rightarrow> 'v"
    and eff :: "'op \<Rightarrow> 'v \<Rightarrow> 'v" and hist :: "'st \<Rightarrow> 'm list" and found :: "'m \<Rightarrow> 'v option set"
  assumes step: "ready s \<Longrightarrow> fits op s \<Longrightarrow> \<exists>s'. run op s = Some s' \<and> ready s' \<and> view s' = eff op (view s) \<and>
    (\<exists>H. hist s' = hist s @ H \<and> (\<forall>m \<in> set H. found m \<subseteq> {Some (view s), Some (eff op (view s))}))"
begin

lemma prefixes:
  assumes "ready s" "fits_all run fits ops s"
  shows "\<exists>s'. run_all run ops s = Some s' \<and> ready s' \<and> view s' = fold eff ops (view s) \<and>
    (\<exists>H. hist s' = hist s @ H \<and> (\<forall>m \<in> set H. \<exists>i < length ops.
      found m \<subseteq> {Some (fold eff (take i ops) (view s)), Some (fold eff (take (Suc i) ops) (view s))}))"
  using assms
proof (induction ops arbitrary: s)
  case (Cons op ops)
  obtain s1 H1 where a: "run op s = Some s1" "ready s1" "view s1 = eff op (view s)" "hist s1 = hist s @ H1"
    "\<forall>m \<in> set H1. found m \<subseteq> {Some (view s), Some (eff op (view s))}" using step [of s op] Cons.prems by auto
  obtain s2 H2 where b: "run_all run ops s1 = Some s2" "ready s2" "view s2 = fold eff ops (view s1)" "hist s2 = hist s1 @ H2"
    "\<forall>m \<in> set H2. \<exists>i < length ops. found m \<subseteq> {Some (fold eff (take i ops) (view s1)), Some (fold eff (take (Suc i) ops) (view s1))}"
    using Cons.IH [OF a(2)] Cons.prems(2) a(1) by auto
  have "\<exists>i < length (op # ops). found m \<subseteq> {Some (fold eff (take i (op # ops)) (view s)), Some (fold eff (take (Suc i) (op # ops)) (view s))}"
    if "m \<in> set (H1 @ H2)" for m
  proof (cases "m \<in> set H1")
    case True
    then show ?thesis using a(5) by (intro exI [of _ 0]) simp
  next
    case False
    then have "m \<in> set H2" using that by simp
    from bspec [OF b(5) this] obtain i where "i < length ops" "found m \<subseteq> {Some (fold eff (take i ops) (view s1)), Some (fold eff (take (Suc i) ops) (view s1))}"
      by (elim exE conjE) (rule that)
    then show ?thesis using a(3) by (intro exI [of _ "Suc i"]) simp
  qed
  then show ?case using a(1,3,4) b(1,2,3,4) by (intro exI [of _ s2]) simp
qed simp

end

section \<open>Redo operations\<close>

text \<open>The memory outside the log.\<close>

definition outside :: "nat \<Rightarrow> nat \<Rightarrow> (nat \<Rightarrow> byte) \<Rightarrow> nat \<Rightarrow> byte" where
  "outside a n m x = (if a \<le> x \<and> x < a + n then 0 else m x)"

lemma outside_eq: "outside a n m = outside a n m' \<longleftrightarrow> (\<forall>x. x < a \<or> a + n \<le> x \<longrightarrow> m x = m' x)"
  by (auto simp: outside_def fun_eq_iff not_le not_less)

lemma effects_outside_log:
  assumes "away a n es"
  shows "effects es (outside a n m) = outside a n (effects es m)"
proof
  fix x
  show "effects es (outside a n m) x = outside a n (effects es m) x"
  proof (cases "a \<le> x \<and> x < a + n")
    case True
    have "effects es (outside a n m) x = outside a n m x" by (rule effects_outside) (use assms True in \<open>fastforce simp: away_def\<close>)
    then show ?thesis using True by (simp add: outside_def)
  next
    case False
    then have "outside a n m x = m x" by (auto simp: outside_def)
    then have "effects es (outside a n m) x = effects es m x" by (rule effects_cong_byte)
    then show ?thesis using False by (auto simp: outside_def)
  qed
qed

definition run_redo ::
    "(nat \<Rightarrow> byte) \<Rightarrow> bool \<Rightarrow> (nat \<Rightarrow> (pool_mem, unit) act) \<Rightarrow> (nat \<Rightarrow> (pool_mem, unit) act) \<Rightarrow> vop list
      \<Rightarrow> operation_context \<times> pool_mem \<Rightarrow> (operation_context \<times> pool_mem) option" where
  "run_redo mem rok ulog_free remove ops p = (case redo_operation (Some mem) rok ulog_free remove ops (fst p) (snd p) of
     (Inr (ret, ctx), s) \<Rightarrow> if ret = 0 then Some (ctx, s) else None
   | (Inl e, s) \<Rightarrow> None)"

definition redo_log_at :: "nat \<Rightarrow> nat \<Rightarrow> nat \<Rightarrow> operation_context \<times> pool_mem \<Rightarrow> bool" where
  "redo_log_at n a base p \<longleftrightarrow> context_ready (fst p) (snd p) \<and> oc_ulog (fst p) = a \<and> oc_base_nbytes (fst p) = base \<and> o_size (snd p) = n"

definition redo_fits :: "(nat \<Rightarrow> byte) \<Rightarrow> bool \<Rightarrow> vop list \<Rightarrow> operation_context \<times> pool_mem \<Rightarrow> bool" where
  "redo_fits mem rok ops p \<longleftrightarrow> operation_fits (fst p) (o_size (snd p)) ops \<and> operation_detectable (Some mem) rok ops (fst p) (snd p)"

text \<open>What recovery of the log finds after a power failure in the moment \<open>m\<close>.\<close>

definition found_after :: "nat \<Rightarrow> nat \<Rightarrow> nat \<Rightarrow> pmem \<Rightarrow> (nat \<Rightarrow> byte) option set" where
  "found_after n a base m = range (\<lambda>keep. case ulog_recover a (rebooted n (crash_image keep m)) of
     (Inr _, s) \<Rightarrow> Some (outside a (64 + base) (olive s)) | (Inl _, s) \<Rightarrow> None)"

lemma recovers_found:
  assumes "\<forall>keep. recovers_to ctx n old new (crash_image keep m)"
  shows "found_after n (oc_ulog ctx) (oc_base_nbytes ctx) m \<subseteq>
    {Some (outside (oc_ulog ctx) (64 + oc_base_nbytes ctx) old), Some (outside (oc_ulog ctx) (64 + oc_base_nbytes ctx) new)}"
proof
  fix r assume "r \<in> found_after n (oc_ulog ctx) (oc_base_nbytes ctx) m"
  then obtain keep where r: "r = (case ulog_recover (oc_ulog ctx) (rebooted n (crash_image keep m)) of
     (Inr _, s) \<Rightarrow> Some (outside (oc_ulog ctx) (64 + oc_base_nbytes ctx) (olive s)) | (Inl _, s) \<Rightarrow> None)"
    by (auto simp: found_after_def)
  have "recovers_to ctx n old new (crash_image keep m)" using assms by (rule spec)
  then obtain s where s: "ulog_recover (oc_ulog ctx) (rebooted n (crash_image keep m)) = (Inr (), s)"
    and "outside (oc_ulog ctx) (64 + oc_base_nbytes ctx) (olive s) = outside (oc_ulog ctx) (64 + oc_base_nbytes ctx) old \<or>
      outside (oc_ulog ctx) (64 + oc_base_nbytes ctx) (olive s) = outside (oc_ulog ctx) (64 + oc_base_nbytes ctx) new"
    unfolding recovers_to_def outside_eq [symmetric] add.assoc by (elim exE conjE) (rule that)
  then show "r \<in> {Some (outside (oc_ulog ctx) (64 + oc_base_nbytes ctx) old), Some (outside (oc_ulog ctx) (64 + oc_base_nbytes ctx) new)}"
    unfolding r by auto
qed

interpretation redo: atomic_steps "run_redo mem rok ulog_free remove" "redo_log_at n a base" "redo_fits mem rok"
    "\<lambda>p. outside a (64 + base) (olive (snd p))" effects "\<lambda>p. o_hist (snd p)" "found_after n a base"
    for mem rok ulog_free remove n a base
proof
  fix p op
  assume r: "redo_log_at n a base p" and f: "redo_fits mem rok op p"
  obtain ctx s where p: "p = (ctx, s)" by (cases p)
  have l: "context_ready ctx s" "oc_ulog ctx = a" "oc_base_nbytes ctx = base" "o_size s = n" using r by (simp_all add: redo_log_at_def p)
  have fit: "operation_fits ctx (o_size s) op" "operation_detectable (Some mem) rok op ctx s" using f by (simp_all add: redo_fits_def p)
  obtain ctx' s' where run: "redo_operation (Some mem) rok ulog_free remove op ctx s = (Inr (0, ctx'), s')" "oc_ulog ctx' = oc_ulog ctx"
    "oc_base_nbytes ctx' = oc_base_nbytes ctx" "context_ready ctx' s'" "atomically ctx op s s'" using redo_operation_ok [OF l(1) fit] by blast
  have aw: "away a (64 + base) op" using fit(1) l by (simp add: operation_fits_def)
  have e: "effects op (outside a (64 + base) (olive s)) = outside a (64 + base) (effects op (olive s))" by (rule effects_outside_log [OF aw])
  have A: "o_size s' = n" "outside a (64 + base) (olive s') = effects op (outside a (64 + base) (olive s))"
    using run(5) l unfolding e outside_eq by (simp_all add: atomically_def add.assoc)
  obtain H where H: "o_hist s' = o_hist s @ H" "\<forall>m \<in> set H. \<forall>keep. recovers_to ctx n (olive s) (effects op (olive s)) (crash_image keep m)"
    using run(5) l(4) by (auto simp: atomically_def)
  have "found_after n a base m \<subseteq> {Some (outside a (64 + base) (olive s)), Some (effects op (outside a (64 + base) (olive s)))}"
    if "m \<in> set H" for m
    using recovers_found [of ctx n "olive s" "effects op (olive s)" m] H(2) that unfolding e l(2,3) by blast
  moreover have "run_redo mem rok ulog_free remove op p = Some (ctx', s')" using run(1) by (simp add: run_redo_def p)
  moreover have "redo_log_at n a base (ctx', s')" using run(2,3,4) l A(1) by (simp add: redo_log_at_def)
  ultimately show "\<exists>s'. run_redo mem rok ulog_free remove op p = Some s' \<and> redo_log_at n a base s' \<and>
      outside a (64 + base) (olive (snd s')) = effects op (outside a (64 + base) (olive (snd p))) \<and>
      (\<exists>H. o_hist (snd s') = o_hist (snd p) @ H \<and> (\<forall>m \<in> set H. found_after n a base m
        \<subseteq> {Some (outside a (64 + base) (olive (snd p))), Some (effects op (outside a (64 + base) (olive (snd p))))}))"
    using A(2) H(1) by (intro exI [of _ "(ctx', s')"]) (simp add: p)
qed

end
