(* ===== verification/UlogExample.thy ===== *)
theory UlogExample
  imports MemOpsSeq
begin

text \<open>
  A small pool: a redo log of one cache line at offset 64, and words for the data in front of it.
\<close>

unbundle bit_operations_syntax

section \<open>Contexts\<close>

definition shadow_bytes :: "nat \<Rightarrow> vop list \<Rightarrow> byte list" where
  "shadow_bytes cap es = replicate 16 0 @ to_le 8 (of_nat cap :: 64 word) @ replicate 40 0 @
     concat (map entry_bytes es) @ replicate (cap - 16 * length es) 0"

definition shadow_example :: "nat \<Rightarrow> vop list \<Rightarrow> operation_log" where
  "shadow_example cap es = \<lparr>ol_capacity = cap, ol_offset = 16 * length es, ol_ulog = shadow_bytes cap es\<rparr>"

lemma zero_word: "to_le 8 (0 :: 64 word) = replicate 8 0"
  by (simp add: to_le_def numeral_eq_Suc)

lemma shadow_example_ok:
  assumes "cap mod 64 = 0" "16 * length es + 64 \<le> cap" "cap \<le> 2 ^ 40" "base \<le> cap"
  shows "shadow_log (shadow_example cap es) base es"
proof -
  let ?b = "shadow_bytes cap es"
  have l: "length ?b = 64 + cap" using assms(2) by (simp add: shadow_bytes_def)
  have g: "get_bytes 64 (16 * length es) ?b = concat (map entry_bytes es)" by (simp add: shadow_bytes_def get_bytes_def)
  have "get_bytes (64 + 16 * length es) 8 ?b = replicate 8 0"
    using assms(2) by (simp add: shadow_bytes_def get_bytes_def drop_append min_def)
  then have z: "rd64 ?b (64 + 16 * length es) = Inr 0"
    using l assms(2) of_le_to_le [of 8 "0 :: 64 word"] by (simp add: rd64_get zero_word)
  have c: "rd64 ?b U_CAPACITY = Inr (of_nat cap)" using l by (simp add: rd64_get U_CAPACITY_def shadow_bytes_def get_bytes_def of_le_to_le)
  obtain i where "cap = 64 * i" using assms(1) by (auto simp: mod_eq_0_iff_dvd)
  then have "cap mod 16 = 0" by simp
  then have "\<exists>c. rd64 ?b U_CAPACITY = Inr (of_nat c) \<and> c \<le> cap \<and> c mod 16 = 0 \<and> base \<le> c" using c assms(4) by (intro exI [of _ cap] conjI order_refl)
  then show ?thesis unfolding shadow_log_def shadow_example_def using l g z assms(1,2,3) by simp
qed

definition context_example :: "nat \<Rightarrow> operation_context" where
  "context_example cap = \<lparr>oc_type = LOG_TYPE_REDO, ulog_curr_offset = 0, ulog_curr_capacity = 0, ulog_curr_gen_num = 0, ulog_curr = None,
     total_logged = 0, oc_ulog = 64, oc_base_nbytes = 64, oc_capacity = 64, ulog_auto_reserve = False, ulog_any_user_buffer = False,
     oc_next = [], oc_state = OPERATION_IDLE, pshadow_ops = shadow_example cap [], transient_ops = operation_log_transient_init,
     merge_entries = \<lparr>vq_buffer = [], vq_front = 0, vq_back = 0\<rparr>\<rparr>"

definition pool_example :: pool_mem where
  "pool_example = rebooted 192 (\<lambda>_. 0)"

lemma example_ready: "redo_log_at 192 64 64 (context_example 1024, pool_example)"
proof -
  have s: "shadow_log (shadow_example 1024 []) 64 []" by (rule shadow_example_ok) simp_all
  have z: "of_le (replicate 8 0) = (0 :: 64 word)" using word_zero_bytes by (simp add: zero_word)
  have "get_at (\<lambda>_. 0) 80 8 = replicate 8 (0 :: byte)" by (simp add: get_at_def numeral_eq_Suc)
  then have "rd64 (ulog_view (Pool 64) pool_example) 16 = Inr 0"
    using rd64_view [of 64 16 pool_example] z by (simp add: pool_example_def)
  then have "ulog_idle (ulog_view (Pool 64) pool_example)" by (simp add: ulog_idle_def rd64n_def U_CAPACITY_def pool_example_def)
  moreover have "pm_clean (o_mem pool_example)" by (simp add: pool_example_def rebooted_def pm_clean_def)
  moreover have "shadow_example 1024 []\<lparr>ol_offset := 0\<rparr> = shadow_example 1024 []" by (simp add: shadow_example_def)
  ultimately show ?thesis using s
    by (simp add: redo_log_at_def context_ready_def redo_ready_def context_example_def pool_example_def ULOG_BASE_SIZE_def)
qed

section \<open>An operation with two modifications\<close>

definition ops_example :: "vop list" where
  "ops_example = [(ULOG_OPERATION_OR, 8, 5), (ULOG_OPERATION_SET, 16, 7)]"

text \<open>A modification of a place that is not in the log yet is appended, byte for byte.\<close>

lemma shadow_bytes_append:
  assumes "16 * length es + 24 \<le> cap"
  shows "put_bytes (64 + 16 * length es) (entry_bytes e @ replicate 8 0) (shadow_bytes cap es) = shadow_bytes cap (es @ [e])"
proof -
  have "put_bytes (64 + 16 * length es) (entry_bytes e @ replicate 8 0)
      ((replicate 16 0 @ to_le 8 (of_nat cap :: 64 word) @ replicate 40 0 @ concat (map entry_bytes es)) @ replicate (cap - 16 * length es) 0)
    = (replicate 16 0 @ to_le 8 (of_nat cap :: 64 word) @ replicate 40 0 @ concat (map entry_bytes es)) @
      put_bytes 0 (entry_bytes e @ replicate 8 0) (replicate (cap - 16 * length es) 0)"
    using assms by (intro put_bytes_append) simp_all
  also have "put_bytes 0 (entry_bytes e @ replicate 8 0) (replicate (cap - 16 * length es) (0 :: byte))
      = entry_bytes e @ replicate 8 0 @ replicate (cap - 16 * length es - 24) 0"
    by (simp add: put_bytes_def)
  also have "replicate 8 0 @ replicate (cap - 16 * length es - 24) (0 :: byte) = replicate (cap - (16 + 16 * length es)) 0"
    using assms by (simp add: replicate_add [symmetric])
  finally show ?thesis by (simp add: shadow_bytes_def)
qed

lemma length_shadow_bytes: "16 * length es \<le> cap \<Longrightarrow> length (shadow_bytes cap es) = 64 + cap"
  by (simp add: shadow_bytes_def)

lemma add_fresh:
  assumes l: "pshadow_ops ctx = shadow_example cap es" "cap mod 64 = 0" "16 * length es + 64 < cap" "cap \<le> 2 ^ 40"
    and q: "candidates (merge_entries ctx) (length es) k" "k < 64"
    and al: "aligned_ops n (es @ [(t, off, v)])" and new: "off \<notin> (\<lambda>e. fst (snd e)) ` set es"
  shows "\<exists>ctx' k'. operation_add_typed_entry mem rok ctx off v t Persistent = Inr (0, ctx') \<and>
    pshadow_ops ctx' = shadow_example cap (es @ [(t, off, v)]) \<and> candidates (merge_entries ctx') (Suc (length es)) k' \<and> k' \<le> Suc k"
proof -
  let ?e = "(t, off, v)" and ?b = "shadow_bytes cap es"
  have ok: "\<forall>e \<in> set es. vop_ok n e" and v: "vop_ok n ?e" using al by (simp_all add: aligned_ops_iff)
  have t: "is_val t" using v by (simp add: vop_ok_def)
  obtain i where "cap = 64 * i" using l(2) by (auto simp: mod_eq_0_iff_dvd)
  then have r: "16 * length es + 80 \<le> cap" using l(3) by presburger
  have S: "shadow_log (shadow_example cap es) 0 es" by (rule shadow_example_ok) (use l(2,3,4) in simp_all)
  then have g: "get_bytes 64 (16 * length es) ?b = concat (map entry_bytes es)" by (simp add: shadow_log_def shadow_example_def)
  have len: "length ?b = 64 + cap" using r by (simp add: length_shadow_bytes)
  have no: "es ! p \<noteq> (t, off, v0)" if "p < length es" for p v0
  proof
    assume "es ! p = (t, off, v0)"
    then have "(t, off, v0) \<in> set es" using nth_mem [OF that] by simp
    then have "fst (snd (t, off, v0)) \<in> (\<lambda>e. fst (snd e)) ` set es" by (rule imageI)
    then show False using new by simp
  qed
  have "64 + 16 * length es \<le> length ?b" using len r by simp
  from try_merge_ok [OF g this ok t order_refl, of "length es - k" off v]
  have "try_merge (vq_reverse (merge_entries ctx)) ?b off v t = Inr None" unfolding candidates_reverse [OF q(1)] using no by blast
  then have tm: "operation_try_merge_entry ctx off v t = Inr None" by (simp add: operation_try_merge_entry_def l(1) shadow_example_def)
  have "put_bytes (64 + 16 * length es) (to_le 8 (of_nat off OR t :: 64 word) @ to_le 8 v @ to_le 8 (0 :: 64 word)) ?b = shadow_bytes cap (es @ [?e])"
    using shadow_bytes_append [of es cap ?e] r by (simp add: zero_word)
  then have vc: "ulog_entry_val_create ?b (16 * length es) off v t = Inr (shadow_bytes cap (es @ [?e]))"
    using len r by (simp add: ulog_entry_val_create_def Let_def)
  have "shadow_log (shadow_example cap (es @ [?e])) 0 (es @ [?e])" by (rule shadow_example_ok) (use l(2,4) r in simp_all)
  then have g': "get_bytes 64 (16 * length (es @ [?e])) (shadow_bytes cap (es @ [?e])) = concat (map entry_bytes (es @ [?e]))"
    by (simp add: shadow_log_def shadow_example_def)
  have len': "length (shadow_bytes cap (es @ [?e])) = 64 + cap" using r by (simp add: length_shadow_bytes)
  have "rd64 (shadow_bytes cap (es @ [?e])) (64 + 16 * length es) = Inr (of_nat off OR t)"
    by (rule entry_words(1) [OF g', of "length es" t off v]) (use len' r in simp_all)
  then have "rd64 (drop (64 + 16 * length es) (shadow_bytes cap (es @ [?e]))) 0 = Inr (of_nat off OR t)" using len' r by (simp add: rd64_drop)
  then have ad: "add_to_log (shadow_example cap es) off v t = Inr (shadow_example cap (es @ [?e]))"
    using vc entry_valid_val(2) [OF _ v] by (simp add: add_to_log_def shadow_example_def)
  obtain q' k' where q': "merge_entries (operation_merge_entry_add rok ctx (16 * length es)) = q'" "candidates q' (Suc (length es)) k'" "k' \<le> Suc k"
    using candidates_add [OF q, of rok] unfolding operation_merge_entry_add_def Let_def by auto
  let ?ctx = "(operation_merge_entry_add rok ctx (16 * length es))\<lparr>pshadow_ops := shadow_example cap (es @ [?e])\<rparr>"
  have "ol_offset (shadow_example cap es) = 16 * length es" "ol_capacity (shadow_example cap es) = cap" by (simp_all add: shadow_example_def)
  moreover have same: "ctx\<lparr>pshadow_ops := shadow_example cap es\<rparr> = ctx" unfolding l(1) [symmetric] by simp
  ultimately have "operation_add_typed_entry mem rok ctx off v t Persistent = Inr (0, ?ctx)"
    using l(1,3) tm ad by (simp add: operation_add_typed_entry_def Let_def CACHELINE_SIZE_def same)
  then show ?thesis using q' by (intro exI [of _ ?ctx] exI [of _ k']) simp
qed

lemma collect_fresh:
  assumes "pshadow_ops ctx = shadow_example cap es" "cap mod 64 = 0" "16 * (length es + length ops) + 64 \<le> cap" "cap \<le> 2 ^ 40"
    and "candidates (merge_entries ctx) (length es) k" "k + length ops \<le> 64"
    and "aligned_ops n (es @ ops)" "distinct (map (\<lambda>e. fst (snd e)) (es @ ops))"
  shows "\<exists>ctx'. collect mem rok ctx ops = Inr (0, ctx') \<and> pshadow_ops ctx' = shadow_example cap (es @ ops)"
  using assms
proof (induction ops arbitrary: ctx es k)
  case (Cons op ops)
  obtain t off v where op: "op = (t, off, v)" by (cases op)
  have al: "aligned_ops n (es @ [(t, off, v)])" using Cons.prems(7) by (simp add: aligned_ops_iff op)
  obtain ctx1 k1 where a: "operation_add_typed_entry mem rok ctx off v t Persistent = Inr (0, ctx1)"
    "pshadow_ops ctx1 = shadow_example cap (es @ [(t, off, v)])" "candidates (merge_entries ctx1) (Suc (length es)) k1" "k1 \<le> Suc k"
    using add_fresh [OF Cons.prems(1,2) _ Cons.prems(4,5) _ al, of mem rok] Cons.prems(3,6,8) by (auto simp: op image_image)
  have kb: "k1 + length ops \<le> 64" using a(4) Cons.prems(6) by simp
  have "\<exists>ctx'. collect mem rok ctx1 ops = Inr (0, ctx') \<and> pshadow_ops ctx' = shadow_example cap ((es @ [(t, off, v)]) @ ops)"
    by (rule Cons.IH [OF a(2) Cons.prems(2) _ Cons.prems(4)]) (use a(3) kb Cons.prems op in simp_all)
  then show ?case using a(1) by (auto simp: op)
qed simp

section \<open>Torn logs\<close>

definition zero8 :: "byte list" where "zero8 = [0, 0, 0, 0, 0, 0, 0, 0]"
definition cap_word :: "byte list" where "cap_word = [64, 0, 0, 0, 0, 0, 0, 0]"
definition or_word :: "byte list" where "or_word = [8, 0, 0, 0, 0, 0, 0, 64]"
definition five_word :: "byte list" where "five_word = [5, 0, 0, 0, 0, 0, 0, 0]"
definition set_word :: "byte list" where "set_word = [16, 0, 0, 0, 0, 0, 0, 0]"
definition seven_word :: "byte list" where "seven_word = [7, 0, 0, 0, 0, 0, 0, 0]"
definition csum_word :: "byte list" where "csum_word = [100, 0, 0, 64, 172, 5, 0, 192]"

lemmas example_words = zero8_def cap_word_def or_word_def five_word_def set_word_def seven_word_def csum_word_def

text \<open>The log as it is stored, in groups of eight bytes: checksum, capacity and the words of the entries.\<close>

definition log_example :: "byte list \<Rightarrow> byte list \<Rightarrow> byte list \<Rightarrow> byte list \<Rightarrow> byte list \<Rightarrow> byte list \<Rightarrow> byte list" where
  "log_example csum cap o1 v1 o2 v2 = csum @ zero8 @ cap @ zero8 @ zero8 @ zero8 @ zero8 @ zero8 @ o1 @ v1 @ o2 @ v2"

lemma length_words [simp]: "length zero8 = 8" "length cap_word = 8" "length or_word = 8" "length five_word = 8" "length set_word = 8"
  "length seven_word = 8" "length csum_word = 8"
  by (simp_all add: example_words)

lemma entries_example: "concat (map entry_bytes ops_example) = or_word @ five_word @ set_word @ seven_word"
  by (simp add: ops_example_def ulog_operations to_le_def upt_rec example_words)

lemma to_le_example: "to_le 8 (0xc00005ac40000064 :: 64 word) = csum_word" "to_le 8 (64 :: 64 word) = cap_word"
  by (simp_all add: to_le_def upt_rec example_words)

lemma csum_example: "util_checksum_insert (log_example zero8 cap_word or_word five_word set_word seven_word) 0 0 =
    Inr (log_example csum_word cap_word or_word five_word set_word seven_word)"
proof -
  have "util_checksum_compute (log_example zero8 cap_word or_word five_word set_word seven_word) (Some 0) 0 = Inr 0xc00005ac40000064"
    unfolding log_example_def example_words util_checksum_compute_def by (simp add: checksum_loop.simps pack64_def)
  then show ?thesis by (simp add: util_checksum_insert_def to_le_example put_bytes_def) (simp add: log_example_def)
qed

lemma zeros_split: "replicate 16 0 = zero8 @ zero8" "replicate 40 0 = zero8 @ zero8 @ zero8 @ zero8 @ zero8"
  by (simp_all add: zero8_def numeral_eq_Suc)

lemma zero8_rep: "replicate 8 0 = zero8"
  by (simp add: zero8_def numeral_eq_Suc)

lemma padded_example: "padded 32 64 = 64"
  by (simp add: padded_def cacheline_align_def roundup64_def CACHELINE_SIZE_def u64_def)

lemma stored_example: "commit_bytes (shadow_bytes 1024 ops_example) 32 64 =
  log_example csum_word cap_word or_word five_word set_word seven_word @ replicate 32 0"
proof -
  have z: "to_le 8 (0 :: 64 word) = zero8" by (simp only: zero_word zero8_rep)
  have "put_bytes U_NEXT (to_le 8 (0 :: 64 word)) (put_bytes U_CAPACITY (to_le 8 (of_nat 64 :: 64 word)) (shadow_bytes 1024 ops_example))
      = log_example zero8 cap_word or_word five_word set_word seven_word @ replicate 992 0"
    by (simp add: shadow_bytes_def entries_example zeros_split put_bytes_def ulog_fields to_le_example z log_example_def) (simp add: ops_example_def)
  then have "commit_src (shadow_bytes 1024 ops_example) 32 64 =
      Inr (log_example csum_word cap_word or_word five_word set_word seven_word @ replicate 992 0)"
    using csum_example by (simp add: commit_src_def padded_example ulog_checksum_insert_def SIZEOF_ULOG_def log_example_def)
  then show ?thesis by (simp add: commit_bytes_def padded_example) (simp add: log_example_def)
qed

text \<open>What the media may hold when the power fails while the log is being stored.\<close>

definition sel :: "bool \<Rightarrow> byte list \<Rightarrow> byte list" where
  "sel b w = (if b then w else zero8)"

lemma length_sel [simp]: "length w = 8 \<Longrightarrow> length (sel b w) = 8"
  by (simp add: sel_def)

definition torn_log :: "bool \<Rightarrow> bool \<Rightarrow> bool \<Rightarrow> bool \<Rightarrow> bool \<Rightarrow> bool \<Rightarrow> byte list" where
  "torn_log k c o1 v1 o2 v2 = log_example (sel k csum_word) (sel c cap_word) (sel o1 or_word) (sel v1 five_word) (sel o2 set_word) (sel v2 seven_word)"

lemma map_groups: "map f [0..<8 * k] = concat (map (\<lambda>g. map (\<lambda>i. f (8 * g + i)) [0..<8]) [0..<k])"
proof (induction k)
  case (Suc k)
  have "[0..<8 * Suc k] = [0..<8 * k] @ map (\<lambda>i. 8 * k + i) [0..<8]"
    by (rule nth_equalityI) (auto simp: nth_append)
  then show ?case using Suc by simp
qed simp

lemma view_groups:
  assumes "length S = 8 * n"
  shows "ulog_view (Pool 64) (rebooted (64 + 8 * n) (crash_image keep (pm_store True 64 S (o_mem pool_example)))) =
    concat (map (\<lambda>g. sel (keep 0 (8 + g)) (take 8 (drop (8 * g) S))) [0..<n])"
proof -
  let ?im = "crash_image keep (pm_store True 64 S (o_mem pool_example))"
  have im: "?im x = (if keep 0 (x div 8) then put_at 64 S (\<lambda>_. 0) x else 0)" for x
    by (simp add: crash_image_def pm_store_def pool_example_def rebooted_def apply_store_def store_map_def put_at_def)
  have e: "map (\<lambda>i. ?im (64 + (8 * g + i))) [0..<8] = sel (keep 0 (8 + g)) (take 8 (drop (8 * g) S))" if "g < n" for g
  proof (rule nth_equalityI)
    show "length (map (\<lambda>i. ?im (64 + (8 * g + i))) [0..<8]) = length (sel (keep 0 (8 + g)) (take 8 (drop (8 * g) S)))"
      using that assms by (auto simp: sel_def)
    fix i assume "i < length (map (\<lambda>i. ?im (64 + (8 * g + i))) [0..<8])"
    then have i: "i < 8" by simp
    have "64 + (8 * g + i) = i + 8 * (8 + g)" by simp
    then have "(64 + (8 * g + i)) div 8 = 8 + g" using i by (simp only: div_mult_self2 div_less)
    then show "map (\<lambda>i. ?im (64 + (8 * g + i))) [0..<8] ! i = sel (keep 0 (8 + g)) (take 8 (drop (8 * g) S)) ! i"
      using i that assms by (simp add: im sel_def put_at_def zero8_rep [symmetric])
  qed
  have "ulog_view (Pool 64) (rebooted (64 + 8 * n) ?im) = map (\<lambda>i. ?im (64 + i)) [0..<8 * n]"
    unfolding ulog_view_def get_at_def by (rule nth_equalityI) simp_all
  also have "\<dots> = concat (map (\<lambda>g. map (\<lambda>i. ?im (64 + (8 * g + i))) [0..<8]) [0..<n])" by (rule map_groups)
  also have "map (\<lambda>g. map (\<lambda>i. ?im (64 + (8 * g + i))) [0..<8]) [0..<n] = map (\<lambda>g. sel (keep 0 (8 + g)) (take 8 (drop (8 * g) S))) [0..<n]"
    by (rule map_cong [OF refl]) (use e in simp)
  finally show ?thesis .
qed

lemma view_example:
  "ulog_view (Pool 64) (rebooted 192 (crash_image keep (pm_store True 64
      (log_example csum_word cap_word or_word five_word set_word seven_word @ replicate 32 0) (o_mem pool_example)))) =
    torn_log (keep 0 8) (keep 0 10) (keep 0 16) (keep 0 17) (keep 0 18) (keep 0 19) @ replicate 32 0"
proof -
  let ?S = "log_example csum_word cap_word or_word five_word set_word seven_word @ zero8 @ zero8 @ zero8 @ zero8"
  have r: "replicate 32 0 = zero8 @ zero8 @ zero8 @ zero8" by (simp add: zero8_def numeral_eq_Suc)
  have l: "length ?S = 8 * 16" by (simp add: log_example_def)
  have z: "sel b zero8 = zero8" for b by (simp add: sel_def)
  have u: "[0..<16] = [0, 1, 2, 3, 4, 5, 6, 7, 8, 9, 10, 11, 12, 13, 14, 15 :: nat]" by (simp add: upt_rec)
  show ?thesis unfolding r using view_groups [OF l, of keep]
    by (simp add: u log_example_def torn_log_def z)
qed

text \<open>A torn log is idle, or holds its entries with some values still zero and a checksum that is wrong.\<close>

lemma of_le_words:
  "of_le zero8 = (0 :: 64 word)" "of_le cap_word = (64 :: 64 word)" "of_le or_word = of_nat 8 OR ULOG_OPERATION_OR"
  "of_le set_word = of_nat 16 OR ULOG_OPERATION_SET"
  by (simp_all add: example_words ulog_operations)

lemma rd64_torn:
  "rd64 (torn_log k c o1 v1 o2 v2 @ replicate 32 0) 8 = Inr 0"
  "rd64 (torn_log k c o1 v1 o2 v2 @ replicate 32 0) 16 = Inr (if c then 64 else 0)"
  "rd64 (torn_log k c o1 v1 o2 v2 @ replicate 32 0) 64 = Inr (if o1 then of_nat 8 OR ULOG_OPERATION_OR else 0)"
  "rd64 (torn_log k c o1 v1 o2 v2 @ replicate 32 0) 80 = Inr (if o2 then of_nat 16 OR ULOG_OPERATION_SET else 0)"
  "rd64 (torn_log k c o1 v1 o2 v2 @ replicate 32 0) 96 = Inr 0"
  by (simp_all add: rd64_get get_bytes_def torn_log_def log_example_def of_le_words sel_def zero8_rep)

lemma length_torn: "length (torn_log k c o1 v1 o2 v2) = 96"
  by (simp add: torn_log_def log_example_def)

definition torn_entries :: "bool \<Rightarrow> bool \<Rightarrow> bool \<Rightarrow> vop list" where
  "torn_entries v1 o2 v2 = (ULOG_OPERATION_OR, 8, if v1 then 5 else 0) # (if o2 then [(ULOG_OPERATION_SET, 16, if v2 then 7 else 0)] else [])"

lemma torn_entries_bytes: "concat (map entry_bytes (torn_entries v1 o2 v2)) = or_word @ sel v1 five_word @ (if o2 then set_word @ sel v2 seven_word else [])"
  by (cases v1; cases o2; cases v2) (simp_all add: torn_entries_def ulog_operations to_le_def upt_rec sel_def example_words)

lemma torn_holds: "log_holds (torn_log k True True v1 o2 v2 @ replicate 32 0) 64 (torn_entries v1 o2 v2)"
proof -
  let ?b = "torn_log k True True v1 o2 v2 @ replicate 32 0" and ?es = "torn_entries v1 o2 v2"
  have n: "length ?es = (if o2 then 2 else 1)" by (simp add: torn_entries_def)
  have l: "length ?b = 128" by (simp add: torn_log_def log_example_def)
  have g: "get_bytes 64 (16 * length ?es) ?b = concat (map entry_bytes ?es)"
    unfolding n torn_entries_bytes by (cases o2) (simp_all add: torn_log_def log_example_def get_bytes_def sel_def [of True])
  have z: "rd64 ?b (64 + 16 * length ?es) = Inr 0" unfolding n using rd64_torn by (cases o2) simp_all
  show ?thesis unfolding log_holds_def using l g z n rd64_torn by (simp add: U_CAPACITY_def U_NEXT_def)
qed

lemma torn_check:
  "util_checksum_check (log_example (sel k csum_word) cap_word or_word (sel v1 five_word) set_word (sel v2 seven_word)) 0 0 = Inr (k \<and> v1 \<and> v2)"
  "util_checksum_check (sel k csum_word @ zero8 @ cap_word @ zero8 @ zero8 @ zero8 @ zero8 @ zero8 @ or_word @ sel v1 five_word) 0 0 = Inr False"
  unfolding util_checksum_check_def util_checksum_compute_def get_bytes_def log_example_def
  by (cases k; cases v1; cases v2; simp add: sel_def example_words checksum_loop.simps pack64_def)
    (cases k; cases v1; simp add: sel_def example_words checksum_loop.simps pack64_def)

lemma torn_detected:
  assumes "\<not> (k \<and> c \<and> o1 \<and> v1 \<and> o2 \<and> v2)"
  shows "ulog_recovery_needed (torn_log k c o1 v1 o2 v2 @ replicate 32 0) True = Inr False"
proof (cases "c \<and> o1")
  case False
  have "ulog_idle (torn_log k c o1 v1 o2 v2 @ replicate 32 0)"
    using False by (auto simp: ulog_idle_def rd64n_def U_CAPACITY_def rd64_torn length_torn)
  then show ?thesis by (rule idle_no_recovery)
next
  case True
  let ?b = "torn_log k True True v1 o2 v2 @ replicate 32 0" and ?es = "torn_entries v1 o2 v2"
  have ok: "\<forall>e \<in> set ?es. vop_ok 192 e" by (simp add: torn_entries_def vop_ok_def is_val_def)
  have n: "16 * length ?es = (if o2 then 32 else 16)" by (simp add: torn_entries_def)
  have "util_checksum_check (take (64 + 16 * length ?es) ?b) 0 0 = Inr False"
    using assms True torn_check unfolding n by (cases o2) (simp_all add: torn_log_def log_example_def sel_def [of True])
  moreover have "rd64n ?b U_CAPACITY = Inr 64" by (simp add: rd64n_def U_CAPACITY_def rd64_torn)
  moreover have "\<not> length ?b < 64 + 16 * length ?es" "min (16 * length ?es) 64 = 16 * length ?es" "16 * length ?es \<noteq> 0"
    unfolding n by (simp_all add: length_torn)
  ultimately have "ulog_recovery_needed ?b True = Inr False"
    using base_nbytes_holds [OF torn_holds ok]
    by (simp add: ulog_recovery_needed_def ulog_checksum_check_def SIZEOF_ULOG_def Let_def)
  then show ?thesis using True by simp
qed

section \<open>Runs\<close>

lemma example_fits: "operation_fits (context_example 1024) 192 ops_example"
  by (simp add: operation_fits_def ops_example_def aligned_ops_def places_def is_val_def away_def context_example_def)

lemma example_detectable: "operation_detectable (Some mem) rok ops_example (context_example 1024) pool_example"
  unfolding operation_detectable_def
proof (intro allI impI, elim conjE)
  fix ctx1 ctx2
  assume c: "operation_start (context_example 1024) = Inr ctx1" "collect (Some mem) rok ctx1 ops_example = Inr (0, ctx2)"
  have R: "context_ready (context_example 1024) pool_example" using example_ready by (simp add: redo_log_at_def)
  have G: "gathered ctx1 192 [] 0" using start_gathers [OF R] c(1) by (auto simp: pool_example_def)
  have c1: "pshadow_ops ctx1 = shadow_example 1024 []" "oc_ulog ctx1 = 64" "oc_base_nbytes ctx1 = 64"
    using c(1) by (auto simp: operation_start_def context_example_def operation_init_def shadow_example_def check_def)
  have q: "candidates (merge_entries ctx1) (length ([] :: vop list)) 0" using G by (simp add: gathered_def)
  have al: "aligned_ops 192 ([] @ ops_example)" using example_fits by (simp add: operation_fits_def)
  have n: "length ops_example = 2" "distinct (map (\<lambda>e. fst (snd e)) ([] @ ops_example))" by (simp_all add: ops_example_def)
  obtain ctx3 where "collect (Some mem) rok ctx1 ops_example = Inr (0, ctx3)" "pshadow_ops ctx3 = shadow_example 1024 ops_example"
    using collect_fresh [OF c1(1) _ _ _ q _ al n(2), of "Some mem" rok] n(1) by auto
  then have p: "pshadow_ops ctx2 = shadow_example 1024 ops_example" using c(2) by simp
  have "roomy ctx1 [] 0 (length ops_example)" by (simp add: roomy_def n(1))
  then have "only_collects ctx1 ctx2" using collect_all [OF G, of ops_example "mem" rok] al c(2) by auto
  then have f: "oc_ulog ctx2 = 64" "oc_base_nbytes ctx2 = 64" using only_collects_fields c1(2,3) by auto
  have st: "stored_bytes ctx2 = log_example csum_word cap_word or_word five_word set_word seven_word @ replicate 32 0"
    using stored_example by (simp add: stored_bytes_def p f shadow_example_def n(1))
  have sg: "significant (ol_offset (pshadow_ops ctx2)) 64 = 104"
    by (simp add: significant_def p f shadow_example_def n(1) padded_example)
  show "commit_detectable ctx2 pool_example"
    unfolding commit_detectable_def Let_def sg f st
  proof
    fix keep
    let ?v = "ulog_view (Pool 64) (rebooted (o_size pool_example) (crash_image keep (pm_store True 64
      (log_example csum_word cap_word or_word five_word set_word seven_word @ replicate 32 0) (o_mem pool_example))))"
    have v: "?v = torn_log (keep 0 8) (keep 0 10) (keep 0 16) (keep 0 17) (keep 0 18) (keep 0 19) @ replicate 32 0"
      using view_example by (simp add: pool_example_def)
    show "ulog_recovery_needed ?v True = Inr False \<or>
      take 104 ?v = take 104 (log_example csum_word cap_word or_word five_word set_word seven_word @ replicate 32 0)"
    proof (cases "keep 0 8 \<and> keep 0 10 \<and> keep 0 16 \<and> keep 0 17 \<and> keep 0 18 \<and> keep 0 19")
      case True
      then show ?thesis unfolding v by (simp add: torn_log_def sel_def)
    next
      case False
      then show ?thesis unfolding v using torn_detected by blast
    qed
  qed
qed

text \<open>Two operations, one after the other.\<close>

definition runs_example :: "vop list list" where
  "runs_example = [ops_example, [(ULOG_OPERATION_SET, 8, 9)]]"

lemma example_runs: "fits_all (run_redo mem rok ulog_free remove) (redo_fits mem rok) runs_example (context_example 1024, pool_example)"
proof -
  have f: "redo_fits mem rok ops_example (context_example 1024, pool_example)"
    using example_fits example_detectable [of mem rok] by (simp add: redo_fits_def pool_example_def)
  obtain p where p: "run_redo mem rok ulog_free remove ops_example (context_example 1024, pool_example) = Some p" "redo_log_at 192 64 64 p"
    using redo.step [OF example_ready f] by blast
  obtain ctx s where ps: "p = (ctx, s)" by (cases p)
  have r: "context_ready ctx s" "oc_ulog ctx = 64" "oc_base_nbytes ctx = 64" "o_size s = 192" using p(2) by (simp_all add: redo_log_at_def ps)
  have al: "aligned_ops 192 [(ULOG_OPERATION_SET, 8, 9)]" by (simp add: aligned_ops_def places_def is_val_def)
  then have "operation_fits ctx 192 [(ULOG_OPERATION_SET, 8, 9)]" using r by (simp add: operation_fits_def away_def)
  moreover have "operation_detectable (Some mem) rok [(ULOG_OPERATION_SET, 8, 9)] ctx s" by (rule single_detectable [OF r(1)]) (simp add: r al)
  ultimately show ?thesis using f p(1) r by (simp add: runs_example_def redo_fits_def ps)
qed

end
