(* ===== verification/UlogClaims.thy ===== *)
theory UlogClaims
  imports UlogExample
begin

text \<open>
  The properties of the redo log: atomic operations, collecting and merging, recovery; and the merge queue once it is full.
\<close>

unbundle bit_operations_syntax

section \<open>Operations\<close>

text \<open>C37: Any sequence of redo operations through one context runs to its end and carries out its modifications
  in order. After a power failure at any moment of it, with any of the eight-byte groups in flight lost, recovery of the log
  succeeds and leaves, outside the log, the effect of the first operations up to some point: each of them happened as a whole or
  not at all. Operations must fit into the first log, leave it alone and modify aligned words; the checksum
  of a stored log must tell it from its torn versions.\<close>

theorem redo_operations_atomic:
  assumes "redo_log_at n a base (ctx, s)" "fits_all (run_redo mem rok ulog_free remove) (redo_fits mem rok) opss (ctx, s)"
  shows "\<exists>ctx' s'. run_all (run_redo mem rok ulog_free remove) opss (ctx, s) = Some (ctx', s') \<and> context_ready ctx' s' \<and>
    outside a (64 + base) (olive s') = fold effects opss (outside a (64 + base) (olive s)) \<and>
    (\<exists>H. o_hist s' = o_hist s @ H \<and> (\<forall>m \<in> set H. \<forall>keep. \<exists>i \<le> length opss. \<exists>s''.
      ulog_recover a (rebooted n (crash_image keep m)) = (Inr (), s'') \<and>
      outside a (64 + base) (olive s'') = fold effects (take i opss) (outside a (64 + base) (olive s))))"
proof -
  let ?v = "\<lambda>s. outside a (64 + base) (olive s)"
  obtain ctx' s' H where run: "run_all (run_redo mem rok ulog_free remove) opss (ctx, s) = Some (ctx', s')" "redo_log_at n a base (ctx', s')"
    "?v s' = fold effects opss (?v s)" "o_hist s' = o_hist s @ H"
    and H: "\<forall>m \<in> set H. \<exists>i < length opss. found_after n a base m \<subseteq>
      {Some (fold effects (take i opss) (?v s)), Some (fold effects (take (Suc i) opss) (?v s))}"
    using redo.prefixes [OF assms] by auto
  have "\<exists>i \<le> length opss. \<exists>s''. ulog_recover a (rebooted n (crash_image keep m)) = (Inr (), s'') \<and> ?v s'' = fold effects (take i opss) (?v s)"
    if m: "m \<in> set H" for m keep
  proof -
    obtain i where i: "i < length opss"
      "found_after n a base m \<subseteq> {Some (fold effects (take i opss) (?v s)), Some (fold effects (take (Suc i) opss) (?v s))}"
      using H m by blast
    obtain r s'' where r: "ulog_recover a (rebooted n (crash_image keep m)) = (r, s'')" by fastforce
    have "(case r of Inr _ \<Rightarrow> Some (?v s'') | Inl _ \<Rightarrow> None) \<in> found_after n a base m"
      unfolding found_after_def by (rule image_eqI [of _ _ keep]) (use r in \<open>auto split: sum.splits\<close>)
    then have "(case r of Inr _ \<Rightarrow> Some (?v s'') | Inl _ \<Rightarrow> None) \<in> {Some (fold effects (take i opss) (?v s)), Some (fold effects (take (Suc i) opss) (?v s))}"
      using i(2) by (rule rev_subsetD)
    then have "r = Inr ()" "?v s'' = fold effects (take i opss) (?v s) \<or> ?v s'' = fold effects (take (Suc i) opss) (?v s)"
      by (cases r; simp)+
    moreover have "i \<le> length opss" "Suc i \<le> length opss" using i(1) by simp_all
    ultimately show ?thesis using r by blast
  qed
  moreover have "context_ready ctx' s'" using run(2) by (simp add: redo_log_at_def)
  ultimately show ?thesis using run(1,3,4) by (intro exI [of _ ctx'] exI [of _ s'] conjI exI [of _ H] ballI allI)
qed

theorem redo_operations_atomic_witness:
  "\<exists>ctx' s'. run_all (run_redo (\<lambda>_. 0) True (\<lambda>_. aret ()) (\<lambda>_. aret ())) runs_example (context_example 1024, pool_example) = Some (ctx', s') \<and>
    outside 64 128 (olive s') = fold effects runs_example (outside 64 128 (olive pool_example))"
  using redo_operations_atomic [OF example_ready example_runs, of "\<lambda>_. 0" True "\<lambda>_. aret ()" "\<lambda>_. aret ()"] by auto

text \<open>C39: Collecting modifications of aligned words gives a log that stands for exactly these modifications in their order, however
  many are merged into earlier entries: for up to 64 of them, and for any number in a context whose shadow log has not grown before.\<close>

theorem collect_equivalent:
  assumes "context_ready ctx s" "operation_start ctx = Inr ctx1" "aligned_ops (o_size s) ops"
    and "length ops \<le> 64 \<or> ol_capacity (pshadow_ops ctx) = ULOG_BASE_SIZE"
  shows "\<exists>ctx2 es. collect (Some mem) rok ctx1 ops = Inr (0, ctx2) \<and> shadow_log (pshadow_ops ctx2) (oc_base_nbytes ctx) es \<and>
    effects es = effects ops \<and> length es \<le> length ops \<and> places es \<subseteq> places ops"
proof -
  have G: "gathered ctx1 (o_size s) [] 0" "oc_base_nbytes ctx1 = oc_base_nbytes ctx" using start_gathers [OF assms(1)] assms(2) by auto
  have "ol_capacity (pshadow_ops ctx1) = ol_capacity (pshadow_ops ctx)"
    using assms(1,2) by (auto simp: operation_start_def operation_init_def context_ready_def)
  then have "roomy ctx1 [] 0 (length ops)" using assms(4) by (auto simp: roomy_def ULOG_BASE_SIZE_def)
  then obtain ctx2 es k where c: "collect (Some mem) rok ctx1 ops = Inr (0, ctx2)" "only_collects ctx1 ctx2" "gathered ctx2 (o_size s) es k"
    "places es \<subseteq> places ([] @ ops)" "length es \<le> length ([] :: vop list) + length ops" "effects es = effects ([] @ ops)"
    using collect_all [OF G(1) assms(3)] by blast
  have "shadow_log (pshadow_ops ctx2) (oc_base_nbytes ctx) es" using c(3) only_collects_fields [OF c(2)] G(2) by (simp add: gathered_def)
  then show ?thesis using c by auto
qed

theorem collect_equivalent_witness:
  "\<exists>ctx1 ctx2 es. operation_start (context_example 1024) = Inr ctx1 \<and>
    collect (Some (\<lambda>_. 0)) True ctx1 [(ULOG_OPERATION_OR, 8, 1), (ULOG_OPERATION_OR, 8, 2)] = Inr (0, ctx2) \<and>
    shadow_log (pshadow_ops ctx2) 64 es \<and> effects es = effects [(ULOG_OPERATION_OR, 8, 1), (ULOG_OPERATION_OR, 8, 2)]"
proof -
  have R: "context_ready (context_example 1024) pool_example" "o_size pool_example = 192" using example_ready by (simp_all add: redo_log_at_def)
  obtain ctx1 where c: "operation_start (context_example 1024) = Inr ctx1" using start_gathers [OF R(1)] by blast
  have al: "aligned_ops (o_size pool_example) [(ULOG_OPERATION_OR, 8, 1), (ULOG_OPERATION_OR, 8, 2)]"
    by (simp add: R(2) aligned_ops_def places_def is_val_def)
  have b: "oc_base_nbytes (context_example 1024) = 64" by (simp add: context_example_def)
  show ?thesis using collect_equivalent [OF R(1) c al, of "\<lambda>_. 0" True] c unfolding b by auto
qed

section \<open>A full merge queue\<close>

lemma full_queue:
  assumes "candidates (merge_entries ctx) 64 64"
  shows "vq_reverse (merge_entries (operation_merge_entry_add rok ctx (16 * 64))) = map (\<lambda>j. 16 * j) (rev [1..<64] @ [64])"
proof -
  define q where q: "q = merge_entries ctx"
  have c: "vq_front q = 0" "vq_back q = 64" "length (vq_buffer q) = 64" "\<And>i. i < 64 \<Longrightarrow> vq_buffer q ! i = 16 * i"
    using assms by (auto simp: candidates_def q)
  have "(1 :: nat) AND 63 = 1" "(64 :: nat) AND 63 = 0" using and63 [of 1] by simp_all
  then have q': "merge_entries (operation_merge_entry_add rok ctx (16 * 64)) = \<lparr>vq_buffer = (vq_buffer q)[0 := 1024], vq_front = 1, vq_back = 65\<rparr>"
    using c q by (simp add: operation_merge_entry_add_def VECQ_SIZE_def OP_MERGE_SEARCH_def VECQ_DEQUEUE_def VECQ_ENQUEUE_def
        VECQ_INSERT_def vq_capacity_def vq_pos_def Let_def)
  have l: "length (vq_buffer q) = 64" by (rule c(3))
  have "map (\<lambda>i. (vq_buffer q)[0 := 1024] ! ((i - 1) AND 63)) [1..<65] = 1024 # map (\<lambda>j. 16 * j) [1..<64]"
  proof (rule nth_equalityI)
    fix i assume "i < length (map (\<lambda>i. (vq_buffer q)[0 := 1024] ! ((i - 1) AND 63)) [1..<65])"
    then have i: "i < 64" by simp
    then show "map (\<lambda>i. (vq_buffer q)[0 := 1024] ! ((i - 1) AND 63)) [1..<65] ! i = (1024 # map (\<lambda>j. 16 * j) [1..<64]) ! i"
      using and63 [OF i] c(4) [OF i] l by (cases i) simp_all
  qed simp
  then have "rev (map (\<lambda>i. (vq_buffer q)[0 := 1024] ! ((i - 1) AND 63)) [1..<65]) = rev (1024 # map (\<lambda>j. 16 * j) [1..<64])" by (rule arg_cong)
  moreover have "VECQ_SIZE \<lparr>vq_buffer = (vq_buffer q)[0 := 1024], vq_front = 1, vq_back = 65\<rparr> + 1 = 65" by (simp add: VECQ_SIZE_def)
  ultimately show ?thesis
    unfolding vq_reverse_def q' by (simp only: vq_pos_def vq_capacity_def vecq.simps length_list_update l rev_map) (simp add: rev_map)
qed

lemma get_effect: "get_at (effect (t, off, v) m) off 8 = to_le 8 (val_fun t v (of_le (get_at m off 8)))"
  unfolding effect.simps by (rule nth_equalityI) (simp_all add: get_at_def put_at_def)

text \<open>C40: Once the queue of merge candidates has given up its oldest entry, it is not searched from the newest
  entry to the oldest any more. With 64 entries of which the last sets bits of a word, clearing that word and setting a bit again merges
  the second modification into the old entry, in front of the clearing one: the log leaves the word zero, where the modifications
  in their order leave the bit set. It takes a shadow log that grew in an earlier operation.\<close>

theorem full_queue_reorders:
  assumes "gathered ctx n es 64" "length es = 64" "es ! 63 = (ULOG_OPERATION_OR, off, v0)" "1104 < ol_capacity (pshadow_ops ctx)"
  shows "\<exists>ctx1 ctx2 log. operation_add_typed_entry mem rok ctx off 0 ULOG_OPERATION_AND Persistent = Inr (0, ctx1) \<and>
    operation_add_typed_entry mem rok ctx1 off v ULOG_OPERATION_OR Persistent = Inr (0, ctx2) \<and>
    shadow_log (pshadow_ops ctx2) (oc_base_nbytes ctx) log \<and> get_at (effects log m) off 8 = to_le 8 (0 :: 64 word) \<and>
    get_at (effects (es @ [(ULOG_OPERATION_AND, off, 0), (ULOG_OPERATION_OR, off, v)]) m) off 8 = to_le 8 v"
proof -
  let ?l = "pshadow_ops ctx" and ?a = "(ULOG_OPERATION_AND, off, 0) :: vop"
  have S: "shadow_log ?l (oc_base_nbytes ctx) es" and q: "candidates (merge_entries ctx) 64 64" and ok: "\<forall>e \<in> set es. vop_ok n e"
    using assms(1,2) by (simp_all add: gathered_def aligned_ops_iff)
  have "es ! 63 \<in> set es" using assms(2) by (intro nth_mem) simp
  then have v0: "vop_ok n (ULOG_OPERATION_OR, off, v0)" using ok assms(3) by auto
  then have va: "vop_ok n ?a" by (simp add: vop_ok_def is_val_def)
  have ne: "ULOG_OPERATION_OR \<noteq> ULOG_OPERATION_AND" by (simp add: ulog_operations)
  have s: "ol_offset ?l = 16 * 64" "length (ol_ulog ?l) = 64 + ol_capacity ?l"
    "get_bytes 64 (16 * length es) (ol_ulog ?l) = concat (map entry_bytes es)"
    using S assms(2) by (simp_all add: shadow_log_def)
  have b: "64 + 16 * length es \<le> length (ol_ulog ?l)" using s(2) assms(2,4) by simp
  have tm: "operation_try_merge_entry ctx off 0 ULOG_OPERATION_AND = Inr None"
  proof -
    have no: False if "p < 64" "es ! p = (ULOG_OPERATION_AND, off, w)" "\<forall>q. p < q \<and> q < 64 \<longrightarrow> fst (snd (es ! q)) \<noteq> off" for p w
      using that assms(3) ne spec [OF that(3), of 63] by (cases "p = 63") auto
    have "try_merge (map (\<lambda>j. 16 * j) (rev [0..<64])) (ol_ulog ?l) off 0 ULOG_OPERATION_AND = Inr None"
      using try_merge_ok [OF s(3) b ok _ order_refl, of ULOG_OPERATION_AND 0 off 0] no
      unfolding assms(2) by (auto simp: is_val_def)
    then show ?thesis using candidates_reverse [OF q] by (simp add: operation_try_merge_entry_def)
  qed
  obtain l' where l': "add_to_log ?l off 0 ULOG_OPERATION_AND = Inr l'" "shadow_log l' (oc_base_nbytes ctx) (es @ [?a])" "ol_capacity l' = ol_capacity ?l"
    using shadow_append [OF S _ va] assms(2,4) by auto
  let ?ctx1 = "(operation_merge_entry_add rok ctx (16 * 64))\<lparr>pshadow_ops := l'\<rparr>"
  have a1: "operation_add_typed_entry mem rok ctx off 0 ULOG_OPERATION_AND Persistent = Inr (0, ?ctx1)"
    using s(1) assms(4) tm l'(1) by (simp add: operation_add_typed_entry_def Let_def CACHELINE_SIZE_def)
  have s': "ol_offset l' = 1040" "length (ol_ulog l') = 64 + ol_capacity l'"
    "get_bytes 64 (16 * length (es @ [?a])) (ol_ulog l') = concat (map entry_bytes (es @ [?a]))"
    using l'(2) assms(2) by (simp_all add: shadow_log_def)
  have e63: "(es @ [?a]) ! 63 = (ULOG_OPERATION_OR, off, v0)" using assms(2,3) by (simp add: nth_append)
  have w: "rd64 (ol_ulog l') (64 + 16 * 63) = Inr (of_nat off OR ULOG_OPERATION_OR)" "rd64 (ol_ulog l') (64 + 16 * 63 + 8) = Inr v0"
    using entry_words [OF s'(3) _ _ e63] s'(2) l'(3) assms(2,4) by simp_all
  have d: "ulog_entry_type (of_nat off OR ULOG_OPERATION_OR) = ULOG_OPERATION_OR" "ulog_entry_offset (of_nat off OR ULOG_OPERATION_OR) = off"
    using v0 by (auto simp: vop_ok_def entry_decode)
  have "vq_reverse (merge_entries ?ctx1) = 16 * 63 # map (\<lambda>j. 16 * j) (rev [1..<63] @ [64])"
    using full_queue [OF q, of rok] by (simp add: upt_rec [of 63 64] upt_add_eq_append [of 1 63 1, simplified])
  then have tm2: "try_merge (vq_reverse (merge_entries ?ctx1)) (ol_ulog l') off v ULOG_OPERATION_OR =
      Inr (Some (put_bytes (64 + 16 * 63 + 8) (to_le 8 (merged ULOG_OPERATION_OR v0 v)) (ol_ulog l')))"
    using w d operation_merge_ok [of ULOG_OPERATION_OR v0 v] by (simp add: is_val_def)
  let ?l2 = "l'\<lparr>ol_ulog := put_bytes (64 + 16 * 63 + 8) (to_le 8 (merged ULOG_OPERATION_OR v0 v)) (ol_ulog l')\<rparr>"
  have a2: "operation_add_typed_entry mem rok ?ctx1 off v ULOG_OPERATION_OR Persistent = Inr (0, ?ctx1\<lparr>pshadow_ops := ?l2\<rparr>)"
    using s'(1) l'(3) assms(4) tm2 by (simp add: operation_add_typed_entry_def operation_try_merge_entry_def Let_def CACHELINE_SIZE_def)
  let ?log = "es[63 := (ULOG_OPERATION_OR, off, merged ULOG_OPERATION_OR v0 v)] @ [?a]"
  have "shadow_log ?l2 (oc_base_nbytes ctx) ((es @ [?a])[63 := (ULOG_OPERATION_OR, off, merged ULOG_OPERATION_OR v0 v)])"
    by (rule shadow_merge [OF l'(2) _ e63]) (simp add: assms(2))
  then have sl: "shadow_log ?l2 (oc_base_nbytes ctx) ?log" using assms(2) by (simp add: list_update_append1)
  have "get_at (effects ?log m) off 8 = to_le 8 (0 :: 64 word)" by (simp add: get_effect val_fun_def)
  moreover have "get_at (effects (es @ [?a, (ULOG_OPERATION_OR, off, v)]) m) off 8 = to_le 8 v"
    using ne by (simp add: get_effect val_fun_def of_le_to_le)
  ultimately show ?thesis using a1 a2 sl by (intro exI [of _ ?ctx1] exI [of _ "?ctx1\<lparr>pshadow_ops := ?l2\<rparr>"] exI [of _ ?log]) simp
qed

definition full_entries :: "vop list" where
  "full_entries = map (\<lambda>i. (ULOG_OPERATION_OR, 8 * Suc i, 1)) [0..<64]"

definition full_context :: operation_context where
  "full_context = (context_example 2048)\<lparr>pshadow_ops := shadow_example 2048 full_entries,
     merge_entries := \<lparr>vq_buffer = map (\<lambda>i. 16 * i) [0..<64], vq_front = 0, vq_back = 64\<rparr>\<rparr>"

theorem full_queue_reorders_witness:
  "\<exists>ctx1 ctx2 log. operation_add_typed_entry None True full_context 512 0 ULOG_OPERATION_AND Persistent = Inr (0, ctx1) \<and>
    operation_add_typed_entry None True ctx1 512 2 ULOG_OPERATION_OR Persistent = Inr (0, ctx2) \<and>
    shadow_log (pshadow_ops ctx2) (oc_base_nbytes full_context) log \<and> get_at (effects log (\<lambda>_. 0)) 512 8 = to_le 8 (0 :: 64 word) \<and>
    get_at (effects (full_entries @ [(ULOG_OPERATION_AND, 512, 0), (ULOG_OPERATION_OR, 512, 2)]) (\<lambda>_. 0)) 512 8 = to_le 8 (2 :: 64 word)"
proof -
  have n: "length full_entries = 64" by (simp add: full_entries_def)
  have "shadow_log (shadow_example 2048 full_entries) 64 full_entries" by (rule shadow_example_ok) (simp_all add: n)
  moreover have "aligned_ops 1024 full_entries" by (auto simp: aligned_ops_def places_def full_entries_def is_val_def)
  ultimately have "gathered full_context 1024 full_entries 64"
    by (simp add: gathered_def full_context_def context_example_def candidates_def n)
  moreover have "full_entries ! 63 = (ULOG_OPERATION_OR, 512, 1)" by (simp add: full_entries_def)
  moreover have "1104 < ol_capacity (pshadow_ops full_context)" by (simp add: full_context_def shadow_example_def)
  ultimately show ?thesis by (intro full_queue_reorders [OF _ n])
qed

section \<open>Recovery\<close>

text \<open>C38: Recovery carries out the modifications of a complete log, and it may itself be interrupted: after a power failure at any moment of
  it, with any of the groups in flight lost, running it again gives the same memory outside the log.\<close>

theorem recovery_restartable:
  assumes "log_holds (ulog_view (Pool a) s) cap es" "pm_clean (o_mem s)" "a mod 8 = 0" "64 \<le> cap" "es \<noteq> []"
    "\<forall>e \<in> set es. vop_ok (o_size s) e" "away a (64 + cap) es" "ulog_recovery_needed (ulog_view (Pool a) s) True = Inr True"
  shows "\<exists>s' H. ulog_recover a s = (Inr (), s') \<and> outside a (64 + cap) (olive s') = outside a (64 + cap) (effects es (olive s)) \<and>
    o_hist s' = o_hist s @ H \<and> (\<forall>m \<in> set H. \<forall>keep. \<exists>s''. ulog_recover a (rebooted (o_size s) (crash_image keep m)) = (Inr (), s'') \<and>
      outside a (64 + cap) (olive s'') = outside a (64 + cap) (olive s'))"
proof -
  note r = recover_runs [OF assms(1,6,7,8)]
  have o: "outside a (64 + cap) (olive (recovered a es s)) = outside a (64 + cap) (effects es (olive s))"
    unfolding r(2) outside_eq using assms(4) by (auto simp: put_at_def)
  show ?thesis using recover_again [OF assms] r(1) o unfolding outside_eq [symmetric] add.assoc by auto
qed

theorem recovery_restartable_witness:
  "\<exists>s s'. ulog_recover 64 s = (Inr (), s') \<and> outside 64 128 (olive s') = outside 64 128 (effects ops_example (olive s)) \<and> s' \<noteq> s"
proof -
  let ?S = "log_example csum_word cap_word or_word five_word set_word seven_word @ replicate 32 0"
  define s where "s = rebooted 192 (put_at 64 ?S (\<lambda>_. 0))"
  have l: "length ?S = 128" by (simp add: log_example_def)
  have v: "ulog_view (Pool 64) s = torn_log True True True True True True @ replicate 32 0"
  proof -
    have "ulog_view (Pool 64) s = get_at (put_at 64 ?S (\<lambda>_. 0)) 64 (length ?S)" by (simp add: ulog_view_def s_def l del: length_append)
    also have "\<dots> = ?S" by (rule nth_equalityI) (simp_all add: get_at_def put_at_def del: length_append)
    finally show ?thesis by (simp add: torn_log_def sel_def)
  qed
  have e: "torn_entries True True True = ops_example" by (simp add: torn_entries_def ops_example_def)
  have h: "log_holds (ulog_view (Pool 64) s) 64 ops_example" using torn_holds [of True True True True] unfolding v e .
  have n: "o_size s = 192" "pm_clean (o_mem s)" by (simp_all add: s_def rebooted_def pm_clean_def)
  have ok: "\<forall>e \<in> set ops_example. vop_ok (o_size s) e" by (simp add: ops_example_def vop_ok_def is_val_def n)
  have "take 96 (ulog_view (Pool 64) s) = log_example (sel True csum_word) cap_word or_word (sel True five_word) set_word (sel True seven_word)"
    unfolding v by (simp add: length_torn) (simp add: torn_log_def sel_def)
  moreover have "rd64n (ulog_view (Pool 64) s) U_CAPACITY = Inr 64" by (simp add: v rd64n_def U_CAPACITY_def rd64_torn)
  moreover have "length (ulog_view (Pool 64) s) = 128" by (simp add: n)
  ultimately have need: "ulog_recovery_needed (ulog_view (Pool 64) s) True = Inr True"
    using base_nbytes_holds [OF h ok] torn_check(1) [of True True True]
    by (simp add: ulog_recovery_needed_def ulog_checksum_check_def SIZEOF_ULOG_def Let_def ops_example_def)
  have aw: "away 64 (64 + 64) ops_example" by (simp add: away_def ops_example_def)
  obtain s' H where r: "ulog_recover 64 s = (Inr (), s')" "outside 64 (64 + 64) (olive s') = outside 64 (64 + 64) (effects ops_example (olive s))"
    using recovery_restartable [OF h n(2) _ _ _ ok aw need] by (auto simp: ops_example_def)
  have "effects ops_example (olive s) 8 = 5"
    unfolding effects_byte ops_example_def by (simp add: s_def put_at_def bval_def ulog_operations to_le_def)
  then have "outside 64 128 (olive s') 8 \<noteq> outside 64 128 (olive s) 8"
    using fun_cong [OF r(2), of 8] by (simp add: outside_def s_def put_at_def)
  then show ?thesis using r by (intro exI [of _ s] exI [of _ s']) auto
qed

end
