(* ===== verification/Spec2Isabelle.thy ===== *)
theory Spec2Isabelle
  imports BlkClaims BttClaims DgapClaims DgapKernels DgapThreadClaims LogClaims UlogClaims
begin

text \<open>
  A verification library for DGAP, a framework for dynamic graphs on persistent memory (\<^verbatim>\<open>src/dgap\<close>), and for the
  block and log stores and the redo log of the persistent memory development kit it is built with (\<^verbatim>\<open>src/pmdk/src\<close>).

  \<^bold>\<open>The program.\<close> DGAP keeps the edges of a graph in one packed memory array with gaps, ordered by source vertex, a
  vertex table that says where the edges of a vertex start, and one small log per segment for the edges that find
  no free cell behind their vertex. An insertion that makes a segment too dense climbs a calibrator tree of windows
  and spreads the edges of a window evenly, or doubles the array. The array and the logs live in persistent memory;
  the vertex table and the counters are backed up at shutdown and rebuilt by a scan after a crash. The kernels read the graph
  through iterators. The stores of the development kit keep blocks (a block translation table with
  a log of free blocks) and bytes (an append-only log) in pool files, so that a power failure leaves each
  operation done or not done. The object store, which holds the pool of DGAP, collects the modifications of an operation in ordinary
  memory, stores them with a checksum in a log of the pool, carries them out and clears the log; after a power failure a
  complete log is carried out again.

  \<^bold>\<open>Conventions.\<close> Structures are records with the fields of the source, operations are functions from a state to
  a new state in the result type \<^verbatim>\<open>res\<close> (faults: failed assertions, accesses outside of an array, loops
  that do not end) or in the state monad of \<^verbatim>\<open>PmdkMonad\<close>, which also has the values of \<^verbatim>\<open>errno\<close>. Addresses and sizes are
  naturals or integers with the wrap-around of the C types written out where it can matter (\<open>u32\<close>, \<open>u64\<close>); bit
  fields and checksums are words. What memory allocation, the operating system and libraries outside the tree return is an
  argument of the definitions.

  \<^bold>\<open>Theories.\<close>
  \<^item> \<^verbatim>\<open>Prelude\<close>: results, arrays with bounds checks, C division. \<^verbatim>\<open>PmdkUtil\<close>, \<^verbatim>\<open>PmdkChecksum\<close>, \<^verbatim>\<open>PmdkMonad\<close>: bytes,
    checksums (\<^verbatim>\<open>core/util.c\<close>), the monad. \<^verbatim>\<open>PmdkPersist\<close>: stores, flushes, fences and what a power failure leaves
    of them.
  \<^item> \<^verbatim>\<open>DgapUtil\<close>, \<^verbatim>\<open>DgapGraph\<close>, \<^verbatim>\<open>DgapPositions\<close>, \<^verbatim>\<open>DgapRebalance\<close>, \<^verbatim>\<open>DgapInsert\<close>, \<^verbatim>\<open>DgapNeigh\<close>: \<^verbatim>\<open>util.h\<close> and the
    class \<^verbatim>\<open>CSRGraph\<close> of \<^verbatim>\<open>graph.h\<close>, method by method: state, positions in IEEE doubles (\<^verbatim>\<open>DgapFp\<close>), rebalancing with its
    undo log, insertion, locks, resizing, iteration. Their \<^verbatim>\<open>Ok\<close> theories (\<^verbatim>\<open>DgapRebalanceOk\<close>, \<^verbatim>\<open>DgapWindowOk\<close>,
    \<^verbatim>\<open>DgapWeightedOk\<close>, \<^verbatim>\<open>DgapInsertOk\<close>, \<^verbatim>\<open>DgapDynamicOk\<close>, \<^verbatim>\<open>DgapResizeOk\<close>, \<^verbatim>\<open>DgapThreshold\<close>, \<^verbatim>\<open>DgapLocksOk\<close>, \<^verbatim>\<open>DgapClimbOk\<close>,
    \<^verbatim>\<open>DgapTopOk\<close>, \<^verbatim>\<open>DgapNeighOk\<close>) hold the invariants \<^verbatim>\<open>wf\<close> and \<^verbatim>\<open>inv\<close> and show that every operation keeps them and
    treats the adjacency lists (\<^verbatim>\<open>vlist\<close>) as the specification says; \<^verbatim>\<open>DgapClaims\<close> states it. An insertion fails in one case,
    which \<^verbatim>\<open>resize_overruns\<close> decides: it resizes while the last vertex has logged edges.
  \<^item> \<^verbatim>\<open>DgapBuild\<close>, \<^verbatim>\<open>DgapReopen\<close> with \<^verbatim>\<open>DgapBuildOk\<close>, \<^verbatim>\<open>DgapMakeOk\<close>, \<^verbatim>\<open>DgapReopenOk\<close>, \<^verbatim>\<open>DgapRecoverOk\<close> and
    \<^verbatim>\<open>DgapLifeClaims\<close>: the builder (\<^verbatim>\<open>builder.h\<close>), the constructor on a new and on an existing pool file, the
    destructor and the recovery scan. Building fails exactly when one of its insertions does (\<^verbatim>\<open>list_overruns\<close>), which cannot happen while the
    array is at most half full.
  \<^item> \<^verbatim>\<open>DgapThreads\<close>, \<^verbatim>\<open>DgapThreadsOk\<close>, \<^verbatim>\<open>DgapThreadClaims\<close>: the locking protocol of concurrent insertions as a
    step relation over program counters, segment mutexes, \<^verbatim>\<open>on_rebalance\<close> counters and condition variables. The outcomes of
    the density tests are free, so the steps over-approximate the code, and the properties are about all reachable states.
  \<^item> \<^verbatim>\<open>KernelQueue\<close>, \<^verbatim>\<open>KernelCc\<close>, \<^verbatim>\<open>KernelBfs\<close>, \<^verbatim>\<open>KernelBfsOk\<close>, \<^verbatim>\<open>DgapKernels\<close>: bitmap, sliding queue, connected components
    (\<^verbatim>\<open>cc_sv.cc\<close>) and direction-optimizing breadth-first search (\<^verbatim>\<open>bfs.cc\<close>). The locale \<^verbatim>\<open>readable_graphs\<close>
    states what a kernel needs of a graph; DGAP provides it (interpretation \<^verbatim>\<open>dgap_graphs\<close>).
  \<^item> \<^verbatim>\<open>BttLayout\<close>, \<^verbatim>\<open>Btt\<close>, \<^verbatim>\<open>BttLoad\<close>, \<^verbatim>\<open>BttOps\<close>: \<^verbatim>\<open>btt_layout.h\<close> and \<^verbatim>\<open>btt.c\<close> over a namespace that may be torn at
    any step; \<^verbatim>\<open>BttInv\<close>, \<^verbatim>\<open>BttStep\<close>, \<^verbatim>\<open>BttWrite\<close>, \<^verbatim>\<open>BttMedia\<close>, \<^verbatim>\<open>BttEffect\<close>, \<^verbatim>\<open>BttOk\<close>, \<^verbatim>\<open>BttFlags\<close>, \<^verbatim>\<open>BttReopen\<close>,
    \<^verbatim>\<open>BttOpen\<close>, \<^verbatim>\<open>BttCrash\<close>, \<^verbatim>\<open>BttFormat\<close>, \<^verbatim>\<open>BttLife\<close>, \<^verbatim>\<open>BttCheck\<close> prove it, \<^verbatim>\<open>BttClaims\<close> states it. \<^verbatim>\<open>Blk\<close>,
    \<^verbatim>\<open>BlkExample\<close>, \<^verbatim>\<open>BlkClaims\<close>: the block pool (\<^verbatim>\<open>blk.c\<close>) on top, refined to a list of block contents.
  \<^item> \<^verbatim>\<open>PmemLog\<close>, \<^verbatim>\<open>PmemLogOk\<close>, \<^verbatim>\<open>PmemLogRead\<close>, \<^verbatim>\<open>PmemLogSpec\<close>, \<^verbatim>\<open>LogClaims\<close>: the log pool (\<^verbatim>\<open>log.c\<close>), refined to a bounded
    list of bytes. The locale \<^verbatim>\<open>durable_log\<close> states the contract of a log that survives power failures, \<^verbatim>\<open>pool_log\<close> is its
    interpretation on the pool.
  \<^item> \<^verbatim>\<open>Ulog\<close>, \<^verbatim>\<open>MemOps\<close>: the unified log (\<^verbatim>\<open>ulog.c\<close>) and the operation contexts over it (\<^verbatim>\<open>memops.c\<close>, with the queue of
    \<^verbatim>\<open>vecq.h\<close>). \<^verbatim>\<open>UlogEffect\<close> holds the algebra of value entries byte by byte (carrying out a list again after any part of it
    has reached memory changes nothing; merging), \<^verbatim>\<open>UlogOk\<close>, \<^verbatim>\<open>UlogCrash\<close>, \<^verbatim>\<open>UlogCommit\<close> what a log holds and what processing,
    storing and recovering it does. \<^verbatim>\<open>MemOpsCommit\<close>, \<^verbatim>\<open>MemOpsProcess\<close> go through the phases of an operation and through
    recovery that is itself interrupted, \<^verbatim>\<open>MemOpsCollect\<close> through collecting, \<^verbatim>\<open>MemOpsRun\<close> through all of an operation. The locale \<^verbatim>\<open>atomic_steps\<close> of \<^verbatim>\<open>MemOpsSeq\<close> states the contract of a machine with atomic steps; \<^verbatim>\<open>redo\<close> is its interpretation
    on the operations. \<^verbatim>\<open>UlogExample\<close> is a small pool, \<^verbatim>\<open>UlogClaims\<close> states the properties.

  \<^bold>\<open>Bounds and fuel.\<close> The positions of a window are exact enough in doubles for windows below \<open>2 ^ 24\<close> cells; the
  construction of a graph assumes at most \<open>2 ^ 20\<close> vertices and base edges, iteration degrees below \<open>2 ^ 31\<close>, where the code has 32-bit
  counters. Iteration over a chain in a segment log has as much fuel as the log has entries (170), a chain never being longer.
  Connected components have \<open>n\<^sup>2 + 1\<close> rounds, since each round that changes a label lowers the sum of the labels, and
  breadth-first search \<open>n + 2\<close>, since each round reaches a new level; the theorems show that the fuel
  is never used up. Walking over chained logs has the size of the memory as fuel, each step consuming an entry of at least 16 bytes.

  \<^bold>\<open>Crash models.\<close> A store is durable after its flush and fence; before, each of its aligned groups of eight bytes may or may not
  have reached the media. The block translation table works on the byte ranges the namespace
  writes, the log pool and the redo log on \<^verbatim>\<open>pmem_memcpy\<close>, \<^verbatim>\<open>pmem_persist\<close> and \<^verbatim>\<open>pmem_drain\<close>; for the redo log all states the memory
  goes through are kept in a ghost list. That the checksum tells a stored log from its torn versions is a hypothesis on the bytes, checked for the example. DGAP flushes the cache lines of
  its arrays but orders nothing with the vertex table, so its properties are about clean shutdown and about the recovery scan.

  \<^bold>\<open>Not modelled.\<close> PageRank and betweenness centrality are sums of floating-point numbers whose order depends on the
  scheduling of threads. Reading and writing of files, command lines, timing and \<^verbatim>\<open>main\<close> functions are input and output. The parallel
  loops of the kernels run in one order. Of the object store, transactions, the heap and the lists, and of the redo log the properties of
  logs with extensions and of snapshots; the pool-set
  library, replication, tools and tests of the development kit are only called, or not used at all, by DGAP. The baselines
  of the evaluation (CSR, blocked adjacency lists, GraphOne, XPGraph, LLAMA) are other programs.
\<close>

end
